(* ===== verification/Prelude.thy ===== *)
theory Prelude
  imports Main "HOL-Library.Word" "HOL-Library.Monad_Syntax"
begin

text \<open>
  Shared vocabulary of the development: the machine-integer types of the C and C++ code,
  the rewrite collections that carry the component proofs, and generic facts about words,
  options and bounded loops that more than one component uses.
\<close>

unbundle bit_operations_syntax

subsection \<open>Machine integers\<close>

type_synonym u8 = "8 word"
type_synonym u32 = "32 word"
type_synonym u64 = "64 word"

text \<open>Signed 64-bit values are kept as their two's-complement bit pattern; \<open>sint\<close> reads them.\<close>

abbreviation INT64_MIN :: int where "INT64_MIN \<equiv> - (2 ^ 63)"
abbreviation INT64_MAX :: int where "INT64_MAX \<equiv> 2 ^ 63 - 1"
abbreviation UINT64_MAX :: int where "UINT64_MAX \<equiv> 2 ^ 64 - 1"
abbreviation UINT32_MAX :: u32 where "UINT32_MAX \<equiv> 0xFFFFFFFF"

subsection \<open>Rewrite collections\<close>

named_theorems mem_simps \<open>loads after stores in linear memory\<close>
named_theorems cell_simps \<open>reading a CelValue cell after the slot writers\<close>
named_theorems kernel_defs \<open>definitions of the slot-out kernels\<close>

subsection \<open>Words\<close>

lemma sint_range64: "INT64_MIN \<le> sint (x :: u64)" "sint (x :: u64) \<le> INT64_MAX"
  using sint_ge [of x] sint_lt [of x] by simp_all

lemma sint_word_of_int64:
  "INT64_MIN \<le> i \<Longrightarrow> i \<le> INT64_MAX \<Longrightarrow> sint (word_of_int i :: u64) = i"
  by (simp add: signed_take_bit_int_eq_self sint_sbintrunc')

lemma uint_range64: "0 \<le> uint (x :: u64)" "uint (x :: u64) \<le> UINT64_MAX"
  using uint_lt2p [of x] by simp_all

lemma uint_word_of_int64:
  "0 \<le> i \<Longrightarrow> i \<le> UINT64_MAX \<Longrightarrow> uint (word_of_int i :: u64) = i"
  by (simp add: take_bit_int_eq_self unsigned_of_int)

lemma sint_eq_uint64: "uint (x :: u64) < 2 ^ 63 \<Longrightarrow> sint x = uint x"
  by (simp add: sint_uint signed_take_bit_eq_if_positive bit_uint_iff bit_iff_odd take_bit_int_eq_self)

lemma sint_eq_iff64: "sint x = sint (y :: u64) \<longleftrightarrow> x = y"
  by (metis signed_word_eqI)

lemma uint_of_sint64: "uint (x :: u64) = sint x mod 2 ^ 64"
  by (simp add: uint_sint take_bit_eq_mod)

lemma sint_cases64: "sint (x :: u64) = (if uint x < 2 ^ 63 then uint x else uint x - 2 ^ 64)"
proof (cases "uint x < 2 ^ 63")
  case True
  then show ?thesis by (simp add: sint_eq_uint64)
next
  case False
  have "uint x mod 2 ^ 64 = uint x" using uint_lt2p [of x] by simp
  moreover have "sint x mod 2 ^ 64 = uint x" by (simp add: uint_of_sint64)
  moreover have "sint x < 2 ^ 63" "- (2 ^ 63) \<le> sint x" using sint_lt [of x] sint_ge [of x] by simp_all
  moreover have "uint x < 2 ^ 64" using uint_lt2p [of x] by simp
  ultimately show ?thesis using False by (smt (verit) mod_pos_pos_trivial mod_add_self2)
qed

lemma word_of_nat_unat_u32: "word_of_nat (unat (x :: u32)) = x"
  by simp

lemma unat_u32_lt: "unat (x :: u32) < 4294967296"
  using unsigned_less [of x, where ?'a = nat] by simp

lemma ucast_or_high_low:
  "ucast (ucast (x :: u64) :: u32) OR push_bit 32 (ucast (ucast (drop_bit 32 x) :: u32)) = x"
  by (rule bit_word_eqI) (auto simp: bit_simps)

end
