(* ===== verification/LinearMemory.thy ===== *)
theory LinearMemory
  imports Prelude
begin

text \<open>
  The shared linear memory (\<open>runtime/cel_memory.c\<close>) at byte granularity and the 24-byte
  \<open>CelValue\<close> cell of \<open>runtime/cel_data.h\<close>. On wasm32 \<open>cel_memory_base_()\<close> is 0, so a
  pointer is the byte offset itself; an address here is that offset as a \<open>nat\<close>, which is
  what the unsigned effective address of a wasm load or store is (it does not wrap).
  Multi-byte accesses are little-endian, as the wasm specification and the \<open>#error\<close> guard of
  \<open>cel_data.h\<close> require. Out-of-bounds traps are not modelled: every address is backed.
\<close>

type_synonym memory = "nat \<Rightarrow> u8"

subsection \<open>Little-endian loads and stores\<close>

definition load32 :: "memory \<Rightarrow> nat \<Rightarrow> u32" where
  "load32 m a = ucast (m a) OR push_bit 8 (ucast (m (a + 1)))
     OR push_bit 16 (ucast (m (a + 2))) OR push_bit 24 (ucast (m (a + 3)))"

definition store32 :: "memory \<Rightarrow> nat \<Rightarrow> u32 \<Rightarrow> memory" where
  "store32 m a w = m(a := ucast w, a + 1 := ucast (drop_bit 8 w),
      a + 2 := ucast (drop_bit 16 w), a + 3 := ucast (drop_bit 24 w))"

definition load64 :: "memory \<Rightarrow> nat \<Rightarrow> u64" where
  "load64 m a = ucast (load32 m a) OR push_bit 32 (ucast (load32 m (a + 4)))"

definition store64 :: "memory \<Rightarrow> nat \<Rightarrow> u64 \<Rightarrow> memory" where
  "store64 m a w = store32 (store32 m a (ucast w)) (a + 4) (ucast (drop_bit 32 w))"

lemma load32_store32 [mem_simps]: "load32 (store32 m a w) a = w"
proof (rule bit_word_eqI)
  fix n assume "n < LENGTH(32)"
  then show "bit (load32 (store32 m a w) a) n = bit w n"
    by (cases "n < 8"; cases "n < 16"; cases "n < 24")
      (auto simp: load32_def store32_def bit_simps)
qed

lemma store32_frame: "x < a \<or> a + 4 \<le> x \<Longrightarrow> store32 m a w x = m x"
  by (auto simp: store32_def)

lemma load32_cong:
  assumes "\<And>i. i < 4 \<Longrightarrow> m (a + i) = m' (a + i)"
  shows "load32 m a = load32 m' a"
  using assms [of 0] assms [of 1] assms [of 2] assms [of 3] by (simp add: load32_def)

lemma load32_store32_above [mem_simps]: "b + 4 \<le> a \<Longrightarrow> load32 (store32 m a w) b = load32 m b"
  by (rule load32_cong) (auto simp: store32_frame)

lemma load32_store32_below [mem_simps]: "a + 4 \<le> b \<Longrightarrow> load32 (store32 m a w) b = load32 m b"
  by (rule load32_cong) (auto simp: store32_frame)

lemma store64_frame: "x < a \<or> a + 8 \<le> x \<Longrightarrow> store64 m a w x = m x"
  by (auto simp: store64_def store32_frame)

lemma load64_store64 [mem_simps]: "load64 (store64 m a w) a = w"
  by (simp add: load64_def store64_def mem_simps ucast_or_high_low)

lemma load64_cong: "(\<And>i. i < 8 \<Longrightarrow> m (a + i) = m' (a + i)) \<Longrightarrow> load64 m a = load64 m' a"
  unfolding load64_def
  by (rule arg_cong2 [where f = "\<lambda>x y. ucast x OR push_bit 32 (ucast y)"]; rule load32_cong)
    (auto simp: add.assoc)

text \<open>
  Bytes outside a range are left alone. This is the frame condition of every writer: a store
  of \<open>n\<close> bytes at \<open>a\<close> changes nothing outside \<open>[a, a + n)\<close>.
\<close>

definition same_outside :: "nat \<Rightarrow> nat \<Rightarrow> memory \<Rightarrow> memory \<Rightarrow> bool" where
  "same_outside a n m m' \<longleftrightarrow> (\<forall>x. x < a \<or> a + n \<le> x \<longrightarrow> m' x = m x)"

lemma same_outside_refl [simp]: "same_outside a n m m"
  by (simp add: same_outside_def)

lemma same_outside_trans [trans]:
  "same_outside a n m m' \<Longrightarrow> same_outside a n m' m'' \<Longrightarrow> same_outside a n m m''"
  by (simp add: same_outside_def)

lemma same_outside_store32:
  "a \<le> b \<Longrightarrow> b + 4 \<le> a + n \<Longrightarrow> same_outside a n m (store32 m b w)"
  by (auto simp: same_outside_def store32_frame)

lemma same_outside_store64:
  "a \<le> b \<Longrightarrow> b + 8 \<le> a + n \<Longrightarrow> same_outside a n m (store64 m b w)"
  by (auto simp: same_outside_def store64_frame)

subsection \<open>The contract of a fixed-width memory object\<close>

text \<open>
  What the kernels rely on when they read and write through a typed pointer: a store is read
  back unchanged, it leaves the bytes outside its own range alone, and a load depends on its
  own range only. Disjoint objects therefore do not disturb each other.
\<close>

locale mem_object =
  fixes load :: "memory \<Rightarrow> nat \<Rightarrow> 'v"
    and store :: "memory \<Rightarrow> nat \<Rightarrow> 'v \<Rightarrow> memory"
    and width :: nat
  assumes load_store: "load (store m a v) a = v"
    and store_outside: "same_outside a width m (store m a v)"
    and load_local: "(\<And>i. i < width \<Longrightarrow> m (a + i) = m' (a + i)) \<Longrightarrow> load m a = load m' a"
begin

lemma load_frame:
  assumes "same_outside b n m m'" and "a + width \<le> b \<or> b + n \<le> a"
  shows "load m' a = load m a"
  using assms by (intro load_local) (auto simp: same_outside_def)

lemma load_store_other:
  assumes "a + width \<le> b \<or> b + width \<le> a"
  shows "load (store m b v) a = load m a"
  using store_outside assms by (rule load_frame)

end

interpretation cell32: mem_object load32 store32 4
  by unfold_locales (auto simp: mem_simps same_outside_store32 intro: load32_cong)

interpretation cell64: mem_object load64 store64 8
  by unfold_locales (auto simp: mem_simps same_outside_store64 intro: load64_cong)

subsection \<open>CelValue cells\<close>

text \<open>
  \<open>struct CelValue { uint32_t kind; uint32_t _pad; union payload; }\<close>, 24 bytes. The 16-byte
  union is kept as the two little-endian words \<open>cv_lo\<close> (payload bytes 0..7) and \<open>cv_hi\<close>
  (bytes 8..15); the union's arms are the views below.
\<close>

record cel_value =
  cv_kind :: u32
  cv_pad :: u32
  cv_lo :: u64
  cv_hi :: u64

text \<open>The \<open>CelKind\<close> enumeration; its numeric values are the wire values.\<close>

abbreviation CEL_NULL :: u32 where "CEL_NULL \<equiv> 0"
abbreviation CEL_BOOL :: u32 where "CEL_BOOL \<equiv> 1"
abbreviation CEL_INT :: u32 where "CEL_INT \<equiv> 2"
abbreviation CEL_UINT :: u32 where "CEL_UINT \<equiv> 3"
abbreviation CEL_DOUBLE :: u32 where "CEL_DOUBLE \<equiv> 4"
abbreviation CEL_STRING :: u32 where "CEL_STRING \<equiv> 5"
abbreviation CEL_BYTES :: u32 where "CEL_BYTES \<equiv> 6"
abbreviation CEL_LIST_ARENA :: u32 where "CEL_LIST_ARENA \<equiv> 7"
abbreviation CEL_MAP_ARENA :: u32 where "CEL_MAP_ARENA \<equiv> 8"
abbreviation CEL_MAP_HOST :: u32 where "CEL_MAP_HOST \<equiv> 9"
abbreviation CEL_MESSAGE :: u32 where "CEL_MESSAGE \<equiv> 10"
abbreviation CEL_TYPE :: u32 where "CEL_TYPE \<equiv> 11"
abbreviation CEL_DURATION :: u32 where "CEL_DURATION \<equiv> 12"
abbreviation CEL_TIMESTAMP :: u32 where "CEL_TIMESTAMP \<equiv> 13"
abbreviation CEL_OPTIONAL :: u32 where "CEL_OPTIONAL \<equiv> 14"
abbreviation CEL_UNKNOWN :: u32 where "CEL_UNKNOWN \<equiv> 15"
abbreviation CEL_ERROR :: u32 where "CEL_ERROR \<equiv> 16"
abbreviation CEL_LIST_HOST :: u32 where "CEL_LIST_HOST \<equiv> 17"
abbreviation CEL_IP :: u32 where "CEL_IP \<equiv> 18"
abbreviation CEL_CIDR :: u32 where "CEL_CIDR \<equiv> 19"

text \<open>The numeric error codes carried by a \<open>CEL_ERROR\<close> cell.\<close>

abbreviation CEL_ERR_OVERFLOW :: u32 where "CEL_ERR_OVERFLOW \<equiv> 10"
abbreviation CEL_ERR_DIVIDE_BY_ZERO :: u32 where "CEL_ERR_DIVIDE_BY_ZERO \<equiv> 11"
abbreviation CEL_ERR_MODULUS_BY_ZERO :: u32 where "CEL_ERR_MODULUS_BY_ZERO \<equiv> 12"
abbreviation CEL_ERR_TYPE_MISMATCH :: u32 where "CEL_ERR_TYPE_MISMATCH \<equiv> 13"
abbreviation CEL_ERR_NO_SUCH_KEY :: u32 where "CEL_ERR_NO_SUCH_KEY \<equiv> 15"
abbreviation CEL_ERR_DUPLICATE_KEY :: u32 where "CEL_ERR_DUPLICATE_KEY \<equiv> 16"
abbreviation CEL_ERR_INDEX_OUT_OF_BOUNDS :: u32 where "CEL_ERR_INDEX_OUT_OF_BOUNDS \<equiv> 17"
abbreviation CEL_ERR_INVALID_ARGUMENT :: u32 where "CEL_ERR_INVALID_ARGUMENT \<equiv> 18"
abbreviation CEL_ERR_FIELD_NOT_FOUND :: u32 where "CEL_ERR_FIELD_NOT_FOUND \<equiv> 20"

subsubsection \<open>Arms of the payload union\<close>

definition lo32 :: "u64 \<Rightarrow> u32" where "lo32 w = ucast w"
definition hi32 :: "u64 \<Rightarrow> u32" where "hi32 w = ucast (drop_bit 32 w)"
definition join32 :: "u32 \<Rightarrow> u32 \<Rightarrow> u64" where "join32 l h = ucast l OR push_bit 32 (ucast h)"

lemma lo32_join [simp]: "lo32 (join32 l h) = l"
  by (rule bit_word_eqI) (auto simp: lo32_def join32_def bit_simps)

lemma hi32_join [simp]: "hi32 (join32 l h) = h"
  by (rule bit_word_eqI) (auto simp: hi32_def join32_def bit_simps dest: bit_imp_le_length)

lemma join_lo_hi [simp]: "join32 (lo32 w) (hi32 w) = w"
  by (simp add: join32_def lo32_def hi32_def ucast_or_high_low)

definition pl_b :: "cel_value \<Rightarrow> u32" where "pl_b v = lo32 (cv_lo v)"
definition pl_err :: "cel_value \<Rightarrow> u32" where "pl_err v = lo32 (cv_lo v)"
definition pl_unk :: "cel_value \<Rightarrow> u32" where "pl_unk v = lo32 (cv_lo v)"
definition pl_opt :: "cel_value \<Rightarrow> u32" where "pl_opt v = lo32 (cv_lo v)"
definition pl_header_ptr :: "cel_value \<Rightarrow> u32" where "pl_header_ptr v = lo32 (cv_lo v)"
definition pl_s_ptr :: "cel_value \<Rightarrow> u32" where "pl_s_ptr v = lo32 (cv_lo v)"
definition pl_s_len :: "cel_value \<Rightarrow> u32" where "pl_s_len v = hi32 (cv_lo v)"
definition pl_i :: "cel_value \<Rightarrow> u64" where "pl_i v = cv_lo v"
definition pl_u :: "cel_value \<Rightarrow> u64" where "pl_u v = cv_lo v"
definition pl_d :: "cel_value \<Rightarrow> u64" where "pl_d v = cv_lo v"
definition pl_seconds :: "cel_value \<Rightarrow> u64" where "pl_seconds v = cv_lo v"
definition pl_nanos :: "cel_value \<Rightarrow> u32" where "pl_nanos v = lo32 (cv_hi v)"

lemmas pl_defs = pl_b_def pl_err_def pl_unk_def pl_opt_def pl_header_ptr_def pl_s_ptr_def
  pl_s_len_def pl_i_def pl_u_def pl_d_def pl_seconds_def pl_nanos_def

subsubsection \<open>Whole-cell loads and stores (struct assignment)\<close>

definition load_cv :: "memory \<Rightarrow> nat \<Rightarrow> cel_value" where
  "load_cv m a = \<lparr>cv_kind = load32 m a, cv_pad = load32 m (a + 4),
     cv_lo = load64 m (a + 8), cv_hi = load64 m (a + 16)\<rparr>"

definition store_cv :: "memory \<Rightarrow> nat \<Rightarrow> cel_value \<Rightarrow> memory" where
  "store_cv m a v = store64 (store64 (store32 (store32 m a (cv_kind v)) (a + 4) (cv_pad v))
     (a + 8) (cv_lo v)) (a + 16) (cv_hi v)"

lemma load64_store32_other [mem_simps]:
  "a + 8 \<le> b \<Longrightarrow> load64 (store32 m b w) a = load64 m a"
  "b + 4 \<le> a \<Longrightarrow> load64 (store32 m b w) a = load64 m a"
  by (rule cell64.load_frame [OF same_outside_store32 [where a = b and n = 4]]; simp)+

lemma load32_store64_other [mem_simps]:
  "a + 4 \<le> b \<Longrightarrow> load32 (store64 m b w) a = load32 m a"
  "b + 8 \<le> a \<Longrightarrow> load32 (store64 m b w) a = load32 m a"
  by (rule cell32.load_frame [OF same_outside_store64 [where a = b and n = 8]]; simp)+

lemma load64_store64_other [mem_simps]:
  "a + 8 \<le> b \<Longrightarrow> load64 (store64 m b w) a = load64 m a"
  "b + 8 \<le> a \<Longrightarrow> load64 (store64 m b w) a = load64 m a"
  by (rule cell64.load_store_other; simp)+

lemma load_cv_store_cv [mem_simps]: "load_cv (store_cv m a v) a = v"
  by (simp add: load_cv_def store_cv_def mem_simps)

lemma same_outside_store_cv: "same_outside a 24 m (store_cv m a v)"
proof -
  let ?m1 = "store32 m a (cv_kind v)"
  let ?m2 = "store32 ?m1 (a + 4) (cv_pad v)"
  let ?m3 = "store64 ?m2 (a + 8) (cv_lo v)"
  have "same_outside a 24 m ?m1" by (rule same_outside_store32) simp_all
  also have "same_outside a 24 ?m1 ?m2" by (rule same_outside_store32) simp_all
  also have "same_outside a 24 ?m2 ?m3" by (rule same_outside_store64) simp_all
  also have "same_outside a 24 ?m3 (store_cv m a v)"
    unfolding store_cv_def by (rule same_outside_store64) simp_all
  finally show ?thesis .
qed

lemma load_cv_local:
  assumes "\<And>i. i < 24 \<Longrightarrow> m (a + i) = m' (a + i)"
  shows "load_cv m a = load_cv m' a"
proof -
  have "load32 m (a + k) = load32 m' (a + k)" if "k \<le> 20" for k
    by (rule load32_cong) (use assms that in \<open>simp add: add.assoc\<close>)
  from this [of 0] this [of 4] this [of 8] this [of 12] this [of 16] this [of 20]
  show ?thesis by (simp add: load_cv_def load64_def add.assoc)
qed

interpretation cv_cell: mem_object load_cv store_cv 24
proof unfold_locales
  fix m m' :: memory and a and v
  show "load_cv (store_cv m a v) a = v" by (rule load_cv_store_cv)
  show "same_outside a 24 m (store_cv m a v)" by (rule same_outside_store_cv)
  assume "\<And>i. i < 24 \<Longrightarrow> m (a + i) = m' (a + i)"
  then show "load_cv m a = load_cv m' a" by (rule load_cv_local)
qed

lemma load_cv_store_cv_other [mem_simps]:
  "a + 24 \<le> b \<Longrightarrow> load_cv (store_cv m b v) a = load_cv m a"
  "b + 24 \<le> a \<Longrightarrow> load_cv (store_cv m b v) a = load_cv m a"
  by (rule cv_cell.load_store_other; simp)+

text \<open>Field stores into a cell, seen through \<open>load_cv\<close>.\<close>

lemma load_cv_store_kind [mem_simps]:
  "load_cv (store32 m a k) a = (load_cv m a)\<lparr>cv_kind := k\<rparr>"
  by (simp add: load_cv_def mem_simps)

lemma load_cv_store_pad [mem_simps]:
  "load_cv (store32 m (a + 4) p) a = (load_cv m a)\<lparr>cv_pad := p\<rparr>"
  by (simp add: load_cv_def mem_simps)

lemma load64_store32_low: "load64 (store32 m a w) a = join32 w (hi32 (load64 m a))"
  by (simp add: load64_def mem_simps join32_def hi32_def)
    (rule bit_word_eqI; auto simp: bit_simps dest: bit_imp_le_length)

lemma load64_store32_high: "load64 (store32 m (a + 4) w) a = join32 (lo32 (load64 m a)) w"
  by (simp add: load64_def mem_simps join32_def lo32_def)
    (rule bit_word_eqI; auto simp: bit_simps dest: bit_imp_le_length)

lemma load_cv_store_lo32 [mem_simps]:
  "load_cv (store32 m (a + 8) w) a = (load_cv m a)\<lparr>cv_lo := join32 w (hi32 (cv_lo (load_cv m a)))\<rparr>"
  by (simp add: load_cv_def mem_simps load64_store32_low)

lemma load_cv_store_hi32 [mem_simps]:
  "load_cv (store32 m (a + 12) w) a = (load_cv m a)\<lparr>cv_lo := join32 (lo32 (cv_lo (load_cv m a))) w\<rparr>"
  using load64_store32_high [of m "a + 8" w]
  by (simp add: load_cv_def mem_simps add.assoc)

lemma load_cv_store_lo [mem_simps]:
  "load_cv (store64 m (a + 8) w) a = (load_cv m a)\<lparr>cv_lo := w\<rparr>"
  by (simp add: load_cv_def mem_simps)

lemma load_cv_store_hi [mem_simps]:
  "load_cv (store64 m (a + 16) w) a = (load_cv m a)\<lparr>cv_hi := w\<rparr>"
  by (simp add: load_cv_def mem_simps)

subsection \<open>Byte spans\<close>

text \<open>The \<open>n\<close> bytes at \<open>a\<close>, and \<open>memcpy\<close> / \<open>memset\<close> of a byte list into memory.\<close>

definition bytes_at :: "memory \<Rightarrow> nat \<Rightarrow> nat \<Rightarrow> u8 list" where
  "bytes_at m a n = map (\<lambda>i. m (a + i)) [0..<n]"

fun store_bytes :: "memory \<Rightarrow> nat \<Rightarrow> u8 list \<Rightarrow> memory" where
  "store_bytes m a [] = m"
| "store_bytes m a (b # bs) = store_bytes (m(a := b)) (a + 1) bs"

lemma length_bytes_at [simp]: "length (bytes_at m a n) = n"
  by (simp add: bytes_at_def)

lemma bytes_at_nth [simp]: "i < n \<Longrightarrow> bytes_at m a n ! i = m (a + i)"
  by (simp add: bytes_at_def)

lemma bytes_at_0 [simp]: "bytes_at m a 0 = []"
  by (simp add: bytes_at_def)

lemma bytes_at_Suc: "bytes_at m a (Suc n) = m a # bytes_at m (a + 1) n"
  by (simp add: bytes_at_def upt_conv_Cons map_Suc_upt [symmetric] del: upt_Suc)

lemma bytes_at_append: "bytes_at m a (k + n) = bytes_at m a k @ bytes_at m (a + k) n"
  by (rule nth_equalityI) (auto simp: nth_append)

lemma bytes_at_cong:
  "(\<And>i. i < n \<Longrightarrow> m (a + i) = m' (a + i)) \<Longrightarrow> bytes_at m a n = bytes_at m' a n"
  by (simp add: bytes_at_def)

lemma store_bytes_apply:
  "store_bytes m a bs x = (if a \<le> x \<and> x < a + length bs then bs ! (x - a) else m x)"
  by (induction bs arbitrary: m a) (auto simp: nth_Cons')

lemma bytes_at_store_bytes [mem_simps]: "bytes_at (store_bytes m a bs) a (length bs) = bs"
  by (rule nth_equalityI) (auto simp: store_bytes_apply)

lemma same_outside_store_bytes:
  "a \<le> b \<Longrightarrow> b + length bs \<le> a + n \<Longrightarrow> same_outside a n m (store_bytes m b bs)"
  by (auto simp: same_outside_def store_bytes_apply)

lemma bytes_at_frame:
  assumes "same_outside b k m m'" and "a + n \<le> b \<or> b + k \<le> a"
  shows "bytes_at m' a n = bytes_at m a n"
  using assms by (intro bytes_at_cong) (auto simp: same_outside_def)

end
