(* ===== verification/Arena.thy ===== *)
theory Arena
  imports LinearMemory
begin

text \<open>
  The runtime state and the bump arena of \<open>runtime/cel_arena.c\<close>, in its wasm build: a chain
  of malloc'd chunks, of which allocations go into the last one. The chunk records are C
  structs the allocator keeps for itself, so they are kept beside the byte memory.

  \<open>malloc\<close> is wasi-libc's, not this repository's, so it is a parameter: \<open>os_malloc s k n\<close> is
  the answer of the \<open>k\<close>-th call for \<open>n\<close> bytes (0 is NULL) and \<open>os_calls\<close> counts the calls made.
  What the code relies on is the predicate \<open>malloc_ok\<close> below. A trap is \<open>None\<close>.
\<close>

record arena_chunk =
  ch_base :: u32
  ch_capacity :: u32
  ch_cursor :: u32

record rt =
  mem :: memory
  chunks :: "arena_chunk list"
  total_used :: u32
  total_cap :: u32
  initialized :: bool
  oom_block :: u32
  os_malloc :: "nat \<Rightarrow> u32 \<Rightarrow> u32"
  os_calls :: nat

abbreviation CEL_ARENA_MIN_GROW_BYTES :: u32 where "CEL_ARENA_MIN_GROW_BYTES \<equiv> 4096"
abbreviation CEL_ARENA_MAX_GROW_BYTES :: u32 where "CEL_ARENA_MAX_GROW_BYTES \<equiv> 1048576"
abbreviation CELWASM_ARENA_OOM_BLOCK_BYTES :: u32 where "CELWASM_ARENA_OOM_BLOCK_BYTES \<equiv> 128"
abbreviation CELWASM_RESERVED_LOW_MEMORY_BYTES :: nat where
  "CELWASM_RESERVED_LOW_MEMORY_BYTES \<equiv> 262144"

subsection \<open>The allocator\<close>

definition malloc :: "u32 \<Rightarrow> rt \<Rightarrow> u32 \<times> rt" where
  "malloc n s = (os_malloc s (os_calls s) n, s\<lparr>os_calls := Suc (os_calls s)\<rparr>)"

definition alloc_chunk :: "u32 \<Rightarrow> rt \<Rightarrow> arena_chunk option \<times> rt" where
  "alloc_chunk want_bytes s =
     (let (c, s) = malloc 16 s in
      if c = 0 then (None, s)
      else let (p, s) = malloc want_bytes s in
        if p = 0 then (None, s)
        else (Some \<lparr>ch_base = p, ch_capacity = want_bytes, ch_cursor = 0\<rparr>, s))"

definition align_up_8 :: "u32 \<Rightarrow> u32" where
  "align_up_8 n = (n + 7) AND NOT 7"

definition arena_init :: "u32 \<Rightarrow> rt \<Rightarrow> rt option" where
  "arena_init cap_bytes s =
     (if initialized s then
        (if chunks s \<noteq> [] \<and> ch_capacity (hd (chunks s)) \<noteq> cap_bytes then None else Some s)
      else
        (case alloc_chunk cap_bytes s of
           (None, s) \<Rightarrow> Some s
         | (Some c, s) \<Rightarrow>
             (let s = s\<lparr>chunks := [c], total_cap := cap_bytes\<rparr>;
                  (oom, s) = malloc CELWASM_ARENA_OOM_BLOCK_BYTES s;
                  s = s\<lparr>oom_block := oom\<rparr>;
                  s = (if oom \<noteq> 0
                       then s\<lparr>mem := store_bytes (mem s) (unat oom)
                              (replicate (unat CELWASM_ARENA_OOM_BLOCK_BYTES) 0)\<rparr>
                       else s)
              in Some (s\<lparr>total_used := 0, initialized := True\<rparr>))))"

definition pick_grow_size :: "u32 \<Rightarrow> u32 \<Rightarrow> u32" where
  "pick_grow_size prev_capacity at_least_bytes =
     (let want = prev_capacity * 2;
          want = (if want < CEL_ARENA_MIN_GROW_BYTES then CEL_ARENA_MIN_GROW_BYTES else want);
          want = (if want > CEL_ARENA_MAX_GROW_BYTES then CEL_ARENA_MAX_GROW_BYTES else want)
      in if at_least_bytes > want then at_least_bytes else want)"

text \<open>The tail bump shared by the fast path and the path that has just grown the chain.\<close>

definition bump_tail :: "u32 \<Rightarrow> rt \<Rightarrow> u32 \<times> rt" where
  "bump_tail need s =
     (let tail = last (chunks s);
          p = ch_base tail + ch_cursor tail
      in (p, s\<lparr>chunks := butlast (chunks s) @ [tail\<lparr>ch_cursor := ch_cursor tail + need\<rparr>],
               total_used := total_used s + need,
               mem := store_bytes (mem s) (unat p) (replicate (unat need) 0)\<rparr>))"

definition arena_alloc :: "u32 \<Rightarrow> rt \<Rightarrow> (u32 \<times> rt) option" where
  "arena_alloc n s =
     (if n > UINT32_MAX - 7 then Some (0, s)
      else
        (let need = align_up_8 n;
             need = (if need = 0 then 8 else need)
         in if \<not> initialized s then None
            else (let tail = last (chunks s) in
              if need > ch_capacity tail - ch_cursor tail then
                (let grow_bytes = pick_grow_size (ch_capacity tail) need in
                 case alloc_chunk grow_bytes s of
                   (None, s) \<Rightarrow> Some (0, s)
                 | (Some nc, s) \<Rightarrow>
                     Some (bump_tail need
                       (s\<lparr>chunks := chunks s @ [nc], total_cap := total_cap s + grow_bytes\<rparr>)))
              else Some (bump_tail need s))))"

definition arena_oom_block :: "rt \<Rightarrow> u32" where
  "arena_oom_block s = oom_block s"

definition arena_reset :: "rt \<Rightarrow> rt" where
  "arena_reset s =
     (case chunks s of
        [] \<Rightarrow> s
      | c # _ \<Rightarrow> s\<lparr>chunks := [c\<lparr>ch_cursor := 0\<rparr>], total_used := 0, total_cap := ch_capacity c\<rparr>)"

definition arena_cursor :: "rt \<Rightarrow> u32" where
  "arena_cursor s = (case chunks s of [] \<Rightarrow> 0 | c # _ \<Rightarrow> ch_cursor c)"

definition arena_capacity :: "rt \<Rightarrow> u32" where
  "arena_capacity s = total_cap s"

text \<open>\<open>cel_value_at(off)\<close>: the pointer is the offset; offset 0 is the NULL pointer, address 0.\<close>

definition cel_value_at :: "u32 \<Rightarrow> nat" where
  "cel_value_at off = unat off"

abbreviation cv :: "rt \<Rightarrow> u32 \<Rightarrow> cel_value" where
  "cv s slot \<equiv> load_cv (mem s) (cel_value_at slot)"

subsection \<open>Well-formed arenas\<close>

definition block :: "u32 \<Rightarrow> u32 \<Rightarrow> nat set" where
  "block p n = {unat p ..< unat p + unat n}"

definition chunk_used :: "arena_chunk \<Rightarrow> nat set" where
  "chunk_used c = block (ch_base c) (ch_cursor c)"

definition chunk_range :: "arena_chunk \<Rightarrow> nat set" where
  "chunk_range c = block (ch_base c) (ch_capacity c)"

definition arena_used :: "rt \<Rightarrow> nat set" where
  "arena_used s = (\<Union>c \<in> set (chunks s). chunk_used c)"

definition chunk_ok :: "arena_chunk \<Rightarrow> bool" where
  "chunk_ok c \<longleftrightarrow> 8 dvd unat (ch_base c) \<and> CELWASM_RESERVED_LOW_MEMORY_BYTES \<le> unat (ch_base c)
     \<and> unat (ch_base c) + unat (ch_capacity c) \<le> 2 ^ 32 - 1
     \<and> ch_cursor c \<le> ch_capacity c \<and> 8 dvd unat (ch_cursor c)"

definition oom_range :: "rt \<Rightarrow> nat set" where
  "oom_range s = (if oom_block s = 0 then {} else block (oom_block s) CELWASM_ARENA_OOM_BLOCK_BYTES)"

text \<open>The chunks are well formed and do not overlap, and the counters are the sums they stand for;
  the emergency block lies outside every chunk.\<close>

definition arena_inv :: "rt \<Rightarrow> bool" where
  "arena_inv s \<longleftrightarrow> initialized s \<and> chunks s \<noteq> [] \<and> list_all chunk_ok (chunks s)
     \<and> sorted_wrt (\<lambda>c d. chunk_range c \<inter> chunk_range d = {}) (chunks s)
     \<and> (\<forall>c \<in> set (chunks s). chunk_range c \<inter> oom_range s = {})
     \<and> total_used s = sum_list (map ch_cursor (chunks s))
     \<and> total_cap s = sum_list (map ch_capacity (chunks s))"

text \<open>
  What the code relies on of \<open>malloc\<close> until the next \<open>free\<close>: a block it returns is aligned,
  inside the address space, above the reserved low region (\<open>--global-base\<close>), and overlaps
  neither a live chunk nor the emergency block nor any other block it returns.
\<close>

definition malloc_ok :: "rt \<Rightarrow> bool" where
  "malloc_ok s \<longleftrightarrow>
     (\<forall>k n. os_calls s \<le> k \<and> os_malloc s k n \<noteq> 0 \<longrightarrow>
        8 dvd unat (os_malloc s k n)
        \<and> CELWASM_RESERVED_LOW_MEMORY_BYTES \<le> unat (os_malloc s k n)
        \<and> unat (os_malloc s k n) + unat n \<le> 2 ^ 32 - 1
        \<and> block (os_malloc s k n) n \<inter> oom_range s = {}
        \<and> (\<forall>c \<in> set (chunks s). block (os_malloc s k n) n \<inter> chunk_range c = {}))
     \<and> (\<forall>k n k' n'. os_calls s \<le> k \<and> k < k' \<and> os_malloc s k n \<noteq> 0 \<and> os_malloc s k' n' \<noteq> 0 \<longrightarrow>
        block (os_malloc s k n) n \<inter> block (os_malloc s k' n') n' = {})"


subsection \<open>The allocator keeps arenas well formed\<close>

lemma unat_align_up_8:
  assumes "n \<le> UINT32_MAX - 7"
  shows "unat (align_up_8 n) = 8 * ((unat n + 7) div 8)"
proof -
  have n: "unat n \<le> 4294967288" using assms by (simp add: word_le_nat_alt)
  have seven: "(7 :: u32) = mask 3" by (simp add: mask_eq_decr_exp)
  have sum: "unat (n + 7) = unat n + 7" using n by (simp add: unat_word_ariths)
  have "align_up_8 n = push_bit 3 (drop_bit 3 (n + 7))"
    unfolding align_up_8_def by (rule bit_word_eqI) (auto simp: bit_simps mask_eq_decr_exp [symmetric] seven)
  also have "\<dots> = (n + 7) - take_bit 3 (n + 7)"
    using bits_ident [of 3 "n + 7"] by (simp add: eq_diff_eq)
  finally have "align_up_8 n = (n + 7) - take_bit 3 (n + 7)" .
  moreover have "unat (take_bit 3 (n + 7)) = (unat n + 7) mod 8"
    using sum by (simp add: take_bit_eq_mod unat_mod)
  ultimately show ?thesis using sum
    by (simp add: unat_sub_if' word_le_nat_alt minus_mod_eq_mult_div)
qed

text \<open>The bytes an allocation of \<open>n\<close> really takes.\<close>

definition alloc_need :: "u32 \<Rightarrow> u32" where
  "alloc_need n = (if align_up_8 n = 0 then 8 else align_up_8 n)"

lemma alloc_need_ge:
  assumes "n \<le> UINT32_MAX - 7"
  shows "unat n \<le> unat (alloc_need n)" "8 dvd unat (alloc_need n)" "8 \<le> unat (alloc_need n)"
    "unat (alloc_need n) \<le> 4294967288"
proof -
  have n: "unat n \<le> 4294967288" using assms by (simp add: word_le_nat_alt)
  note a = unat_align_up_8 [OF assms]
  have z: "align_up_8 n = 0 \<longleftrightarrow> unat n = 0"
    unfolding unat_eq_0 [symmetric] a by presburger
  show "unat n \<le> unat (alloc_need n)" "8 dvd unat (alloc_need n)" "8 \<le> unat (alloc_need n)"
    "unat (alloc_need n) \<le> 4294967288"
    using a z n by (auto simp: alloc_need_def)
qed

lemma mem_block: "x \<in> block p n \<longleftrightarrow> unat p \<le> x \<and> x < unat p + unat n"
  by (simp add: block_def)

lemma chunk_ok_word_sums:
  assumes "chunk_ok c"
  shows "unat (ch_base c + ch_cursor c) = unat (ch_base c) + unat (ch_cursor c)"
    and "need \<le> ch_capacity c - ch_cursor c \<Longrightarrow>
      unat (ch_cursor c + need) = unat (ch_cursor c) + unat need"
    and "need \<le> ch_capacity c - ch_cursor c \<Longrightarrow>
      unat (ch_cursor c) + unat need \<le> unat (ch_capacity c)"
    and "chunk_used c \<subseteq> chunk_range c"
proof -
  have b: "unat (ch_base c) + unat (ch_capacity c) \<le> 4294967295"
    "unat (ch_cursor c) \<le> unat (ch_capacity c)"
    using assms by (simp_all add: chunk_ok_def word_le_nat_alt)
  then show "unat (ch_base c + ch_cursor c) = unat (ch_base c) + unat (ch_cursor c)"
    by (simp add: unat_word_ariths)
  show "chunk_used c \<subseteq> chunk_range c" using b by (auto simp: chunk_used_def chunk_range_def block_def)
  assume n: "need \<le> ch_capacity c - ch_cursor c"
  then show le: "unat (ch_cursor c) + unat need \<le> unat (ch_capacity c)"
    using b by (simp add: word_le_nat_alt unat_sub)
  show "unat (ch_cursor c + need) = unat (ch_cursor c) + unat need"
    using le b by (simp add: unat_word_ariths)
qed

lemma chunk_range_cursor [simp]: "chunk_range (c\<lparr>ch_cursor := k\<rparr>) = chunk_range c"
  by (simp add: chunk_range_def)

text \<open>One successful bump: what it returns, what it keeps and what it touches.\<close>

definition fresh_block :: "u32 \<Rightarrow> u32 \<Rightarrow> rt \<Rightarrow> rt \<Rightarrow> bool" where
  "fresh_block p need s s' \<longleftrightarrow>
     8 dvd unat p \<and> CELWASM_RESERVED_LOW_MEMORY_BYTES \<le> unat p
     \<and> unat p + unat need \<le> 2 ^ 32 - 1
     \<and> block p need \<inter> arena_used s = {} \<and> arena_used s' = arena_used s \<union> block p need
     \<and> mem s' = store_bytes (mem s) (unat p) (replicate (unat need) 0)"

lemma arena_used_snoc: "chunks s = cs @ [c] \<Longrightarrow> arena_used s = (\<Union>d \<in> set cs. chunk_used d) \<union> chunk_used c"
  by (auto simp: arena_used_def)

lemma bump_tail_fresh:
  assumes inv: "arena_inv s" and room: "need \<le> ch_capacity (last (chunks s)) - ch_cursor (last (chunks s))"
    and al: "8 dvd unat need" and bt: "bump_tail need s = (p, s')"
  shows "arena_inv s'" and "fresh_block p need s s'"
    and "os_malloc s' = os_malloc s" "os_calls s' = os_calls s" "oom_block s' = oom_block s"
    and "map chunk_range (chunks s') = map chunk_range (chunks s)"
proof -
  obtain cs c where ch: "chunks s = cs @ [c]" using inv by (metis arena_inv_def append_butlast_last_id)
  have okc: "chunk_ok c" and okcs: "list_all chunk_ok cs"
    and oomc: "chunk_range c \<inter> oom_range s = {}"
    and dis: "\<And>d. d \<in> set cs \<Longrightarrow> chunk_range d \<inter> chunk_range c = {}"
    and so: "sorted_wrt (\<lambda>c d. chunk_range c \<inter> chunk_range d = {}) cs"
    using inv by (auto simp: arena_inv_def ch sorted_wrt_append)
  have room': "need \<le> ch_capacity c - ch_cursor c" using room by (simp add: ch)
  note w = chunk_ok_word_sums [OF okc] chunk_ok_word_sums(2,3) [OF okc room']
  let ?c = "c\<lparr>ch_cursor := ch_cursor c + need\<rparr>"
  have p: "p = ch_base c + ch_cursor c" and ch': "chunks s' = cs @ [?c]"
    and mem': "mem s' = store_bytes (mem s) (unat p) (replicate (unat need) 0)"
    and tu: "total_used s' = total_used s + need"
    and rest: "total_cap s' = total_cap s" "initialized s' = initialized s" "oom_range s' = oom_range s"
    using bt by (auto simp: bump_tail_def ch Let_def oom_range_def)
  show "os_malloc s' = os_malloc s" "os_calls s' = os_calls s" "oom_block s' = oom_block s"
    using bt by (auto simp: bump_tail_def Let_def)
  show "map chunk_range (chunks s') = map chunk_range (chunks s)" by (simp add: ch ch')
  have "chunk_ok ?c"
    using okc al w by (auto simp: chunk_ok_def word_le_nat_alt)
  then show "arena_inv s'"
    using inv okcs so dis oomc by (auto simp: arena_inv_def ch ch' tu rest sorted_wrt_append algebra_simps)
  have sub: "block p need \<subseteq> chunk_range c"
    using w by (auto simp: p mem_block chunk_range_def)
  have "block p need \<inter> arena_used s = {}"
  proof -
    have "block p need \<inter> chunk_used c = {}" using w by (auto simp: p mem_block chunk_used_def)
    moreover have "block p need \<inter> chunk_used d = {}" if "d \<in> set cs" for d
      using dis [OF that] sub chunk_ok_word_sums(4) [of d] okcs that by (fastforce simp: list_all_iff)
    ultimately show ?thesis by (auto simp: arena_used_snoc [OF ch])
  qed
  moreover have "chunk_used ?c = chunk_used c \<union> block p need"
    using w by (auto simp: p mem_block chunk_used_def)
  ultimately show "fresh_block p need s s'"
    using okc w al by (auto simp: fresh_block_def arena_used_snoc [OF ch] arena_used_snoc [OF ch'] mem' p chunk_ok_def)
qed

lemma pick_grow_size_ge: "at_least \<le> pick_grow_size prev at_least"
  by (auto simp: pick_grow_size_def Let_def)

lemma alloc_chunk_Some:
  assumes "alloc_chunk n s = (Some c, s')"
  shows "c = \<lparr>ch_base = os_malloc s (Suc (os_calls s)) n, ch_capacity = n, ch_cursor = 0\<rparr>"
    "ch_base c \<noteq> 0" "s' = s\<lparr>os_calls := Suc (Suc (os_calls s))\<rparr>"
  using assms by (auto simp: alloc_chunk_def malloc_def Let_def split: if_splits)

lemma alloc_chunk_None:
  assumes "alloc_chunk n s = (None, s')"
  shows "\<exists>k \<ge> os_calls s. s' = s\<lparr>os_calls := k\<rparr>"
proof -
  have "s' = s\<lparr>os_calls := Suc (os_calls s)\<rparr> \<or> s' = s\<lparr>os_calls := Suc (Suc (os_calls s))\<rparr>"
    using assms by (auto simp: alloc_chunk_def malloc_def Let_def split: if_splits)
  then show ?thesis by (metis le_SucI order_refl)
qed

text \<open>Asking \<open>malloc\<close> more often, without linking the answer in, keeps both invariants.\<close>

lemma arena_inv_os_calls [simp]: "arena_inv (s\<lparr>os_calls := k\<rparr>) = arena_inv s"
  by (simp add: arena_inv_def oom_range_def)

lemma arena_used_os_calls [simp]: "arena_used (s\<lparr>os_calls := k\<rparr>) = arena_used s"
  by (simp add: arena_used_def)

lemma oom_range_os_calls [simp]: "oom_range (s\<lparr>os_calls := k\<rparr>) = oom_range s"
  by (simp add: oom_range_def)

lemma malloc_ok_later: "malloc_ok s \<Longrightarrow> os_calls s \<le> k \<Longrightarrow> malloc_ok (s\<lparr>os_calls := k\<rparr>)"
  unfolding malloc_ok_def by simp

lemma malloc_ok_same_ranges:
  assumes "malloc_ok s" "os_malloc s' = os_malloc s" "os_calls s' = os_calls s"
    "map chunk_range (chunks s') = map chunk_range (chunks s)" "oom_range s' = oom_range s"
  shows "malloc_ok s'"
proof -
  have "chunk_range ` set (chunks s') = chunk_range ` set (chunks s)"
    by (metis assms(4) list.set_map)
  then have "(\<forall>c \<in> set (chunks s'). B \<inter> chunk_range c = {}) = (\<forall>c \<in> set (chunks s). B \<inter> chunk_range c = {})" for B
    by (metis (no_types, lifting) image_iff)
  with assms show ?thesis unfolding malloc_ok_def by simp
qed

text \<open>Linking a freshly malloc'd chunk at the tail of the chain.\<close>

lemma link_chunk:
  assumes inv: "arena_inv s" and mok: "malloc_ok s"
    and ac: "alloc_chunk n s = (Some c, s1)"
  defines "s2 \<equiv> s1\<lparr>chunks := chunks s1 @ [c], total_cap := total_cap s1 + n\<rparr>"
  shows "arena_inv s2" "malloc_ok s2" "arena_used s2 = arena_used s" "mem s2 = mem s"
    "oom_block s2 = oom_block s" "last (chunks s2) = c"
proof -
  note c = alloc_chunk_Some [OF ac]
  let ?p = "os_malloc s (Suc (os_calls s)) n"
  have nz: "?p \<noteq> 0" using c by simp
  have p: "8 dvd unat ?p" "CELWASM_RESERVED_LOW_MEMORY_BYTES \<le> unat ?p"
    "unat ?p + unat n \<le> 2 ^ 32 - 1" "block ?p n \<inter> oom_range s = {}" "\<And>d. d \<in> set (chunks s) \<Longrightarrow> block ?p n \<inter> chunk_range d = {}"
    using mok nz unfolding malloc_ok_def by (metis le_SucI order_refl)+
  have rc: "chunk_range c = block ?p n" by (simp add: c chunk_range_def)
  have uc: "chunk_used c = {}" by (simp add: c chunk_used_def block_def)
  have s2: "chunks s2 = chunks s @ [c]" "os_calls s2 = Suc (Suc (os_calls s))" "os_malloc s2 = os_malloc s"
    "total_cap s2 = total_cap s + n" "total_used s2 = total_used s" "initialized s2 = initialized s" "oom_range s2 = oom_range s"
    by (simp_all add: s2_def c(3) oom_range_def)
  have "chunk_ok c" using p by (simp add: chunk_ok_def c)
  then show "arena_inv s2"
    using inv p(4,5) by (auto simp: arena_inv_def s2 sorted_wrt_append rc c(1) [symmetric]) (auto simp: c)
  have later: "block (os_malloc s k n') n' \<inter> block ?p n = {}" if "Suc (os_calls s) < k" "os_malloc s k n' \<noteq> 0" for k n'
    using mok nz that unfolding malloc_ok_def by (metis Int_commute le_SucI order_refl)
  have "malloc_ok (s\<lparr>os_calls := Suc (Suc (os_calls s))\<rparr>)" using mok by (rule malloc_ok_later) simp
  then show "malloc_ok s2"
    unfolding malloc_ok_def by (auto simp: s2 rc later)
  show "arena_used s2 = arena_used s" using uc by (auto simp: arena_used_def s2)
  show "mem s2 = mem s" "oom_block s2 = oom_block s" "last (chunks s2) = c" by (simp_all add: s2_def c(3))
qed


definition arena_ok :: "rt \<Rightarrow> bool" where
  "arena_ok s \<longleftrightarrow> arena_inv s \<and> malloc_ok s"

lemma oom_range_eq: "oom_block s' = oom_block s \<Longrightarrow> oom_range s' = oom_range s"
  by (simp add: oom_range_def)

text \<open>The two outcomes of an allocation in a well-formed arena.\<close>

lemma arena_alloc_cases:
  assumes ok: "arena_ok s"
  obtains (fail) s' where "arena_alloc n s = Some (0, s')" "arena_ok s'"
      "mem s' = mem s" "arena_used s' = arena_used s" "oom_block s' = oom_block s"
  | (fresh) p s' where "arena_alloc n s = Some (p, s')" "arena_ok s'" "n \<le> UINT32_MAX - 7"
      "fresh_block p (alloc_need n) s s'" "oom_block s' = oom_block s"
proof (cases "n > UINT32_MAX - 7")
  case True
  then show thesis using fail [of s] ok by (simp add: arena_alloc_def)
next
  case False
  then have n: "n \<le> UINT32_MAX - 7" by simp
  have inv: "arena_inv s" and mok: "malloc_ok s" and init: "initialized s"
    using ok by (simp_all add: arena_ok_def arena_inv_def)
  let ?need = "alloc_need n" and ?tail = "last (chunks s)"
  let ?grow = "pick_grow_size (ch_capacity ?tail) ?need"
  have eq: "arena_alloc n s =
      (if ?need > ch_capacity ?tail - ch_cursor ?tail then
         (case alloc_chunk ?grow s of
            (None, s) \<Rightarrow> Some (0, s)
          | (Some nc, s) \<Rightarrow> Some (bump_tail ?need
              (s\<lparr>chunks := chunks s @ [nc], total_cap := total_cap s + ?grow\<rparr>)))
       else Some (bump_tail ?need s))"
    unfolding arena_alloc_def Let_def alloc_need_def [symmetric] using False init by simp
  show thesis
  proof (cases "?need > ch_capacity ?tail - ch_cursor ?tail")
    case False
    obtain p s' where bt: "bump_tail ?need s = (p, s')" by fastforce
    note b = bump_tail_fresh [OF inv _ alloc_need_ge(2) [OF n] bt]
    have room: "?need \<le> ch_capacity ?tail - ch_cursor ?tail" using False by simp
    have "malloc_ok s'" using mok by (rule malloc_ok_same_ranges) (use b [OF room] in \<open>auto simp: oom_range_def\<close>)
    then show thesis
      using fresh [of p s'] False b [OF room] bt n by (simp add: eq arena_ok_def)
  next
    case grow: True
    show thesis
    proof (cases "alloc_chunk ?grow s")
      case (Pair r s1)
      show thesis
      proof (cases r)
        case None
        then obtain k where "k \<ge> os_calls s" "s1 = s\<lparr>os_calls := k\<rparr>"
          using alloc_chunk_None Pair by blast
        then show thesis
          using fail [of s1] grow inv mok Pair None by (simp add: eq arena_ok_def malloc_ok_later)
      next
        case (Some c)
        let ?s2 = "s1\<lparr>chunks := chunks s1 @ [c], total_cap := total_cap s1 + ?grow\<rparr>"
        note l = link_chunk [OF inv mok Pair [unfolded Some]]
        obtain p s' where bt: "bump_tail ?need ?s2 = (p, s')" by fastforce
        have "ch_capacity c = ?grow" "ch_cursor c = 0"
          using alloc_chunk_Some [OF Pair [unfolded Some]] by simp_all
        then have room: "?need \<le> ch_capacity (last (chunks ?s2)) - ch_cursor (last (chunks ?s2))"
          by (simp add: pick_grow_size_ge)
        note b = bump_tail_fresh [OF l(1) room alloc_need_ge(2) [OF n] bt]
        have "malloc_ok s'" using l(2)
          by (rule malloc_ok_same_ranges) (rule b oom_range_eq [OF b(5)])+
        then show thesis
          using fresh [of p s'] grow b bt n Pair Some l by (simp add: eq arena_ok_def fresh_block_def)
      qed
    qed
  qed
qed


subsection \<open>Exhaustion\<close>

text \<open>The arena answers one of the requests, made in this order, with NULL: the only excuse of a kernel that overflows.\<close>

primrec refused :: "u32 list \<Rightarrow> rt \<Rightarrow> bool" where
  "refused [] s \<longleftrightarrow> False"
| "refused (n # ns) s \<longleftrightarrow> (case arena_alloc n s of None \<Rightarrow> False | Some (p, t) \<Rightarrow> p = 0 \<or> refused ns t)"

lemma refused_Cons:
  "arena_alloc n s = Some (p, t) \<Longrightarrow> refused (n # ns) s \<longleftrightarrow> p = 0 \<or> refused ns t"
  by simp

text \<open>What is refused does not depend on the bytes.\<close>

lemma arena_alloc_mem:
  obtains m' where "arena_alloc n (s\<lparr>mem := m\<rparr>) = map_option (\<lambda>(p, t). (p, t\<lparr>mem := m'\<rparr>)) (arena_alloc n s)"
proof -
  have "\<exists>m'. arena_alloc n (s\<lparr>mem := m\<rparr>) = map_option (\<lambda>(p, t). (p, t\<lparr>mem := m'\<rparr>)) (arena_alloc n s)"
    by (cases s) (auto simp: arena_alloc_def alloc_chunk_def malloc_def bump_tail_def Let_def)
  then show thesis using that by blast
qed

lemma refused_mem: "refused ns (s\<lparr>mem := m\<rparr>) = refused ns s"
proof (induction ns arbitrary: s m)
  case (Cons n ns)
  obtain m' where "arena_alloc n (s\<lparr>mem := m\<rparr>) = map_option (\<lambda>(p, t). (p, t\<lparr>mem := m'\<rparr>)) (arena_alloc n s)"
    by (rule arena_alloc_mem)
  then show ?case using Cons.IH by (auto split: option.splits)
qed simp


subsection \<open>The allocator contract\<close>

text \<open>
  What a client of a bump allocator relies on: every request is answered, an answer other than
  NULL is a block no live byte is in, and live bytes and bytes outside the arena's reach keep
  their values across any number of requests.
\<close>

locale bump_allocator =
  fixes alloc :: "u32 \<Rightarrow> 's \<Rightarrow> (u32 \<times> 's) option"
    and ok :: "'s \<Rightarrow> bool"
    and live :: "'s \<Rightarrow> nat set"
    and bytes :: "'s \<Rightarrow> memory"
    and floor :: nat
  assumes total: "ok s \<Longrightarrow> \<exists>p s'. alloc n s = Some (p, s')"
    and keeps_ok: "ok s \<Longrightarrow> alloc n s = Some (p, s') \<Longrightarrow> ok s'"
    and live_grows: "ok s \<Longrightarrow> alloc n s = Some (p, s') \<Longrightarrow> live s \<subseteq> live s'"
    and fresh: "ok s \<Longrightarrow> alloc n s = Some (p, s') \<Longrightarrow> p \<noteq> 0 \<Longrightarrow>
      block p n \<inter> live s = {} \<and> block p n \<subseteq> live s' \<and> floor \<le> unat p"
    and frame: "ok s \<Longrightarrow> alloc n s = Some (p, s') \<Longrightarrow> x \<in> live s \<or> x < floor \<Longrightarrow> bytes s' x = bytes s x"
begin

text \<open>A run of requests, stopping at the first trap.\<close>

primrec allocs :: "u32 list \<Rightarrow> 's \<Rightarrow> (u32 list \<times> 's) option" where
  "allocs [] s = Some ([], s)"
| "allocs (n # ns) s = (case alloc n s of None \<Rightarrow> None
     | Some (p, s') \<Rightarrow> (case allocs ns s' of None \<Rightarrow> None | Some (ps, s'') \<Rightarrow> Some (p # ps, s'')))"

lemma allocs_total: "ok s \<Longrightarrow> \<exists>ps s'. allocs ns s = Some (ps, s') \<and> ok s' \<and> length ps = length ns"
proof (induction ns arbitrary: s)
  case (Cons n ns)
  obtain p s1 where a: "alloc n s = Some (p, s1)" using total Cons.prems by blast
  then show ?case using Cons.IH [OF keeps_ok [OF Cons.prems a]] by auto
qed simp

lemma allocs_live: "ok s \<Longrightarrow> allocs ns s = Some (ps, s') \<Longrightarrow> live s \<subseteq> live s'"
proof (induction ns arbitrary: s ps)
  case (Cons n ns)
  then show ?case using keeps_ok live_grows by (force split: option.splits prod.splits)
qed simp

lemma allocs_frame:
  "ok s \<Longrightarrow> allocs ns s = Some (ps, s') \<Longrightarrow> x \<in> live s \<or> x < floor \<Longrightarrow> bytes s' x = bytes s x"
proof (induction ns arbitrary: s ps)
  case (Cons n ns)
  obtain p s1 qs where a: "alloc n s = Some (p, s1)" "allocs ns s1 = Some (qs, s')"
    using Cons.prems by (auto split: option.splits prod.splits)
  have "x \<in> live s1 \<or> x < floor" using live_grows [OF Cons.prems(1) a(1)] Cons.prems(3) by blast
  then show ?case
    using Cons.IH [OF keeps_ok [OF Cons.prems(1) a(1)] a(2)] frame [OF Cons.prems(1) a(1) Cons.prems(3)]
    by simp
qed simp

lemma allocs_fresh:
  "ok s \<Longrightarrow> allocs ns s = Some (ps, s') \<Longrightarrow> i < length ns \<Longrightarrow> ps ! i \<noteq> 0 \<Longrightarrow>
    block (ps ! i) (ns ! i) \<inter> live s = {} \<and> block (ps ! i) (ns ! i) \<subseteq> live s'"
proof (induction ns arbitrary: s ps i)
  case (Cons n ns)
  obtain p s1 qs where a: "alloc n s = Some (p, s1)" "allocs ns s1 = Some (qs, s')" "ps = p # qs"
    using Cons.prems by (auto split: option.splits prod.splits)
  note ok1 = keeps_ok [OF Cons.prems(1) a(1)] and gr = live_grows [OF Cons.prems(1) a(1)]
  show ?case
  proof (cases i)
    case 0
    then show ?thesis
      using fresh [OF Cons.prems(1) a(1)] allocs_live [OF ok1 a(2)] Cons.prems(4) a(3) by auto
  next
    case (Suc j)
    then show ?thesis
      using Cons.IH [OF ok1 a(2), of j] Cons.prems(3,4) a(3) gr by auto
  qed
qed simp

text \<open>The blocks of one run never overlap.\<close>

lemma allocs_disjoint:
  "ok s \<Longrightarrow> allocs ns s = Some (ps, s') \<Longrightarrow> i < j \<Longrightarrow> j < length ns \<Longrightarrow> ps ! i \<noteq> 0 \<Longrightarrow> ps ! j \<noteq> 0 \<Longrightarrow>
    block (ps ! i) (ns ! i) \<inter> block (ps ! j) (ns ! j) = {}"
proof (induction ns arbitrary: s ps i j)
  case (Cons n ns)
  obtain p s1 qs where a: "alloc n s = Some (p, s1)" "allocs ns s1 = Some (qs, s')" "ps = p # qs"
    using Cons.prems by (auto split: option.splits prod.splits)
  note ok1 = keeps_ok [OF Cons.prems(1) a(1)]
  obtain j' where j: "j = Suc j'" using Cons.prems(3) by (cases j) auto
  show ?case
  proof (cases i)
    case 0
    have "block p n \<subseteq> live s1" using fresh [OF Cons.prems(1) a(1)] Cons.prems(5) 0 a(3) by simp
    moreover have "block (qs ! j') (ns ! j') \<inter> live s1 = {}"
      using allocs_fresh [OF ok1 a(2), of j'] Cons.prems(4,6) a(3) j by simp
    ultimately show ?thesis using 0 j a(3) by auto
  next
    case (Suc i')
    then show ?thesis using Cons.IH [OF ok1 a(2), of i' j'] Cons.prems a(3) j by simp
  qed
qed simp

end

lemma block_mono: "unat n \<le> unat k \<Longrightarrow> block p n \<subseteq> block p k"
  by (auto simp: block_def)

interpretation arena: bump_allocator arena_alloc arena_ok arena_used mem CELWASM_RESERVED_LOW_MEMORY_BYTES
proof unfold_locales
  fix s s' :: rt and n p :: u32 and x :: nat
  assume ok: "arena_ok s"
  show "\<exists>p s'. arena_alloc n s = Some (p, s')" using ok by (cases rule: arena_alloc_cases [of s n]) auto
  assume a: "arena_alloc n s = Some (p, s')"
  show "arena_ok s'" using ok by (cases rule: arena_alloc_cases [of s n]) (use a in auto)
  show "arena_used s \<subseteq> arena_used s'"
    using ok by (cases rule: arena_alloc_cases [of s n]) (use a in \<open>auto simp: fresh_block_def\<close>)
  show "mem s' x = mem s x" if "x \<in> arena_used s \<or> x < CELWASM_RESERVED_LOW_MEMORY_BYTES"
    using ok by (cases rule: arena_alloc_cases [of s n])
      (use a that in \<open>auto simp: fresh_block_def store_bytes_apply mem_block disjoint_iff\<close>)
  show "block p n \<inter> arena_used s = {} \<and> block p n \<subseteq> arena_used s' \<and> CELWASM_RESERVED_LOW_MEMORY_BYTES \<le> unat p"
    if "p \<noteq> 0"
    using ok
  proof (cases rule: arena_alloc_cases [of s n])
    case (fresh p' s'')
    then show ?thesis using a block_mono [OF alloc_need_ge(1) [OF fresh(3)], of p]
      by (auto simp: fresh_block_def)
  qed (use a that in auto)
qed


subsection \<open>Initialisation and reset\<close>

lemma block_0 [simp]: "block p 0 = {}"
  by (simp add: block_def)

lemma malloc_ok_block:
  assumes "malloc_ok s" "os_calls s \<le> k" "os_malloc s k n \<noteq> 0"
  shows "chunk_ok \<lparr>ch_base = os_malloc s k n, ch_capacity = n, ch_cursor = 0\<rparr>"
    "block (os_malloc s k n) n \<inter> oom_range s = {}"
    "c \<in> set (chunks s) \<Longrightarrow> block (os_malloc s k n) n \<inter> chunk_range c = {}"
    "k < k' \<Longrightarrow> os_malloc s k' n' \<noteq> 0 \<Longrightarrow> block (os_malloc s k n) n \<inter> block (os_malloc s k' n') n' = {}"
  using assms unfolding malloc_ok_def chunk_ok_def by (simp_all del: of_nat_numeral)

text \<open>Freeing blocks (which \<open>arena_reset\<close> does) only removes constraints.\<close>

lemma malloc_ok_subset:
  assumes "malloc_ok s" "os_malloc s' = os_malloc s" "os_calls s' = os_calls s"
    "chunk_range ` set (chunks s') \<subseteq> chunk_range ` set (chunks s)" "oom_range s' = oom_range s"
  shows "malloc_ok s'"
proof -
  have "\<forall>c \<in> set (chunks s'). B \<inter> chunk_range c = {}" if "\<forall>c \<in> set (chunks s). B \<inter> chunk_range c = {}" for B
    using assms(4) that by blast
  with assms show ?thesis unfolding malloc_ok_def by simp
qed

lemma arena_reset_ok:
  assumes "arena_ok s"
  shows "arena_ok (arena_reset s)" "arena_used (arena_reset s) = {}"
proof -
  obtain c cs where ch: "chunks s = c # cs" using assms by (cases "chunks s") (auto simp: arena_ok_def arena_inv_def)
  let ?s = "arena_reset s"
  have r: "?s = s\<lparr>chunks := [c\<lparr>ch_cursor := 0\<rparr>], total_used := 0, total_cap := ch_capacity c\<rparr>"
    by (simp add: arena_reset_def ch)
  have o: "oom_range ?s = oom_range s" by (simp add: r oom_range_def)
  have "chunk_ok (c\<lparr>ch_cursor := 0\<rparr>)" using assms by (simp add: ch arena_ok_def arena_inv_def chunk_ok_def)
  then have "arena_inv ?s" using assms by (simp add: arena_inv_def arena_ok_def o) (simp add: r ch)
  moreover have "malloc_ok ?s"
    by (rule malloc_ok_subset [where s = s]) (use assms in \<open>auto simp: r ch oom_range_def arena_ok_def\<close>)
  ultimately show "arena_ok ?s" by (simp add: arena_ok_def)
  show "arena_used ?s = {}" by (simp add: arena_used_def r chunk_used_def)
qed

lemma arena_init_fresh:
  assumes mok: "malloc_ok s" and un: "\<not> initialized s" "chunks s = []" "oom_block s = 0"
    and i: "arena_init cap s = Some s'" and it: "initialized s'"
  shows "arena_ok s'" "arena_used s' = {}" "chunks s' = [\<lparr>ch_base = ch_base (hd (chunks s')), ch_capacity = cap, ch_cursor = 0\<rparr>]"
    "total_cap s' = cap"
proof -
  let ?k = "os_calls s"
  let ?p = "os_malloc s (Suc ?k) cap" and ?o = "os_malloc s (Suc (Suc ?k)) 128"
  have nz: "os_malloc s ?k 16 \<noteq> 0" "?p \<noteq> 0"
    using i un it by (auto simp: arena_init_def alloc_chunk_def malloc_def Let_def split: if_splits)
  have s': "chunks s' = [\<lparr>ch_base = ?p, ch_capacity = cap, ch_cursor = 0\<rparr>]" "total_cap s' = cap"
    "total_used s' = 0" "oom_block s' = ?o" "os_malloc s' = os_malloc s" "os_calls s' = Suc (Suc (Suc ?k))"
    using i un nz by (auto simp: arena_init_def alloc_chunk_def malloc_def Let_def split: if_splits)
  show "total_cap s' = cap" by (rule s')
  show "chunks s' = [\<lparr>ch_base = ch_base (hd (chunks s')), ch_capacity = cap, ch_cursor = 0\<rparr>]"
    by (simp add: s')
  note b = malloc_ok_block [OF mok _ nz(2), simplified]
  have oomr: "oom_range s' = (if ?o = 0 then {} else block ?o 128)" by (simp add: oom_range_def s')
  have dis: "block ?p cap \<inter> oom_range s' = {}"
    using b(4) [of "Suc (Suc ?k)" 128] by (simp add: oomr)
  have rng: "chunk_range \<lparr>ch_base = ?p, ch_capacity = cap, ch_cursor = 0\<rparr> = block ?p cap"
    by (simp add: chunk_range_def)
  have inv: "arena_inv s'" using dis b(1) it by (simp add: arena_inv_def s'(1-3) rng)
  have later: "block (os_malloc s k n) n \<inter> oom_range s' = {}"
    "block (os_malloc s k n) n \<inter> block ?p cap = {}"
    if "Suc (Suc (Suc ?k)) \<le> k" "os_malloc s k n \<noteq> 0" for k n
    using malloc_ok_block(4) [OF mok, of "Suc (Suc ?k)" 128 k n] b(4) [of k n] that
    by (auto simp: oomr)
  have "malloc_ok s'" using mok later
    unfolding malloc_ok_def s'(1,5,6) by (simp add: rng)
  with inv show "arena_ok s'" by (simp add: arena_ok_def)
  show "arena_used s' = {}" by (simp add: arena_used_def s' chunk_used_def)
qed

subsection \<open>A concrete runtime\<close>

text \<open>A runtime before \<open>arena_init\<close>, whose \<open>malloc\<close> hands out 64 KiB slots, for the witnesses.\<close>

definition sample_malloc :: "nat \<Rightarrow> u32 \<Rightarrow> u32" where
  "sample_malloc k n = (if k < 64 \<and> n \<le> 65536 then word_of_nat (262144 + 65536 * k) else 0)"

definition boot_rt :: rt where
  "boot_rt = \<lparr>mem = \<lambda>_. 0, chunks = [], total_used = 0, total_cap = 0, initialized = False,
     oom_block = 0, os_malloc = sample_malloc, os_calls = 0\<rparr>"

definition sample_rt :: rt where
  "sample_rt = the (arena_init 4096 boot_rt)"

lemma unat_sample_malloc:
  assumes "sample_malloc k n \<noteq> 0"
  shows "unat (sample_malloc k n) = 262144 + 65536 * k" "k < 64" "unat n \<le> 65536"
proof -
  have k: "k < 64" "n \<le> 65536" using assms by (simp_all add: sample_malloc_def split: if_splits)
  then show "k < 64" "unat n \<le> 65536" by (simp_all add: word_le_nat_alt)
  have "unat (sample_malloc k n) = (262144 + 65536 * k) mod 2 ^ 32"
    unfolding sample_malloc_def using k unat_of_nat [of "262144 + 65536 * k", where ?'a = 32]
    by (simp del: of_nat_add of_nat_mult)
  then show "unat (sample_malloc k n) = 262144 + 65536 * k" using k by simp
qed

lemma sample_malloc_disjoint:
  assumes "k < k'" "sample_malloc k n \<noteq> 0" "sample_malloc k' n' \<noteq> 0"
  shows "block (sample_malloc k n) n \<inter> block (sample_malloc k' n') n' = {}"
proof -
  have "unat (sample_malloc k n) + unat n \<le> unat (sample_malloc k' n')"
    using unat_sample_malloc [OF assms(2)] unat_sample_malloc [OF assms(3)] assms(1) by linarith
  then show ?thesis by (fastforce simp: block_def)
qed

lemma sample_malloc_range:
  assumes "sample_malloc k n \<noteq> 0"
  shows "8 dvd unat (sample_malloc k n)" "262144 \<le> unat (sample_malloc k n)"
    "unat (sample_malloc k n) + unat n \<le> 4294967295"
proof -
  note u = unat_sample_malloc [OF assms]
  show "262144 \<le> unat (sample_malloc k n)" "unat (sample_malloc k n) + unat n \<le> 4294967295"
    using u by linarith+
  show "8 dvd unat (sample_malloc k n)" unfolding u(1) by (intro dvd_add dvd_mult2) simp_all
qed

lemma boot_malloc_ok: "malloc_ok boot_rt"
  by (simp add: malloc_ok_def boot_rt_def oom_range_def sample_malloc_disjoint sample_malloc_range)

lemma sample_rt_init: "arena_init 4096 boot_rt = Some sample_rt" "initialized sample_rt"
  by (auto simp: sample_rt_def arena_init_def boot_rt_def alloc_chunk_def malloc_def Let_def sample_malloc_def)

lemma sample_rt_chunks: "chunks sample_rt = [\<lparr>ch_base = 327680, ch_capacity = 4096, ch_cursor = 0\<rparr>]"
  by (simp add: sample_rt_def arena_init_def boot_rt_def alloc_chunk_def malloc_def Let_def sample_malloc_def)

lemma sample_rt_ok: "arena_ok sample_rt"
  by (rule arena_init_fresh(1) [OF boot_malloc_ok _ _ _ sample_rt_init]) (simp_all add: boot_rt_def)


text \<open>Both invariants ignore the bytes, so a kernel that stores into cells keeps them.\<close>

lemma arena_ok_mem [simp]: "arena_ok (s\<lparr>mem := m\<rparr>) = arena_ok s"
  by (simp add: arena_ok_def arena_inv_def malloc_ok_def oom_range_def)

lemma arena_used_mem [simp]: "arena_used (s\<lparr>mem := m\<rparr>) = arena_used s"
  by (simp add: arena_used_def)

subsection \<open>Properties\<close>

text \<open>
  C1. An allocation in a well-formed arena never traps and keeps the arena well formed. A NULL
  answer changes no byte and no live region; any other answer is an 8-aligned block of at least
  the requested size inside the address space, disjoint from every live allocation and from the
  emergency block, zero-filled, and no byte outside it changes.
\<close>

theorem arena_alloc_correct:
  assumes "arena_ok s"
  shows "\<exists>p s'. arena_alloc n s = Some (p, s') \<and> arena_ok s' \<and> arena_oom_block s' = arena_oom_block s
    \<and> (if p = 0 then mem s' = mem s \<and> arena_used s' = arena_used s
       else 8 dvd unat p \<and> unat n \<le> unat (alloc_need n) \<and> unat p + unat (alloc_need n) \<le> 2 ^ 32 - 1
         \<and> block p (alloc_need n) \<inter> arena_used s = {}
         \<and> block p (alloc_need n) \<inter> oom_range s = {}
         \<and> arena_used s' = arena_used s \<union> block p (alloc_need n)
         \<and> (\<forall>x. mem s' x = (if x \<in> block p (alloc_need n) then 0 else mem s x)))"
  using assms
proof (cases rule: arena_alloc_cases [of s n])
  case (fail s')
  then show ?thesis by (auto simp: arena_oom_block_def)
next
  case (fresh p s')
  have inv: "arena_inv s'" using fresh(2) by (simp add: arena_ok_def)
  have "block p (alloc_need n) \<subseteq> arena_used s'" using fresh(4) by (simp add: fresh_block_def)
  also have "\<dots> \<subseteq> (\<Union>c \<in> set (chunks s'). chunk_range c)"
    using inv chunk_ok_word_sums(4) by (fastforce simp: arena_used_def arena_inv_def list_all_iff)
  finally have "block p (alloc_need n) \<inter> oom_range s' = {}" using inv by (fastforce simp: arena_inv_def)
  then show ?thesis
    using fresh oom_range_eq [OF fresh(5)] alloc_need_ge(1) [OF fresh(3)]
    by (auto simp: fresh_block_def arena_oom_block_def store_bytes_apply mem_block)
qed

theorem arena_alloc_correct_witness:
  "\<exists>p s'. arena_alloc 24 sample_rt = Some (p, s') \<and> arena_ok s'"
  using arena_alloc_correct [OF sample_rt_ok, of 24] by blast

text \<open>
  The first \<open>arena_init\<close> of an instance either leaves the arena uninitialised, when
  \<open>malloc\<close> refuses the first chunk, or yields a well-formed empty arena of exactly the
  requested capacity; a repeated call is a no-op for the same capacity and a trap otherwise.
\<close>

theorem arena_init_correct:
  assumes "malloc_ok s" "\<not> initialized s" "chunks s = []" "oom_block s = 0"
  shows "\<exists>s'. arena_init cap s = Some s' \<and>
    (if initialized s'
     then arena_ok s' \<and> arena_used s' = {} \<and> arena_cursor s' = 0 \<and> arena_capacity s' = cap
       \<and> arena_init cap s' = Some s' \<and> (cap' \<noteq> cap \<longrightarrow> arena_init cap' s' = None)
     else mem s' = mem s \<and> chunks s' = [])"
proof -
  obtain s' where i: "arena_init cap s = Some s'"
    using assms by (cases "alloc_chunk cap s"; cases "fst (alloc_chunk cap s)")
      (simp_all add: arena_init_def Let_def malloc_def)
  show ?thesis
  proof (cases "initialized s'")
    case True
    note f = arena_init_fresh [OF assms i True]
    obtain b where ch: "chunks s' = [\<lparr>ch_base = b, ch_capacity = cap, ch_cursor = 0\<rparr>]" using f(3) by blast
    show ?thesis using i True f(1,2,4) ch
      by (auto simp: arena_cursor_def arena_capacity_def) (auto simp: arena_init_def)
  next
    case False
    then show ?thesis using i assms
      by (auto simp: arena_init_def alloc_chunk_def malloc_def Let_def split: if_splits)
  qed
qed

theorem arena_init_correct_witness: "\<exists>s'. arena_init 4096 boot_rt = Some s' \<and> arena_ok s'"
  using arena_init_correct [OF boot_malloc_ok, of 4096] sample_rt_init by (force simp: boot_rt_def)

text \<open>
  A reset of a well-formed arena makes every byte of it free again, touches no byte, keeps
  the emergency block, and gives back the capacity to the first chunk's.
\<close>

theorem arena_reset_correct:
  assumes "arena_ok s"
  shows "arena_ok (arena_reset s) \<and> arena_used (arena_reset s) = {} \<and> mem (arena_reset s) = mem s
    \<and> arena_oom_block (arena_reset s) = arena_oom_block s \<and> arena_cursor (arena_reset s) = 0
    \<and> arena_capacity (arena_reset s) = ch_capacity (hd (chunks s))"
  using arena_reset_ok [OF assms] assms
  by (auto simp: arena_reset_def arena_oom_block_def arena_cursor_def arena_capacity_def arena_ok_def
      arena_inv_def split: list.splits)

theorem arena_reset_correct_witness: "arena_used (arena_reset sample_rt) = {}"
  using arena_reset_correct [OF sample_rt_ok] by simp

end
