(* ===== verification/CelInternal.thy ===== *)
theory CelInternal
  imports Arena
begin

text \<open>
  The helpers of \<open>runtime/cel_internal.h\<close> that every kernel shares: the slot writers, and the
  word-at-a-time byte comparison and byte search. A C pointer is an address (\<open>nat\<close>); a struct
  assignment \<open>*out = *a\<close> is \<open>copy_cv\<close>. Kernels are functions \<open>rt \<Rightarrow> rt option\<close> of their slots.
\<close>

subsection \<open>Slot writers\<close>

definition poison :: "nat \<Rightarrow> u32 \<Rightarrow> rt \<Rightarrow> rt" where
  "poison v err_code s = s\<lparr>mem := store32 (store32 (mem s) v CEL_ERROR) (v + 8) err_code\<rparr>"

definition write_int :: "nat \<Rightarrow> u64 \<Rightarrow> rt \<Rightarrow> rt" where
  "write_int out v s = s\<lparr>mem := store64 (store32 (mem s) out CEL_INT) (out + 8) v\<rparr>"

definition write_uint :: "nat \<Rightarrow> u64 \<Rightarrow> rt \<Rightarrow> rt" where
  "write_uint out v s = s\<lparr>mem := store64 (store32 (mem s) out CEL_UINT) (out + 8) v\<rparr>"

definition write_double :: "nat \<Rightarrow> u64 \<Rightarrow> rt \<Rightarrow> rt" where
  "write_double out v s = s\<lparr>mem := store64 (store32 (mem s) out CEL_DOUBLE) (out + 8) v\<rparr>"

definition write_bool :: "nat \<Rightarrow> bool \<Rightarrow> rt \<Rightarrow> rt" where
  "write_bool out b s =
     s\<lparr>mem := store32 (store32 (mem s) out CEL_BOOL) (out + 8) (if b then 1 else 0)\<rparr>"

definition copy_cv :: "nat \<Rightarrow> nat \<Rightarrow> rt \<Rightarrow> rt" where
  "copy_cv dst src s = s\<lparr>mem := store_cv (mem s) dst (load_cv (mem s) src)\<rparr>"

definition is_err :: "cel_value \<Rightarrow> u32 \<Rightarrow> bool" where
  "is_err v e \<longleftrightarrow> cv_kind v = CEL_ERROR \<and> pl_err v = e"

definition is_bool :: "cel_value \<Rightarrow> bool \<Rightarrow> bool" where
  "is_bool v b \<longleftrightarrow> cv_kind v = CEL_BOOL \<and> pl_b v = (if b then 1 else 0)"

definition is_int :: "cel_value \<Rightarrow> int \<Rightarrow> bool" where
  "is_int v i \<longleftrightarrow> cv_kind v = CEL_INT \<and> sint (pl_i v) = i"

definition is_uint :: "cel_value \<Rightarrow> int \<Rightarrow> bool" where
  "is_uint v i \<longleftrightarrow> cv_kind v = CEL_UINT \<and> uint (pl_u v) = i"

lemmas is_defs = is_err_def is_bool_def is_int_def is_uint_def

text \<open>What the written cell holds.\<close>

lemma cell_poison [cell_simps]:
  "load_cv (mem (poison v e s)) v =
     (load_cv (mem s) v)\<lparr>cv_kind := CEL_ERROR, cv_lo := join32 e (hi32 (cv_lo (load_cv (mem s) v)))\<rparr>"
  by (simp add: poison_def mem_simps)

lemma cell_write_int [cell_simps]:
  "load_cv (mem (write_int v x s)) v = (load_cv (mem s) v)\<lparr>cv_kind := CEL_INT, cv_lo := x\<rparr>"
  by (simp add: write_int_def mem_simps)

lemma cell_write_uint [cell_simps]:
  "load_cv (mem (write_uint v x s)) v = (load_cv (mem s) v)\<lparr>cv_kind := CEL_UINT, cv_lo := x\<rparr>"
  by (simp add: write_uint_def mem_simps)

lemma cell_write_double [cell_simps]:
  "load_cv (mem (write_double v x s)) v = (load_cv (mem s) v)\<lparr>cv_kind := CEL_DOUBLE, cv_lo := x\<rparr>"
  by (simp add: write_double_def mem_simps)

lemma cell_write_bool [cell_simps]:
  "load_cv (mem (write_bool v b s)) v = (load_cv (mem s) v)
     \<lparr>cv_kind := CEL_BOOL, cv_lo := join32 (if b then 1 else 0) (hi32 (cv_lo (load_cv (mem s) v)))\<rparr>"
  by (simp add: write_bool_def mem_simps)

lemma cell_copy_cv [cell_simps]: "load_cv (mem (copy_cv d a s)) d = load_cv (mem s) a"
  by (simp add: copy_cv_def mem_simps)

lemma is_err_poison [cell_simps]: "is_err (load_cv (mem (poison v e s)) v) e"
  by (simp add: cell_simps is_defs pl_defs)

lemma is_bool_write [cell_simps]: "is_bool (load_cv (mem (write_bool v b s)) v) b"
  by (simp add: cell_simps is_defs pl_defs)

lemma is_int_write: "is_int (load_cv (mem (write_int v x s)) v) (sint x)"
  by (simp add: cell_simps is_defs pl_defs)

lemma is_uint_write: "is_uint (load_cv (mem (write_uint v x s)) v) (uint x)"
  by (simp add: cell_simps is_defs pl_defs)

text \<open>
  The part of the state a kernel leaves alone: everything but the 24 bytes of its out slot,
  the allocator included.
\<close>

definition only_cell :: "nat \<Rightarrow> rt \<Rightarrow> rt \<Rightarrow> bool" where
  "only_cell out s s' \<longleftrightarrow> same_outside out 24 (mem s) (mem s') \<and> s' = s\<lparr>mem := mem s'\<rparr>"

lemma only_cell_refl [simp]: "only_cell out s s"
  by (simp add: only_cell_def)

lemma only_cell_trans [trans]: "only_cell out s s' \<Longrightarrow> only_cell out s' s'' \<Longrightarrow> only_cell out s s''"
  unfolding only_cell_def
  by (metis (no_types, lifting) rt.surjective rt.update_convs(1) same_outside_trans)

lemma only_cell_store:
  "same_outside out 24 (mem s) m \<Longrightarrow> only_cell out s (s\<lparr>mem := m\<rparr>)"
  by (simp add: only_cell_def)

lemma only_cell_writers [simp]:
  "only_cell out s (poison out e s)" "only_cell out s (write_int out x s)"
  "only_cell out s (write_uint out x s)" "only_cell out s (write_double out x s)"
  "only_cell out s (write_bool out b s)" "only_cell out s (copy_cv out a s)"
  unfolding poison_def write_int_def write_uint_def write_double_def write_bool_def copy_cv_def
  by (rule only_cell_store; rule same_outside_trans same_outside_store_cv;
      auto intro!: same_outside_store32 same_outside_store64 intro: same_outside_trans)+

lemma only_cell_other:
  assumes "only_cell out s s'" and "out + 24 \<le> a \<or> a + 24 \<le> out"
  shows "load_cv (mem s') a = load_cv (mem s) a"
  using assms by (intro cv_cell.load_frame [where b = out and n = 24]) (auto simp: only_cell_def)

lemma only_cell_arena_ok: "only_cell out s s' \<Longrightarrow> arena_ok s' = arena_ok s"
  by (metis arena_ok_mem only_cell_def)


subsection \<open>Frames of allocating kernels\<close>

text \<open>
  A byte is kept when the allocator will not hand it out: it is live in the arena or below the
  reserved low-memory mark. An allocating kernel changes no kept byte outside its out slot.
\<close>

definition kept :: "rt \<Rightarrow> nat \<Rightarrow> bool" where
  "kept s x \<longleftrightarrow> x \<in> arena_used s \<or> x < CELWASM_RESERVED_LOW_MEMORY_BYTES"

definition kept_range :: "rt \<Rightarrow> nat \<Rightarrow> nat \<Rightarrow> bool" where
  "kept_range s a n \<longleftrightarrow> (\<forall>x. a \<le> x \<and> x < a + n \<longrightarrow> kept s x)"

definition keeps :: "nat \<Rightarrow> rt \<Rightarrow> rt \<Rightarrow> bool" where
  "keeps out s s' \<longleftrightarrow> arena_ok s' \<and> arena_used s \<subseteq> arena_used s'
     \<and> (\<forall>x. kept s x \<and> (x < out \<or> out + 24 \<le> x) \<longrightarrow> mem s' x = mem s x)"

text \<open>The stronger frame of a call that only allocates and fills what it allocated.\<close>

definition extends :: "rt \<Rightarrow> rt \<Rightarrow> bool" where
  "extends s s' \<longleftrightarrow> arena_ok s' \<and> arena_used s \<subseteq> arena_used s' \<and> (\<forall>x. kept s x \<longrightarrow> mem s' x = mem s x)"

definition apart :: "nat \<Rightarrow> nat \<Rightarrow> nat \<Rightarrow> nat \<Rightarrow> bool" where
  "apart a n b k \<longleftrightarrow> n = 0 \<or> k = 0 \<or> a + n \<le> b \<or> b + k \<le> a"

lemma kept_mono: "arena_used s \<subseteq> arena_used s' \<Longrightarrow> kept s x \<Longrightarrow> kept s' x"
  by (auto simp: kept_def)

lemma kept_range_mono: "arena_used s \<subseteq> arena_used s' \<Longrightarrow> kept_range s a n \<Longrightarrow> kept_range s' a n"
  by (auto simp: kept_range_def kept_mono)

lemma kept_mem [simp]: "kept (s\<lparr>mem := m\<rparr>) = kept s" "kept_range (s\<lparr>mem := m\<rparr>) = kept_range s"
  by (simp_all add: kept_def kept_range_def fun_eq_iff)

lemma kept_range_sub: "kept_range s a n \<Longrightarrow> a \<le> b \<Longrightarrow> b + k \<le> a + n \<Longrightarrow> kept_range s b k"
  by (auto simp: kept_range_def)

lemma keeps_trans [trans]: "keeps out s s' \<Longrightarrow> keeps out s' s'' \<Longrightarrow> keeps out s s''"
  by (auto simp: keeps_def kept_mono dest: subsetD)

lemma extends_refl: "arena_ok s \<Longrightarrow> extends s s"
  by (simp add: extends_def)

lemma extends_trans [trans]: "extends s s' \<Longrightarrow> extends s' s'' \<Longrightarrow> extends s s''"
  by (auto simp: extends_def kept_mono)

lemma extends_keeps: "extends s s' \<Longrightarrow> keeps out s s'"
  by (simp add: extends_def keeps_def)

lemma only_cell_keeps: "only_cell out s s' \<Longrightarrow> arena_ok s \<Longrightarrow> keeps out s s'"
  unfolding keeps_def
  by (metis arena_used_mem only_cell_arena_ok only_cell_def order_refl same_outside_def)

lemma keeps_arena_ok: "keeps out s s' \<Longrightarrow> arena_ok s'"
  by (simp add: keeps_def)

lemma keeps_same: "keeps out s s' \<Longrightarrow> kept_range s a n \<Longrightarrow> apart a n out 24 \<Longrightarrow> i < n \<Longrightarrow> mem s' (a + i) = mem s (a + i)"
  by (auto simp: keeps_def kept_range_def apart_def)

lemma extends_same: "extends s s' \<Longrightarrow> kept_range s a n \<Longrightarrow> i < n \<Longrightarrow> mem s' (a + i) = mem s (a + i)"
  by (auto simp: extends_def kept_range_def)

text \<open>Loads of kept data outside the out slot survive the kernel.\<close>

lemma keeps_loads:
  assumes "keeps out s s'"
  shows "kept_range s a 4 \<Longrightarrow> apart a 4 out 24 \<Longrightarrow> load32 (mem s') a = load32 (mem s) a"
    and "kept_range s a 24 \<Longrightarrow> apart a 24 out 24 \<Longrightarrow> load_cv (mem s') a = load_cv (mem s) a"
    and "kept_range s a n \<Longrightarrow> apart a n out 24 \<Longrightarrow> bytes_at (mem s') a n = bytes_at (mem s) a n"
  using keeps_same [OF assms] by (auto intro: load32_cong load_cv_local bytes_at_cong)

lemma extends_loads:
  assumes "extends s s'"
  shows "kept_range s a 4 \<Longrightarrow> load32 (mem s') a = load32 (mem s) a"
    and "kept_range s a 24 \<Longrightarrow> load_cv (mem s') a = load_cv (mem s) a"
    and "kept_range s a n \<Longrightarrow> bytes_at (mem s') a n = bytes_at (mem s) a n"
  using extends_same [OF assms] by (auto intro: load32_cong load_cv_local bytes_at_cong)

text \<open>
  The allocator in these terms: NULL and an extension without new live bytes, or a new kept
  block no kept byte of before lies in, and filling that block is again an extension.
\<close>

lemma arena_alloc_extends:
  assumes ok: "arena_ok s"
  obtains (null) s' where "arena_alloc n s = Some (0, s')" "extends s s'" "mem s' = mem s"
  | (block) p s' where "arena_alloc n s = Some (p, s')" "p \<noteq> 0" "extends s s'" "kept_range s' (unat p) (unat n)"
      "\<And>x. unat p \<le> x \<Longrightarrow> x < unat p + unat n \<Longrightarrow> \<not> kept s x"
      "unat p + unat n \<le> 2 ^ 32 - 1" "CELWASM_RESERVED_LOW_MEMORY_BYTES \<le> unat p"
      "\<And>i. i < unat n \<Longrightarrow> mem s' (unat p + i) = 0"
proof (cases rule: arena_alloc_cases [OF ok, of n])
  case (1 s')
  then show thesis using null [of s'] by (auto simp: extends_def)
next
  case (2 p s')
  have le: "unat n \<le> unat (alloc_need n)" using alloc_need_ge(1) [OF 2(3)] .
  have p: "CELWASM_RESERVED_LOW_MEMORY_BYTES \<le> unat p" "unat p + unat n \<le> 2 ^ 32 - 1"
    using 2(4) le by (auto simp: fresh_block_def)
  have ext: "extends s s'" using 2(2,4) p
    by (auto simp: extends_def fresh_block_def kept_def store_bytes_apply mem_block disjoint_iff)
  show thesis
  proof (rule block [of p s'])
    show "p \<noteq> 0" using p(1) by auto
    show "kept_range s' (unat p) (unat n)"
      using 2(4) le by (auto simp: kept_range_def kept_def fresh_block_def mem_block)
    show "\<not> kept s x" if "unat p \<le> x" "x < unat p + unat n" for x
      using 2(4) le p that by (auto simp: kept_def fresh_block_def mem_block disjoint_iff)
    show "mem s' (unat p + i) = 0" if "i < unat n" for i
      using 2(4) le that by (auto simp: fresh_block_def store_bytes_apply)
  qed (use 2 ext p in auto)
qed

lemma extends_fill:
  assumes "extends s s'" and "same_outside p n (mem s') m"
    and "\<And>x. p \<le> x \<Longrightarrow> x < p + n \<Longrightarrow> \<not> kept s x"
  shows "extends s (s'\<lparr>mem := m\<rparr>)"
  using assms by (auto simp: extends_def same_outside_def) (metis not_less)


subsection \<open>Two concrete operands\<close>

definition cell_of :: "u32 \<Rightarrow> u64 \<Rightarrow> cel_value" where
  "cell_of k x = \<lparr>cv_kind = k, cv_pad = 0, cv_lo = x, cv_hi = 0\<rparr>"

definition two_cells :: "cel_value \<Rightarrow> cel_value \<Rightarrow> rt" where
  "two_cells v w = sample_rt\<lparr>mem := store_cv (store_cv (\<lambda>_. 0) 128 v) 160 w\<rparr>"

lemma two_cells_cv [simp]: "cv (two_cells v w) 128 = v" "cv (two_cells v w) 160 = w"
  by (simp_all add: two_cells_def cel_value_at_def mem_simps)

lemma two_cells_ok [simp]: "arena_ok (two_cells v w)"
  by (simp add: two_cells_def sample_rt_ok)

lemma cell_of_fields [simp]:
  "cv_kind (cell_of k x) = k" "cv_lo (cell_of k x) = x" "cv_hi (cell_of k x) = 0"
  by (simp_all add: cell_of_def)

end
