(* ===== verification/ThreeValued.thy ===== *)
theory ThreeValued
  imports CelInternal
begin

text \<open>
  Three-valued logic (\<open>runtime/cel_3vl.c\<close>) and the absorption prologue of the strict kernels
  (\<open>runtime/cel_internal.h\<close>): a value is a bool, an error or an unknown carrying a set of
  attribute ids, kept as a sorted array behind a descriptor \<open>{ids_off, len}\<close> in linear memory.
\<close>

subsection \<open>Merging sorted id arrays\<close>

text \<open>
  The three loops of \<open>merge_sorted_id_arrays\<close>; \<open>i\<close>, \<open>j\<close>, \<open>k\<close> are the array indices and the
  result is the final \<open>k\<close> with the memory.
\<close>

function merge_copy :: "nat \<Rightarrow> nat \<Rightarrow> nat \<Rightarrow> nat \<Rightarrow> nat \<Rightarrow> memory \<Rightarrow> nat \<times> memory" where
  "merge_copy ids n out i k m =
     (if i < n then merge_copy ids n out (i + 1) (k + 1) (store32 m (out + 4 * k) (load32 m (ids + 4 * i)))
      else (k, m))"
  by pat_completeness auto
termination by (relation "measure (\<lambda>(ids, n, out, i, k, m). n - i)") auto

function merge_both ::
  "nat \<Rightarrow> nat \<Rightarrow> nat \<Rightarrow> nat \<Rightarrow> nat \<Rightarrow> nat \<Rightarrow> nat \<Rightarrow> nat \<Rightarrow> memory \<Rightarrow> nat \<times> nat \<times> nat \<times> memory" where
  "merge_both ids_a len_a ids_b len_b out i j k m =
     (if i < len_a \<and> j < len_b then
        (let ai = load32 m (ids_a + 4 * i); bj = load32 m (ids_b + 4 * j) in
         if ai < bj then merge_both ids_a len_a ids_b len_b out (i + 1) j (k + 1) (store32 m (out + 4 * k) ai)
         else if ai > bj then merge_both ids_a len_a ids_b len_b out i (j + 1) (k + 1) (store32 m (out + 4 * k) bj)
         else merge_both ids_a len_a ids_b len_b out (i + 1) (j + 1) (k + 1) (store32 m (out + 4 * k) ai))
      else (i, j, k, m))"
  by pat_completeness auto
termination
  by (relation "measure (\<lambda>(ids_a, len_a, ids_b, len_b, out, i, j, k, m). (len_a - i) + (len_b - j))") auto

declare merge_copy.simps [simp del] merge_both.simps [simp del]

definition merge_sorted_id_arrays ::
  "nat \<Rightarrow> nat \<Rightarrow> nat \<Rightarrow> nat \<Rightarrow> nat \<Rightarrow> memory \<Rightarrow> nat \<times> memory" where
  "merge_sorted_id_arrays ids_a len_a ids_b len_b out m =
     (let (i, j, k, m) = merge_both ids_a len_a ids_b len_b out 0 0 0 m;
          (k, m) = merge_copy ids_a len_a out i k m
      in merge_copy ids_b len_b out j k m)"

subsection \<open>Kernels\<close>

definition alloc_unknown_descriptor :: "u32 \<Rightarrow> u32 \<Rightarrow> rt \<Rightarrow> (u32 \<times> rt) option" where
  "alloc_unknown_descriptor ids_off len s = do {
     (desc_off, s) \<leftarrow> arena_alloc (2 * 4) s;
     if desc_off = 0 then Some (0, s)
     else Some (desc_off, s\<lparr>mem := store32 (store32 (mem s) (unat desc_off) ids_off) (unat desc_off + 4) len\<rparr>)
   }"

definition merge_unknown_descriptors :: "u32 \<Rightarrow> u32 \<Rightarrow> rt \<Rightarrow> (u32 \<times> rt) option" where
  "merge_unknown_descriptors set_a set_b s =
     (let ids_a_off = load32 (mem s) (unat set_a); len_a = load32 (mem s) (unat set_a + 4);
          ids_b_off = load32 (mem s) (unat set_b); len_b = load32 (mem s) (unat set_b + 4);
          max_total = len_a + len_b;
          bytes = max_total * 4;
          bytes = (if bytes = 0 then 4 else bytes)
      in do {
        (out_ids, s) \<leftarrow> arena_alloc bytes s;
        if out_ids = 0 then Some (0, s)
        else (let (k, m) = merge_sorted_id_arrays (unat ids_a_off) (unat len_a)
                             (unat ids_b_off) (unat len_b) (unat out_ids) (mem s)
              in alloc_unknown_descriptor out_ids (word_of_nat k) (s\<lparr>mem := m\<rparr>))
      })"

definition write_unknown_at :: "u32 \<Rightarrow> u32 \<Rightarrow> rt \<Rightarrow> rt" where
  "write_unknown_at out_slot desc_off s =
     s\<lparr>mem := store32 (store32 (mem s) (cel_value_at out_slot) CEL_UNKNOWN) (cel_value_at out_slot + 8) desc_off\<rparr>"

definition cel_unknown_merge :: "u32 \<Rightarrow> u32 \<Rightarrow> u32 \<Rightarrow> rt \<Rightarrow> rt option" where
  "cel_unknown_merge out_slot a_slot b_slot s =
     (let out = cel_value_at out_slot; a = cv s a_slot; b = cv s b_slot in
      if cv_kind a \<noteq> CEL_UNKNOWN \<or> cv_kind b \<noteq> CEL_UNKNOWN then Some (poison out CEL_ERR_TYPE_MISMATCH s)
      else
        (let set_a = pl_unk a; set_b = pl_unk b in
         if set_a = 0 \<and> set_b = 0 then Some (write_unknown_at out_slot 0 s)
         else if set_a = 0 then Some (write_unknown_at out_slot set_b s)
         else if set_b = 0 then Some (write_unknown_at out_slot set_a s)
         else do {
           (desc_off, s) \<leftarrow> merge_unknown_descriptors set_a set_b s;
           if desc_off = 0 then Some (poison (cel_value_at out_slot) CEL_ERR_OVERFLOW s)
           else Some (write_unknown_at out_slot desc_off s)
         }))"

definition cel_copy_slot :: "u32 \<Rightarrow> u32 \<Rightarrow> rt \<Rightarrow> rt option" where
  "cel_copy_slot dst_slot src_slot s = Some (copy_cv (cel_value_at dst_slot) (cel_value_at src_slot) s)"

definition is_3vl_kind :: "u32 \<Rightarrow> bool" where
  "is_3vl_kind k \<longleftrightarrow> k = CEL_BOOL \<or> k = CEL_UNKNOWN \<or> k = CEL_ERROR"

definition logic_unknown_error_tail :: "u32 \<Rightarrow> u32 \<Rightarrow> u32 \<Rightarrow> rt \<Rightarrow> rt option" where
  "logic_unknown_error_tail out_slot a_slot b_slot s =
     (let out = cel_value_at out_slot; a = cv s a_slot; b = cv s b_slot in
      if cv_kind a = CEL_UNKNOWN \<and> cv_kind b = CEL_UNKNOWN then cel_unknown_merge out_slot a_slot b_slot s
      else if cv_kind a = CEL_UNKNOWN then Some (copy_cv out (cel_value_at a_slot) s)
      else if cv_kind b = CEL_UNKNOWN then Some (copy_cv out (cel_value_at b_slot) s)
      else Some (copy_cv out (cel_value_at a_slot) s))"

definition cel_and :: "u32 \<Rightarrow> u32 \<Rightarrow> u32 \<Rightarrow> rt \<Rightarrow> rt option" where
  "cel_and out_slot a_slot b_slot s =
     (let out = cel_value_at out_slot; a = cv s a_slot; b = cv s b_slot in
      if cv_kind a = CEL_BOOL \<and> pl_b a = 0 then Some (write_bool out False s)
      else if cv_kind b = CEL_BOOL \<and> pl_b b = 0 then Some (write_bool out False s)
      else if \<not> is_3vl_kind (cv_kind a) \<or> \<not> is_3vl_kind (cv_kind b) then
        Some (poison out CEL_ERR_TYPE_MISMATCH s)
      else if cv_kind a = CEL_BOOL then Some (copy_cv out (cel_value_at b_slot) s)
      else if cv_kind b = CEL_BOOL then Some (copy_cv out (cel_value_at a_slot) s)
      else logic_unknown_error_tail out_slot a_slot b_slot s)"

definition cel_or :: "u32 \<Rightarrow> u32 \<Rightarrow> u32 \<Rightarrow> rt \<Rightarrow> rt option" where
  "cel_or out_slot a_slot b_slot s =
     (let out = cel_value_at out_slot; a = cv s a_slot; b = cv s b_slot in
      if cv_kind a = CEL_BOOL \<and> pl_b a \<noteq> 0 then Some (write_bool out True s)
      else if cv_kind b = CEL_BOOL \<and> pl_b b \<noteq> 0 then Some (write_bool out True s)
      else if \<not> is_3vl_kind (cv_kind a) \<or> \<not> is_3vl_kind (cv_kind b) then
        Some (poison out CEL_ERR_TYPE_MISMATCH s)
      else if cv_kind a = CEL_BOOL then Some (copy_cv out (cel_value_at b_slot) s)
      else if cv_kind b = CEL_BOOL then Some (copy_cv out (cel_value_at a_slot) s)
      else logic_unknown_error_tail out_slot a_slot b_slot s)"

definition cel_not :: "u32 \<Rightarrow> u32 \<Rightarrow> rt \<Rightarrow> rt option" where
  "cel_not out_slot a_slot s =
     (let out = cel_value_at out_slot; a = cv s a_slot in
      if cv_kind a = CEL_BOOL then Some (write_bool out (if pl_b a \<noteq> 0 then False else True) s)
      else if cv_kind a = CEL_UNKNOWN \<or> cv_kind a = CEL_ERROR then Some (copy_cv out (cel_value_at a_slot) s)
      else Some (poison out CEL_ERR_TYPE_MISMATCH s))"

text \<open>
  The prologue of the strict kernels works on pointers; the merge path recovers the slots from
  them. The flag says whether the result was written.
\<close>

definition absorb_3vl_binary :: "nat \<Rightarrow> nat \<Rightarrow> nat \<Rightarrow> rt \<Rightarrow> (bool \<times> rt) option" where
  "absorb_3vl_binary out a b s =
     (let ka = cv_kind (load_cv (mem s) a); kb = cv_kind (load_cv (mem s) b) in
      if ka = CEL_ERROR then Some (True, copy_cv out a s)
      else if kb = CEL_ERROR then Some (True, copy_cv out b s)
      else if ka = CEL_UNKNOWN then
        (if kb = CEL_UNKNOWN then do {
           s \<leftarrow> cel_unknown_merge (word_of_nat out) (word_of_nat a) (word_of_nat b) s;
           Some (True, s)
         } else Some (True, copy_cv out a s))
      else if kb = CEL_UNKNOWN then Some (True, copy_cv out b s)
      else Some (False, s))"

definition absorb_3vl_unary :: "nat \<Rightarrow> nat \<Rightarrow> rt \<Rightarrow> bool \<times> rt" where
  "absorb_3vl_unary out a s =
     (let ka = cv_kind (load_cv (mem s) a) in
      if ka = CEL_ERROR \<or> ka = CEL_UNKNOWN then (True, copy_cv out a s) else (False, s))"

definition require_kinds :: "nat \<Rightarrow> nat \<Rightarrow> nat \<Rightarrow> u32 \<Rightarrow> rt \<Rightarrow> bool \<times> rt" where
  "require_kinds out a b want s =
     (if cv_kind (load_cv (mem s) a) \<noteq> want \<or> cv_kind (load_cv (mem s) b) \<noteq> want
      then (True, poison out CEL_ERR_TYPE_MISMATCH s) else (False, s))"


subsection \<open>The merge is the sorted union\<close>

definition ids_at :: "memory \<Rightarrow> nat \<Rightarrow> nat \<Rightarrow> u32 list" where
  "ids_at m a n = map (\<lambda>i. load32 m (a + 4 * i)) [0..<n]"

fun merge_ids :: "u32 list \<Rightarrow> u32 list \<Rightarrow> u32 list" where
  "merge_ids [] ys = ys"
| "merge_ids xs [] = xs"
| "merge_ids (x # xs) (y # ys) =
     (if x < y then x # merge_ids xs (y # ys)
      else if x > y then y # merge_ids (x # xs) ys
      else x # merge_ids xs ys)"

lemma merge_ids_Nil2 [simp]: "merge_ids xs [] = xs"
  by (cases xs) auto

lemma set_merge_ids: "set (merge_ids xs ys) = set xs \<union> set ys"
  by (induction xs ys rule: merge_ids.induct) auto

lemma merge_ids_strict_sorted:
  "sorted_wrt (<) xs \<Longrightarrow> sorted_wrt (<) ys \<Longrightarrow> sorted_wrt (<) (merge_ids xs ys)"
proof (induction xs ys rule: merge_ids.induct)
  case (3 x xs y ys)
  consider "x < y" | "y < x" | "x = y" by (metis linorder_less_linear)
  then show ?case
    by cases (use 3 in \<open>auto simp: set_merge_ids not_less_iff_gr_or_eq\<close>)
qed auto

lemma length_merge_ids: "length (merge_ids xs ys) \<le> length xs + length ys"
  by (induction xs ys rule: merge_ids.induct) auto

lemma length_ids_at [simp]: "length (ids_at m a n) = n"
  by (simp add: ids_at_def)

lemma nth_ids_at [simp]: "i < n \<Longrightarrow> ids_at m a n ! i = load32 m (a + 4 * i)"
  by (simp add: ids_at_def)

lemma ids_at_frame:
  assumes so: "same_outside b k m m'" and ap: "apart a (4 * n) b k"
  shows "ids_at m' a n = ids_at m a n"
  unfolding ids_at_def
proof (rule map_cong [OF refl])
  fix i assume i: "i \<in> set [0..<n]"
  show "load32 m' (a + 4 * i) = load32 m (a + 4 * i)"
  proof (cases "k = 0")
    case True
    then have "m' = m" using so by (auto simp: same_outside_def fun_eq_iff not_less_eq_eq linorder_not_le)
    then show ?thesis by simp
  next
    case False
    then show ?thesis using ap i by (intro cell32.load_frame [OF so]) (auto simp: apart_def)
  qed
qed

lemma ids_at_store: "ids_at (store32 m (out + 4 * k) w) out (Suc k) = ids_at m out k @ [w]"
  by (auto simp: ids_at_def mem_simps)

lemma drop_Cons_nth: "i < length xs \<Longrightarrow> drop i xs = xs ! i # drop (Suc i) xs"
  by (simp add: Cons_nth_drop_Suc)

lemma merge_copy_correct:
  assumes "ids_at m ids n = xs" "apart ids (4 * n) out N" "4 * (k + (n - i)) \<le> N"
    and "merge_copy ids n out i k m = (k', m')"
  shows "k' = k + (n - i) \<and> same_outside out N m m' \<and> ids_at m' out k' = ids_at m out k @ drop i xs"
  using assms
proof (induction ids n out i k m rule: merge_copy.induct)
  case (1 ids n out i k m)
  show ?case
  proof (cases "i < n")
    case True
    let ?m = "store32 m (out + 4 * k) (load32 m (ids + 4 * i))"
    have so: "same_outside out N m ?m" by (rule same_outside_store32) (use True 1(4) in auto)
    have "ids_at ?m ids n = xs" using ids_at_frame [OF so, of ids n] 1(2,3) by simp
    then have "k' = k + 1 + (n - (i + 1)) \<and> same_outside out N ?m m' \<and> ids_at m' out k' = ids_at ?m out (k + 1) @ drop (i + 1) xs"
    proof (rule 1(1) [OF True _ 1(3)])
      show "4 * (k + 1 + (n - (i + 1))) \<le> N" using True 1(4) by auto
      show "merge_copy ids n out (i + 1) (k + 1) ?m = (k', m')"
        using True 1(5) by (simp add: merge_copy.simps [of ids n out i k])
    qed
    moreover have "drop i xs = load32 m (ids + 4 * i) # drop (Suc i) xs"
      using 1(2) True by (subst drop_Cons_nth) auto
    ultimately show ?thesis using same_outside_trans [OF so] True by (auto simp: ids_at_store)
  qed (use 1 in \<open>auto simp: merge_copy.simps [of ids n out i k]\<close>)
qed

lemma merge_both_correct:
  assumes "ids_at m a la = xs" "ids_at m b lb = ys"
    and "apart a (4 * la) out N" "apart b (4 * lb) out N" "4 * (la + lb) \<le> N"
    and "i \<le> la" "j \<le> lb" "k \<le> i + j"
    and "merge_both a la b lb out i j k m = (i', j', k', m')"
  shows "same_outside out N m m' \<and> i' \<le> la \<and> j' \<le> lb \<and> k' \<le> i' + j' \<and> (i' = la \<or> j' = lb)
    \<and> ids_at m' out k' @ merge_ids (drop i' xs) (drop j' ys)
       = ids_at m out k @ merge_ids (drop i xs) (drop j ys)"
  using assms
proof (induction a la b lb out i j k m rule: merge_both.induct)
  case (1 a la b lb out i j k m)
  show ?case
  proof (cases "i < la \<and> j < lb")
    case False
    then have "(i', j', k', m') = (i, j, k, m)"
      using "1.prems"(9) by (simp only: merge_both.simps [of a la b lb out i j k] if_False)
    then show ?thesis using False "1.prems"(6-8) by auto
  next
    case True
    let ?ai = "load32 m (a + 4 * i)" and ?bj = "load32 m (b + 4 * j)"
    have dx: "drop i xs = ?ai # drop (Suc i) xs" and dy: "drop j ys = ?bj # drop (Suc j) ys"
      using "1.prems"(1,2) True by (subst drop_Cons_nth; auto)+
    have so: "same_outside out N m (store32 m (out + 4 * k) w)" for w
      by (rule same_outside_store32) (use True "1.prems"(5-8) in auto)
    have ids: "ids_at (store32 m (out + 4 * k) w) a la = xs" "ids_at (store32 m (out + 4 * k) w) b lb = ys" for w
      unfolding ids_at_frame [OF so "1.prems"(3)] ids_at_frame [OF so "1.prems"(4)] by (fact "1.prems")+
    have step: ?thesis
      if "same_outside out N (store32 m (out + 4 * k) w) m' \<and> i' \<le> la \<and> j' \<le> lb \<and> k' \<le> i' + j' \<and> (i' = la \<or> j' = lb)
        \<and> ids_at m' out k' @ merge_ids (drop i' xs) (drop j' ys)
          = ids_at (store32 m (out + 4 * k) w) out (k + 1) @ merge_ids (drop i2 xs) (drop j2 ys)"
        and "merge_ids (drop i xs) (drop j ys) = w # merge_ids (drop i2 xs) (drop j2 ys)" for w i2 j2
      using that same_outside_trans [OF so [of w], of m'] by (simp add: ids_at_store)
    note unf = "1.prems"(9) [unfolded merge_both.simps [of a la b lb out i j k m] Let_def]
    have le: "i + 1 \<le> la" "j + 1 \<le> lb" "k + 1 \<le> i + 1 + j" "k + 1 \<le> i + (j + 1)" "k + 1 \<le> i + 1 + (j + 1)"
      using True "1.prems"(6-8) by auto
    consider "?ai < ?bj" | "?bj < ?ai" | "?ai = ?bj" by (metis linorder_less_linear)
    then show ?thesis
    proof cases
      case 1
      show ?thesis
        by (rule step [OF "1.IH"(1) [OF True refl refl 1 ids "1.prems"(3-5) le(1) "1.prems"(7) le(3)]])
          (use unf True 1 in \<open>simp_all add: dx dy\<close>)
    next
      case 2
      then have n: "\<not> ?ai < ?bj" by simp
      show ?thesis
        by (rule step [OF "1.IH"(2) [OF True refl refl n 2 ids "1.prems"(3-6) le(2,4)]])
          (use unf True 2 n in \<open>simp_all add: dx dy\<close>)
    next
      case 3
      then have n: "\<not> ?ai < ?bj" "\<not> ?bj < ?ai" by simp_all
      show ?thesis
        by (rule step [OF "1.IH"(3) [OF True refl refl n ids "1.prems"(3-5) le(1,2,5)]])
          (use unf True 3 n in \<open>simp_all add: dx dy\<close>)
    qed
  qed
qed

lemma merge_sorted_id_arrays_correct:
  assumes "apart a (4 * la) out (4 * (la + lb))" "apart b (4 * lb) out (4 * (la + lb))"
    and "merge_sorted_id_arrays a la b lb out m = (k, m')"
  shows "same_outside out (4 * (la + lb)) m m'"
    and "ids_at m' out k = merge_ids (ids_at m a la) (ids_at m b lb)"
proof -
  let ?N = "4 * (la + lb)"
  obtain i j k1 m1 where s1: "merge_both a la b lb out 0 0 0 m = (i, j, k1, m1)" by (metis prod.exhaust)
  obtain k2 m2 where s2: "merge_copy a la out i k1 m1 = (k2, m2)" by fastforce
  have s3: "merge_copy b lb out j k2 m2 = (k, m')"
    using assms(3) by (simp add: merge_sorted_id_arrays_def s1 s2)
  let ?xs = "ids_at m a la" and ?ys = "ids_at m b lb"
  have c1: "same_outside out ?N m m1" "i \<le> la" "j \<le> lb" "k1 \<le> i + j" "i = la \<or> j = lb"
    "ids_at m1 out k1 @ merge_ids (drop i ?xs) (drop j ?ys) = merge_ids ?xs ?ys"
    using merge_both_correct [OF refl refl assms(1,2) order.refl _ _ _ s1] by (auto simp: ids_at_def)
  have fr: "ids_at m1 a la = ?xs" "ids_at m1 b lb = ?ys"
    using ids_at_frame [OF c1(1) assms(1)] ids_at_frame [OF c1(1) assms(2)] by simp_all
  have n2: "4 * (k1 + (la - i)) \<le> ?N" using c1(2-4) by auto
  have c2: "k2 = k1 + (la - i)" "same_outside out ?N m1 m2" "ids_at m2 out k2 = ids_at m1 out k1 @ drop i ?xs"
    using merge_copy_correct [OF fr(1) assms(1) n2 s2] by auto
  have fr2: "ids_at m2 b lb = ?ys" using ids_at_frame [OF c2(2) assms(2)] fr by simp
  have n3: "4 * (k2 + (lb - j)) \<le> ?N" using c1(2-4) c2(1) by auto
  have c3: "k = k2 + (lb - j)" "same_outside out ?N m2 m'" "ids_at m' out k = ids_at m2 out k2 @ drop j ?ys"
    using merge_copy_correct [OF fr2 assms(2) n3 s3] by auto
  show "same_outside out ?N m m'" using same_outside_trans c1(1) c2(2) c3(2) by blast
  show "ids_at m' out k = merge_ids ?xs ?ys"
    using c1(5,6) c2(3) c3(3) by auto
qed


subsection \<open>The union of two unknown sets\<close>

text \<open>The ids behind an \<open>UnknownSet\<close> descriptor; offset 0 is the empty set.\<close>

definition unk_ids :: "memory \<Rightarrow> u32 \<Rightarrow> u32 list" where
  "unk_ids m d = (if d = 0 then []
     else ids_at m (unat (load32 m (unat d))) (unat (load32 m (unat d + 4))))"

definition unk_len :: "memory \<Rightarrow> u32 \<Rightarrow> nat" where
  "unk_len m d = length (unk_ids m d)"

text \<open>What a merge asks of the arena: room for all the ids, at least one, and the descriptor.\<close>

definition merge_requests :: "memory \<Rightarrow> u32 \<Rightarrow> u32 \<Rightarrow> u32 list" where
  "merge_requests m set_a set_b =
     (if set_a = 0 \<or> set_b = 0 then [] else [word_of_nat (max 4 (4 * (unk_len m set_a + unk_len m set_b))), 8])"

text \<open>The descriptor and its array lie in kept memory, apart from the cell at \<open>out\<close>.\<close>

definition unk_kept :: "rt \<Rightarrow> nat \<Rightarrow> u32 \<Rightarrow> bool" where
  "unk_kept s out d \<longleftrightarrow> d = 0 \<or>
     (let ids = unat (load32 (mem s) (unat d)); n = unat (load32 (mem s) (unat d + 4)) in
      kept_range s (unat d) 8 \<and> kept_range s ids (4 * n) \<and> apart (unat d) 8 out 24 \<and> apart ids (4 * n) out 24)"

lemma kept_range_tail: "kept_range s a n \<Longrightarrow> k \<le> n \<Longrightarrow> kept_range s a k"
  by (auto simp: kept_range_def)

lemma kept_apart_fresh:
  assumes "kept_range s a n" "\<And>x. p \<le> x \<Longrightarrow> x < p + k \<Longrightarrow> \<not> kept s x"
  shows "apart a n p k"
proof (rule ccontr)
  assume n: "\<not> apart a n p k"
  define x where "x = max a p"
  have "a \<le> x" "x < a + n" "p \<le> x" "x < p + k" using n by (auto simp: apart_def x_def)
  then show False using assms by (auto simp: kept_range_def)
qed

lemma ids_at_extends: "extends s s' \<Longrightarrow> kept_range s a (4 * n) \<Longrightarrow> ids_at (mem s') a n = ids_at (mem s) a n"
  unfolding ids_at_def
  by (rule map_cong [OF refl], rule extends_loads(1)) (auto simp: kept_range_def)

lemma unk_ids_extends:
  assumes "extends s s'" "unk_kept s out d"
  shows "unk_ids (mem s') d = unk_ids (mem s) d"
proof (cases "d = 0")
  case False
  then have k: "kept_range s (unat d) 8" "kept_range s (unat (load32 (mem s) (unat d))) (4 * unat (load32 (mem s) (unat d + 4)))"
    using assms(2) by (auto simp: unk_kept_def Let_def)
  have "load32 (mem s') (unat d) = load32 (mem s) (unat d)" "load32 (mem s') (unat d + 4) = load32 (mem s) (unat d + 4)"
    using k(1) by (auto intro!: extends_loads(1) [OF assms(1)] elim: kept_range_sub)
  then show ?thesis using ids_at_extends [OF assms(1) k(2)] by (simp add: unk_ids_def)
qed (simp add: unk_ids_def)

lemma merge_unknown_descriptors_correct:
  assumes ok: "arena_ok s" and nz: "set_a \<noteq> 0" "set_b \<noteq> 0"
    and ka: "unk_kept s out set_a" and kb: "unk_kept s out set_b"
    and small: "unk_len (mem s) set_a + unk_len (mem s) set_b < 2 ^ 30"
  shows "\<exists>d s'. merge_unknown_descriptors set_a set_b s = Some (d, s') \<and> extends s s'
    \<and> (d = 0 \<longleftrightarrow> refused (merge_requests (mem s) set_a set_b) s)
    \<and> (d \<noteq> 0 \<longrightarrow> (\<forall>x. unat d \<le> x \<and> x < unat d + 8 \<longrightarrow> \<not> kept s x)
        \<and> (\<forall>x. unat (load32 (mem s') (unat d)) \<le> x \<and> x < unat (load32 (mem s') (unat d)) + 4 * unat (load32 (mem s') (unat d + 4)) \<longrightarrow> \<not> kept s x)
        \<and> unk_ids (mem s') d = merge_ids (unk_ids (mem s) set_a) (unk_ids (mem s) set_b))"
proof -
  let ?m = "mem s"
  let ?a = "unat (load32 ?m (unat set_a))" and ?la = "unat (load32 ?m (unat set_a + 4))"
  let ?b = "unat (load32 ?m (unat set_b))" and ?lb = "unat (load32 ?m (unat set_b + 4))"
  let ?bytes = "(load32 ?m (unat set_a + 4) + load32 ?m (unat set_b + 4)) * 4 :: u32"
  let ?n = "if ?bytes = 0 then 4 else ?bytes"
  have small': "?la + ?lb < 1073741824" using small nz by (simp add: unk_len_def unk_ids_def)
  then have bytes: "unat ?bytes = 4 * (?la + ?lb)" by (simp add: unat_word_ariths)
  then have n1: "4 * (?la + ?lb) \<le> unat ?n" by auto
  have nu: "unat ?n = max 4 (4 * (?la + ?lb))"
  proof (cases "?bytes = 0")
    case True
    then have "unat ?bytes = 0" by simp
    then have "4 * (?la + ?lb) = 0" by (simp only: bytes)
    then have "?la + ?lb = 0" by simp
    then show ?thesis using True by simp
  next
    case False
    then have "unat ?bytes \<noteq> 0" by (simp add: unat_eq_0)
    then show ?thesis using False bytes by auto
  qed
  have n: "?n = word_of_nat (max 4 (4 * (?la + ?lb)))"
    unfolding nu [symmetric] by (rule word_of_nat_unat_u32 [symmetric])
  then have req: "merge_requests ?m set_a set_b = [?n, 8]"
    using nz by (simp add: merge_requests_def unk_len_def unk_ids_def)
  have "?n \<noteq> 0" by simp
  then have n2: "0 < unat ?n" using unat_gt_0 by blast
  note n = n1 n2
  have ids: "unk_ids ?m set_a = ids_at ?m ?a ?la" "unk_ids ?m set_b = ids_at ?m ?b ?lb"
    using nz by (simp_all add: unk_ids_def)
  have kids: "kept_range s ?a (4 * ?la)" "kept_range s ?b (4 * ?lb)"
    using ka kb nz by (simp_all add: unk_kept_def Let_def)
  show ?thesis
  proof (cases rule: arena_alloc_extends [OF ok, of ?n])
    case (1 s1)
    then show ?thesis by (auto simp: merge_unknown_descriptors_def Let_def req)
  next
    case (2 p s1)
    let ?N = "4 * (?la + ?lb)"
    have fr: "\<not> kept s x" if "unat p \<le> x" "x < unat p + ?N" for x using 2(5) [of x] that n(1) by auto
    have ap: "apart ?a (4 * ?la) (unat p) ?N" "apart ?b (4 * ?lb) (unat p) ?N"
      using kept_apart_fresh [OF kids(1) fr] kept_apart_fresh [OF kids(2) fr] by simp_all
    obtain k m1 where mk: "merge_sorted_id_arrays ?a ?la ?b ?lb (unat p) (mem s1) = (k, m1)" by fastforce
    note mc = merge_sorted_id_arrays_correct [OF ap mk]
    have i1: "ids_at m1 (unat p) k = merge_ids (unk_ids ?m set_a) (unk_ids ?m set_b)"
      using mc(2) ids_at_extends [OF 2(3) kids(1)] ids_at_extends [OF 2(3) kids(2)] by (simp add: ids)
    have kle: "k \<le> ?la + ?lb"
      using arg_cong [OF i1, of length] length_merge_ids [of "unk_ids ?m set_a" "unk_ids ?m set_b"] by (simp add: ids)
    have uk: "unat (word_of_nat k :: u32) = k" using kle small' by (simp add: unat_of_nat)
    let ?s2 = "s1\<lparr>mem := m1\<rparr>"
    have e2: "extends s ?s2" by (rule extends_fill [OF 2(3) mc(1) fr])
    have kp: "kept_range ?s2 (unat p) (4 * k)" using 2(4) n(1) kle by (auto simp: kept_range_def)
    have frk: "\<not> kept s x" if "unat p \<le> x" "x < unat p + 4 * k" for x
      by (rule fr) (use that kle in auto)
    have eq: "merge_unknown_descriptors set_a set_b s = alloc_unknown_descriptor p (word_of_nat k) ?s2"
      using 2(1,2) mk by (simp add: merge_unknown_descriptors_def Let_def)
    have ok2: "arena_ok ?s2" using e2 by (simp add: extends_def)
    show ?thesis
    proof (cases rule: arena_alloc_extends [OF ok2, of 8])
      case (1 s3)
      then have "refused [8] s1" using refused_mem [of "[8]" m1 s1] by simp
      then show ?thesis using 1 extends_trans [OF e2] \<open>arena_alloc ?n s = Some (p, s1)\<close> by (auto simp: eq alloc_unknown_descriptor_def req)
    next
      case (2 d s3)
      let ?s4 = "s3\<lparr>mem := store32 (store32 (mem s3) (unat d) p) (unat d + 4) (word_of_nat k)\<rparr>"
      have so: "same_outside (unat d) 8 (mem s3) (mem ?s4)"
        by (simp, rule same_outside_trans [OF same_outside_store32 same_outside_store32]) simp_all
      have fr2: "\<not> kept ?s2 x" if "unat d \<le> x" "x < unat d + 8" for x using 2(5) [of x] that by simp
      have e4: "extends ?s2 ?s4" using extends_fill [OF 2(3) so fr2] by simp
      have r: "alloc_unknown_descriptor p (word_of_nat k) ?s2 = Some (d, ?s4)"
        using 2(1,2) by (simp add: alloc_unknown_descriptor_def)
      have l: "load32 (mem ?s4) (unat d) = p" "load32 (mem ?s4) (unat d + 4) = word_of_nat k"
        by (simp_all add: mem_simps)
      have u: "unk_ids (mem ?s4) d = ids_at m1 (unat p) k"
        using ids_at_extends [OF e4 kp] 2(2) l by (simp add: unk_ids_def uk)
      have "\<not> kept s x" if "unat d \<le> x" "x < unat d + 8" for x
        using fr2 [OF that] kept_mono [of s ?s2 x] e2 by (auto simp: extends_def)
      moreover have "\<not> refused [8] s1" using refused_mem [of "[8]" m1 s1] 2(1,2) by simp
      then have "\<not> refused (merge_requests ?m set_a set_b) s" using \<open>arena_alloc ?n s = Some (p, s1)\<close> \<open>p \<noteq> 0\<close> by (simp add: req)
      ultimately show ?thesis
        using u i1 l uk frk 2(2) extends_trans [OF e2 e4] unfolding eq r by (intro exI conjI) auto
    qed
  qed
qed


lemma cell_write_unknown [cell_simps]:
  "load_cv (mem (write_unknown_at slot d s)) (cel_value_at slot) = (cv s slot)
     \<lparr>cv_kind := CEL_UNKNOWN, cv_lo := join32 d (hi32 (cv_lo (cv s slot)))\<rparr>"
  by (simp add: write_unknown_at_def mem_simps)

lemma only_cell_write_unknown [simp]: "only_cell (cel_value_at slot) s (write_unknown_at slot d s)"
  unfolding write_unknown_at_def
  by (rule only_cell_store, rule same_outside_trans [OF same_outside_store32 same_outside_store32]) simp_all

lemma load32_apart:
  "same_outside b k m m' \<Longrightarrow> apart a n b k \<Longrightarrow> a \<le> x \<Longrightarrow> x + 4 \<le> a + n \<Longrightarrow> load32 m' x = load32 m x"
  using same_outside_def [of b k m m'] by (intro load32_cong) (auto simp: apart_def)

lemma unk_ids_same_outside:
  assumes so: "same_outside out 24 m m'" and d: "apart (unat d) 8 out 24"
    "apart (unat (load32 m (unat d))) (4 * unat (load32 m (unat d + 4))) out 24"
  shows "unk_ids m' d = unk_ids m d"
proof -
  have "load32 m' (unat d) = load32 m (unat d)" "load32 m' (unat d + 4) = load32 m (unat d + 4)"
    by (rule load32_apart [OF so d(1)]; simp)+
  then show ?thesis using ids_at_frame [OF so d(2)] by (simp add: unk_ids_def)
qed

lemma unk_ids_only_cell: "only_cell out s s' \<Longrightarrow> unk_kept s out d \<Longrightarrow> unk_ids (mem s') d = unk_ids (mem s) d"
  by (cases "d = 0") (auto simp: only_cell_def unk_kept_def Let_def unk_ids_def
      dest: unk_ids_same_outside [of out "mem s" "mem s'" d])

lemma apart_sym: "apart a n b k = apart b k a n"
  by (auto simp: apart_def)

text \<open>
  An operand of a logic or strict kernel: its cell is kept, and an unknown's descriptor and its
  strictly sorted ids are kept and apart from the out slot.
\<close>

definition unknown_ok :: "rt \<Rightarrow> u32 \<Rightarrow> u32 \<Rightarrow> bool" where
  "unknown_ok s out_slot slot \<longleftrightarrow> (cv_kind (cv s slot) = CEL_UNKNOWN \<longrightarrow>
     unk_kept s (cel_value_at out_slot) (pl_unk (cv s slot))
     \<and> sorted_wrt (<) (unk_ids (mem s) (pl_unk (cv s slot)))
     \<and> unk_len (mem s) (pl_unk (cv s slot)) < 2 ^ 29)"

definition ids_of :: "rt \<Rightarrow> u32 \<Rightarrow> u32 list" where
  "ids_of s slot = unk_ids (mem s) (pl_unk (cv s slot))"

text \<open>The merge of the unknowns in two slots overflows exactly when the arena refuses it.\<close>

definition merge_refused :: "rt \<Rightarrow> u32 \<Rightarrow> u32 \<Rightarrow> bool" where
  "merge_refused s a_slot b_slot \<longleftrightarrow> refused (merge_requests (mem s) (pl_unk (cv s a_slot)) (pl_unk (cv s b_slot))) s"

lemma cel_unknown_merge_correct:
  assumes ok: "arena_ok s" and out: "kept_range s (cel_value_at out_slot) 24"
    and ku: "cv_kind (cv s a_slot) = CEL_UNKNOWN" "cv_kind (cv s b_slot) = CEL_UNKNOWN"
    and oa: "unknown_ok s out_slot a_slot" and ob: "unknown_ok s out_slot b_slot"
  shows "\<exists>s'. cel_unknown_merge out_slot a_slot b_slot s = Some s' \<and> keeps (cel_value_at out_slot) s s'
    \<and> (if merge_refused s a_slot b_slot then is_err (cv s' out_slot) CEL_ERR_OVERFLOW
       else cv_kind (cv s' out_slot) = CEL_UNKNOWN
         \<and> ids_of s' out_slot = merge_ids (ids_of s a_slot) (ids_of s b_slot))"
proof -
  let ?out = "cel_value_at out_slot"
  let ?da = "pl_unk (cv s a_slot)" and ?db = "pl_unk (cv s b_slot)"
  have ka: "unk_kept s ?out ?da" and kb: "unk_kept s ?out ?db"
    and len: "unk_len (mem s) ?da + unk_len (mem s) ?db < 2 ^ 30"
    using oa ob ku by (auto simp: unknown_ok_def)
  have w: "cv_kind (cv (write_unknown_at out_slot d t) out_slot) = CEL_UNKNOWN"
    "ids_of (write_unknown_at out_slot d t) out_slot = unk_ids (mem (write_unknown_at out_slot d t)) d" for d t
    by (simp_all add: cell_simps ids_of_def pl_defs)
  have wk: "unk_ids (mem (write_unknown_at out_slot d s)) d = unk_ids (mem s) d" if "unk_kept s ?out d" for d
    by (rule unk_ids_only_cell [OF only_cell_write_unknown that])
  have ids0: "d = 0 \<Longrightarrow> unk_ids m d = []" for m d by (simp add: unk_ids_def)
  show ?thesis
  proof (cases "?da = 0 \<or> ?db = 0")
    case True
    then have "\<exists>d. cel_unknown_merge out_slot a_slot b_slot s = Some (write_unknown_at out_slot d s)
        \<and> unk_kept s ?out d \<and> unk_ids (mem s) d = merge_ids (ids_of s a_slot) (ids_of s b_slot)"
      using ku ka kb by (intro exI [of _ "if ?da = 0 then ?db else ?da"])
        (auto simp: cel_unknown_merge_def ids_of_def ids0 Let_def)
    moreover have "\<not> merge_refused s a_slot b_slot" using True by (auto simp: merge_refused_def merge_requests_def)
    ultimately show ?thesis
      using w wk only_cell_keeps [OF only_cell_write_unknown ok] by auto
  next
    case False
    then obtain d t where mu: "merge_unknown_descriptors ?da ?db s = Some (d, t)" "extends s t"
      and full: "d = 0 \<longleftrightarrow> merge_refused s a_slot b_slot"
      and dok: "d \<noteq> 0 \<Longrightarrow> unk_ids (mem t) d = merge_ids (ids_of s a_slot) (ids_of s b_slot)"
        "d \<noteq> 0 \<Longrightarrow> unat d \<le> x \<Longrightarrow> x < unat d + 8 \<Longrightarrow> \<not> kept s x"
        "d \<noteq> 0 \<Longrightarrow> unat (load32 (mem t) (unat d)) \<le> x \<Longrightarrow>
          x < unat (load32 (mem t) (unat d)) + 4 * unat (load32 (mem t) (unat d + 4)) \<Longrightarrow> \<not> kept s x" for x
      using merge_unknown_descriptors_correct [OF ok _ _ ka kb len] by (auto simp: ids_of_def merge_refused_def)
    have eq: "cel_unknown_merge out_slot a_slot b_slot s =
        (if d = 0 then Some (poison ?out CEL_ERR_OVERFLOW t) else Some (write_unknown_at out_slot d t))"
      using False ku mu(1) by (simp add: cel_unknown_merge_def)
    have okt: "arena_ok t" using mu(2) by (simp add: extends_def)
    have k: "only_cell ?out t t' \<Longrightarrow> keeps ?out s t'" for t'
      using keeps_trans [OF extends_keeps [OF mu(2)] only_cell_keeps [OF _ okt]] by blast
    show ?thesis
    proof (cases "d = 0")
      case True
      then show ?thesis using k [of "poison ?out CEL_ERR_OVERFLOW t"] eq full by (simp add: cell_simps is_defs pl_defs)
    next
      case d: False
      have so: "same_outside ?out 24 (mem t) (mem (write_unknown_at out_slot d t))"
        using only_cell_write_unknown [of out_slot t d] by (simp add: only_cell_def)
      have "unk_ids (mem (write_unknown_at out_slot d t)) d = unk_ids (mem t) d"
        by (rule unk_ids_same_outside [OF so])
          (use kept_apart_fresh [OF out] dok(2,3) [OF d] apart_sym in blast)+
      then show ?thesis using k [OF only_cell_write_unknown] eq d w dok(1) full by auto
    qed
  qed
qed


subsection \<open>The truth tables\<close>

text \<open>
  The abstract three-valued algebra: a bool, an error code, the set of attributes an unknown
  stands for, or a value of another kind.
\<close>

datatype tv = VBool bool | VErr u32 | VUnk "u32 set" | VOther

definition tv_of :: "memory \<Rightarrow> cel_value \<Rightarrow> tv" where
  "tv_of m v = (if cv_kind v = CEL_BOOL then VBool (pl_b v \<noteq> 0)
     else if cv_kind v = CEL_ERROR then VErr (pl_err v)
     else if cv_kind v = CEL_UNKNOWN then VUnk (set (unk_ids m (pl_unk v)))
     else VOther)"

abbreviation tv_at :: "rt \<Rightarrow> u32 \<Rightarrow> tv" where
  "tv_at s slot \<equiv> tv_of (mem s) (cv s slot)"

fun tv_not :: "tv \<Rightarrow> tv" where
  "tv_not (VBool b) = VBool (\<not> b)"
| "tv_not VOther = VErr CEL_ERR_TYPE_MISMATCH"
| "tv_not x = x"

text \<open>\<open>&&\<close>: false absorbs, then type errors, then true is neutral, then unknown over error.\<close>

fun tv_and :: "tv \<Rightarrow> tv \<Rightarrow> tv" where
  "tv_and (VBool False) y = VBool False"
| "tv_and x (VBool False) = VBool False"
| "tv_and VOther y = VErr CEL_ERR_TYPE_MISMATCH"
| "tv_and x VOther = VErr CEL_ERR_TYPE_MISMATCH"
| "tv_and (VBool True) y = y"
| "tv_and x (VBool True) = x"
| "tv_and (VUnk A) (VUnk B) = VUnk (A \<union> B)"
| "tv_and (VUnk A) (VErr f) = VUnk A"
| "tv_and (VErr e) (VUnk B) = VUnk B"
| "tv_and (VErr e) (VErr f) = VErr e"

fun tv_or :: "tv \<Rightarrow> tv \<Rightarrow> tv" where
  "tv_or (VBool True) y = VBool True"
| "tv_or x (VBool True) = VBool True"
| "tv_or VOther y = VErr CEL_ERR_TYPE_MISMATCH"
| "tv_or x VOther = VErr CEL_ERR_TYPE_MISMATCH"
| "tv_or (VBool False) y = y"
| "tv_or x (VBool False) = x"
| "tv_or (VUnk A) (VUnk B) = VUnk (A \<union> B)"
| "tv_or (VUnk A) (VErr f) = VUnk A"
| "tv_or (VErr e) (VUnk B) = VUnk B"
| "tv_or (VErr e) (VErr f) = VErr e"

text \<open>The strict operators' rule: an error wins, left first, then unknowns merge.\<close>

fun tv_strict :: "tv \<Rightarrow> tv \<Rightarrow> tv option" where
  "tv_strict (VErr e) y = Some (VErr e)"
| "tv_strict x (VErr e) = Some (VErr e)"
| "tv_strict (VUnk A) (VUnk B) = Some (VUnk (A \<union> B))"
| "tv_strict (VUnk A) y = Some (VUnk A)"
| "tv_strict x (VUnk B) = Some (VUnk B)"
| "tv_strict x y = None"

lemma tv_cases:
  obtains (T) "x = VBool True" | (F) "x = VBool False" | (E) e where "x = VErr e"
    | (U) A where "x = VUnk A" | (O) "x = VOther"
  by (cases x) auto

lemma tv_de_morgan:
  "x \<noteq> VOther \<Longrightarrow> y \<noteq> VOther \<Longrightarrow> tv_not (tv_and x y) = tv_or (tv_not x) (tv_not y)"
  by (cases x rule: tv_cases; cases y rule: tv_cases) auto

text \<open>
  Resolving the unknowns of the operands of a logic operator refines its result: a result that
  is not unknown stays. (A non-logic operand breaks this: it makes a type error of an unknown
  that might have resolved to the absorbing bool.)
\<close>

definition resolves :: "tv \<Rightarrow> tv \<Rightarrow> bool" where
  "resolves x x' \<longleftrightarrow> x' = x \<or> ((\<exists>A. x = VUnk A) \<and> x' \<noteq> VOther)"

lemma tv_and_monotone:
  assumes "x \<noteq> VOther" "y \<noteq> VOther" "resolves x x'" "resolves y y'"
  shows "resolves (tv_and x y) (tv_and x' y')"
  using assms
  by (cases x rule: tv_cases; cases y rule: tv_cases; cases x' rule: tv_cases; cases y' rule: tv_cases)
    (simp_all add: resolves_def)

lemma tv_or_monotone:
  assumes "x \<noteq> VOther" "y \<noteq> VOther" "resolves x x'" "resolves y y'"
  shows "resolves (tv_or x y) (tv_or x' y')"
  using assms
  by (cases x rule: tv_cases; cases y rule: tv_cases; cases x' rule: tv_cases; cases y' rule: tv_cases)
    (simp_all add: resolves_def)

subsection \<open>The kernels implement the algebra\<close>

lemma tv_of_same_ids:
  "v' = v \<Longrightarrow> (cv_kind v = CEL_UNKNOWN \<Longrightarrow> unk_ids m' (pl_unk v) = unk_ids m (pl_unk v)) \<Longrightarrow> tv_of m' v' = tv_of m v"
  by (simp add: tv_of_def)

text \<open>Copying an operand into the out slot copies its meaning.\<close>

lemma tv_copy:
  assumes "unknown_ok s out_slot slot"
  shows "tv_at (copy_cv (cel_value_at out_slot) (cel_value_at slot) s) out_slot = tv_at s slot"
proof (rule tv_of_same_ids)
  show "unk_ids (mem (copy_cv (cel_value_at out_slot) (cel_value_at slot) s)) (pl_unk (cv s slot))
      = unk_ids (mem s) (pl_unk (cv s slot))" if "cv_kind (cv s slot) = CEL_UNKNOWN"
    using assms that by (intro unk_ids_only_cell [of "cel_value_at out_slot"]) (auto simp: unknown_ok_def)
qed (simp add: cell_simps)

lemma tv_write_bool: "tv_at (write_bool (cel_value_at out_slot) b s) out_slot = VBool b"
  by (simp add: cell_simps tv_of_def pl_defs)

lemma tv_poison: "tv_at (poison (cel_value_at out_slot) e s) out_slot = VErr e"
  by (simp add: cell_simps tv_of_def pl_defs)

text \<open>
  The operands of one call, and its outcome: the abstract result, or, when two unknowns had to
  be merged and the arena refuses the merge, the overflow error.
\<close>

definition operands_ok :: "rt \<Rightarrow> u32 \<Rightarrow> u32 \<Rightarrow> u32 \<Rightarrow> bool" where
  "operands_ok s out_slot a_slot b_slot \<longleftrightarrow> arena_ok s \<and> kept_range s (cel_value_at out_slot) 24
     \<and> unknown_ok s out_slot a_slot \<and> unknown_ok s out_slot b_slot"

definition outcome :: "rt \<Rightarrow> u32 \<Rightarrow> u32 \<Rightarrow> u32 \<Rightarrow> tv \<Rightarrow> rt \<Rightarrow> bool" where
  "outcome s out_slot a_slot b_slot r s' \<longleftrightarrow> keeps (cel_value_at out_slot) s s'
     \<and> (if cv_kind (cv s a_slot) = CEL_UNKNOWN \<and> cv_kind (cv s b_slot) = CEL_UNKNOWN \<and> merge_refused s a_slot b_slot
        then is_err (cv s' out_slot) CEL_ERR_OVERFLOW
        else tv_at s' out_slot = r)"

lemma tv_of_kinds:
  "cv_kind v = CEL_BOOL \<Longrightarrow> tv_of m v = VBool (pl_b v \<noteq> 0)"
  "cv_kind v = CEL_ERROR \<Longrightarrow> tv_of m v = VErr (pl_err v)"
  "cv_kind v = CEL_UNKNOWN \<Longrightarrow> tv_of m v = VUnk (set (unk_ids m (pl_unk v)))"
  "\<not> is_3vl_kind (cv_kind v) \<Longrightarrow> tv_of m v = VOther"
  by (auto simp: tv_of_def is_3vl_kind_def)

lemma outcome_only_cell:
  assumes "arena_ok s" "only_cell (cel_value_at out_slot) s s'" "tv_at s' out_slot = r"
    and "\<not> (cv_kind (cv s a_slot) = CEL_UNKNOWN \<and> cv_kind (cv s b_slot) = CEL_UNKNOWN)"
  shows "outcome s out_slot a_slot b_slot r s'"
  using assms only_cell_keeps by (auto simp: outcome_def)

lemma outcome_merge:
  assumes "operands_ok s out_slot a_slot b_slot"
    and k: "cv_kind (cv s a_slot) = CEL_UNKNOWN" "cv_kind (cv s b_slot) = CEL_UNKNOWN"
  shows "\<exists>s'. cel_unknown_merge out_slot a_slot b_slot s = Some s'
    \<and> outcome s out_slot a_slot b_slot (VUnk (set (ids_of s a_slot) \<union> set (ids_of s b_slot))) s'"
proof -
  obtain s' where s': "cel_unknown_merge out_slot a_slot b_slot s = Some s'" "keeps (cel_value_at out_slot) s s'"
    "if merge_refused s a_slot b_slot then is_err (cv s' out_slot) CEL_ERR_OVERFLOW
     else cv_kind (cv s' out_slot) = CEL_UNKNOWN \<and> ids_of s' out_slot = merge_ids (ids_of s a_slot) (ids_of s b_slot)"
    using cel_unknown_merge_correct [OF _ _ k] assms by (auto simp: operands_ok_def)
  have "cv_kind (cv s' out_slot) = CEL_UNKNOWN \<Longrightarrow> tv_at s' out_slot = VUnk (set (ids_of s a_slot) \<union> set (ids_of s b_slot))"
    if "\<not> merge_refused s a_slot b_slot"
    using s'(3) that by (simp add: tv_of_kinds ids_of_def [symmetric] set_merge_ids)
  then show ?thesis using s' k by (auto simp: outcome_def split: if_splits)
qed


lemma cel_value_at_inverse [simp]: "word_of_nat (cel_value_at slot) = slot"
  by (simp add: cel_value_at_def)

lemma tv_and_laws:
  "tv_and x (VBool False) = VBool False" "y \<noteq> VOther \<Longrightarrow> tv_and (VBool True) y = y"
  "x \<noteq> VOther \<Longrightarrow> tv_and x (VBool True) = x"
  "y \<noteq> VBool False \<Longrightarrow> tv_and VOther y = VErr CEL_ERR_TYPE_MISMATCH"
  "x \<noteq> VBool False \<Longrightarrow> tv_and x VOther = VErr CEL_ERR_TYPE_MISMATCH"
  by (cases x rule: tv_cases; simp; fail | cases y rule: tv_cases; simp; fail)+

lemma tv_or_laws:
  "tv_or x (VBool True) = VBool True" "y \<noteq> VOther \<Longrightarrow> tv_or (VBool False) y = y"
  "x \<noteq> VOther \<Longrightarrow> tv_or x (VBool False) = x"
  "y \<noteq> VBool True \<Longrightarrow> tv_or VOther y = VErr CEL_ERR_TYPE_MISMATCH"
  "x \<noteq> VBool True \<Longrightarrow> tv_or x VOther = VErr CEL_ERR_TYPE_MISMATCH"
  by (cases x rule: tv_cases; simp; fail | cases y rule: tv_cases; simp; fail)+

lemma tv_of_cases:
  "tv_of m v = VOther \<longleftrightarrow> \<not> is_3vl_kind (cv_kind v)"
  "tv_of m v = VBool True \<longleftrightarrow> cv_kind v = CEL_BOOL \<and> pl_b v \<noteq> 0"
  "tv_of m v = VBool False \<longleftrightarrow> cv_kind v = CEL_BOOL \<and> pl_b v = 0"
  by (auto simp: tv_of_def is_3vl_kind_def)

text \<open>The common tail, on operands that are errors or unknowns.\<close>

lemma logic_tail_refines:
  assumes ok: "operands_ok s out_slot a_slot b_slot"
    and ka: "cv_kind (cv s a_slot) = CEL_ERROR \<or> cv_kind (cv s a_slot) = CEL_UNKNOWN"
    and kb: "cv_kind (cv s b_slot) = CEL_ERROR \<or> cv_kind (cv s b_slot) = CEL_UNKNOWN"
  shows "\<exists>s'. logic_unknown_error_tail out_slot a_slot b_slot s = Some s'
    \<and> outcome s out_slot a_slot b_slot (tv_and (tv_at s a_slot) (tv_at s b_slot)) s'
    \<and> outcome s out_slot a_slot b_slot (tv_or (tv_at s a_slot) (tv_at s b_slot)) s'"
proof -
  have ar: "arena_ok s" and ua: "unknown_ok s out_slot a_slot" and ub: "unknown_ok s out_slot b_slot"
    using ok by (simp_all add: operands_ok_def)
  note oc = outcome_only_cell [OF ar only_cell_writers(6)]
  consider "cv_kind (cv s a_slot) = CEL_UNKNOWN" "cv_kind (cv s b_slot) = CEL_UNKNOWN"
    | "cv_kind (cv s a_slot) = CEL_UNKNOWN" "cv_kind (cv s b_slot) = CEL_ERROR"
    | "cv_kind (cv s a_slot) = CEL_ERROR" "cv_kind (cv s b_slot) = CEL_UNKNOWN"
    | "cv_kind (cv s a_slot) = CEL_ERROR" "cv_kind (cv s b_slot) = CEL_ERROR"
    using ka kb by blast
  then show ?thesis
  proof cases
    case 1
    then show ?thesis using outcome_merge [OF ok 1]
      by (simp add: logic_unknown_error_tail_def tv_of_kinds ids_of_def)
  next
    case 2
    then show ?thesis using oc [OF tv_copy [OF ua], of a_slot b_slot]
      by (simp add: logic_unknown_error_tail_def tv_of_kinds)
  next
    case 3
    then show ?thesis using oc [OF tv_copy [OF ub], of a_slot b_slot]
      by (simp add: logic_unknown_error_tail_def tv_of_kinds)
  next
    case 4
    then show ?thesis using oc [OF tv_copy [OF ua], of a_slot b_slot]
      by (simp add: logic_unknown_error_tail_def tv_of_kinds)
  qed
qed

lemma cel_and_refines:
  assumes ok: "operands_ok s out_slot a_slot b_slot"
  shows "\<exists>s'. cel_and out_slot a_slot b_slot s = Some s'
    \<and> outcome s out_slot a_slot b_slot (tv_and (tv_at s a_slot) (tv_at s b_slot)) s'"
proof -
  let ?a = "cv s a_slot" and ?b = "cv s b_slot" and ?x = "tv_at s a_slot" and ?y = "tv_at s b_slot"
  have ar: "arena_ok s" and ua: "unknown_ok s out_slot a_slot" and ub: "unknown_ok s out_slot b_slot"
    using ok by (simp_all add: operands_ok_def)
  note oc = outcome_only_cell [OF ar]
  consider (Fa) "cv_kind ?a = CEL_BOOL" "pl_b ?a = 0"
    | (Fb) "\<not> (cv_kind ?a = CEL_BOOL \<and> pl_b ?a = 0)" "cv_kind ?b = CEL_BOOL" "pl_b ?b = 0"
    | (other) "\<not> (cv_kind ?a = CEL_BOOL \<and> pl_b ?a = 0)" "\<not> (cv_kind ?b = CEL_BOOL \<and> pl_b ?b = 0)"
        "\<not> is_3vl_kind (cv_kind ?a) \<or> \<not> is_3vl_kind (cv_kind ?b)"
    | (Ta) "cv_kind ?a = CEL_BOOL" "pl_b ?a \<noteq> 0" "\<not> (cv_kind ?b = CEL_BOOL \<and> pl_b ?b = 0)" "is_3vl_kind (cv_kind ?b)"
    | (Tb) "cv_kind ?a \<noteq> CEL_BOOL" "is_3vl_kind (cv_kind ?a)" "cv_kind ?b = CEL_BOOL" "pl_b ?b \<noteq> 0"
    | (tail) "cv_kind ?a \<noteq> CEL_BOOL" "cv_kind ?b \<noteq> CEL_BOOL" "is_3vl_kind (cv_kind ?a)" "is_3vl_kind (cv_kind ?b)"
    by (auto simp: is_3vl_kind_def)
  then show ?thesis
  proof cases
    case Fa
    then show ?thesis using oc [OF only_cell_writers(5) [of "cel_value_at out_slot" s False] tv_write_bool, of a_slot b_slot]
      by (simp add: cel_and_def tv_of_kinds)
  next
    case Fb
    then show ?thesis using oc [OF only_cell_writers(5) [of "cel_value_at out_slot" s False] tv_write_bool, of a_slot b_slot]
      by (simp add: cel_and_def Let_def tv_of_kinds tv_and_laws)
  next
    case other
    then have "tv_and ?x ?y = VErr CEL_ERR_TYPE_MISMATCH"
      by (metis tv_and_laws(4,5) tv_of_cases(1,3))
    then show ?thesis using other oc [OF only_cell_writers(1) [of "cel_value_at out_slot" s CEL_ERR_TYPE_MISMATCH] tv_poison, of a_slot b_slot]
      by (auto simp: cel_and_def Let_def is_3vl_kind_def)
  next
    case Ta
    then have "tv_and ?x ?y = ?y" using tv_and_laws(2) [of ?y] tv_of_cases(1) [of "mem s" ?b] by (simp add: tv_of_kinds)
    then show ?thesis using Ta oc [OF only_cell_writers(6) tv_copy [OF ub], of a_slot b_slot]
      by (auto simp: cel_and_def Let_def is_3vl_kind_def)
  next
    case Tb
    then have "tv_and ?x ?y = ?x" using tv_and_laws(3) [of ?x] tv_of_cases(1) [of "mem s" ?a] by (simp add: tv_of_kinds)
    then show ?thesis using Tb oc [OF only_cell_writers(6) tv_copy [OF ua], of a_slot b_slot]
      by (auto simp: cel_and_def Let_def is_3vl_kind_def)
  next
    case tail
    then have "cel_and out_slot a_slot b_slot s = logic_unknown_error_tail out_slot a_slot b_slot s"
      by (simp add: cel_and_def)
    then show ?thesis using logic_tail_refines [OF ok] tail by (auto simp: is_3vl_kind_def)
  qed
qed


lemma cel_or_refines:
  assumes ok: "operands_ok s out_slot a_slot b_slot"
  shows "\<exists>s'. cel_or out_slot a_slot b_slot s = Some s'
    \<and> outcome s out_slot a_slot b_slot (tv_or (tv_at s a_slot) (tv_at s b_slot)) s'"
proof -
  let ?a = "cv s a_slot" and ?b = "cv s b_slot" and ?x = "tv_at s a_slot" and ?y = "tv_at s b_slot"
  have ar: "arena_ok s" and ua: "unknown_ok s out_slot a_slot" and ub: "unknown_ok s out_slot b_slot"
    using ok by (simp_all add: operands_ok_def)
  note oc = outcome_only_cell [OF ar]
  consider (Ta) "cv_kind ?a = CEL_BOOL" "pl_b ?a \<noteq> 0"
    | (Tb) "\<not> (cv_kind ?a = CEL_BOOL \<and> pl_b ?a \<noteq> 0)" "cv_kind ?b = CEL_BOOL" "pl_b ?b \<noteq> 0"
    | (other) "\<not> (cv_kind ?a = CEL_BOOL \<and> pl_b ?a \<noteq> 0)" "\<not> (cv_kind ?b = CEL_BOOL \<and> pl_b ?b \<noteq> 0)"
        "\<not> is_3vl_kind (cv_kind ?a) \<or> \<not> is_3vl_kind (cv_kind ?b)"
    | (Fa) "cv_kind ?a = CEL_BOOL" "pl_b ?a = 0" "\<not> (cv_kind ?b = CEL_BOOL \<and> pl_b ?b \<noteq> 0)" "is_3vl_kind (cv_kind ?b)"
    | (Fb) "cv_kind ?a \<noteq> CEL_BOOL" "is_3vl_kind (cv_kind ?a)" "cv_kind ?b = CEL_BOOL" "pl_b ?b = 0"
    | (tail) "cv_kind ?a \<noteq> CEL_BOOL" "cv_kind ?b \<noteq> CEL_BOOL" "is_3vl_kind (cv_kind ?a)" "is_3vl_kind (cv_kind ?b)"
    by (auto simp: is_3vl_kind_def)
  then show ?thesis
  proof cases
    case Ta
    then show ?thesis using oc [OF only_cell_writers(5) [of "cel_value_at out_slot" s True] tv_write_bool, of a_slot b_slot]
      by (simp add: cel_or_def tv_of_kinds)
  next
    case Tb
    then show ?thesis using oc [OF only_cell_writers(5) [of "cel_value_at out_slot" s True] tv_write_bool, of a_slot b_slot]
      by (simp add: cel_or_def Let_def tv_of_kinds tv_or_laws)
  next
    case other
    then have "tv_or ?x ?y = VErr CEL_ERR_TYPE_MISMATCH"
      by (metis tv_or_laws(4,5) tv_of_cases(1,2))
    then show ?thesis using other oc [OF only_cell_writers(1) [of "cel_value_at out_slot" s CEL_ERR_TYPE_MISMATCH] tv_poison, of a_slot b_slot]
      by (auto simp: cel_or_def Let_def is_3vl_kind_def)
  next
    case Fa
    then have "tv_or ?x ?y = ?y" using tv_or_laws(2) [of ?y] tv_of_cases(1) [of "mem s" ?b] by (simp add: tv_of_kinds)
    then show ?thesis using Fa oc [OF only_cell_writers(6) tv_copy [OF ub], of a_slot b_slot]
      by (auto simp: cel_or_def Let_def is_3vl_kind_def)
  next
    case Fb
    then have "tv_or ?x ?y = ?x" using tv_or_laws(3) [of ?x] tv_of_cases(1) [of "mem s" ?a] by (simp add: tv_of_kinds)
    then show ?thesis using Fb oc [OF only_cell_writers(6) tv_copy [OF ua], of a_slot b_slot]
      by (auto simp: cel_or_def Let_def is_3vl_kind_def)
  next
    case tail
    then have "cel_or out_slot a_slot b_slot s = logic_unknown_error_tail out_slot a_slot b_slot s"
      by (simp add: cel_or_def)
    then show ?thesis using logic_tail_refines [OF ok] tail by (auto simp: is_3vl_kind_def)
  qed
qed


lemma cel_not_refines:
  assumes "arena_ok s" "unknown_ok s out_slot a_slot"
  shows "\<exists>s'. cel_not out_slot a_slot s = Some s' \<and> only_cell (cel_value_at out_slot) s s'
    \<and> tv_at s' out_slot = tv_not (tv_at s a_slot)"
  using assms tv_copy [OF assms(2)]
  by (auto simp: cel_not_def Let_def tv_write_bool tv_poison tv_of_kinds is_3vl_kind_def)

lemma absorb_3vl_binary_refines:
  assumes ok: "operands_ok s out_slot a_slot b_slot"
  shows "\<exists>wrote s'. absorb_3vl_binary (cel_value_at out_slot) (cel_value_at a_slot) (cel_value_at b_slot) s = Some (wrote, s')
    \<and> (case tv_strict (tv_at s a_slot) (tv_at s b_slot) of
         None \<Rightarrow> \<not> wrote \<and> s' = s
       | Some r \<Rightarrow> wrote \<and> outcome s out_slot a_slot b_slot r s')"
proof -
  let ?a = "cv s a_slot" and ?b = "cv s b_slot" and ?x = "tv_at s a_slot" and ?y = "tv_at s b_slot"
  have ar: "arena_ok s" and ua: "unknown_ok s out_slot a_slot" and ub: "unknown_ok s out_slot b_slot"
    using ok by (simp_all add: operands_ok_def)
  note oc = outcome_only_cell [OF ar]
  note copy_a = oc [OF only_cell_writers(6) tv_copy [OF ua], of a_slot b_slot]
    and copy_b = oc [OF only_cell_writers(6) tv_copy [OF ub], of a_slot b_slot]
  have strict: "tv_strict x (VErr e) = (case x of VErr d \<Rightarrow> Some (VErr d) | _ \<Rightarrow> Some (VErr e))" for x e
    by (cases x) auto
  have known: "tv_strict x y = None" if "\<And>e. x \<noteq> VErr e" "\<And>e. y \<noteq> VErr e" "\<And>A. x \<noteq> VUnk A" "\<And>A. y \<noteq> VUnk A" for x y
    using that by (cases x; cases y) auto
  have unk: "tv_strict (VUnk A) y = Some (VUnk A)" "tv_strict y (VUnk A) = Some (VUnk A)"
    if "\<And>e. y \<noteq> VErr e" "\<And>B. y \<noteq> VUnk B" for y A
    using that by (cases y; auto)+
  consider (Ea) "cv_kind ?a = CEL_ERROR" | (Eb) "cv_kind ?a \<noteq> CEL_ERROR" "cv_kind ?b = CEL_ERROR"
    | (UU) "cv_kind ?a = CEL_UNKNOWN" "cv_kind ?b = CEL_UNKNOWN"
    | (Ua) "cv_kind ?a = CEL_UNKNOWN" "cv_kind ?b \<noteq> CEL_UNKNOWN" "cv_kind ?b \<noteq> CEL_ERROR"
    | (Ub) "cv_kind ?b = CEL_UNKNOWN" "cv_kind ?a \<noteq> CEL_UNKNOWN" "cv_kind ?a \<noteq> CEL_ERROR"
    | (no) "cv_kind ?a \<noteq> CEL_UNKNOWN" "cv_kind ?a \<noteq> CEL_ERROR" "cv_kind ?b \<noteq> CEL_UNKNOWN" "cv_kind ?b \<noteq> CEL_ERROR"
    by blast
  then show ?thesis
  proof cases
    case Ea
    then show ?thesis using copy_a by (auto simp: absorb_3vl_binary_def tv_of_kinds)
  next
    case Eb
    then have "tv_strict ?x ?y = Some ?y"
      by (simp add: tv_of_kinds strict) (simp add: tv_of_def)
    then show ?thesis using copy_b Eb by (auto simp: absorb_3vl_binary_def)
  next
    case UU
    then show ?thesis using outcome_merge [OF ok UU]
      by (auto simp: absorb_3vl_binary_def tv_of_kinds ids_of_def)
  next
    case Ua
    then have "tv_strict ?x ?y = Some ?x" by (simp add: tv_of_kinds, intro unk) (auto simp: tv_of_def)
    then show ?thesis using copy_a Ua by (auto simp: absorb_3vl_binary_def)
  next
    case Ub
    then have "tv_strict ?x ?y = Some ?y" by (simp add: tv_of_kinds, intro unk) (auto simp: tv_of_def)
    then show ?thesis using copy_b Ub by (auto simp: absorb_3vl_binary_def)
  next
    case no
    then have "tv_strict ?x ?y = None" by (intro known) (auto simp: tv_of_def)
    then show ?thesis using no by (auto simp: absorb_3vl_binary_def)
  qed
qed


subsection \<open>A concrete call\<close>

text \<open>
  Two unknown operands at slots 128 and 160 with ids [3, 7] and [5, 7], an error at 192, a bool
  at 224 and the out slot at 256; descriptors and ids in the pages below the arena.
\<close>

definition sample_unknowns :: rt where
  "sample_unknowns = sample_rt\<lparr>mem :=
     store_cv (store_cv (store_cv (store_cv
      (store32 (store32 (store32 (store32 (store32 (store32 (store32 (store32 (\<lambda>_. 0)
        512 600) 516 2) 520 700) 524 2) 600 3) 604 7) 700 5) 704 7)
      128 \<lparr>cv_kind = CEL_UNKNOWN, cv_pad = 0, cv_lo = 512, cv_hi = 0\<rparr>)
      160 \<lparr>cv_kind = CEL_UNKNOWN, cv_pad = 0, cv_lo = 520, cv_hi = 0\<rparr>)
      192 \<lparr>cv_kind = CEL_ERROR, cv_pad = 0, cv_lo = 17, cv_hi = 0\<rparr>)
      224 \<lparr>cv_kind = CEL_BOOL, cv_pad = 0, cv_lo = 1, cv_hi = 0\<rparr>\<rparr>"

lemma load32_store_cv_other [mem_simps]:
  "x + 4 \<le> a \<Longrightarrow> load32 (store_cv m a v) x = load32 m x"
  "a + 24 \<le> x \<Longrightarrow> load32 (store_cv m a v) x = load32 m x"
  by (rule cell32.load_frame [OF same_outside_store_cv]; simp)+

lemma sample_unknowns_cells:
  "cv sample_unknowns 128 = \<lparr>cv_kind = CEL_UNKNOWN, cv_pad = 0, cv_lo = 512, cv_hi = 0\<rparr>"
  "cv sample_unknowns 160 = \<lparr>cv_kind = CEL_UNKNOWN, cv_pad = 0, cv_lo = 520, cv_hi = 0\<rparr>"
  "cv sample_unknowns 192 = \<lparr>cv_kind = CEL_ERROR, cv_pad = 0, cv_lo = 17, cv_hi = 0\<rparr>"
  "cv sample_unknowns 224 = \<lparr>cv_kind = CEL_BOOL, cv_pad = 0, cv_lo = 1, cv_hi = 0\<rparr>"
  by (simp_all add: sample_unknowns_def cel_value_at_def mem_simps)

lemma sample_unknowns_ids:
  "unk_ids (mem sample_unknowns) 512 = [3, 7]" "unk_ids (mem sample_unknowns) 520 = [5, 7]"
  by (simp_all add: sample_unknowns_def unk_ids_def ids_at_def mem_simps upt_rec)

lemma sample_unknowns_kept:
  "unk_kept sample_unknowns 256 512" "unk_kept sample_unknowns 256 520"
  by (simp_all add: unk_kept_def Let_def kept_range_def kept_def apart_def)
    (simp_all add: sample_unknowns_def mem_simps)

lemma sample_unknowns_ok:
  assumes "a \<in> {128, 160, 192, 224}" "b \<in> {128, 160, 192, 224}"
  shows "operands_ok sample_unknowns 256 a b"
proof -
  have "arena_ok sample_unknowns" by (simp add: sample_unknowns_def sample_rt_ok)
  moreover have "kept_range sample_unknowns (cel_value_at 256) 24"
    by (simp add: kept_range_def kept_def cel_value_at_def)
  moreover have "unknown_ok sample_unknowns 256 c" if "c \<in> {128, 160, 192, 224}" for c
  proof -
    have "cel_value_at 256 = 256" by (simp add: cel_value_at_def)
    then show ?thesis using that sample_unknowns_kept
      by (auto simp: unknown_ok_def sample_unknowns_cells sample_unknowns_ids unk_len_def pl_defs lo32_def)
  qed
  ultimately show ?thesis using assms by (simp add: operands_ok_def)
qed

lemma sample_unknowns_tv:
  "tv_at sample_unknowns 128 = VUnk {3, 7}" "tv_at sample_unknowns 160 = VUnk {5, 7}"
  "tv_at sample_unknowns 192 = VErr 17" "tv_at sample_unknowns 224 = VBool True"
  by (simp_all add: tv_of_def sample_unknowns_cells sample_unknowns_ids pl_defs lo32_def)

subsection \<open>Properties\<close>

text \<open>
  C3. Merging two unknowns never traps; the out slot becomes an unknown whose ids are the union
  of the two id sets in strictly increasing order, or, exactly when both sets are present and the
  arena refuses the room for all their ids or for the descriptor, the overflow error; no other kept
  byte changes.
\<close>

theorem cel_unknown_merge_union:
  assumes "operands_ok s out_slot a_slot b_slot"
    and "cv_kind (cv s a_slot) = CEL_UNKNOWN" "cv_kind (cv s b_slot) = CEL_UNKNOWN"
  shows "\<exists>s'. cel_unknown_merge out_slot a_slot b_slot s = Some s' \<and> keeps (cel_value_at out_slot) s s'
    \<and> (if refused (merge_requests (mem s) (pl_unk (cv s a_slot)) (pl_unk (cv s b_slot))) s
       then is_err (cv s' out_slot) CEL_ERR_OVERFLOW
       else cv_kind (cv s' out_slot) = CEL_UNKNOWN \<and> sorted_wrt (<) (ids_of s' out_slot)
         \<and> set (ids_of s' out_slot) = set (ids_of s a_slot) \<union> set (ids_of s b_slot))"
proof -
  have ok: "unknown_ok s out_slot a_slot" "unknown_ok s out_slot b_slot" using assms(1) by (simp_all add: operands_ok_def)
  then have so: "sorted_wrt (<) (ids_of s a_slot)" "sorted_wrt (<) (ids_of s b_slot)"
    using assms(2,3) by (simp_all add: unknown_ok_def ids_of_def)
  obtain s' where "cel_unknown_merge out_slot a_slot b_slot s = Some s'" "keeps (cel_value_at out_slot) s s'"
    "if merge_refused s a_slot b_slot then is_err (cv s' out_slot) CEL_ERR_OVERFLOW
     else cv_kind (cv s' out_slot) = CEL_UNKNOWN \<and> ids_of s' out_slot = merge_ids (ids_of s a_slot) (ids_of s b_slot)"
    using cel_unknown_merge_correct [OF _ _ assms(2,3) ok] assms(1) by (auto simp: operands_ok_def)
  then show ?thesis using merge_ids_strict_sorted [OF so] set_merge_ids by (intro exI [of _ s']) (auto simp: merge_refused_def)
qed

lemma sample_unknowns_room: "\<not> merge_refused sample_unknowns 128 160"
proof -
  have "merge_requests (mem sample_unknowns) 512 520 = [16, 8]"
    by (simp add: merge_requests_def unk_len_def sample_unknowns_ids)
  then show ?thesis
    by (simp add: merge_refused_def sample_unknowns_cells pl_defs lo32_def)
      (simp add: sample_unknowns_def arena_alloc_def align_up_8_def sample_rt_init(2) sample_rt_chunks bump_tail_def Let_def)
qed

theorem cel_unknown_merge_union_witness:
  "\<exists>s'. cel_unknown_merge 256 128 160 sample_unknowns = Some s' \<and> set (ids_of s' 256) = {3, 5, 7}"
  using cel_unknown_merge_union [OF sample_unknowns_ok [of 128 160]] sample_unknowns_room
  by (auto simp: sample_unknowns_cells sample_unknowns_ids ids_of_def pl_defs lo32_def merge_refused_def)

text \<open>
  C2. \<open>&&\<close>, \<open>||\<close> and \<open>!\<close> implement the three-valued algebra: on operands of any kinds the cell
  they write means what the truth table says, and no other kept byte changes. The one exception is
  the merge of two unknowns that the arena refuses, which is the overflow error. The slots may alias.
\<close>

theorem logic_operators_refine:
  assumes "operands_ok s out_slot a_slot b_slot"
  shows "(\<exists>s'. cel_and out_slot a_slot b_slot s = Some s'
        \<and> outcome s out_slot a_slot b_slot (tv_and (tv_at s a_slot) (tv_at s b_slot)) s')
    \<and> (\<exists>s'. cel_or out_slot a_slot b_slot s = Some s'
        \<and> outcome s out_slot a_slot b_slot (tv_or (tv_at s a_slot) (tv_at s b_slot)) s')
    \<and> (\<exists>s'. cel_not out_slot a_slot s = Some s' \<and> only_cell (cel_value_at out_slot) s s'
        \<and> tv_at s' out_slot = tv_not (tv_at s a_slot))"
  using cel_and_refines [OF assms] cel_or_refines [OF assms] cel_not_refines [of s out_slot a_slot] assms
  by (auto simp: operands_ok_def)

theorem logic_operators_refine_witness:
  "\<exists>s'. cel_and 256 192 160 sample_unknowns = Some s' \<and> tv_at s' 256 = VUnk {5, 7}"
  using logic_operators_refine [OF sample_unknowns_ok [of 192 160]]
  by (auto simp: outcome_def sample_unknowns_cells sample_unknowns_tv [unfolded sample_unknowns_cells])

text \<open>
  C4. The strict prologue writes the out slot exactly when an operand is an error or an unknown,
  and then by the strict rule: the first error in operand order, else the unknown, two unknowns
  merged; exactly when the arena refuses that merge it writes the overflow error instead. It is total
  and otherwise leaves the whole state alone.
\<close>

theorem absorb_3vl_binary_strict:
  assumes "operands_ok s out_slot a_slot b_slot"
  shows "\<exists>wrote s'. absorb_3vl_binary (cel_value_at out_slot) (cel_value_at a_slot) (cel_value_at b_slot) s = Some (wrote, s')
    \<and> (case tv_strict (tv_at s a_slot) (tv_at s b_slot) of
         None \<Rightarrow> \<not> wrote \<and> s' = s
       | Some r \<Rightarrow> wrote \<and> outcome s out_slot a_slot b_slot r s')"
  using absorb_3vl_binary_refines [OF assms] .

theorem absorb_3vl_binary_strict_witness:
  "\<exists>s'. absorb_3vl_binary (cel_value_at 256) (cel_value_at 128) (cel_value_at 192) sample_unknowns = Some (True, s')
    \<and> tv_at s' 256 = VErr 17"
  using absorb_3vl_binary_strict [OF sample_unknowns_ok [of 128 192]]
  by (auto simp: outcome_def sample_unknowns_cells sample_unknowns_tv [unfolded sample_unknowns_cells])

end
