(* ===== verification/Ieee.thy ===== *)
theory Ieee
  imports Prelude
begin

text \<open>
  IEEE 754 binary64 as the C code's \<open>double\<close>: a value is its bit pattern, and the operations the
  kernels use are computed exactly on integers in units of \<open>2^-1074\<close> (the smallest subnormal)
  and rounded once, to nearest with ties to even. NaN results are the canonical quiet NaN.
\<close>

subsection \<open>Fields and values\<close>

definition d_neg_sign :: "u64 \<Rightarrow> bool" where "d_neg_sign x = bit x 63"

text \<open>The bits below the sign: for non-NaN values an order-preserving code of the magnitude.\<close>

definition d_code :: "u64 \<Rightarrow> nat" where "d_code x = unat (take_bit 63 x)"

abbreviation INF_CODE :: nat where "INF_CODE \<equiv> 0x7FF0000000000000"

definition d_isnan :: "u64 \<Rightarrow> bool" where "d_isnan x \<longleftrightarrow> INF_CODE < d_code x"
definition d_isinf :: "u64 \<Rightarrow> bool" where "d_isinf x \<longleftrightarrow> d_code x = INF_CODE"

text \<open>The magnitude a code stands for; the infinity code is a number above every finite one.\<close>

definition mag_of_code :: "nat \<Rightarrow> nat" where
  "mag_of_code c = (if c < 2 ^ 52 then c else (2 ^ 52 + c mod 2 ^ 52) * 2 ^ (c div 2 ^ 52 - 1))"

definition d_mag :: "u64 \<Rightarrow> nat" where "d_mag x = mag_of_code (d_code x)"

definition d_val :: "u64 \<Rightarrow> int" where
  "d_val x = (if d_neg_sign x then - int (d_mag x) else int (d_mag x))"

definition d_make :: "bool \<Rightarrow> nat \<Rightarrow> u64" where
  "d_make neg c = word_of_nat (if neg then c + 2 ^ 63 else c)"

definition d_nan :: u64 where "d_nan = 0x7FF8000000000000"

subsection \<open>Rounding\<close>

fun bitlen :: "nat \<Rightarrow> nat" where
  "bitlen n = (if n = 0 then 0 else Suc (bitlen (n div 2)))"

declare bitlen.simps [simp del]

text \<open>\<open>n / k\<close> rounded to an integer, ties to even.\<close>

definition rne :: "nat \<Rightarrow> nat \<Rightarrow> nat" where
  "rne n k = (let q = n div k; r = n mod k in if k < 2 * r \<or> (2 * r = k \<and> odd q) then q + 1 else q)"

text \<open>The code nearest to \<open>n / k\<close> (in units of \<open>2^-1074\<close>), before saturation to infinity.\<close>

definition round_code :: "nat \<Rightarrow> nat \<Rightarrow> nat" where
  "round_code n k = (let e = bitlen (n div k) - 53 in e * 2 ^ 52 + rne n (k * 2 ^ e))"

definition d_round :: "bool \<Rightarrow> nat \<Rightarrow> nat \<Rightarrow> u64" where
  "d_round neg n k = d_make neg (min INF_CODE (round_code n k))"

text \<open>The integer 1 in these units.\<close>

definition d_unit :: nat where "d_unit = 2 ^ 1074"

lemma d_unit_pos [simp]: "0 < d_unit" "d_unit \<noteq> 0"
  by (simp_all add: d_unit_def)

subsection \<open>Operations\<close>

definition d_eq :: "u64 \<Rightarrow> u64 \<Rightarrow> bool" where
  "d_eq x y \<longleftrightarrow> \<not> d_isnan x \<and> \<not> d_isnan y \<and> d_val x = d_val y"

definition d_lt :: "u64 \<Rightarrow> u64 \<Rightarrow> bool" where
  "d_lt x y \<longleftrightarrow> \<not> d_isnan x \<and> \<not> d_isnan y \<and> d_val x < d_val y"

definition d_le :: "u64 \<Rightarrow> u64 \<Rightarrow> bool" where
  "d_le x y \<longleftrightarrow> \<not> d_isnan x \<and> \<not> d_isnan y \<and> d_val x \<le> d_val y"

definition d_of_int :: "int \<Rightarrow> u64" where
  "d_of_int i = d_round (i < 0) (nat \<bar>i\<bar> * d_unit) 1"

text \<open>The truncation a C cast to an integer type starts from.\<close>

definition d_trunc :: "u64 \<Rightarrow> int" where
  "d_trunc x = (if d_neg_sign x then - int (d_mag x div d_unit) else int (d_mag x div d_unit))"

definition d_neg :: "u64 \<Rightarrow> u64" where "d_neg x = x XOR push_bit 63 1"

definition d_add :: "u64 \<Rightarrow> u64 \<Rightarrow> u64" where
  "d_add x y =
     (if d_isnan x \<or> d_isnan y then d_nan
      else if d_isinf x then (if d_isinf y \<and> d_neg_sign x \<noteq> d_neg_sign y then d_nan else x)
      else if d_isinf y then y
      else (let s = d_val x + d_val y in
        if s = 0 then d_make (d_neg_sign x \<and> d_neg_sign y) 0
        else d_round (s < 0) (nat \<bar>s\<bar>) 1))"

definition d_sub :: "u64 \<Rightarrow> u64 \<Rightarrow> u64" where
  "d_sub x y = d_add x (d_neg y)"

definition d_mul :: "u64 \<Rightarrow> u64 \<Rightarrow> u64" where
  "d_mul x y =
     (let neg = (d_neg_sign x \<noteq> d_neg_sign y) in
      if d_isnan x \<or> d_isnan y then d_nan
      else if d_isinf x \<or> d_isinf y then
        (if d_mag x = 0 \<or> d_mag y = 0 then d_nan else d_make neg INF_CODE)
      else d_round neg (d_mag x * d_mag y) d_unit)"

definition d_div :: "u64 \<Rightarrow> u64 \<Rightarrow> u64" where
  "d_div x y =
     (let neg = (d_neg_sign x \<noteq> d_neg_sign y) in
      if d_isnan x \<or> d_isnan y \<or> (d_isinf x \<and> d_isinf y) \<or> (d_mag x = 0 \<and> d_mag y = 0) then d_nan
      else if d_isinf x \<or> d_mag y = 0 then d_make neg INF_CODE
      else if d_isinf y then d_make neg 0
      else d_round neg (d_mag x * d_unit) (d_mag y))"

subsection \<open>Codes are ordered as magnitudes\<close>

lemma mag_of_code_Suc: "mag_of_code c < mag_of_code (Suc c)"
proof -
  let ?B = "4503599627370496 :: nat"
  consider "Suc c < ?B" | "Suc c = ?B" | (same) "?B \<le> c" "Suc (c mod ?B) < ?B" | (carry) "?B \<le> c" "Suc (c mod ?B) = ?B"
    using mod_less_divisor [of ?B c] by linarith
  then show ?thesis
  proof cases
    case 1
    then show ?thesis by (simp add: mag_of_code_def)
  next
    case 2
    then show ?thesis by (simp add: mag_of_code_def)
  next
    case same
    then have "Suc c mod ?B = Suc (c mod ?B)" "Suc c div ?B = c div ?B" by (simp_all add: mod_Suc div_Suc)
    then show ?thesis using same(1) by (simp add: mag_of_code_def)
  next
    case carry
    then have d: "Suc c mod ?B = 0" "Suc c div ?B = Suc (c div ?B)" by (simp_all add: mod_Suc div_Suc)
    obtain k where k: "c div ?B = Suc k" using carry(1) by (metis div_greater_zero_iff gr0_implies_Suc zero_less_numeral)
    have "c mod ?B = ?B - 1" using carry(2) by simp
    then show ?thesis using carry(1) d k by (simp add: mag_of_code_def)
  qed
qed

lemma mag_of_code_less_iff: "mag_of_code c < mag_of_code d \<longleftrightarrow> c < d"
  using strict_mono_less [OF strict_mono_Suc_iff [THEN iffD2]] mag_of_code_Suc by blast

lemma mag_of_code_le_iff: "mag_of_code c \<le> mag_of_code d \<longleftrightarrow> c \<le> d"
  using mag_of_code_less_iff [of d c] by (simp add: not_less [symmetric])

lemma mag_of_code_eq_iff: "mag_of_code c = mag_of_code d \<longleftrightarrow> c = d"
  by (metis mag_of_code_le_iff order_antisym order_refl)

lemma bitlen_0 [simp]: "bitlen 0 = 0"
  by (simp add: bitlen.simps)

lemma half_bounds: "p \<le> n div 2 \<Longrightarrow> n div 2 < q \<Longrightarrow> 2 * p \<le> n \<and> n < 2 * (q :: nat)"
  by linarith

lemma bitlen_bounds: "0 < n \<Longrightarrow> 2 ^ (bitlen n - 1) \<le> n \<and> n < 2 ^ bitlen n"
proof (induction n rule: less_induct)
  case (less n)
  show ?case
  proof (cases "n = 1")
    case True
    then show ?thesis by (simp add: bitlen.simps)
  next
    case False
    let ?h = "n div 2"
    have h: "0 < ?h" "?h < n" using less.prems False by auto
    note ih = less.IH [OF h(2,1)]
    have b: "bitlen n = Suc (bitlen ?h)" using less.prems by (simp add: bitlen.simps [of n])
    obtain k where k: "bitlen ?h = Suc k" using h(1) by (metis bitlen.simps not_gr_zero)
    show ?thesis using ih half_bounds [of "2 ^ k" n "2 ^ Suc k"] unfolding b k by simp
  qed
qed

lemma bitlen_le_iff: "bitlen n \<le> k \<longleftrightarrow> n < 2 ^ k"
proof (cases "n = 0")
  case False
  then have b: "2 ^ (bitlen n - 1) \<le> n" "n < 2 ^ bitlen n" using bitlen_bounds by blast+
  show ?thesis
  proof
    assume "bitlen n \<le> k"
    then show "n < 2 ^ k" using b(2) by (meson less_le_trans one_le_numeral power_increasing)
  next
    assume "n < 2 ^ k"
    then have "2 ^ (bitlen n - 1) < (2 :: nat) ^ k" using b(1) by (rule le_less_trans [rotated])
    then have "bitlen n - 1 < k" by (rule power_less_imp_less_exp [rotated]) simp
    then show "bitlen n \<le> k" by simp
  qed
qed simp

lemma rne_ge: "w * k \<le> n \<Longrightarrow> 0 < k \<Longrightarrow> w \<le> rne n k"
  by (simp add: rne_def Let_def) (metis (no_types, lifting) le_SucI less_eq_div_iff_mult_less_eq)

lemma rne_le: "n \<le> w * k \<Longrightarrow> 0 < k \<Longrightarrow> rne n k \<le> w"
proof -
  assume n: "n \<le> w * k" and k: "0 < k"
  have q: "n div k \<le> w" using n k by (metis div_le_mono nonzero_mult_div_cancel_right not_gr_zero)
  have "n div k + 1 \<le> w" if "0 < n mod k"
  proof (rule ccontr)
    assume "\<not> n div k + 1 \<le> w"
    then have "n div k = w" using q by simp
    then have "n = w * k + n mod k" by (metis div_mult_mod_eq)
    then show False using n that by simp
  qed
  then show ?thesis using q k by (cases "n mod k = 0") (auto simp: rne_def Let_def)
qed


subsection \<open>Rounding respects the representable values\<close>

abbreviation (input) P52 :: nat where "P52 \<equiv> 0x10000000000000"

lemma mag_of_code_small: "c < 2 * P52 \<Longrightarrow> mag_of_code c = c"
proof -
  assume c: "c < 2 * P52"
  show ?thesis
  proof (cases "c < P52")
    case False
    then have "c div P52 = 1" "c mod P52 = c - P52" using c by (auto simp: div_nat_eqI mod_nat_eqI intro!: div_nat_eqI) 
    then show ?thesis using False by (simp add: mag_of_code_def)
  qed (simp add: mag_of_code_def)
qed

lemma mag_of_code_normal: "f < P52 \<Longrightarrow> mag_of_code (Suc e * P52 + f) = (P52 + f) * 2 ^ e"
proof -
  assume f: "f < P52"
  have "(Suc e * P52 + f) div P52 = Suc e + f div P52" by (rule div_mult_self3) simp
  moreover have "(Suc e * P52 + f) mod P52 = f mod P52" by (rule mod_mult_self3)
  moreover have "f div P52 = 0" "f mod P52 = f" using f by simp_all
  moreover have "\<not> Suc e * P52 + f < P52" by simp
  ultimately show ?thesis by (simp only: mag_of_code_def) simp
qed

lemma mag_of_code_exp: "mag_of_code (Suc e * P52) = P52 * 2 ^ e"
  using mag_of_code_normal [of 0 e] by simp

text \<open>The exponent chosen for \<open>n / k\<close> and the range it puts the quotient in.\<close>

lemma round_exponent:
  fixes n k :: nat
  assumes "0 < k"
  defines "e \<equiv> bitlen (n div k) - 53"
  shows "n < 2 * P52 * (k * 2 ^ e)" and "0 < e \<Longrightarrow> P52 * (k * 2 ^ e) \<le> n"
    and "n div k < 2 * P52 * 2 ^ e" and "0 < e \<Longrightarrow> P52 * 2 ^ e \<le> n div k"
proof -
  let ?q = "n div k"
  have "bitlen ?q \<le> 53 + e" by (simp add: e_def)
  then have "?q < 2 ^ (53 + e)" by (simp only: bitlen_le_iff)
  then show q: "?q < 2 * P52 * 2 ^ e" by (simp add: power_add)
  then show "n < 2 * P52 * (k * 2 ^ e)" using assms(1)
    by (simp add: div_less_iff_less_mult mult.assoc mult.commute mult.left_commute)
  assume e: "0 < e"
  then have b: "bitlen ?q - 1 = 52 + e" by (simp add: e_def)
  have "0 < ?q" using e by (cases "?q = 0") (simp_all add: e_def)
  then have "2 ^ (52 + e) \<le> ?q" using bitlen_bounds [of ?q] b by simp
  then show q': "P52 * 2 ^ e \<le> ?q" by (simp add: power_add)
  then show "P52 * (k * 2 ^ e) \<le> n" using assms(1)
    by (simp add: less_eq_div_iff_mult_less_eq mult.assoc mult.commute mult.left_commute)
qed

lemma code_offset: "x \<le> b \<Longrightarrow> b < p + x \<Longrightarrow> \<exists>f. b = x + f \<and> f < (p :: nat)"
  by (intro exI [of _ "b - x"]) auto

lemma round_code_ge:
  assumes "mag_of_code b * k \<le> n" "0 < k"
  shows "b \<le> round_code n k"
proof -
  define e where "e = bitlen (n div k) - 53"
  note r = round_exponent [OF assms(2), where n = n, folded e_def]
  have rc: "round_code n k = e * P52 + rne n (k * 2 ^ e)" by (simp add: round_code_def e_def Let_def)
  have v: "mag_of_code b \<le> n div k" using assms by (simp add: less_eq_div_iff_mult_less_eq)
  have D: "0 < k * 2 ^ e" using assms(2) by simp
  show ?thesis
  proof (cases "e = 0")
    case True
    then have "mag_of_code b < mag_of_code (2 * P52)" using v r(3) mag_of_code_exp [of 1] by simp
    then have "b < 2 * P52" by (simp only: mag_of_code_less_iff)
    then show ?thesis using rne_ge [of b k n] assms True rc by (simp add: mag_of_code_small)
  next
    case False
    then obtain e' where e': "e = Suc e'" by (cases e) auto
    have m: "P52 \<le> rne n (k * 2 ^ e)" using rne_ge r(2) False D by simp
    have "mag_of_code b < mag_of_code (Suc (Suc e) * P52)"
      using v r(3) unfolding mag_of_code_exp by (simp add: le_less_trans)
    then have b: "b < Suc (Suc e) * P52" by (simp only: mag_of_code_less_iff)
    show ?thesis
    proof (cases "b \<le> Suc e * P52")
      case True
      then show ?thesis using m rc by simp
    next
      case False
      then obtain f where f: "b = Suc e * P52 + f" "f < P52"
        using code_offset [of "Suc e * P52" b P52] b by auto
      have "(P52 + f) * (k * 2 ^ e) \<le> n" using assms(1) mag_of_code_normal [OF f(2), of e] f(1) by (simp add: ac_simps)
      then have "P52 + f \<le> rne n (k * 2 ^ e)" using rne_ge D by blast
      then show ?thesis using f(1) rc by simp
    qed
  qed
qed

lemma round_code_le:
  assumes "n \<le> mag_of_code b * k" "0 < k"
  shows "round_code n k \<le> b"
proof -
  define e where "e = bitlen (n div k) - 53"
  note r = round_exponent [OF assms(2), where n = n, folded e_def]
  have rc: "round_code n k = e * P52 + rne n (k * 2 ^ e)" by (simp add: round_code_def e_def Let_def)
  have v: "n div k \<le> mag_of_code b" using assms by (metis div_le_mono nonzero_mult_div_cancel_right not_gr_zero)
  have D: "0 < k * 2 ^ e" using assms(2) by simp
  have m: "rne n (k * 2 ^ e) \<le> 2 * P52" using rne_le [OF _ D] r(1) by (simp add: less_imp_le)
  show ?thesis
  proof (cases "e = 0")
    case True
    show ?thesis
    proof (cases "b < 2 * P52")
      case True
      then show ?thesis using rne_le [of n b k] assms \<open>e = 0\<close> rc by (simp add: mag_of_code_small)
    qed (use m True rc in simp)
  next
    case False
    have "mag_of_code (Suc e * P52) \<le> mag_of_code b" using r(4) False v unfolding mag_of_code_exp by simp
    then have b: "Suc e * P52 \<le> b" by (simp only: mag_of_code_le_iff)
    show ?thesis
    proof (cases "b < Suc (Suc e) * P52")
      case True
      then obtain f where f: "b = Suc e * P52 + f" "f < P52"
        using code_offset [of "Suc e * P52" b P52] b by auto
      have "n \<le> (P52 + f) * (k * 2 ^ e)" using assms(1) mag_of_code_normal [OF f(2), of e] f(1) by (simp add: ac_simps)
      then have "rne n (k * 2 ^ e) \<le> P52 + f" using rne_le D by blast
      then show ?thesis using f(1) rc by simp
    qed (use m rc in simp)
  qed
qed

lemma round_code_exact: "0 < k \<Longrightarrow> round_code (mag_of_code b * k) k = b"
  by (intro order_antisym round_code_ge round_code_le) auto


subsection \<open>Reading what was rounded\<close>

lemma d_code_less: "d_code x < 2 ^ 63"
proof -
  have "unat (x mod 0x8000000000000000) < 0x8000000000000000" by (simp add: unat_mod)
  then show ?thesis by (simp add: d_code_def take_bit_eq_mod)
qed

lemma d_make_fields:
  assumes "c < 2 ^ 63"
  shows "d_code (d_make neg c) = c" "d_neg_sign (d_make neg c) = neg"
proof -
  have u: "unat (d_make neg c) = (if neg then c + 2 ^ 63 else c)"
    using assms by (simp add: d_make_def unat_of_nat)
  show "d_code (d_make neg c) = c"
    using u assms by (auto simp: d_code_def take_bit_eq_mod unat_mod)
  have "bit (d_make neg c) 63 = bit (unat (d_make neg c)) 63" by (simp add: bit_unsigned_iff)
  then have "bit (d_make neg c) 63 = odd (unat (d_make neg c) div 2 ^ 63)"
    by (simp only: bit_iff_odd [of "unat (d_make neg c)"])
  then show "d_neg_sign (d_make neg c) = neg"
    using u assms by (cases neg) (simp_all add: d_neg_sign_def div_add_self2)
qed

lemma d_code_round: "d_code (d_round neg n k) = min INF_CODE (round_code n k)"
  "d_neg_sign (d_round neg n k) = neg"
  unfolding d_round_def by (rule d_make_fields; simp)+

lemma d_round_not_nan: "\<not> d_isnan (d_round neg n k)"
  by (simp add: d_isnan_def d_code_round)

text \<open>Every finite code lies below infinity; a magnitude bounds its code and conversely.\<close>

lemma INF_CODE_eq: "INF_CODE = Suc 2046 * P52"
  by simp

lemma mag_INF: "mag_of_code INF_CODE = P52 * 2 ^ 2046"
  unfolding INF_CODE_eq by (rule mag_of_code_exp)

lemma d_val_round_exact:
  assumes "0 < k" "n = mag_of_code c * k" "c \<le> INF_CODE"
  shows "d_val (d_round neg n k) = (if neg then - int (mag_of_code c) else int (mag_of_code c))"
  using assms by (simp add: d_val_def d_mag_def d_code_round round_code_exact)

text \<open>Integers below \<open>2^53\<close> are representable.\<close>

lemma small_int_code:
  assumes "m < 2 * P52"
  shows "\<exists>c \<le> INF_CODE. mag_of_code c = m * d_unit"
proof (cases "m = 0")
  case True
  then show ?thesis by (intro exI [of _ 0]) (simp add: mag_of_code_def)
next
  case False
  define L where "L = bitlen m"
  have L: "L \<le> 53" using assms bitlen_le_iff [of m 53] by (simp add: L_def)
  have b: "2 ^ (L - 1) \<le> m" "m < 2 ^ L" using bitlen_bounds [of m] False by (simp_all add: L_def)
  have L0: "0 < L" using False by (simp add: L_def bitlen.simps)
  define M where "M = m * 2 ^ (53 - L)"
  have "2 ^ (L - 1) * 2 ^ (53 - L) \<le> M" unfolding M_def using b(1) by simp
  moreover have "2 ^ (L - 1) * 2 ^ (53 - L) = P52"
    using L L0 by (simp flip: power_add)
  moreover have "M < 2 ^ L * 2 ^ (53 - L)" unfolding M_def using b(2) by simp
  moreover have "2 ^ L * 2 ^ (53 - L) = 2 * P52" using L by (simp flip: power_add)
  ultimately have M: "P52 \<le> M" "M < 2 * P52" by (simp_all only:)
  define e where "e = 1074 - (53 - L)"
  let ?c = "Suc e * P52 + (M - P52)"
  have "mag_of_code ?c = (P52 + (M - P52)) * 2 ^ e" by (rule mag_of_code_normal) (use M in simp)
  also have "\<dots> = m * (2 ^ (53 - L) * 2 ^ e)" using M by (simp add: M_def)
  also have "2 ^ (53 - L) * 2 ^ e = d_unit" 
    using L by (simp add: e_def d_unit_def del: power_numeral flip: power_add)
  finally have "mag_of_code ?c = m * d_unit" .
  moreover have "?c \<le> INF_CODE"
  proof -
    have "Suc e \<le> 1075" by (simp add: e_def)
    then have "Suc e * P52 \<le> 1075 * P52" by (rule mult_le_mono1)
    then show ?thesis using M by simp
  qed
  ultimately show ?thesis by blast
qed

lemma d_val_of_int_exact:
  assumes "c \<le> INF_CODE" "mag_of_code c = nat \<bar>i\<bar> * d_unit"
  shows "d_val (d_of_int i) = i * int d_unit"
proof -
  have "d_val (d_of_int i) = (if i < 0 then - int (mag_of_code c) else int (mag_of_code c))"
    unfolding d_of_int_def by (rule d_val_round_exact) (use assms in auto)
  then show ?thesis unfolding assms(2) by simp
qed

lemma d_of_int_not_nan: "\<not> d_isnan (d_of_int i)"
  by (simp add: d_of_int_def d_round_not_nan)

lemma d_val_of_small_int: "\<bar>i\<bar> < 2 ^ 53 \<Longrightarrow> d_val (d_of_int i) = i * int d_unit"
  using small_int_code [of "nat \<bar>i\<bar>"] d_val_of_int_exact by (auto simp: nat_less_iff)

text \<open>A magnitude that is not an integer is below \<open>2^52\<close>.\<close>

lemma non_integral_small:
  assumes "\<not> d_unit dvd mag_of_code c"
  shows "mag_of_code c < P52 * d_unit"
proof (rule ccontr)
  assume "\<not> mag_of_code c < P52 * d_unit"
  then have "mag_of_code (Suc 1074 * P52) \<le> mag_of_code c" unfolding mag_of_code_exp d_unit_def by (simp only: not_less)
  then have c: "Suc 1074 * P52 \<le> c" by (simp only: mag_of_code_le_iff)
  define e f where "e = c div P52 - 1" and "f = c mod P52"
  have "1075 \<le> c div P52" using div_le_mono [OF c, of P52] by simp
  then have e: "1074 \<le> e" "c = Suc e * P52 + f" by (simp_all add: e_def f_def)
  have "mag_of_code c = (P52 + f) * 2 ^ e" unfolding e(2) by (rule mag_of_code_normal) (simp add: f_def)
  also have "(2 :: nat) ^ e = d_unit * 2 ^ (e - 1074)"
    unfolding d_unit_def power_add [symmetric] using e(1) by (simp del: power_numeral)
  finally have "d_unit dvd mag_of_code c" by simp
  then show False using assms by contradiction
qed


text \<open>
  The integer a cast truncates to casts back to the same double exactly when the double is an
  integer: the round-trip test of the code is a test of integrality.
\<close>

lemma d_val_trunc: "d_unit dvd d_mag d \<Longrightarrow> d_val d = d_trunc d * int d_unit"
  by (auto simp: d_val_def d_trunc_def)

lemma cast_roundtrip:
  assumes "d_code d < INF_CODE"
  shows "d_eq (d_of_int (d_trunc d)) d \<longleftrightarrow> d_val d = d_trunc d * int d_unit"
proof -
  have nn: "\<not> d_isnan d" using assms by (simp add: d_isnan_def)
  show ?thesis
  proof (cases "d_unit dvd d_mag d")
    case True
    have "nat \<bar>d_trunc d\<bar> * d_unit = d_mag d" using True by (simp add: d_trunc_def)
    then have "d_val (d_of_int (d_trunc d)) = d_trunc d * int d_unit"
      using assms by (intro d_val_of_int_exact [of "d_code d"]) (simp_all add: d_mag_def)
    then show ?thesis using d_val_trunc [OF True] nn d_of_int_not_nan by (simp add: d_eq_def)
  next
    case False
    then have "d_mag d < P52 * d_unit" using non_integral_small by (simp add: d_mag_def)
    then have "d_mag d div d_unit < P52" by (simp add: div_less_iff_less_mult)
    then have "\<bar>d_trunc d\<bar> < 2 ^ 53" by (simp add: d_trunc_def)
    then show ?thesis using d_val_of_small_int nn d_of_int_not_nan by (auto simp: d_eq_def)
  qed
qed

text \<open>Rounding an integer never crosses a representable value.\<close>

lemma d_mag_of_int: "d_mag (d_of_int i) = mag_of_code (min INF_CODE (round_code (nat \<bar>i\<bar> * d_unit) 1))"
  by (simp add: d_mag_def d_of_int_def d_code_round)

lemma d_mag_of_int_ge: "\<not> d_isnan d \<Longrightarrow> d_mag d \<le> nat \<bar>i\<bar> * d_unit \<Longrightarrow> d_mag d \<le> d_mag (d_of_int i)"
  using round_code_ge [of "d_code d" 1 "nat \<bar>i\<bar> * d_unit"]
  by (simp add: d_mag_of_int) (simp add: d_mag_def mag_of_code_le_iff d_isnan_def)

lemma d_mag_of_int_le: "nat \<bar>i\<bar> * d_unit \<le> d_mag d \<Longrightarrow> d_mag (d_of_int i) \<le> d_mag d"
  using round_code_le [of "nat \<bar>i\<bar> * d_unit" "d_code d" 1]
  by (simp add: d_mag_of_int) (simp add: d_mag_def mag_of_code_le_iff)

lemma d_val_of_int: "d_val (d_of_int i) = (if i < 0 then - int (d_mag (d_of_int i)) else int (d_mag (d_of_int i)))"
  by (simp add: d_val_def) (simp add: d_of_int_def d_code_round)

lemma int_abs_unit: "int (nat \<bar>i\<bar> * d_unit) = \<bar>i\<bar> * int d_unit"
  by simp

lemma d_of_int_ge:
  assumes "\<not> d_isnan d" "d_val d \<le> i * int d_unit"
  shows "d_val d \<le> d_val (d_of_int i)"
proof (cases "i < 0")
  case True
  then have neg: "i * int d_unit < 0" by (simp add: mult_less_0_iff)
  then have d: "d_neg_sign d" using assms(2) by (auto simp: d_val_def split: if_splits)
  then have "- int (d_mag d) \<le> - (\<bar>i\<bar> * int d_unit)" using assms(2) True by (simp add: d_val_def)
  then have "nat \<bar>i\<bar> * d_unit \<le> d_mag d" using int_abs_unit [of i] by linarith
  then show ?thesis using d_mag_of_int_le d True d_val_of_int [of i] by (simp add: d_val_def)
next
  case False
  then have nn: "d_val (d_of_int i) = int (d_mag (d_of_int i))" using d_val_of_int [of i] by simp
  show ?thesis
  proof (cases "d_neg_sign d")
    case False
    then have "int (d_mag d) \<le> \<bar>i\<bar> * int d_unit" using assms(2) \<open>\<not> i < 0\<close> by (simp add: d_val_def)
    then have "d_mag d \<le> nat \<bar>i\<bar> * d_unit" using int_abs_unit [of i] by linarith
    then show ?thesis using d_mag_of_int_ge [OF assms(1)] False nn by (simp add: d_val_def)
  next
    case True
    then have "d_val d \<le> 0" by (simp add: d_val_def)
    then show ?thesis using nn by linarith
  qed
qed

lemma d_of_int_le:
  assumes "\<not> d_isnan d" "i * int d_unit \<le> d_val d"
  shows "d_val (d_of_int i) \<le> d_val d"
proof (cases "i < 0")
  case False
  then have nn: "0 \<le> i * int d_unit" by simp
  show ?thesis
  proof (cases "d_neg_sign d")
    case True
    then have v: "d_val d = - int (d_mag d)" by (simp add: d_val_def)
    then have z: "d_mag d = 0" and z': "i * int d_unit = 0" using nn assms(2) by linarith+
    have "i = 0" using z' by (simp add: d_unit_def)
    then have "d_mag (d_of_int i) = 0" using d_mag_of_int_le [of i d] by (simp add: z)
    then show ?thesis using z by (simp add: d_val_def)
  next
    case False
    then have "\<bar>i\<bar> * int d_unit \<le> int (d_mag d)" using assms(2) \<open>\<not> i < 0\<close> by (simp add: d_val_def)
    then have "nat \<bar>i\<bar> * d_unit \<le> d_mag d" using int_abs_unit [of i] by linarith
    then show ?thesis using d_mag_of_int_le False \<open>\<not> i < 0\<close> d_val_of_int [of i] by (simp add: d_val_def)
  qed
next
  case True
  then have nn: "d_val (d_of_int i) = - int (d_mag (d_of_int i))" using d_val_of_int [of i] by simp
  show ?thesis
  proof (cases "d_neg_sign d")
    case False
    then have "0 \<le> d_val d" by (simp add: d_val_def)
    then show ?thesis using nn by linarith
  next
    case d: True
    then have "int (d_mag d) \<le> \<bar>i\<bar> * int d_unit" using assms(2) True by (simp add: d_val_def)
    then have "d_mag d \<le> nat \<bar>i\<bar> * d_unit" using int_abs_unit [of i] by linarith
    then show ?thesis using d_mag_of_int_ge [OF assms(1)] d nn by (simp add: d_val_def)
  qed
qed

text \<open>The rounding of an integer of known length, and the range limits the code computes.\<close>

lemma rne_scale: "0 < c \<Longrightarrow> rne (x * c) (k * c) = rne x k"
  by (simp add: rne_def Let_def mult_mod_left [symmetric] mult.assoc [symmetric])

lemma round_code_int:
  assumes "2 ^ (52 + j) \<le> x" "x < 2 ^ (53 + j)"
  shows "round_code (x * d_unit) 1 = (j + 1074) * P52 + rne x (2 ^ j)"
proof -
  have lo: "2 ^ (1126 + j) \<le> x * d_unit" and hi: "x * d_unit < 2 ^ (1127 + j)"
    using assms unfolding d_unit_def by (simp_all add: power_add)
  have "bitlen (x * d_unit) \<le> 1127 + j" using hi by (simp only: bitlen_le_iff)
  moreover have "\<not> bitlen (x * d_unit) \<le> 1126 + j" using lo by (simp only: bitlen_le_iff not_less)
  ultimately have b: "bitlen (x * d_unit) - 53 = j + 1074" by simp
  have "rne (x * d_unit) (2 ^ (j + 1074)) = rne x (2 ^ j)"
    using rne_scale [OF d_unit_pos(1), of x "2 ^ j"] by (simp add: power_add d_unit_def)
  then show ?thesis by (simp add: round_code_def Let_def b)
qed


lemma d_code_of_int: "d_code (d_of_int i) = min INF_CODE (round_code (nat \<bar>i\<bar> * d_unit) 1)"
  by (simp add: d_of_int_def d_code_round)

lemma round_code_int_at:
  "2 ^ (52 + j) \<le> x \<Longrightarrow> x < 2 ^ (53 + j) \<Longrightarrow> rne x (2 ^ j) = y \<Longrightarrow> (j + 1074) * P52 + y = c \<Longrightarrow>
   c \<le> INF_CODE \<Longrightarrow> nat \<bar>i\<bar> = x \<Longrightarrow> d_code (d_of_int i) = c"
  using round_code_int [of j x] by (simp add: d_code_of_int del: One_nat_def)

lemma limit_codes:
  "d_code (d_of_int (- (2 ^ 63))) = 1086 * P52"
  "d_code (d_of_int (2 ^ 63 - 1)) = 1086 * P52"
  "d_code (d_of_int (2 ^ 63 - 1 - 512)) = 1086 * P52 - 1"
  "d_code (d_of_int (2 ^ 64 - 1)) = 1087 * P52"
  "d_code (d_of_int (2 ^ 64 - 1 - 1024)) = 1087 * P52 - 1"
  by (rule round_code_int_at [where j = 11 and x = "2 ^ 63" and y = "2 ^ 52"], simp_all add: rne_def; fail |
      rule round_code_int_at [where j = 10 and x = "2 ^ 63 - 1" and y = "2 ^ 53"], simp_all add: rne_def; fail |
      rule round_code_int_at [where j = 10 and x = "2 ^ 63 - 513" and y = "2 ^ 53 - 1"], simp_all add: rne_def; fail |
      rule round_code_int_at [where j = 11 and x = "2 ^ 64 - 1" and y = "2 ^ 53"], simp_all add: rne_def; fail |
      rule round_code_int_at [where j = 11 and x = "2 ^ 64 - 1025" and y = "2 ^ 53 - 1"], simp_all add: rne_def; fail)+

lemma limit_mags: "mag_of_code (1086 * P52) = 2 ^ 63 * d_unit" "mag_of_code (1087 * P52) = 2 ^ 64 * d_unit"
proof -
  have "P52 * 2 ^ (k + 1074) = 2 ^ (52 + k) * d_unit" for k by (simp add: power_add d_unit_def)
  from this [of 11] this [of 12]
  show "mag_of_code (1086 * P52) = 2 ^ 63 * d_unit" "mag_of_code (1087 * P52) = 2 ^ 64 * d_unit"
    using mag_of_code_exp [of 1085] mag_of_code_exp [of 1086] by simp_all
qed

lemma limit_vals:
  "d_val (d_of_int (- (2 ^ 63))) = - (2 ^ 63 * int d_unit)"
  "d_val (d_of_int (2 ^ 63 - 1)) = 2 ^ 63 * int d_unit"
  "d_val (d_of_int (2 ^ 64 - 1)) = 2 ^ 64 * int d_unit"
  "d_val (d_of_int 0) = 0"
  using limit_mags d_val_of_small_int [of 0] unfolding d_val_of_int d_mag_def limit_codes by simp_all

text \<open>
  The greatest doubles below \<open>2^63\<close> and \<open>2^64\<close>: the bounds the lossless conversions compute with
  \<open>(double)(INT64_MAX - 512)\<close> and \<open>(double)(UINT64_MAX - 1024)\<close> are exactly these.
\<close>

lemma d_le_limit:
  "d_le d (d_of_int (2 ^ 63 - 1 - 512)) \<longleftrightarrow> \<not> d_isnan d \<and> d_val d < 2 ^ 63 * int d_unit"
  "d_le d (d_of_int (2 ^ 64 - 1 - 1024)) \<longleftrightarrow> \<not> d_isnan d \<and> d_val d < 2 ^ 64 * int d_unit"
proof -
  have gen: "d_le d (d_of_int i) \<longleftrightarrow> \<not> d_isnan d \<and> d_val d < int (mag_of_code c)"
    if "d_code (d_of_int i) = c - 1" "0 < c" "0 \<le> i" for i c
  proof -
    have v: "d_val (d_of_int i) = int (mag_of_code (c - 1))"
      using that by (simp add: d_val_of_int d_mag_def)
    have "mag_of_code e \<le> mag_of_code (c - 1) \<longleftrightarrow> mag_of_code e < mag_of_code c" for e
      using that(2) by (auto simp: mag_of_code_le_iff mag_of_code_less_iff)
    moreover have "0 < mag_of_code c" using mag_of_code_less_iff [of 0 c] that(2) by (simp add: mag_of_code_def)
    ultimately show ?thesis using v d_of_int_not_nan by (auto simp: d_le_def d_val_def d_mag_def)
  qed
  show "d_le d (d_of_int (2 ^ 63 - 1 - 512)) \<longleftrightarrow> \<not> d_isnan d \<and> d_val d < 2 ^ 63 * int d_unit"
    using gen [OF limit_codes(3)] limit_mags(1) by simp
  show "d_le d (d_of_int (2 ^ 64 - 1 - 1024)) \<longleftrightarrow> \<not> d_isnan d \<and> d_val d < 2 ^ 64 * int d_unit"
    using gen [OF limit_codes(5)] limit_mags(2) by simp
qed

text \<open>Only finite doubles lie strictly between the limits.\<close>

lemma finite_if_bounded:
  assumes "\<not> d_isnan d" "\<bar>d_val d\<bar> \<le> 2 ^ 64 * int d_unit"
  shows "d_code d < INF_CODE"
proof -
  have "int (d_mag d) \<le> int (mag_of_code (1087 * P52))" using assms(2) limit_mags(2) by (auto simp: d_val_def split: if_splits)
  then have "d_code d \<le> 1087 * P52" by (simp add: d_mag_def mag_of_code_le_iff)
  then show ?thesis by simp
qed

end
