(* ===== verification/Arith.thy ===== *)
theory Arith
  imports ThreeValued Ieee "HOL-Library.Signed_Division"
begin

text \<open>
  The integer kernels of \<open>runtime/cel_arith.c\<close>. Each runs the strict prologue, checks the
  operand kinds and then computes; an out-of-range result is an error value, never a wrapped
  one. An overflow-checking helper returns \<open>None\<close> for its overflow flag.
\<close>

subsection \<open>The shape of a strict binary kernel\<close>

text \<open>
  The opening lines every strict binary kernel repeats: absorb errors and unknowns, require the
  kinds, then run the body on the operand cells.
\<close>

definition strict_vv ::
  "u32 \<Rightarrow> (nat \<Rightarrow> cel_value \<Rightarrow> cel_value \<Rightarrow> rt \<Rightarrow> rt) \<Rightarrow> u32 \<Rightarrow> u32 \<Rightarrow> u32 \<Rightarrow> rt \<Rightarrow> rt option" where
  "strict_vv want body out_slot a_slot b_slot s =
     (let out = cel_value_at out_slot; a = cel_value_at a_slot; b = cel_value_at b_slot in do {
        (wrote, s) \<leftarrow> absorb_3vl_binary out a b s;
        if wrote then Some s
        else (let (wrote, s) = require_kinds out a b want s in
          if wrote then Some s
          else Some (body out (load_cv (mem s) a) (load_cv (mem s) b) s))
      })"

definition strict_v ::
  "u32 \<Rightarrow> (nat \<Rightarrow> cel_value \<Rightarrow> rt \<Rightarrow> rt) \<Rightarrow> u32 \<Rightarrow> u32 \<Rightarrow> rt \<Rightarrow> rt option" where
  "strict_v want body out_slot v_slot s =
     (let out = cel_value_at out_slot; v = cel_value_at v_slot;
          (wrote, s) = absorb_3vl_unary out v s
      in if wrote then Some s
         else if cv_kind (load_cv (mem s) v) \<noteq> want then Some (poison out CEL_ERR_TYPE_MISMATCH s)
         else Some (body out (load_cv (mem s) v) s))"

subsection \<open>Overflow-checked arithmetic\<close>

definition add_overflow_i64 :: "u64 \<Rightarrow> u64 \<Rightarrow> u64 option" where
  "add_overflow_i64 a b =
     (if sint a + sint b < INT64_MIN \<or> INT64_MAX < sint a + sint b then None else Some (a + b))"

definition sub_overflow_i64 :: "u64 \<Rightarrow> u64 \<Rightarrow> u64 option" where
  "sub_overflow_i64 a b =
     (if sint a - sint b < INT64_MIN \<or> INT64_MAX < sint a - sint b then None else Some (a - b))"

definition add_overflow_u64 :: "u64 \<Rightarrow> u64 \<Rightarrow> u64 option" where
  "add_overflow_u64 a b = (if UINT64_MAX < uint a + uint b then None else Some (a + b))"

definition sub_overflow_u64 :: "u64 \<Rightarrow> u64 \<Rightarrow> u64 option" where
  "sub_overflow_u64 a b = (if uint a - uint b < 0 then None else Some (a - b))"

definition uint64_mul_overflows :: "u64 \<Rightarrow> u64 \<Rightarrow> u64 option" where
  "uint64_mul_overflows a b =
     (let ah = drop_bit 32 a; al = a AND 0xFFFFFFFF; bh = drop_bit 32 b; bl = b AND 0xFFFFFFFF in
      if ah \<noteq> 0 \<and> bh \<noteq> 0 then None
      else (let mid = ah * bl + al * bh in
        if drop_bit 32 mid \<noteq> 0 then None
        else (let lo = al * bl; result = lo + push_bit 32 mid in
          if result < lo then None else Some result)))"

abbreviation I64_MIN_BITS :: u64 where "I64_MIN_BITS \<equiv> 0x8000000000000000"

text \<open>
  \<open>-x\<close> on \<open>int64_t\<close> is two's-complement negation here; the one operand for which C leaves it
  undefined, \<open>(int64_t)2^63\<close>, is reached for results equal to \<open>INT64_MIN\<close>.
\<close>

definition int64_mul_overflows :: "u64 \<Rightarrow> u64 \<Rightarrow> u64 option" where
  "int64_mul_overflows a b =
     (if a = 0 \<or> b = 0 then Some 0
      else if a = I64_MIN_BITS then (if b \<noteq> 1 then None else Some I64_MIN_BITS)
      else if b = I64_MIN_BITS then (if a \<noteq> 1 then None else Some I64_MIN_BITS)
      else (let ua = (if sint a < 0 then - a else a); ub = (if sint b < 0 then - b else b) in
        case uint64_mul_overflows ua ub of
          None \<Rightarrow> None
        | Some up \<Rightarrow>
            (let negative = ((sint a < 0) \<noteq> (sint b < 0)) in
             if negative then (if up > 0x7FFFFFFFFFFFFFFF + 1 then None else Some (- up))
             else (if up > 0x7FFFFFFFFFFFFFFF then None else Some up))))"

subsection \<open>Integer kernels\<close>

definition write_int_or :: "u32 \<Rightarrow> nat \<Rightarrow> u64 option \<Rightarrow> rt \<Rightarrow> rt" where
  "write_int_or e out r s = (case r of None \<Rightarrow> poison out e s | Some v \<Rightarrow> write_int out v s)"

definition write_uint_or :: "u32 \<Rightarrow> nat \<Rightarrow> u64 option \<Rightarrow> rt \<Rightarrow> rt" where
  "write_uint_or e out r s = (case r of None \<Rightarrow> poison out e s | Some v \<Rightarrow> write_uint out v s)"

definition cel_int_add_at_vv :: "u32 \<Rightarrow> u32 \<Rightarrow> u32 \<Rightarrow> rt \<Rightarrow> rt option" where
  "cel_int_add_at_vv = strict_vv CEL_INT
     (\<lambda>out a b. write_int_or CEL_ERR_OVERFLOW out (add_overflow_i64 (pl_i a) (pl_i b)))"

definition cel_int_sub_at_vv :: "u32 \<Rightarrow> u32 \<Rightarrow> u32 \<Rightarrow> rt \<Rightarrow> rt option" where
  "cel_int_sub_at_vv = strict_vv CEL_INT
     (\<lambda>out a b. write_int_or CEL_ERR_OVERFLOW out (sub_overflow_i64 (pl_i a) (pl_i b)))"

definition cel_int_mul_at_vv :: "u32 \<Rightarrow> u32 \<Rightarrow> u32 \<Rightarrow> rt \<Rightarrow> rt option" where
  "cel_int_mul_at_vv = strict_vv CEL_INT
     (\<lambda>out a b. write_int_or CEL_ERR_OVERFLOW out (int64_mul_overflows (pl_i a) (pl_i b)))"

definition cel_int_div_at_vv :: "u32 \<Rightarrow> u32 \<Rightarrow> u32 \<Rightarrow> rt \<Rightarrow> rt option" where
  "cel_int_div_at_vv = strict_vv CEL_INT (\<lambda>out a b s.
     if pl_i b = 0 then poison out CEL_ERR_DIVIDE_BY_ZERO s
     else if pl_i a = I64_MIN_BITS \<and> sint (pl_i b) = -1 then poison out CEL_ERR_OVERFLOW s
     else write_int out (word_of_int (sint (pl_i a) sdiv sint (pl_i b))) s)"

definition cel_int_mod_at_vv :: "u32 \<Rightarrow> u32 \<Rightarrow> u32 \<Rightarrow> rt \<Rightarrow> rt option" where
  "cel_int_mod_at_vv = strict_vv CEL_INT (\<lambda>out a b s.
     if pl_i b = 0 then poison out CEL_ERR_MODULUS_BY_ZERO s
     else if pl_i a = I64_MIN_BITS \<and> sint (pl_i b) = -1 then poison out CEL_ERR_OVERFLOW s
     else write_int out (word_of_int (sint (pl_i a) smod sint (pl_i b))) s)"

definition cel_int_neg_at_v :: "u32 \<Rightarrow> u32 \<Rightarrow> rt \<Rightarrow> rt option" where
  "cel_int_neg_at_v = strict_v CEL_INT (\<lambda>out v s.
     if pl_i v = I64_MIN_BITS then poison out CEL_ERR_OVERFLOW s else write_int out (- pl_i v) s)"

definition cel_uint_add_at_vv :: "u32 \<Rightarrow> u32 \<Rightarrow> u32 \<Rightarrow> rt \<Rightarrow> rt option" where
  "cel_uint_add_at_vv = strict_vv CEL_UINT
     (\<lambda>out a b. write_uint_or CEL_ERR_OVERFLOW out (add_overflow_u64 (pl_u a) (pl_u b)))"

definition cel_uint_sub_at_vv :: "u32 \<Rightarrow> u32 \<Rightarrow> u32 \<Rightarrow> rt \<Rightarrow> rt option" where
  "cel_uint_sub_at_vv = strict_vv CEL_UINT
     (\<lambda>out a b. write_uint_or CEL_ERR_OVERFLOW out (sub_overflow_u64 (pl_u a) (pl_u b)))"

definition cel_uint_mul_at_vv :: "u32 \<Rightarrow> u32 \<Rightarrow> u32 \<Rightarrow> rt \<Rightarrow> rt option" where
  "cel_uint_mul_at_vv = strict_vv CEL_UINT
     (\<lambda>out a b. write_uint_or CEL_ERR_OVERFLOW out (uint64_mul_overflows (pl_u a) (pl_u b)))"

definition cel_uint_div_at_vv :: "u32 \<Rightarrow> u32 \<Rightarrow> u32 \<Rightarrow> rt \<Rightarrow> rt option" where
  "cel_uint_div_at_vv = strict_vv CEL_UINT (\<lambda>out a b s.
     if pl_u b = 0 then poison out CEL_ERR_DIVIDE_BY_ZERO s
     else write_uint out (pl_u a div pl_u b) s)"

definition cel_uint_mod_at_vv :: "u32 \<Rightarrow> u32 \<Rightarrow> u32 \<Rightarrow> rt \<Rightarrow> rt option" where
  "cel_uint_mod_at_vv = strict_vv CEL_UINT (\<lambda>out a b s.
     if pl_u b = 0 then poison out CEL_ERR_MODULUS_BY_ZERO s
     else write_uint out (pl_u a mod pl_u b) s)"


subsection \<open>Double kernels\<close>

definition cel_double_add_at_vv :: "u32 \<Rightarrow> u32 \<Rightarrow> u32 \<Rightarrow> rt \<Rightarrow> rt option" where
  "cel_double_add_at_vv = strict_vv CEL_DOUBLE (\<lambda>out a b. write_double out (d_add (pl_d a) (pl_d b)))"

definition cel_double_sub_at_vv :: "u32 \<Rightarrow> u32 \<Rightarrow> u32 \<Rightarrow> rt \<Rightarrow> rt option" where
  "cel_double_sub_at_vv = strict_vv CEL_DOUBLE (\<lambda>out a b. write_double out (d_sub (pl_d a) (pl_d b)))"

definition cel_double_mul_at_vv :: "u32 \<Rightarrow> u32 \<Rightarrow> u32 \<Rightarrow> rt \<Rightarrow> rt option" where
  "cel_double_mul_at_vv = strict_vv CEL_DOUBLE (\<lambda>out a b. write_double out (d_mul (pl_d a) (pl_d b)))"

definition cel_double_div_at_vv :: "u32 \<Rightarrow> u32 \<Rightarrow> u32 \<Rightarrow> rt \<Rightarrow> rt option" where
  "cel_double_div_at_vv = strict_vv CEL_DOUBLE (\<lambda>out a b. write_double out (d_div (pl_d a) (pl_d b)))"

definition cel_double_neg_at_v :: "u32 \<Rightarrow> u32 \<Rightarrow> rt \<Rightarrow> rt option" where
  "cel_double_neg_at_v = strict_v CEL_DOUBLE (\<lambda>out v. write_double out (d_neg (pl_d v)))"

subsection \<open>Exactness of the overflow checks\<close>

lemma uint64_split: "uint (x :: u64) = uint (drop_bit 32 x) * 2 ^ 32 + uint (x AND 0xFFFFFFFF)"
proof -
  have m: "(0xFFFFFFFF :: u64) = mask 32" by (simp add: mask_eq_exp_minus_1)
  have "uint (drop_bit 32 x) = uint x div 2 ^ 32" by (simp add: drop_bit_eq_div uint_div)
  moreover have "uint (x AND 0xFFFFFFFF) = uint x mod 2 ^ 32"
    unfolding m take_bit_eq_mask [symmetric] by (simp add: take_bit_eq_mod uint_mod)
  ultimately show ?thesis by simp
qed

lemma uint64_halves:
  "uint (drop_bit 32 (x :: u64)) < 2 ^ 32" "uint ((x :: u64) AND 0xFFFFFFFF) < 2 ^ 32"
proof -
  show "uint (x AND 0xFFFFFFFF) < 2 ^ 32"
    using AND_upper2 [of "0xFFFFFFFF" "uint x"] by (simp add: unsigned_and_eq)
  show "uint (drop_bit 32 x) < 2 ^ 32"
    using uint_lt2p [of x] by (simp add: drop_bit_eq_div uint_div div_less_iff_less_mult)
qed

lemma mult_lt_pow64: "0 \<le> x \<Longrightarrow> x < 2 ^ 32 \<Longrightarrow> 0 \<le> y \<Longrightarrow> y < 2 ^ 32 \<Longrightarrow> x * y \<le> (2 ^ 32 - 1) * (2 ^ 32 - 1 :: int)"
  by (intro mult_mono) auto

lemma uint_mult64: "uint (x :: u64) * uint (y :: u64) < 2 ^ 64 \<Longrightarrow> uint (x * y) = uint x * uint y"
  by (simp add: uint_word_ariths)

lemma uint_plus64: "uint (x :: u64) + uint (y :: u64) < 2 ^ 64 \<Longrightarrow> uint (x + y) = uint x + uint y"
  by (simp add: uint_word_ariths)

lemma uint_push32: "uint (x :: u64) < 2 ^ 32 \<Longrightarrow> uint (push_bit 32 x) = uint x * 2 ^ 32"
  by (simp add: push_bit_eq_mult mult.commute uint_word_ariths)

lemma uint64_mul_overflows_exact:
  "uint64_mul_overflows a b = (if uint a * uint b \<le> UINT64_MAX then Some (a * b) else None)"
proof -
  define ah al bh bl where "ah = drop_bit 32 a" and "al = a AND 0xFFFFFFFF"
    and "bh = drop_bit 32 b" and "bl = b AND 0xFFFFFFFF"
  define A A' B B' where "A = uint ah" and "A' = uint al" and "B = uint bh" and "B' = uint bl"
  note d = A_def A'_def B_def B'_def ah_def al_def bh_def bl_def
  have a: "uint a = A * 2 ^ 32 + A'" and b: "uint b = B * 2 ^ 32 + B'"
    unfolding d by (rule uint64_split)+
  have r: "0 \<le> A" "A < 2 ^ 32" "0 \<le> A'" "A' < 2 ^ 32" "0 \<le> B" "B < 2 ^ 32" "0 \<le> B'" "B' < 2 ^ 32"
    unfolding d using uint64_halves by auto
  have prod: "uint a * uint b = A * B * 2 ^ 64 + (A * B' + A' * B) * 2 ^ 32 + A' * B'"
    by (simp add: a b algebra_simps)
  have lo: "uint (al * bl) = A' * B'"
    using mult_lt_pow64 [OF r(3,4,7,8)] by (subst uint_mult64) (simp_all add: A'_def B'_def)
  show ?thesis
  proof (cases "ah \<noteq> 0 \<and> bh \<noteq> 0")
    case True
    then have "1 \<le> A" "1 \<le> B" unfolding A_def B_def by (metis uint_0_iff int_one_le_iff_zero_less uint_ge_0 order_le_less)+
    then have "1 * 1 \<le> A * B" by (intro mult_mono) auto
    then have "\<not> uint a * uint b \<le> UINT64_MAX" unfolding prod using r by (simp add: add_nonneg_nonneg not_le) (smt (verit) mult_nonneg_nonneg)
    then show ?thesis using True by (simp add: uint64_mul_overflows_def ah_def bh_def)
  next
    case False
    then have z: "A = 0 \<or> B = 0" by (auto simp: A_def B_def)
    let ?mid = "ah * bl + al * bh"
    have m1: "uint (ah * bl) = A * B'" using mult_lt_pow64 [OF r(1,2,7,8)]
      by (subst uint_mult64) (simp_all add: A_def B'_def)
    have m2: "uint (al * bh) = A' * B" using mult_lt_pow64 [OF r(3,4,5,6)]
      by (subst uint_mult64) (simp_all add: A'_def B_def)
    have mid: "uint ?mid = A * B' + A' * B"
      using z mult_lt_pow64 [OF r(1,2,7,8)] mult_lt_pow64 [OF r(3,4,5,6)] by (subst uint_plus64) (auto simp: m1 m2)
    have p: "uint a * uint b = uint ?mid * 2 ^ 32 + A' * B'" using z by (auto simp: prod mid)
    have dm: "drop_bit 32 ?mid = 0 \<longleftrightarrow> uint ?mid < 2 ^ 32"
      unfolding uint_0_iff [symmetric] drop_bit_eq_div by (simp add: uint_div) (auto simp: zdiv_eq_0_iff)
    show ?thesis
    proof (cases "uint ?mid < 2 ^ 32")
      case small: False
      have "\<not> uint a * uint b \<le> UINT64_MAX" unfolding p using small r by (simp add: not_less) (smt (verit) mult_nonneg_nonneg)
      then show ?thesis using False small dm by (auto simp: uint64_mul_overflows_def Let_def ah_def al_def bh_def bl_def)
    next
      case True
      let ?res = "al * bl + push_bit 32 ?mid"
      have pm: "uint (push_bit 32 ?mid) = uint ?mid * 2 ^ 32"
        using True by (rule uint_push32)
      have "uint ?res = (uint (al * bl) + uint (push_bit 32 ?mid)) mod 2 ^ 64"
        by (simp only: uint_word_ariths(1)) simp
      also have "\<dots> = (uint a * uint b) mod 2 ^ 64" unfolding pm lo p by (simp only: add.commute)
      finally have u: "uint ?res = (uint a * uint b) mod 2 ^ 64" .
      have "uint (a * b) = (uint a * uint b) mod 2 ^ 64" by (simp only: uint_word_ariths(3)) simp
      then have res: "?res = a * b" using u by (simp only: word_uint_eq_iff)
      have "uint ?res = (if uint a * uint b < 2 ^ 64 then uint a * uint b else uint a * uint b - 2 ^ 64)"
        using uint_plus_if_size [of "al * bl" "push_bit 32 ?mid"] unfolding pm lo p
        by (simp only: word_size add.commute) simp
      then have lt: "?res < al * bl \<longleftrightarrow> \<not> uint a * uint b \<le> UINT64_MAX"
        unfolding word_less_def lo using p True by auto
      show ?thesis using False True dm res lt by (auto simp: uint64_mul_overflows_def Let_def ah_def al_def bh_def bl_def)
    qed
  qed
qed


lemma sint_min_bits: "sint x = INT64_MIN \<longleftrightarrow> x = I64_MIN_BITS"
proof -
  have "sint I64_MIN_BITS = INT64_MIN" by simp
  then show ?thesis using sint_eq_iff64 [of x I64_MIN_BITS] by simp
qed

lemma uint_abs64:
  assumes "x \<noteq> I64_MIN_BITS"
  shows "uint (if sint x < 0 then - x else x) = \<bar>sint x\<bar>"
proof (cases "sint x < 0")
  case True
  have "sint x \<noteq> INT64_MIN" using assms sint_min_bits by blast
  then have r: "0 < - sint x" "- sint x < 2 ^ 63" using True sint_range64 [of x] by simp_all
  have "uint (- x) = (- sint x) mod 2 ^ 64"
  proof -
    have "uint (- x) = (- uint x) mod 2 ^ 64" by (simp add: uint_word_ariths)
    also have "\<dots> = (- sint x) mod 2 ^ 64" unfolding uint_of_sint64 by (rule mod_minus_eq)
    finally show ?thesis .
  qed
  then show ?thesis using True r by simp
next
  case False
  then show ?thesis using sint_cases64 [of x] uint_range64(2) [of x] by (simp split: if_splits)
qed

lemma sint_mult64: "INT64_MIN \<le> sint x * sint y \<Longrightarrow> sint x * sint y \<le> INT64_MAX \<Longrightarrow> sint ((x :: u64) * y) = sint x * sint y"
  using sint_word_of_int64 [of "sint x * sint y"] by (simp add: wi_hom_mult)

lemma int64_mul_overflows_exact:
  "int64_mul_overflows a b =
     (if INT64_MIN \<le> sint a * sint b \<and> sint a * sint b \<le> INT64_MAX then Some (a * b) else None)"
proof -
  let ?in = "INT64_MIN \<le> sint a * sint b \<and> sint a * sint b \<le> INT64_MAX"
  have out: "\<not> (INT64_MIN \<le> INT64_MIN * sint y \<and> INT64_MIN * sint y \<le> INT64_MAX)"
    if "y \<noteq> 0" "y \<noteq> 1" for y :: u64
  proof -
    have "sint y \<noteq> 0" "sint y \<noteq> 1" 
      using that sint_eq_iff64 [of y 0] sint_eq_iff64 [of y 1] by simp_all
    then show ?thesis by auto
  qed
  consider (zero) "a = 0 \<or> b = 0"
    | (mina) "a \<noteq> 0" "b \<noteq> 0" "a = I64_MIN_BITS" | (minb) "a \<noteq> 0" "b \<noteq> 0" "a \<noteq> I64_MIN_BITS" "b = I64_MIN_BITS"
    | (gen) "a \<noteq> 0" "b \<noteq> 0" "a \<noteq> I64_MIN_BITS" "b \<noteq> I64_MIN_BITS" by blast
  then show ?thesis
  proof cases
    case zero
    then show ?thesis by (auto simp: int64_mul_overflows_def)
  next
    case mina
    then show ?thesis using out [of b] by (auto simp: int64_mul_overflows_def)
  next
    case minb
    then show ?thesis using out [of a] by (auto simp: int64_mul_overflows_def mult.commute)
  next
    case gen
    let ?ua = "if sint a < 0 then - a else a" and ?ub = "if sint b < 0 then - b else b"
    have u: "uint ?ua * uint ?ub = \<bar>sint a * sint b\<bar>"
      unfolding uint_abs64 [OF gen(3)] uint_abs64 [OF gen(4)] by (simp add: abs_mult)
    note m = uint64_mul_overflows_exact [of ?ua ?ub, unfolded u]
    define P where "P = sint a * sint b"
    have neg: "(sint a < 0) \<noteq> (sint b < 0) \<longleftrightarrow> P < 0"
    proof -
      have "sint a \<noteq> 0" "sint b \<noteq> 0" 
        using gen(1,2) sint_eq_iff64 [of a 0] sint_eq_iff64 [of b 0] by simp_all
      then show ?thesis unfolding P_def by (auto simp: mult_less_0_iff)
    qed
    have lim: "(0x7FFFFFFFFFFFFFFF :: u64) + 1 = 0x8000000000000000" by simp
    have eq: "int64_mul_overflows a b = (case uint64_mul_overflows ?ua ?ub of None \<Rightarrow> None
        | Some up \<Rightarrow> if P < 0 then (if up > 0x8000000000000000 then None else Some (- up))
             else (if up > 0x7FFFFFFFFFFFFFFF then None else Some up))"
      unfolding int64_mul_overflows_def Let_def neg lim using gen by simp
    have prod: "(if P < 0 then - (?ua * ?ub) else ?ua * ?ub) = a * b" using neg by auto
    show ?thesis
    proof (cases "\<bar>P\<bar> \<le> UINT64_MAX")
      case False
      then have "\<not> ?in" unfolding P_def by auto
      then show ?thesis using m eq False unfolding P_def by simp
    next
      case True
      then have ov: "uint64_mul_overflows ?ua ?ub = Some (?ua * ?ub)" using m unfolding P_def by simp
      have up: "uint (?ua * ?ub) = \<bar>P\<bar>" using True u unfolding P_def by (subst uint_mult64) auto
      have c: "?ua * ?ub > 0x8000000000000000 \<longleftrightarrow> \<bar>P\<bar> > 2 ^ 63" "?ua * ?ub > 0x7FFFFFFFFFFFFFFF \<longleftrightarrow> \<bar>P\<bar> > 2 ^ 63 - 1"
        unfolding word_less_def up by simp_all
      have i: "?in = (if P < 0 then \<not> \<bar>P\<bar> > 2 ^ 63 else \<not> \<bar>P\<bar> > 2 ^ 63 - 1)" unfolding P_def by auto
      show ?thesis unfolding eq ov i option.case using prod unfolding c by (simp split: if_splits)
    qed
  qed
qed


subsection \<open>The contract of a strict binary kernel\<close>

lemma strict_vv_values:
  assumes "cv_kind (cv s a_slot) = want" "cv_kind (cv s b_slot) = want" "want \<noteq> CEL_ERROR" "want \<noteq> CEL_UNKNOWN"
  shows "strict_vv want body out_slot a_slot b_slot s
    = Some (body (cel_value_at out_slot) (cv s a_slot) (cv s b_slot) s)"
  using assms by (simp add: strict_vv_def absorb_3vl_binary_def require_kinds_def)

lemma strict_vv_absorbs:
  assumes ok: "operands_ok s out_slot a_slot b_slot"
    and r: "tv_strict (tv_at s a_slot) (tv_at s b_slot) = Some r"
  shows "\<exists>s'. strict_vv want body out_slot a_slot b_slot s = Some s' \<and> outcome s out_slot a_slot b_slot r s'"
  using absorb_3vl_binary_refines [OF ok] r by (auto simp: strict_vv_def)

lemma strict_vv_mismatch:
  assumes "operands_ok s out_slot a_slot b_slot"
    and "tv_strict (tv_at s a_slot) (tv_at s b_slot) = None"
    and "cv_kind (cv s a_slot) \<noteq> want \<or> cv_kind (cv s b_slot) \<noteq> want"
  shows "strict_vv want body out_slot a_slot b_slot s = Some (poison (cel_value_at out_slot) CEL_ERR_TYPE_MISMATCH s)"
  using absorb_3vl_binary_refines [OF assms(1)] assms(2,3) by (auto simp: strict_vv_def require_kinds_def)

text \<open>
  A strict kernel, seen by its callers: an error or unknown operand decides the result by the
  strict rule, a wrong kind is a type error, and otherwise the result is a function of the two
  operand cells; only the out slot changes, whatever the aliasing.
\<close>

locale strict_kernel =
  fixes kern :: "u32 \<Rightarrow> u32 \<Rightarrow> u32 \<Rightarrow> rt \<Rightarrow> rt option"
    and want :: u32
    and res :: u32
    and body :: "nat \<Rightarrow> cel_value \<Rightarrow> cel_value \<Rightarrow> rt \<Rightarrow> rt"
  assumes shape: "kern = strict_vv want body"
    and value_kind: "want \<noteq> CEL_ERROR \<and> want \<noteq> CEL_UNKNOWN"
    and body_frame: "only_cell out s (body out v w s)"
    and body_kind: "cv_kind (load_cv (mem (body out v w s)) out) \<in> {res, CEL_ERROR}"
begin

lemma on_values:
  "cv_kind (cv s a_slot) = want \<Longrightarrow> cv_kind (cv s b_slot) = want \<Longrightarrow>
   kern out_slot a_slot b_slot s = Some (body (cel_value_at out_slot) (cv s a_slot) (cv s b_slot) s)"
  using strict_vv_values value_kind by (simp add: shape)

lemma absorbs:
  "operands_ok s out_slot a_slot b_slot \<Longrightarrow> tv_strict (tv_at s a_slot) (tv_at s b_slot) = Some r \<Longrightarrow>
   \<exists>s'. kern out_slot a_slot b_slot s = Some s' \<and> outcome s out_slot a_slot b_slot r s'"
  using strict_vv_absorbs by (simp add: shape)

lemma mismatch:
  "operands_ok s out_slot a_slot b_slot \<Longrightarrow> tv_strict (tv_at s a_slot) (tv_at s b_slot) = None \<Longrightarrow>
   cv_kind (cv s a_slot) \<noteq> want \<or> cv_kind (cv s b_slot) \<noteq> want \<Longrightarrow>
   kern out_slot a_slot b_slot s = Some (poison (cel_value_at out_slot) CEL_ERR_TYPE_MISMATCH s)"
  using strict_vv_mismatch by (simp add: shape)

text \<open>The whole behaviour in one statement.\<close>

lemma strict:
  assumes "operands_ok s out_slot a_slot b_slot"
  shows "\<exists>s'. kern out_slot a_slot b_slot s = Some s' \<and> keeps (cel_value_at out_slot) s s'
     \<and> (case tv_strict (tv_at s a_slot) (tv_at s b_slot) of
          Some r \<Rightarrow> outcome s out_slot a_slot b_slot r s'
        | None \<Rightarrow>
            if cv_kind (cv s a_slot) = want \<and> cv_kind (cv s b_slot) = want
            then cv_kind (cv s' out_slot) \<in> {res, CEL_ERROR}
            else is_err (cv s' out_slot) CEL_ERR_TYPE_MISMATCH)"
proof -
  have ok: "arena_ok s" using assms by (simp add: operands_ok_def)
  show ?thesis
  proof (cases "tv_strict (tv_at s a_slot) (tv_at s b_slot)")
    case (Some r)
    then show ?thesis using absorbs [OF assms] by (auto simp: outcome_def)
  next
    case None
    show ?thesis
    proof (cases "cv_kind (cv s a_slot) = want \<and> cv_kind (cv s b_slot) = want")
      case True
      then show ?thesis using None on_values body_frame [THEN only_cell_keeps, OF ok] body_kind by auto
    next
      case False
      then show ?thesis
        using None mismatch [OF assms None] only_cell_keeps [OF only_cell_writers(1) ok] is_err_poison by auto
    qed
  qed
qed

end

lemma kinds_written [simp]:
  "cv_kind (load_cv (mem (poison out e s)) out) = CEL_ERROR"
  "cv_kind (load_cv (mem (write_int out x s)) out) = CEL_INT"
  "cv_kind (load_cv (mem (write_uint out x s)) out) = CEL_UINT"
  "cv_kind (load_cv (mem (write_double out x s)) out) = CEL_DOUBLE"
  "cv_kind (load_cv (mem (write_bool out c s)) out) = CEL_BOOL"
  by (simp_all add: cell_simps)

lemma kinds_written_or [simp]:
  "cv_kind (load_cv (mem (write_int_or e out r s)) out) \<in> {CEL_INT, CEL_ERROR}"
  "cv_kind (load_cv (mem (write_uint_or e out r s)) out) \<in> {CEL_UINT, CEL_ERROR}"
  by (auto simp: write_int_or_def write_uint_or_def split: option.splits)

lemma only_cell_write_or [simp]:
  "only_cell out s (write_int_or e out r s)" "only_cell out s (write_uint_or e out r s)"
  by (simp_all add: write_int_or_def write_uint_or_def split: option.splits)

interpretation int_add: strict_kernel cel_int_add_at_vv CEL_INT CEL_INT
    "\<lambda>out a b. write_int_or CEL_ERR_OVERFLOW out (add_overflow_i64 (pl_i a) (pl_i b))"
  by unfold_locales (use kinds_written_or in \<open>auto simp: cel_int_add_at_vv_def\<close>)

interpretation int_sub: strict_kernel cel_int_sub_at_vv CEL_INT CEL_INT
    "\<lambda>out a b. write_int_or CEL_ERR_OVERFLOW out (sub_overflow_i64 (pl_i a) (pl_i b))"
  by unfold_locales (use kinds_written_or in \<open>auto simp: cel_int_sub_at_vv_def\<close>)

interpretation int_mul: strict_kernel cel_int_mul_at_vv CEL_INT CEL_INT
    "\<lambda>out a b. write_int_or CEL_ERR_OVERFLOW out (int64_mul_overflows (pl_i a) (pl_i b))"
  by unfold_locales (use kinds_written_or in \<open>auto simp: cel_int_mul_at_vv_def\<close>)

interpretation int_div: strict_kernel cel_int_div_at_vv CEL_INT CEL_INT
    "\<lambda>out a b s. if pl_i b = 0 then poison out CEL_ERR_DIVIDE_BY_ZERO s
       else if pl_i a = I64_MIN_BITS \<and> sint (pl_i b) = -1 then poison out CEL_ERR_OVERFLOW s
       else write_int out (word_of_int (sint (pl_i a) sdiv sint (pl_i b))) s"
  by unfold_locales (use kinds_written_or in \<open>auto simp: cel_int_div_at_vv_def\<close>)

interpretation int_mod: strict_kernel cel_int_mod_at_vv CEL_INT CEL_INT
    "\<lambda>out a b s. if pl_i b = 0 then poison out CEL_ERR_MODULUS_BY_ZERO s
       else if pl_i a = I64_MIN_BITS \<and> sint (pl_i b) = -1 then poison out CEL_ERR_OVERFLOW s
       else write_int out (word_of_int (sint (pl_i a) smod sint (pl_i b))) s"
  by unfold_locales (use kinds_written_or in \<open>auto simp: cel_int_mod_at_vv_def\<close>)

interpretation uint_add: strict_kernel cel_uint_add_at_vv CEL_UINT CEL_UINT
    "\<lambda>out a b. write_uint_or CEL_ERR_OVERFLOW out (add_overflow_u64 (pl_u a) (pl_u b))"
  by unfold_locales (use kinds_written_or in \<open>auto simp: cel_uint_add_at_vv_def\<close>)

interpretation uint_sub: strict_kernel cel_uint_sub_at_vv CEL_UINT CEL_UINT
    "\<lambda>out a b. write_uint_or CEL_ERR_OVERFLOW out (sub_overflow_u64 (pl_u a) (pl_u b))"
  by unfold_locales (use kinds_written_or in \<open>auto simp: cel_uint_sub_at_vv_def\<close>)

interpretation uint_mul: strict_kernel cel_uint_mul_at_vv CEL_UINT CEL_UINT
    "\<lambda>out a b. write_uint_or CEL_ERR_OVERFLOW out (uint64_mul_overflows (pl_u a) (pl_u b))"
  by unfold_locales (use kinds_written_or in \<open>auto simp: cel_uint_mul_at_vv_def\<close>)

interpretation uint_div: strict_kernel cel_uint_div_at_vv CEL_UINT CEL_UINT
    "\<lambda>out a b s. if pl_u b = 0 then poison out CEL_ERR_DIVIDE_BY_ZERO s
       else write_uint out (pl_u a div pl_u b) s"
  by unfold_locales (use kinds_written_or in \<open>auto simp: cel_uint_div_at_vv_def\<close>)

interpretation uint_mod: strict_kernel cel_uint_mod_at_vv CEL_UINT CEL_UINT
    "\<lambda>out a b s. if pl_u b = 0 then poison out CEL_ERR_MODULUS_BY_ZERO s
       else write_uint out (pl_u a mod pl_u b) s"
  by unfold_locales (use kinds_written_or in \<open>auto simp: cel_uint_mod_at_vv_def\<close>)

interpretation double_add: strict_kernel cel_double_add_at_vv CEL_DOUBLE CEL_DOUBLE
    "\<lambda>out a b. write_double out (d_add (pl_d a) (pl_d b))"
  by unfold_locales (use kinds_written_or in \<open>auto simp: cel_double_add_at_vv_def\<close>)

interpretation double_sub: strict_kernel cel_double_sub_at_vv CEL_DOUBLE CEL_DOUBLE
    "\<lambda>out a b. write_double out (d_sub (pl_d a) (pl_d b))"
  by unfold_locales (use kinds_written_or in \<open>auto simp: cel_double_sub_at_vv_def\<close>)

interpretation double_mul: strict_kernel cel_double_mul_at_vv CEL_DOUBLE CEL_DOUBLE
    "\<lambda>out a b. write_double out (d_mul (pl_d a) (pl_d b))"
  by unfold_locales (use kinds_written_or in \<open>auto simp: cel_double_mul_at_vv_def\<close>)

interpretation double_div: strict_kernel cel_double_div_at_vv CEL_DOUBLE CEL_DOUBLE
    "\<lambda>out a b. write_double out (d_div (pl_d a) (pl_d b))"
  by unfold_locales (use kinds_written_or in \<open>auto simp: cel_double_div_at_vv_def\<close>)


lemma strict_v_value:
  assumes "cv_kind (cv s v_slot) = want" "want \<noteq> CEL_ERROR" "want \<noteq> CEL_UNKNOWN"
  shows "strict_v want body out_slot v_slot s = Some (body (cel_value_at out_slot) (cv s v_slot) s)"
  using assms by (simp add: strict_v_def absorb_3vl_unary_def)

lemma strict_v_absorbs:
  assumes "cv_kind (cv s v_slot) = CEL_ERROR \<or> cv_kind (cv s v_slot) = CEL_UNKNOWN"
  shows "strict_v want body out_slot v_slot s = Some (copy_cv (cel_value_at out_slot) (cel_value_at v_slot) s)"
  using assms by (auto simp: strict_v_def absorb_3vl_unary_def)

subsection \<open>Values of the integer kernels\<close>

definition int_or_overflow :: "cel_value \<Rightarrow> int \<Rightarrow> bool" where
  "int_or_overflow v i \<longleftrightarrow> (if INT64_MIN \<le> i \<and> i \<le> INT64_MAX then is_int v i else is_err v CEL_ERR_OVERFLOW)"

definition uint_or_overflow :: "cel_value \<Rightarrow> int \<Rightarrow> bool" where
  "uint_or_overflow v i \<longleftrightarrow> (if 0 \<le> i \<and> i \<le> UINT64_MAX then is_uint v i else is_err v CEL_ERR_OVERFLOW)"

lemma int_or_overflow_writes:
  "INT64_MIN \<le> i \<Longrightarrow> i \<le> INT64_MAX \<Longrightarrow> sint w = i \<Longrightarrow> int_or_overflow (load_cv (mem (write_int out w s)) out) i"
  "\<not> (INT64_MIN \<le> i \<and> i \<le> INT64_MAX) \<Longrightarrow> int_or_overflow (load_cv (mem (poison out CEL_ERR_OVERFLOW s)) out) i"
  using is_int_write [of out w s] by (auto simp: int_or_overflow_def is_err_poison)

lemma uint_or_overflow_writes:
  "0 \<le> i \<Longrightarrow> i \<le> UINT64_MAX \<Longrightarrow> uint w = i \<Longrightarrow> uint_or_overflow (load_cv (mem (write_uint out w s)) out) i"
  "\<not> (0 \<le> i \<and> i \<le> UINT64_MAX) \<Longrightarrow> uint_or_overflow (load_cv (mem (poison out CEL_ERR_OVERFLOW s)) out) i"
  using is_uint_write [of out w s] by (auto simp: uint_or_overflow_def is_err_poison)

lemma sint_plus64: "INT64_MIN \<le> sint x + sint y \<Longrightarrow> sint x + sint y \<le> INT64_MAX \<Longrightarrow> sint ((x :: u64) + y) = sint x + sint y"
  using sint_word_of_int64 [of "sint x + sint y"] by (simp add: wi_hom_add)

lemma sint_minus64: "INT64_MIN \<le> sint x - sint y \<Longrightarrow> sint x - sint y \<le> INT64_MAX \<Longrightarrow> sint ((x :: u64) - y) = sint x - sint y"
  using sint_word_of_int64 [of "sint x - sint y"] by (simp add: wi_hom_sub)

lemma uint_minus64: "0 \<le> uint x - uint y \<Longrightarrow> uint ((x :: u64) - y) = uint x - uint y"
  by (simp add: uint_sub_if')

lemma write_int_or_exact:
  "int_or_overflow (load_cv (mem (write_int_or CEL_ERR_OVERFLOW out (add_overflow_i64 x y) s)) out) (sint x + sint y)"
  "int_or_overflow (load_cv (mem (write_int_or CEL_ERR_OVERFLOW out (sub_overflow_i64 x y) s)) out) (sint x - sint y)"
  "int_or_overflow (load_cv (mem (write_int_or CEL_ERR_OVERFLOW out (int64_mul_overflows x y) s)) out) (sint x * sint y)"
  unfolding add_overflow_i64_def sub_overflow_i64_def int64_mul_overflows_exact write_int_or_def
  by (auto intro!: int_or_overflow_writes sint_plus64 sint_minus64 sint_mult64)

lemma write_uint_or_exact:
  "uint_or_overflow (load_cv (mem (write_uint_or CEL_ERR_OVERFLOW out (add_overflow_u64 x y) s)) out) (uint x + uint y)"
  "uint_or_overflow (load_cv (mem (write_uint_or CEL_ERR_OVERFLOW out (sub_overflow_u64 x y) s)) out) (uint x - uint y)"
  "uint_or_overflow (load_cv (mem (write_uint_or CEL_ERR_OVERFLOW out (uint64_mul_overflows x y) s)) out) (uint x * uint y)"
proof -
  have r: "0 \<le> uint x" "uint x \<le> UINT64_MAX" "0 \<le> uint y" using uint_range64 by auto
  have d: "uint x - uint y \<le> UINT64_MAX" using r by linarith
  show "uint_or_overflow (load_cv (mem (write_uint_or CEL_ERR_OVERFLOW out (add_overflow_u64 x y) s)) out) (uint x + uint y)"
    unfolding add_overflow_u64_def write_uint_or_def using uint_plus64 [of x y]
    by (auto intro!: uint_or_overflow_writes)
  show "uint_or_overflow (load_cv (mem (write_uint_or CEL_ERR_OVERFLOW out (sub_overflow_u64 x y) s)) out) (uint x - uint y)"
    unfolding sub_overflow_u64_def write_uint_or_def using uint_minus64 [of x y] r d
    by (auto intro!: uint_or_overflow_writes)
  show "uint_or_overflow (load_cv (mem (write_uint_or CEL_ERR_OVERFLOW out (uint64_mul_overflows x y) s)) out) (uint x * uint y)"
    unfolding uint64_mul_overflows_exact write_uint_or_def using uint_mult64 [of x y]
    by (auto intro!: uint_or_overflow_writes)
qed

lemma sdiv_bound: "\<bar>x sdiv y\<bar> \<le> \<bar>x :: int\<bar>"
proof -
  have "\<bar>x\<bar> div \<bar>y\<bar> \<le> \<bar>x\<bar>" using zdiv_mono2 [of "\<bar>x\<bar>" 1 "\<bar>y\<bar>"] by (cases "y = 0") auto
  moreover have "0 \<le> \<bar>x\<bar> div \<bar>y\<bar>" by (simp add: pos_imp_zdiv_nonneg_iff div_int_pos_iff)
  ultimately show ?thesis by (auto simp: signed_divide_int_def abs_mult sgn_if)
qed


lemma sdiv_in_range:
  assumes "INT64_MIN \<le> x" "x \<le> INT64_MAX" "\<not> (x = INT64_MIN \<and> y = -1)"
  shows "INT64_MIN \<le> x sdiv y" "x sdiv y \<le> INT64_MAX"
proof -
  have b: "\<bar>x sdiv y\<bar> \<le> \<bar>x\<bar>" by (rule sdiv_bound)
  show "INT64_MIN \<le> x sdiv y" using b assms by linarith
  show "x sdiv y \<le> INT64_MAX"
  proof (cases "x = INT64_MIN")
    case False
    then show ?thesis using b assms by linarith
  next
    case True
    consider "0 \<le> y" | "y < -1" using assms(3) True by linarith
    then show ?thesis
    proof cases
      case 1
      then have "sgn x * sgn y \<le> 0" using True by (simp add: sgn_if)
      then have "x sdiv y \<le> 0" unfolding signed_divide_int_def
        by (rule mult_nonpos_nonneg) (simp add: div_int_pos_iff)
      then show ?thesis by (rule order_trans) simp
    next
      case 2
      then have "\<bar>x\<bar> div \<bar>y\<bar> \<le> \<bar>x\<bar> div 2" by (intro zdiv_mono2) auto
      moreover have "x sdiv y = \<bar>x\<bar> div \<bar>y\<bar>" using 2 True by (simp add: signed_divide_int_def sgn_if)
      ultimately show ?thesis using True by simp
    qed
  qed
qed

lemma smod_in_range:
  assumes "INT64_MIN \<le> y" "y \<le> INT64_MAX" "y \<noteq> 0"
  shows "INT64_MIN \<le> x smod y" "x smod y \<le> INT64_MAX"
proof -
  have "0 \<le> \<bar>x\<bar> mod \<bar>y\<bar>" "\<bar>x\<bar> mod \<bar>y\<bar> < \<bar>y\<bar>" using assms(3) by simp_all
  then have "\<bar>x smod y\<bar> < \<bar>y\<bar>" using assms(3) by (auto simp: signed_modulo_int_def abs_mult sgn_if)
  then show "INT64_MIN \<le> x smod y" "x smod y \<le> INT64_MAX" using assms by linarith+
qed

lemma min_sdiv_minus_one: "INT64_MIN sdiv -1 = 2 ^ 63"
  by (simp add: signed_divide_int_def)

lemma sint_zero_iff: "sint (x :: u64) = 0 \<longleftrightarrow> x = 0"
  using sint_eq_iff64 [of x 0] by simp

subsection \<open>Properties\<close>

text \<open>
  C5. On two int operands each kernel computes the exact mathematical result when it fits in
  64 bits and the overflow error otherwise; division and modulus truncate toward zero, reject
  a zero divisor, and reject the quotient (and the remainder) of the least int by minus one. Only
  the out slot changes.
\<close>

theorem int_arith_exact:
  assumes k: "cv_kind (cv s a) = CEL_INT" "cv_kind (cv s b) = CEL_INT"
  defines "x \<equiv> sint (pl_i (cv s a))" and "y \<equiv> sint (pl_i (cv s b))"
  shows "(\<exists>s'. cel_int_add_at_vv out a b s = Some s' \<and> only_cell (cel_value_at out) s s' \<and> int_or_overflow (cv s' out) (x + y))
    \<and> (\<exists>s'. cel_int_sub_at_vv out a b s = Some s' \<and> only_cell (cel_value_at out) s s' \<and> int_or_overflow (cv s' out) (x - y))
    \<and> (\<exists>s'. cel_int_mul_at_vv out a b s = Some s' \<and> only_cell (cel_value_at out) s s' \<and> int_or_overflow (cv s' out) (x * y))
    \<and> (\<exists>s'. cel_int_div_at_vv out a b s = Some s' \<and> only_cell (cel_value_at out) s s'
        \<and> (if y = 0 then is_err (cv s' out) CEL_ERR_DIVIDE_BY_ZERO else int_or_overflow (cv s' out) (x sdiv y)))
    \<and> (\<exists>s'. cel_int_mod_at_vv out a b s = Some s' \<and> only_cell (cel_value_at out) s s'
        \<and> (if y = 0 then is_err (cv s' out) CEL_ERR_MODULUS_BY_ZERO
           else if x = INT64_MIN \<and> y = -1 then is_err (cv s' out) CEL_ERR_OVERFLOW
           else is_int (cv s' out) (x smod y)))
    \<and> (\<exists>s'. cel_int_neg_at_v out a s = Some s' \<and> only_cell (cel_value_at out) s s' \<and> int_or_overflow (cv s' out) (- x))"
proof (intro conjI)
  let ?o = "cel_value_at out" and ?p = "pl_i (cv s a)" and ?q = "pl_i (cv s b)"
  have r: "INT64_MIN \<le> x" "x \<le> INT64_MAX" "INT64_MIN \<le> y" "y \<le> INT64_MAX" unfolding x_def y_def by (rule sint_range64)+
  have z: "?q = 0 \<longleftrightarrow> y = 0" "?p = I64_MIN_BITS \<longleftrightarrow> x = INT64_MIN"
    unfolding x_def y_def by (simp_all only: sint_zero_iff sint_min_bits)
  show "\<exists>s'. cel_int_add_at_vv out a b s = Some s' \<and> only_cell ?o s s' \<and> int_or_overflow (cv s' out) (x + y)"
    unfolding int_add.on_values [OF k] x_def y_def using write_int_or_exact(1) only_cell_write_or(1) by blast
  show "\<exists>s'. cel_int_sub_at_vv out a b s = Some s' \<and> only_cell ?o s s' \<and> int_or_overflow (cv s' out) (x - y)"
    unfolding int_sub.on_values [OF k] x_def y_def using write_int_or_exact(2) only_cell_write_or(1) by blast
  show "\<exists>s'. cel_int_mul_at_vv out a b s = Some s' \<and> only_cell ?o s s' \<and> int_or_overflow (cv s' out) (x * y)"
    unfolding int_mul.on_values [OF k] x_def y_def using write_int_or_exact(3) only_cell_write_or(1) by blast
  show "\<exists>s'. cel_int_div_at_vv out a b s = Some s' \<and> only_cell ?o s s'
        \<and> (if y = 0 then is_err (cv s' out) CEL_ERR_DIVIDE_BY_ZERO else int_or_overflow (cv s' out) (x sdiv y))"
    using sdiv_in_range [OF r(1,2), of y] sint_word_of_int64 [of "x sdiv y"]
    unfolding int_div.on_values [OF k] z x_def [symmetric] y_def [symmetric]
    by (auto simp: is_err_poison min_sdiv_minus_one intro!: int_or_overflow_writes)
  show "\<exists>s'. cel_int_mod_at_vv out a b s = Some s' \<and> only_cell ?o s s'
        \<and> (if y = 0 then is_err (cv s' out) CEL_ERR_MODULUS_BY_ZERO
           else if x = INT64_MIN \<and> y = -1 then is_err (cv s' out) CEL_ERR_OVERFLOW
           else is_int (cv s' out) (x smod y))"
    using smod_in_range [OF r(3,4), of x] sint_word_of_int64 [of "x smod y"] is_int_write [of ?o "word_of_int (x smod y)" s]
    unfolding int_mod.on_values [OF k] z x_def [symmetric] y_def [symmetric]
    by (auto simp: is_err_poison)
  have neg: "cel_int_neg_at_v out a s = Some (if x = INT64_MIN then poison ?o CEL_ERR_OVERFLOW s else write_int ?o (- ?p) s)"
    unfolding cel_int_neg_at_v_def using k(1) by (subst strict_v_value) (simp_all add: z)
  have "sint (- ?p) = - x" if "x \<noteq> INT64_MIN"
    using sint_minus64 [of 0 ?p] that r(1,2) unfolding x_def by simp
  then show "\<exists>s'. cel_int_neg_at_v out a s = Some s' \<and> only_cell ?o s s' \<and> int_or_overflow (cv s' out) (- x)"
    unfolding neg using r(1,2) by (auto intro!: int_or_overflow_writes)
qed


theorem int_arith_exact_witness:
  "\<exists>s'. cel_int_mul_at_vv 192 128 160 (two_cells (cell_of CEL_INT 0x4000000000000000) (cell_of CEL_INT 2)) = Some s' \<and> is_err (cv s' 192) CEL_ERR_OVERFLOW"
  using int_arith_exact [of "two_cells (cell_of CEL_INT 0x4000000000000000) (cell_of CEL_INT 2)" 128 160 192]
  by (auto simp: pl_defs int_or_overflow_def)

text \<open>
  The uint kernels: exact when the result fits in 64 unsigned bits, the overflow error
  otherwise (a negative difference included), and errors for a zero divisor.
\<close>

theorem uint_arith_exact:
  assumes k: "cv_kind (cv s a) = CEL_UINT" "cv_kind (cv s b) = CEL_UINT"
  defines "x \<equiv> uint (pl_u (cv s a))" and "y \<equiv> uint (pl_u (cv s b))"
  shows "(\<exists>s'. cel_uint_add_at_vv out a b s = Some s' \<and> only_cell (cel_value_at out) s s' \<and> uint_or_overflow (cv s' out) (x + y))
    \<and> (\<exists>s'. cel_uint_sub_at_vv out a b s = Some s' \<and> only_cell (cel_value_at out) s s' \<and> uint_or_overflow (cv s' out) (x - y))
    \<and> (\<exists>s'. cel_uint_mul_at_vv out a b s = Some s' \<and> only_cell (cel_value_at out) s s' \<and> uint_or_overflow (cv s' out) (x * y))
    \<and> (\<exists>s'. cel_uint_div_at_vv out a b s = Some s' \<and> only_cell (cel_value_at out) s s'
        \<and> (if y = 0 then is_err (cv s' out) CEL_ERR_DIVIDE_BY_ZERO else is_uint (cv s' out) (x div y)))
    \<and> (\<exists>s'. cel_uint_mod_at_vv out a b s = Some s' \<and> only_cell (cel_value_at out) s s'
        \<and> (if y = 0 then is_err (cv s' out) CEL_ERR_MODULUS_BY_ZERO else is_uint (cv s' out) (x mod y)))"
proof (intro conjI)
  let ?o = "cel_value_at out" and ?p = "pl_u (cv s a)" and ?q = "pl_u (cv s b)"
  have z: "?q = 0 \<longleftrightarrow> y = 0" unfolding y_def by (simp add: uint_0_iff)
  show "\<exists>s'. cel_uint_add_at_vv out a b s = Some s' \<and> only_cell ?o s s' \<and> uint_or_overflow (cv s' out) (x + y)"
    unfolding uint_add.on_values [OF k] x_def y_def using write_uint_or_exact(1) only_cell_write_or(2) by blast
  show "\<exists>s'. cel_uint_sub_at_vv out a b s = Some s' \<and> only_cell ?o s s' \<and> uint_or_overflow (cv s' out) (x - y)"
    unfolding uint_sub.on_values [OF k] x_def y_def using write_uint_or_exact(2) only_cell_write_or(2) by blast
  show "\<exists>s'. cel_uint_mul_at_vv out a b s = Some s' \<and> only_cell ?o s s' \<and> uint_or_overflow (cv s' out) (x * y)"
    unfolding uint_mul.on_values [OF k] x_def y_def using write_uint_or_exact(3) only_cell_write_or(2) by blast
  show "\<exists>s'. cel_uint_div_at_vv out a b s = Some s' \<and> only_cell ?o s s'
      \<and> (if y = 0 then is_err (cv s' out) CEL_ERR_DIVIDE_BY_ZERO else is_uint (cv s' out) (x div y))"
    using is_uint_write [of ?o "?p div ?q" s] unfolding uint_div.on_values [OF k] z x_def [symmetric] y_def [symmetric]
    by (auto simp: is_err_poison uint_div x_def y_def)
  show "\<exists>s'. cel_uint_mod_at_vv out a b s = Some s' \<and> only_cell ?o s s'
      \<and> (if y = 0 then is_err (cv s' out) CEL_ERR_MODULUS_BY_ZERO else is_uint (cv s' out) (x mod y))"
    using is_uint_write [of ?o "?p mod ?q" s] unfolding uint_mod.on_values [OF k] z x_def [symmetric] y_def [symmetric]
    by (auto simp: is_err_poison uint_mod x_def y_def)
qed

theorem uint_arith_exact_witness:
  "\<exists>s'. cel_uint_sub_at_vv 192 128 160 (two_cells (cell_of CEL_UINT 1) (cell_of CEL_UINT 2)) = Some s' \<and> is_err (cv s' 192) CEL_ERR_OVERFLOW"
  using uint_arith_exact [of "two_cells (cell_of CEL_UINT 1) (cell_of CEL_UINT 2)" 128 160 192]
  by (auto simp: pl_defs uint_or_overflow_def)

text \<open>The binary arithmetic kernels with the operand kind each requires.\<close>

definition arith_kernels :: "(u32 \<times> (u32 \<Rightarrow> u32 \<Rightarrow> u32 \<Rightarrow> rt \<Rightarrow> rt option)) list" where
  "arith_kernels =
     [(CEL_INT, cel_int_add_at_vv), (CEL_INT, cel_int_sub_at_vv), (CEL_INT, cel_int_mul_at_vv),
      (CEL_INT, cel_int_div_at_vv), (CEL_INT, cel_int_mod_at_vv),
      (CEL_UINT, cel_uint_add_at_vv), (CEL_UINT, cel_uint_sub_at_vv), (CEL_UINT, cel_uint_mul_at_vv),
      (CEL_UINT, cel_uint_div_at_vv), (CEL_UINT, cel_uint_mod_at_vv),
      (CEL_DOUBLE, cel_double_add_at_vv), (CEL_DOUBLE, cel_double_sub_at_vv),
      (CEL_DOUBLE, cel_double_mul_at_vv), (CEL_DOUBLE, cel_double_div_at_vv)]"

text \<open>
  Every binary arithmetic kernel is total and strict: an error or unknown operand decides
  the result by the strict rule, operands of another kind give a type error, and two operands of
  the kernel's kind give a value of that kind or an error. No kept byte but the out slot changes.
\<close>

theorem arith_kernels_strict:
  assumes "(want, kern) \<in> set arith_kernels" and ok: "operands_ok s out a b"
  shows "\<exists>s'. kern out a b s = Some s' \<and> keeps (cel_value_at out) s s'
     \<and> (case tv_strict (tv_at s a) (tv_at s b) of
          Some r \<Rightarrow> outcome s out a b r s'
        | None \<Rightarrow>
            if cv_kind (cv s a) = want \<and> cv_kind (cv s b) = want
            then cv_kind (cv s' out) \<in> {want, CEL_ERROR}
            else is_err (cv s' out) CEL_ERR_TYPE_MISMATCH)"
  using assms(1) int_add.strict [OF ok] int_sub.strict [OF ok] int_mul.strict [OF ok] int_div.strict [OF ok]
    int_mod.strict [OF ok] uint_add.strict [OF ok] uint_sub.strict [OF ok] uint_mul.strict [OF ok]
    uint_div.strict [OF ok] uint_mod.strict [OF ok] double_add.strict [OF ok] double_sub.strict [OF ok]
    double_mul.strict [OF ok] double_div.strict [OF ok]
  unfolding arith_kernels_def list.set by (elim insertE emptyE) (simp_all only: prod.inject)

theorem arith_kernels_strict_witness:
  "\<exists>s'. cel_double_add_at_vv 256 160 192 sample_unknowns = Some s' \<and> tv_at s' 256 = VErr 17"
  using arith_kernels_strict [of CEL_DOUBLE cel_double_add_at_vv, OF _ sample_unknowns_ok [of 160 192]]
  by (auto simp: arith_kernels_def outcome_def sample_unknowns_cells sample_unknowns_tv [unfolded sample_unknowns_cells])

end
