(* ===== verification/Compare.thy ===== *)
theory Compare
  imports Arith
begin

text \<open>
  The comparison kernels of \<open>runtime/cel_compare.c\<close>: the same-kind relational operators, the
  cross-type numeric ladder (which rounds an integer to a double before comparing it with one)
  and the lossless numeric equality used for map keys (which does not).
\<close>

type_synonym kernel2 = "u32 \<Rightarrow> u32 \<Rightarrow> u32 \<Rightarrow> rt \<Rightarrow> rt option"

subsection \<open>Same-kind comparisons\<close>

text \<open>The expansion of \<open>DEFINE_CMP_VV\<close>: the strict prologue, then one comparison of payloads.\<close>

definition cmp_vv :: "u32 \<Rightarrow> (cel_value \<Rightarrow> cel_value \<Rightarrow> bool) \<Rightarrow> kernel2" where
  "cmp_vv kind rel = strict_vv kind (\<lambda>out a b. write_bool out (rel a b))"

definition cel_int_lt_at_vv :: kernel2 where
  "cel_int_lt_at_vv = cmp_vv CEL_INT (\<lambda>a b. sint (pl_i a) < sint (pl_i b))"
definition cel_int_le_at_vv :: kernel2 where
  "cel_int_le_at_vv = cmp_vv CEL_INT (\<lambda>a b. sint (pl_i a) \<le> sint (pl_i b))"
definition cel_int_gt_at_vv :: kernel2 where
  "cel_int_gt_at_vv = cmp_vv CEL_INT (\<lambda>a b. sint (pl_i a) > sint (pl_i b))"
definition cel_int_ge_at_vv :: kernel2 where
  "cel_int_ge_at_vv = cmp_vv CEL_INT (\<lambda>a b. sint (pl_i a) \<ge> sint (pl_i b))"

definition cel_uint_lt_at_vv :: kernel2 where
  "cel_uint_lt_at_vv = cmp_vv CEL_UINT (\<lambda>a b. pl_u a < pl_u b)"
definition cel_uint_le_at_vv :: kernel2 where
  "cel_uint_le_at_vv = cmp_vv CEL_UINT (\<lambda>a b. pl_u a \<le> pl_u b)"
definition cel_uint_gt_at_vv :: kernel2 where
  "cel_uint_gt_at_vv = cmp_vv CEL_UINT (\<lambda>a b. pl_u a > pl_u b)"
definition cel_uint_ge_at_vv :: kernel2 where
  "cel_uint_ge_at_vv = cmp_vv CEL_UINT (\<lambda>a b. pl_u a \<ge> pl_u b)"

definition cel_double_lt_at_vv :: kernel2 where
  "cel_double_lt_at_vv = cmp_vv CEL_DOUBLE (\<lambda>a b. d_lt (pl_d a) (pl_d b))"
definition cel_double_le_at_vv :: kernel2 where
  "cel_double_le_at_vv = cmp_vv CEL_DOUBLE (\<lambda>a b. d_le (pl_d a) (pl_d b))"
definition cel_double_gt_at_vv :: kernel2 where
  "cel_double_gt_at_vv = cmp_vv CEL_DOUBLE (\<lambda>a b. d_lt (pl_d b) (pl_d a))"
definition cel_double_ge_at_vv :: kernel2 where
  "cel_double_ge_at_vv = cmp_vv CEL_DOUBLE (\<lambda>a b. d_le (pl_d b) (pl_d a))"

definition cel_bool_eq_at_vv :: kernel2 where
  "cel_bool_eq_at_vv = cmp_vv CEL_BOOL (\<lambda>a b. pl_b a = pl_b b)"
definition cel_bool_lt_at_vv :: kernel2 where
  "cel_bool_lt_at_vv = cmp_vv CEL_BOOL (\<lambda>a b. sint (pl_b a) < sint (pl_b b))"
definition cel_bool_le_at_vv :: kernel2 where
  "cel_bool_le_at_vv = cmp_vv CEL_BOOL (\<lambda>a b. sint (pl_b a) \<le> sint (pl_b b))"
definition cel_bool_gt_at_vv :: kernel2 where
  "cel_bool_gt_at_vv = cmp_vv CEL_BOOL (\<lambda>a b. sint (pl_b a) > sint (pl_b b))"
definition cel_bool_ge_at_vv :: kernel2 where
  "cel_bool_ge_at_vv = cmp_vv CEL_BOOL (\<lambda>a b. sint (pl_b a) \<ge> sint (pl_b b))"

definition cel_null_eq_at_vv :: kernel2 where
  "cel_null_eq_at_vv = strict_vv CEL_NULL (\<lambda>out a b. write_bool out True)"

subsection \<open>The cross-type numeric ladder\<close>

datatype cmp_result = CmpLess | CmpEqual | CmpGreater | CmpNanInequal

definition cmp_i64 :: "u64 \<Rightarrow> u64 \<Rightarrow> cmp_result" where
  "cmp_i64 a b = (if sint a < sint b then CmpLess else if sint a > sint b then CmpGreater else CmpEqual)"

definition cmp_u64 :: "u64 \<Rightarrow> u64 \<Rightarrow> cmp_result" where
  "cmp_u64 a b = (if a < b then CmpLess else if a > b then CmpGreater else CmpEqual)"

definition cmp_double :: "u64 \<Rightarrow> u64 \<Rightarrow> cmp_result" where
  "cmp_double a b =
     (if \<not> d_eq a a \<or> \<not> d_eq b b then CmpNanInequal
      else if d_lt a b then CmpLess else if d_lt b a then CmpGreater else CmpEqual)"

definition cmp_int_vs_uint :: "u64 \<Rightarrow> u64 \<Rightarrow> cmp_result" where
  "cmp_int_vs_uint a b = (if sint a < 0 then CmpLess else cmp_u64 a b)"

definition cmp_int_vs_double :: "u64 \<Rightarrow> u64 \<Rightarrow> cmp_result" where
  "cmp_int_vs_double a b =
     (if \<not> d_eq b b then CmpNanInequal
      else if d_lt (d_of_int INT64_MAX) b then CmpLess
      else if d_lt b (d_of_int INT64_MIN) then CmpGreater
      else cmp_double (d_of_int (sint a)) b)"

definition cmp_uint_vs_double :: "u64 \<Rightarrow> u64 \<Rightarrow> cmp_result" where
  "cmp_uint_vs_double a b =
     (if \<not> d_eq b b then CmpNanInequal
      else if d_lt (d_of_int UINT64_MAX) b then CmpLess
      else if d_lt b (d_of_int 0) then CmpGreater
      else cmp_double (d_of_int (uint a)) b)"

definition cmp_flip :: "cmp_result \<Rightarrow> cmp_result" where
  "cmp_flip r = (if r = CmpLess then CmpGreater else if r = CmpGreater then CmpLess else r)"

definition numeric_kind_pair :: "u32 \<Rightarrow> u32 \<Rightarrow> u32" where
  "numeric_kind_pair a_kind b_kind = push_bit 8 a_kind OR b_kind"

definition numeric_compare_kernel :: "cel_value \<Rightarrow> cel_value \<Rightarrow> cmp_result" where
  "numeric_compare_kernel a b =
     (let p = numeric_kind_pair (cv_kind a) (cv_kind b) in
      if p = numeric_kind_pair CEL_INT CEL_INT then cmp_i64 (pl_i a) (pl_i b)
      else if p = numeric_kind_pair CEL_UINT CEL_UINT then cmp_u64 (pl_u a) (pl_u b)
      else if p = numeric_kind_pair CEL_DOUBLE CEL_DOUBLE then cmp_double (pl_d a) (pl_d b)
      else if p = numeric_kind_pair CEL_INT CEL_UINT then cmp_int_vs_uint (pl_i a) (pl_u b)
      else if p = numeric_kind_pair CEL_UINT CEL_INT then cmp_flip (cmp_int_vs_uint (pl_i b) (pl_u a))
      else if p = numeric_kind_pair CEL_INT CEL_DOUBLE then cmp_int_vs_double (pl_i a) (pl_d b)
      else if p = numeric_kind_pair CEL_DOUBLE CEL_INT then cmp_flip (cmp_int_vs_double (pl_i b) (pl_d a))
      else if p = numeric_kind_pair CEL_UINT CEL_DOUBLE then cmp_uint_vs_double (pl_u a) (pl_d b)
      else if p = numeric_kind_pair CEL_DOUBLE CEL_UINT then cmp_flip (cmp_uint_vs_double (pl_u b) (pl_d a))
      else CmpNanInequal)"

definition is_numeric_kind :: "u32 \<Rightarrow> bool" where
  "is_numeric_kind kind \<longleftrightarrow> kind = CEL_INT \<or> kind = CEL_UINT \<or> kind = CEL_DOUBLE"

definition numeric_prelude :: "nat \<Rightarrow> nat \<Rightarrow> nat \<Rightarrow> rt \<Rightarrow> (bool \<times> rt) option" where
  "numeric_prelude out a b s = do {
     (wrote, s) \<leftarrow> absorb_3vl_binary out a b s;
     if wrote then Some (True, s)
     else if \<not> is_numeric_kind (cv_kind (load_cv (mem s) a)) \<or> \<not> is_numeric_kind (cv_kind (load_cv (mem s) b))
     then Some (True, poison out CEL_ERR_TYPE_MISMATCH s)
     else Some (False, s)
   }"

text \<open>The five numeric wrappers differ in the outcomes they accept.\<close>

definition numeric_vv :: "(cmp_result \<Rightarrow> bool) \<Rightarrow> kernel2" where
  "numeric_vv accept out_slot a_slot b_slot s =
     (let out = cel_value_at out_slot; a = cel_value_at a_slot; b = cel_value_at b_slot in do {
        (wrote, s) \<leftarrow> numeric_prelude out a b s;
        if wrote then Some s
        else Some (write_bool out (accept (numeric_compare_kernel (load_cv (mem s) a) (load_cv (mem s) b))) s)
      })"

definition cel_numeric_eq_at_vv :: kernel2 where
  "cel_numeric_eq_at_vv = numeric_vv (\<lambda>r. r = CmpEqual)"
definition cel_numeric_lt_at_vv :: kernel2 where
  "cel_numeric_lt_at_vv = numeric_vv (\<lambda>r. r = CmpLess)"
definition cel_numeric_le_at_vv :: kernel2 where
  "cel_numeric_le_at_vv = numeric_vv (\<lambda>r. r = CmpLess \<or> r = CmpEqual)"
definition cel_numeric_gt_at_vv :: kernel2 where
  "cel_numeric_gt_at_vv = numeric_vv (\<lambda>r. r = CmpGreater)"
definition cel_numeric_ge_at_vv :: kernel2 where
  "cel_numeric_ge_at_vv = numeric_vv (\<lambda>r. r = CmpGreater \<or> r = CmpEqual)"

subsection \<open>Lossless map-key equality\<close>

definition kDoubleToIntMin :: u64 where "kDoubleToIntMin = d_of_int INT64_MIN"
definition kMaxDoubleAsInt :: u64 where "kMaxDoubleAsInt = d_of_int (INT64_MAX - 512)"
definition kMaxDoubleAsUint :: u64 where "kMaxDoubleAsUint = d_of_int (UINT64_MAX - 1024)"

definition double_as_int :: "u64 \<Rightarrow> u64 option" where
  "double_as_int d =
     (if \<not> d_le kDoubleToIntMin d \<or> \<not> d_le d kMaxDoubleAsInt then None
      else (let i = word_of_int (d_trunc d) :: u64 in
        if \<not> d_eq (d_of_int (sint i)) d then None else Some i))"

definition double_as_uint :: "u64 \<Rightarrow> u64 option" where
  "double_as_uint d =
     (if \<not> d_le (d_of_int 0) d \<or> \<not> d_le d kMaxDoubleAsUint then None
      else (let u = word_of_int (d_trunc d) :: u64 in
        if \<not> d_eq (d_of_int (uint u)) d then None else Some u))"

definition double_matches_integer :: "u64 \<Rightarrow> cel_value \<Rightarrow> bool" where
  "double_matches_integer d i =
     (if cv_kind i = CEL_INT then double_as_int d = Some (pl_i i) else double_as_uint d = Some (pl_u i))"

definition cel_numeric_key_eq :: "cel_value \<Rightarrow> cel_value \<Rightarrow> bool" where
  "cel_numeric_key_eq a b =
     (if \<not> is_numeric_kind (cv_kind a) \<or> \<not> is_numeric_kind (cv_kind b) then False
      else if cv_kind a = CEL_DOUBLE \<and> cv_kind b = CEL_DOUBLE then d_eq (pl_d a) (pl_d b)
      else if cv_kind a = CEL_DOUBLE then double_matches_integer (pl_d a) b
      else if cv_kind b = CEL_DOUBLE then double_matches_integer (pl_d b) a
      else numeric_compare_kernel a b = CmpEqual)"


subsection \<open>Numbers on one line\<close>

text \<open>
  The mathematical value of a numeric cell, exactly, in units of \<open>2^-1074\<close>; an infinity is a
  number beyond every finite one, and a NaN has none.
\<close>

definition num_ok :: "cel_value \<Rightarrow> bool" where
  "num_ok v \<longleftrightarrow> is_numeric_kind (cv_kind v) \<and> (cv_kind v = CEL_DOUBLE \<longrightarrow> \<not> d_isnan (pl_d v))"

definition num_val :: "cel_value \<Rightarrow> int" where
  "num_val v =
     (if cv_kind v = CEL_INT then sint (pl_i v) * int d_unit
      else if cv_kind v = CEL_UINT then uint (pl_u v) * int d_unit
      else d_val (pl_d v))"

lemma unit_less_iff: "x * int d_unit < y * int d_unit \<longleftrightarrow> x < y"
  by (simp add: d_unit_def)

lemma unit_le_iff: "x * int d_unit \<le> y * int d_unit \<longleftrightarrow> x \<le> y"
  by (simp add: d_unit_def)

lemma unit_eq_iff: "x * int d_unit = y * int d_unit \<longleftrightarrow> x = y"
  by (simp add: d_unit_def)

lemma d_eq_refl: "d_eq b b \<longleftrightarrow> \<not> d_isnan b"
  by (simp add: d_eq_def)

lemma cmp_double_cases:
  "cmp_double a b =
     (if d_isnan a \<or> d_isnan b then CmpNanInequal else if d_val a < d_val b then CmpLess
      else if d_val b < d_val a then CmpGreater else CmpEqual)"
  by (auto simp: cmp_double_def d_eq_refl d_lt_def)

text \<open>
  One statement for the two mixed ladders: comparing an integer (between the guards) with a
  double never contradicts the exact order, and finds an exact equality.
\<close>

definition sound_order :: "cmp_result \<Rightarrow> int \<Rightarrow> int \<Rightarrow> bool" where
  "sound_order r x y \<longleftrightarrow> r \<noteq> CmpNanInequal \<and> (r = CmpLess \<longrightarrow> x < y) \<and> (r = CmpGreater \<longrightarrow> y < x) \<and> (x = y \<longrightarrow> r = CmpEqual)"

lemma sound_order_exact: "r = (if x < y then CmpLess else if y < x then CmpGreater else CmpEqual) \<Longrightarrow> sound_order r x y"
  by (auto simp: sound_order_def)

lemma sound_order_flip: "sound_order (cmp_flip r) y x = sound_order r x y"
  by (cases r) (auto simp: sound_order_def cmp_flip_def)

lemma sound_order_between:
  assumes "C < V \<Longrightarrow> I < V" "V < C \<Longrightarrow> V < I" "lo \<le> I" "I \<le> hi" "hi \<le> hi'"
  shows "sound_order (if hi' < V then CmpLess else if V < lo then CmpGreater
     else if C < V then CmpLess else if V < C then CmpGreater else CmpEqual) I V"
  using assms by (auto simp: sound_order_def)

lemma mixed_sound:
  assumes b: "\<not> d_isnan b" and lo: "lo \<le> i" and hi: "i \<le> hi"
    and vlo: "d_val (d_of_int lo) = lo * int d_unit" and vhi: "hi * int d_unit \<le> d_val (d_of_int hi)"
  shows "sound_order (if d_lt (d_of_int hi) b then CmpLess else if d_lt b (d_of_int lo) then CmpGreater
     else cmp_double (d_of_int i) b) (i * int d_unit) (d_val b)"
proof -
  have r: "d_val (d_of_int i) < d_val b \<Longrightarrow> i * int d_unit < d_val b"
    "d_val b < d_val (d_of_int i) \<Longrightarrow> d_val b < i * int d_unit"
    using d_of_int_ge [OF b] d_of_int_le [OF b] by (meson not_le)+
  have l: "lo * int d_unit \<le> i * int d_unit" "i * int d_unit \<le> hi * int d_unit" using lo hi by (simp_all add: unit_le_iff)
  show ?thesis using sound_order_between [OF r l vhi] b d_of_int_not_nan
    by (simp only: d_lt_def cmp_double_cases vlo simp_thms if_True if_False)
qed

lemma cmp_int_vs_uint_exact:
  "cmp_int_vs_uint a b = (if sint a < uint b then CmpLess else if uint b < sint a then CmpGreater else CmpEqual)"
proof (cases "sint a < 0")
  case False
  then have "sint a = uint a" using sint_cases64 [of a] uint_range64 [of a] by (auto split: if_splits)
  then show ?thesis using False by (simp add: cmp_int_vs_uint_def cmp_u64_def word_less_def)
next
  case True
  then have "sint a < uint b" using uint_range64(1) [of b] by linarith
  then show ?thesis using True by (simp add: cmp_int_vs_uint_def)
qed

lemma cmp_int_vs_double_sound:
  assumes "\<not> d_isnan b"
  shows "sound_order (cmp_int_vs_double a b) (sint a * int d_unit) (d_val b)"
proof -
  have "sound_order (if d_lt (d_of_int INT64_MAX) b then CmpLess else if d_lt b (d_of_int INT64_MIN) then CmpGreater
     else cmp_double (d_of_int (sint a)) b) (sint a * int d_unit) (d_val b)"
    by (rule mixed_sound [OF assms sint_range64])
      (simp_all only: limit_vals, simp_all add: unit_le_iff)
  then show ?thesis using assms by (simp only: cmp_int_vs_double_def d_eq_refl) simp
qed

lemma cmp_uint_vs_double_sound:
  assumes "\<not> d_isnan b"
  shows "sound_order (cmp_uint_vs_double a b) (uint a * int d_unit) (d_val b)"
proof -
  have "sound_order (if d_lt (d_of_int UINT64_MAX) b then CmpLess else if d_lt b (d_of_int 0) then CmpGreater
     else cmp_double (d_of_int (uint a)) b) (uint a * int d_unit) (d_val b)"
    by (rule mixed_sound [OF assms uint_range64])
      (simp_all only: limit_vals, simp_all add: unit_le_iff)
  then show ?thesis using assms by (simp only: cmp_uint_vs_double_def d_eq_refl) simp
qed

text \<open>The dispatch on the packed kinds picks the arm of the two numeric kinds.\<close>

lemma kernel_arms:
  "cv_kind a = CEL_INT \<Longrightarrow> cv_kind b = CEL_INT \<Longrightarrow> numeric_compare_kernel a b = cmp_i64 (pl_i a) (pl_i b)"
  "cv_kind a = CEL_UINT \<Longrightarrow> cv_kind b = CEL_UINT \<Longrightarrow> numeric_compare_kernel a b = cmp_u64 (pl_u a) (pl_u b)"
  "cv_kind a = CEL_DOUBLE \<Longrightarrow> cv_kind b = CEL_DOUBLE \<Longrightarrow> numeric_compare_kernel a b = cmp_double (pl_d a) (pl_d b)"
  "cv_kind a = CEL_INT \<Longrightarrow> cv_kind b = CEL_UINT \<Longrightarrow> numeric_compare_kernel a b = cmp_int_vs_uint (pl_i a) (pl_u b)"
  "cv_kind a = CEL_UINT \<Longrightarrow> cv_kind b = CEL_INT \<Longrightarrow> numeric_compare_kernel a b = cmp_flip (cmp_int_vs_uint (pl_i b) (pl_u a))"
  "cv_kind a = CEL_INT \<Longrightarrow> cv_kind b = CEL_DOUBLE \<Longrightarrow> numeric_compare_kernel a b = cmp_int_vs_double (pl_i a) (pl_d b)"
  "cv_kind a = CEL_DOUBLE \<Longrightarrow> cv_kind b = CEL_INT \<Longrightarrow> numeric_compare_kernel a b = cmp_flip (cmp_int_vs_double (pl_i b) (pl_d a))"
  "cv_kind a = CEL_UINT \<Longrightarrow> cv_kind b = CEL_DOUBLE \<Longrightarrow> numeric_compare_kernel a b = cmp_uint_vs_double (pl_u a) (pl_d b)"
  "cv_kind a = CEL_DOUBLE \<Longrightarrow> cv_kind b = CEL_UINT \<Longrightarrow> numeric_compare_kernel a b = cmp_flip (cmp_uint_vs_double (pl_u b) (pl_d a))"
  unfolding numeric_compare_kernel_def numeric_kind_pair_def Let_def by simp_all

lemma numeric_compare_sound:
  assumes "num_ok a" "num_ok b"
  shows "sound_order (numeric_compare_kernel a b) (num_val a) (num_val b)"
proof -
  have ka: "cv_kind a \<in> {CEL_INT, CEL_UINT, CEL_DOUBLE}" and kb: "cv_kind b \<in> {CEL_INT, CEL_UINT, CEL_DOUBLE}"
    using assms by (simp_all add: num_ok_def is_numeric_kind_def)
  have nn: "cv_kind a = CEL_DOUBLE \<Longrightarrow> \<not> d_isnan (pl_d a)" "cv_kind b = CEL_DOUBLE \<Longrightarrow> \<not> d_isnan (pl_d b)"
    using assms by (simp_all add: num_ok_def)
  show ?thesis
    using ka kb by (elim insertE emptyE)
      (simp_all add: kernel_arms num_val_def sound_order_flip cmp_int_vs_double_sound cmp_uint_vs_double_sound nn,
       auto intro!: sound_order_exact simp: cmp_i64_def cmp_u64_def cmp_double_cases cmp_int_vs_uint_exact
         unit_less_iff word_less_def nn)
qed

text \<open>
  What the ladder decides exactly: two integers, or two doubles, by their values; an integer against
  a double after the cast, that is by the double nearest to it.
\<close>

definition order_of :: "int \<Rightarrow> int \<Rightarrow> cmp_result" where
  "order_of x y = (if x < y then CmpLess else if y < x then CmpGreater else CmpEqual)"

definition ladder_val :: "cel_value \<Rightarrow> cel_value \<Rightarrow> int" where
  "ladder_val v other =
     (if cv_kind v = CEL_INT \<and> cv_kind other = CEL_DOUBLE then d_val (d_of_int (sint (pl_i v)))
      else if cv_kind v = CEL_UINT \<and> cv_kind other = CEL_DOUBLE then d_val (d_of_int (uint (pl_u v)))
      else num_val v)"

lemma order_of_flip: "cmp_flip (order_of x y) = order_of y x"
  by (simp add: order_of_def cmp_flip_def)

lemma order_of_units: "order_of (x * int d_unit) (y * int d_unit) = order_of x y"
  by (simp add: order_of_def unit_less_iff)

lemma mixed_exact:
  assumes b: "\<not> d_isnan b" and lo: "lo \<le> i" and hi: "i \<le> hi"
    and vlo: "d_val (d_of_int lo) = lo * int d_unit" and vhi: "hi * int d_unit \<le> d_val (d_of_int hi)"
  shows "(if d_lt (d_of_int hi) b then CmpLess else if d_lt b (d_of_int lo) then CmpGreater
     else cmp_double (d_of_int i) b) = order_of (d_val (d_of_int i)) (d_val b)"
proof -
  have l: "lo * int d_unit \<le> i * int d_unit" "i * int d_unit \<le> hi * int d_unit" using lo hi by (simp_all add: unit_le_iff)
  have "d_val (d_of_int lo) \<le> d_val (d_of_int i)" using d_of_int_ge [OF d_of_int_not_nan, of lo i] l(1) vlo by linarith
  moreover have "d_val (d_of_int i) \<le> d_val (d_of_int hi)" using d_of_int_le [OF d_of_int_not_nan, of i hi] l(2) vhi by linarith
  ultimately show ?thesis using b d_of_int_not_nan by (auto simp: order_of_def d_lt_def cmp_double_cases)
qed

lemma cmp_mixed_exact:
  assumes "\<not> d_isnan b"
  shows "cmp_int_vs_double i b = order_of (d_val (d_of_int (sint i))) (d_val b)"
    and "cmp_uint_vs_double u b = order_of (d_val (d_of_int (uint u))) (d_val b)"
proof -
  have "(if d_lt (d_of_int INT64_MAX) b then CmpLess else if d_lt b (d_of_int INT64_MIN) then CmpGreater
     else cmp_double (d_of_int (sint i)) b) = order_of (d_val (d_of_int (sint i))) (d_val b)"
    by (rule mixed_exact [OF assms sint_range64]) (simp_all only: limit_vals, simp_all add: unit_le_iff)
  then show "cmp_int_vs_double i b = order_of (d_val (d_of_int (sint i))) (d_val b)"
    using assms by (simp only: cmp_int_vs_double_def d_eq_refl) simp
  have "(if d_lt (d_of_int UINT64_MAX) b then CmpLess else if d_lt b (d_of_int 0) then CmpGreater
     else cmp_double (d_of_int (uint u)) b) = order_of (d_val (d_of_int (uint u))) (d_val b)"
    by (rule mixed_exact [OF assms uint_range64]) (simp_all only: limit_vals, simp_all add: unit_le_iff)
  then show "cmp_uint_vs_double u b = order_of (d_val (d_of_int (uint u))) (d_val b)"
    using assms by (simp only: cmp_uint_vs_double_def d_eq_refl) simp
qed

lemma numeric_compare_exact:
  assumes "num_ok a" "num_ok b"
  shows "numeric_compare_kernel a b = order_of (ladder_val a b) (ladder_val b a)"
proof -
  have ka: "cv_kind a \<in> {CEL_INT, CEL_UINT, CEL_DOUBLE}" and kb: "cv_kind b \<in> {CEL_INT, CEL_UINT, CEL_DOUBLE}"
    using assms by (simp_all add: num_ok_def is_numeric_kind_def)
  have nn: "cv_kind a = CEL_DOUBLE \<Longrightarrow> \<not> d_isnan (pl_d a)" "cv_kind b = CEL_DOUBLE \<Longrightarrow> \<not> d_isnan (pl_d b)"
    using assms by (simp_all add: num_ok_def)
  have ints: "cmp_i64 x y = order_of (sint x) (sint y)" "cmp_u64 x y = order_of (uint x) (uint y)"
    "cmp_int_vs_uint x y = order_of (sint x) (uint y)" for x y
    by (simp_all add: cmp_i64_def cmp_u64_def cmp_int_vs_uint_exact order_of_def word_less_def)
  have dbl: "\<not> d_isnan x \<Longrightarrow> \<not> d_isnan y \<Longrightarrow> cmp_double x y = order_of (d_val x) (d_val y)" for x y
    by (simp add: cmp_double_cases order_of_def)
  show ?thesis
    using ka kb by (elim insertE emptyE)
      (simp_all add: kernel_arms ladder_val_def num_val_def order_of_flip order_of_units ints dbl cmp_mixed_exact nn)
qed

lemma ladder_val_small:
  assumes "num_ok v" "cv_kind v \<noteq> CEL_DOUBLE \<Longrightarrow> \<bar>num_val v\<bar> < 2 ^ 53 * int d_unit"
  shows "ladder_val v w = num_val v"
proof -
  have "\<bar>x * int d_unit\<bar> < 2 ^ 53 * int d_unit \<Longrightarrow> \<bar>x\<bar> < 2 ^ 53" for x
    by (simp add: d_unit_def abs_mult)
  then show ?thesis using assms by (auto simp: ladder_val_def num_val_def d_val_of_small_int)
qed


subsection \<open>Lossless conversions\<close>

lemma d_trunc_bounds:
  assumes "d_val d = t * int d_unit"
  shows "d_trunc d = t"
proof -
  have "int d_unit dvd int (d_mag d)"
  proof (cases "d_neg_sign d")
    case True
    then have "int (d_mag d) = - t * int d_unit" using assms by (simp add: d_val_def)
    then show ?thesis by simp
  qed (use assms in \<open>simp add: d_val_def\<close>)
  then have "d_unit dvd d_mag d" by (simp only: of_nat_dvd_iff)
  then show ?thesis using d_val_trunc [of d] assms unit_eq_iff by metis
qed

lemma trunc_between:
  assumes "lo * int d_unit \<le> d_val d" "d_val d < hi * int d_unit" "lo \<le> 0" "0 < hi"
  shows "lo \<le> d_trunc d" "d_trunc d < hi"
proof -
  let ?q = "d_mag d div d_unit"
  have q: "int ?q * int d_unit \<le> int (d_mag d)"
    unfolding of_nat_mult [symmetric] of_nat_le_iff by (rule div_times_less_eq_dividend)
  have "lo \<le> d_trunc d \<and> d_trunc d < hi"
  proof (cases "d_neg_sign d")
    case True
    then have "d_val d = - int (d_mag d)" by (simp add: d_val_def)
    then have "int ?q * int d_unit \<le> - lo * int d_unit" using q assms(1) by simp
    then have "int ?q \<le> - lo" by (simp only: unit_le_iff)
    then show ?thesis using True assms(4) by (simp add: d_trunc_def)
  next
    case False
    then have "d_val d = int (d_mag d)" by (simp add: d_val_def)
    then have "int ?q * int d_unit < hi * int d_unit" using q assms(2) by linarith
    then have "int ?q < hi" by (simp only: unit_less_iff)
    then show ?thesis using False assms(3) by (simp add: d_trunc_def)
  qed
  then show "lo \<le> d_trunc d" "d_trunc d < hi" by simp_all
qed

lemma double_as_int_iff:
  "double_as_int d = Some i \<longleftrightarrow> \<not> d_isnan d \<and> d_val d = sint i * int d_unit"
proof (cases "d_isnan d \<or> d_val d < - (2 ^ 63) * int d_unit \<or> 2 ^ 63 * int d_unit \<le> d_val d")
  case True
  then have "double_as_int d = None"
    by (auto simp: double_as_int_def kDoubleToIntMin_def kMaxDoubleAsInt_def d_le_limit [simplified])
      (auto simp: d_le_def limit_vals [simplified])
  moreover have "\<not> (\<not> d_isnan d \<and> d_val d = sint i * int d_unit)"
  proof (cases "d_isnan d")
    case False
    have "- (2 ^ 63) * int d_unit \<le> sint i * int d_unit" "sint i * int d_unit < 2 ^ 63 * int d_unit"
      unfolding unit_le_iff unit_less_iff using sint_range64 [of i] by linarith+
    then show ?thesis using True False by (metis mult_zero_left not_le)
  qed simp
  ultimately show ?thesis by auto
next
  case False
  then have nn: "\<not> d_isnan d" and r: "- (2 ^ 63) * int d_unit \<le> d_val d" "d_val d < 2 ^ 63 * int d_unit" by auto
  note t = trunc_between [OF r]
  have "\<bar>d_val d\<bar> \<le> 2 ^ 64 * int d_unit" using r of_nat_0_le_iff [of d_unit] by (simp add: abs_le_iff)
  then have fin: "d_code d < INF_CODE" by (rule finite_if_bounded [OF nn])
  have w: "sint (word_of_int (d_trunc d) :: u64) = d_trunc d" by (rule sint_word_of_int64) (use t in simp_all)
  have "d_le kDoubleToIntMin d" "d_le d kMaxDoubleAsInt"
    using nn r by (simp_all add: kDoubleToIntMin_def kMaxDoubleAsInt_def d_le_limit [simplified] d_le_def [of "d_of_int _" d] d_of_int_not_nan limit_vals [simplified])
  then have "double_as_int d = Some i \<longleftrightarrow> d_val d = d_trunc d * int d_unit \<and> i = word_of_int (d_trunc d)"
    by (auto simp: double_as_int_def Let_def w cast_roundtrip [OF fin])
  also have "\<dots> \<longleftrightarrow> d_val d = sint i * int d_unit"
    using d_trunc_bounds [of d "sint i"] w by auto
  finally show ?thesis using nn by simp
qed

lemma double_as_uint_iff:
  "double_as_uint d = Some i \<longleftrightarrow> \<not> d_isnan d \<and> d_val d = uint i * int d_unit"
proof (cases "d_isnan d \<or> d_val d < 0 \<or> 2 ^ 64 * int d_unit \<le> d_val d")
  case True
  then have "double_as_uint d = None"
    by (auto simp: double_as_uint_def kMaxDoubleAsUint_def d_le_limit [simplified])
      (auto simp: d_le_def limit_vals [simplified])
  moreover have "\<not> (\<not> d_isnan d \<and> d_val d = uint i * int d_unit)"
  proof (cases "d_isnan d")
    case False
    have "0 * int d_unit \<le> uint i * int d_unit" "uint i * int d_unit < 2 ^ 64 * int d_unit"
      unfolding unit_le_iff unit_less_iff using uint_range64 [of i] by linarith+
    then show ?thesis using True False by (metis mult_zero_left not_le)
  qed simp
  ultimately show ?thesis by auto
next
  case False
  then have nn: "\<not> d_isnan d" and r: "0 * int d_unit \<le> d_val d" "d_val d < 2 ^ 64 * int d_unit" by auto
  note t = trunc_between [OF r]
  have "\<bar>d_val d\<bar> \<le> 2 ^ 64 * int d_unit" using r of_nat_0_le_iff [of d_unit] by (simp add: abs_le_iff)
  then have fin: "d_code d < INF_CODE" by (rule finite_if_bounded [OF nn])
  have w: "uint (word_of_int (d_trunc d) :: u64) = d_trunc d" by (rule uint_word_of_int64) (use t in simp_all)
  have "d_le (d_of_int 0) d" "d_le d kMaxDoubleAsUint"
    using nn r by (simp_all add: kMaxDoubleAsUint_def d_le_limit [simplified] d_le_def [of "d_of_int _" d] d_of_int_not_nan limit_vals)
  then have "double_as_uint d = Some i \<longleftrightarrow> d_val d = d_trunc d * int d_unit \<and> i = word_of_int (d_trunc d)"
    by (auto simp: double_as_uint_def Let_def w cast_roundtrip [OF fin])
  also have "\<dots> \<longleftrightarrow> d_val d = uint i * int d_unit"
    using d_trunc_bounds [of d "uint i"] w by auto
  finally show ?thesis using nn by simp
qed


lemma exact_equal_iff:
  "(if x < y then CmpLess else if y < x then CmpGreater else CmpEqual) = CmpEqual \<longleftrightarrow> x = (y :: int)"
  by auto

lemma cel_numeric_key_eq_iff:
  "cel_numeric_key_eq a b \<longleftrightarrow> num_ok a \<and> num_ok b \<and> num_val a = num_val b"
proof (cases "is_numeric_kind (cv_kind a) \<and> is_numeric_kind (cv_kind b)")
  case True
  then have ka: "cv_kind a \<in> {CEL_INT, CEL_UINT, CEL_DOUBLE}" and kb: "cv_kind b \<in> {CEL_INT, CEL_UINT, CEL_DOUBLE}"
    by (simp_all add: is_numeric_kind_def)
  have flip: "cmp_flip r = CmpEqual \<longleftrightarrow> r = CmpEqual" for r by (cases r) (simp_all add: cmp_flip_def)
  have ints: "numeric_compare_kernel a b = CmpEqual \<longleftrightarrow> num_val a = num_val b"
    if "cv_kind a \<noteq> CEL_DOUBLE" "cv_kind b \<noteq> CEL_DOUBLE"
    using ka kb that by (elim insertE emptyE)
      (simp_all add: kernel_arms num_val_def unit_eq_iff flip cmp_int_vs_uint_exact exact_equal_iff,
       auto simp: cmp_i64_def cmp_u64_def word_less_def)
  show ?thesis
    using ka kb ints by (elim insertE emptyE)
      (auto simp: cel_numeric_key_eq_def double_matches_integer_def double_as_int_iff double_as_uint_iff
        num_ok_def num_val_def is_numeric_kind_def d_eq_def)
qed (auto simp: cel_numeric_key_eq_def num_ok_def)

subsection \<open>Kernels\<close>

lemma numeric_vv_values:
  assumes "is_numeric_kind (cv_kind (cv s a))" "is_numeric_kind (cv_kind (cv s b))"
  shows "numeric_vv accept out a b s
    = Some (write_bool (cel_value_at out) (accept (numeric_compare_kernel (cv s a) (cv s b))) s)"
  using assms by (auto simp: numeric_vv_def numeric_prelude_def absorb_3vl_binary_def is_numeric_kind_def)

interpretation int_lt: strict_kernel cel_int_lt_at_vv CEL_INT CEL_BOOL
    "\<lambda>out a b. write_bool out (sint (pl_i a) < sint (pl_i b))"
  by unfold_locales (auto simp: cel_int_lt_at_vv_def cmp_vv_def)

interpretation uint_lt: strict_kernel cel_uint_lt_at_vv CEL_UINT CEL_BOOL "\<lambda>out a b. write_bool out (pl_u a < pl_u b)"
  by unfold_locales (auto simp: cel_uint_lt_at_vv_def cmp_vv_def)

interpretation double_lt: strict_kernel cel_double_lt_at_vv CEL_DOUBLE CEL_BOOL
    "\<lambda>out a b. write_bool out (d_lt (pl_d a) (pl_d b))"
  by unfold_locales (auto simp: cel_double_lt_at_vv_def cmp_vv_def)

interpretation null_eq: strict_kernel cel_null_eq_at_vv CEL_NULL CEL_BOOL "\<lambda>out a b. write_bool out True"
  by unfold_locales (auto simp: cel_null_eq_at_vv_def)

text \<open>Every same-kind comparison kernel, with its operand kind and the relation it decides.\<close>

definition compare_kernels :: "(u32 \<times> (cel_value \<Rightarrow> cel_value \<Rightarrow> bool) \<times> kernel2) list" where
  "compare_kernels =
     [(CEL_INT, \<lambda>a b. sint (pl_i a) < sint (pl_i b), cel_int_lt_at_vv),
      (CEL_INT, \<lambda>a b. sint (pl_i a) \<le> sint (pl_i b), cel_int_le_at_vv),
      (CEL_INT, \<lambda>a b. sint (pl_i b) < sint (pl_i a), cel_int_gt_at_vv),
      (CEL_INT, \<lambda>a b. sint (pl_i b) \<le> sint (pl_i a), cel_int_ge_at_vv),
      (CEL_UINT, \<lambda>a b. uint (pl_u a) < uint (pl_u b), cel_uint_lt_at_vv),
      (CEL_UINT, \<lambda>a b. uint (pl_u a) \<le> uint (pl_u b), cel_uint_le_at_vv),
      (CEL_UINT, \<lambda>a b. uint (pl_u b) < uint (pl_u a), cel_uint_gt_at_vv),
      (CEL_UINT, \<lambda>a b. uint (pl_u b) \<le> uint (pl_u a), cel_uint_ge_at_vv),
      (CEL_DOUBLE, \<lambda>a b. d_lt (pl_d a) (pl_d b), cel_double_lt_at_vv),
      (CEL_DOUBLE, \<lambda>a b. d_lt (pl_d a) (pl_d b) \<or> d_eq (pl_d a) (pl_d b), cel_double_le_at_vv),
      (CEL_DOUBLE, \<lambda>a b. d_lt (pl_d b) (pl_d a), cel_double_gt_at_vv),
      (CEL_DOUBLE, \<lambda>a b. d_lt (pl_d b) (pl_d a) \<or> d_eq (pl_d b) (pl_d a), cel_double_ge_at_vv),
      (CEL_BOOL, \<lambda>a b. pl_b a = pl_b b, cel_bool_eq_at_vv),
      (CEL_BOOL, \<lambda>a b. sint (pl_b a) < sint (pl_b b), cel_bool_lt_at_vv),
      (CEL_BOOL, \<lambda>a b. sint (pl_b a) \<le> sint (pl_b b), cel_bool_le_at_vv),
      (CEL_BOOL, \<lambda>a b. sint (pl_b b) < sint (pl_b a), cel_bool_gt_at_vv),
      (CEL_BOOL, \<lambda>a b. sint (pl_b b) \<le> sint (pl_b a), cel_bool_ge_at_vv),
      (CEL_NULL, \<lambda>a b. True, cel_null_eq_at_vv)]"

text \<open>What a strict kernel that only writes a bool does.\<close>

lemma bool_kernel_strict:
  assumes ok: "operands_ok s out a b" and k: "kind \<noteq> CEL_ERROR" "kind \<noteq> CEL_UNKNOWN"
  shows "\<exists>s'. strict_vv kind (\<lambda>out a b. write_bool out (rel a b)) out a b s = Some s' \<and> keeps (cel_value_at out) s s'
     \<and> (case tv_strict (tv_at s a) (tv_at s b) of
          Some r \<Rightarrow> outcome s out a b r s'
        | None \<Rightarrow> if cv_kind (cv s a) = kind \<and> cv_kind (cv s b) = kind
            then is_bool (cv s' out) (rel (cv s a) (cv s b))
            else is_err (cv s' out) CEL_ERR_TYPE_MISMATCH)"
proof (cases "tv_strict (tv_at s a) (tv_at s b) = None \<and> cv_kind (cv s a) = kind \<and> cv_kind (cv s b) = kind")
  case True
  have ok': "arena_ok s" using ok by (simp add: operands_ok_def)
  show ?thesis
    using True strict_vv_values [of s a kind b "\<lambda>out a b. write_bool out (rel a b)" out] k
      only_cell_keeps [OF only_cell_writers(5) ok', of "cel_value_at out"] is_bool_write
    by auto
next
  case False
  have sk: "strict_kernel (strict_vv kind (\<lambda>out a b. write_bool out (rel a b))) kind CEL_BOOL (\<lambda>out a b. write_bool out (rel a b))"
    by unfold_locales (use k in auto)
  show ?thesis using strict_kernel.strict [OF sk ok] False by (auto split: option.splits)
qed

subsection \<open>Properties\<close>

text \<open>
  C6. The numeric ladder is exact up to the one cast it makes. For any mix of int, uint and non-NaN
  double operands there is one outcome that all five kernels report: the order of the two values,
  where an integer next to a double counts as the double nearest to it. So two integers of either
  sign, two doubles, and an integer below 2^53 next to a double are ordered exactly; beyond that the
  rounding may find an integer equal to a double it rounds to, and never orders two numbers the
  wrong way or equal numbers apart. A NaN makes all five answer false.
\<close>

theorem numeric_kernels_sound:
  assumes "is_numeric_kind (cv_kind (cv s a))" "is_numeric_kind (cv_kind (cv s b))"
  shows "\<exists>r. (if num_ok (cv s a) \<and> num_ok (cv s b)
        then r = order_of (ladder_val (cv s a) (cv s b)) (ladder_val (cv s b) (cv s a))
          \<and> sound_order r (num_val (cv s a)) (num_val (cv s b))
          \<and> ((\<forall>v \<in> {cv s a, cv s b}. cv_kind v \<noteq> CEL_DOUBLE \<longrightarrow> \<bar>num_val v\<bar> < 2 ^ 53 * int d_unit)
             \<longrightarrow> r = order_of (num_val (cv s a)) (num_val (cv s b)))
        else r = CmpNanInequal)
    \<and> cel_numeric_eq_at_vv out a b s = Some (write_bool (cel_value_at out) (r = CmpEqual) s)
    \<and> cel_numeric_lt_at_vv out a b s = Some (write_bool (cel_value_at out) (r = CmpLess) s)
    \<and> cel_numeric_le_at_vv out a b s = Some (write_bool (cel_value_at out) (r = CmpLess \<or> r = CmpEqual) s)
    \<and> cel_numeric_gt_at_vv out a b s = Some (write_bool (cel_value_at out) (r = CmpGreater) s)
    \<and> cel_numeric_ge_at_vv out a b s = Some (write_bool (cel_value_at out) (r = CmpGreater \<or> r = CmpEqual) s)"
proof (intro exI conjI)
  let ?a = "cv s a" and ?b = "cv s b"
  let ?r = "numeric_compare_kernel ?a ?b"
  note v = numeric_vv_values [OF assms]
  have nan: "?r = CmpNanInequal" if "\<not> (num_ok ?a \<and> num_ok ?b)"
  proof -
    have ka: "cv_kind ?a \<in> {CEL_INT, CEL_UINT, CEL_DOUBLE}" and kb: "cv_kind ?b \<in> {CEL_INT, CEL_UINT, CEL_DOUBLE}"
      using assms by (simp_all add: is_numeric_kind_def)
    show ?thesis using ka kb that by (elim insertE emptyE)
      (simp_all add: kernel_arms num_ok_def is_numeric_kind_def cmp_flip_def cmp_double_def cmp_int_vs_double_def
        cmp_uint_vs_double_def d_eq_refl disj_commute)
  qed
  show "if num_ok ?a \<and> num_ok ?b
        then ?r = order_of (ladder_val ?a ?b) (ladder_val ?b ?a) \<and> sound_order ?r (num_val ?a) (num_val ?b)
          \<and> ((\<forall>v \<in> {?a, ?b}. cv_kind v \<noteq> CEL_DOUBLE \<longrightarrow> \<bar>num_val v\<bar> < 2 ^ 53 * int d_unit)
             \<longrightarrow> ?r = order_of (num_val ?a) (num_val ?b))
        else ?r = CmpNanInequal"
    using nan numeric_compare_sound numeric_compare_exact ladder_val_small by simp
qed (simp_all add: numeric_vv_values [OF assms] cel_numeric_eq_at_vv_def cel_numeric_lt_at_vv_def
    cel_numeric_le_at_vv_def cel_numeric_gt_at_vv_def cel_numeric_ge_at_vv_def)

theorem numeric_kernels_sound_witness:
  "let s = two_cells (cell_of CEL_INT (- 5)) (cell_of CEL_UINT 3) in
   cel_numeric_lt_at_vv 192 128 160 s = Some (write_bool (cel_value_at 192) True s)"
  using numeric_kernels_sound [of "two_cells (cell_of CEL_INT (- 5)) (cell_of CEL_UINT 3)" 128 160 192]
  by (auto simp: is_numeric_kind_def num_ok_def num_val_def ladder_val_def order_of_units order_of_def pl_defs)

text \<open>
  Map-key equality of numbers is exact mathematical equality: an int, uint or double key
  equals another exactly when both are numbers (no NaN) of the same value, with no rounding of
  an integer to a double.
\<close>

theorem numeric_key_eq_exact:
  "cel_numeric_key_eq a b = (num_ok a \<and> num_ok b \<and> num_val a = num_val b)"
  by (rule cel_numeric_key_eq_iff)

text \<open>
  Every same-kind comparison kernel is strict and decides its relation: on two operands of
  its kind the out slot is the bool of the relation on their values.
\<close>

theorem compare_kernels_decide:
  assumes "(kind, rel, kern) \<in> set compare_kernels" and "operands_ok s out a b"
  shows "\<exists>s'. kern out a b s = Some s' \<and> keeps (cel_value_at out) s s'
     \<and> (case tv_strict (tv_at s a) (tv_at s b) of
          Some r \<Rightarrow> outcome s out a b r s'
        | None \<Rightarrow> if cv_kind (cv s a) = kind \<and> cv_kind (cv s b) = kind
            then is_bool (cv s' out) (rel (cv s a) (cv s b))
            else is_err (cv s' out) CEL_ERR_TYPE_MISMATCH)"
proof -
  have le: "d_le x y \<longleftrightarrow> d_lt x y \<or> d_eq x y" for x y by (auto simp: d_le_def d_lt_def d_eq_def)
  have "kern = strict_vv kind (\<lambda>out a b. write_bool out (rel a b)) \<and> kind \<noteq> CEL_ERROR \<and> kind \<noteq> CEL_UNKNOWN"
    using assms(1) unfolding compare_kernels_def list.set
    by (elim insertE emptyE)
      (simp_all add: cmp_vv_def cel_int_lt_at_vv_def cel_int_le_at_vv_def cel_int_gt_at_vv_def cel_int_ge_at_vv_def
        cel_uint_lt_at_vv_def cel_uint_le_at_vv_def cel_uint_gt_at_vv_def cel_uint_ge_at_vv_def
        cel_double_lt_at_vv_def cel_double_le_at_vv_def cel_double_gt_at_vv_def cel_double_ge_at_vv_def
        cel_bool_eq_at_vv_def cel_bool_lt_at_vv_def cel_bool_le_at_vv_def cel_bool_gt_at_vv_def cel_bool_ge_at_vv_def
        cel_null_eq_at_vv_def le word_less_def word_le_def)
  then show ?thesis using bool_kernel_strict [OF assms(2)] by simp
qed

theorem compare_kernels_decide_witness:
  "\<exists>s'. cel_bool_lt_at_vv 256 224 192 sample_unknowns = Some s' \<and> tv_at s' 256 = VErr 17"
  using compare_kernels_decide [of CEL_BOOL "\<lambda>a b. sint (pl_b a) < sint (pl_b b)" cel_bool_lt_at_vv,
      OF _ sample_unknowns_ok [of 224 192]]
  by (auto simp: compare_kernels_def outcome_def sample_unknowns_cells sample_unknowns_tv [unfolded sample_unknowns_cells])

end
