(* ===== verification/ByteScan.thy ===== *)
theory ByteScan
  imports CelInternal
begin

text \<open>
  The byte-span helpers of \<open>runtime/cel_internal.h\<close>: equality eight bytes at a time, the SWAR
  and SIMD \<open>memchr\<close> and the ASCII-run scan, each proved equal to its byte-at-a-time reading.
  The 16-byte vector operations (\<open>wasm_i8x16_eq\<close>, \<open>wasm_i8x16_bitmask\<close>) are lane-wise on the
  sixteen bytes loaded, as the wasm SIMD specification defines them.
\<close>

subsection \<open>Byte-pointer equality\<close>

function byteptr_tail_equal :: "memory \<Rightarrow> nat \<Rightarrow> nat \<Rightarrow> nat \<Rightarrow> bool" where
  "byteptr_tail_equal m pa pb n =
     (if n = 0 then True
      else if m pa \<noteq> m pb then False
      else byteptr_tail_equal m (pa + 1) (pb + 1) (n - 1))"
  by pat_completeness auto
termination by (relation "measure (\<lambda>(m, pa, pb, n). n)") auto

function cel_byteptr_equal :: "memory \<Rightarrow> nat \<Rightarrow> nat \<Rightarrow> nat \<Rightarrow> bool" where
  "cel_byteptr_equal m pa pb n =
     (if 8 \<le> n then
        (if load64 m pa \<noteq> load64 m pb then False
         else cel_byteptr_equal m (pa + 8) (pb + 8) (n - 8))
      else byteptr_tail_equal m pa pb n)"
  by pat_completeness auto
termination by (relation "measure (\<lambda>(m, pa, pb, n). n)") auto

declare byteptr_tail_equal.simps [simp del] cel_byteptr_equal.simps [simp del]

text \<open>A \<open>CelSpan\<close> is a pointer and a length; equality of two spans of the same memory.\<close>

definition spans_equal :: "memory \<Rightarrow> u32 \<Rightarrow> u32 \<Rightarrow> u32 \<Rightarrow> u32 \<Rightarrow> bool" where
  "spans_equal m a_ptr a_len b_ptr b_len =
     (if a_len \<noteq> b_len then False
      else if a_len = 0 then True
      else cel_byteptr_equal m (unat a_ptr) (unat b_ptr) (unat a_len))"

definition span_bytes :: "memory \<Rightarrow> u32 \<Rightarrow> u32 \<Rightarrow> u8 list" where
  "span_bytes m p n = bytes_at m (unat p) (unat n)"

text \<open>An eight-byte load is the eight bytes in little-endian order, so it is injective on them.\<close>

lemma bit_load64:
  "i < 8 \<Longrightarrow> k < 8 \<Longrightarrow> bit (load64 m a) (8 * i + k) = bit (m (a + i)) k"
proof -
  assume k: "k < 8" and "i < 8"
  then consider "i = 0" | "i = 1" | "i = 2" | "i = 3" | "i = 4" | "i = 5" | "i = 6" | "i = 7" by linarith
  then show ?thesis
    using k by cases
      (auto simp: load64_def load32_def bit_simps add.commute add.left_commute dest: bit_imp_le_length)
qed

lemma load64_eq_iff: "load64 m a = load64 m' b \<longleftrightarrow> bytes_at m a 8 = bytes_at m' b 8"
proof
  assume eq: "load64 m a = load64 m' b"
  show "bytes_at m a 8 = bytes_at m' b 8"
  proof (rule nth_equalityI)
    fix i assume "i < length (bytes_at m a 8)"
    then have i: "i < 8" by simp
    have "m (a + i) = m' (b + i)"
      by (rule bit_word_eqI) (use bit_load64 [OF i, of _ m a] bit_load64 [OF i, of _ m' b] eq in simp)
    then show "bytes_at m a 8 ! i = bytes_at m' b 8 ! i" using i by simp
  qed simp
next
  assume eq: "bytes_at m a 8 = bytes_at m' b 8"
  have b: "m (a + i) = m' (b + i)" if "i < 8" for i
    using arg_cong [OF eq, of "\<lambda>xs. xs ! i"] that by simp
  show "load64 m a = load64 m' b"
  proof (rule bit_word_eqI)
    fix n assume "n < LENGTH(64)"
    then have "n div 8 < 8" "n mod 8 < 8" by auto
    then show "bit (load64 m a) n = bit (load64 m' b) n"
      using bit_load64 [of "n div 8" "n mod 8" m a] bit_load64 [of "n div 8" "n mod 8" m' b] b by simp
  qed
qed

lemma byteptr_tail_equal_iff: "byteptr_tail_equal m pa pb n \<longleftrightarrow> bytes_at m pa n = bytes_at m pb n"
proof (induction n arbitrary: pa pb)
  case 0
  then show ?case by (simp add: byteptr_tail_equal.simps [of m pa pb 0])
next
  case (Suc n)
  then show ?case by (simp add: byteptr_tail_equal.simps [of m pa pb "Suc n"] bytes_at_Suc)
qed

lemma cel_byteptr_equal_iff: "cel_byteptr_equal m pa pb n \<longleftrightarrow> bytes_at m pa n = bytes_at m pb n"
proof (induction m pa pb n rule: cel_byteptr_equal.induct)
  case (1 m pa pb n)
  show ?case
  proof (cases "8 \<le> n")
    case True
    then have n: "n = 8 + (n - 8)" by simp
    have "bytes_at m pa n = bytes_at m pb n \<longleftrightarrow> bytes_at m pa 8 = bytes_at m pb 8
        \<and> bytes_at m (pa + 8) (n - 8) = bytes_at m (pb + 8) (n - 8)"
      by (subst (1 2) n) (simp add: bytes_at_append)
    then show ?thesis
      using 1 True load64_eq_iff [of m pa m pb] by (simp add: cel_byteptr_equal.simps [of m pa pb n])
  qed (simp add: cel_byteptr_equal.simps [of m pa pb n] byteptr_tail_equal_iff)
qed

lemma spans_equal_iff:
  "spans_equal m pa la pb lb = (span_bytes m pa la = span_bytes m pb lb)"
proof (cases "la = lb")
  case True
  then show ?thesis by (simp add: spans_equal_def span_bytes_def cel_byteptr_equal_iff)
next
  case False
  then have "length (span_bytes m pa la) \<noteq> length (span_bytes m pb lb)"
    by (simp add: span_bytes_def word_unat_eq_iff)
  then show ?thesis using False by (auto simp: spans_equal_def)
qed

text \<open>Word-at-a-time span equality is equality of the spans' bytes.\<close>

theorem spans_equal_bytes:
  "spans_equal m pa la pb lb = (span_bytes m pa la = span_bytes m pb lb)"
  by (rule spans_equal_iff)


subsection \<open>The SWAR byte search\<close>

text \<open>\<open>__builtin_ctzll\<close> of a nonzero word: the index of its lowest set bit.\<close>

definition ctz :: "'a::len word \<Rightarrow> nat" where
  "ctz w = length (takeWhile (\<lambda>i. \<not> bit w i) [0..<LENGTH('a)])"

abbreviation swar_ones :: u64 where "swar_ones \<equiv> 0x0101010101010101"
abbreviation swar_highs :: u64 where "swar_highs \<equiv> 0x8080808080808080"

definition swar_hit :: "u64 \<Rightarrow> u64" where
  "swar_hit x = (x - swar_ones) AND NOT x AND swar_highs"

function scan_tail :: "memory \<Rightarrow> nat \<Rightarrow> u8 \<Rightarrow> nat \<Rightarrow> nat option" where
  "scan_tail m p c n =
     (if n = 0 then None else if m p = c then Some p else scan_tail m (p + 1) c (n - 1))"
  by pat_completeness auto
termination by (relation "measure (\<lambda>(m, p, c, n). n)") auto

function cel_swar_memchr :: "memory \<Rightarrow> nat \<Rightarrow> u8 \<Rightarrow> nat \<Rightarrow> nat option" where
  "cel_swar_memchr m p c n =
     (if 8 \<le> n then
        (let pat = swar_ones * ucast c;
             x = load64 m p XOR pat;
             hit = swar_hit x
         in if hit \<noteq> 0 then Some (p + ctz hit div 8)
            else cel_swar_memchr m (p + 8) c (n - 8))
      else scan_tail m p c n)"
  by pat_completeness auto
termination by (relation "measure (\<lambda>(m, p, c, n). n)") auto

declare scan_tail.simps [simp del] cel_swar_memchr.simps [simp del]

text \<open>The reference: the first position in \<open>[p, p + n)\<close> whose byte is \<open>c\<close>.\<close>

fun find_byte :: "memory \<Rightarrow> nat \<Rightarrow> u8 \<Rightarrow> nat \<Rightarrow> nat option" where
  "find_byte m p c 0 = None"
| "find_byte m p c (Suc n) = (if m p = c then Some p else find_byte m (p + 1) c n)"

lemma find_byte_append:
  "find_byte m p c (k + n) = (case find_byte m p c k of Some q \<Rightarrow> Some q | None \<Rightarrow> find_byte m (p + k) c n)"
  by (induction k arbitrary: p) (auto split: option.splits)

lemma scan_tail_eq: "scan_tail m p c n = find_byte m p c n"
  by (induction n arbitrary: p) (simp_all add: scan_tail.simps)

text \<open>
  The has-zero trick over an \<open>n\<close>-byte integer, by recursion on the bytes. A borrow can set
  flags above the lowest zero byte only.
\<close>

primrec iones :: "nat \<Rightarrow> int" where "iones 0 = 0" | "iones (Suc n) = 1 + 256 * iones n"
primrec ihighs :: "nat \<Rightarrow> int" where "ihighs 0 = 0" | "ihighs (Suc n) = 128 + 256 * ihighs n"

primrec zero_byte :: "nat \<Rightarrow> int \<Rightarrow> nat option" where
  "zero_byte 0 x = None"
| "zero_byte (Suc n) x = (if x mod 256 = 0 then Some 0 else map_option Suc (zero_byte n (x div 256)))"

definition ihit :: "nat \<Rightarrow> int \<Rightarrow> int" where
  "ihit n x = ((x - iones n) AND NOT x) AND ihighs n"

lemma and_split256:
  fixes a b u v :: int
  assumes "0 \<le> a" "a < 256" "0 \<le> b" "b < 256"
  shows "(a + 256 * u) AND (b + 256 * v) = (a AND b) + 256 * (u AND v)"
proof -
  let ?x = "a + 256 * u" and ?y = "b + 256 * v"
  have lo: "take_bit 8 ?x = a" "take_bit 8 ?y = b" and hi: "drop_bit 8 ?x = u" "drop_bit 8 ?y = v"
    using assms by (simp_all add: take_bit_eq_mod drop_bit_eq_div)
  have "?x AND ?y = take_bit 8 (?x AND ?y) + 256 * drop_bit 8 (?x AND ?y)"
    by (simp add: take_bit_eq_mod drop_bit_eq_div)
  then show ?thesis by (simp only: take_bit_and drop_bit_and lo hi)
qed

lemma ihit_zero_byte:
  assumes "0 \<le> x"
  shows "(case zero_byte n x of None \<Rightarrow> ihit n x = 0
     | Some k \<Rightarrow> k < n \<and> (\<exists>j. ihit n x = 256 ^ k * (128 + 256 * j)))"
  using assms
proof (induction n arbitrary: x)
  case 0
  then show ?case by (simp add: ihit_def)
next
  case (Suc n)
  define b y where "b = x mod 256" and "y = x div 256"
  have x: "x = b + 256 * y" "0 \<le> b" "b < 256" "0 \<le> y"
    using Suc.prems by (simp_all add: b_def y_def pos_imp_zdiv_nonneg_iff)
  have nx: "NOT x = (255 - b) + 256 * NOT y" by (simp add: x(1) not_int_def)
  show ?case
  proof (cases "b = 0")
    case True
    define w where "w = y - iones n - 1"
    have "x - iones (Suc n) = 255 + 256 * w" using x True by (simp add: w_def)
    moreover have "NOT x = 255 + 256 * NOT y" using nx True by simp
    ultimately have "ihit (Suc n) x = ((255 + 256 * w) AND (255 + 256 * NOT y)) AND (128 + 256 * ihighs n)"
      by (simp only: ihit_def ihighs.simps)
    also have "\<dots> = 128 + 256 * ((w AND NOT y) AND ihighs n)"
      using and_split256 [of 255 255 w "NOT y"] and_split256 [of 255 128 "w AND NOT y" "ihighs n"] by simp
    finally have "ihit (Suc n) x = 128 + 256 * ((w AND NOT y) AND ihighs n)" .
    then show ?thesis using True by (auto simp: b_def)
  next
    case False
    have rng: "0 \<le> b - 1" "b - 1 < 256" "0 \<le> 255 - b" "255 - b < 256"
      "0 \<le> (b - 1) AND (255 - b)" "(b - 1) AND (255 - b) < 256"
      using x(2,3) False AND_upper1 [of "b - 1" "255 - b"] by auto
    have c: "x - iones (Suc n) = (b - 1) + 256 * (y - iones n)" using x by simp
    have "\<not> (bit (b - 1) 7 \<and> bit (255 - b) 7)"
      using rng by (cases "b \<le> 128") (simp_all add: bit_iff_odd div_pos_pos_trivial)
    then have "\<not> bit ((b - 1) AND (255 - b)) 7" by (simp add: bit_and_iff)
    then have low: "((b - 1) AND (255 - b)) AND 128 = 0"
      unfolding and_exp_eq_0_iff_not_bit [symmetric] by simp
    have "ihit (Suc n) x = (((b - 1) + 256 * (y - iones n)) AND ((255 - b) + 256 * NOT y)) AND (128 + 256 * ihighs n)"
      by (simp only: ihit_def ihighs.simps nx c)
    also have "\<dots> = 256 * ihit n y"
      using low rng and_split256 [of "b - 1" "255 - b" "y - iones n" "NOT y"]
        and_split256 [of "(b - 1) AND (255 - b)" 128 "(y - iones n) AND NOT y" "ihighs n"]
      by (simp add: ihit_def)
    finally have "ihit (Suc n) x = 256 * ihit n y" .
    then show ?thesis using Suc.IH [OF x(4)] False
      by (cases "zero_byte n y") (auto simp: b_def y_def [symmetric] mult.assoc)
  qed
qed


lemma uint_swar_hit: "uint (swar_hit x) = ihit 8 (uint x)"
proof -
  have io: "iones 8 = 0x0101010101010101" "ihighs 8 = 0x8080808080808080"
    by (simp_all add: numeral_eq_Suc)
  have h: "uint (x - swar_ones) = take_bit 64 (uint x - iones 8)" "uint (NOT x) = take_bit 64 (NOT (uint x))"
    "uint swar_highs = ihighs 8"
    unfolding io by (simp_all add: uint_word_ariths take_bit_eq_mod unsigned_not_eq)
  have "uint (swar_hit x) = (take_bit 64 (uint x - iones 8) AND take_bit 64 (NOT (uint x))) AND ihighs 8"
    unfolding swar_hit_def unsigned_and_eq h by (simp only: and.assoc)
  also have "\<dots> = take_bit 64 (ihit 8 (uint x))"
    by (rule bit_eqI) (auto simp: ihit_def bit_simps io)
  also have "\<dots> = ihit 8 (uint x)"
  proof -
    have "0 \<le> ihighs 8" "ihighs 8 < 2 ^ 64" by (simp_all add: io)
    then have "0 \<le> ihit 8 (uint x)" "ihit 8 (uint x) < 2 ^ 64"
      unfolding ihit_def by (auto intro: le_less_trans [OF AND_upper2])
    then show ?thesis by (simp add: take_bit_int_eq_self)
  qed
  finally show ?thesis .
qed

lemma ctz_eqI:
  fixes w :: "'a::len word"
  assumes "bit w k" "\<And>i. i < k \<Longrightarrow> \<not> bit w i"
  shows "ctz w = k"
proof -
  have k: "k < LENGTH('a)" using assms(1) by (rule bit_imp_le_length)
  then have u: "[0..<LENGTH('a)] = [0..<k] @ k # [Suc k..<LENGTH('a)]"
    by (metis less_imp_le upt_add_eq_append upt_conv_Cons le0 add_diff_inverse_nat not_less)
  have "takeWhile (\<lambda>i. \<not> bit w i) [0..<LENGTH('a)] = [0..<k]"
    unfolding u using assms by (subst takeWhile_append2) auto
  then show ?thesis by (simp add: ctz_def)
qed

lemma ctz_byte:
  assumes "uint (w :: u64) = 256 ^ k * (128 + 256 * j)"
  shows "ctz w = 8 * k + 7"
proof -
  have "(256 :: int) ^ k * (128 + 256 * j) = 2 ^ (8 * k + 7) * (1 + 2 * j)"
  proof -
    have "(256 :: int) ^ k = 2 ^ (8 * k)" by (simp add: power_mult)
    then show ?thesis by (simp add: power_add)
  qed
  then have "uint w = push_bit (8 * k + 7) (1 + 2 * j)" using assms by (simp add: push_bit_eq_mult mult.commute)
  then have "bit w i = (8 * k + 7 \<le> i \<and> bit (1 + 2 * j) (i - (8 * k + 7)))" for i
    by (metis bit_push_bit_iff bit_uint_iff bit_imp_le_length possible_bit_int)
  then show ?thesis by (intro ctz_eqI) (auto simp: bit_0)
qed

lemma find_byte_zero_byte:
  assumes "\<And>i. i < n \<Longrightarrow> ((x div 256 ^ i) mod 256 = 0) = (m (p + i) = c)"
  shows "find_byte m p c n = map_option (\<lambda>k. p + k) (zero_byte n x)"
  using assms
proof (induction n arbitrary: x p)
  case (Suc n)
  have "((x div 256) div 256 ^ i mod 256 = 0) = (m (p + 1 + i) = c)" if "i < n" for i
    using Suc.prems [of "Suc i"] that by (simp add: zdiv_zmult2_eq)
  from Suc.IH [OF this] have "find_byte m (p + 1) c n = map_option (\<lambda>k. p + 1 + k) (zero_byte n (x div 256))" .
  moreover have "(x mod 256 = 0) = (m p = c)" using Suc.prems [of 0] by simp
  ultimately show ?case by (simp add: option.map_comp o_def)
qed simp

text \<open>\<open>ones * c\<close> is eight copies of \<open>c\<close>.\<close>

lemma bit_iones_times:
  assumes "0 \<le> c" "c < 256"
  shows "i < n \<Longrightarrow> j < 8 \<Longrightarrow> bit (c * iones n) (8 * i + j) = bit c j"
proof (induction n arbitrary: i)
  case (Suc n)
  let ?z = "c * iones (Suc n)"
  have z: "?z = c + 256 * (c * iones n)" by (simp add: algebra_simps)
  have lo: "take_bit 8 ?z = c" unfolding z take_bit_eq_mod using assms by simp
  have hi: "drop_bit 8 ?z = c * iones n" unfolding z drop_bit_eq_div using assms by simp
  show ?case
  proof (cases i)
    case 0
    then show ?thesis using Suc.prems(2) bit_take_bit_iff [of 8 ?z j] by (simp only: lo) simp
  next
    case (Suc i')
    have "bit ?z (8 * i + j) = bit (drop_bit 8 ?z) (8 * i' + j)" by (simp add: bit_drop_bit_eq Suc add.assoc del: iones.simps)
    then show ?thesis unfolding hi using Suc.IH [of i'] Suc.prems Suc by simp
  qed
qed simp

lemma bit_swar_pattern:
  assumes "i < 8" "j < 8"
  shows "bit (swar_ones * ucast (c :: u8) :: u64) (8 * i + j) = bit c j"
proof -
  have c: "0 \<le> uint c" "uint c < 256" using uint_lt2p [of c] by simp_all
  have io: "iones 8 = 0x0101010101010101" by (simp add: numeral_eq_Suc)
  have "uint (swar_ones * ucast c :: u64) = uint c * iones 8"
    unfolding io using c by (simp add: uint_word_ariths unsigned_ucast_eq take_bit_int_eq_self mult.commute)
  then have "bit (swar_ones * ucast c :: u64) (8 * i + j) = bit (uint c * iones 8) (8 * i + j)"
    by (metis bit_uint_iff bit_imp_le_length)
  then show ?thesis
    using bit_iones_times [OF c assms(1,2)] assms by (simp add: bit_uint_iff)
qed


lemma swar_block:
  fixes m p c
  defines "x \<equiv> load64 m p XOR (swar_ones * ucast c)"
  shows "find_byte m p c 8 = (if swar_hit x = 0 then None else Some (p + ctz (swar_hit x) div 8))"
proof -
  have b: "((uint x div 256 ^ i) mod 256 = 0) = (m (p + i) = c)" if "i < 8" for i
  proof -
    have t: "(uint x div 256 ^ i) mod 256 = take_bit 8 (drop_bit (8 * i) (uint x))"
      by (simp add: take_bit_eq_mod drop_bit_eq_div power_mult)
    have "bit (take_bit 8 (drop_bit (8 * i) (uint x))) j = (j < 8 \<and> bit (m (p + i)) j \<noteq> bit c j)" for j
      using bit_load64 [OF that, of j m p] bit_swar_pattern [OF that, of j c] that
      by (auto simp: x_def bit_simps)
    then show ?thesis unfolding t bit_eq_iff
      by (auto simp: bit_eq_iff dest: bit_imp_le_length)
  qed
  have f: "find_byte m p c 8 = map_option (\<lambda>k. p + k) (zero_byte 8 (uint x))"
    by (rule find_byte_zero_byte) (rule b)
  have z: "(swar_hit x = 0) = (ihit 8 (uint x) = 0)"
    by (metis uint_0_iff uint_swar_hit)
  show ?thesis
  proof (cases "zero_byte 8 (uint x)")
    case None
    then show ?thesis using ihit_zero_byte [of "uint x" 8] by (simp add: f z)
  next
    case (Some k)
    then obtain j where j: "ihit 8 (uint x) = 256 ^ k * (128 + 256 * j)"
      using ihit_zero_byte [of "uint x" 8] by auto
    then have "ctz (swar_hit x) = 8 * k + 7" by (intro ctz_byte) (simp add: uint_swar_hit)
    moreover have "ihit 8 (uint x) \<noteq> 0" unfolding j by simp presburger
    ultimately show ?thesis using Some by (simp add: f z)
  qed
qed

lemma cel_swar_memchr_eq: "cel_swar_memchr m p c n = find_byte m p c n"
proof (induction m p c n rule: cel_swar_memchr.induct)
  case (1 m p c n)
  show ?case
  proof (cases "8 \<le> n")
    case True
    have "find_byte m p c n = find_byte m p c (8 + (n - 8))" using True by simp
    also have "\<dots> = (case find_byte m p c 8 of Some q \<Rightarrow> Some q | None \<Rightarrow> find_byte m (p + 8) c (n - 8))"
      by (rule find_byte_append)
    finally show ?thesis
      using 1 True by (auto simp: cel_swar_memchr.simps [of m p c n] Let_def swar_block)
  qed (simp add: cel_swar_memchr.simps [of m p c n] scan_tail_eq)
qed

subsection \<open>The SIMD byte search and the ASCII-run scan\<close>

text \<open>\<open>i8x16.bitmask\<close> of sixteen lane flags: bit \<open>i\<close> is lane \<open>i\<close>.\<close>

definition lanes_mask :: "(nat \<Rightarrow> bool) \<Rightarrow> u32" where
  "lanes_mask f = horner_sum of_bool 2 (map f [0..<16])"

function cel_anchor_memchr :: "memory \<Rightarrow> nat \<Rightarrow> u8 \<Rightarrow> nat \<Rightarrow> nat option" where
  "cel_anchor_memchr m p c n =
     (if 16 \<le> n then
        (let msk = lanes_mask (\<lambda>i. m (p + i) = c)
         in if msk \<noteq> 0 then Some (p + ctz msk) else cel_anchor_memchr m (p + 16) c (n - 16))
      else cel_swar_memchr m p c n)"
  by pat_completeness auto
termination by (relation "measure (\<lambda>(m, p, c, n). n)") auto

function ascii_run :: "memory \<Rightarrow> nat \<Rightarrow> nat \<Rightarrow> nat \<Rightarrow> nat" where
  "ascii_run m p n run =
     (if 16 \<le> n - run then
        (if lanes_mask (\<lambda>i. bit (m (p + run + i)) 7) \<noteq> 0 then run else ascii_run m p n (run + 16))
      else run)"
  by pat_completeness auto
termination by (relation "measure (\<lambda>(m, p, n, run). n - run)") auto

declare cel_anchor_memchr.simps [simp del] ascii_run.simps [simp del]

definition cel_ascii_prefix_blocks :: "memory \<Rightarrow> nat \<Rightarrow> nat \<Rightarrow> nat" where
  "cel_ascii_prefix_blocks m p n = ascii_run m p n 0"

lemma bit_lanes_mask: "bit (lanes_mask f) i = (i < 16 \<and> f i)"
  by (auto simp: lanes_mask_def bit_horner_sum_bit_iff dest: bit_imp_le_length)

lemma find_byte_nth:
  "find_byte m p c n = (case find (\<lambda>i. m (p + i) = c) [0..<n] of None \<Rightarrow> None | Some i \<Rightarrow> Some (p + i))"
proof (induction n arbitrary: p)
  case (Suc n)
  have "[0..<Suc n] = 0 # map Suc [0..<n]" by (simp add: upt_conv_Cons map_Suc_upt del: upt_Suc)
  moreover have "find (\<lambda>i. m (p + i) = c) (map Suc xs) = map_option Suc (find (\<lambda>i. m (p + 1 + i) = c) xs)" for xs
    by (induction xs) auto
  ultimately show ?case using Suc.IH [of "p + 1"] by (simp split: option.splits del: upt_Suc)
qed simp

lemma lanes_block:
  fixes m p c
  defines "msk \<equiv> lanes_mask (\<lambda>i. m (p + i) = c)"
  shows "find_byte m p c 16 = (if msk = 0 then None else Some (p + ctz msk))"
proof (cases "msk = 0")
  case True
  then have "m (p + i) \<noteq> c" if "i < 16" for i
    using that bit_lanes_mask [of "\<lambda>i. m (p + i) = c" i] by (auto simp: msk_def)
  then have "find (\<lambda>i. m (p + i) = c) [0..<16] = None" by (simp add: find_None_iff)
  then show ?thesis using True by (simp add: find_byte_nth)
next
  case False
  then obtain i where "bit msk i" by (metis bit_eq_iff bit_0_eq bot_apply bot_bool_def)
  define k where "k = (LEAST i. bit msk i)"
  have k: "bit msk k" "\<And>i. i < k \<Longrightarrow> \<not> bit msk i"
    unfolding k_def using \<open>bit msk i\<close> by (auto intro: LeastI dest: not_less_Least)
  then have "ctz msk = k" by (rule ctz_eqI)
  moreover have "find (\<lambda>i. m (p + i) = c) [0..<16] = Some k"
    using k unfolding msk_def bit_lanes_mask by (auto simp: find_Some_iff intro!: exI [of _ k])
  ultimately show ?thesis using False by (simp add: find_byte_nth)
qed


lemma cel_anchor_memchr_eq: "cel_anchor_memchr m p c n = find_byte m p c n"
proof (induction m p c n rule: cel_anchor_memchr.induct)
  case (1 m p c n)
  show ?case
  proof (cases "16 \<le> n")
    case True
    have "find_byte m p c n = find_byte m p c (16 + (n - 16))" using True by simp
    also have "\<dots> = (case find_byte m p c 16 of Some q \<Rightarrow> Some q | None \<Rightarrow> find_byte m (p + 16) c (n - 16))"
      by (rule find_byte_append)
    finally show ?thesis
      using 1 True by (auto simp: cel_anchor_memchr.simps [of m p c n] Let_def lanes_block)
  qed (simp add: cel_anchor_memchr.simps [of m p c n] cel_swar_memchr_eq)
qed

lemma ascii_byte: "\<not> bit (b :: u8) 7 \<longleftrightarrow> b < 0x80"
proof -
  have r: "0 \<le> uint b" "uint b < 256" using uint_lt2p [of b] by simp_all
  have "bit b 7 = bit (uint b) 7" by (simp add: bit_uint_iff)
  then have "bit b 7 = odd (uint b div 128)" by (simp only: bit_iff_odd [of "uint b"]) simp
  moreover have "uint b div 128 = (if uint b < 128 then 0 else 1)"
    using r int_div_pos_eq [of "uint b" 128 1 "uint b - 128"] by (simp add: div_pos_pos_trivial)
  ultimately show ?thesis by (simp add: word_less_def)
qed

lemma ascii_run_bounds:
  "run \<le> n \<Longrightarrow> run \<le> ascii_run m p n run \<and> ascii_run m p n run \<le> n
     \<and> (16 dvd run \<longrightarrow> 16 dvd ascii_run m p n run)
     \<and> (\<forall>i. run \<le> i \<longrightarrow> i < ascii_run m p n run \<longrightarrow> m (p + i) < 0x80)"
proof (induction m p n run rule: ascii_run.induct)
  case (1 m p n run)
  show ?case
  proof (cases "16 \<le> n - run \<and> lanes_mask (\<lambda>i. bit (m (p + run + i)) 7) = 0")
    case True
    have "m (p + run + i) < 0x80" if "i < 16" for i
      using True bit_lanes_mask [of "\<lambda>i. bit (m (p + run + i)) 7" i] that by (simp add: ascii_byte)
    then have a: "m (p + i) < 0x80" if "run \<le> i" "i < run + 16" for i
      using that by (metis add.assoc add_less_cancel_left le_add_diff_inverse)
    have eq: "ascii_run m p n run = ascii_run m p n (run + 16)"
      using True by (simp add: ascii_run.simps [of m p n run])
    have "run + 16 \<le> n" "16 dvd run \<longrightarrow> 16 dvd run + 16" using True by auto
    then show ?thesis
      using 1(1) True a unfolding eq by (meson add_leD1 linorder_not_le order_trans)
  qed (use 1 in \<open>auto simp: ascii_run.simps [of m p n run]\<close>)
qed

text \<open>
  The SWAR and the SIMD search return the first position of the byte, exactly as a
  byte-at-a-time scan does, although a borrow corrupts the flags above the lowest hit.
\<close>

theorem memchr_first_match:
  "cel_swar_memchr m p c n = find_byte m p c n \<and> cel_anchor_memchr m p c n = find_byte m p c n
   \<and> (find_byte m p c n = None) = (c \<notin> set (bytes_at m p n))"
proof -
  have "(find_byte m p c n = None) = (c \<notin> set (bytes_at m p n))"
    by (induction n arbitrary: p) (auto simp: bytes_at_Suc)
  then show ?thesis by (simp add: cel_swar_memchr_eq cel_anchor_memchr_eq)
qed

text \<open>The ASCII-run scan counts whole 16-byte blocks of ASCII bytes and stays inside the span.\<close>

lemma cel_ascii_prefix_blocks_ascii:
  "cel_ascii_prefix_blocks m p n \<le> n" "16 dvd cel_ascii_prefix_blocks m p n"
  "i < cel_ascii_prefix_blocks m p n \<Longrightarrow> m (p + i) < 0x80"
  using ascii_run_bounds [of 0 n m p] by (simp_all add: cel_ascii_prefix_blocks_def)

end
