(* ===== verification/StringOps.thy ===== *)
theory StringOps
  imports Compare ByteScan "HOL-Library.Sublist"
begin

text \<open>
  String and bytes operations (\<open>runtime/cel_string_ops.c\<close>) and the cell constructors
  (\<open>runtime/cel_make.c\<close>). A span is a pointer and a length into linear memory; operations read
  the operand spans and, for concatenation and the constructors, write into fresh arena memory.
\<close>

subsection \<open>Span predicates\<close>

definition span_eq :: "memory \<Rightarrow> cel_value \<Rightarrow> cel_value \<Rightarrow> bool" where
  "span_eq m a b =
     (if pl_s_len a \<noteq> pl_s_len b then False
      else cel_byteptr_equal m (unat (pl_s_ptr a)) (unat (pl_s_ptr b)) (unat (pl_s_len a)))"

text \<open>The byte loop of \<open>span_lt\<close>, returning the decision at the first difference.\<close>

function span_lt_loop :: "memory \<Rightarrow> nat \<Rightarrow> nat \<Rightarrow> nat \<Rightarrow> nat \<Rightarrow> bool option" where
  "span_lt_loop m pa pb n i =
     (if i < n then
        (if m (pa + i) \<noteq> m (pb + i) then Some (m (pa + i) < m (pb + i)) else span_lt_loop m pa pb n (i + 1))
      else None)"
  by pat_completeness auto
termination by (relation "measure (\<lambda>(m, pa, pb, n, i). n - i)") auto

declare span_lt_loop.simps [simp del]

definition span_lt :: "memory \<Rightarrow> cel_value \<Rightarrow> cel_value \<Rightarrow> bool" where
  "span_lt m a b =
     (let n = (if pl_s_len a < pl_s_len b then pl_s_len a else pl_s_len b) in
      case span_lt_loop m (unat (pl_s_ptr a)) (unat (pl_s_ptr b)) (unat n) 0 of
        Some r \<Rightarrow> r
      | None \<Rightarrow> pl_s_len a < pl_s_len b)"

definition span_match_at :: "memory \<Rightarrow> cel_value \<Rightarrow> u32 \<Rightarrow> cel_value \<Rightarrow> bool" where
  "span_match_at m hay off sub =
     cel_byteptr_equal m (unat (pl_s_ptr hay) + unat off) (unat (pl_s_ptr sub)) (unat (pl_s_len sub))"

lemma find_byte_range: "find_byte m p c n = Some q \<Longrightarrow> p \<le> q \<and> q < p + n \<and> m q = c"
proof (induction n arbitrary: p)
  case (Suc n)
  show ?case
  proof (cases "m p = c")
    case False
    then show ?thesis using Suc.IH [of "p + 1"] Suc.prems by auto
  qed (use Suc.prems in auto)
qed simp

function contains_loop :: "memory \<Rightarrow> nat \<Rightarrow> nat \<Rightarrow> nat \<Rightarrow> nat \<Rightarrow> nat \<Rightarrow> bool" where
  "contains_loop m hbeg ps sub_len last_off i =
     (case cel_anchor_memchr m (hbeg + i) (m ps) (last_off - i + 1) of
        None \<Rightarrow> False
      | Some hit \<Rightarrow>
          (let pos = hit - hbeg in
           if cel_byteptr_equal m (hbeg + pos) ps sub_len then True
           else if pos \<ge> last_off then False
           else contains_loop m hbeg ps sub_len last_off (pos + 1)))"
  by pat_completeness auto
termination
proof (relation "measure (\<lambda>(m, hbeg, ps, sub_len, last_off, i). last_off + 1 - i)", rule wf_measure)
  fix m hbeg ps sub_len last_off i hit x
  assume h: "cel_anchor_memchr m (hbeg + i) (m ps) (last_off - i + 1) = Some hit" and x: "x = hit - hbeg"
    and "\<not> cel_byteptr_equal m (hbeg + x) ps sub_len" and l: "\<not> last_off \<le> x"
  have "hbeg + i \<le> hit" using h find_byte_range unfolding cel_anchor_memchr_eq by blast
  then show "((m, hbeg, ps, sub_len, last_off, x + 1), (m, hbeg, ps, sub_len, last_off, i))
      \<in> measure (\<lambda>(m, hbeg, ps, sub_len, last_off, i). last_off + 1 - i)" using x l by simp
qed

declare contains_loop.simps [simp del]

definition span_contains :: "memory \<Rightarrow> cel_value \<Rightarrow> cel_value \<Rightarrow> bool" where
  "span_contains m hay sub =
     (if pl_s_len sub = 0 then True
      else if pl_s_len sub > pl_s_len hay then False
      else contains_loop m (unat (pl_s_ptr hay)) (unat (pl_s_ptr sub)) (unat (pl_s_len sub))
             (unat (pl_s_len hay - pl_s_len sub)) 0)"

function utf8_codepoint_count :: "memory \<Rightarrow> nat \<Rightarrow> nat \<Rightarrow> nat \<Rightarrow> u64 \<Rightarrow> u64" where
  "utf8_codepoint_count m p len i n =
     (if i < len then
        utf8_codepoint_count m p len (i + 1) (if m (p + i) AND 0xC0 \<noteq> 0x80 then n + 1 else n)
      else n)"
  by pat_completeness auto
termination by (relation "measure (\<lambda>(m, p, len, i, n). len - i)") auto

declare utf8_codepoint_count.simps [simp del]

subsection \<open>Kernels\<close>

definition span_op_prelude :: "nat \<Rightarrow> nat \<Rightarrow> nat \<Rightarrow> u32 \<Rightarrow> rt \<Rightarrow> (bool \<times> rt) option" where
  "span_op_prelude out a b kind s = do {
     (wrote, s) \<leftarrow> absorb_3vl_binary out a b s;
     if wrote then Some (True, s) else Some (require_kinds out a b kind s)
   }"

text \<open>The span of a cell is read before any store; \<open>a_len\<close>, \<open>b_len\<close> cannot change in between.\<close>

definition concat_into_out :: "nat \<Rightarrow> cel_value \<Rightarrow> cel_value \<Rightarrow> u32 \<Rightarrow> rt \<Rightarrow> rt option" where
  "concat_into_out out a b kind s =
     (if pl_s_len b > UINT32_MAX - pl_s_len a then Some (poison out CEL_ERR_OVERFLOW s)
      else (let total = pl_s_len a + pl_s_len b;
                finish = (\<lambda>off s. s\<lparr>mem := store32 (store32 (store32 (mem s) out kind) (out + 8) off) (out + 12) total\<rparr>) in
        if total > 0 then do {
          (off, s) \<leftarrow> arena_alloc total s;
          if off = 0 then Some (poison out CEL_ERR_OVERFLOW s)
          else (let dst = unat off;
                    m1 = store_bytes (mem s) dst (span_bytes (mem s) (pl_s_ptr a) (pl_s_len a));
                    m2 = store_bytes m1 (dst + unat (pl_s_len a)) (span_bytes m1 (pl_s_ptr b) (pl_s_len b))
                in Some (finish off (s\<lparr>mem := m2\<rparr>)))
        }
        else Some (finish 0 s)))"

definition span_kernel :: "u32 \<Rightarrow> (nat \<Rightarrow> cel_value \<Rightarrow> cel_value \<Rightarrow> rt \<Rightarrow> rt option) \<Rightarrow> kernel2" where
  "span_kernel kind body out_slot a_slot b_slot s =
     (let out = cel_value_at out_slot; a = cel_value_at a_slot; b = cel_value_at b_slot in do {
        (wrote, s) \<leftarrow> span_op_prelude out a b kind s;
        if wrote then Some s else body out (load_cv (mem s) a) (load_cv (mem s) b) s
      })"

definition span_bool :: "(memory \<Rightarrow> cel_value \<Rightarrow> cel_value \<Rightarrow> bool) \<Rightarrow> nat \<Rightarrow> cel_value \<Rightarrow> cel_value \<Rightarrow> rt \<Rightarrow> rt option" where
  "span_bool rel out a b s = Some (write_bool out (rel (mem s) a b) s)"

definition cel_string_concat_at_vv :: kernel2 where
  "cel_string_concat_at_vv = span_kernel CEL_STRING (\<lambda>out a b. concat_into_out out a b CEL_STRING)"
definition cel_bytes_concat_at_vv :: kernel2 where
  "cel_bytes_concat_at_vv = span_kernel CEL_BYTES (\<lambda>out a b. concat_into_out out a b CEL_BYTES)"

definition cel_string_size_at_v :: "u32 \<Rightarrow> u32 \<Rightarrow> rt \<Rightarrow> rt option" where
  "cel_string_size_at_v = strict_v CEL_STRING (\<lambda>out v s.
     write_int out (utf8_codepoint_count (mem s) (unat (pl_s_ptr v)) (unat (pl_s_len v)) 0 0) s)"
definition cel_bytes_size_at_v :: "u32 \<Rightarrow> u32 \<Rightarrow> rt \<Rightarrow> rt option" where
  "cel_bytes_size_at_v = strict_v CEL_BYTES (\<lambda>out v. write_int out (ucast (pl_s_len v)))"

definition cel_string_eq_at_vv :: kernel2 where
  "cel_string_eq_at_vv = span_kernel CEL_STRING (span_bool span_eq)"
definition cel_string_lt_at_vv :: kernel2 where
  "cel_string_lt_at_vv = span_kernel CEL_STRING (span_bool span_lt)"
definition cel_bytes_eq_at_vv :: kernel2 where
  "cel_bytes_eq_at_vv = span_kernel CEL_BYTES (span_bool span_eq)"
definition cel_bytes_lt_at_vv :: kernel2 where
  "cel_bytes_lt_at_vv = span_kernel CEL_BYTES (span_bool span_lt)"
definition cel_string_le_at_vv :: kernel2 where
  "cel_string_le_at_vv = span_kernel CEL_STRING (span_bool (\<lambda>m a b. \<not> span_lt m b a))"
definition cel_string_gt_at_vv :: kernel2 where
  "cel_string_gt_at_vv = span_kernel CEL_STRING (span_bool (\<lambda>m a b. span_lt m b a))"
definition cel_string_ge_at_vv :: kernel2 where
  "cel_string_ge_at_vv = span_kernel CEL_STRING (span_bool (\<lambda>m a b. \<not> span_lt m a b))"
definition cel_bytes_le_at_vv :: kernel2 where
  "cel_bytes_le_at_vv = span_kernel CEL_BYTES (span_bool (\<lambda>m a b. \<not> span_lt m b a))"
definition cel_bytes_gt_at_vv :: kernel2 where
  "cel_bytes_gt_at_vv = span_kernel CEL_BYTES (span_bool (\<lambda>m a b. span_lt m b a))"
definition cel_bytes_ge_at_vv :: kernel2 where
  "cel_bytes_ge_at_vv = span_kernel CEL_BYTES (span_bool (\<lambda>m a b. \<not> span_lt m a b))"

definition cel_string_contains_at_vv :: kernel2 where
  "cel_string_contains_at_vv = span_kernel CEL_STRING (span_bool span_contains)"

definition cel_string_starts_with_at_vv :: kernel2 where
  "cel_string_starts_with_at_vv = span_kernel CEL_STRING (\<lambda>out str pfx s.
     if pl_s_len pfx > pl_s_len str then Some (write_bool out False s)
     else Some (write_bool out (span_match_at (mem s) str 0 pfx) s))"

definition cel_string_ends_with_at_vv :: kernel2 where
  "cel_string_ends_with_at_vv = span_kernel CEL_STRING (\<lambda>out str sfx s.
     if pl_s_len sfx > pl_s_len str then Some (write_bool out False s)
     else Some (write_bool out (span_match_at (mem s) str (pl_s_len str - pl_s_len sfx) sfx) s))"

subsection \<open>Constructors\<close>

definition alloc_cv :: "rt \<Rightarrow> (u32 \<times> rt) option" where
  "alloc_cv s = arena_alloc 24 s"

text \<open>Allocate a cell and fill it, or return 0.\<close>

definition make_cell :: "(nat \<Rightarrow> rt \<Rightarrow> rt) \<Rightarrow> rt \<Rightarrow> (u32 \<times> rt) option" where
  "make_cell fill s = do {
     (off, s) \<leftarrow> alloc_cv s;
     if off = 0 then Some (0, s) else Some (off, fill (unat off) s)
   }"

definition cel_make_null :: "rt \<Rightarrow> (u32 \<times> rt) option" where
  "cel_make_null = make_cell (\<lambda>v s. s\<lparr>mem := store32 (mem s) v CEL_NULL\<rparr>)"
definition cel_make_bool :: "u32 \<Rightarrow> rt \<Rightarrow> (u32 \<times> rt) option" where
  "cel_make_bool b = make_cell (\<lambda>v. write_bool v (b \<noteq> 0))"
definition cel_make_int :: "u64 \<Rightarrow> rt \<Rightarrow> (u32 \<times> rt) option" where
  "cel_make_int i = make_cell (\<lambda>v. write_int v i)"
definition cel_make_uint :: "u64 \<Rightarrow> rt \<Rightarrow> (u32 \<times> rt) option" where
  "cel_make_uint u = make_cell (\<lambda>v. write_uint v u)"
definition cel_make_double :: "u64 \<Rightarrow> rt \<Rightarrow> (u32 \<times> rt) option" where
  "cel_make_double d = make_cell (\<lambda>v. write_double v d)"

definition make_span_copy :: "u32 \<Rightarrow> u32 \<Rightarrow> u32 \<Rightarrow> rt \<Rightarrow> (u32 \<times> rt) option" where
  "make_span_copy kind src len s =
     (let finish = (\<lambda>data_off. make_cell (\<lambda>v s. s\<lparr>mem :=
                store32 (store32 (store32 (mem s) v kind) (v + 8) data_off) (v + 12) len\<rparr>)) in
      if len > 0 then do {
        (data_off, s) \<leftarrow> arena_alloc len s;
        if data_off = 0 then Some (0, s)
        else finish data_off (s\<lparr>mem := store_bytes (mem s) (unat data_off) (span_bytes (mem s) src len)\<rparr>)
      }
      else finish 0 s)"

definition cel_make_string :: "u32 \<Rightarrow> u32 \<Rightarrow> rt \<Rightarrow> (u32 \<times> rt) option" where
  "cel_make_string src len = make_span_copy CEL_STRING src len"
definition cel_make_bytes :: "u32 \<Rightarrow> u32 \<Rightarrow> rt \<Rightarrow> (u32 \<times> rt) option" where
  "cel_make_bytes src len = make_span_copy CEL_BYTES src len"


subsection \<open>Spans as byte strings\<close>

abbreviation str_of :: "memory \<Rightarrow> cel_value \<Rightarrow> u8 list" where
  "str_of m v \<equiv> span_bytes m (pl_s_ptr v) (pl_s_len v)"

lemma length_span_bytes [simp]: "length (span_bytes m p n) = unat n"
  by (simp add: span_bytes_def)

lemma span_eq_iff: "span_eq m a b \<longleftrightarrow> str_of m a = str_of m b"
proof (cases "pl_s_len a = pl_s_len b")
  case True
  then show ?thesis by (simp add: span_eq_def cel_byteptr_equal_iff span_bytes_def)
next
  case False
  then have "length (str_of m a) \<noteq> length (str_of m b)" by (simp add: word_unat_eq_iff)
  then have "str_of m a \<noteq> str_of m b" by metis
  then show ?thesis using False by (simp add: span_eq_def)
qed

lemma bytes_at_Cons: "i < n \<Longrightarrow> bytes_at m (p + i) (n - i) = m (p + i) # bytes_at m (p + (i + 1)) (n - (i + 1))"
  using bytes_at_Suc [of m "p + i" "n - (i + 1)"] by (simp add: Suc_diff_Suc)

lemma span_lt_loop_lexordp:
  "n = min la lb \<Longrightarrow> i \<le> n \<Longrightarrow>
   (case span_lt_loop m pa pb n i of Some r \<Rightarrow> r | None \<Rightarrow> la < lb) =
   ord_class.lexordp (bytes_at m (pa + i) (la - i)) (bytes_at m (pb + i) (lb - i))"
proof (induction m pa pb n i rule: span_lt_loop.induct)
  case (1 m pa pb n i)
  show ?case
  proof (cases "i < n")
    case True
    then have "i < la" "i < lb" using "1.prems"(1) by auto
    then have u: "bytes_at m (pa + i) (la - i) = m (pa + i) # bytes_at m (pa + (i + 1)) (la - (i + 1))"
      "bytes_at m (pb + i) (lb - i) = m (pb + i) # bytes_at m (pb + (i + 1)) (lb - (i + 1))"
      by (simp_all only: bytes_at_Cons)
    show ?thesis
    proof (cases "m (pa + i) = m (pb + i)")
      case eq: True
      have "i + 1 \<le> n" using True by simp
      then show ?thesis using "1.IH" [OF True] eq "1.prems"(1) True
        unfolding u span_lt_loop.simps [of m pa pb n i] by simp
    next
      case False
      then show ?thesis using True unfolding u span_lt_loop.simps [of m pa pb n i] by auto
    qed
  next
    case False
    then have i: "i = n" using "1.prems"(2) by simp
    have "la - n = 0 \<or> lb - n = 0" using "1.prems"(1) by auto
    moreover have "bytes_at m q k = [] \<longleftrightarrow> k = 0" for q k by (metis length_0_conv length_bytes_at)
    moreover have "ord_class.lexordp [] ys \<longleftrightarrow> ys \<noteq> []" "\<not> ord_class.lexordp xs []" for xs ys :: "u8 list" by (cases ys; simp)+
    moreover have "span_lt_loop m pa pb n n = None" by (simp add: span_lt_loop.simps [of m pa pb n n])
    ultimately show ?thesis using "1.prems"(1) by (auto simp: i)
  qed
qed

lemma span_lt_lexordp: "span_lt m a b \<longleftrightarrow> ord_class.lexordp (str_of m a) (str_of m b)"
proof -
  let ?n = "if pl_s_len a < pl_s_len b then pl_s_len a else pl_s_len b"
  have n: "unat ?n = min (unat (pl_s_len a)) (unat (pl_s_len b))" by (auto simp: word_less_nat_alt)
  show ?thesis
    using span_lt_loop_lexordp [OF n, of 0 m "unat (pl_s_ptr a)" "unat (pl_s_ptr b)"]
    unfolding span_lt_def span_bytes_def Let_def word_less_nat_alt
    by (simp only: add_0_right diff_zero le0 True_implies_equals)
qed

text \<open>A match of \<open>sub\<close> at offset \<open>k\<close> of a string is a cut of its byte list.\<close>

lemma bytes_at_split: "k + n \<le> N \<Longrightarrow>
    bytes_at m p N = bytes_at m p k @ bytes_at m (p + k) n @ bytes_at m (p + (k + n)) (N - (k + n))"
  using bytes_at_append [of m p k "N - k"] bytes_at_append [of m "p + k" n "N - (k + n)"] by (simp add: add.assoc)

lemma match_at_iff: "k + length xs \<le> N \<Longrightarrow>
    bytes_at m (p + k) (length xs) = xs \<longleftrightarrow> (\<exists>us vs. bytes_at m p N = us @ xs @ vs \<and> length us = k)"
proof
  assume "k + length xs \<le> N" "bytes_at m (p + k) (length xs) = xs"
  then show "\<exists>us vs. bytes_at m p N = us @ xs @ vs \<and> length us = k"
    using bytes_at_split [of k "length xs" N m p] by (metis length_bytes_at)
next
  assume k: "k + length xs \<le> N" and "\<exists>us vs. bytes_at m p N = us @ xs @ vs \<and> length us = k"
  then obtain us vs where e: "bytes_at m p N = us @ xs @ vs" "length us = k" by blast
  have "bytes_at m p k @ bytes_at m (p + k) (length xs) @ bytes_at m (p + (k + length xs)) (N - (k + length xs)) = us @ xs @ vs"
    using e(1) bytes_at_split [OF k, of m p] by simp
  then show "bytes_at m (p + k) (length xs) = xs" using e(2) by (simp add: append_eq_append_conv)
qed

text \<open>The anchored search finds a match at or after its start, when there is one.\<close>

lemma find_byte_None: "find_byte m p c n = None \<Longrightarrow> p \<le> q \<Longrightarrow> q < p + n \<Longrightarrow> m q \<noteq> c"
proof (induction n arbitrary: p)
  case (Suc n)
  show ?case
  proof (cases "q = p")
    case False
    then show ?thesis using Suc.IH [of "p + 1"] Suc.prems by (auto split: if_splits)
  qed (use Suc.prems in \<open>auto split: if_splits\<close>)
qed simp

lemma find_byte_first: "find_byte m p c n = Some r \<Longrightarrow> p \<le> q \<Longrightarrow> q < r \<Longrightarrow> m q \<noteq> c"
proof (induction n arbitrary: p)
  case (Suc n)
  have "m p \<noteq> c" using Suc.prems by (auto split: if_splits)
  then show ?case using Suc.IH [of "p + 1"] Suc.prems by (cases "q = p") auto
qed simp

lemma contains_loop_iff:
  "0 < n \<Longrightarrow> i \<le> L \<Longrightarrow>
   contains_loop m h p n L i \<longleftrightarrow> (\<exists>k. i \<le> k \<and> k \<le> L \<and> bytes_at m (h + k) n = bytes_at m p n)"
proof (induction m h p n L i rule: contains_loop.induct)
  case (1 m h p n L i)
  have first: "m (h + k) = m p" if e: "bytes_at m (h + k) n = bytes_at m p n" for k
  proof -
    have "bytes_at m q n ! 0 = m q" for q using bytes_at_nth [OF "1.prems"(1), of m q] by simp
    from this [of "h + k"] this [of p] show ?thesis using e by (simp only:)
  qed
  show ?case
  proof (cases "cel_anchor_memchr m (h + i) (m p) (L - i + 1)")
    case None
    then have no: "m (h + k) \<noteq> m p" if "i \<le> k" "k \<le> L" for k
      using find_byte_None [of m "h + i" "m p" "L - i + 1" "h + k"] that unfolding cel_anchor_memchr_eq by simp
    then show ?thesis using None first by (auto simp: contains_loop.simps [of m h p n L i])
  next
    case (Some hit)
    then have fb: "find_byte m (h + i) (m p) (L - i + 1) = Some hit" by (simp only: cel_anchor_memchr_eq)
    note r = find_byte_range [OF fb]
    define pos where "pos = hit - h"
    have pos: "hit = h + pos" "i \<le> pos" "pos \<le> L" using r "1.prems" by (auto simp: pos_def)
    have no: "m (h + k) \<noteq> m p" if "i \<le> k" "k < pos" for k
      using find_byte_first [OF fb, of "h + k"] that pos(1) by simp
    have eq: "contains_loop m h p n L i = (bytes_at m (h + pos) n = bytes_at m p n
        \<or> (pos < L \<and> contains_loop m h p n L (pos + 1)))"
      using Some by (auto simp: contains_loop.simps [of m h p n L i] pos_def Let_def cel_byteptr_equal_iff)
    have ih: "contains_loop m h p n L (pos + 1) \<longleftrightarrow> (\<exists>k. pos + 1 \<le> k \<and> k \<le> L \<and> bytes_at m (h + k) n = bytes_at m p n)"
      if "\<not> bytes_at m (h + pos) n = bytes_at m p n" "pos < L"
      using "1.IH" [OF Some pos_def] that "1.prems"(1) by (simp add: cel_byteptr_equal_iff)
    show ?thesis
    proof (cases "bytes_at m (h + pos) n = bytes_at m p n")
      case True
      then show ?thesis using eq pos by auto
    next
      case False
      have skip: "pos + 1 \<le> k" if "i \<le> k" "bytes_at m (h + k) n = bytes_at m p n" for k
      proof (rule ccontr)
        assume "\<not> pos + 1 \<le> k"
        then consider "k < pos" | "k = pos" by linarith
        then show False using no [OF that(1)] first [OF that(2)] False that(2) by cases auto
      qed
      have skip_iff: "(\<exists>k. i \<le> k \<and> k \<le> L \<and> bytes_at m (h + k) n = bytes_at m p n) \<longleftrightarrow>
          (\<exists>k. pos + 1 \<le> k \<and> k \<le> L \<and> bytes_at m (h + k) n = bytes_at m p n)"
      proof (intro iffI; elim exE conjE)
        fix k assume k: "i \<le> k" "k \<le> L" "bytes_at m (h + k) n = bytes_at m p n"
        show "\<exists>k. pos + 1 \<le> k \<and> k \<le> L \<and> bytes_at m (h + k) n = bytes_at m p n"
          using skip [OF k(1,3)] k by (intro exI [of _ k]) simp
      next
        fix k assume k: "pos + 1 \<le> k" "k \<le> L" "bytes_at m (h + k) n = bytes_at m p n"
        show "\<exists>k. i \<le> k \<and> k \<le> L \<and> bytes_at m (h + k) n = bytes_at m p n"
          using k pos(2) by (intro exI [of _ k]) simp
      qed
      have e: "contains_loop m h p n L i \<longleftrightarrow> pos < L \<and> contains_loop m h p n L (pos + 1)"
        using eq False by (simp only: simp_thms)
      show ?thesis
      proof (cases "pos < L")
        case True
        show ?thesis unfolding e skip_iff using ih [OF False True] True by (simp only: simp_thms)
      next
        case l: False
        then have "\<not> (\<exists>k. pos + 1 \<le> k \<and> k \<le> L \<and> bytes_at m (h + k) n = bytes_at m p n)" by auto
        then show ?thesis unfolding e skip_iff using l by (simp only: simp_thms)
      qed
    qed
  qed
qed


text \<open>The three searches are the list predicates of the library.\<close>

lemma span_contains_iff: "span_contains m a b \<longleftrightarrow> sublist (str_of m b) (str_of m a)"
proof (cases "pl_s_len b = 0")
  case True
  then show ?thesis by (simp add: span_contains_def span_bytes_def)
next
  case nz: False
  then have pos: "0 < unat (pl_s_len b)" by (simp add: unat_gt_0)
  show ?thesis
  proof (cases "pl_s_len b > pl_s_len a")
    case True
    then have "length (str_of m a) < length (str_of m b)" by (simp add: word_less_nat_alt)
    then have "\<not> sublist (str_of m b) (str_of m a)" using sublist_length_le leD by blast
    then show ?thesis using nz True by (simp add: span_contains_def)
  next
    case False
    let ?L = "unat (pl_s_len a - pl_s_len b)" and ?h = "unat (pl_s_ptr a)" and ?n = "unat (pl_s_len b)"
    have L: "?L + ?n = unat (pl_s_len a)" using False by (simp add: unat_sub not_less word_le_nat_alt)
    have "contains_loop m ?h (unat (pl_s_ptr b)) ?n ?L 0 \<longleftrightarrow>
        (\<exists>k\<le>?L. bytes_at m (?h + k) ?n = str_of m b)"
      using contains_loop_iff [OF pos, of 0 ?L m ?h "unat (pl_s_ptr b)"] by (simp add: span_bytes_def)
    also have "\<dots> \<longleftrightarrow> (\<exists>k\<le>?L. \<exists>us vs. str_of m a = us @ str_of m b @ vs \<and> length us = k)"
    proof (intro ex_cong1 conj_cong refl)
      fix k assume "k \<le> ?L"
      then have "k + length (str_of m b) \<le> unat (pl_s_len a)" using L by simp
      from match_at_iff [OF this, of m ?h]
      show "bytes_at m (?h + k) ?n = str_of m b \<longleftrightarrow> (\<exists>us vs. str_of m a = us @ str_of m b @ vs \<and> length us = k)"
        by (simp add: span_bytes_def)
    qed
    also have "\<dots> \<longleftrightarrow> sublist (str_of m b) (str_of m a)"
    proof
      assume "sublist (str_of m b) (str_of m a)"
      then obtain us vs where e: "str_of m a = us @ str_of m b @ vs" by (auto simp: sublist_def)
      from arg_cong [OF e, of length] have "length us \<le> ?L" using L by simp
      then show "\<exists>k\<le>?L. \<exists>us vs. str_of m a = us @ str_of m b @ vs \<and> length us = k" using e by blast
    qed (auto simp: sublist_def)
    finally show ?thesis using nz False by (simp add: span_contains_def)
  qed
qed

lemma span_match_at_iff:
  assumes "unat off + unat (pl_s_len b) \<le> unat (pl_s_len a)"
  shows "span_match_at m a off b \<longleftrightarrow> (\<exists>us vs. str_of m a = us @ str_of m b @ vs \<and> length us = unat off)"
  using match_at_iff [of "unat off" "str_of m b" "unat (pl_s_len a)" m "unat (pl_s_ptr a)"] assms
  by (simp add: span_match_at_def cel_byteptr_equal_iff span_bytes_def)

lemma span_prefix_iff:
  "pl_s_len b \<le> pl_s_len a \<Longrightarrow> span_match_at m a 0 b \<longleftrightarrow> prefix (str_of m b) (str_of m a)"
  by (subst span_match_at_iff) (auto simp: word_le_nat_alt prefix_def)

lemma span_suffix_iff:
  assumes "pl_s_len b \<le> pl_s_len a"
  shows "span_match_at m a (pl_s_len a - pl_s_len b) b \<longleftrightarrow> suffix (str_of m b) (str_of m a)"
proof -
  have u: "unat (pl_s_len a - pl_s_len b) + unat (pl_s_len b) = unat (pl_s_len a)"
    using assms by (simp add: unat_sub word_le_nat_alt)
  have "(\<exists>us vs. str_of m a = us @ str_of m b @ vs \<and> length us = unat (pl_s_len a - pl_s_len b)) \<longleftrightarrow>
      suffix (str_of m b) (str_of m a)"
  proof
    assume "\<exists>us vs. str_of m a = us @ str_of m b @ vs \<and> length us = unat (pl_s_len a - pl_s_len b)"
    then obtain us vs where e: "str_of m a = us @ str_of m b @ vs" "length us = unat (pl_s_len a - pl_s_len b)" by blast
    from arg_cong [OF e(1), of length] have "vs = []" using u e(2) by simp
    then show "suffix (str_of m b) (str_of m a)" using e(1) by (simp add: suffix_def)
  next
    assume "suffix (str_of m b) (str_of m a)"
    then obtain us where e: "str_of m a = us @ str_of m b" by (auto simp: suffix_def)
    from arg_cong [OF e, of length] have "length us = unat (pl_s_len a - pl_s_len b)" using u by simp
    then show "\<exists>us vs. str_of m a = us @ str_of m b @ vs \<and> length us = unat (pl_s_len a - pl_s_len b)"
      using e by (metis append.right_neutral)
  qed
  then show ?thesis using span_match_at_iff [of "pl_s_len a - pl_s_len b" b a m] u by simp
qed


subsection \<open>The kernels\<close>

definition span_kept :: "rt \<Rightarrow> cel_value \<Rightarrow> bool" where
  "span_kept s v \<longleftrightarrow> kept_range s (unat (pl_s_ptr v)) (unat (pl_s_len v))"

lemma span_kernel_write:
  "(\<And>out a b s. body out a b s = Some (f out a b s)) \<Longrightarrow> span_kernel kind body = strict_vv kind f"
  by (simp add: fun_eq_iff span_kernel_def span_op_prelude_def strict_vv_def Let_def bind_assoc
      split: Option.bind_split prod.splits)

lemma bool_span_kernel_strict:
  assumes ok: "operands_ok s out a b" and k: "kind \<noteq> CEL_ERROR" "kind \<noteq> CEL_UNKNOWN"
    and shape: "kern = span_kernel kind body" "\<And>out a b s. body out a b s = Some (write_bool out (rel (mem s) a b) s)"
  shows "\<exists>s'. kern out a b s = Some s' \<and> keeps (cel_value_at out) s s'
     \<and> (case tv_strict (tv_at s a) (tv_at s b) of
          Some r \<Rightarrow> outcome s out a b r s'
        | None \<Rightarrow> if cv_kind (cv s a) = kind \<and> cv_kind (cv s b) = kind
            then is_bool (cv s' out) (rel (mem s) (cv s a) (cv s b))
            else is_err (cv s' out) CEL_ERR_TYPE_MISMATCH)"
proof -
  let ?f = "\<lambda>out a b s. write_bool out (rel (mem s) a b) s"
  have kern: "kern = strict_vv kind ?f" unfolding shape(1) by (rule span_kernel_write) (rule shape(2))
  have sk: "strict_kernel kern kind CEL_BOOL ?f" by unfold_locales (use k kern in auto)
  show ?thesis
  proof (cases "tv_strict (tv_at s a) (tv_at s b) = None \<and> cv_kind (cv s a) = kind \<and> cv_kind (cv s b) = kind")
    case True
    have ok': "arena_ok s" using ok by (simp add: operands_ok_def)
    show ?thesis
      using True strict_kernel.on_values [OF sk, of s a b out]
        only_cell_keeps [OF only_cell_writers(5) ok', of "cel_value_at out"] is_bool_write by auto
  next
    case False
    then show ?thesis using strict_kernel.strict [OF sk ok] by (auto split: option.splits)
  qed
qed

text \<open>The relation each string or bytes predicate decides, on the bytes of its operands.\<close>

definition span_predicates :: "(u32 \<times> (u8 list \<Rightarrow> u8 list \<Rightarrow> bool) \<times> kernel2) list" where
  "span_predicates =
    [(CEL_STRING, (=), cel_string_eq_at_vv), (CEL_BYTES, (=), cel_bytes_eq_at_vv),
     (CEL_STRING, ord_class.lexordp, cel_string_lt_at_vv), (CEL_BYTES, ord_class.lexordp, cel_bytes_lt_at_vv),
     (CEL_STRING, \<lambda>x y. ord_class.lexordp y x, cel_string_gt_at_vv), (CEL_BYTES, \<lambda>x y. ord_class.lexordp y x, cel_bytes_gt_at_vv),
     (CEL_STRING, \<lambda>x y. \<not> ord_class.lexordp y x, cel_string_le_at_vv), (CEL_BYTES, \<lambda>x y. \<not> ord_class.lexordp y x, cel_bytes_le_at_vv),
     (CEL_STRING, \<lambda>x y. \<not> ord_class.lexordp x y, cel_string_ge_at_vv), (CEL_BYTES, \<lambda>x y. \<not> ord_class.lexordp x y, cel_bytes_ge_at_vv),
     (CEL_STRING, \<lambda>x y. sublist y x, cel_string_contains_at_vv),
     (CEL_STRING, \<lambda>x y. prefix y x, cel_string_starts_with_at_vv),
     (CEL_STRING, \<lambda>x y. suffix y x, cel_string_ends_with_at_vv)]"

lemma longer_no_match:
  "pl_s_len a < pl_s_len b \<Longrightarrow> \<not> prefix (str_of m b) (str_of m a)"
  "pl_s_len a < pl_s_len b \<Longrightarrow> \<not> suffix (str_of m b) (str_of m a)"
  using prefix_length_le [of "str_of m b" "str_of m a"] suffix_length_le [of "str_of m b" "str_of m a"]
  by (auto simp: word_less_nat_alt)

definition pred_kernel :: "u32 \<Rightarrow> (u8 list \<Rightarrow> u8 list \<Rightarrow> bool) \<Rightarrow> kernel2" where
  "pred_kernel kind rel = span_kernel kind (\<lambda>out a b s. Some (write_bool out (rel (str_of (mem s) a) (str_of (mem s) b)) s))"

lemma span_bool_fun: "span_bool rel = (\<lambda>out a b s. Some (write_bool out (rel (mem s) a b) s))"
  by (simp add: fun_eq_iff span_bool_def)

lemma pred_kernel_eqs:
  "cel_string_eq_at_vv = pred_kernel CEL_STRING (=)" "cel_bytes_eq_at_vv = pred_kernel CEL_BYTES (=)"
  "cel_string_lt_at_vv = pred_kernel CEL_STRING ord_class.lexordp"
  "cel_bytes_lt_at_vv = pred_kernel CEL_BYTES ord_class.lexordp"
  "cel_string_gt_at_vv = pred_kernel CEL_STRING (\<lambda>x y. ord_class.lexordp y x)"
  "cel_bytes_gt_at_vv = pred_kernel CEL_BYTES (\<lambda>x y. ord_class.lexordp y x)"
  "cel_string_le_at_vv = pred_kernel CEL_STRING (\<lambda>x y. \<not> ord_class.lexordp y x)"
  "cel_bytes_le_at_vv = pred_kernel CEL_BYTES (\<lambda>x y. \<not> ord_class.lexordp y x)"
  "cel_string_ge_at_vv = pred_kernel CEL_STRING (\<lambda>x y. \<not> ord_class.lexordp x y)"
  "cel_bytes_ge_at_vv = pred_kernel CEL_BYTES (\<lambda>x y. \<not> ord_class.lexordp x y)"
  "cel_string_contains_at_vv = pred_kernel CEL_STRING (\<lambda>x y. sublist y x)"
  by (simp_all only: pred_kernel_def span_bool_fun span_eq_iff span_lt_lexordp span_contains_iff
      cel_string_eq_at_vv_def cel_bytes_eq_at_vv_def cel_string_lt_at_vv_def cel_bytes_lt_at_vv_def
      cel_string_le_at_vv_def cel_bytes_le_at_vv_def cel_string_gt_at_vv_def cel_bytes_gt_at_vv_def
      cel_string_ge_at_vv_def cel_bytes_ge_at_vv_def cel_string_contains_at_vv_def)

lemma pred_kernel_starts: "cel_string_starts_with_at_vv = pred_kernel CEL_STRING (\<lambda>x y. prefix y x)"
proof -
  have "(if pl_s_len b > pl_s_len a then Some (write_bool out False s)
      else Some (write_bool out (span_match_at (mem s) a 0 b) s)) =
      Some (write_bool out (prefix (str_of (mem s) b) (str_of (mem s) a)) s)" for out a b s
    using longer_no_match span_prefix_iff [of b a] by (auto simp: not_less)
  then show ?thesis by (simp only: cel_string_starts_with_at_vv_def pred_kernel_def)
qed

lemma pred_kernel_ends: "cel_string_ends_with_at_vv = pred_kernel CEL_STRING (\<lambda>x y. suffix y x)"
proof -
  have "(if pl_s_len b > pl_s_len a then Some (write_bool out False s)
      else Some (write_bool out (span_match_at (mem s) a (pl_s_len a - pl_s_len b) b) s)) =
      Some (write_bool out (suffix (str_of (mem s) b) (str_of (mem s) a)) s)" for out a b s
    using longer_no_match span_suffix_iff [of b a] by (auto simp: not_less)
  then show ?thesis by (simp only: cel_string_ends_with_at_vv_def pred_kernel_def)
qed

lemma span_predicate_shape:
  "(kind, rel, kern) \<in> set span_predicates \<Longrightarrow>
   kern = pred_kernel kind rel \<and> kind \<noteq> CEL_ERROR \<and> kind \<noteq> CEL_UNKNOWN"
  unfolding span_predicates_def list.set
  by (elim insertE emptyE) (simp_all add: pred_kernel_eqs pred_kernel_starts pred_kernel_ends)

text \<open>
  C8. Every string and bytes predicate is strict and decides the list relation it is named after
  on the bytes of its operands: equality, lexicographic order, and for strings containment of a
  sublist, prefix and suffix, whatever word-at-a-time search computed it.
\<close>

theorem span_predicates_decide:
  assumes "(kind, rel, kern) \<in> set span_predicates" and "operands_ok s out a b"
  shows "\<exists>s'. kern out a b s = Some s' \<and> keeps (cel_value_at out) s s'
     \<and> (case tv_strict (tv_at s a) (tv_at s b) of
          Some r \<Rightarrow> outcome s out a b r s'
        | None \<Rightarrow> if cv_kind (cv s a) = kind \<and> cv_kind (cv s b) = kind
            then is_bool (cv s' out) (rel (str_of (mem s) (cv s a)) (str_of (mem s) (cv s b)))
            else is_err (cv s' out) CEL_ERR_TYPE_MISMATCH)"
  using bool_span_kernel_strict [OF assms(2) _ _ _ refl, of kind kern "\<lambda>m a b. rel (str_of m a) (str_of m b)"]
    span_predicate_shape [OF assms(1)] unfolding pred_kernel_def by blast

theorem span_predicates_decide_witness:
  "\<exists>s'. cel_string_contains_at_vv 256 128 192 sample_unknowns = Some s' \<and> tv_at s' 256 = VErr 17"
  using span_predicates_decide [of CEL_STRING "\<lambda>x y. sublist y x" cel_string_contains_at_vv,
      OF _ sample_unknowns_ok [of 128 192]]
  by (auto simp: span_predicates_def outcome_def sample_unknowns_cells sample_unknowns_tv [unfolded sample_unknowns_cells])

subsection \<open>Kernels that allocate\<close>

text \<open>Copying a byte list into a fresh block: an extension of the state that holds the list.\<close>

lemma alloc_fill:
  assumes ok: "arena_ok s" and len: "length bs = unat n"
  obtains (null) s' where "arena_alloc n s = Some (0, s')" "extends s s'" "mem s' = mem s"
  | (block) p s' where "arena_alloc n s = Some (p, s')" "p \<noteq> 0"
      "extends s (s'\<lparr>mem := store_bytes (mem s') (unat p) bs\<rparr>)" "extends s s'"
      "kept_range s' (unat p) (unat n)" "\<And>x. unat p \<le> x \<Longrightarrow> x < unat p + unat n \<Longrightarrow> \<not> kept s x"
      "unat p + unat n \<le> 2 ^ 32 - 1"
      "bytes_at (store_bytes (mem s') (unat p) bs) (unat p) (unat n) = bs"
proof (cases rule: arena_alloc_extends [OF ok, of n])
  case (1 s')
  then show thesis by (rule null)
next
  case (2 p s')
  have o: "same_outside (unat p) (unat n) (mem s') (store_bytes (mem s') (unat p) bs)"
    by (rule same_outside_store_bytes) (simp_all add: len)
  show thesis
    by (rule block [OF 2(1,2) extends_fill [OF 2(3) o 2(5)] 2(3,4,5,6)])
      (use bytes_at_store_bytes [of "mem s'" "unat p" bs] len in simp_all)
qed

lemma store_bytes_append: "store_bytes m a (xs @ ys) = store_bytes (store_bytes m a xs) (a + length xs) ys"
  by (induction xs arbitrary: m a) auto

lemma kept_outside:
  assumes "\<And>x. p \<le> x \<Longrightarrow> x < p + n \<Longrightarrow> \<not> kept s x" "kept_range s a k"
  shows "apart a k p n"
proof (rule ccontr)
  assume "\<not> apart a k p n"
  then have h: "0 < k" "0 < n" "p < a + k" "a < p + n" by (auto simp: apart_def)
  let ?x = "max a p"
  have "kept s ?x" using assms(2) h unfolding kept_range_def by auto
  then show False using assms(1) [of ?x] h by auto
qed

lemma load_cv_under_bytes: "a + 24 \<le> p \<Longrightarrow> load_cv (store_bytes m p bs) a = load_cv m a"
  by (rule load_cv_local) (auto simp: store_bytes_apply)

lemma load32_store_bytes_below: "a + 4 \<le> p \<Longrightarrow> load32 (store_bytes m p bs) a = load32 m a"
  by (rule load32_cong) (auto simp: store_bytes_apply)

lemma bytes_at_store_bytes_apart:
  "apart a n b (length bs) \<Longrightarrow> bytes_at (store_bytes m b bs) a n = bytes_at m a n"
  by (intro bytes_at_cong) (auto simp: store_bytes_apply apart_def)

text \<open>Writing kind, pointer and length into the out slot.\<close>

definition set_span :: "u32 \<Rightarrow> u32 \<Rightarrow> u32 \<Rightarrow> nat \<Rightarrow> rt \<Rightarrow> rt" where
  "set_span kind off len out s = s\<lparr>mem := store32 (store32 (store32 (mem s) out kind) (out + 8) off) (out + 12) len\<rparr>"

lemma cell_set_span [cell_simps]:
  "cv_kind (load_cv (mem (set_span kind off len out s)) out) = kind"
  "pl_s_ptr (load_cv (mem (set_span kind off len out s)) out) = off"
  "pl_s_len (load_cv (mem (set_span kind off len out s)) out) = len"
  by (simp_all add: set_span_def mem_simps pl_defs)

lemma only_cell_set_span: "only_cell out s (set_span kind off len out s)"
  unfolding set_span_def
proof (rule only_cell_store)
  have "same_outside out 24 (mem s) (store32 (mem s) out kind)" by (rule same_outside_store32) simp_all
  also have "same_outside out 24 \<dots> (store32 (store32 (mem s) out kind) (out + 8) off)" by (rule same_outside_store32) simp_all
  also have "same_outside out 24 \<dots> (store32 (store32 (store32 (mem s) out kind) (out + 8) off) (out + 12) len)"
    by (rule same_outside_store32) simp_all
  finally show "same_outside out 24 (mem s) (store32 (store32 (store32 (mem s) out kind) (out + 8) off) (out + 12) len)" .
qed

lemma str_of_set_span:
  "apart (unat off) (unat len) out 24 \<Longrightarrow>
   str_of (mem (set_span kind off len out s)) (load_cv (mem (set_span kind off len out s)) out) = bytes_at (mem s) (unat off) (unat len)"
  using only_cell_set_span [of out s kind off len] unfolding only_cell_def span_bytes_def cell_set_span
  by (auto intro!: bytes_at_cong simp: same_outside_def apart_def)

text \<open>The value a span result has: its kind, its bytes, and that they stay.\<close>

definition span_result :: "u32 \<Rightarrow> u8 list \<Rightarrow> rt \<Rightarrow> cel_value \<Rightarrow> bool" where
  "span_result kind bs s v \<longleftrightarrow> cv_kind v = kind \<and> str_of (mem s) v = bs \<and> span_kept s v"

lemma concat_into_out_correct:
  assumes ok: "arena_ok s" and keep: "span_kept s a" "span_kept s b" "kept_range s out 24"
  defines "tot \<equiv> unat (pl_s_len a) + unat (pl_s_len b)"
  shows "\<exists>s'. concat_into_out out a b kind s = Some s' \<and> keeps out s s'
     \<and> (span_result kind (str_of (mem s) a @ str_of (mem s) b) s' (load_cv (mem s') out) \<and> tot < 2 ^ 32
        \<or> is_err (load_cv (mem s') out) CEL_ERR_OVERFLOW
          \<and> (2 ^ 32 \<le> tot \<or> (\<exists>s1. arena_alloc (pl_s_len a + pl_s_len b) s = Some (0, s1))))"
proof (cases "pl_s_len b > UINT32_MAX - pl_s_len a")
  case True
  have u: "unat (UINT32_MAX - pl_s_len a) = 2 ^ 32 - 1 - unat (pl_s_len a)"
    using unat_u32_lt [of "pl_s_len a"] by (subst unat_sub) (auto simp: word_le_nat_alt)
  have "2 ^ 32 \<le> tot" using True u unat_u32_lt [of "pl_s_len a"] unfolding tot_def word_less_nat_alt by simp
  then show ?thesis using True is_err_poison only_cell_keeps [OF only_cell_writers(1) ok]
    by (auto simp: concat_into_out_def)
next
  case False
  let ?n = "pl_s_len a + pl_s_len b" and ?A = "str_of (mem s) a" and ?B = "str_of (mem s) b"
  have u: "unat (UINT32_MAX - pl_s_len a) = 2 ^ 32 - 1 - unat (pl_s_len a)"
    using unat_u32_lt [of "pl_s_len a"] by (subst unat_sub) (auto simp: word_le_nat_alt)
  have t: "tot < 2 ^ 32" using False u unat_u32_lt [of "pl_s_len a"] unfolding tot_def word_less_nat_alt by simp
  then have n: "unat ?n = tot" unfolding tot_def by (simp add: unat_word_ariths)
  show ?thesis
  proof (cases "?n > 0")
    case z: False
    then have "?n = 0" by (simp only: word_gt_0 simp_thms)
    then have "tot = 0" using n by (simp only: unat_0)
    then have l: "pl_s_len a = 0" "pl_s_len b = 0" unfolding tot_def by (simp_all add: unat_eq_zero)
    have "concat_into_out out a b kind s = Some (set_span kind 0 0 out s)"
      using False z l by (simp add: concat_into_out_def set_span_def Let_def)
    moreover have "span_result kind (?A @ ?B) (set_span kind 0 0 out s) (load_cv (mem (set_span kind 0 0 out s)) out)"
      by (simp add: span_result_def span_kept_def cell_simps kept_range_def span_bytes_def l)
    ultimately show ?thesis using only_cell_keeps [OF only_cell_set_span ok] t by blast
  next
    case True
    have len: "length (?A @ ?B) = unat ?n" using n by (simp add: tot_def)
    show ?thesis
    proof (cases rule: alloc_fill [OF ok len])
      case (1 s')
      then have "concat_into_out out a b kind s = Some (poison out CEL_ERR_OVERFLOW s')"
        using False True by (simp add: concat_into_out_def Let_def)
      moreover have "keeps out s (poison out CEL_ERR_OVERFLOW s')"
        by (rule keeps_trans [OF extends_keeps [OF 1(2)] only_cell_keeps [OF only_cell_writers(1)]])
          (use 1(2) in \<open>simp add: extends_def\<close>)
      ultimately show ?thesis using is_err_poison 1(1) by blast
    next
      case (2 p s')
      let ?m = "store_bytes (mem s') (unat p) (?A @ ?B)"
      let ?s2 = "s'\<lparr>mem := ?m\<rparr>"
      have ok2: "arena_ok ?s2" using 2(3) by (simp add: extends_def)
      have A: "span_bytes (mem s') (pl_s_ptr a) (pl_s_len a) = ?A"
        using keep(1) extends_loads(3) [OF 2(4)] by (simp add: span_bytes_def span_kept_def)
      have ap: "apart (unat (pl_s_ptr b)) (unat (pl_s_len b)) (unat p) (unat ?n)"
        by (rule kept_outside [OF 2(6)]) (use keep(2) in \<open>simp_all add: span_kept_def\<close>)
      have B: "span_bytes (store_bytes (mem s') (unat p) ?A) (pl_s_ptr b) (pl_s_len b) = ?B"
      proof -
        have "apart (unat (pl_s_ptr b)) (unat (pl_s_len b)) (unat p) (length ?A)"
          using ap n by (auto simp: apart_def tot_def)
        from bytes_at_store_bytes_apart [OF this] show ?thesis
          using keep(2) extends_loads(3) [OF 2(4)] by (simp add: span_bytes_def span_kept_def)
      qed
      have run: "concat_into_out out a b kind s = Some (set_span kind p ?n out ?s2)"
        using False True 2(1,2) A B
        by (simp add: concat_into_out_def Let_def set_span_def store_bytes_append)
      have "apart out 24 (unat p) (unat ?n)" by (rule kept_outside [OF 2(6) keep(3)])
      then have "apart (unat p) (unat ?n) out 24" by (auto simp: apart_def)
      from str_of_set_span [OF this, of kind ?s2]
      have "span_result kind (?A @ ?B) (set_span kind p ?n out ?s2) (load_cv (mem (set_span kind p ?n out ?s2)) out)"
        using 2(5,8) by (simp add: span_result_def span_kept_def cell_simps) (simp add: set_span_def)
      moreover have "keeps out s (set_span kind p ?n out ?s2)"
        by (rule keeps_trans [OF extends_keeps [OF 2(3)] only_cell_keeps [OF only_cell_set_span ok2]])
      ultimately show ?thesis using run t by blast
    qed
  qed
qed

lemma span_kernel_values:
  assumes "cv_kind (cv s a_slot) = kind" "cv_kind (cv s b_slot) = kind" "kind \<noteq> CEL_ERROR" "kind \<noteq> CEL_UNKNOWN"
  shows "span_kernel kind body out_slot a_slot b_slot s = body (cel_value_at out_slot) (cv s a_slot) (cv s b_slot) s"
  using assms by (simp add: span_kernel_def span_op_prelude_def absorb_3vl_binary_def require_kinds_def Let_def)

text \<open>A freshly made cell: the state is extended and the cell holds what the fill wrote.\<close>

lemma make_cell_correct:
  assumes ok: "arena_ok s" and fill: "\<And>v s. only_cell v s (fill v s)"
  shows "\<exists>off s'. make_cell fill s = Some (off, s') \<and> extends s s' \<and>
    (off \<noteq> 0 \<longrightarrow> (\<exists>s1. arena_alloc 24 s = Some (off, s1) \<and> s' = fill (unat off) s1 \<and> extends s s1)
       \<and> kept_range s' (unat off) 24 \<and> (\<forall>x. unat off \<le> x \<and> x < unat off + 24 \<longrightarrow> \<not> kept s x))"
proof (cases rule: arena_alloc_extends [OF ok, of 24])
  case (1 s')
  then show ?thesis by (auto simp: make_cell_def alloc_cv_def)
next
  case (2 p s')
  have o: "only_cell (unat p) s' (fill (unat p) s')" by (rule fill)
  have "extends s (s'\<lparr>mem := mem (fill (unat p) s')\<rparr>)"
    by (rule extends_fill [OF 2(3), of "unat p" 24]) (use o 2(5) in \<open>simp_all add: only_cell_def\<close>)
  then have e: "extends s (fill (unat p) s')" using o by (simp add: only_cell_def)
  have "kept_range s' (unat p) 24" using 2(4) by simp
  then have "kept_range (fill (unat p) s') (unat p) 24" using o unfolding only_cell_def by (metis kept_mem(2))
  then show ?thesis using 2 e by (simp add: make_cell_def alloc_cv_def)
qed

subsection \<open>UTF-8\<close>

text \<open>The UTF-8 encoding of a code point, and strings that are encodings of code point lists.\<close>

definition utf8_encode :: "u32 \<Rightarrow> u8 list" where
  "utf8_encode c =
     (let tail = (\<lambda>k. 0x80 OR ucast (drop_bit k c AND 0x3F)) in
      if c < 0x80 then [ucast c]
      else if c < 0x800 then [0xC0 OR ucast (drop_bit 6 c), tail 0]
      else if c < 0x10000 then [0xE0 OR ucast (drop_bit 12 c), tail 6, tail 0]
      else [0xF0 OR ucast (drop_bit 18 c), tail 12, tail 6, tail 0])"

definition utf8_string :: "u32 list \<Rightarrow> u8 list" where
  "utf8_string cs = concat (map utf8_encode cs)"

definition utf8_lead :: "u8 \<Rightarrow> bool" where
  "utf8_lead b \<longleftrightarrow> b AND 0xC0 \<noteq> 0x80"

lemma utf8_codepoint_count_leads:
  "utf8_codepoint_count m p len i n = n + word_of_nat (length (filter utf8_lead (bytes_at m (p + i) (len - i))))"
proof (induction m p len i n rule: utf8_codepoint_count.induct)
  case (1 m p len i n)
  show ?case
  proof (cases "i < len")
    case True
    then show ?thesis using "1.IH" [OF True]
      by (simp add: utf8_codepoint_count.simps [of m p len i n] bytes_at_Cons [OF True] utf8_lead_def)
  next
    case False
    then show ?thesis by (simp add: utf8_codepoint_count.simps [of m p len i n])
  qed
qed

lemma bits8: "n < 8 \<Longrightarrow> n = 0 \<or> n = 1 \<or> n = 2 \<or> n = 3 \<or> n = 4 \<or> n = 5 \<or> n = 6 \<or> n = (7 :: nat)"
  by linarith

lemma utf8_lead_bits: "utf8_lead b \<longleftrightarrow> \<not> (bit b 7 \<and> \<not> bit b 6)"
proof -
  have "b AND 0xC0 = (0x80 :: u8) \<longleftrightarrow> (\<forall>n<8. (bit b n \<and> bit (0xC0 :: u8) n) = bit (0x80 :: u8) n)"
    by (auto simp: bit_eq_iff bit_simps)
  also have "\<dots> \<longleftrightarrow> bit b 7 \<and> \<not> bit b 6"
  proof
    assume "\<forall>n<8. (bit b n \<and> bit (0xC0 :: u8) n) = bit (0x80 :: u8) n"
    from this [rule_format, of 7] this [rule_format, of 6] show "bit b 7 \<and> \<not> bit b 6" by simp
  qed (auto dest!: bits8)
  finally show ?thesis by (simp add: utf8_lead_def)
qed

lemma utf8_leads_encode: "c < 0x110000 \<Longrightarrow> length (filter utf8_lead (utf8_encode c)) = 1"
proof -
  have ascii: "\<not> bit c 7" if "c < 0x80"
  proof -
    have "unat c div 2 ^ 7 = 0" using that by (simp add: word_less_nat_alt)
    then have "\<not> bit (unat c) 7" unfolding bit_iff_odd by (simp only: even_zero simp_thms)
    then show ?thesis by (simp add: bit_unsigned_iff)
  qed
  have lead: "utf8_lead (0xC0 OR x)" "utf8_lead (0xE0 OR x)" "utf8_lead (0xF0 OR x)" for x
    by (simp_all add: utf8_lead_bits bit_simps)
  have tail: "\<not> utf8_lead (0x80 OR ucast (x AND (0x3F :: u32)))" for x
    by (simp add: utf8_lead_bits bit_simps)
  show ?thesis using ascii lead tail by (auto simp: utf8_encode_def Let_def utf8_lead_bits bit_simps)
qed

lemma utf8_leads_string:
  "(\<forall>c\<in>set cs. c < 0x110000) \<Longrightarrow> length (filter utf8_lead (utf8_string cs)) = length cs"
  by (induction cs) (auto simp: utf8_string_def utf8_leads_encode)

subsection \<open>Properties of the constructors and the allocating kernels\<close>

text \<open>
  The size of a string is its number of code points: on the UTF-8 encoding of a list of code
  points the kernel writes the length of the list.
\<close>

theorem string_size_code_points:
  assumes k: "cv_kind (cv s a) = CEL_STRING" and e: "str_of (mem s) (cv s a) = utf8_string cs"
    and c: "\<forall>c\<in>set cs. c < 0x110000"
  shows "\<exists>s'. cel_string_size_at_v out a s = Some s' \<and> only_cell (cel_value_at out) s s'
     \<and> is_int (cv s' out) (int (length cs))"
proof -
  let ?n = "utf8_codepoint_count (mem s) (unat (pl_s_ptr (cv s a))) (unat (pl_s_len (cv s a))) 0 0"
  have n: "?n = word_of_nat (length cs)"
    using e utf8_leads_string [OF c] by (simp add: utf8_codepoint_count_leads span_bytes_def)
  have "length cs \<le> length (str_of (mem s) (cv s a))"
    using utf8_leads_string [OF c] e by (metis length_filter_le)
  then have "length cs < 2 ^ 32" using unat_u32_lt [of "pl_s_len (cv s a)"] by simp
  then have "sint (word_of_int (int (length cs)) :: u64) = int (length cs)" by (intro sint_word_of_int64) simp_all
  then have "sint ?n = int (length cs)" unfolding n by simp
  moreover have "cel_string_size_at_v out a s = Some (write_int (cel_value_at out) ?n s)"
    unfolding cel_string_size_at_v_def using k by (subst strict_v_value) simp_all
  ultimately show ?thesis using is_int_write [of "cel_value_at out" ?n s] only_cell_writers(2) by metis
qed

definition sample_string :: rt where
  "sample_string = two_cells (cell_of CEL_STRING (join32 200 3)) (cell_of CEL_STRING (join32 201 2))
     \<lparr>mem := store_bytes (mem (two_cells (cell_of CEL_STRING (join32 200 3)) (cell_of CEL_STRING (join32 201 2)))) 200 (utf8_string [0x41, 0xE9])\<rparr>"

lemma sample_string_bytes: "utf8_string [0x41, 0xE9] = [0x41, 0xC3, 0xA9]"
  by (simp add: utf8_string_def utf8_encode_def)

lemma sample_string_cells:
  "cv sample_string 128 = cell_of CEL_STRING (join32 200 3)" "cv sample_string 160 = cell_of CEL_STRING (join32 201 2)"
proof -
  have "load_cv (mem sample_string) a = load_cv (mem (two_cells (cell_of CEL_STRING (join32 200 3)) (cell_of CEL_STRING (join32 201 2)))) a"
    if "a + 24 \<le> 200" for a
    using that by (intro load_cv_local) (simp add: sample_string_def store_bytes_apply)
  from this [of 128] this [of 160]
  show "cv sample_string 128 = cell_of CEL_STRING (join32 200 3)" "cv sample_string 160 = cell_of CEL_STRING (join32 201 2)"
    by (simp_all add: cel_value_at_def del: two_cells_cv) (simp_all add: two_cells_def mem_simps)
qed

lemma sample_string_spans:
  "str_of (mem sample_string) (cv sample_string 128) = [0x41, 0xC3, 0xA9]"
  "str_of (mem sample_string) (cv sample_string 160) = [0xC3, 0xA9]"
  unfolding sample_string_cells
  by (simp_all add: sample_string_def sample_string_bytes span_bytes_def bytes_at_def pl_defs upt_rec)

theorem string_size_code_points_witness:
  "\<exists>s'. cel_string_size_at_v 192 128 sample_string = Some s' \<and> is_int (cv s' 192) 2"
  using string_size_code_points [of sample_string 128 "[0x41, 0xE9]" 192] sample_string_spans(1) sample_string_bytes
  by (auto simp: sample_string_cells)

text \<open>
  C9. Concatenation of two strings or two bytes values holds the concatenated bytes in memory the
  allocator keeps; it fails with the overflow error only when the combined length does not fit
  32 bits or the arena is exhausted, and no live byte outside the out slot changes.
\<close>

theorem span_concat_correct:
  assumes kern: "(kind, kern) \<in> {(CEL_STRING, cel_string_concat_at_vv), (CEL_BYTES, cel_bytes_concat_at_vv)}"
    and k: "cv_kind (cv s a) = kind" "cv_kind (cv s b) = kind"
    and ok: "arena_ok s" "kept_range s (cel_value_at out) 24" "span_kept s (cv s a)" "span_kept s (cv s b)"
  shows "\<exists>s'. kern out a b s = Some s' \<and> keeps (cel_value_at out) s s'
     \<and> (span_result kind (str_of (mem s) (cv s a) @ str_of (mem s) (cv s b)) s' (cv s' out)
        \<or> is_err (cv s' out) CEL_ERR_OVERFLOW
          \<and> (2 ^ 32 \<le> length (str_of (mem s) (cv s a)) + length (str_of (mem s) (cv s b))
             \<or> (\<exists>s1. arena_alloc (pl_s_len (cv s a) + pl_s_len (cv s b)) s = Some (0, s1))))"
proof -
  have "kern out a b s = concat_into_out (cel_value_at out) (cv s a) (cv s b) kind s"
    using kern k by (auto simp: cel_string_concat_at_vv_def cel_bytes_concat_at_vv_def span_kernel_values)
  then show ?thesis using concat_into_out_correct [OF ok(1,3,4,2), of kind] by auto
qed

theorem span_concat_correct_witness:
  "\<exists>s'. cel_string_concat_at_vv 256 128 160 sample_string = Some s' \<and> keeps 256 sample_string s'"
proof -
  have ok: "arena_ok sample_string" by (simp add: sample_string_def)
  have low: "kept_range sample_string a n" if "a + n \<le> 1000" for a n
    using that by (auto simp: kept_range_def kept_def)
  show ?thesis
    using span_concat_correct [of CEL_STRING cel_string_concat_at_vv sample_string 128 160 256, OF _ _ _ ok]
      low [of 256 24] low [of 200 3] low [of 201 2]
    by (auto simp: sample_string_cells span_kept_def pl_defs) (auto simp: cel_value_at_def)
qed

text \<open>A cell for a span: it holds the bytes the span points at.\<close>

lemma make_span_cell:
  assumes t: "arena_ok t" "kept_range t (unat d) (unat n)"
  shows "\<exists>off t'. make_cell (set_span kind d n) t = Some (off, t') \<and> extends t t' \<and>
     (off \<noteq> 0 \<longrightarrow> span_result kind (bytes_at (mem t) (unat d) (unat n)) t' (load_cv (mem t') (unat off)) \<and> kept_range t' (unat off) 24)"
proof -
  obtain off t' where r: "make_cell (set_span kind d n) t = Some (off, t')" "extends t t'"
    "off \<noteq> 0 \<longrightarrow> (\<exists>s1. arena_alloc 24 t = Some (off, s1) \<and> t' = set_span kind d n (unat off) s1 \<and> extends t s1)
     \<and> kept_range t' (unat off) 24 \<and> (\<forall>x. unat off \<le> x \<and> x < unat off + 24 \<longrightarrow> \<not> kept t x)"
    using make_cell_correct [OF t(1), of "set_span kind d n"] only_cell_set_span by blast
  show ?thesis
  proof (cases "off = 0")
    case True
    then show ?thesis using r by auto
  next
    case False
    then obtain s1 where s1: "t' = set_span kind d n (unat off) s1" "extends t s1" using r(3) by blast
    have "apart (unat d) (unat n) (unat off) 24"
      by (rule kept_outside [OF _ t(2)]) (use r(3) False in blast)
    from str_of_set_span [OF this, of kind s1]
    have "str_of (mem t') (load_cv (mem t') (unat off)) = bytes_at (mem t) (unat d) (unat n)"
      using extends_loads(3) [OF s1(2) t(2)] s1(1) by simp
    moreover have "kept_range t' (unat d) (unat n)"
      using r(2) t(2) by (auto simp: extends_def intro: kept_range_mono)
    ultimately have "span_result kind (bytes_at (mem t) (unat d) (unat n)) t' (load_cv (mem t') (unat off))"
      using s1(1) by (simp add: span_result_def span_kept_def cell_simps)
    then show ?thesis using r False by auto
  qed
qed

text \<open>
  The string and bytes constructors return an offset whose cell has the requested kind and a
  private copy of the source bytes, or 0; either way the state is only extended.
\<close>

theorem make_span_copies:
  assumes mk: "(kind, mk) \<in> {(CEL_STRING, cel_make_string), (CEL_BYTES, cel_make_bytes)}"
    and ok: "arena_ok s" and src: "kept_range s (unat src) (unat n)"
  shows "\<exists>off s'. mk src n s = Some (off, s') \<and> extends s s' \<and>
     (off \<noteq> 0 \<longrightarrow> span_result kind (span_bytes (mem s) src n) s' (load_cv (mem s') (unat off))
        \<and> kept_range s' (unat off) 24)"
proof -
  have mk': "mk src n s = make_span_copy kind src n s"
    using mk by (auto simp: cel_make_string_def cel_make_bytes_def)
  define cell where "cell off t = make_cell (set_span kind off n) t" for off t
  have finish: "\<exists>off t'. cell d t = Some (off, t') \<and> extends t t' \<and>
     (off \<noteq> 0 \<longrightarrow> span_result kind (bytes_at (mem t) (unat d) (unat n)) t' (load_cv (mem t') (unat off)) \<and> kept_range t' (unat off) 24)"
    if "arena_ok t" "kept_range t (unat d) (unat n)" for d t
    unfolding cell_def using make_span_cell [OF that] .
  show ?thesis
  proof (cases "n > 0")
    case False
    then have n: "n = 0" by (simp only: word_gt_0 simp_thms)
    then have "make_span_copy kind src n s = cell 0 s" by (simp add: make_span_copy_def cell_def set_span_def [abs_def])
    then show ?thesis using finish [OF ok, of 0] n unfolding mk' by (simp add: span_bytes_def kept_range_def)
  next
    case True
    have len: "length (span_bytes (mem s) src n) = unat n" by simp
    show ?thesis
    proof (cases rule: alloc_fill [OF ok len])
      case (1 s')
      then show ?thesis using True unfolding mk' by (auto simp: make_span_copy_def)
    next
      case (2 p s')
      let ?t = "s'\<lparr>mem := store_bytes (mem s') (unat p) (span_bytes (mem s) src n)\<rparr>"
      have src': "span_bytes (mem s') src n = span_bytes (mem s) src n"
        using extends_loads(3) [OF 2(4) src] by (simp add: span_bytes_def)
      have run: "make_span_copy kind src n s = cell p ?t"
        using True 2(1,2) src' by (simp add: make_span_copy_def cell_def set_span_def [abs_def])
      have "arena_ok ?t" using 2(3) by (simp add: extends_def)
      moreover have "kept_range ?t (unat p) (unat n)" using 2(5) by simp
      ultimately show ?thesis using finish [of ?t p] 2(3,8) extends_trans [OF 2(3)] unfolding mk' run by fastforce
    qed
  qed
qed

theorem make_span_copies_witness:
  "\<exists>off s'. cel_make_string 200 3 sample_string = Some (off, s') \<and> extends sample_string s'"
proof -
  have ok: "arena_ok sample_string" by (simp add: sample_string_def)
  have "kept_range sample_string 200 3" by (auto simp: kept_range_def kept_def)
  then show ?thesis using make_span_copies [of CEL_STRING cel_make_string sample_string 200 3, OF _ ok] by auto
qed

end
