(* ===== verification/ValueEq.thy ===== *)
theory ValueEq
  imports StringOps
begin

text \<open>
  Value equality: \<open>cel_value_eq\<close> of \<open>runtime/cel_runtime.c\<close> (the \<open>==\<close> rule on scalars), the map
  key rule \<open>cel_map_key_eq\<close> of \<open>runtime/cel_compare.c\<close>, and the network address equalities they
  call. Both are functions of the operand cells and of the memory their spans point into.
\<close>

subsection \<open>Network values\<close>

definition pl_net_ref :: "cel_value \<Rightarrow> u32" where "pl_net_ref v = lo32 (cv_lo v)"

definition net_ip_eq :: "memory \<Rightarrow> cel_value \<Rightarrow> cel_value \<Rightarrow> bool" where
  "net_ip_eq m a b =
     (let ia = unat (pl_net_ref a); ib = unat (pl_net_ref b) in
      if load32 m ia \<noteq> load32 m ib then False
      else list_all (\<lambda>k. m (ia + 4 + k) = m (ib + 4 + k)) [0..<16])"

definition net_cidr_eq :: "memory \<Rightarrow> cel_value \<Rightarrow> cel_value \<Rightarrow> bool" where
  "net_cidr_eq m a b =
     (let ca = unat (pl_net_ref a); cb = unat (pl_net_ref b) in
      if load32 m ca \<noteq> load32 m cb \<or> load32 m (ca + 4) \<noteq> load32 m (cb + 4) then False
      else list_all (\<lambda>k. m (ca + 8 + k) = m (cb + 8 + k)) [0..<16])"

subsection \<open>Scalar equality\<close>

definition cel_value_eq :: "memory \<Rightarrow> cel_value \<Rightarrow> cel_value \<Rightarrow> bool" where
  "cel_value_eq m a b =
     (if is_numeric_kind (cv_kind a) \<and> is_numeric_kind (cv_kind b)
        then numeric_compare_kernel a b = CmpEqual
      else if cv_kind a = CEL_STRING \<and> cv_kind b = CEL_STRING
        then spans_equal m (pl_s_ptr a) (pl_s_len a) (pl_s_ptr b) (pl_s_len b)
      else if cv_kind a = CEL_BOOL \<and> cv_kind b = CEL_BOOL
        then (pl_b a \<noteq> 0) = (pl_b b \<noteq> 0)
      else if cv_kind a = CEL_BYTES \<and> cv_kind b = CEL_BYTES
        then spans_equal m (pl_s_ptr a) (pl_s_len a) (pl_s_ptr b) (pl_s_len b)
      else if cv_kind a = CEL_NULL \<and> cv_kind b = CEL_NULL then True
      else if cv_kind a = CEL_DURATION \<and> cv_kind b = CEL_DURATION
        then pl_seconds a = pl_seconds b \<and> pl_nanos a = pl_nanos b
      else if cv_kind a = CEL_TIMESTAMP \<and> cv_kind b = CEL_TIMESTAMP
        then pl_seconds a = pl_seconds b \<and> pl_nanos a = pl_nanos b
      else if cv_kind a = CEL_IP \<and> cv_kind b = CEL_IP then net_ip_eq m a b
      else if cv_kind a = CEL_CIDR \<and> cv_kind b = CEL_CIDR then net_cidr_eq m a b
      else False)"

definition is_scalar_eq_kind :: "u32 \<Rightarrow> bool" where
  "is_scalar_eq_kind kind \<longleftrightarrow>
     kind = CEL_NULL \<or> kind = CEL_BOOL \<or> kind = CEL_INT \<or> kind = CEL_UINT \<or> kind = CEL_DOUBLE
     \<or> kind = CEL_STRING \<or> kind = CEL_BYTES \<or> kind = CEL_DURATION \<or> kind = CEL_TIMESTAMP
     \<or> kind = CEL_IP \<or> kind = CEL_CIDR"

definition cel_map_key_eq :: "memory \<Rightarrow> cel_value \<Rightarrow> cel_value \<Rightarrow> bool" where
  "cel_map_key_eq m a b =
     (if is_numeric_kind (cv_kind a) \<and> is_numeric_kind (cv_kind b) then cel_numeric_key_eq a b
      else cel_value_eq m a b)"

subsection \<open>The value a cell stands for\<close>

text \<open>
  Scalars as mathematical values. Numbers of the three kinds are one domain: the exact value in
  units of the least positive double. A NaN and the non-scalar kinds stand for no value.
\<close>

datatype scalar =
    SNull | SBool bool | SNum int | SStr "u8 list" | SBytes "u8 list"
  | SDuration u64 u32 | STimestamp u64 u32 | SIp u32 "u8 list" | SCidr u32 u32 "u8 list"

definition scalar_of :: "memory \<Rightarrow> cel_value \<Rightarrow> scalar option" where
  "scalar_of m v =
     (let k = cv_kind v; r = unat (pl_net_ref v) in
      if is_numeric_kind k then (if num_ok v then Some (SNum (num_val v)) else None)
      else if k = CEL_STRING then Some (SStr (str_of m v))
      else if k = CEL_BOOL then Some (SBool (pl_b v \<noteq> 0))
      else if k = CEL_BYTES then Some (SBytes (str_of m v))
      else if k = CEL_NULL then Some SNull
      else if k = CEL_DURATION then Some (SDuration (pl_seconds v) (pl_nanos v))
      else if k = CEL_TIMESTAMP then Some (STimestamp (pl_seconds v) (pl_nanos v))
      else if k = CEL_IP then Some (SIp (load32 m r) (bytes_at m (r + 4) 16))
      else if k = CEL_CIDR then Some (SCidr (load32 m r) (load32 m (r + 4)) (bytes_at m (r + 8) 16))
      else None)"

lemma list_all_bytes_at: "list_all (\<lambda>k. m (a + k) = m (b + k)) [0..<n] \<longleftrightarrow> bytes_at m a n = bytes_at m b n"
  by (auto simp: list_all_iff bytes_at_def list_eq_iff_nth_eq)

lemma net_eq_iff:
  "net_ip_eq m a b \<longleftrightarrow> load32 m (unat (pl_net_ref a)) = load32 m (unat (pl_net_ref b))
     \<and> bytes_at m (unat (pl_net_ref a) + 4) 16 = bytes_at m (unat (pl_net_ref b) + 4) 16"
  "net_cidr_eq m a b \<longleftrightarrow> load32 m (unat (pl_net_ref a)) = load32 m (unat (pl_net_ref b))
     \<and> load32 m (unat (pl_net_ref a) + 4) = load32 m (unat (pl_net_ref b) + 4)
     \<and> bytes_at m (unat (pl_net_ref a) + 8) 16 = bytes_at m (unat (pl_net_ref b) + 8) 16"
  unfolding net_ip_eq_def net_cidr_eq_def Let_def list_all_bytes_at by auto

lemma cel_map_key_eq_iff:
  "cel_map_key_eq m a b \<longleftrightarrow> (\<exists>k. scalar_of m a = Some k \<and> scalar_of m b = Some k)"
proof (cases "is_numeric_kind (cv_kind a) \<and> is_numeric_kind (cv_kind b)")
  case True
  then show ?thesis by (auto simp: cel_map_key_eq_def cel_numeric_key_eq_iff scalar_of_def)
next
  case False
  then show ?thesis
    by (auto simp: cel_map_key_eq_def cel_value_eq_def scalar_of_def Let_def spans_equal_iff net_eq_iff
        is_numeric_kind_def split: if_splits)
qed

text \<open>
  The map key rule is equality of the values the cells stand for: an int, a uint and a double
  are the same key exactly when they are the same number, and strings, bytes, bools, null,
  durations, timestamps and addresses only match their own kind.
\<close>

theorem map_key_eq_scalar:
  "cel_map_key_eq m a b \<longleftrightarrow> (\<exists>k. scalar_of m a = Some k \<and> scalar_of m b = Some k)"
  by (rule cel_map_key_eq_iff)

end
