(* ===== verification/MapHash.thy ===== *)
theory MapHash
  imports ValueEq
begin

text \<open>
  The SwissTable hash kernel shared by the runtime and the compiler (\<open>runtime/cel_map_hash.h\<close>):
  control-byte group matching, the portable mixer, the canonicalizing key hash and the index
  sizing. The load-bearing fact is that keys the map key rule equates hash identically.
\<close>

subsection \<open>Group probing\<close>

abbreviation kGroupWidth :: nat where "kGroupWidth \<equiv> 8"
abbreviation kEmpty :: u8 where "kEmpty \<equiv> 0x80"
abbreviation kLsbs :: u64 where "kLsbs \<equiv> 0x0101010101010101"
abbreviation kMsbs :: u64 where "kMsbs \<equiv> 0x8080808080808080"

definition cel_h1 :: "u64 \<Rightarrow> u64" where "cel_h1 h = drop_bit 7 h"
definition cel_h2 :: "u64 \<Rightarrow> u8" where "cel_h2 h = ucast (h AND 0x7F)"

definition group_match :: "u64 \<Rightarrow> u8 \<Rightarrow> u64" where
  "group_match ctrl h2 = (let x = ctrl XOR (kLsbs * ucast h2) in (x - kLsbs) AND NOT x AND kMsbs)"

definition group_match_empty :: "u64 \<Rightarrow> u64" where
  "group_match_empty ctrl = ctrl AND push_bit 6 (NOT ctrl) AND kMsbs"

definition cel_group_load :: "memory \<Rightarrow> nat \<Rightarrow> u64" where
  "cel_group_load m p = load64 m p"

subsection \<open>The key hash\<close>

definition cel_mix64 :: "u64 \<Rightarrow> u64" where
  "cel_mix64 x =
     (let x = x + 0x9E3779B97F4A7C15;
          x = (x XOR drop_bit 30 x) * 0xBF58476D1CE4E5B9;
          x = (x XOR drop_bit 27 x) * 0x94D049BB133111EB
      in x XOR drop_bit 31 x)"

definition kCelHashSaltBool :: u64 where "kCelHashSaltBool = 0x00B001B001B001B0"
definition kCelHashSaltStr :: u64 where "kCelHashSaltStr = 0x0057812345678900"
definition kCelHashSaltBytes :: u64 where "kCelHashSaltBytes = 0x00B47E5678901234"

definition cel_hash_double_sentinel :: u64 where
  "cel_hash_double_sentinel = cel_mix64 0xDEADD0D0FFFFFFFF"

definition cel_hash_int_token :: "u64 \<Rightarrow> u64" where
  "cel_hash_int_token magnitude_nonneg = cel_mix64 magnitude_nonneg"

definition cel_hash_neg_int_token :: "u64 \<Rightarrow> u64" where
  "cel_hash_neg_int_token v =
     (let magnitude = - (v + 1) + 1 in cel_mix64 (magnitude XOR 0x8000000000000000))"

definition cel_hash_uint_high_token :: "u64 \<Rightarrow> u64" where
  "cel_hash_uint_high_token v = cel_mix64 (v XOR 0x4000000000000000)"

definition cel_hash_nonneg_integer :: "u64 \<Rightarrow> u64" where
  "cel_hash_nonneg_integer v =
     (if v \<le> 0x7FFFFFFFFFFFFFFF then cel_hash_int_token v else cel_hash_uint_high_token v)"

text \<open>The FNV-1a loop over the span's bytes.\<close>

function hash_bytes_loop :: "memory \<Rightarrow> nat \<Rightarrow> nat \<Rightarrow> nat \<Rightarrow> u64 \<Rightarrow> u64" where
  "hash_bytes_loop m p len i h =
     (if i < len then hash_bytes_loop m p len (i + 1) ((h XOR ucast (m (p + i))) * 0x00000100000001B3) else h)"
  by pat_completeness auto
termination by (relation "measure (\<lambda>(m, p, len, i, h). len - i)") auto

declare hash_bytes_loop.simps [simp del]

definition cel_hash_bytes :: "memory \<Rightarrow> u32 \<Rightarrow> u32 \<Rightarrow> u64 \<Rightarrow> u64" where
  "cel_hash_bytes m ptr len salt =
     (let h = hash_bytes_loop m (unat ptr) (unat len) 0 (salt XOR 0xCBF29CE484222325)
      in cel_mix64 (h XOR push_bit 1 (ucast len)))"

text \<open>The double limits are the literals \<open>-2^63\<close>, \<open>2^63\<close> and \<open>2^64\<close> of the source.\<close>

definition cel_hash_double_key :: "u64 \<Rightarrow> u64" where
  "cel_hash_double_key d =
     (if d_eq d d then
        (if d_le (d_of_int (- (2 ^ 63))) d \<and> d_lt d (d_of_int (2 ^ 63)) then
           (let i = word_of_int (d_trunc d) :: u64 in
            if d_eq (d_of_int (sint i)) d
            then (if 0 \<le> sint i then cel_hash_nonneg_integer i else cel_hash_neg_int_token i)
            else cel_hash_double_sentinel)
         else if d_le (d_of_int 0) d \<and> d_lt d (d_of_int (2 ^ 64)) then
           (let u = word_of_int (d_trunc d) :: u64 in
            if d_eq (d_of_int (uint u)) d then cel_hash_nonneg_integer u else cel_hash_double_sentinel)
         else cel_hash_double_sentinel)
      else cel_hash_double_sentinel)"

definition cel_map_key_hash :: "memory \<Rightarrow> cel_value \<Rightarrow> u64" where
  "cel_map_key_hash m key =
     (let k = cv_kind key in
      if k = CEL_BOOL then cel_mix64 (kCelHashSaltBool XOR (if pl_b key \<noteq> 0 then 1 else 0))
      else if k = CEL_INT then
        (let v = pl_i key in if 0 \<le> sint v then cel_hash_nonneg_integer v else cel_hash_neg_int_token v)
      else if k = CEL_UINT then cel_hash_nonneg_integer (pl_u key)
      else if k = CEL_DOUBLE then cel_hash_double_key (pl_d key)
      else if k = CEL_STRING then cel_hash_bytes m (pl_s_ptr key) (pl_s_len key) kCelHashSaltStr
      else if k = CEL_BYTES then cel_hash_bytes m (pl_s_ptr key) (pl_s_len key) kCelHashSaltBytes
      else cel_hash_double_sentinel)"

subsection \<open>Index sizing\<close>

text \<open>The doubling loop on a 32-bit \<open>slots\<close>; \<open>None\<close> would be a loop that never ends.\<close>

partial_function (option) num_slots_loop :: "u64 \<Rightarrow> u32 \<Rightarrow> u32 option" where
  [code]: "num_slots_loop needed slots =
     (if ucast slots < needed then num_slots_loop needed (push_bit 1 slots) else Some slots)"

definition cel_map_index_num_slots :: "u32 \<Rightarrow> u32 option" where
  "cel_map_index_num_slots count =
     (let needed = (ucast count * 8 + 6) div 7; needed = (if needed < 8 then 8 else needed)
      in num_slots_loop needed 8)"

subsection \<open>Group matching\<close>

text \<open>Control byte \<open>i\<close> of a group word is full when its top bit is clear.\<close>

lemma bit_div256: "bit (z :: int) (8 * Suc k + 7) = bit (z div 256) (8 * k + 7)"
proof -
  have "(2 :: int) ^ (8 * Suc k + 7) = 256 * 2 ^ (8 * k + 7)" by (simp add: power_add)
  then show ?thesis unfolding bit_iff_odd by (simp add: zdiv_zmult2_eq)
qed

lemma borrow_flags_zero_byte:
  "k < n \<Longrightarrow> (x div 256 ^ k) mod 256 = 0 \<Longrightarrow> 0 \<le> c \<Longrightarrow> c \<le> 1 \<Longrightarrow> bit (x - iones n - c) (8 * k + 7)"
proof (induction k arbitrary: n x c)
  case 0
  then obtain n' where n: "n = Suc n'" by (cases n) auto
  define y where "y = x div 256"
  have x: "x = 256 * y" using 0 mult_div_mod_eq [of 256 x] by (simp add: y_def)
  have e: "x - iones n - c = (255 - c) + 256 * (y - iones n' - 1)" by (simp add: n x)
  have "(x - iones n - c) div 128 = 1 + 2 * (y - iones n' - 1)"
  proof -
    have "x - iones n - c = (127 - c) + (1 + 2 * (y - iones n' - 1)) * 128" unfolding e by simp
    then show ?thesis using 0 by (simp add: div_pos_pos_trivial)
  qed
  then show ?case by (simp add: bit_iff_odd)
next
  case (Suc k)
  then obtain n' where n: "n = Suc n'" by (cases n) auto
  define b y where "b = x mod 256" and "y = x div 256"
  have x: "x = b + 256 * y" "0 \<le> b" "b < 256" by (simp_all add: b_def y_def)
  define c' :: int where "c' = (if b < 1 + c then 1 else 0)"
  have d: "(b - 1 - c) div 256 = - c'"
    using x(2,3) Suc.prems(3,4) by (auto simp: c'_def div_pos_pos_trivial intro: int_div_neg_eq)
  have "x - iones n - c = (b - 1 - c) + (y - iones n') * 256" by (simp add: n x)
  then have "(x - iones n - c) div 256 = (y - iones n') + (b - 1 - c) div 256"
    by (simp only: div_mult_self1 zero_neq_numeral not_False_eq_True)
  then have e: "(x - iones n - c) div 256 = y - iones n' - c'" using d by simp
  have "(y div 256 ^ k) mod 256 = 0" using Suc.prems(2) by (simp add: y_def zdiv_zmult2_eq)
  then have "bit (y - iones n' - c') (8 * k + 7)" by (intro Suc.IH) (use Suc.prems(1) n in \<open>auto simp: c'_def\<close>)
  then show ?case unfolding bit_div256 e .
qed


lemma uint_minus_bit: "bit (x - y :: u64) k \<longleftrightarrow> k < 64 \<and> bit (uint x - uint y) k"
proof -
  have "uint (x - y) = take_bit 64 (uint x - uint y)" by (simp add: uint_word_ariths take_bit_eq_mod)
  then have "bit (uint (x - y)) k = bit (take_bit 64 (uint x - uint y)) k" by simp
  then show ?thesis by (auto simp: bit_uint_iff bit_take_bit_iff dest: bit_imp_le_length)
qed

lemma kMsbs_bit: "i < 8 \<Longrightarrow> bit kMsbs (8 * i + 7)"
proof -
  assume "i < 8"
  then consider "i = 0" | "i = 1" | "i = 2" | "i = 3" | "i = 4" | "i = 5" | "i = 6" | "i = 7" by linarith
  then show ?thesis by cases simp_all
qed

lemma kMsbs_bits: "bit kMsbs k \<longleftrightarrow> (\<exists>i<8. k = 8 * i + 7)"
proof -
  have "bit kMsbs k \<longleftrightarrow> k \<in> {7, 15, 23, 31, 39, 47, 55, 63}" if "k < 64"
  proof -
    have "list_all (\<lambda>k. bit kMsbs k = (k \<in> {7, 15, 23, 31, 39, 47, 55, 63})) [0..<64]"
      by (simp add: upt_rec)
    then show ?thesis using that by (simp add: list_all_iff)
  qed
  moreover have "bit kMsbs k \<Longrightarrow> k < 64" using bit_imp_le_length by fastforce
  moreover have "(\<exists>i<8. k = 8 * i + 7) \<longleftrightarrow> k \<in> {7, 15, 23, 31, 39, 47, 55, 63}" by (auto; presburger)
  ultimately show ?thesis by auto
qed

text \<open>A load of eight control bytes, lane by lane.\<close>

lemma load64_byte_zero:
  assumes "i < 8"
  shows "(uint (load64 m p XOR (kLsbs * ucast (c :: u8))) div 256 ^ i) mod 256 = 0 \<longleftrightarrow> m (p + i) = c"
proof -
  let ?x = "load64 m p XOR (kLsbs * ucast c)"
  have t: "(uint ?x div 256 ^ i) mod 256 = take_bit 8 (drop_bit (8 * i) (uint ?x))"
    by (simp add: take_bit_eq_mod drop_bit_eq_div power_mult)
  have "bit (take_bit 8 (drop_bit (8 * i) (uint ?x))) j = (j < 8 \<and> bit (m (p + i)) j \<noteq> bit c j)" for j
    using bit_load64 [OF assms, of j m p] bit_swar_pattern [OF assms, of j c] assms
    by (auto simp: bit_simps)
  then show ?thesis unfolding t bit_eq_iff
    by (auto simp: bit_eq_iff dest: bit_imp_le_length)
qed

text \<open>
  Every lane whose control byte is the sought one is flagged; a flagged lane is full. (A lane
  above a flagged one can be flagged without matching, so candidates are confirmed by the caller.)
\<close>

lemma group_match_complete:
  assumes i: "i < 8" and eq: "m (p + i) = h2"
  shows "m (p + i) = h2 \<Longrightarrow> bit h2 7 = False \<Longrightarrow> bit (group_match (cel_group_load m p) h2) (8 * i + 7)"
proof -
  assume top: "bit h2 7 = False"
  let ?x = "load64 m p XOR (kLsbs * ucast h2)"
  have "iones 8 = 0x0101010101010101" by (simp add: numeral_eq_Suc)
  then have ones: "iones 8 = uint kLsbs" by simp
  have "bit (uint ?x - iones 8 - 0) (8 * i + 7)"
    by (rule borrow_flags_zero_byte) (use i eq load64_byte_zero [OF i, of m p h2] in simp_all)
  then have "bit (?x - kLsbs) (8 * i + 7)" using i by (simp add: uint_minus_bit ones)
  moreover have "\<not> bit ?x (8 * i + 7)"
    using bit_load64 [OF i, of 7 m p] bit_swar_pattern [OF i, of 7 h2] eq by (simp add: bit_xor_iff)
  moreover have "8 * i + 7 < 64" using i by simp
  ultimately show ?thesis using kMsbs_bit [OF i] by (simp add: group_match_def cel_group_load_def Let_def bit_simps)
qed

lemma group_match_lane:
  assumes "bit (group_match (cel_group_load m p) h2) k" "\<not> bit h2 7"
  obtains i where "i < 8" "k = 8 * i + 7" "\<not> bit (m (p + i)) 7"
proof -
  have "bit kMsbs k" "\<not> bit (load64 m p XOR (kLsbs * ucast h2)) k"
    using assms(1) by (auto simp: group_match_def cel_group_load_def Let_def bit_simps)
  then obtain i where i: "i < 8" "k = 8 * i + 7" using kMsbs_bits by blast
  have "\<not> bit (m (p + i)) 7"
    using \<open>\<not> bit (load64 m p XOR _) k\<close> bit_load64 [OF i(1), of 7 m p] bit_swar_pattern [OF i(1), of 7 h2] assms(2) i
    by (simp add: bit_xor_iff)
  then show thesis using i that by blast
qed

lemma group_match_empty_bit:
  "bit (group_match_empty (cel_group_load m p)) k \<longleftrightarrow>
   (\<exists>i<8. k = 8 * i + 7 \<and> bit (m (p + i)) 7 \<and> \<not> bit (m (p + i)) 1)"
proof -
  have "bit (group_match_empty (cel_group_load m p)) (8 * i + 7) = (bit (m (p + i)) 7 \<and> \<not> bit (m (p + i)) 1)" if i: "i < 8" for i
  proof -
    let ?w = "load64 m p"
    have s: "bit (push_bit 6 (NOT ?w)) (8 * i + 7) \<longleftrightarrow> \<not> bit ?w (8 * i + 1)"
      using i by (simp add: bit_push_bit_iff bit_not_iff)
    show ?thesis unfolding group_match_empty_def cel_group_load_def bit_and_iff s
      using kMsbs_bit [OF i] bit_load64 [OF i, of 7 m p] bit_load64 [OF i, of 1 m p] by simp
  qed
  note lane = this
  show ?thesis
  proof
    assume b: "bit (group_match_empty (cel_group_load m p)) k"
    then have "bit kMsbs k" by (simp add: group_match_empty_def bit_and_iff)
    then obtain i where i: "i < 8" "k = 8 * i + 7" unfolding kMsbs_bits by (elim exE conjE)
    show "\<exists>i<8. k = 8 * i + 7 \<and> bit (m (p + i)) 7 \<and> \<not> bit (m (p + i)) 1"
      using b i lane [OF i(1)] by (intro exI [of _ i]) simp
  next
    assume "\<exists>i<8. k = 8 * i + 7 \<and> bit (m (p + i)) 7 \<and> \<not> bit (m (p + i)) 1"
    then show "bit (group_match_empty (cel_group_load m p)) k" using lane by (elim exE conjE) simp
  qed
qed


subsection \<open>Equal keys hash equal\<close>

lemma power_limit_vals:
  "d_val (d_of_int (2 ^ 63)) = 2 ^ 63 * int d_unit" "d_val (d_of_int (2 ^ 64)) = 2 ^ 64 * int d_unit"
proof -
  have "d_code (d_of_int (2 ^ 63)) = 1086 * P52"
    by (rule round_code_int_at [where j = 11 and x = "2 ^ 63" and y = "2 ^ 52"]) (simp_all add: rne_def)
  then show "d_val (d_of_int (2 ^ 63)) = 2 ^ 63 * int d_unit"
    using limit_mags(1) unfolding d_val_of_int d_mag_def by simp
  have "d_code (d_of_int (2 ^ 64)) = 1087 * P52"
    by (rule round_code_int_at [where j = 12 and x = "2 ^ 64" and y = "2 ^ 52"]) (simp_all add: rne_def)
  then show "d_val (d_of_int (2 ^ 64)) = 2 ^ 64 * int d_unit"
    using limit_mags(2) unfolding d_val_of_int d_mag_def by simp
qed

text \<open>The hash of the integer \<open>t\<close>, whichever kind holds it.\<close>

definition integer_hash :: "int \<Rightarrow> u64" where
  "integer_hash t =
     (if t < 0 then cel_hash_neg_int_token (word_of_int t) else cel_hash_nonneg_integer (word_of_int t))"

fun fnv :: "u8 list \<Rightarrow> u64 \<Rightarrow> u64" where
  "fnv [] h = h"
| "fnv (b # bs) h = fnv bs ((h XOR ucast b) * 0x00000100000001B3)"

definition bytes_hash :: "u8 list \<Rightarrow> u64 \<Rightarrow> u64" where
  "bytes_hash bs salt =
     cel_mix64 (fnv bs (salt XOR 0xCBF29CE484222325) XOR push_bit 1 (word_of_nat (length bs)))"

definition scalar_hash :: "scalar \<Rightarrow> u64" where
  "scalar_hash k =
     (case k of
        SBool b \<Rightarrow> cel_mix64 (kCelHashSaltBool XOR (if b then 1 else 0))
      | SNum x \<Rightarrow>
          (let t = x div int d_unit in
           if x = t * int d_unit \<and> INT64_MIN \<le> t \<and> t \<le> UINT64_MAX then integer_hash t
           else cel_hash_double_sentinel)
      | SStr bs \<Rightarrow> bytes_hash bs kCelHashSaltStr
      | SBytes bs \<Rightarrow> bytes_hash bs kCelHashSaltBytes
      | _ \<Rightarrow> cel_hash_double_sentinel)"

lemma hash_bytes_loop_fnv: "hash_bytes_loop m p len i h = fnv (bytes_at m (p + i) (len - i)) h"
proof (induction m p len i h rule: hash_bytes_loop.induct)
  case (1 m p len i h)
  show ?case
  proof (cases "i < len")
    case True
    then show ?thesis using "1.IH" [OF True] by (simp add: hash_bytes_loop.simps [of m p len i h] bytes_at_Cons)
  next
    case False
    then show ?thesis by (simp add: hash_bytes_loop.simps [of m p len i h])
  qed
qed

lemma cel_hash_bytes_eq: "cel_hash_bytes m p n salt = bytes_hash (span_bytes m p n) salt"
  by (simp add: cel_hash_bytes_def bytes_hash_def hash_bytes_loop_fnv span_bytes_def Let_def unsigned_of_nat)

lemma scalar_hash_integer:
  "INT64_MIN \<le> t \<Longrightarrow> t \<le> UINT64_MAX \<Longrightarrow> scalar_hash (SNum (t * int d_unit)) = integer_hash t"
  using d_unit_pos(1) by (simp add: scalar_hash_def Let_def)

lemma hash_int_cell:
  "(if 0 \<le> sint v then cel_hash_nonneg_integer v else cel_hash_neg_int_token v) = integer_hash (sint v)"
  by (simp add: integer_hash_def)

lemma hash_uint_cell: "cel_hash_nonneg_integer u = integer_hash (uint u)"
  by (simp add: integer_hash_def)

lemma integral_double:
  assumes "\<not> d_isnan d" "\<bar>d_val d\<bar> \<le> 2 ^ 64 * int d_unit"
  shows "d_eq (d_of_int (d_trunc d)) d \<longleftrightarrow> d_val d = d_val d div int d_unit * int d_unit"
    and "d_eq (d_of_int (d_trunc d)) d \<Longrightarrow> d_trunc d = d_val d div int d_unit"
proof -
  have fin: "d_code d < INF_CODE" by (rule finite_if_bounded [OF assms])
  note c = cast_roundtrip [OF fin]
  show "d_eq (d_of_int (d_trunc d)) d \<Longrightarrow> d_trunc d = d_val d div int d_unit"
    unfolding c using d_unit_pos(1) by simp
  show "d_eq (d_of_int (d_trunc d)) d \<longleftrightarrow> d_val d = d_val d div int d_unit * int d_unit"
    unfolding c using d_trunc_bounds [of d "d_val d div int d_unit"] d_unit_pos(1) by (metis nonzero_mult_div_cancel_right of_nat_eq_0_iff less_irrefl)
qed

lemma hash_double_cell:
  assumes nn: "\<not> d_isnan d"
  shows "cel_hash_double_key d = scalar_hash (SNum (d_val d))"
proof -
  let ?u = "int d_unit" and ?t = "d_trunc d"
  have limits: "d_le (d_of_int (- (2 ^ 63))) d \<longleftrightarrow> - (2 ^ 63) * ?u \<le> d_val d" "d_lt d (d_of_int (2 ^ 63)) \<longleftrightarrow> d_val d < 2 ^ 63 * ?u"
    "d_le (d_of_int 0) d \<longleftrightarrow> 0 * ?u \<le> d_val d" "d_lt d (d_of_int (2 ^ 64)) \<longleftrightarrow> d_val d < 2 ^ 64 * ?u" "d_eq d d"
    unfolding d_le_def d_lt_def d_eq_def power_limit_vals limit_vals using nn d_of_int_not_nan by simp_all
  have q: "- (2 ^ 63) \<le> d_val d div ?u \<longleftrightarrow> - (2 ^ 63) * ?u \<le> d_val d" if "d_val d = d_val d div ?u * ?u"
    using unit_le_iff [of "- (2 ^ 63)" "d_val d div ?u"] that by simp
  have q': "d_val d div ?u < 2 ^ 64 \<longleftrightarrow> d_val d < 2 ^ 64 * ?u" if "d_val d = d_val d div ?u * ?u"
    using unit_less_iff [of "d_val d div ?u" "2 ^ 64"] that by simp
  consider (int) "- (2 ^ 63) * ?u \<le> d_val d" "d_val d < 2 ^ 63 * ?u"
    | (uint) "2 ^ 63 * ?u \<le> d_val d" "d_val d < 2 ^ 64 * ?u"
    | (out) "d_val d < - (2 ^ 63) * ?u \<or> 2 ^ 64 * ?u \<le> d_val d" by linarith
  then show ?thesis
  proof cases
    case int
    have b: "\<bar>d_val d\<bar> \<le> 2 ^ 64 * ?u" using int by (simp add: abs_le_iff)
    note t = trunc_between [OF int] 
    have w: "sint (word_of_int ?t :: u64) = ?t" by (rule sint_word_of_int64) (use t in simp_all)
    show ?thesis
      using integral_double [OF nn b] int t w unfolding cel_hash_double_key_def limits Let_def w hash_int_cell scalar_hash_def
      by (auto simp: limits(5))
  next
    case uint
    have b: "\<bar>d_val d\<bar> \<le> 2 ^ 64 * ?u" using uint by (simp add: abs_le_iff)
    have z: "0 * ?u \<le> d_val d" using uint by simp
    note t = trunc_between [OF z uint(2)]
    have w: "uint (word_of_int ?t :: u64) = ?t" by (rule uint_word_of_int64) (use t in simp_all)
    show ?thesis
      using integral_double [OF nn b] uint z t w unfolding cel_hash_double_key_def limits Let_def w hash_uint_cell scalar_hash_def
      by (auto simp: limits(5))
  next
    case out
    then have "\<not> (d_val d = d_val d div ?u * ?u \<and> INT64_MIN \<le> d_val d div ?u \<and> d_val d div ?u \<le> UINT64_MAX)"
      using q q' by force
    moreover have "\<not> (- (2 ^ 63) * ?u \<le> d_val d \<and> d_val d < 2 ^ 63 * ?u)" "\<not> (0 * ?u \<le> d_val d \<and> d_val d < 2 ^ 64 * ?u)"
      using out by auto
    ultimately show ?thesis unfolding cel_hash_double_key_def limits Let_def scalar_hash_def by (auto simp: limits(5))
  qed
qed

lemma key_hash_scalar: "scalar_of m v = Some k \<Longrightarrow> cel_map_key_hash m v = scalar_hash k"
proof -
  assume a: "scalar_of m v = Some k"
  show ?thesis
  proof (cases "is_numeric_kind (cv_kind v)")
    case True
    then consider "cv_kind v = CEL_INT" | "cv_kind v = CEL_UINT" | "cv_kind v = CEL_DOUBLE" by (auto simp: is_numeric_kind_def)
    then show ?thesis
    proof cases
      case 1
      then have "k = SNum (sint (pl_i v) * int d_unit)" using a by (simp add: scalar_of_def is_numeric_kind_def num_ok_def num_val_def)
      then show ?thesis using 1 hash_int_cell [of "pl_i v"] scalar_hash_integer [of "sint (pl_i v)"] sint_range64 [of "pl_i v"]
        by (simp add: cel_map_key_hash_def)
    next
      case 2
      then have "k = SNum (uint (pl_u v) * int d_unit)" using a by (simp add: scalar_of_def is_numeric_kind_def num_ok_def num_val_def)
      then show ?thesis using 2 hash_uint_cell [of "pl_u v"] scalar_hash_integer [of "uint (pl_u v)"] uint_range64 [of "pl_u v"]
        by (simp add: cel_map_key_hash_def)
    next
      case 3
      then have "\<not> d_isnan (pl_d v)" "k = SNum (d_val (pl_d v))"
        using a by (auto simp: scalar_of_def is_numeric_kind_def num_ok_def num_val_def split: if_splits)
      then show ?thesis using 3 hash_double_cell [of "pl_d v"] by (simp add: cel_map_key_hash_def)
    qed
  next
    case False
    then show ?thesis using a
      by (auto simp: scalar_of_def cel_map_key_hash_def Let_def scalar_hash_def cel_hash_bytes_eq is_numeric_kind_def split: if_splits)
  qed
qed

text \<open>
  The invariant the index rests on: keys the map key rule equates hash identically, across
  int, uint and double and across distinct spans holding the same bytes, so a probe never misses
  an equal key.
\<close>

theorem equal_keys_hash_equal:
  assumes "cel_map_key_eq m a b"
  shows "cel_map_key_hash m a = cel_map_key_hash m b"
  using assms key_hash_scalar unfolding cel_map_key_eq_iff by metis

theorem equal_keys_hash_equal_witness:
  "cel_map_key_hash (\<lambda>_. 0) (cell_of CEL_INT 7) = cel_map_key_hash (\<lambda>_. 0) (cell_of CEL_UINT 7)"
  by (rule equal_keys_hash_equal)
    (simp add: cel_map_key_eq_def cel_numeric_key_eq_iff is_numeric_kind_def num_ok_def num_val_def pl_defs)

subsection \<open>Index sizing\<close>

lemma unat_slots: "j \<le> 31 \<Longrightarrow> unat (ucast (2 ^ j :: u32) :: u64) = 2 ^ j" "j \<le> 31 \<Longrightarrow> unat (2 ^ j :: u32) = 2 ^ j"
proof -
  assume j: "j \<le> 31"
  then have "(2 :: nat) ^ j \<le> 2 ^ 31" by (intro power_increasing) simp_all
  then have l: "(2 :: nat) ^ j < 4294967296" by simp
  have "unat (word_of_nat (2 ^ j) :: u32) = take_bit 32 (2 ^ j)" by (simp only: unsigned_of_nat len_num1 len_bit0) simp
  then have "unat (word_of_nat (2 ^ j) :: u32) = 2 ^ j" using l j by (simp add: take_bit_nat_eq_self)
  then show v: "unat (2 ^ j :: u32) = 2 ^ j" by simp
  have "unat (ucast (2 ^ j :: u32) :: u64) = take_bit 64 (unat (2 ^ j :: u32))" by (simp add: unsigned_ucast_eq)
  then have "unat (ucast (2 ^ j :: u32) :: u64) = unat (2 ^ j :: u32)" using l j by (simp add: take_bit_nat_eq_self v)
  then show "unat (ucast (2 ^ j :: u32) :: u64) = 2 ^ j" using v by simp
qed

lemma num_slots_loop_finds:
  "j \<le> 31 \<Longrightarrow> needed \<le> 2 ^ 31 \<Longrightarrow>
   \<exists>k. j \<le> k \<and> k \<le> 31 \<and> num_slots_loop needed (2 ^ j) = Some (2 ^ k) \<and> unat needed \<le> 2 ^ k
     \<and> (k = j \<or> 2 ^ (k - 1) < unat needed)"
proof (induction "31 - j" arbitrary: j)
  case 0
  then have j: "j = 31" by simp
  have n: "unat needed \<le> 2 ^ 31" using 0(3) by (simp add: word_le_nat_alt)
  then have "\<not> ucast (2 ^ j :: u32) < needed" using unat_slots(1) [of j] j by (simp add: word_less_nat_alt)
  then have "num_slots_loop needed (2 ^ j) = Some (2 ^ j)" by (subst num_slots_loop.simps) simp
  then show ?case using j n by (intro exI [of _ 31]) simp
next
  case (Suc d)
  have j: "j < 31" using Suc.hyps(2) by simp
  have u: "unat (ucast (2 ^ j :: u32) :: u64) = 2 ^ j" using j by (intro unat_slots) simp
  show ?case
  proof (cases "ucast (2 ^ j :: u32) < needed")
    case True
    then have n: "2 ^ j < unat needed" by (simp add: word_less_nat_alt u)
    have "push_bit 1 (2 ^ j :: u32) = 2 ^ Suc j" by (simp add: push_bit_eq_mult mult.commute)
    then have eq: "num_slots_loop needed (2 ^ j) = num_slots_loop needed (2 ^ Suc j)"
      using True by (subst num_slots_loop.simps) (simp only: if_True)
    obtain k where k: "Suc j \<le> k" "k \<le> 31" "num_slots_loop needed (2 ^ Suc j) = Some (2 ^ k)" "unat needed \<le> 2 ^ k"
      "k = Suc j \<or> 2 ^ (k - 1) < unat needed"
      using Suc.hyps(1) [of "Suc j", OF _ _ Suc.prems(2)] Suc.hyps(2) j by (metis Suc_leI diff_Suc_Suc Suc_diff_Suc diff_Suc_1 less_eq_Suc_le)
    show ?thesis using k eq n by (intro exI [of _ k]) auto
  next
    case False
    then have "unat needed \<le> 2 ^ j" by (simp add: word_less_nat_alt u)
    moreover have "num_slots_loop needed (2 ^ j) = Some (2 ^ j)" using False by (subst num_slots_loop.simps) simp
    ultimately show ?thesis using j by (intro exI [of _ j]) simp
  qed
qed

text \<open>The number of slots: the least power of two from 8 up with a load of at most 7/8.\<close>

lemma index_num_slots:
  assumes "8 * unat count \<le> 7 * 2 ^ 31"
  shows "\<exists>k. 3 \<le> k \<and> k \<le> 31 \<and> cel_map_index_num_slots count = Some (2 ^ k)
     \<and> 8 * unat count \<le> 7 * 2 ^ k \<and> (k = 3 \<or> 7 * 2 ^ (k - 1) < 8 * unat count)"
proof -
  let ?c = "unat count"
  define needed :: u64 where "needed = (ucast count * 8 + 6) div 7"
  have c: "unat (ucast count :: u64) = ?c" using unat_u32_lt [of count] by (simp add: unsigned_ucast_eq take_bit_nat_eq_self)
  have "unat (ucast count * 8 + 6 :: u64) = ?c * 8 + 6"
    using assms by (simp add: unat_word_ariths c)
  then have u: "unat needed = (?c * 8 + 6) div 7" by (simp add: needed_def unat_div_distrib)
  have n: "unat needed \<le> x \<longleftrightarrow> 8 * ?c \<le> 7 * x" for x
    using div_less_iff_less_mult [of 7 "?c * 8 + 6" "Suc x"] unfolding u by (simp add: less_Suc_eq_le, linarith)
  define needed' where "needed' = (if needed < 8 then 8 else needed)"
  have b: "needed' \<le> 2 ^ 31" using n [of "2 ^ 31"] assms by (simp add: needed'_def word_le_nat_alt)
  obtain k where k: "3 \<le> k" "k \<le> 31" "num_slots_loop needed' (2 ^ 3) = Some (2 ^ k)" "unat needed' \<le> 2 ^ k"
    "k = 3 \<or> 2 ^ (k - 1) < unat needed'"
    using num_slots_loop_finds [of 3 needed', OF _ b] by auto
  have le: "unat needed \<le> unat needed'" by (simp add: needed'_def word_less_nat_alt)
  have "cel_map_index_num_slots count = Some (2 ^ k)"
    using k(3) by (simp add: cel_map_index_num_slots_def Let_def needed_def [symmetric] needed'_def)
  moreover have "8 * ?c \<le> 7 * 2 ^ k" using n [of "2 ^ k"] le k(4) by simp
  moreover have "k = 3 \<or> 7 * 2 ^ (k - 1) < 8 * ?c"
  proof (cases "k = 3")
    case False
    then have "2 ^ 3 \<le> (2 :: nat) ^ (k - 1)" using k(1) by (intro power_increasing) simp_all
    then have "2 ^ (k - 1) < unat needed" using k(5) False by (auto simp: needed'_def split: if_splits)
    then show ?thesis using n [of "2 ^ (k - 1)"] by simp
  qed simp
  ultimately show ?thesis using k(1,2) by blast
qed

end
