(* ===== verification/MapIndex.thy ===== *)
theory MapIndex
  imports MapHash
begin

text \<open>
  The arena map header and the SwissTable index over its dense entries run
  (\<open>runtime/cel_map_index.c\<close>). The index block is the control bytes, seven cloned control bytes so
  that a group load never wraps, and the slot array of entry numbers. The probe loops may in
  principle run forever and are partial functions; the properties show that they return.
\<close>

subsection \<open>Map headers and entries\<close>

text \<open>\<open>ArenaMapHeader\<close> fields by header address, and entry \<open>i\<close> of the run (48 bytes, key first).\<close>

definition map_count :: "memory \<Rightarrow> nat \<Rightarrow> u32" where "map_count m hdr = load32 m hdr"
definition map_capacity :: "memory \<Rightarrow> nat \<Rightarrow> u32" where "map_capacity m hdr = load32 m (hdr + 4)"
definition map_entries :: "memory \<Rightarrow> nat \<Rightarrow> u32" where "map_entries m hdr = load32 m (hdr + 8)"
definition map_index :: "memory \<Rightarrow> nat \<Rightarrow> u32" where "map_index m hdr = load32 m (hdr + 12)"

abbreviation kCelMapEntryStride :: nat where "kCelMapEntryStride \<equiv> 48"
abbreviation kCelMapIndexThreshold :: u32 where "kCelMapIndexThreshold \<equiv> 8"

definition index_map_entry_key :: "memory \<Rightarrow> nat \<Rightarrow> u32 \<Rightarrow> nat" where
  "index_map_entry_key m hdr i = unat (map_entries m hdr) + kCelMapEntryStride * unat i"

subsection \<open>Index block geometry\<close>

definition ctrl_total_bytes :: "u32 \<Rightarrow> u32" where "ctrl_total_bytes num_slots = num_slots + 7"
definition align_up_4 :: "u32 \<Rightarrow> u32" where "align_up_4 n = (n + 3) AND NOT 3"
definition slot_array_offset_from_ctrl :: "u32 \<Rightarrow> u32" where
  "slot_array_offset_from_ctrl num_slots = align_up_4 (ctrl_total_bytes num_slots)"
definition index_block_bytes :: "u32 \<Rightarrow> u32" where
  "index_block_bytes num_slots = slot_array_offset_from_ctrl num_slots + num_slots * 4"

subsection \<open>Probing\<close>

text \<open>The candidate lanes of a group, lowest first; the first whose key is equal is the answer.\<close>

function index_candidates :: "memory \<Rightarrow> nat \<Rightarrow> nat \<Rightarrow> u32 \<Rightarrow> cel_value \<Rightarrow> u32 \<Rightarrow> u64 \<Rightarrow> u32 option" where
  "index_candidates m hdr slots msk key seq match =
     (if match = 0 then None
      else (let lane = word_of_nat (ctz match div 8); slot = (seq + lane) AND msk;
                entry = load32 m (slots + 4 * unat slot) in
        if cel_map_key_eq m (load_cv m (index_map_entry_key m hdr entry)) key then Some entry
        else index_candidates m hdr slots msk key seq (match AND (match - 1))))"
  by pat_completeness auto

lemma clear_lowest_less: "w \<noteq> 0 \<Longrightarrow> unat (w AND (w - 1)) < unat (w :: u64)"
proof -
  assume "w \<noteq> 0"
  then have "unat (w - 1) < unat w" by (simp add: unat_minus_one unat_gt_0)
  moreover have "unat (w AND (w - 1)) \<le> unat (w - 1)" using word_and_le1 [of w "w - 1"] by (simp add: word_le_nat_alt)
  ultimately show ?thesis by (rule order_le_less_trans [rotated])
qed

termination index_candidates
  by (relation "measure (\<lambda>(m, hdr, slots, msk, key, seq, match). unat match)") (auto simp: clear_lowest_less)

declare index_candidates.simps [simp del]

partial_function (option) index_find_loop ::
  "memory \<Rightarrow> nat \<Rightarrow> nat \<Rightarrow> nat \<Rightarrow> u32 \<Rightarrow> cel_value \<Rightarrow> u8 \<Rightarrow> u32 \<Rightarrow> u32 \<Rightarrow> u32 option" where
  [code]: "index_find_loop m hdr ctrl slots msk key h2 seq step =
     (let group = cel_group_load m (ctrl + unat seq) in
      case index_candidates m hdr slots msk key seq (group_match group h2) of
        Some entry \<Rightarrow> Some entry
      | None \<Rightarrow>
          if group_match_empty group \<noteq> 0 then Some UINT32_MAX
          else index_find_loop m hdr ctrl slots msk key h2 ((seq + step) AND msk) (step + 8))"

definition cel_map_index_find :: "memory \<Rightarrow> nat \<Rightarrow> cel_value \<Rightarrow> u32 option" where
  "cel_map_index_find m hdr key =
     (if map_index m hdr = 0 then Some UINT32_MAX
      else do {
        num_slots \<leftarrow> cel_map_index_num_slots (map_count m hdr);
        let ctrl = unat (map_index m hdr);
        let slots = unat (map_index m hdr) + unat (slot_array_offset_from_ctrl num_slots);
        let h = cel_map_key_hash m key;
        let seq = ucast (cel_h1 h) AND (num_slots - 1);
        index_find_loop m hdr ctrl slots (num_slots - 1) key (cel_h2 h) seq 8
      })"

subsection \<open>Building\<close>

partial_function (option) index_place_loop ::
  "memory \<Rightarrow> nat \<Rightarrow> nat \<Rightarrow> nat \<Rightarrow> u32 \<Rightarrow> u32 \<Rightarrow> cel_value \<Rightarrow> u8 \<Rightarrow> u32 \<Rightarrow> u32 \<Rightarrow> (bool \<times> memory) option" where
  [code]: "index_place_loop m hdr ctrl slots num_slots i key h2 seq step =
     (let msk = num_slots - 1;
          group = cel_group_load m (ctrl + unat seq) in
      case index_candidates m hdr slots msk key seq (group_match group h2) of
        Some entry \<Rightarrow> Some (False, m)
      | None \<Rightarrow>
          (let empties = group_match_empty group in
           if empties \<noteq> 0 then
             (let lane = word_of_nat (ctz empties div 8); slot = (seq + lane) AND msk;
                  m1 = m(ctrl + unat slot := h2);
                  m2 = (if slot < 7 then m1(ctrl + unat (slot + num_slots) := h2) else m1)
              in Some (True, store32 m2 (slots + 4 * unat slot) i))
           else index_place_loop m hdr ctrl slots num_slots i key h2 ((seq + step) AND msk) (step + 8)))"

definition index_place_entry :: "memory \<Rightarrow> nat \<Rightarrow> nat \<Rightarrow> nat \<Rightarrow> u32 \<Rightarrow> u32 \<Rightarrow> (bool \<times> memory) option" where
  "index_place_entry m hdr ctrl slots num_slots i =
     (let key = load_cv m (index_map_entry_key m hdr i);
          h = cel_map_key_hash m key;
          seq = ucast (cel_h1 h) AND (num_slots - 1)
      in index_place_loop m hdr ctrl slots num_slots i key (cel_h2 h) seq 8)"

text \<open>The loop over the entries; \<open>False\<close> when some entry duplicates an earlier key.\<close>

function index_place_all :: "memory \<Rightarrow> nat \<Rightarrow> nat \<Rightarrow> nat \<Rightarrow> u32 \<Rightarrow> nat \<Rightarrow> nat \<Rightarrow> (bool \<times> memory) option" where
  "index_place_all m hdr ctrl slots num_slots count i =
     (if i < count then do {
        (placed, m) \<leftarrow> index_place_entry m hdr ctrl slots num_slots (word_of_nat i);
        if \<not> placed then Some (False, m)
        else index_place_all m hdr ctrl slots num_slots count (i + 1)
      }
      else Some (True, m))"
  by pat_completeness auto
termination by (relation "measure (\<lambda>(m, hdr, ctrl, slots, n, count, i). count - i)") auto

declare index_place_all.simps [simp del]

definition cel_map_index_build :: "u32 \<Rightarrow> rt \<Rightarrow> rt option" where
  "cel_map_index_build map_slot s =
     (let v = cel_value_at map_slot in
      if cv_kind (load_cv (mem s) v) \<noteq> CEL_MAP_ARENA then Some s
      else (let hdr = unat (pl_header_ptr (load_cv (mem s) v)) in
        if map_count (mem s) hdr < kCelMapIndexThreshold
        then Some (s\<lparr>mem := store32 (mem s) (hdr + 12) 0\<rparr>)
        else do {
          num_slots \<leftarrow> cel_map_index_num_slots (map_count (mem s) hdr);
          (block_off, s) \<leftarrow> arena_alloc (index_block_bytes num_slots) s;
          let hdr = unat (pl_header_ptr (load_cv (mem s) v));
          if block_off = 0 then Some (s\<lparr>mem := store32 (mem s) (hdr + 12) 0\<rparr>)
          else do {
            let ctrl = unat block_off;
            let slots = unat block_off + unat (slot_array_offset_from_ctrl num_slots);
            let m1 = store_bytes (mem s) ctrl (replicate (unat (ctrl_total_bytes num_slots)) kEmpty);
            (ok, m2) \<leftarrow> index_place_all m1 hdr ctrl slots num_slots (unat (map_count m1 hdr)) 0;
            if \<not> ok then Some (poison v CEL_ERR_DUPLICATE_KEY (s\<lparr>mem := store32 m2 (hdr + 12) 0\<rparr>))
            else Some (s\<lparr>mem := store32 m2 (hdr + 12) block_off\<rparr>)
          }
        }))"

subsection \<open>The probe sequence\<close>

text \<open>
  With \<open>2^k\<close> slots the \<open>r\<close>-th group starts at \<open>s0 + 4 r (r + 1)\<close> modulo the table size, and the
  first \<open>2^(k-3)\<close> groups cover every slot.
\<close>

definition probe :: "nat \<Rightarrow> nat \<Rightarrow> nat \<Rightarrow> nat" where
  "probe k s0 r = (s0 + 4 * r * (r + 1)) mod 2 ^ k"

lemma tri_inj:
  assumes "a < 2 ^ q" "b < 2 ^ q" "(a * (a + 1)) mod 2 ^ (q + 1) = (b * (b + 1)) mod 2 ^ (q + 1)"
  shows "a = (b :: nat)"
proof -
  have main: "a = b" if ab: "a \<le> b" and l: "b < 2 ^ q"
    and eq: "(a * (a + 1)) mod 2 ^ (q + 1) = (b * (b + 1)) mod 2 ^ (q + 1)" for a b :: nat
  proof (rule ccontr)
    assume "a \<noteq> b"
    then obtain d where d: "b = a + d" "0 < d" using ab by (metis le_iff_add less_le_trans not_gr_zero add_0_right)
    have "b * (b + 1) = a * (a + 1) + d * (a + b + 1)" by (simp add: d(1) algebra_simps)
    then have "(a * (a + 1) + d * (a + b + 1)) mod 2 ^ (q + 1) = a * (a + 1) mod 2 ^ (q + 1)" using eq by simp
    then have dv: "2 ^ (q + 1) dvd d * (a + b + 1)"
      using mod_eq_dvd_iff_nat [of "a * (a + 1)" "a * (a + 1) + d * (a + b + 1)" "2 ^ (q + 1)"] by simp
    show False
    proof (cases "even d")
      case True
      then have "odd (a + b + 1)" by (simp add: d(1))
      then have "coprime (2 ^ (q + 1)) (a + b + 1)" by (simp add: coprime_commute)
      then have "2 ^ (q + 1) dvd d" using dv coprime_dvd_mult_left_iff by blast
      then have "2 ^ (q + 1) \<le> d" using d(2) by (rule dvd_imp_le)
      then show False using l d(1) by simp
    next
      case False
      then have "coprime (2 ^ (q + 1)) d" by (simp add: coprime_commute)
      then have "2 ^ (q + 1) dvd a + b + 1" using dv coprime_dvd_mult_right_iff by blast
      then have "2 ^ (q + 1) \<le> a + b + 1" by (rule dvd_imp_le) simp
      then show False using l d by simp
    qed
  qed
  show ?thesis using main [of a b] main [of b a] assms by (cases "a \<le> b") auto
qed

lemma tri_surj:
  assumes "t < 2 ^ q"
  shows "\<exists>r < 2 ^ q. (r * (r + 1) div 2) mod 2 ^ q = (t :: nat)"
proof -
  define f where "f r = (r * (r + 1) div 2) mod 2 ^ q" for r :: nat
  have ev: "r * (r + 1) = 2 * (r * (r + 1) div 2)" for r :: nat by simp
  have "inj_on f {..<2 ^ q}"
  proof (rule inj_onI)
    fix a b assume ab: "a \<in> {..<2 ^ q}" "b \<in> {..<2 ^ q}" and "f a = f b"
    then have "(2 * (a * (a + 1) div 2)) mod (2 * 2 ^ q) = (2 * (b * (b + 1) div 2)) mod (2 * 2 ^ q)"
      unfolding mult_mod_right [symmetric] by (simp add: f_def)
    then have "(a * (a + 1)) mod 2 ^ (q + 1) = (b * (b + 1)) mod 2 ^ (q + 1)" using ev [of a] ev [of b] by simp
    then show "a = b" using tri_inj ab by simp
  qed
  moreover have "f ` {..<2 ^ q} \<subseteq> {..<2 ^ q}" by (auto simp: f_def)
  ultimately have "f ` {..<2 ^ q} = {..<2 ^ q}" by (intro endo_inj_surj) simp_all
  then show ?thesis using assms unfolding f_def by (metis (no_types, lifting) imageE lessThan_iff)
qed

lemma probe_covers:
  assumes "3 \<le> k" "j < 2 ^ k"
  shows "\<exists>r l. r < 2 ^ (k - 3) \<and> l < 8 \<and> (probe k s0 r + l) mod 2 ^ k = j"
proof -
  define N q d where "N = (2 :: nat) ^ k" and "q = k - 3" and "d = (j + N - s0 mod N) mod N"
  have N: "N = 8 * 2 ^ q"
  proof -
    have "k = 3 + q" using assms(1) by (simp add: q_def)
    then show ?thesis by (simp add: N_def power_add)
  qed
  have j: "(s0 + d) mod N = j"
  proof -
    have "s0 mod N \<le> N" by (simp add: N)
    then have "s0 mod N + (j + N - s0 mod N) = j + N" by simp
    then have "(s0 mod N + (j + N - s0 mod N)) mod N = j" using assms(2) by (simp add: N_def)
    then show ?thesis unfolding d_def by (metis mod_add_left_eq mod_add_right_eq)
  qed
  have "d div 8 < 2 ^ q" unfolding d_def using N by (simp add: div_less_iff_less_mult mult.commute)
  then obtain r where r: "r < 2 ^ q" "(r * (r + 1) div 2) mod 2 ^ q = d div 8" using tri_surj by blast
  have e: "4 * r * (r + 1) = 8 * (r * (r + 1) div 2)"
  proof -
    have "2 * (r * (r + 1) div 2) = r * (r + 1)" by simp
    then show ?thesis by linarith
  qed
  have "(8 * (r * (r + 1) div 2)) mod N = 8 * (d div 8)" unfolding N mult_mod_right [symmetric] r(2) ..
  then have "(s0 + 4 * r * (r + 1) + d mod 8) mod N = (s0 + 8 * (d div 8) + d mod 8) mod N"
    unfolding e by (metis mod_add_left_eq mod_add_right_eq)
  also have "\<dots> = j" using j by (simp add: add.assoc)
  finally have "(probe k s0 r + d mod 8) mod 2 ^ k = j" unfolding probe_def N_def by (simp add: mod_add_left_eq)
  then show ?thesis using r(1) unfolding q_def by (intro exI [of _ r] exI [of _ "d mod 8"]) simp
qed

lemma probe_Suc: "probe k s0 (Suc r) = (probe k s0 r + 8 * (r + 1)) mod 2 ^ k"
proof -
  have "s0 + 4 * Suc r * (Suc r + 1) = (s0 + 4 * r * (r + 1)) + 8 * (r + 1)" by (simp add: algebra_simps)
  then show ?thesis unfolding probe_def by (simp only: mod_add_left_eq)
qed

lemma probe_less: "probe k s0 r < 2 ^ k"
  by (simp add: probe_def)

text \<open>The 32-bit probe state computes it.\<close>

lemma mask_and: "k \<le> 31 \<Longrightarrow> unat (x AND (2 ^ k - 1 :: u32)) = unat x mod 2 ^ k"
proof -
  have "(2 ^ k - 1 :: u32) = Bit_Operations.mask k" by (simp add: mask_eq_exp_minus_1)
  then have "x AND (2 ^ k - 1) = take_bit k x" by (simp add: take_bit_eq_mask)
  then show ?thesis by (simp only: unsigned_take_bit_eq take_bit_eq_mod [of k "unat x"])
qed

lemma mod_pow_of_u32: "k \<le> 31 \<Longrightarrow> unat (word_of_nat n :: u32) mod 2 ^ k = n mod 2 ^ k"
  using mod_mod_cancel [of "2 ^ k" "2 ^ 32" n] le_imp_power_dvd [of k 32 "2 :: nat"]
  by (simp add: unsigned_of_nat take_bit_eq_mod)

lemma probe_step:
  assumes "k \<le> 31" "unat seq = probe k s0 r" "step = word_of_nat (8 * (r + 1))"
  shows "unat ((seq + step) AND (2 ^ k - 1 :: u32)) = probe k s0 (Suc r)" "step + 8 = word_of_nat (8 * (Suc r + 1))"
proof -
  have "seq + step = word_of_nat (probe k s0 r + 8 * (r + 1))" using assms(2,3) by (metis of_nat_add word_of_nat_unat_u32)
  then show "unat ((seq + step) AND (2 ^ k - 1 :: u32)) = probe k s0 (Suc r)"
    unfolding mask_and [OF assms(1)] probe_Suc using mod_pow_of_u32 [OF assms(1)] by metis
  show "step + 8 = word_of_nat (8 * (Suc r + 1))" unfolding assms(3) by simp
qed

subsection \<open>Candidate lanes\<close>

lemma ctz_bits: "w \<noteq> 0 \<Longrightarrow> bit w (ctz w) \<and> (\<forall>i < ctz w. \<not> bit w i)" for w :: u64
proof -
  assume "w \<noteq> 0"
  then obtain b where b: "bit w b" using bit_eqI [of w 0] by fastforce
  define k where "k = (LEAST b. bit w b)"
  have k: "bit w k" "\<And>i. i < k \<Longrightarrow> \<not> bit w i" unfolding k_def using LeastI [of "bit w", OF b] not_less_Least by blast+
  have "ctz w = k" by (rule ctz_eqI) (use k in auto)
  then show ?thesis using k by auto
qed

lemma nonzero_bit: "w \<noteq> 0 \<longleftrightarrow> (\<exists>n. bit w n)" for w :: u64
  using ctz_bits [of w] by auto

lemma bit_clear_lowest:
  fixes w :: u64
  assumes "w \<noteq> 0"
  shows "bit (w AND (w - 1)) b \<longleftrightarrow> bit w b \<and> b \<noteq> ctz w"
proof -
  let ?c = "ctz w" and ?x = "uint w"
  have lo: "bit w ?c" "\<And>i. i < ?c \<Longrightarrow> \<not> bit w i" using ctz_bits [OF assms] by auto
  have tb: "take_bit ?c ?x = 0" using lo(2) by (intro bit_eqI) (auto simp: bit_take_bit_iff bit_uint_iff)
  have od: "odd (drop_bit ?c ?x)" using lo(1) bit_imp_le_length [OF lo(1)] by (simp add: bit_iff_odd_drop_bit [symmetric] bit_uint_iff)
  define u where "u = drop_bit ?c ?x div 2"
  have x: "?x = push_bit ?c (2 * u + 1)"
  proof -
    have "?x = push_bit ?c (drop_bit ?c ?x)" using bits_ident [of ?c ?x] tb by simp
    then show ?thesis using od by (simp add: u_def)
  qed
  have x1: "?x - 1 = push_bit ?c (2 * u) OR Bit_Operations.mask ?c"
  proof -
    have "?x - 1 = push_bit ?c (2 * u) + Bit_Operations.mask ?c"
      unfolding x by (simp add: push_bit_eq_mult mask_eq_exp_minus_1 algebra_simps)
    also have "\<dots> = push_bit ?c (2 * u) OR Bit_Operations.mask ?c"
      by (rule disjunctive_add) (auto simp: bit_simps)
    finally show ?thesis .
  qed
  have "bit (w - 1) b \<longleftrightarrow> b < 64 \<and> bit (?x - 1) b" using uint_minus_bit [of w 1 b] by simp
  also have "bit (?x - 1) b \<longleftrightarrow> b < ?c \<or> (?c \<le> b \<and> bit (2 * u) (b - ?c))" unfolding x1 by (auto simp: bit_simps)
  finally have w1: "bit (w - 1) b \<longleftrightarrow> b < 64 \<and> (b < ?c \<or> (?c \<le> b \<and> bit (2 * u) (b - ?c)))" .
  have w0: "bit w b \<longleftrightarrow> b < 64 \<and> ?c \<le> b \<and> bit (2 * u + 1) (b - ?c)"
  proof -
    have "bit w b \<longleftrightarrow> b < 64 \<and> bit ?x b" by (auto simp: bit_uint_iff dest: bit_imp_le_length)
    then show ?thesis unfolding x by (auto simp: bit_simps)
  qed
  have e: "bit (2 * u + 1) n \<longleftrightarrow> n = 0 \<or> bit (2 * u) n" for n
    by (cases n) (simp_all add: bit_Suc bit_0)
  have z: "\<not> bit (2 * u) 0" by (simp add: bit_0)
  show ?thesis unfolding bit_and_iff w1 w0 e using z by (cases "b = ?c") auto
qed

definition lane_entry :: "memory \<Rightarrow> nat \<Rightarrow> u32 \<Rightarrow> u32 \<Rightarrow> nat \<Rightarrow> u32" where
  "lane_entry m slots msk seq b = load32 m (slots + 4 * unat ((seq + word_of_nat (b div 8)) AND msk))"

lemma index_candidates_spec:
  "case index_candidates m hdr slots msk key seq w of
     Some e \<Rightarrow> (\<exists>b. bit w b \<and> e = lane_entry m slots msk seq b) \<and> cel_map_key_eq m (load_cv m (index_map_entry_key m hdr e)) key
   | None \<Rightarrow> \<forall>b. bit w b \<longrightarrow> \<not> cel_map_key_eq m (load_cv m (index_map_entry_key m hdr (lane_entry m slots msk seq b))) key"
proof (induction m hdr slots msk key seq w rule: index_candidates.induct)
  case (1 m hdr slots msk key seq w)
  show ?case
  proof (cases "w = 0")
    case True
    then show ?thesis by (simp add: index_candidates.simps [of m hdr slots msk key seq 0])
  next
    case nz: False
    let ?e = "lane_entry m slots msk seq (ctz w)"
    show ?thesis
    proof (cases "cel_map_key_eq m (load_cv m (index_map_entry_key m hdr ?e)) key")
      case True
      then have "index_candidates m hdr slots msk key seq w = Some ?e"
        using nz by (simp add: index_candidates.simps [of m hdr slots msk key seq w] lane_entry_def)
      then show ?thesis using True ctz_bits [OF nz] by auto
    next
      case False
      then have "index_candidates m hdr slots msk key seq w = index_candidates m hdr slots msk key seq (w AND (w - 1))"
        using nz by (simp add: index_candidates.simps [of m hdr slots msk key seq w] lane_entry_def Let_def)
      moreover note "1.IH" [OF nz refl refl refl False [unfolded lane_entry_def], unfolded bit_clear_lowest [OF nz]]
      ultimately show ?thesis using False by (auto split: option.splits)
    qed
  qed
qed

subsection \<open>The index invariant\<close>

text \<open>
  Slot \<open>pos k s0 r l\<close> is lane \<open>l\<close> of the \<open>r\<close>-th group of the probe from \<open>s0\<close>. An index over the keys
  \<open>ks\<close> mirrors its first control bytes; every slot is empty or holds an entry with that entry's
  control byte; every key sits on its own probe path with no empty slot in an earlier group; and
  no more slots are full than there are keys.
\<close>

definition pos :: "nat \<Rightarrow> nat \<Rightarrow> nat \<Rightarrow> nat \<Rightarrow> nat" where
  "pos k s0 r l = (probe k s0 r + l) mod 2 ^ k"

definition home :: "nat \<Rightarrow> u64 \<Rightarrow> nat" where
  "home k h = unat (ucast (cel_h1 h) AND (2 ^ k - 1 :: u32))"

definition clones_ok :: "memory \<Rightarrow> nat \<Rightarrow> nat \<Rightarrow> bool" where
  "clones_ok m c k \<longleftrightarrow> (\<forall>j<7. m (c + (2 ^ k + j)) = m (c + j))"

definition slots_ok :: "memory \<Rightarrow> nat \<Rightarrow> nat \<Rightarrow> nat \<Rightarrow> scalar list \<Rightarrow> bool" where
  "slots_ok m c sl k ks \<longleftrightarrow> (\<forall>j < 2 ^ k. m (c + j) = kEmpty \<or>
     (\<exists>i < length ks. load32 m (sl + 4 * j) = word_of_nat i \<and> m (c + j) = cel_h2 (scalar_hash (ks ! i))))"

definition reach_ok :: "memory \<Rightarrow> nat \<Rightarrow> nat \<Rightarrow> nat \<Rightarrow> scalar \<Rightarrow> nat \<Rightarrow> bool" where
  "reach_ok m c sl k x i \<longleftrightarrow> (let h = scalar_hash x; s0 = home k h in
     \<exists>r l. l < 8 \<and> m (c + pos k s0 r l) = cel_h2 h \<and> load32 m (sl + 4 * pos k s0 r l) = word_of_nat i
       \<and> (\<forall>r'<r. \<forall>l'<8. m (c + pos k s0 r' l') \<noteq> kEmpty))"

definition index_ok :: "memory \<Rightarrow> nat \<Rightarrow> nat \<Rightarrow> nat \<Rightarrow> scalar list \<Rightarrow> bool" where
  "index_ok m c sl k ks \<longleftrightarrow> clones_ok m c k \<and> slots_ok m c sl k ks
     \<and> (\<forall>i < length ks. reach_ok m c sl k (ks ! i) i)
     \<and> card {j. j < 2 ^ k \<and> m (c + j) \<noteq> kEmpty} \<le> length ks"

definition keyed :: "memory \<Rightarrow> nat \<Rightarrow> scalar list \<Rightarrow> bool" where
  "keyed m hdr ks \<longleftrightarrow> length ks < 2 ^ 32 \<and>
     (\<forall>i < length ks. scalar_of m (load_cv m (index_map_entry_key m hdr (word_of_nat i))) = Some (ks ! i))"

lemma pos_less: "pos k s0 r l < 2 ^ k"
  by (simp add: pos_def)

lemma h2_top: "\<not> bit (cel_h2 h) 7"
  by (simp add: cel_h2_def bit_simps)

lemma h2_not_empty: "cel_h2 h \<noteq> kEmpty"
  using h2_top [of h] by auto

lemma keyed_eq:
  "keyed m hdr ks \<Longrightarrow> i < length ks \<Longrightarrow>
   cel_map_key_eq m (load_cv m (index_map_entry_key m hdr (word_of_nat i))) key \<longleftrightarrow> scalar_of m key = Some (ks ! i)"
  by (simp add: keyed_def cel_map_key_eq_iff)

text \<open>What a group load sees.\<close>

lemma group_byte:
  assumes "clones_ok m c k" "3 \<le> k" "l < 8"
  shows "m (c + probe k s0 r + l) = m (c + pos k s0 r l)"
proof (cases "probe k s0 r + l < 2 ^ k")
  case True
  then show ?thesis by (simp add: pos_def add.assoc)
next
  case False
  have p: "probe k s0 r < 2 ^ k" by (rule probe_less)
  define j where "j = probe k s0 r + l - 2 ^ k"
  have j: "probe k s0 r + l = 2 ^ k + j" "j < 7" using False p assms(3) by (simp_all add: j_def)
  have "(2 :: nat) ^ 3 \<le> 2 ^ k" using assms(2) by (intro power_increasing) simp_all
  then have "pos k s0 r l = j" unfolding pos_def j(1) using j(2) by simp
  then show ?thesis using assms(1) j unfolding clones_ok_def by (metis add.assoc)
qed

lemma lane_slot:
  assumes "k \<le> 31" "unat seq = probe k s0 r" "l < 8"
  shows "unat ((seq + word_of_nat ((8 * l + 7) div 8)) AND (2 ^ k - 1 :: u32)) = pos k s0 r l"
proof -
  have "(8 * l + 7) div 8 = l" by simp
  moreover have "seq + word_of_nat l = word_of_nat (probe k s0 r + l)" using assms(2) by (metis of_nat_add word_of_nat_unat_u32)
  ultimately show ?thesis unfolding mask_and [OF assms(1)] pos_def by (simp only: mod_pow_of_u32 [OF assms(1)])
qed

lemma kEmpty_bits: "bit kEmpty 7" "\<not> bit kEmpty 1"
  by simp_all

text \<open>One step of a probe loop over a group.\<close>

lemma group_empty_iff:
  assumes "clones_ok m c k" "slots_ok m c sl k ks" "3 \<le> k" "unat seq = probe k s0 r"
  shows "group_match_empty (cel_group_load m (c + unat seq)) \<noteq> 0 \<longleftrightarrow> (\<exists>l<8. m (c + pos k s0 r l) = kEmpty)"
proof -
  have b: "bit (m (c + unat seq + l)) 7 \<and> \<not> bit (m (c + unat seq + l)) 1 \<longleftrightarrow> m (c + pos k s0 r l) = kEmpty" if "l < 8" for l
  proof -
    have g: "m (c + unat seq + l) = m (c + pos k s0 r l)" using group_byte [OF assms(1,3) that] assms(4) by simp
    have "m (c + pos k s0 r l) = kEmpty \<or> \<not> bit (m (c + pos k s0 r l)) 7"
      using assms(2) pos_less [of k s0 r l] h2_top unfolding slots_ok_def by metis
    then show ?thesis unfolding g using kEmpty_bits by metis
  qed
  have "group_match_empty (cel_group_load m (c + unat seq)) \<noteq> 0 \<longleftrightarrow>
      (\<exists>n. bit (group_match_empty (cel_group_load m (c + unat seq))) n)"
    by (rule nonzero_bit)
  also have "\<dots> \<longleftrightarrow> (\<exists>l<8. m (c + pos k s0 r l) = kEmpty)"
    unfolding group_match_empty_bit using b by (metis (mono_tags, lifting))
  finally show ?thesis .
qed

lemma candidates_spec:
  fixes key :: cel_value and h :: u64
  assumes ok: "clones_ok m c k" "slots_ok m c sl k ks" and kd: "keyed m hdr ks"
    and k: "3 \<le> k" "k \<le> 31" and seq: "unat seq = probe k s0 r"
  defines "res \<equiv> index_candidates m hdr sl (2 ^ k - 1) key seq (group_match (cel_group_load m (c + unat seq)) (cel_h2 h))"
  shows "res = Some e \<Longrightarrow> \<exists>i < length ks. e = word_of_nat i \<and> scalar_of m key = Some (ks ! i)"
    and "res = None \<Longrightarrow> l < 8 \<Longrightarrow> m (c + pos k s0 r l) = cel_h2 h \<Longrightarrow> i < length ks \<Longrightarrow>
      load32 m (sl + 4 * pos k s0 r l) = word_of_nat i \<Longrightarrow> scalar_of m key \<noteq> Some (ks ! i)"
proof -
  let ?w = "group_match (cel_group_load m (c + unat seq)) (cel_h2 h)"
  note spec = index_candidates_spec [where m = m and hdr = hdr and slots = sl and msk = "2 ^ k - 1" and key = key and seq = seq and w = ?w, folded res_def]
  have entry: "lane_entry m sl (2 ^ k - 1) seq (8 * l + 7) = load32 m (sl + 4 * pos k s0 r l)" if "l < 8" for l
    unfolding lane_entry_def lane_slot [OF k(2) seq that] ..
  have byte: "m (c + unat seq + l) = m (c + pos k s0 r l)" if "l < 8" for l
    using group_byte [OF ok(1) k(1) that] seq by simp
  show "\<exists>i < length ks. e = word_of_nat i \<and> scalar_of m key = Some (ks ! i)" if r: "res = Some e"
  proof -
    obtain b where b: "bit ?w b" "e = lane_entry m sl (2 ^ k - 1) seq b"
      and eq: "cel_map_key_eq m (load_cv m (index_map_entry_key m hdr e)) key"
      using spec unfolding r by auto
    obtain l where l: "l < 8" "b = 8 * l + 7" "\<not> bit (m (c + unat seq + l)) 7"
      by (rule group_match_lane [OF b(1) h2_top])
    have "m (c + pos k s0 r l) \<noteq> kEmpty" using l(3) kEmpty_bits(1) unfolding byte [OF l(1)] by metis
    then obtain i where i: "i < length ks" "load32 m (sl + 4 * pos k s0 r l) = word_of_nat i"
      using ok(2) pos_less [of k s0 r l] unfolding slots_ok_def by blast
    have "e = word_of_nat i" unfolding b(2) l(2) entry [OF l(1)] by (rule i(2))
    then show ?thesis using eq i(1) keyed_eq [OF kd i(1)] by auto
  qed
  show "scalar_of m key \<noteq> Some (ks ! i)"
    if r: "res = None" and l: "l < 8" and h: "m (c + pos k s0 r l) = cel_h2 h" and i: "i < length ks"
      and e: "load32 m (sl + 4 * pos k s0 r l) = word_of_nat i"
  proof -
    have "m (c + unat seq + l) = cel_h2 h" using byte [OF l] h by simp
    then have b: "bit ?w (8 * l + 7)" using group_match_complete [OF l _ _ ] h2_top by metis
    have "\<forall>b. bit ?w b \<longrightarrow> \<not> cel_map_key_eq m (load_cv m (index_map_entry_key m hdr (lane_entry m sl (2 ^ k - 1) seq b))) key"
      using spec unfolding r by simp
    from this [rule_format, OF b]
    have "\<not> cel_map_key_eq m (load_cv m (index_map_entry_key m hdr (word_of_nat i))) key"
      unfolding entry [OF l] e .
    then show ?thesis using keyed_eq [OF kd i] by simp
  qed
qed

text \<open>Some group of the first \<open>2^(k-3)\<close> has an empty slot while the table is not full.\<close>

lemma has_empty:
  assumes "index_ok m c sl k ks" "length ks < 2 ^ k" "3 \<le> k"
  shows "\<exists>r < 2 ^ (k - 3). \<exists>l<8. m (c + pos k s0 r l) = kEmpty"
proof -
  have "\<exists>j < 2 ^ k. m (c + j) = kEmpty"
  proof (rule ccontr)
    assume "\<not> (\<exists>j < 2 ^ k. m (c + j) = kEmpty)"
    then have "{j. j < 2 ^ k \<and> m (c + j) \<noteq> kEmpty} = {..<2 ^ k}" by auto
    then show False using assms(1,2) by (simp add: index_ok_def)
  qed
  then obtain j where j: "j < 2 ^ k" "m (c + j) = kEmpty" by blast
  then show ?thesis using probe_covers [OF assms(3) j(1), of s0] unfolding pos_def by metis
qed

text \<open>The find loop, from any group with all matches still ahead.\<close>

lemma index_find_loop_correct:
  assumes ok: "clones_ok m c k" "slots_ok m c sl k ks" and kd: "keyed m hdr ks"
    and k: "3 \<le> k" "k \<le> 31" and empty: "\<exists>l<8. m (c + pos k s0 stop l) = kEmpty"
  shows "r \<le> stop \<Longrightarrow> unat seq = probe k s0 r \<Longrightarrow> step = word_of_nat (8 * (r + 1)) \<Longrightarrow>
    (\<forall>i < length ks. scalar_of m key = Some (ks ! i) \<longrightarrow> (\<exists>r' l. r \<le> r' \<and> l < 8 \<and> m (c + pos k s0 r' l) = cel_h2 h
       \<and> load32 m (sl + 4 * pos k s0 r' l) = word_of_nat i \<and> (\<forall>r''<r'. \<forall>l'<8. m (c + pos k s0 r'' l') \<noteq> kEmpty))) \<Longrightarrow>
    \<exists>e. index_find_loop m hdr c sl (2 ^ k - 1) key (cel_h2 h) seq step = Some e
      \<and> (if \<exists>i < length ks. scalar_of m key = Some (ks ! i)
         then \<exists>i < length ks. e = word_of_nat i \<and> scalar_of m key = Some (ks ! i) else e = UINT32_MAX)"
proof (induction "stop - r" arbitrary: r seq step)
  case (0 r seq step)
  then have r: "r = stop" by simp
  note cs = candidates_spec [OF ok kd k 0(3), of key h]
  have em: "group_match_empty (cel_group_load m (c + unat seq)) \<noteq> 0"
    using empty unfolding group_empty_iff [OF ok k(1) 0(3)] r .
  show ?case
  proof (cases "index_candidates m hdr sl (2 ^ k - 1) key seq (group_match (cel_group_load m (c + unat seq)) (cel_h2 h))")
    case None
    have "scalar_of m key \<noteq> Some (ks ! i)" if i: "i < length ks" for i
    proof
      assume e: "scalar_of m key = Some (ks ! i)"
      obtain r' l where x: "r \<le> r'" "l < 8" "m (c + pos k s0 r' l) = cel_h2 h"
        "load32 m (sl + 4 * pos k s0 r' l) = word_of_nat i" "\<forall>r''<r'. \<forall>l'<8. m (c + pos k s0 r'' l') \<noteq> kEmpty"
        using 0(5) i e by blast
      have "r' = r" using x(1,5) empty r by (metis le_neq_implies_less)
      then show False using cs(2) [OF None x(2) _ i] x(3,4) e by simp
    qed
    then show ?thesis using None em by (subst index_find_loop.simps) (auto simp: Let_def)
  next
    case (Some e)
    then show ?thesis using cs(1) [OF Some] by (subst index_find_loop.simps) (auto simp: Let_def)
  qed
next
  case (Suc d r seq step)
  note cs = candidates_spec [OF ok kd k Suc.prems(2), of key h]
  show ?case
  proof (cases "index_candidates m hdr sl (2 ^ k - 1) key seq (group_match (cel_group_load m (c + unat seq)) (cel_h2 h))")
    case (Some e)
    then show ?thesis using cs(1) [OF Some] by (subst index_find_loop.simps) (auto simp: Let_def)
  next
    case None
    have ahead: "\<exists>r' l. Suc r \<le> r' \<and> l < 8 \<and> m (c + pos k s0 r' l) = cel_h2 h
       \<and> load32 m (sl + 4 * pos k s0 r' l) = word_of_nat i \<and> (\<forall>r''<r'. \<forall>l'<8. m (c + pos k s0 r'' l') \<noteq> kEmpty)"
      if i: "i < length ks" and e: "scalar_of m key = Some (ks ! i)" for i
    proof -
      obtain r' l where x: "r \<le> r'" "l < 8" "m (c + pos k s0 r' l) = cel_h2 h"
        "load32 m (sl + 4 * pos k s0 r' l) = word_of_nat i" "\<forall>r''<r'. \<forall>l'<8. m (c + pos k s0 r'' l') \<noteq> kEmpty"
        using Suc.prems(4) i e by blast
      have "r' \<noteq> r" using cs(2) [OF None x(2) _ i] x(3,4) e by auto
      then show ?thesis using x by (intro exI [of _ r'] exI [of _ l]) auto
    qed
    show ?thesis
    proof (cases "group_match_empty (cel_group_load m (c + unat seq)) \<noteq> 0")
      case True
      then obtain l' where l': "l' < 8" "m (c + pos k s0 r l') = kEmpty"
        unfolding group_empty_iff [OF ok k(1) Suc.prems(2)] by blast
      have "scalar_of m key \<noteq> Some (ks ! i)" if "i < length ks" for i
        using ahead [OF that] l' by (metis Suc_le_lessD)
      then show ?thesis using None True by (subst index_find_loop.simps) (auto simp: Let_def)
    next
      case False
      have "index_find_loop m hdr c sl (2 ^ k - 1) key (cel_h2 h) seq step =
          index_find_loop m hdr c sl (2 ^ k - 1) key (cel_h2 h) ((seq + step) AND (2 ^ k - 1)) (step + 8)"
        using None False by (subst index_find_loop.simps) (simp add: Let_def)
      moreover note Suc.hyps(1) [OF _ _ probe_step [OF k(2) Suc.prems(2,3)]]
      ultimately show ?thesis using Suc.hyps(2) Suc.prems(1) ahead by simp
    qed
  qed
qed

subsection \<open>Lookup through the index\<close>

definition map_indexed :: "memory \<Rightarrow> nat \<Rightarrow> scalar list \<Rightarrow> bool" where
  "map_indexed m hdr ks \<longleftrightarrow> keyed m hdr ks \<and> length ks = unat (map_count m hdr) \<and> map_index m hdr \<noteq> 0 \<and>
     (\<exists>k. 3 \<le> k \<and> k \<le> 31 \<and> cel_map_index_num_slots (map_count m hdr) = Some (2 ^ k) \<and> length ks < 2 ^ k
       \<and> index_ok m (unat (map_index m hdr)) (unat (map_index m hdr) + unat (slot_array_offset_from_ctrl (2 ^ k))) k ks)"

text \<open>The position of a key among the keys of a map, as the code reports it.\<close>

definition key_position :: "memory \<Rightarrow> scalar list \<Rightarrow> cel_value \<Rightarrow> u32 \<Rightarrow> bool" where
  "key_position m ks key e \<longleftrightarrow>
     (if \<exists>i < length ks. scalar_of m key = Some (ks ! i)
      then \<exists>i < length ks. e = word_of_nat i \<and> scalar_of m key = Some (ks ! i) else e = UINT32_MAX)"

lemma index_find_correct:
  assumes "map_indexed m hdr ks"
  shows "\<exists>e. cel_map_index_find m hdr key = Some e \<and> key_position m ks key e"
proof -
  obtain k where k: "3 \<le> k" "k \<le> 31" "cel_map_index_num_slots (map_count m hdr) = Some (2 ^ k)" "length ks < 2 ^ k"
    and ix: "index_ok m (unat (map_index m hdr)) (unat (map_index m hdr) + unat (slot_array_offset_from_ctrl (2 ^ k))) k ks"
    and kd: "keyed m hdr ks" and nz: "map_index m hdr \<noteq> 0"
    using assms unfolding map_indexed_def by blast
  define c sl h s0 where "c = unat (map_index m hdr)" and "sl = c + unat (slot_array_offset_from_ctrl (2 ^ k))"
    and "h = cel_map_key_hash m key" and "s0 = home k h"
  have ix': "index_ok m c sl k ks" using ix by (simp add: c_def sl_def)
  obtain stop where stop: "\<exists>l<8. m (c + pos k s0 stop l) = kEmpty" using has_empty [OF ix' k(4,1)] by blast
  have seq: "unat (ucast (cel_h1 h) AND (2 ^ k - 1 :: u32)) = probe k s0 0"
    using mask_and [OF k(2), of "ucast (cel_h1 h)"] by (simp add: s0_def home_def probe_def)
  have ahead: "\<forall>i < length ks. scalar_of m key = Some (ks ! i) \<longrightarrow> (\<exists>r' l. 0 \<le> r' \<and> l < 8 \<and> m (c + pos k s0 r' l) = cel_h2 h
       \<and> load32 m (sl + 4 * pos k s0 r' l) = word_of_nat i \<and> (\<forall>r''<r'. \<forall>l'<8. m (c + pos k s0 r'' l') \<noteq> kEmpty))"
  proof (intro allI impI)
    fix i assume i: "i < length ks" "scalar_of m key = Some (ks ! i)"
    have h: "h = scalar_hash (ks ! i)" unfolding h_def by (rule key_hash_scalar [OF i(2)])
    have "reach_ok m c sl k (ks ! i) i" using ix' i(1) by (simp add: index_ok_def)
    then show "\<exists>r' l. 0 \<le> r' \<and> l < 8 \<and> m (c + pos k s0 r' l) = cel_h2 h
       \<and> load32 m (sl + 4 * pos k s0 r' l) = word_of_nat i \<and> (\<forall>r''<r'. \<forall>l'<8. m (c + pos k s0 r'' l') \<noteq> kEmpty)"
      unfolding reach_ok_def Let_def h [symmetric] s0_def [symmetric] by auto
  qed
  have "\<exists>e. index_find_loop m hdr c sl (2 ^ k - 1) key (cel_h2 h) (ucast (cel_h1 h) AND (2 ^ k - 1)) 8 = Some e
      \<and> key_position m ks key e"
    unfolding key_position_def
    by (rule index_find_loop_correct [OF _ _ kd k(1,2) stop _ seq _ ahead])
      (use ix' in \<open>simp_all add: index_ok_def\<close>)
  then show ?thesis using nz k(3)
    by (simp add: cel_map_index_find_def Let_def c_def sl_def h_def)
qed

subsection \<open>Placing an entry\<close>

definition put_slot :: "memory \<Rightarrow> nat \<Rightarrow> nat \<Rightarrow> nat \<Rightarrow> nat \<Rightarrow> u8 \<Rightarrow> u32 \<Rightarrow> memory" where
  "put_slot m c sl k j h2 i =
     (let m1 = m(c + j := h2); m2 = (if j < 7 then m1(c + (2 ^ k + j) := h2) else m1) in store32 m2 (sl + 4 * j) i)"

lemma put_slot_ctrl:
  assumes "c + (2 ^ k + 7) \<le> sl" "j < 2 ^ k" "3 \<le> k"
  shows "x < 2 ^ k \<Longrightarrow> put_slot m c sl k j hb i (c + x) = (if x = j then hb else m (c + x))"
    and "x < 7 \<Longrightarrow> put_slot m c sl k j hb i (c + (2 ^ k + x)) = (if x = j then hb else m (c + (2 ^ k + x)))"
  using assms by (auto simp: put_slot_def Let_def store32_frame)

lemma put_slot_entry:
  assumes "c + (2 ^ k + 7) \<le> sl" "j < 2 ^ k"
  shows "load32 (put_slot m c sl k j hb i) (sl + 4 * j) = i"
    and "x \<noteq> j \<Longrightarrow> load32 (put_slot m c sl k j hb i) (sl + 4 * x) = load32 m (sl + 4 * x)"
proof -
  show "load32 (put_slot m c sl k j hb i) (sl + 4 * j) = i" by (simp add: put_slot_def Let_def mem_simps)
  assume x: "x \<noteq> j"
  show "load32 (put_slot m c sl k j hb i) (sl + 4 * x) = load32 m (sl + 4 * x)"
  proof (rule load32_cong)
    fix y :: nat assume y: "y < 4"
    have "sl + 4 * x + y < sl + 4 * j \<or> sl + 4 * j + 4 \<le> sl + 4 * x + y" using x y by linarith
    moreover have "sl + 4 * x + y \<noteq> c + j" "j < 7 \<Longrightarrow> sl + 4 * x + y \<noteq> c + (2 ^ k + j)" using assms by linarith+
    ultimately show "put_slot m c sl k j hb i (sl + 4 * x + y) = m (sl + 4 * x + y)"
      by (auto simp: put_slot_def Let_def store32_frame)
  qed
qed

lemma put_slot_frame:
  assumes "c + (2 ^ k + 7) \<le> sl" "j < 2 ^ k"
  shows "same_outside c (sl + 4 * 2 ^ k - c) m (put_slot m c sl k j hb i)"
proof -
  have "put_slot m c sl k j hb i x = m x" if x: "x < c \<or> c + (sl + 4 * 2 ^ k - c) \<le> x" for x
  proof -
    have "x < c \<or> sl + 4 * 2 ^ k \<le> x" using x assms by linarith
    moreover have "sl + 4 * j + 4 \<le> sl + 4 * 2 ^ k" using assms(2) by linarith
    ultimately have "x \<noteq> c + j" "j < 7 \<Longrightarrow> x \<noteq> c + (2 ^ k + j)" "x < sl + 4 * j \<or> sl + 4 * j + 4 \<le> x"
      using assms by linarith+
    then show ?thesis by (auto simp: put_slot_def Let_def store32_frame)
  qed
  then show ?thesis by (simp add: same_outside_def)
qed

lemma put_slot_index_ok:
  assumes ix: "index_ok m c sl k ks" and lay: "c + (2 ^ k + 7) \<le> sl" "3 \<le> k"
    and j: "j = pos k (home k (scalar_hash x)) r l" "l < 8" "m (c + j) = kEmpty"
    and before: "\<forall>r'<r. \<forall>l'<8. m (c + pos k (home k (scalar_hash x)) r' l') \<noteq> kEmpty"
  shows "index_ok (put_slot m c sl k j (cel_h2 (scalar_hash x)) (word_of_nat (length ks))) c sl k (ks @ [x])"
proof -
  let ?h2 = "cel_h2 (scalar_hash x)"
  let ?m = "put_slot m c sl k j ?h2 (word_of_nat (length ks))"
  have jl: "j < 2 ^ k" using j(1) pos_less by simp
  note ctrl = put_slot_ctrl [OF lay(1) jl lay(2), where m = m and hb = ?h2 and i = "word_of_nat (length ks)"]
  note entry = put_slot_entry [OF lay(1) jl, where m = m and hb = ?h2 and i = "word_of_nat (length ks)"]
  have ne: "m (c + x) \<noteq> kEmpty \<Longrightarrow> x < 2 ^ k \<Longrightarrow> ?m (c + x) = m (c + x) \<and> x \<noteq> j" for x using ctrl(1) [of x] j(3) by auto
  have ne2: "m (c + x) \<noteq> kEmpty \<Longrightarrow> x < 2 ^ k \<Longrightarrow> ?m (c + x) \<noteq> kEmpty" for x using ne [of x] by simp
  have p8: "(2 :: nat) ^ 3 \<le> 2 ^ k" using lay(2) by (intro power_increasing) simp_all
  have cl: "clones_ok ?m c k"
    using ix ctrl p8 unfolding index_ok_def clones_ok_def by auto
  have so: "slots_ok ?m c sl k (ks @ [x])"
    unfolding slots_ok_def
  proof (intro allI impI)
    fix y :: nat assume y: "y < 2 ^ k"
    show "?m (c + y) = kEmpty \<or> (\<exists>i < length (ks @ [x]). load32 ?m (sl + 4 * y) = word_of_nat i \<and> ?m (c + y) = cel_h2 (scalar_hash ((ks @ [x]) ! i)))"
    proof (cases "y = j")
      case True
      then show ?thesis using ctrl(1) [OF y] entry(1) by (intro disjI2 exI [of _ "length ks"]) simp
    next
      case False
      have "m (c + y) = kEmpty \<or> (\<exists>i < length ks. load32 m (sl + 4 * y) = word_of_nat i \<and> m (c + y) = cel_h2 (scalar_hash (ks ! i)))"
        using ix y unfolding index_ok_def slots_ok_def by blast
      then show ?thesis
      proof
        assume "\<exists>i < length ks. load32 m (sl + 4 * y) = word_of_nat i \<and> m (c + y) = cel_h2 (scalar_hash (ks ! i))"
        then obtain i where "i < length ks" "load32 m (sl + 4 * y) = word_of_nat i" "m (c + y) = cel_h2 (scalar_hash (ks ! i))" by blast
        then show ?thesis using ctrl(1) [OF y] False entry(2) [OF False] by (intro disjI2 exI [of _ i]) (simp add: nth_append)
      qed (use ctrl(1) [OF y] False in simp)
    qed
  qed
  have re: "reach_ok ?m c sl k ((ks @ [x]) ! i) i" if i: "i < length (ks @ [x])" for i
  proof (cases "i = length ks")
    case True
    then show ?thesis unfolding reach_ok_def Let_def
      using j before ctrl(1) [OF jl] entry(1) ne2 pos_less by (intro exI [of _ r] exI [of _ l]) (auto simp: nth_append)
  next
    case False
    then have il: "i < length ks" using i by simp
    then have "reach_ok m c sl k (ks ! i) i" using ix by (simp add: index_ok_def)
    then obtain r' l' where "l' < 8" "m (c + pos k (home k (scalar_hash (ks ! i))) r' l') = cel_h2 (scalar_hash (ks ! i))"
      "load32 m (sl + 4 * pos k (home k (scalar_hash (ks ! i))) r' l') = word_of_nat i"
      "\<forall>r''<r'. \<forall>l''<8. m (c + pos k (home k (scalar_hash (ks ! i))) r'' l'') \<noteq> kEmpty"
      unfolding reach_ok_def Let_def by blast
    then show ?thesis using il ne [OF _ pos_less] ne2 [OF _ pos_less] h2_not_empty entry(2) unfolding reach_ok_def Let_def
      by (intro exI [of _ r'] exI [of _ l']) (auto simp: nth_append)
  qed
  have "{y. y < 2 ^ k \<and> ?m (c + y) \<noteq> kEmpty} = insert j {y. y < 2 ^ k \<and> m (c + y) \<noteq> kEmpty}"
    using ctrl(1) jl h2_not_empty by (auto split: if_splits)
  then have "card {y. y < 2 ^ k \<and> ?m (c + y) \<noteq> kEmpty} \<le> Suc (card {y. y < 2 ^ k \<and> m (c + y) \<noteq> kEmpty})"
    by (simp add: card_insert_if)
  then have "card {y. y < 2 ^ k \<and> ?m (c + y) \<noteq> kEmpty} \<le> length (ks @ [x])"
    using ix by (simp add: index_ok_def)
  then show ?thesis using cl so re unfolding index_ok_def by blast
qed

text \<open>The lane the code places into is the lowest empty one.\<close>

lemma empty_lane:
  assumes ok: "clones_ok m c k" "slots_ok m c sl k ks" and k: "3 \<le> k" "k \<le> 31" and seq: "unat seq = probe k s0 r"
    and ne: "group_match_empty (cel_group_load m (c + unat seq)) \<noteq> 0"
  obtains l where "l < 8" "m (c + pos k s0 r l) = kEmpty"
    "unat ((seq + word_of_nat (ctz (group_match_empty (cel_group_load m (c + unat seq))) div 8)) AND (2 ^ k - 1 :: u32)) = pos k s0 r l"
proof -
  let ?e = "group_match_empty (cel_group_load m (c + unat seq))"
  have "bit ?e (ctz ?e)" using ctz_bits [OF ne] by simp
  then obtain l where l: "l < 8" "ctz ?e = 8 * l + 7" "bit (m (c + unat seq + l)) 7" unfolding group_match_empty_bit by blast
  have "m (c + unat seq + l) = m (c + pos k s0 r l)" using group_byte [OF ok(1) k(1) l(1)] seq by simp
  then have "bit (m (c + pos k s0 r l)) 7" using l(3) by simp
  then have "m (c + pos k s0 r l) = kEmpty" using ok(2) pos_less [of k s0 r l] h2_top unfolding slots_ok_def by metis
  then show thesis using that l(1) lane_slot [OF k(2) seq l(1)] unfolding l(2) by blast
qed

lemma index_place_loop_correct:
  assumes ok: "clones_ok m c k" "slots_ok m c sl k ks" and kd: "keyed m hdr ks"
    and k: "3 \<le> k" "k \<le> 31" and empty: "\<exists>l<8. m (c + pos k s0 stop l) = kEmpty" and x: "scalar_of m key = Some x"
  shows "r \<le> stop \<Longrightarrow> unat seq = probe k s0 r \<Longrightarrow> step = word_of_nat (8 * (r + 1)) \<Longrightarrow>
    (\<forall>r'<r. \<forall>l'<8. m (c + pos k s0 r' l') \<noteq> kEmpty) \<Longrightarrow>
    (\<forall>i < length ks. x = ks ! i \<longrightarrow> (\<exists>r' l. r \<le> r' \<and> l < 8 \<and> m (c + pos k s0 r' l) = cel_h2 h
       \<and> load32 m (sl + 4 * pos k s0 r' l) = word_of_nat i \<and> (\<forall>r''<r'. \<forall>l'<8. m (c + pos k s0 r'' l') \<noteq> kEmpty))) \<Longrightarrow>
    if x \<in> set ks then index_place_loop m hdr c sl (2 ^ k) i key (cel_h2 h) seq step = Some (False, m)
    else \<exists>r' l. l < 8 \<and> m (c + pos k s0 r' l) = kEmpty \<and> (\<forall>r''<r'. \<forall>l'<8. m (c + pos k s0 r'' l') \<noteq> kEmpty)
      \<and> index_place_loop m hdr c sl (2 ^ k) i key (cel_h2 h) seq step = Some (True, put_slot m c sl k (pos k s0 r' l) (cel_h2 h) i)"
proof (induction "stop - r" arbitrary: r seq step rule: less_induct)
  case (less r seq step)
  note cs = candidates_spec [OF ok kd k less.prems(2), of key h]
  let ?w = "group_match (cel_group_load m (c + unat seq)) (cel_h2 h)"
  have unroll: "index_place_loop m hdr c sl (2 ^ k) i key (cel_h2 h) seq step =
      (case index_candidates m hdr sl (2 ^ k - 1) key seq ?w of
        Some entry \<Rightarrow> Some (False, m)
      | None \<Rightarrow>
          if group_match_empty (cel_group_load m (c + unat seq)) \<noteq> 0 then
             (let slot = (seq + word_of_nat (ctz (group_match_empty (cel_group_load m (c + unat seq))) div 8)) AND (2 ^ k - 1);
                  m1 = m(c + unat slot := cel_h2 h);
                  m2 = (if slot < 7 then m1(c + unat (slot + 2 ^ k) := cel_h2 h) else m1)
              in Some (True, store32 m2 (sl + 4 * unat slot) i))
           else index_place_loop m hdr c sl (2 ^ k) i key (cel_h2 h) ((seq + step) AND (2 ^ k - 1)) (step + 8))"
    by (subst index_place_loop.simps) (simp only: Let_def)
  show ?case
  proof (cases "index_candidates m hdr sl (2 ^ k - 1) key seq ?w")
    case (Some e)
    then have "x \<in> set ks" using cs(1) [OF Some] x by auto
    then show ?thesis using Some unroll by simp
  next
    case None
    have ahead: "\<exists>r' l. Suc r \<le> r' \<and> l < 8 \<and> m (c + pos k s0 r' l) = cel_h2 h
       \<and> load32 m (sl + 4 * pos k s0 r' l) = word_of_nat i \<and> (\<forall>r''<r'. \<forall>l'<8. m (c + pos k s0 r'' l') \<noteq> kEmpty)"
      if i: "i < length ks" and e: "x = ks ! i" for i
    proof -
      obtain r' l where y: "r \<le> r'" "l < 8" "m (c + pos k s0 r' l) = cel_h2 h"
        "load32 m (sl + 4 * pos k s0 r' l) = word_of_nat i" "\<forall>r''<r'. \<forall>l'<8. m (c + pos k s0 r'' l') \<noteq> kEmpty"
        using less.prems(5) i e by blast
      have "r' \<noteq> r" using cs(2) [OF None y(2) _ i] y(3,4) e x by auto
      then show ?thesis using y by (intro exI [of _ r'] exI [of _ l]) auto
    qed
    show ?thesis
    proof (cases "group_match_empty (cel_group_load m (c + unat seq)) \<noteq> 0")
      case True
      obtain l where l: "l < 8" "m (c + pos k s0 r l) = kEmpty"
        "unat ((seq + word_of_nat (ctz (group_match_empty (cel_group_load m (c + unat seq))) div 8)) AND (2 ^ k - 1 :: u32)) = pos k s0 r l"
        by (rule empty_lane [OF ok k less.prems(2) True])
      have nin: "x \<notin> set ks"
      proof
        assume "x \<in> set ks"
        then obtain i where "i < length ks" "x = ks ! i" by (metis in_set_conv_nth)
        then show False using ahead l(1,2) by (metis Suc_le_lessD)
      qed
      let ?slot = "(seq + word_of_nat (ctz (group_match_empty (cel_group_load m (c + unat seq))) div 8)) AND (2 ^ k - 1 :: u32)"
      have j: "pos k s0 r l < 2 ^ k" by (rule pos_less)
      have lt: "?slot < 7 \<longleftrightarrow> pos k s0 r l < 7" by (simp add: word_less_nat_alt l(3))
      have add: "unat (?slot + 2 ^ k) = 2 ^ k + pos k s0 r l" if "pos k s0 r l < 7"
      proof -
        have "(2 :: nat) ^ k \<le> 2 ^ 31" using k(2) by (intro power_increasing) simp_all
        then have "pos k s0 r l + 2 ^ k < 2 ^ 32" using that by simp
        then show ?thesis using unat_slots(2) [OF k(2)] by (simp add: unat_word_ariths l(3))
      qed
      have "index_place_loop m hdr c sl (2 ^ k) i key (cel_h2 h) seq step = Some (True, put_slot m c sl k (pos k s0 r l) (cel_h2 h) i)"
        unfolding unroll using None True lt add by (simp add: Let_def l(3) put_slot_def)
      then show ?thesis using nin l less.prems(4) by auto
    next
      case False
      then have noe: "\<forall>l'<8. m (c + pos k s0 r l') \<noteq> kEmpty" using group_empty_iff [OF ok k(1) less.prems(2)] by blast
      then have rs: "r \<noteq> stop" using empty by blast
      have "index_place_loop m hdr c sl (2 ^ k) i key (cel_h2 h) seq step =
          index_place_loop m hdr c sl (2 ^ k) i key (cel_h2 h) ((seq + step) AND (2 ^ k - 1)) (step + 8)"
        unfolding unroll using None False by simp
      moreover note less.hyps [OF _ _ probe_step [OF k(2) less.prems(2,3)]]
      moreover have "stop - Suc r < stop - r" "Suc r \<le> stop" using rs less.prems(1) by simp_all
      moreover have "\<forall>r'<Suc r. \<forall>l'<8. m (c + pos k s0 r' l') \<noteq> kEmpty" using noe less.prems(4) by (auto simp: less_Suc_eq)
      ultimately show ?thesis using ahead by simp
    qed
  qed
qed

subsection \<open>Where a map's keys live\<close>

text \<open>
  The memory a scalar is read from besides its cell, and the memory the keys of a map are read
  from, each as a predicate transformer on address ranges: instantiated with "is kept by the
  allocator" and with "is apart from this block".
\<close>

definition scalar_ranges :: "(nat \<Rightarrow> nat \<Rightarrow> bool) \<Rightarrow> cel_value \<Rightarrow> bool" where
  "scalar_ranges P v \<longleftrightarrow>
     (cv_kind v = CEL_STRING \<or> cv_kind v = CEL_BYTES \<longrightarrow> P (unat (pl_s_ptr v)) (unat (pl_s_len v)))
     \<and> (cv_kind v = CEL_IP \<longrightarrow> P (unat (pl_net_ref v)) 20) \<and> (cv_kind v = CEL_CIDR \<longrightarrow> P (unat (pl_net_ref v)) 24)"

definition keys_ranges :: "(nat \<Rightarrow> nat \<Rightarrow> bool) \<Rightarrow> memory \<Rightarrow> nat \<Rightarrow> nat \<Rightarrow> bool" where
  "keys_ranges P m hdr n \<longleftrightarrow> P hdr 12 \<and>
     (\<forall>i<n. P (index_map_entry_key m hdr (word_of_nat i)) 24
        \<and> scalar_ranges P (load_cv m (index_map_entry_key m hdr (word_of_nat i))))"

lemma keys_ranges_mono: "keys_ranges P m hdr n \<Longrightarrow> (\<And>a k. P a k \<Longrightarrow> Q a k) \<Longrightarrow> keys_ranges Q m hdr n"
  by (auto simp: keys_ranges_def scalar_ranges_def)

abbreviation agree :: "memory \<Rightarrow> memory \<Rightarrow> nat \<Rightarrow> nat \<Rightarrow> bool" where
  "agree m m' a n \<equiv> \<forall>i<n. m' (a + i) = m (a + i)"

lemma agree_loads:
  "agree m m' a 24 \<Longrightarrow> load_cv m' a = load_cv m a" "agree m m' a n \<Longrightarrow> bytes_at m' a n = bytes_at m a n"
  "agree m m' a n \<Longrightarrow> k + 4 \<le> n \<Longrightarrow> load32 m' (a + k) = load32 m (a + k)"
  by (auto intro: load_cv_local bytes_at_cong load32_cong simp: add.assoc)

lemma scalar_of_agree:
  assumes "scalar_ranges (agree m m') v"
  shows "scalar_of m' v = scalar_of m v"
proof -
  have ip: "load32 m' (unat (pl_net_ref v)) = load32 m (unat (pl_net_ref v))"
    "bytes_at m' (unat (pl_net_ref v) + 4) 16 = bytes_at m (unat (pl_net_ref v) + 4) 16" if "cv_kind v = CEL_IP"
    using assms that agree_loads(3) [of 20 m' "unat (pl_net_ref v)" m 0]
    by (auto simp: scalar_ranges_def intro!: bytes_at_cong simp: add.assoc)
  have cidr: "load32 m' (unat (pl_net_ref v)) = load32 m (unat (pl_net_ref v))"
    "load32 m' (unat (pl_net_ref v) + 4) = load32 m (unat (pl_net_ref v) + 4)"
    "bytes_at m' (unat (pl_net_ref v) + 8) 16 = bytes_at m (unat (pl_net_ref v) + 8) 16" if "cv_kind v = CEL_CIDR"
    using assms that agree_loads(3) [of 24 m' "unat (pl_net_ref v)" m 0] agree_loads(3) [of 24 m' "unat (pl_net_ref v)" m 4]
    by (auto simp: scalar_ranges_def intro!: bytes_at_cong simp: add.assoc)
  have str: "str_of m' v = str_of m v" if "cv_kind v = CEL_STRING \<or> cv_kind v = CEL_BYTES"
    using assms that agree_loads(2) by (auto simp: scalar_ranges_def span_bytes_def)
  show ?thesis using ip cidr str by (simp add: scalar_of_def Let_def is_numeric_kind_def)
qed

lemma keyed_agree:
  assumes "keyed m hdr ks" "keys_ranges (agree m m') m hdr n" "length ks \<le> n"
  shows "keyed m' hdr ks" and "map_entries m' hdr = map_entries m hdr" and "map_count m' hdr = map_count m hdr"
    and "i < n \<Longrightarrow> load_cv m' (index_map_entry_key m' hdr (word_of_nat i)) = load_cv m (index_map_entry_key m hdr (word_of_nat i))"
proof -
  have h: "agree m m' hdr 12" using assms(2) by (simp add: keys_ranges_def)
  show e: "map_entries m' hdr = map_entries m hdr" and "map_count m' hdr = map_count m hdr"
    using agree_loads(3) [OF h, of 8] agree_loads(3) [OF h, of 0] by (simp_all add: map_entries_def map_count_def)
  have cell: "load_cv m' (index_map_entry_key m' hdr (word_of_nat i)) = load_cv m (index_map_entry_key m hdr (word_of_nat i))"
    if "i < n" for i
    using assms(2) that agree_loads(1) unfolding keys_ranges_def index_map_entry_key_def e by blast
  then show "i < n \<Longrightarrow> load_cv m' (index_map_entry_key m' hdr (word_of_nat i)) = load_cv m (index_map_entry_key m hdr (word_of_nat i))" .
  show "keyed m' hdr ks"
    unfolding keyed_def
  proof (intro conjI allI impI)
    show "length ks < 2 ^ 32" using assms(1) by (simp add: keyed_def)
    fix i assume i: "i < length ks"
    then have "scalar_ranges (agree m m') (load_cv m (index_map_entry_key m hdr (word_of_nat i)))"
      using assms(2,3) by (simp add: keys_ranges_def)
    then show "scalar_of m' (load_cv m' (index_map_entry_key m' hdr (word_of_nat i))) = Some (ks ! i)"
      using cell [of i] scalar_of_agree assms(1,3) i by (simp add: keyed_def)
  qed
qed

lemma keys_ranges_agree:
  assumes "keys_ranges P m hdr n" "keys_ranges (agree m m') m hdr n"
  shows "keys_ranges P m' hdr n"
proof -
  have h: "agree m m' hdr 12" using assms(2) by (simp add: keys_ranges_def)
  have e: "map_entries m' hdr = map_entries m hdr" using agree_loads(3) [OF h, of 8] by (simp add: map_entries_def)
  have "load_cv m' (index_map_entry_key m hdr (word_of_nat i)) = load_cv m (index_map_entry_key m hdr (word_of_nat i))" if "i < n" for i
    using assms(2) that agree_loads(1) unfolding keys_ranges_def by blast
  then show ?thesis using assms(1) by (simp add: keys_ranges_def index_map_entry_key_def e)
qed

lemma same_outside_agree: "same_outside b k m m' \<Longrightarrow> apart a n b k \<Longrightarrow> agree m m' a n"
  by (auto simp: same_outside_def apart_def)

subsection \<open>Building the index\<close>

lemma index_place_entry_correct:
  assumes ix: "index_ok m c sl k (take p ks)" and kd: "keyed m hdr ks" and p: "p < length ks"
    and lay: "c + (2 ^ k + 7) \<le> sl" "3 \<le> k" "k \<le> 31" "length ks \<le> 2 ^ k"
  shows "if ks ! p \<in> set (take p ks) then index_place_entry m hdr c sl (2 ^ k) (word_of_nat p) = Some (False, m)
     else \<exists>m'. index_place_entry m hdr c sl (2 ^ k) (word_of_nat p) = Some (True, m')
       \<and> index_ok m' c sl k (take (Suc p) ks) \<and> same_outside c (sl + 4 * 2 ^ k - c) m m'"
proof -
  let ?key = "load_cv m (index_map_entry_key m hdr (word_of_nat p))" and ?x = "ks ! p"
  have x: "scalar_of m ?key = Some ?x" using kd p by (simp add: keyed_def)
  define h s0 where "h = scalar_hash ?x" and "s0 = home k h"
  have hk: "cel_map_key_hash m ?key = h" unfolding h_def by (rule key_hash_scalar [OF x])
  have kd': "keyed m hdr (take p ks)" using kd p by (auto simp: keyed_def min_def)
  have len: "length (take p ks) = p" using p by simp
  have "length (take p ks) < 2 ^ k" using p lay(4) by simp
  then obtain stop where stop: "\<exists>l<8. m (c + pos k s0 stop l) = kEmpty" using has_empty [OF ix _ lay(2)] by blast
  have seq: "unat (ucast (cel_h1 h) AND (2 ^ k - 1 :: u32)) = probe k s0 0"
    using mask_and [OF lay(3), of "ucast (cel_h1 h)"] by (simp add: s0_def home_def probe_def)
  have ahead: "\<forall>i < length (take p ks). ?x = take p ks ! i \<longrightarrow> (\<exists>r' l. 0 \<le> r' \<and> l < 8 \<and> m (c + pos k s0 r' l) = cel_h2 h
       \<and> load32 m (sl + 4 * pos k s0 r' l) = word_of_nat i \<and> (\<forall>r''<r'. \<forall>l'<8. m (c + pos k s0 r'' l') \<noteq> kEmpty))"
  proof (intro allI impI)
    fix i assume i: "i < length (take p ks)" "?x = take p ks ! i"
    then have "reach_ok m c sl k ?x i" using ix by (simp add: index_ok_def)
    then show "\<exists>r' l. 0 \<le> r' \<and> l < 8 \<and> m (c + pos k s0 r' l) = cel_h2 h
       \<and> load32 m (sl + 4 * pos k s0 r' l) = word_of_nat i \<and> (\<forall>r''<r'. \<forall>l'<8. m (c + pos k s0 r'' l') \<noteq> kEmpty)"
      unfolding reach_ok_def Let_def h_def [symmetric] s0_def [symmetric] by auto
  qed
  have run: "index_place_entry m hdr c sl (2 ^ k) (word_of_nat p) =
      index_place_loop m hdr c sl (2 ^ k) (word_of_nat p) ?key (cel_h2 h) (ucast (cel_h1 h) AND (2 ^ k - 1)) 8"
    by (simp add: index_place_entry_def Let_def hk)
  have ok: "clones_ok m c k" "slots_ok m c sl k (take p ks)" using ix by (simp_all add: index_ok_def)
  note loop = index_place_loop_correct [OF ok kd' lay(2,3) stop x _ seq _ _ ahead, of 8 "word_of_nat p", folded run]
  show ?thesis
  proof (cases "?x \<in> set (take p ks)")
    case True
    then show ?thesis using loop by simp
  next
    case False
    then obtain r l where rl: "l < 8" "m (c + pos k s0 r l) = kEmpty" "\<forall>r'<r. \<forall>l'<8. m (c + pos k s0 r' l') \<noteq> kEmpty"
      "index_place_entry m hdr c sl (2 ^ k) (word_of_nat p) = Some (True, put_slot m c sl k (pos k s0 r l) (cel_h2 h) (word_of_nat p))"
      using loop by auto
    have "index_ok (put_slot m c sl k (pos k s0 r l) (cel_h2 h) (word_of_nat p)) c sl k (take p ks @ [?x])"
      using put_slot_index_ok [OF ix lay(1,2), of "pos k s0 r l" ?x r l] rl(1-3) len by (simp add: s0_def h_def)
    then show ?thesis using False rl(4) put_slot_frame [OF lay(1) pos_less] p by (auto simp: take_Suc_conv_app_nth)
  qed
qed

lemma index_place_all_correct:
  assumes lay: "c + (2 ^ k + 7) \<le> sl" "3 \<le> k" "k \<le> 31" "length ks \<le> 2 ^ k"
  shows "p \<le> length ks \<Longrightarrow> index_ok m c sl k (take p ks) \<Longrightarrow> keyed m hdr ks \<Longrightarrow> distinct (take p ks) \<Longrightarrow>
    keys_ranges (\<lambda>a n. apart a n c (sl + 4 * 2 ^ k - c)) m hdr (length ks) \<Longrightarrow>
    \<exists>m'. index_place_all m hdr c sl (2 ^ k) (length ks) p = Some (distinct ks, m') \<and> (distinct ks \<longrightarrow> index_ok m' c sl k ks)
      \<and> same_outside c (sl + 4 * 2 ^ k - c) m m'"
proof (induction "length ks - p" arbitrary: p m)
  case 0
  then have "length ks = p" by simp
  then show ?case using 0 by (intro exI [of _ m]) (simp add: index_place_all.simps [of m hdr c sl "2 ^ k" p p] same_outside_def)
next
  case (Suc d)
  have p: "p < length ks" using Suc.hyps(2) by simp
  note e = index_place_entry_correct [OF Suc.prems(2,3) p lay]
  note unroll = index_place_all.simps [of m hdr c sl "2 ^ k" "length ks" p]
  show ?case
  proof (cases "ks ! p \<in> set (take p ks)")
    case True
    have "\<not> distinct ks"
    proof
      assume "distinct ks"
      then have "distinct (take (Suc p) ks)" by (rule distinct_take)
      then show False using True p by (simp add: take_Suc_conv_app_nth)
    qed
    then show ?thesis using True e p by (simp add: unroll same_outside_def)
  next
    case False
    then obtain m' where m': "index_place_entry m hdr c sl (2 ^ k) (word_of_nat p) = Some (True, m')"
      "index_ok m' c sl k (take (Suc p) ks)" "same_outside c (sl + 4 * 2 ^ k - c) m m'" using e by auto
    have ag: "keys_ranges (agree m m') m hdr (length ks)"
      by (rule keys_ranges_mono [OF Suc.prems(5)]) (rule same_outside_agree [OF m'(3)])
    have "distinct (take (Suc p) ks)" using Suc.prems(4) False p by (simp add: take_Suc_conv_app_nth)
    moreover have "d = length ks - Suc p" using Suc.hyps(2) by simp
    ultimately obtain m2 where m2: "index_place_all m' hdr c sl (2 ^ k) (length ks) (Suc p) = Some (distinct ks, m2)"
      "distinct ks \<longrightarrow> index_ok m2 c sl k ks" "same_outside c (sl + 4 * 2 ^ k - c) m' m2"
      using Suc.hyps(1) [of "Suc p" m'] p m'(2) keyed_agree(1) [OF Suc.prems(3) ag order_refl]
        keys_ranges_agree [OF Suc.prems(5) ag] by auto
    have "same_outside c (sl + 4 * 2 ^ k - c) m m2" using m'(3) m2(3) by (simp add: same_outside_def)
    then show ?thesis using m'(1) m2 p by (simp add: unroll)
  qed
qed

lemma unat_align_up_4: "unat n + 3 < 2 ^ 32 \<Longrightarrow> unat (align_up_4 n) = 4 * ((unat n + 3) div 4)"
proof -
  assume n: "unat n + 3 < 2 ^ 32"
  have three: "(3 :: u32) = Bit_Operations.mask 2" by (simp add: mask_eq_exp_minus_1)
  have "align_up_4 n = push_bit 2 (drop_bit 2 (n + 3))"
    unfolding align_up_4_def three
  proof (rule bit_word_eqI)
    fix i assume i: "i < LENGTH(32)"
    show "bit ((n + Bit_Operations.mask 2) AND NOT (Bit_Operations.mask 2)) i = bit (push_bit 2 (drop_bit 2 (n + Bit_Operations.mask 2))) i"
    proof (cases "i < 2")
      case False
      then obtain j where "i = j + 2" by (metis le_add_diff_inverse2 not_less)
      then show ?thesis using i by (simp add: bit_simps)
    qed (simp add: bit_simps)
  qed
  also have "\<dots> = (n + 3) - take_bit 2 (n + 3)" using bits_ident [of 2 "n + 3"] by (metis add_diff_cancel_right')
  finally have e: "align_up_4 n = (n + 3) - take_bit 2 (n + 3)" .
  have u: "unat (n + 3) = unat n + 3" using n by (simp add: unat_word_ariths)
  have t: "unat (take_bit 2 (n + 3)) = (unat n + 3) mod 4" by (simp only: unsigned_take_bit_eq u) (simp add: take_bit_eq_mod)
  have "take_bit 2 (n + 3) \<le> n + 3" unfolding word_le_nat_alt t u by simp
  then have "unat (align_up_4 n) = (unat n + 3) - (unat n + 3) mod 4" unfolding e by (simp add: unat_sub t u word_le_nat_alt)
  then show ?thesis by (simp add: minus_mod_eq_mult_div)
qed

lemma block_layout:
  assumes "3 \<le> k" "k \<le> 29"
  shows "unat (slot_array_offset_from_ctrl (2 ^ k)) = 2 ^ k + 8" "unat (ctrl_total_bytes (2 ^ k)) = 2 ^ k + 7"
    "unat (index_block_bytes (2 ^ k)) = 2 ^ k + 8 + 4 * 2 ^ k"
proof -
  have k31: "k \<le> 31" using assms(2) by simp
  have p: "(2 :: nat) ^ k \<le> 2 ^ 29" using assms(2) by (intro power_increasing) simp_all
  note n = unat_slots(2) [OF k31]
  show t: "unat (ctrl_total_bytes (2 ^ k)) = 2 ^ k + 7" using p by (simp add: ctrl_total_bytes_def unat_word_ariths n)
  obtain q where q: "(2 :: nat) ^ k = 4 * q"
    using le_imp_power_dvd [of 2 k "2 :: nat"] assms(1) by (auto elim: dvdE)
  show o: "unat (slot_array_offset_from_ctrl (2 ^ k)) = 2 ^ k + 8"
    unfolding slot_array_offset_from_ctrl_def using p q by (subst unat_align_up_4) (simp_all add: t)
  show "unat (index_block_bytes (2 ^ k)) = 2 ^ k + 8 + 4 * 2 ^ k"
    using p by (simp add: index_block_bytes_def unat_word_ariths o n)
qed

lemma index_ok_empty:
  assumes "\<And>x. x < 2 ^ k + 7 \<Longrightarrow> m (c + x) = kEmpty"
  shows "index_ok m c sl k []"
proof -
  have "{j. j < 2 ^ k \<and> m (c + j) \<noteq> kEmpty} = {}" using assms by auto
  then show ?thesis using assms by (simp add: index_ok_def clones_ok_def slots_ok_def)
qed

text \<open>
  The whole build. The index, when one is published, is a correct index over the map's keys; a
  map with a repeated key is poisoned; nothing the allocator keeps changes but the header's index
  field and, on a duplicate, the map's own cell.
\<close>

lemma store32_agree: "apart a n b 4 \<Longrightarrow> agree m (store32 m b w) a n"
  by (auto simp: apart_def store32_frame)

lemma index_ok_agree:
  assumes "index_ok m c sl k ks" "agree m m' c (2 ^ k + 7)" "agree m m' sl (4 * 2 ^ k)"
  shows "index_ok m' c sl k ks"
proof -
  have b: "m' (c + x) = m (c + x)" if "x < 2 ^ k + 7" for x using assms(2) that by blast
  have b1: "m' (c + x) = m (c + x)" if "x < 2 ^ k" for x by (rule b) (use that in simp)
  have bp: "m' (c + pos k s0 r l) = m (c + pos k s0 r l)" for s0 r l by (rule b1 [OF pos_less])
  have e: "load32 m' (sl + 4 * x) = load32 m (sl + 4 * x)" if "x < 2 ^ k" for x
    by (rule agree_loads(3) [OF assms(3)]) (use that in simp)
  have ep: "load32 m' (sl + 4 * pos k s0 r l) = load32 m (sl + 4 * pos k s0 r l)" for s0 r l by (rule e [OF pos_less])
  have "clones_ok m' c k"
    unfolding clones_ok_def
  proof (intro allI impI)
    fix j :: nat assume "j < 7"
    then show "m' (c + (2 ^ k + j)) = m' (c + j)"
      using assms(1) b [of "2 ^ k + j"] b [of j] by (simp add: index_ok_def clones_ok_def)
  qed
  moreover have "slots_ok m' c sl k ks"
    using assms(1) unfolding index_ok_def slots_ok_def by (simp add: b1 e)
  moreover have "{j. j < 2 ^ k \<and> m' (c + j) \<noteq> kEmpty} = {j. j < 2 ^ k \<and> m (c + j) \<noteq> kEmpty}" using b1 by auto
  moreover have "reach_ok m' c sl k x i = reach_ok m c sl k x i" for x i by (simp add: reach_ok_def Let_def bp ep)
  ultimately show ?thesis using assms(1) unfolding index_ok_def by simp
qed

definition map_cell_ok :: "rt \<Rightarrow> nat \<Rightarrow> nat \<Rightarrow> scalar list \<Rightarrow> bool" where
  "map_cell_ok s v hdr ks \<longleftrightarrow>
     cv_kind (load_cv (mem s) v) = CEL_MAP_ARENA \<and> hdr = unat (pl_header_ptr (load_cv (mem s) v))
     \<and> kept_range s v 24 \<and> kept_range s hdr 16 \<and> apart v 24 hdr 16
     \<and> keys_ranges (\<lambda>a n. kept_range s a n \<and> apart a n (hdr + 12) 4) (mem s) hdr (length ks)
     \<and> keyed (mem s) hdr ks \<and> length ks = unat (map_count (mem s) hdr) \<and> 48 * length ks < 2 ^ 32"

text \<open>Memory that differs from the state's on kept bytes in the index field only.\<close>

definition index_frame :: "rt \<Rightarrow> nat \<Rightarrow> memory \<Rightarrow> bool" where
  "index_frame s hdr m \<longleftrightarrow> (\<forall>x. kept s x \<and> (x < hdr + 12 \<or> hdr + 16 \<le> x) \<longrightarrow> m x = mem s x)"

lemma index_frame_facts:
  assumes ok: "map_cell_ok s v hdr ks" and fr: "index_frame s hdr m"
  shows "load_cv m v = load_cv (mem s) v" "keyed m hdr ks" "map_count m hdr = map_count (mem s) hdr"
    "keys_ranges (agree (mem s) m) (mem s) hdr (length ks)"
proof -
  have ag: "agree (mem s) m a n" if "kept_range s a n" "apart a n (hdr + 12) 4" for a n
    using fr that by (auto simp: index_frame_def kept_range_def apart_def)
  have "apart v 24 (hdr + 12) 4" using ok by (auto simp: map_cell_ok_def apart_def)
  moreover have "kept_range s v 24" using ok unfolding map_cell_ok_def by blast
  ultimately show "load_cv m v = load_cv (mem s) v" by (intro agree_loads(1) ag)
  have "keys_ranges (\<lambda>a n. kept_range s a n \<and> apart a n (hdr + 12) 4) (mem s) hdr (length ks)"
    using ok unfolding map_cell_ok_def by blast
  then show kr: "keys_ranges (agree (mem s) m) (mem s) hdr (length ks)"
    by (rule keys_ranges_mono) (use ag in blast)
  show "keyed m hdr ks" "map_count m hdr = map_count (mem s) hdr"
    using keyed_agree [OF _ kr order_refl] ok unfolding map_cell_ok_def by blast+
qed

lemma index_frame_store: "index_frame s hdr m \<Longrightarrow> index_frame s hdr (store32 m (hdr + 12) w)"
  by (auto simp: index_frame_def store32_frame)

lemma map_index_store: "map_index (store32 m (hdr + 12) w) hdr = w"
  by (simp add: map_index_def mem_simps)

definition build_result :: "rt \<Rightarrow> nat \<Rightarrow> nat \<Rightarrow> scalar list \<Rightarrow> rt \<Rightarrow> bool" where
  "build_result s v hdr ks s' \<longleftrightarrow> arena_ok s' \<and> arena_used s \<subseteq> arena_used s'
     \<and> (\<forall>x. kept s x \<and> (x < v \<or> v + 24 \<le> x) \<and> (x < hdr + 12 \<or> hdr + 16 \<le> x) \<longrightarrow> mem s' x = mem s x)
     \<and> (load_cv (mem s') v = load_cv (mem s) v \<and> keyed (mem s') hdr ks
          \<and> (map_index (mem s') hdr = 0 \<or> distinct ks \<and> map_indexed (mem s') hdr ks)
        \<or> \<not> distinct ks \<and> is_err (load_cv (mem s') v) CEL_ERR_DUPLICATE_KEY)"

lemma build_result_plain:
  assumes ok: "map_cell_ok s v hdr ks" and fr: "index_frame s hdr m" and s': "arena_ok s'" "arena_used s \<subseteq> arena_used s'"
    and ix: "map_index m hdr = 0 \<or> distinct ks \<and> map_indexed m hdr ks"
  shows "build_result s v hdr ks (s'\<lparr>mem := m\<rparr>)"
  using index_frame_facts [OF ok fr] s' ix fr by (auto simp: build_result_def index_frame_def)

lemma build_slots:
  assumes "length ks = unat count" "48 * length ks < 2 ^ 32"
  obtains k where "3 \<le> k" "k \<le> 29" "cel_map_index_num_slots count = Some (2 ^ k)" "length ks < 2 ^ k"
proof -
  have "8 * unat count \<le> 7 * 2 ^ 31" using assms by simp
  then obtain k where k: "3 \<le> k" "k \<le> 31" "cel_map_index_num_slots count = Some (2 ^ k)"
    "8 * unat count \<le> 7 * 2 ^ k" "k = 3 \<or> 7 * 2 ^ (k - 1) < 8 * unat count"
    using index_num_slots by blast
  have "k \<le> 29"
  proof (rule ccontr)
    assume "\<not> k \<le> 29"
    then have "(2 :: nat) ^ 29 \<le> 2 ^ (k - 1)" by (intro power_increasing) simp_all
    then show False using k(5) assms \<open>\<not> k \<le> 29\<close> by simp
  qed
  moreover have "unat count < 2 ^ k" using k(4) zero_less_power [of "2 :: nat" k] by linarith
  ultimately show thesis using that k assms(1) by simp
qed

lemma cel_map_index_build_correct:
  assumes ok: "arena_ok s" and map: "map_cell_ok s (cel_value_at slot) hdr ks"
  shows "\<exists>s'. cel_map_index_build slot s = Some s' \<and> build_result s (cel_value_at slot) hdr ks s'"
proof -
  let ?v = "cel_value_at slot" and ?n = "length ks" and ?count = "map_count (mem s) hdr"
  have kind: "cv_kind (load_cv (mem s) ?v) = CEL_MAP_ARENA" and h: "unat (pl_header_ptr (load_cv (mem s) ?v)) = hdr"
    and cnt: "?n = unat ?count" using map by (simp_all add: map_cell_ok_def)
  have fr0: "index_frame s hdr (mem s)" by (simp add: index_frame_def)
  show ?thesis
  proof (cases "?count < kCelMapIndexThreshold")
    case True
    have "cel_map_index_build slot s = Some (s\<lparr>mem := store32 (mem s) (hdr + 12) 0\<rparr>)"
      using True by (simp add: cel_map_index_build_def Let_def kind h)
    then show ?thesis using build_result_plain [OF map index_frame_store [OF fr0] ok order_refl, of 0] by (simp add: map_index_store)
  next
    case big: False
    obtain k where k: "3 \<le> k" "k \<le> 29" "cel_map_index_num_slots ?count = Some (2 ^ k)" "?n < 2 ^ k"
      by (rule build_slots [OF cnt]) (use map in \<open>auto simp: map_cell_ok_def\<close>)
    have k31: "k \<le> 31" using k(2) by simp
    show ?thesis
    proof (cases rule: arena_alloc_extends [OF ok, of "index_block_bytes (2 ^ k)"])
      case (1 s1)
      have "cel_map_index_build slot s = Some (s1\<lparr>mem := store32 (mem s1) (hdr + 12) 0\<rparr>)"
        using big 1(1,3) by (simp add: cel_map_index_build_def Let_def kind h k(3))
      moreover have "index_frame s hdr (mem s1)" using 1(3) by (simp add: index_frame_def)
      from build_result_plain [OF map index_frame_store [OF this, of 0], of s1]
      have "build_result s ?v hdr ks (s1\<lparr>mem := store32 (mem s1) (hdr + 12) 0\<rparr>)"
        using 1(2) by (simp add: extends_def map_index_store)
      ultimately show ?thesis by blast
    next
      case (2 p s1)
      define c sl B where "c = unat p" and "sl = c + (2 ^ k + 8)" and "B = sl + 4 * 2 ^ k - c"
      note lay = block_layout [OF k(1,2)]
      have lay1: "c + (2 ^ k + 7) \<le> sl" by (simp add: sl_def)
      have B: "B = unat (index_block_bytes (2 ^ k))" by (simp add: B_def sl_def lay)
      have fresh: "apart a n c B" if "kept_range s a n" for a n
        unfolding c_def B by (rule kept_outside [OF 2(5) that])
      define m1 where "m1 = store_bytes (mem s1) c (replicate (unat (ctrl_total_bytes (2 ^ k))) kEmpty)"
      have kept1: "mem s1 x = mem s x" if "kept s x" for x using 2(3) that by (simp add: extends_def)
      have outside: "m x = mem s x" if "kept s x" "same_outside c B m1 m" for m x
      proof -
        have "\<not> (c \<le> x \<and> x < c + B)" using 2(5) [of x] that(1) by (auto simp: c_def B)
        then have "m x = m1 x" "m1 x = mem s1 x"
          using that(2) by (auto simp: same_outside_def m1_def store_bytes_apply lay B_def sl_def)
        then show ?thesis using kept1 [OF that(1)] by simp
      qed
      have fr: "index_frame s hdr m" if "same_outside c B m1 m" for m using outside that by (simp add: index_frame_def)
      note f1 = index_frame_facts [OF map fr, of m1, simplified same_outside_def, simplified]
      have apart1: "keys_ranges (\<lambda>a n. apart a n c (sl + 4 * 2 ^ k - c)) m1 hdr ?n"
      proof (rule keys_ranges_agree [OF _ f1(4)])
        have "keys_ranges (\<lambda>a n. kept_range s a n \<and> apart a n (hdr + 12) 4) (mem s) hdr ?n"
          using map unfolding map_cell_ok_def by blast
        then show "keys_ranges (\<lambda>a n. apart a n c (sl + 4 * 2 ^ k - c)) (mem s) hdr ?n"
          by (rule keys_ranges_mono) (use fresh in \<open>auto simp: B_def\<close>)
      qed
      have empty: "index_ok m1 c sl k (take 0 ks)"
        using index_ok_empty [of k m1 c sl] by (simp add: m1_def store_bytes_apply lay)
      obtain m2 where m2: "index_place_all m1 hdr c sl (2 ^ k) ?n 0 = Some (distinct ks, m2)"
        "distinct ks \<longrightarrow> index_ok m2 c sl k ks" "same_outside c B m1 m2"
        using index_place_all_correct [OF lay1 k(1) k31 less_imp_le [OF k(4)] _ empty f1(2) _ apart1] by (auto simp: B_def)
      have hv: "unat (pl_header_ptr (load_cv (mem s1) ?v)) = hdr"
        using extends_loads(2) [OF 2(3), of ?v] map h by (simp add: map_cell_ok_def)
      have run: "cel_map_index_build slot s =
          (if distinct ks then Some (s1\<lparr>mem := store32 m2 (hdr + 12) p\<rparr>)
           else Some (poison ?v CEL_ERR_DUPLICATE_KEY (s1\<lparr>mem := store32 m2 (hdr + 12) 0\<rparr>)))"
        using big 2(1,2) m2(1) f1(3)
        by (simp add: cel_map_index_build_def Let_def kind h k(3) hv lay m1_def c_def sl_def cnt)
      show ?thesis
      proof (cases "distinct ks")
        case True
        let ?m3 = "store32 m2 (hdr + 12) p"
        have fr3: "index_frame s hdr ?m3" by (rule index_frame_store) (rule fr [OF m2(3)])
        have "apart c B (hdr + 12) 4"
          using fresh [of hdr 16] map by (auto simp: map_cell_ok_def apart_def)
        then have ag: "agree m2 ?m3 c (2 ^ k + 7)" "agree m2 ?m3 sl (4 * 2 ^ k)"
          by (auto simp: apart_def store32_frame B_def sl_def)
        have "index_ok ?m3 c sl k ks" by (rule index_ok_agree [OF _ ag]) (use m2(2) True in simp)
        then have "map_indexed ?m3 hdr ks"
          using index_frame_facts [OF map fr3] cnt k k31 2(2) lay unfolding map_indexed_def
          by (auto simp: map_index_store c_def sl_def intro!: exI [of _ k])
        then have "build_result s ?v hdr ks (s1\<lparr>mem := ?m3\<rparr>)"
          using build_result_plain [OF map fr3, of s1] 2(3) True by (simp add: extends_def)
        then show ?thesis using run True by simp
      next
        case False
        let ?s2 = "s1\<lparr>mem := store32 m2 (hdr + 12) 0\<rparr>"
        have fr3: "index_frame s hdr (mem ?s2)" using index_frame_store [OF fr [OF m2(3)]] by simp
        have o: "only_cell ?v ?s2 (poison ?v CEL_ERR_DUPLICATE_KEY ?s2)" by simp
        have "arena_ok (poison ?v CEL_ERR_DUPLICATE_KEY ?s2)" "arena_used (poison ?v CEL_ERR_DUPLICATE_KEY ?s2) = arena_used s1"
          using only_cell_arena_ok [OF o] o 2(3) unfolding only_cell_def by (simp_all add: extends_def) (metis arena_used_mem)
        then have "build_result s ?v hdr ks (poison ?v CEL_ERR_DUPLICATE_KEY ?s2)"
          using False is_err_poison o fr3 2(3)
          by (auto simp: build_result_def extends_def only_cell_def same_outside_def index_frame_def)
        then show ?thesis using run False by simp
      qed
    qed
  qed
qed

subsection \<open>Concrete maps\<close>

text \<open>Cells laid out at a stride, and a map of eight int keys in low memory.\<close>

primrec put_cells :: "nat \<Rightarrow> memory \<Rightarrow> nat \<Rightarrow> cel_value list \<Rightarrow> memory" where
  "put_cells st m a [] = m"
| "put_cells st m a (v # vs) = put_cells st (store_cv m a v) (a + st) vs"

lemma put_cells_below: "x < a \<Longrightarrow> put_cells st m a vs x = m x"
proof (induction vs arbitrary: m a)
  case (Cons v vs)
  then show ?case using same_outside_store_cv [of a m v] by (simp add: same_outside_def)
qed simp

lemma load_put_cells:
  "24 \<le> st \<Longrightarrow> i < length vs \<Longrightarrow> load_cv (put_cells st m a vs) (a + st * i) = vs ! i"
proof (induction vs arbitrary: m a i)
  case (Cons v vs)
  show ?case
  proof (cases i)
    case 0
    have "load_cv (put_cells st (store_cv m a v) (a + st) vs) a = load_cv (store_cv m a v) a"
      by (rule load_cv_local) (use Cons.prems(1) in \<open>simp add: put_cells_below\<close>)
    then show ?thesis using 0 by (simp add: mem_simps)
  next
    case (Suc j)
    then show ?thesis using Cons.IH [of j "store_cv m a v" "a + st"] Cons.prems by (simp add: add.assoc)
  qed
qed simp

definition sample_map :: "cel_value list \<Rightarrow> rt" where
  "sample_map keys = sample_rt\<lparr>mem := put_cells 48
     (store32 (store32 (store32 (store_cv (\<lambda>_. 0) 128 (cell_of CEL_MAP_ARENA (join32 300 0)))
        300 (word_of_nat (length keys))) 304 (word_of_nat (length keys))) 308 400) 400 keys\<rparr>"

lemma sample_map_header:
  assumes "length keys < 100"
  shows "load_cv (mem (sample_map keys)) 128 = cell_of CEL_MAP_ARENA (join32 300 0)"
    "map_count (mem (sample_map keys)) 300 = word_of_nat (length keys)" "map_entries (mem (sample_map keys)) 300 = 400"
proof -
  let ?m = "store32 (store32 (store32 (store_cv (\<lambda>_. 0) 128 (cell_of CEL_MAP_ARENA (join32 300 0)))
        300 (word_of_nat (length keys))) 304 (word_of_nat (length keys))) 308 400"
  have below: "mem (sample_map keys) x = ?m x" if "x < 400" for x
    using that by (simp add: sample_map_def put_cells_below)
  have "load_cv (mem (sample_map keys)) 128 = load_cv ?m 128" by (rule load_cv_local) (simp add: below)
  also have "\<dots> = load_cv (store_cv (\<lambda>_. 0) 128 (cell_of CEL_MAP_ARENA (join32 300 0))) 128"
    by (rule load_cv_local) (simp add: store32_frame)
  finally show "load_cv (mem (sample_map keys)) 128 = cell_of CEL_MAP_ARENA (join32 300 0)" by (simp add: mem_simps)
  have l: "load32 (mem (sample_map keys)) a = load32 ?m a" if "a + 4 \<le> 400" for a
    by (rule load32_cong) (use that below in simp)
  show "map_count (mem (sample_map keys)) 300 = word_of_nat (length keys)" "map_entries (mem (sample_map keys)) 300 = 400"
    using l [of 300] l [of 308] by (simp_all add: map_count_def map_entries_def mem_simps)
qed

lemma sample_low: "a + n \<le> 100000 \<Longrightarrow> kept_range (sample_map keys) a n"
  by (auto simp: kept_range_def kept_def)

lemma scalar_of_int_cell: "scalar_of m (cell_of CEL_INT x) = Some (SNum (sint x * int d_unit))"
  by (simp add: scalar_of_def is_numeric_kind_def num_ok_def num_val_def pl_defs)

lemma sample_map_ok:
  defines "keys \<equiv> map (\<lambda>i. cell_of CEL_INT (word_of_nat i)) [0..<8]"
  shows "arena_ok (sample_map keys)"
    "map_cell_ok (sample_map keys) 128 300 (map (\<lambda>i. SNum (int i * int d_unit)) [0..<8])"
    "distinct (map (\<lambda>i. SNum (int i * int d_unit)) [0..<8])"
proof -
  have len: "length keys = 8" by (simp add: keys_def)
  note h = sample_map_header [of keys, unfolded len, simplified]
  have cell: "load_cv (mem (sample_map keys)) (400 + 48 * i) = cell_of CEL_INT (word_of_nat i)" if "i < 8" for i
    using that load_put_cells [of 48 i keys _ 400] by (simp add: sample_map_def keys_def)
  have entry: "index_map_entry_key (mem (sample_map keys)) 300 (word_of_nat i) = 400 + 48 * i" if "i < 8" for i
    using that h(3) by (simp add: index_map_entry_key_def unsigned_of_nat take_bit_nat_eq_self)
  have sint: "sint (word_of_nat i :: u64) = int i" if "i < 8" for i
    using that sint_word_of_int64 [of "int i"] by simp
  show "arena_ok (sample_map keys)" by (simp add: sample_map_def sample_rt_ok)
  show "distinct (map (\<lambda>i. SNum (int i * int d_unit)) [0..<8])"
    using d_unit_pos(1) by (auto simp: distinct_map inj_on_def)
  have kd: "keyed (mem (sample_map keys)) 300 (map (\<lambda>i. SNum (int i * int d_unit)) [0..<8])"
    unfolding keyed_def by (auto simp: entry cell scalar_of_int_cell sint)
  have kr: "keys_ranges (\<lambda>a n. kept_range (sample_map keys) a n \<and> apart a n (300 + 12) 4) (mem (sample_map keys)) 300 8"
    unfolding keys_ranges_def by (auto simp: entry cell scalar_ranges_def apart_def intro!: sample_low)
  show "map_cell_ok (sample_map keys) 128 300 (map (\<lambda>i. SNum (int i * int d_unit)) [0..<8])"
    unfolding map_cell_ok_def using h kd kr sample_low [of 128 24 keys] sample_low [of 300 16 keys]
    by (simp add: apart_def pl_defs)
qed

lemma one_key_indexed:
  defines "h \<equiv> scalar_hash (SNum (7 * int d_unit))"
  defines "m0 \<equiv> store32 (store32 (store32 (store_cv (\<lambda>x. if x < 2000 then 0 else 0x80) 400 (cell_of CEL_INT 7)) 300 1) 308 400) 312 2000"
  defines "m1 \<equiv> put_slot m0 2000 2016 3 (pos 3 (home 3 h) 0 0) (cel_h2 h) 0"
  shows "map_indexed m1 300 [SNum (7 * int d_unit)]"
proof -
  have j: "pos 3 (home 3 h) 0 0 < 2 ^ 3" by (rule pos_less)
  have low: "m1 x = m0 x" if "x < 2000" for x
    using put_slot_frame [of 2000 3 2016 "pos 3 (home 3 h) 0 0" m0 "cel_h2 h" 0] j that
    unfolding m1_def same_outside_def by simp
  have hi: "m0 x = kEmpty" if "2000 \<le> x" for x
    using that same_outside_store_cv [of 400 "\<lambda>x. if x < 2000 then 0 else 0x80" "cell_of CEL_INT 7"]
    by (simp add: m0_def store32_frame same_outside_def)
  have "index_ok m0 2000 2016 3 []" by (rule index_ok_empty) (simp add: hi)
  from put_slot_index_ok [OF this _ _ refl, where x = "SNum (7 * int d_unit)" and r = 0 and l = 0]
  have ix: "index_ok m1 2000 2016 3 [SNum (7 * int d_unit)]" by (simp add: m1_def h_def hi)
  have l: "load32 m1 a = load32 m0 a" if "a + 4 \<le> 2000" for a by (rule load32_cong) (use that low in simp)
  have hdr: "map_count m1 300 = 1" "map_entries m1 300 = 400" "map_index m1 300 = 2000"
    using l [of 300] l [of 308] l [of 312] by (simp_all add: map_count_def map_entries_def map_index_def m0_def mem_simps)
  have "load_cv m1 400 = load_cv m0 400" by (rule load_cv_local) (simp add: low)
  also have "\<dots> = load_cv (store_cv (\<lambda>x. if x < 2000 then 0 else 0x80) 400 (cell_of CEL_INT 7)) 400"
    by (rule load_cv_local) (simp add: m0_def store32_frame)
  finally have cell: "load_cv m1 400 = cell_of CEL_INT 7" by (simp add: mem_simps)
  have kd: "keyed m1 300 [SNum (7 * int d_unit)]"
    unfolding keyed_def by (auto simp: index_map_entry_key_def hdr cell scalar_of_int_cell)
  have ns: "cel_map_index_num_slots 1 = Some (2 ^ 3)"
    by (simp add: cel_map_index_num_slots_def Let_def num_slots_loop.simps)
  show ?thesis unfolding map_indexed_def
    using kd hdr ns ix block_layout(1) [of 3] by (auto intro!: exI [of _ 3])
qed

subsection \<open>Properties\<close>

text \<open>
  Building the index of a well-formed map returns, and either leaves the map unindexed, or
  publishes an index over exactly its keys, or, only when a key is repeated, poisons the map with
  the duplicate-key error. No other live byte changes than the header's index field and that cell.
\<close>

theorem index_build_correct:
  assumes "arena_ok s" and "map_cell_ok s (cel_value_at slot) hdr ks"
  shows "\<exists>s'. cel_map_index_build slot s = Some s' \<and> build_result s (cel_value_at slot) hdr ks s'"
  by (rule cel_map_index_build_correct [OF assms])

theorem index_build_correct_witness:
  "\<exists>s'. cel_map_index_build 128 (sample_map (map (\<lambda>i. cell_of CEL_INT (word_of_nat i)) [0..<8])) = Some s' \<and> arena_ok s'"
  using index_build_correct [of _ 128, unfolded cel_value_at_def, simplified, OF sample_map_ok(1,2)]
  by (auto simp: build_result_def)

text \<open>
  C7. A probe of the index terminates and agrees with the linear scan it replaces: it returns the
  position of an entry whose key the map key rule equates with the sought key, and the
  not-found value exactly when there is no such entry.
\<close>

theorem index_find_is_linear_scan:
  assumes "map_indexed m hdr ks"
  shows "\<exists>e. cel_map_index_find m hdr key = Some e \<and> key_position m ks key e"
  by (rule index_find_correct [OF assms])

theorem index_find_is_linear_scan_witness:
  "\<exists>m. cel_map_index_find m 300 (cell_of CEL_UINT 7) = Some 0"
  using index_find_is_linear_scan [OF one_key_indexed, of "cell_of CEL_UINT 7"]
  by (auto simp: key_position_def scalar_of_def is_numeric_kind_def num_ok_def num_val_def pl_defs)

text \<open>
  C34. The unbounded probe loops end. On every well-formed map the build of the index returns, whatever its keys; and when it has
  not poisoned the map, the search returns for every cell whatsoever as the key, with the position of an entry or the not-found
  value.
\<close>

theorem index_probing_terminates:
  assumes "arena_ok s" and "map_cell_ok s (cel_value_at slot) hdr ks"
  shows "\<exists>s'. cel_map_index_build slot s = Some s' \<and>
    (cv_kind (cv s' slot) = CEL_ERROR \<or>
     (\<forall>key. \<exists>e. cel_map_index_find (mem s') hdr key = Some e \<and> (e = UINT32_MAX \<or> unat e < length ks)))"
proof -
  obtain s' where s': "cel_map_index_build slot s = Some s'" "build_result s (cel_value_at slot) hdr ks s'"
    using cel_map_index_build_correct [OF assms] by blast
  have "48 * length ks < 2 ^ 32" using assms(2) unfolding map_cell_ok_def by blast
  then have n: "length ks < 2 ^ 32" by simp
  have "\<exists>e. cel_map_index_find (mem s') hdr key = Some e \<and> (e = UINT32_MAX \<or> unat e < length ks)"
    if "cv_kind (cv s' slot) \<noteq> CEL_ERROR" for key
  proof (cases "map_index (mem s') hdr = 0")
    case True
    then show ?thesis by (simp add: cel_map_index_find_def)
  next
    case False
    then have "map_indexed (mem s') hdr ks" using s'(2) that by (auto simp: build_result_def is_err_def)
    then obtain e where "cel_map_index_find (mem s') hdr key = Some e" "key_position (mem s') ks key e" using index_find_correct by blast
    then show ?thesis using n by (auto simp: key_position_def unat_of_nat split: if_splits)
  qed
  then show ?thesis using s'(1) by blast
qed

theorem index_probing_terminates_witness:
  "\<exists>s'. cel_map_index_build 128 (sample_map (map (\<lambda>i. cell_of CEL_INT (word_of_nat i)) [0..<8])) = Some s'"
  using index_probing_terminates [of _ 128, unfolded cel_value_at_def, simplified, OF sample_map_ok(1,2)] by blast

text \<open>
  A group probe flags every lane holding the sought control byte and only full lanes, and its
  stop test sees exactly the empty lanes. Some flagged lanes do not hold the byte: the subtraction
  borrows past a matching lane.
\<close>

theorem group_probe_lanes:
  "{i. i < 8 \<and> m (p + i) = cel_h2 h} \<subseteq> {i. i < 8 \<and> bit (group_match (cel_group_load m p) (cel_h2 h)) (8 * i + 7)}
   \<and> {i. i < 8 \<and> bit (group_match (cel_group_load m p) (cel_h2 h)) (8 * i + 7)} \<subseteq> {i. i < 8 \<and> \<not> bit (m (p + i)) 7}
   \<and> {i. i < 8 \<and> bit (group_match_empty (cel_group_load m p)) (8 * i + 7)} = {i. i < 8 \<and> bit (m (p + i)) 7 \<and> \<not> bit (m (p + i)) 1}
   \<and> (\<exists>m i. i < 8 \<and> bit (group_match (cel_group_load m 0) (cel_h2 0)) (8 * i + 7) \<and> m i \<noteq> cel_h2 0)"
proof (intro conjI)
  show "{i. i < 8 \<and> m (p + i) = cel_h2 h} \<subseteq> {i. i < 8 \<and> bit (group_match (cel_group_load m p) (cel_h2 h)) (8 * i + 7)}"
    using group_match_complete h2_top by blast
  show "{i. i < 8 \<and> bit (group_match (cel_group_load m p) (cel_h2 h)) (8 * i + 7)} \<subseteq> {i. i < 8 \<and> \<not> bit (m (p + i)) 7}"
  proof clarify
    fix i assume "bit (group_match (cel_group_load m p) (cel_h2 h)) (8 * i + 7)" "bit (m (p + i)) 7"
    then show False using group_match_lane [OF _ h2_top, of m p h "8 * i + 7"] by (metis add_right_cancel mult_cancel1 zero_neq_numeral)
  qed
  show "{i. i < 8 \<and> bit (group_match_empty (cel_group_load m p)) (8 * i + 7)} = {i. i < 8 \<and> bit (m (p + i)) 7 \<and> \<not> bit (m (p + i)) 1}"
    unfolding group_match_empty_bit by auto
  show "\<exists>m i. i < 8 \<and> bit (group_match (cel_group_load m 0) (cel_h2 0)) (8 * i + 7) \<and> m i \<noteq> cel_h2 0"
    by (rule exI [of _ "\<lambda>x. if x = 1 then 1 else 0"], rule exI [of _ 1])
      (simp add: cel_h2_def group_match_def cel_group_load_def load64_def load32_def)
qed

text \<open>
  The number of slots is the least power of two from 8 up that keeps the load at most 7/8,
  for every map whose entries fit in memory; the doubling loop ends.
\<close>

theorem index_slots_least:
  assumes "8 * unat count \<le> 7 * 2 ^ 31"
  shows "\<exists>k. 3 \<le> k \<and> k \<le> 31 \<and> cel_map_index_num_slots count = Some (2 ^ k)
     \<and> 8 * unat count \<le> 7 * 2 ^ k \<and> (k = 3 \<or> 7 * 2 ^ (k - 1) < 8 * unat count)"
  by (rule index_num_slots [OF assms])

theorem index_slots_least_witness:
  "\<exists>k. cel_map_index_num_slots 15 = Some (2 ^ k) \<and> 120 \<le> 7 * (2 :: nat) ^ k"
  using index_slots_least [of 15] by auto

end
