(* ===== verification/ArenaRuns.thy ===== *)
theory ArenaRuns
  imports MapIndex
begin

text \<open>
  What arena lists and maps share (\<open>runtime/cel_runtime.c\<close>): a 16-byte header of four words whose
  third word is the offset of a run of fixed-stride entries, allocated header first. Addresses of
  entries are unbounded naturals, which is what the wrapping pointer arithmetic of wasm32 gives
  whenever the run lies in the address space.
\<close>

subsection \<open>Allocation of a header and its run\<close>

definition entries_bytes_checked :: "u32 \<Rightarrow> u32 \<Rightarrow> u32" where
  "entries_bytes_checked stride count =
     (let bytes = ucast stride * ucast count :: u64 in
      if bytes > ucast (UINT32_MAX - 7) then 0 else ucast bytes)"

text \<open>Four consecutive 32-bit words: the two arena headers and the map iterator state.\<close>

definition store_words4 :: "memory \<Rightarrow> nat \<Rightarrow> u32 \<Rightarrow> u32 \<Rightarrow> u32 \<Rightarrow> u32 \<Rightarrow> memory" where
  "store_words4 m a w0 w1 w2 w3 = store32 (store32 (store32 (store32 m a w0) (a + 4) w1) (a + 8) w2) (a + 12) w3"

text \<open>
  The allocation prologue that \<open>cel_list_create\<close>, \<open>alloc_concat_list\<close> and \<open>cel_map_create\<close> repeat with
  their strides: \<open>None\<close> where they poison and return.
\<close>

definition alloc_header_run :: "u32 \<Rightarrow> u32 \<Rightarrow> rt \<Rightarrow> ((u32 \<times> u32) option \<times> rt) option" where
  "alloc_header_run stride n s = do {
     (hdr_off, s) \<leftarrow> arena_alloc 16 s;
     if hdr_off = 0 then Some (None, s)
     else if n > 0 then do {
       let bytes = entries_bytes_checked stride n;
       (run_off, s) \<leftarrow> (if bytes = 0 then Some (0, s) else arena_alloc bytes s);
       if run_off = 0 then Some (None, s) else Some (Some (hdr_off, run_off), s)
     }
     else Some (Some (hdr_off, 0), s)
   }"

subsection \<open>What the allocation gives\<close>

lemma unat_entries_bytes:
  assumes "stride \<le> 64"
  shows "unat (entries_bytes_checked stride n) =
    (if unat stride * unat n \<le> 2 ^ 32 - 8 then unat stride * unat n else 0)"
proof -
  have s: "unat stride \<le> 64" using assms by (simp add: word_le_nat_alt)
  have "unat stride * unat n \<le> 64 * 4294967296"
    using s unat_u32_lt [of n] by (intro mult_le_mono) simp_all
  moreover have "unat (ucast x :: u64) = unat x" for x :: u32
    using unat_u32_lt [of x] by (simp add: unsigned_ucast_eq take_bit_nat_eq_self)
  ultimately have b: "unat (ucast stride * ucast n :: u64) = unat stride * unat n"
    by (simp add: unat_word_ariths)
  show ?thesis
  proof (cases "unat stride * unat n \<le> 4294967288")
    case True
    then show ?thesis using b
      by (simp add: entries_bytes_checked_def word_less_nat_alt unsigned_ucast_eq take_bit_nat_eq_self)
  next
    case False
    then show ?thesis using b by (simp add: entries_bytes_checked_def word_less_nat_alt)
  qed
qed

lemma entries_bytes_0: "stride \<le> 64 \<Longrightarrow> stride \<noteq> 0 \<Longrightarrow> n \<noteq> 0 \<Longrightarrow>
    entries_bytes_checked stride n = 0 \<longleftrightarrow> 2 ^ 32 - 8 < unat stride * unat n"
  unfolding unat_eq_0 [of "entries_bytes_checked stride n", symmetric] unat_entries_bytes
  using unat_gt_0 [of stride] unat_gt_0 [of n] by auto

text \<open>Why the prologue can fail: the arena is exhausted, or the run's size is not representable.\<close>

definition run_oom :: "u32 \<Rightarrow> u32 \<Rightarrow> rt \<Rightarrow> bool" where
  "run_oom stride n s \<longleftrightarrow> 2 ^ 32 - 8 < unat stride * unat n
     \<or> (\<exists>s1. arena_alloc 16 s = Some (0, s1))
     \<or> (\<exists>p s1 s2. arena_alloc 16 s = Some (p, s1) \<and> arena_alloc (entries_bytes_checked stride n) s1 = Some (0, s2))"

definition fresh_range :: "rt \<Rightarrow> nat \<Rightarrow> nat \<Rightarrow> bool" where
  "fresh_range s a n \<longleftrightarrow> (\<forall>x. a \<le> x \<and> x < a + n \<longrightarrow> \<not> kept s x)"

lemma fresh_apart: "fresh_range s p n \<Longrightarrow> kept_range s a k \<Longrightarrow> apart a k p n"
  unfolding fresh_range_def by (rule kept_outside) auto

lemma fresh_range_0 [simp]: "fresh_range s a 0"
  by (auto simp: fresh_range_def)

lemma fresh_range_anti: "arena_used s \<subseteq> arena_used s' \<Longrightarrow> fresh_range s' a n \<Longrightarrow> fresh_range s a n"
  unfolding fresh_range_def using kept_mono by blast

lemma kept_range_0 [simp]: "kept_range s a 0"
  by (auto simp: kept_range_def)

lemma apart_sub: "apart a n b k \<Longrightarrow> a \<le> a' \<Longrightarrow> a' + n' \<le> a + n \<Longrightarrow> b \<le> b' \<Longrightarrow> b' + k' \<le> b + k \<Longrightarrow> apart a' n' b' k'"
  by (auto simp: apart_def)

lemma extends_used: "extends s s' \<Longrightarrow> arena_used s \<subseteq> arena_used s'"
  by (simp add: extends_def)

lemma alloc_header_run_cases:
  assumes ok: "arena_ok s" and st: "stride \<le> 64" "stride \<noteq> 0"
  obtains (null) s' where "alloc_header_run stride n s = Some (None, s')" "extends s s'" "run_oom stride n s"
  | (run) h r s' where "alloc_header_run stride n s = Some (Some (h, r), s')" "extends s s'" "h \<noteq> 0"
      "kept_range s' (unat h) 16" "kept_range s' (unat r) (unat stride * unat n)"
      "fresh_range s (unat h) 16" "fresh_range s (unat r) (unat stride * unat n)"
      "apart (unat h) 16 (unat r) (unat stride * unat n)"
proof (cases rule: arena_alloc_extends [OF ok, of 16])
  case (1 s')
  then show thesis by (intro null [of s']) (auto simp: alloc_header_run_def run_oom_def)
next
  case (2 p s1)
  have ok1: "arena_ok s1" using 2(3) by (simp add: extends_def)
  have p: "fresh_range s (unat p) 16" using 2(5) by (simp add: fresh_range_def)
  have k: "kept_range s1 (unat p) 16" using 2(4) by simp
  show thesis
  proof (cases "n = 0")
    case True
    then show thesis using 2 p k by (intro run [of p 0 s1]) (auto simp: alloc_header_run_def apart_def)
  next
    case nz: False
    then have n0: "n > 0" by (simp add: word_gt_0)
    let ?b = "entries_bytes_checked stride n"
    show thesis
    proof (cases "?b = 0")
      case True
      then show thesis using 2(1,2,3) n0 entries_bytes_0 [OF st nz]
        by (intro null [of s1]) (auto simp: alloc_header_run_def run_oom_def)
    next
      case b: False
      then have ub: "unat ?b = unat stride * unat n"
        using unat_entries_bytes [OF st(1), of n] unat_eq_0 [of ?b] by (auto split: if_splits)
      show thesis
      proof (cases rule: arena_alloc_extends [OF ok1, of ?b])
        case (1 s2)
        then show thesis using 2(1,2,3) n0 b extends_trans [OF 2(3) 1(2)]
          by (intro null [of s2]) (auto simp: alloc_header_run_def run_oom_def)
      next
        case (2 r s2)
        have r: "fresh_range s1 (unat r) (unat stride * unat n)" using 2(5) by (simp add: fresh_range_def ub)
        have "extends s s2" using extends_trans [OF \<open>extends s s1\<close> 2(3)] .
        moreover have "fresh_range s (unat r) (unat stride * unat n)"
          using r extends_used [OF \<open>extends s s1\<close>] by (rule fresh_range_anti [rotated])
        moreover have "kept_range s2 (unat p) 16" using k extends_used [OF 2(3)] by (rule kept_range_mono [rotated])
        moreover have "apart (unat p) 16 (unat r) (unat stride * unat n)" using r k by (rule fresh_apart)
        ultimately show thesis using 2(1,2,4) \<open>arena_alloc 16 s = Some (p, s1)\<close> \<open>p \<noteq> 0\<close> n0 b p
          by (intro run [of p r s2]) (auto simp: alloc_header_run_def ub)
      qed
    qed
  qed
qed

subsection \<open>Header words\<close>

lemma load_words4 [mem_simps]:
  "load32 (store_words4 m a w0 w1 w2 w3) a = w0"
  "load32 (store_words4 m a w0 w1 w2 w3) (a + 4) = w1"
  "load32 (store_words4 m a w0 w1 w2 w3) (a + 8) = w2"
  "load32 (store_words4 m a w0 w1 w2 w3) (a + 12) = w3"
  by (simp_all add: store_words4_def mem_simps)

lemma same_outside_words4: "same_outside a 16 m (store_words4 m a w0 w1 w2 w3)"
  unfolding store_words4_def
  by (rule same_outside_trans [OF same_outside_trans [OF same_outside_trans [OF same_outside_store32 same_outside_store32]
        same_outside_store32] same_outside_store32]) simp_all

lemma same_outside_mono: "same_outside a n m m' \<Longrightarrow> b \<le> a \<Longrightarrow> a + n \<le> b + k \<Longrightarrow> same_outside b k m m'"
  by (auto simp: same_outside_def)

text \<open>The kind and header-pointer stores that publish an aggregate.\<close>

lemma same_outside_kind_ptr: "same_outside a 24 m (store32 (store32 m a k) (a + 8) p)"
  by (rule same_outside_trans [OF same_outside_store32 same_outside_store32]) simp_all

lemma load_kind_ptr [mem_simps]:
  "cv_kind (load_cv (store32 (store32 m a k) (a + 8) p) a) = k"
  "cv_lo (load_cv (store32 (store32 m a k) (a + 8) p) a) = join32 p (hi32 (cv_lo (load_cv m a)))"
  by (simp_all add: mem_simps)

subsection \<open>Runs of cells\<close>

definition run_at :: "memory \<Rightarrow> nat \<Rightarrow> nat \<Rightarrow> cel_value list" where
  "run_at m a n = map (\<lambda>i. load_cv m (a + 24 * i)) [0..<n]"

lemma length_run_at [simp]: "length (run_at m a n) = n"
  by (simp add: run_at_def)

lemma run_at_nth [simp]: "i < n \<Longrightarrow> run_at m a n ! i = load_cv m (a + 24 * i)"
  by (simp add: run_at_def)

lemma run_at_0 [simp]: "run_at m a 0 = []"
  by (simp add: run_at_def)

lemma run_at_Suc: "run_at m a (Suc n) = run_at m a n @ [load_cv m (a + 24 * n)]"
  by (simp add: run_at_def)

lemma run_at_append: "run_at m a (n + k) = run_at m a n @ run_at m (a + 24 * n) k"
  by (rule nth_equalityI) (auto simp: nth_append algebra_simps)

lemma run_at_cong: "(\<And>i. i < 24 * n \<Longrightarrow> m (a + i) = m' (a + i)) \<Longrightarrow> run_at m a n = run_at m' a n"
  unfolding run_at_def by (rule map_cong [OF refl], rule load_cv_local) (auto simp: add.assoc)

lemma run_at_frame: "same_outside b k m m' \<Longrightarrow> apart a (24 * n) b k \<Longrightarrow> run_at m' a n = run_at m a n"
  by (rule run_at_cong) (auto simp: same_outside_def apart_def)

lemma load_cv_apart: "same_outside b k m m' \<Longrightarrow> apart a 24 b k \<Longrightarrow> load_cv m' a = load_cv m a"
  by (rule load_cv_local) (auto simp: same_outside_def apart_def)

lemma bytes_same_apart: "same_outside b k m m' \<Longrightarrow> apart a n b k \<Longrightarrow> i < n \<Longrightarrow> m' (a + i) = m (a + i)"
  by (auto simp: same_outside_def apart_def)

lemma extends_run: "extends s s' \<Longrightarrow> kept_range s a (24 * n) \<Longrightarrow> run_at (mem s') a n = run_at (mem s) a n"
  by (rule run_at_cong) (rule extends_same)

end
