(* ===== verification/HostImports.thy ===== *)
theory HostImports
  imports ArenaRuns
begin

text \<open>
  The \<open>cel_host\<close> imports of \<open>runtime/cel_runtime.c\<close>. On wasm they are trampolines into the embedder,
  so they are fields of a record the kernels take; the native build links weak stubs, which are
  the instance \<open>weak_host\<close>. A kernel or import returns \<open>None\<close> when it traps.
\<close>

record cel_host =
  host_map_lookup :: kernel2
  host_list_iter_open :: "u32 \<Rightarrow> u32 \<Rightarrow> rt \<Rightarrow> rt option"
  host_list_at :: kernel2
  host_list_size :: "u32 \<Rightarrow> u32 \<Rightarrow> rt \<Rightarrow> rt option"
  host_list_in :: kernel2
  host_list_eq :: kernel2
  host_list_concat :: kernel2
  host_map_size :: "u32 \<Rightarrow> u32 \<Rightarrow> rt \<Rightarrow> rt option"
  host_map_in :: kernel2
  host_map_eq :: kernel2
  host_message_eq :: kernel2
  host_map_iter_open :: "u32 \<Rightarrow> u32 \<Rightarrow> rt \<Rightarrow> rt option"

text \<open>The weak stubs of the native build.\<close>

definition weak_mismatch_vv :: kernel2 where
  "weak_mismatch_vv out_slot a_slot b_slot s = Some (poison (cel_value_at out_slot) CEL_ERR_TYPE_MISMATCH s)"

definition weak_mismatch_v :: "u32 \<Rightarrow> u32 \<Rightarrow> rt \<Rightarrow> rt option" where
  "weak_mismatch_v out_slot v_slot s = Some (poison (cel_value_at out_slot) CEL_ERR_TYPE_MISMATCH s)"

definition weak_list_iter_open :: "u32 \<Rightarrow> u32 \<Rightarrow> rt \<Rightarrow> rt option" where
  "weak_list_iter_open out_slot list_slot s =
     Some (s\<lparr>mem := store32 (store32 (mem s) (unat out_slot) CEL_LIST_ARENA) (unat out_slot + 8) 0\<rparr>)"

abbreviation MAP_ITER_KIND_ARENA :: u32 where "MAP_ITER_KIND_ARENA \<equiv> 0"
abbreviation MAP_ITER_KIND_HOST :: u32 where "MAP_ITER_KIND_HOST \<equiv> 1"

definition weak_map_iter_open :: "u32 \<Rightarrow> u32 \<Rightarrow> rt \<Rightarrow> rt option" where
  "weak_map_iter_open state_offset map_slot s =
     Some (s\<lparr>mem := store_words4 (mem s) (unat state_offset) MAP_ITER_KIND_HOST 0 0 0\<rparr>)"

definition weak_host :: cel_host where
  "weak_host = \<lparr>host_map_lookup = weak_mismatch_vv, host_list_iter_open = weak_list_iter_open,
     host_list_at = weak_mismatch_vv, host_list_size = weak_mismatch_v, host_list_in = weak_mismatch_vv,
     host_list_eq = weak_mismatch_vv, host_list_concat = weak_mismatch_vv, host_map_size = weak_mismatch_v,
     host_map_in = weak_mismatch_vv, host_map_eq = weak_mismatch_vv, host_message_eq = weak_mismatch_vv,
     host_map_iter_open = weak_map_iter_open\<rparr>"

text \<open>
  \<open>CelValue oom; poison(&oom, e)\<close>: an error cell on the C stack. Its bytes other than the kind and
  the code are what the stack held before, the parameter \<open>junk\<close>.
\<close>

definition error_cell :: "cel_value \<Rightarrow> u32 \<Rightarrow> cel_value" where
  "error_cell junk e = junk\<lparr>cv_kind := CEL_ERROR, cv_lo := join32 e (hi32 (cv_lo junk))\<rparr>"

lemma error_cell_is_err [simp]: "is_err (error_cell junk e) e" "cv_kind (error_cell junk e) = CEL_ERROR"
  by (simp_all add: error_cell_def is_defs pl_defs)

end
