(* ===== verification/Lists.thy ===== *)
theory Lists
  imports HostImports
begin

text \<open>
  Arena lists (\<open>runtime/cel_runtime.c\<close>, the list half): construction, append, indexing, size and
  concatenation, and the list views comprehensions walk. A \<open>CEL_LIST_ARENA\<close> cell points at a
  16-byte header with a count, a capacity and the offset of a run of 24-byte element cells. The
  \<open>cel_host\<close> imports are fields of a host record; \<open>None\<close> is a trap.
\<close>

subsection \<open>Headers and elements\<close>

definition list_count :: "memory \<Rightarrow> nat \<Rightarrow> u32" where "list_count m hdr = load32 m hdr"
definition list_capacity :: "memory \<Rightarrow> nat \<Rightarrow> u32" where "list_capacity m hdr = load32 m (hdr + 4)"
definition list_elements :: "memory \<Rightarrow> nat \<Rightarrow> u32" where "list_elements m hdr = load32 m (hdr + 8)"

abbreviation kCelListEntryStride :: nat where "kCelListEntryStride \<equiv> 24"

definition arena_list_header :: "cel_value \<Rightarrow> nat" where
  "arena_list_header l = unat (pl_header_ptr l)"

definition arena_list_element :: "memory \<Rightarrow> nat \<Rightarrow> u32 \<Rightarrow> nat" where
  "arena_list_element m hdr i = unat (list_elements m hdr) + kCelListEntryStride * unat i"

subsection \<open>Poisoned comprehension sources\<close>

text \<open>The poison value is read through its pointer, a slot or a stack cell, when it is copied.\<close>

definition vend_poison_list_view :: "(memory \<Rightarrow> cel_value) \<Rightarrow> rt \<Rightarrow> (u32 \<times> rt) option" where
  "vend_poison_list_view read_poison s = do {
     (hdr_off, s) \<leftarrow> arena_alloc 64 s;
     hdr_off \<leftarrow> (if hdr_off = 0 then (if arena_oom_block s = 0 then None else Some (arena_oom_block s + 0)) else Some hdr_off);
     let elem_off = hdr_off + 16;
     let view_off = hdr_off + 40;
     let m1 = store_words4 (mem s) (unat hdr_off) 1 1 elem_off 0;
     let m2 = store_cv m1 (unat elem_off) (read_poison m1);
     let m3 = store32 (store32 m2 (unat view_off) CEL_LIST_ARENA) (unat view_off + 8) hdr_off;
     Some (view_off, s\<lparr>mem := m3\<rparr>)
   }"

definition cel_list_arena_view :: "cel_host \<Rightarrow> cel_value \<Rightarrow> u32 \<Rightarrow> rt \<Rightarrow> (u32 \<times> rt) option" where
  "cel_list_arena_view h junk list_slot s =
     (let l = load_cv (mem s) (cel_value_at list_slot) in
      if cv_kind l = CEL_LIST_ARENA then Some (list_slot, s)
      else if cv_kind l = CEL_LIST_HOST then do {
        (synth_slot, s) \<leftarrow> arena_alloc 24 s;
        if synth_slot = 0 then vend_poison_list_view (\<lambda>_. error_cell junk CEL_ERR_OVERFLOW) s
        else do {
          s \<leftarrow> host_list_iter_open h synth_slot list_slot s;
          Some (synth_slot, s)
        }
      }
      else if cv_kind l = CEL_ERROR \<or> cv_kind l = CEL_UNKNOWN then vend_poison_list_view (\<lambda>m. load_cv m (cel_value_at list_slot)) s
      else vend_poison_list_view (\<lambda>_. error_cell junk CEL_ERR_TYPE_MISMATCH) s)"

subsection \<open>Construction\<close>

definition cel_list_create :: "u32 \<Rightarrow> u32 \<Rightarrow> rt \<Rightarrow> rt option" where
  "cel_list_create out_slot capacity s =
     (let out = cel_value_at out_slot in do {
        (offs, s) \<leftarrow> alloc_header_run 24 capacity s;
        case offs of
          None \<Rightarrow> Some (poison out CEL_ERR_OVERFLOW s)
        | Some (hdr_off, elements_off) \<Rightarrow>
            Some (s\<lparr>mem := store32 (store32 (store_words4 (mem s) (unat hdr_off) 0 capacity elements_off 0)
                               out CEL_LIST_ARENA) (out + 8) hdr_off\<rparr>)
      })"

definition cel_list_append_at :: "u32 \<Rightarrow> u32 \<Rightarrow> rt \<Rightarrow> rt option" where
  "cel_list_append_at list_slot value_slot s =
     (let l = cel_value_at list_slot; v = cel_value_at value_slot in
      if cv_kind (load_cv (mem s) l) \<noteq> CEL_LIST_ARENA then Some s
      else if cv_kind (load_cv (mem s) v) = CEL_ERROR \<or> cv_kind (load_cv (mem s) v) = CEL_UNKNOWN
        then Some (copy_cv l v s)
      else (let hdr = arena_list_header (load_cv (mem s) l) in
        if list_count (mem s) hdr \<ge> list_capacity (mem s) hdr then None
        else (let s = copy_cv (arena_list_element (mem s) hdr (list_count (mem s) hdr)) v s
              in Some (s\<lparr>mem := store32 (mem s) hdr (list_count (mem s) hdr + 1)\<rparr>))))"

definition cel_list_append_at_if_bool :: "u32 \<Rightarrow> u32 \<Rightarrow> u32 \<Rightarrow> rt \<Rightarrow> rt option" where
  "cel_list_append_at_if_bool list_slot pred_slot value_slot s =
     (let l = cel_value_at list_slot; p = cel_value_at pred_slot in
      if cv_kind (load_cv (mem s) l) \<noteq> CEL_LIST_ARENA then Some s
      else if cv_kind (load_cv (mem s) p) = CEL_ERROR \<or> cv_kind (load_cv (mem s) p) = CEL_UNKNOWN
        then Some (copy_cv l p s)
      else if cv_kind (load_cv (mem s) p) \<noteq> CEL_BOOL then Some (poison l CEL_ERR_TYPE_MISMATCH s)
      else if pl_b (load_cv (mem s) p) = 0 then Some s
      else cel_list_append_at list_slot value_slot s)"

subsection \<open>Indexing\<close>

text \<open>
  \<open>decode_list_index\<close> returns the index or the error it poisons with. Its double bound is the
  literal \<open>9.2233720368547758e18\<close>, which rounds to \<open>2^63\<close>, so the cast of \<open>2^63\<close> itself is reached;
  C leaves a cast out of the range of \<open>int64_t\<close> undefined, and \<open>ub\<close> stands for whatever the
  compiled code then yields.
\<close>

definition cast_i64 :: "u64 \<Rightarrow> u64 \<Rightarrow> u64" where
  "cast_i64 ub d =
     (if d_isnan d \<or> d_val d < - (2 ^ 63) * int d_unit \<or> 2 ^ 63 * int d_unit \<le> d_val d then ub
      else word_of_int (d_trunc d))"

definition kIndexLimit :: u64 where
  "kIndexLimit = d_of_int 9223372036854775800"

definition decode_list_index :: "u64 \<Rightarrow> cel_value \<Rightarrow> u32 + u64" where
  "decode_list_index ub index =
     (if cv_kind index = CEL_INT then Inr (pl_i index)
      else if cv_kind index = CEL_UINT then
        (if pl_u index > 0x7FFFFFFFFFFFFFFF then Inl CEL_ERR_INDEX_OUT_OF_BOUNDS else Inr (pl_u index))
      else if cv_kind index \<noteq> CEL_DOUBLE then Inl CEL_ERR_TYPE_MISMATCH
      else (let d = pl_d index in
        if \<not> d_eq d d \<or> d_lt kIndexLimit d \<or> d_lt d (d_neg kIndexLimit)
        then Inl CEL_ERR_INVALID_ARGUMENT
        else (let trunc = cast_i64 ub d in
          if \<not> d_eq (d_of_int (sint trunc)) d then Inl CEL_ERR_INVALID_ARGUMENT else Inr trunc)))"

definition cel_list_at_arena :: "u64 \<Rightarrow> kernel2" where
  "cel_list_at_arena ub out_slot list_slot index_slot s =
     (let out = cel_value_at out_slot; index = cel_value_at index_slot; l = cel_value_at list_slot in
      if cv_kind (load_cv (mem s) index) = CEL_UNKNOWN \<or> cv_kind (load_cv (mem s) index) = CEL_ERROR
        then Some (copy_cv out index s)
      else if cv_kind (load_cv (mem s) l) = CEL_UNKNOWN \<or> cv_kind (load_cv (mem s) l) = CEL_ERROR
        then Some (copy_cv out l s)
      else (case decode_list_index ub (load_cv (mem s) index) of
          Inl e \<Rightarrow> Some (poison out e s)
        | Inr i \<Rightarrow>
          (let hdr = arena_list_header (load_cv (mem s) l) in
           if sint i < 0 \<or> i \<ge> ucast (list_count (mem s) hdr)
           then Some (poison out CEL_ERR_INDEX_OUT_OF_BOUNDS s)
           else Some (copy_cv out (arena_list_element (mem s) hdr (ucast i)) s))))"

definition cel_list_at :: "cel_host \<Rightarrow> u64 \<Rightarrow> kernel2" where
  "cel_list_at h ub out_slot list_slot index_slot s =
     (let l = cel_value_at list_slot; k = cv_kind (load_cv (mem s) l) in
      if k = CEL_UNKNOWN \<or> k = CEL_ERROR then Some (copy_cv (cel_value_at out_slot) l s)
      else if k = CEL_LIST_ARENA then cel_list_at_arena ub out_slot list_slot index_slot s
      else if k = CEL_LIST_HOST then host_list_at h out_slot list_slot index_slot s
      else Some (poison (cel_value_at out_slot) CEL_ERR_TYPE_MISMATCH s))"

subsection \<open>Size and concatenation\<close>

definition cel_list_size_arena :: "u32 \<Rightarrow> u32 \<Rightarrow> rt \<Rightarrow> rt option" where
  "cel_list_size_arena out_slot list_slot s =
     (let out = cel_value_at out_slot; l = cel_value_at list_slot;
          (wrote, s) = absorb_3vl_unary out l s
      in if wrote then Some s
         else if cv_kind (load_cv (mem s) l) \<noteq> CEL_LIST_ARENA then Some (poison out CEL_ERR_TYPE_MISMATCH s)
         else Some (write_int out (ucast (list_count (mem s) (arena_list_header (load_cv (mem s) l)))) s))"

definition cel_list_size :: "cel_host \<Rightarrow> u32 \<Rightarrow> u32 \<Rightarrow> rt \<Rightarrow> rt option" where
  "cel_list_size h out_slot list_slot s =
     (let l = cel_value_at list_slot; k = cv_kind (load_cv (mem s) l) in
      if k = CEL_UNKNOWN \<or> k = CEL_ERROR then Some (copy_cv (cel_value_at out_slot) l s)
      else if k = CEL_LIST_ARENA then cel_list_size_arena out_slot list_slot s
      else if k = CEL_LIST_HOST then host_list_size h out_slot list_slot s
      else Some (poison (cel_value_at out_slot) CEL_ERR_TYPE_MISMATCH s))"

definition alloc_concat_list :: "nat \<Rightarrow> u32 \<Rightarrow> rt \<Rightarrow> (u32 \<times> rt) option" where
  "alloc_concat_list out tot s = do {
     (offs, s) \<leftarrow> alloc_header_run 24 tot s;
     case offs of
       None \<Rightarrow> Some (0, poison out CEL_ERR_OVERFLOW s)
     | Some (hdr_off, elements_off) \<Rightarrow>
         Some (hdr_off, s\<lparr>mem := store_words4 (mem s) (unat hdr_off) tot tot elements_off 0\<rparr>)
   }"

text \<open>The source's count is read afresh in every round; as a 32-bit count it bounds the rounds.\<close>

function copy_elements_from :: "u32 \<Rightarrow> u32 \<Rightarrow> nat \<Rightarrow> nat \<Rightarrow> rt \<Rightarrow> rt" where
  "copy_elements_from elements_off dst_index src i s =
     (if i < unat (list_count (mem s) src)
      then copy_elements_from elements_off dst_index src (i + 1)
             (copy_cv (unat elements_off + kCelListEntryStride * unat (dst_index + word_of_nat i))
                (arena_list_element (mem s) src (word_of_nat i)) s)
      else s)"
  by pat_completeness auto

lemma unat_u32_less: "i < unat (w :: u32) \<Longrightarrow> i < 4294967296"
  using unat_u32_lt [of w] by simp

termination copy_elements_from
  by (relation "measure (\<lambda>(e, d, src, i, s). 2 ^ 32 - i)") (auto dest: unat_u32_less)

declare copy_elements_from.simps [simp del]

definition copy_elements :: "u32 \<Rightarrow> u32 \<Rightarrow> nat \<Rightarrow> rt \<Rightarrow> rt" where
  "copy_elements elements_off dst_index src s = copy_elements_from elements_off dst_index src 0 s"

definition cel_list_concat_arena :: kernel2 where
  "cel_list_concat_arena out_slot a_slot b_slot s =
     (let out = cel_value_at out_slot; a = cel_value_at a_slot; b = cel_value_at b_slot in do {
        (wrote, s) \<leftarrow> absorb_3vl_binary out a b s;
        if wrote then Some s
        else if cv_kind (load_cv (mem s) a) \<noteq> CEL_LIST_ARENA \<or> cv_kind (load_cv (mem s) b) \<noteq> CEL_LIST_ARENA
          then Some (poison out CEL_ERR_TYPE_MISMATCH s)
        else do {
          let ha = arena_list_header (load_cv (mem s) a);
          let hb = arena_list_header (load_cv (mem s) b);
          if list_count (mem s) hb > UINT32_MAX - list_count (mem s) ha
          then Some (poison out CEL_ERR_OVERFLOW s)
          else do {
            (hdr_off, s) \<leftarrow> alloc_concat_list out (list_count (mem s) ha + list_count (mem s) hb) s;
            if hdr_off = 0 then Some s
            else do {
              let s = copy_elements (list_elements (mem s) (unat hdr_off)) 0 ha s;
              let s = copy_elements (list_elements (mem s) (unat hdr_off)) (list_count (mem s) ha) hb s;
              Some (s\<lparr>mem := store32 (store32 (mem s) out CEL_LIST_ARENA) (out + 8) hdr_off\<rparr>)
            }
          }
        }
      })"

text \<open>The dispatchers read the operand kinds left first, as the source does.\<close>

definition is_list_kind :: "u32 \<Rightarrow> bool" where
  "is_list_kind k \<longleftrightarrow> k = CEL_LIST_ARENA \<or> k = CEL_LIST_HOST"

definition cel_list_concat :: "cel_host \<Rightarrow> kernel2" where
  "cel_list_concat h out_slot a_slot b_slot s =
     (let ka = cv_kind (load_cv (mem s) (cel_value_at a_slot)); kb = cv_kind (load_cv (mem s) (cel_value_at b_slot)) in
      if ka = CEL_UNKNOWN \<or> ka = CEL_ERROR then Some (copy_cv (cel_value_at out_slot) (cel_value_at a_slot) s)
      else if kb = CEL_UNKNOWN \<or> kb = CEL_ERROR then Some (copy_cv (cel_value_at out_slot) (cel_value_at b_slot) s)
      else if ka = CEL_LIST_ARENA \<and> kb = CEL_LIST_ARENA then cel_list_concat_arena out_slot a_slot b_slot s
      else if is_list_kind ka \<and> is_list_kind kb then host_list_concat h out_slot a_slot b_slot s
      else Some (poison (cel_value_at out_slot) CEL_ERR_TYPE_MISMATCH s))"

text \<open>The two kinds that strict operations pass on.\<close>

definition poisoned :: "cel_value \<Rightarrow> bool" where
  "poisoned v \<longleftrightarrow> cv_kind v = CEL_ERROR \<or> cv_kind v = CEL_UNKNOWN"

subsection \<open>Well-formed lists\<close>

definition list_hdr :: "rt \<Rightarrow> u32 \<Rightarrow> nat" where
  "list_hdr s slot = arena_list_header (cv s slot)"

definition list_room :: "rt \<Rightarrow> u32 \<Rightarrow> nat" where
  "list_room s slot = unat (list_capacity (mem s) (list_hdr s slot))"

definition list_run :: "rt \<Rightarrow> u32 \<Rightarrow> nat" where
  "list_run s slot = unat (list_elements (mem s) (list_hdr s slot))"

text \<open>The abstract value: the cells of the run, up to the count.\<close>

definition list_of :: "rt \<Rightarrow> u32 \<Rightarrow> cel_value list" where
  "list_of s slot = run_at (mem s) (list_run s slot) (unat (list_count (mem s) (list_hdr s slot)))"

definition list_apart :: "rt \<Rightarrow> u32 \<Rightarrow> nat \<Rightarrow> nat \<Rightarrow> bool" where
  "list_apart s slot a n \<longleftrightarrow> apart a n (cel_value_at slot) 24 \<and> apart a n (list_hdr s slot) 16
     \<and> apart a n (list_run s slot) (24 * list_room s slot)"

text \<open>The cell, the header and the run are kept and pairwise apart, and the count fits the run.\<close>

definition list_ok :: "rt \<Rightarrow> u32 \<Rightarrow> bool" where
  "list_ok s slot \<longleftrightarrow> cv_kind (cv s slot) = CEL_LIST_ARENA
     \<and> unat (list_count (mem s) (list_hdr s slot)) \<le> list_room s slot
     \<and> kept_range s (cel_value_at slot) 24 \<and> kept_range s (list_hdr s slot) 16
     \<and> kept_range s (list_run s slot) (24 * list_room s slot)
     \<and> apart (list_hdr s slot) 16 (cel_value_at slot) 24
     \<and> apart (list_run s slot) (24 * list_room s slot) (cel_value_at slot) 24
     \<and> apart (list_hdr s slot) 16 (list_run s slot) (24 * list_room s slot)"

lemma length_list_of: "length (list_of s slot) = unat (list_count (mem s) (list_hdr s slot))"
  by (simp add: list_of_def)

lemma list_of_nth:
  "i < length (list_of s slot) \<Longrightarrow> list_of s slot ! i = load_cv (mem s) (list_run s slot + 24 * i)"
  by (simp add: list_of_def)

text \<open>Two states that agree on the cell, the header and the run have the same list there.\<close>

lemma list_same:
  assumes "list_ok s slot"
    and cell: "\<And>i. i < 24 \<Longrightarrow> mem s' (cel_value_at slot + i) = mem s (cel_value_at slot + i)"
    and hdr: "\<And>i. i < 16 \<Longrightarrow> mem s' (list_hdr s slot + i) = mem s (list_hdr s slot + i)"
    and run: "\<And>i. i < 24 * list_room s slot \<Longrightarrow> mem s' (list_run s slot + i) = mem s (list_run s slot + i)"
  shows "cv s' slot = cv s slot" "list_hdr s' slot = list_hdr s slot" "list_run s' slot = list_run s slot"
    "list_room s' slot = list_room s slot" "list_of s' slot = list_of s slot"
proof -
  show c: "cv s' slot = cv s slot" by (rule load_cv_local) (rule cell)
  then show h: "list_hdr s' slot = list_hdr s slot" by (simp add: list_hdr_def)
  have w: "load32 (mem s') (list_hdr s slot + k) = load32 (mem s) (list_hdr s slot + k)" if "k \<le> 12" for k
    by (rule load32_cong) (use hdr that in \<open>simp add: add.assoc\<close>)
  show r: "list_run s' slot = list_run s slot" using w [of 8] by (simp add: list_run_def h list_elements_def)
  show "list_room s' slot = list_room s slot" using w [of 4] by (simp add: list_room_def h list_capacity_def)
  have n: "list_count (mem s') (list_hdr s slot) = list_count (mem s) (list_hdr s slot)"
    using w [of 0] by (simp add: list_count_def)
  have "unat (list_count (mem s) (list_hdr s slot)) \<le> list_room s slot" using assms(1) by (simp add: list_ok_def)
  then show "list_of s' slot = list_of s slot"
    unfolding list_of_def h r n by (intro run_at_cong) (simp add: run)
qed

lemma list_ok_same:
  assumes "list_ok s slot" "arena_used s \<subseteq> arena_used s'"
    and "\<And>i. i < 24 \<Longrightarrow> mem s' (cel_value_at slot + i) = mem s (cel_value_at slot + i)"
    and "\<And>i. i < 16 \<Longrightarrow> mem s' (list_hdr s slot + i) = mem s (list_hdr s slot + i)"
    and "\<And>i. i < 24 * list_room s slot \<Longrightarrow> mem s' (list_run s slot + i) = mem s (list_run s slot + i)"
  shows "list_ok s' slot"
proof -
  note e = list_same [OF assms(1,3,4,5)]
  have "length (list_of s' slot) = length (list_of s slot)" by (simp add: e(5))
  then show ?thesis using assms(1) kept_range_mono [OF assms(2)]
    by (simp add: list_ok_def e(1-4) length_list_of)
qed

lemma list_keeps:
  assumes "list_ok s slot" "keeps out s s'" "list_apart s slot out 24"
  shows "list_ok s' slot" "list_of s' slot = list_of s slot" "cv s' slot = cv s slot"
    "list_hdr s' slot = list_hdr s slot" "list_run s' slot = list_run s slot" "list_room s' slot = list_room s slot"
proof -
  have a: "apart (cel_value_at slot) 24 out 24" "apart (list_hdr s slot) 16 out 24"
    "apart (list_run s slot) (24 * list_room s slot) out 24"
    using assms(3) unfolding list_apart_def by (simp_all add: apart_sym)
  have k: "kept_range s (cel_value_at slot) 24" "kept_range s (list_hdr s slot) 16"
    "kept_range s (list_run s slot) (24 * list_room s slot)"
    using assms(1) by (simp_all add: list_ok_def)
  note m = keeps_same [OF assms(2) k(1) a(1)] keeps_same [OF assms(2) k(2) a(2)] keeps_same [OF assms(2) k(3) a(3)]
  show "list_of s' slot = list_of s slot" "cv s' slot = cv s slot"
    "list_hdr s' slot = list_hdr s slot" "list_run s' slot = list_run s slot" "list_room s' slot = list_room s slot"
    using list_same [OF assms(1) m] by simp_all
  show "list_ok s' slot" using assms(2) by (intro list_ok_same [OF assms(1) _ m]) (simp_all add: keeps_def)
qed

subsection \<open>Creating and appending\<close>

text \<open>Storing a header and publishing it in the out cell.\<close>

lemma publish_header:
  assumes ext: "extends s t" and out: "kept_range s out 24" and fr: "fresh_range s h 16"
    and m: "m = store32 (store32 (store_words4 (mem t) h w0 w1 w2 w3) out k) (out + 8) p"
  shows "keeps out s (t\<lparr>mem := m\<rparr>)" "load32 m h = w0" "load32 m (h + 4) = w1" "load32 m (h + 8) = w2"
    "load32 m (h + 12) = w3"
    "cv_kind (load_cv m out) = k" "pl_header_ptr (load_cv m out) = p"
proof -
  let ?m1 = "store_words4 (mem t) h w0 w1 w2 w3"
  have e1: "extends s (t\<lparr>mem := ?m1\<rparr>)"
    using fr by (intro extends_fill [OF ext same_outside_words4]) (auto simp: fresh_range_def)
  then have ok: "arena_ok (t\<lparr>mem := ?m1\<rparr>)" unfolding extends_def by blast
  have so: "same_outside out 24 ?m1 m" unfolding m by (rule same_outside_kind_ptr)
  have "only_cell out (t\<lparr>mem := ?m1\<rparr>) (t\<lparr>mem := m\<rparr>)" using so by (simp add: only_cell_def)
  then show "keeps out s (t\<lparr>mem := m\<rparr>)"
    using keeps_trans [OF extends_keeps [OF e1]] only_cell_keeps [OF _ ok] by blast
  have ap: "apart h 16 out 24" using fresh_apart [OF fr out] by (simp add: apart_sym)
  have l: "load32 m (h + d) = load32 ?m1 (h + d)" if "d \<le> 12" for d
    using that by (intro load32_apart [OF so ap]) simp_all
  show "load32 m h = w0" "load32 m (h + 4) = w1" "load32 m (h + 8) = w2" "load32 m (h + 12) = w3"
    using l [of 0] l [of 4] l [of 8] l [of 12] by (simp_all add: mem_simps)
  show "cv_kind (load_cv m out) = k" "pl_header_ptr (load_cv m out) = p"
    by (simp_all add: m mem_simps pl_defs)
qed

lemma extends_poison:
  assumes "extends s t"
  shows "keeps out s (poison out e t)" "is_err (load_cv (mem (poison out e t)) out) e"
proof -
  have "arena_ok t" using assms unfolding extends_def by blast
  then show "keeps out s (poison out e t)"
    using keeps_trans [OF extends_keeps [OF assms]] only_cell_keeps [OF only_cell_writers(1)] by blast
qed (rule is_err_poison)

lemma cel_list_create_correct:
  assumes ok: "arena_ok s" and out: "kept_range s (cel_value_at out) 24"
  shows "\<exists>s'. cel_list_create out n s = Some s' \<and> keeps (cel_value_at out) s s'
    \<and> (is_err (cv s' out) CEL_ERR_OVERFLOW \<and> run_oom 24 n s
       \<or> list_ok s' out \<and> list_of s' out = [] \<and> list_room s' out = unat n
         \<and> (\<forall>a k. kept_range s a k \<and> apart a k (cel_value_at out) 24 \<longrightarrow> list_apart s' out a k))"
proof -
  have st: "(24 :: u32) \<le> 64" "(24 :: u32) \<noteq> 0" by simp_all
  show ?thesis
  proof (cases rule: alloc_header_run_cases [OF ok st, of n])
    case (1 t)
    then have "cel_list_create out n s = Some (poison (cel_value_at out) CEL_ERR_OVERFLOW t)"
      by (simp add: cel_list_create_def)
    then show ?thesis using extends_poison [OF 1(2)] 1(3) by auto
  next
    case (2 h r t)
    define m where "m = store32 (store32 (store_words4 (mem t) (unat h) 0 n r 0) (cel_value_at out) CEL_LIST_ARENA)
      (cel_value_at out + 8) h"
    let ?s = "t\<lparr>mem := m\<rparr>"
    have eq: "cel_list_create out n s = Some ?s" using 2(1) by (simp add: cel_list_create_def m_def Let_def)
    note p = publish_header [OF 2(2) out 2(6) m_def]
    have hd: "list_hdr ?s out = unat h" using p by (simp add: list_hdr_def arena_list_header_def)
    have rn: "list_run ?s out = unat r" and rm: "list_room ?s out = unat n"
      using p hd by (simp_all add: list_run_def list_room_def list_elements_def list_capacity_def)
    have ct: "list_count m (unat h) = 0" using p by (simp add: list_count_def)
    have lo: "list_of ?s out = []" by (simp add: list_of_def hd ct)
    have us: "arena_used s \<subseteq> arena_used t" using 2(2) by (rule extends_used)
    have kt: "kept_range t (cel_value_at out) 24" by (rule kept_range_mono [OF us out])
    have r24: "unat (24 :: u32) * unat n = 24 * unat n" by simp
    have "list_ok ?s out"
      unfolding list_ok_def hd rn rm
      using p(6) ct 2(4,5,8) kt fresh_apart [OF 2(6) out] fresh_apart [OF 2(7) out]
      by (simp add: apart_sym)
    moreover have "list_apart ?s out a k" if "kept_range s a k" "apart a k (cel_value_at out) 24" for a k
      using that fresh_apart [OF 2(6) that(1)] fresh_apart [OF 2(7) that(1)] unfolding list_apart_def hd rn rm by simp
    ultimately show ?thesis using eq p(1) lo rm by blast
  qed
qed

lemma unat_succ_u32: "unat (w :: u32) < unat (c :: u32) \<Longrightarrow> unat (w + 1) = Suc (unat w)"
  using unat_u32_lt [of c] by (simp add: unat_word_ariths)

lemma cel_list_append_correct:
  assumes ok: "list_ok s l" and v: "\<not> poisoned (cv s v)"
    and room: "length (list_of s l) < list_room s l"
  shows "\<exists>s'. cel_list_append_at l v s = Some s' \<and> s' = s\<lparr>mem := mem s'\<rparr> \<and> list_ok s' l
    \<and> list_of s' l = list_of s l @ [cv s v]
    \<and> list_hdr s' l = list_hdr s l \<and> list_run s' l = list_run s l \<and> list_room s' l = list_room s l
    \<and> (\<forall>a k i. list_apart s l a k \<and> i < k \<longrightarrow> mem s' (a + i) = mem s (a + i))"
proof -
  let ?h = "list_hdr s l" and ?r = "list_run s l" and ?N = "24 * list_room s l" and ?n = "unat (list_count (mem s) (list_hdr s l))"
  let ?e = "?r + 24 * ?n"
  define m1 where "m1 = store_cv (mem s) ?e (cv s v)"
  define m2 where "m2 = store32 m1 ?h (list_count m1 ?h + 1)"
  let ?s = "s\<lparr>mem := m2\<rparr>"
  have n: "?n < list_room s l" using room by (simp add: length_list_of)
  have ap: "apart ?h 16 (cel_value_at l) 24" "apart ?r ?N (cel_value_at l) 24" "apart ?h 16 ?r ?N"
    using ok by (simp_all add: list_ok_def)
  have so1: "same_outside ?e 24 (mem s) m1" unfolding m1_def by (rule same_outside_store_cv)
  have so2: "same_outside ?h 4 m1 m2" unfolding m2_def by (rule same_outside_store32) simp_all
  have eN: "?r \<le> ?e" "?e + 24 \<le> ?r + ?N" using n by auto
  have cnt: "list_count m1 ?h = list_count (mem s) ?h"
    unfolding list_count_def using ap(3) eN n
    by (intro load32_apart [OF so1, of ?h 16]) (auto simp: apart_def)
  have lt: "list_count (mem s) ?h < list_capacity (mem s) ?h"
    using n by (simp add: word_less_nat_alt list_room_def)
  have e: "arena_list_element (mem s) ?h (list_count (mem s) ?h) = ?e" by (simp add: arena_list_element_def list_run_def)
  have hdr: "arena_list_header (cv s l) = ?h" by (simp add: list_hdr_def)
  have kind: "cv_kind (cv s l) = CEL_LIST_ARENA" using ok by (simp add: list_ok_def)
  have eq: "cel_list_append_at l v s = Some ?s"
    using v lt kind e cnt
    by (simp add: cel_list_append_at_def Let_def poisoned_def hdr not_le [symmetric] copy_cv_def m1_def [symmetric] m2_def)
  have same: "m2 (a + i) = mem s (a + i)" if "apart a k ?e 24" "apart a k ?h 4" "i < k" for a k i
    using bytes_same_apart [OF so1 that(1,3)] bytes_same_apart [OF so2 that(2,3)] by simp
  have cell: "m2 (cel_value_at l + i) = mem s (cel_value_at l + i)" if "i < 24" for i
    by (rule same [of _ 24]) (use ap eN n that in \<open>auto simp: apart_def\<close>)
  have h4: "m2 (?h + 4 + i) = mem s (?h + 4 + i)" if "i < 12" for i
    by (rule same [of _ 12]) (use ap eN n that in \<open>auto simp: apart_def\<close>)
  have cvl: "load_cv m2 (cel_value_at l) = cv s l" by (rule load_cv_local) (rule cell)
  have hd': "list_hdr ?s l = ?h" by (simp add: list_hdr_def cvl)
  have w: "load32 m2 (?h + 4 + d) = load32 (mem s) (?h + 4 + d)" if "d \<le> 8" for d
    by (rule load32_cong) (use h4 that in \<open>simp add: add.assoc\<close>)
  have w8: "load32 m2 (?h + 8) = load32 (mem s) (?h + 8)" using w [of 4] by (simp add: add.assoc)
  have rn: "list_run ?s l = ?r" and rm: "list_room ?s l = list_room s l"
    using w [of 0] w8 by (simp_all add: list_run_def list_room_def hd' list_elements_def list_capacity_def)
  have ct: "list_count m2 ?h = list_count (mem s) ?h + 1" unfolding m2_def cnt by (simp add: list_count_def mem_simps)
  have "unat (list_count (mem s) ?h + 1) = Suc ?n"
    using n by (simp add: unat_succ_u32 list_room_def)
  then have un: "unat (list_count m2 ?h) = Suc ?n" by (simp add: ct)
  have run: "run_at m2 ?r ?n = run_at (mem s) ?r ?n"
    by (rule run_at_cong, rule same [of _ "24 * ?n"]) (use ap eN n in \<open>auto simp: apart_def\<close>)
  have cell2: "load_cv m2 ?e = cv s v"
  proof -
    have "load_cv m2 ?e = load_cv m1 ?e"
      by (rule load_cv_apart [OF so2]) (use ap eN n in \<open>auto simp: apart_def\<close>)
    then show ?thesis by (simp add: m1_def mem_simps)
  qed
  have lo: "list_of ?s l = list_of s l @ [cv s v]"
    unfolding list_of_def hd' rn by (simp add: un run_at_Suc run cell2)
  have "list_ok ?s l" using ok n un unfolding list_ok_def hd' rn rm by (simp add: cvl kind)
  moreover have "m2 (a + i) = mem s (a + i)" if "list_apart s l a k" "i < k" for a k i
  proof (rule same [OF _ _ that(2)])
    have "apart a k ?r ?N" "apart a k ?h 16" using that(1) by (simp_all add: list_apart_def)
    then show "apart a k ?e 24" "apart a k ?h 4" using eN by (auto elim: apart_sub)
  qed
  ultimately show ?thesis using eq lo hd' rn rm by (intro exI [of _ ?s]) auto
qed


text \<open>The appends a list literal is compiled to, in index order.\<close>

fun append_all :: "u32 \<Rightarrow> u32 list \<Rightarrow> rt \<Rightarrow> rt option" where
  "append_all l [] s = Some s"
| "append_all l (v # vs) s = do { s \<leftarrow> cel_list_append_at l v s; append_all l vs s }"

lemma append_all_stuck: "cv_kind (cv s l) \<noteq> CEL_LIST_ARENA \<Longrightarrow> append_all l vs s = Some s"
  by (induction vs) (auto simp: cel_list_append_at_def Let_def)

lemma append_all_correct:
  assumes "list_ok s l" "length (list_of s l) + length vs \<le> list_room s l"
    and "\<And>v. v \<in> set vs \<Longrightarrow> list_apart s l (cel_value_at v) 24"
  shows "\<exists>s'. append_all l vs s = Some s' \<and> s' = s\<lparr>mem := mem s'\<rparr>
    \<and> (\<forall>a k i. list_apart s l a k \<and> i < k \<longrightarrow> mem s' (a + i) = mem s (a + i))
    \<and> (case find poisoned (map (cv s) vs) of
         Some e \<Rightarrow> cv s' l = e
       | None \<Rightarrow> list_ok s' l \<and> list_of s' l = list_of s l @ map (cv s) vs)"
  using assms
proof (induction vs arbitrary: s)
  case Nil
  then show ?case by simp
next
  case (Cons v vs)
  have av: "list_apart s l (cel_value_at v) 24" by (rule Cons.prems(3)) simp
  show ?case
  proof (cases "poisoned (cv s v)")
    case True
    let ?s = "copy_cv (cel_value_at l) (cel_value_at v) s"
    have eq: "cel_list_append_at l v s = Some ?s"
      using True Cons.prems(1) by (auto simp: cel_list_append_at_def Let_def poisoned_def list_ok_def)
    have c: "cv ?s l = cv s v" by (simp add: cell_simps)
    have "append_all l (v # vs) s = Some ?s"
      using True by (simp add: eq append_all_stuck c poisoned_def) (auto simp: append_all_stuck c)
    moreover have "\<forall>a k i. list_apart s l a k \<and> i < k \<longrightarrow> mem ?s (a + i) = mem s (a + i)"
      using only_cell_writers(6) [of "cel_value_at l" s "cel_value_at v"]
      by (intro allI impI, elim conjE, intro bytes_same_apart [of "cel_value_at l" 24])
        (auto simp: only_cell_def list_apart_def)
    moreover have "?s = s\<lparr>mem := mem ?s\<rparr>" by (simp add: copy_cv_def)
    ultimately show ?thesis using True c by (intro exI [of _ ?s] conjI) simp_all
  next
    case False
    have "length (list_of s l) < list_room s l" using Cons.prems(2) by simp
    then obtain s1 where s1: "cel_list_append_at l v s = Some s1" "s1 = s\<lparr>mem := mem s1\<rparr>" "list_ok s1 l"
      "list_of s1 l = list_of s l @ [cv s v]" "list_hdr s1 l = list_hdr s l" "list_run s1 l = list_run s l"
      "list_room s1 l = list_room s l"
      and fr: "\<And>a k i. list_apart s l a k \<Longrightarrow> i < k \<Longrightarrow> mem s1 (a + i) = mem s (a + i)"
      using cel_list_append_correct [OF Cons.prems(1) False] by blast
    have la: "list_apart s1 l = list_apart s l" using s1(5-7) by (simp add: list_apart_def fun_eq_iff)
    have cvs: "cv s1 w = cv s w" if "w \<in> set vs" for w
      by (rule load_cv_local) (use that Cons.prems(3) [of w] in \<open>auto intro: fr\<close>)
    obtain s2 where s2: "append_all l vs s1 = Some s2" "s2 = s1\<lparr>mem := mem s2\<rparr>"
      "\<And>a k i. list_apart s l a k \<Longrightarrow> i < k \<Longrightarrow> mem s2 (a + i) = mem s1 (a + i)"
      "case find poisoned (map (cv s1) vs) of
         Some e \<Rightarrow> cv s2 l = e | None \<Rightarrow> list_ok s2 l \<and> list_of s2 l = list_of s1 l @ map (cv s1) vs"
      using Cons.IH [OF s1(3)] Cons.prems s1(4,7) unfolding la by auto
    have m: "map (cv s1) vs = map (cv s) vs" using cvs by simp
    have "s2 = s\<lparr>mem := mem s2\<rparr>" using s1(2) s2(2) by (metis rt.update_convs(1) rt.surjective rt.select_convs)
    then show ?thesis using False s1(1,4) s2(1,3,4) fr unfolding m
      by (intro exI [of _ s2]) (auto split: option.splits)
  qed
qed

subsection \<open>Indexing\<close>

lemma kIndexLimit_val:
  "d_val kIndexLimit = 2 ^ 63 * int d_unit" "d_val (d_neg kIndexLimit) = - (2 ^ 63 * int d_unit)"
  "\<not> d_isnan kIndexLimit" "\<not> d_isnan (d_neg kIndexLimit)"
proof -
  have c: "d_code kIndexLimit = 1086 * P52"
    unfolding kIndexLimit_def
    by (rule round_code_int_at [where j = 10 and x = "9223372036854775800" and y = "2 ^ 53"]) (simp_all add: rne_def)
  have s: "\<not> d_neg_sign kIndexLimit" by (simp add: kIndexLimit_def d_of_int_def d_code_round)
  have n: "d_code (d_neg kIndexLimit) = d_code kIndexLimit" "d_neg_sign (d_neg kIndexLimit) = (\<not> d_neg_sign kIndexLimit)"
    by (auto simp: d_neg_def d_code_def d_neg_sign_def bit_simps intro!: arg_cong [where f = unat] bit_word_eqI)
  show "d_val kIndexLimit = 2 ^ 63 * int d_unit" "d_val (d_neg kIndexLimit) = - (2 ^ 63 * int d_unit)"
    "\<not> d_isnan kIndexLimit" "\<not> d_isnan (d_neg kIndexLimit)"
    using limit_mags(1) s by (simp_all add: d_val_def d_mag_def n c d_isnan_def)
qed

text \<open>Away from \<open>2^63\<close> the double arm is the lossless conversion of key comparison.\<close>

lemma decode_double:
  assumes "cv_kind v = CEL_DOUBLE" "d_val (pl_d v) \<noteq> 2 ^ 63 * int d_unit"
  shows "decode_list_index ub v = (case double_as_int (pl_d v) of Some i \<Rightarrow> Inr i | None \<Rightarrow> Inl CEL_ERR_INVALID_ARGUMENT)"
proof (cases "d_isnan (pl_d v) \<or> d_val (pl_d v) < - (2 ^ 63) * int d_unit \<or> 2 ^ 63 * int d_unit \<le> d_val (pl_d v)")
  case True
  have "double_as_int (pl_d v) = None"
  proof (cases "double_as_int (pl_d v)")
    case (Some i)
    then have "\<not> d_isnan (pl_d v)" "d_val (pl_d v) = sint i * int d_unit" by (simp_all add: double_as_int_iff)
    moreover have "- (2 ^ 63) * int d_unit \<le> sint i * int d_unit" "sint i * int d_unit < 2 ^ 63 * int d_unit"
      unfolding unit_le_iff unit_less_iff using sint_range64 [of i] by linarith+
    ultimately show ?thesis using True by auto
  qed
  then show ?thesis using True assms
    by (auto simp: decode_list_index_def Let_def d_eq_def d_lt_def kIndexLimit_val)
next
  case False
  then have "cast_i64 ub (pl_d v) = word_of_int (d_trunc (pl_d v))" by (simp add: cast_i64_def)
  then show ?thesis using False assms
    by (auto simp: decode_list_index_def Let_def d_eq_def [of "pl_d v" "pl_d v"] d_lt_def kIndexLimit_val double_as_int_def
        kDoubleToIntMin_def kMaxDoubleAsInt_def d_le_limit [simplified] d_le_def [of "d_of_int _" "pl_d v"] d_of_int_not_nan limit_vals [simplified])
qed

text \<open>The error of an index that is no position of the list.\<close>

definition index_error :: "cel_value \<Rightarrow> u32" where
  "index_error v =
     (if \<not> is_numeric_kind (cv_kind v) then CEL_ERR_TYPE_MISMATCH
      else if cv_kind v = CEL_DOUBLE \<and> double_as_int (pl_d v) = None then CEL_ERR_INVALID_ARGUMENT
      else CEL_ERR_INDEX_OUT_OF_BOUNDS)"

lemma decode_list_index_cases:
  assumes lim: "cv_kind v = CEL_DOUBLE \<longrightarrow> d_val (pl_d v) \<noteq> 2 ^ 63 * int d_unit"
  obtains (index) i where "decode_list_index ub v = Inr i" "num_ok v" "num_val v = sint i * int d_unit"
      "index_error v = CEL_ERR_INDEX_OUT_OF_BOUNDS"
  | (bad) "decode_list_index ub v = Inl (index_error v)" "\<And>j. num_ok v \<Longrightarrow> num_val v = j * int d_unit \<Longrightarrow> 2 ^ 63 \<le> j \<or> j < - (2 ^ 63)"
proof (cases "is_numeric_kind (cv_kind v)")
  case False
  then have "decode_list_index ub v = Inl (index_error v)" "\<not> num_ok v"
    by (simp_all add: decode_list_index_def index_error_def is_numeric_kind_def num_ok_def)
  then show thesis using bad by blast
next
  case True
  then consider "cv_kind v = CEL_INT" | "cv_kind v = CEL_UINT" | "cv_kind v = CEL_DOUBLE" by (auto simp: is_numeric_kind_def)
  then show thesis
  proof cases
    case 1
    then show thesis by (intro index [of "pl_i v"])
      (simp_all add: decode_list_index_def num_ok_def num_val_def is_numeric_kind_def index_error_def)
  next
    case 2
    have le: "pl_u v \<le> 0x7FFFFFFFFFFFFFFF \<longleftrightarrow> uint (pl_u v) < 2 ^ 63" by (simp add: word_le_def) linarith
    show thesis
    proof (cases "uint (pl_u v) < 2 ^ 63")
      case True
      then show thesis using 2 le
        by (intro index [of "pl_u v"])
          (simp_all add: decode_list_index_def num_ok_def num_val_def is_numeric_kind_def index_error_def not_less sint_eq_uint64)
    next
      case False
      then have "decode_list_index ub v = Inl (index_error v)"
        using 2 le by (simp add: decode_list_index_def index_error_def is_numeric_kind_def not_less [symmetric])
      moreover have "num_val v = uint (pl_u v) * int d_unit" using 2 by (simp add: num_val_def)
      ultimately show thesis using False by (intro bad) (simp_all add: unit_eq_iff)
    qed
  next
    case 3
    note d = decode_double [OF 3 lim [rule_format, OF 3], of ub]
    show thesis
    proof (cases "double_as_int (pl_d v)")
      case None
      have False if "num_ok v" "num_val v = j * int d_unit" "j < 2 ^ 63" "- (2 ^ 63) \<le> j" for j
      proof -
        have "d_val (pl_d v) = sint (word_of_int j :: u64) * int d_unit" "\<not> d_isnan (pl_d v)"
          using that 3 sint_word_of_int64 [of j] by (simp_all add: num_val_def num_ok_def)
        then show False using None double_as_int_iff [of "pl_d v" "word_of_int j"] by simp
      qed
      then show thesis using None d True 3 by (intro bad) (auto simp: index_error_def not_le [symmetric] not_less)
    next
      case (Some i)
      have f: "\<not> d_isnan (pl_d v)" "d_val (pl_d v) = sint i * int d_unit" using Some by (simp_all add: double_as_int_iff)
      show thesis
        by (rule index [of i]) (use Some d 3 f in \<open>simp_all add: num_ok_def num_val_def is_numeric_kind_def index_error_def\<close>)
    qed
  qed
qed

lemma unat_ucast_index: "0 \<le> sint i \<Longrightarrow> sint i < 4294967296 \<Longrightarrow> unat (ucast (i :: u64) :: u32) = nat (sint i)"
proof -
  assume s: "0 \<le> sint i" "sint i < 4294967296"
  have "uint i = sint i" using s(1) sint_cases64 [of i] uint_lt2p [of i] by (simp split: if_splits)
  then have "unat i = nat (sint i)" by (metis unat_eq_nat_uint)
  moreover have "unat (ucast i :: u32) = unat i mod 2 ^ 32" by (simp add: unsigned_ucast_eq take_bit_eq_mod)
  ultimately show ?thesis using s by (simp add: nat_less_iff)
qed

lemma cel_list_at_correct:
  assumes k: "cv_kind (cv s l) = CEL_LIST_ARENA" "\<not> poisoned (cv s idx)"
    and lim: "cv_kind (cv s idx) = CEL_DOUBLE \<longrightarrow> d_val (pl_d (cv s idx)) \<noteq> 2 ^ 63 * int d_unit"
  shows "\<exists>s'. cel_list_at h ub out l idx s = Some s' \<and> only_cell (cel_value_at out) s s'
    \<and> (\<forall>j < length (list_of s l). num_ok (cv s idx) \<and> num_val (cv s idx) = int j * int d_unit
         \<longrightarrow> cv s' out = list_of s l ! j)
    \<and> ((\<nexists>j. j < length (list_of s l) \<and> num_ok (cv s idx) \<and> num_val (cv s idx) = int j * int d_unit)
         \<longrightarrow> is_err (cv s' out) (index_error (cv s idx)))"
proof -
  let ?v = "cv s idx" and ?out = "cel_value_at out"
  have eq: "cel_list_at h ub out l idx s = (case decode_list_index ub ?v of
          Inl e \<Rightarrow> Some (poison ?out e s)
        | Inr i \<Rightarrow> if sint i < 0 \<or> i \<ge> ucast (list_count (mem s) (list_hdr s l))
           then Some (poison ?out CEL_ERR_INDEX_OUT_OF_BOUNDS s)
           else Some (copy_cv ?out (arena_list_element (mem s) (list_hdr s l) (ucast i)) s))"
    using k by (simp add: cel_list_at_def cel_list_at_arena_def Let_def poisoned_def list_hdr_def split: sum.split)
  show ?thesis
  proof (cases rule: decode_list_index_cases [OF lim, where ub = ub])
    case (1 i)
    let ?n = "unat (list_count (mem s) (list_hdr s l))"
    have u: "uint (ucast (list_count (mem s) (list_hdr s l)) :: u64) = int ?n"
      using uint_lt2p [of "list_count (mem s) (list_hdr s l)"] by (simp add: unsigned_ucast_eq take_bit_int_eq_self)
    have iff: "(sint i < 0 \<or> i \<ge> ucast (list_count (mem s) (list_hdr s l))) \<longleftrightarrow> \<not> (0 \<le> sint i \<and> sint i < int ?n)"
      using sint_cases64 [of i] uint_range64 [of i] unat_u32_lt [of "list_count (mem s) (list_hdr s l)"]
      unfolding word_le_def u by (auto split: if_splits)
    show ?thesis
    proof (cases "0 \<le> sint i \<and> sint i < int ?n")
      case True
      let ?j = "nat (sint i)"
      have uc: "unat (ucast i :: u32) = ?j"
        by (rule unat_ucast_index) (use True unat_u32_lt [of "list_count (mem s) (list_hdr s l)"] in linarith)+
      have el: "load_cv (mem s) (arena_list_element (mem s) (list_hdr s l) (ucast i)) = list_of s l ! ?j"
        using True by (simp add: list_of_nth length_list_of arena_list_element_def uc list_run_def nat_less_iff)
      have "num_val ?v = int j * int d_unit \<longleftrightarrow> j = ?j" for j
        using True unfolding 1(3) unit_eq_iff by auto
      then show ?thesis using True 1 el unfolding eq 1(1) sum.case iff
        by (intro exI [of _ "copy_cv ?out (arena_list_element (mem s) (list_hdr s l) (ucast i)) s"])
          (auto simp: cell_simps length_list_of nat_less_iff)
    next
      case False
      have "\<not> (j < ?n \<and> num_val ?v = int j * int d_unit)" for j
        using False unfolding 1(3) unit_eq_iff by (metis of_nat_less_iff of_nat_0_le_iff)
      then show ?thesis using 1 False unfolding eq 1(1) sum.case iff
        by (intro exI [of _ "poison ?out CEL_ERR_INDEX_OUT_OF_BOUNDS s"]) (auto simp: is_err_poison length_list_of)
    qed
  next
    case 2
    have "\<not> (j < length (list_of s l) \<and> num_ok ?v \<and> num_val ?v = int j * int d_unit)" for j
      using 2(2) [of "int j"] unat_u32_lt [of "list_count (mem s) (list_hdr s l)"] by (auto simp: length_list_of)
    then show ?thesis unfolding eq 2(1) sum.case
      by (intro exI [of _ "poison ?out (index_error ?v) s"]) (auto simp: is_err_poison)
  qed
qed

subsection \<open>Concatenation\<close>

lemma copy_elements_correct:
  assumes "unat (list_count (mem s) src) = n" "unat dst + n < 2 ^ 32" "i \<le> n"
    and "apart src 16 (unat e + 24 * unat dst) (24 * n)"
    and "apart (unat (list_elements (mem s) src)) (24 * n) (unat e + 24 * unat dst) (24 * n)"
  shows "\<exists>m. copy_elements_from e dst src i s = s\<lparr>mem := m\<rparr>
    \<and> same_outside (unat e + 24 * (unat dst + i)) (24 * (n - i)) (mem s) m
    \<and> run_at m (unat e + 24 * (unat dst + i)) (n - i)
        = run_at (mem s) (unat (list_elements (mem s) src) + 24 * i) (n - i)"
  using assms
proof (induction "n - i" arbitrary: i s)
  case 0
  then have "copy_elements_from e dst src i s = s" by (subst copy_elements_from.simps) simp
  then show ?case using 0 by (intro exI [of _ "mem s"]) simp
next
  case (Suc k)
  let ?r = "unat (list_elements (mem s) src)"
  let ?d = "unat e + 24 * (unat dst + i)"
  have i: "i < n" "n - i = Suc k" using Suc.hyps(2) by auto
  have ui: "unat (word_of_nat i :: u32) = i" using i Suc.prems(2) by (simp add: unat_of_nat)
  have ud: "unat (dst + word_of_nat i) = unat dst + i"
    using i Suc.prems(2) ui by (simp add: unat_word_ariths)
  define m1 where "m1 = store_cv (mem s) ?d (load_cv (mem s) (?r + 24 * i))"
  let ?s = "s\<lparr>mem := m1\<rparr>"
  have so: "same_outside ?d 24 (mem s) m1" unfolding m1_def by (rule same_outside_store_cv)
  have step: "copy_elements_from e dst src i s = copy_elements_from e dst src (i + 1) ?s"
    using i Suc.prems(1)
    by (subst copy_elements_from.simps) (simp add: copy_cv_def m1_def ud ui arena_list_element_def)
  have apd: "apart src 16 ?d 24" "apart ?r (24 * n) ?d 24"
    by (rule apart_sub [OF Suc.prems(4)]; use i(1) in simp) (rule apart_sub [OF Suc.prems(5)]; use i(1) in simp)
  have w: "load32 m1 (src + d) = load32 (mem s) (src + d)" if "d \<le> 12" for d
    by (rule load32_apart [OF so apd(1)]) (use that in simp_all)
  have le: "list_elements m1 src = list_elements (mem s) src" "list_count m1 src = list_count (mem s) src"
    using w [of 0] w [of 8] by (simp_all add: list_elements_def list_count_def)
  have "\<exists>m. copy_elements_from e dst src (i + 1) ?s = ?s\<lparr>mem := m\<rparr>
    \<and> same_outside (unat e + 24 * (unat dst + (i + 1))) (24 * (n - (i + 1))) (mem ?s) m
    \<and> run_at m (unat e + 24 * (unat dst + (i + 1))) (n - (i + 1))
        = run_at (mem ?s) (unat (list_elements (mem ?s) src) + 24 * (i + 1)) (n - (i + 1))"
    by (rule Suc.hyps(1)) (use Suc.prems i le in simp_all)
  moreover have e: "n - (i + 1) = k" "unat e + 24 * (unat dst + (i + 1)) = ?d + 24" "mem ?s = m1" using i(2) by simp_all
  ultimately obtain m where m: "copy_elements_from e dst src (i + 1) ?s = ?s\<lparr>mem := m\<rparr>"
    "same_outside (?d + 24) (24 * k) m1 m" "run_at m (?d + 24) k = run_at m1 (?r + 24 * (i + 1)) k"
    unfolding e le by blast
  have "run_at m1 (?r + 24 * (i + 1)) k = run_at (mem s) (?r + 24 * (i + 1)) k"
    by (rule run_at_frame [OF so]) (use apd(2) i in \<open>auto elim: apart_sub\<close>)
  moreover have "load_cv m ?d = load_cv m1 ?d" by (rule load_cv_apart [OF m(2)]) (simp add: apart_def)
  moreover have "load_cv m1 ?d = load_cv (mem s) (?r + 24 * i)" by (simp add: m1_def mem_simps)
  ultimately have "run_at m ?d (Suc k) = run_at (mem s) (?r + 24 * i) (Suc k)"
    using m(3) run_at_append [of m ?d 1 k] run_at_append [of "mem s" "?r + 24 * i" 1 k]
    by (simp add: run_at_Suc [of _ _ 0] algebra_simps)
  moreover have "same_outside ?d (24 * Suc k) (mem s) m"
    by (rule same_outside_trans [OF same_outside_mono [OF so] same_outside_mono [OF m(2)]]) simp_all
  ultimately show ?case using m(1) step i(2) by (intro exI [of _ m]) simp
qed

lemma cel_list_concat_correct:
  assumes ok: "arena_ok s" and out: "kept_range s (cel_value_at out) 24"
    and la: "list_ok s a" and lb: "list_ok s b"
  shows "\<exists>s'. cel_list_concat h out a b s = Some s' \<and> keeps (cel_value_at out) s s'
    \<and> (list_ok s' out \<and> list_of s' out = list_of s a @ list_of s b
       \<or> is_err (cv s' out) CEL_ERR_OVERFLOW \<and> (2 ^ 32 \<le> length (list_of s a) + length (list_of s b)
           \<or> run_oom 24 (word_of_nat (length (list_of s a) + length (list_of s b))) s))"
proof -
  let ?out = "cel_value_at out" and ?ha = "list_hdr s a" and ?hb = "list_hdr s b"
  let ?ca = "list_count (mem s) ?ha" and ?cb = "list_count (mem s) ?hb"
  let ?n = "unat ?ca" and ?k = "unat ?cb"
  have kinds: "cv_kind (cv s a) = CEL_LIST_ARENA" "cv_kind (cv s b) = CEL_LIST_ARENA"
    using la lb by (simp_all add: list_ok_def)
  have hs: "arena_list_header (cv s a) = ?ha" "arena_list_header (cv s b) = ?hb" by (simp_all add: list_hdr_def)
  have big: "?cb > UINT32_MAX - ?ca \<longleftrightarrow> 2 ^ 32 \<le> ?n + ?k"
    using unat_u32_lt [of ?ca] by (simp add: word_less_nat_alt unat_sub word_le_nat_alt) linarith
  have absorb: "absorb_3vl_binary ?out (cel_value_at a) (cel_value_at b) s = Some (False, s)"
    using kinds by (simp add: absorb_3vl_binary_def Let_def)
  show ?thesis
  proof (cases "2 ^ 32 \<le> ?n + ?k")
    case True
    then have "cel_list_concat h out a b s = Some (poison ?out CEL_ERR_OVERFLOW s)"
      using kinds absorb big by (simp add: cel_list_concat_def cel_list_concat_arena_def Let_def hs)
    then show ?thesis using True extends_poison [OF extends_refl [OF ok], of ?out CEL_ERR_OVERFLOW] by (simp add: length_list_of)
  next
    case small: False
    let ?N = "?ca + ?cb"
    have uN: "unat ?N = ?n + ?k" using small by (simp add: unat_word_ariths)
    have wN: "word_of_nat (length (list_of s a) + length (list_of s b)) = ?N" by (simp add: length_list_of)
    have st: "(24 :: u32) \<le> 64" "(24 :: u32) \<noteq> 0" by simp_all
    have nbig: "\<not> ?cb > UINT32_MAX - ?ca" using big small by simp
    have arena: "cel_list_concat h out a b s = cel_list_concat_arena out a b s"
      using kinds by (simp add: cel_list_concat_def)
    show ?thesis
    proof (cases rule: alloc_header_run_cases [OF ok st, of ?N])
      case (1 t)
      then have "cel_list_concat h out a b s = Some (poison ?out CEL_ERR_OVERFLOW t)"
        using kinds absorb nbig
        by (simp add: arena cel_list_concat_arena_def hs alloc_concat_list_def Let_def)
      then show ?thesis using extends_poison [OF 1(2), of ?out CEL_ERR_OVERFLOW] 1(3) wN by auto
    next
      case (2 hd r t)
      define m1 where "m1 = store_words4 (mem t) (unat hd) ?N ?N r 0"
      let ?t1 = "t\<lparr>mem := m1\<rparr>"
      have so1: "same_outside (unat hd) 16 (mem t) m1" unfolding m1_def by (rule same_outside_words4)
      have e1: "extends s ?t1" by (rule extends_fill [OF 2(2) so1]) (use 2(6) in \<open>auto simp: fresh_range_def\<close>)
      have aR: "apart x k (unat r) (24 * (?n + ?k))" if "kept_range s x k" for x k
        using fresh_apart [OF 2(7) that] by (simp add: uN)
      have ka: "kept_range s ?ha 16" "kept_range s (list_run s a) (24 * ?n)"
        and kb: "kept_range s ?hb 16" "kept_range s (list_run s b) (24 * ?k)"
        using la lb by (auto simp: list_ok_def elim: kept_range_tail)
      have ld: "load32 m1 (x + d) = load32 (mem s) (x + d)" if "kept_range s x 16" "d \<le> 12" for x d
        using extends_loads(1) [OF e1, of "x + d"] kept_range_sub [OF that(1), of "x + d" 4] that(2) by simp
      have ca: "list_count m1 ?ha = ?ca" "list_elements m1 ?ha = list_elements (mem s) ?ha"
        and cb: "list_count m1 ?hb = ?cb" "list_elements m1 ?hb = list_elements (mem s) ?hb"
        using ld [OF ka(1), of 0] ld [OF ka(1), of 8] ld [OF kb(1), of 0] ld [OF kb(1), of 8]
        by (simp_all add: list_count_def list_elements_def)
      have hdr: "list_elements m1 (unat hd) = r" by (simp add: m1_def list_elements_def mem_simps)
      have "\<exists>m. copy_elements_from r 0 ?ha 0 ?t1 = ?t1\<lparr>mem := m\<rparr>
        \<and> same_outside (unat r + 24 * (unat (0 :: u32) + 0)) (24 * (?n - 0)) (mem ?t1) m
        \<and> run_at m (unat r + 24 * (unat (0 :: u32) + 0)) (?n - 0) = run_at (mem ?t1) (unat (list_elements (mem ?t1) ?ha) + 24 * 0) (?n - 0)"
        by (rule copy_elements_correct)
          (use ca unat_u32_lt [of ?ca] apart_sub [OF aR [OF ka(1)]] apart_sub [OF aR [OF ka(2)]] in \<open>simp_all add: list_run_def\<close>)
      then obtain m2 where m2: "copy_elements r 0 ?ha ?t1 = ?t1\<lparr>mem := m2\<rparr>" "same_outside (unat r) (24 * ?n) m1 m2"
        "run_at m2 (unat r) ?n = run_at m1 (list_run s a) ?n"
        by (auto simp: copy_elements_def ca list_run_def)
      let ?t2 = "t\<lparr>mem := m2\<rparr>"
      have fr2: "\<not> kept s x" if "unat r \<le> x" "x < unat r + 24 * ?n" for x
        using 2(7) that by (auto simp: fresh_range_def uN)
      have e2: "extends s ?t2" using extends_fill [OF e1, of "unat r" "24 * ?n" m2] m2(2) fr2 by simp
      have ld2: "load32 m2 (x + d) = load32 (mem s) (x + d)" if "kept_range s x 16" "d \<le> 12" for x d
        using extends_loads(1) [OF e2, of "x + d"] kept_range_sub [OF that(1), of "x + d" 4] that(2) by simp
      have ca2: "list_count m2 ?ha = ?ca" and cb2: "list_count m2 ?hb = ?cb" "list_elements m2 ?hb = list_elements (mem s) ?hb"
        using ld2 [OF ka(1), of 0] ld2 [OF kb(1), of 0] ld2 [OF kb(1), of 8]
        by (simp_all add: list_count_def list_elements_def)
      have aph: "apart (unat hd) 16 (unat r) (24 * (?n + ?k))" using 2(8) by (simp add: uN)
      have hdr2: "load32 m2 (unat hd + d) = load32 m1 (unat hd + d)" if "d \<le> 12" for d
        by (rule load32_apart [OF m2(2), of "unat hd" 16]) (use aph that in \<open>auto elim: apart_sub\<close>)
      have hel2: "list_elements m2 (unat hd) = r" using hdr2 [of 8] by (simp add: list_elements_def m1_def mem_simps)
      have "\<exists>m. copy_elements_from r ?ca ?hb 0 ?t2 = ?t2\<lparr>mem := m\<rparr>
        \<and> same_outside (unat r + 24 * (?n + 0)) (24 * (?k - 0)) (mem ?t2) m
        \<and> run_at m (unat r + 24 * (?n + 0)) (?k - 0) = run_at (mem ?t2) (unat (list_elements (mem ?t2) ?hb) + 24 * 0) (?k - 0)"
        by (rule copy_elements_correct)
          (use cb2 small apart_sub [OF aR [OF kb(1)]] apart_sub [OF aR [OF kb(2)]] in \<open>simp_all add: list_run_def\<close>)
      then obtain m3 where m3: "copy_elements r ?ca ?hb ?t2 = ?t2\<lparr>mem := m3\<rparr>" "same_outside (unat r + 24 * ?n) (24 * ?k) m2 m3"
        "run_at m3 (unat r + 24 * ?n) ?k = run_at m2 (list_run s b) ?k"
        by (auto simp: copy_elements_def cb2 list_run_def)
      let ?t3 = "t\<lparr>mem := m3\<rparr>"
      have fr3: "\<not> kept s x" if "unat r + 24 * ?n \<le> x" "x < unat r + 24 * ?n + 24 * ?k" for x
        using 2(7) that by (auto simp: fresh_range_def uN)
      have e3: "extends s ?t3" using extends_fill [OF e2, of "unat r + 24 * ?n" "24 * ?k" m3] m3(2) fr3 by simp
      define m4 where "m4 = store32 (store32 m3 ?out CEL_LIST_ARENA) (?out + 8) hd"
      let ?s = "t\<lparr>mem := m4\<rparr>"
      have eq: "cel_list_concat h out a b s = Some ?s"
        using kinds absorb nbig 2(1,3) m2(1) m3(1)
        by (simp add: arena cel_list_concat_arena_def hs alloc_concat_list_def Let_def m1_def [symmetric] ca ca2 cb hdr hel2 m4_def)
      have so4: "same_outside ?out 24 m3 m4" unfolding m4_def by (rule same_outside_kind_ptr)
      have ok3: "arena_ok ?t3" using e3 unfolding extends_def by blast
      have "only_cell ?out ?t3 ?s" using so4 by (simp add: only_cell_def)
      then have kp: "keeps ?out s ?s" using keeps_trans [OF extends_keeps [OF e3]] only_cell_keeps [OF _ ok3] by blast
      have ao: "apart (unat hd) 16 ?out 24" "apart (unat r) (24 * (?n + ?k)) ?out 24"
        using fresh_apart [OF 2(6) out] aR [OF out] by (simp_all add: apart_sym)
      have w: "load32 m4 (unat hd + d) = load32 m1 (unat hd + d)" if "d \<le> 12" for d
      proof -
        have "load32 m4 (unat hd + d) = load32 m3 (unat hd + d)" by (rule load32_apart [OF so4 ao(1)]) (use that in simp_all)
        also have "\<dots> = load32 m2 (unat hd + d)"
          by (rule load32_apart [OF m3(2), of "unat hd" 16]) (use aph that in \<open>auto elim: apart_sub\<close>)
        finally show ?thesis using hdr2 [OF that] by simp
      qed
      have c4: "cv_kind (cv ?s out) = CEL_LIST_ARENA" "pl_header_ptr (cv ?s out) = hd"
        by (simp_all add: m4_def mem_simps pl_defs)
      have h4: "list_hdr ?s out = unat hd" using c4 by (simp add: list_hdr_def arena_list_header_def)
      have f4: "list_count m4 (unat hd) = ?N" "list_run ?s out = unat r" "list_room ?s out = ?n + ?k"
        using w [of 0] w [of 4] w [of 8] uN by (simp_all add: list_count_def list_run_def list_room_def h4 list_elements_def list_capacity_def m1_def mem_simps)
      have ra: "run_at m2 (unat r) ?n = list_of s a"
        unfolding m2(3) list_of_def using extends_run [OF e1 ka(2)] by simp
      have rb: "run_at m3 (unat r + 24 * ?n) ?k = list_of s b"
        unfolding m3(3) list_of_def using extends_run [OF e2 kb(2)] by simp
      have ra3: "run_at m3 (unat r) ?n = list_of s a"
        unfolding ra [symmetric] by (rule run_at_frame [OF m3(2)]) (simp add: apart_def)
      have "list_of ?s out = run_at m3 (unat r) (?n + ?k)"
        unfolding list_of_def h4 f4(2) using run_at_frame [OF so4 ao(2)] by (simp add: f4(1) uN)
      then have lo: "list_of ?s out = list_of s a @ list_of s b" by (simp add: run_at_append ra3 rb)
      have us: "arena_used s \<subseteq> arena_used t" using 2(2) by (rule extends_used)
      have "list_ok ?s out"
        unfolding list_ok_def h4 f4(2,3)
        using c4(1) f4(1) uN kept_range_mono [OF us out] 2(4,5) ao aph by simp
      then show ?thesis using eq kp lo by blast
    qed
  qed
qed

subsection \<open>A concrete list\<close>

text \<open>An index at 128 and the list \<open>[7, 8]\<close> at 160, its header at 300 and its run at 400.\<close>

definition sample_list :: rt where
  "sample_list = sample_rt\<lparr>mem :=
     store_cv (store_cv (store_words4 (store_cv (store_cv (\<lambda>_. 0) 128 (cell_of CEL_INT 1))
       160 (cell_of CEL_LIST_ARENA 300)) 300 2 2 400 0) 400 (cell_of CEL_INT 7)) 424 (cell_of CEL_INT 8)\<rparr>"

lemma load32_store_words4_other:
  "a + 4 \<le> b \<or> b + 16 \<le> a \<Longrightarrow> load32 (store_words4 m b w x y z) a = load32 m a"
  by (rule cell32.load_frame [OF same_outside_words4]) auto

lemma load_cv_store_words4_other:
  "a + 24 \<le> b \<or> b + 16 \<le> a \<Longrightarrow> load_cv (store_words4 m b w x y z) a = load_cv m a"
  by (rule cv_cell.load_frame [OF same_outside_words4]) auto

lemma low_kept: "a + n \<le> 262144 \<Longrightarrow> kept_range s a n"
  by (auto simp: kept_range_def kept_def)

lemma sample_list_cells:
  "cv sample_list 128 = cell_of CEL_INT 1" "cv sample_list 160 = cell_of CEL_LIST_ARENA 300"
  by (simp_all add: sample_list_def cel_value_at_def mem_simps load_cv_store_words4_other)

lemma sample_list_fields:
  "list_hdr sample_list 160 = 300" "list_run sample_list 160 = 400" "list_room sample_list 160 = 2"
  "list_count (mem sample_list) 300 = 2"
proof -
  show h: "list_hdr sample_list 160 = 300"
    by (simp add: list_hdr_def sample_list_cells arena_list_header_def pl_defs lo32_def)
  have w: "load32 (mem sample_list) 300 = 2" "load32 (mem sample_list) 304 = 2" "load32 (mem sample_list) 308 = 400"
    using load_words4 [of _ 300 2 2 400 0] by (simp_all add: sample_list_def load32_store_cv_other)
  then show "list_run sample_list 160 = 400" "list_room sample_list 160 = 2" "list_count (mem sample_list) 300 = 2"
    by (simp_all add: list_run_def list_room_def h list_elements_def list_capacity_def list_count_def)
qed

lemma sample_list_ok: "arena_ok sample_list" "list_ok sample_list 160"
  "list_of sample_list 160 = [cell_of CEL_INT 7, cell_of CEL_INT 8]"
proof -
  show "arena_ok sample_list" by (simp add: sample_list_def sample_rt_ok)
  show "list_ok sample_list 160"
    unfolding list_ok_def sample_list_fields sample_list_cells
    by (simp add: low_kept apart_def cel_value_at_def)
  have "load_cv (mem sample_list) 400 = cell_of CEL_INT 7" "load_cv (mem sample_list) 424 = cell_of CEL_INT 8"
    by (simp_all add: sample_list_def mem_simps)
  then show "list_of sample_list 160 = [cell_of CEL_INT 7, cell_of CEL_INT 8]"
    by (simp add: list_of_def sample_list_fields run_at_def upt_rec)
qed

subsection \<open>Properties\<close>

text \<open>
  A list literal: creating a list with room for its elements and appending them in order never
  traps, and yields the list of the element values, or the first element that is an error or an
  unknown, or the overflow error when the arena cannot provide the run.
\<close>

theorem list_literal_correct:
  assumes ok: "arena_ok s" and l: "kept_range s (cel_value_at l) 24" and n: "length vs < 2 ^ 32"
    and vs: "\<And>v. v \<in> set vs \<Longrightarrow> kept_range s (cel_value_at v) 24 \<and> apart (cel_value_at v) 24 (cel_value_at l) 24"
  shows "\<exists>s1 s'. cel_list_create l (word_of_nat (length vs)) s = Some s1 \<and> append_all l vs s1 = Some s'
    \<and> (is_err (cv s' l) CEL_ERR_OVERFLOW \<and> run_oom 24 (word_of_nat (length vs)) s
       \<or> (case find poisoned (map (cv s) vs) of
            Some e \<Rightarrow> cv s' l = e
          | None \<Rightarrow> list_ok s' l \<and> list_of s' l = map (cv s) vs))"
proof -
  obtain s1 where s1: "cel_list_create l (word_of_nat (length vs)) s = Some s1" "keeps (cel_value_at l) s s1"
    "is_err (cv s1 l) CEL_ERR_OVERFLOW \<and> run_oom 24 (word_of_nat (length vs)) s
       \<or> list_ok s1 l \<and> list_of s1 l = [] \<and> list_room s1 l = unat (word_of_nat (length vs) :: u32)
         \<and> (\<forall>a k. kept_range s a k \<and> apart a k (cel_value_at l) 24 \<longrightarrow> list_apart s1 l a k)"
    using cel_list_create_correct [OF ok l] by blast
  have un: "unat (word_of_nat (length vs) :: u32) = length vs" using n by (simp add: unat_of_nat)
  have same: "map (cv s1) vs = map (cv s) vs" using keeps_loads(2) [OF s1(2)] vs by simp
  show ?thesis
  proof (cases "list_ok s1 l \<and> list_of s1 l = [] \<and> list_room s1 l = length vs
         \<and> (\<forall>a k. kept_range s a k \<and> apart a k (cel_value_at l) 24 \<longrightarrow> list_apart s1 l a k)")
    case True
    then have e: "list_of s1 l = []" and p: "list_ok s1 l" "length (list_of s1 l) + length vs \<le> list_room s1 l"
      "\<And>v. v \<in> set vs \<Longrightarrow> list_apart s1 l (cel_value_at v) 24"
      using vs by auto
    obtain s' where "append_all l vs s1 = Some s'" "case find poisoned (map (cv s1) vs) of
        Some e \<Rightarrow> cv s' l = e | None \<Rightarrow> list_ok s' l \<and> list_of s' l = map (cv s1) vs"
      using append_all_correct [OF p] unfolding e append_Nil by blast
    then show ?thesis using s1(1) unfolding same by (intro exI [of _ s1] exI [of _ s']) simp
  next
    case False
    then have "is_err (cv s1 l) CEL_ERR_OVERFLOW \<and> run_oom 24 (word_of_nat (length vs)) s" using s1(3) un by auto
    moreover have "append_all l vs s1 = Some s1" using calculation by (intro append_all_stuck) (simp add: is_defs)
    ultimately show ?thesis using s1(1) by blast
  qed
qed

theorem list_literal_correct_witness:
  "\<exists>s1 s'. cel_list_create 192 3 (two_cells (cell_of CEL_INT 1) (cell_of CEL_INT 2)) = Some s1
    \<and> append_all 192 [128, 160, 128] s1 = Some s'"
proof -
  have vs: "kept_range s (cel_value_at v) 24 \<and> apart (cel_value_at v) 24 (cel_value_at 192) 24"
    if "v \<in> set [128, 160, 128]" for v s using that by (auto simp: low_kept cel_value_at_def apart_def)
  have l: "kept_range s (cel_value_at 192) 24" for s by (simp add: low_kept cel_value_at_def)
  have n: "length [128, 160, 128 :: u32] < 2 ^ 32" "word_of_nat (length [128, 160, 128 :: u32]) = (3 :: u32)" by simp_all
  show ?thesis
    using list_literal_correct [OF two_cells_ok l n(1) vs, of "cell_of CEL_INT 1" "cell_of CEL_INT 2"] unfolding n(2) by blast
qed

text \<open>
  C10. Indexing a list: an index of any numeric kind whose value is a position of the list yields that
  element; every other index yields the error of its kind (not a number, a double that is no
  int64, or out of bounds). Only the out slot is written. The double \<open>2^63\<close>, whose cast is
  undefined, is excluded.
\<close>

theorem list_at_exact:
  assumes "cv_kind (cv s l) = CEL_LIST_ARENA" "\<not> poisoned (cv s idx)"
    and "cv_kind (cv s idx) \<noteq> CEL_DOUBLE \<or> d_val (pl_d (cv s idx)) \<noteq> 2 ^ 63 * int d_unit"
  shows "\<exists>s'. cel_list_at h ub out l idx s = Some s' \<and> only_cell (cel_value_at out) s s'
    \<and> (\<forall>j < length (list_of s l). num_ok (cv s idx) \<and> num_val (cv s idx) = int j * int d_unit
         \<longrightarrow> cv s' out = list_of s l ! j)
    \<and> ((\<nexists>j. j < length (list_of s l) \<and> num_ok (cv s idx) \<and> num_val (cv s idx) = int j * int d_unit)
         \<longrightarrow> is_err (cv s' out) (index_error (cv s idx)))"
  by (rule cel_list_at_correct [OF assms(1,2)]) (use assms(3) in blast)

theorem list_at_exact_witness:
  "\<exists>s'. cel_list_at weak_host 0 192 160 128 sample_list = Some s' \<and> cv s' 192 = cell_of CEL_INT 8"
proof -
  have "num_ok (cell_of CEL_INT 1)" "num_val (cell_of CEL_INT 1) = int 1 * int d_unit"
    by (simp_all add: num_ok_def num_val_def is_numeric_kind_def pl_defs)
  then show ?thesis
    using list_at_exact [of sample_list 160 128 weak_host 0 192]
    by (force simp: sample_list_cells sample_list_ok poisoned_def)
qed

text \<open>
  Concatenating two lists yields a fresh list of the elements of both, in order, in memory the
  allocator keeps, or the overflow error when the combined length does not fit 32 bits or the
  arena is exhausted; no live byte outside the out slot changes.
\<close>

theorem list_concat_appends:
  assumes "arena_ok s" "kept_range s (cel_value_at out) 24" "list_ok s a" "list_ok s b"
  shows "\<exists>s'. cel_list_concat h out a b s = Some s' \<and> keeps (cel_value_at out) s s'
    \<and> (list_ok s' out \<and> list_of s' out = list_of s a @ list_of s b
       \<or> is_err (cv s' out) CEL_ERR_OVERFLOW \<and> (2 ^ 32 \<le> length (list_of s a) + length (list_of s b)
           \<or> run_oom 24 (word_of_nat (length (list_of s a) + length (list_of s b))) s))"
  by (rule cel_list_concat_correct [OF assms])

theorem list_concat_appends_witness:
  "\<exists>s'. cel_list_concat weak_host 192 160 160 sample_list = Some s' \<and> keeps 192 sample_list s'"
  using list_concat_appends [OF sample_list_ok(1) _ sample_list_ok(2,2), of 192 weak_host]
  by (auto simp: low_kept cel_value_at_def)

end
