(* ===== verification/Maps.thy ===== *)
theory Maps
  imports Lists
begin

text \<open>
  Arena maps (\<open>runtime/cel_runtime.c\<close>, the map half): construction, the two insert paths (literals
  reject duplicates, comprehension accumulators overwrite), merging with growth, lookup, membership,
  size and iteration. A \<open>CEL_MAP_ARENA\<close> cell points at a header with a count, a capacity, the offset of
  a dense run of 48-byte entries (key cell, value cell) and the offset of an optional index.
\<close>

subsection \<open>Keys and entries\<close>

definition is_valid_map_key_kind :: "u32 \<Rightarrow> bool" where
  "is_valid_map_key_kind kind \<longleftrightarrow> kind = CEL_BOOL \<or> kind = CEL_INT \<or> kind = CEL_UINT \<or> kind = CEL_STRING"

definition arena_map_header :: "cel_value \<Rightarrow> nat" where
  "arena_map_header v = unat (pl_header_ptr v)"

definition arena_map_entry_key :: "memory \<Rightarrow> nat \<Rightarrow> u32 \<Rightarrow> nat" where
  "arena_map_entry_key m hdr i = unat (map_entries m hdr) + kCelMapEntryStride * unat i"

definition arena_map_entry_val :: "memory \<Rightarrow> nat \<Rightarrow> u32 \<Rightarrow> nat" where
  "arena_map_entry_val m hdr i = unat (map_entries m hdr) + kCelMapEntryStride * unat i + 24"

text \<open>The linear scan over the dense run, which the kernels repeat: the first entry with an equal key.\<close>

definition map_scan :: "memory \<Rightarrow> nat \<Rightarrow> cel_value \<Rightarrow> nat option" where
  "map_scan m hdr key =
     List.find (\<lambda>i. cel_map_key_eq m (load_cv m (arena_map_entry_key m hdr (word_of_nat i))) key)
       [0..<unat (map_count m hdr)]"

subsection \<open>Construction\<close>

definition cel_map_create :: "u32 \<Rightarrow> u32 \<Rightarrow> rt \<Rightarrow> rt option" where
  "cel_map_create out_slot initial_capacity s =
     (let out = cel_value_at out_slot in do {
        (offs, s) \<leftarrow> alloc_header_run 48 initial_capacity s;
        case offs of
          None \<Rightarrow> Some (poison out CEL_ERR_OVERFLOW s)
        | Some (hdr_off, entries_off) \<Rightarrow>
            Some (s\<lparr>mem := store32 (store32 (store_words4 (mem s) (unat hdr_off) 0 initial_capacity entries_off 0)
                               out CEL_MAP_ARENA) (out + 8) hdr_off\<rparr>)
      })"

text \<open>Writing the entry behind the last one and counting it.\<close>

definition put_entry :: "nat \<Rightarrow> nat \<Rightarrow> nat \<Rightarrow> rt \<Rightarrow> rt" where
  "put_entry hdr key val s =
     (let s = copy_cv (arena_map_entry_key (mem s) hdr (map_count (mem s) hdr)) key s;
          s = copy_cv (arena_map_entry_val (mem s) hdr (map_count (mem s) hdr)) val s
      in s\<lparr>mem := store32 (mem s) hdr (map_count (mem s) hdr + 1)\<rparr>)"

definition cel_map_insert :: "u32 \<Rightarrow> u32 \<Rightarrow> u32 \<Rightarrow> rt \<Rightarrow> rt option" where
  "cel_map_insert map_slot key_slot value_slot s =
     (let m = cel_value_at map_slot; key = cel_value_at key_slot; val = cel_value_at value_slot;
          kk = cv_kind (load_cv (mem s) key); vk = cv_kind (load_cv (mem s) val) in
      if cv_kind (load_cv (mem s) m) \<noteq> CEL_MAP_ARENA then Some s
      else if kk = CEL_ERROR \<or> kk = CEL_UNKNOWN then Some (copy_cv m key s)
      else if vk = CEL_ERROR \<or> vk = CEL_UNKNOWN then Some (copy_cv m val s)
      else if \<not> is_valid_map_key_kind kk then Some (poison m CEL_ERR_TYPE_MISMATCH s)
      else (let hdr = arena_map_header (load_cv (mem s) m) in
        case map_scan (mem s) hdr (load_cv (mem s) key) of
          Some i \<Rightarrow> Some (poison m CEL_ERR_DUPLICATE_KEY s)
        | None \<Rightarrow>
            if map_count (mem s) hdr \<ge> map_capacity (mem s) hdr then Some (poison m CEL_ERR_OVERFLOW s)
            else Some (put_entry hdr key val s)))"

subsection \<open>Growth\<close>

partial_function (option) grow_cap_loop :: "u64 \<Rightarrow> u64 \<Rightarrow> u64 option" where
  [code]: "grow_cap_loop new_cap want = (if new_cap < want then grow_cap_loop (new_cap * 2) want else Some new_cap)"

text \<open>The entry-wise copy into the new run; the header's fields are read afresh in every round.\<close>

function grow_copy :: "nat \<Rightarrow> u32 \<Rightarrow> nat \<Rightarrow> rt \<Rightarrow> rt" where
  "grow_copy hdr off i s =
     (if i < unat (map_count (mem s) hdr)
      then (let stride = (48 :: u32) * word_of_nat i; cell = (24 :: u32);
                s = copy_cv (cel_value_at (off + stride)) (cel_value_at (map_entries (mem s) hdr + stride)) s;
                s = copy_cv (cel_value_at (off + stride + cell)) (cel_value_at (map_entries (mem s) hdr + stride + cell)) s
            in grow_copy hdr off (i + 1) s)
      else s)"
  by pat_completeness auto
termination
  by (relation "measure (\<lambda>(hdr, off, i, s). 2 ^ 32 - i)") (auto dest: unat_u32_less)

declare grow_copy.simps [simp del]

definition arena_map_grow_one :: "nat \<Rightarrow> rt \<Rightarrow> (bool \<times> rt) option" where
  "arena_map_grow_one hdr s = do {
     let want = (ucast (map_count (mem s) hdr) + 1 :: u64);
     let cap = map_capacity (mem s) hdr;
     new_cap \<leftarrow> grow_cap_loop (if cap \<noteq> 0 then ucast cap * 2 else 4) want;
     if new_cap > ucast UINT32_MAX then Some (False, s)
     else do {
       let bytes = entries_bytes_checked 48 (ucast new_cap);
       if bytes = 0 then Some (False, s)
       else do {
         (off, s) \<leftarrow> arena_alloc bytes s;
         if off = 0 then Some (False, s)
         else do {
           let s = grow_copy hdr off 0 s;
           Some (True, s\<lparr>mem := store32 (store32 (store32 (mem s) (hdr + 8) off) (hdr + 4) (ucast new_cap)) (hdr + 12) 0\<rparr>)
         }
       }
     }
   }"

definition map_insert_at_kernel :: "nat \<Rightarrow> nat \<Rightarrow> nat \<Rightarrow> bool \<Rightarrow> rt \<Rightarrow> rt option" where
  "map_insert_at_kernel m key val allow_grow s =
     (let kk = cv_kind (load_cv (mem s) key); vk = cv_kind (load_cv (mem s) val) in
      if kk = CEL_ERROR \<or> kk = CEL_UNKNOWN then Some (copy_cv m key s)
      else if vk = CEL_ERROR \<or> vk = CEL_UNKNOWN then Some (copy_cv m val s)
      else if \<not> is_valid_map_key_kind kk then Some (poison m CEL_ERR_TYPE_MISMATCH s)
      else (let hdr = arena_map_header (load_cv (mem s) m) in
        case map_scan (mem s) hdr (load_cv (mem s) key) of
          Some i \<Rightarrow> Some (copy_cv (arena_map_entry_val (mem s) hdr (word_of_nat i)) val s)
        | None \<Rightarrow>
            if map_count (mem s) hdr \<ge> map_capacity (mem s) hdr then
              (if \<not> allow_grow then None
               else do {
                 (grown, s) \<leftarrow> arena_map_grow_one hdr s;
                 if \<not> grown then Some (poison m CEL_ERR_OVERFLOW s) else Some (put_entry hdr key val s)
               })
            else Some (put_entry hdr key val s)))"

definition cel_map_insert_at :: "u32 \<Rightarrow> u32 \<Rightarrow> u32 \<Rightarrow> rt \<Rightarrow> rt option" where
  "cel_map_insert_at map_slot key_slot value_slot s =
     (let m = cel_value_at map_slot in
      if cv_kind (load_cv (mem s) m) \<noteq> CEL_MAP_ARENA then Some s
      else map_insert_at_kernel m (cel_value_at key_slot) (cel_value_at value_slot) False s)"

definition cel_map_insert_at_if_bool :: "u32 \<Rightarrow> u32 \<Rightarrow> u32 \<Rightarrow> u32 \<Rightarrow> rt \<Rightarrow> rt option" where
  "cel_map_insert_at_if_bool map_slot pred_slot key_slot value_slot s =
     (let m = cel_value_at map_slot; p = cel_value_at pred_slot in
      if cv_kind (load_cv (mem s) m) \<noteq> CEL_MAP_ARENA then Some s
      else if cv_kind (load_cv (mem s) p) = CEL_ERROR \<or> cv_kind (load_cv (mem s) p) = CEL_UNKNOWN
        then Some (copy_cv m p s)
      else if cv_kind (load_cv (mem s) p) \<noteq> CEL_BOOL then Some (poison m CEL_ERR_TYPE_MISMATCH s)
      else if pl_b (load_cv (mem s) p) = 0 then Some s
      else cel_map_insert_at map_slot key_slot value_slot s)"

subsection \<open>Lookup, membership and size\<close>

definition cel_map_lookup_arena :: kernel2 where
  "cel_map_lookup_arena out_slot map_slot key_slot s =
     (let out = cel_value_at out_slot; key = cel_value_at key_slot; m = cel_value_at map_slot;
          kk = cv_kind (load_cv (mem s) key); mk = cv_kind (load_cv (mem s) m) in
      if kk = CEL_UNKNOWN \<or> kk = CEL_ERROR then Some (copy_cv out key s)
      else if mk = CEL_UNKNOWN \<or> mk = CEL_ERROR then Some (copy_cv out m s)
      else (let hdr = arena_map_header (load_cv (mem s) m) in
        if map_index (mem s) hdr \<noteq> 0 then do {
          idx \<leftarrow> cel_map_index_find (mem s) hdr (load_cv (mem s) key);
          if idx \<noteq> UINT32_MAX then Some (copy_cv out (arena_map_entry_val (mem s) hdr idx) s)
          else Some (poison out CEL_ERR_NO_SUCH_KEY s)
        }
        else (case map_scan (mem s) hdr (load_cv (mem s) key) of
            Some i \<Rightarrow> Some (copy_cv out (arena_map_entry_val (mem s) hdr (word_of_nat i)) s)
          | None \<Rightarrow> Some (poison out CEL_ERR_NO_SUCH_KEY s))))"

definition cel_map_lookup :: "cel_host \<Rightarrow> kernel2" where
  "cel_map_lookup h out_slot map_slot key_slot s =
     (let m = cel_value_at map_slot; k = cv_kind (load_cv (mem s) m) in
      if k = CEL_UNKNOWN \<or> k = CEL_ERROR then Some (copy_cv (cel_value_at out_slot) m s)
      else if k = CEL_MAP_ARENA then cel_map_lookup_arena out_slot map_slot key_slot s
      else if k = CEL_MAP_HOST then host_map_lookup h out_slot map_slot key_slot s
      else Some (poison (cel_value_at out_slot) CEL_ERR_TYPE_MISMATCH s))"

definition cel_map_size_arena :: "u32 \<Rightarrow> u32 \<Rightarrow> rt \<Rightarrow> rt option" where
  "cel_map_size_arena out_slot map_slot s =
     (let out = cel_value_at out_slot; m = cel_value_at map_slot;
          (wrote, s) = absorb_3vl_unary out m s
      in if wrote then Some s
         else if cv_kind (load_cv (mem s) m) \<noteq> CEL_MAP_ARENA then Some (poison out CEL_ERR_TYPE_MISMATCH s)
         else Some (write_int out (ucast (map_count (mem s) (arena_map_header (load_cv (mem s) m)))) s))"

definition cel_map_size :: "cel_host \<Rightarrow> u32 \<Rightarrow> u32 \<Rightarrow> rt \<Rightarrow> rt option" where
  "cel_map_size h out_slot map_slot s =
     (let m = cel_value_at map_slot; k = cv_kind (load_cv (mem s) m) in
      if k = CEL_UNKNOWN \<or> k = CEL_ERROR then Some (copy_cv (cel_value_at out_slot) m s)
      else if k = CEL_MAP_ARENA then cel_map_size_arena out_slot map_slot s
      else if k = CEL_MAP_HOST then host_map_size h out_slot map_slot s
      else Some (poison (cel_value_at out_slot) CEL_ERR_TYPE_MISMATCH s))"

definition cel_map_in_arena :: kernel2 where
  "cel_map_in_arena out_slot key_slot map_slot s =
     (let out = cel_value_at out_slot; k = cel_value_at key_slot; m = cel_value_at map_slot in do {
        (wrote, s) \<leftarrow> absorb_3vl_binary out k m s;
        if wrote then Some s
        else if cv_kind (load_cv (mem s) m) \<noteq> CEL_MAP_ARENA then Some (poison out CEL_ERR_TYPE_MISMATCH s)
        else do {
          let hdr = arena_map_header (load_cv (mem s) m);
          if map_index (mem s) hdr \<noteq> 0 then do {
            idx \<leftarrow> cel_map_index_find (mem s) hdr (load_cv (mem s) k);
            Some (write_bool out (idx \<noteq> UINT32_MAX) s)
          }
          else (case map_scan (mem s) hdr (load_cv (mem s) k) of
              Some i \<Rightarrow> Some (write_bool out True s)
            | None \<Rightarrow> Some (write_bool out False s))
        }
      })"

definition cel_map_in :: "cel_host \<Rightarrow> kernel2" where
  "cel_map_in h out_slot key_slot map_slot s =
     (let out = cel_value_at out_slot; k = cel_value_at key_slot; m = cel_value_at map_slot;
          kk = cv_kind (load_cv (mem s) k); mk = cv_kind (load_cv (mem s) m) in
      if kk = CEL_UNKNOWN \<or> kk = CEL_ERROR then Some (copy_cv out k s)
      else if mk = CEL_UNKNOWN \<or> mk = CEL_ERROR then Some (copy_cv out m s)
      else if mk = CEL_MAP_ARENA then cel_map_in_arena out_slot key_slot map_slot s
      else if mk = CEL_MAP_HOST then host_map_in h out_slot key_slot map_slot s
      else Some (poison out CEL_ERR_TYPE_MISMATCH s))"

subsection \<open>Iteration\<close>

text \<open>\<open>MapIterState\<close> fields by handle; handle 0 is the NULL iterator.\<close>

definition iter_kind :: "memory \<Rightarrow> nat \<Rightarrow> u32" where "iter_kind m st = load32 m st"
definition iter_cursor :: "memory \<Rightarrow> nat \<Rightarrow> u32" where "iter_cursor m st = load32 m (st + 4)"
definition iter_payload :: "memory \<Rightarrow> nat \<Rightarrow> u32" where "iter_payload m st = load32 m (st + 8)"
definition iter_count :: "memory \<Rightarrow> nat \<Rightarrow> u32" where "iter_count m st = load32 m (st + 12)"

definition map_iter_state :: "u32 \<Rightarrow> nat option" where
  "map_iter_state handle = (if handle = 0 then None else Some (unat handle))"

definition map_iter_count :: "memory \<Rightarrow> nat \<Rightarrow> u32" where
  "map_iter_count m st =
     (if iter_kind m st = MAP_ITER_KIND_ARENA then map_count m (unat (iter_payload m st)) else iter_count m st)"

definition cel_map_count :: "cel_host \<Rightarrow> u32 \<Rightarrow> rt \<Rightarrow> (u32 \<times> rt) option" where
  "cel_map_count h map_slot s =
     (let m = cel_value_at map_slot; k = cv_kind (load_cv (mem s) m) in
      if k = CEL_MAP_ARENA then Some (map_count (mem s) (arena_map_header (load_cv (mem s) m)), s)
      else if k = CEL_MAP_HOST then do {
        (tmp, s) \<leftarrow> arena_alloc 24 s;
        if tmp = 0 then Some (0, s)
        else do {
          s \<leftarrow> host_map_size h tmp map_slot s;
          let out = load_cv (mem s) (cel_value_at tmp);
          if cv_kind out \<noteq> CEL_INT \<or> sint (pl_i out) < 0 then Some (0, s) else Some (ucast (pl_i out), s)
        }
      }
      else Some (0, s))"

definition vend_poison_map_iter :: "(memory \<Rightarrow> cel_value) \<Rightarrow> rt \<Rightarrow> (u32 \<times> rt) option" where
  "vend_poison_map_iter read_poison s = do {
     (state_off, s) \<leftarrow> arena_alloc 64 s;
     state_off \<leftarrow> (if state_off = 0 then (if arena_oom_block s = 0 then None else Some (arena_oom_block s + 64)) else Some state_off);
     let entry_off = state_off + 16;
     let m1 = store_words4 (mem s) (unat state_off) MAP_ITER_KIND_HOST 0 entry_off 1;
     let m2 = store_cv m1 (unat entry_off) (read_poison m1);
     let m3 = store_cv m2 (unat (entry_off + 24)) (read_poison m2);
     Some (state_off, s\<lparr>mem := m3\<rparr>)
   }"

definition map_iter_init_arena :: "cel_value \<Rightarrow> nat \<Rightarrow> rt \<Rightarrow> (u32 \<times> rt) option" where
  "map_iter_init_arena junk m s =
     (let hdr = arena_map_header (load_cv (mem s) m) in
      if map_count (mem s) hdr = 0 then Some (0, s)
      else do {
        (state_off, s) \<leftarrow> arena_alloc 16 s;
        if state_off = 0 then vend_poison_map_iter (\<lambda>_. error_cell junk CEL_ERR_OVERFLOW) s
        else Some (state_off, s\<lparr>mem := store_words4 (mem s) (unat state_off) MAP_ITER_KIND_ARENA 0
                     (pl_header_ptr (load_cv (mem s) m)) 0\<rparr>)
      })"

definition map_iter_init_host :: "cel_host \<Rightarrow> cel_value \<Rightarrow> u32 \<Rightarrow> rt \<Rightarrow> (u32 \<times> rt) option" where
  "map_iter_init_host h junk map_slot s = do {
     (state_off, s) \<leftarrow> arena_alloc 16 s;
     if state_off = 0 then vend_poison_map_iter (\<lambda>_. error_cell junk CEL_ERR_OVERFLOW) s
     else do {
       s \<leftarrow> host_map_iter_open h state_off map_slot s;
       if iter_count (mem s) (unat state_off) = 0 then Some (0, s) else Some (state_off, s)
     }
   }"

definition cel_map_iter_init :: "cel_host \<Rightarrow> cel_value \<Rightarrow> u32 \<Rightarrow> rt \<Rightarrow> (u32 \<times> rt) option" where
  "cel_map_iter_init h junk map_slot s =
     (let m = cel_value_at map_slot; k = cv_kind (load_cv (mem s) m) in
      if k = CEL_MAP_ARENA then map_iter_init_arena junk m s
      else if k = CEL_MAP_HOST then map_iter_init_host h junk map_slot s
      else if k = CEL_ERROR \<or> k = CEL_UNKNOWN then vend_poison_map_iter (\<lambda>mm. load_cv mm m) s
      else vend_poison_map_iter (\<lambda>_. error_cell junk CEL_ERR_TYPE_MISMATCH) s)"

definition cel_map_iter_next :: "u32 \<Rightarrow> rt \<Rightarrow> bool \<times> rt" where
  "cel_map_iter_next iter_handle s =
     (case map_iter_state iter_handle of
        None \<Rightarrow> (False, s)
      | Some st \<Rightarrow>
          let count = map_iter_count (mem s) st in
          if iter_cursor (mem s) st \<ge> count then (False, s)
          else (True, s\<lparr>mem := store32 (mem s) (st + 4) (iter_cursor (mem s) st + 1)\<rparr>))"

definition copy_iter_entry :: "u32 \<Rightarrow> u32 \<Rightarrow> bool \<Rightarrow> rt \<Rightarrow> rt" where
  "copy_iter_entry out_slot iter_handle want_value s =
     (let out = cel_value_at out_slot in
      case map_iter_state iter_handle of
        None \<Rightarrow> poison out CEL_ERR_INDEX_OUT_OF_BOUNDS s
      | Some st \<Rightarrow>
          if iter_cursor (mem s) st = 0 then poison out CEL_ERR_INDEX_OUT_OF_BOUNDS s
          else (let i = iter_cursor (mem s) st - 1 in
            if iter_kind (mem s) st = MAP_ITER_KIND_ARENA then
              (let hdr = unat (iter_payload (mem s) st) in
               copy_cv out (if want_value then arena_map_entry_val (mem s) hdr i else arena_map_entry_key (mem s) hdr i) s)
            else (let entry_off = iter_payload (mem s) st + i * 48;
                      cell_off = (if want_value then entry_off + 24 else entry_off)
                  in copy_cv out (unat cell_off) s)))"

definition cel_map_iter_key_at :: "u32 \<Rightarrow> u32 \<Rightarrow> rt \<Rightarrow> rt" where
  "cel_map_iter_key_at out_slot iter_handle s = copy_iter_entry out_slot iter_handle False s"

definition cel_map_iter_value_at :: "u32 \<Rightarrow> u32 \<Rightarrow> rt \<Rightarrow> rt" where
  "cel_map_iter_value_at out_slot iter_handle s = copy_iter_entry out_slot iter_handle True s"

subsection \<open>Merging\<close>

text \<open>The loop over a source map's entries; the entry count is read once, before it.\<close>

function map_merge_arena_from :: "nat \<Rightarrow> nat \<Rightarrow> nat \<Rightarrow> nat \<Rightarrow> rt \<Rightarrow> rt option" where
  "map_merge_arena_from m src n i s =
     (if i < n then do {
        s \<leftarrow> map_insert_at_kernel m (arena_map_entry_key (mem s) src (word_of_nat i))
              (arena_map_entry_val (mem s) src (word_of_nat i)) True s;
        if cv_kind (load_cv (mem s) m) \<noteq> CEL_MAP_ARENA then Some s else map_merge_arena_from m src n (i + 1) s
      }
      else Some s)"
  by pat_completeness auto
termination by (relation "measure (\<lambda>(m, src, n, i, s). n - i)") auto

declare map_merge_arena_from.simps [simp del]

definition map_merge_arena_entries :: "nat \<Rightarrow> nat \<Rightarrow> rt \<Rightarrow> rt option" where
  "map_merge_arena_entries m entry s =
     (let src = arena_map_header (load_cv (mem s) entry) in
      map_merge_arena_from m src (unat (map_count (mem s) src)) 0 s)"

partial_function (option) map_merge_host_loop :: "nat \<Rightarrow> u32 \<Rightarrow> u32 \<Rightarrow> u32 \<Rightarrow> rt \<Rightarrow> rt option" where
  [code]: "map_merge_host_loop m handle key_off val_off s =
     (let (more, s) = cel_map_iter_next handle s in
      if more then do {
        let s = cel_map_iter_key_at key_off handle s;
        let s = cel_map_iter_value_at val_off handle s;
        s \<leftarrow> map_insert_at_kernel m (cel_value_at key_off) (cel_value_at val_off) True s;
        if cv_kind (load_cv (mem s) m) \<noteq> CEL_MAP_ARENA then Some s else map_merge_host_loop m handle key_off val_off s
      }
      else Some s)"

definition map_merge_host_entries :: "cel_host \<Rightarrow> cel_value \<Rightarrow> nat \<Rightarrow> u32 \<Rightarrow> rt \<Rightarrow> rt option" where
  "map_merge_host_entries h junk m entry_slot s = do {
     (handle, s) \<leftarrow> cel_map_iter_init h junk entry_slot s;
     if handle = 0 then Some s
     else do {
       (scratch, s) \<leftarrow> arena_alloc 48 s;
       if scratch = 0 then Some (poison m CEL_ERR_OVERFLOW s)
       else map_merge_host_loop m handle scratch (scratch + 24) s
     }
   }"

definition cel_map_merge_at :: "cel_host \<Rightarrow> cel_value \<Rightarrow> u32 \<Rightarrow> u32 \<Rightarrow> rt \<Rightarrow> rt option" where
  "cel_map_merge_at h junk map_slot entry_slot s =
     (let m = cel_value_at map_slot; entry = cel_value_at entry_slot; ek = cv_kind (load_cv (mem s) entry) in
      if cv_kind (load_cv (mem s) m) \<noteq> CEL_MAP_ARENA then Some s
      else if ek = CEL_ERROR \<or> ek = CEL_UNKNOWN then Some (copy_cv m entry s)
      else if ek = CEL_MAP_ARENA then map_merge_arena_entries m entry s
      else if ek = CEL_MAP_HOST then map_merge_host_entries h junk m entry_slot s
      else Some (poison m CEL_ERR_TYPE_MISMATCH s))"

definition cel_map_merge_at_if_bool :: "cel_host \<Rightarrow> cel_value \<Rightarrow> u32 \<Rightarrow> u32 \<Rightarrow> u32 \<Rightarrow> rt \<Rightarrow> rt option" where
  "cel_map_merge_at_if_bool h junk map_slot pred_slot entry_slot s =
     (let m = cel_value_at map_slot; p = cel_value_at pred_slot in
      if cv_kind (load_cv (mem s) m) \<noteq> CEL_MAP_ARENA then Some s
      else if cv_kind (load_cv (mem s) p) = CEL_ERROR \<or> cv_kind (load_cv (mem s) p) = CEL_UNKNOWN
        then Some (copy_cv m p s)
      else if cv_kind (load_cv (mem s) p) \<noteq> CEL_BOOL then Some (poison m CEL_ERR_TYPE_MISMATCH s)
      else if pl_b (load_cv (mem s) p) = 0 then Some s
      else cel_map_merge_at h junk map_slot entry_slot s)"

end
