(* ===== verification/MapLaws.thy ===== *)
theory MapLaws
  imports Maps "HOL-Library.AList"
begin

text \<open>
  Laws of arena maps. A well-formed map stands for the association list of its key values and value
  cells in entry order; the kernels refine the library's association lists: insertion for
  comprehensions is \<open>AList.update\<close>, lookup is \<open>map_of\<close>, merging is a fold of updates.
\<close>

subsection \<open>The abstract value of a run of entries\<close>

definition entries_at :: "memory \<Rightarrow> nat \<Rightarrow> nat \<Rightarrow> (scalar \<times> cel_value) list" where
  "entries_at m r n = map (\<lambda>i. (the (scalar_of m (load_cv m (r + 48 * i))), load_cv m (r + 48 * i + 24))) [0..<n]"

lemma length_entries_at [simp]: "length (entries_at m r n) = n"
  by (simp add: entries_at_def)

lemma entries_at_nth:
  "i < n \<Longrightarrow> entries_at m r n ! i = (the (scalar_of m (load_cv m (r + 48 * i))), load_cv m (r + 48 * i + 24))"
  by (simp add: entries_at_def)

lemma entries_at_Suc:
  "entries_at m r (Suc n) = entries_at m r n @ [(the (scalar_of m (load_cv m (r + 48 * n))), load_cv m (r + 48 * n + 24))]"
  by (simp add: entries_at_def)

lemma entries_at_agree:
  assumes "\<And>i. i < n \<Longrightarrow> agree m m' (r + 48 * i) 48"
    and "\<And>i. i < n \<Longrightarrow> scalar_ranges (agree m m') (load_cv m (r + 48 * i))"
  shows "entries_at m' r n = entries_at m r n"
proof (rule nth_equalityI)
  fix i assume "i < length (entries_at m' r n)"
  then have i: "i < n" by simp
  have "load_cv m' (r + 48 * i) = load_cv m (r + 48 * i)" "load_cv m' (r + 48 * i + 24) = load_cv m (r + 48 * i + 24)"
    using assms(1) [OF i] by (auto intro!: load_cv_local simp: add.assoc)
  then show "entries_at m' r n ! i = entries_at m r n ! i"
    using scalar_of_agree [OF assms(2) [OF i]] i by (simp add: entries_at_nth)
qed simp

text \<open>The scan finds the first entry with the key.\<close>

lemma entry_address:
  assumes "i < 2 ^ 32"
  shows "arena_map_entry_key m hdr (word_of_nat i) = unat (map_entries m hdr) + 48 * i"
    and "arena_map_entry_val m hdr (word_of_nat i) = unat (map_entries m hdr) + 48 * i + 24"
    and "index_map_entry_key m hdr (word_of_nat i) = unat (map_entries m hdr) + 48 * i"
  using assms by (simp_all add: arena_map_entry_key_def arena_map_entry_val_def index_map_entry_key_def unat_of_nat)

lemma map_scan_cases:
  obtains (found) i where "map_scan m hdr key = Some i" "i < unat (map_count m hdr)"
      "cel_map_key_eq m (load_cv m (unat (map_entries m hdr) + 48 * i)) key"
      "\<And>j. j < i \<Longrightarrow> \<not> cel_map_key_eq m (load_cv m (unat (map_entries m hdr) + 48 * j)) key"
  | (absent) "map_scan m hdr key = None"
      "\<And>i. i < unat (map_count m hdr) \<Longrightarrow> \<not> cel_map_key_eq m (load_cv m (unat (map_entries m hdr) + 48 * i)) key"
proof (cases "map_scan m hdr key")
  case None
  have a: "arena_map_entry_key m hdr (word_of_nat i) = unat (map_entries m hdr) + 48 * i" if "i < unat (map_count m hdr)" for i
    using that unat_u32_lt [of "map_count m hdr"] by (intro entry_address) simp
  have "\<not> cel_map_key_eq m (load_cv m (unat (map_entries m hdr) + 48 * i)) key" if "i < unat (map_count m hdr)" for i
    using None that a [OF that] by (auto simp: map_scan_def find_None_iff)
  then show thesis using None by (rule absent [rotated])
next
  case (Some i)
  let ?P = "\<lambda>i. cel_map_key_eq m (load_cv m (arena_map_entry_key m hdr (word_of_nat i))) key"
  obtain p where p: "p < unat (map_count m hdr)" "i = p" "?P p" "\<And>j. j < p \<Longrightarrow> \<not> ?P j"
    using Some by (auto simp: map_scan_def find_Some_iff)
  have a: "arena_map_entry_key m hdr (word_of_nat j) = unat (map_entries m hdr) + 48 * j" if "j \<le> p" for j
    using that p(1) unat_u32_lt [of "map_count m hdr"] by (intro entry_address) simp
  show thesis using p a Some by (intro found [of i]) auto
qed

subsection \<open>Well-formed maps\<close>

definition map_hdr :: "rt \<Rightarrow> u32 \<Rightarrow> nat" where "map_hdr s slot = arena_map_header (cv s slot)"
definition map_run :: "rt \<Rightarrow> u32 \<Rightarrow> nat" where "map_run s slot = unat (map_entries (mem s) (map_hdr s slot))"
definition map_room :: "rt \<Rightarrow> u32 \<Rightarrow> nat" where "map_room s slot = unat (map_capacity (mem s) (map_hdr s slot))"
definition map_len :: "rt \<Rightarrow> u32 \<Rightarrow> nat" where "map_len s slot = unat (map_count (mem s) (map_hdr s slot))"

definition map_alist :: "rt \<Rightarrow> u32 \<Rightarrow> (scalar \<times> cel_value) list" where
  "map_alist s slot = entries_at (mem s) (map_run s slot) (map_len s slot)"

definition map_apart :: "rt \<Rightarrow> u32 \<Rightarrow> nat \<Rightarrow> nat \<Rightarrow> bool" where
  "map_apart s slot a n \<longleftrightarrow> apart a n (cel_value_at slot) 24 \<and> apart a n (map_hdr s slot) 16
     \<and> apart a n (map_run s slot) (48 * map_room s slot)"

text \<open>A key cell: of a key kind, and a string's bytes are kept and apart from the map itself.\<close>

definition key_ok :: "rt \<Rightarrow> u32 \<Rightarrow> cel_value \<Rightarrow> bool" where
  "key_ok s slot v \<longleftrightarrow> is_valid_map_key_kind (cv_kind v)
     \<and> scalar_ranges (\<lambda>a n. kept_range s a n \<and> map_apart s slot a n) v"

definition map_ok :: "rt \<Rightarrow> u32 \<Rightarrow> bool" where
  "map_ok s slot \<longleftrightarrow> cv_kind (cv s slot) = CEL_MAP_ARENA
     \<and> map_len s slot \<le> map_room s slot
     \<and> kept_range s (cel_value_at slot) 24 \<and> kept_range s (map_hdr s slot) 16
     \<and> kept_range s (map_run s slot) (48 * map_room s slot)
     \<and> apart (map_hdr s slot) 16 (cel_value_at slot) 24
     \<and> apart (map_run s slot) (48 * map_room s slot) (cel_value_at slot) 24
     \<and> apart (map_hdr s slot) 16 (map_run s slot) (48 * map_room s slot)
     \<and> (\<forall>i < map_len s slot. key_ok s slot (load_cv (mem s) (map_run s slot + 48 * i)))
     \<and> distinct (map fst (map_alist s slot))"

lemma length_map_alist [simp]: "length (map_alist s slot) = map_len s slot"
  by (simp add: map_alist_def)

lemma key_scalar: "is_valid_map_key_kind (cv_kind v) \<Longrightarrow> \<exists>k. scalar_of m v = Some k"
  by (auto simp: is_valid_map_key_kind_def scalar_of_def is_numeric_kind_def num_ok_def Let_def)

lemma scalar_ranges_mono: "scalar_ranges P v \<Longrightarrow> (\<And>a n. P a n \<Longrightarrow> Q a n) \<Longrightarrow> scalar_ranges Q v"
  by (auto simp: scalar_ranges_def)

text \<open>Looking a key value up in the association list is what the scan does.\<close>

lemma map_scan_alist:
  assumes ok: "map_ok s slot" and k: "scalar_of (mem s) key = Some k"
  obtains (found) i where "map_scan (mem s) (map_hdr s slot) key = Some i" "i < map_len s slot"
      "fst (map_alist s slot ! i) = k" "map_of (map_alist s slot) k = Some (snd (map_alist s slot ! i))"
  | (absent) "map_scan (mem s) (map_hdr s slot) key = None" "map_of (map_alist s slot) k = None"
      "k \<notin> set (map fst (map_alist s slot))"
proof -
  have eq: "cel_map_key_eq (mem s) (load_cv (mem s) (map_run s slot + 48 * i)) key \<longleftrightarrow> fst (map_alist s slot ! i) = k"
    if "i < map_len s slot" for i
  proof -
    have "key_ok s slot (load_cv (mem s) (map_run s slot + 48 * i))" using ok that unfolding map_ok_def by blast
    then obtain k' where "scalar_of (mem s) (load_cv (mem s) (map_run s slot + 48 * i)) = Some k'"
      using key_scalar unfolding key_ok_def by blast
    then show ?thesis using that k by (auto simp: cel_map_key_eq_iff map_alist_def entries_at_nth)
  qed
  have dist: "distinct (map fst (map_alist s slot))" using ok by (simp add: map_ok_def)
  show thesis
  proof (cases rule: map_scan_cases [of "mem s" "map_hdr s slot" key, folded map_run_def map_len_def])
    case (1 i)
    have f: "fst (map_alist s slot ! i) = k" using eq [OF 1(2)] 1(3) by simp
    have "(k, snd (map_alist s slot ! i)) \<in> set (map_alist s slot)"
      using f nth_mem [of i "map_alist s slot"] 1(2) by (metis length_map_alist prod.collapse)
    then have "map_of (map_alist s slot) k = Some (snd (map_alist s slot ! i))" using dist by simp
    then show thesis using 1 f by (intro found [of i]) simp_all
  next
    case 2
    have "k \<notin> set (map fst (map_alist s slot))"
      using 2(2) eq by (auto simp: in_set_conv_nth) (metis fst_conv)
    moreover from this have "map_of (map_alist s slot) k = None" by (simp add: map_of_eq_None_iff)
    ultimately show thesis using 2(1) by (intro absent)
  qed
qed

text \<open>What a step of one map leaves alone: kept ranges apart from it.\<close>

definition map_frame :: "rt \<Rightarrow> rt \<Rightarrow> u32 \<Rightarrow> bool" where
  "map_frame s s' slot \<longleftrightarrow> arena_ok s' \<and> arena_used s \<subseteq> arena_used s'
     \<and> (\<forall>a n. kept_range s a n \<and> map_apart s slot a n \<longrightarrow> agree (mem s) (mem s') a n \<and> map_apart s' slot a n)"

lemma map_frame_refl: "arena_ok s \<Longrightarrow> map_frame s s slot"
  by (simp add: map_frame_def)

lemma map_frame_trans: "map_frame s s1 slot \<Longrightarrow> map_frame s1 s2 slot \<Longrightarrow> map_frame s s2 slot"
  unfolding map_frame_def by (metis kept_range_mono subset_trans)

text \<open>The key invariant of one entry survives a framed step that keeps the cell.\<close>

lemma key_ok_frame:
  assumes "key_ok s slot v" "map_frame s s' slot"
  shows "key_ok s' slot v" "scalar_of (mem s') v = scalar_of (mem s) v"
proof -
  have r: "scalar_ranges (\<lambda>a n. kept_range s a n \<and> map_apart s slot a n) v" using assms(1) by (simp add: key_ok_def)
  have "scalar_ranges (agree (mem s) (mem s')) v"
    by (rule scalar_ranges_mono [OF r]) (use assms(2) in \<open>auto simp: map_frame_def\<close>)
  then show "scalar_of (mem s') v = scalar_of (mem s) v" by (rule scalar_of_agree)
  have "scalar_ranges (\<lambda>a n. kept_range s' a n \<and> map_apart s' slot a n) v"
    by (rule scalar_ranges_mono [OF r]) (use assms(2) in \<open>auto simp: map_frame_def elim: kept_range_mono\<close>)
  then show "key_ok s' slot v" using assms(1) by (simp add: key_ok_def)
qed

lemma AList_update_absent: "k \<notin> set (map fst al) \<Longrightarrow> AList.update k v al = al @ [(k, v)]"
  by (induction al) auto

lemma AList_update_nth:
  "distinct (map fst al) \<Longrightarrow> i < length al \<Longrightarrow> fst (al ! i) = k \<Longrightarrow> AList.update k v al = al[i := (k, v)]"
proof (induction al arbitrary: i)
  case (Cons p al)
  show ?case
  proof (cases i)
    case 0
    then show ?thesis using Cons.prems by (cases p) simp
  next
    case (Suc j)
    then have "k \<in> fst ` set al" using Cons.prems by (auto intro!: image_eqI [where x = "al ! j"])
    then have "fst p \<noteq> k" using Cons.prems(1) by auto
    then show ?thesis using Cons.IH [of j] Cons.prems Suc by (cases p) simp
  qed
qed simp

subsection \<open>One entry written\<close>

text \<open>Reading the header words after stores elsewhere.\<close>

lemma map_words:
  assumes "\<And>i. i < 24 \<Longrightarrow> mem s' (cel_value_at slot + i) = mem s (cel_value_at slot + i)"
    and "agree (mem s) (mem s') (map_hdr s slot + 4) 8"
  shows "cv s' slot = cv s slot" "map_hdr s' slot = map_hdr s slot" "map_run s' slot = map_run s slot"
    "map_room s' slot = map_room s slot"
proof -
  show c: "cv s' slot = cv s slot" by (rule load_cv_local) (rule assms(1))
  then show h: "map_hdr s' slot = map_hdr s slot" by (simp add: map_hdr_def)
  have e: "load32 (mem s') (map_hdr s slot + 8) = load32 (mem s) (map_hdr s slot + 8)"
    and k: "load32 (mem s') (map_hdr s slot + 4) = load32 (mem s) (map_hdr s slot + 4)"
    using agree_loads(3) [OF assms(2), of 4] agree_loads(3) [OF assms(2), of 0] by (simp_all add: add.assoc)
  show "map_run s' slot = map_run s slot" "map_room s' slot = map_room s slot"
    using e k by (simp_all add: map_run_def map_room_def h map_entries_def map_capacity_def)
qed

text \<open>
  A step that writes cells inside the run, leaving every entry but the \<open>n\<close>-th as it was, possibly
  changing the count, is framed.
\<close>

lemma map_apart_same:
  assumes "map_hdr s' slot = map_hdr s slot" "map_run s' slot = map_run s slot" "map_room s' slot = map_room s slot"
  shows "map_apart s' slot = map_apart s slot"
  using assms by (simp add: map_apart_def fun_eq_iff)

lemma put_entry_correct:
  assumes ok: "arena_ok s" "map_ok s l" and room: "map_len s l < map_room s l"
    and key: "key_ok s l (load_cv (mem s) kp)" "scalar_of (mem s) (load_cv (mem s) kp) = Some k"
    and new: "k \<notin> set (map fst (map_alist s l))"
    and vp: "map_apart s l vp 24" and hdr: "hdr = map_hdr s l"
  shows "map_ok (put_entry hdr kp vp s) l"
    and "map_alist (put_entry hdr kp vp s) l = map_alist s l @ [(k, load_cv (mem s) vp)]"
    and "map_frame s (put_entry hdr kp vp s) l"
    and "map_room (put_entry hdr kp vp s) l = map_room s l"
proof -
  let ?h = "map_hdr s l" and ?r = "map_run s l" and ?n = "map_len s l" and ?N = "48 * map_room s l"
  let ?e = "?r + 48 * ?n" and ?c = "cel_value_at l"
  define m1 where "m1 = store_cv (mem s) ?e (load_cv (mem s) kp)"
  define m2 where "m2 = store_cv m1 (?e + 24) (load_cv m1 vp)"
  define m3 where "m3 = store32 m2 ?h (map_count m2 ?h + 1)"
  let ?s = "put_entry hdr kp vp s"
  have ap: "apart ?h 16 ?c 24" "apart ?r ?N ?c 24" "apart ?h 16 ?r ?N" using ok(2) by (simp_all add: map_ok_def)
  have eN: "?r \<le> ?e" "?e + 48 \<le> ?r + ?N" using room by auto
  have so1: "same_outside ?e 24 (mem s) m1" unfolding m1_def by (rule same_outside_store_cv)
  have so2: "same_outside (?e + 24) 24 m1 m2" unfolding m2_def by (rule same_outside_store_cv)
  have so3: "same_outside ?h 4 m2 m3" unfolding m3_def by (rule same_outside_store32) simp_all
  have so12: "same_outside ?e 48 (mem s) m2"
    by (rule same_outside_trans [OF same_outside_mono [OF so1] same_outside_mono [OF so2]]) simp_all
  have aph: "apart ?h 16 ?e 48" by (rule apart_sub [OF ap(3)]) (use eN in simp_all)
  have w1: "load32 m1 (?h + d) = load32 (mem s) (?h + d)" "load32 m2 (?h + d) = load32 (mem s) (?h + d)" if "d \<le> 12" for d
    using that load32_apart [OF so1 apart_sub [OF aph], of ?h 16 "?h + d"] load32_apart [OF so12 aph, of "?h + d"] by simp_all
  have cnt: "map_count m1 ?h = map_count (mem s) ?h" "map_count m2 ?h = map_count (mem s) ?h"
    "map_entries m1 ?h = map_entries (mem s) ?h"
    using w1 [of 0] w1 [of 8] by (simp_all add: map_count_def map_entries_def)
  have nw: "word_of_nat ?n = map_count (mem s) ?h" by (simp add: map_len_def)
  have n32: "?n < 2 ^ 32" using unat_u32_lt [of "map_count (mem s) ?h"] by (simp add: map_len_def)
  have adr: "arena_map_entry_key (mem s) ?h (map_count (mem s) ?h) = ?e"
    "arena_map_entry_val m1 ?h (map_count m1 ?h) = ?e + 24"
    using entry_address(1,2) [OF n32, of _ ?h] by (simp_all add: nw cnt map_run_def)
  have ms: "mem ?s = m3" and ss: "?s = s\<lparr>mem := m3\<rparr>"
    by (simp_all add: hdr put_entry_def copy_cv_def Let_def adr(1) m1_def [symmetric] adr(2) m2_def [symmetric] m3_def)
  have same: "agree (mem s) m3 a k" if "apart a k ?e 48" "apart a k ?h 4" for a k
    using same_outside_agree [OF so12 that(1)] same_outside_agree [OF so3 that(2)] by simp
  have cell: "agree (mem s) m3 ?c 24"
    by (rule same) (use ap eN in \<open>auto simp: apart_def\<close>)
  have h4: "agree (mem s) m3 (?h + 4) 8"
    by (rule same) (use aph in \<open>auto simp: apart_def\<close>)
  note words = map_words [of ?s l s, unfolded ms, OF _ h4]
  have wd: "cv ?s l = cv s l" "map_hdr ?s l = ?h" "map_run ?s l = ?r" "map_room ?s l = map_room s l"
    using words cell by (simp_all add: ms)
  then show "map_room ?s l = map_room s l" by simp
  have ct: "map_count m3 ?h = map_count (mem s) ?h + 1"
    unfolding m3_def cnt by (simp add: map_count_def mem_simps)
  have ln: "map_len ?s l = Suc ?n"
    using room unat_succ_u32 [of "map_count (mem s) ?h" "map_capacity (mem s) ?h"]
    by (simp add: map_len_def wd(2) ms ct map_room_def)
  have ma: "map_apart ?s l = map_apart s l" by (rule map_apart_same [OF wd(2-4)])
  have okS: "arena_ok ?s" "arena_used ?s = arena_used s" using ok(1) by (simp_all add: ss)
  have fr: "agree (mem s) m3 a k" if "map_apart s l a k" for a k
  proof (rule same)
    have a: "apart a k ?r ?N" "apart a k ?h 16" using that by (simp_all add: map_apart_def)
    show "apart a k ?e 48" by (rule apart_sub [OF a(1)]) (use eN in simp_all)
    show "apart a k ?h 4" by (rule apart_sub [OF a(2)]) simp_all
  qed
  then show frame: "map_frame s ?s l" using okS unfolding map_frame_def ms ma by blast
  have keycell: "load_cv m3 ?e = load_cv (mem s) kp"
  proof -
    have "load_cv m3 ?e = load_cv m2 ?e" by (rule load_cv_apart [OF so3]) (use aph in \<open>auto simp: apart_def\<close>)
    also have "\<dots> = load_cv m1 ?e" by (rule load_cv_apart [OF so2]) (simp add: apart_def)
    finally show ?thesis by (simp add: m1_def mem_simps)
  qed
  have valcell: "load_cv m3 (?e + 24) = load_cv (mem s) vp"
  proof -
    have "load_cv m3 (?e + 24) = load_cv m2 (?e + 24)" by (rule load_cv_apart [OF so3]) (use aph in \<open>auto simp: apart_def\<close>)
    also have "\<dots> = load_cv m1 vp" by (simp add: m2_def mem_simps)
    also have "\<dots> = load_cv (mem s) vp"
      by (rule load_cv_apart [OF so1], rule apart_sub [of vp 24 ?r ?N]) (use vp eN in \<open>simp_all add: map_apart_def\<close>)
    finally show ?thesis .
  qed
  have old: "agree (mem s) m3 (?r + 48 * i) 48" if "i < ?n" for i
    by (rule same) (use that ap(3) room in \<open>auto simp: apart_def\<close>)
  have kold: "key_ok s l (load_cv (mem s) (?r + 48 * i))" if "i < ?n" for i using ok(2) that by (simp add: map_ok_def)
  have kr: "scalar_ranges (agree (mem s) m3) v" if "key_ok s l v" for v
    using that fr by (auto simp: key_ok_def elim: scalar_ranges_mono)
  have al0: "entries_at m3 ?r ?n = entries_at (mem s) ?r ?n" by (rule entries_at_agree [OF old kr [OF kold]])
  show al: "map_alist ?s l = map_alist s l @ [(k, load_cv (mem s) vp)]"
    using scalar_of_agree [OF kr [OF key(1)]] key(2)
    by (simp add: map_alist_def wd(3) ln ms entries_at_Suc al0 keycell valcell)
  have kn: "key_ok ?s l (load_cv m3 (?r + 48 * i))" if "i < Suc ?n" for i
  proof (cases "i < ?n")
    case True
    then have "load_cv m3 (?r + 48 * i) = load_cv (mem s) (?r + 48 * i)" using old [OF True] by (intro agree_loads) auto
    then show ?thesis using key_ok_frame(1) [OF kold [OF True] frame] by simp
  next
    case False
    then have "i = ?n" using that by simp
    then show ?thesis using key_ok_frame(1) [OF key(1) frame] by (simp add: keycell)
  qed
  show "map_ok ?s l"
    using ok(2) room new kn okS(2) kept_range_mono [of s ?s]
    unfolding map_ok_def wd ln al by (simp add: ms)
qed

lemma overwrite_correct:
  assumes ok: "arena_ok s" "map_ok s l" and i: "i < map_len s l"
    and t: "t = copy_cv (map_run s l + 48 * i + 24) vp s"
  shows "map_ok t l" and "map_alist t l = (map_alist s l)[i := (fst (map_alist s l ! i), load_cv (mem s) vp)]"
    and "map_frame s t l" and "map_room t l = map_room s l"
proof -
  let ?h = "map_hdr s l" and ?r = "map_run s l" and ?n = "map_len s l" and ?N = "48 * map_room s l"
  let ?e = "?r + 48 * i + 24" and ?c = "cel_value_at l"
  have ap: "apart ?h 16 ?c 24" "apart ?r ?N ?c 24" "apart ?h 16 ?r ?N" using ok(2) by (simp_all add: map_ok_def)
  have le: "?n \<le> map_room s l" using ok(2) by (simp add: map_ok_def)
  have so: "same_outside ?e 24 (mem s) (mem t)" unfolding t copy_cv_def by (simp add: same_outside_store_cv)
  have ts: "arena_ok t" "arena_used t = arena_used s" using ok(1) by (simp_all add: t copy_cv_def)
  have e: "apart a k ?e 24" if "apart a k ?r ?N" for a k by (rule apart_sub [OF that]) (use i le in simp_all)
  have same: "agree (mem s) (mem t) a k" if "apart a k ?e 24" for a k by (rule same_outside_agree [OF so that])
  have cell: "agree (mem s) (mem t) ?c 24" by (rule same, rule e) (use ap(2) in \<open>simp add: apart_sym\<close>)
  have h16: "agree (mem s) (mem t) ?h 16" by (rule same, rule e, rule ap(3))
  have h4: "agree (mem s) (mem t) (?h + 4) 8" using h16 by (auto simp: add.assoc)
  have wd: "cv t l = cv s l" "map_hdr t l = ?h" "map_run t l = ?r" "map_room t l = map_room s l"
    using map_words [of t l s] cell h4 by simp_all
  then show "map_room t l = map_room s l" by simp
  have ln: "map_len t l = ?n" using agree_loads(3) [OF h16, of 0] by (simp add: map_len_def wd(2) map_count_def)
  have ma: "map_apart t l = map_apart s l" by (rule map_apart_same [OF wd(2-4)])
  have fr: "agree (mem s) (mem t) a k" if "map_apart s l a k" for a k
    using that by (intro same e) (simp add: map_apart_def)
  then show frame: "map_frame s t l" using ts unfolding map_frame_def ma by blast
  have kcell: "load_cv (mem t) (?r + 48 * j) = load_cv (mem s) (?r + 48 * j)" for j
    by (rule agree_loads(1), rule same) (auto simp: apart_def)
  have vcell: "load_cv (mem t) (?r + 48 * j + 24) = (if j = i then load_cv (mem s) vp else load_cv (mem s) (?r + 48 * j + 24))" for j
  proof (cases "j = i")
    case True
    then show ?thesis by (simp add: t copy_cv_def mem_simps)
  next
    case False
    then have "load_cv (mem t) (?r + 48 * j + 24) = load_cv (mem s) (?r + 48 * j + 24)"
      by (intro agree_loads(1) same) (auto simp: apart_def)
    then show ?thesis using False by simp
  qed
  have kold: "key_ok s l (load_cv (mem s) (?r + 48 * j))" if "j < ?n" for j using ok(2) that by (simp add: map_ok_def)
  have sc: "scalar_of (mem t) (load_cv (mem s) (?r + 48 * j)) = scalar_of (mem s) (load_cv (mem s) (?r + 48 * j))" if "j < ?n" for j
    by (rule key_ok_frame(2) [OF kold [OF that] frame])
  show al: "map_alist t l = (map_alist s l)[i := (fst (map_alist s l ! i), load_cv (mem s) vp)]"
  proof (rule nth_equalityI)
    show "length (map_alist t l) = length ((map_alist s l)[i := (fst (map_alist s l ! i), load_cv (mem s) vp)])" by (simp add: ln)
    fix j assume "j < length (map_alist t l)"
    then have j: "j < ?n" by (simp add: ln)
    then show "map_alist t l ! j = (map_alist s l)[i := (fst (map_alist s l ! i), load_cv (mem s) vp)] ! j"
      using sc [OF j] i by (simp add: nth_list_update map_alist_def wd(3) ln entries_at_nth kcell vcell)
  qed
  have fsts: "map fst (map_alist t l) = map fst (map_alist s l)"
    unfolding al map_update using i by (simp add: list_update_same_conv)
  have "key_ok t l (load_cv (mem t) (?r + 48 * j))" if "j < ?n" for j
    using key_ok_frame(1) [OF kold [OF that] frame] by (simp add: kcell)
  then show "map_ok t l"
    using ok(2) ts(2) kept_range_mono [of s t] unfolding map_ok_def wd ln fsts by simp
qed

end
