(* ===== verification/MapOps.thy ===== *)
theory MapOps
  imports MapLaws
begin

text \<open>
  Growth of an arena map, the comprehension insert, merging, lookup and iteration, against the
  association list of the map.
\<close>

subsection \<open>Growth\<close>

lemma kept_bound: "arena_ok s \<Longrightarrow> kept s x \<Longrightarrow> x < 2 ^ 32"
proof -
  assume ok: "arena_ok s" and k: "kept s x"
  show "x < 2 ^ 32"
  proof (cases "x \<in> arena_used s")
    case True
    then obtain c where c: "c \<in> set (chunks s)" "x \<in> chunk_used c" by (auto simp: arena_used_def)
    then have "chunk_ok c" using ok by (auto simp: arena_ok_def arena_inv_def list_all_iff)
    then show ?thesis using c(2) by (auto simp: chunk_ok_def chunk_used_def block_def word_le_nat_alt)
  next
    case False
    then show ?thesis using k by (simp add: kept_def)
  qed
qed

lemma kept_range_bound: "arena_ok s \<Longrightarrow> kept_range s a n \<Longrightarrow> 0 < n \<Longrightarrow> a + n \<le> 2 ^ 32"
  using kept_bound [of s "a + n - 1"] by (auto simp: kept_range_def)

lemma unat_stride:
  assumes "unat (w :: u32) + 48 * i < 2 ^ 32"
  shows "unat (w + 48 * word_of_nat i) = unat w + 48 * i"
    and "unat w + 48 * i + 24 < 2 ^ 32 \<Longrightarrow> unat (w + 48 * word_of_nat i + 24) = unat w + 48 * i + 24"
proof -
  have "unat (48 * word_of_nat i :: u32) = 48 * i" using assms by (simp add: unat_word_ariths unat_of_nat)
  then show e: "unat (w + 48 * word_of_nat i) = unat w + 48 * i" using assms by (simp add: unat_word_ariths)
  assume "unat w + 48 * i + 24 < 2 ^ 32"
  then show "unat (w + 48 * word_of_nat i + 24) = unat w + 48 * i + 24"
    unfolding unat_word_ariths(1) [of "w + 48 * word_of_nat i"] e by simp
qed

lemma grow_copy_correct:
  assumes "unat (map_count (mem s) hdr) = n" "i \<le> n"
    and "unat off + 48 * n < 2 ^ 32" "unat (map_entries (mem s) hdr) + 48 * n \<le> 2 ^ 32"
    and "apart hdr 16 (unat off) (48 * n)" "apart (unat (map_entries (mem s) hdr)) (48 * n) (unat off) (48 * n)"
  shows "\<exists>m. grow_copy hdr off i s = s\<lparr>mem := m\<rparr> \<and> same_outside (unat off + 48 * i) (48 * (n - i)) (mem s) m
    \<and> run_at m (unat off + 48 * i) (2 * (n - i)) = run_at (mem s) (unat (map_entries (mem s) hdr) + 48 * i) (2 * (n - i))"
  using assms
proof (induction "n - i" arbitrary: i s)
  case 0
  then have "grow_copy hdr off i s = s" by (subst grow_copy.simps) simp
  then show ?case using 0 by (intro exI [of _ "mem s"]) simp
next
  case (Suc k)
  let ?r = "unat (map_entries (mem s) hdr)" and ?o = "unat off"
  have i: "i < n" "n - i = Suc k" using Suc.hyps(2) by auto
  let ?a = "?r + 48 * i" and ?d = "?o + 48 * i"
  define m1 where "m1 = store_cv (mem s) ?d (load_cv (mem s) ?a)"
  define m2 where "m2 = store_cv m1 (?d + 24) (load_cv m1 (?a + 24))"
  let ?s = "s\<lparr>mem := m2\<rparr>"
  have so1: "same_outside ?d 24 (mem s) m1" unfolding m1_def by (rule same_outside_store_cv)
  have so2: "same_outside (?d + 24) 24 m1 m2" unfolding m2_def by (rule same_outside_store_cv)
  have so: "same_outside ?d 48 (mem s) m2"
    by (rule same_outside_trans [OF same_outside_mono [OF so1] same_outside_mono [OF so2]]) simp_all
  have aph: "apart hdr 16 ?d 48" by (rule apart_sub [OF Suc.prems(5)]) (use i in simp_all)
  have apr: "apart ?r (48 * n) ?d 48" by (rule apart_sub [OF Suc.prems(6)]) (use i in simp_all)
  have w: "load32 m1 (hdr + d) = load32 (mem s) (hdr + d)" "load32 m2 (hdr + d) = load32 (mem s) (hdr + d)" if "d \<le> 12" for d
    using that load32_apart [OF so1 apart_sub [OF aph], of hdr 16 "hdr + d"] load32_apart [OF so aph, of "hdr + d"] by simp_all
  have le: "map_entries m1 hdr = map_entries (mem s) hdr" "map_entries m2 hdr = map_entries (mem s) hdr"
    "map_count m2 hdr = map_count (mem s) hdr"
    using w [of 8] w [of 0] by (simp_all add: map_entries_def map_count_def)
  have adr: "cel_value_at (off + 48 * word_of_nat i) = ?d" "cel_value_at (map_entries (mem s) hdr + 48 * word_of_nat i) = ?a"
    "cel_value_at (off + 48 * word_of_nat i + 24) = ?d + 24" "cel_value_at (map_entries (mem s) hdr + 48 * word_of_nat i + 24) = ?a + 24"
    unfolding cel_value_at_def using Suc.prems(3,4) i(1) by (simp_all add: unat_stride)
  have step: "grow_copy hdr off i s = grow_copy hdr off (i + 1) ?s"
    using i Suc.prems(1) le
    by (subst grow_copy.simps) (simp add: Let_def copy_cv_def adr m1_def [symmetric] m2_def)
  have IH: "\<exists>m. grow_copy hdr off (i + 1) ?s = ?s\<lparr>mem := m\<rparr>
    \<and> same_outside (?o + 48 * (i + 1)) (48 * (n - (i + 1))) (mem ?s) m
    \<and> run_at m (?o + 48 * (i + 1)) (2 * (n - (i + 1)))
        = run_at (mem ?s) (unat (map_entries (mem ?s) hdr) + 48 * (i + 1)) (2 * (n - (i + 1)))"
    by (rule Suc.hyps(1)) (use Suc.prems i le in simp_all)
  have e: "n - (i + 1) = k" "?o + 48 * (i + 1) = ?d + 48" "?r + 48 * (i + 1) = ?a + 48" "mem ?s = m2" using i(2) by simp_all
  obtain m where m: "grow_copy hdr off (i + 1) ?s = ?s\<lparr>mem := m\<rparr>"
    "same_outside (?d + 48) (48 * k) m2 m" "run_at m (?d + 48) (2 * k) = run_at m2 (?a + 48) (2 * k)"
    using IH unfolding e le e(3) by blast
  have "run_at m2 (?a + 48) (2 * k) = run_at (mem s) (?a + 48) (2 * k)"
    by (rule run_at_frame [OF so], rule apart_sub [OF apr]) (use i in simp_all)
  moreover have "run_at m ?d 2 = run_at m2 ?d 2" by (rule run_at_frame [OF m(2)]) (simp add: apart_def)
  moreover have "run_at m2 ?d 2 = run_at (mem s) ?a 2"
  proof -
    have "load_cv m2 ?d = load_cv m1 ?d" by (rule load_cv_apart [OF so2]) (simp add: apart_def)
    moreover have "load_cv m1 (?a + 24) = load_cv (mem s) (?a + 24)"
      by (rule load_cv_apart [OF so1], rule apart_sub [OF apr]) (use i in simp_all)
    ultimately show ?thesis by (simp add: run_at_def upt_rec m1_def m2_def mem_simps)
  qed
  ultimately have "run_at m ?d (2 + 2 * k) = run_at (mem s) ?a (2 + 2 * k)"
    unfolding run_at_append using m(3) by simp
  moreover have "same_outside ?d (48 * Suc k) (mem s) m"
    by (rule same_outside_trans [OF same_outside_mono [OF so] same_outside_mono [OF m(2)]]) simp_all
  ultimately show ?case using m(1) step i(2) by (intro exI [of _ m]) simp
qed

lemma grow_cap:
  assumes "unat count \<le> unat cap"
  shows "grow_cap_loop (if cap \<noteq> 0 then ucast (cap :: u32) * 2 else 4) (ucast (count :: u32) + 1)
    = Some (word_of_nat (if unat cap = 0 then 4 else 2 * unat cap))"
proof -
  have u: "unat (ucast (w :: u32) :: u64) = unat w" for w
    using unat_u32_lt [of w] by (simp add: unsigned_ucast_eq take_bit_nat_eq_self)
  let ?c = "if cap \<noteq> 0 then ucast cap * 2 else 4 :: u64"
  have c: "unat ?c = (if unat cap = 0 then 4 else 2 * unat cap)"
    using unat_u32_lt [of cap] u [of cap] by (simp add: unat_word_ariths unat_eq_0)
  have "unat (ucast count + 1 :: u64) = unat count + 1"
    using unat_u32_lt [of count] u [of count] by (simp add: unat_word_ariths)
  then have "\<not> ?c < ucast count + 1" using assms c by (simp add: word_less_nat_alt split: if_splits)
  then have l: "grow_cap_loop ?c (ucast count + 1) = Some ?c" by (subst grow_cap_loop.simps) simp
  have "?c = word_of_nat (unat ?c)" by simp
  then have ce: "?c = word_of_nat (if unat cap = 0 then 4 else 2 * unat cap)" unfolding c .
  show ?thesis unfolding ce [symmetric] by (rule l)
qed


lemma grow_one_correct:
  assumes ok: "arena_ok s" "map_ok s l" and hdr: "hdr = map_hdr s l"
  shows "\<exists>b s'. arena_map_grow_one hdr s = Some (b, s') \<and>
    (if b then map_ok s' l \<and> map_alist s' l = map_alist s l \<and> map_frame s s' l
        \<and> map_room s' l = (if map_room s l = 0 then 4 else 2 * map_room s l) \<and> map_hdr s' l = map_hdr s l
     else extends s s')"
proof -
  let ?h = "map_hdr s l" and ?r = "map_run s l" and ?n = "map_len s l" and ?R = "map_room s l" and ?c = "cel_value_at l"
  let ?k = "if ?R = 0 then 4 else 2 * ?R"
  let ?w = "word_of_nat ?k :: u64"
  have le: "?n \<le> ?R" using ok(2) by (simp add: map_ok_def)
  have cap: "map_room s l < 2 ^ 32" using unat_u32_lt [of "map_capacity (mem s) ?h"] by (simp add: map_room_def)
  have uw: "unat ?w = ?k" using cap by (simp add: unat_of_nat)
  have gc: "grow_cap_loop (if map_capacity (mem s) ?h \<noteq> 0 then ucast (map_capacity (mem s) ?h) * 2 else 4)
      (ucast (map_count (mem s) ?h) + 1) = Some ?w"
    using grow_cap [of "map_count (mem s) ?h" "map_capacity (mem s) ?h"] le by (simp add: map_len_def map_room_def)
  have big: "?w > ucast UINT32_MAX \<longleftrightarrow> 2 ^ 32 \<le> ?k"
    by (auto simp: word_less_nat_alt uw)
  let ?b = "entries_bytes_checked 48 (ucast ?w)"
  show ?thesis
  proof (cases "2 ^ 32 \<le> ?k \<or> ?b = 0")
    case True
    then have "arena_map_grow_one hdr s = Some (False, s)"
      using gc big by (auto simp: arena_map_grow_one_def hdr Let_def)
    then show ?thesis using extends_refl [OF ok(1)] by (intro exI [of _ False] exI [of _ s]) simp
  next
    case False
    then have nb: "\<not> ?w > ucast UINT32_MAX" and bz: "?b \<noteq> 0" using big by auto
    have uc: "unat (ucast ?w :: u32) = ?k"
      using False uw by (simp add: unsigned_ucast_eq take_bit_nat_eq_self)
    have ub: "unat ?b = 48 * ?k"
      using unat_entries_bytes [of 48 "ucast ?w"] bz unat_eq_0 [of ?b] by (auto simp: uc split: if_splits)
    show ?thesis
    proof (cases rule: arena_alloc_extends [OF ok(1), of ?b])
      case (1 t)
      then have "arena_map_grow_one hdr s = Some (False, t)"
        using gc nb bz by (simp add: arena_map_grow_one_def hdr Let_def)
      then show ?thesis using 1(2) by (intro exI [of _ False] exI [of _ t]) simp
    next
      case (2 p t)
      have kept: "kept_range s ?c 24" "kept_range s ?h 16" "kept_range s ?r (48 * ?R)"
        and ap: "apart ?h 16 ?c 24" "apart ?r (48 * ?R) ?c 24" "apart ?h 16 ?r (48 * ?R)"
        using ok(2) by (simp_all add: map_ok_def)
      have frp: "fresh_range s (unat p) (48 * ?k)" using 2(5) by (auto simp: fresh_range_def ub)
      have fa: "apart a n (unat p) (48 * ?k)" if "kept_range s a n" for a n by (rule fresh_apart [OF frp that])
      have et: "agree (mem s) (mem t) a n" if "kept_range s a n" for a n using extends_same [OF 2(3) that] by simp
      have wt: "load32 (mem t) (?h + d) = load32 (mem s) (?h + d)" if "d \<le> 12" for d
        using agree_loads(3) [OF et [OF kept(2)], of d] that by simp
      have ct: "map_count (mem t) ?h = map_count (mem s) ?h" "map_entries (mem t) ?h = map_entries (mem s) ?h"
        using wt [of 0] wt [of 8] by (simp_all add: map_count_def map_entries_def)
      have rb: "?r + 48 * ?n \<le> 2 ^ 32"
      proof (cases "?R = 0")
        case True
        then show ?thesis using le unat_u32_lt [of "map_entries (mem s) ?h"] by (simp add: map_run_def)
      next
        case False
        then show ?thesis using kept_range_bound [OF ok(1) kept(3)] le by simp
      qed
      have pb: "unat p + 48 * ?n < 2 ^ 32" using 2(6) le by (simp add: ub split: if_splits)
      have "\<exists>m. grow_copy ?h p 0 t = t\<lparr>mem := m\<rparr> \<and> same_outside (unat p + 48 * 0) (48 * (?n - 0)) (mem t) m
        \<and> run_at m (unat p + 48 * 0) (2 * (?n - 0)) = run_at (mem t) (unat (map_entries (mem t) ?h) + 48 * 0) (2 * (?n - 0))"
        by (rule grow_copy_correct)
          (use pb rb le apart_sub [OF fa [OF kept(2)]] apart_sub [OF fa [OF kept(3)]] in \<open>simp_all add: ct map_len_def map_run_def\<close>)
      then obtain m where m: "grow_copy ?h p 0 t = t\<lparr>mem := m\<rparr>" "same_outside (unat p) (48 * ?n) (mem t) m"
        "run_at m (unat p) (2 * ?n) = run_at (mem t) ?r (2 * ?n)"
        by (auto simp: ct map_run_def)
      define m' where "m' = store32 (store32 (store32 m (?h + 8) p) (?h + 4) (ucast ?w)) (?h + 12) 0"
      let ?s = "t\<lparr>mem := m'\<rparr>"
      have eq: "arena_map_grow_one hdr s = Some (True, ?s)"
        using gc nb bz 2(1,2) m(1) by (simp add: arena_map_grow_one_def hdr Let_def m'_def)
      have so': "same_outside (?h + 4) 12 m m'"
        unfolding m'_def
        by (rule same_outside_trans [OF same_outside_trans [OF same_outside_store32 same_outside_store32] same_outside_store32]) simp_all
      have ne: "48 * ?n \<le> 48 * ?k" using le by simp
      have same: "agree (mem s) m' a n" if "kept_range s a n" "apart a n (?h + 4) 12" for a n
      proof -
        have "agree (mem t) m a n" by (rule same_outside_agree [OF m(2)], rule apart_sub [OF fa [OF that(1)]]) (use ne in simp_all)
        moreover have "agree m m' a n" by (rule same_outside_agree [OF so' that(2)])
        ultimately show ?thesis using et [OF that(1)] by simp
      qed
      have cell: "agree (mem s) m' ?c 24" by (rule same [OF kept(1)]) (use ap(1) in \<open>auto simp: apart_def\<close>)
      have cvs: "cv ?s l = cv s l" by (simp, rule agree_loads(1) [OF cell])
      have hd: "map_hdr ?s l = ?h" by (simp only: map_hdr_def cvs)
      have c0: "map_count m' ?h = map_count (mem s) ?h"
      proof -
        have "agree (mem s) m' ?h 4" by (rule same [OF kept_range_tail [OF kept(2)]]) (auto simp: apart_def)
        then show ?thesis using agree_loads(3) [of 4 m' ?h "mem s" 0] by (simp add: map_count_def)
      qed
      have ms: "mem ?s = m'" by simp
      have l: "map_entries m' ?h = p" "map_capacity m' ?h = ucast ?w"
        by (simp_all only: map_entries_def map_capacity_def m'_def) (simp_all add: mem_simps)
      have wd: "map_run ?s l = unat p" "map_room ?s l = ?k" "map_len ?s l = ?n"
        unfolding map_run_def [of ?s] map_room_def [of ?s] map_len_def [of ?s] hd ms l c0 uc
        by (simp_all only: map_len_def)
      have A: "agree (mem s) (mem ?s) a n" if "kept_range s a n" "map_apart s l a n" for a n
      proof -
        have "apart a n (?h + 4) 12" by (rule apart_sub [of a n ?h 16]) (use that(2) in \<open>simp_all add: map_apart_def\<close>)
        then show ?thesis using same [OF that(1)] by simp
      qed
      have B: "map_apart ?s l a n" if "kept_range s a n" "map_apart s l a n" for a n
        using that fa [of a n] unfolding map_apart_def hd wd by simp
      have "arena_ok ?s" "arena_used s \<subseteq> arena_used ?s" using 2(3) by (simp_all add: extends_def)
      then have fr: "map_frame s ?s l" unfolding map_frame_def using A B by blast
      have aph: "apart (unat p) (48 * ?k) (?h + 4) 12"
        using fa [OF kept(2)] by (auto simp: apart_def)
      have new: "run_at m' (unat p) (2 * ?n) = run_at (mem s) ?r (2 * ?n)"
      proof -
        have "run_at m' (unat p) (2 * ?n) = run_at m (unat p) (2 * ?n)"
          by (rule run_at_frame [OF so'], rule apart_sub [OF aph]) (use ne in simp_all)
        moreover have "run_at (mem t) ?r (2 * ?n) = run_at (mem s) ?r (2 * ?n)"
          by (rule extends_run [OF 2(3)], rule kept_range_tail [OF kept(3)]) (use le in simp)
        ultimately show ?thesis using m(3) by simp
      qed
      have cells: "load_cv m' (unat p + 48 * i) = load_cv (mem s) (?r + 48 * i)"
        "load_cv m' (unat p + 48 * i + 24) = load_cv (mem s) (?r + 48 * i + 24)" if "i < ?n" for i
      proof -
        have "run_at m' (unat p) (2 * ?n) ! (2 * i) = run_at (mem s) ?r (2 * ?n) ! (2 * i)"
          "run_at m' (unat p) (2 * ?n) ! (2 * i + 1) = run_at (mem s) ?r (2 * ?n) ! (2 * i + 1)" by (simp_all only: new)
        then show "load_cv m' (unat p + 48 * i) = load_cv (mem s) (?r + 48 * i)"
          "load_cv m' (unat p + 48 * i + 24) = load_cv (mem s) (?r + 48 * i + 24)"
          using that by (simp_all add: algebra_simps)
      qed
      have kold: "key_ok s l (load_cv (mem s) (?r + 48 * i))" if "i < ?n" for i using ok(2) that by (simp add: map_ok_def)
      have al: "map_alist ?s l = map_alist s l"
        unfolding map_alist_def wd
        by (rule nth_equalityI) (auto simp: entries_at_nth cells key_ok_frame(2) [OF kold fr, simplified])
      have "map_ok ?s l"
        unfolding map_ok_def hd wd al cvs
        using ok(2) key_ok_frame(1) [OF kold fr] cells(1) 2(4) fa [OF kept(2)] fa [OF kept(1)]
          kept_range_mono [OF extends_used [OF 2(3)] kept(1)] kept_range_mono [OF extends_used [OF 2(3)] kept(2)]
        by (auto simp: map_ok_def apart_sym ub)
      then show ?thesis using eq al fr wd(2) hd by (intro exI [of _ True] exI [of _ ?s]) simp
    qed
  qed
qed

subsection \<open>Inserting\<close>

lemma map_ok_kind: "map_ok s l \<Longrightarrow> cv_kind (cv s l) = CEL_MAP_ARENA"
  by (simp add: map_ok_def)

lemma map_insert_kernel_correct:
  assumes ok: "arena_ok s" "map_ok s l"
    and key: "key_ok s l (load_cv (mem s) kp)" "scalar_of (mem s) (load_cv (mem s) kp) = Some k"
    and val: "\<not> poisoned (load_cv (mem s) vp)"
    and src: "kept_range s kp 24" "map_apart s l kp 24" "kept_range s vp 24" "map_apart s l vp 24"
    and fits: "g \<or> map_len s l < map_room s l \<or> k \<in> set (map fst (map_alist s l))"
  shows "\<exists>s'. map_insert_at_kernel (cel_value_at l) kp vp g s = Some s'
    \<and> (map_ok s' l \<and> map_alist s' l = AList.update k (load_cv (mem s) vp) (map_alist s l) \<and> map_frame s s' l
       \<or> g \<and> is_err (cv s' l) CEL_ERR_OVERFLOW)"
proof -
  let ?h = "map_hdr s l"
  have kinds: "cv_kind (load_cv (mem s) kp) \<noteq> CEL_ERROR" "cv_kind (load_cv (mem s) kp) \<noteq> CEL_UNKNOWN"
    "is_valid_map_key_kind (cv_kind (load_cv (mem s) kp))"
    using key(1) by (auto simp: key_ok_def is_valid_map_key_kind_def)
  have nv: "cv_kind (load_cv (mem s) vp) \<noteq> CEL_ERROR" "cv_kind (load_cv (mem s) vp) \<noteq> CEL_UNKNOWN"
    using val by (simp_all add: poisoned_def)
  have hd: "arena_map_header (cv s l) = ?h" by (simp add: map_hdr_def)
  have full: "map_count (mem s) ?h \<ge> map_capacity (mem s) ?h \<longleftrightarrow> \<not> map_len s l < map_room s l"
    by (simp add: word_le_nat_alt map_len_def map_room_def not_less)
  have dist: "distinct (map fst (map_alist s l))" using ok(2) by (simp add: map_ok_def)
  show ?thesis
  proof (cases rule: map_scan_alist [OF ok(2) key(2)])
    case (1 i)
    let ?t = "copy_cv (map_run s l + 48 * i + 24) vp s"
    have "i < 2 ^ 32" using 1(2) unat_u32_lt [of "map_count (mem s) ?h"] by (simp add: map_len_def)
    then have "map_insert_at_kernel (cel_value_at l) kp vp g s = Some ?t"
      using kinds nv 1(1) by (simp add: map_insert_at_kernel_def Let_def hd entry_address map_run_def)
    moreover note o = overwrite_correct [OF ok 1(2) refl, of vp]
    moreover have "AList.update k (load_cv (mem s) vp) (map_alist s l) = (map_alist s l)[i := (k, load_cv (mem s) vp)]"
      by (rule AList_update_nth [OF dist]) (use 1 in simp_all)
    ultimately show ?thesis using 1(3) by auto
  next
    case 2
    note up = AList_update_absent [OF 2(3)]
    show ?thesis
    proof (cases "map_len s l < map_room s l")
      case True
      have "map_insert_at_kernel (cel_value_at l) kp vp g s = Some (put_entry ?h kp vp s)"
        using kinds nv 2(1) full True by (simp add: map_insert_at_kernel_def Let_def hd)
      then show ?thesis using put_entry_correct [OF ok True key 2(3) src(4) refl] up by auto
    next
      case False
      then have g: g using fits 2(3) by simp
      obtain b t where gr: "arena_map_grow_one ?h s = Some (b, t)"
        "if b then map_ok t l \<and> map_alist t l = map_alist s l \<and> map_frame s t l
            \<and> map_room t l = (if map_room s l = 0 then 4 else 2 * map_room s l) \<and> map_hdr t l = map_hdr s l else extends s t"
        using grow_one_correct [OF ok refl] by blast
      have eq: "map_insert_at_kernel (cel_value_at l) kp vp g s =
          Some (if b then put_entry ?h kp vp t else poison (cel_value_at l) CEL_ERR_OVERFLOW t)"
        using kinds nv 2(1) full False g gr(1) by (simp add: map_insert_at_kernel_def Let_def hd)
      show ?thesis
      proof (cases b)
        case False
        then show ?thesis using eq g is_err_poison by auto
      next
        case True
        then have t: "map_ok t l" "map_alist t l = map_alist s l" "map_frame s t l"
          "map_room t l = (if map_room s l = 0 then 4 else 2 * map_room s l)" using gr(2) by simp_all
        have okt: "arena_ok t" using t(3) by (simp add: map_frame_def)
        have ag: "load_cv (mem t) kp = load_cv (mem s) kp" "load_cv (mem t) vp = load_cv (mem s) vp"
          using t(3) src by (auto simp: map_frame_def intro!: agree_loads(1))
        have ap: "map_apart t l vp 24" using t(3) src(3,4) unfolding map_frame_def by blast
        have ln: "map_len t l = map_len s l" using arg_cong [OF t(2), of length] by simp
        have "map_len s l \<le> map_room s l" using ok(2) by (simp add: map_ok_def)
        then have rm: "map_len t l < map_room t l" using t(4) ln by (auto split: if_splits)
        have kt: "key_ok t l (load_cv (mem t) kp)" "scalar_of (mem t) (load_cv (mem t) kp) = Some k"
          using key_ok_frame [OF key(1) t(3)] key(2) by (simp_all add: ag)
        have hdt: "map_hdr t l = ?h" using gr(2) True by simp
        have new: "k \<notin> set (map fst (map_alist t l))" using 2(3) t(2) by simp
        note pe = put_entry_correct [OF okt t(1) rm kt new ap hdt [symmetric]]
        show ?thesis
          using eq True pe map_frame_trans [OF t(3) pe(3)] t(2) up by (auto simp: ag)
      qed
    qed
  qed
qed

lemma cel_map_insert_correct:
  assumes ok: "arena_ok s" "map_ok s l"
    and key: "key_ok s l (cv s k)" "scalar_of (mem s) (cv s k) = Some x" and val: "\<not> poisoned (cv s v)"
    and src: "map_apart s l (cel_value_at v) 24"
  shows "\<exists>s'. cel_map_insert l k v s = Some s' \<and>
    (if x \<in> set (map fst (map_alist s l)) then is_err (cv s' l) CEL_ERR_DUPLICATE_KEY \<and> only_cell (cel_value_at l) s s'
     else if map_len s l < map_room s l
       then map_ok s' l \<and> map_alist s' l = map_alist s l @ [(x, cv s v)] \<and> map_frame s s' l
     else is_err (cv s' l) CEL_ERR_OVERFLOW \<and> only_cell (cel_value_at l) s s')"
proof -
  let ?h = "map_hdr s l"
  have kinds: "cv_kind (cv s k) \<noteq> CEL_ERROR" "cv_kind (cv s k) \<noteq> CEL_UNKNOWN" "is_valid_map_key_kind (cv_kind (cv s k))"
    using key(1) by (auto simp: key_ok_def is_valid_map_key_kind_def)
  have nv: "cv_kind (cv s v) \<noteq> CEL_ERROR" "cv_kind (cv s v) \<noteq> CEL_UNKNOWN" using val by (simp_all add: poisoned_def)
  have hd: "arena_map_header (cv s l) = ?h" by (simp add: map_hdr_def)
  have full: "map_count (mem s) ?h \<ge> map_capacity (mem s) ?h \<longleftrightarrow> \<not> map_len s l < map_room s l"
    by (simp add: word_le_nat_alt map_len_def map_room_def not_less)
  show ?thesis
  proof (cases rule: map_scan_alist [OF ok(2) key(2)])
    case (1 i)
    have "cel_map_insert l k v s = Some (poison (cel_value_at l) CEL_ERR_DUPLICATE_KEY s)"
      using kinds nv 1(1) map_ok_kind [OF ok(2)] by (simp add: cel_map_insert_def Let_def hd)
    moreover have "x \<in> set (map fst (map_alist s l))" using 1(2,3) nth_mem [of i "map_alist s l"] by auto
    ultimately show ?thesis by (simp add: is_err_poison)
  next
    case 2
    have "cel_map_insert l k v s = Some (if map_len s l < map_room s l then put_entry ?h (cel_value_at k) (cel_value_at v) s
        else poison (cel_value_at l) CEL_ERR_OVERFLOW s)"
      using kinds nv 2(1) full map_ok_kind [OF ok(2)] by (simp add: cel_map_insert_def Let_def hd)
    then show ?thesis
      using put_entry_correct [OF ok _ key 2(3) src refl] 2(3) is_err_poison by auto
  qed
qed

lemma cel_map_create_correct:
  assumes ok: "arena_ok s" and out: "kept_range s (cel_value_at out) 24"
  shows "\<exists>s'. cel_map_create out n s = Some s' \<and> keeps (cel_value_at out) s s'
    \<and> (is_err (cv s' out) CEL_ERR_OVERFLOW \<and> run_oom 48 n s
       \<or> map_ok s' out \<and> map_alist s' out = [] \<and> map_room s' out = unat n \<and> map_index (mem s') (map_hdr s' out) = 0
         \<and> (\<forall>a k. kept_range s a k \<and> apart a k (cel_value_at out) 24 \<longrightarrow> map_apart s' out a k))"
proof -
  have st: "(48 :: u32) \<le> 64" "(48 :: u32) \<noteq> 0" by simp_all
  show ?thesis
  proof (cases rule: alloc_header_run_cases [OF ok st, of n])
    case (1 t)
    then have "cel_map_create out n s = Some (poison (cel_value_at out) CEL_ERR_OVERFLOW t)"
      by (simp add: cel_map_create_def)
    then show ?thesis using extends_poison [OF 1(2)] 1(3) by auto
  next
    case (2 h r t)
    define m where "m = store32 (store32 (store_words4 (mem t) (unat h) 0 n r 0) (cel_value_at out) CEL_MAP_ARENA)
      (cel_value_at out + 8) h"
    let ?s = "t\<lparr>mem := m\<rparr>"
    have eq: "cel_map_create out n s = Some ?s" using 2(1) by (simp add: cel_map_create_def m_def Let_def)
    note p = publish_header [OF 2(2) out 2(6) m_def]
    have hd: "map_hdr ?s out = unat h" using p by (simp add: map_hdr_def arena_map_header_def)
    have rn: "map_run ?s out = unat r" and rm: "map_room ?s out = unat n" and ln: "map_len ?s out = 0"
      and ix: "map_index m (unat h) = 0"
      using p hd by (simp_all add: map_run_def map_room_def map_entries_def map_capacity_def map_len_def map_count_def map_index_def)
    have al: "map_alist ?s out = []" by (simp add: map_alist_def ln entries_at_def)
    have kt: "kept_range t (cel_value_at out) 24" by (rule kept_range_mono [OF extends_used [OF 2(2)] out])
    have "map_ok ?s out"
      unfolding map_ok_def hd rn rm ln al
      using p(6) 2(4,5,8) kt fresh_apart [OF 2(6) out] fresh_apart [OF 2(7) out] by (simp add: apart_sym)
    moreover have "map_apart ?s out a k" if "kept_range s a k" "apart a k (cel_value_at out) 24" for a k
      using that fresh_apart [OF 2(6) that(1)] fresh_apart [OF 2(7) that(1)] unfolding map_apart_def hd rn rm by simp
    ultimately show ?thesis using eq p(1) al rm ix hd by (intro exI [of _ ?s]) simp
  qed
qed

lemma map_apart_sub: "map_apart s l a n \<Longrightarrow> a \<le> b \<Longrightarrow> b + k \<le> a + n \<Longrightarrow> map_apart s l b k"
  unfolding map_apart_def using apart_sub [of a n _ _ b k] by blast

subsection \<open>Merging\<close>

text \<open>A source map readable throughout the merge: kept, apart from the target, with key cells and
  values an insert accepts.\<close>

definition merge_source :: "rt \<Rightarrow> u32 \<Rightarrow> u32 \<Rightarrow> bool" where
  "merge_source s e l \<longleftrightarrow> map_len s e \<le> map_room s e
     \<and> kept_range s (cel_value_at e) 24 \<and> kept_range s (map_hdr s e) 16 \<and> kept_range s (map_run s e) (48 * map_room s e)
     \<and> map_apart s l (cel_value_at e) 24 \<and> map_apart s l (map_hdr s e) 16 \<and> map_apart s l (map_run s e) (48 * map_room s e)
     \<and> (\<forall>i < map_len s e. key_ok s l (load_cv (mem s) (map_run s e + 48 * i))
          \<and> \<not> poisoned (load_cv (mem s) (map_run s e + 48 * i + 24)))"

lemma merge_source_frame:
  assumes src: "merge_source s e l" and fr: "map_frame s s' l"
  shows "merge_source s' e l" "map_hdr s' e = map_hdr s e" "map_run s' e = map_run s e"
    "map_len s' e = map_len s e" "map_alist s' e = map_alist s e"
    "i < map_len s e \<Longrightarrow> load_cv (mem s') (map_run s e + 48 * i) = load_cv (mem s) (map_run s e + 48 * i)"
    "i < map_len s e \<Longrightarrow> load_cv (mem s') (map_run s e + 48 * i + 24) = load_cv (mem s) (map_run s e + 48 * i + 24)"
proof -
  have le: "map_len s e \<le> map_room s e" using src by (simp add: merge_source_def)
  have keep: "agree (mem s) (mem s') a n" "map_apart s' l a n" "kept_range s' a n"
    if "kept_range s a n" "map_apart s l a n" for a n
    using fr that kept_range_mono unfolding map_frame_def by blast+
  have k: "kept_range s (cel_value_at e) 24" "kept_range s (map_hdr s e) 16" "kept_range s (map_run s e) (48 * map_room s e)"
    "map_apart s l (cel_value_at e) 24" "map_apart s l (map_hdr s e) 16" "map_apart s l (map_run s e) (48 * map_room s e)"
    using src unfolding merge_source_def by blast+
  have h8: "agree (mem s) (mem s') (map_hdr s e + 4) 8" using keep(1) [OF k(2,5)] by (auto simp: add.assoc)
  note w = map_words [of s' e s, OF _ h8]
  have wd: "cv s' e = cv s e" "map_hdr s' e = map_hdr s e" "map_run s' e = map_run s e" "map_room s' e = map_room s e"
    using w keep(1) [OF k(1,4)] by simp_all
  show "map_hdr s' e = map_hdr s e" "map_run s' e = map_run s e" by (rule wd)+
  show ln: "map_len s' e = map_len s e"
    using agree_loads(3) [OF keep(1) [OF k(2,5)], of 0] by (simp add: map_len_def wd(2) map_count_def)
  have cells: "agree (mem s) (mem s') (map_run s e + 48 * i) 48" if "i < map_len s e" for i
  proof (intro allI impI)
    fix j :: nat assume "j < 48"
    then have "48 * i + j < 48 * map_room s e" using that le by simp
    then show "mem s' (map_run s e + 48 * i + j) = mem s (map_run s e + 48 * i + j)"
      using keep(1) [OF k(3,6)] by (simp add: add.assoc)
  qed
  have kc: "load_cv (mem s') (map_run s e + 48 * i) = load_cv (mem s) (map_run s e + 48 * i)"
    and vc: "load_cv (mem s') (map_run s e + 48 * i + 24) = load_cv (mem s) (map_run s e + 48 * i + 24)" if "i < map_len s e" for i
    using cells [OF that] by (auto intro!: load_cv_local simp: add.assoc)
  then show "i < map_len s e \<Longrightarrow> load_cv (mem s') (map_run s e + 48 * i) = load_cv (mem s) (map_run s e + 48 * i)"
    "i < map_len s e \<Longrightarrow> load_cv (mem s') (map_run s e + 48 * i + 24) = load_cv (mem s) (map_run s e + 48 * i + 24)" by blast+
  have ko: "key_ok s l (load_cv (mem s) (map_run s e + 48 * i))" if "i < map_len s e" for i
    using src that unfolding merge_source_def by blast
  show "map_alist s' e = map_alist s e"
    unfolding map_alist_def wd ln
    by (rule nth_equalityI) (auto simp: entries_at_nth kc vc key_ok_frame(2) [OF ko fr])
  show "merge_source s' e l"
    unfolding merge_source_def wd ln
    using le keep(2,3) k kc vc key_ok_frame(1) [OF ko fr] src by (simp add: merge_source_def)
qed

lemma merge_arena_correct:
  assumes "arena_ok s" "map_ok s l" "merge_source s e l" "i \<le> map_len s e"
  shows "\<exists>s'. map_merge_arena_from (cel_value_at l) (map_hdr s e) (map_len s e) i s = Some s'
    \<and> (map_ok s' l \<and> map_frame s s' l
         \<and> map_alist s' l = fold (\<lambda>(k, v). AList.update k v) (drop i (map_alist s e)) (map_alist s l)
       \<or> is_err (cv s' l) CEL_ERR_OVERFLOW)"
  using assms
proof (induction "map_len s e - i" arbitrary: i s)
  case 0
  then have "map_merge_arena_from (cel_value_at l) (map_hdr s e) (map_len s e) i s = Some s"
    by (subst map_merge_arena_from.simps) simp
  then show ?case using 0 map_frame_refl [OF 0(2)] by (intro exI [of _ s]) simp
next
  case (Suc d)
  let ?e = "map_run s e + 48 * i"
  have i: "i < map_len s e" using Suc.hyps(2) by simp
  have i32: "i < 2 ^ 32" using i unat_u32_lt [of "map_count (mem s) (map_hdr s e)"] by (simp add: map_len_def)
  have ms: "map_len s e \<le> map_room s e" "kept_range s (map_run s e) (48 * map_room s e)" "map_apart s l (map_run s e) (48 * map_room s e)"
    "key_ok s l (load_cv (mem s) ?e)" "\<not> poisoned (load_cv (mem s) (?e + 24))"
    using Suc.prems(3) i unfolding merge_source_def by blast+
  obtain k where k: "scalar_of (mem s) (load_cv (mem s) ?e) = Some k" using ms(4) key_scalar unfolding key_ok_def by blast
  have rng: "kept_range s ?e 24" "kept_range s (?e + 24) 24"
    by (rule kept_range_sub [OF ms(2)]; use i ms(1) in simp)+
  have apt: "map_apart s l ?e 24" "map_apart s l (?e + 24) 24"
    by (rule map_apart_sub [OF ms(3)]; use i ms(1) in simp)+
  have adr: "arena_map_entry_key (mem s) (map_hdr s e) (word_of_nat i) = ?e"
    "arena_map_entry_val (mem s) (map_hdr s e) (word_of_nat i) = ?e + 24"
    using entry_address [OF i32] by (simp_all add: map_run_def)
  obtain s1 where s1: "map_insert_at_kernel (cel_value_at l) ?e (?e + 24) True s = Some s1"
    "map_ok s1 l \<and> map_alist s1 l = AList.update k (load_cv (mem s) (?e + 24)) (map_alist s l) \<and> map_frame s s1 l
     \<or> is_err (cv s1 l) CEL_ERR_OVERFLOW"
    using map_insert_kernel_correct [OF Suc.prems(1,2) ms(4) k ms(5) rng(1) apt(1) rng(2) apt(2), of True] by auto
  have step: "map_merge_arena_from (cel_value_at l) (map_hdr s e) (map_len s e) i s =
      (if cv_kind (cv s1 l) \<noteq> CEL_MAP_ARENA then Some s1
       else map_merge_arena_from (cel_value_at l) (map_hdr s e) (map_len s e) (i + 1) s1)"
    using i by (subst map_merge_arena_from.simps) (simp add: adr s1(1))
  show ?case
  proof (cases "is_err (cv s1 l) CEL_ERR_OVERFLOW")
    case True
    then show ?thesis using step by (intro exI [of _ s1]) (simp add: is_defs)
  next
    case False
    then have o: "map_ok s1 l" "map_alist s1 l = AList.update k (load_cv (mem s) (?e + 24)) (map_alist s l)" "map_frame s s1 l"
      using s1(2) by simp_all
    note f = merge_source_frame [OF Suc.prems(3) o(3)]
    have "arena_ok s1" using o(3) by (simp add: map_frame_def)
    moreover have "d = map_len s1 e - (i + 1)" "i + 1 \<le> map_len s1 e" using Suc.hyps(2) i by (simp_all add: f(4))
    ultimately obtain s2 where s2: "map_merge_arena_from (cel_value_at l) (map_hdr s e) (map_len s e) (i + 1) s1 = Some s2"
      "map_ok s2 l \<and> map_frame s1 s2 l \<and> map_alist s2 l = fold (\<lambda>(k, v). AList.update k v) (drop (i + 1) (map_alist s e)) (map_alist s1 l)
       \<or> is_err (cv s2 l) CEL_ERR_OVERFLOW"
      using Suc.hyps(1) [of s1 "i + 1"] o(1) f(1) unfolding f(2,4,5) by auto
    have "drop i (map_alist s e) = map_alist s e ! i # drop (i + 1) (map_alist s e)"
      using i by (simp add: Cons_nth_drop_Suc)
    moreover have "map_alist s e ! i = (k, load_cv (mem s) (?e + 24))" using i k by (simp add: map_alist_def entries_at_nth)
    ultimately show ?thesis
      using step s2 map_ok_kind [OF o(1)] o(2) map_frame_trans [OF o(3)] by (intro exI [of _ s2]) auto
  qed
qed

lemma map_of_fold_update:
  "map_of (fold (\<lambda>(k, v). AList.update k v) kvs al) = map_of al ++ map_of (rev kvs)"
proof (induction kvs arbitrary: al)
  case (Cons p kvs)
  then show ?case by (cases p) (simp add: update_conv' fun_eq_iff map_add_def split: option.splits)
qed simp

subsection \<open>Finding an entry\<close>

text \<open>
  The contract lookup relies on, whichever way the entry is found: the finder returns the position
  of the sought key among the map's keys, or the not-found value.
\<close>

locale key_finder =
  fixes find_entry :: "memory \<Rightarrow> nat \<Rightarrow> cel_value \<Rightarrow> u32 option"
    and ready :: "rt \<Rightarrow> u32 \<Rightarrow> bool"
  assumes finds: "map_ok s l \<Longrightarrow> ready s l \<Longrightarrow>
    \<exists>e. find_entry (mem s) (map_hdr s l) key = Some e \<and> key_position (mem s) (map fst (map_alist s l)) key e"
begin

lemma find_map_of:
  assumes ok: "map_ok s l" and rd: "ready s l"
  shows "\<exists>e. find_entry (mem s) (map_hdr s l) key = Some e \<and>
    (case Option.bind (scalar_of (mem s) key) (map_of (map_alist s l)) of
       Some v \<Rightarrow> e \<noteq> UINT32_MAX \<and> load_cv (mem s) (arena_map_entry_val (mem s) (map_hdr s l) e) = v
     | None \<Rightarrow> e = UINT32_MAX)"
proof -
  let ?al = "map_alist s l" and ?n = "map_len s l"
  have n32: "?n < 2 ^ 32" using unat_u32_lt [of "map_count (mem s) (map_hdr s l)"] by (simp add: map_len_def)
  obtain e where e: "find_entry (mem s) (map_hdr s l) key = Some e" "key_position (mem s) (map fst ?al) key e"
    using finds [OF ok rd] by blast
  show ?thesis
  proof (cases "\<exists>i < ?n. scalar_of (mem s) key = Some (fst (?al ! i))")
    case True
    then have c: "\<exists>i < length (map fst ?al). scalar_of (mem s) key = Some (map fst ?al ! i)" by auto
    obtain i where i: "i < ?n" "e = word_of_nat i" "scalar_of (mem s) key = Some (fst (?al ! i))"
      using e(2) [unfolded key_position_def if_P [OF c]] by auto
    have "distinct (map fst ?al)" using ok by (simp add: map_ok_def)
    moreover have "(fst (?al ! i), snd (?al ! i)) \<in> set ?al" using i(1) by (simp add: nth_mem)
    ultimately have m: "map_of ?al (fst (?al ! i)) = Some (snd (?al ! i))" by simp
    have v: "load_cv (mem s) (arena_map_entry_val (mem s) (map_hdr s l) e) = snd (?al ! i)"
      using i n32 by (simp add: entry_address map_alist_def entries_at_nth map_run_def)
    have "unat e = i" using i n32 by (simp add: unat_of_nat)
    then have "e \<noteq> UINT32_MAX" using i(1) n32 by auto
    then show ?thesis using e(1) i(3) m v by simp
  next
    case False
    then have ne: "e = UINT32_MAX" using e(2) by (simp add: key_position_def)
    have "map_of ?al x = None" if "scalar_of (mem s) key = Some x" for x
      using False that by (auto simp: map_of_eq_None_iff in_set_conv_nth) (metis fst_conv)
    then show ?thesis using e(1) ne by (cases "scalar_of (mem s) key") simp_all
  qed
qed

end

definition scan_entry :: "memory \<Rightarrow> nat \<Rightarrow> cel_value \<Rightarrow> u32 option" where
  "scan_entry m hdr key = Some (case map_scan m hdr key of Some i \<Rightarrow> word_of_nat i | None \<Rightarrow> UINT32_MAX)"

interpretation scan: key_finder scan_entry "\<lambda>s l. True"
proof unfold_locales
  fix s l key assume ok: "map_ok s l"
  have "key_position (mem s) (map fst (map_alist s l)) key
    (case map_scan (mem s) (map_hdr s l) key of Some i \<Rightarrow> word_of_nat i | None \<Rightarrow> UINT32_MAX)"
  proof (cases "scalar_of (mem s) key")
    case None
    then have "\<not> cel_map_key_eq (mem s) v key" for v by (simp add: cel_map_key_eq_iff)
    then have "map_scan (mem s) (map_hdr s l) key = None" by (simp add: map_scan_def find_None_iff)
    then show ?thesis using None by (simp add: key_position_def)
  next
    case (Some k)
    show ?thesis
    proof (cases rule: map_scan_alist [OF ok Some])
      case (1 i)
      then show ?thesis using Some by (auto simp: key_position_def intro!: exI [of _ i])
    next
      case 2
      then show ?thesis using Some nth_mem [of _ "map_alist s l"] by (auto simp: key_position_def)
    qed
  qed
  then show "\<exists>e. scan_entry (mem s) (map_hdr s l) key = Some e \<and> key_position (mem s) (map fst (map_alist s l)) key e"
    by (simp add: scan_entry_def)
qed

interpretation swiss: key_finder cel_map_index_find "\<lambda>s l. map_indexed (mem s) (map_hdr s l) (map fst (map_alist s l))"
  by unfold_locales (rule index_find_correct)

text \<open>The index of a map, when it has one, is an index of its keys.\<close>

definition index_valid :: "rt \<Rightarrow> u32 \<Rightarrow> bool" where
  "index_valid s l \<longleftrightarrow> map_index (mem s) (map_hdr s l) = 0 \<or> map_indexed (mem s) (map_hdr s l) (map fst (map_alist s l))"

definition map_get :: "rt \<Rightarrow> u32 \<Rightarrow> cel_value \<Rightarrow> cel_value option" where
  "map_get s l key = Option.bind (scalar_of (mem s) key) (map_of (map_alist s l))"

lemma lookup_and_in_correct:
  assumes ok: "map_ok s l" "index_valid s l" and key: "\<not> poisoned (cv s k)"
  shows "\<exists>s'. cel_map_lookup h out l k s = Some s' \<and> only_cell (cel_value_at out) s s' \<and>
      (case map_get s l (cv s k) of Some v \<Rightarrow> cv s' out = v | None \<Rightarrow> is_err (cv s' out) CEL_ERR_NO_SUCH_KEY)"
    and "\<exists>s'. cel_map_in h out k l s = Some s' \<and> only_cell (cel_value_at out) s s' \<and>
      is_bool (cv s' out) (map_get s l (cv s k) \<noteq> None)"
proof -
  let ?h = "map_hdr s l" and ?key = "cv s k" and ?out = "cel_value_at out"
  have kinds: "cv_kind ?key \<noteq> CEL_ERROR" "cv_kind ?key \<noteq> CEL_UNKNOWN" "cv_kind (cv s l) = CEL_MAP_ARENA"
    using key ok(1) by (simp_all add: poisoned_def map_ok_def)
  have hd: "arena_map_header (cv s l) = ?h" by (simp add: map_hdr_def)
  define find where "find = (if map_index (mem s) ?h \<noteq> 0 then cel_map_index_find (mem s) ?h ?key else scan_entry (mem s) ?h ?key)"
  obtain e where e: "find = Some e" "case map_get s l ?key of
       Some v \<Rightarrow> e \<noteq> UINT32_MAX \<and> load_cv (mem s) (arena_map_entry_val (mem s) ?h e) = v | None \<Rightarrow> e = UINT32_MAX"
    using scan.find_map_of [OF ok(1) TrueI, of ?key] swiss.find_map_of [OF ok(1), of ?key] ok(2)
    unfolding find_def index_valid_def map_get_def by (cases "map_index (mem s) ?h = 0") auto
  have some: "(case map_scan (mem s) ?h ?key of Some i \<Rightarrow> f (word_of_nat i) | None \<Rightarrow> g) =
      (if e \<noteq> UINT32_MAX then f e else g)" if "map_index (mem s) ?h = 0" for f :: "u32 \<Rightarrow> 'z" and g
  proof (cases "map_scan (mem s) ?h ?key")
    case None
    then show ?thesis using e(1) that by (simp add: find_def scan_entry_def)
  next
    case (Some i)
    then have ei: "e = word_of_nat i" using e(1) that by (simp add: find_def scan_entry_def)
    have "i < unat (map_count (mem s) ?h)" using Some by (auto simp: map_scan_def find_Some_iff)
    then have "i < 2 ^ 32 - 1" using unat_u32_lt [of "map_count (mem s) ?h"] by simp
    then have "unat e = i" "i \<noteq> unat UINT32_MAX" by (simp_all add: ei unat_of_nat)
    then show ?thesis using Some ei by auto
  qed
  have eq: "cel_map_lookup h out l k s = Some (if e \<noteq> UINT32_MAX then copy_cv ?out (arena_map_entry_val (mem s) ?h e) s
      else poison ?out CEL_ERR_NO_SUCH_KEY s)"
    using kinds e(1) some [of "Some (poison ?out CEL_ERR_NO_SUCH_KEY s)" "\<lambda>w. Some (copy_cv ?out (arena_map_entry_val (mem s) ?h w) s)"]
    by (cases "map_index (mem s) ?h = 0")
      (simp_all add: cel_map_lookup_def cel_map_lookup_arena_def Let_def hd find_def)
  show "\<exists>s'. cel_map_lookup h out l k s = Some s' \<and> only_cell ?out s s' \<and>
      (case map_get s l ?key of Some v \<Rightarrow> cv s' out = v | None \<Rightarrow> is_err (cv s' out) CEL_ERR_NO_SUCH_KEY)"
    unfolding eq using e(2) is_err_poison by (auto simp: cell_simps split: option.splits)
  have eq2: "cel_map_in h out k l s = Some (write_bool ?out (e \<noteq> UINT32_MAX) s)"
    using kinds e(1) some [of "Some (write_bool ?out False s)" "\<lambda>w. Some (write_bool ?out True s)"]
    by (cases "map_index (mem s) ?h = 0")
      (auto simp: cel_map_in_def cel_map_in_arena_def absorb_3vl_binary_def Let_def hd find_def)
  show "\<exists>s'. cel_map_in h out k l s = Some s' \<and> only_cell ?out s s' \<and> is_bool (cv s' out) (map_get s l ?key \<noteq> None)"
    unfolding eq2 using e(2) by (auto simp: cell_simps is_defs pl_defs split: option.splits)
qed

subsection \<open>Iterating\<close>

text \<open>
  The loop a comprehension over a map is compiled to: advance, copy the key and the value into two
  slots, run the body (here: collect the two cells). \<open>None\<close> when the fuel runs out.
\<close>

fun walk :: "nat \<Rightarrow> u32 \<Rightarrow> u32 \<Rightarrow> u32 \<Rightarrow> rt \<Rightarrow> ((cel_value \<times> cel_value) list \<times> rt) option" where
  "walk 0 handle k v s = None"
| "walk (Suc fuel) handle k v s =
     (let (more, s) = cel_map_iter_next handle s in
      if more then
        (let s = cel_map_iter_key_at k handle s; s = cel_map_iter_value_at v handle s in
         map_option (\<lambda>(xs, t). ((cv s k, cv s v) # xs, t)) (walk fuel handle k v s))
      else Some ([], s))"

definition map_pairs :: "rt \<Rightarrow> u32 \<Rightarrow> (cel_value \<times> cel_value) list" where
  "map_pairs s l = map (\<lambda>i. (load_cv (mem s) (map_run s l + 48 * i), load_cv (mem s) (map_run s l + 48 * i + 24))) [0..<map_len s l]"

text \<open>The iterator stands before entry \<open>i\<close> of the map with header \<open>hdr\<close>, run \<open>r\<close> and \<open>n\<close> entries.\<close>

definition iter_at :: "rt \<Rightarrow> nat \<Rightarrow> nat \<Rightarrow> nat \<Rightarrow> nat \<Rightarrow> nat \<Rightarrow> bool" where
  "iter_at s st hdr r n i \<longleftrightarrow> iter_kind (mem s) st = MAP_ITER_KIND_ARENA \<and> unat (iter_cursor (mem s) st) = i
     \<and> unat (iter_payload (mem s) st) = hdr \<and> unat (map_count (mem s) hdr) = n \<and> unat (map_entries (mem s) hdr) = r"

lemma iter_at_agree:
  assumes "iter_at s st hdr r n i" "agree (mem s) (mem s') st 16" "agree (mem s) (mem s') hdr 16"
  shows "iter_at s' st hdr r n i"
proof -
  have "load32 (mem s') (a + d) = load32 (mem s) (a + d)" if "a = st \<or> a = hdr" "d \<le> 12" for a d
    using agree_loads(3) [OF assms(2), of d] agree_loads(3) [OF assms(3), of d] that by auto
  from this [of st 0] this [of st 4] this [of st 8] this [of hdr 0] this [of hdr 8] show ?thesis using assms(1)
    by (simp add: iter_at_def iter_kind_def iter_cursor_def iter_payload_def map_count_def map_entries_def)
qed

lemma same_outside_agree': "same_outside b z m m' \<Longrightarrow> apart a k b z \<Longrightarrow> agree m m' a k"
  using bytes_same_apart by blast

text \<open>The three steps of the loop body: advance, copy the key, copy the value.\<close>

lemma iter_next_step:
  assumes it: "iter_at s (unat handle) hdr r n i" and nz: "handle \<noteq> 0" and i: "i < n" and ap: "apart hdr 16 (unat handle) 16"
  obtains m where "cel_map_iter_next handle s = (True, s\<lparr>mem := m\<rparr>)" "same_outside (unat handle) 16 (mem s) m"
    "iter_at (s\<lparr>mem := m\<rparr>) (unat handle) hdr r n (i + 1)"
proof -
  let ?st = "unat handle"
  define m where "m = store32 (mem s) (?st + 4) (iter_cursor (mem s) ?st + 1)"
  have so: "same_outside ?st 16 (mem s) m" unfolding m_def by (rule same_outside_store32) simp_all
  have "unat (iter_cursor (mem s) ?st + 1) = Suc (unat (iter_cursor (mem s) ?st))"
    by (rule unat_succ_u32 [of _ "map_count (mem s) hdr"]) (use it i in \<open>simp add: iter_at_def\<close>)
  then have cur: "unat (iter_cursor m ?st) = i + 1" using it by (simp add: m_def iter_cursor_def mem_simps iter_at_def)
  have "load32 m ?st = load32 (mem s) ?st" "load32 m (?st + 8) = load32 (mem s) (?st + 8)" by (simp_all add: m_def mem_simps)
  moreover have "load32 m hdr = load32 (mem s) hdr" "load32 m (hdr + 8) = load32 (mem s) (hdr + 8)"
    by (rule load32_apart [OF so ap]; simp)+
  ultimately have "iter_at (s\<lparr>mem := m\<rparr>) ?st hdr r n (i + 1)"
    using it cur by (simp add: iter_at_def iter_kind_def iter_payload_def map_count_def map_entries_def)
  moreover have "cel_map_iter_next handle s = (True, s\<lparr>mem := m\<rparr>)"
    using it i nz by (simp add: cel_map_iter_next_def map_iter_state_def map_iter_count_def iter_at_def Let_def word_le_nat_alt m_def)
  ultimately show thesis using that so by blast
qed

lemma iter_next_done:
  "iter_at s (unat handle) hdr r n n \<Longrightarrow> handle \<noteq> 0 \<Longrightarrow> cel_map_iter_next handle s = (False, s)"
  by (simp add: cel_map_iter_next_def map_iter_state_def map_iter_count_def iter_at_def Let_def word_le_nat_alt)

lemma iter_copy_step:
  assumes it: "iter_at s (unat handle) hdr r n (i + 1)" and nz: "handle \<noteq> 0" and i: "i < n"
  shows "cel_map_iter_key_at x handle s = copy_cv (cel_value_at x) (r + 48 * i) s"
    and "cel_map_iter_value_at x handle s = copy_cv (cel_value_at x) (r + 48 * i + 24) s"
proof -
  let ?st = "unat handle"
  have i32: "i < 2 ^ 32" using it i unat_u32_lt [of "map_count (mem s) hdr"] by (auto simp: iter_at_def)
  have c: "unat (iter_cursor (mem s) ?st) = i + 1" using it by (simp add: iter_at_def)
  then have w: "iter_cursor (mem s) ?st - 1 = word_of_nat i"
    by (metis add_diff_cancel_right' of_nat_1 of_nat_add word_of_nat_unat_u32)
  have "iter_cursor (mem s) ?st \<noteq> 0" using c by auto
  moreover have "arena_map_entry_key (mem s) hdr (word_of_nat i) = r + 48 * i"
    "arena_map_entry_val (mem s) hdr (word_of_nat i) = r + 48 * i + 24"
    using it i32 by (simp_all add: entry_address iter_at_def)
  ultimately show "cel_map_iter_key_at x handle s = copy_cv (cel_value_at x) (r + 48 * i) s"
    and "cel_map_iter_value_at x handle s = copy_cv (cel_value_at x) (r + 48 * i + 24) s"
    using it nz w
    by (simp_all add: cel_map_iter_key_at_def cel_map_iter_value_at_def copy_iter_entry_def map_iter_state_def Let_def iter_at_def)
qed

lemma walk_step:
  assumes it: "iter_at s (unat handle) hdr r n i" and nz: "handle \<noteq> 0" and i: "i < n"
    and ap: "apart hdr 16 (unat handle) 16" "apart r (48 * n) (unat handle) 16"
    and kv: "\<And>x. x \<in> {k, v} \<Longrightarrow> apart hdr 16 (cel_value_at x) 24 \<and> apart r (48 * n) (cel_value_at x) 24
      \<and> apart (unat handle) 16 (cel_value_at x) 24"
    and kvd: "apart (cel_value_at k) 24 (cel_value_at v) 24"
  shows "\<exists>s'. walk (Suc fuel) handle k v s = map_option (\<lambda>(xs, t).
        ((load_cv (mem s) (r + 48 * i), load_cv (mem s) (r + 48 * i + 24)) # xs, t)) (walk fuel handle k v s')
    \<and> iter_at s' (unat handle) hdr r n (i + 1)
    \<and> (\<forall>j. j < 48 * n \<longrightarrow> mem s' (r + j) = mem s (r + j))"
proof -
  let ?st = "unat handle" and ?k = "cel_value_at k" and ?v = "cel_value_at v"
  obtain m1 where nx: "cel_map_iter_next handle s = (True, s\<lparr>mem := m1\<rparr>)" and so1: "same_outside ?st 16 (mem s) m1"
    and it1: "iter_at (s\<lparr>mem := m1\<rparr>) ?st hdr r n (i + 1)" by (rule iter_next_step [OF it nz i ap(1)])
  define m2 where "m2 = store_cv m1 ?k (load_cv m1 (r + 48 * i))"
  define m3 where "m3 = store_cv m2 ?v (load_cv m2 (r + 48 * i + 24))"
  have so2: "same_outside ?k 24 m1 m2" and so3: "same_outside ?v 24 m2 m3"
    unfolding m2_def m3_def by (rule same_outside_store_cv)+
  have apk: "apart hdr 16 ?k 24" "apart r (48 * n) ?k 24" "apart ?st 16 ?k 24"
    and apv: "apart hdr 16 ?v 24" "apart r (48 * n) ?v 24" "apart ?st 16 ?v 24"
    using kv [of k] kv [of v] by simp_all
  have it2: "iter_at (s\<lparr>mem := m2\<rparr>) ?st hdr r n (i + 1)"
    using iter_at_agree [OF it1, of "s\<lparr>mem := m2\<rparr>"] same_outside_agree' [OF so2 apk(3)] same_outside_agree' [OF so2 apk(1)] by simp
  have it3: "iter_at (s\<lparr>mem := m3\<rparr>) ?st hdr r n (i + 1)"
    using iter_at_agree [OF it2, of "s\<lparr>mem := m3\<rparr>"] same_outside_agree' [OF so3 apv(3)] same_outside_agree' [OF so3 apv(1)] by simp
  have r1: "agree (mem s) m1 r (48 * n)" "agree m1 m2 r (48 * n)" "agree m2 m3 r (48 * n)"
    by (rule same_outside_agree' [OF so1 ap(2)], rule same_outside_agree' [OF so2 apk(2)], rule same_outside_agree' [OF so3 apv(2)])
  have ent: "load_cv m1 (r + 48 * i) = load_cv (mem s) (r + 48 * i)" "load_cv m2 (r + 48 * i + 24) = load_cv (mem s) (r + 48 * i + 24)"
    using r1 i by (auto intro!: load_cv_local simp: add.assoc)
  have key: "cel_map_iter_key_at k handle (s\<lparr>mem := m1\<rparr>) = s\<lparr>mem := m2\<rparr>"
    unfolding iter_copy_step(1) [OF it1 nz i] by (simp add: copy_cv_def m2_def)
  have val: "cel_map_iter_value_at v handle (s\<lparr>mem := m2\<rparr>) = s\<lparr>mem := m3\<rparr>"
    unfolding iter_copy_step(2) [OF it2 nz i] by (simp add: copy_cv_def m3_def)
  have "load_cv m3 ?k = load_cv m2 ?k" by (rule load_cv_apart [OF so3 kvd])
  then have cells: "cv (s\<lparr>mem := m3\<rparr>) k = load_cv (mem s) (r + 48 * i)" "cv (s\<lparr>mem := m3\<rparr>) v = load_cv (mem s) (r + 48 * i + 24)"
    using ent by (simp_all add: m2_def m3_def mem_simps)
  show ?thesis
    using it3 r1 cells by (intro exI [of _ "s\<lparr>mem := m3\<rparr>"]) (simp add: nx key val Let_def)
qed

lemma walk_correct:
  assumes "iter_at s (unat handle) hdr r n i" "handle \<noteq> 0" "i \<le> n"
    and ap: "apart hdr 16 (unat handle) 16" "apart r (48 * n) (unat handle) 16"
    and kv: "\<And>x. x \<in> {k, v} \<Longrightarrow> apart hdr 16 (cel_value_at x) 24 \<and> apart r (48 * n) (cel_value_at x) 24
      \<and> apart (unat handle) 16 (cel_value_at x) 24"
    and kvd: "apart (cel_value_at k) 24 (cel_value_at v) 24"
  shows "\<exists>s'. walk (Suc (n - i)) handle k v s =
    Some (map (\<lambda>j. (load_cv (mem s) (r + 48 * j), load_cv (mem s) (r + 48 * j + 24))) [i..<n], s')"
  using assms(1-3)
proof (induction "n - i" arbitrary: i s)
  case 0
  then have "i = n" by simp
  then have "cel_map_iter_next handle s = (False, s)" using 0 by (intro iter_next_done) simp_all
  then show ?case using \<open>i = n\<close> by simp
next
  case (Suc d)
  have i: "i < n" "n - i = Suc d" "n - (i + 1) = d" using Suc.hyps(2) by auto
  obtain s' where s': "walk (Suc (Suc d)) handle k v s = map_option (\<lambda>(xs, t).
        ((load_cv (mem s) (r + 48 * i), load_cv (mem s) (r + 48 * i + 24)) # xs, t)) (walk (Suc d) handle k v s')"
    "iter_at s' (unat handle) hdr r n (i + 1)" "\<And>j. j < 48 * n \<Longrightarrow> mem s' (r + j) = mem s (r + j)"
    using walk_step [OF Suc.prems(1,2) i(1) ap kv kvd] by blast
  have c: "load_cv (mem s') (r + 48 * j) = load_cv (mem s) (r + 48 * j)" "load_cv (mem s') (r + 48 * j + 24) = load_cv (mem s) (r + 48 * j + 24)"
    if "j < n" for j using s'(3) that by (auto intro!: load_cv_local simp: add.assoc)
  obtain t where t: "walk (Suc d) handle k v s' =
      Some (map (\<lambda>j. (load_cv (mem s') (r + 48 * j), load_cv (mem s') (r + 48 * j + 24))) [i + 1..<n], t)"
    using Suc.hyps(1) [of "i + 1" s'] s'(2) Suc.prems(2) i by auto
  have "map (\<lambda>j. (load_cv (mem s') (r + 48 * j), load_cv (mem s') (r + 48 * j + 24))) [i + 1..<n]
      = map (\<lambda>j. (load_cv (mem s) (r + 48 * j), load_cv (mem s) (r + 48 * j + 24))) [i + 1..<n]"
    by (rule map_cong) (use c in auto)
  then show ?case using s'(1) t i(1,2) by (simp add: upt_conv_Cons)
qed

text \<open>The iterator over an arena map, once its 16 bytes are allocated.\<close>

lemma map_iter_init_arena_correct:
  assumes p: "arena_alloc 16 s = Some (p, t)" "p \<noteq> 0" "extends s t" "fresh_range s (unat p) 16"
    and l: "cv_kind (cv s l) = CEL_MAP_ARENA" "kept_range s (cel_value_at l) 24"
    and nz: "map_count (mem s) (map_hdr s l) \<noteq> 0" and kh: "kept_range s (map_hdr s l) 16"
  obtains m where "cel_map_iter_init h junk l s = Some (p, t\<lparr>mem := m\<rparr>)" "extends s (t\<lparr>mem := m\<rparr>)"
    "iter_at (t\<lparr>mem := m\<rparr>) (unat p) (map_hdr s l) (map_run s l) (map_len s l) 0"
proof -
  let ?h = "map_hdr s l"
  define m where "m = store_words4 (mem t) (unat p) MAP_ITER_KIND_ARENA 0 (pl_header_ptr (load_cv (mem t) (cel_value_at l))) 0"
  have hd: "arena_map_header (cv s l) = ?h" by (simp add: map_hdr_def)
  have eq: "cel_map_iter_init h junk l s = Some (p, t\<lparr>mem := m\<rparr>)"
    using l nz p(1,2) by (simp add: cel_map_iter_init_def map_iter_init_arena_def hd m_def)
  have so: "same_outside (unat p) 16 (mem t) m" unfolding m_def by (rule same_outside_words4)
  have e: "extends s (t\<lparr>mem := m\<rparr>)" by (rule extends_fill [OF p(3) so]) (use p(4) in \<open>simp add: fresh_range_def\<close>)
  have "load32 m ?h = load32 (mem s) ?h" "load32 m (?h + 8) = load32 (mem s) (?h + 8)"
    using extends_loads(1) [OF e] kept_range_sub [OF kh] by simp_all
  moreover have "load_cv (mem t) (cel_value_at l) = cv s l" using extends_loads(2) [OF p(3) l(2)] .
  then have "load32 m (unat p) = 0" "load32 m (unat p + 4) = 0" "load32 m (unat p + 8) = pl_header_ptr (cv s l)"
    by (simp_all add: m_def mem_simps)
  ultimately have "iter_at (t\<lparr>mem := m\<rparr>) (unat p) ?h (map_run s l) (map_len s l) 0"
    by (simp add: iter_at_def iter_kind_def iter_cursor_def iter_payload_def map_len_def map_run_def map_count_def map_entries_def
        map_hdr_def arena_map_header_def)
  then show thesis using that eq e by blast
qed

lemma poison_walk:
  assumes nz: "handle \<noteq> 0" and top: "unat handle + 64 \<le> 2 ^ 32"
    and m: "m = store_cv (store_cv (store_words4 m0 (unat handle) MAP_ITER_KIND_HOST 0 (handle + 16) 1) (unat handle + 16) e) (unat handle + 40) f"
    and k: "apart (cel_value_at k) 24 (unat handle) 64" and v: "apart (cel_value_at v) 24 (unat handle) 64"
    and kv: "apart (cel_value_at k) 24 (cel_value_at v) 24"
  shows "\<exists>s2. walk 2 handle k v (s\<lparr>mem := m\<rparr>) = Some ([(e, f)], s2)"
proof -
  let ?st = "unat handle" and ?k = "cel_value_at k" and ?v = "cel_value_at v"
  have e16: "unat (handle + 16) = ?st + 16" using top by (simp add: unat_word_ariths)
  have e40: "unat (40 + handle) = ?st + 40" using top by (simp add: unat_word_ariths)
  define m1 where "m1 = store32 m (?st + 4) 1"
  define m2 where "m2 = store_cv m1 ?k e"
  define m3 where "m3 = store_cv m2 ?v f"
  have w: "load32 m ?st = MAP_ITER_KIND_HOST" "load32 m (?st + 4) = 0" "load32 m (?st + 8) = handle + 16" "load32 m (?st + 12) = 1"
    "load_cv m (?st + 16) = e" "load_cv m (?st + 40) = f"
    unfolding m by (simp_all add: mem_simps)
  have so1: "same_outside (?st + 4) 4 m m1" unfolding m1_def by (rule same_outside_store32) simp_all
  have w1: "load32 m1 ?st = MAP_ITER_KIND_HOST" "load32 m1 (?st + 4) = 1" "load32 m1 (?st + 8) = handle + 16" "load32 m1 (?st + 12) = 1"
    "load_cv m1 (?st + 16) = e" "load_cv m1 (?st + 40) = f"
    using load_cv_apart [OF so1, of "?st + 16"] load_cv_apart [OF so1, of "?st + 40"]
    unfolding m1_def by (simp_all add: mem_simps w apart_def)
  have so2: "same_outside ?k 24 m1 m2" and so3: "same_outside ?v 24 m2 m3" unfolding m2_def m3_def by (rule same_outside_store_cv)+
  have a2: "agree m1 m2 ?st 64" using same_outside_agree' [OF so2] k by (simp add: apart_sym)
  have a3: "agree m2 m3 ?st 64" using same_outside_agree' [OF so3] v by (simp add: apart_sym)
  have w2: "load32 m2 (?st + d) = load32 m1 (?st + d)" "load32 m3 (?st + d) = load32 m2 (?st + d)" if "d \<le> 12" for d
    using agree_loads(3) [OF a2, of d] agree_loads(3) [OF a3, of d] that by simp_all
  have w2': "load_cv m2 (?st + 40) = f" using load_cv_apart [OF so2, of "?st + 40"] k w1(6) by (auto simp: apart_def)
  have "load_cv m3 ?k = load_cv m2 ?k" by (rule load_cv_apart [OF so3 kv])
  then have c: "load_cv m3 ?k = e" "load_cv m3 ?v = f" by (simp_all add: m2_def m3_def mem_simps)
  have n1: "cel_map_iter_next handle (s\<lparr>mem := m\<rparr>) = (True, s\<lparr>mem := m1\<rparr>)"
    using w nz by (simp add: cel_map_iter_next_def map_iter_state_def map_iter_count_def iter_kind_def iter_count_def iter_cursor_def m1_def Let_def)
  have key: "cel_map_iter_key_at k handle (s\<lparr>mem := m1\<rparr>) = s\<lparr>mem := m2\<rparr>"
    using w1 nz by (simp add: cel_map_iter_key_at_def copy_iter_entry_def map_iter_state_def iter_kind_def iter_cursor_def iter_payload_def
        Let_def copy_cv_def e16 m2_def)
  have val: "cel_map_iter_value_at v handle (s\<lparr>mem := m2\<rparr>) = s\<lparr>mem := m3\<rparr>"
    using w1 w2(1) [of 0] w2(1) [of 4] w2(1) [of 8] w2' nz by (simp add: cel_map_iter_value_at_def copy_iter_entry_def map_iter_state_def iter_kind_def
        iter_cursor_def iter_payload_def Let_def copy_cv_def e40 m3_def)
  have n3: "cel_map_iter_next handle (s\<lparr>mem := m3\<rparr>) = (False, s\<lparr>mem := m3\<rparr>)"
    using w1 w2(1) [of 0] w2(1) [of 4] w2(1) [of 12] w2(2) [of 0] w2(2) [of 4] w2(2) [of 12] nz
    by (simp add: cel_map_iter_next_def map_iter_state_def map_iter_count_def iter_kind_def iter_count_def iter_cursor_def Let_def)
  show ?thesis by (simp add: numeral_2_eq_2 n1 key val n3 c Let_def)
qed

text \<open>
  When the arena refuses the iterator, the emergency block holds the one entry of an error iteration, so the loop is never
  silently empty. It must lie in the address space and apart from the loop's cells.
\<close>

definition oom_block_ok :: "rt \<Rightarrow> u32 \<Rightarrow> bool" where
  "oom_block_ok s slot \<longleftrightarrow> unat (oom_block s) + 128 \<le> 2 ^ 32 \<and> apart (cel_value_at slot) 24 (unat (oom_block s)) 128"

lemma map_iteration_refused:
  assumes ok: "arena_ok s" "map_ok s l" and full: "refused [16] s" and ne: "map_len s l \<noteq> 0"
    and kv: "\<And>x. x \<in> {k, v} \<Longrightarrow> kept_range s (cel_value_at x) 24 \<and> oom_block_ok s x"
    and kvd: "apart (cel_value_at k) 24 (cel_value_at v) 24" and oom: "oom_block s \<noteq> 0"
  shows "\<exists>handle s1 s2 e. cel_map_iter_init h junk l s = Some (handle, s1)
    \<and> walk 2 handle k v s1 = Some ([(e, e)], s2) \<and> is_err e CEL_ERR_OVERFLOW"
proof -
  let ?e = "error_cell junk CEL_ERR_OVERFLOW"
  have hd: "arena_map_header (cv s l) = map_hdr s l" by (simp add: map_hdr_def)
  have nz: "map_count (mem s) (map_hdr s l) \<noteq> 0" using ne by (auto simp: map_len_def)
  obtain t where t: "arena_alloc 16 s = Some (0, t)" "arena_ok t" "oom_block t = oom_block s" "arena_used t = arena_used s"
    by (cases rule: arena_alloc_cases [OF ok(1), of 16]) (use full in \<open>auto simp: fresh_block_def\<close>)
  have "cel_map_iter_init h junk l s = map_iter_init_arena junk (cel_value_at l) s"
    using ok(2) by (simp add: cel_map_iter_init_def map_ok_def)
  then have init: "cel_map_iter_init h junk l s = vend_poison_map_iter (\<lambda>_. ?e) t"
    using nz t(1) by (simp add: map_iter_init_arena_def hd)
  obtain handle u where u: "vend_poison_map_iter (\<lambda>_. ?e) t = Some (handle, u\<lparr>mem := store_cv (store_cv (store_words4 (mem u) (unat handle)
      MAP_ITER_KIND_HOST 0 (handle + 16) 1) (unat (handle + 16)) ?e) (unat (handle + 16 + 24)) ?e\<rparr>)"
    and h: "handle \<noteq> 0" "unat handle + 64 \<le> 2 ^ 32" "\<And>x. x \<in> {k, v} \<Longrightarrow> apart (cel_value_at x) 24 (unat handle) 64"
  proof (cases rule: arena_alloc_cases [OF t(2), of 64])
    case (1 u)
    have b: "unat (oom_block s + 64) = unat (oom_block s) + 64" using kv [of k] by (simp add: oom_block_ok_def unat_word_ariths)
    show thesis
    proof (rule that [of "oom_block s + 64" u])
      show "oom_block s + 64 \<noteq> 0" using b by (metis add_is_0 unat_0 zero_neq_numeral)
      show "unat (oom_block s + 64) + 64 \<le> 2 ^ 32" using kv [of k] b by (simp add: oom_block_ok_def)
      show "apart (cel_value_at x) 24 (unat (oom_block s + 64)) 64" if "x \<in> {k, v}" for x
        using kv [OF that] b by (auto simp: oom_block_ok_def apart_def)
    qed (use 1 oom t(3) in \<open>simp add: vend_poison_map_iter_def arena_oom_block_def Let_def\<close>)
  next
    case (2 p u)
    have p0: "p \<noteq> 0" using 2(4) by (auto simp: fresh_block_def)
    have e: "fresh_range t (unat p) 64" "unat p + 64 \<le> 2 ^ 32 - 1"
    proof -
      have "fresh_range t (unat p) 64 \<and> unat p + 64 \<le> 2 ^ 32 - 1"
      proof (cases rule: arena_alloc_extends [OF t(2), of 64])
        case (1 u')
        then show ?thesis using 2(1) p0 by simp
      next
        case (2 p' u')
        then have "p' = p" using \<open>arena_alloc 64 t = Some (p, u)\<close> by simp
        then show ?thesis using 2(5,6) by (simp add: fresh_range_def)
      qed
      then show "fresh_range t (unat p) 64" "unat p + 64 \<le> 2 ^ 32 - 1" by simp_all
    qed
    have "apart (cel_value_at x) 24 (unat p) 64" if "x \<in> {k, v}" for x
      using fresh_apart [OF e(1)] kv [OF that] t(4) by (simp add: kept_range_def kept_def)
    then show thesis using that [of p u] 2(1) p0 e(2) by (auto simp: vend_poison_map_iter_def Let_def)
  qed
  have a: "unat (handle + 16) = unat handle + 16" "unat (handle + 16 + 24) = unat handle + 40"
    using h(2) by (simp_all add: unat_word_ariths)
  obtain s2 where "walk 2 handle k v (u\<lparr>mem := store_cv (store_cv (store_words4 (mem u) (unat handle) MAP_ITER_KIND_HOST 0 (handle + 16) 1)
      (unat (handle + 16)) ?e) (unat (handle + 16 + 24)) ?e\<rparr>) = Some ([(?e, ?e)], s2)"
    using poison_walk [OF h(1,2) refl h(3) h(3) kvd, where ?m0.0 = "mem u" and e = ?e and f = ?e and s = u] unfolding a by auto
  then show ?thesis using init u error_cell_is_err(1) by metis
qed

lemma map_iteration_correct:
  assumes ok: "arena_ok s" "map_ok s l"
    and room: "map_len s l \<noteq> 0 \<Longrightarrow> \<not> refused [16] s"
    and kv: "\<And>x. x \<in> {k, v} \<Longrightarrow> kept_range s (cel_value_at x) 24 \<and> map_apart s l (cel_value_at x) 24"
    and kvd: "apart (cel_value_at k) 24 (cel_value_at v) 24"
  shows "\<exists>handle s1 s2. cel_map_iter_init h junk l s = Some (handle, s1) \<and>
    walk (Suc (map_len s l)) handle k v s1 = Some (map_pairs s l, s2)"
proof -
  let ?h = "map_hdr s l" and ?r = "map_run s l" and ?n = "map_len s l"
  have hd: "arena_map_header (cv s l) = ?h" by (simp add: map_hdr_def)
  have init: "cel_map_iter_init h junk l s = map_iter_init_arena junk (cel_value_at l) s"
    using ok(2) by (simp add: cel_map_iter_init_def map_ok_def)
  show ?thesis
  proof (cases "?n = 0")
    case True
    then have "map_count (mem s) ?h = 0" by (simp add: map_len_def unat_eq_0)
    then have "cel_map_iter_init h junk l s = Some (0, s)" by (simp add: init map_iter_init_arena_def hd)
    then show ?thesis using True by (simp add: map_pairs_def cel_map_iter_next_def map_iter_state_def)
  next
    case False
    then have nz: "map_count (mem s) ?h \<noteq> 0" by (auto simp: map_len_def)
    obtain p t where p: "arena_alloc 16 s = Some (p, t)" "p \<noteq> 0" "extends s t"
      "\<And>x. unat p \<le> x \<Longrightarrow> x < unat p + unat (16 :: u32) \<Longrightarrow> \<not> kept s x"
      by (cases rule: arena_alloc_extends [OF ok(1), of 16]) (use room False in auto)
    have fr: "fresh_range s (unat p) 16" using p(4) by (simp add: fresh_range_def)
    have le: "?n \<le> map_room s l" using ok(2) by (simp add: map_ok_def)
    have kp: "kept_range s ?h 16" "kept_range s ?r (48 * ?n)" "kept_range s (cel_value_at l) 24"
      using ok(2) le by (auto simp: map_ok_def elim: kept_range_tail)
    obtain m where m: "cel_map_iter_init h junk l s = Some (p, t\<lparr>mem := m\<rparr>)" "extends s (t\<lparr>mem := m\<rparr>)"
      "iter_at (t\<lparr>mem := m\<rparr>) (unat p) ?h ?r ?n 0"
      using map_iter_init_arena_correct [OF p(1-3) fr _ kp(3) nz kp(1), of h junk] ok(2) by (auto simp: map_ok_def)
    let ?s = "t\<lparr>mem := m\<rparr>"
    have ag: "agree (mem s) m a k" if "kept_range s a k" for a k using extends_same [OF m(2) that] by simp
    have ap: "apart ?h 16 (unat p) 16" "apart ?r (48 * ?n) (unat p) 16" using fresh_apart [OF fr] kp by blast+
    have kv': "apart ?h 16 (cel_value_at x) 24 \<and> apart ?r (48 * ?n) (cel_value_at x) 24 \<and> apart (unat p) 16 (cel_value_at x) 24"
      if "x \<in> {k, v}" for x
    proof -
      have a: "apart (cel_value_at x) 24 ?h 16" "apart (cel_value_at x) 24 ?r (48 * map_room s l)"
        using kv [OF that] by (simp_all add: map_apart_def)
      have "apart (cel_value_at x) 24 ?r (48 * ?n)" by (rule apart_sub [OF a(2)]) (use le in simp_all)
      then show ?thesis using a(1) fresh_apart [OF fr] kv [OF that] by (simp add: apart_sym)
    qed
    obtain s2 where "walk (Suc (?n - 0)) p k v ?s =
      Some (map (\<lambda>j. (load_cv (mem ?s) (?r + 48 * j), load_cv (mem ?s) (?r + 48 * j + 24))) [0..<?n], s2)"
      using walk_correct [OF m(3) p(2) _ ap kv' kvd] by blast
    moreover have "map (\<lambda>j. (load_cv (mem ?s) (?r + 48 * j), load_cv (mem ?s) (?r + 48 * j + 24))) [0..<?n] = map_pairs s l"
      unfolding map_pairs_def
      by (rule map_cong) (use ag [OF kp(2)] in \<open>auto intro!: load_cv_local simp: add.assoc\<close>)
    ultimately show ?thesis using m(1) by simp
  qed
qed

subsection \<open>A concrete map\<close>

text \<open>The map \<open>{7: 1}\<close> with room for two at 128, a key 8 at 160, a value 2 at 192, and \<open>{9: 3}\<close> at 256.\<close>

definition sample_dict :: rt where
  "sample_dict = sample_rt\<lparr>mem :=
     store_cv (store_cv (store_words4 (store_cv (store_cv (store_cv (
     store_cv (store_cv (store_words4 (store_cv (\<lambda>_. 0) 256 (cell_of CEL_MAP_ARENA 520)) 520 1 1 600 0)
       600 (cell_of CEL_INT 9)) 624 (cell_of CEL_INT 3)) 128 (cell_of CEL_MAP_ARENA 300))
       160 (cell_of CEL_INT 8)) 192 (cell_of CEL_INT 2)) 300 1 2 400 0) 400 (cell_of CEL_INT 7)) 424 (cell_of CEL_INT 1)\<rparr>"

lemma sample_dict_cells:
  "cv sample_dict 128 = cell_of CEL_MAP_ARENA 300" "cv sample_dict 160 = cell_of CEL_INT 8" "cv sample_dict 192 = cell_of CEL_INT 2"
  "load_cv (mem sample_dict) 400 = cell_of CEL_INT 7" "load_cv (mem sample_dict) 424 = cell_of CEL_INT 1"
  "cv sample_dict 256 = cell_of CEL_MAP_ARENA 520"
  "load_cv (mem sample_dict) 600 = cell_of CEL_INT 9" "load_cv (mem sample_dict) 624 = cell_of CEL_INT 3"
  by (simp_all add: sample_dict_def cel_value_at_def mem_simps load_cv_store_words4_other)

lemma sample_dict_fields:
  "map_hdr sample_dict 128 = 300" "map_run sample_dict 128 = 400" "map_room sample_dict 128 = 2" "map_len sample_dict 128 = 1"
  "map_index (mem sample_dict) 300 = 0"
proof -
  show h: "map_hdr sample_dict 128 = 300"
    by (simp add: map_hdr_def sample_dict_cells arena_map_header_def pl_defs lo32_def)
  have w: "load32 (mem sample_dict) 300 = 1" "load32 (mem sample_dict) 304 = 2" "load32 (mem sample_dict) 308 = 400"
    "load32 (mem sample_dict) 312 = 0"
    using load_words4 [of _ 300 1 2 400 0] by (simp_all add: sample_dict_def load32_store_cv_other)
  then show "map_run sample_dict 128 = 400" "map_room sample_dict 128 = 2" "map_len sample_dict 128 = 1"
    "map_index (mem sample_dict) 300 = 0"
    by (simp_all add: map_run_def map_room_def map_len_def h map_entries_def map_capacity_def map_count_def map_index_def)
qed

lemma sample_dict_ok: "arena_ok sample_dict" "map_ok sample_dict 128"
  "map_alist sample_dict 128 = [(SNum (7 * int d_unit), cell_of CEL_INT 1)]"
proof -
  show "arena_ok sample_dict" by (simp add: sample_dict_def sample_rt_ok)
  show al: "map_alist sample_dict 128 = [(SNum (7 * int d_unit), cell_of CEL_INT 1)]"
    by (simp add: map_alist_def sample_dict_fields entries_at_def sample_dict_cells scalar_of_int_cell)
  show "map_ok sample_dict 128"
    unfolding map_ok_def sample_dict_fields al sample_dict_cells
    by (simp add: low_kept apart_def cel_value_at_def sample_dict_cells key_ok_def is_valid_map_key_kind_def scalar_ranges_def)
qed

lemma sample_dict_source: "merge_source sample_dict 256 128"
proof -
  have h: "map_hdr sample_dict 256 = 520"
    by (simp add: map_hdr_def sample_dict_cells arena_map_header_def pl_defs lo32_def)
  have w: "load32 (mem sample_dict) 520 = 1" "load32 (mem sample_dict) 524 = 1" "load32 (mem sample_dict) 528 = 600"
    using load_words4 [of _ 520 1 1 600 0]
    by (simp_all add: sample_dict_def load32_store_cv_other load32_store_words4_other)
  then have f: "map_run sample_dict 256 = 600" "map_room sample_dict 256 = 1" "map_len sample_dict 256 = 1"
    by (simp_all add: map_run_def map_room_def map_len_def h map_entries_def map_capacity_def map_count_def)
  show ?thesis
    unfolding merge_source_def f h map_apart_def sample_dict_fields
    by (simp add: low_kept apart_def cel_value_at_def sample_dict_cells key_ok_def is_valid_map_key_kind_def
        scalar_ranges_def poisoned_def)
qed

lemma sample_dict_alloc: "arena_alloc 16 sample_dict \<noteq> Some (0, t)"
  using sample_rt_init(2)
  by (simp add: arena_alloc_def sample_dict_def sample_rt_chunks align_up_8_def bump_tail_def Let_def)

lemma sample_dict_apart: "x \<in> {160, 192, 224} \<Longrightarrow> kept_range sample_dict (cel_value_at x) 24 \<and> map_apart sample_dict 128 (cel_value_at x) 24"
  by (auto simp: low_kept cel_value_at_def map_apart_def sample_dict_fields apart_def)

lemma sample_dict_key: "key_ok sample_dict 128 (cv sample_dict 160)"
  "scalar_of (mem sample_dict) (cv sample_dict 160) = Some (SNum (8 * int d_unit))"
  unfolding sample_dict_cells by (simp_all add: key_ok_def is_valid_map_key_kind_def scalar_ranges_def scalar_of_int_cell)

subsection \<open>Properties\<close>

text \<open>
  Inserting an entry of a map literal: a repeated key poisons the map with the duplicate-key
  error, an entry beyond the created capacity poisons it with the overflow error, and otherwise
  the entry is added at the end; memory the map does not own is left alone.
\<close>

theorem map_insert_literal:
  assumes "arena_ok s" "map_ok s l" "key_ok s l (cv s k)" "scalar_of (mem s) (cv s k) = Some x"
    and "\<not> poisoned (cv s v)" "map_apart s l (cel_value_at v) 24"
  shows "\<exists>s'. cel_map_insert l k v s = Some s' \<and>
    (if x \<in> set (map fst (map_alist s l)) then is_err (cv s' l) CEL_ERR_DUPLICATE_KEY \<and> only_cell (cel_value_at l) s s'
     else if map_len s l < map_room s l
       then map_ok s' l \<and> map_alist s' l = map_alist s l @ [(x, cv s v)] \<and> map_frame s s' l
     else is_err (cv s' l) CEL_ERR_OVERFLOW \<and> only_cell (cel_value_at l) s s')"
  by (rule cel_map_insert_correct [OF assms])

theorem map_insert_literal_witness:
  "\<exists>s'. cel_map_insert 128 160 192 sample_dict = Some s' \<and>
     map_alist s' 128 = [(SNum (7 * int d_unit), cell_of CEL_INT 1), (SNum (8 * int d_unit), cell_of CEL_INT 2)]"
  using map_insert_literal [OF sample_dict_ok(1,2) sample_dict_key, of 192] sample_dict_apart [of 192]
  by (auto simp: sample_dict_cells poisoned_def sample_dict_ok(3) sample_dict_fields split: if_splits)

text \<open>
  C11. Inserting into a comprehension accumulator is association-list update: a present key gets the
  new value in place, a new key goes to the end; with room for a new key it never traps, and the
  map stays well formed.
\<close>

theorem map_insert_at_updates:
  assumes "arena_ok s" "map_ok s l" "key_ok s l (cv s k)" "scalar_of (mem s) (cv s k) = Some x"
    and "\<not> poisoned (cv s v)"
    and "kept_range s (cel_value_at k) 24" "map_apart s l (cel_value_at k) 24"
    and "kept_range s (cel_value_at v) 24" "map_apart s l (cel_value_at v) 24"
    and "map_len s l < map_room s l \<or> x \<in> set (map fst (map_alist s l))"
  shows "\<exists>s'. cel_map_insert_at l k v s = Some s' \<and> map_ok s' l \<and> map_frame s s' l
    \<and> map_alist s' l = AList.update x (cv s v) (map_alist s l)"
proof -
  have "cel_map_insert_at l k v s = map_insert_at_kernel (cel_value_at l) (cel_value_at k) (cel_value_at v) False s"
    using assms(2) by (simp add: cel_map_insert_at_def map_ok_def)
  then show ?thesis using map_insert_kernel_correct [OF assms(1-9), of False] assms(10) by auto
qed

theorem map_insert_at_updates_witness:
  "\<exists>s'. cel_map_insert_at 128 160 192 sample_dict = Some s' \<and> map_ok s' 128"
  using map_insert_at_updates [OF sample_dict_ok(1,2) sample_dict_key, of 192] sample_dict_apart [of 192] sample_dict_apart [of 160]
  by (auto simp: sample_dict_cells poisoned_def sample_dict_fields)

text \<open>
  C12. Lookup and membership are the finite map of the entries, whether the map is scanned or has an
  index, and for keys of every kind: a double or uint finds the int key of the same number. Only
  the out slot is written.
\<close>

theorem map_lookup_is_map_of:
  assumes "map_ok s l" "index_valid s l" "\<not> poisoned (cv s k)"
  shows "(\<exists>s'. cel_map_lookup h out l k s = Some s' \<and> only_cell (cel_value_at out) s s' \<and>
      (case map_get s l (cv s k) of Some v \<Rightarrow> cv s' out = v | None \<Rightarrow> is_err (cv s' out) CEL_ERR_NO_SUCH_KEY))
    \<and> (\<exists>s'. cel_map_in h out k l s = Some s' \<and> only_cell (cel_value_at out) s s' \<and>
      is_bool (cv s' out) (map_get s l (cv s k) \<noteq> None))"
  using lookup_and_in_correct [OF assms] by blast

theorem map_lookup_is_map_of_witness:
  "\<exists>s'. cel_map_lookup weak_host 224 128 160 sample_dict = Some s' \<and> is_err (cv s' 224) CEL_ERR_NO_SUCH_KEY"
proof -
  have "index_valid sample_dict 128" by (simp add: index_valid_def sample_dict_fields)
  moreover have "\<not> poisoned (cv sample_dict 160)" unfolding sample_dict_cells by (simp add: poisoned_def)
  moreover have "map_get sample_dict 128 (cv sample_dict 160) = None"
    using d_unit_pos(1) by (simp add: map_get_def sample_dict_key sample_dict_ok)
  ultimately show ?thesis using map_lookup_is_map_of [OF sample_dict_ok(2), of 160 weak_host 224] by auto
qed

text \<open>
  Merging an arena map into an accumulator adds the maps with the source winning, growing the
  accumulator as needed: the result is the fold of the source's entries, in order, over the
  accumulator's, or the overflow error when the arena is exhausted.
\<close>

theorem map_merge_adds:
  assumes "arena_ok s" "map_ok s l" "merge_source s e l" "cv_kind (cv s e) = CEL_MAP_ARENA"
  shows "\<exists>s'. cel_map_merge_at h junk l e s = Some s'
    \<and> (map_ok s' l \<and> map_frame s s' l
         \<and> map_alist s' l = fold (\<lambda>(k, v). AList.update k v) (map_alist s e) (map_alist s l)
         \<and> map_of (map_alist s' l) = map_of (map_alist s l) ++ map_of (rev (map_alist s e))
       \<or> is_err (cv s' l) CEL_ERR_OVERFLOW)"
proof -
  have "cel_map_merge_at h junk l e s = map_merge_arena_from (cel_value_at l) (map_hdr s e) (map_len s e) 0 s"
    using assms(2,4) by (simp add: cel_map_merge_at_def map_ok_def map_merge_arena_entries_def Let_def map_hdr_def map_len_def)
  then show ?thesis
    using merge_arena_correct [OF assms(1-3), of 0] map_of_fold_update by auto
qed

theorem map_merge_adds_witness:
  "\<exists>s'. cel_map_merge_at weak_host (cell_of 0 0) 128 256 sample_dict = Some s'"
  using map_merge_adds [OF sample_dict_ok(1,2) sample_dict_source, of weak_host "cell_of 0 0"]
  unfolding sample_dict_cells by auto

text \<open>
  C13. Iterating over a map visits each of its entries exactly once, in order, and then ends: the
  compiled loop, with fuel for one round more than there are entries, collects exactly the
  entries' key and value cells. The map is empty or the arena has the 16 bytes of the iterator; when it
  refuses them the loop makes one error round instead (lemma \<open>map_iteration_refused\<close>).
\<close>

theorem map_iteration_complete:
  assumes "arena_ok s" "map_ok s l" "map_len s l = 0 \<or> \<not> refused [16] s"
    and "\<forall>x \<in> {k, v}. kept_range s (cel_value_at x) 24 \<and> map_apart s l (cel_value_at x) 24"
    and "apart (cel_value_at k) 24 (cel_value_at v) 24"
  shows "\<exists>handle s1 s2. cel_map_iter_init h junk l s = Some (handle, s1) \<and>
    walk (Suc (map_len s l)) handle k v s1 = Some (map_pairs s l, s2)"
proof (rule map_iteration_correct [OF assms(1,2)])
  show "map_len s l \<noteq> 0 \<Longrightarrow> \<not> refused [16] s" using assms(3) by (simp del: refused.simps)
qed (use assms(4,5) in blast)+

theorem map_iteration_complete_witness:
  "\<exists>handle s1 s2. cel_map_iter_init weak_host (cell_of 0 0) 128 sample_dict = Some (handle, s1) \<and>
    walk 2 handle 160 192 s1 = Some ([(cell_of CEL_INT 7, cell_of CEL_INT 1)], s2)"
proof -
  have a: "apart (cel_value_at 160) 24 (cel_value_at 192) 24" by (simp add: cel_value_at_def apart_def)
  have p: "map_pairs sample_dict 128 = [(cell_of CEL_INT 7, cell_of CEL_INT 1)]"
    by (simp add: map_pairs_def sample_dict_fields sample_dict_cells)
  have n: "Suc (map_len sample_dict 128) = 2" by (simp add: sample_dict_fields)
  have r: "\<not> refused [16] sample_dict" using sample_dict_alloc by (auto split: option.splits)
  show ?thesis
    using map_iteration_complete [OF sample_dict_ok(1,2) _ _ a, of weak_host "cell_of 0 0"] sample_dict_apart r
    unfolding p n by blast
qed

end
