(* ===== verification/Equality.thy ===== *)
theory Equality
  imports MapOps
begin

text \<open>
  Deep equality (\<open>runtime/cel_runtime.c\<close>): the polymorphic equality kernel behind \<open>==\<close> and \<open>!=\<close>, the
  element scans of \<open>in\<close> on lists, and structural equality of lists and maps. The C functions recurse
  through one another along the nesting of the values; here the kernel takes a fuel, and the
  aggregate walks take the kernel they recurse through as the argument \<open>eqk\<close>. Fuel 0 is \<open>None\<close>.
\<close>

subsection \<open>Offsets of elements and entries\<close>

definition arena_list_element_off :: "memory \<Rightarrow> nat \<Rightarrow> u32 \<Rightarrow> u32" where
  "arena_list_element_off m hdr i = list_elements m hdr + 24 * i"

definition arena_map_entry_key_off :: "memory \<Rightarrow> nat \<Rightarrow> u32 \<Rightarrow> u32" where
  "arena_map_entry_key_off m hdr i = map_entries m hdr + 48 * i"

definition arena_map_entry_val_off :: "memory \<Rightarrow> nat \<Rightarrow> u32 \<Rightarrow> u32" where
  "arena_map_entry_val_off m hdr i = arena_map_entry_key_off m hdr i + 24"

subsection \<open>Comparing two values of an aggregate\<close>

text \<open>
  \<open>deep_values_equal\<close> returns 1, 0 or -1; here \<open>Some True\<close>, \<open>Some False\<close> or \<open>None\<close>, with the scratch
  offset it may have allocated and the state.
\<close>

definition deep_values_equal :: "kernel2 \<Rightarrow> u32 \<Rightarrow> u32 \<Rightarrow> u32 \<Rightarrow> rt \<Rightarrow> (bool option \<times> u32 \<times> rt) option" where
  "deep_values_equal eqk scratch a_off b_off s =
     (let a = cv s a_off; b = cv s b_off in
      if is_scalar_eq_kind (cv_kind a) \<and> is_scalar_eq_kind (cv_kind b)
      then Some (Some (cel_value_eq (mem s) a b), scratch, s)
      else do {
        (scratch, s) \<leftarrow> (if scratch = 0 then arena_alloc 24 s else Some (scratch, s));
        if scratch = 0 then Some (None, 0, s)
        else do {
          s \<leftarrow> eqk scratch a_off b_off s;
          let verdict = cv s scratch;
          Some (Some (cv_kind verdict = CEL_BOOL \<and> pl_b verdict \<noteq> 0), scratch, s)
        }
      })"

subsection \<open>Membership in a list\<close>

definition arena_list_scan_numeric :: "memory \<Rightarrow> nat \<Rightarrow> cel_value \<Rightarrow> bool" where
  "arena_list_scan_numeric m hdr needle =
     list_ex (\<lambda>i. let e = load_cv m (cel_value_at (arena_list_element_off m hdr (word_of_nat i))); nk = cv_kind needle in
        if cv_kind e = nk then (if nk = CEL_DOUBLE then d_eq (pl_d e) (pl_d needle) else pl_u e = pl_u needle)
        else is_numeric_kind (cv_kind e) \<and> numeric_compare_kernel e needle = CmpEqual)
       [0..<unat (list_count m hdr)]"

definition arena_list_scan_string :: "memory \<Rightarrow> nat \<Rightarrow> cel_value \<Rightarrow> bool" where
  "arena_list_scan_string m hdr needle =
     list_ex (\<lambda>i. let e = load_cv m (cel_value_at (arena_list_element_off m hdr (word_of_nat i))) in
        cv_kind e = CEL_STRING \<and> spans_equal m (pl_s_ptr e) (pl_s_len e) (pl_s_ptr needle) (pl_s_len needle))
       [0..<unat (list_count m hdr)]"

definition arena_list_scan_bool :: "memory \<Rightarrow> nat \<Rightarrow> cel_value \<Rightarrow> bool" where
  "arena_list_scan_bool m hdr needle =
     (let want = (pl_b needle \<noteq> 0) in
      list_ex (\<lambda>i. let e = load_cv m (cel_value_at (arena_list_element_off m hdr (word_of_nat i))) in
        cv_kind e = CEL_BOOL \<and> (pl_b e \<noteq> 0) = want)
       [0..<unat (list_count m hdr)])"

text \<open>The generic scan may allocate and run the kernel in every round, so it threads the state.\<close>

function list_scan_generic_from :: "kernel2 \<Rightarrow> nat \<Rightarrow> u32 \<Rightarrow> u32 \<Rightarrow> nat \<Rightarrow> rt \<Rightarrow> (bool option \<times> rt) option" where
  "list_scan_generic_from eqk hdr value_slot scratch i s =
     (if i < unat (list_count (mem s) hdr) then do {
        (eq, scratch, s) \<leftarrow> deep_values_equal eqk scratch (arena_list_element_off (mem s) hdr (word_of_nat i)) value_slot s;
        case eq of
          None \<Rightarrow> Some (None, s)
        | Some True \<Rightarrow> Some (Some True, s)
        | Some False \<Rightarrow> list_scan_generic_from eqk hdr value_slot scratch (i + 1) s
      }
      else Some (Some False, s))"
  by pat_completeness auto
termination
  by (relation "measure (\<lambda>(eqk, hdr, v, scratch, i, s). 2 ^ 32 - i)") (auto dest: unat_u32_less)

declare list_scan_generic_from.simps [simp del]

definition arena_list_scan_generic :: "kernel2 \<Rightarrow> nat \<Rightarrow> u32 \<Rightarrow> rt \<Rightarrow> (bool option \<times> rt) option" where
  "arena_list_scan_generic eqk hdr value_slot s = list_scan_generic_from eqk hdr value_slot 0 0 s"

definition cel_list_in_arena :: "kernel2 \<Rightarrow> kernel2" where
  "cel_list_in_arena eqk out_slot value_slot list_slot s =
     (let out = cel_value_at out_slot in do {
        (wrote, s) \<leftarrow> absorb_3vl_binary out (cel_value_at value_slot) (cel_value_at list_slot) s;
        if wrote then Some s
        else (let v = cv s value_slot; l = cv s list_slot in
          if cv_kind l \<noteq> CEL_LIST_ARENA then Some (poison out CEL_ERR_TYPE_MISMATCH s)
          else (let hdr = arena_list_header l in
            if is_numeric_kind (cv_kind v) then Some (write_bool out (arena_list_scan_numeric (mem s) hdr v) s)
            else if cv_kind v = CEL_STRING then Some (write_bool out (arena_list_scan_string (mem s) hdr v) s)
            else if cv_kind v = CEL_BOOL then Some (write_bool out (arena_list_scan_bool (mem s) hdr v) s)
            else do {
              (found, s) \<leftarrow> arena_list_scan_generic eqk hdr value_slot s;
              case found of
                None \<Rightarrow> Some (poison out CEL_ERR_OVERFLOW s)
              | Some b \<Rightarrow> Some (write_bool out b s)
            }))
      })"

subsection \<open>Equality of lists\<close>

function list_eq_from :: "kernel2 \<Rightarrow> nat \<Rightarrow> nat \<Rightarrow> u32 \<Rightarrow> nat \<Rightarrow> rt \<Rightarrow> (bool option \<times> rt) option" where
  "list_eq_from eqk ha hb scratch i s =
     (if i < unat (list_count (mem s) ha) then do {
        (eq, scratch, s) \<leftarrow> deep_values_equal eqk scratch (arena_list_element_off (mem s) ha (word_of_nat i))
                             (arena_list_element_off (mem s) hb (word_of_nat i)) s;
        case eq of
          None \<Rightarrow> Some (None, s)
        | Some False \<Rightarrow> Some (Some False, s)
        | Some True \<Rightarrow> list_eq_from eqk ha hb scratch (i + 1) s
      }
      else Some (Some True, s))"
  by pat_completeness auto
termination
  by (relation "measure (\<lambda>(eqk, ha, hb, scratch, i, s). 2 ^ 32 - i)") (auto dest: unat_u32_less)

declare list_eq_from.simps [simp del]

text \<open>The last step of the list and map walks: the verdict, or the overflow error.\<close>

definition publish_verdict :: "nat \<Rightarrow> bool option \<times> rt \<Rightarrow> rt" where
  "publish_verdict out r = (case r of (None, s) \<Rightarrow> poison out CEL_ERR_OVERFLOW s | (Some b, s) \<Rightarrow> write_bool out b s)"

definition cel_list_eq_arena :: "kernel2 \<Rightarrow> kernel2" where
  "cel_list_eq_arena eqk out_slot a_slot b_slot s =
     (let out = cel_value_at out_slot in do {
        (wrote, s) \<leftarrow> absorb_3vl_binary out (cel_value_at a_slot) (cel_value_at b_slot) s;
        if wrote then Some s
        else (let a = cv s a_slot; b = cv s b_slot in
          if cv_kind a \<noteq> CEL_LIST_ARENA \<or> cv_kind b \<noteq> CEL_LIST_ARENA then Some (poison out CEL_ERR_TYPE_MISMATCH s)
          else (let ha = arena_list_header a; hb = arena_list_header b in
            if list_count (mem s) ha \<noteq> list_count (mem s) hb then Some (write_bool out False s)
            else map_option (publish_verdict out) (list_eq_from eqk ha hb 0 0 s)))
      })"

definition cel_list_eq :: "cel_host \<Rightarrow> kernel2 \<Rightarrow> kernel2" where
  "cel_list_eq h eqk out_slot a_slot b_slot s =
     (let ka = cv_kind (cv s a_slot); kb = cv_kind (cv s b_slot) in
      if ka = CEL_UNKNOWN \<or> ka = CEL_ERROR then Some (copy_cv (cel_value_at out_slot) (cel_value_at a_slot) s)
      else if kb = CEL_UNKNOWN \<or> kb = CEL_ERROR then Some (copy_cv (cel_value_at out_slot) (cel_value_at b_slot) s)
      else if ka = CEL_LIST_ARENA \<and> kb = CEL_LIST_ARENA then cel_list_eq_arena eqk out_slot a_slot b_slot s
      else if (ka = CEL_LIST_ARENA \<or> ka = CEL_LIST_HOST) \<and> (kb = CEL_LIST_ARENA \<or> kb = CEL_LIST_HOST)
        then host_list_eq h out_slot a_slot b_slot s
      else Some (poison (cel_value_at out_slot) CEL_ERR_TYPE_MISMATCH s))"

definition cel_list_in :: "cel_host \<Rightarrow> kernel2 \<Rightarrow> kernel2" where
  "cel_list_in h eqk out_slot value_slot list_slot s =
     (let kv = cv_kind (cv s value_slot); kl = cv_kind (cv s list_slot) in
      if kv = CEL_UNKNOWN \<or> kv = CEL_ERROR then Some (copy_cv (cel_value_at out_slot) (cel_value_at value_slot) s)
      else if kl = CEL_UNKNOWN \<or> kl = CEL_ERROR then Some (copy_cv (cel_value_at out_slot) (cel_value_at list_slot) s)
      else if kl = CEL_LIST_ARENA then cel_list_in_arena eqk out_slot value_slot list_slot s
      else if kl = CEL_LIST_HOST then host_list_in h out_slot value_slot list_slot s
      else Some (poison (cel_value_at out_slot) CEL_ERR_TYPE_MISMATCH s))"

subsection \<open>Equality of maps\<close>

text \<open>The entry of \<open>hb\<close> with an equal key: through the index when there is one, else the scan.\<close>

definition arena_map_entry_matches :: "kernel2 \<Rightarrow> nat \<Rightarrow> u32 \<Rightarrow> nat \<Rightarrow> u32 \<Rightarrow> rt \<Rightarrow> (bool option \<times> u32 \<times> rt) option" where
  "arena_map_entry_matches eqk ha i hb scratch s =
     (let ka = load_cv (mem s) (arena_map_entry_key (mem s) ha i) in
      if map_index (mem s) hb \<noteq> 0 then do {
        j \<leftarrow> cel_map_index_find (mem s) hb ka;
        if j = UINT32_MAX then Some (Some False, scratch, s)
        else deep_values_equal eqk scratch (arena_map_entry_val_off (mem s) ha i) (arena_map_entry_val_off (mem s) hb j) s
      }
      else (case List.find (\<lambda>j. cel_map_key_eq (mem s) ka (load_cv (mem s) (arena_map_entry_key (mem s) hb (word_of_nat j))))
                  [0..<unat (map_count (mem s) hb)] of
          None \<Rightarrow> Some (Some False, scratch, s)
        | Some j \<Rightarrow> deep_values_equal eqk scratch (arena_map_entry_val_off (mem s) ha i)
                      (arena_map_entry_val_off (mem s) hb (word_of_nat j)) s))"

function map_eq_from :: "kernel2 \<Rightarrow> nat \<Rightarrow> nat \<Rightarrow> u32 \<Rightarrow> nat \<Rightarrow> rt \<Rightarrow> (bool option \<times> rt) option" where
  "map_eq_from eqk ha hb scratch i s =
     (if i < unat (map_count (mem s) ha) then do {
        (eq, scratch, s) \<leftarrow> arena_map_entry_matches eqk ha (word_of_nat i) hb scratch s;
        case eq of
          None \<Rightarrow> Some (None, s)
        | Some False \<Rightarrow> Some (Some False, s)
        | Some True \<Rightarrow> map_eq_from eqk ha hb scratch (i + 1) s
      }
      else Some (Some True, s))"
  by pat_completeness auto
termination
  by (relation "measure (\<lambda>(eqk, ha, hb, scratch, i, s). 2 ^ 32 - i)") (auto dest: unat_u32_less)

declare map_eq_from.simps [simp del]

definition cel_map_eq_arena :: "kernel2 \<Rightarrow> kernel2" where
  "cel_map_eq_arena eqk out_slot a_slot b_slot s =
     (let out = cel_value_at out_slot in do {
        (wrote, s) \<leftarrow> absorb_3vl_binary out (cel_value_at a_slot) (cel_value_at b_slot) s;
        if wrote then Some s
        else (let a = cv s a_slot; b = cv s b_slot in
          if cv_kind a \<noteq> CEL_MAP_ARENA \<or> cv_kind b \<noteq> CEL_MAP_ARENA then Some (poison out CEL_ERR_TYPE_MISMATCH s)
          else (let ha = arena_map_header a; hb = arena_map_header b in
            if map_count (mem s) ha \<noteq> map_count (mem s) hb then Some (write_bool out False s)
            else map_option (publish_verdict out) (map_eq_from eqk ha hb 0 0 s)))
      })"

definition cel_map_eq :: "cel_host \<Rightarrow> kernel2 \<Rightarrow> kernel2" where
  "cel_map_eq h eqk out_slot a_slot b_slot s =
     (let ka = cv_kind (cv s a_slot); kb = cv_kind (cv s b_slot) in
      if ka = CEL_UNKNOWN \<or> ka = CEL_ERROR then Some (copy_cv (cel_value_at out_slot) (cel_value_at a_slot) s)
      else if kb = CEL_UNKNOWN \<or> kb = CEL_ERROR then Some (copy_cv (cel_value_at out_slot) (cel_value_at b_slot) s)
      else if ka = CEL_MAP_ARENA \<and> kb = CEL_MAP_ARENA then cel_map_eq_arena eqk out_slot a_slot b_slot s
      else if (ka = CEL_MAP_ARENA \<or> ka = CEL_MAP_HOST) \<and> (kb = CEL_MAP_ARENA \<or> kb = CEL_MAP_HOST)
        then host_map_eq h out_slot a_slot b_slot s
      else Some (poison (cel_value_at out_slot) CEL_ERR_TYPE_MISMATCH s))"

subsection \<open>The kernel\<close>

definition both_lists :: "u32 \<Rightarrow> u32 \<Rightarrow> bool" where
  "both_lists ka kb \<longleftrightarrow> (ka = CEL_LIST_ARENA \<or> ka = CEL_LIST_HOST) \<and> (kb = CEL_LIST_ARENA \<or> kb = CEL_LIST_HOST)"

definition both_maps :: "u32 \<Rightarrow> u32 \<Rightarrow> bool" where
  "both_maps ka kb \<longleftrightarrow> (ka = CEL_MAP_ARENA \<or> ka = CEL_MAP_HOST) \<and> (kb = CEL_MAP_ARENA \<or> kb = CEL_MAP_HOST)"

definition type_eq_at_vv :: "u32 \<Rightarrow> u32 \<Rightarrow> u32 \<Rightarrow> rt \<Rightarrow> rt" where
  "type_eq_at_vv out_slot a_slot b_slot s =
     (let out = cel_value_at out_slot; a = cv s a_slot; b = cv s b_slot; la = pl_s_len a; lb = pl_s_len b in
      if la \<noteq> lb then write_bool out False s
      else write_bool out (cel_byteptr_equal (mem s) (unat (pl_s_ptr a)) (unat (pl_s_ptr b)) (unat la)) s)"

definition optional_eq_at_vv :: "kernel2 \<Rightarrow> kernel2" where
  "optional_eq_at_vv eqk out_slot a_slot b_slot s =
     (let out = cel_value_at out_slot; a = cv s a_slot; b = cv s b_slot;
          pa = load32 (mem s) (unat (pl_opt a)); pb = load32 (mem s) (unat (pl_opt b)) in
      if pa = 0 \<and> pb = 0 then Some (write_bool out True s)
      else if pa \<noteq> pb then Some (write_bool out False s)
      else eqk out_slot (pl_opt a + 8) (pl_opt b + 8) s)"

text \<open>\<open>None\<close> inside: the kind is an aggregate the caller dispatches on.\<close>

definition equal_same_kind :: "kernel2 \<Rightarrow> u32 \<Rightarrow> u32 \<Rightarrow> u32 \<Rightarrow> u32 \<Rightarrow> rt \<Rightarrow> rt option option" where
  "equal_same_kind eqk kind out_slot a_slot b_slot s =
     (let a = cv s a_slot; b = cv s b_slot; out = cel_value_at out_slot in
      if kind = CEL_NULL then Some (cel_null_eq_at_vv out_slot a_slot b_slot s)
      else if kind = CEL_BOOL then Some (cel_bool_eq_at_vv out_slot a_slot b_slot s)
      else if kind = CEL_STRING then Some (cel_string_eq_at_vv out_slot a_slot b_slot s)
      else if kind = CEL_BYTES then Some (cel_bytes_eq_at_vv out_slot a_slot b_slot s)
      else if kind = CEL_TYPE then Some (Some (type_eq_at_vv out_slot a_slot b_slot s))
      else if kind = CEL_OPTIONAL then Some (optional_eq_at_vv eqk out_slot a_slot b_slot s)
      else if kind = CEL_DURATION \<or> kind = CEL_TIMESTAMP
        then Some (Some (write_bool out (pl_seconds a = pl_seconds b \<and> pl_nanos a = pl_nanos b) s))
      else if kind = CEL_IP then Some (Some (write_bool out (net_ip_eq (mem s) a b) s))
      else if kind = CEL_CIDR then Some (Some (write_bool out (net_cidr_eq (mem s) a b) s))
      else None)"

text \<open>The arms behind the same-kind scalars.\<close>

definition equal_aggregates :: "cel_host \<Rightarrow> kernel2 \<Rightarrow> kernel2" where
  "equal_aggregates h eqk out_slot a_slot b_slot s =
     (let ka = cv_kind (cv s a_slot); kb = cv_kind (cv s b_slot) in
      if both_lists ka kb then cel_list_eq h eqk out_slot a_slot b_slot s
      else if both_maps ka kb then cel_map_eq h eqk out_slot a_slot b_slot s
      else if ka = CEL_MESSAGE \<and> kb = CEL_MESSAGE then host_message_eq h out_slot a_slot b_slot s
      else Some (write_bool (cel_value_at out_slot) False s))"

fun equality_kernel :: "cel_host \<Rightarrow> nat \<Rightarrow> kernel2" where
  "equality_kernel h 0 out_slot a_slot b_slot s = None"
| "equality_kernel h (Suc fuel) out_slot a_slot b_slot s = do {
     (wrote, s) \<leftarrow> absorb_3vl_binary (cel_value_at out_slot) (cel_value_at a_slot) (cel_value_at b_slot) s;
     if wrote then Some s
     else (let ka = cv_kind (cv s a_slot); kb = cv_kind (cv s b_slot); eqk = equality_kernel h fuel in
       if is_numeric_kind ka \<and> is_numeric_kind kb then cel_numeric_eq_at_vv out_slot a_slot b_slot s
       else (case (if ka = kb then equal_same_kind eqk ka out_slot a_slot b_slot s else None) of
           Some r \<Rightarrow> r
         | None \<Rightarrow> equal_aggregates h eqk out_slot a_slot b_slot s))
   }"

declare equality_kernel.simps [simp del]

definition cel_equals_at_vv :: "cel_host \<Rightarrow> nat \<Rightarrow> kernel2" where
  "cel_equals_at_vv h fuel out_slot a_slot b_slot s = equality_kernel h fuel out_slot a_slot b_slot s"

definition cel_not_equals_at_vv :: "cel_host \<Rightarrow> nat \<Rightarrow> kernel2" where
  "cel_not_equals_at_vv h fuel out_slot a_slot b_slot s = do {
     s \<leftarrow> equality_kernel h fuel out_slot a_slot b_slot s;
     let out = cel_value_at out_slot;
     if cv_kind (load_cv (mem s) out) = CEL_BOOL
     then Some (s\<lparr>mem := store32 (mem s) (out + 8) (if pl_b (load_cv (mem s) out) \<noteq> 0 then 0 else 1)\<rparr>)
     else Some s
   }"

subsection \<open>Scalars\<close>

lemma scalar_not_poison:
  "is_scalar_eq_kind k \<Longrightarrow> k \<noteq> CEL_ERROR \<and> k \<noteq> CEL_UNKNOWN"
  by (auto simp: is_scalar_eq_kind_def)

lemma absorb_none:
  assumes "\<not> poisoned (load_cv (mem s) a)" "\<not> poisoned (load_cv (mem s) b)"
  shows "absorb_3vl_binary out a b s = Some (False, s)"
  using assms by (simp add: absorb_3vl_binary_def Let_def poisoned_def)

lemma same_numeric_eq:
  assumes "cv_kind a = cv_kind b" "is_numeric_kind (cv_kind a)"
  shows "numeric_compare_kernel a b = CmpEqual \<longleftrightarrow>
    (if cv_kind b = CEL_DOUBLE then d_eq (pl_d a) (pl_d b) else pl_u a = pl_u b)"
proof -
  consider "cv_kind a = CEL_INT" | "cv_kind a = CEL_UINT" | "cv_kind a = CEL_DOUBLE" using assms(2) by (auto simp: is_numeric_kind_def)
  then show ?thesis
  proof cases
    case 1
    then have "numeric_compare_kernel a b = CmpEqual \<longleftrightarrow> sint (pl_i a) = sint (pl_i b)"
      using assms(1) by (auto simp: kernel_arms cmp_i64_def)
    then show ?thesis using 1 assms(1) by (simp add: sint_eq_iff64 pl_defs)
  next
    case 2
    then show ?thesis using assms(1) by (auto simp: kernel_arms cmp_u64_def)
  next
    case 3
    then show ?thesis using assms(1) by (auto simp: kernel_arms cmp_double_cases d_eq_def)
  qed
qed

text \<open>Bool cells hold 0 or 1; on other payloads \<open>==\<close> and \<open>in\<close> would disagree.\<close>

definition bool_canonical :: "cel_value \<Rightarrow> bool" where
  "bool_canonical v \<longleftrightarrow> (cv_kind v = CEL_BOOL \<longrightarrow> pl_b v = 0 \<or> pl_b v = 1)"

lemma equality_kernel_scalar:
  assumes k: "is_scalar_eq_kind (cv_kind (cv s a))" "is_scalar_eq_kind (cv_kind (cv s b))"
    and c: "bool_canonical (cv s a)" "bool_canonical (cv s b)"
  shows "equality_kernel h (Suc fuel) out a b s = Some (write_bool (cel_value_at out) (cel_value_eq (mem s) (cv s a) (cv s b)) s)"
proof -
  have np: "\<not> poisoned (cv s a)" "\<not> poisoned (cv s b)" using k scalar_not_poison by (simp_all add: poisoned_def)
  note ab = absorb_none [OF np, of "cel_value_at out"]
  show ?thesis
  proof (cases "is_numeric_kind (cv_kind (cv s a)) \<and> is_numeric_kind (cv_kind (cv s b))")
    case True
    have "equality_kernel h (Suc fuel) out a b s = cel_numeric_eq_at_vv out a b s"
      using True by (simp add: ab equality_kernel.simps(2))
    also have "\<dots> = Some (write_bool (cel_value_at out) (numeric_compare_kernel (cv s a) (cv s b) = CmpEqual) s)"
      using True by (simp add: ab cel_numeric_eq_at_vv_def numeric_vv_def numeric_prelude_def)
    finally show ?thesis using True by (simp add: cel_value_eq_def)
  next
    case nn: False
    show ?thesis
    proof (cases "cv_kind (cv s a) = cv_kind (cv s b)")
      case False
      have "equality_kernel h (Suc fuel) out a b s = equal_aggregates h (equality_kernel h fuel) out a b s"
        using False nn by (auto simp: ab Let_def equality_kernel.simps(2))
      also have "\<dots> = Some (write_bool (cel_value_at out) False s)"
      proof -
        have "cv_kind (cv s a) \<notin> {CEL_LIST_ARENA, CEL_LIST_HOST, CEL_MAP_ARENA, CEL_MAP_HOST, CEL_MESSAGE}"
          using k(1) unfolding is_scalar_eq_kind_def by (elim disjE) simp_all
        then show ?thesis by (simp add: equal_aggregates_def both_lists_def both_maps_def Let_def)
      qed
      also have "\<not> cel_value_eq (mem s) (cv s a) (cv s b)"
      proof -
        have "\<not> (cv_kind (cv s a) = x \<and> cv_kind (cv s b) = x)" for x using False by metis
        then show ?thesis using nn by (simp only: cel_value_eq_def if_False simp_thms)
      qed
      then have "write_bool (cel_value_at out) False s = write_bool (cel_value_at out) (cel_value_eq (mem s) (cv s a) (cv s b)) s" by simp
      finally show ?thesis .
    next
      case True
      let ?k = "cv_kind (cv s a)"
      have sk: "equality_kernel h (Suc fuel) out a b s =
          (case equal_same_kind (equality_kernel h fuel) ?k out a b s of Some r \<Rightarrow> r
           | None \<Rightarrow> equal_aggregates h (equality_kernel h fuel) out a b s)"
        using nn True by (auto simp: ab Let_def equality_kernel.simps(2))
      note sv = strict_vv_values [OF refl True [symmetric]] span_kernel_values [OF refl True [symmetric]]
      consider "?k = CEL_NULL" | "?k = CEL_BOOL" | "?k = CEL_STRING" | "?k = CEL_BYTES"
        | "?k = CEL_DURATION" | "?k = CEL_TIMESTAMP" | "?k = CEL_IP" | "?k = CEL_CIDR"
        using k nn True by (auto simp: is_scalar_eq_kind_def is_numeric_kind_def)
      then show ?thesis
      proof cases
        case 1
        then show ?thesis using sv(1) True
          by (simp add: sk equal_same_kind_def cel_null_eq_at_vv_def cel_value_eq_def is_numeric_kind_def)
      next
        case 2
        then have "pl_b (cv s a) = pl_b (cv s b) \<longleftrightarrow> (pl_b (cv s a) \<noteq> 0) = (pl_b (cv s b) \<noteq> 0)"
          using c True by (auto simp: bool_canonical_def)
        then show ?thesis using sv(1) True 2
          by (simp add: sk equal_same_kind_def cel_bool_eq_at_vv_def cmp_vv_def cel_value_eq_def is_numeric_kind_def)
      next
        case 3
        then show ?thesis using sv(2) True
          by (simp add: sk equal_same_kind_def cel_string_eq_at_vv_def span_bool_def cel_value_eq_def is_numeric_kind_def span_eq_iff spans_equal_iff)
      next
        case 4
        then show ?thesis using sv(2) True
          by (simp add: sk equal_same_kind_def cel_bytes_eq_at_vv_def span_bool_def cel_value_eq_def is_numeric_kind_def span_eq_iff spans_equal_iff)
      qed (use True in \<open>simp_all add: sk equal_same_kind_def Let_def cel_value_eq_def is_numeric_kind_def\<close>)
    qed
  qed
qed

end
