(* ===== verification/DeepEquality.thy ===== *)
theory DeepEquality
  imports Equality
begin

text \<open>
  The equality kernel against structural equality: on nested lists of scalars, with fuel for their
  nesting and arena room for the scratch cells, the kernel's verdict is pointwise equality of the
  trees the operands stand for. Also the typed \<open>in\<close> scans against the generic scalar matcher.
\<close>

subsection \<open>Room in the tail chunk\<close>

definition arena_room :: "rt \<Rightarrow> nat" where
  "arena_room s = unat (ch_capacity (last (chunks s))) - unat (ch_cursor (last (chunks s)))"

lemma arena_room_mem [simp]: "arena_room (s\<lparr>mem := m\<rparr>) = arena_room s"
  by (simp add: arena_room_def)

lemma arena_room_write_bool [simp]: "arena_room (write_bool x b s) = arena_room s"
  by (simp add: write_bool_def)

lemma sample_rt_room: "arena_room sample_rt = 4096"
  by (simp add: arena_room_def sample_rt_chunks)

lemma alloc_room:
  assumes ok: "arena_ok s" and n: "n \<le> UINT32_MAX - 7" and r: "unat (alloc_need n) \<le> arena_room s"
  obtains p t where "arena_alloc n s = Some (p, t)" "p \<noteq> 0" "extends s t" "kept_range t (unat p) (unat n)"
    "fresh_range s (unat p) (unat n)" "arena_room t = arena_room s - unat (alloc_need n)" "unat p + unat n \<le> 2 ^ 32 - 1"
proof -
  let ?c = "last (chunks s)" and ?need = "alloc_need n"
  have inv: "arena_inv s" using ok by (simp add: arena_ok_def)
  then have ne: "chunks s \<noteq> []" "initialized s" and okc: "chunk_ok ?c" by (auto simp: arena_inv_def list_all_iff)
  have cc: "unat (ch_cursor ?c) \<le> unat (ch_capacity ?c)" "unat (ch_base ?c) + unat (ch_capacity ?c) \<le> 4294967295"
    "262144 \<le> unat (ch_base ?c)"
    using okc by (simp_all add: chunk_ok_def word_le_nat_alt)
  have rm: "unat (ch_capacity ?c - ch_cursor ?c) = arena_room s" using cc(1) by (simp add: arena_room_def unat_sub word_le_nat_alt)
  have "\<not> ?need > ch_capacity ?c - ch_cursor ?c" using r by (simp add: word_less_nat_alt rm)
  moreover have "\<not> n > UINT32_MAX - 7" using n by (simp add: not_less)
  ultimately have eq: "arena_alloc n s = Some (bump_tail ?need s)"
    using ne unfolding arena_alloc_def Let_def alloc_need_def [symmetric] by simp
  define p t where "p = ch_base ?c + ch_cursor ?c" and "t = snd (bump_tail ?need s)"
  have pt: "bump_tail ?need s = (p, t)" by (simp add: p_def t_def bump_tail_def Let_def)
  have "unat p = unat (ch_base ?c) + unat (ch_cursor ?c)" unfolding p_def by (rule chunk_ok_word_sums(1) [OF okc])
  then have nz: "p \<noteq> 0" using cc by auto
  have "unat (ch_cursor ?c + ?need) = unat (ch_cursor ?c) + unat ?need"
    using r cc by (simp add: unat_word_ariths arena_room_def)
  then have "arena_room t = arena_room s - unat ?need"
    by (simp add: t_def bump_tail_def Let_def arena_room_def)
  moreover have "extends s t" "kept_range t (unat p) (unat n)" "fresh_range s (unat p) (unat n)" "unat p + unat n \<le> 2 ^ 32 - 1"
    using arena_alloc_extends [OF ok, of n] nz by (auto simp: eq pt fresh_range_def)
  ultimately show thesis using that [of p t] eq pt nz by simp
qed

lemma alloc_cell_room:
  assumes ok: "arena_ok s" and r: "24 \<le> arena_room s"
  obtains p t where "arena_alloc 24 s = Some (p, t)" "p \<noteq> 0" "extends s t" "kept_range t (unat p) 24"
    "fresh_range s (unat p) 24" "arena_room t = arena_room s - 24"
  by (rule alloc_room [OF ok, of 24]) (use r in \<open>simp_all add: alloc_need_def align_up_8_def\<close>)

subsection \<open>Trees\<close>

datatype dval = DScalar cel_value | DList "dval list"

fun nodes :: "dval \<Rightarrow> nat" where
  "nodes (DScalar c) = 0"
| "nodes (DList ds) = Suc (sum_list (map nodes ds))"

fun depth :: "dval \<Rightarrow> nat" where
  "depth (DScalar c) = 1"
| "depth (DList ds) = Suc (Max (insert 0 (depth ` set ds)))"

text \<open>Structural equality: scalars by the \<open>==\<close> rule, lists pointwise, a scalar never equals a list.\<close>

fun dval_eq :: "memory \<Rightarrow> dval \<Rightarrow> dval \<Rightarrow> bool" where
  "dval_eq m (DScalar c) (DScalar d) = cel_value_eq m c d"
| "dval_eq m (DList xs) (DList ys) = list_all2 (dval_eq m) xs ys"
| "dval_eq m _ _ = False"

text \<open>The cell at \<open>off\<close> stands for the tree; everything reachable is kept and satisfies \<open>P\<close>.\<close>

function shaped :: "(nat \<Rightarrow> nat \<Rightarrow> bool) \<Rightarrow> rt \<Rightarrow> u32 \<Rightarrow> dval \<Rightarrow> bool" where
  "shaped P s off (DScalar c) \<longleftrightarrow> kept_range s (cel_value_at off) 24 \<and> P (cel_value_at off) 24 \<and> cv s off = c
     \<and> is_scalar_eq_kind (cv_kind c) \<and> bool_canonical c \<and> scalar_ranges (\<lambda>a n. kept_range s a n \<and> P a n) c"
| "shaped P s off (DList ds) \<longleftrightarrow> kept_range s (cel_value_at off) 24 \<and> P (cel_value_at off) 24
     \<and> cv_kind (cv s off) = CEL_LIST_ARENA
     \<and> kept_range s (list_hdr s off) 16 \<and> P (list_hdr s off) 16
     \<and> length ds = unat (list_count (mem s) (list_hdr s off))
     \<and> (\<forall>i < length ds. shaped P s (arena_list_element_off (mem s) (list_hdr s off) (word_of_nat i)) (ds ! i))"
  by pat_completeness auto
termination
  by (relation "measure (\<lambda>(P, s, off, d). size d)") (auto simp: less_Suc_eq_le intro: size_list_estimation' nth_mem)

lemma shaped_cell: "shaped P s off d \<Longrightarrow> kept_range s (cel_value_at off) 24 \<and> P (cel_value_at off) 24"
  by (cases d) auto

text \<open>Trees survive every step that leaves their bytes alone.\<close>

lemma shaped_step:
  assumes "shaped P s off d" "arena_used s \<subseteq> arena_used s'"
    and "\<And>a n. kept_range s a n \<Longrightarrow> P a n \<Longrightarrow> agree (mem s) (mem s') a n \<and> Q a n"
  shows "shaped Q s' off d"
  using assms(1)
proof (induction d arbitrary: off)
  case (DScalar c)
  have "agree (mem s) (mem s') (cel_value_at off) 24" using shaped_cell [OF DScalar] assms(3) by blast
  then have "cv s' off = cv s off" by (rule agree_loads(1))
  moreover have "scalar_ranges (\<lambda>a n. kept_range s' a n \<and> Q a n) c"
    by (rule scalar_ranges_mono [of "\<lambda>a n. kept_range s a n \<and> P a n"])
      (use DScalar assms(2,3) kept_range_mono in \<open>auto\<close>)
  ultimately show ?case using DScalar assms(2,3) kept_range_mono by auto
next
  case (DList ds)
  have ag: "agree (mem s) (mem s') (cel_value_at off) 24" "agree (mem s) (mem s') (list_hdr s off) 16"
    using shaped_cell [OF DList.prems] DList.prems [unfolded shaped.simps] assms(3) by blast+
  have c: "cv s' off = cv s off" by (rule agree_loads(1) [OF ag(1)])
  then have h: "list_hdr s' off = list_hdr s off" by (simp add: list_hdr_def)
  have w: "list_count (mem s') (list_hdr s off) = list_count (mem s) (list_hdr s off)"
    "list_elements (mem s') (list_hdr s off) = list_elements (mem s) (list_hdr s off)"
    using agree_loads(3) [OF ag(2), of 0] agree_loads(3) [OF ag(2), of 8] by (simp_all add: list_count_def list_elements_def)
  have e: "arena_list_element_off (mem s') (list_hdr s off) i = arena_list_element_off (mem s) (list_hdr s off) i" for i
    by (simp add: arena_list_element_off_def w)
  have "shaped Q s' (arena_list_element_off (mem s) (list_hdr s off) (word_of_nat i)) (ds ! i)" if "i < length ds" for i
    using DList.IH [OF nth_mem [OF that]] DList.prems that by simp
  then show ?case using DList.prems assms(2,3) kept_range_mono c h w e by auto
qed

lemma scalar_value_eq_agree:
  assumes "scalar_ranges (agree m m') c" "scalar_ranges (agree m m') d"
  shows "cel_value_eq m' c d = cel_value_eq m c d"
proof -
  have str: "span_bytes m' (pl_s_ptr v) (pl_s_len v) = span_bytes m (pl_s_ptr v) (pl_s_len v)"
    if "scalar_ranges (agree m m') v" "cv_kind v = CEL_STRING \<or> cv_kind v = CEL_BYTES" for v
    using that agree_loads(2) by (auto simp: scalar_ranges_def span_bytes_def)
  have net: "net_ip_eq m' c d = net_ip_eq m c d" if "cv_kind c = CEL_IP" "cv_kind d = CEL_IP"
    using that assms agree_loads(3) [of 20 m' "unat (pl_net_ref c)" m 0] agree_loads(3) [of 20 m' "unat (pl_net_ref d)" m 0]
    by (simp add: net_ip_eq_def Let_def scalar_ranges_def list_all_iff add.assoc)
  have cidr: "net_cidr_eq m' c d = net_cidr_eq m c d" if "cv_kind c = CEL_CIDR" "cv_kind d = CEL_CIDR"
    using that assms agree_loads(3) [of 24 m' "unat (pl_net_ref c)" m 0] agree_loads(3) [of 24 m' "unat (pl_net_ref d)" m 0]
      agree_loads(3) [of 24 m' "unat (pl_net_ref c)" m 4] agree_loads(3) [of 24 m' "unat (pl_net_ref d)" m 4]
    by (simp add: net_cidr_eq_def Let_def scalar_ranges_def list_all_iff add.assoc)
  show ?thesis
    using str [OF assms(1)] str [OF assms(2)] net cidr by (simp add: cel_value_eq_def spans_equal_iff)
qed

lemma dval_eq_agree:
  assumes "shaped P s a da" "shaped P s b db"
    and "\<And>a n. kept_range s a n \<Longrightarrow> P a n \<Longrightarrow> agree (mem s) m a n"
  shows "dval_eq m da db = dval_eq (mem s) da db"
  using assms(1,2)
proof (induction "mem s" da db arbitrary: a b rule: dval_eq.induct)
  case (1 c d)
  then show ?case using assms(3) by (auto intro!: scalar_value_eq_agree elim: scalar_ranges_mono)
next
  case (2 xs ys)
  show ?case
  proof (cases "length xs = length ys")
    case True
    have "dval_eq m (xs ! i) (ys ! i) = dval_eq (mem s) (xs ! i) (ys ! i)" if "i < length xs" for i
    proof -
      have "shaped P s (arena_list_element_off (mem s) (list_hdr s a) (word_of_nat i)) (xs ! i)"
        "shaped P s (arena_list_element_off (mem s) (list_hdr s b) (word_of_nat i)) (ys ! i)"
        using 2(2,3) that True by simp_all
      then show ?thesis using 2(1) [OF nth_mem [OF that] nth_mem [of i ys]] that True by simp
    qed
    then show ?thesis by (simp add: list_all2_conv_all_nth True)
  qed (simp add: list_all2_conv_all_nth)
qed simp_all

subsection \<open>The kernel on trees\<close>

text \<open>What a kernel owes its callers at nesting \<open>f\<close>: the verdict, its frame, and the room it used.\<close>

abbreviation tree :: "rt \<Rightarrow> u32 \<Rightarrow> dval \<Rightarrow> bool" where
  "tree \<equiv> shaped (\<lambda>_ _. True)"

definition decides :: "kernel2 \<Rightarrow> nat \<Rightarrow> bool" where
  "decides eqk f \<longleftrightarrow> (\<forall>s out a b da db. arena_ok s \<longrightarrow> kept_range s (cel_value_at out) 24 \<longrightarrow> tree s a da \<longrightarrow> tree s b db
     \<longrightarrow> depth da \<le> f \<longrightarrow> 24 * nodes da \<le> arena_room s
     \<longrightarrow> (\<exists>s'. eqk out a b s = Some s' \<and> keeps (cel_value_at out) s s' \<and> is_bool (cv s' out) (dval_eq (mem s) da db)
           \<and> arena_room s \<le> arena_room s' + 24 * nodes da))"

text \<open>Ranges a walk must not disturb: those apart from its scratch cell, once there is one.\<close>

definition off_scratch :: "u32 \<Rightarrow> nat \<Rightarrow> nat \<Rightarrow> bool" where
  "off_scratch scratch a n \<longleftrightarrow> (scratch \<noteq> 0 \<longrightarrow> apart a n (cel_value_at scratch) 24)"

abbreviation cell_cost :: "u32 \<Rightarrow> nat" where "cell_cost scratch \<equiv> (if scratch = 0 then 24 else 0)"

definition walk_state :: "u32 \<Rightarrow> rt \<Rightarrow> bool" where
  "walk_state scratch s \<longleftrightarrow> arena_ok s \<and> (scratch \<noteq> 0 \<longrightarrow> kept_range s (cel_value_at scratch) 24)"

definition walk_frame :: "u32 \<Rightarrow> rt \<Rightarrow> u32 \<Rightarrow> rt \<Rightarrow> bool" where
  "walk_frame scratch s scratch' s' \<longleftrightarrow> walk_state scratch' s' \<and> arena_used s \<subseteq> arena_used s'
     \<and> (\<forall>a n. kept_range s a n \<and> off_scratch scratch a n \<longrightarrow> agree (mem s) (mem s') a n \<and> off_scratch scratch' a n)"

lemma walk_frame_trans:
  "walk_frame r s r' s' \<Longrightarrow> walk_frame r' s' r'' s'' \<Longrightarrow> walk_frame r s r'' s''"
  unfolding walk_frame_def by (intro conjI allI impI) (blast, blast, metis kept_range_mono, metis kept_range_mono)

lemma walk_frame_shaped:
  "walk_frame r s r' s' \<Longrightarrow> shaped (off_scratch r) s off d \<Longrightarrow> shaped (off_scratch r') s' off d"
  by (rule shaped_step [of "off_scratch r" s]) (auto simp: walk_frame_def)

lemma shaped_weaken: "shaped P s off d \<Longrightarrow> (\<And>a n. P a n \<Longrightarrow> Q a n) \<Longrightarrow> shaped Q s off d"
  by (rule shaped_step [of P s]) auto

lemma scratch_ready:
  assumes "walk_state scratch s" "cell_cost scratch \<le> arena_room s"
  obtains p t where "(if scratch = 0 then arena_alloc 24 s else Some (scratch, s)) = Some (p, t)" "p \<noteq> 0"
    "walk_frame scratch s p t" "arena_room t + cell_cost scratch = arena_room s"
proof (cases "scratch = 0")
  case True
  then have "arena_ok s" "24 \<le> arena_room s" using assms by (simp_all add: walk_state_def)
  then obtain p t where p: "arena_alloc 24 s = Some (p, t)" "p \<noteq> 0" "extends s t" "kept_range t (unat p) 24"
    "fresh_range s (unat p) 24" "arena_room t = arena_room s - 24" by (rule alloc_cell_room)
  have "walk_frame scratch s p t"
    using p(3,4) extends_used [OF p(3)] extends_same [OF p(3)] fresh_apart [OF p(5)]
    by (auto simp: walk_frame_def walk_state_def off_scratch_def extends_def cel_value_at_def)
  then show thesis using that [of p t] p assms True by simp
next
  case False
  then show thesis using that [of scratch s] assms by (simp add: walk_frame_def)
qed

lemma shaped_kind:
  "shaped P s off (DScalar c) \<Longrightarrow> is_scalar_eq_kind (cv_kind (cv s off))"
  "shaped P s off (DList ds) \<Longrightarrow> \<not> is_scalar_eq_kind (cv_kind (cv s off))"
  by (auto simp: is_scalar_eq_kind_def)

lemma deep_values_equal_correct:
  assumes dec: "decides eqk f" and w: "walk_state scratch s"
    and t: "shaped (off_scratch scratch) s a da" "shaped (off_scratch scratch) s b db"
    and f: "depth da \<le> f" and room: "24 * nodes da + cell_cost scratch \<le> arena_room s"
  obtains scratch' s' where "deep_values_equal eqk scratch a b s = Some (Some (dval_eq (mem s) da db), scratch', s')"
    "walk_frame scratch s scratch' s'"
    "arena_room s + cell_cost scratch' \<le> arena_room s' + cell_cost scratch + 24 * nodes da"
proof (cases "is_scalar_eq_kind (cv_kind (cv s a)) \<and> is_scalar_eq_kind (cv_kind (cv s b))")
  case True
  then obtain c d where "da = DScalar c" "db = DScalar d" using t shaped_kind by (metis dval.exhaust)
  then have "deep_values_equal eqk scratch a b s = Some (Some (dval_eq (mem s) da db), scratch, s)"
    using t True by (simp add: deep_values_equal_def)
  moreover have "walk_frame scratch s scratch s" using w by (simp add: walk_frame_def)
  ultimately show thesis using that by simp
next
  case False
  obtain p u where p: "(if scratch = 0 then arena_alloc 24 s else Some (scratch, s)) = Some (p, u)" "p \<noteq> 0"
    "walk_frame scratch s p u" "arena_room u + cell_cost scratch = arena_room s"
    using scratch_ready [OF w] room by (metis add_leE)
  have tu: "shaped (off_scratch p) u a da" "shaped (off_scratch p) u b db" using walk_frame_shaped [OF p(3)] t by blast+
  then have "tree u a da" "tree u b db" by (auto intro: shaped_weaken)
  moreover have "arena_ok u" "kept_range u (cel_value_at p) 24" using p(2,3) by (simp_all add: walk_frame_def walk_state_def)
  moreover have "24 * nodes da \<le> arena_room u" using room p(4) by linarith
  ultimately obtain s' where s': "eqk p a b u = Some s'" "keeps (cel_value_at p) u s'"
    "is_bool (cv s' p) (dval_eq (mem u) da db)" "arena_room u \<le> arena_room s' + 24 * nodes da"
    using dec f unfolding decides_def by blast
  have m: "dval_eq (mem u) da db = dval_eq (mem s) da db"
    by (rule dval_eq_agree [OF t]) (use p(3) in \<open>auto simp: walk_frame_def\<close>)
  have "walk_frame p u p s'"
    using s'(2) p(2,3) keeps_same [OF s'(2)]
    by (auto simp: walk_frame_def walk_state_def off_scratch_def keeps_def elim: kept_range_mono)
  then have fr: "walk_frame scratch s p s'" by (rule walk_frame_trans [OF p(3)])
  have "deep_values_equal eqk scratch a b s = Some (Some (dval_eq (mem s) da db), p, s')"
    using False p(1,2) s'(1,3) by (auto simp: deep_values_equal_def Let_def is_bool_def m)
  then show thesis using that fr p(2,4) s'(4) by simp
qed

text \<open>Two runs of elements: what the list walk reads beside the elements themselves.\<close>

definition tree_run :: "(nat \<Rightarrow> nat \<Rightarrow> bool) \<Rightarrow> rt \<Rightarrow> nat \<Rightarrow> dval list \<Rightarrow> bool" where
  "tree_run P s h ds \<longleftrightarrow> kept_range s h 16 \<and> P h 16 \<and> length ds = unat (list_count (mem s) h)
     \<and> (\<forall>i < length ds. shaped P s (arena_list_element_off (mem s) h (word_of_nat i)) (ds ! i))"

lemma tree_run_shaped: "shaped P s off (DList ds) \<Longrightarrow> tree_run P s (list_hdr s off) ds"
  by (simp add: tree_run_def)

lemma tree_run_walk:
  assumes "walk_frame r s r' s'" "tree_run (off_scratch r) s h ds"
  shows "tree_run (off_scratch r') s' h ds"
proof -
  have ag: "agree (mem s) (mem s') h 16" "off_scratch r' h 16" "kept_range s' h 16"
    using assms by (auto simp: walk_frame_def tree_run_def elim: kept_range_mono)
  have w: "list_count (mem s') h = list_count (mem s) h" "list_elements (mem s') h = list_elements (mem s) h"
    using agree_loads(3) [OF ag(1), of 0] agree_loads(3) [OF ag(1), of 8] by (simp_all add: list_count_def list_elements_def)
  show ?thesis using assms ag walk_frame_shaped [OF assms(1)] by (simp add: tree_run_def arena_list_element_off_def w)
qed

lemma list_eq_from_correct:
  assumes dec: "decides eqk f"
  shows "i \<le> length xs \<Longrightarrow> length ys = length xs \<Longrightarrow> walk_state scratch s
    \<Longrightarrow> tree_run (off_scratch scratch) s ha xs \<Longrightarrow> tree_run (off_scratch scratch) s hb ys
    \<Longrightarrow> \<forall>d \<in> set xs. depth d \<le> f \<Longrightarrow> 24 * sum_list (map nodes (drop i xs)) + cell_cost scratch \<le> arena_room s
    \<Longrightarrow> \<exists>scratch' s'. list_eq_from eqk ha hb scratch i s
            = Some (Some (list_all2 (dval_eq (mem s)) (drop i xs) (drop i ys)), s')
          \<and> walk_frame scratch s scratch' s'
          \<and> arena_room s \<le> arena_room s' + cell_cost scratch + 24 * sum_list (map nodes (drop i xs))"
proof (induction "length xs - i" arbitrary: i scratch s)
  case 0
  then have "list_eq_from eqk ha hb scratch i s = Some (Some True, s)"
    by (subst list_eq_from.simps) (simp add: tree_run_def)
  moreover have "walk_frame scratch s scratch s" using "0.prems"(3) by (simp add: walk_frame_def)
  ultimately show ?case using 0 by (intro exI [of _ scratch] exI [of _ s]) simp
next
  case (Suc k)
  have i: "i < length xs" "i < length ys" "length xs - Suc i = k" using Suc.hyps(2) Suc.prems(2) by auto
  let ?a = "arena_list_element_off (mem s) ha (word_of_nat i)" and ?b = "arena_list_element_off (mem s) hb (word_of_nat i)"
  have cnt: "i < unat (list_count (mem s) ha)" using Suc.prems(4) i(1) by (simp add: tree_run_def)
  have dx: "drop i xs = xs ! i # drop (Suc i) xs" and dy: "drop i ys = ys ! i # drop (Suc i) ys"
    using i by (simp_all add: Cons_nth_drop_Suc)
  have sh: "shaped (off_scratch scratch) s ?a (xs ! i)" "shaped (off_scratch scratch) s ?b (ys ! i)"
    using Suc.prems(4,5) i by (simp_all add: tree_run_def)
  have "depth (xs ! i) \<le> f" "24 * nodes (xs ! i) + cell_cost scratch \<le> arena_room s" using Suc.prems(6,7) i(1) by (simp_all add: dx)
  then obtain r t where r: "deep_values_equal eqk scratch ?a ?b s = Some (Some (dval_eq (mem s) (xs ! i) (ys ! i)), r, t)"
    "walk_frame scratch s r t" "arena_room s + cell_cost r \<le> arena_room t + cell_cost scratch + 24 * nodes (xs ! i)"
    using deep_values_equal_correct [OF dec Suc.prems(3) sh] by metis
  show ?case
  proof (cases "dval_eq (mem s) (xs ! i) (ys ! i)")
    case False
    then have "list_eq_from eqk ha hb scratch i s = Some (Some False, t)"
      using cnt r(1) by (subst list_eq_from.simps) simp
    then show ?thesis using r(2,3) False by (intro exI [of _ r] exI [of _ t]) (simp add: dx dy)
  next
    case True
    have "list_eq_from eqk ha hb scratch i s = list_eq_from eqk ha hb r (i + 1) t"
      using cnt r(1) True by (subst list_eq_from.simps) simp
    moreover have "\<exists>scratch' s'. list_eq_from eqk ha hb r (i + 1) t
            = Some (Some (list_all2 (dval_eq (mem t)) (drop (i + 1) xs) (drop (i + 1) ys)), s')
          \<and> walk_frame r t scratch' s'
          \<and> arena_room t \<le> arena_room s' + cell_cost r + 24 * sum_list (map nodes (drop (i + 1) xs))"
    proof (rule Suc.hyps(1))
      show "walk_state r t" using r(2) by (simp add: walk_frame_def)
      show "tree_run (off_scratch r) t ha xs" "tree_run (off_scratch r) t hb ys"
        using tree_run_walk [OF r(2)] Suc.prems(4,5) by blast+
      show "24 * sum_list (map nodes (drop (i + 1) xs)) + cell_cost r \<le> arena_room t"
        using Suc.prems(7) r(3) by (simp add: dx)
    qed (use i Suc.prems(2,6) in auto)
    moreover have "list_all2 (dval_eq (mem t)) (drop (i + 1) xs) (drop (i + 1) ys)
        = list_all2 (dval_eq (mem s)) (drop (i + 1) xs) (drop (i + 1) ys)"
    proof -
      have "dval_eq (mem t) (xs ! j) (ys ! j) = dval_eq (mem s) (xs ! j) (ys ! j)" if "j < length xs" for j
        by (rule dval_eq_agree [of "off_scratch scratch" s "arena_list_element_off (mem s) ha (word_of_nat j)" _
              "arena_list_element_off (mem s) hb (word_of_nat j)"])
          (use that Suc.prems(2,4,5) r(2) in \<open>auto simp: tree_run_def walk_frame_def\<close>)
      then show ?thesis using Suc.prems(2) by (simp add: list_all2_conv_all_nth)
    qed
    ultimately obtain r' s' where *: "list_eq_from eqk ha hb scratch i s
            = Some (Some (list_all2 (dval_eq (mem s)) (drop (i + 1) xs) (drop (i + 1) ys)), s')"
      "walk_frame r t r' s'" "arena_room t \<le> arena_room s' + cell_cost r + 24 * sum_list (map nodes (drop (i + 1) xs))"
      by auto
    have "walk_frame scratch s r' s'" by (rule walk_frame_trans [OF r(2) *(2)])
    then show ?thesis using * r(3) True by (intro exI [of _ r'] exI [of _ s']) (simp add: dx dy)
  qed
qed

lemma equality_kernel_decides: "decides (equality_kernel h f) f"
proof (induction f)
  case 0
  have z: "depth d = 0 \<longleftrightarrow> False" for d by (cases d) simp_all
  show ?case by (simp add: decides_def z)
next
  case (Suc f)
  show ?case
    unfolding decides_def
  proof (intro allI impI)
    fix s out a b da db
    assume ok: "arena_ok s" and ko: "kept_range s (cel_value_at out) 24" and ta: "tree s a da" and tb: "tree s b db"
      and d: "depth da \<le> Suc f" and room: "24 * nodes da \<le> arena_room s"
    let ?eq = "equality_kernel h (Suc f) out a b s"
    let ?goal = "\<lambda>s'. ?eq = Some s' \<and> keeps (cel_value_at out) s s' \<and> is_bool (cv s' out) (dval_eq (mem s) da db)
           \<and> arena_room s \<le> arena_room s' + 24 * nodes da"
    have wr: "?goal (write_bool (cel_value_at out) v s)" if "?eq = Some (write_bool (cel_value_at out) v s)" "v = dval_eq (mem s) da db" for v
      using that only_cell_keeps [OF _ ok, of "cel_value_at out" "write_bool (cel_value_at out) v s"]
      by (auto simp: is_bool_write)
    show "\<exists>s'. ?goal s'"
    proof (cases "\<exists>xs ys. da = DList xs \<and> db = DList ys")
      case True
      then obtain xs ys where x: "da = DList xs" "db = DList ys" by blast
      note ka = ta [unfolded x shaped.simps] and kb = tb [unfolded x shaped.simps]
      have "?eq = cel_list_eq_arena (equality_kernel h f) out a b s"
        using ka kb by (simp add: equality_kernel.simps(2) absorb_none poisoned_def Let_def equal_same_kind_def
            equal_aggregates_def both_lists_def cel_list_eq_def is_numeric_kind_def)
      also have "\<dots> = (if length xs = length ys
          then map_option (publish_verdict (cel_value_at out)) (list_eq_from (equality_kernel h f) (list_hdr s a) (list_hdr s b) 0 0 s)
          else Some (write_bool (cel_value_at out) False s))"
      proof -
        have "length xs = length ys \<longleftrightarrow> list_count (mem s) (list_hdr s a) = list_count (mem s) (list_hdr s b)"
          using ka kb by (simp add: word_unat_eq_iff)
        then show ?thesis using ka kb by (simp add: cel_list_eq_arena_def absorb_none poisoned_def Let_def list_hdr_def)
      qed
      finally have eq: "?eq = \<dots>" .
      show ?thesis
      proof (cases "length xs = length ys")
        case False
        then have "dval_eq (mem s) da db = False" using x by (auto dest: list_all2_lengthD)
        then show ?thesis using wr [of False] eq False by auto
      next
        case True
        have q: "off_scratch 0 = (\<lambda>_ _. True)" by (simp add: off_scratch_def fun_eq_iff)
        have dx: "\<forall>d \<in> set xs. depth d \<le> f" using d x by simp
        have rx: "24 * sum_list (map nodes (drop 0 xs)) + cell_cost 0 \<le> arena_room s" using room x by simp
        have runs: "tree_run (off_scratch 0) s (list_hdr s a) xs" "tree_run (off_scratch 0) s (list_hdr s b) ys"
          using tree_run_shaped ta tb x by (simp_all add: q)
        have "walk_state 0 s" using ok by (simp add: walk_state_def)
        from list_eq_from_correct [OF Suc.IH _ True [symmetric] this runs dx rx] obtain r s1 where
          s1: "list_eq_from (equality_kernel h f) (list_hdr s a) (list_hdr s b) 0 0 s
                = Some (Some (dval_eq (mem s) da db), s1)"
          "walk_frame 0 s r s1" "arena_room s \<le> arena_room s1 + 24 * nodes da"
          using x by auto
        let ?s' = "write_bool (cel_value_at out) (dval_eq (mem s) da db) s1"
        have "keeps (cel_value_at out) s s1"
        proof -
          have "mem s1 y = mem s y" if "kept s y" for y
          proof -
            have "kept_range s y 1" using that le_antisym by (fastforce simp: kept_range_def less_Suc_eq_le)
            then have "agree (mem s) (mem s1) y 1" using s1(2) unfolding walk_frame_def q by blast
            then show ?thesis by simp
          qed
          then show ?thesis using s1(2) by (simp add: keeps_def walk_frame_def walk_state_def)
        qed
        moreover have "keeps (cel_value_at out) s1 ?s'"
          using s1(2) by (intro only_cell_keeps) (simp_all add: walk_frame_def walk_state_def)
        ultimately have "keeps (cel_value_at out) s ?s'" by (rule keeps_trans)
        then have "?goal ?s'" using eq True s1(1,3) by (simp add: publish_verdict_def is_bool_write)
        then show ?thesis by blast
      qed
    next
      case False
      then consider (scalars) c e where "da = DScalar c" "db = DScalar e"
        | (mixed) "dval_eq (mem s) da db = False"
          "cv_kind (cv s a) = CEL_LIST_ARENA \<and> is_scalar_eq_kind (cv_kind (cv s b))
             \<or> cv_kind (cv s b) = CEL_LIST_ARENA \<and> is_scalar_eq_kind (cv_kind (cv s a))"
        using ta tb by (cases da; cases db) auto
      then show ?thesis
      proof cases
        case scalars
        have "?eq = Some (write_bool (cel_value_at out) (dval_eq (mem s) da db) s)"
          using ta tb scalars by (simp add: equality_kernel_scalar)
        then show ?thesis using wr by blast
      next
        case mixed
        have np: "\<not> poisoned (cv s a)" "\<not> poisoned (cv s b)" using mixed(2) scalar_not_poison by (auto simp: poisoned_def)
        have ne: "cv_kind (cv s a) \<noteq> cv_kind (cv s b)" using mixed(2) by (auto simp: is_scalar_eq_kind_def)
        have nn: "\<not> (is_numeric_kind (cv_kind (cv s a)) \<and> is_numeric_kind (cv_kind (cv s b)))"
          using mixed(2) by (auto simp: is_numeric_kind_def)
        have "?eq = equal_aggregates h (equality_kernel h f) out a b s"
          using nn ne by (auto simp: equality_kernel.simps(2) absorb_none [OF np] Let_def)
        also have "\<dots> = Some (write_bool (cel_value_at out) False s)"
        proof -
          have "k \<notin> {CEL_LIST_ARENA, CEL_LIST_HOST, CEL_MAP_ARENA, CEL_MAP_HOST, CEL_MESSAGE}" if "is_scalar_eq_kind k" for k
            using that unfolding is_scalar_eq_kind_def by (elim disjE) simp_all
          then show ?thesis using mixed(2) by (auto simp: equal_aggregates_def both_lists_def both_maps_def Let_def)
        qed
        finally show ?thesis using wr mixed(1) by blast
      qed
    qed
  qed
qed

subsection \<open>Membership\<close>

lemma list_element_addr:
  assumes "arena_ok s" "list_ok s l" "i < unat (list_count (mem s) (list_hdr s l))"
  shows "cel_value_at (arena_list_element_off (mem s) (list_hdr s l) (word_of_nat i)) = list_run s l + 24 * i"
proof -
  have n: "unat (list_count (mem s) (list_hdr s l)) \<le> list_room s l" using assms(2) by (simp add: list_ok_def)
  then have "list_run s l + 24 * list_room s l \<le> 2 ^ 32"
    using assms by (intro kept_range_bound) (auto simp: list_ok_def)
  then have b: "list_run s l + 24 * i < 2 ^ 32" using n assms(3) by auto
  then have "unat (24 * word_of_nat i :: u32) = 24 * i" by (simp add: unat_word_ariths unat_of_nat)
  then show ?thesis using b by (simp add: arena_list_element_off_def cel_value_at_def list_run_def unat_word_ariths)
qed

lemma list_scan_ex:
  assumes "arena_ok s" "list_ok s l"
  shows "list_ex (\<lambda>i. Q (load_cv (mem s) (cel_value_at (arena_list_element_off (mem s) (list_hdr s l) (word_of_nat i)))))
      [0..<unat (list_count (mem s) (list_hdr s l))] \<longleftrightarrow> (\<exists>e \<in> set (list_of s l). Q e)"
proof -
  have "list_ex (\<lambda>i. Q (load_cv (mem s) (cel_value_at (arena_list_element_off (mem s) (list_hdr s l) (word_of_nat i)))))
      [0..<unat (list_count (mem s) (list_hdr s l))]
    \<longleftrightarrow> (\<exists>i < length (list_of s l). Q (list_of s l ! i))"
    using list_element_addr [OF assms] list_of_nth [of _ s l]
    by (auto simp: list_ex_iff length_list_of Bex_def)
  also have "\<dots> \<longleftrightarrow> (\<exists>e \<in> set (list_of s l). Q e)" by (metis in_set_conv_nth)
  finally show ?thesis .
qed

lemma generic_scan_scalars:
  assumes "\<forall>j < unat (list_count (mem s) hdr). is_scalar_eq_kind (cv_kind (cv s (arena_list_element_off (mem s) hdr (word_of_nat j))))"
    "is_scalar_eq_kind (cv_kind (cv s v))"
  shows "list_scan_generic_from eqk hdr v 0 i s
    = Some (Some (list_ex (\<lambda>j. cel_value_eq (mem s) (cv s (arena_list_element_off (mem s) hdr (word_of_nat j))) (cv s v))
              [i..<unat (list_count (mem s) hdr)]), s)"
proof (induction "unat (list_count (mem s) hdr) - i" arbitrary: i)
  case 0
  then show ?case by (subst list_scan_generic_from.simps) simp
next
  case (Suc k)
  then have i: "i < unat (list_count (mem s) hdr)" "k = unat (list_count (mem s) hdr) - (i + 1)" by auto
  show ?case
    using i(1) assms Suc.hyps(1) [OF i(2)]
    by (subst list_scan_generic_from.simps) (auto simp: deep_values_equal_def Let_def upt_conv_Cons split: bool.split)
qed

lemma cel_list_in_correct:
  assumes ok: "arena_ok s" "list_ok s l" and v: "is_scalar_eq_kind (cv_kind (cv s v))"
    and typed: "is_numeric_kind (cv_kind (cv s v)) \<or> cv_kind (cv s v) \<in> {CEL_STRING, CEL_BOOL}
      \<or> (\<forall>e \<in> set (list_of s l). is_scalar_eq_kind (cv_kind e))"
  shows "cel_list_in h eqk out v l s = Some (write_bool (cel_value_at out) (\<exists>e \<in> set (list_of s l). cel_value_eq (mem s) e (cv s v)) s)"
proof -
  let ?h = "list_hdr s l" and ?v = "cv s v"
  have kl: "cv_kind (cv s l) = CEL_LIST_ARENA" using ok(2) by (simp add: list_ok_def)
  have np: "\<not> poisoned ?v" "\<not> poisoned (cv s l)" using v kl scalar_not_poison by (auto simp: poisoned_def)
  note ex = list_scan_ex [OF ok]
  have num: "arena_list_scan_numeric (mem s) ?h ?v \<longleftrightarrow> (\<exists>e \<in> set (list_of s l). cel_value_eq (mem s) e ?v)"
    if "is_numeric_kind (cv_kind ?v)"
  proof -
    have "(if cv_kind e = cv_kind ?v then if cv_kind ?v = CEL_DOUBLE then d_eq (pl_d e) (pl_d ?v) else pl_u e = pl_u ?v
        else is_numeric_kind (cv_kind e) \<and> numeric_compare_kernel e ?v = CmpEqual) = cel_value_eq (mem s) e ?v" for e
    proof (cases "cv_kind e = cv_kind ?v")
      case True
      then show ?thesis using that same_numeric_eq [of e ?v] by (simp add: cel_value_eq_def)
    next
      case False
      have "cv_kind ?v \<notin> {CEL_STRING, CEL_BOOL, CEL_BYTES, CEL_NULL, CEL_DURATION, CEL_TIMESTAMP, CEL_IP, CEL_CIDR}"
        using that unfolding is_numeric_kind_def by (elim disjE) simp_all
      then show ?thesis using that False by (simp add: cel_value_eq_def)
    qed
    then show ?thesis using ex [of "\<lambda>e. cel_value_eq (mem s) e ?v"] by (simp add: arena_list_scan_numeric_def Let_def)
  qed
  have str: "arena_list_scan_string (mem s) ?h ?v \<longleftrightarrow> (\<exists>e \<in> set (list_of s l). cel_value_eq (mem s) e ?v)"
    if "cv_kind ?v = CEL_STRING"
  proof -
    have "(cv_kind e = CEL_STRING \<and> spans_equal (mem s) (pl_s_ptr e) (pl_s_len e) (pl_s_ptr ?v) (pl_s_len ?v))
        = cel_value_eq (mem s) e ?v" for e using that by (simp add: cel_value_eq_def is_numeric_kind_def)
    then show ?thesis using ex [of "\<lambda>e. cel_value_eq (mem s) e ?v"] by (simp add: arena_list_scan_string_def Let_def)
  qed
  have bool: "arena_list_scan_bool (mem s) ?h ?v \<longleftrightarrow> (\<exists>e \<in> set (list_of s l). cel_value_eq (mem s) e ?v)"
    if "cv_kind ?v = CEL_BOOL"
  proof -
    have "(cv_kind e = CEL_BOOL \<and> (pl_b e \<noteq> 0) = (pl_b ?v \<noteq> 0)) = cel_value_eq (mem s) e ?v" for e
      using that by (simp add: cel_value_eq_def is_numeric_kind_def)
    then show ?thesis using ex [of "\<lambda>e. cel_value_eq (mem s) e ?v"] by (simp add: arena_list_scan_bool_def Let_def)
  qed
  have gen: "arena_list_scan_generic eqk ?h v s = Some (Some (\<exists>e \<in> set (list_of s l). cel_value_eq (mem s) e ?v), s)"
    if "\<forall>e \<in> set (list_of s l). is_scalar_eq_kind (cv_kind e)"
  proof -
    have "is_scalar_eq_kind (cv_kind (cv s (arena_list_element_off (mem s) ?h (word_of_nat j))))"
      if "j < unat (list_count (mem s) ?h)" for j
      using \<open>\<forall>e \<in> set (list_of s l). is_scalar_eq_kind (cv_kind e)\<close> that list_element_addr [OF ok that] list_of_nth [of j s l]
        nth_mem [of j "list_of s l"] by (simp add: length_list_of)
    then show ?thesis using v ex by (simp add: arena_list_scan_generic_def generic_scan_scalars)
  qed
  have eq: "cel_list_in h eqk out v l s = cel_list_in_arena eqk out v l s"
    using np kl by (simp add: cel_list_in_def poisoned_def Let_def)
  have "cel_list_in_arena eqk out v l s =
     (if is_numeric_kind (cv_kind ?v) then Some (write_bool (cel_value_at out) (arena_list_scan_numeric (mem s) ?h ?v) s)
      else if cv_kind ?v = CEL_STRING then Some (write_bool (cel_value_at out) (arena_list_scan_string (mem s) ?h ?v) s)
      else if cv_kind ?v = CEL_BOOL then Some (write_bool (cel_value_at out) (arena_list_scan_bool (mem s) ?h ?v) s)
      else do {
        (found, s) \<leftarrow> arena_list_scan_generic eqk ?h v s;
        case found of None \<Rightarrow> Some (poison (cel_value_at out) CEL_ERR_OVERFLOW s) | Some b \<Rightarrow> Some (write_bool (cel_value_at out) b s)
      })"
    unfolding cel_list_in_arena_def Let_def list_hdr_def absorb_none [OF np] using kl by simp
  then show ?thesis unfolding eq using num str bool gen typed by (simp split: if_splits)
qed

subsection \<open>Properties\<close>

text \<open>
  Membership in a list decides whether some element equals the needle by the scalar equality
  rule, for every scalar needle: the typed scans for numbers, strings and bools agree with the
  generic rule whatever else the list holds, and the generic scan on lists of scalars does too.
  Nothing but the out cell changes.
\<close>

theorem list_in_exact:
  assumes "arena_ok s" "list_ok s l" "is_scalar_eq_kind (cv_kind (cv s v))"
    and "is_numeric_kind (cv_kind (cv s v)) \<or> cv_kind (cv s v) \<in> {CEL_STRING, CEL_BOOL}
      \<or> (\<forall>e \<in> set (list_of s l). is_scalar_eq_kind (cv_kind e))"
  shows "\<exists>s'. cel_list_in h eqk out v l s = Some s' \<and> only_cell (cel_value_at out) s s'
    \<and> is_bool (cv s' out) (\<exists>e \<in> set (list_of s l). cel_value_eq (mem s) e (cv s v))"
  using cel_list_in_correct [OF assms] by (simp add: is_bool_write)

theorem list_in_exact_witness:
  "\<exists>s'. cel_list_in weak_host (equality_kernel weak_host 1) 192 128 160 sample_list = Some s' \<and> is_bool (cv s' 192) False"
  using list_in_exact [OF sample_list_ok(1,2), of 128 weak_host "equality_kernel weak_host 1" 192]
  by (auto simp: sample_list_ok(3) sample_list_cells is_scalar_eq_kind_def is_numeric_kind_def cel_value_eq_def
      numeric_compare_kernel_def cmp_i64_def pl_defs)

text \<open>
  C14. Equality of values built from scalars and arena lists to any depth is structural equality:
  with fuel for the nesting and arena room for one scratch cell per nested list of the left
  operand, \<open>==\<close> and \<open>!=\<close> return a verdict, the verdict is pointwise equality of the two trees (and
  its negation), and no kept byte outside the out slot changes.
\<close>

theorem list_equality_structural:
  assumes "arena_ok s" "kept_range s (cel_value_at out) 24" "tree s a da" "tree s b db"
    and "depth da \<le> fuel" "24 * nodes da \<le> arena_room s"
  shows "(\<exists>s'. cel_equals_at_vv h fuel out a b s = Some s' \<and> keeps (cel_value_at out) s s'
        \<and> is_bool (cv s' out) (dval_eq (mem s) da db))
    \<and> (\<exists>s'. cel_not_equals_at_vv h fuel out a b s = Some s' \<and> keeps (cel_value_at out) s s'
        \<and> is_bool (cv s' out) (\<not> dval_eq (mem s) da db))"
proof -
  obtain s' where s': "equality_kernel h fuel out a b s = Some s'" "keeps (cel_value_at out) s s'"
    "is_bool (cv s' out) (dval_eq (mem s) da db)"
    using equality_kernel_decides [of h fuel] assms unfolding decides_def by blast
  let ?o = "cel_value_at out"
  define t where "t = s'\<lparr>mem := store32 (mem s') (?o + 8) (if pl_b (cv s' out) \<noteq> 0 then 0 else 1)\<rparr>"
  have "only_cell ?o s' t" unfolding t_def by (intro only_cell_store same_outside_store32) simp_all
  then have "keeps ?o s' t" using keeps_arena_ok [OF s'(2)] by (rule only_cell_keeps)
  then have k: "keeps ?o s t" using s'(2) keeps_trans by blast
  have v: "is_bool (cv t out) (\<not> dval_eq (mem s) da db)"
    using s'(3) by (cases "dval_eq (mem s) da db") (simp_all add: t_def is_bool_def mem_simps pl_defs)
  have "cel_not_equals_at_vv h fuel out a b s = Some t"
    using s'(1,3) by (simp add: cel_not_equals_at_vv_def is_bool_def t_def)
  then show ?thesis using s' k v by (simp add: cel_equals_at_vv_def)
qed

lemma sample_list_tree: "tree sample_list 160 (DList [DScalar (cell_of CEL_INT 7), DScalar (cell_of CEL_INT 8)])"
proof -
  have e: "arena_list_element_off (mem sample_list) 300 i = 400 + 24 * i" for i
    using sample_list_fields(1,2) load_words4 [of _ 300 2 2 400 0]
    by (simp add: arena_list_element_off_def list_elements_def sample_list_def load32_store_cv_other)
  have c: "cv sample_list 400 = cell_of CEL_INT 7" "cv sample_list 424 = cell_of CEL_INT 8"
    by (simp_all add: sample_list_def cel_value_at_def mem_simps)
  note d = c [unfolded cel_value_at_def, simplified] sample_list_cells(2) [unfolded cel_value_at_def, simplified]
  have sc: "tree sample_list 400 (DScalar (cell_of CEL_INT 7))" "tree sample_list 424 (DScalar (cell_of CEL_INT 8))"
    by (simp_all add: d low_kept cel_value_at_def is_scalar_eq_kind_def bool_canonical_def scalar_ranges_def)
  have "tree sample_list (400 + 24 * word_of_nat i) ([DScalar (cell_of CEL_INT 7), DScalar (cell_of CEL_INT 8)] ! i)"
    if "i < 2" for i
    using that sc by (auto simp del: shaped.simps simp: less_2_cases_iff)
  then show ?thesis
    by (simp add: d sample_list_fields e low_kept cel_value_at_def del: shaped.simps(1))
qed

theorem list_equality_structural_witness:
  "\<exists>s'. cel_equals_at_vv weak_host 2 192 160 160 sample_list = Some s' \<and> is_bool (cv s' 192) True"
  using list_equality_structural [OF sample_list_ok(1) _ sample_list_tree sample_list_tree, of 192 2 weak_host]
  using sample_rt_room by (auto simp: low_kept cel_value_at_def sample_list_cells cel_value_eq_def is_numeric_kind_def
      numeric_compare_kernel_def cmp_i64_def pl_defs sample_list_def)

end
