(* ===== verification/Optional.thy ===== *)
theory Optional
  imports DeepEquality
begin

text \<open>
  Optional values (\<open>runtime/cel_optional.c\<close>). An optional cell points at a 32-byte \<open>OptionalCell\<close>: a
  presence word, padding, and the inner value at offset 8. The abstract value of a cell is
  \<open>opt_view\<close>, a \<open>cel_value option\<close>, and the accessors refine the operations of that type.
\<close>

record optional_host =
  host_message_is_zero :: "u32 \<Rightarrow> u32 \<Rightarrow> rt \<Rightarrow> rt option"
  host_set_field :: "u32 \<Rightarrow> u32 \<Rightarrow> u32 \<Rightarrow> rt \<Rightarrow> rt option"

text \<open>The weak stubs of the native build.\<close>

definition weak_set_field :: "u32 \<Rightarrow> u32 \<Rightarrow> u32 \<Rightarrow> rt \<Rightarrow> rt option" where
  "weak_set_field msg_slot field_ref_id value_slot s = Some s"

definition weak_optional_host :: optional_host where
  "weak_optional_host = \<lparr>host_message_is_zero = weak_mismatch_v, host_set_field = weak_set_field\<rparr>"

subsection \<open>Cells\<close>

definition opt_present :: "memory \<Rightarrow> u32 \<Rightarrow> u32" where "opt_present m off = load32 m (unat off)"

definition opt_inner :: "u32 \<Rightarrow> u32" where "opt_inner off = off + 8"

definition alloc_cell :: "rt \<Rightarrow> (u32 \<times> rt) option" where "alloc_cell s = arena_alloc 32 s"

definition write_optional :: "nat \<Rightarrow> u32 \<Rightarrow> rt \<Rightarrow> rt" where
  "write_optional out cell_off s =
     s\<lparr>mem := store32 (store32 (store32 (mem s) out CEL_OPTIONAL) (out + 4) 0) (out + 8) cell_off\<rparr>"

subsection \<open>The zero predicate\<close>

definition host_probe_says_zero :: "memory \<Rightarrow> u32 \<Rightarrow> u32 \<Rightarrow> bool" where
  "host_probe_says_zero m scratch expected_kind =
     (if scratch = 0 then False
      else (let r = load_cv m (cel_value_at scratch) in
        if cv_kind r \<noteq> expected_kind then False
        else if expected_kind = CEL_BOOL then pl_b r \<noteq> 0
        else pl_i r = 0))"

definition host_value_is_zero :: "cel_host \<Rightarrow> optional_host \<Rightarrow> u32 \<Rightarrow> u32 \<Rightarrow> rt \<Rightarrow> (bool \<times> rt) option" where
  "host_value_is_zero h oh kind v_slot s = do {
     (scratch, s) \<leftarrow> arena_alloc 24 s;
     if scratch = 0 then Some (False, s)
     else if kind = CEL_LIST_HOST then do {
       s \<leftarrow> host_list_size h scratch v_slot s;
       Some (host_probe_says_zero (mem s) scratch CEL_INT, s)
     }
     else if kind = CEL_MAP_HOST then do {
       s \<leftarrow> host_map_size h scratch v_slot s;
       Some (host_probe_says_zero (mem s) scratch CEL_INT, s)
     }
     else if kind = CEL_MESSAGE then do {
       s \<leftarrow> host_message_is_zero oh scratch v_slot s;
       Some (host_probe_says_zero (mem s) scratch CEL_BOOL, s)
     }
     else None
   }"

text \<open>The C recurses through nested optionals; the fuel bounds their nesting.\<close>

fun is_zero_value :: "cel_host \<Rightarrow> optional_host \<Rightarrow> nat \<Rightarrow> u32 \<Rightarrow> rt \<Rightarrow> (bool \<times> rt) option" where
  "is_zero_value h oh 0 v_slot s = None"
| "is_zero_value h oh (Suc fuel) v_slot s =
     (let v = cv s v_slot; k = cv_kind v in
      if k = CEL_NULL then Some (True, s)
      else if k = CEL_BOOL then Some (pl_b v = 0, s)
      else if k = CEL_INT then Some (pl_i v = 0, s)
      else if k = CEL_UINT then Some (pl_u v = 0, s)
      else if k = CEL_DOUBLE then Some (d_eq (pl_d v) 0, s)
      else if k = CEL_STRING \<or> k = CEL_BYTES then Some (pl_s_len v = 0, s)
      else if k = CEL_LIST_ARENA then Some (list_count (mem s) (arena_list_header v) = 0, s)
      else if k = CEL_MAP_ARENA then Some (map_count (mem s) (arena_map_header v) = 0, s)
      else if k = CEL_DURATION \<or> k = CEL_TIMESTAMP then Some (pl_seconds v = 0 \<and> pl_nanos v = 0, s)
      else if k = CEL_TYPE then Some (False, s)
      else if k = CEL_OPTIONAL then
        (if opt_present (mem s) (pl_opt v) = 0 then Some (True, s)
         else is_zero_value h oh fuel (opt_inner (pl_opt v)) s)
      else if k = CEL_LIST_HOST \<or> k = CEL_MAP_HOST \<or> k = CEL_MESSAGE then host_value_is_zero h oh k v_slot s
      else Some (False, s))"

subsection \<open>Constructors\<close>

definition cel_optional_none_at :: "u32 \<Rightarrow> rt \<Rightarrow> rt option" where
  "cel_optional_none_at out_slot s = (let out = cel_value_at out_slot in do {
     (cell_off, s) \<leftarrow> alloc_cell s;
     if cell_off = 0 then Some (poison out CEL_ERR_OVERFLOW s)
     else Some (write_optional out cell_off s)
   })"

definition cel_optional_of_at_v :: "u32 \<Rightarrow> u32 \<Rightarrow> rt \<Rightarrow> rt option" where
  "cel_optional_of_at_v out_slot v_slot s = (let out = cel_value_at out_slot; (wrote, s) = absorb_3vl_unary out (cel_value_at v_slot) s in
     if wrote then Some s
     else do {
       (cell_off, s) \<leftarrow> alloc_cell s;
       if cell_off = 0 then Some (poison out CEL_ERR_OVERFLOW s)
       else (let s = s\<lparr>mem := store32 (mem s) (unat cell_off) 1\<rparr>;
                 s = copy_cv (cel_value_at (opt_inner cell_off)) (cel_value_at v_slot) s in
         Some (write_optional out cell_off s))
     })"

definition cel_optional_of_non_zero_at_v :: "cel_host \<Rightarrow> optional_host \<Rightarrow> nat \<Rightarrow> u32 \<Rightarrow> u32 \<Rightarrow> rt \<Rightarrow> rt option" where
  "cel_optional_of_non_zero_at_v h oh fuel out_slot v_slot s =
     (let (wrote, s) = absorb_3vl_unary (cel_value_at out_slot) (cel_value_at v_slot) s in
      if wrote then Some s
      else do {
        (zero, s) \<leftarrow> is_zero_value h oh fuel v_slot s;
        if zero then cel_optional_none_at out_slot s else cel_optional_of_at_v out_slot v_slot s
      })"

subsection \<open>Accessors\<close>

definition absorb_or_typecheck_optional :: "nat \<Rightarrow> nat \<Rightarrow> rt \<Rightarrow> bool \<times> rt" where
  "absorb_or_typecheck_optional out opt s =
     (let (wrote, s) = absorb_3vl_unary out opt s in
      if wrote then (True, s)
      else if cv_kind (load_cv (mem s) opt) \<noteq> CEL_OPTIONAL then (True, poison out CEL_ERR_TYPE_MISMATCH s)
      else (False, s))"

definition cel_optional_has_value_at_v :: "u32 \<Rightarrow> u32 \<Rightarrow> rt \<Rightarrow> rt" where
  "cel_optional_has_value_at_v out_slot opt_slot s =
     (let out = cel_value_at out_slot; (stop, s) = absorb_or_typecheck_optional out (cel_value_at opt_slot) s in
      if stop then s
      else write_bool out (opt_present (mem s) (pl_opt (cv s opt_slot)) \<noteq> 0) s)"

definition cel_optional_value_at_v :: "u32 \<Rightarrow> u32 \<Rightarrow> rt \<Rightarrow> rt" where
  "cel_optional_value_at_v out_slot opt_slot s =
     (let out = cel_value_at out_slot; (stop, s) = absorb_or_typecheck_optional out (cel_value_at opt_slot) s in
      if stop then s
      else (let cell = pl_opt (cv s opt_slot) in
        if opt_present (mem s) cell = 0 then poison out CEL_ERR_INVALID_ARGUMENT s
        else copy_cv out (cel_value_at (opt_inner cell)) s))"

definition cel_optional_or_at_vv :: "u32 \<Rightarrow> u32 \<Rightarrow> u32 \<Rightarrow> rt \<Rightarrow> rt" where
  "cel_optional_or_at_vv out_slot opt_slot other_slot s =
     (let out = cel_value_at out_slot; opt = cel_value_at opt_slot; other = cel_value_at other_slot;
          (wrote, s) = absorb_3vl_unary out opt s in
      if wrote then s
      else if cv_kind (load_cv (mem s) opt) \<noteq> CEL_OPTIONAL then poison out CEL_ERR_TYPE_MISMATCH s
      else if opt_present (mem s) (pl_opt (load_cv (mem s) opt)) \<noteq> 0 then copy_cv out opt s
      else (let (wrote, s) = absorb_3vl_unary out other s in
        if wrote then s
        else if cv_kind (load_cv (mem s) other) \<noteq> CEL_OPTIONAL then poison out CEL_ERR_TYPE_MISMATCH s
        else copy_cv out other s))"

definition cel_optional_or_value_at_vv :: "u32 \<Rightarrow> u32 \<Rightarrow> u32 \<Rightarrow> rt \<Rightarrow> rt" where
  "cel_optional_or_value_at_vv out_slot opt_slot default_slot s =
     (let out = cel_value_at out_slot; opt = cel_value_at opt_slot; (wrote, s) = absorb_3vl_unary out opt s in
      if wrote then s
      else if cv_kind (load_cv (mem s) opt) \<noteq> CEL_OPTIONAL then poison out CEL_ERR_TYPE_MISMATCH s
      else (let cell = pl_opt (load_cv (mem s) opt) in
        if opt_present (mem s) cell \<noteq> 0 then copy_cv out (cel_value_at (opt_inner cell)) s
        else copy_cv out (cel_value_at default_slot) s))"

subsection \<open>Optional selection\<close>

definition is_absent_error :: "cel_value \<Rightarrow> bool" where
  "is_absent_error e \<longleftrightarrow> cv_kind e = CEL_ERROR
     \<and> (pl_err e = CEL_ERR_NO_SUCH_KEY \<or> pl_err e = CEL_ERR_INDEX_OUT_OF_BOUNDS \<or> pl_err e = CEL_ERR_FIELD_NOT_FOUND)"

text \<open>The host-backed kinds trap; \<open>False\<close> is the poisoned out slot of an unsupported kind.\<close>

definition dispatch_lookup :: "u64 \<Rightarrow> nat \<Rightarrow> u32 \<Rightarrow> u32 \<Rightarrow> u32 \<Rightarrow> rt \<Rightarrow> (bool \<times> rt) option" where
  "dispatch_lookup ub out src_slot key_slot scratch_off s =
     (let k = cv_kind (cv s src_slot) in
      if k = CEL_MAP_ARENA then map_option (Pair True) (cel_map_lookup_arena scratch_off src_slot key_slot s)
      else if k = CEL_LIST_ARENA then map_option (Pair True) (cel_list_at_arena ub scratch_off src_slot key_slot s)
      else if k = CEL_MAP_HOST \<or> k = CEL_LIST_HOST \<or> k = CEL_MESSAGE then None
      else Some (False, poison out CEL_ERR_TYPE_MISMATCH s))"

definition finalize_lookup_result :: "nat \<Rightarrow> u32 \<Rightarrow> rt \<Rightarrow> bool \<times> rt" where
  "finalize_lookup_result out cell_off s =
     (let inner = cv s (opt_inner cell_off); a = cel_value_at (opt_inner cell_off) in
      if is_absent_error inner
      then (True, write_optional out cell_off
             (s\<lparr>mem := store64 (store32 (store32 (store32 (mem s) (unat cell_off) 0) a CEL_NULL) (a + 4) 0) (a + 8) 0\<rparr>))
      else if cv_kind inner = CEL_ERROR \<or> cv_kind inner = CEL_UNKNOWN then (True, copy_cv out a s)
      else (False, s))"

definition cel_select_optional_field_at_vv :: "u64 \<Rightarrow> kernel2" where
  "cel_select_optional_field_at_vv ub out_slot src_slot key_slot s = (let out = cel_value_at out_slot in do {
     (wrote, s) \<leftarrow> absorb_3vl_binary out (cel_value_at src_slot) (cel_value_at key_slot) s;
     if wrote then Some s
     else do {
       (cell_off, s) \<leftarrow> alloc_cell s;
       if cell_off = 0 then Some (poison out CEL_ERR_OVERFLOW s)
       else (let src = cv s src_slot in
         if cv_kind src = CEL_OPTIONAL \<and> opt_present (mem s) (pl_opt src) = 0 then Some (write_optional out cell_off s)
         else do {
           let inner_src_slot = (if cv_kind src = CEL_OPTIONAL then opt_inner (pl_opt src) else src_slot);
           (ok, s) \<leftarrow> dispatch_lookup ub out inner_src_slot key_slot (opt_inner cell_off) s;
           if \<not> ok then Some s
           else (let (published, s) = finalize_lookup_result out cell_off s in
             if published then Some s
             else Some (write_optional out cell_off (s\<lparr>mem := store32 (mem s) (unat cell_off) 1\<rparr>)))
         })
     }
   })"

subsection \<open>Conditional inserts and appends\<close>

text \<open>\<open>None\<close>: stop, with what was written; \<open>Some\<close>: the cell holds a value.\<close>

definition absorb_optional_predicate :: "nat \<Rightarrow> u32 \<Rightarrow> rt \<Rightarrow> u32 option \<times> rt" where
  "absorb_optional_predicate dst opt_slot s =
     (let opt = cv s opt_slot in
      if cv_kind opt = CEL_ERROR \<or> cv_kind opt = CEL_UNKNOWN then (None, copy_cv dst (cel_value_at opt_slot) s)
      else if cv_kind opt \<noteq> CEL_OPTIONAL then (None, poison dst CEL_ERR_TYPE_MISMATCH s)
      else if opt_present (mem s) (pl_opt opt) = 0 then (None, s)
      else (Some (pl_opt opt), s))"

definition cel_map_insert_at_if_present :: "u32 \<Rightarrow> u32 \<Rightarrow> u32 \<Rightarrow> rt \<Rightarrow> rt option" where
  "cel_map_insert_at_if_present map_slot key_slot opt_value_slot s =
     (if cv_kind (cv s map_slot) \<noteq> CEL_MAP_ARENA then Some s
      else (case absorb_optional_predicate (cel_value_at map_slot) opt_value_slot s of
          (None, s) \<Rightarrow> Some s
        | (Some cell, s) \<Rightarrow> cel_map_insert_at map_slot key_slot (opt_inner cell) s))"

definition cel_list_append_at_if_present :: "u32 \<Rightarrow> u32 \<Rightarrow> rt \<Rightarrow> rt option" where
  "cel_list_append_at_if_present list_slot opt_value_slot s =
     (if cv_kind (cv s list_slot) \<noteq> CEL_LIST_ARENA then Some s
      else (case absorb_optional_predicate (cel_value_at list_slot) opt_value_slot s of
          (None, s) \<Rightarrow> Some s
        | (Some cell, s) \<Rightarrow> cel_list_append_at list_slot (opt_inner cell) s))"

definition cel_set_field_at_if_present :: "optional_host \<Rightarrow> u32 \<Rightarrow> u32 \<Rightarrow> u32 \<Rightarrow> rt \<Rightarrow> rt option" where
  "cel_set_field_at_if_present oh msg_slot field_ref_id opt_value_slot s =
     (if cv_kind (cv s msg_slot) \<noteq> CEL_MESSAGE then Some s
      else (case absorb_optional_predicate (cel_value_at msg_slot) opt_value_slot s of
          (None, s) \<Rightarrow> Some s
        | (Some cell, s) \<Rightarrow> host_set_field oh msg_slot field_ref_id (opt_inner cell) s))"

subsection \<open>The abstract value\<close>

definition opt_view :: "rt \<Rightarrow> u32 \<Rightarrow> cel_value option" where
  "opt_view s slot = (let c = pl_opt (cv s slot) in if opt_present (mem s) c = 0 then None else Some (cv s (opt_inner c)))"

text \<open>The optional cell an optional value points at is kept and apart from a range.\<close>

definition opt_apart :: "rt \<Rightarrow> u32 \<Rightarrow> nat \<Rightarrow> nat \<Rightarrow> bool" where
  "opt_apart s slot a n \<longleftrightarrow> (let c = pl_opt (cv s slot) in apart (unat c) 4 a n \<and> apart (cel_value_at (opt_inner c)) 24 a n)"

lemma same_outside_optional: "same_outside out 24 (mem s) (mem (write_optional out c s))"
  unfolding write_optional_def
  by (simp, intro same_outside_trans [OF same_outside_trans [OF same_outside_store32 same_outside_store32] same_outside_store32]) simp_all

lemma only_cell_optional [simp]: "only_cell out s (write_optional out c s)"
  using same_outside_optional [of out s c] by (simp add: only_cell_def write_optional_def)

lemma cell_write_optional:
  "cv_kind (load_cv (mem (write_optional out c s)) out) = CEL_OPTIONAL"
  "pl_opt (load_cv (mem (write_optional out c s)) out) = c"
  by (simp_all add: write_optional_def mem_simps pl_opt_def)

lemma alloc_cell_cases:
  assumes ok: "arena_ok s"
  obtains (null) t where "alloc_cell s = Some (0, t)" "extends s t"
  | (cell) p t where "alloc_cell s = Some (p, t)" "p \<noteq> 0" "extends s t" "kept_range t (unat p) 32" "fresh_range s (unat p) 32"
      "cel_value_at (opt_inner p) = unat p + 8" "opt_present (mem t) p = 0"
proof (cases rule: arena_alloc_extends [OF ok, of 32])
  case (1 t)
  then show thesis using null [of t] by (simp add: alloc_cell_def)
next
  case (2 p t)
  have "cel_value_at (opt_inner p) = unat p + 8" using 2(6) by (simp add: opt_inner_def cel_value_at_def unat_word_ariths)
  moreover have "opt_present (mem t) p = 0"
    using 2(8) [of 0] 2(8) [of 1] 2(8) [of 2] 2(8) [of 3] by (simp add: opt_present_def load32_def)
  ultimately show thesis using 2 by (intro cell [of p t]) (simp_all add: alloc_cell_def fresh_range_def)
qed

text \<open>Filling a fresh cell and publishing it in the out slot.\<close>

lemma publish_optional:
  assumes t: "extends s t" and fr: "fresh_range s (unat p) 32" and kr: "kept_range t (unat p) 32"
    and adr: "cel_value_at (opt_inner p) = unat p + 8" and ko: "kept_range s (cel_value_at out) 24"
    and so: "same_outside (unat p) 32 (mem t) m"
  defines "s' \<equiv> write_optional (cel_value_at out) p (t\<lparr>mem := m\<rparr>)"
  shows "keeps (cel_value_at out) s s'" "cv_kind (cv s' out) = CEL_OPTIONAL"
    "opt_view s' out = (if opt_present m p = 0 then None else Some (load_cv m (cel_value_at (opt_inner p))))"
proof -
  let ?o = "cel_value_at out"
  have e: "extends s (t\<lparr>mem := m\<rparr>)" by (rule extends_fill [OF t so]) (use fr in \<open>auto simp: fresh_range_def\<close>)
  have oc: "only_cell ?o (t\<lparr>mem := m\<rparr>) s'" unfolding s'_def by simp
  have "arena_ok (t\<lparr>mem := m\<rparr>)" using e by (simp add: extends_def)
  then show "keeps ?o s s'" using keeps_trans [OF extends_keeps [OF e] only_cell_keeps [OF oc]] by blast
  show "cv_kind (cv s' out) = CEL_OPTIONAL" by (simp add: s'_def cell_write_optional)
  have a: "apart ?o 24 (unat p) 32" using fr ko by (rule fresh_apart)
  have so': "same_outside ?o 24 m (mem s')" using same_outside_optional [of ?o "t\<lparr>mem := m\<rparr>" p] by (simp add: s'_def)
  have "load32 (mem s') (unat p) = load32 m (unat p)"
    by (rule load32_apart [OF so', of "unat p" 32]) (use a in \<open>simp_all add: apart_sym\<close>)
  moreover have "load_cv (mem s') (unat p + 8) = load_cv m (unat p + 8)"
    by (rule load_cv_apart [OF so']) (rule apart_sub [of "unat p" 32 ?o 24]; use a in \<open>simp add: apart_sym\<close>)
  ultimately show "opt_view s' out = (if opt_present m p = 0 then None else Some (load_cv m (cel_value_at (opt_inner p))))"
    by (simp add: opt_view_def s'_def cell_write_optional opt_present_def adr)
qed

subsection \<open>Constructors\<close>

definition opt_oom :: "rt \<Rightarrow> bool" where "opt_oom s \<longleftrightarrow> (\<exists>t. alloc_cell s = Some (0, t))"

definition optional_result :: "u32 \<Rightarrow> rt \<Rightarrow> cel_value option \<Rightarrow> rt \<Rightarrow> bool" where
  "optional_result out s v s' \<longleftrightarrow> keeps (cel_value_at out) s s'
     \<and> (if opt_oom s then is_err (cv s' out) CEL_ERR_OVERFLOW
        else cv_kind (cv s' out) = CEL_OPTIONAL \<and> opt_view s' out = v)"

lemma optional_oom:
  assumes "arena_ok s" "alloc_cell s = Some (0, t)" "extends s t"
  shows "optional_result out s v (poison (cel_value_at out) CEL_ERR_OVERFLOW t)"
proof -
  have "arena_ok t" using assms(3) by (simp add: extends_def)
  then have "keeps (cel_value_at out) t (poison (cel_value_at out) CEL_ERR_OVERFLOW t)" by (intro only_cell_keeps) simp_all
  then show ?thesis
    using keeps_trans [OF extends_keeps [OF assms(3)]] assms(2) by (auto simp: optional_result_def opt_oom_def is_err_poison)
qed

lemma optional_none_correct:
  assumes ok: "arena_ok s" "kept_range s (cel_value_at out) 24"
  shows "\<exists>s'. cel_optional_none_at out s = Some s' \<and> optional_result out s None s'"
proof (cases rule: alloc_cell_cases [OF ok(1)])
  case (1 t)
  then show ?thesis using optional_oom [OF ok(1) 1] by (simp add: cel_optional_none_at_def)
next
  case (2 p t)
  have "same_outside (unat p) 32 (mem t) (mem t)" by simp
  note pub = publish_optional [OF 2(3,5,4,6) ok(2) this]
  show ?thesis using 2(1,2,7) pub by (simp add: cel_optional_none_at_def optional_result_def opt_oom_def)
qed

lemma optional_of_correct:
  assumes ok: "arena_ok s" "kept_range s (cel_value_at out) 24" "kept_range s (cel_value_at v) 24" "\<not> poisoned (cv s v)"
  shows "\<exists>s'. cel_optional_of_at_v out v s = Some s' \<and> optional_result out s (Some (cv s v)) s'"
proof -
  have np: "absorb_3vl_unary (cel_value_at out) (cel_value_at v) s = (False, s)"
    using ok(4) by (simp add: absorb_3vl_unary_def poisoned_def Let_def)
  show ?thesis
  proof (cases rule: alloc_cell_cases [OF ok(1)])
    case (1 t)
    then show ?thesis using optional_oom [OF ok(1) 1] np by (simp add: cel_optional_of_at_v_def)
  next
    case (2 p t)
    define m where "m = store_cv (store32 (mem t) (unat p) 1) (unat p + 8) (load_cv (store32 (mem t) (unat p) 1) (cel_value_at v))"
    have so: "same_outside (unat p) 32 (mem t) m" unfolding m_def
      by (rule same_outside_trans [OF same_outside_store32 same_outside_mono [OF same_outside_store_cv]]) simp_all
    have a: "apart (cel_value_at v) 24 (unat p) 32" using 2(5) ok(3) by (rule fresh_apart)
    have so1: "same_outside (unat p) 32 (mem t) (store32 (mem t) (unat p) 1)" by (rule same_outside_store32) simp_all
    have v: "load_cv (store32 (mem t) (unat p) 1) (cel_value_at v) = cv s v"
      using load_cv_apart [OF so1 a] extends_loads(2) [OF 2(3) ok(3)] by simp
    have m: "opt_present m p = 1" "load_cv m (unat p + 8) = cv s v"
      unfolding m_def v opt_present_def
      using cell32.load_frame [OF same_outside_store_cv, of "unat p" "unat p + 8"] by (simp_all add: mem_simps)
    note pub = publish_optional [OF 2(3,5,4,6) ok(2) so]
    have "cel_optional_of_at_v out v s = Some (write_optional (cel_value_at out) p (t\<lparr>mem := m\<rparr>))"
      using 2(1,2,6) np by (simp add: cel_optional_of_at_v_def copy_cv_def m_def Let_def)
    then show ?thesis using pub m 2(1,2,6) by (simp add: optional_result_def opt_oom_def)
  qed
qed

text \<open>The zero values among the scalars.\<close>

definition zero_scalars :: "scalar set" where
  "zero_scalars = {SNull, SBool False, SNum 0, SStr [], SBytes [], SDuration 0 0, STimestamp 0 0}"

lemma d_zero: "d_val 0 = 0" "\<not> d_isnan 0"
  by (simp_all add: d_val_def d_mag_def mag_of_code_def d_code_def d_isnan_def)

lemma is_zero_value_scalar:
  assumes "is_scalar_eq_kind (cv_kind (cv s v))"
  shows "is_zero_value h oh (Suc fuel) v s = Some (\<exists>k \<in> zero_scalars. scalar_of (mem s) (cv s v) = Some k, s)"
proof -
  let ?v = "cv s v"
  have d: "d_eq (pl_d ?v) 0 \<longleftrightarrow> \<not> d_isnan (pl_d ?v) \<and> d_val (pl_d ?v) = 0"
    by (simp add: d_eq_def d_zero)
  have n: "str_of (mem s) ?v = [] \<longleftrightarrow> pl_s_len ?v = 0"
    using length_span_bytes [of "mem s" "pl_s_ptr ?v" "pl_s_len ?v"] by (metis length_0_conv unat_eq_0)
  have u: "pl_u ?v = 0 \<longleftrightarrow> uint (pl_u ?v) = 0" "pl_i ?v = 0 \<longleftrightarrow> sint (pl_i ?v) = 0"
    by (simp_all add: uint_0_iff sint_zero_iff)
  show ?thesis
    using assms d_unit_pos unfolding is_scalar_eq_kind_def
    by (elim disjE) (simp_all add: zero_scalars_def scalar_of_def Let_def is_numeric_kind_def num_ok_def num_val_def d n u)
qed

subsection \<open>Selection\<close>

lemma map_extends:
  assumes m: "map_ok s l" and e: "extends s s'"
  shows "map_ok s' l" "map_alist s' l = map_alist s l" "map_hdr s' l = map_hdr s l"
    "map_index (mem s') (map_hdr s l) = map_index (mem s) (map_hdr s l)" "map_frame s s' l"
proof -
  have ag: "agree (mem s) (mem s') a n" if "kept_range s a n" for a n using extends_same [OF e that] by simp
  have k: "kept_range s (cel_value_at l) 24" "kept_range s (map_hdr s l) 16" "kept_range s (map_run s l) (48 * map_room s l)"
    and le: "map_len s l \<le> map_room s l" and ko: "\<And>i. i < map_len s l \<Longrightarrow> key_ok s l (load_cv (mem s) (map_run s l + 48 * i))"
    using m by (simp_all add: map_ok_def)
  have h8: "agree (mem s) (mem s') (map_hdr s l + 4) 8" using ag [OF k(2)] by (auto simp: add.assoc)
  note w = map_words [of s' l s, OF _ h8]
  have w: "cv s' l = cv s l" "map_hdr s' l = map_hdr s l" "map_run s' l = map_run s l" "map_room s' l = map_room s l"
    using w ag [OF k(1)] by simp_all
  show "map_hdr s' l = map_hdr s l" by (rule w)
  have c: "map_count (mem s') (map_hdr s l) = map_count (mem s) (map_hdr s l)"
    using agree_loads(3) [OF ag [OF k(2)], of 0] by (simp add: map_count_def)
  show "map_index (mem s') (map_hdr s l) = map_index (mem s) (map_hdr s l)"
    using agree_loads(3) [OF ag [OF k(2)], of 12] by (simp add: map_index_def)
  have ln: "map_len s' l = map_len s l" by (simp add: map_len_def w c)
  have ma: "map_apart s' l = map_apart s l" by (rule map_apart_same) (simp_all add: w)
  show fr: "map_frame s s' l" using e unfolding map_frame_def extends_def ma by (blast dest: ag)
  have cell: "agree (mem s) (mem s') (map_run s l + 48 * i) 48" if "i < map_len s l" for i
    by (rule ag) (rule kept_range_sub [OF k(3)]; use that le in simp)
  have key: "load_cv (mem s') (map_run s l + 48 * i) = load_cv (mem s) (map_run s l + 48 * i)" if "i < map_len s l" for i
    by (rule load_cv_local) (use cell [OF that] in simp)
  have kr: "scalar_ranges (agree (mem s) (mem s')) (load_cv (mem s) (map_run s l + 48 * i))" if "i < map_len s l" for i
    using ko [OF that] ag by (auto simp: key_ok_def elim: scalar_ranges_mono)
  show al: "map_alist s' l = map_alist s l"
    unfolding map_alist_def w ln by (rule entries_at_agree) (use cell kr in auto)
  show "map_ok s' l"
    using m k extends_used [OF e] key ko
    by (auto simp: map_ok_def w ln al key_ok_frame(1) [OF _ fr] elim: kept_range_mono)
qed

text \<open>
  The body of a selection, from the lookup result on: an absent error is \<open>none\<close>, another error or an
  unknown is passed on, and a value is wrapped.
\<close>

definition selected :: "cel_value \<Rightarrow> cel_value option" where
  "selected r = (if is_absent_error r then None else Some r)"

lemma select_correct:
  assumes ok: "arena_ok s" "kept_range s (cel_value_at out) 24"
    and np: "\<not> poisoned (cv s src)" "\<not> poisoned (cv s k)" and kind: "cv_kind (cv s src) \<noteq> CEL_OPTIONAL"
    and look: "\<And>t p. extends s t \<Longrightarrow> kept_range t (cel_value_at p) 24 \<Longrightarrow> fresh_range s (cel_value_at p) 24 \<Longrightarrow> cv_kind (cv t src) = cv_kind (cv s src) \<Longrightarrow>
      \<exists>t'. dispatch_lookup ub (cel_value_at out) src k p t = Some (True, t') \<and> only_cell (cel_value_at p) t t'
        \<and> selected (cv t' p) = r \<and> (is_absent_error (cv t' p) \<or> \<not> poisoned (cv t' p))"
    and ks: "kept_range s (cel_value_at src) 24"
  shows "\<exists>s'. cel_select_optional_field_at_vv ub out src k s = Some s' \<and> optional_result out s r s'"
proof (cases rule: alloc_cell_cases [OF ok(1)])
  case (1 t)
  then show ?thesis using optional_oom [OF ok(1) 1] by (simp add: cel_select_optional_field_at_vv_def absorb_none [OF np])
next
  case (2 p t)
  let ?i = "opt_inner p"
  have src: "cv t src = cv s src" by (rule extends_loads(2) [OF 2(3) ks])
  have inner: "kept_range t (cel_value_at ?i) 24" "fresh_range s (cel_value_at ?i) 24"
    using kept_range_sub [OF 2(4)] 2(5) by (auto simp: 2(6) fresh_range_def)
  obtain t' where t': "dispatch_lookup ub (cel_value_at out) src k ?i t = Some (True, t')" "only_cell (cel_value_at ?i) t t'"
    "selected (cv t' ?i) = r" "is_absent_error (cv t' ?i) \<or> \<not> poisoned (cv t' ?i)"
    using look [OF 2(3) inner] src by auto
  have so: "same_outside (unat p) 32 (mem t) (mem t')"
    by (rule same_outside_mono [of "unat p + 8" 24]) (use t'(2) 2(6) in \<open>simp_all add: only_cell_def\<close>)
  have te: "t' = t\<lparr>mem := mem t'\<rparr>" using t'(2) by (simp add: only_cell_def)
  have run: "cel_select_optional_field_at_vv ub out src k s =
      (let (published, u) = finalize_lookup_result (cel_value_at out) p t' in
       if published then Some u
       else Some (write_optional (cel_value_at out) p (u\<lparr>mem := store32 (mem u) (unat p) 1\<rparr>)))"
    using 2(1,2) t'(1) kind by (simp add: cel_select_optional_field_at_vv_def absorb_none [OF np] src Let_def)
  show ?thesis
  proof (cases "is_absent_error (cv t' ?i)")
    case True
    let ?a = "cel_value_at ?i"
    define m where "m = store64 (store32 (store32 (store32 (mem t') (unat p) 0) ?a CEL_NULL) (?a + 4) 0) (?a + 8) 0"
    have "same_outside (unat p) 32 (mem t') m" unfolding m_def 2(6)
      by (intro same_outside_trans [OF same_outside_trans [OF same_outside_trans [OF same_outside_store32 same_outside_store32] same_outside_store32] same_outside_store64]) simp_all
    then have som: "same_outside (unat p) 32 (mem t) m" using so by (rule same_outside_trans [rotated])
    have "opt_present m p = 0" unfolding m_def 2(6) opt_present_def by (simp add: mem_simps)
    moreover have "t'\<lparr>mem := m\<rparr> = t\<lparr>mem := m\<rparr>" by (subst te) simp
    ultimately show ?thesis
      using publish_optional [OF 2(3,5,4,6) ok(2) som] True t'(3) 2(1,2)
      by (simp add: run finalize_lookup_result_def Let_def m_def optional_result_def opt_oom_def selected_def)
  next
    case False
    define m where "m = store32 (mem t') (unat p) 1"
    have "same_outside (unat p) 32 (mem t') m" unfolding m_def by (rule same_outside_store32) simp_all
    then have som: "same_outside (unat p) 32 (mem t) m" using so by (rule same_outside_trans [rotated])
    have "opt_present m p = 1" "load_cv m (cel_value_at ?i) = cv t' ?i"
      unfolding m_def 2(6) opt_present_def using cv_cell.load_frame [OF same_outside_store32, of "unat p" "unat p" 4 "unat p + 8"]
      by (simp_all add: mem_simps)
    moreover have "t'\<lparr>mem := m\<rparr> = t\<lparr>mem := m\<rparr>" by (subst te) simp
    ultimately show ?thesis
      using publish_optional [OF 2(3,5,4,6) ok(2) som] False t'(3,4) 2(1,2)
      by (simp add: run finalize_lookup_result_def Let_def m_def optional_result_def opt_oom_def selected_def poisoned_def)
  qed
qed

lemma select_map_correct:
  assumes ok: "arena_ok s" "kept_range s (cel_value_at out) 24" "kept_range s (cel_value_at k) 24" "\<not> poisoned (cv s k)"
    and m: "map_ok s src" "map_index (mem s) (map_hdr s src) = 0" "scalar_ranges (kept_range s) (cv s k)"
    and vals: "\<forall>v \<in> snd ` set (map_alist s src). \<not> poisoned v"
  shows "\<exists>s'. cel_select_optional_field_at_vv ub out src k s = Some s' \<and> optional_result out s (map_get s src (cv s k)) s'"
proof -
  have kind: "cv_kind (cv s src) = CEL_MAP_ARENA" and ks: "kept_range s (cel_value_at src) 24" using m(1) by (simp_all add: map_ok_def)
  show ?thesis
  proof (rule select_correct [OF ok(1,2) _ ok(4) _ _ ks])
    fix t p assume e: "extends s t"
    note me = map_extends [OF m(1) e]
    have k: "cv t k = cv s k" by (rule extends_loads(2) [OF e ok(3)])
    have sr: "scalar_ranges (agree (mem s) (mem t)) (cv s k)"
      by (rule scalar_ranges_mono [OF m(3)]) (simp add: extends_same [OF e])
    have "map_get t src (cv t k) = map_get s src (cv s k)"
      by (simp add: map_get_def k me(2) scalar_of_agree [OF sr])
    moreover have "index_valid t src" "\<not> poisoned (cv t k)" using me(3,4) m(2) ok(4) by (simp_all add: index_valid_def k)
    ultimately obtain t' where t': "cel_map_lookup weak_host p src k t = Some t'" "only_cell (cel_value_at p) t t'"
      "case map_get s src (cv s k) of Some v \<Rightarrow> cv t' p = v | None \<Rightarrow> is_err (cv t' p) CEL_ERR_NO_SUCH_KEY"
      using lookup_and_in_correct(1) [OF me(1), of k weak_host p] by auto
    have kt: "cv_kind (cv t src) = CEL_MAP_ARENA" using me(1) by (simp add: map_ok_def)
    have "dispatch_lookup ub (cel_value_at out) src k p t = Some (True, t')"
      using t'(1) kt by (simp add: dispatch_lookup_def cel_map_lookup_def Let_def)
    moreover have "selected (cv t' p) = map_get s src (cv s k) \<and> (is_absent_error (cv t' p) \<or> \<not> poisoned (cv t' p))"
    proof (cases "map_get s src (cv s k)")
      case None
      then show ?thesis using t'(3) by (simp add: selected_def is_absent_error_def is_err_def)
    next
      case (Some v)
      then have "v \<in> snd ` set (map_alist s src)" by (force simp: map_get_def bind_eq_Some_conv dest: map_of_SomeD)
      then show ?thesis using t'(3) Some vals by (auto simp: selected_def is_absent_error_def poisoned_def)
    qed
    ultimately show "\<exists>t'. dispatch_lookup ub (cel_value_at out) src k p t = Some (True, t') \<and> only_cell (cel_value_at p) t t'
        \<and> selected (cv t' p) = map_get s src (cv s k) \<and> (is_absent_error (cv t' p) \<or> \<not> poisoned (cv t' p))"
      using t'(2) by blast
  qed (simp_all add: kind poisoned_def)
qed

text \<open>The element an int index selects.\<close>

definition list_get :: "cel_value list \<Rightarrow> int \<Rightarrow> cel_value option" where
  "list_get vs i = (if 0 \<le> i \<and> i < int (length vs) then Some (vs ! nat i) else None)"

lemma select_list_correct:
  assumes ok: "arena_ok s" "kept_range s (cel_value_at out) 24" "kept_range s (cel_value_at k) 24"
    and l: "list_ok s src" "cv_kind (cv s k) = CEL_INT" and vals: "\<forall>v \<in> set (list_of s src). \<not> poisoned v"
  shows "\<exists>s'. cel_select_optional_field_at_vv ub out src k s = Some s'
    \<and> optional_result out s (list_get (list_of s src) (sint (pl_i (cv s k)))) s'"
proof -
  let ?i = "sint (pl_i (cv s k))" and ?vs = "list_of s src"
  have kind: "cv_kind (cv s src) = CEL_LIST_ARENA" and ks: "kept_range s (cel_value_at src) 24" using l(1) by (simp_all add: list_ok_def)
  show ?thesis
  proof (rule select_correct [OF ok(1,2) _ _ _ _ ks])
    fix t p assume e: "extends s t"
    have lt: "cv t src = cv s src" "list_of t src = ?vs"
      by (rule list_same [OF l(1)]; rule extends_same [OF e]; use l(1) in \<open>simp add: list_ok_def\<close>)+
    have k: "cv t k = cv s k" by (rule extends_loads(2) [OF e ok(3)])
    have pre: "cv_kind (cv t src) = CEL_LIST_ARENA" "\<not> poisoned (cv t k)"
      "cv_kind (cv t k) = CEL_DOUBLE \<longrightarrow> d_val (pl_d (cv t k)) \<noteq> 2 ^ 63 * int d_unit"
      using kind l(2) by (simp_all add: lt k poisoned_def)
    have iff: "num_ok (cv t k) \<and> num_val (cv t k) = int j * int d_unit \<longleftrightarrow> ?i = int j" for j
      using l(2) by (simp add: k num_ok_def num_val_def is_numeric_kind_def)
    obtain t' where t': "cel_list_at weak_host ub p src k t = Some t'" "only_cell (cel_value_at p) t t'"
      "\<forall>j < length ?vs. ?i = int j \<longrightarrow> cv t' p = ?vs ! j"
      "(\<nexists>j. j < length ?vs \<and> ?i = int j) \<longrightarrow> is_err (cv t' p) (index_error (cv t k))"
      using cel_list_at_correct [OF pre, of weak_host ub p] unfolding iff lt(2) by blast
    have "dispatch_lookup ub (cel_value_at out) src k p t = Some (True, t')"
      using t'(1) pre(1) by (simp add: dispatch_lookup_def cel_list_at_def Let_def)
    moreover have "selected (cv t' p) = list_get ?vs ?i \<and> (is_absent_error (cv t' p) \<or> \<not> poisoned (cv t' p))"
    proof (cases "0 \<le> ?i \<and> ?i < int (length ?vs)")
      case True
      then have j: "nat ?i < length ?vs" "?i = int (nat ?i)" by auto
      then have "cv t' p = ?vs ! nat ?i" "?vs ! nat ?i \<in> set ?vs" using t'(3) by auto
      then show ?thesis using vals True by (auto simp: selected_def list_get_def is_absent_error_def poisoned_def)
    next
      case False
      then have "is_err (cv t' p) (index_error (cv t k))" using t'(4) by auto
      then show ?thesis using False l(2)
        by (simp add: selected_def list_get_def is_absent_error_def is_err_def index_error_def k is_numeric_kind_def)
    qed
    ultimately show "\<exists>t'. dispatch_lookup ub (cel_value_at out) src k p t = Some (True, t') \<and> only_cell (cel_value_at p) t t'
        \<and> selected (cv t' p) = list_get ?vs ?i \<and> (is_absent_error (cv t' p) \<or> \<not> poisoned (cv t' p))"
      using t'(2) by blast
  qed (use kind l(2) in \<open>simp_all add: poisoned_def\<close>)
qed

subsection \<open>Properties\<close>

text \<open>
  Optional constructors: \<open>optional.none()\<close>, \<open>optional.of(v)\<close> and, for a scalar \<open>v\<close>,
  \<open>optional.ofNonZeroValue(v)\<close> build a fresh cell whose abstract value is none, \<open>v\<close>, and none exactly
  for the zero values of each kind (either zero of a double included, NaN not); an exhausted arena
  gives the overflow error, and no kept byte outside the out slot changes.
\<close>

theorem optional_constructors:
  assumes "arena_ok s" "kept_range s (cel_value_at out) 24" "kept_range s (cel_value_at v) 24" "\<not> poisoned (cv s v)"
  shows "(\<exists>s'. cel_optional_none_at out s = Some s' \<and> optional_result out s None s')
    \<and> (\<exists>s'. cel_optional_of_at_v out v s = Some s' \<and> optional_result out s (Some (cv s v)) s')
    \<and> (is_scalar_eq_kind (cv_kind (cv s v)) \<longrightarrow>
        (\<exists>s'. cel_optional_of_non_zero_at_v h oh (Suc fuel) out v s = Some s' \<and> optional_result out s
          (if \<exists>k \<in> zero_scalars. scalar_of (mem s) (cv s v) = Some k then None else Some (cv s v)) s'))"
proof -
  have np: "absorb_3vl_unary (cel_value_at out) (cel_value_at v) s = (False, s)"
    using assms(4) by (simp add: absorb_3vl_unary_def poisoned_def Let_def)
  note n = optional_none_correct [OF assms(1,2)] and o = optional_of_correct [OF assms]
  show ?thesis
    using n o is_zero_value_scalar [of s v h oh fuel] by (simp add: cel_optional_of_non_zero_at_v_def np)
qed

theorem optional_constructors_witness:
  "\<exists>s'. cel_optional_of_at_v 160 128 (two_cells (cell_of CEL_INT 7) (cell_of CEL_INT 0)) = Some s'
     \<and> optional_result 160 (two_cells (cell_of CEL_INT 7) (cell_of CEL_INT 0)) (Some (cell_of CEL_INT 7)) s'"
  using optional_constructors [of "two_cells (cell_of CEL_INT 7) (cell_of CEL_INT 0)" 160 128 weak_host weak_optional_host 0]
  by (auto simp: low_kept cel_value_at_def poisoned_def two_cells_cv [unfolded cel_value_at_def, simplified])

text \<open>
  C15. Optional accessors refine the option type: \<open>hasValue\<close> is being a value, \<open>value\<close> reads it or
  is the invalid-argument error on none, \<open>orValue\<close> falls back to the default, and \<open>or\<close> to the
  other optional, whose abstract value it then has. Only the out slot is written.
\<close>

theorem optional_accessors:
  assumes "cv_kind (cv s a) = CEL_OPTIONAL" "cv_kind (cv s b) = CEL_OPTIONAL"
    and "opt_apart s a (cel_value_at out) 24" "opt_apart s b (cel_value_at out) 24"
  shows "is_bool (cv (cel_optional_has_value_at_v out a s) out) (opt_view s a \<noteq> None)
    \<and> (case opt_view s a of Some v \<Rightarrow> cv (cel_optional_value_at_v out a s) out = v
        | None \<Rightarrow> is_err (cv (cel_optional_value_at_v out a s) out) CEL_ERR_INVALID_ARGUMENT)
    \<and> cv (cel_optional_or_value_at_vv out a d s) out = (case opt_view s a of Some v \<Rightarrow> v | None \<Rightarrow> cv s d)
    \<and> opt_view (cel_optional_or_at_vv out a b s) out = (case opt_view s a of Some v \<Rightarrow> Some v | None \<Rightarrow> opt_view s b)
    \<and> (\<forall>s' \<in> {cel_optional_has_value_at_v out a s, cel_optional_value_at_v out a s,
          cel_optional_or_value_at_vv out a d s, cel_optional_or_at_vv out a b s}. only_cell (cel_value_at out) s s')"
proof -
  have np: "absorb_3vl_unary o' (cel_value_at a) s = (False, s)" "absorb_3vl_unary o' (cel_value_at b) s = (False, s)" for o'
    using assms(1,2) by (simp_all add: absorb_3vl_unary_def)
  have view: "opt_view (copy_cv (cel_value_at out) (cel_value_at x) s) out = opt_view s x" if "x \<in> {a, b}" for x
  proof -
    let ?c = "pl_opt (cv s x)" and ?o = "cel_value_at out"
    let ?s = "copy_cv ?o (cel_value_at x) s"
    have ap: "apart (unat ?c) 4 ?o 24" "apart (cel_value_at (opt_inner ?c)) 24 ?o 24"
      using assms(3,4) that by (auto simp: opt_apart_def Let_def)
    have so: "same_outside ?o 24 (mem s) (mem ?s)" by (simp add: copy_cv_def same_outside_store_cv)
    have "opt_present (mem ?s) ?c = opt_present (mem s) ?c"
      unfolding opt_present_def by (rule load32_apart [OF so ap(1)]) simp_all
    moreover have "cv ?s (opt_inner ?c) = cv s (opt_inner ?c)" by (rule load_cv_apart [OF so ap(2)])
    ultimately show ?thesis unfolding opt_view_def Let_def cell_copy_cv by simp
  qed
  note defs = cel_optional_has_value_at_v_def cel_optional_value_at_v_def cel_optional_or_value_at_vv_def
    cel_optional_or_at_vv_def absorb_or_typecheck_optional_def
  let ?c = "pl_opt (cv s a)" and ?o = "cel_value_at out"
  show ?thesis
  proof (cases "opt_present (mem s) ?c = 0")
    case True
    then have v: "opt_view s a = None" by (simp add: opt_view_def)
    have r: "cel_optional_has_value_at_v out a s = write_bool ?o False s" "cel_optional_value_at_v out a s = poison ?o CEL_ERR_INVALID_ARGUMENT s"
      "cel_optional_or_value_at_vv out a d s = copy_cv ?o (cel_value_at d) s" "cel_optional_or_at_vv out a b s = copy_cv ?o (cel_value_at b) s"
      unfolding defs np Let_def using True assms(1,2) by (simp_all add: np)
    show ?thesis unfolding v r using view [of b] by (simp add: is_bool_write is_err_poison cell_copy_cv)
  next
    case False
    then have v: "opt_view s a = Some (cv s (opt_inner ?c))" by (simp add: opt_view_def)
    have r: "cel_optional_has_value_at_v out a s = write_bool ?o True s" "cel_optional_value_at_v out a s = copy_cv ?o (cel_value_at (opt_inner ?c)) s"
      "cel_optional_or_value_at_vv out a d s = copy_cv ?o (cel_value_at (opt_inner ?c)) s"
      "cel_optional_or_at_vv out a b s = copy_cv ?o (cel_value_at a) s"
      unfolding defs np Let_def using False assms(1,2) by simp_all
    show ?thesis unfolding v r using view [of a] v by (simp add: is_bool_write is_err_poison cell_copy_cv)
  qed
qed

definition sample_optional :: rt where
  "sample_optional = sample_rt\<lparr>mem := store_cv (store_cv (store32 (store_cv (\<lambda>_. 0) 408 (cell_of CEL_INT 7)) 400 1)
     128 (cell_of CEL_OPTIONAL 400)) 160 (cell_of CEL_OPTIONAL 440)\<rparr>"

theorem optional_accessors_witness:
  "cv (cel_optional_or_value_at_vv 192 128 160 sample_optional) 192 = cell_of CEL_INT 7"
proof -
  have c: "cv sample_optional 128 = cell_of CEL_OPTIONAL 400" "cv sample_optional 160 = cell_of CEL_OPTIONAL 440"
    "cv sample_optional 408 = cell_of CEL_INT 7" "load32 (mem sample_optional) 400 = 1"
    by (simp_all add: sample_optional_def cel_value_at_def mem_simps load32_store_cv_other
        cv_cell.load_frame [OF same_outside_store32, of 400 400 4 408])
  have "opt_view sample_optional 128 = Some (cell_of CEL_INT 7)"
    unfolding opt_view_def c(1) Let_def using c(3,4) by (simp add: pl_opt_def lo32_def opt_present_def opt_inner_def)
  moreover have "opt_apart sample_optional 128 (cel_value_at 192) 24" "opt_apart sample_optional 160 (cel_value_at 192) 24"
    unfolding opt_apart_def c(1,2) Let_def by (simp_all add: pl_opt_def lo32_def opt_inner_def cel_value_at_def apart_def)
  ultimately show ?thesis
    using optional_accessors [of sample_optional 128 160 192 160] by (simp add: c(1,2))
qed

text \<open>
  Optional selection on an arena map is the finite map of its entries (maps without an index, as
  literals are before they are indexed), and on an arena list with an int index the element at it,
  none when the key or index is absent; the result is a fresh optional, or the overflow error when
  the arena is exhausted.
\<close>

theorem optional_select_lookup:
  assumes "arena_ok s" "kept_range s (cel_value_at out) 24" "kept_range s (cel_value_at k) 24" "\<not> poisoned (cv s k)"
  shows "(map_ok s src \<and> map_index (mem s) (map_hdr s src) = 0 \<and> scalar_ranges (kept_range s) (cv s k)
        \<and> (\<forall>v \<in> snd ` set (map_alist s src). \<not> poisoned v) \<longrightarrow>
      (\<exists>s'. cel_select_optional_field_at_vv ub out src k s = Some s' \<and> optional_result out s (map_get s src (cv s k)) s'))
    \<and> (list_ok s src \<and> cv_kind (cv s k) = CEL_INT \<and> (\<forall>v \<in> set (list_of s src). \<not> poisoned v) \<longrightarrow>
      (\<exists>s'. cel_select_optional_field_at_vv ub out src k s = Some s'
        \<and> optional_result out s (list_get (list_of s src) (sint (pl_i (cv s k)))) s'))"
  using select_map_correct [OF assms] select_list_correct [OF assms(1-3)] by blast

theorem optional_select_lookup_witness:
  "\<exists>s'. cel_select_optional_field_at_vv 0 192 160 128 sample_list = Some s'
     \<and> optional_result 192 sample_list (Some (cell_of CEL_INT 8)) s'"
  using optional_select_lookup [OF sample_list_ok(1), of 192 128 160 0] sample_list_ok(2)
  by (auto simp: low_kept cel_value_at_def sample_list_ok(3) sample_list_cells [unfolded cel_value_at_def, simplified]
      poisoned_def list_get_def pl_defs)

end
