(* ===== verification/Utf8.thy ===== *)
theory Utf8
  imports StringOps
begin

text \<open>
  The UTF-8 validator of \<open>runtime/cel_convert.c\<close>, against the encoding: it accepts exactly the
  concatenations of encodings of Unicode scalar values. A \<open>const uint8_t*\<close> is a function from
  indices to bytes, and indices and lengths are naturals: an index below a span's length does not
  wrap (a span of \<open>2^32 - 3\<close> bytes or more does not fit beside the reserved low memory).
\<close>

subsection \<open>The validator\<close>

type_synonym byteptr = "nat \<Rightarrow> u8"

definition span_view :: "memory \<Rightarrow> cel_value \<Rightarrow> byteptr" where
  "span_view m v = (\<lambda>i. m (unat (pl_s_ptr v) + i))"

text \<open>The helpers return the advanced index, or \<open>None\<close> for 0.\<close>

definition utf8_two_byte_valid :: "byteptr \<Rightarrow> nat \<Rightarrow> nat \<Rightarrow> nat option" where
  "utf8_two_byte_valid p i len =
     (if i + 1 \<ge> len then None
      else if p (i + 1) AND 0xC0 \<noteq> 0x80 then None
      else Some (i + 2))"

definition utf8_three_byte_valid :: "byteptr \<Rightarrow> nat \<Rightarrow> nat \<Rightarrow> nat option" where
  "utf8_three_byte_valid p i len =
     (if i + 2 \<ge> len then None
      else (let b = p i; b1 = p (i + 1); b2 = p (i + 2) in
        if b1 AND 0xC0 \<noteq> 0x80 then None
        else if b2 AND 0xC0 \<noteq> 0x80 then None
        else if b = 0xE0 \<and> b1 < 0xA0 then None
        else if b = 0xED \<and> b1 \<ge> 0xA0 then None
        else Some (i + 3)))"

definition utf8_four_byte_valid :: "byteptr \<Rightarrow> nat \<Rightarrow> nat \<Rightarrow> nat option" where
  "utf8_four_byte_valid p i len =
     (if i + 3 \<ge> len then None
      else (let b = p i; b1 = p (i + 1); b2 = p (i + 2); b3 = p (i + 3) in
        if b1 AND 0xC0 \<noteq> 0x80 then None
        else if b2 AND 0xC0 \<noteq> 0x80 then None
        else if b3 AND 0xC0 \<noteq> 0x80 then None
        else if b = 0xF0 \<and> b1 < 0x90 then None
        else if b = 0xF4 \<and> b1 \<ge> 0x90 then None
        else Some (i + 4)))"

function utf8_valid :: "byteptr \<Rightarrow> nat \<Rightarrow> nat \<Rightarrow> bool" where
  "utf8_valid p len i =
     (if i < len then
        (let b = p i in
         if b < 0x80 then utf8_valid p len (i + 1)
         else if b < 0xC2 then False
         else if b < 0xE0 then
           (case utf8_two_byte_valid p i len of None \<Rightarrow> False | Some i \<Rightarrow> utf8_valid p len i)
         else if b < 0xF0 then
           (case utf8_three_byte_valid p i len of None \<Rightarrow> False | Some i \<Rightarrow> utf8_valid p len i)
         else if b < 0xF5 then
           (case utf8_four_byte_valid p i len of None \<Rightarrow> False | Some i \<Rightarrow> utf8_valid p len i)
         else False)
      else True)"
  by pat_completeness auto
termination
  by (relation "measure (\<lambda>(p, len, i). len - i)")
    (auto simp: utf8_two_byte_valid_def utf8_three_byte_valid_def utf8_four_byte_valid_def Let_def split: if_splits)

declare utf8_valid.simps [simp del]

subsection \<open>The encoding in numbers\<close>

lemma or_low: "n < 2 ^ k \<Longrightarrow> a * 2 ^ k OR n = a * 2 ^ k + (n :: nat)"
proof -
  assume n: "n < 2 ^ k"
  have "\<not> bit (push_bit k a) j \<or> \<not> bit n j" for j
  proof (cases "j < k")
    case False
    then have "n < 2 ^ j" using order_less_le_trans [OF n power_increasing [of k j 2]] by simp
    then show ?thesis by (simp add: bit_iff_odd)
  qed (simp add: bit_push_bit_iff)
  then show ?thesis by (simp add: disjunctive_add push_bit_eq_mult)
qed

lemma or_small: "n < 64 \<Longrightarrow> (128 :: nat) OR n = 128 + n"
  and or_small2: "n < 32 \<Longrightarrow> (192 :: nat) OR n = 192 + n"
  and or_small3: "n < 16 \<Longrightarrow> (224 :: nat) OR n = 224 + n"
  and or_small4: "n < 8 \<Longrightarrow> (240 :: nat) OR n = 240 + n"
  using or_low [of n 6 2] or_low [of n 5 6] or_low [of n 4 14] or_low [of n 3 30] by simp_all

lemma unat_u8_lt: "unat (b :: u8) < 256" using unsigned_less [of b, where ?'a = nat] by simp

lemma cont_byte: "b AND 0xC0 = (0x80 :: u8) \<longleftrightarrow> unat b div 64 = 2"
proof -
  have "b AND 0xC0 = 0x80 \<longleftrightarrow> bit b 7 \<and> \<not> bit b 6" using utf8_lead_bits [of b] unfolding utf8_lead_def by blast
  also have "\<dots> \<longleftrightarrow> bit (unat b) 7 \<and> \<not> bit (unat b) 6" by (simp add: bit_unsigned_iff)
  also have "\<dots> \<longleftrightarrow> odd (unat b div 128) \<and> even (unat b div 64)" by (simp add: bit_iff_odd)
  also have "unat b div 128 = unat b div 64 div 2" by (simp add: div_mult2_eq [symmetric])
  also have "odd (unat b div 64 div 2) \<and> even (unat b div 64) \<longleftrightarrow> unat b div 64 = 2"
  proof -
    have "unat b div 64 < 4" using unat_u8_lt [of b] by simp
    then have "unat b div 64 = 0 \<or> unat b div 64 = 1 \<or> unat b div 64 = 2 \<or> unat b div 64 = 3" by linarith
    then show ?thesis by (elim disjE) simp_all
  qed
  finally show ?thesis .
qed

lemma unat_drop_u32: "unat (drop_bit k c) = unat (c :: u32) div 2 ^ k"
proof -
  have "take_bit 32 (unat c) = unat c" using unat_u32_lt [of c] by (simp add: take_bit_nat_eq_self)
  then show ?thesis using unsigned_drop_bit_eq [of k c, where ?'a = nat] by (simp only: drop_bit_eq_div) simp
qed

lemma unat_encode_tail: "unat (0x80 OR ucast (drop_bit k c AND 0x3F) :: u8) = 128 + unat (c :: u32) div 2 ^ k mod 64"
proof -
  have m: "(0x3F :: u32) = mask 6" by (simp add: mask_eq_exp_minus_1)
  have "unat (drop_bit k c AND 0x3F) = unat c div 2 ^ k mod 64"
    unfolding m take_bit_eq_mask [symmetric] unsigned_take_bit_eq unat_drop_u32 by (simp add: take_bit_eq_mod)
  moreover from this have "unat (ucast (drop_bit k c AND 0x3F) :: u8) = unat (drop_bit k c AND 0x3F)"
    unfolding unsigned_ucast_eq by (intro take_bit_nat_eq_self) simp
  ultimately have "unat (ucast (drop_bit k c AND 0x3F) :: u8) = unat c div 2 ^ k mod 64" by simp
  then show ?thesis using or_small [of "unat c div 2 ^ k mod 64"] by (simp add: unsigned_or_eq)
qed

lemma unat_encode_head:
  "unat (c :: u32) div 2 ^ k < 32 \<Longrightarrow> unat (0xC0 OR ucast (drop_bit k c) :: u8) = 192 + unat c div 2 ^ k"
  "unat c div 2 ^ k < 16 \<Longrightarrow> unat (0xE0 OR ucast (drop_bit k c) :: u8) = 224 + unat c div 2 ^ k"
  "unat c div 2 ^ k < 8 \<Longrightarrow> unat (0xF0 OR ucast (drop_bit k c) :: u8) = 240 + unat c div 2 ^ k"
proof -
  note d = unat_drop_u32 [of k c]
  have u: "unat (ucast (drop_bit k c) :: u8) = unat c div 2 ^ k" if "unat c div 2 ^ k < 32"
    unfolding unsigned_ucast_eq d using that by (intro take_bit_nat_eq_self) simp
  show "unat c div 2 ^ k < 32 \<Longrightarrow> unat (0xC0 OR ucast (drop_bit k c) :: u8) = 192 + unat c div 2 ^ k"
    "unat c div 2 ^ k < 16 \<Longrightarrow> unat (0xE0 OR ucast (drop_bit k c) :: u8) = 224 + unat c div 2 ^ k"
    "unat c div 2 ^ k < 8 \<Longrightarrow> unat (0xF0 OR ucast (drop_bit k c) :: u8) = 240 + unat c div 2 ^ k"
    using u or_small2 or_small3 or_small4 by (simp_all add: unsigned_or_eq)
qed

text \<open>The encoding in numbers.\<close>

lemma utf8_encode_nat:
  assumes "unat c < 0x110000"
  shows "map unat (utf8_encode c) =
    (let n = unat c in
     if n < 0x80 then [n]
     else if n < 0x800 then [192 + n div 64, 128 + n mod 64]
     else if n < 0x10000 then [224 + n div 4096, 128 + n div 64 mod 64, 128 + n mod 64]
     else [240 + n div 262144, 128 + n div 4096 mod 64, 128 + n div 64 mod 64, 128 + n mod 64])"
proof -
  have c: "c < 0x80 \<longleftrightarrow> unat c < 0x80" "c < 0x800 \<longleftrightarrow> unat c < 0x800" "c < 0x10000 \<longleftrightarrow> unat c < 0x10000"
    by (simp_all add: word_less_nat_alt)
  have a: "unat (ucast c :: u8) = unat c" if "unat c < 0x80"
    unfolding unsigned_ucast_eq using that by (intro take_bit_nat_eq_self) simp
  have h: "unat c < 0x800 \<Longrightarrow> unat c div 64 < 32" "unat c < 0x10000 \<Longrightarrow> unat c div 4096 < 16" "unat c div 262144 < 8"
    using assms by auto
  show ?thesis
    using a h unat_encode_tail [of 0 c] unat_encode_tail [of 6 c] unat_encode_tail [of 12 c]
      unat_encode_head(1) [of c 6] unat_encode_head(2) [of c 12] unat_encode_head(3) [of c 18]
    by (simp add: utf8_encode_def c Let_def)
qed

text \<open>Unicode scalar values: code points that are not surrogates.\<close>

definition scalar_value :: "u32 \<Rightarrow> bool" where
  "scalar_value c \<longleftrightarrow> unat c < 0xD800 \<or> 0xE000 \<le> unat c \<and> unat c < 0x110000"

lemma map_unat_u8: "map unat xs = map unat (ys :: u8 list) \<longleftrightarrow> xs = ys"
  by (rule inj_map_eq_map) (simp add: inj_def word_unat_eq_iff)

lemma encode_of_nat:
  assumes "n < 0xD800 \<or> 0xE000 \<le> n \<and> n < 0x110000"
    and "map unat bs = (if n < 0x80 then [n]
     else if n < 0x800 then [192 + n div 64, 128 + n mod 64]
     else if n < 0x10000 then [224 + n div 4096, 128 + n div 64 mod 64, 128 + n mod 64]
     else [240 + n div 262144, 128 + n div 4096 mod 64, 128 + n div 64 mod 64, 128 + n mod 64])"
  shows "\<exists>c. scalar_value c \<and> bs = utf8_encode c"
proof -
  have u: "unat (word_of_nat n :: u32) = n" using assms(1) by (auto simp: unat_of_nat)
  have "map unat bs = map unat (utf8_encode (word_of_nat n))"
    using assms utf8_encode_nat [of "word_of_nat n"] unfolding u Let_def by auto
  then show ?thesis using assms(1) u by (intro exI [of _ "word_of_nat n"]) (simp add: map_unat_u8 scalar_value_def)
qed

subsection \<open>One character\<close>

definition utf8_step :: "byteptr \<Rightarrow> nat \<Rightarrow> nat \<Rightarrow> nat option" where
  "utf8_step p i len =
     (if p i < 0x80 then Some (i + 1)
      else if p i < 0xC2 then None
      else if p i < 0xE0 then utf8_two_byte_valid p i len
      else if p i < 0xF0 then utf8_three_byte_valid p i len
      else if p i < 0xF5 then utf8_four_byte_valid p i len
      else None)"

lemma utf8_valid_step:
  "utf8_valid p len i \<longleftrightarrow> (if i < len then (case utf8_step p i len of None \<Rightarrow> False | Some j \<Rightarrow> utf8_valid p len j) else True)"
  by (subst utf8_valid.simps) (simp add: utf8_step_def Let_def)

lemma cont_split: "unat (b :: u8) div 64 = 2 \<Longrightarrow> \<exists>y < 64. unat b = 128 + y"
  by (intro exI [of _ "unat b - 128"]) auto

lemma map_upt_take: "map p [i..<i + 2] = [p i, p (i + 1)]" "map p [i..<i + 3] = [p i, p (i + 1), p (i + 2)]"
  "map p [i..<i + 4] = [p i, p (i + 1), p (i + 2), p (i + 3)]"
  by (simp_all add: upt_rec numeral_eq_Suc)

lemma byte_consts:
  "(b :: u8) = 0xE0 \<longleftrightarrow> unat b = 0xE0" "b = 0xED \<longleftrightarrow> unat b = 0xED" "b = 0xF0 \<longleftrightarrow> unat b = 0xF0" "b = 0xF4 \<longleftrightarrow> unat b = 0xF4"
  by (simp_all add: word_unat_eq_iff)

lemma head_split: "k \<le> unat (b :: u8) \<Longrightarrow> \<exists>x. unat b = k + x"
  by (rule exI [of _ "unat b - k"]) simp

lemma two_sound:
  assumes "utf8_two_byte_valid p i len = Some j" "0xC2 \<le> unat (p i)" "unat (p i) < 0xE0"
  shows "j = i + 2 \<and> j \<le> len \<and> (\<exists>c. scalar_value c \<and> map p [i..<j] = utf8_encode c)"
proof -
  have j: "j = i + 2" "j \<le> len" and c: "unat (p (i + 1)) div 64 = 2"
    using assms(1) by (auto simp: utf8_two_byte_valid_def cont_byte split: if_splits)
  obtain y where y: "y < 64" "unat (p (i + 1)) = 128 + y" using cont_split [OF c] by blast
  obtain x where x: "unat (p i) = 192 + x" using head_split [of 192 "p i"] assms(2) by auto
  have x2: "2 \<le> x" "x < 32" using x assms(2,3) by simp_all
  have "\<exists>c. scalar_value c \<and> map p [i..<i + 2] = utf8_encode c"
    by (rule encode_of_nat [of "x * 64 + y"]) (use x x2 y in \<open>simp_all add: map_upt_take\<close>)
  then show ?thesis using j by blast
qed

lemma div_mod_64: "z < 64 \<Longrightarrow> (a * 64 + z) div 64 = a" "z < 64 \<Longrightarrow> (a * 64 + z) mod 64 = (z :: nat)"
  by simp_all

lemma three_sound:
  assumes "utf8_three_byte_valid p i len = Some j" "0xE0 \<le> unat (p i)" "unat (p i) < 0xF0"
  shows "j = i + 3 \<and> j \<le> len \<and> (\<exists>c. scalar_value c \<and> map p [i..<j] = utf8_encode c)"
proof -
  have j: "j = i + 3" "j \<le> len" and c: "unat (p (i + 1)) div 64 = 2" "unat (p (i + 2)) div 64 = 2"
    and o: "unat (p i) = 0xE0 \<longrightarrow> 0xA0 \<le> unat (p (i + 1))" "unat (p i) = 0xED \<longrightarrow> unat (p (i + 1)) < 0xA0"
    using assms(1) by (auto simp: utf8_three_byte_valid_def cont_byte Let_def word_less_nat_alt word_le_nat_alt byte_consts split: if_splits)
  obtain y where y: "y < 64" "unat (p (i + 1)) = 128 + y" using cont_split [OF c(1)] by blast
  obtain z where z: "z < 64" "unat (p (i + 2)) = 128 + z" using cont_split [OF c(2)] by blast
  obtain x where x: "unat (p i) = 224 + x" using head_split [of 224 "p i"] assms(2) by auto
  have x2: "x < 16" "x = 0 \<longrightarrow> 32 \<le> y" "x = 13 \<longrightarrow> y < 32" using x y assms(3) o by auto
  let ?n = "(x * 64 + y) * 64 + z"
  have n: "?n div 64 = x * 64 + y" "?n mod 64 = z" by (rule div_mod_64 [OF z(1)])+
  moreover have "?n div 4096 = x" using div_mult2_eq [of ?n 64 64] y n by simp
  moreover have r: "0x800 \<le> ?n" "?n < 0x10000" using x2 y z by (cases "x = 0"; simp)+
  moreover have "?n < 0xD800 \<or> 0xE000 \<le> ?n"
  proof -
    consider "x \<le> 12" | "x = 13" | "14 \<le> x" by linarith
    then show ?thesis using x2 y z by cases auto
  qed
  moreover have "(x * 64 + y) mod 64 = y" using y by simp
  ultimately have "\<exists>c. scalar_value c \<and> map p [i..<i + 3] = utf8_encode c"
    using x y z by (intro encode_of_nat [of ?n]) (auto simp: map_upt_take)
  then show ?thesis using j by blast
qed

lemma four_sound:
  assumes "utf8_four_byte_valid p i len = Some j" "0xF0 \<le> unat (p i)" "unat (p i) < 0xF5"
  shows "j = i + 4 \<and> j \<le> len \<and> (\<exists>c. scalar_value c \<and> map p [i..<j] = utf8_encode c)"
proof -
  have j: "j = i + 4" "j \<le> len" and c: "unat (p (i + 1)) div 64 = 2" "unat (p (i + 2)) div 64 = 2" "unat (p (i + 3)) div 64 = 2"
    and o: "unat (p i) = 0xF0 \<longrightarrow> 0x90 \<le> unat (p (i + 1))" "unat (p i) = 0xF4 \<longrightarrow> unat (p (i + 1)) < 0x90"
    using assms(1) by (auto simp: utf8_four_byte_valid_def cont_byte Let_def word_less_nat_alt word_le_nat_alt byte_consts split: if_splits)
  obtain y where y: "y < 64" "unat (p (i + 1)) = 128 + y" using cont_split [OF c(1)] by blast
  obtain z where z: "z < 64" "unat (p (i + 2)) = 128 + z" using cont_split [OF c(2)] by blast
  obtain w where w: "w < 64" "unat (p (i + 3)) = 128 + w" using cont_split [OF c(3)] by blast
  obtain x where x: "unat (p i) = 240 + x" using head_split [of 240 "p i"] assms(2) by auto
  have x2: "x < 5" "x = 0 \<longrightarrow> 16 \<le> y" "x = 4 \<longrightarrow> y < 16" using x y assms(3) o by auto
  let ?n = "((x * 64 + y) * 64 + z) * 64 + w"
  have n: "?n div 64 = (x * 64 + y) * 64 + z" "?n mod 64 = w" by (rule div_mod_64 [OF w(1)])+
  have n2: "?n div 4096 = x * 64 + y" using div_mult2_eq [of ?n 64 64] z n by simp
  have n3: "?n div 262144 = x" using div_mult2_eq [of ?n 4096 64] y n2 by simp
  have m: "((x * 64 + y) * 64 + z) mod 64 = z" "(x * 64 + y) mod 64 = y" by (rule div_mod_64 [OF z(1)], rule div_mod_64 [OF y(1)])
  have r: "0x10000 \<le> ?n" "?n < 0x110000"
  proof -
    consider "x = 0" | "1 \<le> x" "x \<le> 3" | "x = 4" using x2(1) by linarith
    then show "0x10000 \<le> ?n" "?n < 0x110000" using x2 y z w by (cases; auto)+
  qed
  have "\<exists>c. scalar_value c \<and> map p [i..<i + 4] = utf8_encode c"
    by (rule encode_of_nat [of ?n]) (use r n n2 n3 m x y z w in \<open>auto simp: map_upt_take\<close>)
  then show ?thesis using j by blast
qed

lemma utf8_step_sound:
  assumes "utf8_step p i len = Some j" "i < len"
  shows "i < j \<and> j \<le> len \<and> (\<exists>c. scalar_value c \<and> map p [i..<j] = utf8_encode c)"
proof -
  note w = assms(1) [unfolded utf8_step_def word_less_nat_alt, simplified]
  consider "unat (p i) < 0x80" "j = i + 1"
    | "0xC2 \<le> unat (p i)" "unat (p i) < 0xE0" "utf8_two_byte_valid p i len = Some j"
    | "0xE0 \<le> unat (p i)" "unat (p i) < 0xF0" "utf8_three_byte_valid p i len = Some j"
    | "0xF0 \<le> unat (p i)" "unat (p i) < 0xF5" "utf8_four_byte_valid p i len = Some j"
    using w by (auto split: if_splits)
  then show ?thesis
  proof cases
    case 1
    have "\<exists>c. scalar_value c \<and> [p i] = utf8_encode c"
      by (rule encode_of_nat [of "unat (p i)"]) (use 1 in simp_all)
    then show ?thesis using 1 assms(2) by simp
  qed (use two_sound three_sound four_sound in fastforce)+
qed

lemma utf8_step_complete:
  assumes c: "scalar_value c" and l: "i + length (utf8_encode c) \<le> len" "map p [i..<i + length (utf8_encode c)] = utf8_encode c"
  shows "utf8_step p i len = Some (i + length (utf8_encode c))"
proof -
  let ?n = "unat c" and ?bs = "utf8_encode c"
  have lt: "?n < 0x110000" using c by (auto simp: scalar_value_def)
  note e = utf8_encode_nat [OF lt, unfolded Let_def]
  have len: "length ?bs = length (map unat ?bs)" by simp
  have b: "unat (p (i + k)) = map unat ?bs ! k" if "k < length ?bs" for k
    using arg_cong [OF l(2), of "\<lambda>xs. xs ! k"] that by simp
  consider "?n < 0x80" | "0x80 \<le> ?n" "?n < 0x800" | "0x800 \<le> ?n" "?n < 0x10000" | "0x10000 \<le> ?n" by linarith
  then show ?thesis
  proof cases
    case 1
    then have "length ?bs = 1" "unat (p i) = ?n" using b [of 0] len by (simp_all add: e)
    then show ?thesis using 1 by (simp add: utf8_step_def word_less_nat_alt)
  next
    case 2
    then have L: "length ?bs = 2" using len by (simp add: e)
    then have u: "unat (p i) = 192 + ?n div 64" "unat (p (i + 1)) = 128 + ?n mod 64" using b [of 0] b [of 1] 2 by (simp_all add: e)
    have x: "2 \<le> ?n div 64" "?n div 64 < 32" using 2 by auto
    have "unat (p (i + 1)) div 64 = 2" using u(2) by simp
    then show ?thesis using u(1) x L l(1)
      by (simp add: utf8_step_def word_less_nat_alt utf8_two_byte_valid_def cont_byte)
  next
    case 3
    then have L: "length ?bs = 3" using len by (simp add: e)
    then have u: "unat (p i) = 224 + ?n div 4096" "unat (p (i + 1)) = 128 + ?n div 64 mod 64" "unat (p (i + 2)) = 128 + ?n mod 64"
      using b [of 0] b [of 1] b [of 2] 3 by (simp_all add: e)
    have x: "?n div 4096 < 16" using 3 by auto
    have t: "unat (p (i + 1)) div 64 = 2" "unat (p (i + 2)) div 64 = 2" using u by simp_all
    have split: "?n div 64 = 64 * (?n div 4096) + ?n div 64 mod 64"
      using div_mult_mod_eq [of "?n div 64" 64] div_mult2_eq [of ?n 64 64] by simp
    have o: "?n div 4096 = 0 \<longrightarrow> 32 \<le> ?n div 64 mod 64" "?n div 4096 = 13 \<longrightarrow> ?n div 64 mod 64 < 32"
    proof -
      have "32 \<le> ?n div 64" using 3 by auto
      then show "?n div 4096 = 0 \<longrightarrow> 32 \<le> ?n div 64 mod 64" using split by auto
      show "?n div 4096 = 13 \<longrightarrow> ?n div 64 mod 64 < 32"
      proof
        assume 13: "?n div 4096 = 13"
        then have "?n < 0xE000" by auto
        then have "?n < 0xD800" using c by (auto simp: scalar_value_def)
        then have "?n div 64 < 864" by auto
        then show "?n div 64 mod 64 < 32" using split 13 by linarith
      qed
    qed
    show ?thesis using u(1,2) x L l(1) t o
      by (auto simp: utf8_step_def word_less_nat_alt word_le_nat_alt byte_consts utf8_three_byte_valid_def cont_byte Let_def)
  next
    case 4
    then have L: "length ?bs = 4" using len by (simp add: e)
    then have u: "unat (p i) = 240 + ?n div 262144" "unat (p (i + 1)) = 128 + ?n div 4096 mod 64"
      "unat (p (i + 2)) = 128 + ?n div 64 mod 64" "unat (p (i + 3)) = 128 + ?n mod 64"
      using b [of 0] b [of 1] b [of 2] b [of 3] 4 by (simp_all add: e)
    have x: "?n div 262144 < 5" using lt by auto
    have t: "unat (p (i + 1)) div 64 = 2" "unat (p (i + 2)) div 64 = 2" "unat (p (i + 3)) div 64 = 2" using u by simp_all
    have split: "?n div 4096 = 64 * (?n div 262144) + ?n div 4096 mod 64"
      using div_mult_mod_eq [of "?n div 4096" 64] div_mult2_eq [of ?n 4096 64] by simp
    have "16 \<le> ?n div 4096" "?n div 4096 < 272" using 4 lt by auto
    then have o: "?n div 262144 = 0 \<longrightarrow> 16 \<le> ?n div 4096 mod 64" "?n div 262144 = 4 \<longrightarrow> ?n div 4096 mod 64 < 16" using split by auto
    show ?thesis using u(1,2) x L l(1) t o
      by (auto simp: utf8_step_def word_less_nat_alt word_le_nat_alt byte_consts utf8_four_byte_valid_def cont_byte Let_def)
  qed
qed

subsection \<open>Whole strings\<close>

lemma utf8_encode_length: "0 < length (utf8_encode c)"
  by (simp add: utf8_encode_def Let_def)

lemma utf8_valid_complete:
  "\<forall>c \<in> set cs. scalar_value c \<Longrightarrow> map p [i..<len] = utf8_string cs \<Longrightarrow> utf8_valid p len i"
proof (induction cs arbitrary: i)
  case Nil
  then show ?case by (subst utf8_valid_step) (auto simp: utf8_string_def)
next
  case (Cons c cs)
  let ?k = "length (utf8_encode c)"
  have eq: "map p [i..<len] = utf8_encode c @ utf8_string cs" using Cons.prems(2) by (simp add: utf8_string_def)
  have "len - i = ?k + length (utf8_string cs)" using arg_cong [OF eq, of length] by simp
  then have le: "i + ?k \<le> len" using utf8_encode_length [of c] by linarith
  have ub: "[i..<len] = [i..<i + ?k] @ [i + ?k..<len]" using le upt_add_eq_append [of i "i + ?k" "len - (i + ?k)"] by simp
  have m: "map p [i..<i + ?k] = utf8_encode c" "map p [i + ?k..<len] = utf8_string cs" using eq unfolding ub by simp_all
  have "utf8_step p i len = Some (i + ?k)" by (rule utf8_step_complete) (use Cons.prems(1) le m in auto)
  moreover have "utf8_valid p len (i + ?k)" by (rule Cons.IH) (use Cons.prems(1) m in auto)
  ultimately show ?case by (subst utf8_valid_step) simp
qed

lemma utf8_valid_sound:
  "utf8_valid p len i \<Longrightarrow> \<exists>cs. (\<forall>c \<in> set cs. scalar_value c) \<and> map p [i..<len] = utf8_string cs"
proof (induction "len - i" arbitrary: i rule: less_induct)
  case less
  show ?case
  proof (cases "i < len")
    case False
    then show ?thesis by (intro exI [of _ "[]"]) (simp add: utf8_string_def)
  next
    case True
    then obtain j where j: "utf8_step p i len = Some j" "utf8_valid p len j"
      using less.prems by (subst (asm) utf8_valid_step) (auto split: option.splits)
    obtain c where c: "i < j" "j \<le> len" "scalar_value c" "map p [i..<j] = utf8_encode c"
      using utf8_step_sound [OF j(1) True] by blast
    obtain cs where cs: "\<forall>c \<in> set cs. scalar_value c" "map p [j..<len] = utf8_string cs"
      using less.hyps [of j] c(1,2) j(2) True by (metis diff_less_mono2)
    have "[i..<len] = [i..<j] @ [j..<len]" using c(1,2) upt_add_eq_append [of i j "len - j"] by simp
    then have "map p [i..<len] = utf8_string (c # cs)" using c(4) cs(2) by (simp add: utf8_string_def)
    then show ?thesis using c(3) cs(1) by (intro exI [of _ "c # cs"]) simp
  qed
qed

lemma utf8_valid_iff:
  "utf8_valid p len 0 \<longleftrightarrow> (\<exists>cs. (\<forall>c \<in> set cs. scalar_value c) \<and> map p [0..<len] = utf8_string cs)"
  using utf8_valid_sound utf8_valid_complete by blast

end
