(* ===== verification/Convert.thy ===== *)
theory Convert
  imports Optional Utf8
begin

text \<open>
  Conversions (\<open>runtime/cel_convert.c\<close>): numeric inter-conversion, parsing and formatting of ints,
  uints, doubles and bools, and bytes as strings through the UTF-8 validator. 
\<close>

subsection \<open>Numeric conversions\<close>

definition kDoubleInt64Min :: u64 where "kDoubleInt64Min = d_of_int (- (2 ^ 63))"
definition kDoubleInt64MaxPlus1 :: u64 where "kDoubleInt64MaxPlus1 = d_of_int (2 ^ 63)"
definition kDoubleUint64MaxPlus1 :: u64 where "kDoubleUint64MaxPlus1 = d_of_int (2 ^ 64)"

definition is_nan :: "u64 \<Rightarrow> bool" where "is_nan v \<longleftrightarrow> \<not> d_eq v v"

definition cel_uint_to_int_at_v :: "u32 \<Rightarrow> u32 \<Rightarrow> rt \<Rightarrow> rt option" where
  "cel_uint_to_int_at_v = strict_v CEL_UINT (\<lambda>out a s.
     let v = pl_u a in if v > 0x7FFFFFFFFFFFFFFF then poison out CEL_ERR_OVERFLOW s else write_int out v s)"

definition cel_double_to_int_at_v :: "u32 \<Rightarrow> u32 \<Rightarrow> rt \<Rightarrow> rt option" where
  "cel_double_to_int_at_v = strict_v CEL_DOUBLE (\<lambda>out a s.
     let v = pl_d a in
     if is_nan v \<or> d_le v kDoubleInt64Min \<or> d_le kDoubleInt64MaxPlus1 v then poison out CEL_ERR_OVERFLOW s
     else write_int out (word_of_int (d_trunc v)) s)"

definition cel_int_to_uint_at_v :: "u32 \<Rightarrow> u32 \<Rightarrow> rt \<Rightarrow> rt option" where
  "cel_int_to_uint_at_v = strict_v CEL_INT (\<lambda>out a s.
     let v = pl_i a in if sint v < 0 then poison out CEL_ERR_OVERFLOW s else write_uint out v s)"

definition cel_double_to_uint_at_v :: "u32 \<Rightarrow> u32 \<Rightarrow> rt \<Rightarrow> rt option" where
  "cel_double_to_uint_at_v = strict_v CEL_DOUBLE (\<lambda>out a s.
     let v = pl_d a in
     if is_nan v \<or> d_lt v 0 \<or> d_le kDoubleUint64MaxPlus1 v then poison out CEL_ERR_OVERFLOW s
     else write_uint out (word_of_int (d_trunc v)) s)"

definition cel_int_to_double_at_v :: "u32 \<Rightarrow> u32 \<Rightarrow> rt \<Rightarrow> rt option" where
  "cel_int_to_double_at_v = strict_v CEL_INT (\<lambda>out a. write_double out (d_of_int (sint (pl_i a))))"

definition cel_uint_to_double_at_v :: "u32 \<Rightarrow> u32 \<Rightarrow> rt \<Rightarrow> rt option" where
  "cel_uint_to_double_at_v = strict_v CEL_UINT (\<lambda>out a. write_double out (d_of_int (uint (pl_u a))))"

subsection \<open>Parsing integers\<close>

function accumulate_u64_decimal :: "byteptr \<Rightarrow> nat \<Rightarrow> nat \<Rightarrow> u64 \<Rightarrow> u64 option" where
  "accumulate_u64_decimal p i len acc =
     (if i < len then
        (if p i < 0x30 \<or> p i > 0x39 then None
         else (let d = (ucast (p i - 0x30) :: u32) in
           if acc > 0xFFFFFFFFFFFFFFFF div 10 then None
           else (let acc = acc * 10 in
             if acc > 0xFFFFFFFFFFFFFFFF - ucast d then None
             else accumulate_u64_decimal p (i + 1) len (acc + ucast d))))
      else Some acc)"
  by pat_completeness auto
termination by (relation "measure (\<lambda>(p, i, len, acc). len - i)") auto

declare accumulate_u64_decimal.simps [simp del]

definition apply_int64_sign :: "u64 \<Rightarrow> bool \<Rightarrow> u64 option" where
  "apply_int64_sign acc neg =
     (if neg then
        (if acc > 0x7FFFFFFFFFFFFFFF + 1 then None
         else if acc = 0x7FFFFFFFFFFFFFFF + 1 then Some 0x8000000000000000
         else Some (- acc))
      else if acc > 0x7FFFFFFFFFFFFFFF then None else Some acc)"

definition parse_int64_str :: "byteptr \<Rightarrow> nat \<Rightarrow> u64 option" where
  "parse_int64_str p len =
     (if len = 0 then None
      else (let neg = (p 0 = 0x2D); i = (if p 0 = 0x2D \<or> p 0 = 0x2B then 1 else 0) in
        if i = len then None
        else do {
          acc \<leftarrow> accumulate_u64_decimal p i len 0;
          apply_int64_sign acc neg
        }))"

definition parse_uint64_str :: "byteptr \<Rightarrow> nat \<Rightarrow> u64 option" where
  "parse_uint64_str p len =
     (if len = 0 then None
      else (let i = (if p 0 = 0x2B then 1 else 0) in
        if i = len then None else accumulate_u64_decimal p i len 0))"

subsection \<open>Parsing doubles\<close>

definition fold_ci :: "u8 \<Rightarrow> u8" where
  "fold_ci a = (if 0x41 \<le> a \<and> a \<le> 0x5A then a + 32 else a)"

definition eq_ci :: "byteptr \<Rightarrow> nat \<Rightarrow> u8 list \<Rightarrow> bool" where
  "eq_ci p plen pattern = list_all (\<lambda>i. fold_ci (p i) = fold_ci (pattern ! i)) [0..<plen]"

definition kInfinity :: "u8 list" where "kInfinity = [0x69, 0x6E, 0x66, 0x69, 0x6E, 0x69, 0x74, 0x79]"
definition kInf :: "u8 list" where "kInf = [0x69, 0x6E, 0x66]"
definition kNan :: "u8 list" where "kNan = [0x6E, 0x61, 0x6E]"

definition try_parse_double_special :: "byteptr \<Rightarrow> nat \<Rightarrow> bool \<Rightarrow> u64 option" where
  "try_parse_double_special p len neg =
     (if len = 8 \<and> eq_ci p 8 kInfinity then Some (d_make neg INF_CODE)
      else if len = 3 \<and> eq_ci p 3 kInf then Some (d_make neg INF_CODE)
      else if len = 3 \<and> eq_ci p 3 kNan then Some d_nan
      else None)"

definition is_digit :: "u8 \<Rightarrow> bool" where "is_digit c \<longleftrightarrow> 0x30 \<le> c \<and> c \<le> 0x39"

text \<open>Returns whether a digit was seen, the index past the run, and the mantissa.\<close>

function scan_decimal_digits :: "byteptr \<Rightarrow> nat \<Rightarrow> nat \<Rightarrow> u64 \<Rightarrow> bool \<times> nat \<times> u64" where
  "scan_decimal_digits p len i mantissa =
     (if i < len \<and> is_digit (p i)
      then (let (_, r) = scan_decimal_digits p len (i + 1)
                 (d_add (d_mul mantissa (d_of_int 10)) (d_of_int (uint (p i - 0x30)))) in (True, r))
      else (False, i, mantissa))"
  by pat_completeness auto
termination by (relation "measure (\<lambda>(p, len, i, mantissa). len - i)") auto

declare scan_decimal_digits.simps [simp del]

function scan_exp_digits :: "byteptr \<Rightarrow> nat \<Rightarrow> nat \<Rightarrow> int \<Rightarrow> bool \<times> nat \<times> int" where
  "scan_exp_digits p len i exp_val =
     (if i < len \<and> is_digit (p i)
      then (let (_, r) = scan_exp_digits p len (i + 1)
                 (if exp_val < 10000 then exp_val * 10 + uint (p i - 0x30) else exp_val) in (True, r))
      else (False, i, exp_val))"
  by pat_completeness auto
termination by (relation "measure (\<lambda>(p, len, i, exp_val). len - i)") auto

declare scan_exp_digits.simps [simp del]

definition scan_exponent :: "byteptr \<Rightarrow> nat \<Rightarrow> nat \<Rightarrow> (nat \<times> int) option" where
  "scan_exponent p len i =
     (if i \<ge> len \<or> (p i \<noteq> 0x65 \<and> p i \<noteq> 0x45) then Some (i, 0)
      else (let i = i + 1 in
        if i = len then None
        else (let exp_neg = (p i = 0x2D); i = (if p i = 0x2D \<or> p i = 0x2B then i + 1 else i) in
          if i = len then None
          else (let (saw, i, exp_val) = scan_exp_digits p len i 0 in
            if \<not> saw then None else Some (i, if exp_neg then - exp_val else exp_val)))))"

fun d_pow_step :: "(u64 \<Rightarrow> u64) \<Rightarrow> nat \<Rightarrow> u64 \<Rightarrow> u64" where
  "d_pow_step f 0 x = x"
| "d_pow_step f (Suc k) x = d_pow_step f k (f x)"

definition apply_decimal_scale :: "u64 \<Rightarrow> int \<Rightarrow> u64" where
  "apply_decimal_scale mantissa total_exp =
     (if total_exp = 0 then mantissa
      else (let k = nat \<bar>total_exp\<bar>; ten = d_of_int 10 in
        if k \<le> 22 then
          (let pow10 = d_pow_step (\<lambda>x. d_mul x ten) k (d_of_int 1) in
           if total_exp > 0 then d_mul mantissa pow10 else d_div mantissa pow10)
        else d_pow_step (\<lambda>x. if total_exp > 0 then d_mul x ten else d_div x ten) k mantissa))"

definition scan_leading_sign :: "byteptr \<Rightarrow> nat \<Rightarrow> nat \<Rightarrow> nat \<times> bool" where
  "scan_leading_sign p len i =
     (if i \<ge> len then (i, False)
      else if p i = 0x2D then (i + 1, True)
      else if p i = 0x2B then (i + 1, False)
      else (i, False))"

text \<open>Whether a digit was seen, the index, the mantissa and the number of fractional digits.\<close>

definition scan_mantissa :: "byteptr \<Rightarrow> nat \<Rightarrow> nat \<Rightarrow> u64 \<Rightarrow> bool \<times> nat \<times> u64 \<times> int" where
  "scan_mantissa p len i mantissa =
     (let (saw, i, mantissa) = scan_decimal_digits p len i mantissa in
      if i < len \<and> p i = 0x2E then
        (let before = i + 1; (saw', i, mantissa) = scan_decimal_digits p len before mantissa in
         (saw \<or> saw', i, mantissa, int (i - before)))
      else (saw, i, mantissa, 0))"

definition parse_double_str :: "byteptr \<Rightarrow> nat \<Rightarrow> u64 option" where
  "parse_double_str p len =
     (if len = 0 then None
      else (let (i, neg) = scan_leading_sign p len 0 in
        if i = len then None
        else (case try_parse_double_special (\<lambda>k. p (i + k)) (len - i) neg of
            Some v \<Rightarrow> Some v
          | None \<Rightarrow>
              (let (saw, i, mantissa, frac_digits) = scan_mantissa p len i 0 in
               if \<not> saw then None
               else do {
                 (i, signed_exp) \<leftarrow> scan_exponent p len i;
                 if i \<noteq> len then None
                 else (let mantissa = apply_decimal_scale mantissa (signed_exp - frac_digits) in
                   Some (if neg then d_neg mantissa else mantissa))
               }))))"

subsection \<open>Parsing bools\<close>

definition kBoolRows :: "(u8 list \<times> bool) list" where
  "kBoolRows =
     [([0x31], True), ([0x74], True), ([0x74, 0x72, 0x75, 0x65], True), ([0x54, 0x52, 0x55, 0x45], True),
      ([0x54, 0x72, 0x75, 0x65], True), ([0x30], False), ([0x66], False), ([0x66, 0x61, 0x6C, 0x73, 0x65], False),
      ([0x46, 0x41, 0x4C, 0x53, 0x45], False), ([0x46, 0x61, 0x6C, 0x73, 0x65], False)]"

definition parse_bool_str :: "byteptr \<Rightarrow> nat \<Rightarrow> bool option" where
  "parse_bool_str p len =
     map_option snd (List.find (\<lambda>(s, v). len = length s \<and> list_all (\<lambda>i. p i = s ! i) [0..<len]) kBoolRows)"

subsection \<open>Kernels from strings\<close>

definition parse_kernel :: "(nat \<Rightarrow> 'v \<Rightarrow> rt \<Rightarrow> rt) \<Rightarrow> (byteptr \<Rightarrow> nat \<Rightarrow> 'v option) \<Rightarrow> u32 \<Rightarrow> u32 \<Rightarrow> rt \<Rightarrow> rt option" where
  "parse_kernel write parse = strict_v CEL_STRING (\<lambda>out a s.
     case parse (span_view (mem s) a) (unat (pl_s_len a)) of
       None \<Rightarrow> poison out CEL_ERR_OVERFLOW s
     | Some v \<Rightarrow> write out v s)"

definition cel_string_to_int_at_v :: "u32 \<Rightarrow> u32 \<Rightarrow> rt \<Rightarrow> rt option" where
  "cel_string_to_int_at_v = parse_kernel write_int parse_int64_str"
definition cel_string_to_uint_at_v :: "u32 \<Rightarrow> u32 \<Rightarrow> rt \<Rightarrow> rt option" where
  "cel_string_to_uint_at_v = parse_kernel write_uint parse_uint64_str"
definition cel_string_to_double_at_v :: "u32 \<Rightarrow> u32 \<Rightarrow> rt \<Rightarrow> rt option" where
  "cel_string_to_double_at_v = parse_kernel write_double parse_double_str"
definition cel_string_to_bool_at_v :: "u32 \<Rightarrow> u32 \<Rightarrow> rt \<Rightarrow> rt option" where
  "cel_string_to_bool_at_v = parse_kernel write_bool parse_bool_str"

subsection \<open>Formatting\<close>

text \<open>The buffer the digit loop fills, least significant digit first.\<close>

function decimal_buf :: "u64 \<Rightarrow> u8 list" where
  "decimal_buf v = (if v > 0 then (0x30 + ucast (v mod 10)) # decimal_buf (v div 10) else [])"
  by pat_completeness auto
termination by (relation "measure unat") (auto simp: unat_div unat_gt_0 intro!: div_less_dividend)

declare decimal_buf.simps [simp del]

definition write_uint_decimal :: "u64 \<Rightarrow> u8 list" where
  "write_uint_decimal v = (if v = 0 then [0x30] else rev (decimal_buf v))"

definition write_int_decimal :: "u64 \<Rightarrow> u8 list" where
  "write_int_decimal v =
     (if 0 \<le> sint v then write_uint_decimal v
      else 0x2D # write_uint_decimal (if v = 0x8000000000000000 then 0x7FFFFFFFFFFFFFFF + 1 else - v))"

definition stamp_span :: "u32 \<Rightarrow> u32 \<Rightarrow> u32 \<Rightarrow> nat \<Rightarrow> rt \<Rightarrow> rt" where
  "stamp_span kind off len out s =
     s\<lparr>mem := store32 (store32 (store32 (store32 (mem s) out kind) (out + 4) 0) (out + 8) off) (out + 12) len\<rparr>"

definition stamp_string :: "u32 \<Rightarrow> nat \<Rightarrow> u8 list \<Rightarrow> rt \<Rightarrow> rt option" where
  "stamp_string kind out src s = do {
     (off, s) \<leftarrow> arena_alloc (word_of_nat (length src)) s;
     if off = 0 \<and> length src > 0 then Some (poison out CEL_ERR_OVERFLOW s)
     else Some (stamp_span kind off (word_of_nat (length src)) out (s\<lparr>mem := store_bytes (mem s) (unat off) src\<rparr>))
   }"

definition format_kernel :: "u32 \<Rightarrow> (cel_value \<Rightarrow> u8 list) \<Rightarrow> u32 \<Rightarrow> u32 \<Rightarrow> rt \<Rightarrow> rt option" where
  "format_kernel kind fmt out_slot in_slot s =
     (let out = cel_value_at out_slot; (wrote, s) = absorb_3vl_unary out (cel_value_at in_slot) s in
      if wrote then Some s
      else if cv_kind (cv s in_slot) \<noteq> kind then Some (poison out CEL_ERR_TYPE_MISMATCH s)
      else stamp_string CEL_STRING out (fmt (cv s in_slot)) s)"

definition kTrue :: "u8 list" where "kTrue = [0x74, 0x72, 0x75, 0x65]"
definition kFalse :: "u8 list" where "kFalse = [0x66, 0x61, 0x6C, 0x73, 0x65]"

definition cel_int_to_string_at_v :: "u32 \<Rightarrow> u32 \<Rightarrow> rt \<Rightarrow> rt option" where
  "cel_int_to_string_at_v = format_kernel CEL_INT (\<lambda>a. write_int_decimal (pl_i a))"
definition cel_uint_to_string_at_v :: "u32 \<Rightarrow> u32 \<Rightarrow> rt \<Rightarrow> rt option" where
  "cel_uint_to_string_at_v = format_kernel CEL_UINT (\<lambda>a. write_uint_decimal (pl_u a))"
definition cel_bool_to_string_at_v :: "u32 \<Rightarrow> u32 \<Rightarrow> rt \<Rightarrow> rt option" where
  "cel_bool_to_string_at_v = format_kernel CEL_BOOL (\<lambda>a. if pl_b a \<noteq> 0 then kTrue else kFalse)"

subsection \<open>Bytes and strings\<close>

definition cel_string_to_bytes_at_v :: "u32 \<Rightarrow> u32 \<Rightarrow> rt \<Rightarrow> rt option" where
  "cel_string_to_bytes_at_v = strict_v CEL_STRING (\<lambda>out a. stamp_span CEL_BYTES (pl_s_ptr a) (pl_s_len a) out)"

definition cel_bytes_to_string_at_v :: "u32 \<Rightarrow> u32 \<Rightarrow> rt \<Rightarrow> rt option" where
  "cel_bytes_to_string_at_v = strict_v CEL_BYTES (\<lambda>out a s.
     if \<not> utf8_valid (span_view (mem s) a) (unat (pl_s_len a)) 0 then poison out CEL_ERR_OVERFLOW s
     else stamp_span CEL_STRING (pl_s_ptr a) (pl_s_len a) out s)"

subsection \<open>Numeric conversions are exact or refused\<close>

lemma limit_doubles:
  "d_val kDoubleInt64Min = - (2 ^ 63 * int d_unit)" "d_val kDoubleInt64MaxPlus1 = 2 ^ 63 * int d_unit"
  "d_val kDoubleUint64MaxPlus1 = 2 ^ 64 * int d_unit"
  "\<not> d_isnan kDoubleInt64Min" "\<not> d_isnan kDoubleInt64MaxPlus1" "\<not> d_isnan kDoubleUint64MaxPlus1"
  using d_val_of_int_exact [of "1086 * P52" "2 ^ 63"] d_val_of_int_exact [of "1087 * P52" "2 ^ 64"]
    d_val_of_int_exact [of "1086 * P52" "- (2 ^ 63)"] limit_mags
  by (simp_all add: kDoubleInt64Min_def kDoubleInt64MaxPlus1_def kDoubleUint64MaxPlus1_def d_of_int_not_nan)

text \<open>\<open>t\<close> is the real value \<open>x\<close> (in units of the least double) rounded towards zero.\<close>

definition truncates :: "int \<Rightarrow> int \<Rightarrow> bool" where
  "truncates x t \<longleftrightarrow> \<bar>t\<bar> * int d_unit \<le> \<bar>x\<bar> \<and> \<bar>x\<bar> < (\<bar>t\<bar> + 1) * int d_unit \<and> (0 < t \<longrightarrow> 0 < x) \<and> (t < 0 \<longrightarrow> x < 0)"

lemma d_trunc_truncates: "truncates (d_val d) (d_trunc d)"
proof -
  let ?m = "d_mag d" and ?q = "d_mag d div d_unit"
  have q: "?q * d_unit \<le> ?m" "?m < (?q + 1) * d_unit"
    using dividend_less_times_div [of d_unit ?m] by (simp_all add: algebra_simps)
  have "int ?q * int d_unit \<le> int ?m" "int ?m < (int ?q + 1) * int d_unit"
    using q by (metis of_nat_le_iff of_nat_mult) (metis (no_types, lifting) q(2) of_nat_1 of_nat_add of_nat_less_iff of_nat_mult)
  moreover have "0 < ?m" if "0 < ?q" using that by (metis div_0 less_nat_zero_code neq0_conv)
  ultimately show ?thesis by (auto simp: truncates_def d_val_def d_trunc_def)
qed

lemma double_to_int_cases:
  assumes "cv_kind (cv s a) = CEL_DOUBLE"
  shows "\<exists>s'. cel_double_to_int_at_v out a s = Some s' \<and> only_cell (cel_value_at out) s s' \<and>
    (if \<not> d_isnan (pl_d (cv s a)) \<and> \<bar>d_val (pl_d (cv s a))\<bar> < 2 ^ 63 * int d_unit
     then is_int (cv s' out) (d_trunc (pl_d (cv s a))) else is_err (cv s' out) CEL_ERR_OVERFLOW)"
proof -
  let ?d = "pl_d (cv s a)"
  have bad: "is_nan ?d \<or> d_le ?d kDoubleInt64Min \<or> d_le kDoubleInt64MaxPlus1 ?d
      \<longleftrightarrow> \<not> (\<not> d_isnan ?d \<and> \<bar>d_val ?d\<bar> < 2 ^ 63 * int d_unit)"
    by (auto simp: is_nan_def d_eq_def d_le_def limit_doubles abs_less_iff not_less)
  have "sint (word_of_int (d_trunc ?d) :: u64) = d_trunc ?d" if "\<bar>d_val ?d\<bar> < 2 ^ 63 * int d_unit"
  proof -
    have "- (2 ^ 63) * int d_unit \<le> d_val ?d" "d_val ?d < 2 ^ 63 * int d_unit" using that by (simp_all add: abs_less_iff)
    then show ?thesis using trunc_between [of "- (2 ^ 63)" ?d "2 ^ 63"] by (intro sint_word_of_int64) simp_all
  qed
  then show ?thesis
    using assms is_int_write [of "cel_value_at out" "word_of_int (d_trunc ?d)" s]
    by (auto simp: cel_double_to_int_at_v_def strict_v_value bad is_err_poison)
qed

lemma double_to_uint_cases:
  assumes "cv_kind (cv s a) = CEL_DOUBLE"
  shows "\<exists>s'. cel_double_to_uint_at_v out a s = Some s' \<and> only_cell (cel_value_at out) s s' \<and>
    (if \<not> d_isnan (pl_d (cv s a)) \<and> 0 \<le> d_val (pl_d (cv s a)) \<and> d_val (pl_d (cv s a)) < 2 ^ 64 * int d_unit
     then is_uint (cv s' out) (d_trunc (pl_d (cv s a))) else is_err (cv s' out) CEL_ERR_OVERFLOW)"
proof -
  let ?d = "pl_d (cv s a)"
  have bad: "is_nan ?d \<or> d_lt ?d 0 \<or> d_le kDoubleUint64MaxPlus1 ?d
      \<longleftrightarrow> \<not> (\<not> d_isnan ?d \<and> 0 \<le> d_val ?d \<and> d_val ?d < 2 ^ 64 * int d_unit)"
    by (auto simp: is_nan_def d_eq_def d_le_def d_lt_def limit_doubles d_zero not_less)
  have "uint (word_of_int (d_trunc ?d) :: u64) = d_trunc ?d" if "0 \<le> d_val ?d" "d_val ?d < 2 ^ 64 * int d_unit"
    using trunc_between [of 0 ?d "2 ^ 64"] that by (simp add: uint_word_of_int)
  then show ?thesis
    using assms is_uint_write [of "cel_value_at out" "word_of_int (d_trunc ?d)" s]
    by (auto simp: cel_double_to_uint_at_v_def strict_v_value bad is_err_poison)
qed

subsection \<open>Decimal literals\<close>

definition dec_step :: "nat \<Rightarrow> u8 \<Rightarrow> nat" where "dec_step n b = 10 * n + (unat b - 48)"

definition dec_val :: "u8 list \<Rightarrow> nat" where "dec_val bs = foldl dec_step 0 bs"

lemma dec_fold_ge: "n \<le> foldl dec_step n bs"
proof (induction bs arbitrary: n)
  case (Cons b bs)
  have "n \<le> dec_step n b" by (simp add: dec_step_def)
  then show ?case using Cons.IH [of "dec_step n b"] by simp
qed simp

lemma digit_range: "is_digit b \<longleftrightarrow> 48 \<le> unat b \<and> unat b \<le> 57"
  by (simp add: is_digit_def word_le_nat_alt)

lemma unat_digit:
  assumes "is_digit b"
  shows "unat (b - 0x30) = unat b - 48" "unat (ucast (ucast (b - 0x30) :: u32) :: u64) = unat b - 48"
proof -
  show d: "unat (b - 0x30) = unat b - 48" using assms by (simp add: digit_range unat_sub word_le_nat_alt)
  have e1: "unat (ucast x :: u32) = unat x" for x :: u8
    using unsigned_less [of x, where ?'a = nat] by (simp add: unsigned_ucast_eq take_bit_nat_eq_self)
  have e2: "unat (ucast x :: u64) = unat x" for x :: u32
    using unat_u32_lt [of x] by (simp add: unsigned_ucast_eq take_bit_nat_eq_self)
  show "unat (ucast (ucast (b - 0x30) :: u32) :: u64) = unat b - 48" by (simp only: e1 e2 d)
qed

lemma accumulate_spec:
  "accumulate_u64_decimal p i len acc =
     (if (\<forall>b \<in> set (map p [i..<len]). is_digit b) \<and> foldl dec_step (unat acc) (map p [i..<len]) < 2 ^ 64
      then Some (word_of_nat (foldl dec_step (unat acc) (map p [i..<len]))) else None)"
proof (induction p i len acc rule: accumulate_u64_decimal.induct)
  case (1 p i len acc)
  show ?case
  proof (cases "i < len")
    case False
    then show ?thesis using unsigned_less [of acc] by (subst accumulate_u64_decimal.simps) simp
  next
    case i: True
    let ?d = "ucast (ucast (p i - 0x30) :: u32) :: u64" and ?bs = "map p [i + 1..<len]"
    have bs: "map p [i..<len] = p i # ?bs" using i by (simp add: upt_conv_Cons)
    have ge: "foldl dec_step n ?bs < 2 ^ 64 \<Longrightarrow> n < 2 ^ 64" for n using dec_fold_ge [of n ?bs] by simp
    show ?thesis
    proof (cases "is_digit (p i)")
      case False
      then have "p i < 0x30 \<or> p i > 0x39" by (auto simp: is_digit_def not_le)
      then show ?thesis using False i by (subst accumulate_u64_decimal.simps) (simp add: bs)
    next
      case dig: True
      then have nd: "\<not> (p i < 0x30 \<or> p i > 0x39)" by (auto simp: is_digit_def not_le)
      have d: "unat ?d = unat (p i) - 48" by (rule unat_digit(2) [OF dig])
      then have d9: "unat ?d \<le> 9" using dig [unfolded digit_range] by linarith
      have step: "dec_step (unat acc) (p i) = 10 * unat acc + unat ?d" by (simp add: dec_step_def d)
      have c1: "acc > 0xFFFFFFFFFFFFFFFF div 10 \<longleftrightarrow> 1844674407370955161 < unat acc" by (simp add: word_less_nat_alt)
      show ?thesis
      proof (cases "1844674407370955161 < unat acc")
        case True
        then have "\<not> dec_step (unat acc) (p i) < 2 ^ 64" by (simp add: step)
        then show ?thesis using ge nd i True c1 by (subst accumulate_u64_decimal.simps) (auto simp: bs)
      next
        case False
        then have m: "unat (acc * 10) = 10 * unat acc" by (simp add: unat_word_ariths)
        have c2: "acc * 10 > 0xFFFFFFFFFFFFFFFF - ?d \<longleftrightarrow> \<not> 10 * unat acc + unat ?d < 2 ^ 64"
          using d9 m by (simp add: word_less_nat_alt unat_sub word_le_nat_alt) arith
        show ?thesis
        proof (cases "10 * unat acc + unat ?d < 2 ^ 64")
          case False
          then have "\<not> dec_step (unat acc) (p i) < 2 ^ 64" by (simp only: step simp_thms)
          then show ?thesis using ge nd i False c1 c2 \<open>\<not> 1844674407370955161 < unat acc\<close>
            by (subst accumulate_u64_decimal.simps) (auto simp: bs Let_def)
        next
          case True
          have u: "unat (acc * 10 + ?d) = dec_step (unat acc) (p i)" using m True by (simp add: unat_word_ariths step)
          have "accumulate_u64_decimal p i len acc = accumulate_u64_decimal p (i + 1) len (acc * 10 + ?d)"
            using i nd c1 c2 True False by (subst accumulate_u64_decimal.simps) (simp add: Let_def)
          also have "\<dots> = (if (\<forall>b \<in> set ?bs. is_digit b) \<and> foldl dec_step (dec_step (unat acc) (p i)) ?bs < 2 ^ 64
              then Some (word_of_nat (foldl dec_step (dec_step (unat acc) (p i)) ?bs)) else None)"
            using 1 [OF i nd refl _ refl] c1 c2 True False u by simp
          finally show ?thesis using dig by (simp add: bs)
        qed
      qed
    qed
  qed
qed

text \<open>Decimal literals: at least one digit, after an optional sign (a minus only where allowed).\<close>

definition digits_value :: "u8 list \<Rightarrow> nat option" where
  "digits_value bs = (if bs \<noteq> [] \<and> (\<forall>b \<in> set bs. is_digit b) then Some (dec_val bs) else None)"

fun int_literal :: "u8 list \<Rightarrow> int option" where
  "int_literal [] = None"
| "int_literal (b # bs) =
     (if b = 0x2D then map_option (\<lambda>n. - int n) (digits_value bs)
      else if b = 0x2B then map_option int (digits_value bs)
      else map_option int (digits_value (b # bs)))"

fun uint_literal :: "u8 list \<Rightarrow> int option" where
  "uint_literal [] = None"
| "uint_literal (b # bs) = (if b = 0x2B then map_option int (digits_value bs) else map_option int (digits_value (b # bs)))"

text \<open>The value of a literal, when the type holds it.\<close>

definition in_range :: "int \<Rightarrow> int \<Rightarrow> int option \<Rightarrow> u64 option" where
  "in_range lo hi r = (case r of None \<Rightarrow> None | Some v \<Rightarrow> if lo \<le> v \<and> v \<le> hi then Some (word_of_int v) else None)"

lemma accumulate_digits:
  assumes "i < len"
  shows "accumulate_u64_decimal p i len 0 = in_range 0 (2 ^ 64 - 1) (map_option int (digits_value (map p [i..<len])))"
  using assms by (simp add: accumulate_spec digits_value_def in_range_def dec_val_def)

lemma apply_sign_spec:
  "apply_int64_sign acc neg = in_range (- (2 ^ 63)) (2 ^ 63 - 1) (Some (if neg then - uint acc else uint acc))"
proof (cases neg)
  case False
  then show ?thesis using order_trans [of "- 9223372036854775808" 0 "uint acc"] by (simp add: apply_int64_sign_def in_range_def word_less_def)
next
  case True
  have "acc > 0x7FFFFFFFFFFFFFFF + 1 \<longleftrightarrow> 2 ^ 63 < uint acc" by (simp add: word_less_def)
  moreover have "acc = 0x7FFFFFFFFFFFFFFF + 1 \<Longrightarrow> - acc = 0x8000000000000000" by simp
  moreover have "word_of_int (- uint acc) = - acc" by simp
  moreover have "- uint acc \<le> 9223372036854775807" using uint_range64(1) [of acc] by linarith
  ultimately show ?thesis using True by (simp add: apply_int64_sign_def in_range_def not_less)
qed

lemma map_byteptr: "0 < len \<Longrightarrow> map p [0..<len] = p 0 # map p [1..<len]"
  by (simp add: upt_conv_Cons)

lemma in_range_bind:
  "in_range 0 (2 ^ 64 - 1) (map_option int r) \<bind> (\<lambda>acc. apply_int64_sign acc neg)
    = in_range (- (2 ^ 63)) (2 ^ 63 - 1) (map_option (\<lambda>n. if neg then - int n else int n) r)"
proof (cases r)
  case (Some n)
  have "uint (word_of_nat n :: u64) = int n" if "int n \<le> 2 ^ 64 - 1"
    using that uint_word_of_int64 [of "int n"] by simp
  then show ?thesis using Some by (auto simp: in_range_def apply_sign_spec)
qed (simp add: in_range_def)

lemma parse_int64_spec:
  "parse_int64_str p len = in_range (- (2 ^ 63)) (2 ^ 63 - 1) (int_literal (map p [0..<len]))"
proof (cases "len = 0")
  case True
  then show ?thesis by (simp add: parse_int64_str_def in_range_def)
next
  case False
  have neg: "(\<lambda>n. if False then - int n else int n) = int" "(\<lambda>n. if True then - int n else int n) = (\<lambda>n. - int n)" by auto
  have e: "digits_value [] = None" by (simp add: digits_value_def)
  show ?thesis
  proof (cases "p 0 = 0x2D \<or> p 0 = 0x2B")
    case True
    show ?thesis
    proof (cases "len = 1")
      case True
      then show ?thesis using \<open>p 0 = 0x2D \<or> p 0 = 0x2B\<close>
        by (auto simp: parse_int64_str_def map_byteptr e in_range_def)
    next
      case False
      then have l: "1 < len" using \<open>len \<noteq> 0\<close> by simp
      have "parse_int64_str p len = accumulate_u64_decimal p 1 len 0 \<bind> (\<lambda>acc. apply_int64_sign acc (p 0 = 0x2D))"
        using True l by (auto simp: parse_int64_str_def)
      then show ?thesis
        using True l unfolding accumulate_digits [OF l] in_range_bind by (auto simp: map_byteptr)
    qed
  next
    case nosign: False
    have l: "0 < len" using False by simp
    have "parse_int64_str p len = accumulate_u64_decimal p 0 len 0 \<bind> (\<lambda>acc. apply_int64_sign acc False)"
      using nosign l by (auto simp: parse_int64_str_def)
    then show ?thesis
      using nosign unfolding accumulate_digits [OF l] in_range_bind by (auto simp: map_byteptr [OF l])
  qed
qed

lemma parse_uint64_spec:
  "parse_uint64_str p len = in_range 0 (2 ^ 64 - 1) (uint_literal (map p [0..<len]))"
proof (cases "len = 0")
  case True
  then show ?thesis by (simp add: parse_uint64_str_def in_range_def)
next
  case False
  then have l: "0 < len" by simp
  have e: "digits_value [] = None" by (simp add: digits_value_def)
  show ?thesis
  proof (cases "p 0 = 0x2B")
    case True
    show ?thesis
    proof (cases "len = 1")
      case True
      then show ?thesis using \<open>p 0 = 0x2B\<close> by (auto simp: parse_uint64_str_def map_byteptr e in_range_def)
    next
      case False
      then have "1 < len" using l by simp
      then show ?thesis using True l by (simp add: parse_uint64_str_def map_byteptr accumulate_digits)
    qed
  next
    case False
    then show ?thesis using l accumulate_digits [OF l] by (simp add: parse_uint64_str_def map_byteptr [OF l])
  qed
qed

subsection \<open>Formatting and back\<close>

lemma unat_ucast8_small: "unat (x :: u64) < 256 \<Longrightarrow> unat (ucast x :: u8) = unat x"
  by (simp add: unsigned_ucast_eq take_bit_nat_eq_self)

lemma digit_byte:
  "is_digit (0x30 + ucast (v mod 10 :: u64))" "unat (0x30 + ucast (v mod 10 :: u64) :: u8) - 48 = unat v mod 10"
proof -
  have m: "unat (v mod 10) = unat v mod 10" by (simp add: unat_mod)
  then have "unat (ucast (v mod 10) :: u8) = unat v mod 10" by (simp add: unat_ucast8_small)
  then have "unat (0x30 + ucast (v mod 10) :: u8) = 48 + unat v mod 10" by (simp add: unat_word_ariths)
  then show "is_digit (0x30 + ucast (v mod 10))" "unat (0x30 + ucast (v mod 10) :: u8) - 48 = unat v mod 10"
    by (simp_all add: digit_range)
qed

lemma decimal_buf_digits: "\<forall>b \<in> set (decimal_buf v). is_digit b" and decimal_buf_val: "dec_val (rev (decimal_buf v)) = unat v"
proof (induction v rule: decimal_buf.induct)
  case (1 v)
  { case 1
    then show ?case using "1.IH"(1) digit_byte(1) by (subst decimal_buf.simps) auto }
  { case 2
    have "dec_val (rev (decimal_buf (v div 10))) = unat v div 10" if "v > 0" using "1.IH"(2) that by (simp add: unat_div)
    then show ?case
      by (subst decimal_buf.simps) (auto simp: dec_val_def dec_step_def digit_byte(2) word_gt_0) }
qed

lemma write_uint_decimal_digits:
  "digits_value (write_uint_decimal v) = Some (unat v)" "\<forall>b \<in> set (write_uint_decimal v). is_digit b" "write_uint_decimal v \<noteq> []"
proof -
  have z: "dec_val [0x30] = 0" by (simp add: dec_val_def dec_step_def)
  have ne: "decimal_buf v \<noteq> []" if "v \<noteq> 0" using that by (subst decimal_buf.simps) (simp add: word_gt_0)
  show d: "\<forall>b \<in> set (write_uint_decimal v). is_digit b"
    using decimal_buf_digits [of v] by (simp add: write_uint_decimal_def is_digit_def)
  show n: "write_uint_decimal v \<noteq> []" using ne by (simp add: write_uint_decimal_def)
  show "digits_value (write_uint_decimal v) = Some (unat v)"
    using d n decimal_buf_val [of v] z by (simp add: digits_value_def write_uint_decimal_def)
qed

lemma uint_literal_roundtrip: "uint_literal (write_uint_decimal v) = Some (uint v)"
proof -
  obtain b bs where w: "write_uint_decimal v = b # bs" using write_uint_decimal_digits(3) [of v] by (cases "write_uint_decimal v") auto
  then have "is_digit b" using write_uint_decimal_digits(2) [of v] by simp
  then have "b \<noteq> 0x2B" by (auto simp: is_digit_def)
  then show ?thesis using write_uint_decimal_digits(1) [of v] unfolding w by simp
qed

lemma int_literal_roundtrip: "int_literal (write_int_decimal v) = Some (sint v)"
proof (cases "0 \<le> sint v")
  case True
  obtain b bs where w: "write_uint_decimal v = b # bs" using write_uint_decimal_digits(3) [of v] by (cases "write_uint_decimal v") auto
  then have "is_digit b" using write_uint_decimal_digits(2) [of v] by simp
  then have "b \<noteq> 0x2B" "b \<noteq> 0x2D" by (auto simp: is_digit_def)
  moreover have "sint v = int (unat v)" using True sint_cases64 [of v] uint_lt2p [of v] by (simp split: if_splits)
  ultimately show ?thesis using write_uint_decimal_digits(1) [of v] w True by (simp add: write_int_decimal_def)
next
  case False
  have "int (unat (if v = 0x8000000000000000 then 0x7FFFFFFFFFFFFFFF + 1 else - v)) = - sint v"
  proof (cases "v = 0x8000000000000000")
    case True
    then have "sint v = INT64_MIN" by (simp add: sint_min_bits)
    then show ?thesis using True by simp
  next
    case False
    then show ?thesis using uint_abs64 [of v] \<open>\<not> 0 \<le> sint v\<close> by simp
  qed
  then show ?thesis using False write_uint_decimal_digits(1) by (simp add: write_int_decimal_def)
qed

text \<open>The decimal numeral of an integer: no sign but a minus, no leading zero.\<close>

function decimal_digits :: "nat \<Rightarrow> u8 list" where
  "decimal_digits n = (if n < 10 then [0x30 + word_of_nat n] else decimal_digits (n div 10) @ [0x30 + word_of_nat (n mod 10)])"
  by pat_completeness auto
termination by (relation "measure id") auto

declare decimal_digits.simps [simp del]

definition decimal_text :: "int \<Rightarrow> u8 list" where
  "decimal_text i = (if i < 0 then 0x2D # decimal_digits (nat (- i)) else decimal_digits (nat i))"

lemma decimal_buf_numeral: "0 < v \<Longrightarrow> rev (decimal_buf v) = decimal_digits (unat v)"
proof (induction v rule: decimal_buf.induct)
  case (1 v)
  have d: "unat (v div 10) = unat v div 10" "unat (v mod 10) = unat v mod 10" by (simp_all add: unat_div unat_mod)
  have u: "(ucast (v mod 10) :: u8) = word_of_nat (unat v mod 10)"
    unfolding d(2) [symmetric] by simp
  show ?case
  proof (cases "v div 10 = 0")
    case True
    then have "unat v < 10" using d(1) by simp
    then show ?thesis using 1 True u by (subst decimal_buf.simps, subst decimal_digits.simps) (simp add: decimal_buf.simps [of 0])
  next
    case False
    then have p: "0 < v div 10" by (simp add: word_gt_0)
    then have "\<not> unat v < 10" using d(1) by (metis div_less word_gt_0 unat_eq_0)
    then show ?thesis using 1 p u d by (subst decimal_buf.simps, subst decimal_digits.simps) simp
  qed
qed

lemma write_uint_decimal_numeral: "write_uint_decimal v = decimal_digits (unat v)"
  using decimal_buf_numeral [of v] decimal_digits.simps [of 0] by (auto simp: write_uint_decimal_def word_gt_0)

lemma write_int_decimal_numeral: "write_int_decimal v = decimal_text (sint v)"
proof (cases "0 \<le> sint v")
  case True
  then have "nat (sint v) = unat v" using sint_cases64 [of v] uint_lt2p [of v] by (simp split: if_splits)
  then show ?thesis using True by (simp add: write_int_decimal_def write_uint_decimal_numeral decimal_text_def)
next
  case False
  have "unat (if v = 0x8000000000000000 then 0x7FFFFFFFFFFFFFFF + 1 else - v) = nat (- sint v)"
  proof (cases "v = 0x8000000000000000")
    case True
    then have "sint v = INT64_MIN" by (simp add: sint_min_bits)
    then show ?thesis using True by simp
  next
    case min: False
    then show ?thesis using uint_abs64 [of v] False by (simp flip: nat_uint_eq)
  qed
  then show ?thesis using False by (simp add: write_int_decimal_def write_uint_decimal_numeral decimal_text_def)
qed

subsection \<open>Stamped spans\<close>

lemma cell_stamp_span:
  "cv_kind (load_cv (mem (stamp_span kind off len out s)) out) = kind"
  "pl_s_ptr (load_cv (mem (stamp_span kind off len out s)) out) = off"
  "pl_s_len (load_cv (mem (stamp_span kind off len out s)) out) = len"
  by (simp_all add: stamp_span_def mem_simps pl_defs)

lemma same_outside_stamp: "same_outside out 24 (mem s) (mem (stamp_span kind off len out s))"
proof -
  have "same_outside out 24 (mem s) (store32 (mem s) out kind)" by (rule same_outside_store32) simp_all
  also have "same_outside out 24 \<dots> (store32 (store32 (mem s) out kind) (out + 4) 0)" by (rule same_outside_store32) simp_all
  also have "same_outside out 24 \<dots> (store32 (store32 (store32 (mem s) out kind) (out + 4) 0) (out + 8) off)"
    by (rule same_outside_store32) simp_all
  also have "same_outside out 24 \<dots> (mem (stamp_span kind off len out s))"
    unfolding stamp_span_def by (simp, rule same_outside_store32) simp_all
  finally show ?thesis .
qed

lemma only_cell_stamp: "only_cell out s (stamp_span kind off len out s)"
  using same_outside_stamp [of out s kind off len] by (simp add: only_cell_def stamp_span_def)

lemma str_of_stamp:
  "apart (unat off) (unat len) out 24 \<Longrightarrow>
   str_of (mem (stamp_span kind off len out s)) (load_cv (mem (stamp_span kind off len out s)) out) = bytes_at (mem s) (unat off) (unat len)"
  using same_outside_stamp [of out s kind off len] unfolding span_bytes_def cell_stamp_span
  by (auto intro!: bytes_at_cong simp: same_outside_def apart_def)

text \<open>A span result: the overflow error exactly when the arena refuses the bytes.\<close>

definition stamped :: "u32 \<Rightarrow> u32 \<Rightarrow> u8 list \<Rightarrow> rt \<Rightarrow> rt \<Rightarrow> bool" where
  "stamped kind out bs s s' \<longleftrightarrow> keeps (cel_value_at out) s s'
     \<and> (if \<exists>t. arena_alloc (word_of_nat (length bs)) s = Some (0, t) then is_err (cv s' out) CEL_ERR_OVERFLOW
        else cv_kind (cv s' out) = kind \<and> str_of (mem s') (cv s' out) = bs \<and> span_kept s' (cv s' out)
          \<and> fresh_range s (unat (pl_s_ptr (cv s' out))) (unat (pl_s_len (cv s' out))))"

lemma stamped_text:
  assumes "stamped kind out bs s s'" "\<not> refused [word_of_nat (length bs)] s"
  shows "cv_kind (cv s' out) = kind" "str_of (mem s') (cv s' out) = bs" "span_kept s' (cv s' out)"
    "fresh_range s (unat (pl_s_ptr (cv s' out))) (unat (pl_s_len (cv s' out)))"
  using assms by (auto simp: stamped_def split: if_splits)

lemma stamp_string_correct:
  assumes ok: "arena_ok s" "kept_range s (cel_value_at out) 24" and len: "0 < length bs" "length bs < 2 ^ 32"
  shows "\<exists>s'. stamp_string kind (cel_value_at out) bs s = Some s' \<and> stamped kind out bs s s'"
proof -
  let ?n = "word_of_nat (length bs) :: u32" and ?o = "cel_value_at out"
  have n: "length bs = unat ?n" using len(2) by (simp add: unat_of_nat)
  show ?thesis
  proof (cases rule: alloc_fill [OF ok(1) n])
    case (1 t)
    have "arena_ok t" using 1(2) by (simp add: extends_def)
    then have "keeps ?o t (poison ?o CEL_ERR_OVERFLOW t)" by (intro only_cell_keeps) simp_all
    then have "keeps ?o s (poison ?o CEL_ERR_OVERFLOW t)" by (rule keeps_trans [OF extends_keeps [OF 1(2)]])
    then show ?thesis using 1(1) len(1) by (auto simp: stamp_string_def stamped_def is_err_poison)
  next
    case (2 p t)
    let ?u = "t\<lparr>mem := store_bytes (mem t) (unat p) bs\<rparr>"
    let ?s' = "stamp_span kind p ?n ?o ?u"
    have "arena_ok ?u" using 2(3) by (simp add: extends_def)
    then have "keeps ?o ?u ?s'" by (intro only_cell_keeps only_cell_stamp)
    then have k: "keeps ?o s ?s'" by (rule keeps_trans [OF extends_keeps [OF 2(3)]])
    have "apart ?o 24 (unat p) (unat ?n)" by (rule kept_outside [OF 2(6) ok(2)])
    then have "str_of (mem ?s') (cv ?s' out) = bs"
      using str_of_stamp [of p ?n ?o kind ?u] 2(8) by (simp add: apart_sym)
    moreover have "span_kept ?s' (cv ?s' out)"
      using 2(5) by (simp add: span_kept_def cell_stamp_span) (simp add: stamp_span_def)
    moreover have "fresh_range s (unat p) (unat ?n)" using 2(6) by (simp add: fresh_range_def)
    ultimately show ?thesis using 2(1,2) k by (auto simp: stamp_string_def stamped_def cell_stamp_span)
  qed
qed

lemma format_kernel_correct:
  assumes ok: "arena_ok s" "kept_range s (cel_value_at out) 24" and kind: "cv_kind (cv s a) = k" "k \<noteq> CEL_ERROR" "k \<noteq> CEL_UNKNOWN"
    and len: "0 < length (fmt (cv s a))" "length (fmt (cv s a)) < 2 ^ 32"
  shows "\<exists>s'. format_kernel k fmt out a s = Some s' \<and> stamped CEL_STRING out (fmt (cv s a)) s s'"
  using stamp_string_correct [OF ok len] kind by (simp add: format_kernel_def absorb_3vl_unary_def)

text \<open>A string cell read through the byte pointer is its bytes.\<close>

lemma map_span_view: "map (span_view m v) [0..<unat (pl_s_len v)] = str_of m v"
  by (simp add: span_view_def span_bytes_def bytes_at_def)

lemma length_decimal_buf: "length (decimal_buf v) \<le> n" if "unat v < 10 ^ n"
  using that
proof (induction v arbitrary: n rule: decimal_buf.induct)
  case (1 v)
  show ?case
  proof (cases "v > 0")
    case True
    then obtain k where k: "n = Suc k" using 1(2) by (cases n) (auto simp: word_gt_0 unat_eq_0)
    have "unat (v div 10) < 10 ^ k" using 1(2) k by (simp add: unat_div)
    then show ?thesis using 1(1) [OF True, of k] k True by (subst decimal_buf.simps) simp
  next
    case False
    then show ?thesis by (subst decimal_buf.simps) simp
  qed
qed

lemma length_write_uint: "0 < length (write_uint_decimal v) \<and> length (write_uint_decimal v) \<le> 20"
proof -
  have "unat v < 10 ^ 20" using unsigned_less [of v, where ?'a = nat] by simp
  then have "length (decimal_buf v) \<le> 20" by (rule length_decimal_buf)
  then show ?thesis using write_uint_decimal_digits(3) [of v] by (auto simp: write_uint_decimal_def)
qed

lemma length_write_int: "0 < length (write_int_decimal v) \<and> length (write_int_decimal v) \<le> 21"
  using length_write_uint [of v] length_write_uint [of "- v"] length_write_uint [of "0x7FFFFFFFFFFFFFFF + 1"]
  by (simp add: write_int_decimal_def)

subsection \<open>Properties\<close>

text \<open>
  Numeric conversions are exact or refused: uint to int and int to uint keep the number when the
  target type holds it; a double converts to the integer it truncates to, towards zero, exactly
  when it is a number strictly between the limits of the int type (both excluded) or at least 0 and
  below the limit of the uint type; everything else is the overflow error. An int of magnitude
  below \<open>2^53\<close> converts to the double of exactly that value.
\<close>

theorem numeric_conversions_exact:
  shows "(cv_kind (cv s a) = CEL_UINT \<longrightarrow> (\<exists>s'. cel_uint_to_int_at_v out a s = Some s' \<and> only_cell (cel_value_at out) s s'
        \<and> int_or_overflow (cv s' out) (uint (pl_u (cv s a)))))
    \<and> (cv_kind (cv s a) = CEL_INT \<longrightarrow> (\<exists>s'. cel_int_to_uint_at_v out a s = Some s' \<and> only_cell (cel_value_at out) s s'
        \<and> uint_or_overflow (cv s' out) (sint (pl_i (cv s a)))))
    \<and> (cv_kind (cv s a) = CEL_DOUBLE \<longrightarrow> (\<exists>s'. cel_double_to_int_at_v out a s = Some s' \<and> only_cell (cel_value_at out) s s'
        \<and> (if \<not> d_isnan (pl_d (cv s a)) \<and> \<bar>d_val (pl_d (cv s a))\<bar> < 2 ^ 63 * int d_unit
            then \<exists>t. is_int (cv s' out) t \<and> truncates (d_val (pl_d (cv s a))) t else is_err (cv s' out) CEL_ERR_OVERFLOW)))
    \<and> (cv_kind (cv s a) = CEL_DOUBLE \<longrightarrow> (\<exists>s'. cel_double_to_uint_at_v out a s = Some s' \<and> only_cell (cel_value_at out) s s'
        \<and> (if \<not> d_isnan (pl_d (cv s a)) \<and> 0 \<le> d_val (pl_d (cv s a)) \<and> d_val (pl_d (cv s a)) < 2 ^ 64 * int d_unit
            then \<exists>t. is_uint (cv s' out) t \<and> truncates (d_val (pl_d (cv s a))) t else is_err (cv s' out) CEL_ERR_OVERFLOW)))
    \<and> (cv_kind (cv s a) = CEL_INT \<and> \<bar>sint (pl_i (cv s a))\<bar> < 2 ^ 53 \<longrightarrow>
        (\<exists>s'. cel_int_to_double_at_v out a s = Some s' \<and> only_cell (cel_value_at out) s s' \<and> cv_kind (cv s' out) = CEL_DOUBLE
          \<and> \<not> d_isnan (pl_d (cv s' out)) \<and> d_val (pl_d (cv s' out)) = sint (pl_i (cv s a)) * int d_unit))"
proof (intro conjI impI)
  let ?o = "cel_value_at out"
  assume k: "cv_kind (cv s a) = CEL_UINT"
  have "int_or_overflow (cv (if pl_u (cv s a) > 0x7FFFFFFFFFFFFFFF then poison ?o CEL_ERR_OVERFLOW s else write_int ?o (pl_u (cv s a)) s) out)
      (uint (pl_u (cv s a)))"
    using is_int_write [of ?o "pl_u (cv s a)" s] sint_eq_uint64 [of "pl_u (cv s a)"] order_trans [OF _ uint_range64(1) [of "pl_u (cv s a)"], of "- 9223372036854775808"]
    by (auto simp: int_or_overflow_def is_err_poison word_less_def not_less)
  then show "\<exists>s'. cel_uint_to_int_at_v out a s = Some s' \<and> only_cell ?o s s' \<and> int_or_overflow (cv s' out) (uint (pl_u (cv s a)))"
    using k by (simp add: cel_uint_to_int_at_v_def strict_v_value Let_def)
next
  let ?o = "cel_value_at out"
  assume k: "cv_kind (cv s a) = CEL_INT"
  have "uint_or_overflow (cv (if sint (pl_i (cv s a)) < 0 then poison ?o CEL_ERR_OVERFLOW s else write_uint ?o (pl_i (cv s a)) s) out)
      (sint (pl_i (cv s a)))"
    using is_uint_write [of ?o "pl_i (cv s a)" s] sint_cases64 [of "pl_i (cv s a)"] uint_range64 [of "pl_i (cv s a)"]
    by (auto simp: uint_or_overflow_def is_err_poison split: if_splits)
  then show "\<exists>s'. cel_int_to_uint_at_v out a s = Some s' \<and> only_cell ?o s s' \<and> uint_or_overflow (cv s' out) (sint (pl_i (cv s a)))"
    using k by (simp add: cel_int_to_uint_at_v_def strict_v_value Let_def)
next
  assume "cv_kind (cv s a) = CEL_DOUBLE"
  from double_to_int_cases [OF this, of out] d_trunc_truncates [of "pl_d (cv s a)"]
  show "\<exists>s'. cel_double_to_int_at_v out a s = Some s' \<and> only_cell (cel_value_at out) s s'
        \<and> (if \<not> d_isnan (pl_d (cv s a)) \<and> \<bar>d_val (pl_d (cv s a))\<bar> < 2 ^ 63 * int d_unit
            then \<exists>t. is_int (cv s' out) t \<and> truncates (d_val (pl_d (cv s a))) t else is_err (cv s' out) CEL_ERR_OVERFLOW)"
    by (smt (verit))
next
  assume "cv_kind (cv s a) = CEL_DOUBLE"
  from double_to_uint_cases [OF this, of out] d_trunc_truncates [of "pl_d (cv s a)"]
  show "\<exists>s'. cel_double_to_uint_at_v out a s = Some s' \<and> only_cell (cel_value_at out) s s'
        \<and> (if \<not> d_isnan (pl_d (cv s a)) \<and> 0 \<le> d_val (pl_d (cv s a)) \<and> d_val (pl_d (cv s a)) < 2 ^ 64 * int d_unit
            then \<exists>t. is_uint (cv s' out) t \<and> truncates (d_val (pl_d (cv s a))) t else is_err (cv s' out) CEL_ERR_OVERFLOW)"
    by (smt (verit))
next
  assume k: "cv_kind (cv s a) = CEL_INT \<and> \<bar>sint (pl_i (cv s a))\<bar> < 2 ^ 53"
  then have v: "d_val (d_of_int (sint (pl_i (cv s a)))) = sint (pl_i (cv s a)) * int d_unit" by (intro d_val_of_small_int) simp
  show "\<exists>s'. cel_int_to_double_at_v out a s = Some s' \<and> only_cell (cel_value_at out) s s' \<and> cv_kind (cv s' out) = CEL_DOUBLE
          \<and> \<not> d_isnan (pl_d (cv s' out)) \<and> d_val (pl_d (cv s' out)) = sint (pl_i (cv s a)) * int d_unit"
    using k v d_of_int_not_nan by (simp add: cel_int_to_double_at_v_def strict_v_value cell_write_double pl_d_def)
qed

theorem numeric_conversions_exact_witness:
  "\<exists>s'. cel_uint_to_int_at_v 192 128 (two_cells (cell_of CEL_UINT 7) (cell_of CEL_INT 0)) = Some s' \<and> is_int (cv s' 192) 7"
  using numeric_conversions_exact [of "two_cells (cell_of CEL_UINT 7) (cell_of CEL_INT 0)" 128 192]
  by (auto simp: int_or_overflow_def pl_defs)

text \<open>
  C16. Parsing: \<open>int(string)\<close> and \<open>uint(string)\<close> accept exactly the decimal literals (a sign at most
  once, at least one digit, nothing else) whose value the type holds, INT64_MIN included, and yield
  that value; every other string is the overflow error. No intermediate overflow is missed.
\<close>

theorem parse_integers_exact:
  assumes "cv_kind (cv s a) = CEL_STRING"
  shows "(\<exists>s'. cel_string_to_int_at_v out a s = Some s' \<and> only_cell (cel_value_at out) s s' \<and>
      (case int_literal (str_of (mem s) (cv s a)) of Some i \<Rightarrow> int_or_overflow (cv s' out) i | None \<Rightarrow> is_err (cv s' out) CEL_ERR_OVERFLOW))
    \<and> (\<exists>s'. cel_string_to_uint_at_v out a s = Some s' \<and> only_cell (cel_value_at out) s s' \<and>
      (case uint_literal (str_of (mem s) (cv s a)) of Some i \<Rightarrow> uint_or_overflow (cv s' out) i | None \<Rightarrow> is_err (cv s' out) CEL_ERR_OVERFLOW))"
proof -
  let ?o = "cel_value_at out"
  have i: "parse_int64_str (span_view (mem s) (cv s a)) (unat (pl_s_len (cv s a)))
      = in_range (- (2 ^ 63)) (2 ^ 63 - 1) (int_literal (str_of (mem s) (cv s a)))"
    unfolding parse_int64_spec map_span_view ..
  have u: "parse_uint64_str (span_view (mem s) (cv s a)) (unat (pl_s_len (cv s a)))
      = in_range 0 (2 ^ 64 - 1) (uint_literal (str_of (mem s) (cv s a)))"
    unfolding parse_uint64_spec map_span_view ..
  have wi: "is_int (cv (write_int ?o (word_of_int v) s) out) v" if "- (2 ^ 63) \<le> v" "v \<le> 2 ^ 63 - 1" for v
    using is_int_write [of ?o "word_of_int v" s] sint_word_of_int64 [of v] that by simp
  have wu: "is_uint (cv (write_uint ?o (word_of_int v) s) out) v" if "0 \<le> v" "v \<le> 2 ^ 64 - 1" for v
    using is_uint_write [of ?o "word_of_int v" s] uint_word_of_int64 [of v] that by simp
  show ?thesis
    using assms wi wu
    by (auto simp: cel_string_to_int_at_v_def cel_string_to_uint_at_v_def parse_kernel_def strict_v_value i u in_range_def
        int_or_overflow_def uint_or_overflow_def is_err_poison split: option.split)
qed

theorem parse_integers_exact_witness:
  "\<exists>s'. cel_string_to_int_at_v 192 128 (two_cells (cell_of CEL_STRING 0) (cell_of CEL_INT 0)) = Some s'
     \<and> is_err (cv s' 192) CEL_ERR_OVERFLOW"
proof -
  have "str_of (mem (two_cells (cell_of CEL_STRING 0) (cell_of CEL_INT 0))) (cell_of CEL_STRING 0) = []"
    by (simp add: span_bytes_def bytes_at_def pl_defs hi32_def)
  then show ?thesis
    using parse_integers_exact [of "two_cells (cell_of CEL_STRING 0) (cell_of CEL_INT 0)" 128 192] by auto
qed

text \<open>
  C17. Formatting round trips: \<open>string(int)\<close> and \<open>string(uint)\<close> write the decimal numeral of the number
  into fresh memory, INT64_MIN included, and \<open>int(string)\<close> and \<open>uint(string)\<close> parse it back to the same
  number. The overflow error is written exactly when the arena refuses the bytes of that numeral, and
  no kept byte outside the out slot changes.
\<close>

theorem format_parse_roundtrip:
  assumes "arena_ok s" "kept_range s (cel_value_at out) 24"
  shows "(cv_kind (cv s a) = CEL_INT \<longrightarrow> (let bs = decimal_text (sint (pl_i (cv s a))) in
        \<exists>s'. cel_int_to_string_at_v out a s = Some s' \<and> stamped CEL_STRING out bs s s'
          \<and> (\<not> refused [word_of_nat (length bs)] s \<longrightarrow>
              (\<exists>t. cel_string_to_int_at_v back out s' = Some t \<and> is_int (cv t back) (sint (pl_i (cv s a)))))))
    \<and> (cv_kind (cv s a) = CEL_UINT \<longrightarrow> (let bs = decimal_text (uint (pl_u (cv s a))) in
        \<exists>s'. cel_uint_to_string_at_v out a s = Some s' \<and> stamped CEL_STRING out bs s s'
          \<and> (\<not> refused [word_of_nat (length bs)] s \<longrightarrow>
              (\<exists>t. cel_string_to_uint_at_v back out s' = Some t \<and> is_uint (cv t back) (uint (pl_u (cv s a)))))))"
proof (intro conjI impI)
  let ?bs = "write_int_decimal (pl_i (cv s a))"
  assume k: "cv_kind (cv s a) = CEL_INT"
  obtain s' where s': "cel_int_to_string_at_v out a s = Some s'" "stamped CEL_STRING out ?bs s s'"
    using format_kernel_correct [OF assms k, of "\<lambda>a. write_int_decimal (pl_i a)"] length_write_int [of "pl_i (cv s a)"]
    by (auto simp: cel_int_to_string_at_v_def)
  have "\<exists>t. cel_string_to_int_at_v back out s' = Some t \<and> is_int (cv t back) (sint (pl_i (cv s a)))"
    if "\<not> refused [word_of_nat (length ?bs)] s"
  proof -
    have c: "cv_kind (cv s' out) = CEL_STRING" "str_of (mem s') (cv s' out) = ?bs"
      using stamped_text [OF s'(2) that] by auto
    have "parse_int64_str (span_view (mem s') (cv s' out)) (unat (pl_s_len (cv s' out))) = Some (pl_i (cv s a))"
      unfolding parse_int64_spec map_span_view c(2) int_literal_roundtrip
      using sint_range64 [of "pl_i (cv s a)"] by (simp add: in_range_def)
    then show ?thesis using c(1) by (simp add: cel_string_to_int_at_v_def parse_kernel_def strict_v_value is_int_write)
  qed
  then show "let bs = decimal_text (sint (pl_i (cv s a))) in
        \<exists>s'. cel_int_to_string_at_v out a s = Some s' \<and> stamped CEL_STRING out bs s s' \<and> (\<not> refused [word_of_nat (length bs)] s \<longrightarrow>
            (\<exists>t. cel_string_to_int_at_v back out s' = Some t \<and> is_int (cv t back) (sint (pl_i (cv s a)))))"
    using s' unfolding write_int_decimal_numeral Let_def by blast
next
  let ?bs = "write_uint_decimal (pl_u (cv s a))"
  assume k: "cv_kind (cv s a) = CEL_UINT"
  have n: "?bs = decimal_text (uint (pl_u (cv s a)))" by (simp add: write_uint_decimal_numeral decimal_text_def)
  obtain s' where s': "cel_uint_to_string_at_v out a s = Some s'" "stamped CEL_STRING out ?bs s s'"
    using format_kernel_correct [OF assms k, of "\<lambda>a. write_uint_decimal (pl_u a)"] length_write_uint [of "pl_u (cv s a)"]
    by (auto simp: cel_uint_to_string_at_v_def)
  have "\<exists>t. cel_string_to_uint_at_v back out s' = Some t \<and> is_uint (cv t back) (uint (pl_u (cv s a)))"
    if "\<not> refused [word_of_nat (length ?bs)] s"
  proof -
    have c: "cv_kind (cv s' out) = CEL_STRING" "str_of (mem s') (cv s' out) = ?bs"
      using stamped_text [OF s'(2) that] by auto
    have "parse_uint64_str (span_view (mem s') (cv s' out)) (unat (pl_s_len (cv s' out))) = Some (pl_u (cv s a))"
      unfolding parse_uint64_spec map_span_view c(2) uint_literal_roundtrip
      using uint_range64 [of "pl_u (cv s a)"] by (simp add: in_range_def)
    then show ?thesis using c(1) by (simp add: cel_string_to_uint_at_v_def parse_kernel_def strict_v_value is_uint_write)
  qed
  then show "let bs = decimal_text (uint (pl_u (cv s a))) in
        \<exists>s'. cel_uint_to_string_at_v out a s = Some s' \<and> stamped CEL_STRING out bs s s' \<and> (\<not> refused [word_of_nat (length bs)] s \<longrightarrow>
            (\<exists>t. cel_string_to_uint_at_v back out s' = Some t \<and> is_uint (cv t back) (uint (pl_u (cv s a)))))"
    using s' unfolding n Let_def by blast
qed

theorem format_parse_roundtrip_witness:
  "\<exists>s'. cel_int_to_string_at_v 192 128 (two_cells (cell_of CEL_INT 7) (cell_of CEL_INT 0)) = Some s'
     \<and> cv_kind (cv s' 192) = CEL_STRING \<and> str_of (mem s') (cv s' 192) = [0x37]"
proof -
  have "decimal_text 7 = [0x37]" by (simp add: decimal_text_def decimal_digits.simps)
  moreover have "\<not> refused [1] (two_cells (cell_of CEL_INT 7) (cell_of CEL_INT 0))"
    by (simp add: two_cells_def arena_alloc_def align_up_8_def sample_rt_init(2) sample_rt_chunks bump_tail_def Let_def)
  ultimately show ?thesis
    using format_parse_roundtrip [OF two_cells_ok, of "cell_of CEL_INT 7" "cell_of CEL_INT 0" 192 128 160] stamped_text
    by (fastforce simp: low_kept cel_value_at_def pl_defs two_cells_cv [unfolded cel_value_at_def, simplified])
qed

text \<open>
  \<open>string(bytes)\<close> accepts exactly the UTF-8 encodings of sequences of Unicode scalar values,
  rejecting overlong forms, surrogates, values past 0x10FFFF, stray and missing continuation bytes,
  and reuses the span; anything else is the overflow error. \<open>bytes(string)\<close> always reuses the span.
\<close>

theorem bytes_string_conversions:
  shows "(cv_kind (cv s a) = CEL_BYTES \<longrightarrow> (\<exists>s'. cel_bytes_to_string_at_v out a s = Some s' \<and> only_cell (cel_value_at out) s s' \<and>
      (if \<exists>cs. (\<forall>c \<in> set cs. scalar_value c) \<and> str_of (mem s) (cv s a) = utf8_string cs
       then cv_kind (cv s' out) = CEL_STRING \<and> pl_s_ptr (cv s' out) = pl_s_ptr (cv s a) \<and> pl_s_len (cv s' out) = pl_s_len (cv s a)
       else is_err (cv s' out) CEL_ERR_OVERFLOW)))
    \<and> (cv_kind (cv s a) = CEL_STRING \<longrightarrow> (\<exists>s'. cel_string_to_bytes_at_v out a s = Some s' \<and> only_cell (cel_value_at out) s s' \<and>
       cv_kind (cv s' out) = CEL_BYTES \<and> pl_s_ptr (cv s' out) = pl_s_ptr (cv s a) \<and> pl_s_len (cv s' out) = pl_s_len (cv s a)))"
  using utf8_valid_iff [of "span_view (mem s) (cv s a)" "unat (pl_s_len (cv s a))"]
  by (auto simp: cel_bytes_to_string_at_v_def cel_string_to_bytes_at_v_def strict_v_value cell_stamp_span only_cell_stamp
      is_err_poison map_span_view)

theorem bytes_string_conversions_witness:
  "\<exists>s'. cel_string_to_bytes_at_v 192 128 (two_cells (cell_of CEL_STRING 0) (cell_of CEL_INT 0)) = Some s'
     \<and> cv_kind (cv s' 192) = CEL_BYTES"
  using bytes_string_conversions [of "two_cells (cell_of CEL_STRING 0) (cell_of CEL_INT 0)" 128 192] by auto

end
