(* ===== verification/TypeOf.thy ===== *)
theory TypeOf
  imports Convert
begin

text \<open>\<open>type(x)\<close> (\<open>runtime/cel_type.c\<close>): the name of a value's type, as a value of kind CEL_TYPE.\<close>

definition ascii :: "string \<Rightarrow> u8 list" where "ascii cs = map of_char cs"

definition kPrimitiveTypeName :: "string option list" where
  "kPrimitiveTypeName =
     [Some ''null_type'', Some ''bool'', Some ''int'', Some ''uint'', Some ''double'', Some ''string'', Some ''bytes'',
      Some ''list'', Some ''map'', Some ''map'', None, Some ''type'', Some ''google.protobuf.Duration'',
      Some ''google.protobuf.Timestamp'', Some ''optional_type'', None, None, Some ''list'', Some ''net.IP'', Some ''net.CIDR'']"

definition type_name :: "u32 \<Rightarrow> string option" where
  "type_name k = (if k < 20 then kPrimitiveTypeName ! unat k else None)"

text \<open>The host trampoline that names message types is the argument \<open>resolve\<close>.\<close>

definition cel_type_of_at_v :: "(u32 \<Rightarrow> u32 \<Rightarrow> rt \<Rightarrow> rt option) \<Rightarrow> u32 \<Rightarrow> u32 \<Rightarrow> rt \<Rightarrow> rt option" where
  "cel_type_of_at_v resolve out_slot in_slot s =
     (let out = cel_value_at out_slot; (wrote, s) = absorb_3vl_unary out (cel_value_at in_slot) s; k = cv_kind (cv s in_slot) in
      if wrote then Some s
      else if k = CEL_MESSAGE then resolve out_slot in_slot s
      else (case type_name k of
          None \<Rightarrow> Some (poison out CEL_ERR_TYPE_MISMATCH s)
        | Some name \<Rightarrow> stamp_string CEL_TYPE out (ascii name) s))"

subsection \<open>Names and types\<close>

text \<open>The kinds \<open>type\<close> names itself; lists and maps have two representations each.\<close>

definition same_type :: "u32 \<Rightarrow> u32 \<Rightarrow> bool" where
  "same_type j k \<longleftrightarrow> j = k \<or> both_lists j k \<or> both_maps j k"

lemma type_name_cases:
  assumes "type_name k = Some n"
  shows "k \<in> {CEL_NULL, CEL_BOOL, CEL_INT, CEL_UINT, CEL_DOUBLE, CEL_STRING, CEL_BYTES, CEL_LIST_ARENA, CEL_MAP_ARENA,
    CEL_MAP_HOST, CEL_TYPE, CEL_DURATION, CEL_TIMESTAMP, CEL_OPTIONAL, CEL_LIST_HOST, CEL_IP, CEL_CIDR}"
proof -
  have "unat k < 20" using assms by (simp add: type_name_def word_less_nat_alt split: if_splits)
  then have "unat k \<in> set [0..<20]" by simp
  then have "k \<in> word_of_nat ` set [0..<20]" by (metis imageI word_of_nat_unat_u32)
  then show ?thesis using assms by (auto simp: upt_rec type_name_def kPrimitiveTypeName_def)
qed

lemma type_names:
  "type_name CEL_NULL = Some ''null_type''" "type_name CEL_BOOL = Some ''bool''" "type_name CEL_INT = Some ''int''"
  "type_name CEL_UINT = Some ''uint''" "type_name CEL_DOUBLE = Some ''double''" "type_name CEL_STRING = Some ''string''"
  "type_name CEL_BYTES = Some ''bytes''" "type_name CEL_LIST_ARENA = Some ''list''" "type_name CEL_MAP_ARENA = Some ''map''"
  "type_name CEL_MAP_HOST = Some ''map''" "type_name CEL_TYPE = Some ''type''"
  "type_name CEL_DURATION = Some ''google.protobuf.Duration''" "type_name CEL_TIMESTAMP = Some ''google.protobuf.Timestamp''"
  "type_name CEL_OPTIONAL = Some ''optional_type''" "type_name CEL_LIST_HOST = Some ''list''" "type_name CEL_IP = Some ''net.IP''"
  "type_name CEL_CIDR = Some ''net.CIDR''"
  by (simp_all add: type_name_def kPrimitiveTypeName_def)

definition type_bytes :: "u32 \<Rightarrow> u8 list option" where "type_bytes k = map_option ascii (type_name k)"

lemma type_name_iff:
  assumes "type_name j = Some x" "type_name k = Some y"
  shows "x = y \<longleftrightarrow> same_type j k"
proof -
  let ?ks = "[0, 1, 2, 3, 4, 5, 6, 7, 8, 9, 11, 12, 13, 14, 17, 18, 19 :: u32]"
  have all: "\<forall>j \<in> set [0, 1, 2, 3, 4, 5, 6, 7, 8, 9, 11, 12, 13, 14, 17, 18, 19].
      \<forall>k \<in> set [0, 1, 2, 3, 4, 5, 6, 7, 8, 9, 11, 12, 13, 14, 17, 18, 19].
        (type_name j = type_name k) = same_type j k"
    by (simp add: type_names same_type_def both_lists_def both_maps_def)
  have "j \<in> set ?ks" "k \<in> set ?ks" using type_name_cases [OF assms(1)] type_name_cases [OF assms(2)] by simp_all
  then have "(type_name j = type_name k) = same_type j k" by (rule bspec [OF bspec [OF all]])
  then show ?thesis using assms by simp
qed

lemma ascii_inj: "ascii x = ascii y \<longleftrightarrow> x = y"
proof -
  have "unat (of_char c :: u8) = of_char c" for c
  proof -
    have "unat (of_nat (of_char c) :: u8) = of_char c" using nat_of_char_less_256 [of c] by (simp add: unat_of_nat del: of_nat_of_char)
    then show ?thesis by (simp only: of_nat_of_char)
  qed
  then have "inj (of_char :: char \<Rightarrow> u8)" by (metis injI of_char_eq_iff)
  then show ?thesis by (simp add: ascii_def)
qed

lemma byte_spans_equal:
  "(pl_s_len x = pl_s_len y \<and> cel_byteptr_equal m (unat (pl_s_ptr x)) (unat (pl_s_ptr y)) (unat (pl_s_len x)))
    \<longleftrightarrow> str_of m x = str_of m y"
proof (cases "pl_s_len x = pl_s_len y")
  case True
  then show ?thesis by (simp add: cel_byteptr_equal_iff span_bytes_def)
next
  case False
  then have "length (str_of m x) \<noteq> length (str_of m y)" by (simp add: word_unat_eq_iff)
  then show ?thesis using False by metis
qed

lemma type_name_size: "type_name k = Some x \<Longrightarrow> 0 < length (ascii x) \<and> length (ascii x) < 2 ^ 32"
  using type_name_cases [of k x] by (auto simp: type_names ascii_def)

lemma type_of_correct:
  assumes "arena_ok s" "kept_range s (cel_value_at out) 24" "type_name (cv_kind (cv s a)) = Some x"
  shows "\<exists>s'. cel_type_of_at_v resolve out a s = Some s' \<and> stamped CEL_TYPE out (ascii x) s s'"
proof -
  have "cv_kind (cv s a) \<noteq> CEL_ERROR" "cv_kind (cv s a) \<noteq> CEL_UNKNOWN" "cv_kind (cv s a) \<noteq> CEL_MESSAGE"
    using type_name_cases [OF assms(3)] by auto
  then show ?thesis
    using stamp_string_correct [OF assms(1,2), of "ascii x" CEL_TYPE] type_name_size [OF assms(3)] assms(3)
    by (simp add: cel_type_of_at_v_def absorb_3vl_unary_def)
qed

subsection \<open>Property\<close>

text \<open>
  C18. Types are first-class and faithful: taking the type of two values never traps and writes the
  names of their types into fresh memory, the overflow error exactly when the arena refuses the bytes
  of a name; and comparing the results says equal exactly when the values have the same CEL type, the
  two representations of a list and of a map being one type each. Messages, whose names the host
  resolves, and optionals, which the table names against its own comment, are not covered.
\<close>

theorem type_of_faithful:
  assumes "arena_ok s" "kept_range s (cel_value_at p) 24" "kept_range s (cel_value_at q) 24"
    and "kept_range s (cel_value_at b) 24" "apart (cel_value_at b) 24 (cel_value_at p) 24" "apart (cel_value_at p) 24 (cel_value_at q) 24"
    and "type_name (cv_kind (cv s a)) = Some x" "type_name (cv_kind (cv s b)) = Some y"
    and "cv_kind (cv s a) \<noteq> CEL_OPTIONAL" "cv_kind (cv s b) \<noteq> CEL_OPTIONAL"
  shows "\<exists>s1 s2. cel_type_of_at_v resolve p a s = Some s1 \<and> stamped CEL_TYPE p (ascii x) s s1
    \<and> cel_type_of_at_v resolve q b s1 = Some s2 \<and> stamped CEL_TYPE q (ascii y) s1 s2
    \<and> (\<not> refused [word_of_nat (length x)] s \<and> \<not> refused [word_of_nat (length y)] s1 \<longrightarrow>
         cv_kind (cv s2 p) = CEL_TYPE \<and> cv_kind (cv s2 q) = CEL_TYPE
         \<and> is_bool (cv (type_eq_at_vv r p q s2) r) (same_type (cv_kind (cv s a)) (cv_kind (cv s b))))"
proof -
  let ?P = "cel_value_at p" and ?Q = "cel_value_at q"
  have len: "length (ascii z) = length z" for z by (simp add: ascii_def)
  obtain s1 where s1: "cel_type_of_at_v resolve p a s = Some s1" "stamped CEL_TYPE p (ascii x) s s1"
    using type_of_correct [OF assms(1,2,7)] by blast
  have k1: "keeps ?P s s1" using s1(2) by (simp add: stamped_def)
  then have u1: "arena_used s \<subseteq> arena_used s1" "arena_ok s1" by (simp_all add: keeps_def)
  have b: "cv s1 b = cv s b" by (rule keeps_loads(2) [OF k1 assms(4,5)])
  have kq: "kept_range s1 ?Q 24" by (rule kept_range_mono [OF u1(1) assms(3)])
  obtain s2 where s2: "cel_type_of_at_v resolve q b s1 = Some s2" "stamped CEL_TYPE q (ascii y) s1 s2"
    using type_of_correct [OF u1(2) kq, of b y resolve] assms(8) by (auto simp: b)
  have k2: "keeps ?Q s1 s2" using s2(2) by (simp add: stamped_def)
  have pc: "cv s2 p = cv s1 p" by (rule keeps_loads(2) [OF k2 kept_range_mono [OF u1(1) assms(2)] assms(6)])
  have "is_bool (cv (type_eq_at_vv r p q s2) r) (same_type (cv_kind (cv s a)) (cv_kind (cv s b)))
      \<and> cv_kind (cv s2 p) = CEL_TYPE \<and> cv_kind (cv s2 q) = CEL_TYPE"
    if "\<not> refused [word_of_nat (length x)] s" "\<not> refused [word_of_nat (length y)] s1"
  proof -
    note f1 = stamped_text [OF s1(2), unfolded len, OF that(1)] and f2 = stamped_text [OF s2(2), unfolded len, OF that(2)]
    have "apart (unat (pl_s_ptr (cv s1 p))) (unat (pl_s_len (cv s1 p))) ?Q 24"
      using fresh_apart [OF f1(4) assms(3)] by (simp add: apart_sym)
    then have str: "str_of (mem s2) (cv s2 p) = ascii x"
      using keeps_loads(3) [OF k2, of "unat (pl_s_ptr (cv s1 p))" "unat (pl_s_len (cv s1 p))"] f1(2,3)
      by (simp add: pc span_bytes_def span_kept_def)
    have "(pl_s_len (cv s2 p) = pl_s_len (cv s2 q)
        \<and> cel_byteptr_equal (mem s2) (unat (pl_s_ptr (cv s2 p))) (unat (pl_s_ptr (cv s2 q))) (unat (pl_s_len (cv s2 p))))
        \<longleftrightarrow> str_of (mem s2) (cv s2 p) = str_of (mem s2) (cv s2 q)"
      using byte_spans_equal by blast
    then show ?thesis
      using f1(1) f2(1,2) str type_name_iff [OF assms(7,8)]
      by (auto simp: type_eq_at_vv_def Let_def is_bool_write ascii_inj pc)
  qed
  then show ?thesis using s1 s2 by blast
qed

theorem type_of_faithful_witness:
  "\<exists>s1. cel_type_of_at_v weak_mismatch_v 192 128 (two_cells (cell_of CEL_INT 7) (cell_of CEL_BOOL 1)) = Some s1
     \<and> cv_kind (cv s1 192) = CEL_TYPE \<and> str_of (mem s1) (cv s1 192) = ascii ''int''"
proof -
  let ?s = "two_cells (cell_of CEL_INT 7) (cell_of CEL_BOOL 1)"
  have room: "\<not> refused [3] ?s"
    by (simp add: two_cells_def arena_alloc_def align_up_8_def sample_rt_init(2) sample_rt_chunks bump_tail_def Let_def)
  obtain s1 where "cel_type_of_at_v weak_mismatch_v 192 128 ?s = Some s1" "stamped CEL_TYPE 192 (ascii ''int'') ?s s1"
    using type_of_faithful [OF two_cells_ok, of "cell_of CEL_INT 7" "cell_of CEL_BOOL 1" 192 224 160 128 "''int''" "''bool''" weak_mismatch_v 256]
    by (auto simp: low_kept cel_value_at_def apart_def type_names two_cells_cv [unfolded cel_value_at_def, simplified])
  then show ?thesis using stamped_text(1,2) [of CEL_TYPE 192 "ascii ''int''" ?s s1] room by (auto simp: ascii_def)
qed

end
