(* ===== verification/CelTime.thy ===== *)
theory CelTime
  imports Arith
begin

text \<open>
  Timestamps and durations (\<open>runtime/cel_time.c\<close>). A payload is a pair of seconds and nanoseconds;
  the kernels keep it sign-correlated (\<open>correlated\<close>), so that it stands for the integer \<open>nanos_of\<close>
  in exactly one way. The results are stated on that integer.
\<close>

record cel_dur_ts =
  dt_seconds :: u64
  dt_nanos :: u32

definition pl_dur :: "cel_value \<Rightarrow> cel_dur_ts" where
  "pl_dur v = \<lparr>dt_seconds = pl_seconds v, dt_nanos = pl_nanos v\<rparr>"

definition write_dur :: "u32 \<Rightarrow> nat \<Rightarrow> cel_dur_ts \<Rightarrow> rt \<Rightarrow> rt" where
  "write_dur kind out r s =
     s\<lparr>mem := store64 (store64 (store32 (mem s) out kind) (out + 8) (dt_seconds r)) (out + 16) (join32 (dt_nanos r) 0)\<rparr>"

abbreviation NANOS_PER_SEC :: int where "NANOS_PER_SEC \<equiv> 1000000000"
abbreviation TIMESTAMP_MIN_SECONDS :: int where "TIMESTAMP_MIN_SECONDS \<equiv> -62135596800"
abbreviation TIMESTAMP_MAX_SECONDS :: int where "TIMESTAMP_MAX_SECONDS \<equiv> 253402300799"
abbreviation DURATION_MIN_SECONDS :: int where "DURATION_MIN_SECONDS \<equiv> -315576000000"
abbreviation DURATION_MAX_SECONDS :: int where "DURATION_MAX_SECONDS \<equiv> 315576000000"

definition payload_in_range :: "u64 \<Rightarrow> u32 \<Rightarrow> int \<Rightarrow> int \<Rightarrow> bool" where
  "payload_in_range seconds nanos lo hi =
     (if sint seconds > hi \<or> sint seconds < lo then False
      else if sint seconds = hi \<and> sint nanos > 0 then False
      else if sint seconds = lo \<and> sint nanos < 0 then False
      else True)"

definition timestamp_in_range :: "u64 \<Rightarrow> u32 \<Rightarrow> bool" where
  "timestamp_in_range seconds nanos =
     (if sint seconds > TIMESTAMP_MAX_SECONDS \<or> sint seconds < TIMESTAMP_MIN_SECONDS then False
      else if sint seconds = TIMESTAMP_MIN_SECONDS \<and> sint nanos < 0 then False
      else True)"

definition duration_in_range :: "u64 \<Rightarrow> u32 \<Rightarrow> bool" where
  "duration_in_range seconds nanos = payload_in_range seconds nanos DURATION_MIN_SECONDS DURATION_MAX_SECONDS"

definition arith_duration_in_range :: "u64 \<Rightarrow> u32 \<Rightarrow> bool" where
  "arith_duration_in_range seconds nanos =
     (let kMaxAbsSec = 9223372036; kMaxBoundaryNs = 854775807 in
      if sint seconds > kMaxAbsSec \<or> sint seconds < - kMaxAbsSec then False
      else if sint seconds = kMaxAbsSec \<and> sint nanos > kMaxBoundaryNs then False
      else if sint seconds = - kMaxAbsSec \<and> sint nanos < - kMaxBoundaryNs then False
      else True)"

subsection \<open>Arithmetic\<close>

definition require_kinds_2 :: "nat \<Rightarrow> nat \<Rightarrow> nat \<Rightarrow> u32 \<Rightarrow> u32 \<Rightarrow> rt \<Rightarrow> bool \<times> rt" where
  "require_kinds_2 out a b want_a want_b s =
     (if cv_kind (load_cv (mem s) a) \<noteq> want_a \<or> cv_kind (load_cv (mem s) b) \<noteq> want_b
      then (True, poison out CEL_ERR_TYPE_MISMATCH s) else (False, s))"

definition carry_nanos :: "u32 \<Rightarrow> u32 \<times> u64" where
  "carry_nanos raw_n =
     (if sint raw_n \<ge> NANOS_PER_SEC then (raw_n - 1000000000, 1)
      else if sint raw_n \<le> - NANOS_PER_SEC then (raw_n + 1000000000, -1)
      else (raw_n, 0))"

definition correlate_signs :: "u64 \<Rightarrow> u32 \<Rightarrow> cel_dur_ts" where
  "correlate_signs raw_s raw_n =
     (if sint raw_s > 0 \<and> sint raw_n < 0 then \<lparr>dt_seconds = raw_s - 1, dt_nanos = raw_n + 1000000000\<rparr>
      else if sint raw_s < 0 \<and> sint raw_n > 0 then \<lparr>dt_seconds = raw_s + 1, dt_nanos = raw_n - 1000000000\<rparr>
      else \<lparr>dt_seconds = raw_s, dt_nanos = raw_n\<rparr>)"

definition dur_combine :: "cel_dur_ts \<Rightarrow> cel_dur_ts \<Rightarrow> bool \<Rightarrow> cel_dur_ts option" where
  "dur_combine a b subtract = do {
     raw_s \<leftarrow> (if subtract then sub_overflow_i64 (dt_seconds a) (dt_seconds b) else add_overflow_i64 (dt_seconds a) (dt_seconds b));
     let raw_n = (if subtract then dt_nanos a - dt_nanos b else dt_nanos a + dt_nanos b);
     let (raw_n, carry) = carry_nanos raw_n;
     raw_s \<leftarrow> (if carry \<noteq> 0 then add_overflow_i64 raw_s carry else Some raw_s);
     Some (correlate_signs raw_s raw_n)
   }"

definition dur_compare_lex :: "cel_dur_ts \<Rightarrow> cel_dur_ts \<Rightarrow> int" where
  "dur_compare_lex a b =
     (if dt_seconds a \<noteq> dt_seconds b then (if sint (dt_seconds a) < sint (dt_seconds b) then -1 else 1)
      else if dt_nanos a \<noteq> dt_nanos b then (if sint (dt_nanos a) < sint (dt_nanos b) then -1 else 1)
      else 0)"

record arith_spec =
  want_a :: u32
  want_b :: u32
  subtract :: bool
  result_kind :: u32

definition run_arith :: "arith_spec \<Rightarrow> u32 \<Rightarrow> u32 \<Rightarrow> u32 \<Rightarrow> rt \<Rightarrow> rt option" where
  "run_arith spec out_slot a_slot b_slot s =
     (let out = cel_value_at out_slot; a = cel_value_at a_slot; b = cel_value_at b_slot in do {
        (wrote, s) \<leftarrow> absorb_3vl_binary out a b s;
        if wrote then Some s
        else (let (wrote, s) = require_kinds_2 out a b (want_a spec) (want_b spec) s in
          if wrote then Some s
          else (case dur_combine (pl_dur (load_cv (mem s) a)) (pl_dur (load_cv (mem s) b)) (subtract spec) of
              None \<Rightarrow> Some (poison out CEL_ERR_OVERFLOW s)
            | Some r \<Rightarrow>
                if result_kind spec = CEL_TIMESTAMP \<and> \<not> timestamp_in_range (dt_seconds r) (dt_nanos r)
                then Some (poison out CEL_ERR_OVERFLOW s)
                else if result_kind spec = CEL_DURATION \<and> \<not> arith_duration_in_range (dt_seconds r) (dt_nanos r)
                then Some (poison out CEL_ERR_OVERFLOW s)
                else Some (write_dur (result_kind spec) out r s)))
      })"

definition cel_dur_add_at_vv :: "u32 \<Rightarrow> u32 \<Rightarrow> u32 \<Rightarrow> rt \<Rightarrow> rt option" where
  "cel_dur_add_at_vv = run_arith \<lparr>want_a = CEL_DURATION, want_b = CEL_DURATION, subtract = False, result_kind = CEL_DURATION\<rparr>"

definition cel_dur_sub_at_vv :: "u32 \<Rightarrow> u32 \<Rightarrow> u32 \<Rightarrow> rt \<Rightarrow> rt option" where
  "cel_dur_sub_at_vv = run_arith \<lparr>want_a = CEL_DURATION, want_b = CEL_DURATION, subtract = True, result_kind = CEL_DURATION\<rparr>"

definition cel_ts_dur_add_at_vv :: "u32 \<Rightarrow> u32 \<Rightarrow> u32 \<Rightarrow> rt \<Rightarrow> rt option" where
  "cel_ts_dur_add_at_vv = run_arith \<lparr>want_a = CEL_TIMESTAMP, want_b = CEL_DURATION, subtract = False, result_kind = CEL_TIMESTAMP\<rparr>"

definition cel_dur_ts_add_at_vv :: "u32 \<Rightarrow> u32 \<Rightarrow> u32 \<Rightarrow> rt \<Rightarrow> rt option" where
  "cel_dur_ts_add_at_vv = run_arith \<lparr>want_a = CEL_DURATION, want_b = CEL_TIMESTAMP, subtract = False, result_kind = CEL_TIMESTAMP\<rparr>"

definition cel_ts_dur_sub_at_vv :: "u32 \<Rightarrow> u32 \<Rightarrow> u32 \<Rightarrow> rt \<Rightarrow> rt option" where
  "cel_ts_dur_sub_at_vv = run_arith \<lparr>want_a = CEL_TIMESTAMP, want_b = CEL_DURATION, subtract = True, result_kind = CEL_TIMESTAMP\<rparr>"

definition cel_ts_ts_sub_at_vv :: "u32 \<Rightarrow> u32 \<Rightarrow> u32 \<Rightarrow> rt \<Rightarrow> rt option" where
  "cel_ts_ts_sub_at_vv = run_arith \<lparr>want_a = CEL_TIMESTAMP, want_b = CEL_TIMESTAMP, subtract = True, result_kind = CEL_DURATION\<rparr>"

subsection \<open>Ordering\<close>

definition run_compare :: "u32 \<Rightarrow> (int \<Rightarrow> bool) \<Rightarrow> u32 \<Rightarrow> u32 \<Rightarrow> u32 \<Rightarrow> rt \<Rightarrow> rt option" where
  "run_compare want pred = strict_vv want (\<lambda>out a b. write_bool out (pred (dur_compare_lex (pl_dur a) (pl_dur b))))"

definition pred_lt :: "int \<Rightarrow> bool" where "pred_lt cmp \<longleftrightarrow> cmp < 0"
definition pred_le :: "int \<Rightarrow> bool" where "pred_le cmp \<longleftrightarrow> cmp \<le> 0"
definition pred_gt :: "int \<Rightarrow> bool" where "pred_gt cmp \<longleftrightarrow> cmp > 0"
definition pred_ge :: "int \<Rightarrow> bool" where "pred_ge cmp \<longleftrightarrow> cmp \<ge> 0"

definition cel_dur_lt_at_vv :: "u32 \<Rightarrow> u32 \<Rightarrow> u32 \<Rightarrow> rt \<Rightarrow> rt option" where "cel_dur_lt_at_vv = run_compare CEL_DURATION pred_lt"
definition cel_dur_le_at_vv :: "u32 \<Rightarrow> u32 \<Rightarrow> u32 \<Rightarrow> rt \<Rightarrow> rt option" where "cel_dur_le_at_vv = run_compare CEL_DURATION pred_le"
definition cel_dur_gt_at_vv :: "u32 \<Rightarrow> u32 \<Rightarrow> u32 \<Rightarrow> rt \<Rightarrow> rt option" where "cel_dur_gt_at_vv = run_compare CEL_DURATION pred_gt"
definition cel_dur_ge_at_vv :: "u32 \<Rightarrow> u32 \<Rightarrow> u32 \<Rightarrow> rt \<Rightarrow> rt option" where "cel_dur_ge_at_vv = run_compare CEL_DURATION pred_ge"
definition cel_ts_lt_at_vv :: "u32 \<Rightarrow> u32 \<Rightarrow> u32 \<Rightarrow> rt \<Rightarrow> rt option" where "cel_ts_lt_at_vv = run_compare CEL_TIMESTAMP pred_lt"
definition cel_ts_le_at_vv :: "u32 \<Rightarrow> u32 \<Rightarrow> u32 \<Rightarrow> rt \<Rightarrow> rt option" where "cel_ts_le_at_vv = run_compare CEL_TIMESTAMP pred_le"
definition cel_ts_gt_at_vv :: "u32 \<Rightarrow> u32 \<Rightarrow> u32 \<Rightarrow> rt \<Rightarrow> rt option" where "cel_ts_gt_at_vv = run_compare CEL_TIMESTAMP pred_gt"
definition cel_ts_ge_at_vv :: "u32 \<Rightarrow> u32 \<Rightarrow> u32 \<Rightarrow> rt \<Rightarrow> rt option" where "cel_ts_ge_at_vv = run_compare CEL_TIMESTAMP pred_ge"

subsection \<open>Conversions and duration accessors\<close>

definition cel_ts_to_int_at_v :: "u32 \<Rightarrow> u32 \<Rightarrow> rt \<Rightarrow> rt option" where
  "cel_ts_to_int_at_v = strict_v CEL_TIMESTAMP (\<lambda>out a. write_int out (pl_seconds a))"

definition cel_dur_to_int_at_v :: "u32 \<Rightarrow> u32 \<Rightarrow> rt \<Rightarrow> rt option" where
  "cel_dur_to_int_at_v = strict_v CEL_DURATION (\<lambda>out a. write_int out (pl_seconds a))"

definition cel_int_to_ts_at_v :: "u32 \<Rightarrow> u32 \<Rightarrow> rt \<Rightarrow> rt option" where
  "cel_int_to_ts_at_v = strict_v CEL_INT (\<lambda>out a s.
     if \<not> timestamp_in_range (pl_i a) 0 then poison out CEL_ERR_OVERFLOW s
     else write_dur CEL_TIMESTAMP out \<lparr>dt_seconds = pl_i a, dt_nanos = 0\<rparr> s)"

definition cel_int_to_dur_at_v :: "u32 \<Rightarrow> u32 \<Rightarrow> rt \<Rightarrow> rt option" where
  "cel_int_to_dur_at_v = strict_v CEL_INT (\<lambda>out a s.
     if \<not> duration_in_range (pl_i a) 0 then poison out CEL_ERR_OVERFLOW s
     else write_dur CEL_DURATION out \<lparr>dt_seconds = pl_i a, dt_nanos = 0\<rparr> s)"

definition cel_dur_hours_at_v :: "u32 \<Rightarrow> u32 \<Rightarrow> rt \<Rightarrow> rt option" where
  "cel_dur_hours_at_v = strict_v CEL_DURATION (\<lambda>out a. write_int out (word_of_int (sint (pl_seconds a) sdiv 3600)))"

definition cel_dur_minutes_at_v :: "u32 \<Rightarrow> u32 \<Rightarrow> rt \<Rightarrow> rt option" where
  "cel_dur_minutes_at_v = strict_v CEL_DURATION (\<lambda>out a. write_int out (word_of_int (sint (pl_seconds a) sdiv 60)))"

definition cel_dur_seconds_at_v :: "u32 \<Rightarrow> u32 \<Rightarrow> rt \<Rightarrow> rt option" where
  "cel_dur_seconds_at_v = strict_v CEL_DURATION (\<lambda>out a. write_int out (pl_seconds a))"

definition cel_dur_milliseconds_at_v :: "u32 \<Rightarrow> u32 \<Rightarrow> rt \<Rightarrow> rt option" where
  "cel_dur_milliseconds_at_v = strict_v CEL_DURATION (\<lambda>out a. write_int out (word_of_int (sint (pl_nanos a) sdiv 1000000)))"

subsection \<open>Payloads as integers\<close>

definition nanos_of :: "cel_dur_ts \<Rightarrow> int" where
  "nanos_of r = sint (dt_seconds r) * NANOS_PER_SEC + sint (dt_nanos r)"

definition correlated :: "cel_dur_ts \<Rightarrow> bool" where
  "correlated r \<longleftrightarrow> \<bar>sint (dt_nanos r)\<bar> < NANOS_PER_SEC
     \<and> (0 < sint (dt_seconds r) \<longrightarrow> 0 \<le> sint (dt_nanos r)) \<and> (sint (dt_seconds r) < 0 \<longrightarrow> sint (dt_nanos r) \<le> 0)"

definition duration_ns :: "int \<Rightarrow> bool" where
  "duration_ns t \<longleftrightarrow> DURATION_MIN_SECONDS * NANOS_PER_SEC \<le> t \<and> t \<le> DURATION_MAX_SECONDS * NANOS_PER_SEC"

definition timestamp_ns :: "int \<Rightarrow> bool" where
  "timestamp_ns t \<longleftrightarrow> TIMESTAMP_MIN_SECONDS * NANOS_PER_SEC \<le> t \<and> t < (TIMESTAMP_MAX_SECONDS + 1) * NANOS_PER_SEC"

definition time_value :: "u32 \<Rightarrow> cel_value \<Rightarrow> int \<Rightarrow> bool" where
  "time_value k v t \<longleftrightarrow> cv_kind v = k \<and> correlated (pl_dur v) \<and> nanos_of (pl_dur v) = t"

definition time_or_overflow :: "u32 \<Rightarrow> bool \<Rightarrow> cel_value \<Rightarrow> int \<Rightarrow> bool" where
  "time_or_overflow k fits v t \<longleftrightarrow> (if fits then time_value k v t else is_err v CEL_ERR_OVERFLOW)"

lemma sint_word_of_int32: "- (2 ^ 31) \<le> i \<Longrightarrow> i \<le> 2 ^ 31 - 1 \<Longrightarrow> sint (word_of_int i :: u32) = i"
  by (simp add: sint_sbintrunc' signed_take_bit_int_eq_self)

lemma sint_plus32: "- (2 ^ 31) \<le> sint x + sint y \<Longrightarrow> sint x + sint y \<le> 2 ^ 31 - 1 \<Longrightarrow> sint ((x :: u32) + y) = sint x + sint y"
  using sint_word_of_int32 [of "sint x + sint y"] by (simp add: wi_hom_add)

lemma sint_minus32: "- (2 ^ 31) \<le> sint x - sint y \<Longrightarrow> sint x - sint y \<le> 2 ^ 31 - 1 \<Longrightarrow> sint ((x :: u32) - y) = sint x - sint y"
  using sint_word_of_int32 [of "sint x - sint y"] by (simp add: wi_hom_sub)

lemma sint_nanos [simp]: "sint (1000000000 :: u32) = NANOS_PER_SEC" "sint (1 :: u64) = 1" "sint (- 1 :: u64) = - 1"
  by simp_all

lemma carry_nanos_spec:
  assumes "\<bar>sint n\<bar> < 2 * NANOS_PER_SEC" "carry_nanos n = (n', c)"
  shows "\<bar>sint n'\<bar> < NANOS_PER_SEC" "sint n = sint c * NANOS_PER_SEC + sint n'" "sint c \<in> {-1, 0, 1}" "c = 0 \<longleftrightarrow> sint c = 0"
  using assms sint_minus32 [of n 1000000000] sint_plus32 [of n 1000000000]
  by (auto simp: carry_nanos_def split: if_splits)

lemma correlate_signs_spec:
  assumes "\<bar>sint n\<bar> < NANOS_PER_SEC"
  shows "correlated (correlate_signs q n)" "nanos_of (correlate_signs q n) = sint q * NANOS_PER_SEC + sint n"
proof -
  have m: "sint (q - 1) = sint q - 1" if "sint q > 0" using sint_minus64 [of q 1] that sint_range64 [of q] by simp
  have p: "sint (q + 1) = sint q + 1" if "sint q < 0" using sint_plus64 [of q 1] that sint_range64 [of q] by simp
  show "correlated (correlate_signs q n)" "nanos_of (correlate_signs q n) = sint q * NANOS_PER_SEC + sint n"
    using assms m p sint_minus32 [of n 1000000000] sint_plus32 [of n 1000000000]
    by (auto simp: correlate_signs_def correlated_def nanos_of_def)
qed

lemma dur_combine_exact:
  assumes "correlated a" "correlated b" "\<bar>sint (dt_seconds a)\<bar> < 2 ^ 61" "\<bar>sint (dt_seconds b)\<bar> < 2 ^ 61"
  shows "\<exists>r. dur_combine a b sub = Some r \<and> correlated r
    \<and> nanos_of r = (if sub then nanos_of a - nanos_of b else nanos_of a + nanos_of b)"
proof -
  define q where "q = (if sub then dt_seconds a - dt_seconds b else dt_seconds a + dt_seconds b)"
  define n where "n = (if sub then dt_nanos a - dt_nanos b else dt_nanos a + dt_nanos b)"
  obtain n' c where c: "carry_nanos n = (n', c)" by fastforce
  have q: "sint q = (if sub then sint (dt_seconds a) - sint (dt_seconds b) else sint (dt_seconds a) + sint (dt_seconds b))"
    using sint_minus64 [of "dt_seconds a" "dt_seconds b"] sint_plus64 [of "dt_seconds a" "dt_seconds b"] assms(3,4) by (simp add: q_def)
  have n: "sint n = (if sub then sint (dt_nanos a) - sint (dt_nanos b) else sint (dt_nanos a) + sint (dt_nanos b))"
  proof -
    have "\<bar>sint (dt_nanos a)\<bar> < NANOS_PER_SEC" "\<bar>sint (dt_nanos b)\<bar> < NANOS_PER_SEC" using assms(1,2) by (simp_all add: correlated_def)
    then have "- (2 ^ 31) \<le> sint (dt_nanos a) - sint (dt_nanos b)" "sint (dt_nanos a) - sint (dt_nanos b) \<le> 2 ^ 31 - 1"
      "- (2 ^ 31) \<le> sint (dt_nanos a) + sint (dt_nanos b)" "sint (dt_nanos a) + sint (dt_nanos b) \<le> 2 ^ 31 - 1" by simp_all
    then have "sint (dt_nanos a - dt_nanos b) = sint (dt_nanos a) - sint (dt_nanos b)"
      "sint (dt_nanos a + dt_nanos b) = sint (dt_nanos a) + sint (dt_nanos b)" by (simp_all only: sint_minus32 sint_plus32)
    then show ?thesis by (simp add: n_def)
  qed
  have "\<bar>sint n\<bar> < 2 * NANOS_PER_SEC" using n assms(1,2) by (auto simp: correlated_def split: if_splits)
  note k = carry_nanos_spec [OF this c]
  have qc: "sint (q + c) = sint q + sint c" using sint_plus64 [of q c] k(3) q assms(3,4) by (auto split: if_splits)
  have "\<bar>sint q\<bar> < 2 ^ 62" using q assms(3,4) by (auto split: if_splits)
  then have carry: "(if c \<noteq> 0 then add_overflow_i64 q c else Some q) = Some (q + c)"
    using k(3) by (auto simp: add_overflow_i64_def)
  have sec: "(if sub then sub_overflow_i64 (dt_seconds a) (dt_seconds b) else add_overflow_i64 (dt_seconds a) (dt_seconds b)) = Some q"
    using assms(3,4) by (auto simp: sub_overflow_i64_def add_overflow_i64_def q_def)
  have "dur_combine a b sub = Some (correlate_signs (q + c) n')"
    unfolding dur_combine_def sec n_def [symmetric] by (simp add: c carry)
  then show ?thesis
    using correlate_signs_spec [OF k(1), of "q + c"] k(2) qc q n by (auto simp: nanos_of_def algebra_simps)
qed

lemma correlated_seconds:
  assumes "correlated r"
  shows "\<bar>sint (dt_seconds r)\<bar> * NANOS_PER_SEC \<le> \<bar>nanos_of r\<bar>"
  using assms by (auto simp: correlated_def nanos_of_def)

lemma correlated_unique:
  assumes "correlated a" "correlated b" "nanos_of a = nanos_of b"
  shows "a = b"
proof -
  have "sint (dt_seconds a) = sint (dt_seconds b)" using assms by (auto simp: correlated_def nanos_of_def)
  then show ?thesis using assms(3) by (cases a, cases b) (auto simp: nanos_of_def intro: signed_word_eqI)
qed

lemma dur_compare_exact:
  assumes "correlated a" "correlated b"
  shows "dur_compare_lex a b = sgn (nanos_of a - nanos_of b)"
proof -
  have "sint (dt_seconds a) < sint (dt_seconds b) \<Longrightarrow> nanos_of a < nanos_of b"
    "sint (dt_seconds b) < sint (dt_seconds a) \<Longrightarrow> nanos_of b < nanos_of a"
    using assms by (auto simp: correlated_def nanos_of_def)
  moreover have "dt_seconds a \<noteq> dt_seconds b \<Longrightarrow> sint (dt_seconds a) < sint (dt_seconds b) \<or> sint (dt_seconds b) < sint (dt_seconds a)"
    by (metis linorder_neqE signed_word_eqI)
  moreover have "dt_nanos a \<noteq> dt_nanos b \<Longrightarrow> sint (dt_nanos a) < sint (dt_nanos b) \<or> sint (dt_nanos b) < sint (dt_nanos a)"
    by (metis linorder_neqE signed_word_eqI)
  ultimately show ?thesis
    by (auto simp: dur_compare_lex_def sgn_if nanos_of_def)
qed

lemma ranges_exact:
  assumes "correlated r"
  shows "timestamp_in_range (dt_seconds r) (dt_nanos r) \<longleftrightarrow> timestamp_ns (nanos_of r)"
    and "arith_duration_in_range (dt_seconds r) (dt_nanos r) \<longleftrightarrow> \<bar>nanos_of r\<bar> \<le> INT64_MAX"
    and "duration_in_range (dt_seconds r) (dt_nanos r) \<longleftrightarrow> duration_ns (nanos_of r)"
  using assms unfolding correlated_def nanos_of_def
  by (auto simp: timestamp_in_range_def timestamp_ns_def arith_duration_in_range_def duration_in_range_def payload_in_range_def duration_ns_def)

lemma pl_dur_write [simp]:
  "cv_kind (load_cv (mem (write_dur k out r s)) out) = k" "pl_dur (load_cv (mem (write_dur k out r s)) out) = r"
  by (simp_all add: write_dur_def pl_dur_def pl_defs mem_simps)

lemma only_cell_write_dur [simp]: "only_cell out s (write_dur k out r s)"
  unfolding write_dur_def
  by (rule only_cell_store)
    (rule same_outside_trans [OF same_outside_trans]; auto intro!: same_outside_store32 same_outside_store64)

subsection \<open>Kernels on well-formed times\<close>

definition time_ns :: "u32 \<Rightarrow> int \<Rightarrow> bool" where
  "time_ns k t \<longleftrightarrow> (if k = CEL_TIMESTAMP then timestamp_ns t else duration_ns t)"

definition result_fits :: "u32 \<Rightarrow> int \<Rightarrow> bool" where
  "result_fits k t \<longleftrightarrow> (if k = CEL_TIMESTAMP then timestamp_ns t else \<bar>t\<bar> \<le> INT64_MAX)"

lemma time_seconds_bound:
  assumes "time_value k v t" "time_ns k t"
  shows "\<bar>sint (dt_seconds (pl_dur v))\<bar> < 2 ^ 61"
proof -
  have "\<bar>t\<bar> \<le> 10 ^ 21" using assms(2) by (auto simp: time_ns_def timestamp_ns_def duration_ns_def split: if_splits)
  then show ?thesis using correlated_seconds [of "pl_dur v"] assms(1) by (auto simp: time_value_def)
qed

lemma run_arith_exact:
  assumes a: "time_value (want_a spec) (cv s a) x" "time_ns (want_a spec) x"
    and b: "time_value (want_b spec) (cv s b) y" "time_ns (want_b spec) y"
    and k: "want_a spec \<in> {CEL_DURATION, CEL_TIMESTAMP}" "want_b spec \<in> {CEL_DURATION, CEL_TIMESTAMP}"
      "result_kind spec \<in> {CEL_DURATION, CEL_TIMESTAMP}"
  defines "t \<equiv> (if subtract spec then x - y else x + y)"
  shows "\<exists>s'. run_arith spec out a b s = Some s' \<and> only_cell (cel_value_at out) s s'
    \<and> time_or_overflow (result_kind spec) (result_fits (result_kind spec) t) (cv s' out) t"
proof -
  have kinds: "cv_kind (cv s a) = want_a spec" "cv_kind (cv s b) = want_b spec"
    using a b by (simp_all add: time_value_def)
  obtain r where r: "dur_combine (pl_dur (cv s a)) (pl_dur (cv s b)) (subtract spec) = Some r" "correlated r" "nanos_of r = t"
    using dur_combine_exact [OF _ _ time_seconds_bound [OF a] time_seconds_bound [OF b], of "subtract spec"] a b
    by (auto simp: t_def time_value_def)
  have "run_arith spec out a b s = Some (if result_fits (result_kind spec) t then write_dur (result_kind spec) (cel_value_at out) r s
      else poison (cel_value_at out) CEL_ERR_OVERFLOW s)"
    using k r ranges_exact [OF r(2)]
    by (auto simp: run_arith_def absorb_3vl_binary_def require_kinds_2_def kinds result_fits_def)
  then show ?thesis
    using r(2,3) by (auto simp: time_or_overflow_def time_value_def is_err_poison)
qed

lemma run_compare_exact:
  assumes "time_value k (cv s a) x" "time_value k (cv s b) y" "k \<in> {CEL_DURATION, CEL_TIMESTAMP}"
  shows "run_compare k pred out a b s = Some (write_bool (cel_value_at out) (pred (sgn (x - y))) s)"
  using assms dur_compare_exact [of "pl_dur (cv s a)" "pl_dur (cv s b)"]
  by (auto simp: run_compare_def strict_vv_values time_value_def)

definition decides_bool :: "(u32 \<Rightarrow> u32 \<Rightarrow> u32 \<Rightarrow> rt \<Rightarrow> rt option) \<Rightarrow> u32 \<Rightarrow> u32 \<Rightarrow> u32 \<Rightarrow> rt \<Rightarrow> bool \<Rightarrow> bool" where
  "decides_bool kern out a b s c \<longleftrightarrow> (\<exists>s'. kern out a b s = Some s' \<and> only_cell (cel_value_at out) s s' \<and> is_bool (cv s' out) c)"

lemma decides_compare:
  assumes "time_value k (cv s a) x" "time_value k (cv s b) y" "k \<in> {CEL_DURATION, CEL_TIMESTAMP}"
  shows "decides_bool (run_compare k pred) out a b s (pred (sgn (x - y)))"
  using run_compare_exact [OF assms, of pred out] by (auto simp: decides_bool_def is_bool_write)

lemma pred_sgn [simp]:
  "pred_lt (sgn (x - y)) \<longleftrightarrow> x < y" "pred_le (sgn (x - y)) \<longleftrightarrow> x \<le> y"
  "pred_gt (sgn (x - y)) \<longleftrightarrow> y < x" "pred_ge (sgn (x - y)) \<longleftrightarrow> y \<le> x"
  by (auto simp: pred_lt_def pred_le_def pred_gt_def pred_ge_def sgn_if)

definition computes_time :: "u32 \<Rightarrow> (u32 \<Rightarrow> u32 \<Rightarrow> u32 \<Rightarrow> rt \<Rightarrow> rt option) \<Rightarrow> u32 \<Rightarrow> u32 \<Rightarrow> u32 \<Rightarrow> rt \<Rightarrow> int \<Rightarrow> bool" where
  "computes_time k kern out a b s t \<longleftrightarrow> (\<exists>s'. kern out a b s = Some s' \<and> only_cell (cel_value_at out) s s'
     \<and> time_or_overflow k (result_fits k t) (cv s' out) t)"

subsection \<open>Properties\<close>

text \<open>
  C19. Time arithmetic is exact: on durations and timestamps in their documented ranges the six
  kernels compute the exact number of nanoseconds, in the one sign-correlated form it has, when a
  timestamp result lies in the years 1 to 9999 and a duration result fits in 64 bits of nanoseconds,
  and the overflow error otherwise. Only the out slot changes.
\<close>

theorem time_arith_exact:
  assumes d: "time_value CEL_DURATION (cv s a) x" "duration_ns x" "time_value CEL_DURATION (cv s b) y" "duration_ns y"
    and t: "time_value CEL_TIMESTAMP (cv s p) u" "timestamp_ns u" "time_value CEL_TIMESTAMP (cv s q) v" "timestamp_ns v"
  shows "computes_time CEL_DURATION cel_dur_add_at_vv out a b s (x + y)
    \<and> computes_time CEL_DURATION cel_dur_sub_at_vv out a b s (x - y)
    \<and> computes_time CEL_TIMESTAMP cel_ts_dur_add_at_vv out p a s (u + x)
    \<and> computes_time CEL_TIMESTAMP cel_dur_ts_add_at_vv out a p s (x + u)
    \<and> computes_time CEL_TIMESTAMP cel_ts_dur_sub_at_vv out p a s (u - x)
    \<and> computes_time CEL_DURATION cel_ts_ts_sub_at_vv out p q s (u - v)"
proof -
  have ns: "time_ns CEL_DURATION x" "time_ns CEL_DURATION y" "time_ns CEL_TIMESTAMP u" "time_ns CEL_TIMESTAMP v"
    using d t by (simp_all add: time_ns_def)
  note defs = computes_time_def cel_dur_add_at_vv_def cel_dur_sub_at_vv_def cel_ts_dur_add_at_vv_def cel_dur_ts_add_at_vv_def
    cel_ts_dur_sub_at_vv_def cel_ts_ts_sub_at_vv_def
  show ?thesis
    unfolding defs
    using run_arith_exact [of "\<lparr>want_a = CEL_DURATION, want_b = CEL_DURATION, subtract = False, result_kind = CEL_DURATION\<rparr>" s a x b y out]
      run_arith_exact [of "\<lparr>want_a = CEL_DURATION, want_b = CEL_DURATION, subtract = True, result_kind = CEL_DURATION\<rparr>" s a x b y out]
      run_arith_exact [of "\<lparr>want_a = CEL_TIMESTAMP, want_b = CEL_DURATION, subtract = False, result_kind = CEL_TIMESTAMP\<rparr>" s p u a x out]
      run_arith_exact [of "\<lparr>want_a = CEL_DURATION, want_b = CEL_TIMESTAMP, subtract = False, result_kind = CEL_TIMESTAMP\<rparr>" s a x p u out]
      run_arith_exact [of "\<lparr>want_a = CEL_TIMESTAMP, want_b = CEL_DURATION, subtract = True, result_kind = CEL_TIMESTAMP\<rparr>" s p u a x out]
      run_arith_exact [of "\<lparr>want_a = CEL_TIMESTAMP, want_b = CEL_TIMESTAMP, subtract = True, result_kind = CEL_DURATION\<rparr>" s p u q v out]
      d t ns by simp
qed

definition time_cell :: "u32 \<Rightarrow> u64 \<Rightarrow> u32 \<Rightarrow> cel_value" where
  "time_cell k sec ns = \<lparr>cv_kind = k, cv_pad = 0, cv_lo = sec, cv_hi = join32 ns 0\<rparr>"

lemma pl_dur_time_cell [simp]: "cv_kind (time_cell k sec ns) = k" "pl_dur (time_cell k sec ns) = \<lparr>dt_seconds = sec, dt_nanos = ns\<rparr>"
  by (simp_all add: time_cell_def pl_dur_def pl_defs)

theorem time_arith_exact_witness:
  "computes_time CEL_TIMESTAMP cel_ts_dur_sub_at_vv 192 160 128
     (two_cells (time_cell CEL_DURATION 1 500000000) (time_cell CEL_TIMESTAMP 1 0)) (- 500000000)"
  using time_arith_exact [of "two_cells (time_cell CEL_DURATION 1 500000000) (time_cell CEL_TIMESTAMP 1 0)" 128 1500000000 128 1500000000
      160 1000000000 160 1000000000 192]
  by (simp add: time_value_def correlated_def nanos_of_def duration_ns_def timestamp_ns_def)

text \<open>
  Time ordering is the ordering of the instants: the eight comparison kernels decide the relation
  of the nanosecond counts of their operands.
\<close>

theorem time_order_exact:
  assumes d: "time_value CEL_DURATION (cv s a) x" "time_value CEL_DURATION (cv s b) y"
    and t: "time_value CEL_TIMESTAMP (cv s p) u" "time_value CEL_TIMESTAMP (cv s q) v"
  shows "decides_bool cel_dur_lt_at_vv out a b s (x < y) \<and> decides_bool cel_dur_le_at_vv out a b s (x \<le> y)
    \<and> decides_bool cel_dur_gt_at_vv out a b s (y < x) \<and> decides_bool cel_dur_ge_at_vv out a b s (y \<le> x)
    \<and> decides_bool cel_ts_lt_at_vv out p q s (u < v) \<and> decides_bool cel_ts_le_at_vv out p q s (u \<le> v)
    \<and> decides_bool cel_ts_gt_at_vv out p q s (v < u) \<and> decides_bool cel_ts_ge_at_vv out p q s (v \<le> u)"
proof -
  note D = decides_compare [OF d, of _ out, simplified] and T = decides_compare [OF t, of _ out, simplified]
  show ?thesis
    unfolding cel_dur_lt_at_vv_def cel_dur_le_at_vv_def cel_dur_gt_at_vv_def cel_dur_ge_at_vv_def
      cel_ts_lt_at_vv_def cel_ts_le_at_vv_def cel_ts_gt_at_vv_def cel_ts_ge_at_vv_def
    using D [of pred_lt] D [of pred_le] D [of pred_gt] D [of pred_ge] T [of pred_lt] T [of pred_le] T [of pred_gt] T [of pred_ge]
    by simp
qed

theorem time_order_exact_witness:
  "decides_bool cel_dur_lt_at_vv 192 128 128 (two_cells (time_cell CEL_DURATION 1 500000000) (time_cell CEL_TIMESTAMP 1 0)) False"
  using time_order_exact [of "two_cells (time_cell CEL_DURATION 1 500000000) (time_cell CEL_TIMESTAMP 1 0)" 128 1500000000 128 1500000000
      160 1000000000 160 1000000000 192]
  by (simp add: time_value_def correlated_def nanos_of_def)

end
