(* ===== verification/CelCivil.thy ===== *)
theory CelCivil
  imports CelTime
begin

subsection \<open>Calendar\<close>

record cel_civil =
  year :: int
  month_0 :: int
  day_1 :: int
  day_0 :: int
  hour :: int
  minute :: int
  second :: int
  day_of_year :: int
  day_of_week :: int

definition kCumulativeDaysBeforeMonthNonLeap :: "int list" where
  "kCumulativeDaysBeforeMonthNonLeap = [0, 31, 59, 90, 120, 151, 181, 212, 243, 273, 304, 334]"

definition kCumulativeDaysBeforeMonthLeap :: "int list" where
  "kCumulativeDaysBeforeMonthLeap = [0, 31, 60, 91, 121, 152, 182, 213, 244, 274, 305, 335]"

definition is_leap_year :: "int \<Rightarrow> bool" where
  "is_leap_year y =
     (if y smod 4 \<noteq> 0 then False else if y smod 100 \<noteq> 0 then True else if y smod 400 = 0 then True else False)"

definition split_days :: "int \<Rightarrow> int \<times> int" where
  "split_days epoch_seconds =
     (let d = epoch_seconds sdiv 86400; r = epoch_seconds - d * 86400 in
      if r < 0 then (d - 1, r + 86400) else (d, r))"

text \<open>
  The 64-bit steps cannot overflow (the day count is below \<open>2 ^ 47\<close> in size), and the \<open>uint32_t\<close>
  ones run on a day of the era, so both are integers; the year is truncated to \<open>int32_t\<close>.
\<close>

definition wrap_i32 :: "int \<Rightarrow> int" where "wrap_i32 i = sint (word_of_int i :: u32)"

definition year_of_era :: "int \<Rightarrow> int" where
  "year_of_era doe = (doe - doe div 1460 + doe div 36524 - doe div 146096) div 365"

definition month_day :: "int \<Rightarrow> int \<times> int" where
  "month_day doy =
     (let mp = (5 * doy + 2) div 153; d = doy - (153 * mp + 2) div 5 + 1; m = (if mp < 10 then mp + 3 else mp - 9)
      in (m, d))"

definition cel_civil_from_seconds :: "int \<Rightarrow> cel_civil" where
  "cel_civil_from_seconds epoch_seconds =
     (let (days, day_secs) = split_days epoch_seconds;
          z = days + 719468;
          era = (if z \<ge> 0 then z else z - 146096) sdiv 146097;
          doe = z - era * 146097;
          yoe = year_of_era doe;
          y = wrap_i32 (yoe + era * 400);
          doy = doe - (365 * yoe + yoe div 4 - yoe div 100);
          (m, d) = month_day doy;
          y = y + (if m \<le> 2 then 1 else 0);
          table = (if is_leap_year y then kCumulativeDaysBeforeMonthLeap else kCumulativeDaysBeforeMonthNonLeap)
      in \<lparr>year = y, month_0 = m - 1, day_1 = d, day_0 = d - 1,
          hour = day_secs div 3600, minute = day_secs mod 3600 div 60, second = day_secs mod 60,
          day_of_year = table ! nat (m - 1) + d - 1, day_of_week = (days smod 7 + 4 + 7) smod 7\<rparr>)"

definition ts_accessor :: "(cel_civil \<Rightarrow> int) \<Rightarrow> u32 \<Rightarrow> u32 \<Rightarrow> rt \<Rightarrow> rt option" where
  "ts_accessor projection = strict_v CEL_TIMESTAMP (\<lambda>out a.
     write_int out (word_of_int (projection (cel_civil_from_seconds (sint (pl_seconds a))))))"

definition cel_ts_year_utc_at_v :: "u32 \<Rightarrow> u32 \<Rightarrow> rt \<Rightarrow> rt option" where "cel_ts_year_utc_at_v = ts_accessor year"
definition cel_ts_month_utc_at_v :: "u32 \<Rightarrow> u32 \<Rightarrow> rt \<Rightarrow> rt option" where "cel_ts_month_utc_at_v = ts_accessor month_0"
definition cel_ts_day_of_month_1_utc_at_v :: "u32 \<Rightarrow> u32 \<Rightarrow> rt \<Rightarrow> rt option" where "cel_ts_day_of_month_1_utc_at_v = ts_accessor day_1"
definition cel_ts_day_of_month_utc_at_v :: "u32 \<Rightarrow> u32 \<Rightarrow> rt \<Rightarrow> rt option" where "cel_ts_day_of_month_utc_at_v = ts_accessor day_0"
definition cel_ts_day_of_year_utc_at_v :: "u32 \<Rightarrow> u32 \<Rightarrow> rt \<Rightarrow> rt option" where "cel_ts_day_of_year_utc_at_v = ts_accessor day_of_year"
definition cel_ts_day_of_week_utc_at_v :: "u32 \<Rightarrow> u32 \<Rightarrow> rt \<Rightarrow> rt option" where "cel_ts_day_of_week_utc_at_v = ts_accessor day_of_week"
definition cel_ts_hours_utc_at_v :: "u32 \<Rightarrow> u32 \<Rightarrow> rt \<Rightarrow> rt option" where "cel_ts_hours_utc_at_v = ts_accessor hour"
definition cel_ts_minutes_utc_at_v :: "u32 \<Rightarrow> u32 \<Rightarrow> rt \<Rightarrow> rt option" where "cel_ts_minutes_utc_at_v = ts_accessor minute"
definition cel_ts_seconds_utc_at_v :: "u32 \<Rightarrow> u32 \<Rightarrow> rt \<Rightarrow> rt option" where "cel_ts_seconds_utc_at_v = ts_accessor second"

definition cel_ts_milliseconds_utc_at_v :: "u32 \<Rightarrow> u32 \<Rightarrow> rt \<Rightarrow> rt option" where
  "cel_ts_milliseconds_utc_at_v = strict_v CEL_TIMESTAMP (\<lambda>out a.
     let n = sint (pl_nanos a); n = (if n < 0 then n + 1000000000 else n) in write_int out (word_of_int (n sdiv 1000000)))"

text \<open>
  The accessors with a time zone forward to one host import, the argument \<open>host\<close>, with the number
  of the field.
\<close>

type_synonym tz_host = "u32 \<Rightarrow> u32 \<Rightarrow> u32 \<Rightarrow> u32 \<Rightarrow> rt \<Rightarrow> rt option"

definition weak_tz_accessor :: tz_host where
  "weak_tz_accessor out_slot ts_slot tz_slot accessor_kind s = Some (poison (cel_value_at out_slot) CEL_ERR_TYPE_MISMATCH s)"

definition tz_accessor_shim :: "u32 \<Rightarrow> tz_host \<Rightarrow> u32 \<Rightarrow> u32 \<Rightarrow> u32 \<Rightarrow> rt \<Rightarrow> rt option" where
  "tz_accessor_shim kind host out_slot ts_slot tz_slot s = host out_slot ts_slot tz_slot kind s"

definition cel_ts_year_with_tz_at_vv :: "tz_host \<Rightarrow> u32 \<Rightarrow> u32 \<Rightarrow> u32 \<Rightarrow> rt \<Rightarrow> rt option" where "cel_ts_year_with_tz_at_vv = tz_accessor_shim 0"
definition cel_ts_month_with_tz_at_vv :: "tz_host \<Rightarrow> u32 \<Rightarrow> u32 \<Rightarrow> u32 \<Rightarrow> rt \<Rightarrow> rt option" where "cel_ts_month_with_tz_at_vv = tz_accessor_shim 1"
definition cel_ts_day_of_month_1_with_tz_at_vv :: "tz_host \<Rightarrow> u32 \<Rightarrow> u32 \<Rightarrow> u32 \<Rightarrow> rt \<Rightarrow> rt option" where "cel_ts_day_of_month_1_with_tz_at_vv = tz_accessor_shim 2"
definition cel_ts_day_of_month_with_tz_at_vv :: "tz_host \<Rightarrow> u32 \<Rightarrow> u32 \<Rightarrow> u32 \<Rightarrow> rt \<Rightarrow> rt option" where "cel_ts_day_of_month_with_tz_at_vv = tz_accessor_shim 3"
definition cel_ts_day_of_year_with_tz_at_vv :: "tz_host \<Rightarrow> u32 \<Rightarrow> u32 \<Rightarrow> u32 \<Rightarrow> rt \<Rightarrow> rt option" where "cel_ts_day_of_year_with_tz_at_vv = tz_accessor_shim 4"
definition cel_ts_day_of_week_with_tz_at_vv :: "tz_host \<Rightarrow> u32 \<Rightarrow> u32 \<Rightarrow> u32 \<Rightarrow> rt \<Rightarrow> rt option" where "cel_ts_day_of_week_with_tz_at_vv = tz_accessor_shim 5"
definition cel_ts_hours_with_tz_at_vv :: "tz_host \<Rightarrow> u32 \<Rightarrow> u32 \<Rightarrow> u32 \<Rightarrow> rt \<Rightarrow> rt option" where "cel_ts_hours_with_tz_at_vv = tz_accessor_shim 6"
definition cel_ts_minutes_with_tz_at_vv :: "tz_host \<Rightarrow> u32 \<Rightarrow> u32 \<Rightarrow> u32 \<Rightarrow> rt \<Rightarrow> rt option" where "cel_ts_minutes_with_tz_at_vv = tz_accessor_shim 7"
definition cel_ts_seconds_with_tz_at_vv :: "tz_host \<Rightarrow> u32 \<Rightarrow> u32 \<Rightarrow> u32 \<Rightarrow> rt \<Rightarrow> rt option" where "cel_ts_seconds_with_tz_at_vv = tz_accessor_shim 8"
definition cel_ts_milliseconds_with_tz_at_vv :: "tz_host \<Rightarrow> u32 \<Rightarrow> u32 \<Rightarrow> u32 \<Rightarrow> rt \<Rightarrow> rt option" where "cel_ts_milliseconds_with_tz_at_vv = tz_accessor_shim 9"

subsection \<open>A day of the 400-year era\<close>

definition year_days :: "int \<Rightarrow> int" where "year_days y = 365 * y + y div 4 - y div 100"

definition era_steps :: "int \<Rightarrow> int" where
  "era_steps doe = doe - doe div 1460 + doe div 36524 - doe div 146096"

lemma step_mono: "a' \<le> a + 1 \<Longrightarrow> b \<le> b' \<Longrightarrow> z = 0 \<Longrightarrow> z' = 0 \<Longrightarrow> d - a + b - z \<le> (d + 1) - a' + b' - (z' :: int)"
  by simp

lemma era_steps_mono1:
  assumes "0 \<le> d" "d < 146096"
  shows "era_steps d \<le> era_steps (d + 1)"
proof -
  have n: "(d + 1) div 1460 \<le> d div 1460 + 1"
    using zdiv_mono1 [of "d + 1" "d + 1460" 1460] by (simp add: div_add_self2)
  have c: "d div 36524 \<le> (d + 1) div 36524" by (rule zdiv_mono1) simp_all
  show ?thesis
  proof (cases "d = 146095")
    case True
    then show ?thesis by (simp add: era_steps_def)
  next
    case False
    then have "(d + 1) div 146096 = 0" "d div 146096 = 0" using assms by (simp_all add: div_pos_pos_trivial)
    then show ?thesis unfolding era_steps_def by (intro step_mono [OF n c])
  qed
qed

lemma era_steps_mono:
  assumes "0 \<le> d" "d \<le> e" "e \<le> 146096"
  shows "era_steps d \<le> era_steps e"
  using assms(2,3)
proof (induction e rule: int_ge_induct)
  case base
  then show ?case by simp
next
  case (step e)
  then show ?case using era_steps_mono1 [of e] assms(1) by linarith
qed

lemma year_of_era_mono: "0 \<le> d \<Longrightarrow> d \<le> e \<Longrightarrow> e \<le> 146096 \<Longrightarrow> year_of_era d \<le> year_of_era e"
  using era_steps_mono by (simp add: year_of_era_def era_steps_def zdiv_mono1)

lemma year_of_era_ends:
  "\<forall>y \<in> set [0..399]. year_of_era (year_days y) = y \<and> year_of_era (if y = 399 then 146096 else year_days (y + 1) - 1) = y"
  by code_simp

lemma year_days_bounds:
  assumes "0 \<le> y" "y \<le> 399"
  shows "0 \<le> year_days y" "year_days y \<le> 146096"
proof -
  have "0 \<le> y div 4" "y div 4 \<le> 399 div 4" "0 \<le> y div 100" "y div 100 \<le> y" using assms by (auto intro: zdiv_mono1)
  then show "0 \<le> year_days y" "year_days y \<le> 146096" using assms by (simp_all add: year_days_def)
qed

lemma year_of_era_spec:
  assumes "0 \<le> d" "d \<le> 146096"
  defines "y \<equiv> year_of_era d"
  shows "0 \<le> y" "y \<le> 399" "year_days y \<le> d" "y = 399 \<or> d < year_days (y + 1)"
proof -
  have lo: "year_of_era (year_days k) = k" if "0 \<le> k" "k \<le> 399" for k
    using bspec [OF year_of_era_ends, of k] that by (simp split: if_splits)
  have hi: "year_of_era (year_days (k + 1) - 1) = k" if "0 \<le> k" "k < 399" for k
    using bspec [OF year_of_era_ends, of k] that by (simp split: if_splits)
  have top: "year_of_era 146096 = 399" using bspec [OF year_of_era_ends, of 399] by simp
  have bot: "year_of_era 0 = 0" using lo [of 0] by (simp add: year_days_def)
  show y: "0 \<le> y" "y \<le> 399"
    using year_of_era_mono [of 0 d] year_of_era_mono [of d 146096] assms(1,2) bot top unfolding y_def by simp_all
  show "year_days y \<le> d"
  proof (rule ccontr)
    assume n: "\<not> year_days y \<le> d"
    then have "y \<noteq> 0" using assms(1) by (auto simp: year_days_def)
    then have k: "0 \<le> y - 1" "y - 1 < 399" using y by simp_all
    have "year_of_era d \<le> year_of_era (year_days (y - 1 + 1) - 1)"
      using n assms(1) year_days_bounds [of y] y by (intro year_of_era_mono) simp_all
    then show False using hi [OF k] by (simp add: y_def)
  qed
  show "y = 399 \<or> d < year_days (y + 1)"
  proof (rule ccontr)
    assume n: "\<not> (y = 399 \<or> d < year_days (y + 1))"
    then have k: "0 \<le> y + 1" "y + 1 \<le> 399" using y by simp_all
    have "year_of_era (year_days (y + 1)) \<le> year_of_era d"
      using n assms(2) year_days_bounds [OF k] by (intro year_of_era_mono) simp_all
    then show False using lo [OF k] by (simp add: y_def)
  qed
qed

subsection \<open>The proleptic Gregorian calendar\<close>

definition leap :: "int \<Rightarrow> bool" where
  "leap y \<longleftrightarrow> 4 dvd y \<and> (\<not> 100 dvd y \<or> 400 dvd y)"

definition month_lengths :: "bool \<Rightarrow> int list" where
  "month_lengths lp = [31, if lp then 29 else 28, 31, 30, 31, 30, 31, 31, 30, 31, 30, 31]"

definition month_start :: "bool \<Rightarrow> int \<Rightarrow> int" where
  "month_start lp m = sum_list (take (nat m) (month_lengths lp))"

text \<open>Days from the first day of year 0 to the first day of a year.\<close>

definition year_start :: "int \<Rightarrow> int" where
  "year_start y = 365 * y + (y + 3) div 4 - (y + 99) div 100 + (y + 399) div 400"

definition valid_date :: "int \<Rightarrow> int \<Rightarrow> int \<Rightarrow> bool" where
  "valid_date y m d \<longleftrightarrow> 0 \<le> m \<and> m < 12 \<and> 0 \<le> d \<and> d < month_lengths (leap y) ! nat m"

text \<open>Days since 1970-01-01 of a date, month and day counted from 0.\<close>

definition day_number :: "int \<Rightarrow> int \<Rightarrow> int \<Rightarrow> int" where
  "day_number y m d = year_start y + month_start (leap y) m + d - year_start 1970"

lemma is_leap_year_leap: "is_leap_year y = leap y"
proof -
  have "y smod k = 0 \<longleftrightarrow> k dvd y" if "0 < k" for k
  proof -
    have "k \<noteq> y mod k" using that by (metis less_irrefl pos_mod_bound)
    then show ?thesis using that by (auto simp: signed_modulo_int_def sgn_if dvd_eq_mod_eq_0 zmod_zminus1_eq_if)
  qed
  then show ?thesis by (auto simp: is_leap_year_def leap_def)
qed

lemma div_up:
  assumes "0 < n"
  shows "(y + (n - 1)) div n = y div n + of_bool (\<not> n dvd (y :: int))"
proof (cases "n dvd y")
  case True
  then have "y + (n - 1) = n * (y div n) + (n - 1)" by simp
  then have "(y + (n - 1)) div n = y div n" by (rule int_div_pos_eq) (use assms in simp_all)
  then show ?thesis using True by simp
next
  case False
  then have "y mod n \<noteq> 0" by (simp add: dvd_eq_mod_eq_0)
  then have r: "0 \<le> y mod n - 1" "y mod n - 1 < n"
    using pos_mod_bound [OF assms, of y] pos_mod_sign [OF assms, of y] by linarith+
  have "y + (n - 1) = n * (y div n + 1) + (y mod n - 1)"
    using mult_div_mod_eq [of n y] by (simp add: algebra_simps)
  then have "(y + (n - 1)) div n = y div n + 1" using r by (rule int_div_pos_eq)
  then show ?thesis using False by simp
qed

lemma year_start_march: "year_start y = 365 * y + y div 4 - y div 100 + y div 400 + 1 - of_bool (leap y)"
proof -
  have d: "400 dvd y \<Longrightarrow> 100 dvd y" "100 dvd y \<Longrightarrow> 4 dvd y"
    by (erule dvd_trans [rotated], simp)+
  have "year_start y = 365 * y + (y div 4 + of_bool (\<not> 4 dvd y)) - (y div 100 + of_bool (\<not> 100 dvd y)) + (y div 400 + of_bool (\<not> 400 dvd y))"
    using div_up [of 4 y] div_up [of 100 y] div_up [of 400 y] by (simp only: year_start_def) simp
  moreover have "of_bool (\<not> 4 dvd y) - of_bool (\<not> 100 dvd y) + of_bool (\<not> 400 dvd y) = (1 - of_bool (leap y) :: int)"
    using d by (auto simp only: leap_def of_bool_def if_True if_False split: if_splits)
  ultimately show ?thesis by linarith
qed

lemma year_start_next: "year_start (y + 1) = 365 * y + y div 4 - y div 100 + y div 400 + 366"
proof -
  have "(y + 1 + 3) div 4 = y div 4 + 1" "(y + 1 + 99) div 100 = y div 100 + 1" "(y + 1 + 399) div 400 = y div 400 + 1"
    by simp_all
  then show ?thesis by (simp add: year_start_def)
qed

lemma year_start_Suc: "year_start (y + 1) = year_start y + (if leap y then 366 else 365)"
  unfolding year_start_next year_start_march [of y] by simp

lemma month_tables:
  "\<forall>m \<in> set [0..11]. kCumulativeDaysBeforeMonthNonLeap ! nat m = month_start False m
     \<and> kCumulativeDaysBeforeMonthLeap ! nat m = month_start True m
     \<and> month_start True m = month_start False m + (if 2 \<le> m then 1 else 0)"
  by code_simp

lemma month_day_table:
  "\<forall>doy \<in> set [0..365]. case month_day doy of (m, d) \<Rightarrow>
     if doy < 306 then 3 \<le> m \<and> m \<le> 12 \<and> 1 \<le> d \<and> d \<le> month_lengths False ! nat (m - 1) \<and> month_start False (m - 1) + d = doy + 60
     else 1 \<le> m \<and> m \<le> 2 \<and> 1 \<le> d \<and> d \<le> (if doy = 365 then 29 else month_lengths False ! nat (m - 1)) \<and> (doy = 365 \<longrightarrow> m = 2)
       \<and> month_start False (m - 1) + d = doy - 305"
  by code_simp

lemma month_day_spec:
  assumes "0 \<le> doy" "doy \<le> 365" "month_day doy = (m, d)"
  shows "doy < 306 \<Longrightarrow> 3 \<le> m \<and> m \<le> 12 \<and> 1 \<le> d \<and> d \<le> month_lengths False ! nat (m - 1) \<and> month_start False (m - 1) + d = doy + 60"
    and "306 \<le> doy \<Longrightarrow> 1 \<le> m \<and> m \<le> 2 \<and> 1 \<le> d \<and> d \<le> (if doy = 365 then 29 else month_lengths False ! nat (m - 1)) \<and> (doy = 365 \<longrightarrow> m = 2)
       \<and> month_start False (m - 1) + d = doy - 305"
  using bspec [OF month_day_table, of doy] assms by simp_all

lemma month_lengths_le: "0 \<le> m \<Longrightarrow> m < 12 \<Longrightarrow> month_lengths False ! nat m \<le> month_lengths lp ! nat m"
proof -
  have "\<forall>m \<in> set [0..11]. month_lengths False ! nat m \<le> month_lengths lp ! nat m"
    by (simp add: upto_rec1 month_lengths_def nth_Cons')
  then show "0 \<le> m \<Longrightarrow> m < 12 \<Longrightarrow> ?thesis" by simp
qed

lemma month_start_leap:
  assumes "0 \<le> m" "m < 12"
  shows "month_start True m = month_start False m + (if 2 \<le> m then 1 else 0)"
  using bspec [OF month_tables, of m] assms by simp

lemma era_years:
  "(y + e * 400) div 4 = y div 4 + e * 100" "(y + e * 400) div 100 = y div 100 + e * 4" "(y + e * 400) div 400 = y div 400 + (e :: int)"
  "leap (y + e * 400) = leap y"
proof -
  have "(y + e * 400) div n = y div n + e * (400 div n)" if "n dvd 400" "n \<noteq> 0" for n
    using that by (metis div_mult_self4 div_plus_div_distrib_dvd_right div_mult_swap dvd_mult)
  from this [of 4] this [of 100] this [of 400]
  show "(y + e * 400) div 4 = y div 4 + e * 100" "(y + e * 400) div 100 = y div 100 + e * 4" "(y + e * 400) div 400 = y div 400 + e" by simp_all
  have "n dvd y + e * 400 \<longleftrightarrow> n dvd y" if "n dvd 400" for n using that by (simp add: dvd_add_left_iff)
  from this [of 4] this [of 100] this [of 400] show "leap (y + e * 400) = leap y" by (simp add: leap_def)
qed

lemma div_next: "0 < n \<Longrightarrow> (k + 1) div n = k div n + of_bool (n dvd k + (1 :: int))"
  using div_up [of n "k + 1"] by (auto simp: of_bool_def div_add_self2 split: if_splits)

text \<open>The date of a day of an era.\<close>

lemma era_day_date:
  fixes e :: int
  assumes doe: "0 \<le> doe" "doe \<le> 146096" and md: "month_day (doe - year_days (year_of_era doe)) = (m, d)"
  defines "y \<equiv> year_of_era doe + e * 400 + (if m \<le> 2 then 1 else 0)"
  shows "valid_date y (m - 1) (d - 1) \<and> day_number y (m - 1) (d - 1) = e * 146097 + doe - 719468"
proof -
  define k where "k = year_of_era doe"
  define doy where "doy = doe - year_days k"
  note sp = year_of_era_spec [OF doe, folded k_def]
  have k400: "k div 400 = 0" using sp(1,2) by simp
  have next_year: "year_days (k + 1) = year_days k + 365 + of_bool (4 dvd k + 1) - of_bool (100 dvd k + 1)"
    unfolding year_days_def div_next [of 4 k, simplified] div_next [of 100 k, simplified] by simp
  have doy: "0 \<le> doy" "doy \<le> 365" "doy = 365 \<longrightarrow> leap (k + 1)"
  proof -
    have "doy \<le> 365 \<and> (doy = 365 \<longrightarrow> leap (k + 1))"
    proof (cases "k = 399")
      case True
      then show ?thesis using doe by (simp add: doy_def year_days_def leap_def)
    next
      case False
      then have "doy < 365 + of_bool (4 dvd k + 1) - of_bool (100 dvd k + 1)" using sp(4) next_year by (simp add: doy_def)
      then show ?thesis by (auto simp: leap_def of_bool_def split: if_splits)
    qed
    then show "0 \<le> doy" "doy \<le> 365" "doy = 365 \<longrightarrow> leap (k + 1)" using sp(3) by (simp_all add: doy_def)
  qed
  have days: "doe = 365 * k + k div 4 - k div 100 + doy" by (simp add: doy_def year_days_def)
  note ms = month_day_spec [OF doy(1,2), OF md [folded k_def, folded doy_def]]
  have base: "year_start 1970 = 719528" by (simp add: year_start_def)
  show ?thesis
  proof (cases "doy < 306")
    case True
    have m: "y = k + e * 400" "0 \<le> m - 1" "m - 1 < 12" "2 \<le> m - 1" using ms(1) [OF True] by (simp_all add: y_def k_def)
    have st: "month_start (leap y) (m - 1) = month_start False (m - 1) + of_bool (leap y)"
      using month_start_leap [OF m(2,3)] m(4) by (simp add: of_bool_def)
    have "year_start y = 365 * k + e * 146000 + (k div 4 + e * 100) - (k div 100 + e * 4) + e + 1 - of_bool (leap y)"
      unfolding m(1) year_start_march era_years k400 by simp
    then have "day_number y (m - 1) (d - 1) = e * 146097 + doe - 719468"
      using ms(1) [OF True] unfolding day_number_def base st days by simp
    then show ?thesis
      using ms(1) [OF True] month_lengths_le [OF m(2,3), of "leap y"] by (simp add: valid_date_def)
  next
    case False
    then have ms2: "1 \<le> m" "m \<le> 2" "1 \<le> d" "d \<le> (if doy = 365 then 29 else month_lengths False ! nat (m - 1))"
      "doy = 365 \<longrightarrow> m = 2" "month_start False (m - 1) + d = doy - 305" using ms(2) by simp_all
    have m: "y = (k + 1) + e * 400" "0 \<le> m - 1" "m - 1 < 12" "m - 1 < 2" using ms2 by (simp_all add: y_def k_def)
    have st: "month_start (leap y) (m - 1) = month_start False (m - 1)"
      using month_start_leap [OF m(2,3)] m(4) by (cases "leap y") simp_all
    have "year_start y = year_start ((k + e * 400) + 1)" by (simp add: m(1) algebra_simps)
    also have "\<dots> = 365 * k + e * 146000 + (k div 4 + e * 100) - (k div 100 + e * 4) + e + 366"
      unfolding year_start_next era_years k400 by simp
    finally have "day_number y (m - 1) (d - 1) = e * 146097 + doe - 719468"
      using ms2 unfolding day_number_def base st days by simp
    moreover have "d \<le> month_lengths (leap y) ! nat (m - 1)"
    proof (cases "doy = 365")
      case True
      then have "leap y" using doy(3) unfolding m(1) era_years by simp
      then show ?thesis using True ms2 by (simp add: month_lengths_def)
    next
      case False
      then show ?thesis using ms2 month_lengths_le [OF m(2,3), of "leap y"] by simp
    qed
    ultimately show ?thesis using ms2 m by (simp add: valid_date_def)
  qed
qed

subsection \<open>Fields of an instant\<close>

lemma sdiv_pos: "0 < k \<Longrightarrow> x sdiv k = (if 0 \<le> x then x div k else - (- x div k))" for x k :: int
  by (auto simp: signed_divide_int_def sgn_if)

lemma smod_nonneg: "0 \<le> x \<Longrightarrow> 0 < k \<Longrightarrow> x smod k = x mod k" for x k :: int
  by (auto simp: signed_modulo_int_def sgn_if)

lemma split_days_floor: "split_days t = (t div 86400, t mod 86400)"
proof (cases "0 \<le> t")
  case True
  have "\<not> t mod 86400 < 0" by simp
  then show ?thesis
    using True by (simp only: split_days_def sdiv_pos Let_def minus_div_mult_eq_mod if_True if_False zero_less_numeral)
next
  case False
  have "split_days t = (let d = - (- t div 86400); r = t - d * 86400 in if r < 0 then (d - 1, r + 86400) else (d, r))"
    using False by (simp add: split_days_def sdiv_pos)
  moreover have "t - - (- t div 86400) * 86400 = - (- t mod 86400)"
    using minus_div_mult_eq_mod [of "- t" 86400] by simp
  moreover have "0 \<le> - t mod 86400" by simp
  ultimately show ?thesis
    using zdiv_zminus1_eq_if [of 86400 "- t"] zmod_zminus1_eq_if [of "- t" 86400] by (auto simp: Let_def)
qed

lemma era_floor: "(if z \<ge> 0 then z else z - 146096) sdiv 146097 = (z :: int) div 146097"
proof (cases "0 \<le> z")
  case True
  then show ?thesis by (simp add: sdiv_pos)
next
  case False
  have "(- z + 146096) div 146097 = - z div 146097 + of_bool (\<not> 146097 dvd - z)" using div_up [of 146097 "- z"] by simp
  then show ?thesis using False zdiv_zminus1_eq_if [of 146097 "- z"] by (auto simp: sdiv_pos dvd_eq_mod_eq_0)
qed

lemma weekday: "(days smod 7 + 4 + 7) smod 7 = ((days :: int) + 4) mod 7"
proof -
  have r: "- 7 < days smod 7" "days smod 7 = days mod 7 \<or> days smod 7 = days mod 7 - 7"
    using pos_mod_bound [of 7 days] pos_mod_sign [of 7 "- days"] pos_mod_bound [of 7 "- days"] zmod_zminus1_eq_if [of "- days" 7]
    by (auto simp: signed_modulo_int_def sgn_if)
  then have "(days smod 7 + 4 + 7) smod 7 = (days smod 7 + 4 + 7) mod 7" by (intro smod_nonneg) simp_all
  also have "\<dots> = (days mod 7 + 4) mod 7" using r(2) mod_add_self2 [of "days mod 7 + 4" 7] by (auto simp: add.commute simp del: mod_add_self2)
  finally show ?thesis by (simp add: mod_simps)
qed

definition civil_of :: "cel_civil \<Rightarrow> int \<Rightarrow> bool" where
  "civil_of c t \<longleftrightarrow> valid_date (year c) (month_0 c) (day_0 c) \<and> day_number (year c) (month_0 c) (day_0 c) = t div 86400
     \<and> day_1 c = day_0 c + 1 \<and> hour c \<in> {0..23} \<and> minute c \<in> {0..59} \<and> second c \<in> {0..59}
     \<and> hour c * 3600 + minute c * 60 + second c = t mod 86400
     \<and> day_of_year c = month_start (leap (year c)) (month_0 c) + day_0 c \<and> day_of_week c = (t div 86400 + 4) mod 7"

lemma time_of_day:
  assumes "0 \<le> r" "r < 86400"
  shows "r div 3600 \<in> {0..23}" "r mod 3600 div 60 \<in> {0..59}" "r mod 60 \<in> {0..59}"
    "r div 3600 * 3600 + r mod 3600 div 60 * 60 + r mod 60 = (r :: int)"
proof -
  show "r div 3600 \<in> {0..23}" using assms zdiv_mono1 [of r 86399 3600] by (simp add: pos_imp_zdiv_nonneg_iff)
  have "0 \<le> r mod 3600" "r mod 3600 \<le> 3599" using pos_mod_bound [of 3600 r] by simp_all
  then show "r mod 3600 div 60 \<in> {0..59}" using zdiv_mono1 [of "r mod 3600" 3599 60] by (simp add: pos_imp_zdiv_nonneg_iff)
  show "r mod 60 \<in> {0..59}" using pos_mod_bound [of 60 r] by simp
  have m: "r mod 60 = r mod 3600 mod 60" by (rule mod_mod_cancel [symmetric]) simp
  show "r div 3600 * 3600 + r mod 3600 div 60 * 60 + r mod 60 = r"
    unfolding m by (simp only: add.assoc div_mult_mod_eq)
qed

lemma wrap_i32_id: "\<bar>i\<bar> < 2 ^ 31 \<Longrightarrow> wrap_i32 i = i"
  unfolding wrap_i32_def by (rule sint_word_of_int32) auto

lemma let_eq: "x = v \<Longrightarrow> f v = r \<Longrightarrow> Let x f = r"
  by simp

lemma let_pair_eq: "p = (a, b) \<Longrightarrow> f a b = r \<Longrightarrow> (let (x, y) = p in f x y) = r"
  by simp

lemma civil_correct:
  assumes "\<bar>t\<bar> < 2 ^ 54"
  shows "civil_of (cel_civil_from_seconds t) t"
proof -
  define z where "z = t div 86400 + 719468"
  define e where "e = z div 146097"
  define doe where "doe = z - e * 146097"
  define k where "k = year_of_era doe"
  obtain m d where md: "month_day (doe - year_days k) = (m, d)" by fastforce
  have doe: "0 \<le> doe" "doe \<le> 146096"
    using minus_div_mult_eq_mod [of z 146097] pos_mod_bound [of 146097 z] pos_mod_sign [of 146097 z] by (simp_all add: doe_def e_def)
  note date = era_day_date [OF doe md [unfolded k_def], of e, folded k_def]
  have tb: "- (2 ^ 54) \<le> t" "t \<le> 2 ^ 54" using assms by simp_all
  have "t div 86400 \<le> 2 ^ 54 div 86400" "- (2 ^ 54) div 86400 \<le> t div 86400"
    by (rule zdiv_mono1 [OF tb(2)], simp) (rule zdiv_mono1 [OF tb(1)], simp)
  then have "- 208505715000 \<le> z" "z \<le> 208505715000" by (simp_all add: z_def)
  then have "- 208505715000 div 146097 \<le> e" "e \<le> 208505715000 div 146097" unfolding e_def by (intro zdiv_mono1; simp)+
  then have wrap: "wrap_i32 (k + e * 400) = k + e * 400"
    using year_of_era_spec(1,2) [OF doe] by (intro wrap_i32_id) (simp add: k_def)
  define y where "y = k + e * 400 + (if m \<le> 2 then 1 else 0)"
  have valid: "valid_date y (m - 1) (d - 1)" "day_number y (m - 1) (d - 1) = t div 86400"
    using date by (simp_all add: y_def doe_def z_def)
  define c where "c = cel_civil_from_seconds t"
  have facts: "t div 86400 + 719468 = z" "(if z \<ge> 0 then z else z - 146096) sdiv 146097 = e" "z - e * 146097 = doe" "year_of_era doe = k"
    "doe - (365 * k + k div 4 - k div 100) = doe - year_days k" "month_day (doe - year_days k) = (m, d)"
    "wrap_i32 (k + e * 400) = k + e * 400" "k + e * 400 + (if m \<le> 2 then 1 else 0) = y"
    using md wrap by (simp_all only: z_def e_def doe_def k_def y_def year_days_def era_floor)
  have c: "c = \<lparr>year = y, month_0 = m - 1, day_1 = d, day_0 = d - 1,
      hour = t mod 86400 div 3600, minute = t mod 86400 mod 3600 div 60, second = t mod 86400 mod 60,
      day_of_year = (if is_leap_year y then kCumulativeDaysBeforeMonthLeap else kCumulativeDaysBeforeMonthNonLeap) ! nat (m - 1) + d - 1,
      day_of_week = (t div 86400 smod 7 + 4 + 7) smod 7\<rparr>"
    unfolding c_def cel_civil_from_seconds_def
    by (rule let_pair_eq [OF split_days_floor], rule let_eq [OF facts(1)], rule let_eq [OF facts(2)], rule let_eq [OF facts(3)],
        rule let_eq [OF facts(4)], rule let_eq [OF facts(7)], rule let_eq [OF facts(5)], rule let_pair_eq [OF facts(6)],
        rule let_eq [OF facts(8)], rule let_eq [OF refl], rule refl)
  have table: "(if is_leap_year y then kCumulativeDaysBeforeMonthLeap else kCumulativeDaysBeforeMonthNonLeap) ! nat (m - 1) = month_start (leap y) (m - 1)"
    using bspec [OF month_tables, of "m - 1"] valid(1) by (simp add: is_leap_year_leap valid_date_def)
  have f: "year c = y" "month_0 c = m - 1" "day_1 c = d" "day_0 c = d - 1" "hour c = t mod 86400 div 3600"
    "minute c = t mod 86400 mod 3600 div 60" "second c = t mod 86400 mod 60" "day_of_week c = (t div 86400 + 4) mod 7"
    "day_of_year c = month_start (leap y) (m - 1) + (d - 1)"
    unfolding c table weekday by (simp_all only: cel_civil.simps add_diff_eq)
  have "0 \<le> t mod 86400" "t mod 86400 < 86400" by simp_all
  note td = time_of_day [OF this]
  show ?thesis
    unfolding c_def [symmetric] civil_of_def f by (intro conjI valid td refl) simp
qed

subsection \<open>A date has one day number\<close>

lemma year_start_step: "year_start y + 365 \<le> year_start (y + 1)"
  by (simp add: year_start_Suc)

lemma year_start_later:
  assumes "y + 1 \<le> y'"
  shows "year_start (y + 1) \<le> year_start y'"
  using assms
proof (induction y' rule: int_ge_induct)
  case base
  then show ?case by simp
next
  case (step z)
  then show ?case using year_start_step [of z] by linarith
qed

lemma month_start_later:
  "\<forall>m \<in> set [0..11]. \<forall>m' \<in> set [0..11]. m < m' \<longrightarrow> month_start lp m + month_lengths lp ! nat m \<le> month_start lp m'"
  "\<forall>m \<in> set [0..11]. 0 \<le> month_start lp m \<and> month_start lp m + month_lengths lp ! nat m \<le> (if lp then 366 else 365)"
  by (cases lp; simp only:; code_simp)+

lemma valid_date_unique:
  assumes "valid_date y m d" "valid_date y' m' d'" "day_number y m d = day_number y' m' d'"
  shows "y = y' \<and> m = m' \<and> d = d'"
proof -
  have r: "0 \<le> month_start (leap z) k + e \<and> month_start (leap z) k + e < (if leap z then 366 else 365)" if "valid_date z k e" for z k e
    using bspec [OF month_start_later(2), of k "leap z"] that by (auto simp: valid_date_def)
  have eq: "year_start y + (month_start (leap y) m + d) = year_start y' + (month_start (leap y') m' + d')"
    using assms(3) by (simp add: day_number_def)
  have "\<not> a < b" if "valid_date a k e" "year_start a + (month_start (leap a) k + e) = year_start b + (month_start (leap b) k' + e')"
    "valid_date b k' e'" for a k e b k' e'
    using r [OF that(1)] r [OF that(3)] that(2) year_start_later [of a b] year_start_Suc [of a] by auto
  from this [OF assms(1) eq assms(2)] this [OF assms(2) eq [symmetric] assms(1)] have y: "y = y'" by simp
  then have md: "month_start (leap y) m + d = month_start (leap y) m' + d'" using eq by simp
  have "\<not> a < b" if "valid_date y a e" "month_start (leap y) a + e = month_start (leap y) b + e'" "valid_date y b e'" for a b e e'
    using bspec [OF bspec [OF month_start_later(1), of a "leap y"], of b] that by (auto simp: valid_date_def)
  from this [OF assms(1) md] this [OF _ md [symmetric]] assms(1,2) y have "m = m'" by (metis linorder_neqE)
  then show ?thesis using y md by simp
qed

lemma timestamp_second_bound:
  assumes "timestamp_ns u" "correlated r" "nanos_of r = u"
  shows "\<bar>sint (dt_seconds r)\<bar> < 2 ^ 54"
  using correlated_seconds [OF assms(2)] assms(1,3) by (auto simp: timestamp_ns_def)

lemma year_range_bound:
  assumes "valid_date y m d" "1 \<le> y" "y \<le> 9999"
  shows "- 719162 \<le> day_number y m d" "day_number y m d \<le> 2932896"
proof -
  have r: "0 \<le> month_start (leap y) m + d" "month_start (leap y) m + d < (if leap y then 366 else 365)"
    using bspec [OF month_start_later(2), of m "leap y"] assms(1) by (auto simp: valid_date_def)
  have s: "year_start 1 = 366" "year_start 10000 = 3652425" "year_start 1970 = 719528" by (simp_all add: year_start_def)
  have "year_start 1 \<le> year_start y" using year_start_later [of 0 y] assms(2) by simp
  moreover have "year_start (y + 1) \<le> year_start 10000" using year_start_later [of y 10000] assms(3) by simp
  ultimately show "- 719162 \<le> day_number y m d" "day_number y m d \<le> 2932896"
    using r year_start_Suc [of y] unfolding day_number_def s by (auto split: if_splits)
qed

lemma clock_unique:
  fixes h mi sec h' mi' sec' :: int
  assumes "h * 3600 + mi * 60 + sec = h' * 3600 + mi' * 60 + sec'"
    and "mi \<in> {0..59}" "sec \<in> {0..59}" "mi' \<in> {0..59}" "sec' \<in> {0..59}"
  shows "h = h' \<and> mi = mi' \<and> sec = sec'"
proof -
  have b: "0 \<le> mi" "mi \<le> 59" "0 \<le> sec" "sec \<le> 59" "0 \<le> mi'" "mi' \<le> 59" "0 \<le> sec'" "sec' \<le> 59" using assms(2-5) by simp_all
  have h: "h = h'" using assms(1) b by linarith
  have m: "mi = mi'" using assms(1) b h by linarith
  then show ?thesis using assms(1) h by simp
qed

subsection \<open>Properties\<close>

text \<open>
  C20. The calendar conversion is the proleptic Gregorian calendar: within two to the 54 seconds of 1970
  the fields form a valid date with the day number of the instant and a valid time of day with its
  second of the day, and the day of the year and the weekday are those of that date.
\<close>

theorem civil_fields_exact:
  assumes "\<bar>t\<bar> < 2 ^ 54"
  shows "civil_of (cel_civil_from_seconds t) t"
  using assms by (rule civil_correct)

theorem civil_fields_exact_witness: "civil_of (cel_civil_from_seconds (- 62135596800)) (- 62135596800)"
  using civil_fields_exact [of "- 62135596800"] by simp

text \<open>
  Calendar round trip: from the second of any date of the years 1 to 9999 (the documented timestamp
  range) at any time of day, the conversion returns that date and that time.
\<close>

theorem civil_roundtrip:
  assumes "valid_date y m d" "1 \<le> y" "y \<le> 9999" "h \<in> {0..23}" "mi \<in> {0..59}" "sec \<in> {0..59}"
  defines "c \<equiv> cel_civil_from_seconds (day_number y m d * 86400 + (h * 3600 + mi * 60 + sec))"
  shows "year c = y \<and> month_0 c = m \<and> day_0 c = d \<and> day_1 c = d + 1 \<and> hour c = h \<and> minute c = mi \<and> second c = sec"
proof -
  define r where "r = h * 3600 + mi * 60 + sec"
  have r: "0 \<le> r" "r < 86400" using assms(4-6) by (simp_all add: r_def)
  let ?t = "day_number y m d * 86400 + r"
  have q: "?t div 86400 = day_number y m d" "?t mod 86400 = r"
    using r by (simp_all add: div_pos_pos_trivial mod_pos_pos_trivial)
  have "\<bar>?t\<bar> < 2 ^ 54" using year_range_bound [OF assms(1-3)] r by (simp add: abs_less_iff)
  then have c: "civil_of c ?t" unfolding c_def r_def [symmetric] by (rule civil_correct)
  then have date: "year c = y \<and> month_0 c = m \<and> day_0 c = d"
    by (intro valid_date_unique [OF _ assms(1)]) (simp_all add: civil_of_def q)
  have "hour c * 3600 + minute c * 60 + second c = h * 3600 + mi * 60 + sec"
    "hour c \<in> {0..23}" "minute c \<in> {0..59}" "second c \<in> {0..59}" "day_1 c = day_0 c + 1"
    using c [unfolded civil_of_def q] by (simp_all only: r_def)
  then show ?thesis using date assms(4-6) clock_unique [of "hour c" "minute c" "second c" h mi sec] by simp
qed

theorem civil_roundtrip_witness:
  "(let c = cel_civil_from_seconds (day_number 2024 1 28 * 86400 + (23 * 3600 + 59 * 60 + 59)) in
    year c = 2024 \<and> month_0 c = 1 \<and> day_0 c = 28 \<and> day_1 c = 29 \<and> hour c = 23 \<and> minute c = 59 \<and> second c = 59)"
  using civil_roundtrip [of 2024 1 28 23 59 59] by (simp add: valid_date_def leap_def month_lengths_def Let_def)

definition projects :: "(u32 \<Rightarrow> u32 \<Rightarrow> rt \<Rightarrow> rt option) \<Rightarrow> u32 \<Rightarrow> u32 \<Rightarrow> rt \<Rightarrow> int \<Rightarrow> bool" where
  "projects kern out a s i \<longleftrightarrow> (\<exists>s'. kern out a s = Some s' \<and> only_cell (cel_value_at out) s s' \<and> is_int (cv s' out) i)"

lemma ts_accessor_projects:
  assumes "cv_kind (cv s a) = CEL_TIMESTAMP" "INT64_MIN \<le> i" "i \<le> INT64_MAX"
    and "proj (cel_civil_from_seconds (sint (pl_seconds (cv s a)))) = i"
  shows "projects (ts_accessor proj) out a s i"
  using assms is_int_write [of "cel_value_at out" "word_of_int i" s] sint_word_of_int64 [OF assms(2,3)]
  by (simp add: projects_def ts_accessor_def strict_v_value)

definition whole_seconds :: "int \<Rightarrow> int" where
  "whole_seconds u = (if 0 \<le> u \<or> NANOS_PER_SEC dvd u then u div NANOS_PER_SEC else u div NANOS_PER_SEC + 1)"

lemma correlated_split:
  assumes "correlated r" "nanos_of r = u"
  shows "sint (dt_seconds r) = whole_seconds u"
    and "(if sint (dt_nanos r) < 0 then sint (dt_nanos r) + NANOS_PER_SEC else sint (dt_nanos r)) = u mod NANOS_PER_SEC"
proof -
  let ?s = "sint (dt_seconds r)" and ?n = "sint (dt_nanos r)"
  have n: "\<bar>?n\<bar> < NANOS_PER_SEC" "0 < ?s \<longrightarrow> 0 \<le> ?n" "?s < 0 \<longrightarrow> ?n \<le> 0" using assms(1) by (simp_all add: correlated_def)
  have u: "u = NANOS_PER_SEC * ?s + ?n" using assms(2) by (simp add: nanos_of_def)
  have "?s = whole_seconds u \<and> (if ?n < 0 then ?n + NANOS_PER_SEC else ?n) = u mod NANOS_PER_SEC"
  proof (cases "?n < 0")
    case True
    have e: "u = NANOS_PER_SEC * (?s - 1) + (?n + NANOS_PER_SEC)" using u by simp
    have b: "0 \<le> ?n + NANOS_PER_SEC" "?n + NANOS_PER_SEC < NANOS_PER_SEC" using True n by simp_all
    have q: "u div NANOS_PER_SEC = ?s - 1" "u mod NANOS_PER_SEC = ?n + NANOS_PER_SEC"
      by (rule int_div_pos_eq [OF e b], rule int_mod_pos_eq [OF e b])
    have "u < 0" using True n u by (cases "0 < ?s") simp_all
    then show ?thesis using True q n by (simp add: whole_seconds_def dvd_eq_mod_eq_0)
  next
    case False
    have q: "u div NANOS_PER_SEC = ?s" "u mod NANOS_PER_SEC = ?n"
      using False n by (auto intro!: int_div_pos_eq [OF u] int_mod_pos_eq [OF u])
    have "0 \<le> u \<or> ?n = 0" using False n u by (cases "?s < 0") auto
    then show ?thesis using False q by (auto simp: whole_seconds_def dvd_eq_mod_eq_0)
  qed
  then show "?s = whole_seconds u" "(if ?n < 0 then ?n + NANOS_PER_SEC else ?n) = u mod NANOS_PER_SEC" by simp_all
qed

lemma civil_field_ranges:
  assumes "civil_of c t" "TIMESTAMP_MIN_SECONDS \<le> t" "t \<le> TIMESTAMP_MAX_SECONDS"
  shows "year c \<in> {1..9999}" "month_0 c \<in> {0..11}" "day_0 c \<in> {0..30}" "day_of_year c \<in> {0..365}" "day_of_week c \<in> {0..6}"
proof -
  have v: "valid_date (year c) (month_0 c) (day_0 c)" using assms(1) by (simp add: civil_of_def)
  then show m: "month_0 c \<in> {0..11}" by (auto simp: valid_date_def)
  have "\<forall>m \<in> set [0..11]. month_lengths lp ! nat m \<le> 31" for lp by (cases lp; simp only:; code_simp)
  from bspec [OF this, of "month_0 c" "leap (year c)"] v m show "day_0 c \<in> {0..30}" by (simp add: valid_date_def)
  have yd: "0 \<le> month_start (leap (year c)) (month_0 c) + day_0 c"
    "month_start (leap (year c)) (month_0 c) + day_0 c < (if leap (year c) then 366 else 365)"
    using bspec [OF month_start_later(2), of "month_0 c" "leap (year c)"] v m by (auto simp: valid_date_def)
  then show "day_of_year c \<in> {0..365}" using assms(1) by (simp add: civil_of_def split: if_splits)
  show "day_of_week c \<in> {0..6}" using assms(1) pos_mod_bound [of 7 "t div 86400 + 4"] by (simp add: civil_of_def)
  have "TIMESTAMP_MIN_SECONDS div 86400 \<le> t div 86400" "t div 86400 \<le> TIMESTAMP_MAX_SECONDS div 86400"
    by (rule zdiv_mono1 [OF assms(2)], simp) (rule zdiv_mono1 [OF assms(3)], simp)
  then have t: "- 719162 \<le> t div 86400" "t div 86400 \<le> 2932896" by simp_all
  have s: "year_start 1 = 366" "year_start 10000 = 3652425" "year_start 1970 = 719528" by (simp_all add: year_start_def)
  have ys: "year_start (year c) + (month_start (leap (year c)) (month_0 c) + day_0 c) = t div 86400 + 719528"
    using assms(1) by (simp add: civil_of_def day_number_def s(3))
  have "year c < 10000" using year_start_later [of 9999 "year c"] ys yd(1) t(2) s by (cases "year c < 10000") simp_all
  moreover have "1 \<le> year c"
    using year_start_later [of "year c" 1] ys yd(2) t(1) s year_start_Suc [of "year c"] by (cases "1 \<le> year c") (simp_all split: if_splits)
  ultimately show "year c \<in> {1..9999}" by simp
qed

text \<open>
  The UTC accessors of a timestamp in its documented range return the calendar fields of one and the
  same second and never trap. That second is the instant rounded toward zero: for an instant before 1970
  with a fraction of a second it is the second after the one the instant lies in, although the
  milliseconds are those of the second it lies in.
\<close>

theorem utc_accessors_fields:
  assumes "time_value CEL_TIMESTAMP (cv s a) u" "timestamp_ns u"
  shows "\<exists>c. civil_of c (whole_seconds u)
    \<and> projects cel_ts_year_utc_at_v out a s (year c) \<and> projects cel_ts_month_utc_at_v out a s (month_0 c)
    \<and> projects cel_ts_day_of_month_1_utc_at_v out a s (day_1 c) \<and> projects cel_ts_day_of_month_utc_at_v out a s (day_0 c)
    \<and> projects cel_ts_day_of_year_utc_at_v out a s (day_of_year c) \<and> projects cel_ts_day_of_week_utc_at_v out a s (day_of_week c)
    \<and> projects cel_ts_hours_utc_at_v out a s (hour c) \<and> projects cel_ts_minutes_utc_at_v out a s (minute c)
    \<and> projects cel_ts_seconds_utc_at_v out a s (second c)
    \<and> projects cel_ts_milliseconds_utc_at_v out a s (u mod NANOS_PER_SEC div 1000000)"
proof -
  let ?r = "pl_dur (cv s a)"
  have k: "cv_kind (cv s a) = CEL_TIMESTAMP" and r: "correlated ?r" "nanos_of ?r = u" using assms(1) by (simp_all add: time_value_def)
  note sp = correlated_split [OF r]
  have sec: "sint (pl_seconds (cv s a)) = whole_seconds u" using sp(1) by (simp add: pl_dur_def)
  have range: "TIMESTAMP_MIN_SECONDS \<le> whole_seconds u" "whole_seconds u \<le> TIMESTAMP_MAX_SECONDS"
    using assms(2) r sp(1) by (auto simp: timestamp_ns_def correlated_def nanos_of_def)
  define c where "c = cel_civil_from_seconds (whole_seconds u)"
  have c: "civil_of c (whole_seconds u)" unfolding c_def using range by (intro civil_correct) (simp add: abs_less_iff)
  note f = civil_field_ranges [OF c range]
  have f2: "day_1 c = day_0 c + 1" "hour c \<in> {0..23}" "minute c \<in> {0..59}" "second c \<in> {0..59}" using c by (simp_all add: civil_of_def)
  have p: "projects (ts_accessor proj) out a s (proj c)" if "INT64_MIN \<le> proj c" "proj c \<le> INT64_MAX" for proj
    using that by (intro ts_accessor_projects [OF k]) (simp_all add: sec c_def)
  have m0: "0 \<le> u mod NANOS_PER_SEC" "u mod NANOS_PER_SEC \<le> 999999999" using pos_mod_bound [of NANOS_PER_SEC u] by simp_all
  have m: "0 \<le> u mod NANOS_PER_SEC div 1000000" "u mod NANOS_PER_SEC div 1000000 \<le> 999"
    using m0 zdiv_mono1 [OF m0(2), of 1000000] by (simp_all add: pos_imp_zdiv_nonneg_iff)
  have n: "(if sint (pl_nanos (cv s a)) < 0 then sint (pl_nanos (cv s a)) + 1000000000 else sint (pl_nanos (cv s a))) = u mod NANOS_PER_SEC"
    using sp(2) unfolding pl_dur_def by (simp only: cel_dur_ts.simps)
  have ms: "u mod NANOS_PER_SEC sdiv 1000000 = u mod NANOS_PER_SEC div 1000000" using m0 by (simp only: sdiv_pos if_True zero_less_numeral)
  have "cel_ts_milliseconds_utc_at_v out a s = Some (write_int (cel_value_at out) (word_of_int (u mod NANOS_PER_SEC div 1000000)) s)"
    unfolding cel_ts_milliseconds_utc_at_v_def by (subst strict_v_value [OF k]) (simp_all only: Let_def n ms, simp_all)
  then have "projects cel_ts_milliseconds_utc_at_v out a s (u mod NANOS_PER_SEC div 1000000)"
    using m is_int_write [of "cel_value_at out" "word_of_int (u mod NANOS_PER_SEC div 1000000)" s]
      sint_word_of_int64 [of "u mod NANOS_PER_SEC div 1000000"]
    by (simp add: projects_def)
  then show ?thesis
    unfolding cel_ts_year_utc_at_v_def cel_ts_month_utc_at_v_def cel_ts_day_of_month_1_utc_at_v_def cel_ts_day_of_month_utc_at_v_def
      cel_ts_day_of_year_utc_at_v_def cel_ts_day_of_week_utc_at_v_def cel_ts_hours_utc_at_v_def cel_ts_minutes_utc_at_v_def
      cel_ts_seconds_utc_at_v_def
    using f f2 by (intro exI [of _ c] conjI c p) simp_all
qed

theorem utc_accessors_fields_witness:
  "\<exists>c. civil_of c 0 \<and> projects cel_ts_year_utc_at_v 192 128 (two_cells (time_cell CEL_TIMESTAMP 0 (- 500000000)) (cell_of CEL_INT 0)) (year c)"
  using utc_accessors_fields [of "two_cells (time_cell CEL_TIMESTAMP 0 (- 500000000)) (cell_of CEL_INT 0)" 128 "- 500000000" 192]
  by (auto simp: time_value_def correlated_def nanos_of_def timestamp_ns_def whole_seconds_def)

end
