(* ===== verification/MathExt.thy ===== *)
theory MathExt
  imports Lists
begin

text \<open>
  The \<open>math\<close> extension (\<open>runtime/cel_math_ext.c\<close>): rounding, float predicates, magnitude and sign,
  square root, bitwise operations, and minimum and maximum. The functions of the C library's
  \<open>math.h\<close> are written on the integer model of binary64.
\<close>

subsection \<open>Functions of math.h\<close>

text \<open>Rounding to an integer: the flag says when a magnitude between two integers goes up.\<close>

definition d_integral :: "(bool \<Rightarrow> nat \<Rightarrow> bool) \<Rightarrow> u64 \<Rightarrow> u64" where
  "d_integral up x =
     (if d_isnan x then d_nan else if d_isinf x then x
      else d_round (d_neg_sign x) ((d_mag x div d_unit + (if up (d_neg_sign x) (d_mag x mod d_unit) then 1 else 0)) * d_unit) 1)"

definition d_ceil :: "u64 \<Rightarrow> u64" where "d_ceil = d_integral (\<lambda>neg r. \<not> neg \<and> 0 < r)"
definition d_floor :: "u64 \<Rightarrow> u64" where "d_floor = d_integral (\<lambda>neg r. neg \<and> 0 < r)"
definition d_round_half :: "u64 \<Rightarrow> u64" where "d_round_half = d_integral (\<lambda>neg r. d_unit \<le> 2 * r)"
definition d_truncate :: "u64 \<Rightarrow> u64" where "d_truncate = d_integral (\<lambda>neg r. False)"

definition d_isfinite :: "u64 \<Rightarrow> bool" where "d_isfinite x \<longleftrightarrow> \<not> d_isnan x \<and> \<not> d_isinf x"

definition d_fabs :: "u64 \<Rightarrow> u64" where "d_fabs x = take_bit 63 x"

fun isqrt :: "nat \<Rightarrow> nat" where
  "isqrt n = (if n = 0 then 0 else let r = 2 * isqrt (n div 4) in if (r + 1) * (r + 1) \<le> n then r + 1 else r)"

declare isqrt.simps [simp del]

text \<open>
  The square root of a magnitude, with a last bit that says whether it is inexact: the root has more
  than 500 bits, so the bit never takes part in the 53 that are kept.
\<close>

definition d_sqrt :: "u64 \<Rightarrow> u64" where
  "d_sqrt x =
     (if d_isnan x then d_nan else if d_mag x = 0 then x else if d_neg_sign x then d_nan else if d_isinf x then x
      else (let n = d_mag x * d_unit; r = isqrt n in d_round False (2 * r + (if r * r = n then 0 else 1)) 2))"

subsection \<open>Scalar kernels\<close>

definition cel_math_ceil_at_v :: "u32 \<Rightarrow> u32 \<Rightarrow> rt \<Rightarrow> rt option" where
  "cel_math_ceil_at_v = strict_v CEL_DOUBLE (\<lambda>out v. write_double out (d_ceil (pl_d v)))"

definition cel_math_floor_at_v :: "u32 \<Rightarrow> u32 \<Rightarrow> rt \<Rightarrow> rt option" where
  "cel_math_floor_at_v = strict_v CEL_DOUBLE (\<lambda>out v. write_double out (d_floor (pl_d v)))"

definition cel_math_round_at_v :: "u32 \<Rightarrow> u32 \<Rightarrow> rt \<Rightarrow> rt option" where
  "cel_math_round_at_v = strict_v CEL_DOUBLE (\<lambda>out v. write_double out (d_round_half (pl_d v)))"

definition cel_math_trunc_at_v :: "u32 \<Rightarrow> u32 \<Rightarrow> rt \<Rightarrow> rt option" where
  "cel_math_trunc_at_v = strict_v CEL_DOUBLE (\<lambda>out v. write_double out (d_truncate (pl_d v)))"

definition cel_math_is_inf_at_v :: "u32 \<Rightarrow> u32 \<Rightarrow> rt \<Rightarrow> rt option" where
  "cel_math_is_inf_at_v = strict_v CEL_DOUBLE (\<lambda>out v. write_bool out (d_isinf (pl_d v)))"

definition cel_math_is_nan_at_v :: "u32 \<Rightarrow> u32 \<Rightarrow> rt \<Rightarrow> rt option" where
  "cel_math_is_nan_at_v = strict_v CEL_DOUBLE (\<lambda>out v. write_bool out (d_isnan (pl_d v)))"

definition cel_math_is_finite_at_v :: "u32 \<Rightarrow> u32 \<Rightarrow> rt \<Rightarrow> rt option" where
  "cel_math_is_finite_at_v = strict_v CEL_DOUBLE (\<lambda>out v. write_bool out (d_isfinite (pl_d v)))"

definition cel_math_abs_at_v :: "u32 \<Rightarrow> u32 \<Rightarrow> rt \<Rightarrow> rt option" where
  "cel_math_abs_at_v out_slot v_slot s =
     (let out = cel_value_at out_slot; (wrote, s) = absorb_3vl_unary out (cel_value_at v_slot) s; v = cv s v_slot in
      if wrote then Some s
      else if cv_kind v = CEL_INT then
        (if pl_i v = I64_MIN_BITS then Some (poison out CEL_ERR_OVERFLOW s)
         else Some (write_int out (if sint (pl_i v) < 0 then - pl_i v else pl_i v) s))
      else if cv_kind v = CEL_UINT then Some (write_uint out (pl_u v) s)
      else if cv_kind v = CEL_DOUBLE then Some (write_double out (d_fabs (pl_d v)) s)
      else Some (poison out CEL_ERR_TYPE_MISMATCH s))"

definition cel_math_sign_at_v :: "u32 \<Rightarrow> u32 \<Rightarrow> rt \<Rightarrow> rt option" where
  "cel_math_sign_at_v out_slot v_slot s =
     (let out = cel_value_at out_slot; (wrote, s) = absorb_3vl_unary out (cel_value_at v_slot) s; v = cv s v_slot in
      if wrote then Some s
      else if cv_kind v = CEL_INT then
        Some (write_int out (if sint (pl_i v) < 0 then -1 else if sint (pl_i v) > 0 then 1 else 0) s)
      else if cv_kind v = CEL_UINT then Some (write_uint out (if pl_u v = 0 then 0 else 1) s)
      else if cv_kind v = CEL_DOUBLE then
        (let d = pl_d v in
         if d_isnan d then Some (write_double out d s)
         else if d_eq d (d_of_int 0) then Some (write_double out (d_of_int 0) s)
         else Some (write_double out (if d_neg_sign d then d_of_int (-1) else d_of_int 1) s))
      else Some (poison out CEL_ERR_TYPE_MISMATCH s))"

definition cel_math_sqrt_at_v :: "u32 \<Rightarrow> u32 \<Rightarrow> rt \<Rightarrow> rt option" where
  "cel_math_sqrt_at_v out_slot v_slot s =
     (let out = cel_value_at out_slot; (wrote, s) = absorb_3vl_unary out (cel_value_at v_slot) s; v = cv s v_slot in
      if wrote then Some s
      else if cv_kind v = CEL_INT then Some (write_double out (d_sqrt (d_of_int (sint (pl_i v)))) s)
      else if cv_kind v = CEL_UINT then Some (write_double out (d_sqrt (d_of_int (uint (pl_u v)))) s)
      else if cv_kind v = CEL_DOUBLE then Some (write_double out (d_sqrt (pl_d v)) s)
      else Some (poison out CEL_ERR_TYPE_MISMATCH s))"

subsection \<open>Bitwise kernels\<close>

text \<open>The binary ones share their shape and differ in the operator.\<close>

definition bit_kernel :: "(u64 \<Rightarrow> u64 \<Rightarrow> u64) \<Rightarrow> kernel2" where
  "bit_kernel op out_slot a_slot b_slot s =
     (let out = cel_value_at out_slot in do {
        (wrote, s) \<leftarrow> absorb_3vl_binary out (cel_value_at a_slot) (cel_value_at b_slot) s;
        let a = cv s a_slot; let b = cv s b_slot;
        if wrote then Some s
        else if cv_kind a = CEL_INT \<and> cv_kind b = CEL_INT then Some (write_int out (op (pl_i a) (pl_i b)) s)
        else if cv_kind a = CEL_UINT \<and> cv_kind b = CEL_UINT then Some (write_uint out (op (pl_u a) (pl_u b)) s)
        else Some (poison out CEL_ERR_TYPE_MISMATCH s)
      })"

definition cel_math_bit_and_at_vv :: kernel2 where "cel_math_bit_and_at_vv = bit_kernel (\<lambda>x y. x AND y)"
definition cel_math_bit_or_at_vv :: kernel2 where "cel_math_bit_or_at_vv = bit_kernel (\<lambda>x y. x OR y)"
definition cel_math_bit_xor_at_vv :: kernel2 where "cel_math_bit_xor_at_vv = bit_kernel (\<lambda>x y. x XOR y)"

definition cel_math_bit_not_at_v :: "u32 \<Rightarrow> u32 \<Rightarrow> rt \<Rightarrow> rt option" where
  "cel_math_bit_not_at_v out_slot v_slot s =
     (let out = cel_value_at out_slot; (wrote, s) = absorb_3vl_unary out (cel_value_at v_slot) s; v = cv s v_slot in
      if wrote then Some s
      else if cv_kind v = CEL_INT then Some (write_int out (NOT (pl_i v)) s)
      else if cv_kind v = CEL_UINT then Some (write_uint out (NOT (pl_u v)) s)
      else Some (poison out CEL_ERR_TYPE_MISMATCH s))"

definition math_shift_offset :: "nat \<Rightarrow> cel_value \<Rightarrow> rt \<Rightarrow> nat option \<times> rt" where
  "math_shift_offset out n s =
     (if cv_kind n \<noteq> CEL_INT then (None, poison out CEL_ERR_TYPE_MISMATCH s)
      else if sint (pl_i n) < 0 then (None, poison out CEL_ERR_INVALID_ARGUMENT s)
      else (Some (nat (sint (pl_i n))), s))"

definition shift_kernel :: "(nat \<Rightarrow> u64 \<Rightarrow> u64) \<Rightarrow> kernel2" where
  "shift_kernel op out_slot x_slot n_slot s =
     (let out = cel_value_at out_slot in do {
        (wrote, s) \<leftarrow> absorb_3vl_binary out (cel_value_at x_slot) (cel_value_at n_slot) s;
        if wrote then Some s
        else (let x = cv s x_slot in
          case math_shift_offset out (cv s n_slot) s of
            (None, s) \<Rightarrow> Some s
          | (Some shift, s) \<Rightarrow>
              if cv_kind x = CEL_INT then Some (write_int out (if shift > 63 then 0 else op shift (pl_i x)) s)
              else if cv_kind x = CEL_UINT then Some (write_uint out (if shift > 63 then 0 else op shift (pl_u x)) s)
              else Some (poison out CEL_ERR_TYPE_MISMATCH s))
      })"

definition cel_math_bit_shift_left_at_vv :: kernel2 where "cel_math_bit_shift_left_at_vv = shift_kernel push_bit"
definition cel_math_bit_shift_right_at_vv :: kernel2 where "cel_math_bit_shift_right_at_vv = shift_kernel drop_bit"

subsection \<open>Minimum and maximum\<close>

definition math_minmax_replaces :: "cel_value \<Rightarrow> cel_value \<Rightarrow> bool \<Rightarrow> bool" where
  "math_minmax_replaces best cand want_greater =
     (let c = numeric_compare_kernel best cand in if want_greater then c = CmpLess else c = CmpGreater)"

definition math_minmax_binary :: "bool \<Rightarrow> kernel2" where
  "math_minmax_binary want_greater out_slot a_slot b_slot s =
     (let out = cel_value_at out_slot in do {
        (wrote, s) \<leftarrow> absorb_3vl_binary out (cel_value_at a_slot) (cel_value_at b_slot) s;
        let a = cv s a_slot; let b = cv s b_slot;
        if wrote then Some s
        else if \<not> is_numeric_kind (cv_kind a) \<or> \<not> is_numeric_kind (cv_kind b) then Some (poison out CEL_ERR_TYPE_MISMATCH s)
        else Some (copy_cv out (cel_value_at (if math_minmax_replaces a b want_greater then b_slot else a_slot)) s)
      })"

definition cel_math_min_at_vv :: kernel2 where "cel_math_min_at_vv = math_minmax_binary False"
definition cel_math_max_at_vv :: kernel2 where "cel_math_max_at_vv = math_minmax_binary True"

definition math_arena_list_element :: "memory \<Rightarrow> u32 \<Rightarrow> nat \<Rightarrow> nat" where
  "math_arena_list_element m header_ptr i = unat (list_elements m (unat header_ptr)) + i * 24"

definition math_arena_list_count :: "memory \<Rightarrow> u32 \<Rightarrow> nat" where
  "math_arena_list_count m header_ptr = (if header_ptr = 0 then 0 else unat (list_count m (unat header_ptr)))"

text \<open>The walk over the elements ends with an error, a propagated element, or the best one.\<close>

function math_minmax_from :: "memory \<Rightarrow> u32 \<Rightarrow> bool \<Rightarrow> nat \<Rightarrow> nat \<Rightarrow> cel_value \<Rightarrow> u32 + cel_value" where
  "math_minmax_from m header_ptr want_greater count i best =
     (if \<not> i < count then Inr best
      else (let e = load_cv m (math_arena_list_element m header_ptr i) in
        if cv_kind e = CEL_ERROR \<or> cv_kind e = CEL_UNKNOWN then Inr e
        else if \<not> is_numeric_kind (cv_kind e) then Inl CEL_ERR_TYPE_MISMATCH
        else math_minmax_from m header_ptr want_greater count (i + 1)
          (if i \<noteq> 0 \<and> math_minmax_replaces best e want_greater then e else best)))"
  by pat_completeness auto
termination by (relation "measure (\<lambda>(m, hp, g, count, i, b). count - i)") auto

declare math_minmax_from.simps [simp del]

definition math_minmax_list :: "cel_host \<Rightarrow> cel_value \<Rightarrow> bool \<Rightarrow> u32 \<Rightarrow> u32 \<Rightarrow> rt \<Rightarrow> rt option" where
  "math_minmax_list h junk want_greater out_slot list_slot s =
     (let out = cel_value_at out_slot; (wrote, s) = absorb_3vl_unary out (cel_value_at list_slot) s; l = cv s list_slot in
      if wrote then Some s
      else if cv_kind l \<noteq> CEL_LIST_ARENA \<and> cv_kind l \<noteq> CEL_LIST_HOST then Some (poison out CEL_ERR_TYPE_MISMATCH s)
      else do {
        (view_slot, s) \<leftarrow> cel_list_arena_view h junk list_slot s;
        let header_ptr = pl_header_ptr (cv s view_slot);
        let count = math_arena_list_count (mem s) header_ptr;
        if count = 0 then Some (poison out CEL_ERR_INVALID_ARGUMENT s)
        else (case math_minmax_from (mem s) header_ptr want_greater count 0 (load_cv (mem s) (math_arena_list_element (mem s) header_ptr 0)) of
            Inl e \<Rightarrow> Some (poison out e s)
          | Inr v \<Rightarrow> Some (s\<lparr>mem := store_cv (mem s) out v\<rparr>))
      })"

definition cel_math_min_list_at_v :: "cel_host \<Rightarrow> cel_value \<Rightarrow> u32 \<Rightarrow> u32 \<Rightarrow> rt \<Rightarrow> rt option" where
  "cel_math_min_list_at_v h junk = math_minmax_list h junk False"

definition cel_math_max_list_at_v :: "cel_host \<Rightarrow> cel_value \<Rightarrow> u32 \<Rightarrow> u32 \<Rightarrow> rt \<Rightarrow> rt option" where
  "cel_math_max_list_at_v h junk = math_minmax_list h junk True"

subsection \<open>Rounding is exact\<close>

lemma d_integral_val:
  assumes fin: "d_isfinite x" and up: "\<And>neg. \<not> up neg 0"
  defines "n \<equiv> d_mag x div d_unit + (if up (d_neg_sign x) (d_mag x mod d_unit) then 1 else 0)"
  shows "\<not> d_isnan (d_integral up x)" "d_val (d_integral up x) = (if d_neg_sign x then - int n else int n) * int d_unit"
proof -
  have code: "d_code x < INF_CODE" using fin by (simp add: d_isfinite_def d_isnan_def d_isinf_def)
  have "\<exists>c \<le> INF_CODE. mag_of_code c = n * d_unit"
  proof (cases "d_unit dvd d_mag x")
    case True
    then have "n * d_unit = d_mag x" using up by (simp add: n_def dvd_eq_mod_eq_0)
    then show ?thesis using code by (intro exI [of _ "d_code x"]) (simp add: d_mag_def)
  next
    case False
    then have "d_mag x < P52 * d_unit" using non_integral_small [of "d_code x"] by (simp add: d_mag_def)
    then have "d_mag x div d_unit < P52" by (rule less_mult_imp_div_less)
    then have "n < 2 * P52" by (simp add: n_def)
    then show ?thesis by (rule small_int_code)
  qed
  then obtain c where c: "c \<le> INF_CODE" "mag_of_code c = n * d_unit" by blast
  have e: "d_integral up x = d_round (d_neg_sign x) (n * d_unit) 1"
    using fin by (simp add: d_integral_def d_isfinite_def n_def)
  show "\<not> d_isnan (d_integral up x)" unfolding e by (rule d_round_not_nan)
  have "d_val (d_round (d_neg_sign x) (n * d_unit) 1) = (if d_neg_sign x then - int (mag_of_code c) else int (mag_of_code c))"
    by (rule d_val_round_exact) (use c in auto)
  then show "d_val (d_integral up x) = (if d_neg_sign x then - int n else int n) * int d_unit"
    unfolding e c(2) by simp
qed

definition is_integral :: "cel_value \<Rightarrow> int \<Rightarrow> bool" where
  "is_integral v i \<longleftrightarrow> cv_kind v = CEL_DOUBLE \<and> \<not> d_isnan (pl_d v) \<and> d_val (pl_d v) = i * int d_unit"

definition half_away :: "int \<Rightarrow> int \<Rightarrow> int" where
  "half_away x k = sgn x * ((2 * \<bar>x\<bar> + k) div (2 * k))"

lemma quotients:
  fixes m k :: nat
  assumes "0 < k"
  shows "- (- int m div int k) = int (m div k + (if 0 < m mod k then 1 else 0))"
    and "(2 * int m + int k) div (2 * int k) = int (m div k + (if k \<le> 2 * (m mod k) then 1 else 0))"
proof -
  show "- (- int m div int k) = int (m div k + (if 0 < m mod k then 1 else 0))"
    using assms zdiv_zminus1_eq_if [of "int k" "int m"] by (auto simp: zdiv_int zmod_int)
  have m: "int m = int k * int (m div k) + int (m mod k)" by (metis mult_div_mod_eq of_nat_add of_nat_mult)
  have r: "m mod k < k" using assms by simp
  show "(2 * int m + int k) div (2 * int k) = int (m div k + (if k \<le> 2 * (m mod k) then 1 else 0))"
  proof (cases "k \<le> 2 * (m mod k)")
    case True
    have "2 * int m + int k = (2 * int k) * (int (m div k) + 1) + (2 * int (m mod k) - int k)"
      unfolding m by (simp add: algebra_simps)
    then have "(2 * int m + int k) div (2 * int k) = int (m div k) + 1"
      by (rule int_div_pos_eq) (use True r in linarith)+
    then show ?thesis using True by simp
  next
    case False
    have "2 * int m + int k = (2 * int k) * int (m div k) + (2 * int (m mod k) + int k)"
      unfolding m by (simp add: algebra_simps)
    then have "(2 * int m + int k) div (2 * int k) = int (m div k)"
      by (rule int_div_pos_eq) (use False r in linarith)+
    then show ?thesis using False by simp
  qed
qed

lemma rounding_vals:
  assumes fin: "d_isfinite x"
  shows "d_val (d_ceil x) = - (- d_val x div int d_unit) * int d_unit"
    and "d_val (d_floor x) = d_val x div int d_unit * int d_unit"
    and "d_val (d_round_half x) = half_away (d_val x) (int d_unit) * int d_unit"
    and "d_val (d_truncate x) = d_trunc x * int d_unit"
    and "\<not> d_isnan (d_ceil x)" "\<not> d_isnan (d_floor x)" "\<not> d_isnan (d_round_half x)" "\<not> d_isnan (d_truncate x)"
proof -
  let ?q = "d_mag x div d_unit" and ?r = "d_mag x mod d_unit"
  note q = quotients [OF d_unit_pos(1), of "d_mag x"]
  have fl: "int (d_mag x) div int d_unit = int ?q" by (simp add: zdiv_int)
  have v: "d_val x = (if d_neg_sign x then - int (d_mag x) else int (d_mag x))" by (simp add: d_val_def)
  have c: "- (- d_val x div int d_unit) = (if d_neg_sign x then - int ?q else int (?q + (if 0 < ?r then 1 else 0)))"
    using q(1) by (simp add: v fl)
  have f: "d_val x div int d_unit = (if d_neg_sign x then - int (?q + (if 0 < ?r then 1 else 0)) else int ?q)"
    using q(1) by (auto simp: v fl minus_equation_iff)
  have h: "half_away (d_val x) (int d_unit) = (if d_neg_sign x then - int (?q + (if d_unit \<le> 2 * ?r then 1 else 0))
      else int (?q + (if d_unit \<le> 2 * ?r then 1 else 0)))"
    using q(2) by (cases "d_mag x = 0") (auto simp: half_away_def v sgn_if)
  have t: "d_trunc x = (if d_neg_sign x then - int ?q else int ?q)" by (simp add: d_trunc_def)
  show "d_val (d_ceil x) = - (- d_val x div int d_unit) * int d_unit"
    unfolding c d_ceil_def by (subst d_integral_val(2) [OF fin]) simp_all
  show "d_val (d_floor x) = d_val x div int d_unit * int d_unit"
    unfolding f d_floor_def by (subst d_integral_val(2) [OF fin]) simp_all
  show "d_val (d_round_half x) = half_away (d_val x) (int d_unit) * int d_unit"
    unfolding h d_round_half_def by (subst d_integral_val(2) [OF fin]) simp_all
  show "d_val (d_truncate x) = d_trunc x * int d_unit"
    unfolding t d_truncate_def by (subst d_integral_val(2) [OF fin]) simp_all
  show "\<not> d_isnan (d_ceil x)" "\<not> d_isnan (d_floor x)" "\<not> d_isnan (d_round_half x)" "\<not> d_isnan (d_truncate x)"
    unfolding d_ceil_def d_floor_def d_round_half_def d_truncate_def by (rule d_integral_val(1) [OF fin]; simp)+
qed

lemma write_double_cell [simp]:
  "pl_d (load_cv (mem (write_double out x s)) out) = x"
  by (simp add: cell_write_double pl_defs)

subsection \<open>The square root\<close>

lemma isqrt_bounds: "isqrt n * isqrt n \<le> n \<and> n < (isqrt n + 1) * (isqrt n + 1)"
proof (induction n rule: isqrt.induct)
  case (1 n)
  show ?case
  proof (cases "n = 0")
    case True
    then show ?thesis by (simp add: isqrt.simps)
  next
    case False
    define r where "r = isqrt (n div 4)"
    have ih: "r * r \<le> n div 4" "n div 4 < (r + 1) * (r + 1)" using 1 [OF False] by (simp_all add: r_def)
    have "n = 4 * (n div 4) + n mod 4" "n mod 4 < 4" by simp_all
    then have "4 * (r * r) \<le> n" "n < 4 * ((r + 1) * (r + 1))" using ih by linarith+
    then have b: "2 * r * (2 * r) \<le> n" "n < (2 * r + 2) * (2 * r + 2)" by (simp_all add: algebra_simps)
    have "isqrt n = (if (2 * r + 1) * (2 * r + 1) \<le> n then 2 * r + 1 else 2 * r)"
      using False by (subst isqrt.simps) (simp add: r_def Let_def)
    then show ?thesis using b by auto
  qed
qed

lemma isqrt_ge: "x * x \<le> n \<Longrightarrow> x \<le> isqrt n"
proof (rule ccontr)
  assume a: "x * x \<le> n" and "\<not> x \<le> isqrt n"
  then have "(isqrt n + 1) * (isqrt n + 1) \<le> x * x" by (intro mult_le_mono) simp_all
  then show False using a isqrt_bounds [of n] by simp
qed

lemma isqrt_le: "n \<le> x * x \<Longrightarrow> isqrt n \<le> x \<and> (isqrt n * isqrt n \<noteq> n \<longrightarrow> isqrt n < x)"
proof -
  assume a: "n \<le> x * x"
  have "\<not> x < isqrt n"
  proof
    assume "x < isqrt n"
    then have "x * x < isqrt n * isqrt n" by (intro mult_strict_mono) simp_all
    then show False using a isqrt_bounds [of n] by simp
  qed
  moreover have "isqrt n * isqrt n \<noteq> n \<Longrightarrow> isqrt n \<noteq> x" using a isqrt_bounds [of n] by auto
  ultimately show ?thesis by auto
qed

definition sqrt_of :: "u64 \<Rightarrow> u64 \<Rightarrow> bool" where
  "sqrt_of w x \<longleftrightarrow> \<not> d_isnan w \<and> \<not> d_neg_sign w
     \<and> (\<forall>c \<le> INF_CODE. (mag_of_code c * mag_of_code c \<le> d_mag x * d_unit \<longrightarrow> c \<le> d_code w)
          \<and> (d_mag x * d_unit \<le> mag_of_code c * mag_of_code c \<longrightarrow> d_code w \<le> c))"

lemma d_sqrt_faithful:
  assumes "d_isfinite x" "\<not> d_neg_sign x" "d_mag x \<noteq> 0"
  shows "sqrt_of (d_sqrt x) x"
proof -
  define n where "n = d_mag x * d_unit"
  define r where "r = isqrt n"
  define k where "k = 2 * r + (if r * r = n then 0 else 1 :: nat)"
  have e: "d_sqrt x = d_round False k 2"
    using assms by (simp add: d_sqrt_def d_isfinite_def n_def r_def k_def Let_def)
  have lo: "c \<le> round_code k 2" if "mag_of_code c * mag_of_code c \<le> n" for c
    using isqrt_ge [OF that] by (intro round_code_ge) (simp_all add: k_def r_def)
  have hi: "round_code k 2 \<le> c" if "n \<le> mag_of_code c * mag_of_code c" for c
    using isqrt_le [OF that] by (intro round_code_le) (auto simp: k_def r_def)
  show ?thesis
    unfolding sqrt_of_def e n_def [symmetric] using lo hi by (auto simp: d_round_not_nan d_code_round min_le_iff_disj)
qed

lemma finite_unsigned_zero: "d_mag x = 0 \<Longrightarrow> d_sqrt x = (if d_isnan x then d_nan else x)"
  by (simp add: d_sqrt_def)

subsection \<open>Integer operations\<close>

lemma sint_bits64:
  "sint (x AND y :: u64) = sint x AND sint y" "sint (x OR y :: u64) = sint x OR sint y"
  "sint (x XOR y :: u64) = sint x XOR sint y"
  by (simp_all add: signed_and_eq signed_or_eq signed_xor_eq)

lemma sint_not64: "sint (NOT x :: u64) = - sint x - 1"
proof -
  have "NOT x = - 1 - x" by (simp add: not_eq_complement)
  then show ?thesis using sint_minus64 [of "- 1" x] sint_range64 [of x] by simp
qed

lemma push_bit_int: "push_bit n x = word_of_int (sint x * 2 ^ n)" for x :: u64
  by (simp add: push_bit_eq_mult wi_hom_mult flip: word_of_int_power_hom)

text \<open>The signed 64-bit value congruent to an integer.\<close>

definition signed64 :: "int \<Rightarrow> int" where "signed64 i = sint (word_of_int i :: u64)"

definition shifts :: "kernel2 \<Rightarrow> u32 \<Rightarrow> u32 \<Rightarrow> u32 \<Rightarrow> rt \<Rightarrow> int \<Rightarrow> int \<Rightarrow> bool" where
  "shifts kern out a b s n r \<longleftrightarrow> (\<exists>s'. kern out a b s = Some s' \<and> only_cell (cel_value_at out) s s'
     \<and> (if n < 0 then is_err (cv s' out) CEL_ERR_INVALID_ARGUMENT else is_int (cv s' out) r))"

definition yields :: "(rt \<Rightarrow> rt option) \<Rightarrow> u32 \<Rightarrow> rt \<Rightarrow> (cel_value \<Rightarrow> bool) \<Rightarrow> bool" where
  "yields k out s P \<longleftrightarrow> (\<exists>s'. k s = Some s' \<and> only_cell (cel_value_at out) s s' \<and> P (cv s' out))"

lemma yields_intro: "k s = Some s' \<Longrightarrow> only_cell (cel_value_at out) s s' \<Longrightarrow> P (cv s' out) \<Longrightarrow> yields k out s P"
  by (auto simp: yields_def)

lemma yields_int: "k s = Some (write_int (cel_value_at out) w s) \<Longrightarrow> sint w = i \<Longrightarrow> yields k out s (\<lambda>v. is_int v i)"
  using is_int_write by (auto simp: yields_def)

lemma yields_integral:
  "k s = Some (write_double (cel_value_at out) w s) \<Longrightarrow> \<not> d_isnan w \<Longrightarrow> d_val w = i * int d_unit \<Longrightarrow> yields k out s (\<lambda>v. is_integral v i)"
  by (auto simp: yields_def is_integral_def)

lemma big_shifts:
  assumes "63 < n"
  shows "word_of_int (x * 2 ^ n) = (0 :: u64)" "uint (w :: u64) div 2 ^ n = 0"
proof -
  have "(2 :: u64) ^ n = 0" using assms by (simp add: exp_eq_zero_iff)
  then have "word_of_int x * (2 :: u64) ^ n = 0" by (simp only: mult_zero_right)
  then show "word_of_int (x * 2 ^ n) = (0 :: u64)" by simp
  have "uint w < 2 ^ n" using uint_lt2p [of w] power_increasing [of 64 n "2 :: int"] assms by simp
  then show "uint w div 2 ^ n = 0" by (simp add: div_pos_pos_trivial)
qed

lemma drop_bit_int: "drop_bit n w = word_of_int (uint w div 2 ^ n)" for w :: u64
  by (rule bit_word_eqI) (simp add: bit_simps flip: drop_bit_eq_div)

lemma shift_values:
  assumes "cv_kind (cv s a) = CEL_INT" "cv_kind (cv s b) = CEL_INT"
  shows "shift_kernel op out a b s =
    Some (if sint (pl_i (cv s b)) < 0 then poison (cel_value_at out) CEL_ERR_INVALID_ARGUMENT s
      else write_int (cel_value_at out) (if nat (sint (pl_i (cv s b))) > 63 then 0 else op (nat (sint (pl_i (cv s b)))) (pl_i (cv s a))) s)"
  using assms by (simp add: shift_kernel_def absorb_3vl_binary_def math_shift_offset_def)

subsection \<open>The best element of a list\<close>

definition pick :: "bool \<Rightarrow> cel_value \<Rightarrow> cel_value \<Rightarrow> cel_value" where
  "pick g best e = (if math_minmax_replaces best e g then e else best)"

definition one_kind :: "u32 \<Rightarrow> cel_value list \<Rightarrow> bool" where
  "one_kind k xs \<longleftrightarrow> (\<forall>v \<in> set xs. num_ok v \<and> cv_kind v = k)"

lemma same_kind_replaces:
  assumes "num_ok a" "num_ok b" "cv_kind a = cv_kind b"
  shows "math_minmax_replaces a b g \<longleftrightarrow> (if g then num_val a < num_val b else num_val b < num_val a)"
proof -
  have "cv_kind a \<in> {CEL_INT, CEL_UINT, CEL_DOUBLE}" using assms(1) by (simp add: num_ok_def is_numeric_kind_def)
  then show ?thesis using assms
    by (elim insertE emptyE)
      (auto simp: math_minmax_replaces_def kernel_arms num_val_def num_ok_def cmp_i64_def cmp_u64_def cmp_double_cases
        unit_less_iff word_less_def)
qed

lemma minmax_from_step:
  assumes "i < count" "num_ok (load_cv m (math_arena_list_element m hp i))"
  shows "math_minmax_from m hp g count i best = math_minmax_from m hp g count (i + 1)
    (if i \<noteq> 0 then pick g best (load_cv m (math_arena_list_element m hp i)) else best)"
  using assms by (subst math_minmax_from.simps) (auto simp: num_ok_def is_numeric_kind_def pick_def Let_def)

lemma minmax_from_pick:
  assumes el: "\<And>j. j < length xs \<Longrightarrow> load_cv m (math_arena_list_element m hp j) = xs ! j" and k: "one_kind k xs"
  shows "0 < i \<Longrightarrow> i \<le> length xs \<Longrightarrow> math_minmax_from m hp g (length xs) i best = Inr (foldl (pick g) best (drop i xs))"
proof (induction "length xs - i" arbitrary: i best)
  case 0
  then show ?case by (simp add: math_minmax_from.simps)
next
  case (Suc n)
  then have i: "i < length xs" by simp
  then have ok: "num_ok (xs ! i)" using k by (simp add: one_kind_def)
  have "math_minmax_from m hp g (length xs) i best = math_minmax_from m hp g (length xs) (i + 1) (pick g best (xs ! i))"
    using minmax_from_step [OF i, of m hp g best] ok el [OF i] Suc(3) by simp
  also have "\<dots> = Inr (foldl (pick g) (pick g best (xs ! i)) (drop (i + 1) xs))" using Suc i by (intro Suc(1)) simp_all
  finally show ?case using i by (simp flip: Cons_nth_drop_Suc)
qed

lemma pick_extremal:
  assumes "one_kind k (b # xs)"
  shows "foldl (pick g) b xs \<in> set (b # xs)
    \<and> (\<forall>v \<in> set (b # xs). if g then num_val v \<le> num_val (foldl (pick g) b xs) else num_val (foldl (pick g) b xs) \<le> num_val v)"
  using assms
proof (induction xs arbitrary: b)
  case Nil
  then show ?case by simp
next
  case (Cons e xs)
  have p: "pick g b e = b \<or> pick g b e = e" by (simp add: pick_def)
  then have "one_kind k (pick g b e # xs)" using Cons(2) by (auto simp: one_kind_def)
  note ih = Cons(1) [OF this]
  have r: "math_minmax_replaces b e g \<longleftrightarrow> (if g then num_val b < num_val e else num_val e < num_val b)"
    using Cons(2) by (intro same_kind_replaces) (simp_all add: one_kind_def)
  have bound: "if g then num_val b \<le> num_val (pick g b e) \<and> num_val e \<le> num_val (pick g b e)
      else num_val (pick g b e) \<le> num_val b \<and> num_val (pick g b e) \<le> num_val e"
    unfolding pick_def using r by (cases g) auto
  show ?case
  proof (cases g)
    case True
    then show ?thesis using ih p bound by (auto intro: order_trans)
  next
    case False
    then show ?thesis using ih p bound by (auto intro: order_trans)
  qed
qed

lemma minmax_list_value:
  assumes ok: "list_ok s l" "list_of s l = b # xs" "one_kind k (b # xs)" "pl_header_ptr (cv s l) \<noteq> 0"
  shows "math_minmax_list h junk g out l s = Some (s\<lparr>mem := store_cv (mem s) (cel_value_at out) (foldl (pick g) b xs)\<rparr>)"
proof -
  let ?hp = "pl_header_ptr (cv s l)"
  have kind: "cv_kind (cv s l) = CEL_LIST_ARENA" using ok(1) by (simp add: list_ok_def)
  have n: "math_arena_list_count (mem s) ?hp = length (b # xs)"
    using length_list_of [of s l] ok(2,4) by (simp add: math_arena_list_count_def list_hdr_def arena_list_header_def)
  have el: "load_cv (mem s) (math_arena_list_element (mem s) ?hp j) = (b # xs) ! j" if "j < length (b # xs)" for j
    using list_of_nth [of j s l] that ok(2)
    by (simp add: math_arena_list_element_def list_run_def list_hdr_def arena_list_header_def mult.commute)
  have "num_ok b" using ok(3) by (simp add: one_kind_def)
  then have "math_minmax_from (mem s) ?hp g (length (b # xs)) 0 b = math_minmax_from (mem s) ?hp g (length (b # xs)) 1 b"
    using minmax_from_step [of 0 "length (b # xs)" "mem s" ?hp g b] el [of 0] by simp
  also have "\<dots> = Inr (foldl (pick g) b xs)" using minmax_from_pick [OF el ok(3), of 1 g b] by simp
  finally show ?thesis
    using kind n el [of 0] by (simp add: math_minmax_list_def absorb_3vl_unary_def cel_list_arena_view_def)
qed

subsection \<open>Properties\<close>

text \<open>
  Rounding, absolute value, sign and square root of a finite double are exact: the four rounding kernels
  return the integer value their name says (the one to the nearest integer sends halves away from zero),
  and the square root of a positive value is correctly bracketed, so exact when the root is a
  double. Non-finite doubles and other kinds are left to the strict prologue.
\<close>

theorem math_rounding_exact:
  assumes "cv_kind (cv s a) = CEL_DOUBLE" "d_isfinite (pl_d (cv s a))"
  defines "x \<equiv> d_val (pl_d (cv s a))"
  shows "yields (cel_math_ceil_at_v out a) out s (\<lambda>v. is_integral v (- (- x div int d_unit)))
    \<and> yields (cel_math_floor_at_v out a) out s (\<lambda>v. is_integral v (x div int d_unit))
    \<and> yields (cel_math_round_at_v out a) out s (\<lambda>v. is_integral v (half_away x (int d_unit)))
    \<and> yields (cel_math_trunc_at_v out a) out s (\<lambda>v. is_integral v (d_trunc (pl_d (cv s a))))
    \<and> (0 < x \<longrightarrow> yields (cel_math_sqrt_at_v out a) out s (\<lambda>v. cv_kind v = CEL_DOUBLE \<and> sqrt_of (pl_d v) (pl_d (cv s a))))"
proof (intro conjI impI)
  note r = rounding_vals [OF assms(2)]
  note v = strict_v_value [OF assms(1)]
  show "yields (cel_math_ceil_at_v out a) out s (\<lambda>v. is_integral v (- (- x div int d_unit)))"
    by (rule yields_integral [where w = "d_ceil (pl_d (cv s a))"]) (simp_all add: cel_math_ceil_at_v_def v r x_def)
  show "yields (cel_math_floor_at_v out a) out s (\<lambda>v. is_integral v (x div int d_unit))"
    by (rule yields_integral [where w = "d_floor (pl_d (cv s a))"]) (simp_all add: cel_math_floor_at_v_def v r x_def)
  show "yields (cel_math_round_at_v out a) out s (\<lambda>v. is_integral v (half_away x (int d_unit)))"
    by (rule yields_integral [where w = "d_round_half (pl_d (cv s a))"]) (simp_all add: cel_math_round_at_v_def v r x_def)
  show "yields (cel_math_trunc_at_v out a) out s (\<lambda>v. is_integral v (d_trunc (pl_d (cv s a))))"
    by (rule yields_integral [where w = "d_truncate (pl_d (cv s a))"]) (simp_all add: cel_math_trunc_at_v_def v r x_def)
  assume "0 < x"
  then have "\<not> d_neg_sign (pl_d (cv s a))" "d_mag (pl_d (cv s a)) \<noteq> 0" by (auto simp: x_def d_val_def split: if_splits)
  from d_sqrt_faithful [OF assms(2) this] assms(1)
  show "yields (cel_math_sqrt_at_v out a) out s (\<lambda>v. cv_kind v = CEL_DOUBLE \<and> sqrt_of (pl_d v) (pl_d (cv s a)))"
    by (intro yields_intro [of _ _ "write_double (cel_value_at out) (d_sqrt (pl_d (cv s a))) s"])
      (simp_all add: cel_math_sqrt_at_v_def absorb_3vl_unary_def)
qed

text \<open>
  The integer operations on ints: magnitude is exact or the overflow error, sign is the sign, the
  bitwise operations are those of two's complement, shifting left multiplies by the power of two
  modulo two to the 64, shifting right divides the unsigned reading (no sign extension), a count
  beyond the width gives zero, and a negative count is the invalid-argument error.
\<close>

theorem math_integer_exact:
  assumes "cv_kind (cv s a) = CEL_INT" "cv_kind (cv s b) = CEL_INT"
  defines "x \<equiv> sint (pl_i (cv s a))" and "y \<equiv> sint (pl_i (cv s b))"
  shows "yields (cel_math_abs_at_v out a) out s (\<lambda>v. int_or_overflow v \<bar>x\<bar>)
    \<and> yields (cel_math_sign_at_v out a) out s (\<lambda>v. is_int v (sgn x))
    \<and> yields (cel_math_bit_not_at_v out a) out s (\<lambda>v. is_int v (- x - 1))
    \<and> yields (cel_math_bit_and_at_vv out a b) out s (\<lambda>v. is_int v (x AND y))
    \<and> yields (cel_math_bit_or_at_vv out a b) out s (\<lambda>v. is_int v (x OR y))
    \<and> yields (cel_math_bit_xor_at_vv out a b) out s (\<lambda>v. is_int v (x XOR y))
    \<and> shifts cel_math_bit_shift_left_at_vv out a b s y (signed64 (x * 2 ^ nat y))
    \<and> shifts cel_math_bit_shift_right_at_vv out a b s y (signed64 (uint (pl_i (cv s a)) div 2 ^ nat y))"
proof (intro conjI)
  let ?o = "cel_value_at out" and ?p = "pl_i (cv s a)"
  have r: "INT64_MIN \<le> x" "x \<le> INT64_MAX" unfolding x_def by (rule sint_range64)+
  have n: "sint (- ?p) = - x" if "x \<noteq> INT64_MIN" using sint_minus64 [of 0 ?p] that r unfolding x_def by simp
  have abs: "cel_math_abs_at_v out a s = Some (if x = INT64_MIN then poison ?o CEL_ERR_OVERFLOW s else write_int ?o (if x < 0 then - ?p else ?p) s)"
    using assms(1) sint_min_bits [of ?p] by (simp add: cel_math_abs_at_v_def absorb_3vl_unary_def x_def)
  show "yields (cel_math_abs_at_v out a) out s (\<lambda>v. int_or_overflow v \<bar>x\<bar>)"
    by (rule yields_intro [where s' = "if x = INT64_MIN then poison ?o CEL_ERR_OVERFLOW s else write_int ?o (if x < 0 then - ?p else ?p) s"])
      (use abs n r in \<open>auto simp: x_def intro!: int_or_overflow_writes\<close>)
  show "yields (cel_math_sign_at_v out a) out s (\<lambda>v. is_int v (sgn x))"
    using assms(1) by (intro yields_int [where w = "if x < 0 then -1 else if x > 0 then 1 else 0"])
      (simp_all add: cel_math_sign_at_v_def absorb_3vl_unary_def x_def sgn_if)
  show "yields (cel_math_bit_not_at_v out a) out s (\<lambda>v. is_int v (- x - 1))"
    using assms(1) by (intro yields_int [where w = "NOT ?p"]) (simp_all add: cel_math_bit_not_at_v_def absorb_3vl_unary_def x_def sint_not64)
  have bits: "bit_kernel op out a b s = Some (write_int ?o (op ?p (pl_i (cv s b))) s)" for op
    using assms(1,2) by (simp add: bit_kernel_def absorb_3vl_binary_def)
  show "yields (cel_math_bit_and_at_vv out a b) out s (\<lambda>v. is_int v (x AND y))"
    "yields (cel_math_bit_or_at_vv out a b) out s (\<lambda>v. is_int v (x OR y))"
    "yields (cel_math_bit_xor_at_vv out a b) out s (\<lambda>v. is_int v (x XOR y))"
    unfolding cel_math_bit_and_at_vv_def cel_math_bit_or_at_vv_def cel_math_bit_xor_at_vv_def
    by (rule yields_int, rule bits, simp add: sint_bits64 x_def y_def)+
  show "shifts cel_math_bit_shift_left_at_vv out a b s y (signed64 (x * 2 ^ nat y))"
    using is_int_write [of ?o "push_bit (nat y) ?p" s] is_int_write [of ?o 0 s] big_shifts(1) [of "nat y" x] push_bit_int [of "nat y" ?p]
    by (auto simp: shifts_def cel_math_bit_shift_left_at_vv_def shift_values [OF assms(1,2)] y_def x_def signed64_def is_err_poison)
  show "shifts cel_math_bit_shift_right_at_vv out a b s y (signed64 (uint ?p div 2 ^ nat y))"
    using is_int_write [of ?o "drop_bit (nat y) ?p" s] is_int_write [of ?o 0 s] big_shifts(2) [of "nat y" ?p] drop_bit_int [of "nat y" ?p]
    by (auto simp: shifts_def cel_math_bit_shift_right_at_vv_def shift_values [OF assms(1,2)] y_def signed64_def is_err_poison)
qed

theorem math_rounding_exact_witness:
  "yields (cel_math_round_at_v 192 128) 192 (two_cells (cell_of CEL_DOUBLE 0x4004000000000000) (cell_of CEL_INT 1))
    (\<lambda>v. is_integral v (half_away (d_val 0x4004000000000000) (int d_unit)))"
  using math_rounding_exact [of "two_cells (cell_of CEL_DOUBLE 0x4004000000000000) (cell_of CEL_INT 1)" 128 192]
  by (simp add: d_isfinite_def d_isnan_def d_isinf_def d_code_def pl_defs)

theorem math_integer_exact_witness:
  "shifts cel_math_bit_shift_left_at_vv 192 128 160 (two_cells (cell_of CEL_INT (- 1)) (cell_of CEL_INT 60)) 60 (signed64 (- (2 ^ 60)))"
  using math_integer_exact [of "two_cells (cell_of CEL_INT (- 1)) (cell_of CEL_INT 60)" 128 160 192]
  by (simp add: pl_defs)

text \<open>
  The least and the greatest element: on an arena list of numbers of one kind (NaNs excluded) with a
  header, \<open>math.least\<close> and \<open>math.greatest\<close> copy an element of the list to the out slot, no element
  is smaller (greater), and nothing else changes.
\<close>

theorem math_minmax_extremal:
  assumes "list_ok s l" "list_of s l \<noteq> []" "one_kind k (list_of s l)" "pl_header_ptr (cv s l) \<noteq> 0"
  shows "yields (cel_math_min_list_at_v h junk out l) out s (\<lambda>r. r \<in> set (list_of s l) \<and> (\<forall>v \<in> set (list_of s l). num_val r \<le> num_val v))
    \<and> yields (cel_math_max_list_at_v h junk out l) out s (\<lambda>r. r \<in> set (list_of s l) \<and> (\<forall>v \<in> set (list_of s l). num_val v \<le> num_val r))"
proof -
  obtain b xs where l: "list_of s l = b # xs" using assms(2) by (cases "list_of s l") auto
  note k = assms(3) [unfolded l]
  have oc: "only_cell (cel_value_at out) s (s\<lparr>mem := store_cv (mem s) (cel_value_at out) v\<rparr>)" for v
    by (rule only_cell_store) (rule same_outside_store_cv)
  show ?thesis
    using pick_extremal [OF k, of False] pick_extremal [OF k, of True] oc
    by (simp add: yields_def cel_math_min_list_at_v_def cel_math_max_list_at_v_def minmax_list_value [OF assms(1) l k assms(4)]
        l load_cv_store_cv)
qed

theorem math_minmax_extremal_witness:
  "yields (cel_math_max_list_at_v weak_host (cell_of CEL_INT 0) 192 160) 192 sample_list
     (\<lambda>r. r \<in> {cell_of CEL_INT 7, cell_of CEL_INT 8} \<and> num_val (cell_of CEL_INT 8) \<le> num_val r)"
proof -
  have "yields (cel_math_max_list_at_v weak_host (cell_of CEL_INT 0) 192 160) 192 sample_list
     (\<lambda>r. r \<in> set (list_of sample_list 160) \<and> (\<forall>v \<in> set (list_of sample_list 160). num_val v \<le> num_val r))"
    using math_minmax_extremal [OF sample_list_ok(2), of CEL_INT weak_host "cell_of CEL_INT 0" 192]
    by (simp add: sample_list_ok(3) sample_list_cells one_kind_def num_ok_def is_numeric_kind_def pl_defs lo32_def)
  then show ?thesis by (auto simp: yields_def sample_list_ok(3))
qed

end
