(* ===== verification/NetExt.thy ===== *)
theory NetExt
  imports Convert
begin

text \<open>
  The network extension (\<open>runtime/cel_net_ext.c\<close>): parsing, classification, containment and masking of
  IP addresses and CIDR blocks. The text codecs \<open>inet_pton\<close> and \<open>inet_ntop\<close> of the operating system
  are the record \<open>net_lib\<close> the kernels take; they work on the text of a C string.
\<close>

record net_lib =
  pton4 :: "u8 list \<Rightarrow> u8 list option"
  pton6 :: "u8 list \<Rightarrow> u8 list option"
  ntop4 :: "u8 list \<Rightarrow> u8 list"
  ntop6 :: "u8 list \<Rightarrow> u8 list"

record net_ip =
  ip_family :: u32
  ip_addr :: "u8 list"

record net_cidr =
  cidr_family :: u32
  cidr_prefix :: u32
  cidr_addr :: "u8 list"

definition load_ip :: "memory \<Rightarrow> u32 \<Rightarrow> net_ip" where
  "load_ip m off = \<lparr>ip_family = load32 m (unat off), ip_addr = bytes_at m (unat off + 4) 16\<rparr>"

definition store_ip :: "memory \<Rightarrow> u32 \<Rightarrow> net_ip \<Rightarrow> memory" where
  "store_ip m off ip = store_bytes (store32 m (unat off) (ip_family ip)) (unat off + 4) (ip_addr ip)"

definition load_cidr :: "memory \<Rightarrow> u32 \<Rightarrow> net_cidr" where
  "load_cidr m off = \<lparr>cidr_family = load32 m (unat off), cidr_prefix = load32 m (unat off + 4), cidr_addr = bytes_at m (unat off + 8) 16\<rparr>"

definition store_cidr :: "memory \<Rightarrow> u32 \<Rightarrow> net_cidr \<Rightarrow> memory" where
  "store_cidr m off c =
     store_bytes (store32 (store32 m (unat off) (cidr_family c)) (unat off + 4) (cidr_prefix c)) (unat off + 8) (cidr_addr c)"

subsection \<open>Parsing addresses\<close>

abbreviation kNetIpMaxText :: nat where "kNetIpMaxText \<equiv> 39"

definition span_has :: "u8 list \<Rightarrow> u8 \<Rightarrow> bool" where
  "span_has bs c = list_ex (\<lambda>b. b = c) bs"

definition is_v4_mapped :: "u8 list \<Rightarrow> bool" where
  "is_v4_mapped b16 \<longleftrightarrow> list_all (\<lambda>k. b16 ! k = 0) [0..<10] \<and> b16 ! 10 = 0xFF \<and> b16 ! 11 = 0xFF"

definition has_leading_zero_octet :: "u8 list \<Rightarrow> bool" where
  "has_leading_zero_octet bs =
     list_ex (\<lambda>k. (k = 0 \<or> bs ! (k - 1) = 0x2E) \<and> bs ! k = 0x30 \<and> k + 1 < length bs
       \<and> 0x30 \<le> bs ! (k + 1) \<and> bs ! (k + 1) \<le> 0x39) [0..<length bs]"

definition set_ipv4 :: "u8 list \<Rightarrow> net_ip" where
  "set_ipv4 v4 = \<lparr>ip_family = 4, ip_addr = map (\<lambda>k. if k < 4 then v4 ! k else 0) [0..<16]\<rparr>"

text \<open>\<open>None\<close> is the -1 of the code (not IPv4 at all), \<open>Some None\<close> a rejection.\<close>

definition try_parse_v4 :: "net_lib \<Rightarrow> u8 list \<Rightarrow> u8 list \<Rightarrow> net_ip option option" where
  "try_parse_v4 lib s bs =
     (case pton4 lib s of
        None \<Rightarrow> None
      | Some v4 \<Rightarrow> if has_leading_zero_octet bs then Some None else Some (Some (set_ipv4 v4)))"

definition try_parse_v6 :: "net_lib \<Rightarrow> u8 list \<Rightarrow> u8 list \<Rightarrow> net_ip option" where
  "try_parse_v6 lib s bs =
     (if \<not> span_has bs 0x3A then None
      else if span_has bs 0x2E then None
      else (case pton6 lib s of
          None \<Rightarrow> None
        | Some b16 \<Rightarrow> if is_v4_mapped b16 then Some (set_ipv4 (drop 12 b16)) else Some \<lparr>ip_family = 6, ip_addr = b16\<rparr>))"

text \<open>The text the codec sees: the copied bytes up to the first NUL.\<close>

definition c_string :: "u8 list \<Rightarrow> u8 list" where "c_string bs = takeWhile (\<lambda>b. b \<noteq> 0) bs"

definition parse_address :: "net_lib \<Rightarrow> u8 list \<Rightarrow> net_ip option" where
  "parse_address lib bs =
     (if length bs = 0 \<or> length bs > kNetIpMaxText then None
      else if span_has bs 0x25 then None
      else (case try_parse_v4 lib (c_string bs) bs of
          Some r \<Rightarrow> r
        | None \<Rightarrow> try_parse_v6 lib (c_string bs) bs))"

definition render_address :: "net_lib \<Rightarrow> net_ip \<Rightarrow> u8 list" where
  "render_address lib ip = (if ip_family ip = 4 then ntop4 lib (take 4 (ip_addr ip)) else ntop6 lib (ip_addr ip))"

subsection \<open>Classification\<close>

definition ip_is_unspecified :: "net_ip \<Rightarrow> bool" where
  "ip_is_unspecified ip = (let n = (if ip_family ip = 4 then 4 else 16) in list_all (\<lambda>k. ip_addr ip ! k = 0) [0..<n])"

definition ip_is_loopback :: "net_ip \<Rightarrow> bool" where
  "ip_is_loopback ip =
     (if ip_family ip = 4 then ip_addr ip ! 0 = 127
      else list_all (\<lambda>k. ip_addr ip ! k = 0) [0..<15] \<and> ip_addr ip ! 15 = 1)"

definition ip_is_multicast :: "net_ip \<Rightarrow> bool" where
  "ip_is_multicast ip = (if ip_family ip = 4 then (ip_addr ip ! 0) AND 0xF0 = 0xE0 else ip_addr ip ! 0 = 0xFF)"

definition ip_is_link_local_unicast :: "net_ip \<Rightarrow> bool" where
  "ip_is_link_local_unicast ip =
     (if ip_family ip = 4 then ip_addr ip ! 0 = 169 \<and> ip_addr ip ! 1 = 254
      else ip_addr ip ! 0 = 0xFE \<and> (ip_addr ip ! 1) AND 0xC0 = 0x80)"

definition ip_is_link_local_multicast :: "net_ip \<Rightarrow> bool" where
  "ip_is_link_local_multicast ip =
     (if ip_family ip = 4 then ip_addr ip ! 0 = 224 \<and> ip_addr ip ! 1 = 0 \<and> ip_addr ip ! 2 = 0
      else ip_addr ip ! 0 = 0xFF \<and> ip_addr ip ! 1 = 2)"

definition ip_is_global_unicast :: "net_ip \<Rightarrow> bool" where
  "ip_is_global_unicast ip =
     (let bcast = list_all (\<lambda>k. ip_addr ip ! k = 0xFF) [0..<4] in
      if ip_family ip = 4 \<and> (ip_is_unspecified ip \<or> bcast) then False
      else if ip_is_unspecified ip then False
      else \<not> ip_is_loopback ip \<and> \<not> ip_is_multicast ip \<and> \<not> ip_is_link_local_unicast ip)"

definition ip_v :: "(nat \<Rightarrow> net_ip \<Rightarrow> rt \<Rightarrow> rt) \<Rightarrow> u32 \<Rightarrow> u32 \<Rightarrow> rt \<Rightarrow> rt option" where
  "ip_v body = strict_v CEL_IP (\<lambda>out v s. body out (load_ip (mem s) (pl_net_ref v)) s)"

definition ip_classify :: "(net_ip \<Rightarrow> bool) \<Rightarrow> u32 \<Rightarrow> u32 \<Rightarrow> rt \<Rightarrow> rt option" where
  "ip_classify pred = ip_v (\<lambda>out ip. write_bool out (pred ip))"

definition cel_ip_family_at_v :: "u32 \<Rightarrow> u32 \<Rightarrow> rt \<Rightarrow> rt option" where
  "cel_ip_family_at_v = ip_v (\<lambda>out ip. write_int out (ucast (ip_family ip)))"

definition cel_ip_is_loopback_at_v :: "u32 \<Rightarrow> u32 \<Rightarrow> rt \<Rightarrow> rt option" where
  "cel_ip_is_loopback_at_v = ip_classify ip_is_loopback"
definition cel_ip_is_unspecified_at_v :: "u32 \<Rightarrow> u32 \<Rightarrow> rt \<Rightarrow> rt option" where
  "cel_ip_is_unspecified_at_v = ip_classify ip_is_unspecified"
definition cel_ip_is_global_unicast_at_v :: "u32 \<Rightarrow> u32 \<Rightarrow> rt \<Rightarrow> rt option" where
  "cel_ip_is_global_unicast_at_v = ip_classify ip_is_global_unicast"
definition cel_ip_is_link_local_unicast_at_v :: "u32 \<Rightarrow> u32 \<Rightarrow> rt \<Rightarrow> rt option" where
  "cel_ip_is_link_local_unicast_at_v = ip_classify ip_is_link_local_unicast"
definition cel_ip_is_link_local_multicast_at_v :: "u32 \<Rightarrow> u32 \<Rightarrow> rt \<Rightarrow> rt option" where
  "cel_ip_is_link_local_multicast_at_v = ip_classify ip_is_link_local_multicast"

subsection \<open>Address kernels\<close>

text \<open>The prologue of the kernels that allocate or may fail; \<open>stamp_net\<close> publishes an arena offset.\<close>

definition strict_alloc_v :: "u32 \<Rightarrow> (nat \<Rightarrow> cel_value \<Rightarrow> rt \<Rightarrow> rt option) \<Rightarrow> u32 \<Rightarrow> u32 \<Rightarrow> rt \<Rightarrow> rt option" where
  "strict_alloc_v want body out_slot v_slot s =
     (let out = cel_value_at out_slot; (wrote, s) = absorb_3vl_unary out (cel_value_at v_slot) s; v = cv s v_slot in
      if wrote then Some s
      else if cv_kind v \<noteq> want then Some (poison out CEL_ERR_TYPE_MISMATCH s)
      else body out v s)"

definition stamp_net :: "u32 \<Rightarrow> nat \<Rightarrow> u32 \<Rightarrow> rt \<Rightarrow> rt" where
  "stamp_net kind out off s = s\<lparr>mem := store32 (store32 (store32 (mem s) out kind) (out + 4) 0) (out + 8) off\<rparr>"

definition publish_ip :: "nat \<Rightarrow> net_ip \<Rightarrow> rt \<Rightarrow> rt option" where
  "publish_ip out ip s = do {
     (off, s) \<leftarrow> arena_alloc 20 s;
     if off = 0 then Some (poison out CEL_ERR_OVERFLOW s)
     else Some (stamp_net CEL_IP out off (s\<lparr>mem := store_ip (mem s) off ip\<rparr>))
   }"

definition cel_ip_parse_at_v :: "net_lib \<Rightarrow> u32 \<Rightarrow> u32 \<Rightarrow> rt \<Rightarrow> rt option" where
  "cel_ip_parse_at_v lib = strict_alloc_v CEL_STRING (\<lambda>out str s.
     case parse_address lib (str_of (mem s) str) of
       None \<Rightarrow> Some (poison out CEL_ERR_INVALID_ARGUMENT s)
     | Some ip \<Rightarrow> publish_ip out ip s)"

text \<open>\<open>cel_make_string\<close> on a text in the C stack.\<close>

definition make_text :: "u8 list \<Rightarrow> rt \<Rightarrow> (u32 \<times> rt) option" where
  "make_text bs s =
     (let finish = (\<lambda>data_off. make_cell (\<lambda>v s. s\<lparr>mem :=
                store32 (store32 (store32 (mem s) v CEL_STRING) (v + 8) data_off) (v + 12) (word_of_nat (length bs))\<rparr>)) in
      if length bs > 0 then do {
        (data_off, s) \<leftarrow> arena_alloc (word_of_nat (length bs)) s;
        if data_off = 0 then Some (0, s) else finish data_off (s\<lparr>mem := store_bytes (mem s) (unat data_off) bs\<rparr>)
      }
      else finish 0 s)"

definition publish_text :: "nat \<Rightarrow> u8 list \<Rightarrow> rt \<Rightarrow> rt option" where
  "publish_text out bs s = do {
     (off, s) \<leftarrow> make_text bs s;
     if off = 0 \<and> length bs > 0 then Some (poison out CEL_ERR_OVERFLOW s)
     else Some (copy_cv out (cel_value_at off) s)
   }"

definition cel_ip_to_string_at_v :: "net_lib \<Rightarrow> u32 \<Rightarrow> u32 \<Rightarrow> rt \<Rightarrow> rt option" where
  "cel_ip_to_string_at_v lib = strict_alloc_v CEL_IP (\<lambda>out v s.
     publish_text out (render_address lib (load_ip (mem s) (pl_net_ref v))) s)"

definition cel_isip_at_v :: "net_lib \<Rightarrow> u32 \<Rightarrow> u32 \<Rightarrow> rt \<Rightarrow> rt option" where
  "cel_isip_at_v lib = strict_v CEL_STRING (\<lambda>out str s. write_bool out (parse_address lib (str_of (mem s) str) \<noteq> None) s)"

definition cel_ip_is_canonical_at_v :: "net_lib \<Rightarrow> u32 \<Rightarrow> u32 \<Rightarrow> rt \<Rightarrow> rt option" where
  "cel_ip_is_canonical_at_v lib = strict_v CEL_STRING (\<lambda>out str s.
     case parse_address lib (str_of (mem s) str) of
       None \<Rightarrow> poison out CEL_ERR_INVALID_ARGUMENT s
     | Some ip \<Rightarrow> write_bool out (render_address lib ip = str_of (mem s) str) s)"

subsection \<open>CIDR blocks\<close>

definition high_mask :: "nat \<Rightarrow> u8" where "high_mask rem = push_bit (8 - rem) 0xFF"

definition first_n_bits_match :: "u8 list \<Rightarrow> u8 list \<Rightarrow> nat \<Rightarrow> bool" where
  "first_n_bits_match a16 b16 nbits =
     (let full = nbits div 8; rem = nbits mod 8 in
      list_all (\<lambda>k. a16 ! k = b16 ! k) [0..<full]
      \<and> (if rem \<noteq> 0 then (a16 ! full) AND high_mask rem = (b16 ! full) AND high_mask rem else True))"

definition mask_bits :: "u8 list \<Rightarrow> nat \<Rightarrow> u8 list" where
  "mask_bits addr16 nbits =
     map (\<lambda>k. if k * 8 \<ge> nbits then 0
       else if nbits < (k + 1) * 8 then (addr16 ! k) AND high_mask (nbits - k * 8)
       else addr16 ! k) [0..<16]"

text \<open>The accumulator stays at most 128, so it is a natural number.\<close>

fun parse_prefix_from :: "u8 list \<Rightarrow> nat \<Rightarrow> nat option" where
  "parse_prefix_from [] acc = Some acc"
| "parse_prefix_from (c # cs) acc =
     (if c < 0x30 \<or> c > 0x39 then None
      else (let acc = acc * 10 + unat (c - 0x30) in
        if acc > 128 then None else parse_prefix_from cs acc))"

definition parse_prefix :: "u8 list \<Rightarrow> nat \<Rightarrow> nat \<Rightarrow> nat option" where
  "parse_prefix bs from limit =
     (if from \<ge> length bs then None
      else (case parse_prefix_from (drop from bs) 0 of
          None \<Rightarrow> None
        | Some p \<Rightarrow> if p > limit then None else Some p))"

definition last_slash :: "u8 list \<Rightarrow> nat" where
  "last_slash bs = foldl (\<lambda>slash k. if bs ! k = 0x2F then k else slash) (length bs) [0..<length bs]"

definition parse_cidr :: "net_lib \<Rightarrow> u8 list \<Rightarrow> net_cidr option" where
  "parse_cidr lib bs =
     (if length bs = 0 then None
      else (let slash = last_slash bs in
        if slash = length bs then None
        else (case parse_address lib (take slash bs) of
            None \<Rightarrow> None
          | Some ip \<Rightarrow>
              (case parse_prefix bs (slash + 1) (if ip_family ip = 4 then 32 else 128) of
                 None \<Rightarrow> None
               | Some p \<Rightarrow> Some \<lparr>cidr_family = ip_family ip, cidr_prefix = word_of_nat p, cidr_addr = ip_addr ip\<rparr>))))"

definition alloc_cidr :: "net_cidr \<Rightarrow> rt \<Rightarrow> (u32 \<times> rt) option" where
  "alloc_cidr src s = do {
     (off, s) \<leftarrow> arena_alloc 24 s;
     if off = 0 then Some (0, s) else Some (off, s\<lparr>mem := store_cidr (mem s) off src\<rparr>)
   }"

definition publish_cidr :: "nat \<Rightarrow> net_cidr \<Rightarrow> rt \<Rightarrow> rt option" where
  "publish_cidr out c s = do {
     (off, s) \<leftarrow> alloc_cidr c s;
     if off = 0 then Some (poison out CEL_ERR_OVERFLOW s) else Some (stamp_net CEL_CIDR out off s)
   }"

definition cel_cidr_parse_at_v :: "net_lib \<Rightarrow> u32 \<Rightarrow> u32 \<Rightarrow> rt \<Rightarrow> rt option" where
  "cel_cidr_parse_at_v lib = strict_alloc_v CEL_STRING (\<lambda>out str s.
     case parse_cidr lib (str_of (mem s) str) of
       None \<Rightarrow> Some (poison out CEL_ERR_INVALID_ARGUMENT s)
     | Some c \<Rightarrow> publish_cidr out c s)"

fun prefix_digits :: "nat \<Rightarrow> u8 list" where
  "prefix_digits p = (let d = 0x30 + word_of_nat (p mod 10) in if p div 10 = 0 then [d] else prefix_digits (p div 10) @ [d])"

declare prefix_digits.simps [simp del]

definition cel_cidr_to_string_at_v :: "net_lib \<Rightarrow> u32 \<Rightarrow> u32 \<Rightarrow> rt \<Rightarrow> rt option" where
  "cel_cidr_to_string_at_v lib = strict_alloc_v CEL_CIDR (\<lambda>out v s.
     let c = load_cidr (mem s) (pl_net_ref v); ip = \<lparr>ip_family = cidr_family c, ip_addr = cidr_addr c\<rparr> in
     publish_text out (render_address lib ip @ [0x2F] @ prefix_digits (unat (cidr_prefix c))) s)"

definition resolve_arg_ip :: "net_lib \<Rightarrow> memory \<Rightarrow> cel_value \<Rightarrow> net_ip option" where
  "resolve_arg_ip lib m arg =
     (if cv_kind arg = CEL_IP then Some (load_ip m (pl_net_ref arg)) else parse_address lib (str_of m arg))"

definition resolve_arg_cidr :: "net_lib \<Rightarrow> memory \<Rightarrow> cel_value \<Rightarrow> net_cidr option" where
  "resolve_arg_cidr lib m arg =
     (if cv_kind arg = CEL_CIDR then Some (load_cidr m (pl_net_ref arg)) else parse_cidr lib (str_of m arg))"

definition cel_cidr_contains_ip_at_vv :: "net_lib \<Rightarrow> kernel2" where
  "cel_cidr_contains_ip_at_vv lib out_slot cidr_slot arg_slot s =
     (let out = cel_value_at out_slot in do {
        (wrote, s) \<leftarrow> absorb_3vl_binary out (cel_value_at cidr_slot) (cel_value_at arg_slot) s;
        let b = cv s cidr_slot; let arg = cv s arg_slot;
        if wrote then Some s
        else if cv_kind b \<noteq> CEL_CIDR \<or> (cv_kind arg \<noteq> CEL_IP \<and> cv_kind arg \<noteq> CEL_STRING)
        then Some (poison out CEL_ERR_TYPE_MISMATCH s)
        else (case resolve_arg_ip lib (mem s) arg of
            None \<Rightarrow> Some (poison out CEL_ERR_INVALID_ARGUMENT s)
          | Some ip \<Rightarrow>
              (let c = load_cidr (mem s) (pl_net_ref b) in
               if cidr_family c \<noteq> ip_family ip then Some (write_bool out False s)
               else Some (write_bool out (first_n_bits_match (cidr_addr c) (ip_addr ip) (unat (cidr_prefix c))) s)))
      })"

definition cel_cidr_contains_cidr_at_vv :: "net_lib \<Rightarrow> kernel2" where
  "cel_cidr_contains_cidr_at_vv lib out_slot cidr_slot arg_slot s =
     (let out = cel_value_at out_slot in do {
        (wrote, s) \<leftarrow> absorb_3vl_binary out (cel_value_at cidr_slot) (cel_value_at arg_slot) s;
        let v = cv s cidr_slot; let arg = cv s arg_slot;
        if wrote then Some s
        else if cv_kind v \<noteq> CEL_CIDR \<or> (cv_kind arg \<noteq> CEL_CIDR \<and> cv_kind arg \<noteq> CEL_STRING)
        then Some (poison out CEL_ERR_TYPE_MISMATCH s)
        else (case resolve_arg_cidr lib (mem s) arg of
            None \<Rightarrow> Some (poison out CEL_ERR_INVALID_ARGUMENT s)
          | Some b \<Rightarrow>
              (let a = load_cidr (mem s) (pl_net_ref v) in
               if cidr_family a \<noteq> cidr_family b \<or> cidr_prefix a > cidr_prefix b then Some (write_bool out False s)
               else Some (write_bool out (first_n_bits_match (cidr_addr a) (cidr_addr b) (unat (cidr_prefix a))) s)))
      })"

definition cel_cidr_ip_at_v :: "u32 \<Rightarrow> u32 \<Rightarrow> rt \<Rightarrow> rt option" where
  "cel_cidr_ip_at_v = strict_alloc_v CEL_CIDR (\<lambda>out v s.
     let c = load_cidr (mem s) (pl_net_ref v) in publish_ip out \<lparr>ip_family = cidr_family c, ip_addr = cidr_addr c\<rparr> s)"

definition cel_cidr_masked_at_v :: "u32 \<Rightarrow> u32 \<Rightarrow> rt \<Rightarrow> rt option" where
  "cel_cidr_masked_at_v = strict_alloc_v CEL_CIDR (\<lambda>out v s.
     let c = load_cidr (mem s) (pl_net_ref v) in
     publish_cidr out (c\<lparr>cidr_addr := mask_bits (cidr_addr c) (unat (cidr_prefix c))\<rparr>) s)"

definition cel_cidr_prefix_length_at_v :: "u32 \<Rightarrow> u32 \<Rightarrow> rt \<Rightarrow> rt option" where
  "cel_cidr_prefix_length_at_v = strict_v CEL_CIDR (\<lambda>out v s.
     write_int out (ucast (cidr_prefix (load_cidr (mem s) (pl_net_ref v)))) s)"


subsection \<open>Prefixes are sets of addresses\<close>

text \<open>Bit \<open>i\<close> of an address, counted from its most significant end.\<close>

definition addr_bit :: "u8 list \<Rightarrow> nat \<Rightarrow> bool" where
  "addr_bit a i = bit (a ! (i div 8)) (7 - i mod 8)"

lemma u8_eq_bits: "(x :: u8) = y \<longleftrightarrow> (\<forall>j<8. bit x (7 - j) = bit y (7 - j))"
proof
  assume h: "\<forall>j<8. bit x (7 - j) = bit y (7 - j)"
  show "x = y"
  proof (rule bit_word_eqI)
    fix n assume "n < LENGTH(8)"
    then have "7 - (7 - n) = n" "7 - n < 8" by auto
    then show "bit x n = bit y n" using h by metis
  qed
qed simp

lemma high_mask_bit: "rem < 8 \<Longrightarrow> j < 8 \<Longrightarrow> bit (high_mask rem) (7 - j) \<longleftrightarrow> j < rem"
proof -
  assume h: "rem < 8" "j < 8"
  have "(0xFF :: u8) = - 1" by simp
  then show ?thesis using h unfolding high_mask_def by (simp only: bit_push_bit_iff) (auto simp: bit_simps)
qed

lemma masked_eq_bits:
  "rem < 8 \<Longrightarrow> (x AND high_mask rem = y AND high_mask rem) \<longleftrightarrow> (\<forall>j<rem. bit x (7 - j) = bit y (7 - j))"
  unfolding u8_eq_bits [of "x AND high_mask rem"] by (simp add: bit_and_iff high_mask_bit) (metis order.strict_trans)

lemma addr_bit_byte: "j < 8 \<Longrightarrow> addr_bit a (8 * k + j) = bit (a ! k) (7 - j)"
  by (simp add: addr_bit_def)

lemma all_bits_bytes: "(\<forall>i<8 * k + r. P i) \<longleftrightarrow> (\<forall>q<k. \<forall>j<8. P (8 * q + j)) \<and> (\<forall>j<r. P (8 * k + j))" for k r :: nat
proof
  assume h: "(\<forall>q<k. \<forall>j<8. P (8 * q + j)) \<and> (\<forall>j<r. P (8 * k + j))"
  show "\<forall>i<8 * k + r. P i"
  proof (intro allI impI)
    fix i assume i: "i < 8 * k + r"
    show "P i"
    proof (cases "i < 8 * k")
      case True
      then have "i div 8 < k" "i mod 8 < 8" by auto
      then have "P (8 * (i div 8) + i mod 8)" using h by blast
      then show ?thesis by simp
    next
      case False
      then have "i = 8 * k + (i - 8 * k)" "i - 8 * k < r" using i by auto
      then show ?thesis using h by metis
    qed
  qed
qed auto

lemma first_n_bits_exact: "first_n_bits_match a b n \<longleftrightarrow> (\<forall>i<n. addr_bit a i = addr_bit b i)"
proof -
  have n: "n = 8 * (n div 8) + n mod 8" by simp
  have "first_n_bits_match a b n \<longleftrightarrow> (\<forall>q<n div 8. a ! q = b ! q)
      \<and> (\<forall>j<n mod 8. bit (a ! (n div 8)) (7 - j) = bit (b ! (n div 8)) (7 - j))"
    unfolding first_n_bits_match_def Let_def list_all_iff by (auto simp: masked_eq_bits)
  also have "\<dots> \<longleftrightarrow> (\<forall>i<8 * (n div 8) + n mod 8. addr_bit a i = addr_bit b i)"
    unfolding all_bits_bytes [of "n div 8" "n mod 8"] by (auto simp: addr_bit_byte u8_eq_bits [of "a ! _"])
  finally show ?thesis by simp
qed

lemma length_mask_bits [simp]: "length (mask_bits a n) = 16"
  by (simp add: mask_bits_def)

lemma mask_bits_exact: "i < 128 \<Longrightarrow> addr_bit (mask_bits a n) i \<longleftrightarrow> i < n \<and> addr_bit a i"
proof -
  assume i: "i < 128"
  define k j where "k = i div 8" and "j = i mod 8"
  have ij: "i = 8 * k + j" "j < 8" "k < 16" using i unfolding k_def j_def by auto
  have b: "mask_bits a n ! k = (if k * 8 \<ge> n then 0 else if n < (k + 1) * 8 then (a ! k) AND high_mask (n - k * 8) else a ! k)"
    using ij(3) by (simp add: mask_bits_def)
  show ?thesis
    unfolding ij(1) addr_bit_byte [OF ij(2)] b using ij(2) by (auto simp: bit_and_iff high_mask_bit)
qed


definition addr_width :: "u32 \<Rightarrow> nat" where "addr_width fam = (if fam = 4 then 32 else 128)"

definition valid_ip :: "net_ip \<Rightarrow> bool" where
  "valid_ip ip \<longleftrightarrow> length (ip_addr ip) = 16 \<and> (ip_family ip = 4 \<or> ip_family ip = 6)
     \<and> (ip_family ip = 4 \<longrightarrow> (\<forall>k<16. 4 \<le> k \<longrightarrow> ip_addr ip ! k = 0))"

definition base_ip :: "net_cidr \<Rightarrow> net_ip" where
  "base_ip c = \<lparr>ip_family = cidr_family c, ip_addr = cidr_addr c\<rparr>"

definition valid_cidr :: "net_cidr \<Rightarrow> bool" where
  "valid_cidr c \<longleftrightarrow> valid_ip (base_ip c) \<and> unat (cidr_prefix c) \<le> addr_width (cidr_family c)"

text \<open>The addresses of a block: those of its family that agree with it on the prefix.\<close>

definition cidr_set :: "net_cidr \<Rightarrow> net_ip set" where
  "cidr_set c = {ip. valid_ip ip \<and> ip_family ip = cidr_family c
     \<and> (\<forall>i<unat (cidr_prefix c). addr_bit (ip_addr ip) i = addr_bit (cidr_addr c) i)}"

definition flip_addr :: "nat \<Rightarrow> u8 list \<Rightarrow> u8 list" where
  "flip_addr p a = a[p div 8 := flip_bit (7 - p mod 8) (a ! (p div 8))]"

lemma addr_bit_flip:
  assumes "length a = 16" "p < 128"
  shows "addr_bit (flip_addr p a) i \<longleftrightarrow> (if i = p then \<not> addr_bit a p else addr_bit a i)"
proof (cases "i div 8 = p div 8")
  case True
  have m: "i mod 8 < 8" "p mod 8 < 8" by auto
  then have "7 - p mod 8 = 7 - i mod 8 \<longleftrightarrow> i mod 8 = p mod 8" by arith
  moreover have "i = p \<longleftrightarrow> i mod 8 = p mod 8"
    using True div_mult_mod_eq [of i 8] div_mult_mod_eq [of p 8] by metis
  ultimately show ?thesis
    using True assms less_imp_diff_less [of 7 8 "i mod 8"] by (auto simp: addr_bit_def flip_addr_def bit_flip_bit_iff)
next
  case False
  then show ?thesis by (auto simp: addr_bit_def flip_addr_def)
qed

lemma valid_flip:
  assumes "valid_ip ip" "p < addr_width (ip_family ip)"
  shows "valid_ip (ip\<lparr>ip_addr := flip_addr p (ip_addr ip)\<rparr>)"
  using assms by (auto simp: valid_ip_def flip_addr_def addr_width_def nth_list_update split: if_splits)

lemma base_in_block: "valid_cidr c \<Longrightarrow> base_ip c \<in> cidr_set c"
  by (auto simp: cidr_set_def valid_cidr_def base_ip_def)

lemma block_subset_prefix:
  assumes a: "valid_cidr a" and b: "valid_cidr b" and sub: "cidr_set b \<subseteq> cidr_set a"
  shows "cidr_prefix a \<le> cidr_prefix b"
proof (rule ccontr)
  let ?p = "unat (cidr_prefix b)" and ?ip = "base_ip b"
  assume "\<not> ?thesis"
  then have p: "?p < unat (cidr_prefix a)" by (simp add: word_less_nat_alt not_le)
  have ina: "?ip \<in> cidr_set a" using sub base_in_block [OF b] by auto
  then have fam: "cidr_family b = cidr_family a" by (simp add: cidr_set_def base_ip_def)
  then have w: "?p < addr_width (cidr_family b)" using p a by (simp add: valid_cidr_def)
  then have p128: "?p < 128" by (simp add: addr_width_def split: if_splits)
  have v: "valid_ip ?ip" using b by (simp add: valid_cidr_def)
  then have len: "length (cidr_addr b) = 16" by (simp add: valid_ip_def base_ip_def)
  let ?jp = "?ip\<lparr>ip_addr := flip_addr ?p (ip_addr ?ip)\<rparr>"
  have "valid_ip ?jp" using v w by (intro valid_flip) (simp_all add: base_ip_def)
  then have "?jp \<in> cidr_set b" using addr_bit_flip [OF len p128] by (simp add: cidr_set_def base_ip_def)
  then have "?jp \<in> cidr_set a" using sub by auto
  then have "addr_bit (flip_addr ?p (cidr_addr b)) ?p = addr_bit (cidr_addr a) ?p" using p by (simp add: cidr_set_def base_ip_def)
  moreover have "addr_bit (cidr_addr b) ?p = addr_bit (cidr_addr a) ?p" using ina p by (simp add: cidr_set_def base_ip_def)
  ultimately show False using addr_bit_flip [OF len p128, of ?p] by simp
qed

lemma block_subset_iff:
  assumes a: "valid_cidr a" and b: "valid_cidr b"
  shows "cidr_set b \<subseteq> cidr_set a \<longleftrightarrow> cidr_family a = cidr_family b \<and> cidr_prefix a \<le> cidr_prefix b
    \<and> first_n_bits_match (cidr_addr a) (cidr_addr b) (unat (cidr_prefix a))"
proof
  assume sub: "cidr_set b \<subseteq> cidr_set a"
  then have "base_ip b \<in> cidr_set a" using base_in_block [OF b] by auto
  then show "cidr_family a = cidr_family b \<and> cidr_prefix a \<le> cidr_prefix b
    \<and> first_n_bits_match (cidr_addr a) (cidr_addr b) (unat (cidr_prefix a))"
    using block_subset_prefix [OF a b sub] by (simp add: first_n_bits_exact cidr_set_def base_ip_def)
next
  assume h: "cidr_family a = cidr_family b \<and> cidr_prefix a \<le> cidr_prefix b
    \<and> first_n_bits_match (cidr_addr a) (cidr_addr b) (unat (cidr_prefix a))"
  then have "unat (cidr_prefix a) \<le> unat (cidr_prefix b)" by (simp add: word_le_nat_alt)
  then have "i < unat (cidr_prefix b)" if "i < unat (cidr_prefix a)" for i using that by simp
  then show "cidr_set b \<subseteq> cidr_set a" using h by (auto simp: cidr_set_def first_n_bits_exact)
qed

lemma block_mask:
  assumes "valid_cidr c"
  defines "n \<equiv> c\<lparr>cidr_addr := mask_bits (cidr_addr c) (unat (cidr_prefix c))\<rparr>"
  shows "valid_cidr n" "cidr_set n = cidr_set c"
proof -
  have w: "unat (cidr_prefix c) \<le> 128" using assms(1) by (simp add: valid_cidr_def addr_width_def split: if_splits)
  have z: "cidr_addr c ! k = 0 \<Longrightarrow> k < 16 \<Longrightarrow> mask_bits (cidr_addr c) q ! k = 0" for k q by (simp add: mask_bits_def)
  show "valid_cidr n" using assms(1) z by (simp add: n_def valid_cidr_def valid_ip_def base_ip_def)
  have "addr_bit (mask_bits (cidr_addr c) (unat (cidr_prefix c))) i = addr_bit (cidr_addr c) i" if "i < unat (cidr_prefix c)" for i
    using that w mask_bits_exact [of i] by simp
  then show "cidr_set n = cidr_set c" by (simp add: cidr_set_def n_def)
qed

subsection \<open>What the parsers accept\<close>

text \<open>The documented contract of the codec: four or sixteen bytes.\<close>

definition codec_ok :: "net_lib \<Rightarrow> bool" where
  "codec_ok lib \<longleftrightarrow> (\<forall>t b. pton4 lib t = Some b \<longrightarrow> length b = 4) \<and> (\<forall>t b. pton6 lib t = Some b \<longrightarrow> length b = 16)"

text \<open>A parsed address has one representation: four octets and zeros, or an IPv6 address that is not IPv4-mapped.\<close>

definition normal_ip :: "net_ip \<Rightarrow> bool" where
  "normal_ip ip \<longleftrightarrow> valid_ip ip \<and> (ip_family ip = 6 \<longrightarrow> \<not> is_v4_mapped (ip_addr ip))"

lemma set_ipv4_normal: "normal_ip (set_ipv4 v4)"
  by (simp add: normal_ip_def valid_ip_def set_ipv4_def)

lemma parse_address_normal:
  assumes "codec_ok lib" "parse_address lib bs = Some ip"
  shows "normal_ip ip"
  using assms set_ipv4_normal
  by (auto simp: parse_address_def try_parse_v4_def try_parse_v6_def codec_ok_def split: if_splits option.splits)
     (auto simp: normal_ip_def valid_ip_def)

lemma parse_prefix_from_exact:
  "n \<le> 128 \<Longrightarrow> parse_prefix_from cs n =
     (if (\<forall>c\<in>set cs. is_digit c) \<and> foldl dec_step n cs \<le> 128 then Some (foldl dec_step n cs) else None)"
proof (induction cs arbitrary: n)
  case (Cons c cs)
  have d: "n * 10 + unat (c - 0x30) = dec_step n c" if "is_digit c"
    using that by (simp add: is_digit_def unat_sub dec_step_def)
  have "is_digit c \<longleftrightarrow> \<not> (c < 0x30 \<or> c > 0x39)" by (auto simp: is_digit_def)
  moreover have "dec_step n c \<le> foldl dec_step (dec_step n c) cs" by (rule dec_fold_ge)
  ultimately show ?case
    using Cons.IH [of "dec_step n c"] by (auto simp: Let_def d)
qed simp

lemma parse_prefix_exact:
  "limit \<le> 128 \<Longrightarrow> parse_prefix bs k limit =
     (case digits_value (drop k bs) of None \<Rightarrow> None | Some p \<Rightarrow> if p \<le> limit then Some p else None)"
  using parse_prefix_from_exact [of 0 "drop k bs"] by (auto simp: parse_prefix_def digits_value_def dec_val_def)

lemma last_slash_foldl:
  "foldl (\<lambda>slash k. if P k then k else slash) d [0..<n] = (if \<exists>k<n. P k then Max {k. k < n \<and> P k} else d)"
proof (induction n)
  case (Suc n)
  have "{k. k < Suc n \<and> P k} = (if P n then insert n {k. k < n \<and> P k} else {k. k < n \<and> P k})"
    by (auto simp: less_Suc_eq)
  moreover have "Max (insert n {k. k < n \<and> P k}) = n" by (rule Max_eqI) auto
  ultimately show ?case using Suc.IH by (auto simp: less_Suc_eq)
qed simp

lemma last_slash_none: "0x2F \<notin> set bs \<Longrightarrow> last_slash bs = length bs"
  by (auto simp: last_slash_def last_slash_foldl set_conv_nth)

lemma last_slash_split: "0x2F \<notin> set ds \<Longrightarrow> last_slash (a @ 0x2F # ds) = length a"
proof -
  assume h: "0x2F \<notin> set ds"
  let ?s = "a @ 0x2F # ds"
  have "Max {k. k < length ?s \<and> ?s ! k = 0x2F} = length a"
  proof (rule Max_eqI)
    fix k assume k: "k \<in> {k. k < length ?s \<and> ?s ! k = 0x2F}"
    show "k \<le> length a"
    proof (rule ccontr)
      assume "\<not> k \<le> length a"
      moreover from this have "k - Suc (length a) < length ds" using k by auto
      ultimately show False using k h nth_mem [of "k - Suc (length a)" ds] by (auto simp: nth_append)
    qed
  qed auto
  moreover have "\<exists>k<length ?s. ?s ! k = 0x2F" by (intro exI [of _ "length a"]) simp
  ultimately show ?thesis by (simp only: last_slash_def last_slash_foldl if_True)
qed

text \<open>The CIDR literals: an address, the last slash, and a decimal prefix of at most the family's width.\<close>

definition cidr_literal :: "net_lib \<Rightarrow> u8 list \<Rightarrow> net_cidr \<Rightarrow> bool" where
  "cidr_literal lib bs c \<longleftrightarrow> (\<exists>a ds p. bs = a @ 0x2F # ds \<and> 0x2F \<notin> set ds \<and> parse_address lib a = Some (base_ip c)
     \<and> digits_value ds = Some p \<and> p \<le> addr_width (cidr_family c) \<and> cidr_prefix c = word_of_nat p)"

lemma digits_no_slash: "digits_value ds = Some p \<Longrightarrow> 0x2F \<notin> set ds"
  by (auto simp: digits_value_def is_digit_def split: if_splits)

lemma parse_cidr_split:
  assumes "0x2F \<notin> set ds"
  shows "parse_cidr lib (a @ 0x2F # ds) =
    (case parse_address lib a of None \<Rightarrow> None
     | Some ip \<Rightarrow> (case digits_value ds of None \<Rightarrow> None
         | Some p \<Rightarrow> if p \<le> addr_width (ip_family ip)
             then Some \<lparr>cidr_family = ip_family ip, cidr_prefix = word_of_nat p, cidr_addr = ip_addr ip\<rparr> else None))"
  using last_slash_split [OF assms, of a]
  by (simp add: parse_cidr_def Let_def parse_prefix_exact addr_width_def split: option.splits)

lemma parse_cidr_exact: "parse_cidr lib bs = Some c \<longleftrightarrow> cidr_literal lib bs c"
proof (cases "0x2F \<in> set bs")
  case False
  then show ?thesis using last_slash_none [OF False] by (auto simp: parse_cidr_def cidr_literal_def)
next
  case True
  then obtain a ds where s: "bs = a @ 0x2F # ds" "0x2F \<notin> set ds" by (metis split_list_last)
  have u: "a' = a \<and> ds' = ds" if "bs = a' @ 0x2F # ds'" "0x2F \<notin> set ds'" for a' ds'
    using that s last_slash_split [of ds a] last_slash_split [of ds' a'] by (simp add: append_eq_append_conv)
  have "cidr_literal lib bs c \<longleftrightarrow> (\<exists>p. parse_address lib a = Some (base_ip c)
     \<and> digits_value ds = Some p \<and> p \<le> addr_width (cidr_family c) \<and> cidr_prefix c = word_of_nat p)"
    unfolding cidr_literal_def using s u by blast
  then show ?thesis
    unfolding s(1) parse_cidr_split [OF s(2)]
    by (cases c) (auto simp: base_ip_def split: option.splits)
qed

lemma cidr_literal_valid:
  assumes "codec_ok lib" "cidr_literal lib bs c"
  shows "valid_cidr c" "normal_ip (base_ip c)"
proof -
  obtain a p where h: "parse_address lib a = Some (base_ip c)" "p \<le> addr_width (cidr_family c)" "cidr_prefix c = word_of_nat p"
    using assms(2) by (auto simp: cidr_literal_def)
  show n: "normal_ip (base_ip c)" by (rule parse_address_normal [OF assms(1) h(1)])
  have "p \<le> 128" using h(2) by (simp add: addr_width_def split: if_splits)
  then show "valid_cidr c" using h(2,3) n by (simp add: valid_cidr_def normal_ip_def unat_of_nat)
qed

text \<open>
  The address literals, by the codec and the policy alone: at most 39 bytes and no zone id; dotted
  decimal without a leading zero in an octet; or, where the codec reads no IPv4 address, colons and no
  dots, an IPv4-mapped address being the IPv4 address. The codec reads C strings, so this is about texts
  without a NUL byte.
\<close>

definition plain_octets :: "u8 list \<Rightarrow> bool" where
  "plain_octets t \<longleftrightarrow> (\<nexists>pre d post. t = pre @ 0x30 # d # post \<and> is_digit d \<and> (pre = [] \<or> last pre = 0x2E))"

definition address_text :: "u8 list \<Rightarrow> bool" where
  "address_text t \<longleftrightarrow> t \<noteq> [] \<and> length t \<le> 39 \<and> 0x25 \<notin> set t"

definition ipv4 :: "u8 list \<Rightarrow> net_ip" where "ipv4 b = \<lparr>ip_family = 4, ip_addr = b @ replicate 12 0\<rparr>"

inductive address_literal :: "net_lib \<Rightarrow> u8 list \<Rightarrow> net_ip \<Rightarrow> bool" for lib t where
  dotted: "address_text t \<Longrightarrow> pton4 lib t = Some b \<Longrightarrow> plain_octets t \<Longrightarrow> address_literal lib t (ipv4 b)"
| mapped: "address_text t \<Longrightarrow> pton4 lib t = None \<Longrightarrow> 0x3A \<in> set t \<Longrightarrow> 0x2E \<notin> set t
    \<Longrightarrow> pton6 lib t = Some (replicate 10 0 @ [0xFF, 0xFF] @ b) \<Longrightarrow> address_literal lib t (ipv4 b)"
| hex: "address_text t \<Longrightarrow> pton4 lib t = None \<Longrightarrow> 0x3A \<in> set t \<Longrightarrow> 0x2E \<notin> set t
    \<Longrightarrow> pton6 lib t = Some b \<Longrightarrow> \<nexists>v. b = replicate 10 0 @ [0xFF, 0xFF] @ v
    \<Longrightarrow> address_literal lib t \<lparr>ip_family = 6, ip_addr = b\<rparr>"

inductive_simps address_literal_iff: "address_literal lib t ip"

lemma plain_octets_iff: "plain_octets t \<longleftrightarrow> \<not> has_leading_zero_octet t"
proof -
  have "has_leading_zero_octet t \<longleftrightarrow> (\<exists>pre d post. t = pre @ 0x30 # d # post \<and> is_digit d \<and> (pre = [] \<or> last pre = 0x2E))"
    (is "?l \<longleftrightarrow> ?r")
  proof
    assume ?l
    then obtain k where k: "k + 1 < length t" "k = 0 \<or> t ! (k - 1) = 0x2E" "t ! k = 0x30" "is_digit (t ! (k + 1))"
      by (auto simp: has_leading_zero_octet_def list_ex_iff is_digit_def)
    have "t = take k t @ t ! k # t ! (k + 1) # drop (k + 2) t" using k(1) by (simp add: Cons_nth_drop_Suc)
    moreover have "take k t = [] \<or> last (take k t) = 0x2E"
    proof (cases "k = 0")
      case False
      then have "take k t \<noteq> []" using k(1) by auto
      then have "last (take k t) = t ! (k - 1)" using k(1) False by (simp add: last_conv_nth)
      then show ?thesis using k(2) False by simp
    qed simp
    ultimately show ?r using k(3,4) by metis
  next
    assume ?r
    then obtain pre d post where t: "t = pre @ 0x30 # d # post" "is_digit d" "pre = [] \<or> last pre = 0x2E" by blast
    have "length pre = 0 \<or> t ! (length pre - 1) = 0x2E"
    proof (cases "pre = []")
      case False
      then have "t ! (length pre - 1) = last pre" using t(1) by (simp add: nth_append last_conv_nth)
      then show ?thesis using t(3) False by simp
    qed simp
    moreover have "length pre \<in> set [0..<length t]" using t(1) by simp
    ultimately show ?l unfolding has_leading_zero_octet_def list_ex_iff using t(1,2)
      by (intro bexI [of _ "length pre"]) (auto simp: nth_append is_digit_def)
  qed
  then show ?thesis by (simp add: plain_octets_def)
qed

lemma is_v4_mapped_iff: "length b = 16 \<Longrightarrow> is_v4_mapped b \<longleftrightarrow> (\<exists>v. b = replicate 10 0 @ [0xFF, 0xFF] @ v)"
proof
  assume l: "length b = 16" and m: "is_v4_mapped b"
  have "take 10 b = replicate 10 0" using l m by (intro nth_equalityI) (auto simp: is_v4_mapped_def list_all_iff)
  moreover have "drop 10 b = b ! 10 # b ! 11 # drop 12 b" using l Cons_nth_drop_Suc [of 10 b] Cons_nth_drop_Suc [of 11 b] by simp
  ultimately show "\<exists>v. b = replicate 10 0 @ [0xFF, 0xFF] @ v" using m append_take_drop_id [of 10 b]
    by (intro exI [of _ "drop 12 b"]) (simp add: is_v4_mapped_def)
next
  assume "\<exists>v. b = replicate 10 0 @ [0xFF, 0xFF] @ v"
  then show "is_v4_mapped b" by (auto simp: is_v4_mapped_def list_all_iff nth_append)
qed

lemma set_ipv4_eq: "length b = 4 \<Longrightarrow> set_ipv4 b = ipv4 b"
  by (auto simp: set_ipv4_def ipv4_def nth_append intro!: nth_equalityI)

lemma parse_address_exact:
  assumes lib: "codec_ok lib" and nul: "0 \<notin> set t"
  shows "parse_address lib t = Some ip \<longleftrightarrow> address_literal lib t ip"
proof -
  have c: "c_string t = t" using nul by (auto simp: c_string_def takeWhile_eq_all_conv)
  have has: "span_has t x \<longleftrightarrow> x \<in> set t" for x by (auto simp: span_has_def list_ex_iff)
  have fits: "\<not> (length t = 0 \<or> length t > kNetIpMaxText) \<and> \<not> span_has t 0x25 \<longleftrightarrow> address_text t"
    by (auto simp: address_text_def has)
  show ?thesis
  proof (cases "address_text t")
    case False
    then have "parse_address lib t = None" using fits by (auto simp: parse_address_def)
    then show ?thesis using False by (simp add: address_literal_iff)
  next
    case True
    then have p: "parse_address lib t = (case try_parse_v4 lib t t of Some r \<Rightarrow> r | None \<Rightarrow> try_parse_v6 lib t t)"
      using fits unfolding parse_address_def c by auto
    show ?thesis
    proof (cases "pton4 lib t")
      case (Some b)
      then have "length b = 4" using lib by (auto simp: codec_ok_def)
      then show ?thesis using True Some
        by (auto simp: p try_parse_v4_def address_literal_iff plain_octets_iff set_ipv4_eq)
    next
      case None
      show ?thesis
      proof (cases "pton6 lib t")
        case None
        then show ?thesis using True \<open>pton4 lib t = None\<close> by (auto simp: p try_parse_v4_def try_parse_v6_def address_literal_iff)
      next
        case (Some b)
        then have l: "length b = 16" using lib by (auto simp: codec_ok_def)
        have d: "length v = 4 \<and> drop 12 b = v" if "b = replicate 10 0 @ [0xFF, 0xFF] @ v" for v using that l by simp
        show ?thesis using True \<open>pton4 lib t = None\<close> Some is_v4_mapped_iff [OF l] d
          by (auto simp: p try_parse_v4_def try_parse_v6_def address_literal_iff has set_ipv4_eq)
      qed
    qed
  qed
qed

text \<open>The CIDR literals over them.\<close>

definition cidr_text :: "net_lib \<Rightarrow> u8 list \<Rightarrow> net_cidr \<Rightarrow> bool" where
  "cidr_text lib bs c \<longleftrightarrow> (\<exists>a ds p. bs = a @ 0x2F # ds \<and> 0x2F \<notin> set ds \<and> address_literal lib a (base_ip c)
     \<and> digits_value ds = Some p \<and> p \<le> addr_width (cidr_family c) \<and> cidr_prefix c = word_of_nat p)"

lemma cidr_text_literal: "codec_ok lib \<Longrightarrow> 0 \<notin> set bs \<Longrightarrow> cidr_text lib bs c \<longleftrightarrow> cidr_literal lib bs c"
  unfolding cidr_text_def cidr_literal_def by (rule ex_cong1, rule ex_cong1, rule ex_cong1) (auto simp: parse_address_exact)


subsection \<open>Publishing a record\<close>

text \<open>A record result: the overflow error exactly when the arena refuses the block, else a fresh block that reads back as the record.\<close>

definition published :: "u32 \<Rightarrow> u32 \<Rightarrow> (memory \<Rightarrow> u32 \<Rightarrow> 'r) \<Rightarrow> u32 \<Rightarrow> 'r \<Rightarrow> rt \<Rightarrow> rt \<Rightarrow> bool" where
  "published kind rec_len get out x s s' \<longleftrightarrow> keeps (cel_value_at out) s s'
     \<and> (if \<exists>t. arena_alloc rec_len s = Some (0, t) then is_err (cv s' out) CEL_ERR_OVERFLOW
        else cv_kind (cv s' out) = kind \<and> get (mem s') (pl_net_ref (cv s' out)) = x
          \<and> kept_range s' (unat (pl_net_ref (cv s' out))) (unat rec_len)
          \<and> fresh_range s (unat (pl_net_ref (cv s' out))) (unat rec_len))"

lemma cell_stamp_net:
  "cv_kind (load_cv (mem (stamp_net kind out off s)) out) = kind"
  "pl_net_ref (load_cv (mem (stamp_net kind out off s)) out) = off"
  by (simp_all add: stamp_net_def pl_net_ref_def mem_simps pl_defs)

lemma only_cell_stamp_net: "only_cell out s (stamp_net kind out off s)"
proof -
  have "same_outside out 24 (mem s) (store32 (mem s) out kind)" by (rule same_outside_store32) simp_all
  also have "same_outside out 24 \<dots> (store32 (store32 (mem s) out kind) (out + 4) 0)" by (rule same_outside_store32) simp_all
  also have "same_outside out 24 \<dots> (mem (stamp_net kind out off s))"
    unfolding stamp_net_def by (simp, rule same_outside_store32) simp_all
  finally show ?thesis by (simp add: only_cell_def stamp_net_def)
qed

locale net_record =
  fixes rec_len :: u32
    and put :: "memory \<Rightarrow> u32 \<Rightarrow> 'r \<Rightarrow> memory"
    and get :: "memory \<Rightarrow> u32 \<Rightarrow> 'r"
    and wf :: "'r \<Rightarrow> bool"
  assumes put_frame: "wf x \<Longrightarrow> same_outside (unat p) (unat rec_len) m (put m p x)"
    and get_put: "wf x \<Longrightarrow> get (put m p x) p = x"
    and get_local: "(\<And>i. i < unat rec_len \<Longrightarrow> m' (unat p + i) = m (unat p + i)) \<Longrightarrow> get m' p = get m p"
begin

lemma publish:
  assumes ok: "arena_ok s" "kept_range s (cel_value_at out) 24" and x: "wf x"
  shows "\<exists>s'. (arena_alloc rec_len s \<bind> (\<lambda>(off, s). if off = 0 then Some (poison (cel_value_at out) CEL_ERR_OVERFLOW s)
      else Some (stamp_net kind (cel_value_at out) off (s\<lparr>mem := put (mem s) off x\<rparr>)))) = Some s'
    \<and> published kind rec_len get out x s s'"
proof (cases rule: arena_alloc_extends [OF ok(1), of rec_len])
  let ?o = "cel_value_at out"
  case (1 t)
  have "arena_ok t" using 1(2) by (simp add: extends_def)
  then have "keeps ?o t (poison ?o CEL_ERR_OVERFLOW t)" by (intro only_cell_keeps) simp_all
  then have "keeps ?o s (poison ?o CEL_ERR_OVERFLOW t)" by (rule keeps_trans [OF extends_keeps [OF 1(2)]])
  then show ?thesis using 1(1) by (auto simp: published_def is_err_poison)
next
  let ?o = "cel_value_at out"
  case (2 p t)
  let ?u = "t\<lparr>mem := put (mem t) p x\<rparr>"
  let ?s' = "stamp_net kind ?o p ?u"
  have ext: "extends s ?u" by (rule extends_fill [OF 2(3) put_frame [OF x] 2(5)])
  then have u: "arena_ok ?u" by (simp add: extends_def)
  then have "keeps ?o ?u ?s'" by (intro only_cell_keeps only_cell_stamp_net)
  then have k: "keeps ?o s ?s'" by (rule keeps_trans [OF extends_keeps [OF ext]])
  have ap: "apart ?o 24 (unat p) (unat rec_len)" by (rule kept_outside [OF 2(5) ok(2)])
  have "mem ?s' (unat p + i) = mem ?u (unat p + i)" if "i < unat rec_len" for i
    using only_cell_stamp_net [of ?o ?u kind p] ap that by (auto simp: only_cell_def same_outside_def apart_def)
  then have "get (mem ?s') p = get (mem ?u) p" by (rule get_local)
  then have "get (mem ?s') p = x" using get_put [OF x] by simp
  moreover have "kept_range ?s' (unat p) (unat rec_len)" using 2(4) by (simp add: stamp_net_def)
  moreover have "fresh_range s (unat p) (unat rec_len)" using 2(5) by (simp add: fresh_range_def)
  ultimately show ?thesis using 2(1,2) k by (auto simp: published_def cell_stamp_net)
qed

end

lemma store_bytes_16: "length bs = 16 \<Longrightarrow> bytes_at (store_bytes m a bs) a 16 = bs"
  using bytes_at_store_bytes [of m a bs] by simp

interpretation ip_rec: net_record 20 store_ip load_ip "\<lambda>ip. length (ip_addr ip) = 16"
proof
  fix x :: net_ip and p :: u32 and m
  assume x: "length (ip_addr x) = 16"
  have "same_outside (unat p) 20 m (store32 m (unat p) (ip_family x))" by (rule same_outside_store32) simp_all
  also have "same_outside (unat p) 20 \<dots> (store_ip m p x)"
    unfolding store_ip_def by (rule same_outside_store_bytes) (simp_all add: x)
  finally show "same_outside (unat p) (unat (20 :: u32)) m (store_ip m p x)" by simp
  have "load32 (store_bytes (store32 m (unat p) w) (unat p + 4) (ip_addr x)) (unat p) = w" for w
    using load32_cong [of "store_bytes (store32 m (unat p) w) (unat p + 4) (ip_addr x)" "unat p" "store32 m (unat p) w"]
    by (simp add: store_bytes_apply mem_simps)
  then show "load_ip (store_ip m p x) p = x" by (simp add: load_ip_def store_ip_def store_bytes_16 [OF x])
qed (auto simp: load_ip_def add.assoc intro!: load32_cong bytes_at_cong)


interpretation cidr_rec: net_record 24 store_cidr load_cidr "\<lambda>c. length (cidr_addr c) = 16"
proof
  fix x :: net_cidr and p :: u32 and m
  assume x: "length (cidr_addr x) = 16"
  let ?h = "store32 (store32 m (unat p) (cidr_family x)) (unat p + 4) (cidr_prefix x)"
  have "same_outside (unat p) 24 m (store32 m (unat p) (cidr_family x))" by (rule same_outside_store32) simp_all
  also have "same_outside (unat p) 24 \<dots> ?h" by (rule same_outside_store32) simp_all
  also have "same_outside (unat p) 24 \<dots> (store_cidr m p x)"
    unfolding store_cidr_def by (rule same_outside_store_bytes) (simp_all add: x)
  finally show "same_outside (unat p) (unat (24 :: u32)) m (store_cidr m p x)" by simp
  have "load32 (store_bytes ?h (unat p + 8) (cidr_addr x)) a = load32 ?h a" if "a = unat p \<or> a = unat p + 4" for a
    by (rule load32_cong) (use that in \<open>auto simp: store_bytes_apply\<close>)
  then show "load_cidr (store_cidr m p x) p = x" by (simp add: load_cidr_def store_cidr_def store_bytes_16 [OF x] mem_simps)
qed (auto simp: load_cidr_def add.assoc intro!: load32_cong bytes_at_cong)

lemma publish_ip_correct:
  assumes "arena_ok s" "kept_range s (cel_value_at out) 24" "length (ip_addr ip) = 16"
  shows "\<exists>s'. publish_ip (cel_value_at out) ip s = Some s' \<and> published CEL_IP 20 load_ip out ip s s'"
  using ip_rec.publish [OF assms, of CEL_IP] by (simp add: publish_ip_def)

lemma publish_cidr_correct:
  assumes "arena_ok s" "kept_range s (cel_value_at out) 24" "length (cidr_addr c) = 16"
  shows "\<exists>s'. publish_cidr (cel_value_at out) c s = Some s' \<and> published CEL_CIDR 24 load_cidr out c s s'"
proof -
  have "publish_cidr (cel_value_at out) c s = arena_alloc 24 s \<bind> (\<lambda>(off, s). if off = 0 then Some (poison (cel_value_at out) CEL_ERR_OVERFLOW s)
      else Some (stamp_net CEL_CIDR (cel_value_at out) off (s\<lparr>mem := store_cidr (mem s) off c\<rparr>)))"
    by (simp add: publish_cidr_def alloc_cidr_def bind_assoc split: bind_split)
  then show ?thesis using cidr_rec.publish [OF assms, of CEL_CIDR] by simp
qed

lemma strict_alloc_v_value:
  assumes "cv_kind (cv s v_slot) = want" "want \<noteq> CEL_ERROR" "want \<noteq> CEL_UNKNOWN"
  shows "strict_alloc_v want body out_slot v_slot s = body (cel_value_at out_slot) (cv s v_slot) s"
  using assms by (simp add: strict_alloc_v_def absorb_3vl_unary_def)

subsection \<open>Properties\<close>

text \<open>
  C21. The address and CIDR parsers are exact, on strings without a NUL byte. \<open>ip\<close> and \<open>isIP\<close> accept
  precisely the texts of 1 to 39 bytes without a zone id that the codec reads as IPv4 with no leading
  zero in an octet, or else, with colons and no dots, as IPv6; \<open>cidr\<close> accepts such a text, a slash, and a
  non-empty run of decimal digits of value at most 32 or 128. What they publish in a fresh arena record
  is that address (and prefix) in the one normal form of its family, an IPv4-mapped address being IPv4, or
  the overflow error exactly when the arena refuses the record; every other text is the invalid-argument error, or false for \<open>isIP\<close>.
\<close>

theorem net_parsers_exact:
  assumes ok: "arena_ok s" "kept_range s (cel_value_at out) 24" and kind: "cv_kind (cv s a) = CEL_STRING" and lib: "codec_ok lib"
    and nul: "0 \<notin> set (str_of (mem s) (cv s a))"
  defines "lit \<equiv> str_of (mem s) (cv s a)"
  shows "(\<exists>s'. cel_cidr_parse_at_v lib out a s = Some s'
      \<and> (if \<exists>c. cidr_text lib lit c
         then \<exists>c. cidr_text lib lit c \<and> valid_cidr c \<and> normal_ip (base_ip c) \<and> published CEL_CIDR 24 load_cidr out c s s'
         else s' = poison (cel_value_at out) CEL_ERR_INVALID_ARGUMENT s))
    \<and> (\<exists>s'. cel_ip_parse_at_v lib out a s = Some s'
      \<and> (if \<exists>ip. address_literal lib lit ip
         then \<exists>ip. address_literal lib lit ip \<and> normal_ip ip \<and> published CEL_IP 20 load_ip out ip s s'
         else s' = poison (cel_value_at out) CEL_ERR_INVALID_ARGUMENT s))
    \<and> cel_isip_at_v lib out a s = Some (write_bool (cel_value_at out) (\<exists>ip. address_literal lib lit ip) s)"
proof (intro conjI)
  have nul': "0 \<notin> set lit" using nul by (simp add: lit_def)
  note block = cidr_text_literal [OF lib nul'] and addr = parse_address_exact [OF lib nul', symmetric]
  show "\<exists>s'. cel_cidr_parse_at_v lib out a s = Some s'
      \<and> (if \<exists>c. cidr_text lib lit c
         then \<exists>c. cidr_text lib lit c \<and> valid_cidr c \<and> normal_ip (base_ip c) \<and> published CEL_CIDR 24 load_cidr out c s s'
         else s' = poison (cel_value_at out) CEL_ERR_INVALID_ARGUMENT s)"
    unfolding block
  proof (cases "parse_cidr lib lit")
    case None
    then have "\<not> (\<exists>c. cidr_literal lib lit c)" by (metis parse_cidr_exact option.distinct(1))
    then show "\<exists>s'. cel_cidr_parse_at_v lib out a s = Some s'
      \<and> (if \<exists>c. cidr_literal lib lit c
         then \<exists>c. cidr_literal lib lit c \<and> valid_cidr c \<and> normal_ip (base_ip c) \<and> published CEL_CIDR 24 load_cidr out c s s'
         else s' = poison (cel_value_at out) CEL_ERR_INVALID_ARGUMENT s)"
      using None kind by (simp add: cel_cidr_parse_at_v_def strict_alloc_v_value lit_def)
  next
    case (Some c)
    then have l: "cidr_literal lib lit c" by (simp add: parse_cidr_exact)
    note v = cidr_literal_valid [OF lib l]
    have "length (cidr_addr c) = 16" using v(1) by (simp add: valid_cidr_def valid_ip_def base_ip_def)
    from publish_cidr_correct [OF ok this] show "\<exists>s'. cel_cidr_parse_at_v lib out a s = Some s'
      \<and> (if \<exists>c. cidr_literal lib lit c
         then \<exists>c. cidr_literal lib lit c \<and> valid_cidr c \<and> normal_ip (base_ip c) \<and> published CEL_CIDR 24 load_cidr out c s s'
         else s' = poison (cel_value_at out) CEL_ERR_INVALID_ARGUMENT s)"
      using Some l v kind by (auto simp: cel_cidr_parse_at_v_def strict_alloc_v_value lit_def)
  qed
  show "\<exists>s'. cel_ip_parse_at_v lib out a s = Some s'
      \<and> (if \<exists>ip. address_literal lib lit ip
         then \<exists>ip. address_literal lib lit ip \<and> normal_ip ip \<and> published CEL_IP 20 load_ip out ip s s'
         else s' = poison (cel_value_at out) CEL_ERR_INVALID_ARGUMENT s)"
    unfolding addr using publish_ip_correct [OF ok] parse_address_normal [OF lib, of lit] kind
    by (cases "parse_address lib lit")
      (auto simp: cel_ip_parse_at_v_def strict_alloc_v_value lit_def normal_ip_def valid_ip_def)
  show "cel_isip_at_v lib out a s = Some (write_bool (cel_value_at out) (\<exists>ip. address_literal lib lit ip) s)"
    unfolding addr using kind by (simp add: cel_isip_at_v_def strict_v_value lit_def)
qed


text \<open>
  A codec of two texts, and a state with a CIDR literal at slot 128, the blocks 10.0.0.0/8 and
  10.1.2.0/16 at slots 160 and 192.
\<close>

definition sample_codec :: net_lib where
  "sample_codec = \<lparr>pton4 = (\<lambda>t. if t = [0x31, 0x30, 0x2E, 0x30, 0x2E, 0x30, 0x2E, 0x30] then Some [10, 0, 0, 0] else None),
     pton6 = (\<lambda>t. if t = [0x3A, 0x3A] then Some (replicate 16 0) else None), ntop4 = (\<lambda>_. []), ntop6 = (\<lambda>_. [])\<rparr>"

lemma sample_codec_ok: "codec_ok sample_codec"
  by (auto simp: codec_ok_def sample_codec_def)

definition sample_literal :: "u8 list" where
  "sample_literal = [0x31, 0x30, 0x2E, 0x30, 0x2E, 0x30, 0x2E, 0x30, 0x2F, 0x38]"

definition sample_block :: "u32 \<Rightarrow> u8 list \<Rightarrow> net_cidr" where
  "sample_block p bs = \<lparr>cidr_family = 4, cidr_prefix = p, cidr_addr = bs @ replicate 12 0\<rparr>"

definition sample_net :: rt where
  "sample_net = sample_rt\<lparr>mem :=
     store_bytes (store_cidr (store_cidr (store_cv (store_cv (store_cv (\<lambda>_. 0)
       128 \<lparr>cv_kind = CEL_STRING, cv_pad = 0, cv_lo = join32 512 10, cv_hi = 0\<rparr>)
       160 \<lparr>cv_kind = CEL_CIDR, cv_pad = 0, cv_lo = join32 600 0, cv_hi = 0\<rparr>)
       192 \<lparr>cv_kind = CEL_CIDR, cv_pad = 0, cv_lo = join32 640 0, cv_hi = 0\<rparr>)
       600 (sample_block 8 [10, 0, 0, 0])) 640 (sample_block 16 [10, 1, 2, 0])) 512 sample_literal\<rparr>"

lemma sample_net_ok: "arena_ok sample_net"
  by (simp add: sample_net_def sample_rt_ok)

lemma length_sample_block [simp]: "length bs = 4 \<Longrightarrow> length (cidr_addr (sample_block p bs)) = 16"
  by (simp add: sample_block_def)

lemma sample_literal_parse: "parse_cidr sample_codec sample_literal = Some (sample_block 8 [10, 0, 0, 0])"
  by code_simp

lemma load_cv_store_cidr: "a + 24 \<le> unat p \<Longrightarrow> load_cv (store_cidr m p c) a = load_cv m a"
  by (rule load_cv_local) (auto simp: store_cidr_def store_bytes_apply store32_frame)

lemma load_cv_store_bytes: "a + 24 \<le> p \<Longrightarrow> load_cv (store_bytes m p bs) a = load_cv m a"
  by (rule load_cv_local) (auto simp: store_bytes_apply)

lemma load_cidr_store_cidr: "unat q + 24 \<le> unat p \<Longrightarrow> load_cidr (store_cidr m p c) q = load_cidr m q"
  by (rule cidr_rec.get_local) (auto simp: store_cidr_def store_bytes_apply store32_frame)

lemma load_cidr_store_bytes: "p + length bs \<le> unat q \<Longrightarrow> load_cidr (store_bytes m p bs) q = load_cidr m q"
  by (rule cidr_rec.get_local) (auto simp: store_bytes_apply)

lemma sample_net_cells:
  "cv sample_net 128 = \<lparr>cv_kind = CEL_STRING, cv_pad = 0, cv_lo = join32 512 10, cv_hi = 0\<rparr>"
  "cv sample_net 160 = \<lparr>cv_kind = CEL_CIDR, cv_pad = 0, cv_lo = join32 600 0, cv_hi = 0\<rparr>"
  "cv sample_net 192 = \<lparr>cv_kind = CEL_CIDR, cv_pad = 0, cv_lo = join32 640 0, cv_hi = 0\<rparr>"
  "str_of (mem sample_net) (cv sample_net 128) = sample_literal"
  "load_cidr (mem sample_net) 600 = sample_block 8 [10, 0, 0, 0]"
  "load_cidr (mem sample_net) 640 = sample_block 16 [10, 1, 2, 0]"
proof -
  show c: "cv sample_net 128 = \<lparr>cv_kind = CEL_STRING, cv_pad = 0, cv_lo = join32 512 10, cv_hi = 0\<rparr>"
    "cv sample_net 160 = \<lparr>cv_kind = CEL_CIDR, cv_pad = 0, cv_lo = join32 600 0, cv_hi = 0\<rparr>"
    "cv sample_net 192 = \<lparr>cv_kind = CEL_CIDR, cv_pad = 0, cv_lo = join32 640 0, cv_hi = 0\<rparr>"
    by (simp_all add: sample_net_def cel_value_at_def load_cv_store_cidr load_cv_store_bytes mem_simps)
  have l: "length sample_literal = 10" by (simp add: sample_literal_def)
  then show "str_of (mem sample_net) (cv sample_net 128) = sample_literal"
    unfolding c using bytes_at_store_bytes [of _ 512 sample_literal] by (simp add: span_bytes_def sample_net_def pl_defs)
  show "load_cidr (mem sample_net) 600 = sample_block 8 [10, 0, 0, 0]" "load_cidr (mem sample_net) 640 = sample_block 16 [10, 1, 2, 0]"
    by (simp_all add: sample_net_def load_cidr_store_bytes load_cidr_store_cidr l cidr_rec.get_put)
qed

theorem net_parsers_exact_witness:
  "\<exists>s'. cel_cidr_parse_at_v sample_codec 256 128 sample_net = Some s'
     \<and> published CEL_CIDR 24 load_cidr 256 (sample_block 8 [10, 0, 0, 0]) sample_net s'"
proof -
  have nul: "0 \<notin> set sample_literal" by (simp add: sample_literal_def)
  have "cidr_text sample_codec sample_literal c \<longleftrightarrow> c = sample_block 8 [10, 0, 0, 0]" for c
    using sample_literal_parse parse_cidr_exact [of sample_codec sample_literal c] cidr_text_literal [OF sample_codec_ok nul] by auto
  then show ?thesis
    using net_parsers_exact [OF sample_net_ok _ _ sample_codec_ok, of 256 128] sample_net_cells(1,4) nul
    by (auto simp: low_kept cel_value_at_def split: if_splits)
qed

text \<open>
  C22. CIDR containment is containment of sets of addresses. A valid block is the set of the addresses of
  its family that agree with it on the prefix, bit by bit; \<open>containsIP\<close> decides membership and
  \<open>containsCIDR\<close> inclusion, of a value or of a string that the parsers accept, an unparseable string
  being the invalid-argument error; \<open>masked\<close> publishes the same set with every bit past the prefix cleared.
\<close>

theorem cidr_blocks_exact:
  fixes s a
  defines "c \<equiv> load_cidr (mem s) (pl_net_ref (cv s a))"
  assumes a: "cv_kind (cv s a) = CEL_CIDR" "valid_cidr c" and lib: "codec_ok lib"
    and ok: "arena_ok s" "kept_range s (cel_value_at out) 24"
  shows "(cv_kind (cv s b) = CEL_IP \<and> valid_ip (load_ip (mem s) (pl_net_ref (cv s b))) \<longrightarrow>
       cel_cidr_contains_ip_at_vv lib out a b s
         = Some (write_bool (cel_value_at out) (load_ip (mem s) (pl_net_ref (cv s b)) \<in> cidr_set c) s))
    \<and> (cv_kind (cv s b) = CEL_CIDR \<and> valid_cidr (load_cidr (mem s) (pl_net_ref (cv s b))) \<longrightarrow>
       cel_cidr_contains_cidr_at_vv lib out a b s
         = Some (write_bool (cel_value_at out) (cidr_set (load_cidr (mem s) (pl_net_ref (cv s b))) \<subseteq> cidr_set c) s))
    \<and> (cv_kind (cv s b) = CEL_STRING \<longrightarrow>
       cel_cidr_contains_ip_at_vv lib out a b s = Some (case parse_address lib (str_of (mem s) (cv s b)) of
           None \<Rightarrow> poison (cel_value_at out) CEL_ERR_INVALID_ARGUMENT s
         | Some ip \<Rightarrow> write_bool (cel_value_at out) (ip \<in> cidr_set c) s)
     \<and> cel_cidr_contains_cidr_at_vv lib out a b s = Some (case parse_cidr lib (str_of (mem s) (cv s b)) of
           None \<Rightarrow> poison (cel_value_at out) CEL_ERR_INVALID_ARGUMENT s
         | Some d \<Rightarrow> write_bool (cel_value_at out) (cidr_set d \<subseteq> cidr_set c) s))
    \<and> (\<exists>s' n. cel_cidr_masked_at_v out a s = Some s' \<and> published CEL_CIDR 24 load_cidr out n s s'
         \<and> valid_cidr n \<and> cidr_set n = cidr_set c
         \<and> (\<forall>i<128. addr_bit (cidr_addr n) i \<longleftrightarrow> i < unat (cidr_prefix c) \<and> addr_bit (cidr_addr c) i))"
proof -
  have member: "ip \<in> cidr_set c \<longleftrightarrow> cidr_family c = ip_family ip \<and> first_n_bits_match (cidr_addr c) (ip_addr ip) (unat (cidr_prefix c))"
    if "valid_ip ip" for ip using that by (auto simp: cidr_set_def first_n_bits_exact)
  have inclusion: "cidr_set d \<subseteq> cidr_set c \<longleftrightarrow> \<not> (cidr_family c \<noteq> cidr_family d \<or> cidr_prefix c > cidr_prefix d)
      \<and> first_n_bits_match (cidr_addr c) (cidr_addr d) (unat (cidr_prefix c))" if "valid_cidr d" for d
    using block_subset_iff [OF a(2) that] by (auto simp: not_less)
  have parsed: "valid_ip ip" if "parse_address lib t = Some ip" for t ip
    using parse_address_normal [OF lib that] by (simp add: normal_ip_def)
  have parsed_block: "valid_cidr d" if "parse_cidr lib t = Some d" for t d
    using cidr_literal_valid(1) [OF lib] that by (simp add: parse_cidr_exact)
  note defs = absorb_3vl_binary_def a(1) resolve_arg_ip_def resolve_arg_cidr_def Let_def c_def [symmetric]
  let ?n = "c\<lparr>cidr_addr := mask_bits (cidr_addr c) (unat (cidr_prefix c))\<rparr>"
  let ?d = "load_cidr (mem s) (pl_net_ref (cv s b))"
  obtain t where m: "cel_cidr_masked_at_v out a s = Some t" "published CEL_CIDR 24 load_cidr out ?n s t"
    using publish_cidr_correct [OF ok, of ?n] a base_ip_def
    by (auto simp: cel_cidr_masked_at_v_def strict_alloc_v_value c_def Let_def)
  show ?thesis
  proof (intro conjI impI)
    assume b: "cv_kind (cv s b) = CEL_IP \<and> valid_ip (load_ip (mem s) (pl_net_ref (cv s b)))"
    then show "cel_cidr_contains_ip_at_vv lib out a b s
         = Some (write_bool (cel_value_at out) (load_ip (mem s) (pl_net_ref (cv s b)) \<in> cidr_set c) s)"
      by (simp add: cel_cidr_contains_ip_at_vv_def defs member)
  next
    assume b: "cv_kind (cv s b) = CEL_CIDR \<and> valid_cidr (load_cidr (mem s) (pl_net_ref (cv s b)))"
    then show "cel_cidr_contains_cidr_at_vv lib out a b s
         = Some (write_bool (cel_value_at out) (cidr_set (load_cidr (mem s) (pl_net_ref (cv s b))) \<subseteq> cidr_set c) s)"
      by (cases "cidr_family c = cidr_family ?d"; cases "cidr_prefix c > cidr_prefix ?d")
        (simp_all add: cel_cidr_contains_cidr_at_vv_def defs inclusion)
  next
    assume b: "cv_kind (cv s b) = CEL_STRING"
    show "cel_cidr_contains_ip_at_vv lib out a b s = Some (case parse_address lib (str_of (mem s) (cv s b)) of
           None \<Rightarrow> poison (cel_value_at out) CEL_ERR_INVALID_ARGUMENT s
         | Some ip \<Rightarrow> write_bool (cel_value_at out) (ip \<in> cidr_set c) s)"
      using b parsed by (simp add: cel_cidr_contains_ip_at_vv_def defs member split: option.split)
    show "cel_cidr_contains_cidr_at_vv lib out a b s = Some (case parse_cidr lib (str_of (mem s) (cv s b)) of
           None \<Rightarrow> poison (cel_value_at out) CEL_ERR_INVALID_ARGUMENT s
         | Some d \<Rightarrow> write_bool (cel_value_at out) (cidr_set d \<subseteq> cidr_set c) s)"
      using b parsed_block inclusion
      by (cases "parse_cidr lib (str_of (mem s) (cv s b))") (auto simp: cel_cidr_contains_cidr_at_vv_def defs)
  next
    show "\<exists>s' n. cel_cidr_masked_at_v out a s = Some s' \<and> published CEL_CIDR 24 load_cidr out n s s'
         \<and> valid_cidr n \<and> cidr_set n = cidr_set c
         \<and> (\<forall>i<128. addr_bit (cidr_addr n) i \<longleftrightarrow> i < unat (cidr_prefix c) \<and> addr_bit (cidr_addr c) i)"
      using m block_mask [OF a(2)] mask_bits_exact [of _ "cidr_addr c" "unat (cidr_prefix c)"]
      by (intro exI [of _ t] exI [of _ ?n]) simp
  qed
qed

lemma sample_blocks_valid: "valid_cidr (sample_block 8 [10, 0, 0, 0])" "valid_cidr (sample_block 16 [10, 1, 2, 0])"
  by (auto simp: valid_cidr_def valid_ip_def base_ip_def sample_block_def addr_width_def nth_append nth_Cons')

theorem cidr_blocks_exact_witness:
  "cel_cidr_contains_cidr_at_vv sample_codec 256 160 192 sample_net
     = Some (write_bool 256 (cidr_set (sample_block 16 [10, 1, 2, 0]) \<subseteq> cidr_set (sample_block 8 [10, 0, 0, 0])) sample_net)"
  using cidr_blocks_exact [of sample_net 160 sample_codec 256 192] sample_codec_ok sample_net_ok sample_net_cells sample_blocks_valid
  by (simp add: pl_net_ref_def low_kept cel_value_at_def)

text \<open>
  The codec sees only the text up to the first NUL byte, while the policy checks and the length see all of
  it: a literal followed by a NUL and any bytes that no check objects to is accepted as the literal.
\<close>

lemma parse_address_ignores_tail:
  assumes "0 < length bs" "length bs + Suc (length junk) \<le> 39" "0 \<notin> set bs" "\<forall>b\<in>set junk. b > 0x3A"
  shows "parse_address lib (bs @ 0 # junk) = parse_address lib bs"
proof -
  have nz: "x \<noteq> 0" if "x \<in> set bs" for x using that assms(3) by auto
  have c: "c_string (bs @ 0 # junk) = bs" "c_string bs = bs"
    using takeWhile_append2 [of bs "\<lambda>b. b \<noteq> 0", OF nz] by (simp_all add: c_string_def takeWhile_eq_all_conv nz)
  have h: "span_has (bs @ 0 # junk) x = span_has bs x" if "x = 0x25 \<or> x = 0x3A \<or> x = 0x2E" for x
    using that assms(4) by (auto simp: span_has_def list_ex_iff)
  have z: "has_leading_zero_octet (bs @ 0 # junk) = has_leading_zero_octet bs"
  proof -
    let ?t = "bs @ 0 # junk"
    let ?P = "\<lambda>t k. (k = 0 \<or> t ! (k - 1) = 0x2E) \<and> t ! k = (0x30 :: u8) \<and> k + 1 < length t \<and> 0x30 \<le> t ! (k + 1) \<and> t ! (k + 1) \<le> 0x39"
    have tail: "?t ! k = 0 \<or> ?t ! k > 0x3A" if "length bs \<le> k" "k < length ?t" for k
      using that assms(4) nth_mem [of "k - Suc (length bs)" junk] by (cases "k = length bs") (auto simp: nth_append)
    have "?P ?t k \<longleftrightarrow> ?P bs k" if "k < length bs" for k
      using that tail [of "k + 1"] by (cases "k + 1 < length bs") (auto simp: nth_append)
    moreover have "\<not> ?P ?t k" if "length bs \<le> k" "k < length ?t" for k
      using tail [OF that] by auto
    ultimately have "(\<exists>k<length ?t. ?P ?t k) \<longleftrightarrow> (\<exists>k<length bs. ?P bs k)"
      by (metis (no_types, lifting) length_append trans_less_add1 not_le)
    then show ?thesis unfolding has_leading_zero_octet_def list_ex_iff Bex_def set_upt atLeastLessThan_iff by simp
  qed
  show ?thesis using assms(1,2) c h z
    by (simp add: parse_address_def try_parse_v4_def try_parse_v6_def split: option.split)
qed

end
