(* ===== verification/StrExt.thy ===== *)
theory StrExt
  imports Convert
begin

text \<open>
  The string extension's shared helpers, code point kernels and \<open>quote\<close>
  (\<open>runtime/cel_string_ext_internal.h\<close>, \<open>cel_string_ext_codepoint.cc\<close>, \<open>cel_string_ext_quote.cc\<close>).
  A text is the list of the bytes of its span, and a pointer into it the suffix it points to.
\<close>

subsection \<open>Prologue and writers\<close>

text \<open>\<open>Absorb3vlUnary\<close> on the operands from the left; the first error or unknown decides.\<close>

fun absorb_first :: "nat \<Rightarrow> nat list \<Rightarrow> rt \<Rightarrow> bool \<times> rt" where
  "absorb_first out [] s = (False, s)"
| "absorb_first out (a # as) s = (let (wrote, s) = absorb_3vl_unary out a s in if wrote then (True, s) else absorb_first out as s)"

definition strict_first :: "u32 list \<Rightarrow> (nat \<Rightarrow> cel_value list \<Rightarrow> rt \<Rightarrow> rt option) \<Rightarrow> u32 \<Rightarrow> u32 list \<Rightarrow> rt \<Rightarrow> rt option" where
  "strict_first wants body out_slot slots s =
     (let out = cel_value_at out_slot; (wrote, s) = absorb_first out (map cel_value_at slots) s; vs = map (cv s) slots in
      if wrote then Some s
      else if map cv_kind vs \<noteq> wants then Some (poison out CEL_ERR_TYPE_MISMATCH s)
      else body out vs s)"

definition write_string_from_bytes :: "nat \<Rightarrow> u8 list \<Rightarrow> rt \<Rightarrow> rt option" where
  "write_string_from_bytes out bs s =
     (if length bs = 0 then Some (set_span CEL_STRING 0 0 out s)
      else do {
        (off, s) \<leftarrow> arena_alloc (word_of_nat (length bs)) s;
        if off = 0 then Some (poison out CEL_ERR_OVERFLOW s)
        else Some (set_span CEL_STRING off (word_of_nat (length bs)) out (s\<lparr>mem := store_bytes (mem s) (unat off) bs\<rparr>))
      })"

definition write_string_from_span :: "nat \<Rightarrow> u32 \<Rightarrow> u32 \<Rightarrow> rt \<Rightarrow> rt" where
  "write_string_from_span out ptr len = set_span CEL_STRING (if len = 0 then 0 else ptr) len out"

definition write_subspan :: "nat \<Rightarrow> u32 \<Rightarrow> u32 \<Rightarrow> u32 \<Rightarrow> rt \<Rightarrow> rt" where
  "write_subspan out source_ptr byte_off byte_len =
     set_span CEL_STRING (if byte_len = 0 then 0 else source_ptr + byte_off) byte_len out"

subsection \<open>Decoding\<close>

fun decode_continuation :: "u8 list \<Rightarrow> u32 \<Rightarrow> u32 option" where
  "decode_continuation [] acc = Some acc"
| "decode_continuation (b # bs) acc =
     (if b AND 0xC0 \<noteq> 0x80 then None else decode_continuation bs (push_bit 6 acc OR ucast (b AND 0x3F)))"

definition utf8_decode_multi :: "u8 list \<Rightarrow> nat \<Rightarrow> u8 \<Rightarrow> nat \<times> u32" where
  "utf8_decode_multi p expected lead_mask =
     (if expected > length p then (1, ucast (p ! 0))
      else (case decode_continuation (take (expected - 1) (drop 1 p)) (ucast (p ! 0 AND lead_mask)) of
          None \<Rightarrow> (1, ucast (p ! 0))
        | Some acc \<Rightarrow> (expected, acc)))"

text \<open>The bytes consumed and the code point, at a pointer before the end.\<close>

definition utf8_decode :: "u8 list \<Rightarrow> nat \<times> u32" where
  "utf8_decode p =
     (let b0 = p ! 0 in
      if b0 < 0x80 then (1, ucast b0)
      else if b0 AND 0xE0 = 0xC0 then utf8_decode_multi p 2 0x1F
      else if b0 AND 0xF0 = 0xE0 then utf8_decode_multi p 3 0x0F
      else if b0 AND 0xF8 = 0xF0 then utf8_decode_multi p 4 0x07
      else (1, ucast b0))"

lemma utf8_decode_units: "1 \<le> fst (utf8_decode p)" "p \<noteq> [] \<Longrightarrow> fst (utf8_decode p) \<le> length p"
  by (auto simp: utf8_decode_def utf8_decode_multi_def Let_def Suc_le_eq split: option.splits)

lemma decode_shrinks: "p \<noteq> [] \<Longrightarrow> utf8_decode p = (units, c) \<Longrightarrow> length p - units < length p"
  using utf8_decode_units(1) [of p] by (cases p) auto

text \<open>The walk from an end pointer back to the start of its code point, as offsets.\<close>

fun prev_codepoint_from :: "u8 list \<Rightarrow> nat \<Rightarrow> nat" where
  "prev_codepoint_from bs 0 = 0"
| "prev_codepoint_from bs (Suc p) = (if bs ! Suc p AND 0xC0 = 0x80 then prev_codepoint_from bs p else Suc p)"

definition prev_codepoint :: "u8 list \<Rightarrow> nat \<Rightarrow> nat" where
  "prev_codepoint bs end_off = prev_codepoint_from bs (end_off - 1)"

lemma prev_codepoint_from_le: "prev_codepoint_from bs p \<le> p"
  by (induction p) auto

lemma prev_codepoint_less: "0 < e \<Longrightarrow> prev_codepoint bs e < e"
  using prev_codepoint_from_le [of bs "e - 1"] by (simp add: prev_codepoint_def)

subsection \<open>Code point kernels\<close>

definition is_unicode_whitespace :: "u32 \<Rightarrow> bool" where
  "is_unicode_whitespace c =
     (if c \<le> 0x20 then c = 0x20 \<or> (c \<ge> 0x09 \<and> c \<le> 0x0D)
      else if c > 0x3000 then False
      else if c = 0x85 \<or> c = 0xA0 \<or> c = 0x1680 then True
      else if c \<ge> 0x2000 \<and> c \<le> 0x200A then True
      else c = 0x2028 \<or> c = 0x2029 \<or> c = 0x202F \<or> c = 0x205F \<or> c = 0x3000)"

text \<open>The loop of \<open>charAt\<close>: the bytes of the code point, the empty text at the end, or out of range.\<close>

function char_at_loop :: "u8 list \<Rightarrow> nat \<Rightarrow> u8 list option" where
  "char_at_loop p remaining =
     (if p \<noteq> []
      then (let (units, c) = utf8_decode p in
        if remaining = 0 then Some (take units p) else char_at_loop (drop units p) (remaining - 1))
      else if remaining = 0 then Some [] else None)"
  by pat_completeness auto
termination by (relation "measure (\<lambda>(p, r). length p)") (auto dest: decode_shrinks [OF _ sym])

declare char_at_loop.simps [simp del]

definition cel_string_char_at_at_vv :: "u32 \<Rightarrow> u32 \<Rightarrow> u32 \<Rightarrow> rt \<Rightarrow> rt option" where
  "cel_string_char_at_at_vv out_slot s_slot i_slot = strict_first [CEL_STRING, CEL_INT] (\<lambda>out vs s.
     let pos = sint (pl_i (vs ! 1)) in
     if pos < 0 then Some (poison out CEL_ERR_INVALID_ARGUMENT s)
     else (case char_at_loop (str_of (mem s) (vs ! 0)) (nat pos) of
         Some bs \<Rightarrow> write_string_from_bytes out bs s
       | None \<Rightarrow> Some (poison out CEL_ERR_INVALID_ARGUMENT s))) out_slot [s_slot, i_slot]"

text \<open>The ASCII classes and folds of the utility library.\<close>

record ascii_lib =
  ascii_isupper :: "u8 \<Rightarrow> bool"
  ascii_islower :: "u8 \<Rightarrow> bool"
  ascii_tolower :: "u8 \<Rightarrow> u8"
  ascii_toupper :: "u8 \<Rightarrow> u8"

definition ascii_fold_into :: "nat \<Rightarrow> cel_value \<Rightarrow> (u8 \<Rightarrow> bool) \<Rightarrow> (u8 \<Rightarrow> u8) \<Rightarrow> rt \<Rightarrow> rt option" where
  "ascii_fold_into out v needs_fold fold_byte s =
     (let bs = str_of (mem s) v in
      if \<not> list_ex needs_fold bs then Some (write_string_from_span out (pl_s_ptr v) (pl_s_len v) s)
      else do {
        (off, s) \<leftarrow> arena_alloc (pl_s_len v) s;
        if off = 0 then Some (poison out CEL_ERR_OVERFLOW s)
        else Some (set_span CEL_STRING off (pl_s_len v) out
          (s\<lparr>mem := store_bytes (mem s) (unat off) (map (\<lambda>c. if needs_fold c then fold_byte c else c) bs)\<rparr>))
      })"

definition cel_string_lower_ascii_at_v :: "ascii_lib \<Rightarrow> u32 \<Rightarrow> u32 \<Rightarrow> rt \<Rightarrow> rt option" where
  "cel_string_lower_ascii_at_v lib out_slot s_slot = strict_first [CEL_STRING]
     (\<lambda>out vs. ascii_fold_into out (vs ! 0) (ascii_isupper lib) (ascii_tolower lib)) out_slot [s_slot]"

definition cel_string_upper_ascii_at_v :: "ascii_lib \<Rightarrow> u32 \<Rightarrow> u32 \<Rightarrow> rt \<Rightarrow> rt option" where
  "cel_string_upper_ascii_at_v lib out_slot s_slot = strict_first [CEL_STRING]
     (\<lambda>out vs. ascii_fold_into out (vs ! 0) (ascii_islower lib) (ascii_toupper lib)) out_slot [s_slot]"

function trim_left :: "u8 list \<Rightarrow> u8 list" where
  "trim_left lhs =
     (if lhs \<noteq> []
      then (let (units, c) = utf8_decode lhs in if \<not> is_unicode_whitespace c then lhs else trim_left (drop units lhs))
      else [])"
  by pat_completeness auto
termination by (relation "measure length") (auto dest: decode_shrinks [OF _ sym])

text \<open>The offset past the last code point that is not white space, from the left-trimmed start.\<close>

function last_non_ws_end :: "u8 list \<Rightarrow> nat \<Rightarrow> nat \<Rightarrow> nat" where
  "last_non_ws_end p off last_end =
     (if p \<noteq> []
      then (let (units, c) = utf8_decode p in
        last_non_ws_end (drop units p) (off + units) (if \<not> is_unicode_whitespace c then off + units else last_end))
      else last_end)"
  by pat_completeness auto
termination by (relation "measure (\<lambda>(p, off, e). length p)") (auto dest: decode_shrinks [OF _ sym])

declare trim_left.simps [simp del] last_non_ws_end.simps [simp del]

definition cel_string_trim_at_v :: "u32 \<Rightarrow> u32 \<Rightarrow> rt \<Rightarrow> rt option" where
  "cel_string_trim_at_v out_slot s_slot = strict_first [CEL_STRING] (\<lambda>out vs s.
     let bs = str_of (mem s) (vs ! 0); lhs = trim_left bs in
     if lhs = [] then Some (write_string_from_span out 0 0 s)
     else (let lead = length bs - length lhs in
       Some (write_string_from_span out (pl_s_ptr (vs ! 0) + word_of_nat lead) (word_of_nat (last_non_ws_end lhs 0 0)) s)))
     out_slot [s_slot]"

function reverse_loop :: "u8 list \<Rightarrow> nat \<Rightarrow> u8 list" where
  "reverse_loop bs ptr =
     (if ptr > 0 then (let start = prev_codepoint bs ptr in take (ptr - start) (drop start bs) @ reverse_loop bs start) else [])"
  by pat_completeness auto
termination by (relation "measure (\<lambda>(bs, ptr). ptr)") (auto simp: prev_codepoint_less)

declare reverse_loop.simps [simp del]

definition cel_string_reverse_at_v :: "u32 \<Rightarrow> u32 \<Rightarrow> rt \<Rightarrow> rt option" where
  "cel_string_reverse_at_v out_slot s_slot = strict_first [CEL_STRING] (\<lambda>out vs s.
     let v = vs ! 0; bs = str_of (mem s) v in
     if bs = [] then Some (write_string_from_span out 0 0 s)
     else do {
       (off, s) \<leftarrow> arena_alloc (pl_s_len v) s;
       if off = 0 then Some (poison out CEL_ERR_OVERFLOW s)
       else Some (set_span CEL_STRING off (pl_s_len v) out
         (s\<lparr>mem := store_bytes (mem s) (unat off) (reverse_loop bs (length bs))\<rparr>))
     }) out_slot [s_slot]"

subsection \<open>Quoting\<close>

definition append_quote_codepoint :: "u32 \<Rightarrow> u8 list \<Rightarrow> u8 list" where
  "append_quote_codepoint c src =
     (if c = 0x07 then [0x5C, 0x61]
      else if c = 0x08 then [0x5C, 0x62]
      else if c = 0x0C then [0x5C, 0x66]
      else if c = 0x0A then [0x5C, 0x6E]
      else if c = 0x0D then [0x5C, 0x72]
      else if c = 0x09 then [0x5C, 0x74]
      else if c = 0x0B then [0x5C, 0x76]
      else if c = 0x5C then [0x5C, 0x5C]
      else if c = 0x22 then [0x5C, 0x22]
      else src)"

function quote_loop :: "u8 list \<Rightarrow> u8 list" where
  "quote_loop p =
     (if p \<noteq> []
      then (let (units, c) = utf8_decode p in append_quote_codepoint c (take units p) @ quote_loop (drop units p))
      else [])"
  by pat_completeness auto
termination by (relation "measure length") (auto dest: decode_shrinks [OF _ sym])

declare quote_loop.simps [simp del]

definition cel_string_quote_at_v :: "u32 \<Rightarrow> u32 \<Rightarrow> rt \<Rightarrow> rt option" where
  "cel_string_quote_at_v out_slot s_slot = strict_first [CEL_STRING]
     (\<lambda>out vs s. write_string_from_bytes out ([0x22] @ quote_loop (str_of (mem s) (vs ! 0)) @ [0x22]) s) out_slot [s_slot]"


subsection \<open>Decoding inverts the encoding\<close>

lemma word_back: "unat w = n \<Longrightarrow> w = (word_of_nat n :: u32)"
  by auto

lemma digit_div_mod: "a < k \<Longrightarrow> (k * q + a) mod k = (a :: nat)" "a < k \<Longrightarrow> (k * q + a) div k = (q :: nat)"
  by auto

lemma lead_arith:
  "a < 64 \<Longrightarrow> (128 + a) mod 64 = (a :: nat)" "a < 64 \<Longrightarrow> (128 + a) div 64 = (2 :: nat)"
  "a < 32 \<Longrightarrow> (192 + a) mod 32 = (a :: nat)" "a < 16 \<Longrightarrow> (224 + a) mod 16 = (a :: nat)" "a < 8 \<Longrightarrow> (240 + a) mod 8 = (a :: nat)"
  "a < 32 \<Longrightarrow> (192 + a) div 32 = (6 :: nat)" "a < 16 \<Longrightarrow> (224 + a) div 32 = (7 :: nat)" "a < 16 \<Longrightarrow> (224 + a) div 16 = (14 :: nat)"
  "a < 8 \<Longrightarrow> (240 + a) div 32 = (7 :: nat)" "a < 8 \<Longrightarrow> (240 + a) div 16 = (15 :: nat)" "a < 8 \<Longrightarrow> (240 + a) div 8 = (30 :: nat)"
proof -
  have e: "(128 :: nat) = 64 * 2" "(192 :: nat) = 32 * 6" "(224 :: nat) = 16 * 14" "(240 :: nat) = 8 * 30"
    "(240 :: nat) = 16 * 15" by simp_all
  show "a < 64 \<Longrightarrow> (128 + a) mod 64 = (a :: nat)" "a < 64 \<Longrightarrow> (128 + a) div 64 = (2 :: nat)" by (simp_all only: e(1) digit_div_mod)
  show "a < 32 \<Longrightarrow> (192 + a) mod 32 = (a :: nat)" "a < 32 \<Longrightarrow> (192 + a) div 32 = (6 :: nat)" by (simp_all only: e(2) digit_div_mod)
  show "a < 16 \<Longrightarrow> (224 + a) mod 16 = (a :: nat)" "a < 16 \<Longrightarrow> (224 + a) div 16 = (14 :: nat)" by (simp_all only: e(3) digit_div_mod)
  show "a < 8 \<Longrightarrow> (240 + a) mod 8 = (a :: nat)" "a < 8 \<Longrightarrow> (240 + a) div 8 = (30 :: nat)" by (simp_all only: e(4) digit_div_mod)
  show "a < 8 \<Longrightarrow> (240 + a) div 16 = (15 :: nat)" by (simp only: e(5) digit_div_mod)
  show "(224 + a) div 32 = (7 :: nat)" if "a < 16"
    by (rule div_nat_eqI) (use that in simp_all)
  show "(240 + a) div 32 = (7 :: nat)" if "a < 8"
    by (rule div_nat_eqI) (use that in simp_all)
qed

lemma unat_high_bits: "unat (b AND NOT (mask k) :: u8) = unat b div 2 ^ k * 2 ^ k"
proof -
  have "unat (b AND NOT (mask k)) = push_bit k (drop_bit k (unat b))"
    by (rule bit_eqI) (auto simp: bit_simps dest: bit_imp_le_length)
  then show ?thesis by (simp add: push_bit_eq_mult drop_bit_eq_div)
qed

lemma lead_bytes:
  "b AND 0xE0 = (0xC0 :: u8) \<longleftrightarrow> unat b div 32 = 6"
  "b AND 0xF0 = (0xE0 :: u8) \<longleftrightarrow> unat b div 16 = 14"
  "b AND 0xF8 = (0xF0 :: u8) \<longleftrightarrow> unat b div 8 = 30"
proof -
  have m: "(0xE0 :: u8) = NOT (mask 5)" "(0xF0 :: u8) = NOT (mask 4)" "(0xF8 :: u8) = NOT (mask 3)"
    by (simp_all add: mask_eq_exp_minus_1)
  have e: "b AND NOT (mask k) = w \<longleftrightarrow> unat b div 2 ^ k * 2 ^ k = unat w" for k and w :: u8
    by (simp only: word_unat_eq_iff unat_high_bits)
  show "b AND 0xE0 = (0xC0 :: u8) \<longleftrightarrow> unat b div 32 = 6" unfolding m(1) e by simp
  show "b AND 0xF0 = (0xE0 :: u8) \<longleftrightarrow> unat b div 16 = 14" using e [of 4 "0xE0"] unfolding m(2) by simp
  show "b AND 0xF8 = (0xF0 :: u8) \<longleftrightarrow> unat b div 8 = 30" using e [of 3 "0xF0"] unfolding m(3) by simp
qed

lemma unat_low_bits: "unat (ucast (b AND mask k :: u8) :: u32) = unat b mod 2 ^ k"
proof -
  have "unat (b AND mask k) < 256" by (rule unat_u8_lt)
  then have "unat (ucast (b AND mask k) :: u32) = unat (b AND mask k)"
    unfolding unsigned_ucast_eq by (intro take_bit_nat_eq_self) simp
  also have "unat (b AND mask k) = unat b mod 2 ^ k"
    using unsigned_take_bit_eq [of k b, where ?'a = nat] by (simp only: take_bit_eq_mask [symmetric]) (simp only: take_bit_eq_mod)
  finally show ?thesis .
qed

lemma unat_accumulate:
  assumes "unat acc < 2 ^ 26"
  shows "unat (push_bit 6 acc OR ucast (b AND 0x3F) :: u32) = unat acc * 64 + unat (b :: u8) mod 64"
proof -
  have m: "(0x3F :: u8) = mask 6" by (simp add: mask_eq_exp_minus_1)
  have "unat (push_bit 6 acc) = unat acc * 64"
    using assms by (simp only: unsigned_push_bit_eq, subst take_bit_nat_eq_self) (simp_all add: push_bit_eq_mult)
  then show ?thesis
    using or_low [of "unat b mod 64" 6 "unat acc"] unat_low_bits [of b 6] unfolding m by (simp add: unsigned_or_eq)
qed

lemma accumulate_digit:
  assumes "unat acc = n" "n < 2 ^ 26" "unat (b :: u8) mod 64 = d"
  shows "unat (push_bit 6 acc OR ucast (b AND 0x3F) :: u32) = n * 64 + d"
  using unat_accumulate [of acc b] assms by simp

lemma ucast_lead:
  "unat (ucast (b AND 0x1F :: u8) :: u32) = unat b mod 32" "unat (ucast (b AND 0x0F :: u8) :: u32) = unat b mod 16"
  "unat (ucast (b AND 0x07 :: u8) :: u32) = unat b mod 8"
  using unat_low_bits [of b 5] unat_low_bits [of b 4] unat_low_bits [of b 3] by (simp_all add: mask_eq_exp_minus_1)

lemma cont_of: "unat (y :: u8) = 128 + b \<Longrightarrow> b < 64 \<Longrightarrow> y AND 0xC0 = 0x80 \<and> unat y mod 64 = b"
  using cont_byte [of y] by (simp add: lead_arith)

lemma decode1: "unat x < 128 \<Longrightarrow> utf8_decode (x # rest) = (1, ucast x)"
  by (simp add: utf8_decode_def word_less_nat_alt)

lemma decode2:
  assumes "unat x = 192 + a" "a < 32" "unat y = 128 + b" "b < 64"
  shows "utf8_decode (x # y # rest) = (2, word_of_nat (a * 64 + b))"
proof -
  have l: "\<not> x < 0x80" "x AND 0xE0 = 0xC0" using assms by (simp_all add: word_less_nat_alt lead_bytes lead_arith)
  note y = cont_of [OF assms(3,4)]
  have "unat (ucast (x AND 0x1F) :: u32) = a" using assms by (simp add: ucast_lead lead_arith)
  then have "unat (push_bit 6 (ucast (x AND 0x1F)) OR ucast (y AND 0x3F) :: u32) = a * 64 + b"
    using assms(2) y by (simp add: unat_accumulate)
  then have "push_bit 6 (ucast (x AND 0x1F)) OR ucast (y AND 0x3F) = (word_of_nat (a * 64 + b) :: u32)"
    by (rule word_back)
  then show ?thesis using l y by (simp add: utf8_decode_def utf8_decode_multi_def)
qed

lemma decode3:
  assumes "unat x = 224 + a" "a < 16" "unat y = 128 + b" "b < 64" "unat z = 128 + c" "c < 64"
  shows "utf8_decode (x # y # z # rest) = (3, word_of_nat ((a * 64 + b) * 64 + c))"
proof -
  have l: "\<not> x < 0x80" "x AND 0xE0 \<noteq> 0xC0" "x AND 0xF0 = 0xE0" using assms by (simp_all add: word_less_nat_alt lead_bytes lead_arith)
  note y = cont_of [OF assms(3,4)] and z = cont_of [OF assms(5,6)]
  have "unat (ucast (x AND 0x0F) :: u32) = a" using assms by (simp add: ucast_lead lead_arith)
  from accumulate_digit [OF this _ conjunct2 [OF y]]
  have u: "unat (push_bit 6 (ucast (x AND 0x0F)) OR ucast (y AND 0x3F) :: u32) = a * 64 + b" using assms(2) by simp
  have "a * 64 + b < 2 ^ 26" using assms(2,4) by simp
  note word_back [OF accumulate_digit [OF u this conjunct2 [OF z]]]
  then show ?thesis using l y z by (simp add: utf8_decode_def utf8_decode_multi_def numeral_3_eq_3)
qed

lemma decode4:
  assumes "unat x = 240 + a" "a < 8" "unat y = 128 + b" "b < 64" "unat z = 128 + c" "c < 64" "unat w = 128 + d" "d < 64"
  shows "utf8_decode (x # y # z # w # rest) = (4, word_of_nat (((a * 64 + b) * 64 + c) * 64 + d))"
proof -
  have l: "\<not> x < 0x80" "x AND 0xE0 \<noteq> 0xC0" "x AND 0xF0 \<noteq> 0xE0" "x AND 0xF8 = 0xF0"
    using assms by (simp_all add: word_less_nat_alt lead_bytes lead_arith)
  note y = cont_of [OF assms(3,4)] and z = cont_of [OF assms(5,6)] and w = cont_of [OF assms(7,8)]
  have "unat (ucast (x AND 0x07) :: u32) = a" using assms by (simp add: ucast_lead lead_arith)
  from accumulate_digit [OF this _ conjunct2 [OF y]]
  have u: "unat (push_bit 6 (ucast (x AND 0x07)) OR ucast (y AND 0x3F) :: u32) = a * 64 + b" using assms(2) by simp
  have n: "a * 64 + b < 2 ^ 26" "(a * 64 + b) * 64 + c < 2 ^ 26" using assms(2,4,6) by simp_all
  note v = accumulate_digit [OF u n(1) conjunct2 [OF z]]
  note e = word_back [OF accumulate_digit [OF v n(2) conjunct2 [OF w]]]
  have "decode_continuation [y, z, w] (ucast (x AND 0x07)) = Some (word_of_nat (((a * 64 + b) * 64 + c) * 64 + d))"
    using y z w by (simp only: decode_continuation.simps e if_False simp_thms)
  moreover have "take 3 (y # z # w # rest) = [y, z, w]" by (simp add: numeral_3_eq_3)
  ultimately show ?thesis using l by (simp add: utf8_decode_def utf8_decode_multi_def)
qed

lemma base64_digits: "n = (n div 64 :: nat) * 64 + n mod 64" "n div 4096 * 64 + n div 64 mod 64 = (n div 64 :: nat)"
  "n div 262144 * 64 + n div 4096 mod 64 = (n div 4096 :: nat)"
  using div_mult_mod_eq [of "n div 64" 64] div_mult_mod_eq [of "n div 4096" 64] by (simp_all add: div_mult2_eq [symmetric])

lemma utf8_decode_encode:
  assumes "unat c < 0x110000"
  shows "utf8_decode (utf8_encode c @ rest) = (length (utf8_encode c), c)"
proof -
  define n where "n = unat c"
  have c: "word_of_nat n = c" "n < 0x110000" using assms by (simp_all add: n_def)
  note e = utf8_encode_nat [OF assms, folded n_def, unfolded Let_def]
  consider (one) "n < 0x80" | (two) "\<not> n < 0x80" "n < 0x800" | (three) "\<not> n < 0x800" "n < 0x10000" | (four) "\<not> n < 0x10000"
    by linarith
  then show ?thesis
  proof cases
    case one
    then obtain x where x: "utf8_encode c = [x]" "unat x = n" using e by (auto simp: map_eq_Cons_conv)
    have "unat (ucast x :: u32) = n" unfolding unsigned_ucast_eq x(2) by (intro take_bit_nat_eq_self) (use c(2) in simp)
    then have "(ucast x :: u32) = c" using c(1) word_back by metis
    then show ?thesis using x one decode1 [of x rest] by simp
  next
    case two
    then obtain x y where x: "utf8_encode c = [x, y]" "unat x = 192 + n div 64" "unat y = 128 + n mod 64"
      using e by (auto simp: map_eq_Cons_conv)
    have "n div 64 < 32" using two by simp
    then show ?thesis using x decode2 [OF x(2) _ x(3), of rest] c(1) base64_digits(1) [of n] by simp
  next
    case three
    then obtain x y z where x: "utf8_encode c = [x, y, z]" "unat x = 224 + n div 4096" "unat y = 128 + n div 64 mod 64" "unat z = 128 + n mod 64"
      using e by (auto simp: map_eq_Cons_conv)
    have "n div 4096 < 16" using three by simp
    then show ?thesis using x decode3 [OF x(2) _ x(3) _ x(4), of rest] c(1) base64_digits [of n] by simp
  next
    case four
    then obtain x y z w where x: "utf8_encode c = [x, y, z, w]" "unat x = 240 + n div 262144" "unat y = 128 + n div 4096 mod 64"
        "unat z = 128 + n div 64 mod 64" "unat w = 128 + n mod 64"
      using e by (auto simp: map_eq_Cons_conv)
    have "n div 262144 < 8" using c(2) by simp
    then show ?thesis using x decode4 [OF x(2) _ x(3) _ x(4) _ x(5), of rest] c(1) base64_digits [of n] by simp
  qed
qed

text \<open>The code points of a text as the decoder cuts it; on malformed input single bytes.\<close>

function chunks :: "u8 list \<Rightarrow> u8 list list" where
  "chunks p = (if p \<noteq> [] then (let (units, c) = utf8_decode p in take units p # chunks (drop units p)) else [])"
  by pat_completeness auto
termination by (relation "measure length") (auto dest: decode_shrinks [OF _ sym])

declare chunks.simps [simp del]

lemma chunks_Nil [simp]: "chunks [] = []" by (subst chunks.simps) simp

lemma chunks_step: "p \<noteq> [] \<Longrightarrow> chunks p = take (fst (utf8_decode p)) p # chunks (drop (fst (utf8_decode p)) p)"
  by (subst chunks.simps) (simp add: split_def Let_def)

lemma concat_chunks [simp]: "concat (chunks p) = p"
proof (induction p rule: length_induct)
  case (1 p)
  show ?case
  proof (cases "p = []")
    case False
    then have "length (drop (fst (utf8_decode p)) p) < length p" using utf8_decode_units(1) [of p] by (cases p) auto
    then show ?thesis using 1 False by (simp add: chunks_step)
  qed simp
qed

lemma utf8_string_simps [simp]: "utf8_string [] = []" "utf8_string (c # cs) = utf8_encode c @ utf8_string cs"
  by (simp_all add: utf8_string_def)

lemma utf8_encode_ne [simp]: "utf8_encode c \<noteq> []" "utf8_encode c @ bs \<noteq> []"
  using utf8_encode_length [of c] by auto

lemma scalar_bound: "scalar_value c \<Longrightarrow> unat c < 0x110000" by (auto simp: scalar_value_def)

lemma chunks_utf8: "\<forall>c\<in>set cs. scalar_value c \<Longrightarrow> chunks (utf8_string cs) = map utf8_encode cs"
  by (induction cs) (auto simp: chunks_step utf8_decode_encode scalar_bound)


subsection \<open>The loops on code points\<close>

lemma char_at_loop_chunks:
  "char_at_loop p r = (if r < length (chunks p) then Some (chunks p ! r) else if r = length (chunks p) then Some [] else None)"
proof (induction "length p" arbitrary: p r rule: less_induct)
  case less
  show ?case
  proof (cases "p = []")
    case True
    then show ?thesis by (subst char_at_loop.simps) simp
  next
    case False
    let ?u = "fst (utf8_decode p)"
    have "length (drop ?u p) < length p" using False utf8_decode_units(1) [of p] by (cases p) auto
    then have "char_at_loop (drop ?u p) (r - 1) = (if r - 1 < length (chunks (drop ?u p)) then Some (chunks (drop ?u p) ! (r - 1))
        else if r - 1 = length (chunks (drop ?u p)) then Some [] else None)" by (rule less.hyps)
    then show ?thesis using False by (subst char_at_loop.simps) (cases r, auto simp: chunks_step split_def Let_def)
  qed
qed

abbreviation strip_end :: "u32 list \<Rightarrow> u32 list" where
  "strip_end cs \<equiv> rev (dropWhile is_unicode_whitespace (rev cs))"

lemma decode_text: "scalar_value c \<Longrightarrow> utf8_decode (utf8_encode c @ t) = (length (utf8_encode c), c)"
  by (rule utf8_decode_encode) (rule scalar_bound)

lemma trim_left_text: "\<forall>c\<in>set cs. scalar_value c \<Longrightarrow> trim_left (utf8_string cs) = utf8_string (dropWhile is_unicode_whitespace cs)"
proof (induction cs)
  case Nil
  then show ?case by (subst trim_left.simps) simp
next
  case (Cons c cs)
  then show ?case by (subst trim_left.simps) (simp add: decode_text)
qed

lemma strip_end_Cons:
  "strip_end (c # cs) = (if list_all is_unicode_whitespace cs then (if is_unicode_whitespace c then [] else [c]) else c # strip_end cs)"
  by (auto simp: dropWhile_append list_all_iff)

lemma last_non_ws_end_text:
  "\<forall>c\<in>set cs. scalar_value c \<Longrightarrow> last_non_ws_end (utf8_string cs) off e
     = (if list_all is_unicode_whitespace cs then e else off + length (utf8_string (strip_end cs)))"
proof (induction cs arbitrary: off e)
  case Nil
  then show ?case by (subst last_non_ws_end.simps) simp
next
  case (Cons c cs)
  have IH: "last_non_ws_end (utf8_string cs) (off + length (utf8_encode c)) e'
     = (if list_all is_unicode_whitespace cs then e' else off + length (utf8_encode c) + length (utf8_string (strip_end cs)))" for e'
    using Cons by simp
  show ?case using Cons.prems unfolding strip_end_Cons
    by (subst last_non_ws_end.simps) (auto simp: decode_text IH)
qed

lemma encode_shape:
  assumes "unat c < 0x110000"
  shows "\<exists>x ys. utf8_encode c = x # ys \<and> x AND 0xC0 \<noteq> 0x80 \<and> (\<forall>y\<in>set ys. y AND 0xC0 = 0x80)"
proof -
  note e = utf8_encode_nat [OF assms, unfolded Let_def]
  have d: "(128 + m mod 64) div 64 = 2" for m :: nat by (rule lead_arith(2)) simp
  obtain x ys where c: "utf8_encode c = x # ys" using utf8_encode_ne(1) [of c] by (cases "utf8_encode c") auto
  have "unat x div 64 \<noteq> 2" using e unfolding c by (auto split: if_splits)
  moreover have "\<forall>y\<in>set ys. unat y div 64 = 2"
    using e d unfolding c by (auto simp: map_eq_Cons_conv split: if_splits)
  ultimately show ?thesis using c by (simp add: cont_byte)
qed

lemma prev_codepoint_from_lead:
  assumes "x AND 0xC0 \<noteq> 0x80" "\<forall>y\<in>set ys. y AND 0xC0 = 0x80"
  shows "k \<le> length ys \<Longrightarrow> prev_codepoint_from (pre @ x # ys @ rest) (length pre + k) = length pre"
proof (induction k)
  case 0
  then show ?case using assms(1) by (cases "length pre") (simp_all add: nth_append)
next
  case (Suc k)
  then have "(pre @ x # ys @ rest) ! Suc (length pre + k) = ys ! k" by (simp add: nth_append)
  then show ?case using Suc assms(2) by simp
qed

lemma reverse_loop_text:
  "\<forall>c\<in>set cs. scalar_value c \<Longrightarrow> reverse_loop (utf8_string cs @ rest) (length (utf8_string cs)) = utf8_string (rev cs)"
proof (induction cs arbitrary: rest rule: rev_induct)
  case Nil
  then show ?case by (subst reverse_loop.simps) simp
next
  case (snoc c cs)
  let ?pre = "utf8_string cs" and ?e = "utf8_encode c"
  obtain x ys where e: "?e = x # ys" "x AND 0xC0 \<noteq> 0x80" "\<forall>y\<in>set ys. y AND 0xC0 = 0x80"
    using encode_shape [OF scalar_bound, of c] snoc.prems by auto
  have t: "utf8_string (cs @ [c]) = ?pre @ ?e" by (simp add: utf8_string_def)
  have "prev_codepoint ((?pre @ ?e) @ rest) (length (?pre @ ?e)) = length ?pre"
    using prev_codepoint_from_lead [OF e(2,3), of "length ys" ?pre rest] by (simp add: prev_codepoint_def e(1))
  moreover have "reverse_loop (?pre @ (?e @ rest)) (length ?pre) = utf8_string (rev cs)" using snoc by simp
  ultimately show ?case unfolding t
    by (subst reverse_loop.simps) (simp add: e(1))
qed

lemma quote_loop_text:
  "\<forall>c\<in>set cs. scalar_value c \<Longrightarrow> quote_loop (utf8_string cs) = concat (map (\<lambda>c. append_quote_codepoint c (utf8_encode c)) cs)"
proof (induction cs)
  case Nil
  then show ?case by (subst quote_loop.simps) simp
next
  case (Cons c cs)
  then show ?case by (subst quote_loop.simps) (simp add: decode_text)
qed

subsection \<open>String results\<close>

text \<open>A string result: the text, or the overflow error when the arena refuses its bytes.\<close>

definition string_out :: "u32 \<Rightarrow> u8 list \<Rightarrow> rt \<Rightarrow> rt \<Rightarrow> bool" where
  "string_out out bs s s' \<longleftrightarrow> keeps (cel_value_at out) s s'
     \<and> (if cv_kind (cv s' out) = CEL_STRING then str_of (mem s') (cv s' out) = bs
        else is_err (cv s' out) CEL_ERR_OVERFLOW \<and> (\<exists>t. arena_alloc (word_of_nat (length bs)) s = Some (0, t)))"

lemma string_out_span:
  assumes ok: "arena_ok s" and ap: "apart (unat p) (unat n) (cel_value_at out) 24" and bs: "bytes_at (mem s) (unat p) (unat n) = bs"
  shows "string_out out bs s (set_span CEL_STRING p n (cel_value_at out) s)"
proof -
  let ?s' = "set_span CEL_STRING p n (cel_value_at out) s"
  have "bytes_at (mem ?s') (unat p) (unat n) = bytes_at (mem s) (unat p) (unat n)"
    using only_cell_set_span [of "cel_value_at out" s CEL_STRING p n] ap
    by (intro bytes_at_cong) (auto simp: only_cell_def same_outside_def apart_def)
  then show ?thesis
    using only_cell_keeps [OF only_cell_set_span ok] bs by (simp add: string_out_def span_bytes_def cell_simps)
qed

lemma string_out_empty: "arena_ok s \<Longrightarrow> string_out out [] s (set_span CEL_STRING p 0 (cel_value_at out) s)"
  by (rule string_out_span) (simp_all add: apart_def)

lemma string_out_alloc:
  assumes ok: "arena_ok s" "kept_range s (cel_value_at out) 24" and len: "length bs = unat n"
  shows "\<exists>s'. (arena_alloc n s \<bind> (\<lambda>(off, s). if off = 0 then Some (poison (cel_value_at out) CEL_ERR_OVERFLOW s)
      else Some (set_span CEL_STRING off n (cel_value_at out) (s\<lparr>mem := store_bytes (mem s) (unat off) bs\<rparr>)))) = Some s'
    \<and> string_out out bs s s'"
proof (cases rule: alloc_fill [OF ok(1) len])
  let ?o = "cel_value_at out"
  have n: "word_of_nat (length bs) = n" using len by simp
  case (1 t)
  have "arena_ok t" using 1(2) by (simp add: extends_def)
  then have "keeps ?o t (poison ?o CEL_ERR_OVERFLOW t)" by (intro only_cell_keeps) simp_all
  then have "keeps ?o s (poison ?o CEL_ERR_OVERFLOW t)" by (rule keeps_trans [OF extends_keeps [OF 1(2)]])
  then show ?thesis using 1(1) n is_err_poison [of ?o CEL_ERR_OVERFLOW t] by (auto simp: string_out_def is_err_def)
next
  let ?o = "cel_value_at out"
  case (2 p t)
  let ?u = "t\<lparr>mem := store_bytes (mem t) (unat p) bs\<rparr>"
  have u: "arena_ok ?u" using 2(3) by (simp add: extends_def)
  have "apart (unat p) (unat n) ?o 24" by (subst apart_sym, rule kept_outside [OF 2(6) ok(2)])
  then have "string_out out bs ?u (set_span CEL_STRING p n ?o ?u)" by (intro string_out_span u) (simp_all add: 2(8))
  then have "string_out out bs s (set_span CEL_STRING p n ?o ?u)"
    using keeps_trans [OF extends_keeps [OF 2(3)]] by (simp add: string_out_def cell_simps)
  then show ?thesis using 2(1,2) by simp
qed

lemma write_string_from_bytes_correct:
  assumes ok: "arena_ok s" "kept_range s (cel_value_at out) 24" and len: "length bs < 2 ^ 32"
  shows "\<exists>s'. write_string_from_bytes (cel_value_at out) bs s = Some s' \<and> string_out out bs s s'"
proof (cases "bs = []")
  case True
  then show ?thesis using string_out_empty [OF ok(1), of out 0] by (simp add: write_string_from_bytes_def)
next
  case False
  have "length bs = unat (word_of_nat (length bs) :: u32)" using len by (simp add: unat_of_nat)
  from string_out_alloc [OF ok this] show ?thesis using False by (simp add: write_string_from_bytes_def)
qed

lemma strict_first_values:
  assumes "map cv_kind (map (cv s) slots) = wants" "CEL_ERROR \<notin> set wants" "CEL_UNKNOWN \<notin> set wants"
  shows "strict_first wants body out_slot slots s = body (cel_value_at out_slot) (map (cv s) slots) s"
proof -
  have "absorb_first out (map cel_value_at as) s = (False, s)" if "set as \<subseteq> set slots" for out as
    using that
  proof (induction as)
    case (Cons a as)
    then have "cv_kind (cv s a) \<in> set wants" using assms(1) by auto
    then have "cv_kind (cv s a) \<noteq> CEL_ERROR" "cv_kind (cv s a) \<noteq> CEL_UNKNOWN" using assms(2,3) by auto
    then show ?case using Cons by (simp add: absorb_3vl_unary_def)
  qed simp
  then show ?thesis using assms(1) by (simp add: strict_first_def)
qed


lemma strict_first_string:
  "cv_kind (cv s v) = CEL_STRING \<Longrightarrow> strict_first [CEL_STRING] body out [v] s = body (cel_value_at out) [cv s v] s"
  by (simp add: strict_first_values)

text \<open>A slice of a span, published without copying.\<close>

lemma string_out_slice:
  fixes p n :: u32
  assumes ok: "arena_ok s" and ap: "apart (unat p) (unat n) (cel_value_at out) 24" and fits: "unat p + unat n \<le> 2 ^ 32"
    and bs: "bytes_at (mem s) (unat p) (unat n) = pre @ mid @ post" and mid: "mid \<noteq> []"
  shows "string_out out mid s (set_span CEL_STRING (p + word_of_nat (length pre)) (word_of_nat (length mid)) (cel_value_at out) s)"
proof -
  have l: "unat n = length pre + length mid + length post" using arg_cong [OF bs, of length] by simp
  have k: "unat (word_of_nat (length pre) :: u32) = length pre" "unat (word_of_nat (length mid) :: u32) = length mid"
    using l unat_u32_lt [of n] by (simp_all add: unat_of_nat)
  have "unat p + length pre < 2 ^ 32" using fits l mid by (cases mid) auto
  then have q: "unat (p + word_of_nat (length pre)) = unat p + length pre" using k(1) unat_add_lem [of p "word_of_nat (length pre)"] by simp
  show ?thesis
  proof (rule string_out_span [OF ok])
    show "apart (unat (p + word_of_nat (length pre))) (unat (word_of_nat (length mid) :: u32)) (cel_value_at out) 24"
      using ap l unfolding q k by (auto simp: apart_def)
    have "bytes_at (mem s) (unat p + length pre) (length mid) = mid"
      using bytes_at_split [of "length pre" "length mid" "unat n" "mem s" "unat p"] l bs by simp
    then show "bytes_at (mem s) (unat (p + word_of_nat (length pre))) (unat (word_of_nat (length mid) :: u32)) = mid"
      unfolding q k .
  qed
qed

definition gives_string :: "rt option \<Rightarrow> u32 \<Rightarrow> u8 list \<Rightarrow> rt \<Rightarrow> bool" where
  "gives_string r out bs s \<longleftrightarrow> (\<exists>s'. r = Some s' \<and> string_out out bs s s')"

text \<open>
  A string result that allocates nothing: it writes the result cell alone, and a text that is not empty is
  the part of the operand's own bytes that starts \<open>k\<close> bytes into them.
\<close>

definition gives_slice :: "rt option \<Rightarrow> u32 \<Rightarrow> u32 \<Rightarrow> nat \<Rightarrow> u8 list \<Rightarrow> rt \<Rightarrow> bool" where
  "gives_slice r out v k bs s \<longleftrightarrow> (\<exists>s'. r = Some s' \<and> only_cell (cel_value_at out) s s' \<and> cv_kind (cv s' out) = CEL_STRING
     \<and> str_of (mem s') (cv s' out) = bs \<and> unat (pl_s_len (cv s' out)) = length bs
     \<and> (bs \<noteq> [] \<longrightarrow> unat (pl_s_ptr (cv s' out)) = unat (pl_s_ptr (cv s v)) + k))"

lemma gives_slice_empty: "gives_slice (Some (set_span CEL_STRING 0 0 (cel_value_at out) s)) out v k [] s"
  by (simp add: gives_slice_def span_bytes_def cell_simps only_cell_set_span bytes_at_0)

lemma gives_slice_part:
  assumes ok: "arena_ok s" and ap: "apart (unat (pl_s_ptr (cv s v))) (unat (pl_s_len (cv s v))) (cel_value_at out) 24"
    and fits: "unat (pl_s_ptr (cv s v)) + unat (pl_s_len (cv s v)) \<le> 2 ^ 32"
    and bs: "bytes_at (mem s) (unat (pl_s_ptr (cv s v))) (unat (pl_s_len (cv s v))) = pre @ mid @ post" and mid: "mid \<noteq> []"
  shows "gives_slice (Some (set_span CEL_STRING (pl_s_ptr (cv s v) + word_of_nat (length pre)) (word_of_nat (length mid)) (cel_value_at out) s))
    out v (length pre) mid s"
proof -
  have l: "unat (pl_s_len (cv s v)) = length pre + length mid + length post" using arg_cong [OF bs, of length] by simp
  have k: "unat (word_of_nat (length pre) :: u32) = length pre" "unat (word_of_nat (length mid) :: u32) = length mid"
    using l unat_u32_lt [of "pl_s_len (cv s v)"] by (simp_all add: unat_of_nat)
  have "unat (pl_s_ptr (cv s v)) + length pre < 2 ^ 32" using fits l mid by (cases mid) auto
  then have q: "unat (pl_s_ptr (cv s v) + word_of_nat (length pre)) = unat (pl_s_ptr (cv s v)) + length pre"
    using k(1) unat_add_lem [of "pl_s_ptr (cv s v)" "word_of_nat (length pre)"] by simp
  show ?thesis
    using string_out_slice [OF ok ap fits bs mid] q k
    by (simp add: gives_slice_def string_out_def cell_simps only_cell_set_span)
qed

text \<open>An operand that is a string of valid UTF-8, its bytes apart from the result slot.\<close>

definition text_operand :: "rt \<Rightarrow> u32 \<Rightarrow> u32 \<Rightarrow> u32 list \<Rightarrow> bool" where
  "text_operand s out v cs \<longleftrightarrow> cv_kind (cv s v) = CEL_STRING \<and> str_of (mem s) (cv s v) = utf8_string cs
     \<and> (\<forall>c\<in>set cs. scalar_value c)
     \<and> apart (unat (pl_s_ptr (cv s v))) (unat (pl_s_len (cv s v))) (cel_value_at out) 24
     \<and> unat (pl_s_ptr (cv s v)) + unat (pl_s_len (cv s v)) \<le> 2 ^ 32"

lemma text_operandD:
  assumes "text_operand s out v cs"
  shows "cv_kind (cv s v) = CEL_STRING" "str_of (mem s) (cv s v) = utf8_string cs" "\<forall>c\<in>set cs. scalar_value c"
    "apart (unat (pl_s_ptr (cv s v))) (unat (pl_s_len (cv s v))) (cel_value_at out) 24"
    "unat (pl_s_ptr (cv s v)) + unat (pl_s_len (cv s v)) \<le> 2 ^ 32"
    "bytes_at (mem s) (unat (pl_s_ptr (cv s v))) (unat (pl_s_len (cv s v))) = utf8_string cs"
    "length (utf8_string cs) = unat (pl_s_len (cv s v))"
  using assms length_span_bytes [of "mem s" "pl_s_ptr (cv s v)" "pl_s_len (cv s v)"]
  by (auto simp: text_operand_def span_bytes_def)

lemma char_at_correct:
  assumes ok: "arena_ok s" "kept_range s (cel_value_at out) 24" and v: "text_operand s out v cs" and i: "cv_kind (cv s i) = CEL_INT"
  defines "k \<equiv> sint (pl_i (cv s i))"
  shows "if 0 \<le> k \<and> k \<le> int (length cs)
    then gives_string (cel_string_char_at_at_vv out v i s) out (if k < int (length cs) then utf8_encode (cs ! nat k) else []) s
    else cel_string_char_at_at_vv out v i s = Some (poison (cel_value_at out) CEL_ERR_INVALID_ARGUMENT s)"
proof -
  note d = text_operandD [OF v]
  have l: "length (utf8_encode c) < 2 ^ 32" for c by (simp add: utf8_encode_def Let_def)
  show ?thesis
    using d(1,2,3) i write_string_from_bytes_correct [OF ok l] write_string_from_bytes_correct [OF ok, of "[]"]
    by (auto simp: gives_string_def cel_string_char_at_at_vv_def strict_first_values char_at_loop_chunks chunks_utf8 k_def nat_less_iff Let_def)
qed

lemma dropWhile_split: "xs = takeWhile P xs @ strip @ rev (takeWhile P (rev (dropWhile P xs)))"
  if "strip = rev (dropWhile P (rev (dropWhile P xs)))" for strip
  by (simp add: that) (metis rev_append rev_rev_ident takeWhile_dropWhile_id)

lemma utf8_string_append: "utf8_string (xs @ ys) = utf8_string xs @ utf8_string ys"
  by (simp add: utf8_string_def)

lemma utf8_string_Nil_iff: "utf8_string cs = [] \<longleftrightarrow> cs = []"
  by (cases cs) auto

lemma trim_correct:
  assumes ok: "arena_ok s" and v: "text_operand s out v cs"
  shows "gives_slice (cel_string_trim_at_v out v s) out v (length (utf8_string (takeWhile is_unicode_whitespace cs)))
    (utf8_string (strip_end (dropWhile is_unicode_whitespace cs))) s"
proof -
  note d = text_operandD [OF v]
  let ?lhs = "dropWhile is_unicode_whitespace cs" and ?pre = "utf8_string (takeWhile is_unicode_whitespace cs)"
  have t: "trim_left (utf8_string cs) = utf8_string ?lhs" by (rule trim_left_text [OF d(3)])
  show ?thesis
  proof (cases "?lhs = []")
    case True
    have t0: "trim_left (utf8_string cs) = []" unfolding t True by simp
    show ?thesis unfolding True using gives_slice_empty [of out s v] d(1,2) t0
      by (simp add: cel_string_trim_at_v_def strict_first_values write_string_from_span_def Let_def)
  next
    case False
    let ?mid = "utf8_string (strip_end ?lhs)"
    have nw: "\<not> list_all is_unicode_whitespace ?lhs"
      using hd_dropWhile [OF False] hd_in_set [OF False] unfolding list_all_iff by blast
    have sc: "\<forall>c\<in>set ?lhs. scalar_value c" using d(3) set_dropWhileD by fast
    have e: "last_non_ws_end (utf8_string ?lhs) 0 0 = length ?mid" using last_non_ws_end_text [OF sc] nw by simp
    have lead: "length (utf8_string cs) - length (utf8_string ?lhs) = length ?pre"
      using utf8_string_append [of "takeWhile is_unicode_whitespace cs" ?lhs] by simp
    have m: "?mid \<noteq> []" using nw by (auto simp: utf8_string_Nil_iff list_all_iff)
    have "unat (word_of_nat (length ?mid) :: u32) \<noteq> 0"
    proof -
      have "length ?mid \<le> length (utf8_string cs)"
        using arg_cong [OF dropWhile_split [OF refl, of cs is_unicode_whitespace], of "\<lambda>xs. length (utf8_string xs)"]
        by (simp add: utf8_string_append)
      then have "length ?mid < 2 ^ 32" using d(7) unat_u32_lt [of "pl_s_len (cv s v)"] by simp
      then show ?thesis using m by (simp add: unat_of_nat)
    qed
    then have nz: "(word_of_nat (length ?mid) :: u32) \<noteq> 0" by auto
    have split: "utf8_string cs = ?pre @ ?mid @ utf8_string (rev (takeWhile is_unicode_whitespace (rev ?lhs)))"
      by (subst dropWhile_split [OF refl, of cs is_unicode_whitespace]) (simp only: utf8_string_append)
    have ne: "utf8_string ?lhs \<noteq> []" using False by (simp only: utf8_string_Nil_iff not_False_eq_True)
    show ?thesis
      unfolding cel_string_trim_at_v_def strict_first_string [OF d(1)] Let_def nth_Cons_0 d(2) t if_not_P [OF ne]
        e lead write_string_from_span_def if_not_P [OF nz]
      using gives_slice_part [OF ok d(4,5) _ m, unfolded d(6), OF split] .
  qed
qed

lemma reverse_correct:
  assumes ok: "arena_ok s" "kept_range s (cel_value_at out) 24" and v: "text_operand s out v cs"
  shows "gives_string (cel_string_reverse_at_v out v s) out (utf8_string (rev cs)) s"
proof (cases "cs = []")
  case True
  then show ?thesis using string_out_empty [OF ok(1), of out 0] text_operandD [OF v]
    by (simp add: gives_string_def cel_string_reverse_at_v_def strict_first_values write_string_from_span_def Let_def)
next
  case False
  note d = text_operandD [OF v]
  have r: "reverse_loop (utf8_string cs) (length (utf8_string cs)) = utf8_string (rev cs)" using reverse_loop_text [OF d(3), of "[]"] by simp
  have "length (utf8_string (rev cs)) = length (utf8_string cs)"
    by (simp add: utf8_string_def length_concat rev_map [symmetric] comp_def)
  then have "length (utf8_string (rev cs)) = unat (pl_s_len (cv s v))" using d(7) by simp
  note a = string_out_alloc [OF ok this]
  have ne: "utf8_string cs \<noteq> []" using False by (simp add: utf8_string_Nil_iff)
  show ?thesis
    unfolding gives_string_def cel_string_reverse_at_v_def strict_first_string [OF d(1)] Let_def nth_Cons_0 d(2) r if_not_P [OF ne]
    by (rule a)
qed


text \<open>The documented behaviour of the ASCII classes and folds.\<close>

definition ascii_ok :: "ascii_lib \<Rightarrow> bool" where
  "ascii_ok lib \<longleftrightarrow> (\<forall>c. ascii_isupper lib c \<longleftrightarrow> 0x41 \<le> c \<and> c \<le> 0x5A) \<and> (\<forall>c. ascii_islower lib c \<longleftrightarrow> 0x61 \<le> c \<and> c \<le> 0x7A)
     \<and> (\<forall>c. ascii_tolower lib c = (if 0x41 \<le> c \<and> c \<le> 0x5A then c + 0x20 else c))
     \<and> (\<forall>c. ascii_toupper lib c = (if 0x61 \<le> c \<and> c \<le> 0x7A then c - 0x20 else c))"

definition lower_byte :: "u8 \<Rightarrow> u8" where "lower_byte c = (if 0x41 \<le> c \<and> c \<le> 0x5A then c + 0x20 else c)"
definition upper_byte :: "u8 \<Rightarrow> u8" where "upper_byte c = (if 0x61 \<le> c \<and> c \<le> 0x7A then c - 0x20 else c)"

lemma ascii_fold_correct:
  assumes ok: "arena_ok s" "kept_range s (cel_value_at out) 24" and v: "text_operand s out v cs"
  shows "gives_string (ascii_fold_into (cel_value_at out) (cv s v) need fold_byte s) out
    (map (\<lambda>c. if need c then fold_byte c else c) (utf8_string cs)) s"
proof (cases "list_ex need (utf8_string cs)")
  note d = text_operandD [OF v]
  let ?bs = "map (\<lambda>c. if need c then fold_byte c else c) (utf8_string cs)"
  case True
  have l: "length ?bs = unat (pl_s_len (cv s v))" using d(7) by simp
  have e: "\<not> \<not> list_ex need (utf8_string cs)" using True by simp
  show ?thesis unfolding ascii_fold_into_def Let_def d(2) gives_string_def if_not_P [OF e] by (rule string_out_alloc [OF ok l])
next
  note d = text_operandD [OF v]
  case False
  then have "map (\<lambda>c. if need c then fold_byte c else c) (utf8_string cs) = utf8_string cs"
    by (intro map_idI) (auto simp: list_ex_iff)
  moreover have "string_out out (utf8_string cs) s (write_string_from_span (cel_value_at out) (pl_s_ptr (cv s v)) (pl_s_len (cv s v)) s)"
  proof (cases "pl_s_len (cv s v) = 0")
    case True
    then have "utf8_string cs = []" using d(7) by simp
    then show ?thesis using True string_out_empty [OF ok(1), of out 0] by (simp add: write_string_from_span_def)
  next
    case False
    then show ?thesis using string_out_span [OF ok(1) d(4,6)] by (simp add: write_string_from_span_def)
  qed
  ultimately show ?thesis using False d(2) by (simp add: ascii_fold_into_def gives_string_def)
qed

text \<open>
  The white space of Unicode: the horizontal tab to the carriage return, the space, the next line, the no-break
  space, and the spaces and separators above them.
\<close>

definition unicode_spaces :: "u32 set" where
  "unicode_spaces = {0x09..0x0D} \<union> {0x20, 0x85, 0xA0, 0x1680} \<union> {0x2000..0x200A} \<union> {0x2028, 0x2029, 0x202F, 0x205F, 0x3000}"

lemma unicode_whitespace_exact: "is_unicode_whitespace = (\<lambda>c. c \<in> unicode_spaces)"
proof
  fix c :: u32
  show "is_unicode_whitespace c \<longleftrightarrow> c \<in> unicode_spaces"
    unfolding is_unicode_whitespace_def unicode_spaces_def word_le_nat_alt word_less_nat_alt atLeastAtMost_iff Un_iff insert_iff
    by (auto simp: word_unat_eq_iff)
qed

text \<open>
  The escapes of a quoted text: the code point and the letter after the backslash, for bell, backspace, form feed,
  line feed, carriage return, the two tabs, the backslash and the double quote. Other code points stand for themselves.
\<close>

definition quote_escapes :: "(u32 \<times> u8) list" where
  "quote_escapes = [(0x07, 0x61), (0x08, 0x62), (0x0C, 0x66), (0x0A, 0x6E), (0x0D, 0x72), (0x09, 0x74), (0x0B, 0x76), (0x5C, 0x5C), (0x22, 0x22)]"

definition quoted :: "u32 list \<Rightarrow> u8 list" where
  "quoted cs = [0x22] @ concat (map (\<lambda>c. case map_of quote_escapes c of Some x \<Rightarrow> [0x5C, x] | None \<Rightarrow> utf8_encode c) cs) @ [0x22]"

lemma quote_codepoint_exact: "append_quote_codepoint c src = (case map_of quote_escapes c of Some x \<Rightarrow> [0x5C, x] | None \<Rightarrow> src)"
  by (simp add: append_quote_codepoint_def quote_escapes_def)

lemma quote_length:
  "length (concat (map (\<lambda>c. append_quote_codepoint c (utf8_encode c)) cs)) \<le> 2 * length (utf8_string cs)"
proof (induction cs)
  case (Cons c cs)
  have "append_quote_codepoint c (utf8_encode c) = utf8_encode c \<or> length (append_quote_codepoint c (utf8_encode c)) = 2"
    by (simp add: append_quote_codepoint_def)
  then have "length (append_quote_codepoint c (utf8_encode c)) \<le> 2 * length (utf8_encode c)"
    using utf8_encode_length [of c] by (elim disjE) (simp, linarith)
  then show ?case using Cons by simp
qed simp

subsection \<open>Properties\<close>

text \<open>
  C23. The code point kernels work on code points. On valid UTF-8 \<open>charAt\<close> answers the encoding of the
  code point at an index, the empty string at the length and the invalid-argument error outside;
  \<open>reverse\<close> answers the encoding of the reversed code points, \<open>trim\<close> drops the Unicode white space
  (\<open>unicode_spaces\<close>) at both ends and answers the part of the operand's own bytes between,
  \<open>lowerAscii\<close> and \<open>upperAscii\<close> fold the ASCII letters alone, and \<open>quote\<close> wraps the text in quotes with
  the nine code points of \<open>quote_escapes\<close> written as a backslash and their letter. A result other than that of \<open>trim\<close>
  is the overflow error only when the arena refuses its bytes; the quoted text is taken to be shorter than 4 GiB.
\<close>

theorem string_code_point_kernels:
  assumes ok: "arena_ok s" "kept_range s (cel_value_at out) 24" and v: "text_operand s out v cs"
    and i: "cv_kind (cv s i) = CEL_INT" and lib: "ascii_ok lib" and len: "2 * length (utf8_string cs) + 2 < 2 ^ 32"
  shows "(if 0 \<le> sint (pl_i (cv s i)) \<and> sint (pl_i (cv s i)) \<le> int (length cs)
      then gives_string (cel_string_char_at_at_vv out v i s) out
        (if sint (pl_i (cv s i)) < int (length cs) then utf8_encode (cs ! nat (sint (pl_i (cv s i)))) else []) s
      else cel_string_char_at_at_vv out v i s = Some (poison (cel_value_at out) CEL_ERR_INVALID_ARGUMENT s))
    \<and> gives_string (cel_string_reverse_at_v out v s) out (utf8_string (rev cs)) s
    \<and> gives_slice (cel_string_trim_at_v out v s) out v (length (utf8_string (takeWhile (\<lambda>c. c \<in> unicode_spaces) cs)))
        (utf8_string (rev (dropWhile (\<lambda>c. c \<in> unicode_spaces) (rev (dropWhile (\<lambda>c. c \<in> unicode_spaces) cs))))) s
    \<and> gives_string (cel_string_lower_ascii_at_v lib out v s) out (map lower_byte (utf8_string cs)) s
    \<and> gives_string (cel_string_upper_ascii_at_v lib out v s) out (map upper_byte (utf8_string cs)) s
    \<and> gives_string (cel_string_quote_at_v out v s) out (quoted cs) s"
proof (intro conjI)
  note d = text_operandD [OF v]
  have fold: "(\<lambda>c. if ascii_isupper lib c then ascii_tolower lib c else c) = lower_byte"
    "(\<lambda>c. if ascii_islower lib c then ascii_toupper lib c else c) = upper_byte"
    using lib by (auto simp: ascii_ok_def lower_byte_def upper_byte_def)
  show "gives_string (cel_string_lower_ascii_at_v lib out v s) out (map lower_byte (utf8_string cs)) s"
    using ascii_fold_correct [OF ok v, of "ascii_isupper lib" "ascii_tolower lib"]
    by (simp add: cel_string_lower_ascii_at_v_def strict_first_string [OF d(1)] fold)
  show "gives_string (cel_string_upper_ascii_at_v lib out v s) out (map upper_byte (utf8_string cs)) s"
    using ascii_fold_correct [OF ok v, of "ascii_islower lib" "ascii_toupper lib"]
    by (simp add: cel_string_upper_ascii_at_v_def strict_first_string [OF d(1)] fold)
  have q: "quoted cs = [0x22] @ concat (map (\<lambda>c. append_quote_codepoint c (utf8_encode c)) cs) @ [0x22]"
    by (simp add: quoted_def quote_codepoint_exact)
  have "length (quoted cs) < 2 ^ 32" using quote_length [of cs] len by (simp add: q)
  from write_string_from_bytes_correct [OF ok this]
  show "gives_string (cel_string_quote_at_v out v s) out (quoted cs) s"
    by (simp add: q gives_string_def cel_string_quote_at_v_def strict_first_string [OF d(1)] d(2) quote_loop_text [OF d(3)])
qed (rule char_at_correct [OF ok v i] reverse_correct [OF ok v] trim_correct [OF ok(1) v, unfolded unicode_whitespace_exact])+


text \<open>The text \<open>aeB\<close> with a two-byte code point in the middle at slot 128, the index 1 at slot 160.\<close>

definition sample_ascii :: ascii_lib where
  "sample_ascii = \<lparr>ascii_isupper = (\<lambda>c. 0x41 \<le> c \<and> c \<le> 0x5A), ascii_islower = (\<lambda>c. 0x61 \<le> c \<and> c \<le> 0x7A),
     ascii_tolower = lower_byte, ascii_toupper = upper_byte\<rparr>"

lemma sample_ascii_ok: "ascii_ok sample_ascii"
  by (simp add: ascii_ok_def sample_ascii_def lower_byte_def upper_byte_def)

definition sample_bytes :: "u8 list" where "sample_bytes = [0x61, 0xC3, 0xA9, 0x42]"

definition sample_text :: rt where
  "sample_text = sample_rt\<lparr>mem := store_bytes (store_cv (store_cv (\<lambda>_. 0)
     128 \<lparr>cv_kind = CEL_STRING, cv_pad = 0, cv_lo = join32 512 4, cv_hi = 0\<rparr>)
     160 \<lparr>cv_kind = CEL_INT, cv_pad = 0, cv_lo = 1, cv_hi = 0\<rparr>) 512 sample_bytes\<rparr>"

lemma sample_text_cells:
  "cv sample_text 128 = \<lparr>cv_kind = CEL_STRING, cv_pad = 0, cv_lo = join32 512 4, cv_hi = 0\<rparr>"
  "cv sample_text 160 = \<lparr>cv_kind = CEL_INT, cv_pad = 0, cv_lo = 1, cv_hi = 0\<rparr>"
  by (simp_all only: sample_text_def cel_value_at_def rt.simps) (simp_all add: load_cv_under_bytes mem_simps)

lemma sample_text_operand: "text_operand sample_text 256 128 [0x61, 0xE9, 0x42]"
proof -
  have "length sample_bytes = 4" by (simp add: sample_bytes_def)
  then have "bytes_at (mem sample_text) 512 4 = sample_bytes"
    using bytes_at_store_bytes [of _ 512 sample_bytes] by (simp add: sample_text_def)
  moreover have "utf8_string [0x61, 0xE9, 0x42] = sample_bytes" by code_simp
  ultimately show ?thesis
    unfolding text_operand_def sample_text_cells by (simp add: pl_defs span_bytes_def scalar_value_def apart_def cel_value_at_def)
qed

theorem string_code_point_kernels_witness:
  "gives_string (cel_string_reverse_at_v 256 128 sample_text) 256 (utf8_string [0x42, 0xE9, 0x61]) sample_text
   \<and> gives_string (cel_string_char_at_at_vv 256 128 160 sample_text) 256 (utf8_encode 0xE9) sample_text"
proof -
  have "arena_ok sample_text" by (simp add: sample_text_def sample_rt_ok)
  moreover have "length (utf8_string [0x61, 0xE9, 0x42]) = 4" by code_simp
  ultimately show ?thesis
    using string_code_point_kernels [OF _ _ sample_text_operand _ sample_ascii_ok, of 160] sample_text_cells
    by (simp add: low_kept cel_value_at_def pl_defs)
qed

end
