(* ===== verification/StrSearch.thy ===== *)
theory StrSearch
  imports StrExt
begin

text \<open>
  The search kernels of the string extension (\<open>runtime/cel_string_ext_search.cc\<close>): \<open>indexOf\<close>, \<open>lastIndexOf\<close>,
  \<open>substring\<close>, \<open>replace\<close>. The searches walk the memory from anchor byte to anchor byte and count code points;
  offsets and counters are numbers, below \<open>2 ^ 32\<close> in the program.
\<close>

lemma find_byte_some: "find_byte m p c n = Some h \<Longrightarrow> p \<le> h \<and> h < p + n \<and> m h = c \<and> (\<forall>x. p \<le> x \<longrightarrow> x < h \<longrightarrow> m x \<noteq> c)"
proof -
  assume "find_byte m p c n = Some h"
  then obtain i where i: "find (\<lambda>i. m (p + i) = c) [0..<n] = Some i" "h = p + i" by (auto simp: find_byte_nth split: option.splits)
  then have "i < n" "m (p + i) = c" "\<forall>j<i. m (p + j) \<noteq> c" by (auto simp: find_Some_iff)
  moreover have "x = p + (x - p)" "x - p < i" if "p \<le> x" "x < h" for x using that i(2) by auto
  ultimately show ?thesis using i(2) by (metis add_less_cancel_left le_add1)
qed

lemma find_byte_none: "find_byte m p c n = None \<Longrightarrow> i < n \<Longrightarrow> m (p + i) \<noteq> c"
  by (auto simp: find_byte_nth find_None_iff split: option.splits)

lemma decode_pos: "(units, c) = utf8_decode p \<Longrightarrow> 0 < units"
  using utf8_decode_units(1) [of p] by (cases "utf8_decode p") auto

subsection \<open>The walk to a target\<close>

text \<open>Whether the target is a boundary, the boundary reached, and the code points counted.\<close>

function advance_to_boundary :: "memory \<Rightarrow> nat \<Rightarrow> nat \<Rightarrow> nat \<Rightarrow> int \<Rightarrow> bool \<times> nat \<times> int" where
  "advance_to_boundary m q e target code_points =
     (if q < target
      then (let ascii = cel_ascii_prefix_blocks m q (target - q) in
        if ascii \<noteq> 0 then advance_to_boundary m (q + ascii) e target (code_points + int ascii)
        else (let (units, c) = utf8_decode (bytes_at m q (e - q)) in
          advance_to_boundary m (q + units) e target (code_points + 1)))
      else (q = target, q, code_points))"
  by pat_completeness auto
termination
  by (relation "measure (\<lambda>(m, q, e, target, cp). target - q)") (auto dest!: decode_pos)

declare advance_to_boundary.simps [simp del]

lemma advance_bounds:
  assumes "advance_to_boundary m q e target cp = (on, q', cp')"
  shows "q \<le> q' \<and> target \<le> q' \<and> (on \<longleftrightarrow> q' = target)"
  using assms
proof (induction "target - q" arbitrary: q cp rule: less_induct)
  case less
  let ?a = "cel_ascii_prefix_blocks m q (target - q)" and ?u = "fst (utf8_decode (bytes_at m q (e - q)))"
  have u: "1 \<le> ?u" by (rule utf8_decode_units(1))
  have step: "advance_to_boundary m q e target cp =
    (if q < target then (if ?a \<noteq> 0 then advance_to_boundary m (q + ?a) e target (cp + int ?a)
       else advance_to_boundary m (q + ?u) e target (cp + 1)) else (q = target, q, cp))" for cp
    by (subst advance_to_boundary.simps) (simp add: split_def Let_def)
  have stop: "advance_to_boundary m x e target cp = (on, q', cp') \<Longrightarrow> target \<le> x \<Longrightarrow> x = q' \<and> (on \<longleftrightarrow> q' = target)" for x cp
    by (subst (asm) advance_to_boundary.simps) auto
  show ?case
  proof (cases "q < target")
    case True
    then have "target - (q + ?a) < target - q" if "?a \<noteq> 0" using that by simp
    moreover have "target - (q + ?u) < target - q" using True u by simp
    ultimately show ?thesis using less(1) [of "q + ?a"] less(1) [of "q + ?u"] less(2) True step [of cp]
      by (auto split: if_splits) (metis add_leE)+
  next
    case False
    then show ?thesis using stop less(2) by force
  qed
qed


lemma anchor_bounds: "cel_anchor_memchr m p c n = Some hit \<Longrightarrow> p \<le> hit"
  using find_byte_some by (simp add: cel_anchor_memchr_eq)

subsection \<open>Searching\<close>

function index_of_empty :: "memory \<Rightarrow> nat \<Rightarrow> nat \<Rightarrow> int \<Rightarrow> int \<Rightarrow> int" where
  "index_of_empty m p e cpos code_points =
     (if code_points \<ge> cpos then code_points
      else if e - p = 0 then - 1
      else (let (units, c) = utf8_decode (bytes_at m p (e - p)) in index_of_empty m (p + units) e cpos (code_points + 1)))"
  by pat_completeness auto
termination by (relation "measure (\<lambda>(m, p, e, cpos, cp). e - p)") (auto dest!: decode_pos)

text \<open>The anchored search for the needle \<open>anchor # rest\<close>.\<close>

function index_of_anchor :: "memory \<Rightarrow> nat \<Rightarrow> nat \<Rightarrow> u8 \<Rightarrow> u8 list \<Rightarrow> int \<Rightarrow> int \<Rightarrow> int" where
  "index_of_anchor m p e anchor rest cpos code_points =
     (if e - p \<ge> Suc (length rest)
      then (case cel_anchor_memchr m p anchor (e - p - Suc (length rest) + 1) of
          None \<Rightarrow> - 1
        | Some hit \<Rightarrow>
            (let (on, p', code_points) = advance_to_boundary m p e hit code_points in
             if \<not> on then index_of_anchor m p' e anchor rest cpos code_points
             else if code_points \<ge> cpos \<and> bytes_at m p' (Suc (length rest)) = anchor # rest then code_points
             else if e - p' = Suc (length rest) then - 1
             else (let (units, c) = utf8_decode (bytes_at m p' (e - p')) in
               index_of_anchor m (p' + units) e anchor rest cpos (code_points + 1))))
      else - 1)"
  by pat_completeness auto
termination
  by (relation "measure (\<lambda>(m, p, e, a, r, cpos, cp). e - p)")
    (auto dest!: advance_bounds [OF sym] anchor_bounds decode_pos)

declare index_of_empty.simps [simp del] index_of_anchor.simps [simp del]

definition index_of_impl :: "memory \<Rightarrow> cel_value \<Rightarrow> u8 list \<Rightarrow> int \<Rightarrow> int" where
  "index_of_impl m haystack needle cpos =
     (let cpos = max cpos 0; p = unat (pl_s_ptr haystack); e = p + unat (pl_s_len haystack) in
      case needle of [] \<Rightarrow> index_of_empty m p e cpos 0 | anchor # rest \<Rightarrow> index_of_anchor m p e anchor rest cpos 0)"

text \<open>The optional bound is \<open>has_pos\<close> with its \<open>pos\<close>.\<close>

function last_index_of_empty :: "memory \<Rightarrow> nat \<Rightarrow> nat \<Rightarrow> int option \<Rightarrow> int \<Rightarrow> int" where
  "last_index_of_empty m p e cpos code_points =
     (if (case cpos of Some q \<Rightarrow> code_points \<ge> q | None \<Rightarrow> False) \<or> e - p = 0 then code_points
      else (let (units, c) = utf8_decode (bytes_at m p (e - p)) in last_index_of_empty m (p + units) e cpos (code_points + 1)))"
  by pat_completeness auto
termination by (relation "measure (\<lambda>(m, p, e, cpos, cp). e - p)") (auto dest!: decode_pos)

function last_index_of_anchor :: "memory \<Rightarrow> nat \<Rightarrow> nat \<Rightarrow> u8 \<Rightarrow> u8 list \<Rightarrow> int option \<Rightarrow> int \<Rightarrow> int \<Rightarrow> int" where
  "last_index_of_anchor m p e anchor rest cpos code_points last_index =
     (if e - p \<ge> Suc (length rest)
      then (case cel_anchor_memchr m p anchor (e - p - Suc (length rest) + 1) of
          None \<Rightarrow> last_index
        | Some hit \<Rightarrow>
            (let (on, p', code_points) = advance_to_boundary m p e hit code_points in
             if \<not> on then last_index_of_anchor m p' e anchor rest cpos code_points last_index
             else if (case cpos of Some q \<Rightarrow> code_points > q | None \<Rightarrow> False) then last_index
             else (let last_index = (if bytes_at m p' (Suc (length rest)) = anchor # rest then code_points else last_index) in
               if (case cpos of Some q \<Rightarrow> code_points \<ge> q | None \<Rightarrow> False) \<or> e - p' = Suc (length rest) then last_index
               else (let (units, c) = utf8_decode (bytes_at m p' (e - p')) in
                 last_index_of_anchor m (p' + units) e anchor rest cpos (code_points + 1) last_index))))
      else last_index)"
  by pat_completeness auto
termination
  by (relation "measure (\<lambda>(m, p, e, a, r, cpos, cp, li). e - p)")
    (auto dest!: advance_bounds [OF sym] anchor_bounds decode_pos)

declare last_index_of_empty.simps [simp del] last_index_of_anchor.simps [simp del]

definition last_index_of_impl :: "memory \<Rightarrow> cel_value \<Rightarrow> u8 list \<Rightarrow> int option \<Rightarrow> int" where
  "last_index_of_impl m haystack needle cpos =
     (let p = unat (pl_s_ptr haystack); e = p + unat (pl_s_len haystack) in
      case needle of [] \<Rightarrow> last_index_of_empty m p e cpos 0 | anchor # rest \<Rightarrow> last_index_of_anchor m p e anchor rest cpos 0 (- 1))"

text \<open>The byte offset of the \<open>n\<close>-th code point; \<open>None\<close> is the -1 of the code.\<close>

function byte_offset_loop :: "u8 list \<Rightarrow> nat \<Rightarrow> int \<Rightarrow> int \<Rightarrow> nat option" where
  "byte_offset_loop p off cp_count n =
     (if p \<noteq> []
      then if cp_count = n then Some off
        else (let (units, c) = utf8_decode p in byte_offset_loop (drop units p) (off + units) (cp_count + 1) n)
      else if cp_count = n then Some off else None)"
  by pat_completeness auto
termination by (relation "measure (\<lambda>(p, off, k, n). length p)") (auto dest: decode_shrinks [OF _ sym])

declare byte_offset_loop.simps [simp del]

definition codepoint_to_byte_offset :: "u8 list \<Rightarrow> int \<Rightarrow> nat option" where
  "codepoint_to_byte_offset bs n = (if n < 0 then None else byte_offset_loop bs 0 0 n)"

text \<open>Whether the position is in error.\<close>

definition validate_pos :: "int \<Rightarrow> u8 list \<Rightarrow> bool" where
  "validate_pos cpos haystack \<longleftrightarrow> cpos < 0 \<or> codepoint_to_byte_offset haystack cpos = None"

definition cel_string_index_of_at_vv :: "u32 \<Rightarrow> u32 \<Rightarrow> u32 \<Rightarrow> rt \<Rightarrow> rt option" where
  "cel_string_index_of_at_vv out_slot s_slot sub_slot = strict_first [CEL_STRING, CEL_STRING] (\<lambda>out vs s.
     Some (write_int out (word_of_int (index_of_impl (mem s) (vs ! 0) (str_of (mem s) (vs ! 1)) 0)) s)) out_slot [s_slot, sub_slot]"

definition cel_string_index_of_at_vvv :: "u32 \<Rightarrow> u32 \<Rightarrow> u32 \<Rightarrow> u32 \<Rightarrow> rt \<Rightarrow> rt option" where
  "cel_string_index_of_at_vvv out_slot s_slot sub_slot pos_slot = strict_first [CEL_STRING, CEL_STRING, CEL_INT] (\<lambda>out vs s.
     let cpos = sint (pl_i (vs ! 2)) in
     if validate_pos cpos (str_of (mem s) (vs ! 0)) then Some (poison out CEL_ERR_INVALID_ARGUMENT s)
     else Some (write_int out (word_of_int (index_of_impl (mem s) (vs ! 0) (str_of (mem s) (vs ! 1)) cpos)) s))
     out_slot [s_slot, sub_slot, pos_slot]"

definition cel_string_last_index_of_at_vv :: "u32 \<Rightarrow> u32 \<Rightarrow> u32 \<Rightarrow> rt \<Rightarrow> rt option" where
  "cel_string_last_index_of_at_vv out_slot s_slot sub_slot = strict_first [CEL_STRING, CEL_STRING] (\<lambda>out vs s.
     Some (write_int out (word_of_int (last_index_of_impl (mem s) (vs ! 0) (str_of (mem s) (vs ! 1)) None)) s)) out_slot [s_slot, sub_slot]"

definition cel_string_last_index_of_at_vvv :: "u32 \<Rightarrow> u32 \<Rightarrow> u32 \<Rightarrow> u32 \<Rightarrow> rt \<Rightarrow> rt option" where
  "cel_string_last_index_of_at_vvv out_slot s_slot sub_slot pos_slot = strict_first [CEL_STRING, CEL_STRING, CEL_INT] (\<lambda>out vs s.
     let cpos = sint (pl_i (vs ! 2)) in
     if validate_pos cpos (str_of (mem s) (vs ! 0)) then Some (poison out CEL_ERR_INVALID_ARGUMENT s)
     else Some (write_int out (word_of_int (last_index_of_impl (mem s) (vs ! 0) (str_of (mem s) (vs ! 1)) (Some cpos))) s))
     out_slot [s_slot, sub_slot, pos_slot]"

subsection \<open>Slicing\<close>

definition cel_string_substring_at_vv :: "u32 \<Rightarrow> u32 \<Rightarrow> u32 \<Rightarrow> rt \<Rightarrow> rt option" where
  "cel_string_substring_at_vv out_slot s_slot start_slot = strict_first [CEL_STRING, CEL_INT] (\<lambda>out vs s.
     let v = vs ! 0; start = sint (pl_i (vs ! 1)); bs = str_of (mem s) v in
     if validate_pos start bs then Some (poison out CEL_ERR_INVALID_ARGUMENT s)
     else (case codepoint_to_byte_offset bs start of
         None \<Rightarrow> Some (poison out CEL_ERR_INVALID_ARGUMENT s)
       | Some off \<Rightarrow> Some (write_subspan out (pl_s_ptr v) (word_of_nat off) (pl_s_len v - word_of_nat off) s)))
     out_slot [s_slot, start_slot]"

definition cel_string_substring_range_at_vvv :: "u32 \<Rightarrow> u32 \<Rightarrow> u32 \<Rightarrow> u32 \<Rightarrow> rt \<Rightarrow> rt option" where
  "cel_string_substring_range_at_vvv out_slot s_slot start_slot end_slot = strict_first [CEL_STRING, CEL_INT, CEL_INT] (\<lambda>out vs s.
     let v = vs ! 0; i = sint (pl_i (vs ! 1)); j = sint (pl_i (vs ! 2)); bs = str_of (mem s) v in
     if i < 0 \<or> j < i then Some (poison out CEL_ERR_INVALID_ARGUMENT s)
     else if i > int (unat (pl_s_len v)) \<or> j > int (unat (pl_s_len v)) then Some (poison out CEL_ERR_INVALID_ARGUMENT s)
     else (case (codepoint_to_byte_offset bs i, codepoint_to_byte_offset bs j) of
         (Some from_byte, Some to_byte) \<Rightarrow>
           Some (write_subspan out (pl_s_ptr v) (word_of_nat from_byte) (word_of_nat (to_byte - from_byte)) s)
       | _ \<Rightarrow> Some (poison out CEL_ERR_INVALID_ARGUMENT s)))
     out_slot [s_slot, start_slot, end_slot]"

subsection \<open>Replacing\<close>

text \<open>\<open>string_view::find\<close>.\<close>

definition view_find :: "u8 list \<Rightarrow> u8 list \<Rightarrow> nat \<Rightarrow> nat option" where
  "view_find haystack needle cpos = find (\<lambda>i. take (length needle) (drop i haystack) = needle) [cpos..<Suc (length haystack)]"

function replace_empty_loop :: "u8 list \<Rightarrow> u8 list \<Rightarrow> int \<Rightarrow> u8 list" where
  "replace_empty_loop p replacement limit =
     (if p \<noteq> [] \<and> limit > 0
      then (let (units, c) = utf8_decode p in replacement @ take units p @ replace_empty_loop (drop units p) replacement (limit - 1))
      else p @ (if limit > 0 then replacement else []))"
  by pat_completeness auto
termination by (relation "measure (\<lambda>(p, r, limit). length p)") (auto dest: decode_shrinks [OF _ sym])

lemma view_find_ge: "view_find h n cpos = Some i \<Longrightarrow> cpos \<le> i"
  by (auto simp: view_find_def find_Some_iff simp del: upt_Suc)

function replace_loop :: "u8 list \<Rightarrow> u8 \<Rightarrow> u8 list \<Rightarrow> u8 list \<Rightarrow> nat \<Rightarrow> int \<Rightarrow> u8 list" where
  "replace_loop haystack c cs replacement cpos limit =
     (if cpos < length haystack \<and> limit > 0
      then (case view_find haystack (c # cs) cpos of
          None \<Rightarrow> drop cpos haystack
        | Some found \<Rightarrow>
            take (found - cpos) (drop cpos haystack) @ replacement
              @ replace_loop haystack c cs replacement (found + Suc (length cs)) (limit - 1))
      else drop cpos haystack)"
  by pat_completeness auto
termination
  by (relation "measure (\<lambda>(h, c, cs, r, cpos, limit). length h - cpos)") (auto dest!: view_find_ge)

declare replace_empty_loop.simps [simp del] replace_loop.simps [simp del]

definition build_replaced :: "u8 list \<Rightarrow> u8 list \<Rightarrow> u8 list \<Rightarrow> int \<Rightarrow> u8 list" where
  "build_replaced haystack needle replacement limit =
     (case needle of [] \<Rightarrow> replace_empty_loop haystack replacement limit
      | c # cs \<Rightarrow> replace_loop haystack c cs replacement 0 limit)"

definition do_replace :: "nat \<Rightarrow> nat \<Rightarrow> cel_value \<Rightarrow> cel_value \<Rightarrow> cel_value \<Rightarrow> int \<Rightarrow> rt \<Rightarrow> rt option" where
  "do_replace out src v old_v new_v limit s =
     (if limit = 0 then Some (copy_cv out src s)
      else (let limit = (if limit < 0 then INT64_MAX else limit) in
        write_string_from_bytes out (build_replaced (str_of (mem s) v) (str_of (mem s) old_v) (str_of (mem s) new_v) limit) s))"

definition cel_string_replace_at_vvv :: "u32 \<Rightarrow> u32 \<Rightarrow> u32 \<Rightarrow> u32 \<Rightarrow> rt \<Rightarrow> rt option" where
  "cel_string_replace_at_vvv out_slot s_slot old_slot new_slot = strict_first [CEL_STRING, CEL_STRING, CEL_STRING]
     (\<lambda>out vs. do_replace out (cel_value_at s_slot) (vs ! 0) (vs ! 1) (vs ! 2) (- 1)) out_slot [s_slot, old_slot, new_slot]"

definition cel_string_replace_n_at_vvvv :: "u32 \<Rightarrow> u32 \<Rightarrow> u32 \<Rightarrow> u32 \<Rightarrow> u32 \<Rightarrow> rt \<Rightarrow> rt option" where
  "cel_string_replace_n_at_vvvv out_slot s_slot old_slot new_slot n_slot = strict_first [CEL_STRING, CEL_STRING, CEL_STRING, CEL_INT]
     (\<lambda>out vs. do_replace out (cel_value_at s_slot) (vs ! 0) (vs ! 1) (vs ! 2) (sint (pl_i (vs ! 3)))) out_slot [s_slot, old_slot, new_slot, n_slot]"


subsection \<open>Code points under a pointer\<close>

text \<open>Between a pointer and the end lies the encoding of a list of code points.\<close>

definition at_text :: "memory \<Rightarrow> nat \<Rightarrow> nat \<Rightarrow> u32 list \<Rightarrow> bool" where
  "at_text m p e ds \<longleftrightarrow> p \<le> e \<and> bytes_at m p (e - p) = utf8_string ds \<and> (\<forall>c\<in>set ds. scalar_value c)"

abbreviation offset_of :: "u32 list \<Rightarrow> nat \<Rightarrow> nat" where
  "offset_of ds j \<equiv> length (utf8_string (take j ds))"

lemma at_text_length: "at_text m p e ds \<Longrightarrow> e - p = length (utf8_string ds)"
  unfolding at_text_def by (metis length_bytes_at)

lemma at_text_byte: "at_text m p e ds \<Longrightarrow> i < e - p \<Longrightarrow> m (p + i) = utf8_string ds ! i"
  unfolding at_text_def by (metis bytes_at_nth)

lemma at_text_append: "at_text m p e (xs @ ys) \<Longrightarrow> at_text m (p + length (utf8_string xs)) e ys"
proof -
  assume a: "at_text m p e (xs @ ys)"
  let ?k = "length (utf8_string xs)"
  have n: "e - p = ?k + length (utf8_string ys)" using at_text_length [OF a] by (simp add: utf8_string_append)
  have "bytes_at m p ?k @ bytes_at m (p + ?k) (length (utf8_string ys)) = utf8_string xs @ utf8_string ys"
    using a unfolding at_text_def n bytes_at_append by (simp add: utf8_string_append)
  then have "bytes_at m (p + ?k) (length (utf8_string ys)) = utf8_string ys" by simp
  moreover have "e - (p + ?k) = length (utf8_string ys)" "p + ?k \<le> e" using n a by (auto simp: at_text_def)
  ultimately show ?thesis using a by (simp add: at_text_def)
qed

lemma at_text_drop: "at_text m p e ds \<Longrightarrow> at_text m (p + offset_of ds j) e (drop j ds)"
  using at_text_append [of m p e "take j ds" "drop j ds"] by simp

lemma at_text_decode:
  "at_text m p e (d # ds) \<Longrightarrow> utf8_decode (bytes_at m p (e - p)) = (length (utf8_encode d), d)"
  unfolding at_text_def by (simp add: decode_text)

lemma at_text_step: "at_text m p e (d # ds) \<Longrightarrow> at_text m (p + length (utf8_encode d)) e ds"
  using at_text_append [of m p e "[d]" ds] by simp

lemma text_operand_at:
  "text_operand s out v cs \<Longrightarrow> at_text (mem s) (unat (pl_s_ptr (cv s v))) (unat (pl_s_ptr (cv s v)) + unat (pl_s_len (cv s v))) cs"
  using text_operandD(3,6) by (simp add: at_text_def)

lemma offset_of_less:
  assumes "i < j" "j \<le> length ds"
  shows "offset_of ds i < offset_of ds j"
proof -
  have "take j ds = take i ds @ take (j - i) (drop i ds)" using assms(1) by (metis add_diff_inverse_nat not_less_iff_gr_or_eq take_add)
  moreover have "take (j - i) (drop i ds) \<noteq> []" using assms by auto
  ultimately show ?thesis by (simp add: utf8_string_append utf8_string_Nil_iff)
qed

lemma offset_of_drop: "a \<le> j \<Longrightarrow> offset_of ds j = offset_of ds a + offset_of (drop a ds) (j - a)"
  by (metis le_add_diff_inverse length_append take_add utf8_string_append)

lemma encode_ascii: "scalar_value d \<Longrightarrow> utf8_encode d ! 0 < 0x80 \<Longrightarrow> length (utf8_encode d) = 1"
proof -
  assume d: "scalar_value d" and a: "utf8_encode d ! 0 < 0x80"
  have "unat (utf8_encode d ! 0) < 128" using a by (simp add: word_less_nat_alt)
  moreover have "map unat (utf8_encode d) ! 0 = unat (utf8_encode d ! 0)" by simp
  ultimately have lt: "map unat (utf8_encode d) ! 0 < 128" by simp
  have "length (map unat (utf8_encode d)) = 1"
    using lt unfolding utf8_encode_nat [OF scalar_bound [OF d]] Let_def by (simp split: if_splits)
  then show ?thesis by simp
qed

lemma ascii_prefix:
  "\<forall>c\<in>set ds. scalar_value c \<Longrightarrow> n \<le> length (utf8_string ds) \<Longrightarrow> \<forall>i<n. utf8_string ds ! i < 0x80 \<Longrightarrow>
   n \<le> length ds \<and> offset_of ds n = n"
proof (induction n arbitrary: ds)
  case (Suc n)
  then obtain d ds' where ds: "ds = d # ds'" by (cases ds) auto
  have "utf8_encode d ! 0 < 0x80" using Suc.prems(3) [rule_format, of 0] unfolding ds by (simp add: nth_append)
  then have l: "length (utf8_encode d) = 1" using encode_ascii [of d] Suc.prems(1) ds by simp
  have "\<forall>i<n. utf8_string ds' ! i < 0x80"
  proof (intro allI impI)
    fix i assume "i < n"
    then show "utf8_string ds' ! i < 0x80" using Suc.prems(3) [rule_format, of "Suc i"] l unfolding ds by (simp add: nth_append)
  qed
  then have "n \<le> length ds' \<and> offset_of ds' n = n" using Suc.IH [of ds'] Suc.prems(1,2) l ds by simp
  then show ?case using ds l by simp
qed simp

lemma advance_text:
  "at_text m q e ds \<Longrightarrow> j \<le> length ds \<Longrightarrow>
   advance_to_boundary m q e (q + offset_of ds j) cp = (True, q + offset_of ds j, cp + int j)"
proof (induction j arbitrary: q ds cp rule: less_induct)
  case (less j)
  show ?case
  proof (cases j)
    case 0
    then show ?thesis by (subst advance_to_boundary.simps) simp
  next
    case (Suc i)
    then obtain d ds' where ds: "ds = d # ds'" using less.prems(2) by (cases ds) auto
    let ?t = "q + offset_of ds j"
    let ?a = "cel_ascii_prefix_blocks m q (?t - q)"
    have lt: "q < ?t" using offset_of_less [of 0 j ds] less.prems(2) Suc by simp
    have le: "offset_of ds j \<le> e - q"
      using at_text_length [OF less.prems(1)] utf8_string_append [of "take j ds" "drop j ds"] by simp
    show ?thesis
    proof (cases "?a = 0")
      case True
      have "advance_to_boundary m q e ?t cp = advance_to_boundary m (q + length (utf8_encode d)) e ?t (cp + 1)"
        using lt True at_text_decode [OF less.prems(1) [unfolded ds]] by (subst advance_to_boundary.simps) (simp add: Let_def)
      moreover have "?t = q + length (utf8_encode d) + offset_of ds' i" using ds Suc by simp
      ultimately show ?thesis
        using less.IH [OF _ at_text_step [OF less.prems(1) [unfolded ds]], of i "cp + 1"] less.prems(2) Suc ds by (simp add: add.assoc)
    next
      case False
      have al: "?a \<le> offset_of ds j" using cel_ascii_prefix_blocks_ascii(1) [of m q "?t - q"] by simp
      have "utf8_string ds ! x < 0x80" if "x < ?a" for x
        using cel_ascii_prefix_blocks_ascii(3) [OF that] at_text_byte [OF less.prems(1), of x] that al le by simp
      then have a: "?a \<le> length ds" "offset_of ds ?a = ?a"
        using ascii_prefix [of ds ?a] al le at_text_length [OF less.prems(1)] less.prems(1) by (auto simp: at_text_def)
      have aj: "?a \<le> j"
      proof (rule ccontr)
        assume "\<not> ?a \<le> j"
        then have "offset_of ds j < offset_of ds ?a" by (intro offset_of_less) (use a in auto)
        then show False using al a(2) by simp
      qed
      have eq: "advance_to_boundary m q e ?t cp = advance_to_boundary m (q + ?a) e ?t (cp + int ?a)"
        using lt False by (subst advance_to_boundary.simps) (simp add: Let_def)
      have t: "q + ?a + offset_of (drop ?a ds) (j - ?a) = ?t" using offset_of_drop [OF aj, of ds] a(2) by simp
      have "at_text m (q + ?a) e (drop ?a ds)" using at_text_drop [OF less.prems(1), of ?a] a(2) by simp
      then have "advance_to_boundary m (q + ?a) e (q + ?a + offset_of (drop ?a ds) (j - ?a)) (cp + int ?a)
          = (True, q + ?a + offset_of (drop ?a ds) (j - ?a), cp + int ?a + int (j - ?a))"
        by (intro less.IH) (use False less.prems(2) aj in simp_all)
      then have "advance_to_boundary m (q + ?a) e ?t (cp + int ?a) = (True, ?t, cp + int ?a + int (j - ?a))" unfolding t .
      moreover have "cp + int ?a + int (j - ?a) = cp + int j" using aj by simp
      ultimately show ?thesis unfolding eq by (simp only: simp_thms)
    qed
  qed
qed

lemma lead_offset:
  "\<forall>c\<in>set ds. scalar_value c \<Longrightarrow> i < length (utf8_string ds) \<Longrightarrow> utf8_string ds ! i AND 0xC0 \<noteq> 0x80 \<Longrightarrow>
   \<exists>j<length ds. i = offset_of ds j"
proof (induction ds arbitrary: i)
  case (Cons d ds)
  obtain x ys where e: "utf8_encode d = x # ys" "\<forall>y\<in>set ys. y AND 0xC0 = 0x80"
    using encode_shape [OF scalar_bound, of d] Cons.prems(1) by auto
  let ?l = "length (utf8_encode d)"
  show ?case
  proof (cases "i < ?l")
    case True
    then have "i = 0" using Cons.prems(3) e by (cases i) (auto simp: nth_append)
    then show ?thesis by (intro exI [of _ 0]) simp
  next
    case False
    then have "i - ?l < length (utf8_string ds)" "utf8_string ds ! (i - ?l) AND 0xC0 \<noteq> 0x80"
      using Cons.prems(2,3) by (auto simp: nth_append)
    then obtain j where "j < length ds" "i - ?l = offset_of ds j" using Cons.IH [of "i - ?l"] Cons.prems(1) by auto
    then show ?thesis using False by (intro exI [of _ "Suc j"]) simp
  qed
qed simp

lemma prefix_text:
  "\<forall>c\<in>set ns. scalar_value c \<Longrightarrow> \<forall>c\<in>set ds. scalar_value c \<Longrightarrow> prefix (utf8_string ns) (utf8_string ds) \<longleftrightarrow> prefix ns ds"
proof (induction ns arbitrary: ds)
  case (Cons n ns)
  show ?case
  proof (cases ds)
    case Nil
    then show ?thesis by simp
  next
    case d: (Cons d ds')
    show ?thesis
    proof
      assume "prefix (utf8_string (n # ns)) (utf8_string ds)"
      then obtain zs where z: "utf8_encode n @ (utf8_string ns @ zs) = utf8_encode d @ utf8_string ds'" by (auto simp: prefix_def d)
      have "(length (utf8_encode n), n) = (length (utf8_encode d), d)"
        using decode_text [of n "utf8_string ns @ zs"] decode_text [of d "utf8_string ds'"] z Cons.prems d by simp
      then have "n = d" by simp
      then have "utf8_string ds' = utf8_string ns @ zs" using z by simp
      then have "prefix (utf8_string ns) (utf8_string ds')" by (simp add: prefix_def)
      then show "prefix (n # ns) ds" using \<open>n = d\<close> Cons d by simp
    next
      assume "prefix (n # ns) ds"
      then show "prefix (utf8_string (n # ns)) (utf8_string ds)" by (auto simp: prefix_def utf8_string_append)
    qed
  qed
qed simp

lemma match_text:
  assumes "at_text m p e ds" "\<forall>c\<in>set ns. scalar_value c" "length (utf8_string ns) \<le> e - p"
  shows "bytes_at m p (length (utf8_string ns)) = utf8_string ns \<longleftrightarrow> prefix ns ds"
proof -
  let ?l = "length (utf8_string ns)"
  have "bytes_at m p ?l = take ?l (bytes_at m p (e - p))"
    by (rule nth_equalityI) (use assms(3) in simp_all)
  then have "bytes_at m p ?l = take ?l (utf8_string ds)" using assms(1) by (simp add: at_text_def)
  moreover have "take ?l (utf8_string ds) = utf8_string ns \<longleftrightarrow> prefix (utf8_string ns) (utf8_string ds)"
    by (metis append_eq_conv_conj append_take_drop_id prefix_def)
  ultimately show ?thesis using prefix_text [OF assms(2), of ds] assms(1) by (simp add: at_text_def)
qed


subsection \<open>The searches on code points\<close>

fun search_from :: "u32 list \<Rightarrow> u32 list \<Rightarrow> int \<Rightarrow> int \<Rightarrow> int" where
  "search_from ns [] lo k = (if lo \<le> k \<and> ns = [] then k else - 1)"
| "search_from ns (d # ds) lo k = (if lo \<le> k \<and> prefix ns (d # ds) then k else search_from ns ds lo (k + 1))"

definition within :: "int option \<Rightarrow> int \<Rightarrow> bool" where
  "within hi k \<longleftrightarrow> (case hi of None \<Rightarrow> True | Some q \<Rightarrow> k \<le> q)"

fun search_last :: "u32 list \<Rightarrow> u32 list \<Rightarrow> int option \<Rightarrow> int \<Rightarrow> int \<Rightarrow> int" where
  "search_last ns [] hi k li = (if within hi k \<and> ns = [] then k else li)"
| "search_last ns (d # ds) hi k li =
     (if within hi k then search_last ns ds hi (k + 1) (if prefix ns (d # ds) then k else li) else li)"

lemma within_mono: "\<not> within hi k \<Longrightarrow> k \<le> l \<Longrightarrow> \<not> within hi l"
  by (auto simp: within_def split: option.splits)

lemma search_last_beyond: "\<not> within hi k \<Longrightarrow> search_last ns ds hi k li = li"
  by (cases ds) auto

lemma search_skip:
  "j \<le> length ds \<Longrightarrow> (\<And>i. i < j \<Longrightarrow> \<not> prefix ns (drop i ds)) \<Longrightarrow>
   search_from ns ds lo k = search_from ns (drop j ds) lo (k + int j)
   \<and> search_last ns ds hi k li = search_last ns (drop j ds) hi (k + int j) li"
proof (induction j arbitrary: ds k)
  case (Suc j)
  then obtain d ds' where ds: "ds = d # ds'" by (cases ds) auto
  have n: "\<not> prefix ns (d # ds')" using Suc.prems(2) [of 0] ds by simp
  have "\<not> prefix ns (drop i ds')" if "i < j" for i using Suc.prems(2) [of "Suc i"] that ds by simp
  then have "search_from ns ds' lo (k + 1) = search_from ns (drop j ds') lo (k + 1 + int j)
   \<and> search_last ns ds' hi (k + 1) li = search_last ns (drop j ds') hi (k + 1 + int j) li"
    using Suc.IH [of ds' "k + 1"] Suc.prems(1) ds by simp
  then show ?case using n ds search_last_beyond [of hi "k + 1 + int j" ns "drop j ds'" li] within_mono [of hi k "k + 1 + int j"]
    by (simp add: add.assoc)
qed simp

lemma search_none:
  assumes "\<And>j. j \<le> length ds \<Longrightarrow> \<not> prefix ns (drop j ds)"
  shows "search_from ns ds lo k = - 1" "search_last ns ds hi k li = li"
proof -
  have "ns \<noteq> []" using assms [of 0] by auto
  then show "search_from ns ds lo k = - 1" "search_last ns ds hi k li = li"
    using search_skip [of "length ds" ds ns lo k hi li] assms by auto
qed

lemma short_no_prefix:
  assumes "length (utf8_string ds) < length (utf8_string ns)"
  shows "\<not> prefix ns (drop j ds)"
proof
  assume "prefix ns (drop j ds)"
  then have "length (utf8_string ns) \<le> length (utf8_string (drop j ds))" by (auto simp: prefix_def utf8_string_append)
  also have "\<dots> \<le> length (utf8_string ds)" using utf8_string_append [of "take j ds" "drop j ds"] by simp
  finally show False using assms by simp
qed

text \<open>One step of the anchored searches: no match at all, or the next place to test.\<close>

lemma anchor_step:
  assumes t: "at_text m p e ds" and ns: "utf8_string ns = anchor # rest" "\<forall>c\<in>set ns. scalar_value c" and long: "Suc (length rest) \<le> e - p"
  shows "case cel_anchor_memchr m p anchor (e - p - Suc (length rest) + 1) of
      None \<Rightarrow> \<forall>j. \<not> prefix ns (drop j ds)
    | Some hit \<Rightarrow> \<exists>j<length ds. hit = p + offset_of ds j \<and> (\<forall>i<j. \<not> prefix ns (drop i ds)) \<and> at_text m hit e (drop j ds)
        \<and> Suc (length rest) \<le> e - hit
        \<and> (\<forall>k. advance_to_boundary m p e hit k = (True, hit, k + int j))
        \<and> (bytes_at m hit (Suc (length rest)) = anchor # rest \<longleftrightarrow> prefix ns (drop j ds))"
proof -
  let ?w = "e - p - Suc (length rest) + 1"
  have lns: "length (utf8_string ns) = Suc (length rest)" by (simp add: ns(1))
  obtain n ns' where n: "ns = n # ns'" using ns(1) by (cases ns) auto
  obtain x ys where x: "utf8_encode n = x # ys" "x AND 0xC0 \<noteq> 0x80" using encode_shape [OF scalar_bound, of n] ns(2) n by auto
  then have lead: "anchor AND 0xC0 \<noteq> 0x80" using ns(1) n by simp
  have at: "m (p + offset_of ds j) = anchor \<and> offset_of ds j < ?w" if pr: "prefix ns (drop j ds)" for j
  proof -
    obtain ws where "drop j ds = ns @ ws" using pr by (auto simp: prefix_def)
    then have z: "utf8_string (drop j ds) = anchor # rest @ utf8_string ws" by (simp add: utf8_string_append ns(1))
    have "utf8_string ds = utf8_string (take j ds) @ anchor # rest @ utf8_string ws"
      using utf8_string_append [of "take j ds" "drop j ds"] z by simp
    then show ?thesis using at_text_length [OF t] at_text_byte [OF t, of "offset_of ds j"] by simp
  qed
  show ?thesis
  proof (cases "cel_anchor_memchr m p anchor ?w")
    case None
    then show ?thesis using at find_byte_none [of m p anchor ?w] by (auto simp: cel_anchor_memchr_eq)
  next
    case (Some hit)
    then have h: "p \<le> hit" "hit < p + ?w" "m hit = anchor" "\<And>y. p \<le> y \<Longrightarrow> y < hit \<Longrightarrow> m y \<noteq> anchor"
      using find_byte_some [OF Some [unfolded cel_anchor_memchr_eq]] by blast+
    have he: "Suc (length rest) \<le> e - hit" "hit - p < e - p" using h(1,2) long by auto
    have "utf8_string ds ! (hit - p) = anchor" using at_text_byte [OF t he(2)] h(1,3) by simp
    then obtain j where j: "j < length ds" "hit - p = offset_of ds j"
      using lead_offset [of ds "hit - p"] lead t he(2) at_text_length [OF t] by (auto simp: at_text_def)
    then have hit: "hit = p + offset_of ds j" using h(1) by simp
    have "\<not> prefix ns (drop i ds)" if "i < j" for i
      using at [of i] h(4) [of "p + offset_of ds i"] offset_of_less [OF that] j hit by auto
    moreover have td: "at_text m hit e (drop j ds)" using at_text_drop [OF t, of j] hit by simp
    moreover have "advance_to_boundary m p e hit k = (True, hit, k + int j)" for k
      using advance_text [OF t, of j k] j(1) hit by simp
    moreover have "bytes_at m hit (Suc (length rest)) = anchor # rest \<longleftrightarrow> prefix ns (drop j ds)"
      using match_text [OF td ns(2)] he(1) by (simp add: ns(1))
    ultimately show ?thesis using Some j hit he(1) by auto
  qed
qed

lemma next_text:
  assumes "at_text m hit e (drop j ds)" "j < length ds"
  shows "utf8_decode (bytes_at m hit (e - hit)) = (length (utf8_encode (ds ! j)), ds ! j)"
    "at_text m (hit + length (utf8_encode (ds ! j))) e (drop (Suc j) ds)"
  using assms at_text_decode [of m hit e "ds ! j" "drop (Suc j) ds"] at_text_step [of m hit e "ds ! j" "drop (Suc j) ds"]
  by (simp_all add: Cons_nth_drop_Suc)

lemma index_of_anchor_text:
  "at_text m p e ds \<Longrightarrow> utf8_string ns = anchor # rest \<Longrightarrow> \<forall>c\<in>set ns. scalar_value c \<Longrightarrow>
   index_of_anchor m p e anchor rest lo k = search_from ns ds lo k"
proof (induction "length ds" arbitrary: ds p k rule: less_induct)
  case less
  note t = less.prems(1) and ns = less.prems(2,3)
  show ?case
  proof (cases "Suc (length rest) \<le> e - p")
    case False
    then have "length (utf8_string ds) < length (utf8_string ns)" using at_text_length [OF t] ns(1) by simp
    then show ?thesis using False search_none(1) short_no_prefix by (subst index_of_anchor.simps) simp
  next
    case True
    note step = anchor_step [OF t ns True]
    show ?thesis
    proof (cases "cel_anchor_memchr m p anchor (e - p - Suc (length rest) + 1)")
      case None
      then show ?thesis using step True search_none(1) [of ds ns lo k] by (subst index_of_anchor.simps) simp
    next
      case (Some hit)
      obtain j where j: "j < length ds" "\<forall>i<j. \<not> prefix ns (drop i ds)" "at_text m hit e (drop j ds)"
          "Suc (length rest) \<le> e - hit" "advance_to_boundary m p e hit k = (True, hit, k + int j)"
          "bytes_at m hit (Suc (length rest)) = anchor # rest \<longleftrightarrow> prefix ns (drop j ds)"
        using step unfolding Some option.case by blast
      let ?ds = "drop (Suc j) ds"
      have d: "drop j ds = ds ! j # ?ds" using j(1) by (simp add: Cons_nth_drop_Suc)
      have less_text: "length (utf8_string ?ds) < length (utf8_string (drop j ds))" unfolding d by simp
      have s: "search_from ns ds lo k = (if lo \<le> k + int j \<and> prefix ns (drop j ds) then k + int j else search_from ns ?ds lo (k + int j + 1))"
        using search_skip [of j ds ns lo k] j(1,2) d by simp
      have "search_from ns ?ds lo (k + int j + 1) = - 1" if "e - hit = Suc (length rest)"
        using that at_text_length [OF j(3)] ns(1) less_text by (intro search_none(1) short_no_prefix) simp
      moreover have "index_of_anchor m (hit + length (utf8_encode (ds ! j))) e anchor rest lo (k + int j + 1) = search_from ns ?ds lo (k + int j + 1)"
        by (rule less.hyps [OF _ next_text(2) [OF j(3,1)] ns]) (use j(1) in simp)
      ultimately show ?thesis unfolding s using True Some j(5,6) next_text(1) [OF j(3,1)]
        by (subst index_of_anchor.simps) (simp add: Let_def)
    qed
  qed
qed

lemma last_index_of_anchor_text:
  "at_text m p e ds \<Longrightarrow> utf8_string ns = anchor # rest \<Longrightarrow> \<forall>c\<in>set ns. scalar_value c \<Longrightarrow>
   last_index_of_anchor m p e anchor rest hi k li = search_last ns ds hi k li"
proof (induction "length ds" arbitrary: ds p k li rule: less_induct)
  case less
  note t = less.prems(1) and ns = less.prems(2,3)
  show ?case
  proof (cases "Suc (length rest) \<le> e - p")
    case False
    then have "length (utf8_string ds) < length (utf8_string ns)" using at_text_length [OF t] ns(1) by simp
    then show ?thesis using False search_none(2) short_no_prefix by (subst last_index_of_anchor.simps) simp
  next
    case True
    note step = anchor_step [OF t ns True]
    show ?thesis
    proof (cases "cel_anchor_memchr m p anchor (e - p - Suc (length rest) + 1)")
      case None
      then show ?thesis using step True search_none(2) [of ds ns hi k li] by (subst last_index_of_anchor.simps) simp
    next
      case (Some hit)
      obtain j where j: "j < length ds" "\<forall>i<j. \<not> prefix ns (drop i ds)" "at_text m hit e (drop j ds)"
          "Suc (length rest) \<le> e - hit" "advance_to_boundary m p e hit k = (True, hit, k + int j)"
          "bytes_at m hit (Suc (length rest)) = anchor # rest \<longleftrightarrow> prefix ns (drop j ds)"
        using step unfolding Some option.case by blast
      let ?ds = "drop (Suc j) ds" and ?l = "if prefix ns (drop j ds) then k + int j else li"
      have d: "drop j ds = ds ! j # ?ds" using j(1) by (simp add: Cons_nth_drop_Suc)
      have less_text: "length (utf8_string ?ds) < length (utf8_string (drop j ds))" unfolding d by simp
      have s: "search_last ns ds hi k li = (if within hi (k + int j) then search_last ns ?ds hi (k + int j + 1) ?l else li)"
        using search_skip [of j ds ns _ k hi li] j(1,2) d by simp
      have none: "search_last ns ?ds hi (k + int j + 1) ?l = ?l" if "e - hit = Suc (length rest)"
        using that at_text_length [OF j(3)] ns(1) less_text by (intro search_none(2) short_no_prefix) simp
      have past: "search_last ns ?ds hi (k + int j + 1) ?l = ?l" if "case hi of Some q \<Rightarrow> k + int j \<ge> q | None \<Rightarrow> False"
        using that by (intro search_last_beyond) (auto simp: within_def split: option.splits)
      have w: "(case hi of Some q \<Rightarrow> k + int j > q | None \<Rightarrow> False) \<longleftrightarrow> \<not> within hi (k + int j)"
        by (auto simp: within_def split: option.splits)
      have "last_index_of_anchor m (hit + length (utf8_encode (ds ! j))) e anchor rest hi (k + int j + 1) l = search_last ns ?ds hi (k + int j + 1) l" for l
        by (rule less.hyps [OF _ next_text(2) [OF j(3,1)] ns]) (use j(1) in simp)
      then show ?thesis unfolding s using True Some j(5,6) next_text(1) [OF j(3,1)] w none past
        by (subst last_index_of_anchor.simps) (auto simp: Let_def)
    qed
  qed
qed


lemma index_of_empty_text: "at_text m p e ds \<Longrightarrow> index_of_empty m p e lo k = search_from [] ds lo k"
proof (induction ds arbitrary: p k)
  case Nil
  then show ?case using at_text_length [OF Nil] by (subst index_of_empty.simps) simp
next
  case (Cons d ds)
  have ne: "e - p \<noteq> 0" using at_text_length [OF Cons.prems] by simp
  show ?case
    using ne Cons.IH [OF at_text_step [OF Cons.prems], of "k + 1"] at_text_decode [OF Cons.prems]
    by (subst index_of_empty.simps) simp
qed

lemma last_index_of_empty_text:
  "at_text m p e ds \<Longrightarrow> within hi k \<Longrightarrow> last_index_of_empty m p e hi k = search_last [] ds hi k li"
proof (induction ds arbitrary: p k li)
  case Nil
  then show ?case using at_text_length [OF Nil(1)] by (subst last_index_of_empty.simps) simp
next
  case (Cons d ds)
  have ne: "e - p \<noteq> 0" using at_text_length [OF Cons.prems(1)] by simp
  show ?case
  proof (cases "case hi of Some q \<Rightarrow> k \<ge> q | None \<Rightarrow> False")
    case True
    then have "\<not> within hi (k + 1)" by (auto simp: within_def split: option.splits)
    then show ?thesis using True Cons.prems(2) search_last_beyond by (subst last_index_of_empty.simps) simp
  next
    case False
    then have "within hi (k + 1)" by (auto simp: within_def split: option.splits)
    then show ?thesis
      using False ne Cons.prems(2) Cons.IH [OF at_text_step [OF Cons.prems(1)], of "k + 1" k] at_text_decode [OF Cons.prems(1)]
      by (subst last_index_of_empty.simps) simp
  qed
qed

text \<open>What the searches answer.\<close>

definition match_at :: "u32 list \<Rightarrow> u32 list \<Rightarrow> nat \<Rightarrow> bool" where
  "match_at ns cs i \<longleftrightarrow> i \<le> length cs \<and> prefix ns (drop i cs)"

definition is_first_match :: "u32 list \<Rightarrow> u32 list \<Rightarrow> int \<Rightarrow> int \<Rightarrow> bool" where
  "is_first_match ns cs lo r \<longleftrightarrow> r = - 1 \<and> (\<forall>i. match_at ns cs i \<longrightarrow> int i < lo)
     \<or> (\<exists>i. r = int i \<and> match_at ns cs i \<and> lo \<le> int i \<and> (\<forall>j<i. match_at ns cs j \<longrightarrow> int j < lo))"

definition is_last_match :: "u32 list \<Rightarrow> u32 list \<Rightarrow> int option \<Rightarrow> int \<Rightarrow> bool" where
  "is_last_match ns cs hi r \<longleftrightarrow> r = - 1 \<and> (\<forall>i. match_at ns cs i \<longrightarrow> \<not> within hi (int i))
     \<or> (\<exists>i. r = int i \<and> match_at ns cs i \<and> within hi (int i) \<and> (\<forall>j>i. match_at ns cs j \<longrightarrow> \<not> within hi (int j)))"

lemma match_at_Cons: "match_at ns (d # ds) i \<longleftrightarrow> (case i of 0 \<Rightarrow> prefix ns (d # ds) | Suc j \<Rightarrow> match_at ns ds j)"
  by (cases i) (auto simp: match_at_def)

lemma match_at_Nil: "match_at ns [] i \<longleftrightarrow> i = 0 \<and> ns = []"
  by (auto simp: match_at_def)

lemma search_from_first:
  "search_from ns ds lo k = - 1 \<and> (\<forall>i. match_at ns ds i \<longrightarrow> k + int i < lo)
   \<or> (\<exists>i. search_from ns ds lo k = k + int i \<and> match_at ns ds i \<and> lo \<le> k + int i \<and> (\<forall>j<i. match_at ns ds j \<longrightarrow> k + int j < lo))"
proof (induction ds arbitrary: k)
  case Nil
  show ?case by (auto simp: match_at_Nil)
next
  case (Cons d ds)
  show ?case
  proof (cases "lo \<le> k \<and> prefix ns (d # ds)")
    case True
    then show ?thesis by (intro disjI2 exI [of _ 0]) (simp add: match_at_Cons)
  next
    case False
    then have r: "search_from ns (d # ds) lo k = search_from ns ds lo (k + 1)" by (simp only: search_from.simps if_False)
    have z: "match_at ns (d # ds) 0 \<longrightarrow> k + int 0 < lo" using False by (auto simp: match_at_Cons)
    from Cons.IH [of "k + 1"] show ?thesis
    proof (elim disjE exE conjE)
      assume i: "search_from ns ds lo (k + 1) = - 1" "\<forall>i. match_at ns ds i \<longrightarrow> k + 1 + int i < lo"
      have "match_at ns (d # ds) j \<longrightarrow> k + int j < lo" for j
        using z i(2) by (cases j) (auto simp: match_at_Cons)
      then show ?thesis using i(1) unfolding r by simp
    next
      fix i assume i: "search_from ns ds lo (k + 1) = k + 1 + int i" "match_at ns ds i" "lo \<le> k + 1 + int i"
        "\<forall>j<i. match_at ns ds j \<longrightarrow> k + 1 + int j < lo"
      have "match_at ns (d # ds) j \<longrightarrow> k + int j < lo" if "j < Suc i" for j
        using that z i(4) by (cases j) (auto simp: match_at_Cons)
      then show ?thesis using i unfolding r by (intro disjI2 exI [of _ "Suc i"]) (simp add: match_at_Cons)
    qed
  qed
qed

lemma search_last_last:
  "search_last ns ds hi k li = li \<and> (\<forall>i. match_at ns ds i \<longrightarrow> \<not> within hi (k + int i))
   \<or> (\<exists>i. search_last ns ds hi k li = k + int i \<and> match_at ns ds i \<and> within hi (k + int i) \<and> (\<forall>j>i. match_at ns ds j \<longrightarrow> \<not> within hi (k + int j)))"
proof (induction ds arbitrary: k li)
  case Nil
  show ?case by (auto simp: match_at_Nil)
next
  case (Cons d ds)
  let ?li = "if prefix ns (d # ds) then k else li"
  show ?case
  proof (cases "within hi k")
    case False
    then have "\<not> within hi (k + int i)" for i by (rule within_mono) simp
    then show ?thesis using False by simp
  next
    case True
    then have r: "search_last ns (d # ds) hi k li = search_last ns ds hi (k + 1) ?li" by simp
    from Cons.IH [of "k + 1" ?li] show ?thesis
    proof (elim disjE exE conjE)
      assume i: "search_last ns ds hi (k + 1) ?li = ?li" "\<forall>i. match_at ns ds i \<longrightarrow> \<not> within hi (k + 1 + int i)"
      have later: "match_at ns (d # ds) j \<longrightarrow> \<not> within hi (k + int j)" if "0 < j" for j
        using that i(2) by (cases j) (auto simp: match_at_Cons ac_simps)
      show ?thesis
      proof (cases "prefix ns (d # ds)")
        case p: True
        then show ?thesis using i(1) later True unfolding r by (intro disjI2 exI [of _ 0]) (simp add: match_at_Cons)
      next
        case p: False
        then have "match_at ns (d # ds) j \<longrightarrow> \<not> within hi (k + int j)" for j
          using later [of j] by (cases "j = 0") (auto simp: match_at_Cons)
        then show ?thesis using i(1) p unfolding r by simp
      qed
    next
      fix i assume i: "search_last ns ds hi (k + 1) ?li = k + 1 + int i" "match_at ns ds i" "within hi (k + 1 + int i)"
        "\<forall>j>i. match_at ns ds j \<longrightarrow> \<not> within hi (k + 1 + int j)"
      have "match_at ns (d # ds) j \<longrightarrow> \<not> within hi (k + int j)" if "Suc i < j" for j
        using that i(4) by (cases j) (auto simp: match_at_Cons ac_simps)
      then show ?thesis using i unfolding r by (intro disjI2 exI [of _ "Suc i"]) (simp add: match_at_Cons ac_simps)
    qed
  qed
qed

lemma index_of_impl_first:
  assumes "text_operand s out v cs" "\<forall>c\<in>set ns. scalar_value c" "0 \<le> lo"
  shows "is_first_match ns cs lo (index_of_impl (mem s) (cv s v) (utf8_string ns) lo)"
proof -
  have "index_of_impl (mem s) (cv s v) (utf8_string ns) lo = search_from ns cs lo 0"
    using index_of_empty_text [OF text_operand_at [OF assms(1)]] index_of_anchor_text [OF text_operand_at [OF assms(1)] _ assms(2)] assms(3)
    by (cases "utf8_string ns") (auto simp: index_of_impl_def Let_def utf8_string_Nil_iff)
  then show ?thesis using search_from_first [of ns cs lo 0] by (simp add: is_first_match_def)
qed

lemma last_index_of_impl_last:
  assumes "text_operand s out v cs" "\<forall>c\<in>set ns. scalar_value c" "within hi 0"
  shows "is_last_match ns cs hi (last_index_of_impl (mem s) (cv s v) (utf8_string ns) hi)"
proof -
  have "last_index_of_impl (mem s) (cv s v) (utf8_string ns) hi = search_last ns cs hi 0 (- 1)"
    using last_index_of_empty_text [OF text_operand_at [OF assms(1)] assms(3), of "- 1"]
      last_index_of_anchor_text [OF text_operand_at [OF assms(1)] _ assms(2)]
    by (cases "utf8_string ns") (auto simp: last_index_of_impl_def Let_def utf8_string_Nil_iff)
  then show ?thesis using search_last_last [of ns cs hi 0 "- 1"] by (simp add: is_last_match_def)
qed

lemma byte_offset_loop_text:
  "\<forall>c\<in>set cs. scalar_value c \<Longrightarrow> byte_offset_loop (utf8_string cs) off k n
     = (if k \<le> n \<and> n \<le> k + int (length cs) then Some (off + offset_of cs (nat (n - k))) else None)"
proof (induction cs arbitrary: off k)
  case Nil
  then show ?case by (subst byte_offset_loop.simps) auto
next
  case (Cons c cs)
  have n: "nat (n - k) = Suc (nat (n - (k + 1)))" if "k < n" using that by simp
  show ?case using Cons n by (subst byte_offset_loop.simps) (auto simp: decode_text)
qed

lemma codepoint_to_byte_offset_text:
  assumes "\<forall>c\<in>set cs. scalar_value c"
  shows "codepoint_to_byte_offset (utf8_string cs) n = (if 0 \<le> n \<and> n \<le> int (length cs) then Some (offset_of cs (nat n)) else None)"
    "validate_pos n (utf8_string cs) \<longleftrightarrow> \<not> (0 \<le> n \<and> n \<le> int (length cs))"
  using byte_offset_loop_text [OF assms, of 0 0 n] by (auto simp: codepoint_to_byte_offset_def validate_pos_def)


subsection \<open>Slices and replacements on code points\<close>

lemma subspan_text:
  assumes ok: "arena_ok s" and v: "text_operand s out v (xs @ ys @ zs)"
  shows "gives_slice (Some (write_subspan (cel_value_at out) (pl_s_ptr (cv s v)) (word_of_nat (length (utf8_string xs)))
      (word_of_nat (length (utf8_string ys))) s)) out v (length (utf8_string xs)) (utf8_string ys) s"
proof (cases "ys = []")
  case True
  then show ?thesis using gives_slice_empty [of out s v] by (simp add: write_subspan_def)
next
  case False
  note d = text_operandD [OF v]
  have ne: "utf8_string ys \<noteq> []" using False by (simp add: utf8_string_Nil_iff)
  have "length (utf8_string ys) < 2 ^ 32"
    using d(7) unat_u32_lt [of "pl_s_len (cv s v)"] by (simp add: utf8_string_append)
  then have "unat (word_of_nat (length (utf8_string ys)) :: u32) \<noteq> 0" using ne by (simp add: unat_of_nat)
  then have nz: "(word_of_nat (length (utf8_string ys)) :: u32) \<noteq> 0" by auto
  show ?thesis unfolding write_subspan_def if_not_P [OF nz]
    by (rule gives_slice_part [OF ok d(4,5) _ ne, unfolded d(6)]) (simp add: utf8_string_append)
qed

lemma count_le_bytes: "length cs \<le> length (utf8_string cs)"
proof (induction cs)
  case (Cons c cs)
  then show ?case using utf8_encode_length [of c] by (simp only: utf8_string_simps length_append list.size)
qed simp

lemma substring_correct:
  assumes ok: "arena_ok s" and v: "text_operand s out v cs" and i: "cv_kind (cv s i) = CEL_INT"
  defines "a \<equiv> sint (pl_i (cv s i))"
  shows "if 0 \<le> a \<and> a \<le> int (length cs) then gives_slice (cel_string_substring_at_vv out v i s) out v (length (utf8_string (take (nat a) cs))) (utf8_string (drop (nat a) cs)) s
    else cel_string_substring_at_vv out v i s = Some (poison (cel_value_at out) CEL_ERR_INVALID_ARGUMENT s)"
proof (cases "0 \<le> a \<and> a \<le> int (length cs)")
  case False
  then show ?thesis using text_operandD(1,2,3) [OF v] i codepoint_to_byte_offset_text [of cs]
    by (auto simp: cel_string_substring_at_vv_def strict_first_values a_def Let_def)
next
  case True
  note d = text_operandD [OF v]
  have "word_of_nat (offset_of cs (nat a)) + word_of_nat (length (utf8_string (drop (nat a) cs))) = pl_s_len (cv s v)"
    using arg_cong [OF d(7), of "word_of_nat :: nat \<Rightarrow> u32"] utf8_string_append [of "take (nat a) cs" "drop (nat a) cs"] by simp
  then have l: "pl_s_len (cv s v) - word_of_nat (offset_of cs (nat a)) = word_of_nat (length (utf8_string (drop (nat a) cs)))"
    by (metis add_diff_cancel_left')
  have "text_operand s out v (take (nat a) cs @ drop (nat a) cs @ [])" using v by simp
  from subspan_text [OF ok this]
  show ?thesis using True d(1,2) i codepoint_to_byte_offset_text [OF d(3)] l
    by (simp add: cel_string_substring_at_vv_def strict_first_values a_def [symmetric] Let_def)
qed

lemma substring_range_correct:
  assumes ok: "arena_ok s" and v: "text_operand s out v cs" and i: "cv_kind (cv s i) = CEL_INT" "cv_kind (cv s j) = CEL_INT"
  defines "a \<equiv> sint (pl_i (cv s i))" and "b \<equiv> sint (pl_i (cv s j))"
  shows "if 0 \<le> a \<and> a \<le> b \<and> b \<le> int (length cs)
    then gives_slice (cel_string_substring_range_at_vvv out v i j s) out v (length (utf8_string (take (nat a) cs)))
      (utf8_string (take (nat b - nat a) (drop (nat a) cs))) s
    else cel_string_substring_range_at_vvv out v i j s = Some (poison (cel_value_at out) CEL_ERR_INVALID_ARGUMENT s)"
proof (cases "0 \<le> a \<and> a \<le> b \<and> b \<le> int (length cs)")
  case False
  then show ?thesis using text_operandD(1,2,3) [OF v] i codepoint_to_byte_offset_text(1) [of cs a] codepoint_to_byte_offset_text(1) [of cs b]
    by (auto simp: cel_string_substring_range_at_vvv_def strict_first_values a_def [symmetric] b_def [symmetric] Let_def split: option.split)
next
  case True
  note d = text_operandD [OF v]
  let ?ys = "take (nat b - nat a) (drop (nat a) cs)"
  have parts: "cs = take (nat a) cs @ ?ys @ drop (nat b - nat a) (drop (nat a) cs)" by (metis append_take_drop_id)
  have "take (nat b) cs = take (nat a) cs @ ?ys" using True by (metis le_add_diff_inverse nat_mono take_add)
  then have l: "offset_of cs (nat b) - offset_of cs (nat a) = length (utf8_string ?ys)" by (simp add: utf8_string_append)
  have bytes: "\<not> (a > int (unat (pl_s_len (cv s v))) \<or> b > int (unat (pl_s_len (cv s v))))"
    using True count_le_bytes [of cs] d(7) by linarith
  have "text_operand s out v (take (nat a) cs @ ?ys @ drop (nat b - nat a) (drop (nat a) cs))" using v parts by metis
  note r = subspan_text [OF ok this]
  have k: "map cv_kind (map (cv s) [v, i, j]) = [CEL_STRING, CEL_INT, CEL_INT]" using d(1) i by simp
  have n: "\<not> (a < 0 \<or> b < a)" using True by auto
  have o: "codepoint_to_byte_offset (utf8_string cs) a = Some (offset_of cs (nat a))"
    "codepoint_to_byte_offset (utf8_string cs) b = Some (offset_of cs (nat b))"
    using True by (simp_all add: codepoint_to_byte_offset_text(1) [OF d(3)])
  have "cel_string_substring_range_at_vvv out v i j s = Some (write_subspan (cel_value_at out) (pl_s_ptr (cv s v))
      (word_of_nat (offset_of cs (nat a))) (word_of_nat (length (utf8_string ?ys))) s)"
    unfolding cel_string_substring_range_at_vvv_def using d(1,2) i n bytes o l
    by (simp add: strict_first_values a_def [symmetric] b_def [symmetric] Let_def)
  then show ?thesis using True r by simp
qed

text \<open>The greedy replacement from the left, at most \<open>limit\<close> times; and before each code point for an empty needle.\<close>

function replace_text :: "u32 \<Rightarrow> u32 list \<Rightarrow> u32 list \<Rightarrow> u32 list \<Rightarrow> int \<Rightarrow> u32 list" where
  "replace_text n ns rs [] limit = []"
| "replace_text n ns rs (c # cs) limit =
     (if limit \<le> 0 then c # cs
      else if prefix (n # ns) (c # cs) then rs @ replace_text n ns rs (drop (length ns) cs) (limit - 1)
      else c # replace_text n ns rs cs limit)"
  by pat_completeness auto
termination by (relation "measure (\<lambda>(n, ns, rs, cs, l). length cs)") auto

fun interleave_text :: "u32 list \<Rightarrow> u32 list \<Rightarrow> int \<Rightarrow> u32 list" where
  "interleave_text rs [] limit = (if limit > 0 then rs else [])"
| "interleave_text rs (c # cs) limit = (if limit > 0 then rs @ c # interleave_text rs cs (limit - 1) else c # cs)"

definition replaced :: "u32 list \<Rightarrow> u32 list \<Rightarrow> u32 list \<Rightarrow> int \<Rightarrow> u32 list" where
  "replaced ns rs cs limit = (case ns of [] \<Rightarrow> interleave_text rs cs limit | n # ns \<Rightarrow> replace_text n ns rs cs limit)"

lemma replace_empty_text:
  "\<forall>c\<in>set cs. scalar_value c \<Longrightarrow> replace_empty_loop (utf8_string cs) (utf8_string rs) limit = utf8_string (interleave_text rs cs limit)"
proof (induction cs arbitrary: limit)
  case Nil
  then show ?case by (subst replace_empty_loop.simps) simp
next
  case (Cons c cs)
  then show ?case by (subst replace_empty_loop.simps) (auto simp: decode_text utf8_string_append)
qed

lemma replace_text_done: "limit \<le> 0 \<Longrightarrow> replace_text n ns rs cs limit = cs"
  by (cases cs) auto

lemma replace_text_skip:
  "j \<le> length cs \<Longrightarrow> (\<And>i. i < j \<Longrightarrow> \<not> prefix (n # ns) (drop i cs)) \<Longrightarrow> 0 < limit \<Longrightarrow>
   replace_text n ns rs cs limit = take j cs @ replace_text n ns rs (drop j cs) limit"
proof (induction j arbitrary: cs)
  case (Suc j)
  then obtain c cs' where cs: "cs = c # cs'" by (cases cs) auto
  have "\<not> prefix (n # ns) (c # cs')" using Suc.prems(2) [of 0] cs by simp
  moreover have "\<not> prefix (n # ns) (drop i cs')" if "i < j" for i using Suc.prems(2) [of "Suc i"] that cs by simp
  ultimately show ?case using Suc.IH [of cs'] Suc.prems(1,3) cs by auto
qed simp

lemma take_prefix: "take (length xs) ys = xs \<longleftrightarrow> prefix xs ys"
  by (metis append_eq_conv_conj append_take_drop_id prefix_def)

text \<open>A byte search for valid UTF-8 in valid UTF-8 finds the first match of code points.\<close>

lemma view_find_text:
  assumes sc: "\<forall>c\<in>set ds. scalar_value c" "\<forall>c\<in>set ns. scalar_value c" and ne: "ns \<noteq> []"
  shows "case view_find (pre @ utf8_string ds) (utf8_string ns) (length pre) of
      None \<Rightarrow> \<forall>j. \<not> prefix ns (drop j ds)
    | Some i \<Rightarrow> \<exists>j<length ds. i = length pre + offset_of ds j \<and> prefix ns (drop j ds) \<and> (\<forall>k<j. \<not> prefix ns (drop k ds))"
proof -
  let ?h = "pre @ utf8_string ds" and ?n = "utf8_string ns"
  obtain n ns' where n: "ns = n # ns'" using ne by (cases ns) auto
  obtain x ys where x: "utf8_encode n = x # ys" "x AND 0xC0 \<noteq> 0x80" using encode_shape [OF scalar_bound, of n] sc(2) n by auto
  have drop: "drop (length pre + offset_of ds j) ?h = utf8_string (drop j ds)" for j
    using utf8_string_append [of "take j ds" "drop j ds"] by simp
  have at: "take (length ?n) (drop (length pre + offset_of ds j) ?h) = ?n \<longleftrightarrow> prefix ns (drop j ds)" for j
    using prefix_text [OF sc(2), of "drop j ds"] sc(1) set_drop_subset [of j ds] unfolding drop take_prefix by blast
  have le: "offset_of ds j \<le> length (utf8_string ds)" for j using utf8_string_append [of "take j ds" "drop j ds"] by simp
  show ?thesis
  proof (cases "view_find ?h ?n (length pre)")
    case None
    then have nm: "take (length ?n) (drop i ?h) \<noteq> ?n" if "length pre \<le> i" "i \<le> length ?h" for i
      using that by (auto simp: view_find_def find_None_iff simp del: upt_Suc drop_append take_append)
    have "\<not> prefix ns (drop j ds)" for j
      using nm [of "length pre + offset_of ds j"] at [of j] le [of j] by (simp del: drop_append take_append)
    then show ?thesis using None by simp
  next
    case (Some i)
    then obtain k where k: "k < Suc (length ?h) - length pre" "i = length pre + k" "take (length ?n) (drop i ?h) = ?n"
        "\<forall>l<k. take (length ?n) (drop (length pre + l) ?h) \<noteq> ?n"
      by (auto simp: view_find_def find_Some_iff simp del: upt_Suc drop_append take_append)
    have p: "prefix (x # ys @ utf8_string ns') (drop k (utf8_string ds))"
      using k(2,3) n x(1) unfolding take_prefix by simp
    then have kl: "k < length (utf8_string ds)" by (metis drop_all not_le prefix_bot.bot_unique list.distinct(1) prefix_Nil)
    have "utf8_string ds ! k = x" using p kl by (metis Cons_nth_drop_Suc Cons_prefix_Cons)
    then obtain j where j: "j < length ds" "k = offset_of ds j" using lead_offset [OF sc(1) kl] x(2) by auto
    have "\<not> prefix ns (drop l ds)" if "l < j" for l
      using k(4) at [of l] offset_of_less [OF that] j by auto
    moreover have "prefix ns (drop j ds)" using k(2,3) at [of j] j(2) by simp
    ultimately show ?thesis using Some k(2) j by auto
  qed
qed

lemma replace_loop_text:
  assumes n: "utf8_string (n # ns) = c # cs" "\<forall>x\<in>set (n # ns). scalar_value x"
  shows "\<forall>x\<in>set ds. scalar_value x \<Longrightarrow> replace_loop (pre @ utf8_string ds) c cs (utf8_string rs) (length pre) limit
    = utf8_string (replace_text n ns rs ds limit)"
proof (induction "length ds" arbitrary: ds pre limit rule: less_induct)
  case less
  let ?h = "pre @ utf8_string ds"
  show ?case
  proof (cases "ds \<noteq> [] \<and> limit > 0")
    case False
    then show ?thesis using replace_text_done [of limit n ns rs ds] by (subst replace_loop.simps) (auto simp: utf8_string_Nil_iff)
  next
    case True
    then have go: "length pre < length ?h \<and> limit > 0" by (simp add: utf8_string_Nil_iff)
    note f = view_find_text [OF less.prems n(2), of pre, unfolded n(1)]
    show ?thesis
    proof (cases "view_find ?h (c # cs) (length pre)")
      case None
      then have "\<not> prefix (n # ns) (drop j ds)" for j using f by simp
      then have "replace_text n ns rs ds limit = ds" using replace_text_skip [of "length ds" ds n ns limit rs] True by simp
      then show ?thesis using None go by (subst replace_loop.simps) simp
    next
      case (Some i)
      then obtain j where j: "j < length ds" "i = length pre + offset_of ds j" "prefix (n # ns) (drop j ds)"
          "\<forall>k<j. \<not> prefix (n # ns) (drop k ds)"
        using f by auto
      obtain es where es: "drop j ds = n # ns @ es" using j(3) by (auto simp: prefix_def)
      let ?pre = "pre @ utf8_string (take j ds) @ utf8_string (n # ns)"
      have ds: "ds = take j ds @ (n # ns) @ es" using es by (metis append_Cons append_take_drop_id)
      have h: "?h = ?pre @ utf8_string es"
        by (subst ds) (simp only: utf8_string_append append.assoc)
      have "length ds - j = Suc (length ns + length es)" using arg_cong [OF es, of length] by simp
      then have sces: "\<forall>x\<in>set es. scalar_value x" "length es < length ds"
        using less.prems es set_drop_subset [of j ds] by auto
      have "i + Suc (length cs) = length ?pre" using j(2) arg_cong [OF n(1), of length] by simp
      then have step: "replace_loop ?h c cs (utf8_string rs) (i + Suc (length cs)) (limit - 1) = utf8_string (replace_text n ns rs es (limit - 1))"
        using less.hyps [OF sces(2,1), of ?pre "limit - 1"] h by simp
      have t: "take (i - length pre) (drop (length pre) ?h) = utf8_string (take j ds)"
        using j(2) utf8_string_append [of "take j ds" "drop j ds"] by simp
      have "replace_loop ?h c cs (utf8_string rs) (length pre) limit
          = utf8_string (take j ds) @ utf8_string rs @ utf8_string (replace_text n ns rs es (limit - 1))"
        using go Some step t by (subst replace_loop.simps) (simp only: simp_thms if_True option.case)
      moreover have "replace_text n ns rs ds limit = take j ds @ rs @ replace_text n ns rs es (limit - 1)"
        using replace_text_skip [of j ds n ns limit rs] j(1,4) True es by simp
      ultimately show ?thesis by (simp add: utf8_string_append)
    qed
  qed
qed

lemma build_replaced_text:
  assumes "\<forall>x\<in>set cs. scalar_value x" "\<forall>x\<in>set ns. scalar_value x"
  shows "build_replaced (utf8_string cs) (utf8_string ns) (utf8_string rs) limit = utf8_string (replaced ns rs cs limit)"
proof (cases ns)
  case Nil
  then show ?thesis using replace_empty_text [OF assms(1)] by (simp add: build_replaced_def replaced_def)
next
  case (Cons n ns')
  then obtain c cs' where c: "utf8_string (n # ns') = c # cs'" using utf8_string_Nil_iff [of "n # ns'"] by (cases "utf8_string (n # ns')") auto
  from replace_loop_text [OF c, of cs "[]" rs limit] show ?thesis
    using assms Cons by (simp add: build_replaced_def replaced_def c [simplified])
qed


lemma replace_correct:
  assumes ok: "arena_ok s" "kept_range s (cel_value_at out) 24"
    and v: "text_operand s out v cs" "text_operand s out old ns" "text_operand s out new rs"
    and lim: "limit \<noteq> 0" and len: "length (utf8_string (replaced ns rs cs (if limit < 0 then INT64_MAX else limit))) < 2 ^ 32"
  shows "gives_string (do_replace (cel_value_at out) src (cv s v) (cv s old) (cv s new) limit s) out
    (utf8_string (replaced ns rs cs (if limit < 0 then INT64_MAX else limit))) s"
  using write_string_from_bytes_correct [OF ok len] lim text_operandD(2) [OF v(1)] text_operandD(2) [OF v(2)] text_operandD(2) [OF v(3)]
    build_replaced_text [OF text_operandD(3) [OF v(1)] text_operandD(3) [OF v(2)], of rs]
  by (simp add: do_replace_def gives_string_def Let_def)

subsection \<open>Properties\<close>

definition gives_match :: "rt option \<Rightarrow> u32 \<Rightarrow> (int \<Rightarrow> bool) \<Rightarrow> rt \<Rightarrow> bool" where
  "gives_match r out P s \<longleftrightarrow> (\<exists>s' i. r = Some s' \<and> only_cell (cel_value_at out) s s' \<and> is_int (cv s' out) i \<and> P i)"

lemma match_bounds:
  assumes "is_first_match ns cs lo r \<or> is_last_match ns cs hi r" "length (utf8_string cs) < 2 ^ 32"
  shows "sint (word_of_int r :: u64) = r"
proof -
  have "- 1 \<le> r" "r \<le> int (length cs)"
    using assms(1) by (auto simp: is_first_match_def is_last_match_def match_at_def)
  moreover have "length cs < 2 ^ 32" using count_le_bytes [of cs] assms(2) by simp
  ultimately show ?thesis by (intro sint_word_of_int64) simp_all
qed

lemma gives_match_write:
  assumes "sint (word_of_int r :: u64) = r" "P r"
  shows "gives_match (Some (write_int (cel_value_at out) (word_of_int r) s)) out P s"
  using assms is_int_write [of "cel_value_at out" "word_of_int r" s] by (auto simp: gives_match_def)

text \<open>The searches on every position, the positions on which the header and the code differ among them.\<close>

lemma string_search_positions:
  assumes v: "text_operand s out v cs" "text_operand s out w ns" and i: "cv_kind (cv s i) = CEL_INT"
  shows "gives_match (cel_string_index_of_at_vv out v w s) out (is_first_match ns cs 0) s
    \<and> gives_match (cel_string_last_index_of_at_vv out v w s) out (is_last_match ns cs None) s
    \<and> (if 0 \<le> sint (pl_i (cv s i)) \<and> sint (pl_i (cv s i)) \<le> int (length cs)
       then gives_match (cel_string_index_of_at_vvv out v w i s) out (is_first_match ns cs (sint (pl_i (cv s i)))) s
         \<and> gives_match (cel_string_last_index_of_at_vvv out v w i s) out (is_last_match ns cs (Some (sint (pl_i (cv s i))))) s
       else cel_string_index_of_at_vvv out v w i s = Some (poison (cel_value_at out) CEL_ERR_INVALID_ARGUMENT s)
         \<and> cel_string_last_index_of_at_vvv out v w i s = Some (poison (cel_value_at out) CEL_ERR_INVALID_ARGUMENT s))"
proof -
  note d = text_operandD [OF v(1)] and e = text_operandD [OF v(2)]
  have len: "length (utf8_string cs) < 2 ^ 32" using d(7) unat_u32_lt [of "pl_s_len (cv s v)"] by simp
  have f: "gives_match (Some (write_int (cel_value_at out) (word_of_int (index_of_impl (mem s) (cv s v) (utf8_string ns) lo)) s)) out (is_first_match ns cs lo) s"
    if "0 \<le> lo" for lo
    using index_of_impl_first [OF v(1) e(3) that] match_bounds [OF disjI1 len] by (intro gives_match_write) auto
  have l: "gives_match (Some (write_int (cel_value_at out) (word_of_int (last_index_of_impl (mem s) (cv s v) (utf8_string ns) hi)) s)) out (is_last_match ns cs hi) s"
    if "within hi 0" for hi
    using last_index_of_impl_last [OF v(1) e(3) that] match_bounds [OF disjI2 len] by (intro gives_match_write) auto
  have k: "map cv_kind (map (cv s) [v, w]) = [CEL_STRING, CEL_STRING]" "map cv_kind (map (cv s) [v, w, i]) = [CEL_STRING, CEL_STRING, CEL_INT]"
    using d(1) e(1) i by simp_all
  show ?thesis
    using f [of 0] l [of None] f [of "sint (pl_i (cv s i))"] l [of "Some (sint (pl_i (cv s i)))"] d(1,2) e(1,2) i
      codepoint_to_byte_offset_text(2) [OF d(3), of "sint (pl_i (cv s i))"]
    by (simp add: cel_string_index_of_at_vv_def cel_string_last_index_of_at_vv_def cel_string_index_of_at_vvv_def
        cel_string_last_index_of_at_vvv_def strict_first_values within_def Let_def)
qed

text \<open>
  C24. The searches answer code point indices. On valid UTF-8 \<open>indexOf\<close> answers the first index from the
  given position at which the needle's code points stand, \<open>lastIndexOf\<close> the last index not past
  the given one, -1 when there is none, whatever SIMD search and ASCII block skipping did. The positions covered are
  those from 0 to the number of code points, on which both answer, and those the header calls an error: beyond the
  size in bytes for both, and negative for \<open>lastIndexOf\<close>, which are the invalid-argument error. The positions on which
  header and code differ (negative for \<open>indexOf\<close>, between the number of code points and of bytes) are left out.
\<close>

theorem string_search_exact:
  assumes v: "text_operand s out v cs" "text_operand s out w ns" and i: "cv_kind (cv s i) = CEL_INT"
  defines "at \<equiv> sint (pl_i (cv s i))"
  shows "gives_match (cel_string_index_of_at_vv out v w s) out (is_first_match ns cs 0) s
    \<and> gives_match (cel_string_last_index_of_at_vv out v w s) out (is_last_match ns cs None) s
    \<and> (0 \<le> at \<and> at \<le> int (length cs) \<longrightarrow>
        gives_match (cel_string_index_of_at_vvv out v w i s) out (is_first_match ns cs at) s
        \<and> gives_match (cel_string_last_index_of_at_vvv out v w i s) out (is_last_match ns cs (Some at)) s)
    \<and> (int (length (utf8_string cs)) < at \<longrightarrow>
        cel_string_index_of_at_vvv out v w i s = Some (poison (cel_value_at out) CEL_ERR_INVALID_ARGUMENT s))
    \<and> (at < 0 \<or> int (length (utf8_string cs)) < at \<longrightarrow>
        cel_string_last_index_of_at_vvv out v w i s = Some (poison (cel_value_at out) CEL_ERR_INVALID_ARGUMENT s))"
  using string_search_positions [OF v i] count_le_bytes [of cs] unfolding at_def by (auto split: if_splits)

theorem string_search_exact_witness:
  "\<exists>s' i. cel_string_index_of_at_vvv 256 128 128 160 sample_text = Some s' \<and> is_int (cv s' 256) i
     \<and> is_first_match [0x61, 0xE9, 0x42] [0x61, 0xE9, 0x42] 1 i"
proof -
  have k: "cv_kind (cv sample_text 160) = CEL_INT" "sint (pl_i (cv sample_text 160)) = 1"
    unfolding sample_text_cells by (simp_all add: pl_defs)
  show ?thesis
    using string_search_exact [OF sample_text_operand sample_text_operand k(1)] unfolding k(2) by (auto simp: gives_match_def)
qed

text \<open>
  C25. On valid UTF-8, slices and replacements are those of the lists of code points. \<open>substring\<close> answers the code points from
  an index, or between two, and the invalid-argument error for positions out of order or range; it never
  allocates: the result that is not empty is the part of the operand's own bytes behind those of the code points before it.
  \<open>replace\<close> replaces from the left, without overlap, at most the given number of times (a negative number
  is no bound), before each code point and after the last when the needle is empty, and returns its operand's cell for the limit 0;
  its result is the overflow error only when the arena refuses its bytes. The results of \<open>replace\<close> are taken to be
  shorter than 4 GiB.
\<close>

theorem string_slice_replace:
  assumes ok: "arena_ok s" "kept_range s (cel_value_at out) 24"
    and v: "text_operand s out v cs" "text_operand s out old ns" "text_operand s out new rs"
    and k: "cv_kind (cv s i) = CEL_INT" "cv_kind (cv s j) = CEL_INT"
    and len: "length (utf8_string (replaced ns rs cs INT64_MAX)) < 2 ^ 32"
      "length (utf8_string (replaced ns rs cs (sint (pl_i (cv s j))))) < 2 ^ 32"
  shows "(if 0 \<le> sint (pl_i (cv s i)) \<and> sint (pl_i (cv s i)) \<le> int (length cs)
       then gives_slice (cel_string_substring_at_vv out v i s) out v
         (length (utf8_string (take (nat (sint (pl_i (cv s i)))) cs))) (utf8_string (drop (nat (sint (pl_i (cv s i)))) cs)) s
       else cel_string_substring_at_vv out v i s = Some (poison (cel_value_at out) CEL_ERR_INVALID_ARGUMENT s))
    \<and> (if 0 \<le> sint (pl_i (cv s i)) \<and> sint (pl_i (cv s i)) \<le> sint (pl_i (cv s j)) \<and> sint (pl_i (cv s j)) \<le> int (length cs)
       then gives_slice (cel_string_substring_range_at_vvv out v i j s) out v
         (length (utf8_string (take (nat (sint (pl_i (cv s i)))) cs)))
         (utf8_string (take (nat (sint (pl_i (cv s j))) - nat (sint (pl_i (cv s i)))) (drop (nat (sint (pl_i (cv s i)))) cs))) s
       else cel_string_substring_range_at_vvv out v i j s = Some (poison (cel_value_at out) CEL_ERR_INVALID_ARGUMENT s))
    \<and> gives_string (cel_string_replace_at_vvv out v old new s) out (utf8_string (replaced ns rs cs INT64_MAX)) s
    \<and> (if sint (pl_i (cv s j)) = 0 then cel_string_replace_n_at_vvvv out v old new j s = Some (copy_cv (cel_value_at out) (cel_value_at v) s)
       else gives_string (cel_string_replace_n_at_vvvv out v old new j s) out
         (utf8_string (replaced ns rs cs (if sint (pl_i (cv s j)) < 0 then INT64_MAX else sint (pl_i (cv s j))))) s)"
proof -
  note kinds = text_operandD(1) [OF v(1)] text_operandD(1) [OF v(2)] text_operandD(1) [OF v(3)] k
  have three: "cel_string_replace_at_vvv out v old new s
      = do_replace (cel_value_at out) (cel_value_at v) (cv s v) (cv s old) (cv s new) (- 1) s"
    using kinds by (simp add: cel_string_replace_at_vvv_def strict_first_values)
  have four: "cel_string_replace_n_at_vvvv out v old new j s
      = do_replace (cel_value_at out) (cel_value_at v) (cv s v) (cv s old) (cv s new) (sint (pl_i (cv s j))) s"
    using kinds by (simp add: cel_string_replace_n_at_vvvv_def strict_first_values)
  show ?thesis
  proof (intro conjI)
    show "gives_string (cel_string_replace_at_vvv out v old new s) out (utf8_string (replaced ns rs cs INT64_MAX)) s"
      using replace_correct [OF ok v, of "- 1" "cel_value_at v"] len(1) unfolding three by simp
    show "if sint (pl_i (cv s j)) = 0 then cel_string_replace_n_at_vvvv out v old new j s = Some (copy_cv (cel_value_at out) (cel_value_at v) s)
       else gives_string (cel_string_replace_n_at_vvvv out v old new j s) out
         (utf8_string (replaced ns rs cs (if sint (pl_i (cv s j)) < 0 then INT64_MAX else sint (pl_i (cv s j))))) s"
      using replace_correct [OF ok v, of "sint (pl_i (cv s j))" "cel_value_at v"] len unfolding four by (simp add: do_replace_def)
  qed (rule substring_correct [OF ok(1) v(1) k(1)] substring_range_correct [OF ok(1) v(1) k])+
qed

theorem string_slice_replace_witness:
  "gives_slice (cel_string_substring_at_vv 256 128 160 sample_text) 256 128 1 (utf8_string [0xE9, 0x42]) sample_text
   \<and> gives_string (cel_string_replace_at_vvv 256 128 128 128 sample_text) 256 (utf8_string [0x61, 0xE9, 0x42]) sample_text"
proof -
  have ok: "arena_ok sample_text" by (simp add: sample_text_def sample_rt_ok)
  have k: "cv_kind (cv sample_text 160) = CEL_INT" "sint (pl_i (cv sample_text 160)) = 1"
    unfolding sample_text_cells by (simp_all add: pl_defs)
  have r: "replaced [0x61, 0xE9, 0x42] [0x61, 0xE9, 0x42] [0x61, 0xE9, 0x42] n = [0x61, 0xE9, 0x42]" for n
    by (simp add: replaced_def)
  have l: "length (utf8_string [0x61, 0xE9, 0x42]) < 2 ^ 32" "length (utf8_string (take 1 [0x61, 0xE9, 0x42])) = 1"
    by (simp_all add: utf8_encode_def)
  have kr: "kept_range sample_text (cel_value_at 256) 24" by (simp add: low_kept cel_value_at_def)
  show ?thesis
    using string_slice_replace [OF ok kr sample_text_operand sample_text_operand sample_text_operand k(1) k(1)] l
    unfolding r k(2) by simp
qed

end
