(* ===== verification/StrList.thy ===== *)
theory StrList
  imports StrSearch
begin

text \<open>
  The string extension's list bridges, \<open>split\<close> and \<open>join\<close> (\<open>runtime/cel_string_ext_list.cc\<close>). Positions in a
  span are natural numbers; they stay below the span's 32-bit length.
\<close>

subsection \<open>Building the list\<close>

text \<open>The header's offset, or \<open>None\<close> where the code has poisoned the result. The byte count of the run is a 32-bit product.\<close>

definition alloc_list :: "nat \<Rightarrow> u32 \<Rightarrow> rt \<Rightarrow> (nat option \<times> rt) option" where
  "alloc_list out capacity s = do {
     (hdr_off, s) \<leftarrow> arena_alloc 16 s;
     if hdr_off = 0 then Some (None, poison out CEL_ERR_OVERFLOW s)
     else do {
       (elements_off, s) \<leftarrow> (if capacity > 0 then arena_alloc (24 * capacity) s else Some (0, s));
       if capacity > 0 \<and> elements_off = 0 then Some (None, poison out CEL_ERR_OVERFLOW s)
       else Some (Some (unat hdr_off),
         s\<lparr>mem := store32 (store32 (store_words4 (mem s) (unat hdr_off) capacity capacity elements_off 0)
                    out CEL_LIST_ARENA) (out + 8) hdr_off\<rparr>)
     }
   }"

definition stamp_substring :: "nat \<Rightarrow> u32 \<Rightarrow> u32 \<Rightarrow> u32 \<Rightarrow> rt \<Rightarrow> rt" where
  "stamp_substring slot source_ptr byte_off byte_len =
     set_span CEL_STRING (if byte_len = 0 then 0 else source_ptr + byte_off) byte_len slot"

text \<open>The ranges cut before the budget or the text ends, and the position reached.\<close>

function split_code_points :: "u8 list \<Rightarrow> nat \<Rightarrow> int \<Rightarrow> (nat \<times> nat) list \<times> nat" where
  "split_code_points haystack cpos limit =
     (if cpos < length haystack \<and> limit > 1
      then (let (units, c) = utf8_decode (drop cpos haystack);
                (ranges, e) = split_code_points haystack (cpos + units) (limit - 1) in
            ((cpos, cpos + units) # ranges, e))
      else ([], cpos))"
  by pat_completeness auto
termination
proof (relation "measure (\<lambda>(h, cpos, limit). length h - cpos)")
  fix h :: "u8 list" and cpos :: nat and limit :: int and units :: nat and c :: u32 and x
  assume a: "cpos < length h \<and> 1 < limit" "x = utf8_decode (drop cpos h)" "(units, c) = x"
  have "1 \<le> fst (utf8_decode (drop cpos h))" using utf8_decode_units(1) [of "drop cpos h"] by simp
  then have "1 \<le> units" using a by (metis fst_conv)
  then show "((h, cpos + units, limit - 1), h, cpos, limit) \<in> measure (\<lambda>(h, cpos, limit). length h - cpos)"
    using a(1) by (simp add: diff_less_mono2)
qed simp

function split_separators :: "u8 list \<Rightarrow> u8 \<Rightarrow> u8 list \<Rightarrow> nat \<Rightarrow> int \<Rightarrow> (nat \<times> nat) list \<times> nat" where
  "split_separators haystack c cs cpos limit =
     (if cpos < length haystack \<and> limit > 1
      then (case view_find haystack (c # cs) cpos of
          None \<Rightarrow> ([], cpos)
        | Some found \<Rightarrow>
            (let (ranges, e) = split_separators haystack c cs (found + Suc (length cs)) (limit - 1) in
             ((cpos, found) # ranges, e)))
      else ([], cpos))"
  by pat_completeness auto
termination
  by (relation "measure (\<lambda>(h, c, cs, cpos, limit). length h - cpos)") (auto dest!: view_find_ge)

declare split_code_points.simps [simp del] split_separators.simps [simp del]

definition compute_split_ranges :: "u8 list \<Rightarrow> u8 list \<Rightarrow> int \<Rightarrow> (nat \<times> nat) list" where
  "compute_split_ranges haystack sep limit =
     (let (ranges, cpos) = (case sep of [] \<Rightarrow> split_code_points haystack 0 limit
                              | c # cs \<Rightarrow> split_separators haystack c cs 0 limit) in
      if ranges = [] \<or> sep \<noteq> [] \<or> cpos < length haystack then ranges @ [(cpos, length haystack)] else ranges)"

fun stamp_pieces :: "nat \<Rightarrow> u32 \<Rightarrow> nat \<Rightarrow> (nat \<times> nat) list \<Rightarrow> rt \<Rightarrow> rt" where
  "stamp_pieces hdr source_ptr k [] s = s"
| "stamp_pieces hdr source_ptr k ((i, j) # ranges) s =
     stamp_pieces hdr source_ptr (Suc k) ranges
       (stamp_substring (arena_list_element (mem s) hdr (word_of_nat k)) source_ptr (word_of_nat i) (word_of_nat (j - i)) s)"

definition do_split :: "nat \<Rightarrow> cel_value \<Rightarrow> cel_value \<Rightarrow> int \<Rightarrow> rt \<Rightarrow> rt option" where
  "do_split out v sep limit s =
     (if limit = 0 then do {
        (hdr, s) \<leftarrow> alloc_list out 0 s;
        case hdr of
          None \<Rightarrow> Some s
        | Some hdr \<Rightarrow> Some (s\<lparr>mem := store32 (mem s) (arena_list_header (load_cv (mem s) out)) 0\<rparr>)
      }
      else do {
        let limit = (if limit < 0 then INT64_MAX else limit);
        let ranges = compute_split_ranges (str_of (mem s) v) (str_of (mem s) sep) limit;
        (hdr, s) \<leftarrow> alloc_list out (word_of_nat (length ranges)) s;
        case hdr of None \<Rightarrow> Some s | Some hdr \<Rightarrow> Some (stamp_pieces hdr (pl_s_ptr v) 0 ranges s)
      })"

definition cel_string_split_at_vv :: "u32 \<Rightarrow> u32 \<Rightarrow> u32 \<Rightarrow> rt \<Rightarrow> rt option" where
  "cel_string_split_at_vv out_slot s_slot sep_slot = strict_first [CEL_STRING, CEL_STRING]
     (\<lambda>out vs. do_split out (vs ! 0) (vs ! 1) (- 1)) out_slot [s_slot, sep_slot]"

definition cel_string_split_n_at_vvv :: "u32 \<Rightarrow> u32 \<Rightarrow> u32 \<Rightarrow> u32 \<Rightarrow> rt \<Rightarrow> rt option" where
  "cel_string_split_n_at_vvv out_slot s_slot sep_slot n_slot = strict_first [CEL_STRING, CEL_STRING, CEL_INT]
     (\<lambda>out vs. do_split out (vs ! 0) (vs ! 1) (sint (pl_i (vs ! 2)))) out_slot [s_slot, sep_slot, n_slot]"

subsection \<open>Joining\<close>

text \<open>The slot of an arena list, or 0 with the result poisoned.\<close>

definition arena_list_view_slot :: "cel_host \<Rightarrow> cel_value \<Rightarrow> u32 \<Rightarrow> u32 \<Rightarrow> rt \<Rightarrow> (u32 \<times> rt) option" where
  "arena_list_view_slot h junk out_slot list_slot s =
     (let l = load_cv (mem s) (cel_value_at list_slot) in
      if cv_kind l \<noteq> CEL_LIST_ARENA \<and> cv_kind l \<noteq> CEL_LIST_HOST
      then Some (0, poison (cel_value_at out_slot) CEL_ERR_TYPE_MISMATCH s)
      else cel_list_arena_view h junk list_slot s)"

fun join_pieces :: "u8 list \<Rightarrow> nat \<Rightarrow> u8 list list \<Rightarrow> u8 list" where
  "join_pieces sep k [] = []"
| "join_pieces sep k (e # es) = (if k > 0 then sep else []) @ e @ join_pieces sep (Suc k) es"

definition build_join :: "nat \<Rightarrow> cel_value \<Rightarrow> u8 list \<Rightarrow> rt \<Rightarrow> rt option" where
  "build_join out l sep s =
     (let hdr = arena_list_header l; n = unat (list_count (mem s) hdr);
          elt = (\<lambda>k. arena_list_element (mem s) hdr (word_of_nat k)) in
      if pl_header_ptr l = 0 then write_string_from_bytes out [] s
      else if n = 0 then write_string_from_bytes out [] s
      else (case find (\<lambda>k. cv_kind (load_cv (mem s) (elt k)) \<noteq> CEL_STRING) [0..<n] of
          Some k \<Rightarrow> (if poisoned (load_cv (mem s) (elt k)) then Some (copy_cv out (elt k) s)
                    else Some (poison out CEL_ERR_TYPE_MISMATCH s))
        | None \<Rightarrow> write_string_from_bytes out
            (join_pieces sep 0 (map (\<lambda>k. str_of (mem s) (load_cv (mem s) (elt k))) [0..<n])) s))"

definition cel_string_join_at_v :: "cel_host \<Rightarrow> cel_value \<Rightarrow> u32 \<Rightarrow> u32 \<Rightarrow> rt \<Rightarrow> rt option" where
  "cel_string_join_at_v h junk out_slot list_slot s =
     (let (wrote, s) = absorb_first (cel_value_at out_slot) [cel_value_at list_slot] s in
      if wrote then Some s
      else do {
        (view_slot, s) \<leftarrow> arena_list_view_slot h junk out_slot list_slot s;
        if view_slot = 0 then Some s else build_join (cel_value_at out_slot) (cv s view_slot) [] s
      })"

definition cel_string_join_sep_at_vv :: "cel_host \<Rightarrow> cel_value \<Rightarrow> u32 \<Rightarrow> u32 \<Rightarrow> u32 \<Rightarrow> rt \<Rightarrow> rt option" where
  "cel_string_join_sep_at_vv h junk out_slot list_slot sep_slot s =
     (let (wrote, s) = absorb_first (cel_value_at out_slot) [cel_value_at list_slot, cel_value_at sep_slot] s;
          sep = cv s sep_slot in
      if wrote then Some s
      else if cv_kind sep \<noteq> CEL_STRING then Some (poison (cel_value_at out_slot) CEL_ERR_TYPE_MISMATCH s)
      else do {
        (view_slot, s) \<leftarrow> arena_list_view_slot h junk out_slot list_slot s;
        if view_slot = 0 then Some s
        else build_join (cel_value_at out_slot) (cv s view_slot) (str_of (mem s) sep) s
      })"


subsection \<open>Splitting code points\<close>

text \<open>The pieces of at most \<open>limit\<close> between separators, cut from the left, and single code points for an empty separator.\<close>

function split_on :: "u32 \<Rightarrow> u32 list \<Rightarrow> u32 list \<Rightarrow> int \<Rightarrow> u32 list list" where
  "split_on n ns [] limit = [[]]"
| "split_on n ns (c # cs) limit =
     (if limit \<le> 1 then [c # cs]
      else if prefix (n # ns) (c # cs) then [] # split_on n ns (drop (length ns) cs) (limit - 1)
      else (case split_on n ns cs limit of [] \<Rightarrow> [] | p # ps \<Rightarrow> (c # p) # ps))"
  by pat_completeness auto
termination by (relation "measure (\<lambda>(n, ns, cs, l). length cs)") auto

fun split_chars :: "u32 list \<Rightarrow> int \<Rightarrow> u32 list list" where
  "split_chars [] limit = [[]]"
| "split_chars (c # cs) limit = (if limit \<le> 1 then [c # cs] else [c] # (if cs = [] then [] else split_chars cs (limit - 1)))"

definition split_text :: "u32 list \<Rightarrow> u32 list \<Rightarrow> int \<Rightarrow> u32 list list" where
  "split_text ns cs limit = (case ns of [] \<Rightarrow> split_chars cs limit | n # ns \<Rightarrow> split_on n ns cs limit)"

fun join_text :: "u32 list \<Rightarrow> u32 list list \<Rightarrow> u32 list" where
  "join_text sep [] = []"
| "join_text sep [p] = p"
| "join_text sep (p # q # ps) = p @ sep @ join_text sep (q # ps)"

lemma split_on_ne [simp]: "split_on n ns cs limit \<noteq> []"
  by (induction n ns cs limit rule: split_on.induct) (auto split: list.splits)

lemma split_chars_ne [simp]: "split_chars cs limit \<noteq> []"
  by (cases cs) auto

lemma join_text_Cons: "ps \<noteq> [] \<Longrightarrow> join_text sep (p # ps) = p @ sep @ join_text sep ps"
  by (cases ps) auto

lemma join_text_head: "join_text sep ((c # p) # ps) = c # join_text sep (p # ps)"
  by (cases ps) auto

lemma join_split_on: "join_text (n # ns) (split_on n ns cs limit) = cs"
proof (induction n ns cs limit rule: split_on.induct)
  case (2 n ns c cs limit)
  show ?case
  proof (cases "\<not> limit \<le> 1 \<and> prefix (n # ns) (c # cs)")
    case True
    then obtain es where "c = n" "cs = ns @ es" by (auto simp: prefix_def)
    then show ?thesis using 2(1) True by (simp add: join_text_Cons)
  next
    case False
    then show ?thesis using 2(2) split_on_ne [of n ns cs limit] by (auto simp: join_text_head split: list.splits)
  qed
qed simp

lemma join_split_chars: "join_text [] (split_chars cs limit) = cs"
  by (induction cs limit rule: split_chars.induct) (auto simp: join_text_Cons)

text \<open>Splitting loses nothing: the pieces and the separators between them are the text.\<close>

lemma join_split: "join_text ns (split_text ns cs limit) = cs"
  by (cases ns) (simp_all add: split_text_def join_split_on join_split_chars)

lemma split_bounds: "1 \<le> length (split_text ns cs limit)" "length (split_text ns cs limit) \<le> length cs + 1"
proof -
  have on: "length (split_on n ns cs limit) \<le> length cs + 1" for n ns
  proof (induction n ns cs limit rule: split_on.induct)
    case (2 n ns c cs limit)
    then show ?case by (auto split: list.splits)
  qed simp
  have "length (split_chars cs limit) \<le> length cs + 1"
    by (induction cs limit rule: split_chars.induct) auto
  then show "length (split_text ns cs limit) \<le> length cs + 1" using on by (auto simp: split_text_def split: list.splits)
  show "1 \<le> length (split_text ns cs limit)" by (auto simp: split_text_def Suc_le_eq split: list.splits)
qed

lemma split_limit: "1 \<le> limit \<Longrightarrow> int (length (split_text ns cs limit)) \<le> limit"
proof -
  have on: "1 \<le> limit \<Longrightarrow> int (length (split_on n ns cs limit)) \<le> limit" for n ns
    by (induction n ns cs limit rule: split_on.induct) (auto split: list.splits)
  have "1 \<le> limit \<Longrightarrow> int (length (split_chars cs limit)) \<le> limit"
    by (induction cs limit rule: split_chars.induct) auto
  then show "1 \<le> limit \<Longrightarrow> int (length (split_text ns cs limit)) \<le> limit" using on by (auto simp: split_text_def split: list.splits)
qed

subsection \<open>The ranges of the pieces\<close>

definition slice_of :: "u8 list \<Rightarrow> nat \<times> nat \<Rightarrow> u8 list" where
  "slice_of h r = take (snd r - fst r) (drop (fst r) h)"

definition ranges_in :: "u8 list \<Rightarrow> (nat \<times> nat) list \<Rightarrow> bool" where
  "ranges_in h rs \<longleftrightarrow> (\<forall>(i, j)\<in>set rs. i \<le> j \<and> j \<le> length h)"

lemma split_code_points_text:
  assumes "\<forall>x\<in>set ds. scalar_value x" "split_code_points (pre @ utf8_string ds) (length pre) limit = (rs, e)"
  shows "map (slice_of (pre @ utf8_string ds)) rs @ (if e < length (pre @ utf8_string ds) then [drop e (pre @ utf8_string ds)] else [])
      = map utf8_string (if ds = [] then [] else split_chars ds limit)
    \<and> e \<le> length (pre @ utf8_string ds) \<and> ranges_in (pre @ utf8_string ds) rs"
  using assms
proof (induction ds arbitrary: pre rs limit)
  case Nil
  then show ?case by (subst (asm) split_code_points.simps) (auto simp: ranges_in_def)
next
  case (Cons d ds)
  let ?h = "pre @ utf8_string (d # ds)" and ?pre = "pre @ utf8_encode d"
  have h: "?h = ?pre @ utf8_string ds" by simp
  show ?case
  proof (cases "limit > 1")
    case False
    then show ?thesis using Cons.prems(2) by (subst (asm) split_code_points.simps) (auto simp: ranges_in_def)
  next
    case True
    obtain rs' where r: "split_code_points (?pre @ utf8_string ds) (length ?pre) (limit - 1) = (rs', e)"
        "rs = (length pre, length ?pre) # rs'"
      using Cons.prems True by (subst (asm) split_code_points.simps) (auto simp: decode_text split: prod.splits)
    show ?thesis using Cons.IH [OF _ r(1)] Cons.prems(1) True unfolding r(2) h
      by (auto simp: ranges_in_def slice_of_def)
  qed
qed

lemma split_on_skip:
  "j \<le> length cs \<Longrightarrow> (\<And>i. i < j \<Longrightarrow> \<not> prefix (n # ns) (drop i cs)) \<Longrightarrow> 1 < limit \<Longrightarrow>
   split_on n ns cs limit = (take j cs @ hd (split_on n ns (drop j cs) limit)) # tl (split_on n ns (drop j cs) limit)"
proof (induction j arbitrary: cs)
  case (Suc j)
  then obtain c cs' where cs: "cs = c # cs'" by (cases cs) auto
  have "\<not> prefix (n # ns) (c # cs')" using Suc.prems(2) [of 0] cs by simp
  moreover have "\<not> prefix (n # ns) (drop i cs')" if "i < j" for i using Suc.prems(2) [of "Suc i"] that cs by simp
  ultimately show ?case using Suc.IH [of cs'] Suc.prems(1,3) cs by (auto split: list.splits)
qed simp

lemma split_on_done: "limit \<le> 1 \<Longrightarrow> split_on n ns cs limit = [cs]"
  by (cases cs) auto

lemma split_separators_text:
  assumes n: "utf8_string (n # ns) = c # cs" "\<forall>x\<in>set (n # ns). scalar_value x"
  shows "\<forall>x\<in>set ds. scalar_value x \<Longrightarrow> split_separators (pre @ utf8_string ds) c cs (length pre) limit = (rs, e) \<Longrightarrow>
    map (slice_of (pre @ utf8_string ds)) rs @ [drop e (pre @ utf8_string ds)] = map utf8_string (split_on n ns ds limit)
    \<and> e \<le> length (pre @ utf8_string ds) \<and> ranges_in (pre @ utf8_string ds) rs"
proof (induction "length ds" arbitrary: ds pre limit rs rule: less_induct)
  case less
  let ?h = "pre @ utf8_string ds"
  show ?case
  proof (cases "ds \<noteq> [] \<and> limit > 1")
    case False
    then have "split_on n ns ds limit = [ds]" using split_on_done [of limit n ns ds] by (cases "ds = []") auto
    then show ?thesis using False less.prems(2)
      by (subst (asm) split_separators.simps) (auto simp: utf8_string_Nil_iff ranges_in_def)
  next
    case True
    then have go: "length pre < length ?h \<and> limit > 1" by (simp add: utf8_string_Nil_iff)
    note f = view_find_text [OF less.prems(1) n(2), of pre, unfolded n(1)]
    show ?thesis
    proof (cases "view_find ?h (c # cs) (length pre)")
      case None
      then have "\<not> prefix (n # ns) (drop j ds)" for j using f by simp
      then have "split_on n ns ds limit = [ds]" using split_on_skip [of "length ds" ds n ns limit] True by simp
      then show ?thesis using None go less.prems(2) by (subst (asm) split_separators.simps) (auto simp: ranges_in_def)
    next
      case (Some i)
      then obtain j where j: "j < length ds" "i = length pre + offset_of ds j" "prefix (n # ns) (drop j ds)"
          "\<forall>k<j. \<not> prefix (n # ns) (drop k ds)"
        using f by auto
      obtain es where es: "drop j ds = n # ns @ es" using j(3) by (auto simp: prefix_def)
      let ?pre = "pre @ utf8_string (take j ds) @ utf8_string (n # ns)"
      have "ds = take j ds @ (n # ns) @ es" using es by (metis append_Cons append_take_drop_id)
      then have h: "?h = ?pre @ utf8_string es" by (metis utf8_string_append append.assoc)
      have "length ds - j = Suc (length ns + length es)" using arg_cong [OF es, of length] by simp
      then have sces: "length es < length ds" "\<forall>x\<in>set es. scalar_value x"
        using less.prems(1) es set_drop_subset [of j ds] by auto
      have nx: "i + Suc (length cs) = length ?pre" using j(2) arg_cong [OF n(1), of length] by simp
      obtain rs' where r: "split_separators (?pre @ utf8_string es) c cs (length ?pre) (limit - 1) = (rs', e)" "rs = (length pre, i) # rs'"
        using less.prems(2) go Some h nx by (subst (asm) split_separators.simps) (auto split: prod.splits)
      have t: "slice_of ?h (length pre, i) = utf8_string (take j ds)" "i \<le> length ?h"
        using j(2) utf8_string_append [of "take j ds" "drop j ds"] by (simp_all add: slice_of_def)
      have "split_on n ns ds limit = take j ds # split_on n ns es (limit - 1)"
        using split_on_skip [of j ds n ns limit] j(1,4) True es by simp
      then show ?thesis using less.hyps [OF sces r(1)] t j(2) unfolding r(2) h by (simp add: ranges_in_def)
    qed
  qed
qed

lemma compute_split_ranges_text:
  assumes sc: "\<forall>x\<in>set ds. scalar_value x" "\<forall>x\<in>set ns. scalar_value x"
  defines "h \<equiv> utf8_string ds"
  shows "map (slice_of h) (compute_split_ranges h (utf8_string ns) limit) = map utf8_string (split_text ns ds limit)
    \<and> ranges_in h (compute_split_ranges h (utf8_string ns) limit)"
proof (cases ns)
  case Nil
  obtain rs e where r: "split_code_points h 0 limit = (rs, e)" by fastforce
  note t = split_code_points_text [OF sc(1), of "[]" limit rs e, simplified, folded h_def, OF r]
  have e0: "rs = [] \<Longrightarrow> e = 0" using r by (subst (asm) split_code_points.simps) (auto split: if_splits prod.splits)
  show ?thesis
  proof (cases "ds = []")
    case True
    then show ?thesis using t e0 Nil r
      by (auto simp: compute_split_ranges_def split_text_def h_def slice_of_def ranges_in_def)
  next
    case False
    then have "h \<noteq> []" by (simp add: h_def utf8_string_Nil_iff)
    then show ?thesis using t e0 Nil r False
      by (auto simp: compute_split_ranges_def split_text_def slice_of_def ranges_in_def split: if_splits)
  qed
next
  case (Cons n ns')
  then obtain c cs' where c: "utf8_string (n # ns') = c # cs'" using utf8_string_Nil_iff [of "n # ns'"] by (cases "utf8_string (n # ns')") auto
  obtain rs e where r: "split_separators h c cs' 0 limit = (rs, e)" by fastforce
  have "\<forall>x\<in>set (n # ns'). scalar_value x" using sc(2) Cons by simp
  note t = split_separators_text [OF c this sc(1), of "[]" limit rs e, simplified, folded h_def, OF r]
  show ?thesis using t Cons r c [simplified]
    by (auto simp: compute_split_ranges_def split_text_def slice_of_def ranges_in_def)
qed

subsection \<open>The published list\<close>

text \<open>While the run's size is representable, the allocation is the checked one of the list constructors.\<close>

lemma entries_bytes_small: "24 * unat n \<le> 2 ^ 32 - 8 \<Longrightarrow> entries_bytes_checked 24 n = 24 * (n :: u32)"
  using unat_entries_bytes [of 24 n] by (simp add: word_unat_eq_iff unat_word_ariths)

lemma alloc_list_checked:
  assumes "24 * unat n \<le> 2 ^ 32 - 8"
  shows "alloc_list out n s = alloc_header_run 24 n s \<bind> (\<lambda>(offs, s). case offs of
      None \<Rightarrow> Some (None, poison out CEL_ERR_OVERFLOW s)
    | Some (h, r) \<Rightarrow> Some (Some (unat h),
        s\<lparr>mem := store32 (store32 (store_words4 (mem s) (unat h) n n r 0) out CEL_LIST_ARENA) (out + 8) h\<rparr>))"
proof -
  have "unat (24 * n) = 24 * unat n"
    using assms unat_entries_bytes [of 24 n] by (simp add: entries_bytes_small)
  then have nz: "24 * n \<noteq> 0" if "n > 0" using that by (metis mult_eq_0_iff numeral_neq_zero unat_0 unat_eq_0 word_gt_0)
  note defs = alloc_list_def alloc_header_run_def entries_bytes_small [OF assms]
  show ?thesis
  proof (cases "arena_alloc 16 s")
    case None
    then show ?thesis by (simp add: defs)
  next
    case (Some r)
    obtain p t where r: "r = (p, t)" by fastforce
    show ?thesis
    proof (cases "p \<noteq> 0 \<and> n > 0")
      case True
      then show ?thesis using Some r nz by (cases "arena_alloc (24 * n) t") (auto simp: defs)
    next
      case False
      then show ?thesis using Some r by (auto simp: defs)
    qed
  qed
qed

text \<open>The cell of a piece: a string at its range of the source span.\<close>

definition piece_cell :: "u32 \<Rightarrow> nat \<times> nat \<Rightarrow> cel_value \<Rightarrow> bool" where
  "piece_cell p r v \<longleftrightarrow> cv_kind v = CEL_STRING \<and> pl_s_len v = word_of_nat (snd r - fst r)
     \<and> pl_s_ptr v = (if (word_of_nat (snd r - fst r) :: u32) = 0 then 0 else p + word_of_nat (fst r))"

lemma stamp_substring_cell: "piece_cell p (i, j) (load_cv (mem (stamp_substring a p (word_of_nat i) (word_of_nat (j - i)) s)) a)"
  by (simp add: piece_cell_def stamp_substring_def cell_simps)

lemma stamp_pieces_correct:
  fixes r :: u32
  assumes "list_elements (mem s) h = r" "apart h 16 (unat r) (24 * n)" "k + length rs \<le> n" "n < 2 ^ 32"
  shows "\<exists>m. stamp_pieces h p k rs s = s\<lparr>mem := m\<rparr> \<and> same_outside (unat r + 24 * k) (24 * length rs) (mem s) m
    \<and> (\<forall>i<length rs. piece_cell p (rs ! i) (load_cv m (unat r + 24 * (k + i))))"
  using assms
proof (induction rs arbitrary: s k)
  case Nil
  then show ?case by (intro exI [of _ "mem s"]) simp
next
  case (Cons x rs)
  obtain i j where x: "x = (i, j)" by fastforce
  have k: "unat (word_of_nat k :: u32) = k" using Cons.prems(3,4) by (simp add: unat_of_nat)
  let ?a = "unat r + 24 * k"
  let ?s = "stamp_substring ?a p (word_of_nat i) (word_of_nat (j - i)) s"
  have a: "arena_list_element (mem s) h (word_of_nat k) = ?a" using Cons.prems(1) k by (simp add: arena_list_element_def)
  have "only_cell ?a s ?s" by (simp add: stamp_substring_def only_cell_set_span)
  then have so: "same_outside ?a 24 (mem s) (mem ?s)" and st: "?s = s\<lparr>mem := mem ?s\<rparr>" by (simp_all add: only_cell_def)
  have "apart h 16 ?a 24" using Cons.prems(2,3) by (auto simp: apart_def)
  then have "list_elements (mem ?s) h = r"
    using Cons.prems(1) load32_apart [OF so, of h 16 "h + 8"] by (simp add: list_elements_def)
  from Cons.IH [OF this Cons.prems(2) _ Cons.prems(4), of "Suc k"] obtain m where m:
      "stamp_pieces h p (Suc k) rs ?s = ?s\<lparr>mem := m\<rparr>" "same_outside (unat r + 24 * Suc k) (24 * length rs) (mem ?s) m"
      "\<And>i. i < length rs \<Longrightarrow> piece_cell p (rs ! i) (load_cv m (unat r + 24 * (Suc k + i)))"
    using Cons.prems(3) by auto
  have "load_cv m ?a = load_cv (mem ?s) ?a" by (rule load_cv_apart [OF m(2)]) (simp add: apart_def)
  then have first: "piece_cell p x (load_cv m ?a)" using stamp_substring_cell by (simp add: x)
  have "same_outside ?a (24 * length (x # rs)) (mem s) m"
    by (rule same_outside_trans [OF same_outside_mono [OF so] same_outside_mono [OF m(2)]]) simp_all
  moreover have "stamp_pieces h p k (x # rs) s = s\<lparr>mem := m\<rparr>" unfolding x stamp_pieces.simps a m(1) using st by (metis rt.surjective rt.update_convs(1))
  moreover have "piece_cell p ((x # rs) ! l) (load_cv m (unat r + 24 * (k + l)))" if "l < length (x # rs)" for l
    using that first m(3) by (cases l) simp_all
  ultimately show ?case by blast
qed

lemma piece_bytes:
  fixes p :: u32
  assumes r: "i \<le> j" "j \<le> length h" and h: "bytes_at m (unat p) (length h) = h" "unat p + length h \<le> 2 ^ 32" "length h < 2 ^ 32"
    and v: "piece_cell p (i, j) v"
  shows "str_of m v = slice_of h (i, j)"
proof (cases "i = j")
  case True
  then show ?thesis using v by (simp add: piece_cell_def slice_of_def span_bytes_def)
next
  case False
  have u: "unat (word_of_nat x :: u32) = x" if "x \<le> length h" for x using that h(3) by (simp add: unat_of_nat)
  have n: "unat (word_of_nat (j - i) :: u32) = j - i" "unat (word_of_nat i :: u32) = i" using r by (simp_all only: u)
  then have "(word_of_nat (j - i) :: u32) \<noteq> 0" using False r(1) by auto
  moreover have "unat (p + word_of_nat i) = unat p + i"
    using r h(2) False n(2) unat_add_lem [of p "word_of_nat i"] by simp
  ultimately have "str_of m v = bytes_at m (unat p + i) (j - i)" using v n by (simp add: piece_cell_def span_bytes_def)
  also have "\<dots> = slice_of h (i, j)"
  proof -
    define a b c where "a = bytes_at m (unat p) i" and "b = bytes_at m (unat p + i) (j - i)"
      and "c = bytes_at m (unat p + (i + (j - i))) (length h - (i + (j - i)))"
    have "h = a @ b @ c" using bytes_at_split [of i "j - i" "length h" m "unat p"] r h(1) by (simp add: a_def b_def c_def)
    moreover have "length a = i" "length b = j - i" by (simp_all add: a_def b_def)
    ultimately have "slice_of h (i, j) = b" by (simp add: slice_of_def)
    then show ?thesis by (simp add: b_def)
  qed
  finally show ?thesis .
qed

text \<open>A string that is empty or whose bytes are part of those of the string \<open>src\<close>.\<close>

definition part_of :: "cel_value \<Rightarrow> cel_value \<Rightarrow> bool" where
  "part_of src v \<longleftrightarrow> unat (pl_s_len v) = 0
     \<or> unat (pl_s_ptr src) \<le> unat (pl_s_ptr v) \<and> unat (pl_s_ptr v) + unat (pl_s_len v) \<le> unat (pl_s_ptr src) + unat (pl_s_len src)"

lemma piece_part:
  fixes p :: u32
  assumes r: "i \<le> j" "j \<le> n" and n: "unat p + n \<le> 2 ^ 32" "n < 2 ^ 32" and v: "piece_cell p (i, j) v"
    and src: "pl_s_ptr src = p" "unat (pl_s_len src) = n"
  shows "part_of src v"
proof (cases "i = j")
  case True
  then show ?thesis using v by (simp add: piece_cell_def part_of_def)
next
  case False
  have u: "unat (word_of_nat x :: u32) = x" if "x \<le> n" for x using that n(2) by (simp add: unat_of_nat)
  have k: "unat (word_of_nat (j - i) :: u32) = j - i" "unat (word_of_nat i :: u32) = i" using r by (simp_all only: u)
  then have "(word_of_nat (j - i) :: u32) \<noteq> 0" using False r(1) by auto
  moreover have "unat (p + word_of_nat i) = unat p + i"
    using r n(1) False k(2) unat_add_lem [of p "word_of_nat i"] by simp
  ultimately show ?thesis using v k(1) r src by (simp add: piece_cell_def part_of_def)
qed

lemma keeps_fill:
  assumes "keeps out s t" "same_outside a n (mem t) m" "fresh_range s a n"
  shows "keeps out s (t\<lparr>mem := m\<rparr>)"
  using assms unfolding keeps_def fresh_range_def same_outside_def by (simp add: not_le) (metis not_le)

text \<open>
  A list of texts in the result slot, on fresh memory, each text part of the bytes of \<open>src\<close>; or the overflow error, when the
  arena refuses the header or the run.
\<close>

definition gives_texts :: "rt option \<Rightarrow> u32 \<Rightarrow> cel_value \<Rightarrow> u8 list list \<Rightarrow> rt \<Rightarrow> bool" where
  "gives_texts res out src bss s \<longleftrightarrow> (\<exists>s'. res = Some s' \<and> keeps (cel_value_at out) s s'
     \<and> (if cv_kind (cv s' out) = CEL_LIST_ARENA
        then list_ok s' out \<and> list_hdr s' out \<noteq> 0 \<and> (\<forall>v\<in>set (list_of s' out). cv_kind v = CEL_STRING) \<and> map (str_of (mem s')) (list_of s' out) = bss
          \<and> (\<forall>v\<in>set (list_of s' out). part_of src v)
          \<and> (\<forall>a k. kept_range s a k \<and> apart a k (cel_value_at out) 24 \<longrightarrow> list_apart s' out a k)
        else is_err (cv s' out) CEL_ERR_OVERFLOW \<and> run_oom 24 (word_of_nat (length bss)) s))"

lemma split_published:
  fixes p :: u32
  assumes ok: "arena_ok s" "kept_range s (cel_value_at out) 24" and n: "24 * length rs \<le> 2 ^ 32 - 8" and rs: "ranges_in h rs"
    and h: "bytes_at (mem s) (unat p) (length h) = h" "unat p + length h \<le> 2 ^ 32" "length h < 2 ^ 32"
    and hk: "kept_range s (unat p) (length h)" "apart (unat p) (length h) (cel_value_at out) 24"
    and src: "rs = [] \<or> pl_s_ptr src = p \<and> unat (pl_s_len src) = length h"
  shows "gives_texts (alloc_list (cel_value_at out) (word_of_nat (length rs)) s \<bind> (\<lambda>(hdr, s).
      case hdr of None \<Rightarrow> Some s | Some hdr \<Rightarrow> Some (stamp_pieces hdr p 0 rs s))) out src (map (slice_of h) rs) s"
proof -
  have st: "(24 :: u32) \<le> 64" "(24 :: u32) \<noteq> 0" by simp_all
  define c :: u32 where "c = word_of_nat (length rs)"
  have c: "unat c = length rs" using n by (simp add: c_def unat_of_nat)
  have "24 * unat c \<le> 2 ^ 32 - 8" using n c by simp
  note a = alloc_list_checked [OF this]
  show ?thesis
  proof (cases rule: alloc_header_run_cases [OF ok(1) st, of c])
    case (1 t)
    let ?s = "poison (cel_value_at out) CEL_ERR_OVERFLOW t"
    have k: "cv_kind (cv ?s out) \<noteq> CEL_LIST_ARENA" using extends_poison(2) [OF 1(2)] by (auto simp: is_err_def)
    have eq: "alloc_list (cel_value_at out) c s \<bind> (\<lambda>(hdr, s). case hdr of None \<Rightarrow> Some s | Some hdr \<Rightarrow> Some (stamp_pieces hdr p 0 rs s)) = Some ?s"
      unfolding a 1(1) by simp
    show ?thesis unfolding gives_texts_def eq [unfolded c_def] using extends_poison [OF 1(2)] 1(3) k by (simp add: c_def)
  next
    case (2 hd r t)
    let ?o = "cel_value_at out"
    define m where "m = store32 (store32 (store_words4 (mem t) (unat hd) c c r 0) ?o CEL_LIST_ARENA) (?o + 8) hd"
    have r24: "unat (24 :: u32) * unat c = 24 * length rs" by (simp add: c)
    note run = 2(5,7,8) [unfolded r24]
    note q = publish_header [OF 2(2) ok(2) 2(6) m_def]
    have "list_elements (mem (t\<lparr>mem := m\<rparr>)) (unat hd) = r" using q(4) by (simp add: list_elements_def)
    from stamp_pieces_correct [OF this run(3), of 0 rs p] n obtain m' where
      m': "stamp_pieces (unat hd) p 0 rs (t\<lparr>mem := m\<rparr>) = t\<lparr>mem := m'\<rparr>" "same_outside (unat r) (24 * length rs) m m'"
      "\<And>i. i < length rs \<Longrightarrow> piece_cell p (rs ! i) (load_cv m' (unat r + 24 * i))" by auto
    let ?s = "t\<lparr>mem := m'\<rparr>"
    have eq: "alloc_list ?o c s \<bind> (\<lambda>(hdr, s). case hdr of None \<Rightarrow> Some s | Some hdr \<Rightarrow> Some (stamp_pieces hdr p 0 rs s)) = Some ?s"
      unfolding a 2(1) using m'(1) by (simp add: m_def)
    have kp: "keeps ?o s ?s" using keeps_fill [OF q(1) _ run(2), of m'] m'(2) by simp
    have ap: "apart ?o 24 (unat r) (24 * length rs)" by (rule fresh_apart [OF run(2) ok(2)])
    have w: "load32 m' (unat hd + d) = load32 m (unat hd + d)" if "d \<le> 12" for d
      using that by (intro load32_apart [OF m'(2) run(3)]) simp_all
    have cell: "cv ?s out = load_cv m ?o" using load_cv_apart [OF m'(2) ap] by simp
    have hdr: "list_hdr ?s out = unat hd" unfolding list_hdr_def cell arena_list_header_def q(7) ..
    have rn: "list_run ?s out = unat r" "list_room ?s out = length rs" "list_count m' (unat hd) = c"
      using w [of 0] w [of 4] w [of 8] q(2,3,4) c
      by (simp_all add: list_run_def list_room_def list_count_def list_elements_def list_capacity_def hdr)
    have lo: "list_of ?s out = run_at m' (unat r) (length rs)" by (simp add: list_of_def hdr rn c)
    have us: "arena_used s \<subseteq> arena_used t" using 2(2) by (rule extends_used)
    have lok: "list_ok ?s out"
      unfolding list_ok_def hdr rn cell
      using q(6) 2(4) run rn(3) c kept_range_mono [OF us ok(2)] fresh_apart [OF 2(6) ok(2)] ap by (simp add: apart_sym)
    have la: "list_apart ?s out b k" if "kept_range s b k" "apart b k ?o 24" for b k
      using that fresh_apart [OF 2(6) that(1)] fresh_apart [OF run(2) that(1)] unfolding list_apart_def hdr rn by simp
    have hm: "bytes_at m' (unat p) (length h) = h"
      using bytes_at_cong [of "length h" m' "unat p" "mem s"] keeps_same [OF kp hk] h(1) by simp
    have pc: "piece_cell p (rs ! i) (list_of ?s out ! i)" if "i < length rs" for i using m'(3) [OF that] that by (simp add: lo)
    have bs: "str_of m' (list_of ?s out ! i) = slice_of h (rs ! i)" if "i < length rs" for i
    proof -
      obtain x y where xy: "rs ! i = (x, y)" by fastforce
      then have "x \<le> y \<and> y \<le> length h" using rs nth_mem [OF that] unfolding ranges_in_def by fastforce
      then show ?thesis using piece_bytes [OF _ _ hm h(2,3), of x y] pc [OF that] unfolding xy by blast
    qed
    have len: "length (list_of ?s out) = length rs" by (simp add: lo)
    have ks: "\<forall>v\<in>set (list_of ?s out). cv_kind v = CEL_STRING"
      using pc len by (auto simp: in_set_conv_nth piece_cell_def)
    have ps: "part_of src (list_of ?s out ! i)" if "i < length rs" for i
    proof -
      obtain x y where xy: "rs ! i = (x, y)" by fastforce
      then have "x \<le> y \<and> y \<le> length h" using rs nth_mem [OF that] unfolding ranges_in_def by fastforce
      moreover have "pl_s_ptr src = p" "unat (pl_s_len src) = length h" using src that by auto
      ultimately show ?thesis using piece_part [OF _ _ h(2,3), of x y "list_of ?s out ! i" src] pc [OF that] unfolding xy by blast
    qed
    then have pa: "\<forall>v\<in>set (list_of ?s out). part_of src v" using len by (auto simp: in_set_conv_nth)
    have ms: "map (str_of (mem ?s)) (list_of ?s out) = map (slice_of h) rs" using bs len by (intro nth_equalityI) simp_all
    show ?thesis unfolding gives_texts_def eq [unfolded c_def] using kp lok la ks pa ms q(6) cell hdr 2(3) by (auto simp: unat_eq_0)
  qed
qed

subsection \<open>Splitting\<close>

lemma bit_u8_high: "\<not> bit (w :: u8) (8 + n)" "\<not> bit (w :: u8) (16 + n)" "\<not> bit (w :: u8) (24 + n)"
  by (auto dest: bit_imp_le_length)

lemma store32_same: "store32 m a (load32 m a) = m"
  by (auto simp: store32_def load32_def bit_simps bit_u8_high fun_eq_iff intro!: bit_word_eqI)

lemma split_bounds_bytes:
  assumes "24 * (length cs + 1) \<le> 2 ^ 32 - 8"
  shows "24 * length (split_text ns cs limit) \<le> 2 ^ 32 - 8"
  using order_trans [OF mult_le_mono2 [OF split_bounds(2) [of ns cs limit]] assms] .

lemma do_split_correct:
  assumes ok: "arena_ok s" "kept_range s (cel_value_at out) 24" and v: "text_operand s out v cs" "text_operand s out w ns"
    and hk: "kept_range s (unat (pl_s_ptr (cv s v))) (unat (pl_s_len (cv s v)))" and n: "24 * (length cs + 1) \<le> 2 ^ 32 - 8"
  shows "gives_texts (do_split (cel_value_at out) (cv s v) (cv s w) limit s) out (cv s v)
    (if limit = 0 then [] else map utf8_string (split_text ns cs (if limit < 0 then INT64_MAX else limit))) s"
proof (cases "limit = 0")
  case False
  note d = text_operandD [OF v(1)] and e = text_operandD [OF v(2)]
  define lim where "lim = (if limit < 0 then INT64_MAX else limit)"
  let ?h = "utf8_string cs" and ?rs = "compute_split_ranges (utf8_string cs) (utf8_string ns) lim"
  note r = compute_split_ranges_text [OF d(3) e(3), of lim]
  have "length ?rs = length (split_text ns cs lim)" using arg_cong [OF conjunct1 [OF r], of length] by simp
  then have l: "24 * length ?rs \<le> 2 ^ 32 - 8" using split_bounds_bytes [OF n, of ns lim] by simp
  have h: "bytes_at (mem s) (unat (pl_s_ptr (cv s v))) (length ?h) = ?h" "unat (pl_s_ptr (cv s v)) + length ?h \<le> 2 ^ 32" "length ?h < 2 ^ 32"
    using d(5,6,7) unat_u32_lt [of "pl_s_len (cv s v)"] by simp_all
  have k: "kept_range s (unat (pl_s_ptr (cv s v))) (length ?h)" "apart (unat (pl_s_ptr (cv s v))) (length ?h) (cel_value_at out) 24"
    using hk d(4,7) by simp_all
  from split_published [OF ok l conjunct2 [OF r] h k, of "cv s v"] d(7) show ?thesis
    using False d(2) e(2) unfolding conjunct1 [OF r] by (simp add: do_split_def Let_def lim_def [symmetric])
next
  case True
  have "24 * length ([] :: (nat \<times> nat) list) \<le> 2 ^ 32 - 8" "ranges_in [] []" by (simp_all add: ranges_in_def)
  from split_published [OF ok this, of 0, unfolded stamp_pieces.simps] have g: "gives_texts (alloc_list (cel_value_at out) 0 s \<bind> (\<lambda>(hdr, s).
      case hdr of None \<Rightarrow> Some s | Some hdr \<Rightarrow> Some s)) out (cv s v) [] s" by (simp add: apart_def)
  then obtain s' where s': "alloc_list (cel_value_at out) 0 s \<bind> (\<lambda>(hdr, s). case hdr of None \<Rightarrow> Some s | Some hdr \<Rightarrow> Some s) = Some s'"
      "cv_kind (cv s' out) = CEL_LIST_ARENA \<longrightarrow> list_of s' out = []"
    by (auto simp: gives_texts_def split: if_splits)
  then obtain hdr where a: "alloc_list (cel_value_at out) 0 s = Some (hdr, s')" by (auto split: Option.bind_splits option.splits)
  have k: "hdr \<noteq> None \<Longrightarrow> cv_kind (cv s' out) = CEL_LIST_ARENA"
    using a by (auto simp: alloc_list_def mem_simps split: Option.bind_splits if_splits prod.splits)
  have "store32 (mem s') (arena_list_header (load_cv (mem s') (cel_value_at out))) 0 = mem s'" if "hdr \<noteq> None"
  proof -
    have "length (list_of s' out) = 0" using s'(2) k [OF that] by simp
    then have "load32 (mem s') (list_hdr s' out) = 0" by (simp add: length_list_of list_count_def unat_eq_0)
    then show ?thesis using store32_same [of "mem s'" "list_hdr s' out"] by (simp add: list_hdr_def)
  qed
  then have "do_split (cel_value_at out) (cv s v) (cv s w) 0 s = Some s'"
    using a by (cases hdr) (simp_all add: do_split_def)
  then show ?thesis using g s'(1) True by simp
qed

subsection \<open>Joining\<close>

lemma join_pieces_text: "join_pieces (utf8_string ns) 0 (map utf8_string ps) = utf8_string (join_text ns ps)"
proof -
  have "join_pieces sep (Suc k) qs = join_pieces sep 1 qs" for sep k qs
    by (induction qs arbitrary: k) (simp_all, metis)
  then have later: "join_pieces sep (Suc k) (q # qs) = sep @ q @ join_pieces sep 1 qs" for sep k q qs by simp
  have first: "join_pieces sep 0 (q # qs) = q @ join_pieces sep 1 qs" for sep q qs by simp
  show ?thesis
    by (induction ns ps rule: join_text.induct) (simp_all add: utf8_string_append first later del: join_pieces.simps(2))
qed

lemma build_join_correct:
  assumes ok: "arena_ok s" "kept_range s (cel_value_at out) 24" and l: "list_ok s l" "\<forall>v\<in>set (list_of s l). cv_kind v = CEL_STRING"
    and len: "length (join_pieces sep 0 (map (str_of (mem s)) (list_of s l))) < 2 ^ 32"
  shows "gives_string (build_join (cel_value_at out) (cv s l) sep s) out
    (if list_hdr s l = 0 then [] else join_pieces sep 0 (map (str_of (mem s)) (list_of s l))) s"
proof -
  let ?hdr = "list_hdr s l" and ?n = "unat (list_count (mem s) (list_hdr s l))"
  let ?elt = "\<lambda>k. arena_list_element (mem s) ?hdr (word_of_nat k)"
  have e: "load_cv (mem s) (?elt k) = list_of s l ! k" if "k < ?n" for k
  proof -
    have "unat (word_of_nat k :: u32) = k" using that unat_u32_lt [of "list_count (mem s) ?hdr"] by (simp add: unat_of_nat)
    then show ?thesis using that by (simp add: arena_list_element_def list_of_def list_run_def)
  qed
  have all: "find (\<lambda>k. cv_kind (load_cv (mem s) (?elt k)) \<noteq> CEL_STRING) [0..<?n] = None"
    using l(2) e by (simp add: find_None_iff length_list_of [symmetric])
  have bs: "map (\<lambda>k. str_of (mem s) (load_cv (mem s) (?elt k))) [0..<?n] = map (str_of (mem s)) (list_of s l)"
    by (rule nth_equalityI) (simp_all add: e length_list_of)
  have z: "pl_header_ptr (cv s l) = 0 \<longleftrightarrow> ?hdr = 0" by (simp add: list_hdr_def arena_list_header_def unat_eq_0)
  have nil: "?n = 0 \<Longrightarrow> list_of s l = []" by (simp add: list_of_def)
  show ?thesis
    using write_string_from_bytes_correct [OF ok len] write_string_from_bytes_correct [OF ok, of "[]"] all bs nil
    by (simp add: gives_string_def build_join_def Let_def list_hdr_def [symmetric] z)
qed

lemma list_not_poison: "list_ok s l \<Longrightarrow> cv_kind (cv s l) = CEL_LIST_ARENA"
  by (simp add: list_ok_def)

lemma view_of_list: "list_ok s l \<Longrightarrow> arena_list_view_slot h junk out l s = Some (l, s)"
  by (simp add: arena_list_view_slot_def cel_list_arena_view_def list_not_poison)

lemma join_sep_list:
  assumes "list_ok s l" "cv_kind (cv s w) = CEL_STRING" "l \<noteq> 0"
  shows "cel_string_join_sep_at_vv h junk out l w s = build_join (cel_value_at out) (cv s l) (str_of (mem s) (cv s w)) s"
  using assms by (simp add: cel_string_join_sep_at_vv_def absorb_3vl_unary_def list_not_poison view_of_list Let_def)

lemma join_list:
  assumes "list_ok s l" "l \<noteq> 0"
  shows "cel_string_join_at_v h junk out l s = build_join (cel_value_at out) (cv s l) [] s"
  using assms by (simp add: cel_string_join_at_v_def absorb_3vl_unary_def list_not_poison view_of_list Let_def)

text \<open>The first element that is not a string decides, as itself when it is an error or unknown.\<close>

lemma build_join_other:
  assumes "list_hdr s l \<noteq> 0" "find (\<lambda>v. cv_kind v \<noteq> CEL_STRING) (list_of s l) = Some bad"
  shows "\<exists>s'. build_join out (cv s l) sep s = Some s' \<and> only_cell out s s'
    \<and> (if poisoned bad then load_cv (mem s') out = bad else is_err (load_cv (mem s') out) CEL_ERR_TYPE_MISMATCH)"
proof -
  let ?hdr = "list_hdr s l" and ?n = "unat (list_count (mem s) (list_hdr s l))"
  let ?elt = "\<lambda>k. arena_list_element (mem s) ?hdr (word_of_nat k)"
  have e: "load_cv (mem s) (?elt k) = list_of s l ! k" if "k < ?n" for k
  proof -
    have "unat (word_of_nat k :: u32) = k" using that unat_u32_lt [of "list_count (mem s) ?hdr"] by (simp add: unat_of_nat)
    then show ?thesis using that by (simp add: arena_list_element_def list_of_def list_run_def)
  qed
  obtain k where k: "k < ?n" "bad = list_of s l ! k" "cv_kind bad \<noteq> CEL_STRING" "\<forall>i<k. cv_kind (list_of s l ! i) = CEL_STRING"
    using assms(2) by (auto simp: find_Some_iff length_list_of)
  then have f: "find (\<lambda>k. cv_kind (load_cv (mem s) (?elt k)) \<noteq> CEL_STRING) [0..<?n] = Some k"
    using e by (auto simp: find_Some_iff intro!: exI [of _ k])
  have z: "pl_header_ptr (cv s l) \<noteq> 0" "?n \<noteq> 0" using assms(1) k(1) by (auto simp: list_hdr_def arena_list_header_def)
  show ?thesis
    using f z e [OF k(1)] k(2) is_err_poison [of out CEL_ERR_TYPE_MISMATCH s]
    by (simp add: build_join_def Let_def list_hdr_def [symmetric] cell_simps)
qed

subsection \<open>Properties\<close>

text \<open>
  C26. On valid UTF-8 \<open>split\<close> cuts the code points at the separators from the left, an empty separator between all code points, into at
  most the given number of pieces (a negative number is no bound, 0 gives no piece); the result is an arena list on fresh
  memory whose elements are strings, the bytes of each that is not empty lying inside the bytes of the text, or the overflow
  error when the arena refuses the header or the run. The text is short enough for the byte count of the longest run,
  24 bytes for each code point and one more, to fit 32 bits; beyond that the code's product wraps.
\<close>

theorem string_split_exact:
  assumes ok: "arena_ok s" "kept_range s (cel_value_at out) 24" and v: "text_operand s out v cs" "text_operand s out w ns"
    and hk: "kept_range s (unat (pl_s_ptr (cv s v))) (unat (pl_s_len (cv s v)))" and n: "24 * (length cs + 1) \<le> 2 ^ 32 - 8"
    and i: "cv_kind (cv s i) = CEL_INT"
  shows "gives_texts (cel_string_split_at_vv out v w s) out (cv s v) (map utf8_string (split_text ns cs INT64_MAX)) s
    \<and> gives_texts (cel_string_split_n_at_vvv out v w i s) out (cv s v)
        (if sint (pl_i (cv s i)) = 0 then [] else map utf8_string (split_text ns cs
          (if sint (pl_i (cv s i)) < 0 then INT64_MAX else sint (pl_i (cv s i))))) s"
  using do_split_correct [OF ok v hk n, of "- 1"] do_split_correct [OF ok v hk n, of "sint (pl_i (cv s i))"]
    text_operandD(1) [OF v(1)] text_operandD(1) [OF v(2)] i
  by (simp add: cel_string_split_at_vv_def cel_string_split_n_at_vvv_def strict_first_values)

lemma sample_text_kept:
  "arena_ok sample_text" "kept_range sample_text (cel_value_at 256) 24" "cv_kind (cv sample_text 160) = CEL_INT"
  "sint (pl_i (cv sample_text 160)) = 1"
  "kept_range sample_text (unat (pl_s_ptr (cv sample_text 128))) (unat (pl_s_len (cv sample_text 128)))"
  unfolding sample_text_cells by (simp_all add: sample_text_def sample_rt_ok low_kept cel_value_at_def pl_defs)

theorem string_split_exact_witness:
  "gives_texts (cel_string_split_at_vv 256 128 128 sample_text) 256 (cv sample_text 128) [[], []] sample_text
   \<and> gives_texts (cel_string_split_n_at_vvv 256 128 128 160 sample_text) 256 (cv sample_text 128) [sample_bytes] sample_text"
proof -
  have "split_text [0x61, 0xE9, 0x42] [0x61, 0xE9, 0x42] INT64_MAX = [[], []]"
      "split_text [0x61, 0xE9, 0x42] [0x61, 0xE9, 0x42] 1 = [[0x61, 0xE9, 0x42]]" by (simp_all add: split_text_def)
  moreover have "utf8_string [0x61, 0xE9, 0x42] = sample_bytes" by code_simp
  ultimately show ?thesis
    using string_split_exact [OF sample_text_kept(1,2) sample_text_operand sample_text_operand sample_text_kept(5) _ sample_text_kept(3)]
      sample_text_kept(4)
    by (simp del: utf8_string_simps(2))
qed

text \<open>
  \<open>join\<close> concatenates the strings of a list, with the separator between them; the first element that is not a string
  decides the result, as itself when it is an error or unknown, as the type error otherwise.
\<close>

theorem string_join_exact:
  assumes ok: "arena_ok s" "kept_range s (cel_value_at out) 24" and l: "list_ok s l" "list_hdr s l \<noteq> 0" "l \<noteq> 0"
    and w: "cv_kind (cv s w) = CEL_STRING"
    and len: "length (join_pieces (str_of (mem s) (cv s w)) 0 (map (str_of (mem s)) (list_of s l))) < 2 ^ 32"
      "length (concat (map (str_of (mem s)) (list_of s l))) < 2 ^ 32"
  shows "case find (\<lambda>v. cv_kind v \<noteq> CEL_STRING) (list_of s l) of
      None \<Rightarrow> gives_string (cel_string_join_sep_at_vv h junk out l w s) out
          (join_pieces (str_of (mem s) (cv s w)) 0 (map (str_of (mem s)) (list_of s l))) s
        \<and> gives_string (cel_string_join_at_v h junk out l s) out (concat (map (str_of (mem s)) (list_of s l))) s
    | Some bad \<Rightarrow> \<forall>r\<in>{cel_string_join_sep_at_vv h junk out l w s, cel_string_join_at_v h junk out l s}.
        \<exists>s'. r = Some s' \<and> only_cell (cel_value_at out) s s'
          \<and> (if poisoned bad then cv s' out = bad else is_err (cv s' out) CEL_ERR_TYPE_MISMATCH)"
proof (cases "find (\<lambda>v. cv_kind v \<noteq> CEL_STRING) (list_of s l)")
  case None
  have c: "join_pieces [] k bss = concat bss" for k bss by (induction bss arbitrary: k) simp_all
  have "\<forall>v\<in>set (list_of s l). cv_kind v = CEL_STRING" using None by (simp add: find_None_iff)
  then show ?thesis
    using None build_join_correct [OF ok l(1), of "str_of (mem s) (cv s w)"] build_join_correct [OF ok l(1), of "[]"] len l(2)
    by (simp add: c join_sep_list [OF l(1) w l(3)] join_list [OF l(1,3)])
next
  case (Some bad)
  then show ?thesis using build_join_other [OF l(2) Some] by (simp add: join_sep_list [OF l(1) w l(3)] join_list [OF l(1,3)])
qed

text \<open>The list of the texts \<open>ab\<close> and the empty text at slot 160 and the separator \<open>b\<close> at slot 192.\<close>

definition string_cell :: "u32 \<Rightarrow> u32 \<Rightarrow> cel_value" where
  "string_cell p n = \<lparr>cv_kind = CEL_STRING, cv_pad = 0, cv_lo = join32 p n, cv_hi = 0\<rparr>"

lemma string_cell_fields [simp]: "cv_kind (string_cell p n) = CEL_STRING" "pl_s_ptr (string_cell p n) = p" "pl_s_len (string_cell p n) = n"
  by (simp_all add: string_cell_def pl_defs)

definition sample_ab :: "u8 list" where "sample_ab = [0x61, 0x62]"

definition sample_strings :: rt where
  "sample_strings = sample_rt\<lparr>mem := store_bytes (store_cv (store_cv (store_cv (store_words4 (store_cv (\<lambda>_. 0) 160 (cell_of CEL_LIST_ARENA 300))
     300 2 2 400 0) 192 (string_cell 513 1)) 400 (string_cell 512 2)) 424 (string_cell 0 0)) 512 sample_ab\<rparr>"

lemma sample_strings_cells:
  "cv sample_strings 160 = cell_of CEL_LIST_ARENA 300" "cv sample_strings 192 = string_cell 513 1"
  "load_cv (mem sample_strings) 400 = string_cell 512 2" "load_cv (mem sample_strings) 424 = string_cell 0 0"
  "bytes_at (mem sample_strings) 512 2 = [0x61, 0x62]" "bytes_at (mem sample_strings) 513 (Suc 0) = [0x62]"
proof -
  show "cv sample_strings 160 = cell_of CEL_LIST_ARENA 300" "cv sample_strings 192 = string_cell 513 1"
    "load_cv (mem sample_strings) 400 = string_cell 512 2" "load_cv (mem sample_strings) 424 = string_cell 0 0"
    by (simp_all add: sample_strings_def cel_value_at_def load_cv_under_bytes mem_simps load_cv_store_words4_other)
  have "length sample_ab = 2" by (simp add: sample_ab_def)
  then have "bytes_at (mem sample_strings) 512 2 = sample_ab"
    using bytes_at_store_bytes [of _ 512 sample_ab] by (simp add: sample_strings_def)
  then show b: "bytes_at (mem sample_strings) 512 2 = [0x61, 0x62]" by (simp add: sample_ab_def)
  then show "bytes_at (mem sample_strings) 513 (Suc 0) = [0x62]" by (simp add: bytes_at_def upt_rec)
qed

lemma sample_strings_list: "list_hdr sample_strings 160 = 300" "list_ok sample_strings 160"
  "list_of sample_strings 160 = [string_cell 512 2, string_cell 0 0]"
proof -
  show h: "list_hdr sample_strings 160 = 300"
    by (simp add: list_hdr_def sample_strings_cells arena_list_header_def pl_defs lo32_def)
  have w: "load32 (mem sample_strings) 300 = 2" "load32 (mem sample_strings) 304 = 2" "load32 (mem sample_strings) 308 = 400"
    using load_words4 [of _ 300 2 2 400 0] by (simp_all add: sample_strings_def load32_store_bytes_below load32_store_cv_other)
  then have f: "list_run sample_strings 160 = 400" "list_room sample_strings 160 = 2" "list_count (mem sample_strings) 300 = 2"
    by (simp_all add: list_run_def list_room_def h list_elements_def list_capacity_def list_count_def)
  show "list_ok sample_strings 160"
    unfolding list_ok_def h f sample_strings_cells by (simp add: low_kept apart_def cel_value_at_def)
  show "list_of sample_strings 160 = [string_cell 512 2, string_cell 0 0]"
    by (simp add: list_of_def h f run_at_def upt_rec sample_strings_cells)
qed

theorem string_join_exact_witness:
  "gives_string (cel_string_join_sep_at_vv weak_host (string_cell 0 0) 256 160 192 sample_strings) 256 [0x61, 0x62, 0x62] sample_strings"
proof -
  have t: "map (str_of (mem sample_strings)) (list_of sample_strings 160) = [[0x61, 0x62], []]"
    "str_of (mem sample_strings) (cv sample_strings 192) = [0x62]"
    by (simp_all add: sample_strings_list span_bytes_def sample_strings_cells)
  have f: "find (\<lambda>v. cv_kind v \<noteq> CEL_STRING) (list_of sample_strings 160) = None" by (simp add: sample_strings_list)
  have k: "arena_ok sample_strings" "kept_range sample_strings (cel_value_at 256) 24"
    by (simp_all add: sample_strings_def sample_rt_ok low_kept cel_value_at_def)
  have "cv_kind (cv sample_strings 192) = CEL_STRING" "list_hdr sample_strings 160 \<noteq> 0" "(160 :: u32) \<noteq> 0"
    by (simp_all add: sample_strings_cells sample_strings_list)
  from string_join_exact [OF k sample_strings_list(2) this(2,3,1), unfolded f t, of weak_host "string_cell 0 0"] show ?thesis by simp
qed



end
