(* ===== verification/WasmBinary.thy ===== *)
theory WasmBinary
  imports Prelude "HOL-Library.Sublist"
begin

text \<open>
  The wasm binary layer (\<open>abi/wasm_binary.cc\<close>): the preamble, unsigned LEB128, and the walk over the
  top-level sections that finds, frames and appends custom sections. Binaries are lists of bytes, positions
  natural numbers; an error is its status with the cause the message names.
\<close>

subsection \<open>Preamble and LEB128\<close>

definition kWasmMagic :: "u8 list" where "kWasmMagic = [0x00, 0x61, 0x73, 0x6d]"
definition kPreambleSize :: nat where "kPreambleSize = 8"
definition kCoreVersionWord :: u32 where "kCoreVersionWord = 0x00000001"
definition kCustomSectionId :: u8 where "kCustomSectionId = 0"
definition kMaxU32LebBytes :: nat where "kMaxU32LebBytes = 5"

text \<open>The \<open>memcpy\<close> of the four version bytes into a little-endian word.\<close>

definition word_at :: "u8 list \<Rightarrow> nat \<Rightarrow> u32" where
  "word_at bytes i = ucast (bytes ! i) OR push_bit 8 (ucast (bytes ! (i + 1)))
     OR push_bit 16 (ucast (bytes ! (i + 2))) OR push_bit 24 (ucast (bytes ! (i + 3)))"

definition is_core_module :: "u8 list \<Rightarrow> bool" where
  "is_core_module bytes =
     (if length bytes < kPreambleSize then False
      else if take 4 bytes \<noteq> kWasmMagic then False
      else word_at bytes 4 = kCoreVersionWord)"

text \<open>Whether a value ended within the \<open>n\<close> bytes allowed, the position after the last byte read, and the value.\<close>

fun read_leb_loop :: "nat \<Rightarrow> u32 \<Rightarrow> nat \<Rightarrow> u8 list \<Rightarrow> nat \<Rightarrow> bool \<times> nat \<times> u32" where
  "read_leb_loop 0 out shift bytes cpos = (False, cpos, out)"
| "read_leb_loop (Suc n) out shift bytes cpos =
     (if cpos \<ge> length bytes then (False, cpos, out)
      else (let b = bytes ! cpos; out = out OR push_bit shift (ucast (b AND 0x7f)) in
        if b AND 0x80 = 0 then (True, cpos + 1, out) else read_leb_loop n out (shift + 7) bytes (cpos + 1)))"

definition read_leb128_u32 :: "u8 list \<Rightarrow> nat \<Rightarrow> bool \<times> nat \<times> u32" where
  "read_leb128_u32 bytes cpos = read_leb_loop kMaxU32LebBytes 0 0 bytes cpos"

lemma drop_bit7_less: "drop_bit 7 (v :: u32) \<noteq> 0 \<Longrightarrow> unat (drop_bit 7 v) < unat v"
proof -
  assume "drop_bit 7 v \<noteq> 0"
  then have "v \<noteq> 0" by auto
  then have "0 < unat v" by (simp add: unat_gt_0)
  moreover have "unat (drop_bit 7 v) = unat v div 128" unfolding unat_drop_bit_eq by (simp add: drop_bit_eq_div)
  ultimately show ?thesis by simp
qed

function append_leb128_u32 :: "u8 list \<Rightarrow> u32 \<Rightarrow> u8 list" where
  "append_leb128_u32 out v =
     (let b = ucast (v AND 0x7f); v = drop_bit 7 v in
      if v = 0 then out @ [b] else append_leb128_u32 (out @ [b OR 0x80]) v)"
  by pat_completeness auto
termination by (relation "measure (\<lambda>(out, v). unat v)") (auto dest: drop_bit7_less)

declare append_leb128_u32.simps [simp del]

subsection \<open>Sections\<close>

datatype leb_field = CustomSectionNameLength | SectionSize

datatype wasm_error =
    NotACoreModule
  | BadLeb128 leb_field
  | NamePastSectionEnd
  | SectionPastEnd
  | DuplicateSection "u8 list"
  | AlreadyPresent "u8 list"
  | SectionNotFound "u8 list"

text \<open>\<open>absl::IsNotFound\<close>; every other error is \<open>InvalidArgument\<close>.\<close>

fun is_not_found :: "wasm_error \<Rightarrow> bool" where
  "is_not_found (SectionNotFound _) = True"
| "is_not_found _ = False"

definition read_framing_leb :: "leb_field \<Rightarrow> u8 list \<Rightarrow> nat \<Rightarrow> wasm_error + nat \<times> u32" where
  "read_framing_leb what bytes cpos =
     (case read_leb128_u32 bytes cpos of (ok, cpos, v) \<Rightarrow> if ok then Inr (cpos, v) else Inl (BadLeb128 what))"

definition read_section_name :: "u8 list \<Rightarrow> nat \<Rightarrow> nat \<Rightarrow> wasm_error + nat \<times> u8 list" where
  "read_section_name bytes cpos section_end =
     (case read_framing_leb CustomSectionNameLength bytes cpos of
        Inl e \<Rightarrow> Inl e
      | Inr (cpos, name_len) \<Rightarrow>
          if cpos + unat name_len > section_end then Inl NamePastSectionEnd
          else Inr (cpos + unat name_len, take (unat name_len) (drop cpos bytes)))"

lemma read_leb_loop_pos: "read_leb_loop n out sh bytes cpos = (ok, p, v) \<Longrightarrow> cpos \<le> p"
  by (induction n out sh bytes cpos rule: read_leb_loop.induct) (force simp: Let_def split: if_splits)+

lemma read_framing_pos: "read_framing_leb what bytes cpos = Inr (p, v) \<Longrightarrow> cpos \<le> p"
  by (auto simp: read_framing_leb_def read_leb128_u32_def dest!: read_leb_loop_pos split: prod.splits if_splits)

lemma read_framing_step: "read_framing_leb what bytes (Suc cpos) = Inr r \<Longrightarrow> cpos < fst r"
  using read_framing_pos [of what bytes "Suc cpos" "fst r" "snd r"] by simp

text \<open>The walk from a position, with the payload found so far.\<close>

function find_walk :: "u8 list \<Rightarrow> u8 list \<Rightarrow> nat \<Rightarrow> u8 list option \<Rightarrow> wasm_error + u8 list" where
  "find_walk bytes name cpos found =
     (if cpos < length bytes
      then (let section_id = bytes ! cpos in
        case read_framing_leb SectionSize bytes (cpos + 1) of
          Inl e \<Rightarrow> Inl e
        | Inr (p, sz) \<Rightarrow>
            if p + unat sz > length bytes then Inl SectionPastEnd
            else (let section_end = p + unat sz in
              if section_id = kCustomSectionId
              then (case read_section_name bytes p section_end of
                  Inl e \<Rightarrow> Inl e
                | Inr (q, n) \<Rightarrow>
                    if n = name
                    then (if found \<noteq> None then Inl (DuplicateSection name)
                          else find_walk bytes name section_end (Some (take (section_end - q) (drop q bytes))))
                    else find_walk bytes name section_end found)
              else find_walk bytes name section_end found))
      else (case found of Some payload \<Rightarrow> Inr payload | None \<Rightarrow> Inl (SectionNotFound name)))"
  by pat_completeness auto
termination
  by (relation "measure (\<lambda>(bytes, name, cpos, found). length bytes - cpos)") (auto dest!: read_framing_step)

declare find_walk.simps [simp del]

definition find_custom_section :: "u8 list \<Rightarrow> u8 list \<Rightarrow> wasm_error + u8 list" where
  "find_custom_section wasm_bytes name =
     (if \<not> is_core_module wasm_bytes then Inl NotACoreModule else find_walk wasm_bytes name kPreambleSize None)"

definition build_custom_section :: "u8 list \<Rightarrow> u8 list \<Rightarrow> u8 list" where
  "build_custom_section name payload =
     (let body = append_leb128_u32 [] (word_of_nat (length name)) @ name @ payload in
      append_leb128_u32 [kCustomSectionId] (word_of_nat (length body)) @ body)"

definition append_custom_section :: "u8 list \<Rightarrow> u8 list \<Rightarrow> u8 list \<Rightarrow> wasm_error + u8 list" where
  "append_custom_section wasm_bytes name payload =
     (case find_custom_section wasm_bytes name of
        Inr _ \<Rightarrow> Inl (AlreadyPresent name)
      | Inl e \<Rightarrow> if \<not> is_not_found e then Inl e else Inr (wasm_bytes @ build_custom_section name payload))"

subsection \<open>LEB128 round trip\<close>

lemma append_leb_acc: "append_leb128_u32 out v = out @ append_leb128_u32 [] v"
proof (induction "unat v" arbitrary: out v rule: less_induct)
  case less
  show ?case
  proof (cases "drop_bit 7 v = 0")
    case True
    then show ?thesis by (subst (1 2) append_leb128_u32.simps) (simp add: Let_def)
  next
    case False
    let ?b = "ucast (v AND 0x7f) OR 0x80 :: u8"
    have "append_leb128_u32 out v = out @ ?b # append_leb128_u32 [] (drop_bit 7 v)" for out
      using False less [OF drop_bit7_less [OF False], of "out @ [?b]"] by (subst append_leb128_u32.simps) (simp add: Let_def)
    from this [of out] this [of "[]"] show ?thesis by simp
  qed
qed

lemma append_leb_simps:
  "append_leb128_u32 [] v = (if drop_bit 7 v = 0 then [ucast (v AND 0x7f)]
     else (ucast (v AND 0x7f) OR 0x80) # append_leb128_u32 [] (drop_bit 7 v))"
  by (subst append_leb128_u32.simps) (simp add: Let_def, subst append_leb_acc, simp)

lemma leb_byte: fixes v :: u32
  shows "(ucast (v AND 0x7f) :: u8) AND 0x80 = 0" "(ucast (v AND 0x7f) OR 0x80 :: u8) AND 0x80 \<noteq> 0"
    "ucast ((ucast (v AND 0x7f) :: u8) AND 0x7f) = v AND 0x7f" "ucast ((ucast (v AND 0x7f) OR 0x80 :: u8) AND 0x7f) = v AND 0x7f"
proof -
  have m: "(0x7f :: u32) = mask 7" "(0x7f :: u8) = mask 7" by (simp_all add: mask_eq_exp_minus_1)
  have top: "bit (0x80 :: u8) n \<longleftrightarrow> n = 7" for n
    using bit_exp_iff [of 7 n, where 'a = u8] by auto
  show "(ucast (v AND 0x7f) :: u8) AND 0x80 = 0"
    unfolding m by (rule bit_word_eqI, simp only: bit_and_iff bit_unsigned_iff bit_mask_iff top) auto
  show "ucast ((ucast (v AND 0x7f) :: u8) AND 0x7f) = v AND 0x7f"
    unfolding m by (rule bit_word_eqI, simp only: bit_and_iff bit_or_iff bit_unsigned_iff bit_mask_iff top) auto
  show "ucast ((ucast (v AND 0x7f) OR 0x80 :: u8) AND 0x7f) = v AND 0x7f"
    unfolding m by (rule bit_word_eqI, simp only: bit_and_iff bit_or_iff bit_unsigned_iff bit_mask_iff top) auto
  have "bit ((ucast (v AND 0x7f) OR 0x80 :: u8) AND 0x80) 7" unfolding m by (simp add: bit_and_iff bit_or_iff top)
  then show "(ucast (v AND 0x7f) OR 0x80 :: u8) AND 0x80 \<noteq> 0" by auto
qed

lemma low7_high: "(v AND 0x7f) OR push_bit 7 (drop_bit 7 v) = (v :: u32)"
  unfolding mask_eq_exp_minus_1 [of 7, where 'a = "32 word", simplified, symmetric]
  by (rule bit_word_eqI) (auto simp: bit_simps, metis le_add_diff_inverse not_le)

lemma read_leb_loop_append:
  "0 < n \<Longrightarrow> unat v < 2 ^ (7 * n) \<Longrightarrow> read_leb_loop n out sh (pre @ append_leb128_u32 [] v @ post) (length pre)
     = (True, length pre + length (append_leb128_u32 [] v), out OR push_bit sh v) \<and> length (append_leb128_u32 [] v) \<le> n"
proof (induction n arbitrary: v out sh pre)
  case (Suc n)
  show ?case
  proof (cases "drop_bit 7 v = 0")
    case True
    then have e: "append_leb128_u32 [] v = [ucast (v AND 0x7f)]" by (simp add: append_leb_simps [of v])
    have "v AND 0x7f = v" using low7_high [of v] True by simp
    then show ?thesis using leb_byte [of v] by (simp add: e Let_def)
  next
    case False
    let ?b = "ucast (v AND 0x7f) OR 0x80 :: u8"
    have e: "append_leb128_u32 [] v = ?b # append_leb128_u32 [] (drop_bit 7 v)" using False by (subst append_leb_simps) simp
    have less: "unat (drop_bit 7 v) < 2 ^ (7 * n)"
      unfolding unat_drop_bit_eq using Suc.prems by (simp add: drop_bit_eq_div less_mult_imp_div_less power_add)
    moreover have "0 < unat (drop_bit 7 v)" using False unat_gt_0 [of "drop_bit 7 v"] by blast
    ultimately have "0 < n" by (cases n) simp_all
    from Suc.IH [OF this less, of "out OR push_bit sh (v AND 0x7f)" "sh + 7" "pre @ [?b]"]
    have "read_leb_loop n (out OR push_bit sh (v AND 0x7f)) (sh + 7) (pre @ append_leb128_u32 [] v @ post) (Suc (length pre))
        = (True, length pre + length (append_leb128_u32 [] v), (out OR push_bit sh (v AND 0x7f)) OR push_bit (sh + 7) (drop_bit 7 v))
      \<and> length (append_leb128_u32 [] (drop_bit 7 v)) \<le> n" by (simp add: e)
    moreover have "(out OR push_bit sh (v AND 0x7f)) OR push_bit (sh + 7) (drop_bit 7 v) = out OR push_bit sh v"
    proof -
      have "push_bit sh (v AND 0x7f) OR push_bit (sh + 7) (drop_bit 7 v) = push_bit sh ((v AND 0x7f) OR push_bit 7 (drop_bit 7 v))"
        by (simp add: push_bit_or)
      then show ?thesis by (simp add: low7_high or.assoc)
    qed
    moreover have "(pre @ append_leb128_u32 [] v @ post) ! length pre = ?b" by (simp add: e)
    ultimately show ?thesis using leb_byte [of v] by (simp add: Let_def) (simp add: e)
  qed
qed simp

lemma read_leb_append:
  "read_leb128_u32 (pre @ append_leb128_u32 [] v @ post) (length pre) = (True, length pre + length (append_leb128_u32 [] v), v)"
  "length (append_leb128_u32 [] v) \<le> 5"
proof -
  have "unat v < 2 ^ (7 * 5)" using unat_u32_lt [of v] by simp
  from read_leb_loop_append [OF _ this, of 0 0 pre post]
  show "read_leb128_u32 (pre @ append_leb128_u32 [] v @ post) (length pre) = (True, length pre + length (append_leb128_u32 [] v), v)"
    "length (append_leb128_u32 [] v) \<le> 5"
    by (simp_all add: read_leb128_u32_def kMaxU32LebBytes_def)
qed

subsection \<open>The sections of a binary\<close>

text \<open>From a position to the end, section by section: the identifiers and the contents.\<close>

inductive sections :: "u8 list \<Rightarrow> nat \<Rightarrow> (u8 \<times> u8 list) list \<Rightarrow> bool" for bytes where
  sections_end: "cpos = length bytes \<Longrightarrow> sections bytes cpos []"
| sections_step: "cpos < length bytes \<Longrightarrow> read_leb128_u32 bytes (cpos + 1) = (True, p, sz) \<Longrightarrow> p + unat sz \<le> length bytes \<Longrightarrow>
    sections bytes (p + unat sz) ss \<Longrightarrow> sections bytes cpos ((bytes ! cpos, take (unat sz) (drop p bytes)) # ss)"

inductive_simps sections_simps: "sections bytes cpos ss"

text \<open>The name and the payload of a custom section's contents.\<close>

definition named_payload :: "u8 list \<Rightarrow> (u8 list \<times> u8 list) option" where
  "named_payload c = (case read_leb128_u32 c 0 of (ok, q, n) \<Rightarrow>
     if ok \<and> q + unat n \<le> length c then Some (take (unat n) (drop q c), drop (q + unat n) c) else None)"

definition well_named :: "(u8 \<times> u8 list) list \<Rightarrow> bool" where
  "well_named ss \<longleftrightarrow> (\<forall>(i, c)\<in>set ss. i = kCustomSectionId \<longrightarrow> named_payload c \<noteq> None)"

fun payloads :: "u8 list \<Rightarrow> (u8 \<times> u8 list) list \<Rightarrow> u8 list list" where
  "payloads name [] = []"
| "payloads name ((i, c) # ss) =
     (if i = kCustomSectionId then (case named_payload c of Some (n, p) \<Rightarrow> if n = name then p # payloads name ss else payloads name ss
        | None \<Rightarrow> payloads name ss) else payloads name ss)"

lemma payloads_append: "payloads name (ss @ ts) = payloads name ss @ payloads name ts"
  by (induction name ss rule: payloads.induct) (auto split: option.splits)

text \<open>A value read inside a prefix is read the same way in the whole, and in a slice that contains it.\<close>

lemma read_leb_loop_bounds: "read_leb_loop n out sh bs cpos = (True, p, v) \<Longrightarrow> cpos < p \<and> p \<le> length bs"
proof (induction n out sh bs cpos rule: read_leb_loop.induct)
  case (2 n out sh bs cpos)
  then show ?case by (cases "bs ! cpos AND 0x80 = 0") (force simp: Let_def split: if_splits)+
qed simp

lemma read_leb_loop_shift:
  "read_leb_loop n out sh (pre @ xs) (length pre + c) = (case read_leb_loop n out sh xs c of (ok, k, v) \<Rightarrow> (ok, length pre + k, v))"
proof (induction n out sh xs c rule: read_leb_loop.induct)
  case (2 n out sh xs c)
  then show ?case by (cases "xs ! c AND 0x80 = 0") (auto simp: Let_def nth_append)
qed simp

lemma read_leb_loop_extend:
  "read_leb_loop n out sh xs c = (True, k, v) \<Longrightarrow> read_leb_loop n out sh (xs @ ys) c = (True, k, v)"
proof (induction n out sh xs c rule: read_leb_loop.induct)
  case (2 n out sh xs c)
  then show ?case by (cases "xs ! c AND 0x80 = 0") (auto simp: Let_def nth_append split: if_splits)
qed simp

lemma read_leb_loop_cut:
  "read_leb_loop n out sh (xs @ ys) c = (True, k, v) \<Longrightarrow> k \<le> length xs \<Longrightarrow> read_leb_loop n out sh xs c = (True, k, v)"
proof (induction n out sh "xs @ ys" c rule: read_leb_loop.induct)
  case (2 n out sh c)
  have "c < k" using read_leb_loop_bounds [OF "2.prems"(1)] by simp
  then have "c < length xs" using 2 by simp
  then show ?case using 2 by (cases "xs ! c AND 0x80 = 0") (auto simp: Let_def nth_append split: if_splits)
qed simp

lemma read_leb_slice:
  assumes "xs = pre @ c @ post"
  shows "read_leb128_u32 xs (length pre) = (True, length pre + k, v) \<and> k \<le> length c \<longleftrightarrow> read_leb128_u32 c 0 = (True, k, v)"
proof -
  have sh: "read_leb128_u32 xs (length pre) = (case read_leb128_u32 (c @ post) 0 of (ok, k, v) \<Rightarrow> (ok, length pre + k, v))"
    using read_leb_loop_shift [of kMaxU32LebBytes 0 0 pre "c @ post" 0] by (simp add: read_leb128_u32_def assms)
  obtain ok j w where r: "read_leb128_u32 (c @ post) 0 = (ok, j, w)" by (metis prod_cases3)
  have "read_leb128_u32 xs (length pre) = (True, length pre + k, v) \<longleftrightarrow> read_leb128_u32 (c @ post) 0 = (True, k, v)"
    unfolding sh r by simp
  moreover have "k \<le> length c" if "read_leb128_u32 c 0 = (True, k, v)"
    using read_leb_loop_bounds that unfolding read_leb128_u32_def by blast
  moreover have "read_leb128_u32 (c @ post) 0 = (True, k, v)" if "read_leb128_u32 c 0 = (True, k, v)"
    using read_leb_loop_extend that unfolding read_leb128_u32_def by blast
  moreover have "read_leb128_u32 c 0 = (True, k, v)" if "read_leb128_u32 (c @ post) 0 = (True, k, v)" "k \<le> length c"
    using read_leb_loop_cut that unfolding read_leb128_u32_def by blast
  ultimately show ?thesis by blast
qed

text \<open>The name reader on the section's bytes against its contents as a list of their own.\<close>

lemma read_section_name_slice:
  assumes xs: "xs = pre @ c @ post"
  shows "case named_payload c of
      Some (n, p) \<Rightarrow> \<exists>q. read_section_name xs (length pre) (length pre + length c) = Inr (q, n)
        \<and> take (length pre + length c - q) (drop q xs) = p
    | None \<Rightarrow> \<exists>e. read_section_name xs (length pre) (length pre + length c) = Inl e \<and> \<not> is_not_found e"
proof (cases "named_payload c")
  case (Some r)
  then obtain q n where q: "read_leb128_u32 c 0 = (True, q, n)" "q + unat n \<le> length c" "r = (take (unat n) (drop q c), drop (q + unat n) c)"
    by (auto simp: named_payload_def split: prod.splits if_splits)
  have "read_leb128_u32 xs (length pre) = (True, length pre + q, n)" using read_leb_slice [OF xs] q(1) by blast
  then show ?thesis using q(2,3) Some
    by (auto simp: read_section_name_def read_framing_leb_def xs)
next
  case None
  have "False" if "read_leb128_u32 xs (length pre) = (True, p, n)" "p + unat n \<le> length pre + length c" for p n
  proof -
    have "length pre < p" using that(1) read_leb_loop_bounds by (auto simp: read_leb128_u32_def)
    then obtain k where k: "p = length pre + k" by (metis less_imp_add_positive)
    then have "read_leb128_u32 c 0 = (True, k, n)" using read_leb_slice [OF xs, of k n] that by simp
    then show False using None that(2) k by (simp add: named_payload_def)
  qed
  then show ?thesis using None
    by (auto simp: read_section_name_def read_framing_leb_def split: prod.splits)
qed

subsection \<open>The walk\<close>

lemma sections_pos: "sections bytes cpos ss \<Longrightarrow> cpos \<le> length bytes"
  by (induction rule: sections.induct) simp_all

lemma slice_split: "p + k \<le> length bytes \<Longrightarrow> bytes = take p bytes @ take k (drop p bytes) @ drop (p + k) bytes"
  by (metis add.commute append_take_drop_id drop_drop)

text \<open>One section: what the walk does with it.\<close>

lemma find_walk_step:
  assumes "cpos < length bytes" "read_leb128_u32 bytes (cpos + 1) = (True, p, sz)" "p + unat sz \<le> length bytes"
  defines "c \<equiv> take (unat sz) (drop p bytes)"
  shows "if bytes ! cpos \<noteq> kCustomSectionId then find_walk bytes name cpos found = find_walk bytes name (p + unat sz) found
    else (case named_payload c of
        None \<Rightarrow> \<exists>e. find_walk bytes name cpos found = Inl e \<and> \<not> is_not_found e
      | Some (n, pl) \<Rightarrow> find_walk bytes name cpos found
          = (if n \<noteq> name then find_walk bytes name (p + unat sz) found
             else if found \<noteq> None then Inl (DuplicateSection name)
             else find_walk bytes name (p + unat sz) (Some pl)))"
proof -
  have len: "length (take p bytes) = p" "length c = unat sz" using assms(3) by (simp_all add: c_def)
  have fr: "read_framing_leb SectionSize bytes (cpos + 1) = Inr (p, sz)" using assms(2) by (simp add: read_framing_leb_def)
  have w: "find_walk bytes name cpos found = (if bytes ! cpos = kCustomSectionId
      then (case read_section_name bytes p (p + unat sz) of Inl e \<Rightarrow> Inl e
        | Inr (q, n) \<Rightarrow> if n = name
            then (if found \<noteq> None then Inl (DuplicateSection name)
                  else find_walk bytes name (p + unat sz) (Some (take (p + unat sz - q) (drop q bytes))))
            else find_walk bytes name (p + unat sz) found)
      else find_walk bytes name (p + unat sz) found)"
    using assms(1,3) fr by (subst find_walk.simps) (simp add: Let_def)
  note n = read_section_name_slice [OF slice_split [OF assms(3)], folded c_def, unfolded len]
  show ?thesis unfolding w using n by (auto split: option.splits)
qed

lemma find_walk_sections:
  assumes "sections bytes cpos ss" "well_named ss"
  shows "find_walk bytes name cpos found = (case (case found of None \<Rightarrow> [] | Some p \<Rightarrow> [p]) @ payloads name ss of
      [] \<Rightarrow> Inl (SectionNotFound name) | [p] \<Rightarrow> Inr p | _ \<Rightarrow> Inl (DuplicateSection name))"
  using assms
proof (induction arbitrary: found rule: sections.induct)
  case (sections_end cpos)
  then show ?case by (subst find_walk.simps) (simp split: option.split)
next
  case (sections_step cpos p sz ss)
  let ?c = "take (unat sz) (drop p bytes)"
  have wn: "well_named ss" "bytes ! cpos = kCustomSectionId \<Longrightarrow> named_payload ?c \<noteq> None"
    using sections_step.prems by (auto simp: well_named_def)
  note st = find_walk_step [OF sections_step.hyps(1,2,3), of name found] and ih = sections_step.IH [OF wn(1)]
  show ?case
  proof (cases "bytes ! cpos = kCustomSectionId")
    case False
    then show ?thesis using st ih by simp
  next
    case True
    then obtain n pl where np: "named_payload ?c = Some (n, pl)" using wn(2) by fastforce
    show ?thesis
    proof (cases "n = name \<and> found \<noteq> None")
      case dup: True
      then show ?thesis using st True np by (auto split: option.splits list.splits)
    next
      case False
      then show ?thesis using st True np ih by (auto split: option.splits)
    qed
  qed
qed

text \<open>Conversely, an answer is given, found or not found, only for a binary that is a sequence of sections.\<close>

lemma find_walk_sound:
  assumes "\<forall>e. find_walk bytes name cpos found = Inl e \<longrightarrow> is_not_found e" "cpos \<le> length bytes"
  shows "\<exists>ss. sections bytes cpos ss \<and> well_named ss"
  using assms
proof (induction "length bytes - cpos" arbitrary: cpos found rule: less_induct)
  case less
  show ?case
  proof (cases "cpos < length bytes")
    case False
    then show ?thesis using less.prems(2) by (intro exI [of _ "[]"]) (simp add: sections_end well_named_def)
  next
    case True
    obtain p sz where r: "read_leb128_u32 bytes (cpos + 1) = (True, p, sz)" "p + unat sz \<le> length bytes"
      using less.prems(1) True by (subst (asm) find_walk.simps) (auto simp: read_framing_leb_def not_less split: prod.splits if_splits)
    have "cpos < p" using r(1) read_leb_loop_bounds by (fastforce simp: read_leb128_u32_def)
    then have sm: "length bytes - (p + unat sz) < length bytes - cpos" using True by linarith
    let ?c = "take (unat sz) (drop p bytes)"
    note st = find_walk_step [OF True r, of name found]
    have "(bytes ! cpos = kCustomSectionId \<longrightarrow> named_payload ?c \<noteq> None)
      \<and> (\<exists>f. \<forall>e. find_walk bytes name (p + unat sz) f = Inl e \<longrightarrow> is_not_found e)"
    proof (cases "bytes ! cpos = kCustomSectionId")
      case False
      then show ?thesis using st less.prems(1) by (intro conjI exI [of _ found]) simp_all
    next
      case True
      then obtain n pl where np: "named_payload ?c = Some (n, pl)" using st less.prems(1) by (cases "named_payload ?c") auto
      have "n = name \<longrightarrow> found = None" using st less.prems(1) np True by (cases found) auto
      then show ?thesis using st less.prems(1) np True by (intro conjI exI [of _ "if n = name then Some pl else found"]) auto
    qed
    then obtain f ss where "bytes ! cpos = kCustomSectionId \<longrightarrow> named_payload ?c \<noteq> None" "sections bytes (p + unat sz) ss" "well_named ss"
      using less.hyps [OF sm _ r(2)] by blast
    then show ?thesis using sections_step [OF True r, of ss] by (intro exI [of _ "(bytes ! cpos, ?c) # ss"]) (auto simp: well_named_def)
  qed
qed

subsection \<open>Appending a section\<close>

lemma sections_extend:
  "sections bs cpos ss \<Longrightarrow> sections (bs @ ext) (length bs) ts \<Longrightarrow> sections (bs @ ext) cpos (ss @ ts)"
proof (induction rule: sections.induct)
  case (sections_step cpos p sz ss)
  have "read_leb128_u32 (bs @ ext) (cpos + 1) = (True, p, sz)"
    using sections_step.hyps(2) read_leb_loop_extend unfolding read_leb128_u32_def by blast
  moreover have "p + unat sz \<le> length (bs @ ext)" "cpos < length (bs @ ext)" using sections_step.hyps by simp_all
  moreover have "take (unat sz) (drop p (bs @ ext)) = take (unat sz) (drop p bs)" "(bs @ ext) ! cpos = bs ! cpos"
    using sections_step.hyps by (simp_all add: nth_append)
  ultimately show ?case using sections.sections_step [of cpos "bs @ ext" p sz "ss @ ts"] sections_step by simp
qed simp

lemma core_module_extend: "is_core_module bs \<Longrightarrow> is_core_module (bs @ ext)"
  by (auto simp: is_core_module_def kPreambleSize_def word_at_def nth_append split: if_splits)

lemma built_section:
  assumes "length name + length payload + 5 < 2 ^ 32"
  shows "\<exists>c. sections (bs @ build_custom_section name payload) (length bs) [(kCustomSectionId, c)] \<and> named_payload c = Some (name, payload)"
proof -
  define c where "c = append_leb128_u32 [] (word_of_nat (length name)) @ name @ payload"
  let ?l = "append_leb128_u32 [] (word_of_nat (length c))"
  have "length c \<le> 5 + length name + length payload"
    using read_leb_append(2) [of "word_of_nat (length name)"] by (simp add: c_def)
  then have u: "unat (word_of_nat (length c) :: u32) = length c" "unat (word_of_nat (length name) :: u32) = length name"
    using assms by (simp_all add: unat_of_nat)
  have b: "build_custom_section name payload = kCustomSectionId # ?l @ c"
    using append_leb_acc [of "[kCustomSectionId]"] by (simp add: build_custom_section_def c_def Let_def)
  let ?bs = "bs @ build_custom_section name payload"
  have r: "read_leb128_u32 ?bs (length bs + 1) = (True, length bs + 1 + length ?l, word_of_nat (length c))"
    using read_leb_append(1) [of "bs @ [kCustomSectionId]" "word_of_nat (length c)" c] by (simp add: b)
  have "sections ?bs (length bs) ((?bs ! length bs, take (length c) (drop (length bs + 1 + length ?l) ?bs)) # [])"
    using sections_step [OF _ r, of "[]"] by (simp add: u b sections_end)
  then have "sections ?bs (length bs) [(kCustomSectionId, c)]" by (simp add: b)
  moreover have "named_payload c = Some (name, payload)"
    using read_leb_append(1) [of "[]" "word_of_nat (length name)" "name @ payload"] u
    by (simp add: named_payload_def c_def)
  ultimately show ?thesis by blast
qed

subsection \<open>Properties\<close>

text \<open>
  C28. Unsigned LEB128 round trip: reading at the place where a value was appended, whatever stands before and after,
  answers the value and the position after it, and no encoding is longer than five bytes.
\<close>

theorem leb128_roundtrip:
  "read_leb128_u32 (append_leb128_u32 pre v @ post) (length pre) = (True, length (append_leb128_u32 pre v), v)
   \<and> length (append_leb128_u32 pre v) \<le> length pre + 5"
  using read_leb_append(1) [of pre v post] read_leb_append(2) [of v] by (simp add: append_leb_acc [of pre])

text \<open>
  C29. The walk finds what the binary contains: on a core module that is a sequence of sections whose custom sections carry
  well-formed names, the payload of the one custom section of the name, the duplicate error when there are several, and not
  found when there is none; and any answer other than a framing or duplicate error is given only for such a module.
\<close>

theorem find_custom_section_exact:
  "(is_core_module bs \<and> sections bs kPreambleSize ss \<and> well_named ss \<longrightarrow>
      find_custom_section bs name = (case payloads name ss of [] \<Rightarrow> Inl (SectionNotFound name) | [p] \<Rightarrow> Inr p | _ \<Rightarrow> Inl (DuplicateSection name)))
   \<and> ((\<forall>e. find_custom_section bs name = Inl e \<longrightarrow> is_not_found e) \<longrightarrow>
      is_core_module bs \<and> (\<exists>ss. sections bs kPreambleSize ss \<and> well_named ss))"
proof (intro conjI impI)
  assume "is_core_module bs \<and> sections bs kPreambleSize ss \<and> well_named ss"
  then show "find_custom_section bs name = (case payloads name ss of [] \<Rightarrow> Inl (SectionNotFound name) | [p] \<Rightarrow> Inr p | _ \<Rightarrow> Inl (DuplicateSection name))"
    using find_walk_sections [of bs kPreambleSize ss name None] by (simp add: find_custom_section_def)
next
  assume a: "\<forall>e. find_custom_section bs name = Inl e \<longrightarrow> is_not_found e"
  then show core: "is_core_module bs" by (auto simp: find_custom_section_def split: if_splits)
  then have "kPreambleSize \<le> length bs" by (auto simp: is_core_module_def split: if_splits)
  then show "\<exists>ss. sections bs kPreambleSize ss \<and> well_named ss"
    using find_walk_sound [of bs name kPreambleSize None] a core by (simp add: find_custom_section_def)
qed

text \<open>
  Appending a custom section to a module that lacks it gives a module in which the section is found with its payload,
  in which every other name is found, missing or duplicated as before, and which keeps the original bytes as its prefix.
\<close>

theorem append_custom_section_found:
  assumes "find_custom_section bs name = Inl (SectionNotFound name)" and len: "length name + length payload + 5 < 2 ^ 32"
  shows "\<exists>out. append_custom_section bs name payload = Inr out \<and> prefix bs out
    \<and> find_custom_section out name = Inr payload \<and> append_custom_section out name q = Inl (AlreadyPresent name)
    \<and> (\<forall>n. n \<noteq> name \<longrightarrow> find_custom_section out n = find_custom_section bs n)"
proof -
  let ?out = "bs @ build_custom_section name payload"
  have core: "is_core_module bs" using assms(1) by (auto simp: find_custom_section_def split: if_splits)
  then have "kPreambleSize \<le> length bs" by (auto simp: is_core_module_def split: if_splits)
  moreover have "find_walk bytes name cpos f = r \<Longrightarrow> r = Inl (SectionNotFound name) \<Longrightarrow> (\<forall>e. r = Inl e \<longrightarrow> is_not_found e)" for bytes cpos f r
    by simp
  ultimately obtain ss where ss: "sections bs kPreambleSize ss" "well_named ss"
    using find_walk_sound [of bs name kPreambleSize None] assms(1) core by (auto simp: find_custom_section_def)
  obtain c where c: "sections ?out (length bs) [(kCustomSectionId, c)]" "named_payload c = Some (name, payload)"
    using built_section [OF len] by blast
  note s = sections_extend [OF ss(1) c(1)]
  have wn: "well_named (ss @ [(kCustomSectionId, c)])" using ss(2) c(2) by (auto simp: well_named_def)
  have f: "find_custom_section ?out n = (case payloads n ss @ (if n = name then [payload] else []) of
      [] \<Rightarrow> Inl (SectionNotFound n) | [p] \<Rightarrow> Inr p | _ \<Rightarrow> Inl (DuplicateSection n))" for n
    using find_walk_sections [OF s wn, of n None] core_module_extend [OF core] c(2)
    by (simp add: find_custom_section_def payloads_append split: if_splits)
  have g: "find_custom_section bs n = (case payloads n ss of
      [] \<Rightarrow> Inl (SectionNotFound n) | [p] \<Rightarrow> Inr p | _ \<Rightarrow> Inl (DuplicateSection n))" for n
    using find_walk_sections [OF ss, of n None] core by (simp add: find_custom_section_def)
  have "payloads name ss = []" using g [of name] assms(1) by (auto split: list.splits)
  then have "find_custom_section ?out name = Inr payload" using f [of name] by simp
  moreover have "append_custom_section bs name payload = Inr ?out" using assms(1) by (simp add: append_custom_section_def)
  ultimately show ?thesis using f g by (intro exI [of _ ?out]) (simp add: append_custom_section_def)
qed

text \<open>The empty core module.\<close>

definition sample_module :: "u8 list" where "sample_module = [0x00, 0x61, 0x73, 0x6d, 1, 0, 0, 0]"

lemma sample_module_core: "is_core_module sample_module"
  by (simp add: sample_module_def is_core_module_def kPreambleSize_def kWasmMagic_def kCoreVersionWord_def word_at_def)

lemma sample_module_sections: "sections sample_module kPreambleSize []"
  by (rule sections_end) (simp add: sample_module_def kPreambleSize_def)

theorem find_custom_section_exact_witness:
  "find_custom_section sample_module [0x61] = Inl (SectionNotFound [0x61])"
  using find_custom_section_exact [of sample_module "[]" "[0x61]"] sample_module_core sample_module_sections
  by (simp add: well_named_def)

theorem append_custom_section_found_witness:
  "\<exists>out. append_custom_section sample_module [0x61] [1, 2, 3] = Inr out \<and> find_custom_section out [0x61] = Inr [1, 2, 3]"
proof -
  have "find_custom_section sample_module [0x61] = Inl (SectionNotFound [0x61])"
    using find_walk_sections [OF sample_module_sections, of "[0x61]" None] sample_module_core
    by (simp add: find_custom_section_def well_named_def)
  from append_custom_section_found [OF this, of "[1, 2, 3]"] show ?thesis by auto
qed

end
