(* ===== verification/StaticLayout.thy ===== *)
theory StaticLayout
  imports Prelude
begin

text \<open>
  The compiler's static memory layout: the workspace slot allocator (\<open>compiler/codegen/slot_allocator.cc\<close>), the
  constants and the window of \<open>compiler/memory_layout.h\<close>, the variable slots and the gate of
  \<open>compiler/codegen/layout_pass.cc\<close>. The allocator's free list is the vector with its back first.
\<close>

subsection \<open>The slot allocator\<close>

definition kSlotStride :: u32 where "kSlotStride = 32"

record slot_allocator =
  base_offset :: u32
  debug_mode :: bool
  bump_slots :: u32
  live_slots :: u32
  peak_slots :: u32
  free_list :: "u32 list"

text \<open>A failed check aborts the compiler: \<open>None\<close>.\<close>

definition new_slot_allocator :: "u32 \<Rightarrow> bool \<Rightarrow> slot_allocator option" where
  "new_slot_allocator base debug =
     (if base mod 16 \<noteq> 0 then None
      else Some \<lparr>base_offset = base, debug_mode = debug, bump_slots = 0, live_slots = 0, peak_slots = 0, free_list = []\<rparr>)"

definition slot_acquire :: "slot_allocator \<Rightarrow> u32 \<times> slot_allocator" where
  "slot_acquire a =
     (if debug_mode a
      then (let off = base_offset a + bump_slots a * kSlotStride; n = bump_slots a + 1 in
        (off, a\<lparr>bump_slots := n, peak_slots := max (peak_slots a) n\<rparr>))
      else (case free_list a of
          off # rest \<Rightarrow> (off, a\<lparr>free_list := rest, live_slots := live_slots a + 1\<rparr>)
        | [] \<Rightarrow> (let off = base_offset a + bump_slots a * kSlotStride; live = live_slots a + 1 in
            (off, a\<lparr>bump_slots := bump_slots a + 1, live_slots := live, peak_slots := max (peak_slots a) live\<rparr>))))"

definition slot_release :: "u32 \<Rightarrow> slot_allocator \<Rightarrow> slot_allocator option" where
  "slot_release off a =
     (if debug_mode a then Some a
      else if live_slots a < 1 then None
      else Some (a\<lparr>live_slots := live_slots a - 1, free_list := off # free_list a\<rparr>))"

definition slot_total_bytes :: "slot_allocator \<Rightarrow> u32" where
  "slot_total_bytes a = peak_slots a * kSlotStride"

subsection \<open>The static window\<close>

definition kReservedLowMemoryBytes :: u32 where "kReservedLowMemoryBytes = 262144"
definition kGuardBytes :: u32 where "kGuardBytes = 256"

definition max_workspace_bytes :: "u32 \<Rightarrow> u32 \<Rightarrow> u32" where
  "max_workspace_bytes rodata_base rodata_size =
     (let used = rodata_base + rodata_size + kGuardBytes in
      if used \<ge> kReservedLowMemoryBytes then 0 else kReservedLowMemoryBytes - used)"

definition round_up_8 :: "u32 \<Rightarrow> u32" where "round_up_8 x = (x + 7) AND NOT 7"
definition round_up_16 :: "u32 \<Rightarrow> u32" where "round_up_16 x = (x + 15) AND NOT 15"

datatype variable_kind = FreeVariable | ComprehensionIter | ComprehensionAccu

text \<open>The slot of each variable from a count on, and the count reached: an iteration variable takes none.\<close>

fun variable_slots :: "u32 \<Rightarrow> u32 \<Rightarrow> variable_kind list \<Rightarrow> u32 list \<times> u32" where
  "variable_slots workspace_base slot_count [] = ([], slot_count)"
| "variable_slots workspace_base slot_count (k # ks) =
     (if k \<noteq> ComprehensionIter
      then (let (offs, n) = variable_slots workspace_base (slot_count + 1) ks in ((workspace_base + slot_count * kSlotStride) # offs, n))
      else (let (offs, n) = variable_slots workspace_base slot_count ks in (0 # offs, n)))"

text \<open>\<open>workspace_base\<close>, the offsets and \<open>workspace_bytes\<close>.\<close>

definition reserve_variable_slots :: "u32 \<Rightarrow> u32 \<Rightarrow> variable_kind list \<Rightarrow> u32 \<times> u32 list \<times> u32" where
  "reserve_variable_slots rodata_base rodata_size kinds =
     (let workspace_base = round_up_16 (rodata_base + rodata_size); (offs, n) = variable_slots workspace_base 0 kinds in
      (workspace_base, offs, n * kSlotStride))"

text \<open>Whether the layout is accepted.\<close>

definition check_static_window_fits :: "u32 \<Rightarrow> u32 \<Rightarrow> u32 \<Rightarrow> bool" where
  "check_static_window_fits rodata_base rodata_size workspace_bytes =
     (let rodata_end = rodata_base + rodata_size in
      if rodata_end + kGuardBytes > kReservedLowMemoryBytes then False
      else if workspace_bytes > max_workspace_bytes rodata_base rodata_size then False
      else True)"

subsection \<open>The allocator's states\<close>

text \<open>
  What a client does, in either mode: acquire cells, release live ones. The relation carries the cells that are live, the
  largest number of cells live so far and the number acquired so far. The workspace stays in the address space.
\<close>

inductive slot_run :: "u32 \<Rightarrow> slot_allocator \<Rightarrow> u32 list \<Rightarrow> nat \<Rightarrow> nat \<Rightarrow> bool" for base where
  slot_start: "new_slot_allocator base debug = Some a \<Longrightarrow> slot_run base a [] 0 0"
| slot_acquired: "slot_run base a live most ever \<Longrightarrow> slot_acquire a = (off, a') \<Longrightarrow>
    unat base + 32 * Suc (if debug_mode a then ever else length live) \<le> 2 ^ 32 \<Longrightarrow>
    slot_run base a' (off # live) (max most (Suc (length live))) (Suc ever)"
| slot_released: "slot_run base a live most ever \<Longrightarrow> off \<in> set live \<Longrightarrow> slot_release off a = Some a' \<Longrightarrow>
    slot_run base a' (remove1 off live) most ever"

text \<open>
  The cells the workspace needs: with reuse the largest number live at once; in debug mode, where a release does nothing, all
  those ever acquired.
\<close>

definition cells_needed :: "slot_allocator \<Rightarrow> nat \<Rightarrow> nat \<Rightarrow> nat" where
  "cells_needed a most ever = (if debug_mode a then ever else most)"

definition cell_at :: "u32 \<Rightarrow> nat \<Rightarrow> u32" where "cell_at base i = base + word_of_nat i * kSlotStride"

text \<open>The cells handed out so far are the live and the free ones, each once; their number is the high-water mark.\<close>

definition slot_inv :: "u32 \<Rightarrow> slot_allocator \<Rightarrow> u32 list \<Rightarrow> nat \<Rightarrow> bool" where
  "slot_inv base a live most \<longleftrightarrow> base_offset a = base \<and> \<not> debug_mode a \<and> unat base mod 16 = 0 \<and> (most = 0 \<or> unat base + 32 * most \<le> 2 ^ 32)
     \<and> unat (bump_slots a) = most \<and> unat (peak_slots a) = most \<and> unat (live_slots a) = length live
     \<and> length live + length (free_list a) = most
     \<and> distinct (live @ free_list a) \<and> set (live @ free_list a) = cell_at base ` {..<most}"

text \<open>In debug mode the cells are handed out in order and the live ones are among them.\<close>

definition debug_inv :: "u32 \<Rightarrow> slot_allocator \<Rightarrow> u32 list \<Rightarrow> nat \<Rightarrow> bool" where
  "debug_inv base a live ever \<longleftrightarrow> base_offset a = base \<and> debug_mode a \<and> unat base mod 16 = 0 \<and> (ever = 0 \<or> unat base + 32 * ever \<le> 2 ^ 32)
     \<and> unat (bump_slots a) = ever \<and> unat (peak_slots a) = ever \<and> distinct live \<and> set live \<subseteq> cell_at base ` {..<ever}"

lemma unat_u32_of_nat: "x < 2 ^ 32 \<Longrightarrow> unat (word_of_nat x :: u32) = x"
  by (simp add: unat_of_nat)

lemma u32_of_unat: "unat (x :: u32) = n \<Longrightarrow> x = word_of_nat n"
  by auto

lemma unat_cell_at:
  assumes "unat base + 32 * Suc i \<le> 2 ^ 32"
  shows "unat (cell_at base i) = unat base + 32 * i"
proof -
  have "unat (word_of_nat i * 32 :: u32) = 32 * i" using assms by (simp add: unat_word_ariths unat_of_nat)
  then show ?thesis using assms unat_add_lem [of base "word_of_nat i * 32"] by (simp add: cell_at_def kSlotStride_def)
qed

lemma cell_at_inj: "unat base + 32 * n \<le> 2 ^ 32 \<Longrightarrow> inj_on (cell_at base) {..<n}"
proof (rule inj_onI)
  fix i j assume b: "unat base + 32 * n \<le> 2 ^ 32" and ij: "i \<in> {..<n}" "j \<in> {..<n}" "cell_at base i = cell_at base j"
  have u: "unat (cell_at base k) = unat base + 32 * k" if "k < n" for k
  proof -
    have "32 * Suc k \<le> 32 * n" using that by simp
    then show ?thesis using b by (intro unat_cell_at) (rule order_trans [OF add_left_mono])
  qed
  have "unat base + 32 * i = unat base + 32 * j" using u [of i] u [of j] ij by (metis lessThan_iff)
  then show "i = j" by simp
qed

lemma unat_aligned: "base mod 16 = (0 :: u32) \<longleftrightarrow> unat base mod 16 = 0"
  using unat_mod [of base 16] unat_eq_0 [of "base mod 16"] by simp

lemma new_cell:
  assumes "unat base + 32 * Suc n \<le> 2 ^ 32"
  shows "cell_at base n \<notin> cell_at base ` {..<n}" "cell_at base ` {..<Suc n} = insert (cell_at base n) (cell_at base ` {..<n})"
  using inj_on_image_mem_iff [OF cell_at_inj [of base "Suc n"], of n "{..<n}"] assms by (auto simp: lessThan_Suc)

lemma counted_max:
  assumes "Suc n < 2 ^ 32"
  shows "max (word_of_nat n :: u32) (word_of_nat (Suc n)) = word_of_nat (Suc n)"
  using assms unat_u32_of_nat [of n] unat_u32_of_nat [of "Suc n"] by (auto simp: max_def word_le_nat_alt)

lemma acquire_debug:
  assumes i: "debug_inv base a live ever" and aq: "slot_acquire a = (off, a')" and room: "unat base + 32 * Suc ever \<le> 2 ^ 32"
  shows "debug_inv base a' (off # live) (Suc ever)"
proof -
  note i = i [unfolded debug_inv_def]
  have l: "Suc ever < 2 ^ 32" using room by simp
  have w: "bump_slots a = word_of_nat ever" "peak_slots a = word_of_nat ever" using i by (simp_all add: u32_of_unat)
  have off: "off = cell_at base ever"
    using aq i unfolding slot_acquire_def cell_at_def w(1) [symmetric] by (simp add: Let_def)
  have a': "a' = a\<lparr>bump_slots := word_of_nat (Suc ever), peak_slots := word_of_nat (Suc ever)\<rparr>"
    using aq i counted_max [OF l] by (auto simp: slot_acquire_def Let_def w add.commute)
  show ?thesis
    using i unat_u32_of_nat [OF l] new_cell [OF room] room unfolding debug_inv_def a' off by auto
qed

lemma acquire_reuse:
  assumes i: "slot_inv base a live most" and aq: "slot_acquire a = (off, a')" and room: "unat base + 32 * Suc (length live) \<le> 2 ^ 32"
  shows "slot_inv base a' (off # live) (max most (Suc (length live)))"
proof (cases "free_list a")
  note i = i [unfolded slot_inv_def]
  case Nil
  then have m: "most = length live" using i by simp
  have l: "Suc most < 2 ^ 32" using room m by simp
  note u = unat_u32_of_nat [OF l]
  have w: "bump_slots a = word_of_nat most" "live_slots a = word_of_nat most" "peak_slots a = word_of_nat most"
    using i m by (simp_all add: u32_of_unat)
  have off: "off = cell_at base most"
    using aq i Nil unfolding slot_acquire_def cell_at_def w(1) [symmetric] by (simp add: Let_def)
  have a': "a' = a\<lparr>bump_slots := word_of_nat (Suc most), live_slots := word_of_nat (Suc most), peak_slots := word_of_nat (Suc most)\<rparr>"
    using aq i Nil counted_max [OF l] by (auto simp: slot_acquire_def Let_def w add.commute)
  show ?thesis using i m u new_cell [OF room] room Nil unfolding slot_inv_def a' off by (auto simp: max_def)
next
  note i = i [unfolded slot_inv_def]
  case (Cons c rest)
  then have a': "off = c" "a' = a\<lparr>free_list := rest, live_slots := live_slots a + 1\<rparr>"
    using aq i by (auto simp: slot_acquire_def)
  have "Suc (length live) \<le> most" using i Cons by simp
  moreover have "unat (live_slots a + 1) = Suc (length live)"
    using i room by (simp add: unat_word_ariths)
  ultimately show ?thesis using i Cons unfolding slot_inv_def a' by (auto simp: max_def)
qed

lemma release_reuse:
  assumes i: "slot_inv base a live most" and off: "off \<in> set live" and rl: "slot_release off a = Some a'"
  shows "slot_inv base a' (remove1 off live) most"
proof -
  note i = i [unfolded slot_inv_def]
  have a': "a' = a\<lparr>live_slots := live_slots a - 1, free_list := off # free_list a\<rparr>"
    using rl i by (auto simp: slot_release_def split: if_splits)
  have pos: "0 < length live" using off by (cases live) auto
  then have "unat (live_slots a - 1) = length live - 1" using i pos by (simp add: unat_sub_if' word_le_nat_alt Suc_le_eq)
  moreover have "set (remove1 off live) = set live - {off}" using i by simp
  moreover obtain m where "length live = Suc m" using pos by (cases "length live") auto
  moreover have "length (remove1 off live) = length live - 1" using off by (simp add: length_remove1)
  ultimately show ?thesis using i off unfolding slot_inv_def a' by auto
qed

lemma slot_run_inv: "slot_run base a live most ever \<Longrightarrow> if debug_mode a then debug_inv base a live ever else slot_inv base a live most"
proof (induction rule: slot_run.induct)
  case (slot_start debug a)
  then show ?case
    by (auto simp: new_slot_allocator_def slot_inv_def debug_inv_def unat_aligned simp del: mod_eq_0_iff_dvd split: if_splits)
next
  case (slot_acquired a live most ever off a')
  have "debug_mode a' = debug_mode a"
    using slot_acquired.hyps(2) by (auto simp: slot_acquire_def Let_def split: if_splits list.splits)
  then show ?case
    using slot_acquired.IH slot_acquired.hyps(3) acquire_debug [OF _ slot_acquired.hyps(2)] acquire_reuse [OF _ slot_acquired.hyps(2)]
    by (auto split: if_splits)
next
  case (slot_released a live most ever off a')
  show ?case
  proof (cases "debug_mode a")
    case True
    then have "a' = a" using slot_released.hyps(3) by (simp add: slot_release_def)
    then show ?thesis using slot_released.IH True set_remove1_subset [of off live] by (auto simp: debug_inv_def)
  next
    case False
    then have "\<not> debug_mode a'" using slot_released.hyps(3) by (auto simp: slot_release_def split: if_splits)
    then show ?thesis using slot_released.IH False release_reuse [OF _ slot_released.hyps(2,3)] by simp
  qed
qed

text \<open>What both modes share.\<close>

lemma slot_run_cells:
  assumes "slot_run base a live most ever"
  defines "n \<equiv> cells_needed a most ever"
  shows "distinct live" "set live \<subseteq> cell_at base ` {..<n}" "n = 0 \<or> unat base + 32 * n \<le> 2 ^ 32"
    "unat (peak_slots a) = n" "unat base mod 16 = 0" "off \<in> set live \<Longrightarrow> slot_release off a \<noteq> None"
  using slot_run_inv [OF assms(1)] unfolding n_def cells_needed_def
  by (cases live; auto simp: slot_inv_def debug_inv_def slot_release_def word_less_nat_alt split: if_splits)+

subsection \<open>The window\<close>

lemma unat_clear_low: "unat ((y :: u32) AND NOT (mask n)) = unat y - unat y mod 2 ^ n" if "n < 32"
proof -
  have "y AND NOT (mask n) = push_bit n (drop_bit n y)" by (rule bit_word_eqI) (auto simp: bit_simps)
  also have "\<dots> = y - take_bit n y" using bits_ident [of n y] by (simp add: eq_diff_eq)
  finally have "y AND NOT (mask n) = y - take_bit n y" .
  moreover have "unat (take_bit n y) = unat y mod 2 ^ n" unfolding unsigned_take_bit_eq by (rule take_bit_eq_mod)
  ultimately show ?thesis by (simp add: unat_sub_if' word_le_nat_alt)
qed

lemma unat_round_up_16:
  assumes "unat x + 15 < 2 ^ 32"
  shows "unat (round_up_16 x) = (unat x + 15) - (unat x + 15) mod 16"
proof -
  have "(15 :: u32) = mask 4" by (simp add: mask_eq_exp_minus_1)
  moreover have "unat (x + 15) = unat x + 15" using assms by (simp add: unat_word_ariths)
  ultimately show ?thesis using unat_clear_low [of 4 "x + 15"] by (simp add: round_up_16_def)
qed

text \<open>The slots of the variables that have one.\<close>

definition taken_slots :: "u32 list \<Rightarrow> variable_kind list \<Rightarrow> u32 list" where
  "taken_slots offs kinds = map fst (filter (\<lambda>(off, k). k \<noteq> ComprehensionIter) (zip offs kinds))"

lemma variable_slots_cells:
  assumes "variable_slots wb (word_of_nat n) ks = (offs, n')" "n + length ks < 2 ^ 32"
  shows "length offs = length ks \<and> n \<le> unat n' \<and> unat n' \<le> n + length ks \<and> taken_slots offs ks = map (cell_at wb) [n..<unat n']"
  using assms
proof (induction ks arbitrary: n offs)
  case Nil
  then show ?case by (auto simp: taken_slots_def unat_u32_of_nat)
next
  case (Cons k ks)
  show ?case
  proof (cases "k = ComprehensionIter")
    case True
    then obtain offs' where o: "variable_slots wb (word_of_nat n) ks = (offs', n')" "offs = 0 # offs'"
      using Cons.prems(1) by (auto split: prod.splits)
    show ?thesis using Cons.IH [OF o(1)] Cons.prems(2) True o(2) by (auto simp: taken_slots_def)
  next
    case False
    then obtain offs' where o: "variable_slots wb (word_of_nat (Suc n)) ks = (offs', n')" "offs = cell_at wb n # offs'"
      using Cons.prems(1) by (auto simp: cell_at_def add.commute split: prod.splits)
    have "n < unat n' \<Longrightarrow> [n..<unat n'] = n # [Suc n..<unat n']" by (simp add: upt_conv_Cons)
    then show ?thesis using Cons.IH [OF o(1)] Cons.prems(2) False o(2) by (auto simp: taken_slots_def)
  qed
qed

lemma mod_32_16: "(x + 32 * k) mod 16 = x mod (16 :: nat)"
  using mod_mult_self2 [of x 16 "2 * k"] by simp

subsection \<open>Properties\<close>

text \<open>A cell between two bounds, 16-aligned, and cells that do not overlap.\<close>

definition cell_within :: "nat \<Rightarrow> nat \<Rightarrow> u32 \<Rightarrow> bool" where
  "cell_within lo hi off \<longleftrightarrow> lo \<le> unat off \<and> unat off + 32 \<le> hi \<and> unat off mod 16 = 0"

definition cells_disjoint :: "u32 list \<Rightarrow> bool" where
  "cells_disjoint offs \<longleftrightarrow> (\<forall>i<length offs. \<forall>j<length offs. i \<noteq> j \<longrightarrow> unat (offs ! i) + 32 \<le> unat (offs ! j) \<or> unat (offs ! j) + 32 \<le> unat (offs ! i))"

lemma cells_disjointI:
  assumes "distinct offs" "set offs \<subseteq> cell_at base ` {..<n}" "n = 0 \<or> unat base + 32 * n \<le> 2 ^ 32"
  shows "cells_disjoint offs"
  unfolding cells_disjoint_def
proof (intro allI impI)
  fix i j assume ij: "i < length offs" "j < length offs" "i \<noteq> j"
  have "offs ! i \<in> cell_at base ` {..<n}" "offs ! j \<in> cell_at base ` {..<n}"
    using assms(2) nth_mem [OF ij(1)] nth_mem [OF ij(2)] by blast+
  then obtain k l where k: "offs ! i = cell_at base k" "k < n" and l: "offs ! j = cell_at base l" "l < n" by auto
  have "k \<noteq> l" using nth_eq_iff_index_eq [OF assms(1) ij(1,2)] ij(3) k(1) l(1) by auto
  have "unat (cell_at base x) = unat base + 32 * x" if "x < n" for x
  proof -
    have "32 * Suc x \<le> 32 * n" using that by simp
    then show ?thesis using assms(3) that by (intro unat_cell_at) (auto intro: order_trans [OF add_left_mono])
  qed
  from this [OF k(2)] this [OF l(2)] show "unat (offs ! i) + 32 \<le> unat (offs ! j) \<or> unat (offs ! j) + 32 \<le> unat (offs ! i)"
    using \<open>k \<noteq> l\<close> unfolding k(1) l(1) by linarith
qed

lemma cell_in_window:
  assumes "off \<in> cell_at base ` {..<n}" "unat base + 32 * n \<le> hi" "hi \<le> 2 ^ 32" "unat base mod 16 = 0"
  shows "cell_within (unat base) hi off"
proof -
  obtain k where k: "off = cell_at base k" "k < n" using assms(1) by auto
  have "32 * Suc k \<le> 32 * n" using k by simp
  then have s: "unat base + 32 * Suc k \<le> hi" using assms(2) by linarith
  then have "unat off = unat base + 32 * k" unfolding k(1) using assms(3) by (intro unat_cell_at) simp
  then show ?thesis using s assms(4) by (simp add: cell_within_def mod_32_16)
qed



lemma window_arith:
  fixes e :: nat
  assumes "e mod 8 = 0" "e + 256 \<le> 262144" "32 * n \<le> 262144 - (e + 256)"
  shows "e \<le> (e + 15) - (e + 15) mod 16 \<and> ((e + 15) - (e + 15) mod 16) mod 16 = 0 \<and> (e + 15) - (e + 15) mod 16 + 32 * n \<le> 262144 - 256"
proof -
  obtain k where k: "e = 8 * k" using assms(1) by auto
  obtain j where "k = 2 * j \<or> k = 2 * j + 1" by (metis evenE oddE)
  then consider "e = 16 * j" | "e = 16 * j + 8" using k by auto
  then show ?thesis
  proof cases
    case 1
    then have "(e + 15) mod 16 = 15" by (simp add: mod_add_left_eq [symmetric])
    then show ?thesis using 1 assms(2,3) by simp
  next
    case 2
    have "e + 15 = 7 + 16 * (j + 1)" using 2 by simp
    then have "(e + 15) mod 16 = 7" by (simp only: mod_mult_self2) simp
    moreover have "2 * n + j < 16368" using 2 assms(2,3) by linarith
    ultimately show ?thesis using 2 by simp
  qed
qed

lemma fits_bounds:
  assumes "check_static_window_fits rb rs w" "unat rb + unat rs < 2 ^ 31"
  shows "unat rb + unat rs + 256 \<le> 262144 \<and> unat w \<le> 262144 - (unat rb + unat rs + 256)"
proof -
  have "unat (rb + rs) = unat rb + unat rs" using assms(2) by (simp add: unat_word_ariths)
  moreover have "unat (rb + rs + kGuardBytes) = unat rb + unat rs + 256" using assms(2) by (simp add: unat_word_ariths kGuardBytes_def)
  moreover have "unat kReservedLowMemoryBytes = 262144" by (simp add: kReservedLowMemoryBytes_def)
  ultimately show ?thesis using assms(1)
    by (auto simp: check_static_window_fits_def max_workspace_bytes_def Let_def word_less_nat_alt word_le_nat_alt unat_sub_if' not_le not_less split: if_splits)
qed

text \<open>The cells of the workspace as the slot allocator strides them: 32 bytes, 16-aligned.\<close>

lemma static_window_cells:
  assumes al: "unat rb mod 8 = 0" "unat rs mod 8 = 0" and small: "unat rb + unat rs < 2 ^ 31" "length kinds + unat (peak_slots a) < 2 ^ 26"
    and vs: "reserve_variable_slots rb rs kinds = (wb, offs, vbytes)"
    and run: "slot_run (wb + vbytes) a live most ever"
    and fits: "check_static_window_fits rb rs (vbytes + slot_total_bytes a)"
  shows "cells_disjoint (taken_slots offs kinds @ live)"
    "\<forall>off\<in>set (taken_slots offs kinds @ live). cell_within (unat rb + unat rs) (262144 - 256) off"
proof -
  let ?e = "unat rb + unat rs" and ?p = "unat (peak_slots a)"
  obtain n where n: "variable_slots wb 0 kinds = (offs, n)" "vbytes = n * 32" "wb = round_up_16 (rb + rs)"
    using vs by (auto simp: reserve_variable_slots_def Let_def kSlotStride_def split: prod.splits)
  have v: "unat n \<le> length kinds" "taken_slots offs kinds = map (cell_at wb) [0..<unat n]"
    using variable_slots_cells [of wb 0 kinds offs n] n(1) small(2) by simp_all
  note c = slot_run_cells [OF run, folded slot_run_cells(4) [OF run]]
  have ub: "unat vbytes = 32 * unat n" using v(1) small(2) by (simp add: n(2) unat_word_ariths)
  have ut: "unat (slot_total_bytes a) = 32 * ?p" using small(2) by (simp add: slot_total_bytes_def kSlotStride_def unat_word_ariths)
  have uw: "unat (vbytes + slot_total_bytes a) = 32 * (unat n + ?p)" using ub ut v(1) small(2) by (simp add: unat_word_ariths)
  have "unat (rb + rs) = ?e" using small(1) by (simp add: unat_word_ariths)
  then have wb: "unat wb = (?e + 15) - (?e + 15) mod 16" using small(1) by (simp add: n(3) unat_round_up_16)
  have "?e mod 8 = 0" using al by presburger
  from window_arith [OF this conjunct1 [OF fits_bounds [OF fits small(1)]], of "unat n + ?p"] fits_bounds [OF fits small(1)]
  have w: "?e \<le> unat wb" "unat wb mod 16 = 0" "unat wb + 32 * (unat n + ?p) \<le> 262144 - 256" unfolding wb uw by blast+
  have sh: "cell_at (wb + vbytes) k = cell_at wb (unat n + k)" for k
    by (simp add: cell_at_def n(2) kSlotStride_def algebra_simps)
  have inj: "inj_on (cell_at wb) {..<unat n + ?p}" using w(3) by (intro cell_at_inj) simp
  have sub: "set live \<subseteq> (\<lambda>k. cell_at wb (unat n + k)) ` {..<?p}" using c(2) unfolding sh .
  then have all: "set (taken_slots offs kinds @ live) \<subseteq> cell_at wb ` {..<unat n + ?p}" by (auto simp: v(2))
  have "x \<noteq> y" if xy: "x \<in> set (taken_slots offs kinds)" "y \<in> set live" for x y
  proof -
    obtain k l where "x = cell_at wb k" "k < unat n" "y = cell_at wb (unat n + l)" "l < ?p" using xy sub by (auto simp: v(2))
    then show ?thesis using inj_onD [OF inj, of k "unat n + l"] by auto
  qed
  moreover have "distinct (taken_slots offs kinds)"
    using inj by (auto simp: v(2) distinct_map intro: inj_on_subset)
  ultimately have "distinct (taken_slots offs kinds @ live)" using c(1) by auto
  from cells_disjointI [OF this all] w(3) show "cells_disjoint (taken_slots offs kinds @ live)" by simp
  show "\<forall>off\<in>set (taken_slots offs kinds @ live). cell_within ?e (262144 - 256) off"
  proof
    fix off assume "off \<in> set (taken_slots offs kinds @ live)"
    then have "off \<in> cell_at wb ` {..<unat n + ?p}" using all by blast
    then have "cell_within (unat wb) (262144 - 256) off" by (rule cell_in_window [OF _ w(3) _ w(2)]) simp
    then show "cell_within ?e (262144 - 256) off" using w(1) by (simp add: cell_within_def)
  qed
qed

text \<open>A value of 24 bytes between two bounds at a multiple of eight, and values that do not overlap.\<close>

definition value_within :: "nat \<Rightarrow> nat \<Rightarrow> u32 \<Rightarrow> bool" where
  "value_within lo hi off \<longleftrightarrow> lo \<le> unat off \<and> unat off + 24 \<le> hi \<and> unat off mod 8 = 0"

definition values_disjoint :: "u32 list \<Rightarrow> bool" where
  "values_disjoint offs \<longleftrightarrow> (\<forall>i<length offs. \<forall>j<length offs. i \<noteq> j \<longrightarrow> unat (offs ! i) + 24 \<le> unat (offs ! j) \<or> unat (offs ! j) + 24 \<le> unat (offs ! i))"

lemma value_of_cell: "cell_within lo hi off \<Longrightarrow> value_within lo hi off"
  unfolding cell_within_def value_within_def by presburger

lemma values_of_cells: "cells_disjoint offs \<Longrightarrow> values_disjoint offs"
  unfolding cells_disjoint_def values_disjoint_def by fastforce



end
