(* ===== verification/StaticMemory.thy ===== *)
theory StaticMemory
  imports MapOps
begin

text \<open>
  The compiler's read-only data (\<open>compiler/codegen/static_memory_builder.cc\<close>): cells, strings, lists and maps written as
  bytes the runtime will find at the builder's base offset. A failed check of the builder is \<open>None\<close>. The map index is
  placed at compile time by the runtime's own hash and key equality, on keys staged in an arena of the compiler's process.
\<close>

subsection \<open>Bytes\<close>

abbreviation kCelValueSize :: nat where "kCelValueSize \<equiv> 24"
abbreviation kAlign :: nat where "kAlign \<equiv> 8"

definition append_u32_le :: "u8 list \<Rightarrow> u32 \<Rightarrow> u8 list" where
  "append_u32_le buf v = buf @ map (\<lambda>i. ucast (drop_bit (i * 8) v AND 0xFF)) [0..<4]"

definition append_u64_le :: "u8 list \<Rightarrow> u64 \<Rightarrow> u8 list" where
  "append_u64_le buf v = buf @ map (\<lambda>i. ucast (drop_bit (i * 8) v AND 0xFF)) [0..<8]"

definition append_zeros :: "u8 list \<Rightarrow> nat \<Rightarrow> u8 list" where
  "append_zeros buf n = buf @ replicate n 0"

definition pad_to :: "u8 list \<Rightarrow> nat \<Rightarrow> u8 list" where
  "pad_to buf align =
     (let misalign = length buf mod align in if misalign \<noteq> 0 then append_zeros buf (align - misalign) else buf)"

text \<open>The bytes of the struct, in the order of its fields.\<close>

definition append_cel_value :: "u8 list \<Rightarrow> cel_value \<Rightarrow> u8 list" where
  "append_cel_value buf v = append_u64_le (append_u64_le (append_u32_le (append_u32_le buf (cv_kind v)) (cv_pad v)) (cv_lo v)) (cv_hi v)"

subsection \<open>Frames\<close>

record static_memory_builder =
  smb_buf :: "u8 list"
  smb_base :: u32

definition new_builder :: "u32 \<Rightarrow> static_memory_builder option" where
  "new_builder base_offset = (if unat base_offset mod kAlign \<noteq> 0 then None else Some \<lparr>smb_buf = [], smb_base = base_offset\<rparr>)"

definition open_frame :: "u32 \<Rightarrow> static_memory_builder \<Rightarrow> (u32 \<times> static_memory_builder) option" where
  "open_frame kind b =
     (if length (smb_buf b) mod kAlign \<noteq> 0 then None
      else Some (word_of_nat (length (smb_buf b)), b\<lparr>smb_buf := append_u32_le (append_u32_le (smb_buf b) kind) 0\<rparr>))"

text \<open>The check that a frame is whole, and its address.\<close>

definition close_frame :: "u32 \<Rightarrow> static_memory_builder \<Rightarrow> (u32 \<times> static_memory_builder) option" where
  "close_frame local b = (if length (smb_buf b) - unat local \<noteq> kCelValueSize then None else Some (smb_base b + local, b))"

definition allocate_null :: "static_memory_builder \<Rightarrow> (u32 \<times> static_memory_builder) option" where
  "allocate_null b = do {
     (local, b) \<leftarrow> open_frame CEL_NULL b;
     close_frame local (b\<lparr>smb_buf := append_zeros (smb_buf b) 16\<rparr>)
   }"

definition allocate_bool :: "bool \<Rightarrow> static_memory_builder \<Rightarrow> (u32 \<times> static_memory_builder) option" where
  "allocate_bool v b = do {
     (local, b) \<leftarrow> open_frame CEL_BOOL b;
     close_frame local (b\<lparr>smb_buf := append_zeros (append_u32_le (smb_buf b) (if v then 1 else 0)) 12\<rparr>)
   }"

definition allocate_int :: "u64 \<Rightarrow> static_memory_builder \<Rightarrow> (u32 \<times> static_memory_builder) option" where
  "allocate_int v b = do {
     (local, b) \<leftarrow> open_frame CEL_INT b;
     close_frame local (b\<lparr>smb_buf := append_zeros (append_u64_le (smb_buf b) v) 8\<rparr>)
   }"

definition allocate_uint :: "u64 \<Rightarrow> static_memory_builder \<Rightarrow> (u32 \<times> static_memory_builder) option" where
  "allocate_uint v b = do {
     (local, b) \<leftarrow> open_frame CEL_UINT b;
     close_frame local (b\<lparr>smb_buf := append_zeros (append_u64_le (smb_buf b) v) 8\<rparr>)
   }"

definition allocate_double :: "u64 \<Rightarrow> static_memory_builder \<Rightarrow> (u32 \<times> static_memory_builder) option" where
  "allocate_double bits b = do {
     (local, b) \<leftarrow> open_frame CEL_DOUBLE b;
     close_frame local (b\<lparr>smb_buf := append_zeros (append_u64_le (smb_buf b) bits) 8\<rparr>)
   }"

definition allocate_span :: "u32 \<Rightarrow> u8 list \<Rightarrow> static_memory_builder \<Rightarrow> (u32 \<times> static_memory_builder) option" where
  "allocate_span kind bytes b = do {
     (local, b) \<leftarrow> open_frame kind b;
     let payload_abs = smb_base b + local + 24;
     let len = word_of_nat (length bytes);
     let buf = append_zeros (append_u32_le (append_u32_le (smb_buf b) payload_abs) len) 8;
     Some (smb_base b + local, b\<lparr>smb_buf := pad_to (buf @ bytes) kAlign\<rparr>)
   }"

definition allocate_string :: "u8 list \<Rightarrow> static_memory_builder \<Rightarrow> (u32 \<times> static_memory_builder) option" where
  "allocate_string = allocate_span CEL_STRING"
definition allocate_bytes :: "u8 list \<Rightarrow> static_memory_builder \<Rightarrow> (u32 \<times> static_memory_builder) option" where
  "allocate_bytes = allocate_span CEL_BYTES"
definition allocate_type :: "u8 list \<Rightarrow> static_memory_builder \<Rightarrow> (u32 \<times> static_memory_builder) option" where
  "allocate_type = allocate_span CEL_TYPE"

subsection \<open>Lists\<close>

record materialized_aggregate =
  agg_frame_offset :: u32
  agg_elements_offset :: u32
  agg_frame :: cel_value

text \<open>A frame whose payload starts with a header's address.\<close>

definition header_frame :: "u32 \<Rightarrow> u32 \<Rightarrow> static_memory_builder \<Rightarrow> (u32 \<times> static_memory_builder) option" where
  "header_frame kind header_abs b = do {
     (frame_local, b) \<leftarrow> open_frame kind b;
     close_frame frame_local (b\<lparr>smb_buf := append_zeros (append_u32_le (smb_buf b) header_abs) 12\<rparr>)
   }"

definition append_header :: "u8 list \<Rightarrow> u32 \<Rightarrow> u32 \<Rightarrow> u8 list" where
  "append_header buf n run_offset = append_u32_le (append_u32_le (append_u32_le (append_u32_le buf n) n) run_offset) 0"

definition materialize_list :: "cel_value list \<Rightarrow> static_memory_builder \<Rightarrow> (materialized_aggregate \<times> static_memory_builder) option" where
  "materialize_list elements b =
     (let n = word_of_nat (length elements) in
      if length (smb_buf b) mod kAlign \<noteq> 0 then None
      else (let header_local = word_of_nat (length (smb_buf b));
                run_local = header_local + 16;
                elements_offset = (if n = 0 then 0 else smb_base b + run_local);
                buf = append_header (smb_buf b) n elements_offset;
                header_abs = smb_base b + header_local in do {
        (frame_offset, b) \<leftarrow> header_frame CEL_LIST_ARENA header_abs (b\<lparr>smb_buf := foldl append_cel_value buf elements\<rparr>);
        Some (\<lparr>agg_frame_offset = frame_offset, agg_elements_offset = elements_offset,
               agg_frame = \<lparr>cv_kind = CEL_LIST_ARENA, cv_pad = 0, cv_lo = join32 header_abs 0, cv_hi = 0\<rparr>\<rparr>, b)
      }))"

subsection \<open>Staging the keys of a map\<close>

text \<open>\<open>cel_make_string\<close> and \<open>cel_make_bytes\<close> on bytes outside the linear memory.\<close>

definition make_span_bytes :: "u32 \<Rightarrow> u8 list \<Rightarrow> rt \<Rightarrow> (u32 \<times> rt) option" where
  "make_span_bytes kind src s =
     (let len = word_of_nat (length src) in
      if len > 0 then do {
        (data_off, s) \<leftarrow> arena_alloc len s;
        if data_off = 0 then Some (0, s)
        else make_cell (set_span kind data_off len) (s\<lparr>mem := store_bytes (mem s) (unat data_off) src\<rparr>)
      }
      else make_cell (set_span kind 0 len) s)"

definition stage_placement_key :: "cel_value \<Rightarrow> u8 list \<Rightarrow> u32 \<Rightarrow> rt \<Rightarrow> (cel_value option \<times> rt) option" where
  "stage_placement_key key buf base_offset s =
     (if cv_kind key \<noteq> CEL_STRING \<and> cv_kind key \<noteq> CEL_BYTES then Some (Some key, s)
      else (let abs_ptr = pl_s_ptr key; len = pl_s_len key in
        if abs_ptr < base_offset then None
        else (let local = abs_ptr - base_offset in
          if unat local + unat len > length buf then None
          else do {
            (off, s) \<leftarrow> make_span_bytes (if cv_kind key = CEL_STRING then CEL_STRING else CEL_BYTES)
              (take (unat len) (drop (unat local) buf)) s;
            if off = 0 then Some (None, s) else Some (Some (load_cv (mem s) (cel_value_at off)), s)
          })))"

fun stage_keys :: "cel_value list \<Rightarrow> u8 list \<Rightarrow> u32 \<Rightarrow> rt \<Rightarrow> (cel_value list option \<times> rt) option" where
  "stage_keys [] buf base_offset s = Some (Some [], s)"
| "stage_keys (key # keys) buf base_offset s = do {
     (sk, s) \<leftarrow> stage_placement_key key buf base_offset s;
     case sk of
       None \<Rightarrow> Some (None, s)
     | Some k \<Rightarrow> do {
         (staged, s) \<leftarrow> stage_keys keys buf base_offset s;
         Some (map_option ((#) k) staged, s)
       }
   }"

subsection \<open>Baking the index\<close>

definition index_ctrl_total_bytes :: "u32 \<Rightarrow> u32" where "index_ctrl_total_bytes num_slots = num_slots + (8 - 1)"
definition index_align_up_4 :: "u32 \<Rightarrow> u32" where "index_align_up_4 n = (n + 3) AND NOT 3"
definition index_slot_array_offset :: "u32 \<Rightarrow> u32" where
  "index_slot_array_offset num_slots = index_align_up_4 (index_ctrl_total_bytes num_slots)"
definition index_block_size :: "u32 \<Rightarrow> u32" where
  "index_block_size num_slots = index_slot_array_offset num_slots + num_slots * 4"

text \<open>
  The block is a vector of the compiler's process, its bytes by index; \<open>m\<close> is the memory the staged keys point into.
  The first loop asks whether a candidate lane holds an equal key.
\<close>

function baked_duplicate :: "memory \<Rightarrow> cel_value list \<Rightarrow> memory \<Rightarrow> nat \<Rightarrow> u32 \<Rightarrow> cel_value \<Rightarrow> u32 \<Rightarrow> u64 \<Rightarrow> bool" where
  "baked_duplicate m staged blk slots msk key seq match =
     (if match = 0 then False
      else (let lane = word_of_nat (ctz match div 8); slot = (seq + lane) AND msk in
        if cel_map_key_eq m (staged ! unat (load32 blk (slots + 4 * unat slot))) key then True
        else baked_duplicate m staged blk slots msk key seq (match AND (match - 1))))"
  by pat_completeness auto

termination baked_duplicate
  by (relation "measure (\<lambda>(m, staged, blk, slots, msk, key, seq, match). unat match)") (auto simp: clear_lowest_less)

declare baked_duplicate.simps [simp del]

partial_function (option) place_baked_loop ::
  "memory \<Rightarrow> cel_value list \<Rightarrow> nat \<Rightarrow> u32 \<Rightarrow> u32 \<Rightarrow> cel_value \<Rightarrow> u8 \<Rightarrow> memory \<Rightarrow> u32 \<Rightarrow> u32 \<Rightarrow> (bool \<times> memory) option" where
  [code]: "place_baked_loop m staged slots num_slots i key h2 blk seq step =
     (let msk = num_slots - 1;
          group = cel_group_load blk (unat seq) in
      if baked_duplicate m staged blk slots msk key seq (group_match group h2) then Some (False, blk)
      else (let empties = group_match_empty group in
        if empties \<noteq> 0 then
          (let lane = word_of_nat (ctz empties div 8); slot = (seq + lane) AND msk;
               b1 = blk(unat slot := h2);
               b2 = (if slot < 7 then b1(unat (slot + num_slots) := h2) else b1)
           in Some (True, store32 b2 (slots + 4 * unat slot) i))
        else place_baked_loop m staged slots num_slots i key h2 blk ((seq + step) AND msk) (step + 8)))"

definition place_baked_entry :: "memory \<Rightarrow> cel_value list \<Rightarrow> memory \<Rightarrow> nat \<Rightarrow> u32 \<Rightarrow> u32 \<Rightarrow> (bool \<times> memory) option" where
  "place_baked_entry m staged blk slots num_slots i =
     (let key = staged ! unat i;
          h = cel_map_key_hash m key;
          seq = ucast (cel_h1 h) AND (num_slots - 1)
      in place_baked_loop m staged slots num_slots i key (cel_h2 h) blk seq 8)"

function place_baked_all :: "memory \<Rightarrow> cel_value list \<Rightarrow> memory \<Rightarrow> nat \<Rightarrow> u32 \<Rightarrow> nat \<Rightarrow> (bool \<times> memory) option" where
  "place_baked_all m staged blk slots num_slots i =
     (if i < length staged then do {
        (placed, blk) \<leftarrow> place_baked_entry m staged blk slots num_slots (word_of_nat i);
        if \<not> placed then Some (False, blk) else place_baked_all m staged blk slots num_slots (i + 1)
      }
      else Some (True, blk))"
  by pat_completeness auto
termination by (relation "measure (\<lambda>(m, staged, blk, slots, n, i). length staged - i)") auto

declare place_baked_all.simps [simp del]

definition bake_index_block :: "memory \<Rightarrow> cel_value list \<Rightarrow> u32 \<Rightarrow> u8 list option option" where
  "bake_index_block m staged num_slots =
     (let block_bytes = unat (index_block_size num_slots);
          slots = unat (index_slot_array_offset num_slots);
          blk = store_bytes (\<lambda>_. 0) 0 (replicate (unat (index_ctrl_total_bytes num_slots)) kEmpty) in do {
      (ok, blk) \<leftarrow> place_baked_all m staged blk slots num_slots 0;
      Some (if ok then Some (bytes_at blk 0 block_bytes) else None)
    })"

subsection \<open>Maps\<close>

record map_index_decision =
  materializable :: bool
  decided_index :: "u8 list option"

fun has_duplicate :: "memory \<Rightarrow> cel_value list \<Rightarrow> bool" where
  "has_duplicate m [] = False"
| "has_duplicate m (k # ks) = (list_ex (cel_map_key_eq m k) ks \<or> has_duplicate m ks)"

abbreviation CELWASM_ARENA_CAPACITY_BYTES :: u32 where "CELWASM_ARENA_CAPACITY_BYTES \<equiv> 65536"

definition stage_and_decide_index ::
  "(cel_value \<times> cel_value) list \<Rightarrow> u8 list \<Rightarrow> u32 \<Rightarrow> rt \<Rightarrow> (map_index_decision \<times> rt) option" where
  "stage_and_decide_index entries buf base_offset s =
     (let n = word_of_nat (length entries) :: u32 in
      if n \<le> 1 then Some (\<lparr>materializable = True, decided_index = None\<rparr>, s)
      else do {
        s \<leftarrow> arena_init CELWASM_ARENA_CAPACITY_BYTES s;
        let s = arena_reset s;
        (staged, s) \<leftarrow> stage_keys (map fst entries) buf base_offset s;
        case staged of
          None \<Rightarrow> Some (\<lparr>materializable = False, decided_index = None\<rparr>, s)
        | Some ks \<Rightarrow>
            if n \<ge> kCelMapIndexThreshold then do {
              num_slots \<leftarrow> cel_map_index_num_slots n;
              baked \<leftarrow> bake_index_block (mem s) ks num_slots;
              Some (case baked of
                  None \<Rightarrow> \<lparr>materializable = False, decided_index = None\<rparr>
                | Some bs \<Rightarrow> \<lparr>materializable = True, decided_index = Some bs\<rparr>, s)
            }
            else if has_duplicate (mem s) ks then Some (\<lparr>materializable = False, decided_index = None\<rparr>, s)
            else Some (\<lparr>materializable = True, decided_index = None\<rparr>, s)
      })"

definition append_baked_index :: "u8 list \<Rightarrow> u32 \<Rightarrow> nat \<Rightarrow> u8 list option \<Rightarrow> (u32 \<times> u8 list) option" where
  "append_baked_index buf base_offset index_offset_field_local baked =
     (case baked of
        None \<Rightarrow> Some (0, buf)
      | Some bs \<Rightarrow>
          if length buf mod kAlign \<noteq> 0 then None
          else (let index_offset = base_offset + word_of_nat (length buf);
                    buf = pad_to (buf @ bs) kAlign
                in Some (index_offset,
                     foldl (\<lambda>buf i. buf[index_offset_field_local + i := ucast (drop_bit (i * 8) index_offset AND 0xFF)]) buf [0..<4])))"

record materialized_map =
  map_frame_offset :: u32
  map_entries_offset :: u32
  map_index_offset :: u32
  map_frame_cell :: cel_value

definition append_entry :: "u8 list \<Rightarrow> cel_value \<times> cel_value \<Rightarrow> u8 list" where
  "append_entry buf e = append_cel_value (append_cel_value buf (fst e)) (snd e)"

definition materialize_map ::
  "(cel_value \<times> cel_value) list \<Rightarrow> static_memory_builder \<Rightarrow> rt \<Rightarrow> (materialized_map option \<times> static_memory_builder \<times> rt) option" where
  "materialize_map entries b s = do {
     let n = word_of_nat (length entries);
     (decision, s) \<leftarrow> stage_and_decide_index entries (smb_buf b) (smb_base b) s;
     if \<not> materializable decision then Some (None, b, s)
     else if length (smb_buf b) mod kAlign \<noteq> 0 then None
     else do {
       let header_local = word_of_nat (length (smb_buf b));
       let run_local = header_local + 16;
       let entries_offset = (if n = 0 then 0 else smb_base b + run_local);
       let buf = append_header (smb_buf b) n entries_offset;
       (index_offset, buf) \<leftarrow> append_baked_index (foldl append_entry buf entries) (smb_base b) (unat (header_local + 12)) (decided_index decision);
       let header_abs = smb_base b + header_local;
       (frame_offset, b) \<leftarrow> header_frame CEL_MAP_ARENA header_abs (b\<lparr>smb_buf := buf\<rparr>);
       Some (Some \<lparr>map_frame_offset = frame_offset, map_entries_offset = entries_offset, map_index_offset = index_offset,
           map_frame_cell = \<lparr>cv_kind = CEL_MAP_ARENA, cv_pad = 0, cv_lo = join32 header_abs 0, cv_hi = 0\<rparr>\<rparr>, b, s)
     }
   }"

subsection \<open>What the bytes read back as\<close>

definition u32_le :: "u32 \<Rightarrow> u8 list" where "u32_le v = append_u32_le [] v"
definition u64_le :: "u64 \<Rightarrow> u8 list" where "u64_le v = append_u64_le [] v"
definition cell_le :: "cel_value \<Rightarrow> u8 list" where "cell_le v = append_cel_value [] v"

lemma append_le: "append_u32_le buf v = buf @ u32_le v" "append_u64_le buf x = buf @ u64_le x" "append_cel_value buf w = buf @ cell_le w"
  by (simp_all add: append_u32_le_def append_u64_le_def append_cel_value_def u32_le_def u64_le_def cell_le_def)

lemma cell_le: "cell_le v = u32_le (cv_kind v) @ u32_le (cv_pad v) @ u64_le (cv_lo v) @ u64_le (cv_hi v)"
  by (simp add: cell_le_def append_cel_value_def append_u32_le_def append_u64_le_def u32_le_def u64_le_def)

lemma length_le [simp]: "length (u32_le v) = 4" "length (u64_le x) = 8" "length (cell_le w) = 24"
  by (simp_all add: u32_le_def u64_le_def cell_le append_u32_le_def append_u64_le_def)

lemma byte_of_word: "ucast (w AND 0xFF :: u32) = (ucast w :: u8)" "ucast (x AND 0xFF :: u64) = (ucast x :: u8)"
proof -
  have m: "(0xFF :: u32) = mask 8" "(0xFF :: u64) = mask 8" by (simp_all add: mask_eq_exp_minus_1)
  show "ucast (w AND 0xFF :: u32) = (ucast w :: u8)" "ucast (x AND 0xFF :: u64) = (ucast x :: u8)"
    unfolding m by (rule bit_word_eqI, simp add: bit_simps)+
qed

lemma u32_le_bytes: "u32_le w = [ucast w, ucast (drop_bit 8 w), ucast (drop_bit 16 w), ucast (drop_bit 24 w)]"
  by (simp add: u32_le_def append_u32_le_def byte_of_word upt_rec numeral_eq_Suc)

lemma u64_le_split: "u64_le w = u32_le (ucast w) @ u32_le (ucast (drop_bit 32 w))"
proof -
  have e: "ucast (drop_bit k (ucast x :: u32)) = (ucast (drop_bit k x) :: u8)" if "k \<le> 24" for k and x :: u64
    using that by (intro bit_word_eqI) (simp add: bit_simps)
  show ?thesis
    by (simp add: u32_le_bytes u64_le_def append_u64_le_def byte_of_word upt_rec e e [of 0, simplified] drop_bit_drop_bit)
qed

lemma u64_le_join: "u64_le (join32 l h) = u32_le l @ u32_le h"
  using lo32_join [of l h] hi32_join [of l h] unfolding u64_le_split lo32_def hi32_def by simp

lemma u32_le_0: "u32_le 0 = replicate 4 0"
  by (simp add: u32_le_bytes numeral_eq_Suc)

lemma u64_le_0: "u64_le 0 = replicate 8 0"
  by (simp add: u64_le_split u32_le_0 numeral_eq_Suc)

lemma load32_le: "bytes_at m a 4 = u32_le v \<Longrightarrow> load32 m a = v"
proof -
  assume a: "bytes_at m a 4 = u32_le v"
  have "bytes_at (store32 m a v) a 4 = u32_le v" by (simp add: bytes_at_def store32_def u32_le_bytes upt_rec)
  then have "m (a + i) = store32 m a v (a + i)" if "i < 4" for i using a that bytes_at_nth by metis
  then show ?thesis using load32_cong [of m a "store32 m a v"] load32_store32 by metis
qed

lemma bytes_at_parts: "bytes_at m a n = xs @ ys \<Longrightarrow> bytes_at m a (length xs) = xs \<and> bytes_at m (a + length xs) (length ys) = ys"
proof -
  assume a: "bytes_at m a n = xs @ ys"
  then have n: "n = length xs + length ys" by (metis length_append length_bytes_at)
  then show ?thesis using a bytes_at_append [of m a "length xs" "length ys"] by simp
qed

lemma load64_le: "bytes_at m a 8 = u64_le v \<Longrightarrow> load64 m a = v"
proof -
  assume "bytes_at m a 8 = u64_le v"
  then have "load32 m a = ucast v" "load32 m (a + 4) = ucast (drop_bit 32 v)"
    using bytes_at_parts [of m a 8 "u32_le (ucast v)"] load32_le by (simp_all add: u64_le_split)
  then show ?thesis by (simp add: load64_def ucast_or_high_low)
qed

lemma load_cv_le: "bytes_at m a 24 = cell_le v \<Longrightarrow> load_cv m a = v"
proof -
  assume a: "bytes_at m a 24 = cell_le v"
  note s1 = bytes_at_parts [OF a [unfolded cell_le]]
  note s2 = bytes_at_parts [OF conjunct2 [OF s1]]
  note s3 = bytes_at_parts [OF conjunct2 [OF s2]]
  show ?thesis using s1 s2 s3 by (simp add: load_cv_def load32_le load64_le add.assoc)
qed

text \<open>A segment: memory that holds a buffer at its base, as the emitted data segment does.\<close>

definition segment :: "memory \<Rightarrow> u32 \<Rightarrow> u8 list \<Rightarrow> bool" where
  "segment m base buf \<longleftrightarrow> bytes_at m (unat base) (length buf) = buf"

lemma segment_at: "segment m base (pre @ mid @ post) \<Longrightarrow> bytes_at m (unat base + length pre) (length mid) = mid"
  unfolding segment_def using bytes_at_parts [of m _ _ pre "mid @ post"] bytes_at_parts [of m _ _ mid post] by blast

lemma segment_prefix: "segment m base (xs @ ys) \<Longrightarrow> segment m base xs"
  unfolding segment_def using bytes_at_parts by blast

lemma segment_loads:
  "segment m base (pre @ u32_le w @ post) \<Longrightarrow> load32 m (unat base + length pre) = w"
  "segment m base (pre @ cell_le v @ post) \<Longrightarrow> load_cv m (unat base + length pre) = v"
  using segment_at [of m base pre "u32_le w" post] segment_at [of m base pre "cell_le v" post] by (simp_all add: load32_le load_cv_le)

subsection \<open>Builders\<close>

definition builder_ok :: "static_memory_builder \<Rightarrow> bool" where
  "builder_ok b \<longleftrightarrow> unat (smb_base b) mod 8 = 0 \<and> length (smb_buf b) mod 8 = 0 \<and> unat (smb_base b) + length (smb_buf b) \<le> 2 ^ 32"

text \<open>A later state of the builder: everything written stays where it is.\<close>

definition grows :: "static_memory_builder \<Rightarrow> static_memory_builder \<Rightarrow> bool" where
  "grows b b' \<longleftrightarrow> builder_ok b' \<and> smb_base b' = smb_base b \<and> prefix (smb_buf b) (smb_buf b')"

definition room_for :: "nat \<Rightarrow> static_memory_builder \<Rightarrow> bool" where
  "room_for n b \<longleftrightarrow> unat (smb_base b) + length (smb_buf b) + n \<le> 2 ^ 32"

text \<open>Memory with the segment of a builder's last state.\<close>

definition loaded :: "static_memory_builder \<Rightarrow> memory \<Rightarrow> bool" where
  "loaded b m \<longleftrightarrow> (\<exists>last. grows b last \<and> segment m (smb_base last) (smb_buf last))"

definition next_address :: "static_memory_builder \<Rightarrow> u32" where
  "next_address b = smb_base b + word_of_nat (length (smb_buf b))"

lemma loaded_segment: "loaded b m \<Longrightarrow> segment m (smb_base b) (smb_buf b)"
  unfolding loaded_def grows_def by (metis prefixE segment_prefix)

lemma loaded_earlier: "grows b b' \<Longrightarrow> loaded b' m \<Longrightarrow> loaded b m"
  unfolding loaded_def grows_def by (metis prefix_order.trans)

lemma unat_address:
  assumes "unat base + k < 2 ^ 32"
  shows "unat (base + word_of_nat k :: u32) = unat base + k" "unat (word_of_nat k :: u32) = k"
  using assms by (simp_all add: unat_word_ariths unat_of_nat)

lemma unat_next_address: "room_for n b \<Longrightarrow> 0 < n \<Longrightarrow> unat (next_address b) = unat (smb_base b) + length (smb_buf b)"
  unfolding next_address_def room_for_def by (rule unat_address) simp

text \<open>Writing whole bytes at the end.\<close>

abbreviation append_bytes :: "static_memory_builder \<Rightarrow> u8 list \<Rightarrow> static_memory_builder" where
  "append_bytes b bs \<equiv> b\<lparr>smb_buf := smb_buf b @ bs\<rparr>"

lemma append_bytes_grows: "builder_ok b \<Longrightarrow> room_for (length bs) b \<Longrightarrow> length bs mod 8 = 0 \<Longrightarrow> grows b (append_bytes b bs)"
  by (auto simp: grows_def builder_ok_def room_for_def mod_add_eq [symmetric, of "length (smb_buf b)"])

lemma framed:
  assumes b: "builder_ok b" "room_for 24 b" and v: "u32_le kind @ u32_le 0 @ payload = cell_le v"
  shows "do { (local, b) \<leftarrow> open_frame kind b; close_frame local (b\<lparr>smb_buf := smb_buf b @ payload\<rparr>) } =
    Some (next_address b, append_bytes b (cell_le v))"
proof -
  have "length payload = 16" using arg_cong [OF v, of length] by simp
  moreover have "length (smb_buf b) < 2 ^ 32" using b(2) by (simp add: room_for_def)
  ultimately show ?thesis using b(1)
    by (simp add: open_frame_def close_frame_def builder_ok_def append_le v next_address_def unat_of_nat)
qed

lemma cell_le_of: "cell_le (cell_of k x) = u32_le k @ u32_le 0 @ u64_le x @ replicate 8 0"
  by (simp add: cell_le cell_of_def u64_le_0)

lemma u64_le_low: "u64_le (join32 w 0) = u32_le w @ replicate 4 0"
  by (simp add: u64_le_join u32_le_0)

lemma replicate_zeros: "replicate 4 x @ replicate 8 x = replicate 12 x" "replicate 8 x @ replicate 8 x = replicate 16 x"
  by (simp_all add: replicate_add [symmetric])

lemma scalar_frames:
  assumes b: "builder_ok b" "room_for 24 b"
  shows "allocate_null b = Some (next_address b, append_bytes b (cell_le (cell_of CEL_NULL 0)))"
    "allocate_bool x b = Some (next_address b, append_bytes b (cell_le (cell_of CEL_BOOL (if x then 1 else 0))))"
    "allocate_int i b = Some (next_address b, append_bytes b (cell_le (cell_of CEL_INT i)))"
    "allocate_uint u b = Some (next_address b, append_bytes b (cell_le (cell_of CEL_UINT u)))"
    "allocate_double d b = Some (next_address b, append_bytes b (cell_le (cell_of CEL_DOUBLE d)))"
    "header_frame kind hdr b = Some (next_address b, append_bytes b (cell_le (cell_of kind (join32 hdr 0))))"
proof -
  have j: "join32 0 0 = 0" "join32 1 0 = 1" by (simp_all add: join32_def)
  show "allocate_null b = Some (next_address b, append_bytes b (cell_le (cell_of CEL_NULL 0)))"
    unfolding allocate_null_def append_zeros_def by (rule framed [OF b]) (simp add: cell_le_of u64_le_0 replicate_zeros)
  show "allocate_bool x b = Some (next_address b, append_bytes b (cell_le (cell_of CEL_BOOL (if x then 1 else 0))))"
    unfolding allocate_bool_def append_zeros_def append_le append.assoc
    by (rule framed [OF b]) (use u64_le_low [of 0] u64_le_low [of 1] in \<open>simp add: cell_le_of j replicate_zeros\<close>)
  show "allocate_int i b = Some (next_address b, append_bytes b (cell_le (cell_of CEL_INT i)))"
    "allocate_uint u b = Some (next_address b, append_bytes b (cell_le (cell_of CEL_UINT u)))"
    "allocate_double d b = Some (next_address b, append_bytes b (cell_le (cell_of CEL_DOUBLE d)))"
    unfolding allocate_int_def allocate_uint_def allocate_double_def append_zeros_def append_le append.assoc
    by (rule framed [OF b], simp add: cell_le_of)+
  show "header_frame kind hdr b = Some (next_address b, append_bytes b (cell_le (cell_of kind (join32 hdr 0))))"
    unfolding header_frame_def append_zeros_def append_le append.assoc
    by (rule framed [OF b]) (simp add: cell_le_of u64_le_low replicate_zeros)
qed

definition padding :: "nat \<Rightarrow> nat" where
  "padding n = (if n mod 8 \<noteq> 0 then 8 - n mod 8 else 0)"

lemma pad_to_8: "pad_to buf 8 = buf @ replicate (padding (length buf)) 0"
  by (simp add: pad_to_def padding_def append_zeros_def Let_def)

lemma padding_mod: "(n + padding n) mod 8 = 0" "padding n < 8"
proof -
  show "padding n < 8" by (simp add: padding_def)
  have "n mod 8 < 8" by simp
  then show "(n + padding n) mod 8 = 0" by (simp add: padding_def mod_add_left_eq [of n 8, symmetric])
qed

definition span_frame :: "u32 \<Rightarrow> u8 list \<Rightarrow> static_memory_builder \<Rightarrow> u8 list" where
  "span_frame kind bs b = cell_le (cell_of kind (join32 (next_address b + 24) (word_of_nat (length bs)))) @ bs @ replicate (padding (length bs)) 0"

lemma allocate_span_eq:
  assumes b: "builder_ok b"
  shows "allocate_span kind bs b = Some (next_address b, append_bytes b (span_frame kind bs b))"
proof -
  obtain q where q: "length (smb_buf b) = 8 * q" using b unfolding builder_ok_def by (metis dvdE mod_0_imp_dvd)
  have "24 + length (smb_buf b) + length bs = length bs + 8 * (3 + q)" by (simp add: q)
  then have pad: "padding (24 + length (smb_buf b) + length bs) = padding (length bs)" unfolding padding_def by (metis mod_mult_self2)
  have "length (smb_buf b) mod 8 = 0" using b by (simp add: builder_ok_def)
  then have "allocate_span kind bs b = Some (next_address b, append_bytes b (u32_le kind @ u32_le 0 @ u32_le (next_address b + 24)
      @ u32_le (word_of_nat (length bs)) @ replicate 8 0 @ bs @ replicate (padding (24 + length (smb_buf b) + length bs)) 0))"
    by (simp add: allocate_span_def open_frame_def append_le append_zeros_def Let_def pad_to_8 next_address_def)
  then show ?thesis unfolding pad by (simp add: span_frame_def cell_le_of u64_le_join)
qed

lemma appended_cell:
  assumes "loaded (append_bytes b (cell_le v @ rest)) m" "room_for 24 b"
  shows "load_cv m (unat (next_address b)) = v"
  using segment_loads(2) [of m "smb_base b" "smb_buf b" v rest] loaded_segment [OF assms(1)] unat_next_address [OF assms(2)] by simp

text \<open>
  C35. What the compiler writes the runtime reads. Each allocation of the builder, in a well-formed state with room, returns an
  address and a well-formed later state, and in every memory that holds the segment of that or any later state the cell at the
  address is the constant: null, bool, int, uint or double with its payload, or a span of the kind whose bytes are the text.
\<close>

theorem static_frames_decode:
  assumes b: "builder_ok b" "room_for (32 + length bs) b"
  shows "(\<forall>(alloc, v) \<in> {(allocate_null, cell_of CEL_NULL 0), (allocate_bool x, cell_of CEL_BOOL (if x then 1 else 0)),
        (allocate_int i, cell_of CEL_INT i), (allocate_uint u, cell_of CEL_UINT u), (allocate_double d, cell_of CEL_DOUBLE d)}.
      \<exists>off b'. alloc b = Some (off, b') \<and> grows b b' \<and> (\<forall>m. loaded b' m \<longrightarrow> load_cv m (unat off) = v))
    \<and> (\<forall>(alloc, kind) \<in> {(allocate_string, CEL_STRING), (allocate_bytes, CEL_BYTES), (allocate_type, CEL_TYPE)}.
      \<exists>off b'. alloc bs b = Some (off, b') \<and> grows b b' \<and>
        (\<forall>m. loaded b' m \<longrightarrow> cv_kind (load_cv m (unat off)) = kind \<and> str_of m (load_cv m (unat off)) = bs))"
proof -
  have r: "room_for 24 b" using b(2) by (simp add: room_for_def)
  have scalar: "\<exists>off b'. Some (next_address b, append_bytes b (cell_le v)) = Some (off, b') \<and> grows b b'
      \<and> (\<forall>m. loaded b' m \<longrightarrow> load_cv m (unat off) = v)" for v
    using append_bytes_grows [OF b(1), of "cell_le v"] appended_cell [of b v "[]"] r by simp
  have span: "\<exists>off b'. allocate_span kind bs b = Some (off, b') \<and> grows b b' \<and>
        (\<forall>m. loaded b' m \<longrightarrow> cv_kind (load_cv m (unat off)) = kind \<and> str_of m (load_cv m (unat off)) = bs)" for kind
  proof -
    have len: "length (span_frame kind bs b) = 24 + (length bs + padding (length bs))" by (simp add: span_frame_def)
    have "room_for (length (span_frame kind bs b)) b" using b(2) padding_mod(2) [of "length bs"] by (simp add: len room_for_def)
    moreover have "length (span_frame kind bs b) mod 8 = 0" using padding_mod(1) [of "length bs"] unfolding len by presburger
    ultimately have g: "grows b (append_bytes b (span_frame kind bs b))" using b(1) by (intro append_bytes_grows)
    have "cv_kind (load_cv m (unat (next_address b))) = kind \<and> str_of m (load_cv m (unat (next_address b))) = bs"
      if l: "loaded (append_bytes b (span_frame kind bs b)) m" for m
    proof -
      have c: "load_cv m (unat (next_address b)) = cell_of kind (join32 (next_address b + 24) (word_of_nat (length bs)))"
        using appended_cell [OF _ r] l unfolding span_frame_def by blast
      have "bytes_at m (unat (smb_base b) + length (smb_buf b) + 24) (length bs) = bs"
        using segment_at [of m "smb_base b" "smb_buf b @ cell_le (cell_of kind (join32 (next_address b + 24) (word_of_nat (length bs))))" bs]
          loaded_segment [OF l] by (simp add: span_frame_def add.assoc)
      moreover have "unat (next_address b + 24) = unat (smb_base b) + length (smb_buf b) + 24" "unat (word_of_nat (length bs) :: u32) = length bs"
        using b(2) unat_next_address [OF r] by (simp_all add: room_for_def unat_word_ariths unat_of_nat)
      ultimately show ?thesis unfolding c by (simp add: cell_of_def span_bytes_def pl_s_ptr_def pl_s_len_def)
    qed
    then show ?thesis using g allocate_span_eq [OF b(1)] by blast
  qed
  show ?thesis
    unfolding allocate_string_def allocate_bytes_def allocate_type_def
    by (simp only: ball_simps prod.case scalar_frames [OF b(1) r]) (intro conjI TrueI scalar span)
qed

subsection \<open>A constant list is a list\<close>

lemma foldl_cells: "foldl append_cel_value buf vs = buf @ concat (map cell_le vs)"
  by (induction vs arbitrary: buf) (simp_all add: append_le)

lemma length_cells [simp]: "length (concat (map cell_le vs)) = 24 * length vs"
  by (induction vs) simp_all

lemma run_of_cells: "bytes_at m a (24 * length vs) = concat (map cell_le vs) \<Longrightarrow> run_at m a (length vs) = vs"
proof (induction vs arbitrary: a)
  case (Cons v vs)
  have b: "bytes_at m a 24 = cell_le v" "bytes_at m (a + 24) (24 * length vs) = concat (map cell_le vs)"
    using bytes_at_parts [of m a _ "cell_le v" "concat (map cell_le vs)"] Cons.prems by simp_all
  have "run_at m (a + 24) (length vs) = vs" by (rule Cons.IH [OF b(2)])
  moreover have "run_at m a (length (v # vs)) = load_cv m a # run_at m (a + 24) (length vs)"
    by (rule nth_equalityI) (auto simp: nth_Cons' algebra_simps)
  ultimately show ?case using load_cv_le [OF b(1)] by simp
qed simp

definition header_le :: "u32 \<Rightarrow> u32 \<Rightarrow> u32 \<Rightarrow> u8 list" where
  "header_le n run_offset index_offset = u32_le n @ u32_le n @ u32_le run_offset @ u32_le index_offset"

lemma append_header_eq: "append_header buf n r = buf @ header_le n r 0"
  by (simp add: append_header_def append_le header_le_def)

lemma length_header_le [simp]: "length (header_le n r x) = 16"
  by (simp add: header_le_def)

lemma header_words:
  assumes "segment m base (pre @ header_le n r x @ post)"
  shows "load32 m (unat base + length pre) = n" "load32 m (unat base + length pre + 4) = n"
    "load32 m (unat base + length pre + 8) = r" "load32 m (unat base + length pre + 12) = x"
  using assms segment_loads(1) [of m base pre n] segment_loads(1) [of m base "pre @ u32_le n" n]
    segment_loads(1) [of m base "pre @ u32_le n @ u32_le n" r] segment_loads(1) [of m base "pre @ u32_le n @ u32_le n @ u32_le r" x post]
  by (simp_all add: header_le_def add.assoc)

definition run_address :: "'a list \<Rightarrow> static_memory_builder \<Rightarrow> u32" where
  "run_address xs b = (if xs = [] then 0 else next_address b + 16)"

definition aggregate_frame :: "u32 \<Rightarrow> static_memory_builder \<Rightarrow> cel_value" where
  "aggregate_frame kind b = cell_of kind (join32 (next_address b) 0)"

definition list_image :: "cel_value list \<Rightarrow> static_memory_builder \<Rightarrow> u8 list" where
  "list_image vs b = header_le (word_of_nat (length vs)) (run_address vs b) 0 @ concat (map cell_le vs)"

lemma append_bytes_append: "append_bytes (append_bytes b xs) ys = append_bytes b (xs @ ys)"
  by simp

lemma materialize_list_eq:
  assumes b: "builder_ok b" "room_for (40 + 24 * length vs) b"
  shows "materialize_list vs b =
    Some (\<lparr>agg_frame_offset = next_address (append_bytes b (list_image vs b)), agg_elements_offset = run_address vs b,
       agg_frame = aggregate_frame CEL_LIST_ARENA b\<rparr>, append_bytes b (list_image vs b @ cell_le (aggregate_frame CEL_LIST_ARENA b)))"
proof -
  have n: "word_of_nat (length vs) = (0 :: u32) \<longleftrightarrow> vs = []"
    using b(2) unat_address(2) [of 0 "length vs"] by (cases vs) (auto simp: room_for_def)
  have l: "length (list_image vs b) = 16 + 24 * length vs" by (simp add: list_image_def)
  have m: "builder_ok (append_bytes b (list_image vs b))" "room_for 24 (append_bytes b (list_image vs b))"
    using append_bytes_grows [OF b(1), of "list_image vs b"] b(2) unfolding grows_def l by (simp_all add: room_for_def l mod_mult_left_eq [of 24, symmetric])
  show ?thesis
    using b(1) scalar_frames(6) [OF m, of CEL_LIST_ARENA "next_address b"]
    by (cases "vs = []") (simp_all add: materialize_list_def builder_ok_def Let_def append_header_eq foldl_cells n run_address_def
        list_image_def next_address_def aggregate_frame_def cell_of_def add.assoc)
qed

text \<open>A segment below the runtime's own memory.\<close>

definition below_runtime :: "static_memory_builder \<Rightarrow> bool" where
  "below_runtime b \<longleftrightarrow> unat (smb_base b) + length (smb_buf b) \<le> CELWASM_RESERVED_LOW_MEMORY_BYTES"

text \<open>
  A constant list is a list of the runtime. Materializing elements, in a well-formed builder with room, publishes a frame,
  and in every runtime state whose memory holds the segment below the runtime's own memory the frame is a well-formed arena
  list of exactly those elements: the shape every list kernel is proved correct for. The returned copy of the frame is its cell.
\<close>

theorem materialized_list_is_list:
  assumes b: "builder_ok b" "room_for (40 + 24 * length vs) b"
  shows "\<exists>agg b'. materialize_list vs b = Some (agg, b') \<and> grows b b' \<and>
    (\<forall>s. loaded b' (mem s) \<and> below_runtime b' \<longrightarrow>
       list_ok s (agg_frame_offset agg) \<and> list_of s (agg_frame_offset agg) = vs \<and> cv s (agg_frame_offset agg) = agg_frame agg)"
proof -
  define b1 b' where "b1 = append_bytes b (list_image vs b)" and "b' = append_bytes b (list_image vs b @ cell_le (aggregate_frame CEL_LIST_ARENA b))"
  define H n where "H = unat (smb_base b) + length (smb_buf b)" and "n = length vs"
  have len: "length (list_image vs b) = 16 + 24 * n" by (simp add: list_image_def n_def)
  have g: "grows b b'" unfolding b'_def by (rule append_bytes_grows [OF b(1)]) (use b(2) in \<open>simp_all add: len n_def room_for_def\<close>)
  have r: "room_for 24 b1" using b(2) by (simp add: b1_def len n_def room_for_def)
  have off: "unat (next_address b1) = H + 16 + 24 * n" using unat_next_address [OF r] by (simp add: b1_def len H_def)
  have hdr: "unat (next_address b) = H" unfolding H_def by (rule unat_next_address [OF b(2)]) simp
  have run: "unat (run_address vs b) = (if vs = [] then 0 else H + 16)"
    using b(2) hdr by (auto simp: run_address_def room_for_def H_def unat_word_ariths neq_Nil_conv)
  have nn: "unat (word_of_nat (length vs) :: u32) = n" unfolding n_def by (rule unat_address(2) [of 0]) (use b(2) in \<open>simp add: room_for_def\<close>)
  have "list_ok s (next_address b1) \<and> list_of s (next_address b1) = vs \<and> cv s (next_address b1) = aggregate_frame CEL_LIST_ARENA b"
    if l: "loaded b' (mem s)" and low: "below_runtime b'" for s
  proof -
    have seg: "segment (mem s) (smb_base b) (smb_buf b @ header_le (word_of_nat (length vs)) (run_address vs b) 0 @
        concat (map cell_le vs) @ cell_le (aggregate_frame CEL_LIST_ARENA b))"
      using loaded_segment [OF l] by (simp add: b'_def list_image_def)
    note w = header_words [OF seg, folded H_def]
    have c: "cv s (next_address b1) = aggregate_frame CEL_LIST_ARENA b"
      using appended_cell [of b1 _ "[]", OF _ r] l by (simp add: b1_def b'_def cel_value_at_def append_bytes_append)
    have h: "list_hdr s (next_address b1) = H" by (simp add: list_hdr_def c arena_list_header_def aggregate_frame_def cell_of_def pl_header_ptr_def hdr)
    have f: "list_room s (next_address b1) = n" "unat (list_count (mem s) H) = n" "list_run s (next_address b1) = (if vs = [] then 0 else H + 16)"
      by (simp_all add: list_room_def list_run_def h list_capacity_def list_count_def list_elements_def w nn run)
    have "bytes_at (mem s) (H + 16) (24 * length vs) = concat (map cell_le vs)"
      using segment_at [of "mem s" "smb_base b" "smb_buf b @ header_le (word_of_nat (length vs)) (run_address vs b) 0" "concat (map cell_le vs)"] seg
      by (simp add: H_def add.assoc)
    then have "list_of s (next_address b1) = vs" using run_of_cells by (simp add: list_of_def h f n_def)
    moreover have "list_ok s (next_address b1)"
    proof -
      have k: "cv_kind (cv s (next_address b1)) = CEL_LIST_ARENA" by (simp only: c) (simp add: aggregate_frame_def cell_of_def)
      have "H + 40 + 24 * n \<le> 262144" using low by (simp add: below_runtime_def b'_def len H_def)
      then show ?thesis unfolding list_ok_def h f k using off by (auto simp: apart_def cel_value_at_def n_def intro!: low_kept)
    qed
    ultimately show ?thesis using c by simp
  qed
  then show ?thesis using g materialize_list_eq [OF b] unfolding b1_def [symmetric] b'_def [symmetric] by auto
qed

subsection \<open>The baked index is the runtime's\<close>

text \<open>
  Staged keys and the entries of a map in a memory \<open>M\<close> with the same scalars; the vector's bytes and the block at \<open>c\<close> in \<open>M\<close>.
  Placing on one side does what placing on the other does.
\<close>

lemma index_geometry: "index_ctrl_total_bytes = ctrl_total_bytes" "index_slot_array_offset = slot_array_offset_from_ctrl"
  "index_block_size = index_block_bytes"
  by (simp_all add: fun_eq_iff index_ctrl_total_bytes_def ctrl_total_bytes_def index_slot_array_offset_def slot_array_offset_from_ctrl_def
      index_align_up_4_def align_up_4_def index_block_size_def index_block_bytes_def)

definition key_sim :: "memory \<Rightarrow> cel_value list \<Rightarrow> memory \<Rightarrow> nat \<Rightarrow> scalar list \<Rightarrow> bool" where
  "key_sim m staged M hdr ks \<longleftrightarrow> keyed M hdr ks \<and> map (scalar_of m) staged = map Some ks"

definition block_sim :: "memory \<Rightarrow> nat \<Rightarrow> memory \<Rightarrow> nat \<Rightarrow> bool" where
  "block_sim M c blk w \<longleftrightarrow> (\<forall>j<w. M (c + j) = blk j)"

definition entries_below :: "memory \<Rightarrow> nat \<Rightarrow> nat \<Rightarrow> nat \<Rightarrow> bool" where
  "entries_below blk so k n \<longleftrightarrow> (\<forall>j < 2 ^ k. unat (load32 blk (so + 4 * j)) < n)"

lemma key_sim_scalar: "key_sim m staged M hdr ks \<Longrightarrow> i < length ks \<Longrightarrow> scalar_of m (staged ! i) = Some (ks ! i)"
  unfolding key_sim_def by (metis length_map nth_map)

lemma key_sim_eq:
  assumes s: "key_sim m staged M hdr ks" and e: "unat e < length ks" and k: "scalar_of M keyM = scalar_of m keym"
  shows "cel_map_key_eq M (load_cv M (index_map_entry_key M hdr e)) keyM \<longleftrightarrow> cel_map_key_eq m (staged ! unat e) keym"
proof -
  have "scalar_of M (load_cv M (index_map_entry_key M hdr e)) = Some (ks ! unat e)"
    using s e unfolding key_sim_def keyed_def by (metis word_of_nat_unat_u32)
  then show ?thesis using key_sim_scalar [OF s e] k by (simp add: cel_map_key_eq_iff)
qed

lemma block_sim_load32: "block_sim M c blk w \<Longrightarrow> a + 4 \<le> w \<Longrightarrow> load32 M (c + a) = load32 blk a"
  using load32_cong [of "\<lambda>x. M (c + x)" a blk] by (simp add: block_sim_def load32_def add.assoc)

lemma block_sim_group: "block_sim M c blk w \<Longrightarrow> a + 8 \<le> w \<Longrightarrow> cel_group_load M (c + a) = cel_group_load blk a"
  using block_sim_load32 [of M c blk w a] block_sim_load32 [of M c blk w "a + 4"]
  by (simp add: cel_group_load_def load64_def add.assoc)

lemma block_sim_upd: "block_sim M c blk w \<Longrightarrow> block_sim (M(c + a := x)) c (blk(a := x)) w"
  by (simp add: block_sim_def)

lemma block_sim_store32: "block_sim M c blk w \<Longrightarrow> block_sim (store32 M (c + a) x) c (store32 blk a x) w"
  unfolding store32_def by (simp only: add.assoc block_sim_upd)

lemma masked_slot: "k \<le> 31 \<Longrightarrow> unat ((x :: u32) AND (2 ^ k - 1)) < 2 ^ k"
  by (simp add: mask_and)

lemma candidates_sim:
  assumes s: "key_sim m staged M hdr ks" and b: "block_sim M c blk (so + 4 * 2 ^ k)" "entries_below blk so k (length ks)"
    and key: "scalar_of M keyM = scalar_of m keym" and k: "k \<le> 31"
  shows "index_candidates M hdr (c + so) (2 ^ k - 1) keyM seq match = None \<longleftrightarrow> \<not> baked_duplicate m staged blk so (2 ^ k - 1) keym seq match"
proof (induction "unat match" arbitrary: match rule: less_induct)
  case less
  let ?slot = "(seq + word_of_nat (ctz match div 8)) AND (2 ^ k - 1 :: u32)"
  let ?e = "load32 blk (so + 4 * unat ?slot)"
  have sl: "unat ?slot < 2 ^ k" by (rule masked_slot [OF k])
  have e: "load32 M (c + so + 4 * unat ?slot) = ?e"
    using block_sim_load32 [OF b(1), of "so + 4 * unat ?slot"] sl by (simp add: add.assoc)
  have lt: "unat ?e < length ks" using b(2) sl by (simp add: entries_below_def)
  show ?case
  proof (cases "match = 0")
    case True
    then show ?thesis by (simp add: index_candidates.simps [of M hdr "c + so"] baked_duplicate.simps [of m staged blk so])
  next
    case False
    note u = index_candidates.simps [of M hdr "c + so" "2 ^ k - 1" keyM seq match] baked_duplicate.simps [of m staged blk so "2 ^ k - 1" keym seq match]
    show ?thesis
      using False key_sim_eq [OF s lt key] less [OF clear_lowest_less [OF False]] unfolding u Let_def by (simp add: e)
  qed
qed

lemma place_slot_sim:
  assumes b: "block_sim M c blk (so + 4 * 2 ^ k)" "entries_below blk so k n" and lay: "2 ^ k + 7 \<le> so" "k \<le> 29"
    and slot: "unat (slot :: u32) < 2 ^ k" and i: "unat i < n"
  shows "block_sim (store32 (if slot < 7 then M(c + unat slot := h2, c + unat (slot + 2 ^ k) := h2) else M(c + unat slot := h2)) (c + so + 4 * unat slot) i) c
      (store32 (if slot < 7 then blk(unat slot := h2, unat (slot + 2 ^ k) := h2) else blk(unat slot := h2)) (so + 4 * unat slot) i) (so + 4 * 2 ^ k)"
    and "entries_below (store32 (if slot < 7 then blk(unat slot := h2, unat (slot + 2 ^ k) := h2) else blk(unat slot := h2)) (so + 4 * unat slot) i) so k n"
proof -
  show "block_sim (store32 (if slot < 7 then M(c + unat slot := h2, c + unat (slot + 2 ^ k) := h2) else M(c + unat slot := h2)) (c + so + 4 * unat slot) i) c
      (store32 (if slot < 7 then blk(unat slot := h2, unat (slot + 2 ^ k) := h2) else blk(unat slot := h2)) (so + 4 * unat slot) i) (so + 4 * 2 ^ k)"
    unfolding add.assoc by (rule block_sim_store32) (auto intro: block_sim_upd b(1))
  have low: "unat slot < so" using slot lay(1) by simp
  have clone: "unat (slot + 2 ^ k) < so" if "slot < 7"
  proof -
    have "unat slot < 7" using that by (simp add: word_less_nat_alt)
    moreover have "(2 :: nat) ^ k \<le> 2 ^ 29" using lay(2) by (intro power_increasing) simp_all
    moreover have "unat (2 ^ k :: u32) = 2 ^ k" using unat_slots(2) [of k] lay(2) by simp
    ultimately show ?thesis using lay(1) by (simp add: unat_word_ariths)
  qed
  show "entries_below (store32 (if slot < 7 then blk(unat slot := h2, unat (slot + 2 ^ k) := h2) else blk(unat slot := h2)) (so + 4 * unat slot) i) so k n"
    unfolding entries_below_def
  proof (intro allI impI)
    fix j :: nat assume j: "j < 2 ^ k"
    let ?b = "if slot < 7 then blk(unat slot := h2, unat (slot + 2 ^ k) := h2) else blk(unat slot := h2)"
    show "unat (load32 (store32 ?b (so + 4 * unat slot) i) (so + 4 * j)) < n"
    proof (cases "j = unat slot")
      case True
      then show ?thesis using i by (simp add: mem_simps)
    next
      case False
      have "load32 (store32 ?b (so + 4 * unat slot) i) (so + 4 * j) = load32 blk (so + 4 * j)"
      proof (rule load32_cong)
        fix y :: nat assume "y < 4"
        then have "so + 4 * j + y < so + 4 * unat slot \<or> so + 4 * unat slot + 4 \<le> so + 4 * j + y" using False by linarith
        then show "store32 ?b (so + 4 * unat slot) i (so + 4 * j + y) = blk (so + 4 * j + y)"
          using low clone by (auto simp: store32_frame)
      qed
      then show ?thesis using b(2) j by (simp add: entries_below_def)
    qed
  qed
qed

definition place_simulated ::
  "memory \<Rightarrow> cel_value list \<Rightarrow> cel_value \<Rightarrow> memory \<Rightarrow> nat \<Rightarrow> nat \<Rightarrow> nat \<Rightarrow> scalar list \<Rightarrow> memory \<Rightarrow> nat \<Rightarrow> nat \<Rightarrow> nat \<Rightarrow> u32 \<Rightarrow> u32 \<Rightarrow> cel_value \<Rightarrow> u8 \<Rightarrow> u32 \<Rightarrow> u32 \<Rightarrow>
   bool \<times> memory \<Rightarrow> bool" where
  "place_simulated m staged keym blk c so k ks M hdr ctrl sl ns i keyM h2 seq step r \<longleftrightarrow>
    (ctrl = c \<longrightarrow> sl = c + so \<longrightarrow> ns = 2 ^ k \<longrightarrow> 2 ^ k + 7 \<le> so \<longrightarrow> k \<le> 29 \<longrightarrow> scalar_of M keyM = scalar_of m keym \<longrightarrow>
    key_sim m staged M hdr ks \<longrightarrow> block_sim M c blk (so + 4 * 2 ^ k) \<longrightarrow> entries_below blk so k (length ks) \<longrightarrow>
    unat seq < 2 ^ k \<longrightarrow> unat i < length ks \<longrightarrow>
    (\<exists>blk'. place_baked_loop m staged so (2 ^ k) i keym h2 blk seq step = Some (fst r, blk') \<and>
       block_sim (snd r) c blk' (so + 4 * 2 ^ k) \<and> entries_below blk' so k (length ks)))"

lemma place_loop_sim:
  "index_place_loop M hdr ctrl sl ns i keyM h2 seq step = Some r \<Longrightarrow>
   place_simulated m staged keym blk c so k ks M hdr ctrl sl ns i keyM h2 seq step r"
proof (rule index_place_loop.raw_induct [of "place_simulated m staged keym blk c so k ks" M hdr ctrl sl ns i keyM h2 seq step r])
  fix f M hdr ctrl sl ns i keyM h2 seq step r
  assume IH: "\<And>M hdr ctrl sl ns i keyM h2 seq step r. f M hdr ctrl sl ns i keyM h2 seq step = Some r \<Longrightarrow>
      place_simulated m staged keym blk c so k ks M hdr ctrl sl ns i keyM h2 seq step r"
    and run: "(let msk = ns - 1; group = cel_group_load M (ctrl + unat seq) in
      case index_candidates M hdr sl msk keyM seq (group_match group h2) of
        Some entry \<Rightarrow> Some (False, M)
      | None \<Rightarrow>
          (let empties = group_match_empty group in
           if empties \<noteq> 0 then
             (let lane = word_of_nat (ctz empties div 8); slot = (seq + lane) AND msk;
                  m1 = M(ctrl + unat slot := h2);
                  m2 = (if slot < 7 then m1(ctrl + unat (slot + ns) := h2) else m1)
              in Some (True, store32 m2 (sl + 4 * unat slot) i))
           else f M hdr ctrl sl ns i keyM h2 ((seq + step) AND msk) (step + 8))) = Some r"
  show "place_simulated m staged keym blk c so k ks M hdr ctrl sl ns i keyM h2 seq step r"
    unfolding place_simulated_def
  proof (intro impI)
    assume a: "ctrl = c" "sl = c + so" "ns = 2 ^ k" "2 ^ k + 7 \<le> so" "k \<le> 29" "scalar_of M keyM = scalar_of m keym"
      "key_sim m staged M hdr ks" "block_sim M c blk (so + 4 * 2 ^ k)" "entries_below blk so k (length ks)"
      "unat seq < 2 ^ k" "unat i < length ks"
    have k31: "k \<le> 31" using a(5) by simp
    have "unat seq + 8 \<le> so + 4 * 2 ^ k" using a(4,10) by simp
    then have grp: "cel_group_load M (c + unat seq) = cel_group_load blk (unat seq)" by (rule block_sim_group [OF a(8)])
    note cand = candidates_sim [OF a(7,8,9,6) k31, of seq "group_match (cel_group_load blk (unat seq)) h2"]
    note body = run [unfolded a(1-3) grp Let_def]
    let ?dup = "baked_duplicate m staged blk so (2 ^ k - 1) keym seq (group_match (cel_group_load blk (unat seq)) h2)"
    let ?em = "group_match_empty (cel_group_load blk (unat seq))"
    note unroll = place_baked_loop.simps [of m staged so "2 ^ k" i keym h2 blk seq step, unfolded Let_def]
    show "\<exists>blk'. place_baked_loop m staged so (2 ^ k) i keym h2 blk seq step = Some (fst r, blk') \<and>
       block_sim (snd r) c blk' (so + 4 * 2 ^ k) \<and> entries_below blk' so k (length ks)"
    proof (cases ?dup)
      case True
      then have "r = (False, M)" using cand body by (auto split: option.splits)
      then show ?thesis using True a(8,9) unroll by simp
    next
      case False
      then have none: "index_candidates M hdr (c + so) (2 ^ k - 1) keyM seq (group_match (cel_group_load blk (unat seq)) h2) = None" using cand by simp
      show ?thesis
      proof (cases "?em = 0")
        case True
        have "f M hdr c (c + so) (2 ^ k) i keyM h2 ((seq + step) AND (2 ^ k - 1)) (step + 8) = Some r"
          using body none True by simp
        from IH [OF this, unfolded place_simulated_def] a masked_slot [OF k31, of "seq + step"] show ?thesis using unroll False True by simp
      next
        case em: False
        let ?slot = "(seq + word_of_nat (ctz ?em div 8)) AND (2 ^ k - 1 :: u32)"
        note sim = place_slot_sim [OF a(8,9,4,5) masked_slot [OF k31, of "seq + word_of_nat (ctz ?em div 8)"] a(11), of h2]
        have "r = (True, store32 (if ?slot < 7 then M(c + unat ?slot := h2, c + unat (?slot + 2 ^ k) := h2) else M(c + unat ?slot := h2)) (c + so + 4 * unat ?slot) i)"
          using body none em by simp
        then show ?thesis using sim unroll False em by simp
      qed
    qed
  qed
qed

lemma place_entry_sim:
  assumes run: "index_place_entry M hdr c (c + so) (2 ^ k) (word_of_nat p) = Some r" and p: "p < length ks" "length ks < 2 ^ 32"
    and s: "key_sim m staged M hdr ks" and b: "block_sim M c blk (so + 4 * 2 ^ k)" "entries_below blk so k (length ks)"
    and lay: "2 ^ k + 7 \<le> so" "k \<le> 29"
  shows "\<exists>blk'. place_baked_entry m staged blk so (2 ^ k) (word_of_nat p) = Some (fst r, blk') \<and>
       block_sim (snd r) c blk' (so + 4 * 2 ^ k) \<and> entries_below blk' so k (length ks)"
proof -
  let ?keyM = "load_cv M (index_map_entry_key M hdr (word_of_nat p))" and ?keym = "staged ! p"
  have u: "unat (word_of_nat p :: u32) = p" using p by (simp add: unat_of_nat)
  have sc: "scalar_of M ?keyM = Some (ks ! p)" "scalar_of m ?keym = Some (ks ! p)"
    using s p(1) key_sim_scalar [OF s p(1)] by (simp_all add: key_sim_def keyed_def)
  then have h: "cel_map_key_hash M ?keyM = scalar_hash (ks ! p)" "cel_map_key_hash m ?keym = scalar_hash (ks ! p)"
    by (simp_all add: key_hash_scalar)
  have k31: "k \<le> 31" using lay(2) by simp
  note sim = place_loop_sim [OF run [unfolded index_place_entry_def Let_def h(1)], of m staged ?keym blk c so k ks, unfolded place_simulated_def]
  show ?thesis
    using sim lay sc s b masked_slot [OF k31] p(1) by (simp add: place_baked_entry_def Let_def h(2) u)
qed

lemma place_all_sim:
  assumes lay: "so = 2 ^ k + 8" "3 \<le> k" "k \<le> 29" "length ks < 2 ^ k"
  shows "p \<le> length ks \<Longrightarrow> key_sim m staged M hdr ks \<Longrightarrow> keys_ranges (\<lambda>a n. apart a n c (so + 4 * 2 ^ k)) M hdr (length ks) \<Longrightarrow>
    index_ok M c (c + so) k (take p ks) \<Longrightarrow> distinct (take p ks) \<Longrightarrow>
    block_sim M c blk (so + 4 * 2 ^ k) \<Longrightarrow> entries_below blk so k (length ks) \<Longrightarrow>
    \<exists>blk' M'. place_baked_all m staged blk so (2 ^ k) p = Some (distinct ks, blk') \<and> block_sim M' c blk' (so + 4 * 2 ^ k)
      \<and> (distinct ks \<longrightarrow> index_ok M' c (c + so) k ks) \<and> same_outside c (so + 4 * 2 ^ k) M M'"
proof (induction "length ks - p" arbitrary: p M blk)
  case 0
  then have "length ks = p" by simp
  moreover have "length staged = length ks" using 0 unfolding key_sim_def by (metis length_map)
  ultimately show ?case using 0 by (intro exI [of _ blk] exI [of _ M]) (simp add: place_baked_all.simps [of m staged blk so])
next
  case (Suc d)
  have p: "p < length ks" using Suc.hyps(2) by simp
  have len: "length staged = length ks" using Suc.prems(2) unfolding key_sim_def by (metis length_map)
  have lay': "c + (2 ^ k + 7) \<le> c + so" "3 \<le> k" "k \<le> 31" "length ks \<le> 2 ^ k" "2 ^ k + 7 \<le> so" using lay by simp_all
  have kd: "keyed M hdr ks" and n32: "length ks < 2 ^ 32" using Suc.prems(2) by (simp_all add: key_sim_def keyed_def)
  note e = index_place_entry_correct [OF Suc.prems(4) kd p lay'(1-4)]
  note unroll = place_baked_all.simps [of m staged blk so "2 ^ k" p]
  show ?case
  proof (cases "ks ! p \<in> set (take p ks)")
    case True
    have "\<not> distinct ks"
    proof
      assume "distinct ks"
      then have "distinct (take (Suc p) ks)" by (rule distinct_take)
      then show False using True p by (simp add: take_Suc_conv_app_nth)
    qed
    moreover obtain blk' where "place_baked_entry m staged blk so (2 ^ k) (word_of_nat p) = Some (False, blk')"
      "block_sim M c blk' (so + 4 * 2 ^ k)"
      using place_entry_sim [OF _ p n32 Suc.prems(2,6,7) lay'(5) lay(3)] e True by fastforce
    ultimately show ?thesis using p len by (auto simp: unroll)
  next
    case False
    then obtain M' where M': "index_place_entry M hdr c (c + so) (2 ^ k) (word_of_nat p) = Some (True, M')"
      "index_ok M' c (c + so) k (take (Suc p) ks)" "same_outside c (so + 4 * 2 ^ k) M M'" using e by auto
    obtain blk' where blk': "place_baked_entry m staged blk so (2 ^ k) (word_of_nat p) = Some (True, blk')"
      "block_sim M' c blk' (so + 4 * 2 ^ k)" "entries_below blk' so k (length ks)"
      using place_entry_sim [OF M'(1) p n32 Suc.prems(2,6,7) lay'(5) lay(3)] by auto
    have ag: "keys_ranges (agree M M') M hdr (length ks)"
      by (rule keys_ranges_mono [OF Suc.prems(3)]) (rule same_outside_agree [OF M'(3)])
    have "key_sim m staged M' hdr ks"
      using Suc.prems(2) keyed_agree(1) [OF kd ag order_refl] by (simp add: key_sim_def)
    moreover have "distinct (take (Suc p) ks)" using Suc.prems(5) False p by (simp add: take_Suc_conv_app_nth)
    moreover have "d = length ks - Suc p" "Suc p \<le> length ks" using Suc.hyps(2) by simp_all
    moreover note keys_ranges_agree [OF Suc.prems(3) ag]
    ultimately obtain blk2 M2 where M2: "place_baked_all m staged blk' so (2 ^ k) (Suc p) = Some (distinct ks, blk2)"
      "block_sim M2 c blk2 (so + 4 * 2 ^ k)" "distinct ks \<longrightarrow> index_ok M2 c (c + so) k ks" "same_outside c (so + 4 * 2 ^ k) M' M2"
      using Suc.hyps(1) [of "Suc p" M' blk'] M'(2) blk'(2,3) by blast
    have "same_outside c (so + 4 * 2 ^ k) M M2" using M'(3) M2(4) by (rule same_outside_trans)
    then show ?thesis using M2 blk'(1) p len by (auto simp: unroll)
  qed
qed

text \<open>The block: none exactly on a repeated key; and wherever its bytes lie beside the entries, they are an index of the keys.\<close>

lemma bake_index_block_correct:
  assumes s: "key_sim m staged M hdr ks" and k: "3 \<le> k" "k \<le> 29" "length ks < 2 ^ k" "ks \<noteq> []"
    and far: "keys_ranges (\<lambda>a n. apart a n c (2 ^ k + 8 + 4 * 2 ^ k)) M hdr (length ks)"
  shows "\<exists>res. bake_index_block m staged (2 ^ k) = Some res \<and> (res = None \<longleftrightarrow> \<not> distinct ks) \<and>
    (\<forall>bs. res = Some bs \<longrightarrow> length bs = 2 ^ k + 8 + 4 * 2 ^ k \<and> (bytes_at M c (length bs) = bs \<longrightarrow> index_ok M c (c + (2 ^ k + 8)) k ks))"
proof -
  define so N blk where "so = (2 :: nat) ^ k + 8" and "N = so + 4 * 2 ^ k" and "blk = store_bytes (\<lambda>_. 0) 0 (replicate (2 ^ k + 7) kEmpty)"
  define M0 where "M0 = store_bytes M c (bytes_at blk 0 N)"
  have geo: "unat (index_slot_array_offset (2 ^ k)) = so" "unat (index_ctrl_total_bytes (2 ^ k)) = 2 ^ k + 7" "unat (index_block_size (2 ^ k)) = N"
    using block_layout [OF k(1,2)] unfolding index_geometry so_def N_def by simp_all
  have o: "same_outside c N M M0" unfolding M0_def by (rule same_outside_store_bytes) simp_all
  have b0: "block_sim M0 c blk N" by (simp add: block_sim_def M0_def store_bytes_apply)
  have far': "keys_ranges (\<lambda>a n. apart a n c N) M hdr (length ks)" using far by (simp add: N_def so_def)
  have ag: "keys_ranges (agree M M0) M hdr (length ks)"
    by (rule keys_ranges_mono [OF far']) (rule same_outside_agree [OF o])
  have s0: "key_sim m staged M0 hdr ks" using s keyed_agree(1) [OF _ ag order_refl] by (simp add: key_sim_def)
  have far0: "keys_ranges (\<lambda>a n. apart a n c (so + 4 * 2 ^ k)) M0 hdr (length ks)"
    using keys_ranges_agree [OF far' ag] by (simp add: N_def)
  have e0: "entries_below blk so k (length ks)"
  proof -
    have "load32 blk (so + 4 * j) = 0" for j by (simp add: load32_def blk_def store_bytes_apply so_def)
    then show ?thesis using k(4) by (simp add: entries_below_def)
  qed
  have i0: "index_ok M0 c (c + so) k (take 0 ks)"
  proof -
    have "M0 (c + x) = kEmpty" if "x < 2 ^ k + 7" for x
      using b0 that by (simp add: block_sim_def N_def so_def) (simp add: blk_def store_bytes_apply nth_append)
    then show ?thesis using index_ok_empty by simp
  qed
  obtain blk' M' where r: "place_baked_all m staged blk so (2 ^ k) 0 = Some (distinct ks, blk')" "block_sim M' c blk' N"
    "distinct ks \<longrightarrow> index_ok M' c (c + so) k ks" "same_outside c N M0 M'"
    using place_all_sim [OF so_def k(1-3) _ s0 far0 i0 _ b0 [unfolded N_def] e0] unfolding N_def by auto
  have run: "bake_index_block m staged (2 ^ k) = Some (if distinct ks then Some (bytes_at blk' 0 N) else None)"
    using r(1) by (simp add: bake_index_block_def Let_def geo blk_def)
  have "index_ok M c (c + so) k ks" if d: "distinct ks" and at: "bytes_at M c N = bytes_at blk' 0 N"
  proof -
    have "M' = M"
    proof
      fix x
      show "M' x = M x"
      proof (cases "x < c \<or> c + N \<le> x")
        case True
        then show ?thesis using r(4) o by (auto simp: same_outside_def)
      next
        case False
        then obtain j where j: "x = c + j" "j < N" by (metis add_less_cancel_left le_Suc_ex not_le)
        then have "M (c + j) = blk' j" using arg_cong [OF at, of "\<lambda>l. l ! j"] by simp
        then show ?thesis using r(2) j by (simp add: block_sim_def)
      qed
    qed
    then show ?thesis using r(3) d by simp
  qed
  then show ?thesis unfolding run by (auto simp: so_def N_def)
qed

subsection \<open>Staged keys have the keys' values\<close>

lemma make_span_bytes_correct:
  assumes ok: "arena_ok s" and len: "length src < 2 ^ 32"
  shows "\<exists>off s'. make_span_bytes kind src s = Some (off, s') \<and> extends s s' \<and>
     (off \<noteq> 0 \<longrightarrow> span_result kind src s' (load_cv (mem s') (unat off)))"
proof -
  define n where "n = (word_of_nat (length src) :: u32)"
  have n: "length src = unat n" using unat_address(2) [of 0 "length src"] len by (simp add: n_def)
  show ?thesis
  proof (cases "n > 0")
    case False
    then have z: "n = 0" by (simp only: word_gt_0 simp_thms)
    then have "src = []" using n by simp
    then show ?thesis using make_span_cell [OF ok, of 0 n kind] False z by (auto simp: make_span_bytes_def n_def kept_range_def)
  next
    case True
    show ?thesis
    proof (cases rule: alloc_fill [OF ok n])
      case (1 s')
      then show ?thesis using True by (auto simp: make_span_bytes_def n_def [symmetric])
    next
      case (2 d s')
      let ?t = "s'\<lparr>mem := store_bytes (mem s') (unat d) src\<rparr>"
      have t: "arena_ok ?t" "kept_range ?t (unat d) (unat n)" using 2(3,5) by (simp_all add: extends_def)
      have "make_span_bytes kind src s = make_cell (set_span kind d n) ?t"
        using True 2(1,2) by (simp add: make_span_bytes_def n_def [symmetric])
      then show ?thesis using make_span_cell [OF t, of kind] extends_trans [OF 2(3)] 2(8) by auto
    qed
  qed
qed

definition key_in_builder :: "u8 list \<Rightarrow> u32 \<Rightarrow> cel_value \<Rightarrow> bool" where
  "key_in_builder buf base v \<longleftrightarrow> is_valid_map_key_kind (cv_kind v) \<and>
     (cv_kind v = CEL_STRING \<longrightarrow> base \<le> pl_s_ptr v \<and> unat (pl_s_ptr v) + unat (pl_s_len v) \<le> unat base + length buf)"

definition staged_ok :: "rt \<Rightarrow> cel_value \<Rightarrow> scalar \<Rightarrow> bool" where
  "staged_ok s v x \<longleftrightarrow> scalar_of (mem s) v = Some x \<and> scalar_ranges (kept_range s) v"

lemma staged_ok_extends: "extends s s' \<Longrightarrow> staged_ok s v x \<Longrightarrow> staged_ok s' v x"
proof -
  assume e: "extends s s'" and v: "staged_ok s v x"
  have "scalar_ranges (agree (mem s) (mem s')) v"
    by (rule scalar_ranges_mono [of "kept_range s"]) (use e v in \<open>auto simp: staged_ok_def extends_def kept_range_def\<close>)
  moreover have "scalar_ranges (kept_range s') v"
    by (rule scalar_ranges_mono [of "kept_range s"]) (use e v kept_range_mono in \<open>auto simp: staged_ok_def extends_def\<close>)
  ultimately show ?thesis using v scalar_of_agree by (simp add: staged_ok_def)
qed

lemma stage_placement_key_correct:
  assumes ok: "arena_ok s" and key: "key_in_builder buf base key" and seg: "segment M base buf"
  shows "\<exists>r s'. stage_placement_key key buf base s = Some (r, s') \<and> extends s s' \<and>
    (\<forall>v. r = Some v \<longrightarrow> staged_ok s' v (the (scalar_of M key)))"
proof (cases "cv_kind key = CEL_STRING")
  case True
  let ?p = "pl_s_ptr key" and ?n = "pl_s_len key"
  have b: "base \<le> ?p" "unat ?p + unat ?n \<le> unat base + length buf" using key True by (simp_all add: key_in_builder_def)
  have l: "unat (?p - base) = unat ?p - unat base" "unat base \<le> unat ?p" using b(1) by (simp_all add: unat_sub word_le_nat_alt)
  define src where "src = take (unat ?n) (drop (unat (?p - base)) buf)"
  have len: "length src = unat ?n" using b(2) l by (simp add: src_def)
  have "str_of M key = src"
  proof (rule nth_equalityI)
    fix i assume "i < length (str_of M key)"
    then have i: "i < unat ?n" by simp
    have k: "unat ?p - unat base + i < length buf" "unat base + (unat ?p - unat base + i) = unat ?p + i" using i b(2) l(2) by linarith+
    have "bytes_at M (unat base) (length buf) ! (unat ?p - unat base + i) = M (unat ?p + i)" using k by simp
    then have "buf ! (unat ?p - unat base + i) = M (unat ?p + i)" using seg by (simp add: segment_def)
    then show "str_of M key ! i = src ! i" using i len l(1) k(1) by (simp add: span_bytes_def src_def)
  qed (simp add: len)
  then have sc: "the (scalar_of M key) = SStr src" using True by (simp add: scalar_of_def Let_def is_numeric_kind_def)
  have n32: "length src < 2 ^ 32" using len unat_u32_lt [of ?n] by simp
  obtain off s' where r: "make_span_bytes CEL_STRING src s = Some (off, s')" "extends s s'"
    "off \<noteq> 0 \<longrightarrow> span_result CEL_STRING src s' (load_cv (mem s') (unat off))"
    using make_span_bytes_correct [OF ok n32, of CEL_STRING] by blast
  have run: "stage_placement_key key buf base s = Some (if off = 0 then None else Some (load_cv (mem s') (cel_value_at off)), s')"
    using r(1) True b l by (simp add: stage_placement_key_def Let_def src_def not_less)
  have "staged_ok s' (load_cv (mem s') (cel_value_at off)) (SStr src)" if "off \<noteq> 0"
    using r(3) that by (auto simp: staged_ok_def span_result_def span_kept_def scalar_of_def scalar_ranges_def Let_def is_numeric_kind_def cel_value_at_def)
  then show ?thesis using run r(2) sc by auto
next
  case False
  have k: "cv_kind key = CEL_BOOL \<or> cv_kind key = CEL_INT \<or> cv_kind key = CEL_UINT"
    using key False by (auto simp: key_in_builder_def is_valid_map_key_kind_def)
  have "staged_ok s key (the (scalar_of M key))"
    using k by (auto simp: staged_ok_def scalar_of_def scalar_ranges_def Let_def is_numeric_kind_def num_ok_def)
  moreover have "stage_placement_key key buf base s = Some (Some key, s)" using k by (auto simp: stage_placement_key_def)
  ultimately show ?thesis using ok by (auto simp: extends_def)
qed

lemma stage_keys_correct:
  assumes seg: "segment M base buf"
  shows "arena_ok s \<Longrightarrow> \<forall>k \<in> set keys. key_in_builder buf base k \<Longrightarrow>
    \<exists>r s'. stage_keys keys buf base s = Some (r, s') \<and> extends s s' \<and>
      (\<forall>vs. r = Some vs \<longrightarrow> list_all2 (staged_ok s') vs (map (\<lambda>k. the (scalar_of M k)) keys))"
proof (induction keys arbitrary: s)
  case Nil
  then show ?case by (simp add: extends_def)
next
  case (Cons key keys)
  obtain r s1 where r: "stage_placement_key key buf base s = Some (r, s1)" "extends s s1"
    "\<forall>v. r = Some v \<longrightarrow> staged_ok s1 v (the (scalar_of M key))"
    using stage_placement_key_correct [OF Cons.prems(1) bspec [OF Cons.prems(2)] seg, of key] by auto
  show ?case
  proof (cases r)
    case None
    then show ?thesis using r by simp
  next
    case (Some v)
    have "arena_ok s1" using r(2) by (simp add: extends_def)
    then obtain r2 s2 where r2: "stage_keys keys buf base s1 = Some (r2, s2)" "extends s1 s2"
      "\<forall>vs. r2 = Some vs \<longrightarrow> list_all2 (staged_ok s2) vs (map (\<lambda>k. the (scalar_of M k)) keys)"
      using Cons.IH [of s1] Cons.prems(2) by auto
    then show ?thesis using r Some extends_trans [OF r(2) r2(2)] staged_ok_extends [OF r2(2)] by auto
  qed
qed

text \<open>
  What staging asks of the arena, in order: for a string or bytes key its bytes, unless there are none, and a cell. Staging
  gives a key up only where the arena refuses one of these requests.
\<close>

definition key_requests :: "cel_value \<Rightarrow> u32 list" where
  "key_requests key = (if cv_kind key = CEL_STRING \<or> cv_kind key = CEL_BYTES
     then (if pl_s_len key = 0 then [24] else [pl_s_len key, 24]) else [])"

definition staging_requests :: "cel_value list \<Rightarrow> u32 list" where
  "staging_requests keys = concat (map key_requests keys)"

lemma make_cell_span_refusal:
  assumes "make_cell (set_span kind p n) s = Some (off, s')"
  shows "refused (24 # ns) s \<longleftrightarrow> off = 0 \<or> refused ns s'"
proof -
  obtain t where t: "arena_alloc 24 s = Some (off, t)" "off \<noteq> 0 \<longrightarrow> s' = set_span kind p n (unat off) t"
    using assms by (auto simp: make_cell_def alloc_cv_def split: Option.bind_splits if_splits)
  moreover have "refused ns (set_span kind p n (unat off) t) = refused ns t" by (simp add: set_span_def refused_mem)
  ultimately show ?thesis by (cases "off = 0") simp_all
qed

lemma make_span_bytes_refusal:
  assumes "make_span_bytes kind src s = Some (off, s')" and n: "word_of_nat (length src) = n"
  shows "refused ((if n = 0 then [24] else [n, 24]) @ ns) s \<longleftrightarrow> off = 0 \<or> refused ns s'"
proof (cases "n = 0")
  case True
  then show ?thesis using assms make_cell_span_refusal [of kind 0 0 s off s' ns] by (simp add: make_span_bytes_def)
next
  case False
  then have pos: "n > 0" by (simp add: word_gt_0)
  then obtain d t where d: "arena_alloc n s = Some (d, t)" using assms by (auto simp: make_span_bytes_def n split: Option.bind_splits)
  show ?thesis
  proof (cases "d = 0")
    case True
    then have "off = 0" using assms(1) d pos by (simp add: make_span_bytes_def n)
    then show ?thesis using d True False by simp
  next
    case d0: False
    then have "make_cell (set_span kind d n) (t\<lparr>mem := store_bytes (mem t) (unat d) src\<rparr>) = Some (off, s')"
      using assms(1) d pos by (simp add: make_span_bytes_def n)
    from make_cell_span_refusal [OF this, of ns] show ?thesis using False d d0 by (simp only: refused_mem if_False append.simps refused_Cons [OF d] simp_thms)
  qed
qed

lemma stage_placement_key_refusal:
  assumes "stage_placement_key key buf base s = Some (r, s')"
  shows "refused (key_requests key @ ns) s \<longleftrightarrow> r = None \<or> refused ns s'"
proof (cases "cv_kind key = CEL_STRING \<or> cv_kind key = CEL_BYTES")
  case False
  then show ?thesis using assms by (auto simp: stage_placement_key_def key_requests_def)
next
  case True
  let ?src = "take (unat (pl_s_len key)) (drop (unat (pl_s_ptr key - base)) buf)"
  have in_buf: "\<not> pl_s_ptr key < base" "\<not> unat (pl_s_ptr key - base) + unat (pl_s_len key) > length buf"
    using assms True by (auto simp: stage_placement_key_def Let_def split: if_splits)
  then have n: "word_of_nat (length ?src) = pl_s_len key" by simp
  obtain off t where m: "make_span_bytes (if cv_kind key = CEL_STRING then CEL_STRING else CEL_BYTES) ?src s = Some (off, t)"
    and r: "s' = t" "r = None \<longleftrightarrow> off = 0"
    using assms True in_buf by (auto simp: stage_placement_key_def Let_def split: Option.bind_splits if_splits)
  from make_span_bytes_refusal [OF m n, of ns] show ?thesis using True r by (simp add: key_requests_def)
qed

lemma stage_keys_refusal: "stage_keys keys buf base s = Some (None, s') \<Longrightarrow> refused (staging_requests keys) s"
proof (induction keys arbitrary: s s')
  case (Cons key keys)
  obtain r s1 where r: "stage_placement_key key buf base s = Some (r, s1)" using Cons.prems by (auto split: Option.bind_splits)
  have "r = None \<or> refused (staging_requests keys) s1"
    using Cons.prems Cons.IH [of s1] r by (cases r) (auto split: Option.bind_splits)
  then show ?case using stage_placement_key_refusal [OF r] by (simp add: staging_requests_def)
qed simp

subsection \<open>The decision\<close>

lemma staged_scalars: "list_all2 (staged_ok s) vs xs \<Longrightarrow> map (scalar_of (mem s)) vs = map Some xs"
  by (induction rule: list_all2_induct) (simp_all add: staged_ok_def)

lemma has_duplicate_iff: "map (scalar_of m) vs = map Some ks \<Longrightarrow> has_duplicate m vs \<longleftrightarrow> \<not> distinct ks"
proof (induction vs arbitrary: ks)
  case (Cons v vs)
  then obtain x xs where ks: "ks = x # xs" by (cases ks) auto
  have sc: "scalar_of m v = Some x" "map (scalar_of m) vs = map Some xs" using Cons.prems ks by simp_all
  have "list_ex (cel_map_key_eq m v) vs \<longleftrightarrow> (\<exists>w \<in> set vs. scalar_of m w = Some x)"
    using sc(1) by (auto simp: list_ex_iff cel_map_key_eq_iff)
  also have "\<dots> \<longleftrightarrow> Some x \<in> set (map (scalar_of m) vs)" by force
  also have "\<dots> \<longleftrightarrow> x \<in> set xs" unfolding sc(2) by auto
  finally show ?case using Cons.IH [OF sc(2)] ks by simp
qed simp

definition indexes :: "u8 list \<Rightarrow> nat \<Rightarrow> scalar list \<Rightarrow> bool" where
  "indexes bs k ks \<longleftrightarrow> length bs = 2 ^ k + 8 + 4 * 2 ^ k \<and> (\<forall>M hdr c. keyed M hdr ks \<longrightarrow> keys_ranges (\<lambda>a n. a + n \<le> c) M hdr (length ks) \<longrightarrow>
     bytes_at M c (length bs) = bs \<longrightarrow> index_ok M c (c + (2 ^ k + 8)) k ks)"

text \<open>The size of a baked table: a power of two below 16/7 of the entries.\<close>

lemma baked_slots:
  assumes "8 \<le> n" "48 * n < 2 ^ 32"
  obtains k where "3 \<le> k" "k \<le> 29" "cel_map_index_num_slots (word_of_nat n) = Some (2 ^ k)" "n < 2 ^ k" "7 * 2 ^ k \<le> 16 * n"
proof -
  have u: "unat (word_of_nat n :: u32) = n" using assms(2) by (simp add: unat_of_nat)
  then have "8 * unat (word_of_nat n :: u32) \<le> 7 * 2 ^ 31" using assms(2) by simp
  from index_num_slots [OF this] obtain k where k: "3 \<le> k" "cel_map_index_num_slots (word_of_nat n) = Some (2 ^ k)" "8 * n \<le> 7 * 2 ^ k"
    "k = 3 \<or> 7 * 2 ^ (k - 1) < 8 * n" unfolding u by blast
  have k3: "k \<noteq> 3" using k(3) assms(1) by auto
  have p: "(2 :: nat) ^ k = 2 * 2 ^ (k - 1)" using k(1) by (cases k) simp_all
  have "7 * 2 ^ k \<le> 16 * n" using k(4) k3 unfolding p by simp
  moreover have "k \<le> 29"
  proof (rule ccontr)
    assume "\<not> k \<le> 29"
    then have "(2 :: nat) ^ 29 \<le> 2 ^ (k - 1)" by (intro power_increasing) simp_all
    then show False using k(4) k3 assms(2) by simp
  qed
  moreover have "n < 2 ^ k" using k(3) zero_less_power [of "2 :: nat" k] by linarith
  ultimately show thesis using that k(1,2) by blast
qed

definition decided :: "map_index_decision \<Rightarrow> scalar list \<Rightarrow> bool" where
  "decided d ks \<longleftrightarrow> distinct ks \<and>
     (if length ks < 8 then decided_index d = None
      else \<exists>bs k. decided_index d = Some bs \<and> 3 \<le> k \<and> k \<le> 29 \<and> cel_map_index_num_slots (word_of_nat (length ks)) = Some (2 ^ k)
        \<and> length ks < 2 ^ k \<and> 7 * 2 ^ k \<le> 16 * length ks \<and> indexes bs k ks)"

lemma decide_staged:
  assumes st: "map (scalar_of m) staged = map Some ks" and n: "8 \<le> length ks" "48 * length ks < 2 ^ 32"
    and M: "keyed M hdr ks" "keys_ranges (\<lambda>a n. a + n \<le> c) M hdr (length ks)"
  obtains k res where "cel_map_index_num_slots (word_of_nat (length ks)) = Some (2 ^ k)" "bake_index_block m staged (2 ^ k) = Some res"
    "res = None \<longleftrightarrow> \<not> distinct ks" "res \<noteq> None \<Longrightarrow> decided \<lparr>materializable = True, decided_index = res\<rparr> ks"
proof -
  obtain k where k: "3 \<le> k" "k \<le> 29" "cel_map_index_num_slots (word_of_nat (length ks)) = Some (2 ^ k)" "length ks < 2 ^ k" "7 * 2 ^ k \<le> 16 * length ks"
    using baked_slots [OF n] by blast
  have ne: "ks \<noteq> []" using n by auto
  have far: "keys_ranges (\<lambda>a n. apart a n c (2 ^ k + 8 + 4 * 2 ^ k)) M hdr (length ks)" if "keys_ranges (\<lambda>a n. a + n \<le> c) M hdr (length ks)" for M hdr c
    by (rule keys_ranges_mono [OF that]) (simp add: apart_def)
  have sim: "key_sim m staged M hdr ks" if "keyed M hdr ks" for M hdr using that st by (simp add: key_sim_def)
  obtain res where r: "bake_index_block m staged (2 ^ k) = Some res" "res = None \<longleftrightarrow> \<not> distinct ks"
    using bake_index_block_correct [OF sim [OF M(1)] k(1,2,4) ne far [OF M(2)]] by blast
  have "indexes bs k ks" if b: "res = Some bs" for bs
  proof -
    have i: "length bs = 2 ^ k + 8 + 4 * 2 ^ k \<and> (bytes_at M c (length bs) = bs \<longrightarrow> index_ok M c (c + (2 ^ k + 8)) k ks)"
      if "keyed M hdr ks" "keys_ranges (\<lambda>a n. a + n \<le> c) M hdr (length ks)" for M hdr c
      using bake_index_block_correct [OF sim [OF that(1)] k(1,2,4) ne far [OF that(2)]] r(1) b by simp
    show ?thesis using i i [OF M] unfolding indexes_def by blast
  qed
  then have "decided \<lparr>materializable = True, decided_index = res\<rparr> ks" if "res \<noteq> None"
    using r(2) that k n(1) by (auto simp: decided_def)
  then show thesis using that k(3) r by blast
qed

lemma stage_and_decide_correct:
  assumes seg: "segment M base buf" and keys: "\<forall>e \<in> set entries. key_in_builder buf base (fst e)"
    and init: "arena_init CELWASM_ARENA_CAPACITY_BYTES s = Some s0" "arena_ok s0" and n: "48 * length entries < 2 ^ 32"
    and M: "keyed M hdr (map (\<lambda>e. the (scalar_of M (fst e))) entries)" "keys_ranges (\<lambda>a n. a + n \<le> c) M hdr (length entries)"
  shows "\<exists>d s'. stage_and_decide_index entries buf base s = Some (d, s') \<and>
    (if materializable d then decided d (map (\<lambda>e. the (scalar_of M (fst e))) entries)
     else \<not> distinct (map (\<lambda>e. the (scalar_of M (fst e))) entries)
       \<or> (\<exists>s1. stage_keys (map fst entries) buf base (arena_reset s0) = Some (None, s1)))"
proof -
  let ?ks = "map (\<lambda>e. the (scalar_of M (fst e))) entries" and ?n = "word_of_nat (length entries) :: u32"
  have u: "unat ?n = length entries" using n by (simp add: unat_of_nat)
  have cmp: "?n \<le> 1 \<longleftrightarrow> length entries \<le> 1" "?n \<ge> 8 \<longleftrightarrow> 8 \<le> length entries" by (simp_all add: word_le_nat_alt u)
  show ?thesis
  proof (cases "length entries \<le> 1")
    case True
    then have "distinct ?ks" by (cases entries) auto
    then show ?thesis using True cmp by (simp add: stage_and_decide_index_def decided_def)
  next
    case False
    have r0: "arena_ok (arena_reset s0)" by (rule arena_reset_ok [OF init(2)])
    obtain r s1 where r: "stage_keys (map fst entries) buf base (arena_reset s0) = Some (r, s1)"
      "\<forall>vs. r = Some vs \<longrightarrow> list_all2 (staged_ok s1) vs (map (\<lambda>k. the (scalar_of M k)) (map fst entries))"
      using stage_keys_correct [OF seg r0, of "map fst entries"] keys by auto
    have run: "stage_and_decide_index entries buf base s = (case r of
          None \<Rightarrow> Some (\<lparr>materializable = False, decided_index = None\<rparr>, s1)
        | Some vs \<Rightarrow> if 8 \<le> length entries then do {
              num_slots \<leftarrow> cel_map_index_num_slots ?n;
              baked \<leftarrow> bake_index_block (mem s1) vs num_slots;
              Some (case baked of None \<Rightarrow> \<lparr>materializable = False, decided_index = None\<rparr>
                | Some bs \<Rightarrow> \<lparr>materializable = True, decided_index = Some bs\<rparr>, s1)
            }
            else if has_duplicate (mem s1) vs then Some (\<lparr>materializable = False, decided_index = None\<rparr>, s1)
            else Some (\<lparr>materializable = True, decided_index = None\<rparr>, s1))"
      using False r(1) by (cases r) (simp_all add: stage_and_decide_index_def Let_def cmp init(1))
    show ?thesis
    proof (cases r)
      case None
      then show ?thesis using run r(1) by simp
    next
      case (Some vs)
      then have st: "map (scalar_of (mem s1)) vs = map Some ?ks" using r(2) staged_scalars [of s1 vs ?ks] by (simp add: comp_def)
      show ?thesis
      proof (cases "8 \<le> length entries")
        case True
        then have b: "8 \<le> length ?ks" "48 * length ?ks < 2 ^ 32" "keys_ranges (\<lambda>a n. a + n \<le> c) M hdr (length ?ks)" using n M(2) by simp_all
        obtain k res where "cel_map_index_num_slots ?n = Some (2 ^ k)" "bake_index_block (mem s1) vs (2 ^ k) = Some res"
          "res = None \<longleftrightarrow> \<not> distinct ?ks" "res \<noteq> None \<Longrightarrow> decided \<lparr>materializable = True, decided_index = res\<rparr> ?ks"
          using decide_staged [OF st b(1,2) M(1) b(3)] unfolding length_map by blast
        then show ?thesis using run Some True by (cases res) auto
      next
        case False
        then show ?thesis using run Some has_duplicate_iff [OF st] by (auto simp: decided_def)
      qed
    qed
  qed
qed

subsection \<open>The image of a map\<close>

lemma patch_word:
  "length pre = f \<Longrightarrow> foldl (\<lambda>buf i. buf[f + i := ucast (drop_bit (i * 8) w AND 0xFF)]) (pre @ u32_le x @ post) [0..<4] = pre @ u32_le w @ post"
  by (simp add: upt_rec u32_le_bytes list_update_append byte_of_word numeral_eq_Suc)

definition entry_le :: "cel_value \<times> cel_value \<Rightarrow> u8 list" where
  "entry_le e = cell_le (fst e) @ cell_le (snd e)"

lemma foldl_entries: "foldl append_entry buf es = buf @ concat (map entry_le es)"
  by (induction es arbitrary: buf) (simp_all add: append_entry_def entry_le_def append_le)

lemma length_entry_le [simp]: "length (entry_le e) = 48"
  by (simp add: entry_le_def)

lemma length_entries_le [simp]: "length (concat (map entry_le es)) = 48 * length es"
  by (induction es) simp_all

definition index_image :: "u8 list option \<Rightarrow> u8 list" where
  "index_image d = (case d of None \<Rightarrow> [] | Some bs \<Rightarrow> bs @ replicate (padding (length bs)) 0)"

definition index_address :: "nat \<Rightarrow> u8 list option \<Rightarrow> static_memory_builder \<Rightarrow> u32" where
  "index_address n d b = (if d = None then 0 else smb_base b + word_of_nat (length (smb_buf b) + 16 + 48 * n))"

definition map_image :: "(cel_value \<times> cel_value) list \<Rightarrow> u8 list option \<Rightarrow> static_memory_builder \<Rightarrow> u8 list" where
  "map_image es d b = header_le (word_of_nat (length es)) (run_address es b) (index_address (length es) d b) @ concat (map entry_le es) @ index_image d"

lemma length_map_image: "length (map_image es d b) = 16 + 48 * length es + length (index_image d)"
  by (simp add: map_image_def)

lemma index_image_mod: "length (index_image d) mod 8 = 0"
  using padding_mod(1) by (auto simp: index_image_def split: option.splits)

lemma append_baked_index_eq:
  assumes b: "builder_ok b"
  shows "append_baked_index (smb_buf b @ header_le n r 0 @ concat (map entry_le es)) (smb_base b) (length (smb_buf b) + 12) d =
    Some (index_address (length es) d b, smb_buf b @ header_le n r (index_address (length es) d b) @ concat (map entry_le es) @ index_image d)"
proof (cases d)
  case None
  then show ?thesis by (simp add: append_baked_index_def index_address_def index_image_def)
next
  case (Some bs)
  let ?L = "length (smb_buf b) + 16 + 48 * length es"
  obtain q where q: "length (smb_buf b) = 8 * q" using b unfolding builder_ok_def by (metis dvdE mod_0_imp_dvd)
  have L: "?L = 8 * (q + 2 + 6 * length es)" by (simp add: q)
  have "?L + length bs = length bs + 8 * (q + 2 + 6 * length es)" unfolding L by simp
  then have pad: "padding (?L + length bs) = padding (length bs)" unfolding padding_def by (metis mod_mult_self2)
  have al: "?L mod 8 = 0" unfolding L by simp
  have p: "pad_to (smb_buf b @ header_le n r 0 @ concat (map entry_le es) @ bs) 8 =
      (smb_buf b @ u32_le n @ u32_le n @ u32_le r) @ u32_le 0 @ concat (map entry_le es) @ index_image d"
    using pad by (simp add: pad_to_8 Some index_image_def header_le_def add.assoc)
  have len: "length (smb_buf b @ u32_le n @ u32_le n @ u32_le r) = length (smb_buf b) + 12" by simp
  have t: "length (smb_buf b @ header_le n r 0 @ concat (map entry_le es)) = ?L" by simp
  note patch = patch_word [OF len, where x = 0 and post = "concat (map entry_le es) @ index_image d", unfolded append.assoc Some]
  show ?thesis
    unfolding append_baked_index_def Some option.case Let_def t al append.assoc p [unfolded Some append.assoc] patch
    by (simp add: index_address_def header_le_def)
qed

lemma materialize_map_eq:
  assumes b: "builder_ok b" "room_for (40 + 48 * length es + length (index_image (decided_index d))) b"
    and d: "stage_and_decide_index es (smb_buf b) (smb_base b) s = Some (d, s')" "materializable d"
  shows "materialize_map es b s = (let b1 = append_bytes b (map_image es (decided_index d) b) in
    Some (Some \<lparr>map_frame_offset = next_address b1, map_entries_offset = run_address es b,
       map_index_offset = index_address (length es) (decided_index d) b, map_frame_cell = aggregate_frame CEL_MAP_ARENA b\<rparr>,
     append_bytes b1 (cell_le (aggregate_frame CEL_MAP_ARENA b)), s'))"
proof -
  let ?i = "decided_index d" and ?b1 = "append_bytes b (map_image es (decided_index d) b)"
  have n: "word_of_nat (length es) = (0 :: u32) \<longleftrightarrow> es = []"
    using b(2) unat_address(2) [of 0 "length es"] by (cases es) (auto simp: room_for_def)
  have f: "unat (word_of_nat (length (smb_buf b)) + 12 :: u32) = length (smb_buf b) + 12"
    using b(2) by (simp add: room_for_def unat_word_ariths unat_of_nat)
  have al: "length (smb_buf b) mod 8 = 0" using b(1) by (simp add: builder_ok_def)
  have "(16 + 48 * length es + length (index_image ?i)) mod 8 = 0" using index_image_mod [of ?i] by presburger
  then have "grows b ?b1" using b(2) by (intro append_bytes_grows [OF b(1)]) (simp_all add: length_map_image room_for_def)
  then have m: "builder_ok ?b1" "room_for 24 ?b1" using b(2) by (simp_all add: grows_def room_for_def length_map_image)
  have run: "run_address es b = (if (word_of_nat (length es) :: u32) = 0 then 0 else smb_base b + (word_of_nat (length (smb_buf b)) + 16))"
    by (simp add: n run_address_def next_address_def add.assoc)
  have frame: "header_frame CEL_MAP_ARENA (smb_base b + word_of_nat (length (smb_buf b))) ?b1 =
      Some (next_address ?b1, append_bytes ?b1 (cell_le (aggregate_frame CEL_MAP_ARENA b)))"
    using scalar_frames(6) [OF m, of CEL_MAP_ARENA "next_address b"] by (simp add: aggregate_frame_def next_address_def)
  note idx = append_baked_index_eq [OF b(1), of "word_of_nat (length es)" "run_address es b" es ?i]
  show ?thesis
    unfolding materialize_map_def Let_def d(1) bind_simps prod.case
    using d(2) al f frame idx
    by (simp add: append_header_eq foldl_entries run [symmetric] map_image_def aggregate_frame_def cell_of_def next_address_def)
qed

subsection \<open>A constant map is a map\<close>

text \<open>The value of a key that lies in the builder.\<close>

definition key_value :: "static_memory_builder \<Rightarrow> cel_value \<Rightarrow> scalar" where
  "key_value b v = the (scalar_of (store_bytes (\<lambda>_. 0) (unat (smb_base b)) (smb_buf b)) v)"

definition keys_in_builder :: "static_memory_builder \<Rightarrow> (cel_value \<times> cel_value) list \<Rightarrow> bool" where
  "keys_in_builder b es \<longleftrightarrow> (\<forall>e \<in> set es. key_in_builder (smb_buf b) (smb_base b) (fst e))"

lemma key_ranges_below:
  assumes "key_in_builder (smb_buf b) (smb_base b) v"
    and "\<And>a n. unat (smb_base b) \<le> a \<Longrightarrow> a + n \<le> unat (smb_base b) + length (smb_buf b) \<Longrightarrow> P a n"
  shows "scalar_ranges P v"
  using assms by (auto simp: key_in_builder_def is_valid_map_key_kind_def scalar_ranges_def word_le_nat_alt)

lemma segment_store: "segment (store_bytes m (unat base) buf) base buf"
  by (simp add: segment_def bytes_at_store_bytes)

lemma segment_byte: "segment M base buf \<Longrightarrow> i < length buf \<Longrightarrow> M (unat base + i) = buf ! i"
  unfolding segment_def by (metis bytes_at_nth)

lemma key_value_in:
  assumes seg: "segment M (smb_base b) (smb_buf b)" and v: "key_in_builder (smb_buf b) (smb_base b) v"
  shows "scalar_of M v = Some (key_value b v)"
proof -
  let ?M0 = "store_bytes (\<lambda>_. 0) (unat (smb_base b)) (smb_buf b)"
  have "scalar_ranges (agree ?M0 M) v"
  proof (rule key_ranges_below [OF v], intro allI impI)
    fix a n i assume r: "unat (smb_base b) \<le> a" "a + n \<le> unat (smb_base b) + length (smb_buf b)" "i < n"
    define j where "j = a + i - unat (smb_base b)"
    have j: "a + i = unat (smb_base b) + j" "j < length (smb_buf b)" using r unfolding j_def by linarith+
    show "M (a + i) = ?M0 (a + i)" unfolding j(1) using segment_byte [OF seg j(2)] segment_byte [OF segment_store j(2)] by simp
  qed
  then have "scalar_of M v = scalar_of ?M0 v" by (rule scalar_of_agree)
  then show ?thesis using key_scalar [of v ?M0] v by (auto simp: key_value_def key_in_builder_def)
qed

lemma entries_of_bytes:
  "bytes_at m a (48 * length es) = concat (map entry_le es) \<Longrightarrow> i < length es \<Longrightarrow>
   load_cv m (a + 48 * i) = fst (es ! i) \<and> load_cv m (a + 48 * i + 24) = snd (es ! i)"
proof (induction es arbitrary: a i)
  case (Cons e es)
  have s: "bytes_at m a 48 = entry_le e" "bytes_at m (a + 48) (48 * length es) = concat (map entry_le es)"
    using bytes_at_parts [of m a _ "entry_le e" "concat (map entry_le es)"] Cons.prems(1) by simp_all
  have e: "load_cv m a = fst e" "load_cv m (a + 24) = snd e"
    using bytes_at_parts [OF s(1) [unfolded entry_le_def]] by (simp_all add: load_cv_le)
  show ?case
  proof (cases i)
    case 0
    then show ?thesis using e by simp
  next
    case (Suc j)
    then show ?thesis using Cons.IH [OF s(2), of j] Cons.prems(2) by (simp add: add.assoc)
  qed
qed simp

abbreviation header_at :: "static_memory_builder \<Rightarrow> nat" where
  "header_at b \<equiv> unat (smb_base b) + length (smb_buf b)"

lemma map_image_facts:
  assumes b: "builder_ok b" "room_for (40 + 48 * length es) b" and keys: "keys_in_builder b es"
    and seg: "segment M (smb_base b) (smb_buf b @ map_image es d b @ rest)"
  shows "map_count M (header_at b) = word_of_nat (length es)" "map_capacity M (header_at b) = word_of_nat (length es)"
    "unat (map_entries M (header_at b)) = (if es = [] then 0 else header_at b + 16)"
    "map_index M (header_at b) = index_address (length es) d b"
    "i < length es \<Longrightarrow> load_cv M (header_at b + 16 + 48 * i) = fst (es ! i) \<and> load_cv M (header_at b + 16 + 48 * i + 24) = snd (es ! i)"
    "keyed M (header_at b) (map (\<lambda>e. key_value b (fst e)) es)"
    "keys_ranges (\<lambda>a n. a + n \<le> header_at b + 16 + 48 * length es) M (header_at b) (length es)"
    "bytes_at M (header_at b + 16 + 48 * length es) (length (index_image d)) = index_image d"
proof -
  let ?H = "header_at b"
  note w = header_words [OF seg [unfolded map_image_def append.assoc]]
  show "map_count M ?H = word_of_nat (length es)" "map_capacity M ?H = word_of_nat (length es)" "map_index M ?H = index_address (length es) d b"
    using w by (simp_all add: map_count_def map_capacity_def map_index_def)
  have hdr: "unat (next_address b) = ?H" by (rule unat_next_address [OF b(2)]) simp
  show run: "unat (map_entries M ?H) = (if es = [] then 0 else ?H + 16)"
    using w(3) b(2) hdr by (auto simp: map_entries_def run_address_def room_for_def unat_word_ariths)
  have "bytes_at M (?H + 16) (48 * length es) = concat (map entry_le es)"
    using segment_at [of M "smb_base b" "smb_buf b @ header_le (word_of_nat (length es)) (run_address es b) (index_address (length es) d b)" "concat (map entry_le es)"]
      seg by (simp add: map_image_def add.assoc)
  then show e: "i < length es \<Longrightarrow> load_cv M (?H + 16 + 48 * i) = fst (es ! i) \<and> load_cv M (?H + 16 + 48 * i + 24) = snd (es ! i)" for i
    by (rule entries_of_bytes)
  have n32: "length es < 2 ^ 32" using b(2) by (simp add: room_for_def)
  have at: "index_map_entry_key M ?H (word_of_nat i) = ?H + 16 + 48 * i" if "i < length es" for i
    using entry_address(3) [of i M ?H] run that n32 by auto
  have k: "key_in_builder (smb_buf b) (smb_base b) (fst (es ! i))" if "i < length es" for i
    using keys that by (simp add: keys_in_builder_def)
  have base: "segment M (smb_base b) (smb_buf b)" using seg by (rule segment_prefix)
  show "keyed M ?H (map (\<lambda>e. key_value b (fst e)) es)"
    using n32 e at key_value_in [OF base k] by (simp add: keyed_def)
  show "keys_ranges (\<lambda>a n. a + n \<le> ?H + 16 + 48 * length es) M ?H (length es)"
    unfolding keys_ranges_def
  proof (intro conjI allI impI)
    fix i assume i: "i < length es"
    show "index_map_entry_key M ?H (word_of_nat i) + 24 \<le> ?H + 16 + 48 * length es" using i at [OF i] by simp
    show "scalar_ranges (\<lambda>a n. a + n \<le> ?H + 16 + 48 * length es) (load_cv M (index_map_entry_key M ?H (word_of_nat i)))"
      unfolding at [OF i] conjunct1 [OF e [OF i]] by (rule key_ranges_below [OF k [OF i]]) simp
  qed simp
  show "bytes_at M (?H + 16 + 48 * length es) (length (index_image d)) = index_image d"
    using segment_at [of M "smb_base b" "smb_buf b @ header_le (word_of_nat (length es)) (run_address es b) (index_address (length es) d b) @ concat (map entry_le es)" "index_image d"]
      seg by (simp add: map_image_def add.assoc)
qed

lemma index_image_bound:
  assumes "decided d ks" "48 * length ks < 2 ^ 32"
  shows "length (index_image (decided_index d)) \<le> 12 * length ks + 15"
proof (cases "decided_index d")
  case (Some bs)
  then obtain k where k: "7 * 2 ^ k \<le> 16 * length ks" "indexes bs k ks" using assms(1) by (auto simp: decided_def split: if_splits)
  then have "7 * length bs \<le> 84 * length ks + 56" by (simp add: indexes_def)
  then show ?thesis using padding_mod(2) [of "length bs"] by (simp add: Some index_image_def)
qed (simp add: index_image_def)

text \<open>A runtime state whose memory has the image and the frame of a map.\<close>

lemma image_is_map:
  assumes b: "builder_ok b" "room_for (64 + 60 * length es) b" and keys: "keys_in_builder b es"
    and d: "decided d (map (\<lambda>e. key_value b (fst e)) es)"
    and seg: "segment (mem s) (smb_base b) (smb_buf b @ map_image es (decided_index d) b @ rest)"
    and low: "header_at b + length (map_image es (decided_index d) b) + 24 \<le> 262144"
    and off: "unat off = header_at b + length (map_image es (decided_index d) b)" "cv s off = aggregate_frame CEL_MAP_ARENA b"
  shows "map_ok s off" "index_valid s off" "map_alist s off = map (\<lambda>e. (key_value b (fst e), snd e)) es"
    "map_index (mem s) (map_hdr s off) \<noteq> 0 \<longleftrightarrow> 8 \<le> length es"
proof -
  let ?H = "header_at b" and ?n = "length es" and ?ks = "map (\<lambda>e. key_value b (fst e)) es" and ?i = "decided_index d"
  have r: "room_for (40 + 48 * ?n) b" "room_for 1 b" using b(2) by (simp_all add: room_for_def)
  have n32: "48 * ?n < 2 ^ 32" using b(2) by (simp add: room_for_def)
  note f = map_image_facts [OF b(1) r(1) keys seg]
  have u: "unat (word_of_nat ?n :: u32) = ?n" using n32 by (simp add: unat_of_nat)
  have hdr: "map_hdr s off = ?H"
    using unat_next_address [OF r(2)] by (simp add: map_hdr_def off(2) arena_map_header_def aggregate_frame_def cell_of_def pl_header_ptr_def)
  have g: "map_len s off = ?n" "map_room s off = ?n" "map_run s off = (if es = [] then 0 else ?H + 16)"
    by (simp_all add: map_len_def map_room_def map_run_def hdr f u)
  have key: "key_in_builder (smb_buf b) (smb_base b) (fst (es ! i))" if "i < ?n" for i using keys that by (simp add: keys_in_builder_def)
  have base: "segment (mem s) (smb_base b) (smb_buf b)" using seg by (rule segment_prefix)
  have cell: "load_cv (mem s) (map_run s off + 48 * i) = fst (es ! i)" "load_cv (mem s) (map_run s off + 48 * i + 24) = snd (es ! i)"
    if "i < ?n" for i using f(5) [OF that] that g(3) by auto
  show al: "map_alist s off = map (\<lambda>e. (key_value b (fst e), snd e)) es"
    unfolding map_alist_def g(1)
    by (rule nth_equalityI) (simp_all add: entries_at_nth cell key_value_in [OF base key])
  then have fst: "map fst (map_alist s off) = ?ks" by (simp add: comp_def)
  have lim: "?H + 16 + 48 * ?n \<le> unat off" "unat off + 24 \<le> 262144" using low off(1) by (simp_all add: length_map_image)
  have "scalar_ranges (\<lambda>a n. kept_range s a n \<and> map_apart s off a n) (fst (es ! i))" if i: "i < ?n" for i
    by (rule key_ranges_below [OF key [OF i]])
      (use lim i in \<open>auto simp: map_apart_def hdr g apart_def cel_value_at_def intro!: low_kept\<close>)
  then have "\<forall>i < map_len s off. key_ok s off (load_cv (mem s) (map_run s off + 48 * i))"
    using cell key by (simp add: key_ok_def g(1) key_in_builder_def)
  moreover have "cv_kind (cv s off) = CEL_MAP_ARENA" by (simp only: off(2)) (simp add: aggregate_frame_def cell_of_def)
  moreover have "distinct (map fst (map_alist s off))" using d unfolding fst by (simp add: decided_def)
  ultimately show "map_ok s off"
    unfolding map_ok_def hdr g(2) using lim by (auto simp: g apart_def cel_value_at_def intro!: low_kept)
  have idx: "unat (index_address ?n (Some bs) b) = ?H + 16 + 48 * ?n" for bs
    using unat_address(1) [of "smb_base b" "length (smb_buf b) + 16 + 48 * ?n"] b(2) by (simp add: index_address_def room_for_def add.assoc)
  show "map_index (mem s) (map_hdr s off) \<noteq> 0 \<longleftrightarrow> 8 \<le> ?n"
  proof (cases ?i)
    case None
    then show ?thesis using d by (auto simp: hdr f index_address_def decided_def split: if_splits)
  next
    case (Some bs)
    then have "8 \<le> ?n" using d by (auto simp: decided_def split: if_splits)
    moreover have "index_address ?n (Some bs) b \<noteq> 0" using idx [of bs] by (intro notI) simp
    ultimately show ?thesis by (simp add: hdr f Some)
  qed
  show "index_valid s off"
  proof (cases ?i)
    case None
    then show ?thesis by (simp add: index_valid_def hdr f index_address_def)
  next
    case (Some bs)
    then obtain k where k: "3 \<le> k" "k \<le> 29" "cel_map_index_num_slots (word_of_nat ?n) = Some (2 ^ k)" "?n < 2 ^ k" "indexes bs k ?ks"
      using d by (auto simp: decided_def split: if_splits)
    have "bytes_at (mem s) (?H + 16 + 48 * ?n) (length bs) = bs"
      using bytes_at_parts [of "mem s" "?H + 16 + 48 * ?n" _ bs "replicate (padding (length bs)) 0"] f(8) by (simp add: Some index_image_def)
    then have "index_ok (mem s) (?H + 16 + 48 * ?n) (?H + 16 + 48 * ?n + (2 ^ k + 8)) k ?ks"
      using k(5) f(6,7) unfolding indexes_def length_map by blast
    moreover have "index_address ?n (Some bs) b \<noteq> 0" using idx [of bs] by (intro notI) simp
    ultimately have "map_indexed (mem s) ?H ?ks"
      unfolding map_indexed_def using f(6) k u by (auto simp: f(1,4) Some idx block_layout intro!: exI [of _ k])
    then show ?thesis by (simp add: index_valid_def hdr fst)
  qed
qed

lemma materialize_map_correct:
  assumes b: "builder_ok b" "room_for (64 + 60 * length es) b" and keys: "keys_in_builder b es"
    and init: "arena_init CELWASM_ARENA_CAPACITY_BYTES s = Some s0" "arena_ok s0"
  shows "\<exists>res b' s'. materialize_map es b s = Some (res, b', s') \<and>
    (case res of
       None \<Rightarrow> b' = b \<and> (\<not> distinct (map (\<lambda>e. key_value b (fst e)) es)
         \<or> (\<exists>s1. stage_keys (map fst es) (smb_buf b) (smb_base b) (arena_reset s0) = Some (None, s1)))
     | Some mm \<Rightarrow> distinct (map (\<lambda>e. key_value b (fst e)) es) \<and> grows b b' \<and>
         (\<forall>t. loaded b' (mem t) \<and> below_runtime b' \<longrightarrow> map_ok t (map_frame_offset mm) \<and> index_valid t (map_frame_offset mm) \<and>
            map_alist t (map_frame_offset mm) = map (\<lambda>e. (key_value b (fst e), snd e)) es \<and>
            (map_index (mem t) (map_hdr t (map_frame_offset mm)) \<noteq> 0 \<longleftrightarrow> 8 \<le> length es) \<and>
            cv t (map_frame_offset mm) = map_frame_cell mm))"
proof -
  let ?ks = "map (\<lambda>e. key_value b (fst e)) es"
  define M where "M = store_bytes (\<lambda>_. 0) (unat (smb_base b)) (smb_buf b @ map_image es None b @ [])"
  have r: "room_for (40 + 48 * length es) b" and n: "48 * length es < 2 ^ 32" using b(2) by (simp_all add: room_for_def)
  have seg: "segment M (smb_base b) (smb_buf b @ map_image es None b @ [])" unfolding M_def by (rule segment_store)
  have base: "segment M (smb_base b) (smb_buf b)" using seg by (rule segment_prefix)
  note f = map_image_facts [OF b(1) r keys seg]
  have ks: "map (\<lambda>e. the (scalar_of M (fst e))) es = ?ks"
    using keys key_value_in [OF base] by (simp add: keys_in_builder_def)
  obtain d s' where d: "stage_and_decide_index es (smb_buf b) (smb_base b) s = Some (d, s')"
    "if materializable d then decided d ?ks
     else \<not> distinct ?ks \<or> (\<exists>s1. stage_keys (map fst es) (smb_buf b) (smb_base b) (arena_reset s0) = Some (None, s1))"
    using stage_and_decide_correct [OF base keys [unfolded keys_in_builder_def] init n, unfolded ks, OF f(6,7)] by blast
  show ?thesis
  proof (cases "materializable d")
    case False
    then have "materialize_map es b s = Some (None, b, s')" using d(1) by (simp add: materialize_map_def)
    then show ?thesis using d(2) False by simp
  next
    case True
    let ?img = "map_image es (decided_index d) b"
    define b1 b' where "b1 = append_bytes b ?img" and "b' = append_bytes b1 (cell_le (aggregate_frame CEL_MAP_ARENA b))"
    have dec: "decided d ?ks" using d(2) True by simp
    have bound: "length (index_image (decided_index d)) \<le> 12 * length es + 15" using index_image_bound [OF dec] n by simp
    have room: "room_for (40 + 48 * length es + length (index_image (decided_index d))) b" using bound b(2) by (simp add: room_for_def)
    have r1: "room_for 24 b1" using room by (simp add: b1_def room_for_def length_map_image)
    have "(40 + 48 * length es + length (index_image (decided_index d))) mod 8 = 0" using index_image_mod [of "decided_index d"] by presburger
    then have g: "grows b b'"
      unfolding b'_def b1_def append_bytes_append using room by (intro append_bytes_grows [OF b(1)]) (simp_all add: length_map_image add.assoc)
    have run: "materialize_map es b s = Some (Some \<lparr>map_frame_offset = next_address b1, map_entries_offset = run_address es b,
       map_index_offset = index_address (length es) (decided_index d) b, map_frame_cell = aggregate_frame CEL_MAP_ARENA b\<rparr>, b', s')"
      using materialize_map_eq [OF b(1) room d(1) True] by (simp add: b1_def b'_def Let_def)
    have off: "unat (next_address b1) = header_at b + length ?img" using unat_next_address [OF r1] by (simp add: b1_def)
    have all: "map_ok t (next_address b1) \<and> index_valid t (next_address b1) \<and>
        map_alist t (next_address b1) = map (\<lambda>e. (key_value b (fst e), snd e)) es \<and>
        (map_index (mem t) (map_hdr t (next_address b1)) \<noteq> 0 \<longleftrightarrow> 8 \<le> length es) \<and> cv t (next_address b1) = aggregate_frame CEL_MAP_ARENA b"
      if l: "loaded b' (mem t)" and low: "below_runtime b'" for t
    proof -
      have c: "cv t (next_address b1) = aggregate_frame CEL_MAP_ARENA b"
        using appended_cell [of b1 _ "[]", OF _ r1] l by (simp add: b'_def cel_value_at_def)
      have "segment (mem t) (smb_base b) (smb_buf b @ ?img @ cell_le (aggregate_frame CEL_MAP_ARENA b))"
        using loaded_segment [OF l] by (simp add: b'_def b1_def)
      moreover have "header_at b + length ?img + 24 \<le> 262144" using low by (simp add: below_runtime_def b'_def b1_def)
      ultimately show ?thesis using image_is_map [OF b keys dec _ _ off c] c by blast
    qed
    show ?thesis unfolding run using g dec all by (auto simp: decided_def)
  qed
qed

text \<open>
  C36. A constant map is a map of the runtime, and its baked index is a correct index. Materializing entries whose keys lie in
  the builder is refused, with the builder unchanged, exactly for a repeated key, as long as the staging arena grants the bytes
  and the cells of the string keys. Otherwise, in every runtime state whose memory holds the segment below the runtime's own
  memory, the frame is a well-formed arena map of exactly those entries in their order, indexed from eight entries on, with the
  index the runtime's lookup is proved correct for. The builder has room for the image.
\<close>

theorem materialized_map_is_map:
  assumes b: "builder_ok b" "room_for (64 + 60 * length es) b" and keys: "keys_in_builder b es"
    and init: "arena_init CELWASM_ARENA_CAPACITY_BYTES s = Some s0" "arena_ok s0"
    and room: "\<not> refused (staging_requests (map fst es)) (arena_reset s0)"
  shows "\<exists>res b' s'. materialize_map es b s = Some (res, b', s') \<and>
    (case res of
       None \<Rightarrow> b' = b \<and> \<not> distinct (map (\<lambda>e. key_value b (fst e)) es)
     | Some mm \<Rightarrow> distinct (map (\<lambda>e. key_value b (fst e)) es) \<and> grows b b' \<and>
         (\<forall>t. loaded b' (mem t) \<and> below_runtime b' \<longrightarrow> map_ok t (map_frame_offset mm) \<and> index_valid t (map_frame_offset mm) \<and>
            map_alist t (map_frame_offset mm) = map (\<lambda>e. (key_value b (fst e), snd e)) es \<and>
            (map_index (mem t) (map_hdr t (map_frame_offset mm)) \<noteq> 0 \<longleftrightarrow> 8 \<le> length es) \<and>
            cv t (map_frame_offset mm) = map_frame_cell mm))"
proof -
  have none: "(\<exists>s1. stage_keys (map fst es) (smb_buf b) (smb_base b) (arena_reset s0) = Some (None, s1)) \<longleftrightarrow> False"
    using stage_keys_refusal room by blast
  show ?thesis using materialize_map_correct [OF assms(1-5)] unfolding none simp_thms .
qed

text \<open>
  C37. Compiling a map literal and looking a key up in it at run time. When the builder has materialized the entries, the lookup
  and membership kernels of the runtime, on a state with the segment loaded, answer what the association list of the entries
  says for the value of the key in the key slot: the value cell and true, or no such key and false.
\<close>

theorem static_map_lookup:
  assumes b: "builder_ok b" "room_for (64 + 60 * length es) b" "keys_in_builder b es"
    and init: "arena_init CELWASM_ARENA_CAPACITY_BYTES s = Some s0" "arena_ok s0"
    and mm: "materialize_map es b s = Some (Some mm, b', s')"
    and t: "loaded b' (mem t)" "below_runtime b'" "\<not> poisoned (cv t k)"
  shows "(\<exists>t'. cel_map_lookup h out (map_frame_offset mm) k t = Some t' \<and> only_cell (cel_value_at out) t t' \<and>
      (case Option.bind (scalar_of (mem t) (cv t k)) (map_of (map (\<lambda>e. (key_value b (fst e), snd e)) es)) of
         Some v \<Rightarrow> cv t' out = v | None \<Rightarrow> is_err (cv t' out) CEL_ERR_NO_SUCH_KEY))
    \<and> (\<exists>t'. cel_map_in h out k (map_frame_offset mm) t = Some t' \<and> only_cell (cel_value_at out) t t' \<and>
      is_bool (cv t' out) (Option.bind (scalar_of (mem t) (cv t k)) (map_of (map (\<lambda>e. (key_value b (fst e), snd e)) es)) \<noteq> None))"
proof -
  have "map_ok t (map_frame_offset mm) \<and> index_valid t (map_frame_offset mm) \<and>
      map_alist t (map_frame_offset mm) = map (\<lambda>e. (key_value b (fst e), snd e)) es"
    using materialize_map_correct [OF b init] mm t(1,2) by auto
  then show ?thesis
    using lookup_and_in_correct [of t "map_frame_offset mm" k h out] t(3) unfolding map_get_def by simp
qed

subsection \<open>An instance\<close>

definition sample_builder :: static_memory_builder where
  "sample_builder = \<lparr>smb_buf = [], smb_base = 16\<rparr>"

definition with_segment :: "static_memory_builder \<Rightarrow> rt" where
  "with_segment b = sample_rt\<lparr>mem := store_bytes (mem sample_rt) (unat (smb_base b)) (smb_buf b)\<rparr>"

lemma sample_builder_ok: "builder_ok sample_builder" "n \<le> 1000 \<Longrightarrow> room_for n sample_builder"
  by (simp_all add: builder_ok_def room_for_def sample_builder_def)

lemma with_segment_loaded: "builder_ok b \<Longrightarrow> loaded b (mem (with_segment b))"
  by (auto simp: loaded_def grows_def with_segment_def segment_store intro!: exI [of _ b])

theorem static_frames_decode_witness:
  "\<exists>off b'. allocate_string [0x61] sample_builder = Some (off, b') \<and> str_of (mem (with_segment b')) (load_cv (mem (with_segment b')) (unat off)) = [0x61]"
proof -
  obtain off b' where b': "allocate_string [0x61] sample_builder = Some (off, b')" "grows sample_builder b'"
    "\<forall>m. loaded b' m \<longrightarrow> str_of m (load_cv m (unat off)) = [0x61]"
    using bspec [OF conjunct2 [OF static_frames_decode [OF sample_builder_ok, of "[0x61]"]], of "(allocate_string, CEL_STRING)"] by auto
  then show ?thesis using with_segment_loaded [of b'] by (auto simp: grows_def)
qed

theorem materialized_list_is_list_witness:
  "\<exists>agg b'. materialize_list [cell_of CEL_INT 5] sample_builder = Some (agg, b')
     \<and> list_of (with_segment b') (agg_frame_offset agg) = [cell_of CEL_INT 5]"
proof -
  have r: "room_for (40 + 24 * length [cell_of CEL_INT 5]) sample_builder" by (rule sample_builder_ok) simp
  obtain agg b' where b': "materialize_list [cell_of CEL_INT 5] sample_builder = Some (agg, b')" "grows sample_builder b'"
    "\<forall>s. loaded b' (mem s) \<and> below_runtime b' \<longrightarrow> list_of s (agg_frame_offset agg) = [cell_of CEL_INT 5]"
    using materialized_list_is_list [OF sample_builder_ok(1) r] by blast
  have "below_runtime b'"
    using b'(1) materialize_list_eq [OF sample_builder_ok(1) r] by (auto simp: below_runtime_def list_image_def sample_builder_def)
  then show ?thesis using b' with_segment_loaded [of b'] by (auto simp: grows_def)
qed

text \<open>One entry, from 1 to 7.\<close>

abbreviation sample_entries :: "(cel_value \<times> cel_value) list" where
  "sample_entries \<equiv> [(cell_of CEL_INT 1, cell_of CEL_INT 7)]"

definition boot_staged :: rt where
  "boot_staged = the (arena_init CELWASM_ARENA_CAPACITY_BYTES boot_rt)"

lemma boot_staged: "arena_init CELWASM_ARENA_CAPACITY_BYTES boot_rt = Some boot_staged" "arena_ok boot_staged"
proof -
  show i: "arena_init CELWASM_ARENA_CAPACITY_BYTES boot_rt = Some boot_staged"
    by (simp add: boot_staged_def arena_init_def boot_rt_def alloc_chunk_def malloc_def Let_def sample_malloc_def)
  have it: "initialized boot_staged"
    by (simp add: boot_staged_def arena_init_def boot_rt_def alloc_chunk_def malloc_def Let_def sample_malloc_def)
  show "arena_ok boot_staged"
    by (rule arena_init_fresh(1) [OF boot_malloc_ok _ _ _ i it]) (simp_all add: boot_rt_def)
qed

lemma sample_entries_ok: "room_for (64 + 60 * length sample_entries) sample_builder" "keys_in_builder sample_builder sample_entries"
  by (auto simp: keys_in_builder_def key_in_builder_def is_valid_map_key_kind_def cell_of_def intro!: sample_builder_ok)

lemma sample_entries_run:
  obtains mm b' where "materialize_map sample_entries sample_builder boot_rt = Some (Some mm, b', boot_rt)"
    "grows sample_builder b'" "below_runtime b'" "map_ok (with_segment b') (map_frame_offset mm)"
proof -
  let ?d = "\<lparr>materializable = True, decided_index = None\<rparr>"
  have r: "room_for (40 + 48 * length sample_entries + length (index_image (decided_index ?d))) sample_builder"
    by (rule sample_builder_ok) (simp add: index_image_def)
  have d: "stage_and_decide_index sample_entries (smb_buf sample_builder) (smb_base sample_builder) boot_rt = Some (?d, boot_rt)"
    by (simp add: stage_and_decide_index_def)
  obtain mm b' where run: "materialize_map sample_entries sample_builder boot_rt = Some (Some mm, b', boot_rt)"
    "b' = append_bytes sample_builder (map_image sample_entries None sample_builder @ cell_le (aggregate_frame CEL_MAP_ARENA sample_builder))"
    using materialize_map_eq [OF sample_builder_ok(1) r d] by (simp add: Let_def)
  have low: "below_runtime b'" by (simp add: run(2) below_runtime_def length_map_image index_image_def sample_builder_def)
  have c: "grows sample_builder b'" "\<forall>t. loaded b' (mem t) \<and> below_runtime b' \<longrightarrow> map_ok t (map_frame_offset mm)"
    using materialize_map_correct [OF sample_builder_ok(1) sample_entries_ok boot_staged] run(1) by auto
  then show thesis using that run(1) low with_segment_loaded [of b'] by (auto simp: grows_def)
qed

theorem materialized_map_is_map_witness:
  "\<exists>mm b'. materialize_map sample_entries sample_builder boot_rt = Some (Some mm, b', boot_rt)
     \<and> map_ok (with_segment b') (map_frame_offset mm)"
proof -
  obtain mm b' where run: "materialize_map sample_entries sample_builder boot_rt = Some (Some mm, b', boot_rt)" "below_runtime b'" "grows sample_builder b'"
    using sample_entries_run by blast
  have room: "\<not> refused (staging_requests (map fst sample_entries)) (arena_reset boot_staged)"
    by (simp add: staging_requests_def key_requests_def cell_of_def)
  have "map_ok (with_segment b') (map_frame_offset mm)"
    using materialized_map_is_map [OF sample_builder_ok(1) sample_entries_ok boot_staged] room run with_segment_loaded [of b'] by (auto simp: grows_def)
  then show ?thesis using run(1) by blast
qed

text \<open>Looking the map's own frame up, a value that is no key.\<close>

theorem static_map_lookup_witness:
  "\<exists>mm b' t'. materialize_map sample_entries sample_builder boot_rt = Some (Some mm, b', boot_rt)
     \<and> cel_map_lookup weak_host 400 (map_frame_offset mm) (map_frame_offset mm) (with_segment b') = Some t' \<and> is_err (cv t' 400) CEL_ERR_NO_SUCH_KEY"
proof -
  obtain mm b' where run: "materialize_map sample_entries sample_builder boot_rt = Some (Some mm, b', boot_rt)" "below_runtime b'" "grows sample_builder b'"
    "map_ok (with_segment b') (map_frame_offset mm)"
    using sample_entries_run by blast
  have k: "cv_kind (cv (with_segment b') (map_frame_offset mm)) = CEL_MAP_ARENA" using run(4) by (simp add: map_ok_def)
  then have "\<not> poisoned (cv (with_segment b') (map_frame_offset mm))" "scalar_of (mem (with_segment b')) (cv (with_segment b') (map_frame_offset mm)) = None"
    by (simp_all add: poisoned_def scalar_of_def is_numeric_kind_def)
  from static_map_lookup [OF sample_builder_ok(1) sample_entries_ok boot_staged run(1) _ run(2) this(1), of weak_host 400, unfolded this(2)] show ?thesis
    using run with_segment_loaded [of b'] by (auto simp: grows_def)
qed

end
