(* ===== verification/Attributes.thy ===== *)
theory Attributes
  imports Prelude "HOL-Library.Sublist" "HOL-Library.List_Lexorder"
begin

text \<open>
  Attribute paths and patterns of partial evaluation (\<open>eval/attribute.h\<close>, \<open>eval/attribute.cc\<close>): the pattern grammar's state
  machine, the three-valued match, rendering and the order on attributes. A string is the list of its bytes, ordered
  lexicographically as \<open>std::string\<close> orders them; the ASCII classes of the utility library are a parameter.
\<close>

subsection \<open>Attributes\<close>

datatype attribute = Attribute (variable_name: "u8 list") (qualifier_path: "u8 list list")

definition has_variable_name :: "attribute \<Rightarrow> bool" where
  "has_variable_name a \<longleftrightarrow> variable_name a \<noteq> []"

text \<open>The loop of \<open>operator<\<close> over the common positions, then the lengths.\<close>

fun path_less :: "u8 list list \<Rightarrow> u8 list list \<Rightarrow> bool" where
  "path_less (a # as) (b # bs) = (if a < b then True else if b < a then False else path_less as bs)"
| "path_less as bs = (length as < length bs)"

definition attribute_less :: "attribute \<Rightarrow> attribute \<Rightarrow> bool" where
  "attribute_less a b =
     (if variable_name a \<noteq> variable_name b then variable_name a < variable_name b
      else path_less (qualifier_path a) (qualifier_path b))"

datatype attribute_error =
    UnprintableQualifier
  | PatternEmpty
  | TrailingDot
  | StarRoot
  | EmptySegment
  | StarAdjacent
  | BracketInSegment
  | WhitespaceInSegment
  | UnexpectedCharacter u8

text \<open>A \<open>char\<close> below the space, where plain \<open>char\<close> is signed or not, or the quote.\<close>

definition unprintable :: "bool \<Rightarrow> u8 \<Rightarrow> bool" where
  "unprintable char_signed c \<longleftrightarrow> (if char_signed then sint c < 0x20 else uint c < 0x20) \<or> c = 0x22"

definition as_canonical_string :: "bool \<Rightarrow> u8 list \<Rightarrow> attribute_error + u8 list" where
  "as_canonical_string char_signed v =
     (if list_ex (unprintable char_signed) v then Inl UnprintableQualifier else Inr ([0x5B, 0x22] @ v @ [0x22, 0x5D]))"

fun qualifier_pieces :: "bool \<Rightarrow> u8 list list \<Rightarrow> attribute_error + u8 list" where
  "qualifier_pieces char_signed [] = Inr []"
| "qualifier_pieces char_signed (q # qs) =
     (case as_canonical_string char_signed q of
        Inl e \<Rightarrow> Inl e
      | Inr _ \<Rightarrow> (case qualifier_pieces char_signed qs of Inl e \<Rightarrow> Inl e | Inr s \<Rightarrow> Inr (0x2E # q @ s)))"

definition as_string :: "bool \<Rightarrow> attribute \<Rightarrow> attribute_error + u8 list" where
  "as_string char_signed a =
     (case qualifier_pieces char_signed (qualifier_path a) of Inl e \<Rightarrow> Inl e | Inr s \<Rightarrow> Inr (variable_name a @ s))"

subsection \<open>Patterns\<close>

text \<open>A qualifier pattern is the optional qualifier of the code: without one it is the wildcard.\<close>

type_synonym qualifier_pattern = "u8 list option"

definition qualifier_is_match :: "qualifier_pattern \<Rightarrow> u8 list \<Rightarrow> bool" where
  "qualifier_is_match p q = (case p of None \<Rightarrow> True | Some v \<Rightarrow> v = q)"

datatype attribute_pattern = AttributePattern (pattern_variable: "u8 list") (pattern_path: "qualifier_pattern list")

datatype match_type = MatchNone | MatchPartial | MatchFull

fun match_positions :: "nat \<Rightarrow> qualifier_pattern list \<Rightarrow> u8 list list \<Rightarrow> match_type \<Rightarrow> match_type" where
  "match_positions 0 ps qs result = result"
| "match_positions (Suc n) ps qs result =
     (if \<not> qualifier_is_match (hd ps) (hd qs) then MatchNone else match_positions n (tl ps) (tl qs) result)"

definition pattern_is_match :: "attribute_pattern \<Rightarrow> attribute \<Rightarrow> match_type" where
  "pattern_is_match p a =
     (if variable_name a \<noteq> pattern_variable p then MatchNone
      else (let (max_index, result) =
          (if length (pattern_path p) > length (qualifier_path a) then (length (qualifier_path a), MatchPartial)
           else (length (pattern_path p), MatchFull)) in
        match_positions max_index (pattern_path p) (qualifier_path a) result))"

subsection \<open>The pattern parser\<close>

record char_classes =
  ascii_isalpha :: "u8 \<Rightarrow> bool"
  ascii_isalnum :: "u8 \<Rightarrow> bool"
  ascii_isspace :: "u8 \<Rightarrow> bool"

definition is_ident_start :: "char_classes \<Rightarrow> u8 \<Rightarrow> bool" where
  "is_ident_start lib c \<longleftrightarrow> ascii_isalpha lib c \<or> c = 0x5F"

definition is_ident_cont :: "char_classes \<Rightarrow> u8 \<Rightarrow> bool" where
  "is_ident_cont lib c \<longleftrightarrow> ascii_isalnum lib c \<or> c = 0x5F"

definition bad_char_reason :: "char_classes \<Rightarrow> u8 \<Rightarrow> attribute_error" where
  "bad_char_reason lib c =
     (if c = 0x5B \<or> c = 0x5D then BracketInSegment
      else if ascii_isspace lib c then WhitespaceInSegment else UnexpectedCharacter c)"

datatype parser_state = SegStart | InIdent | AfterStar

record pattern_parser =
  parsed_variable :: "u8 list"
  parsed_path :: "qualifier_pattern list"
  have_root :: bool
  seg_begin :: nat
  parser_at :: parser_state

definition new_parser :: pattern_parser where
  "new_parser = \<lparr>parsed_variable = [], parsed_path = [], have_root = False, seg_begin = 0, parser_at = SegStart\<rparr>"

definition parser_commit :: "u8 list \<Rightarrow> nat \<Rightarrow> bool \<Rightarrow> pattern_parser \<Rightarrow> pattern_parser" where
  "parser_commit dotted seg_end is_star s =
     (let seg = take (seg_end - seg_begin s) (drop (seg_begin s) dotted) in
      if \<not> have_root s then s\<lparr>parsed_variable := seg, have_root := True\<rparr>
      else if is_star then s\<lparr>parsed_path := parsed_path s @ [None]\<rparr>
      else s\<lparr>parsed_path := parsed_path s @ [Some seg]\<rparr>)"

definition step_seg_start :: "char_classes \<Rightarrow> nat \<Rightarrow> u8 \<Rightarrow> pattern_parser \<Rightarrow> attribute_error + pattern_parser" where
  "step_seg_start lib i c s =
     (if is_ident_start lib c then Inr (s\<lparr>seg_begin := i, parser_at := InIdent\<rparr>)
      else if c = 0x2A \<and> have_root s then Inr (s\<lparr>seg_begin := i, parser_at := AfterStar\<rparr>)
      else if c = 0x2A then Inl StarRoot
      else if c = 0x2E then Inl EmptySegment
      else Inl (bad_char_reason lib c))"

definition step_in_ident :: "char_classes \<Rightarrow> u8 list \<Rightarrow> nat \<Rightarrow> u8 \<Rightarrow> pattern_parser \<Rightarrow> attribute_error + pattern_parser" where
  "step_in_ident lib dotted i c s =
     (if is_ident_cont lib c then Inr s
      else if c = 0x2E then Inr ((parser_commit dotted i False s)\<lparr>parser_at := SegStart\<rparr>)
      else Inl (bad_char_reason lib c))"

definition step_after_star :: "u8 list \<Rightarrow> u8 \<Rightarrow> pattern_parser \<Rightarrow> attribute_error + pattern_parser" where
  "step_after_star dotted c s =
     (if c \<noteq> 0x2E then Inl StarAdjacent
      else Inr ((parser_commit dotted (seg_begin s + 1) True s)\<lparr>parser_at := SegStart\<rparr>))"

definition parser_step :: "char_classes \<Rightarrow> u8 list \<Rightarrow> nat \<Rightarrow> u8 \<Rightarrow> pattern_parser \<Rightarrow> attribute_error + pattern_parser" where
  "parser_step lib dotted i c s =
     (case parser_at s of
        SegStart \<Rightarrow> step_seg_start lib i c s
      | InIdent \<Rightarrow> step_in_ident lib dotted i c s
      | AfterStar \<Rightarrow> step_after_star dotted c s)"

text \<open>The loop over the characters from a position, and the end of \<open>Run\<close>.\<close>

function parser_loop :: "char_classes \<Rightarrow> u8 list \<Rightarrow> nat \<Rightarrow> pattern_parser \<Rightarrow> attribute_error + pattern_parser" where
  "parser_loop lib dotted i s =
     (if i < length dotted
      then (case parser_step lib dotted i (dotted ! i) s of Inl e \<Rightarrow> Inl e | Inr s \<Rightarrow> parser_loop lib dotted (i + 1) s)
      else Inr s)"
  by pat_completeness auto
termination by (relation "measure (\<lambda>(lib, dotted, i, s). length dotted - i)") auto

declare parser_loop.simps [simp del]

definition parse_attribute_pattern :: "char_classes \<Rightarrow> u8 list \<Rightarrow> attribute_error + attribute_pattern" where
  "parse_attribute_pattern lib dotted =
     (case parser_loop lib dotted 0 new_parser of
        Inl e \<Rightarrow> Inl e
      | Inr s \<Rightarrow>
          if parser_at s = SegStart then Inl (if dotted = [] then PatternEmpty else TrailingDot)
          else (let s = parser_commit dotted (length dotted) (parser_at s = AfterStar) s in
            Inr (AttributePattern (parsed_variable s) (parsed_path s))))"

subsection \<open>The order on attributes\<close>

lemma Nil_less_path: "[] < (bs :: u8 list list) \<longleftrightarrow> bs \<noteq> []"
  by (cases bs) auto

lemma path_less_lex: "path_less as bs \<longleftrightarrow> as < bs"
  by (induction as bs rule: path_less.induct) (auto simp: Nil_less_path)

lemma attribute_less_lex: "attribute_less a b \<longleftrightarrow> variable_name a # qualifier_path a < variable_name b # qualifier_path b"
  by (auto simp: attribute_less_def path_less_lex)

instantiation attribute :: linorder
begin

definition less_attribute :: "attribute \<Rightarrow> attribute \<Rightarrow> bool" where "less_attribute a b = attribute_less a b"
definition less_eq_attribute :: "attribute \<Rightarrow> attribute \<Rightarrow> bool" where "less_eq_attribute a b \<longleftrightarrow> attribute_less a b \<or> a = b"

instance
  by standard (auto simp: less_attribute_def less_eq_attribute_def attribute_less_lex intro: attribute.expand)

end

subsection \<open>Matching\<close>

text \<open>The attributes a pattern names: those whose path starts with qualifiers that match position by position.\<close>

definition path_matches :: "qualifier_pattern list \<Rightarrow> u8 list list \<Rightarrow> bool" where
  "path_matches ps qs \<longleftrightarrow> length ps \<le> length qs \<and> list_all2 qualifier_is_match ps (take (length ps) qs)"

definition named_by :: "attribute_pattern \<Rightarrow> attribute set" where
  "named_by p = {a. variable_name a = pattern_variable p \<and> path_matches (pattern_path p) (qualifier_path a)}"

fun below :: "attribute \<Rightarrow> u8 list list \<Rightarrow> attribute" where
  "below (Attribute v qs) ext = Attribute v (qs @ ext)"

lemma match_positions_all:
  "n \<le> length ps \<Longrightarrow> n \<le> length qs \<Longrightarrow>
   match_positions n ps qs r = (if list_all2 qualifier_is_match (take n ps) (take n qs) then r else MatchNone)"
proof (induction n arbitrary: ps qs)
  case (Suc n)
  then obtain p ps' q qs' where "ps = p # ps'" "qs = q # qs'" by (cases ps; cases qs) auto
  then show ?case using Suc by simp
qed simp

text \<open>A matching qualifier exists for every pattern, so a path can be completed to one that matches.\<close>

definition completion :: "qualifier_pattern list \<Rightarrow> u8 list list" where
  "completion ps = map (\<lambda>p. case p of None \<Rightarrow> [] | Some v \<Rightarrow> v) ps"

lemma completion_matches: "list_all2 qualifier_is_match ps (completion ps)"
  by (induction ps) (auto simp: completion_def qualifier_is_match_def split: option.splits)

lemma path_matches_extend:
  assumes "length qs < length ps"
  shows "(\<exists>ext. path_matches ps (qs @ ext)) \<longleftrightarrow> list_all2 qualifier_is_match (take (length qs) ps) qs"
proof
  assume "\<exists>ext. path_matches ps (qs @ ext)"
  then obtain ext where "list_all2 qualifier_is_match ps (take (length ps) (qs @ ext))" by (auto simp: path_matches_def)
  then have "list_all2 qualifier_is_match (take (length qs) ps) (take (length qs) (take (length ps) (qs @ ext)))" by (rule list_all2_takeI)
  then show "list_all2 qualifier_is_match (take (length qs) ps) qs" using assms by (simp add: min_def)
next
  assume a: "list_all2 qualifier_is_match (take (length qs) ps) qs"
  let ?ext = "completion (drop (length qs) ps)"
  have "list_all2 qualifier_is_match (take (length qs) ps @ drop (length qs) ps) (qs @ ?ext)"
    using a completion_matches by (rule list_all2_appendI)
  moreover have "length ?ext = length ps - length qs" by (simp add: completion_def)
  ultimately have "path_matches ps (qs @ ?ext)" using assms by (simp add: path_matches_def)
  then show "\<exists>ext. path_matches ps (qs @ ext)" by blast
qed

lemma path_matches_nothing_short: "length qs < length ps \<Longrightarrow> \<not> path_matches ps qs"
  by (simp add: path_matches_def)

subsection \<open>The grammar\<close>

definition classes_ok :: "char_classes \<Rightarrow> bool" where
  "classes_ok lib \<longleftrightarrow> (\<forall>c. ascii_isalpha lib c \<longleftrightarrow> 0x41 \<le> c \<and> c \<le> 0x5A \<or> 0x61 \<le> c \<and> c \<le> 0x7A)
     \<and> (\<forall>c. ascii_isalnum lib c \<longleftrightarrow> ascii_isalpha lib c \<or> 0x30 \<le> c \<and> c \<le> 0x39)
     \<and> (\<forall>c. ascii_isspace lib c \<longleftrightarrow> c = 0x20 \<or> 0x09 \<le> c \<and> c \<le> 0x0D)"

fun is_ident :: "char_classes \<Rightarrow> u8 list \<Rightarrow> bool" where
  "is_ident lib [] = False"
| "is_ident lib (c # cs) = (is_ident_start lib c \<and> list_all (is_ident_cont lib) cs)"

definition qualifier_text :: "qualifier_pattern \<Rightarrow> u8 list" where
  "qualifier_text q = (case q of None \<Rightarrow> [0x2A] | Some v \<Rightarrow> v)"

definition path_text :: "qualifier_pattern list \<Rightarrow> u8 list" where
  "path_text qs = concat (map (\<lambda>q. 0x2E # qualifier_text q) qs)"

definition pattern_text :: "attribute_pattern \<Rightarrow> u8 list" where
  "pattern_text p = pattern_variable p @ path_text (pattern_path p)"

definition path_wf :: "char_classes \<Rightarrow> qualifier_pattern list \<Rightarrow> bool" where
  "path_wf lib qs \<longleftrightarrow> (\<forall>v. Some v \<in> set qs \<longrightarrow> is_ident lib v)"

definition pattern_wf :: "char_classes \<Rightarrow> attribute_pattern \<Rightarrow> bool" where
  "pattern_wf lib p \<longleftrightarrow> is_ident lib (pattern_variable p) \<and> path_wf lib (pattern_path p)"

lemma path_text_append [simp]: "path_text (qs @ rs) = path_text qs @ path_text rs" "path_text [] = []"
  "path_text [q] = 0x2E # qualifier_text q"
  by (simp_all add: path_text_def)

lemma ident_cont: "classes_ok lib \<Longrightarrow> is_ident_start lib c \<Longrightarrow> is_ident_cont lib c"
  by (auto simp: classes_ok_def is_ident_start_def is_ident_cont_def)

lemma dot_star_not_ident: "classes_ok lib \<Longrightarrow> \<not> is_ident_cont lib 0x2E \<and> \<not> is_ident_start lib 0x2A \<and> \<not> is_ident_start lib 0x2E"
  by (simp add: classes_ok_def is_ident_start_def is_ident_cont_def)

lemma ident_snoc: "classes_ok lib \<Longrightarrow> is_ident lib v \<Longrightarrow> is_ident lib (v @ [c]) \<longleftrightarrow> is_ident_cont lib c"
  by (cases v) auto

text \<open>What the parser has consumed, state by state: complete segments, then the one being read.\<close>

definition committed :: "pattern_parser \<Rightarrow> u8 list" where
  "committed s = (if have_root s then parsed_variable s @ path_text (parsed_path s) @ [0x2E] else [])"

definition parser_inv :: "char_classes \<Rightarrow> u8 list \<Rightarrow> nat \<Rightarrow> pattern_parser \<Rightarrow> bool" where
  "parser_inv lib dotted i s \<longleftrightarrow> i \<le> length dotted \<and> path_wf lib (parsed_path s)
     \<and> (if have_root s then is_ident lib (parsed_variable s) else parsed_path s = [])
     \<and> (case parser_at s of
          SegStart \<Rightarrow> take i dotted = committed s
        | InIdent \<Rightarrow> seg_begin s = length (committed s) \<and> (\<exists>v. take i dotted = committed s @ v \<and> is_ident lib v)
        | AfterStar \<Rightarrow> have_root s \<and> seg_begin s = length (committed s) \<and> take i dotted = committed s @ [0x2A])"

lemma parser_commit_ident:
  assumes "seg_begin s = length (committed s)" "take i dotted = committed s @ v" "i \<le> length dotted"
  shows "parser_commit dotted i False s = (if have_root s then s\<lparr>parsed_path := parsed_path s @ [Some v]\<rparr> else s\<lparr>parsed_variable := v, have_root := True\<rparr>)"
proof -
  have "i = length (committed s @ v)" using assms(2,3) by (metis length_take min.absorb2)
  moreover have "dotted = (committed s @ v) @ drop i dotted" using assms(2) by (metis append_take_drop_id)
  ultimately have "take (i - seg_begin s) (drop (seg_begin s) dotted) = v" using assms(1) by (metis add_diff_cancel_left' append.assoc append_eq_conv_conj length_append)
  then show ?thesis by (simp add: parser_commit_def)
qed

lemma take_next: "i < length xs \<Longrightarrow> take (Suc i) xs = take i xs @ [xs ! i]"
  by (rule take_Suc_conv_app_nth)

lemma parser_step_inv:
  assumes ok: "classes_ok lib" and inv: "parser_inv lib dotted i s" and i: "i < length dotted"
    and step: "parser_step lib dotted i (dotted ! i) s = Inr s'"
  shows "parser_inv lib dotted (Suc i) s'"
proof (cases "parser_at s")
  case SegStart
  have len: "i = length (committed s)" using inv SegStart i by (simp add: parser_inv_def) (metis length_take min.absorb4)
  show ?thesis
    using inv SegStart step i len
    by (auto simp: parser_inv_def parser_step_def step_seg_start_def take_next committed_def split: if_splits)
next
  case InIdent
  then obtain v where v: "take i dotted = committed s @ v" "is_ident lib v" and seg: "seg_begin s = length (committed s)"
    using inv by (auto simp: parser_inv_def)
  show ?thesis
  proof (cases "is_ident_cont lib (dotted ! i)")
    case True
    then show ?thesis
      using inv InIdent step i v seg ident_snoc[OF ok v(2), of "dotted ! i"]
      by (auto simp: parser_inv_def parser_step_def step_in_ident_def take_next)
  next
    case False
    then have dot: "dotted ! i = 0x2E" and s': "s' = (parser_commit dotted i False s)\<lparr>parser_at := SegStart\<rparr>"
      using step InIdent by (auto simp: parser_step_def step_in_ident_def split: if_splits)
    show ?thesis
      using inv InIdent v i unfolding s' parser_commit_ident[OF seg v(1) less_imp_le[OF i]]
      by (auto simp: parser_inv_def take_next dot committed_def path_wf_def qualifier_text_def)
  qed
next
  case AfterStar
  then have dot: "dotted ! i = 0x2E" and s': "s' = (parser_commit dotted (seg_begin s + 1) True s)\<lparr>parser_at := SegStart\<rparr>"
    using step by (auto simp: parser_step_def step_after_star_def split: if_splits)
  show ?thesis
    using inv AfterStar i unfolding s'
    by (auto simp: parser_inv_def take_next dot committed_def path_wf_def qualifier_text_def parser_commit_def Let_def)
qed

lemma parser_loop_inv:
  "classes_ok lib \<Longrightarrow> parser_inv lib dotted i s \<Longrightarrow> parser_loop lib dotted i s = Inr s' \<Longrightarrow> parser_inv lib dotted (length dotted) s'"
proof (induction lib dotted i s rule: parser_loop.induct)
  case (1 lib dotted i s)
  show ?case
  proof (cases "i < length dotted")
    case True
    then obtain s1 where s1: "parser_step lib dotted i (dotted ! i) s = Inr s1" and r: "parser_loop lib dotted (i + 1) s1 = Inr s'"
      using 1(4) by (subst (asm) parser_loop.simps) (auto split: sum.splits)
    have "parser_inv lib dotted (i + 1) s1" using parser_step_inv[OF 1(2,3) True s1] by simp
    then show ?thesis using 1(1)[OF True s1 1(2)] r by blast
  next
    case False
    then have "s' = s" using 1(4) by (subst (asm) parser_loop.simps) simp
    moreover have "i = length dotted" using False 1(3) by (simp add: parser_inv_def)
    ultimately show ?thesis using 1(3) by simp
  qed
qed

lemma parse_sound:
  assumes ok: "classes_ok lib" and p: "parse_attribute_pattern lib dotted = Inr p"
  shows "pattern_wf lib p \<and> dotted = pattern_text p"
proof -
  obtain s where s: "parser_loop lib dotted 0 new_parser = Inr s" and at: "parser_at s \<noteq> SegStart"
    and peq: "p = (let s = parser_commit dotted (length dotted) (parser_at s = AfterStar) s in
                AttributePattern (parsed_variable s) (parsed_path s))"
    using p by (auto simp: parse_attribute_pattern_def Let_def split: sum.splits if_splits)
  have "parser_inv lib dotted 0 new_parser" by (simp add: parser_inv_def new_parser_def committed_def path_wf_def)
  then have inv: "parser_inv lib dotted (length dotted) s" using parser_loop_inv[OF ok _ s] by blast
  show ?thesis
  proof (cases "parser_at s")
    case InIdent
    then obtain v where v: "take (length dotted) dotted = committed s @ v" "is_ident lib v" and seg: "seg_begin s = length (committed s)"
      using inv by (auto simp: parser_inv_def)
    have "parser_commit dotted (length dotted) False s =
        (if have_root s then s\<lparr>parsed_path := parsed_path s @ [Some v]\<rparr> else s\<lparr>parsed_variable := v, have_root := True\<rparr>)"
      by (rule parser_commit_ident[OF seg v(1)]) simp
    then show ?thesis
      using inv v InIdent peq
      by (auto simp: parser_inv_def pattern_wf_def path_wf_def pattern_text_def committed_def qualifier_text_def Let_def split: if_splits)
  next
    case AfterStar
    then show ?thesis
      using inv peq
      by (auto simp: parser_inv_def pattern_wf_def path_wf_def pattern_text_def committed_def qualifier_text_def Let_def parser_commit_def)
  qed (use at in simp)
qed

text \<open>The other direction: the loop reads an identifier to its end, then the segments that follow.\<close>

lemma parser_loop_ident:
  "parser_at s = InIdent \<Longrightarrow> list_all (is_ident_cont lib) cs \<Longrightarrow> i \<le> length dotted \<Longrightarrow> drop i dotted = cs @ rest \<Longrightarrow>
   parser_loop lib dotted i s = parser_loop lib dotted (i + length cs) s"
proof (induction cs arbitrary: i)
  case (Cons c cs)
  have i: "i < length dotted" using Cons.prems(4) by (metis append_Cons drop_all list.distinct(1) not_le)
  have c: "dotted ! i = c" "drop (Suc i) dotted = cs @ rest"
    using Cons.prems(4) i Cons_nth_drop_Suc[OF i] by auto
  have "parser_loop lib dotted i s = parser_loop lib dotted (Suc i) s"
    using Cons.prems i c by (subst parser_loop.simps) (simp add: parser_step_def step_in_ident_def)
  then show ?case using Cons.IH[of "Suc i"] Cons.prems c i by simp
qed simp

lemma drop_eq_Cons: "drop i xs = c # cs \<Longrightarrow> i < length xs \<and> xs ! i = c \<and> drop (Suc i) xs = cs"
  by (metis Cons_nth_drop_Suc drop_all list.distinct(1) list.inject not_le)

lemma parser_loop_step:
  "drop i dotted = c # cs \<Longrightarrow> parser_step lib dotted i c s = Inr t \<Longrightarrow> parser_loop lib dotted i s = parser_loop lib dotted (Suc i) t"
  by (drule drop_eq_Cons) (subst parser_loop.simps, simp)

lemma parser_loop_ident_segment:
  assumes ok: "classes_ok lib" and at: "parser_at t = SegStart" and v: "is_ident lib v" and dt: "drop i dotted = v @ rest"
  shows "parser_loop lib dotted i t = parser_loop lib dotted (i + length v) (t\<lparr>seg_begin := i, parser_at := InIdent\<rparr>)"
proof -
  obtain c cs where v': "v = c # cs" "is_ident_start lib c" "list_all (is_ident_cont lib) cs" using v by (cases v) auto
  have d: "drop i dotted = c # cs @ rest" using dt v' by simp
  have "parser_loop lib dotted i t = parser_loop lib dotted (Suc i) (t\<lparr>seg_begin := i, parser_at := InIdent\<rparr>)"
    by (rule parser_loop_step[OF d]) (simp add: parser_step_def step_seg_start_def at v')
  also have "\<dots> = parser_loop lib dotted (Suc i + length cs) (t\<lparr>seg_begin := i, parser_at := InIdent\<rparr>)"
    by (rule parser_loop_ident[where rest = rest]) (use v' drop_eq_Cons[OF d] in auto)
  finally show ?thesis using v' by simp
qed

lemma parser_loop_star_segment:
  assumes ok: "classes_ok lib" and at: "parser_at t = SegStart" "have_root t" and dt: "drop i dotted = 0x2A # rest"
  shows "parser_loop lib dotted i t = parser_loop lib dotted (Suc i) (t\<lparr>seg_begin := i, parser_at := AfterStar\<rparr>)"
  by (rule parser_loop_step[OF dt]) (use dot_star_not_ident[OF ok] at in \<open>auto simp: parser_step_def step_seg_start_def\<close>)

text \<open>A segment has been read up to \<open>i\<close>: the state that commits it there.\<close>

definition segment_end :: "u8 list \<Rightarrow> nat \<Rightarrow> pattern_parser \<Rightarrow> pattern_parser" where
  "segment_end dotted i s = parser_commit dotted i (parser_at s = AfterStar) s"

definition segment_read :: "nat \<Rightarrow> pattern_parser \<Rightarrow> bool" where
  "segment_read i s \<longleftrightarrow> parser_at s \<noteq> SegStart \<and> (parser_at s = AfterStar \<longrightarrow> seg_begin s + 1 = i)"

lemma segment_end_root [simp]: "have_root (segment_end dotted i s)"
  by (simp add: segment_end_def parser_commit_def Let_def)

lemma parser_loop_dot:
  assumes ok: "classes_ok lib" and s: "segment_read i s" and dt: "drop i dotted = 0x2E # rest"
  shows "parser_loop lib dotted i s = parser_loop lib dotted (Suc i) ((segment_end dotted i s)\<lparr>parser_at := SegStart\<rparr>)"
  by (rule parser_loop_step[OF dt], cases "parser_at s")
    (use s dot_star_not_ident[OF ok] in \<open>auto simp: parser_step_def step_in_ident_def step_after_star_def segment_end_def segment_read_def\<close>)

text \<open>The next segment: the loop reaches its end in a state whose commit adds its qualifier.\<close>

lemma parser_loop_qualifier:
  assumes ok: "classes_ok lib" and at: "parser_at t = SegStart" "have_root t" and wf: "path_wf lib [q]"
    and dt: "drop i dotted = qualifier_text q @ rest"
  shows "\<exists>u. parser_loop lib dotted i t = parser_loop lib dotted (i + length (qualifier_text q)) u
     \<and> segment_read (i + length (qualifier_text q)) u
     \<and> parsed_variable (segment_end dotted (i + length (qualifier_text q)) u) = parsed_variable t
     \<and> parsed_path (segment_end dotted (i + length (qualifier_text q)) u) = parsed_path t @ [q]"
proof (cases q)
  case None
  then have "drop i dotted = 0x2A # rest" using dt by (simp add: qualifier_text_def)
  from parser_loop_star_segment[OF ok at this] show ?thesis
    by (intro exI[of _ "t\<lparr>seg_begin := i, parser_at := AfterStar\<rparr>"])
      (simp add: None qualifier_text_def segment_read_def segment_end_def parser_commit_def at)
next
  case (Some v)
  then have v: "is_ident lib v" and t: "drop i dotted = v @ rest" using wf dt by (auto simp: path_wf_def qualifier_text_def)
  from parser_loop_ident_segment[OF ok at(1) v t] show ?thesis
    by (intro exI[of _ "t\<lparr>seg_begin := i, parser_at := InIdent\<rparr>"])
      (simp add: Some qualifier_text_def segment_read_def segment_end_def parser_commit_def at t)
qed

lemma parser_loop_segments:
  "classes_ok lib \<Longrightarrow> path_wf lib qs \<Longrightarrow> i \<le> length dotted \<Longrightarrow> drop i dotted = path_text qs \<Longrightarrow> segment_read i s \<Longrightarrow>
   \<exists>s'. parser_loop lib dotted i s = Inr s' \<and> segment_read (length dotted) s'
     \<and> parsed_variable (segment_end dotted (length dotted) s') = parsed_variable (segment_end dotted i s)
     \<and> parsed_path (segment_end dotted (length dotted) s') = parsed_path (segment_end dotted i s) @ qs"
proof (induction qs arbitrary: i s)
  case Nil
  then have "i = length dotted" by simp
  then show ?case using Nil by (subst parser_loop.simps) simp
next
  case (Cons q qs)
  define t where "t = (segment_end dotted i s)\<lparr>parser_at := SegStart\<rparr>"
  let ?j = "Suc i + length (qualifier_text q)"
  have dt: "drop i dotted = 0x2E # (qualifier_text q @ path_text qs)"
    using Cons.prems(4) by (simp add: path_text_def)
  have rest: "drop (Suc i) dotted = qualifier_text q @ path_text qs" using drop_eq_Cons[OF dt] by simp
  have wf: "path_wf lib [q]" "path_wf lib qs" using Cons.prems(2) by (auto simp: path_wf_def)
  have loop1: "parser_loop lib dotted i s = parser_loop lib dotted (Suc i) t"
    unfolding t_def by (rule parser_loop_dot[OF Cons.prems(1) Cons.prems(5) dt])
  obtain u where u: "parser_loop lib dotted (Suc i) t = parser_loop lib dotted ?j u" "segment_read ?j u"
      "parsed_variable (segment_end dotted ?j u) = parsed_variable t" "parsed_path (segment_end dotted ?j u) = parsed_path t @ [q]"
    using parser_loop_qualifier[OF Cons.prems(1) _ _ wf(1) rest, of t] by (auto simp: t_def)
  have d: "drop ?j dotted = path_text qs" using arg_cong[OF rest, of "drop (length (qualifier_text q))"] by (simp add: add.commute)
  have j: "?j \<le> length dotted"
  proof -
    have "length dotted - Suc i = length (qualifier_text q) + length (path_text qs)" by (metis rest length_drop length_append)
    then show ?thesis using drop_eq_Cons[OF dt] by arith
  qed
  from Cons.IH[OF Cons.prems(1) wf(2) j d u(2)] show ?case using loop1 u by (simp add: t_def)
qed

lemma parse_complete:
  assumes ok: "classes_ok lib" and wf: "pattern_wf lib p" and dt: "dotted = pattern_text p"
  shows "parse_attribute_pattern lib dotted = Inr p"
proof -
  let ?v = "pattern_variable p" and ?qs = "pattern_path p"
  define s where "s = new_parser\<lparr>seg_begin := 0, parser_at := InIdent\<rparr>"
  have v: "is_ident lib ?v" and qs: "path_wf lib ?qs" using wf by (auto simp: pattern_wf_def)
  have d: "drop 0 dotted = ?v @ path_text ?qs" using dt by (simp add: pattern_text_def)
  have loop: "parser_loop lib dotted 0 new_parser = parser_loop lib dotted (length ?v) s"
    using parser_loop_ident_segment[OF ok _ v d, of new_parser] by (simp add: s_def new_parser_def)
  have e: "parsed_variable (segment_end dotted (length ?v) s) = ?v" "parsed_path (segment_end dotted (length ?v) s) = []"
    using d by (simp_all add: s_def segment_end_def parser_commit_def new_parser_def)
  obtain s' where s': "parser_loop lib dotted (length ?v) s = Inr s'" "segment_read (length dotted) s'"
      "parsed_variable (segment_end dotted (length dotted) s') = ?v" "parsed_path (segment_end dotted (length dotted) s') = ?qs"
    using parser_loop_segments[OF ok qs, of "length ?v" dotted s] d e by (auto simp: s_def segment_read_def)
  then show ?thesis using loop
    by (simp add: parse_attribute_pattern_def segment_read_def segment_end_def Let_def)
qed

text \<open>What the parser accepts, all its own rules included: identifiers and lone stars.\<close>

lemma parse_pattern_exact:
  assumes "classes_ok lib"
  shows "parse_attribute_pattern lib dotted = Inr p \<longleftrightarrow> pattern_wf lib p \<and> dotted = pattern_text p"
  using parse_sound[OF assms] parse_complete[OF assms] by blast

text \<open>A segment that is a name: not empty, without a dot, and not the lone star. The texts the header calls malformed.\<close>

definition names_segment :: "u8 list \<Rightarrow> bool" where
  "names_segment v \<longleftrightarrow> v \<noteq> [] \<and> 0x2E \<notin> set v \<and> v \<noteq> [0x2A]"

definition malformed_dots :: "u8 list \<Rightarrow> bool" where
  "malformed_dots d \<longleftrightarrow> d = [] \<or> hd d = 0x2E \<or> last d = 0x2E \<or> (\<exists>a b. d = a @ [0x2E, 0x2E] @ b)"

lemma ident_names:
  assumes "classes_ok lib" "is_ident lib v"
  shows "names_segment v"
proof -
  obtain c cs where v: "v = c # cs" "is_ident_start lib c" "list_all (is_ident_cont lib) cs" using assms(2) by (cases v) auto
  then show ?thesis using dot_star_not_ident [OF assms(1)] by (auto simp: names_segment_def list_all_iff)
qed

abbreviation (input) "not_both_dots \<equiv> \<lambda>x y. \<not> (x = (0x2E :: u8) \<and> y = 0x2E)"

lemma no_dot_successively: "0x2E \<notin> set v \<Longrightarrow> successively not_both_dots v"
  by (induction v rule: induct_list012) auto

lemma joined_segments:
  "v \<noteq> [] \<Longrightarrow> 0x2E \<notin> set v \<Longrightarrow> \<forall>t\<in>set ts. t \<noteq> [] \<and> 0x2E \<notin> set t \<Longrightarrow>
   (let d = v @ concat (map ((#) 0x2E) ts) in hd d \<noteq> 0x2E \<and> last d \<noteq> 0x2E \<and> successively not_both_dots d)"
proof (induction ts arbitrary: v)
  case Nil
  then have "hd v \<noteq> 0x2E" "last v \<noteq> 0x2E" by (metis hd_in_set, metis last_in_set)
  then show ?case using Nil no_dot_successively [of v] by simp
next
  case (Cons t ts)
  let ?d = "t @ concat (map ((#) 0x2E) ts)"
  have d: "hd ?d \<noteq> 0x2E" "last ?d \<noteq> 0x2E" "successively not_both_dots ?d" "?d \<noteq> []"
    using Cons.IH [of t] Cons.prems(3) by (simp_all add: Let_def)
  have "successively not_both_dots (0x2E # ?d)" using d by (cases ?d) auto
  moreover have "hd v \<noteq> 0x2E" "last v \<noteq> 0x2E" using Cons.prems(1,2) by (metis hd_in_set, metis last_in_set)
  ultimately show ?case using Cons.prems(1,2) d no_dot_successively [of v]
    by (simp add: successively_append_iff Let_def)
qed

lemma pattern_text_dots:
  assumes "classes_ok lib" "pattern_wf lib p"
  shows "\<not> malformed_dots (pattern_text p)"
proof -
  have v: "pattern_variable p \<noteq> []" "0x2E \<notin> set (pattern_variable p)"
    using assms(2) ident_names [OF assms(1)] by (auto simp: pattern_wf_def names_segment_def)
  have "\<forall>t\<in>set (map qualifier_text (pattern_path p)). t \<noteq> [] \<and> 0x2E \<notin> set t"
    using assms(2) ident_names [OF assms(1)]
    by (auto simp: pattern_wf_def path_wf_def qualifier_text_def names_segment_def split: option.splits)
  note j = joined_segments [OF v this]
  have "pattern_variable p @ concat (map ((#) 0x2E) (map qualifier_text (pattern_path p))) = pattern_text p"
    by (simp add: pattern_text_def path_text_def comp_def)
  then have "hd (pattern_text p) \<noteq> 0x2E" "last (pattern_text p) \<noteq> 0x2E" "successively not_both_dots (pattern_text p)"
    using j unfolding Let_def by simp_all
  moreover have "pattern_text p \<noteq> []" using v(1) by (simp add: pattern_text_def)
  moreover have "\<not> successively not_both_dots (a @ [0x2E, 0x2E] @ b)" for a b by (simp add: successively_append_iff)
  ultimately show ?thesis unfolding malformed_dots_def by metis
qed


definition ascii_classes :: char_classes where
  "ascii_classes = \<lparr>ascii_isalpha = (\<lambda>c. 0x41 \<le> c \<and> c \<le> 0x5A \<or> 0x61 \<le> c \<and> c \<le> 0x7A),
     ascii_isalnum = (\<lambda>c. (0x41 \<le> c \<and> c \<le> 0x5A \<or> 0x61 \<le> c \<and> c \<le> 0x7A) \<or> 0x30 \<le> c \<and> c \<le> 0x39),
     ascii_isspace = (\<lambda>c. c = 0x20 \<or> 0x09 \<le> c \<and> c \<le> 0x0D)\<rparr>"


text \<open>C33. \<open>AttributePattern::IsMatch\<close> decides containment of attribute trees: a full match means that the pattern names the
attribute, a partial match that it names no prefix of it but something nested below it, and no match that it names neither the
attribute nor anything below it.\<close>

theorem pattern_match_exact:
  "(pattern_is_match p a = MatchFull) = (a \<in> named_by p)
   \<and> (pattern_is_match p a = MatchPartial) = (a \<notin> named_by p \<and> (\<exists>ext. below a ext \<in> named_by p))
   \<and> (pattern_is_match p a = MatchNone) = (\<forall>ext. below a ext \<notin> named_by p)"
proof -
  obtain v qs where a: "a = Attribute v qs" by (cases a)
  obtain w ps where p: "p = AttributePattern w ps" by (cases p)
  show ?thesis
  proof (cases "length qs < length ps")
    case True
    then show ?thesis
      using path_matches_extend[OF True] path_matches_nothing_short[OF True]
      by (auto simp: a p pattern_is_match_def named_by_def match_positions_all)
  next
    case False
    then show ?thesis
      by (auto simp: a p pattern_is_match_def named_by_def match_positions_all path_matches_def)
  qed
qed

end
