(* ===== verification/StrFormat.thy ===== *)
theory StrFormat
  imports Convert
begin

text \<open>
  The directive parser of \<open>format\<close> and its most-recent-format cache (\<open>runtime/cel_string_format.cc\<close>).
  A format is its bytes; positions in it are natural numbers, which an op keeps as 32-bit offsets.
  \<open>absl::SimpleAtoi\<close> is a parameter, and the diagnostics are the constructors of \<open>format_error\<close>.
\<close>

subsection \<open>Directives\<close>

datatype directive_kind =
  kLiteral | kSubstring | kDecimal | kFixed | kScientific | kBinary | kOctal | kHexLower | kHexUpper

record directive_op =
  op_kind :: directive_kind
  op_byte_off :: u32
  op_len :: u32
  op_precision :: int

datatype format_error =
  UnexpectedEnd | PrecisionUnterminated | PrecisionNotInteger | PrecisionTooLarge | UnknownClause u8

definition kPrecisionDefault :: int where "kPrecisionDefault = - 1"
definition kMaxPrecision :: int where "kMaxPrecision = 1000"

definition append_literal_byte :: "directive_op list \<Rightarrow> u32 \<Rightarrow> directive_op list" where
  "append_literal_byte ops byte_off =
     (if ops \<noteq> [] \<and> op_kind (last ops) = kLiteral \<and> op_byte_off (last ops) + op_len (last ops) = byte_off
      then butlast ops @ [(last ops)\<lparr>op_len := op_len (last ops) + 1\<rparr>]
      else ops @ [\<lparr>op_kind = kLiteral, op_byte_off = byte_off, op_len = 1, op_precision = kPrecisionDefault\<rparr>])"

function skip_digits :: "u8 list \<Rightarrow> nat \<Rightarrow> nat" where
  "skip_digits fmt j = (if j < length fmt \<and> is_digit (fmt ! j) then skip_digits fmt (j + 1) else j)"
  by pat_completeness auto
termination by (relation "measure (\<lambda>(fmt, j). length fmt - j)") auto

declare skip_digits.simps [simp del]

definition parse_precision :: "(u8 list \<Rightarrow> int option) \<Rightarrow> u8 list \<Rightarrow> nat \<Rightarrow> format_error + nat \<times> int" where
  "parse_precision atoi fmt i =
     (if i \<ge> length fmt then Inl UnexpectedEnd
      else if fmt ! i \<noteq> 0x2E then Inr (i, kPrecisionDefault)
      else (let digits_begin = i + 1; j = skip_digits fmt digits_begin in
        if j = digits_begin \<or> j = length fmt then Inl PrecisionUnterminated
        else (case atoi (take (j - digits_begin) (drop digits_begin fmt)) of
            None \<Rightarrow> Inl PrecisionNotInteger
          | Some precision \<Rightarrow> if precision > kMaxPrecision then Inl PrecisionTooLarge else Inr (j, precision))))"

definition classify_type :: "u8 \<Rightarrow> directive_kind" where
  "classify_type c =
     (if c = 0x73 then kSubstring
      else if c = 0x64 then kDecimal
      else if c = 0x66 then kFixed
      else if c = 0x65 then kScientific
      else if c = 0x62 then kBinary
      else if c = 0x6F then kOctal
      else if c = 0x78 then kHexLower
      else if c = 0x58 then kHexUpper
      else kLiteral)"

definition parse_directive :: "(u8 list \<Rightarrow> int option) \<Rightarrow> u8 list \<Rightarrow> nat \<Rightarrow> format_error + nat \<times> directive_op" where
  "parse_directive atoi fmt start =
     (case parse_precision atoi fmt start of
        Inl e \<Rightarrow> Inl e
      | Inr (type_idx, precision) \<Rightarrow>
          (let type_byte = fmt ! type_idx; kind = classify_type type_byte in
           if kind = kLiteral then Inl (UnknownClause type_byte)
           else Inr (type_idx + 1,
             \<lparr>op_kind = kind, op_byte_off = word_of_nat (start - 1), op_len = word_of_nat (type_idx + 1 - (start - 1)),
              op_precision = (if kind = kFixed \<or> kind = kScientific then precision else kPrecisionDefault)\<rparr>)))"

lemma skip_digits_ge: "j \<le> skip_digits fmt j"
proof (induction fmt j rule: skip_digits.induct)
  case (1 fmt j)
  then show ?case by (subst skip_digits.simps) (use "1.IH" in \<open>auto intro: Suc_leD\<close>)
qed

lemma parse_precision_ge: "parse_precision atoi fmt i = Inr (j, p) \<Longrightarrow> i \<le> j"
  using skip_digits_ge [of "i + 1" fmt] by (auto simp: parse_precision_def Let_def split: if_splits option.splits)

lemma parse_directive_gt: "parse_directive atoi fmt start = Inr (next_i, op) \<Longrightarrow> start < next_i"
  using parse_precision_ge by (fastforce simp: parse_directive_def Let_def split: sum.splits if_splits)

function parse_format_loop :: "(u8 list \<Rightarrow> int option) \<Rightarrow> u8 list \<Rightarrow> directive_op list \<Rightarrow> nat \<Rightarrow> format_error + directive_op list" where
  "parse_format_loop atoi fmt ops i =
     (if i < length fmt
      then if fmt ! i \<noteq> 0x25 then parse_format_loop atoi fmt (append_literal_byte ops (word_of_nat i)) (i + 1)
        else if i + 1 \<ge> length fmt then Inl UnexpectedEnd
        else if fmt ! (i + 1) = 0x25 then parse_format_loop atoi fmt (append_literal_byte ops (word_of_nat (i + 1))) (i + 2)
        else (case parse_directive atoi fmt (i + 1) of
            Inl e \<Rightarrow> Inl e
          | Inr (next_i, op) \<Rightarrow> parse_format_loop atoi fmt (ops @ [op]) next_i)
      else Inr ops)"
  by pat_completeness auto
termination
  by (relation "measure (\<lambda>(atoi, fmt, ops, i). length fmt - i)") (auto dest!: parse_directive_gt)

declare parse_format_loop.simps [simp del]

definition parse_format :: "(u8 list \<Rightarrow> int option) \<Rightarrow> u8 list \<Rightarrow> format_error + directive_op list" where
  "parse_format atoi fmt = parse_format_loop atoi fmt [] 0"

subsection \<open>The most-recent-format cache\<close>

record format_cache =
  cached_initialized :: bool
  cached_format :: "u8 list"
  cached_ops :: "directive_op list"
  cached_parse_ok :: bool

definition empty_format_cache :: format_cache where
  "empty_format_cache = \<lparr>cached_initialized = False, cached_format = [], cached_ops = [], cached_parse_ok = False\<rparr>"

definition refresh_cache :: "(u8 list \<Rightarrow> int option) \<Rightarrow> u8 list \<Rightarrow> format_cache \<Rightarrow> bool \<times> format_cache" where
  "refresh_cache atoi fmt c =
     (if cached_initialized c \<and> cached_format c = fmt then (cached_parse_ok c, c)
      else (let c = (case parse_format atoi fmt of
                Inl _ \<Rightarrow> c\<lparr>cached_ops := [], cached_parse_ok := False\<rparr>
              | Inr ops \<Rightarrow> c\<lparr>cached_ops := ops, cached_parse_ok := True\<rparr>);
                c = c\<lparr>cached_format := fmt, cached_initialized := True\<rparr>
            in (cached_parse_ok c, c)))"

subsection \<open>The grammar of formats\<close>

datatype segment = Byte u8 | Percent | Directive directive_kind "u8 list option"

definition type_byte :: "directive_kind \<Rightarrow> u8" where
  "type_byte k = (case k of kLiteral \<Rightarrow> 0 | kSubstring \<Rightarrow> 0x73 | kDecimal \<Rightarrow> 0x64 | kFixed \<Rightarrow> 0x66 | kScientific \<Rightarrow> 0x65
     | kBinary \<Rightarrow> 0x62 | kOctal \<Rightarrow> 0x6F | kHexLower \<Rightarrow> 0x78 | kHexUpper \<Rightarrow> 0x58)"

fun segment_text :: "segment \<Rightarrow> u8 list" where
  "segment_text (Byte b) = [b]"
| "segment_text Percent = [0x25, 0x25]"
| "segment_text (Directive k None) = [0x25, type_byte k]"
| "segment_text (Directive k (Some ds)) = [0x25, 0x2E] @ ds @ [type_byte k]"

definition digit_run :: "u8 list \<Rightarrow> bool" where
  "digit_run ds \<longleftrightarrow> ds \<noteq> [] \<and> list_all is_digit ds"

fun segment_ok :: "segment \<Rightarrow> bool" where
  "segment_ok (Byte b) \<longleftrightarrow> b \<noteq> 0x25"
| "segment_ok Percent \<longleftrightarrow> True"
| "segment_ok (Directive k None) \<longleftrightarrow> k \<noteq> kLiteral"
| "segment_ok (Directive k (Some ds)) \<longleftrightarrow> k \<noteq> kLiteral \<and> digit_run ds \<and> dec_val ds \<le> 1000"

definition format_text :: "segment list \<Rightarrow> u8 list" where
  "format_text segs = concat (map segment_text segs)"

text \<open>What follows the \<open>%\<close> of a malformed directive, with the diagnostic it gets.\<close>

inductive malformed :: "u8 list \<Rightarrow> format_error \<Rightarrow> bool" where
  end_of_format: "malformed [] UnexpectedEnd"
| no_type: "list_all is_digit ds \<Longrightarrow> malformed (0x2E # ds) PrecisionUnterminated"
| no_digits: "\<not> is_digit c \<Longrightarrow> malformed (0x2E # c # rest) PrecisionUnterminated"
| not_integer: "digit_run ds \<Longrightarrow> \<not> is_digit c \<Longrightarrow> 2 ^ 31 \<le> dec_val ds \<Longrightarrow> malformed (0x2E # ds @ c # rest) PrecisionNotInteger"
| too_large: "digit_run ds \<Longrightarrow> \<not> is_digit c \<Longrightarrow> 1000 < dec_val ds \<Longrightarrow> dec_val ds < 2 ^ 31
    \<Longrightarrow> malformed (0x2E # ds @ c # rest) PrecisionTooLarge"
| unknown_plain: "classify_type c = kLiteral \<Longrightarrow> c \<noteq> 0x2E \<Longrightarrow> c \<noteq> 0x25 \<Longrightarrow> malformed (c # rest) (UnknownClause c)"
| unknown_precise: "digit_run ds \<Longrightarrow> \<not> is_digit c \<Longrightarrow> dec_val ds \<le> 1000 \<Longrightarrow> classify_type c = kLiteral
    \<Longrightarrow> malformed (0x2E # ds @ c # rest) (UnknownClause c)"

text \<open>What a segment or an op does when the format runs.\<close>

datatype instr = Emit u8 | Render directive_kind int

fun segment_meaning :: "segment \<Rightarrow> instr" where
  "segment_meaning (Byte b) = Emit b"
| "segment_meaning Percent = Emit 0x25"
| "segment_meaning (Directive k None) = Render k kPrecisionDefault"
| "segment_meaning (Directive k (Some ds)) =
     Render k (if k = kFixed \<or> k = kScientific then int (dec_val ds) else kPrecisionDefault)"

definition op_meaning :: "u8 list \<Rightarrow> directive_op \<Rightarrow> instr list" where
  "op_meaning fmt op =
     (if op_kind op = kLiteral then map Emit (take (unat (op_len op)) (drop (unat (op_byte_off op)) fmt))
      else [Render (op_kind op) (op_precision op)])"

definition joined :: "directive_op \<Rightarrow> directive_op \<Rightarrow> bool" where
  "joined a b \<longleftrightarrow> op_kind a = kLiteral \<and> op_kind b = kLiteral \<and> op_byte_off a + op_len a = op_byte_off b"

definition coalesced :: "directive_op list \<Rightarrow> bool" where
  "coalesced ops = successively (\<lambda>a b. \<not> joined a b) ops"

text \<open>The documented contract of \<open>absl::SimpleAtoi\<close> on a run of digits.\<close>

definition atoi_ok :: "(u8 list \<Rightarrow> int option) \<Rightarrow> bool" where
  "atoi_ok atoi \<longleftrightarrow> (\<forall>ds. digit_run ds \<longrightarrow> atoi ds = (if dec_val ds < 2 ^ 31 then Some (int (dec_val ds)) else None))"

subsection \<open>Parsing one directive\<close>

lemma type_byte_facts:
  "classify_type (type_byte k) = k" "\<not> is_digit (type_byte k)" "type_byte k \<noteq> 0x2E" "type_byte k \<noteq> 0x25"
  by (cases k; simp add: classify_type_def type_byte_def is_digit_def)+

lemma type_byte_classify: "classify_type c \<noteq> kLiteral \<Longrightarrow> type_byte (classify_type c) = c"
  by (auto simp: classify_type_def type_byte_def split: if_splits)

lemma skip_digits_run:
  "list_all is_digit ds \<Longrightarrow> rest = [] \<or> \<not> is_digit (hd rest) \<Longrightarrow> skip_digits (pre @ ds @ rest) (length pre) = length pre + length ds"
proof (induction ds arbitrary: pre)
  case Nil
  then show ?case by (cases rest) (simp_all add: skip_digits.simps [of _ "length pre"] nth_append)
next
  case (Cons d ds)
  have "skip_digits ((pre @ [d]) @ ds @ rest) (length (pre @ [d])) = length (pre @ [d]) + length ds"
    by (rule Cons.IH) (use Cons.prems in simp_all)
  then show ?case using Cons.prems(1) by (subst skip_digits.simps) (simp add: nth_append)
qed

lemma parse_precision_end: "parse_precision atoi pre (length pre) = Inl UnexpectedEnd"
  by (simp add: parse_precision_def)

lemma parse_precision_none: "c \<noteq> 0x2E \<Longrightarrow> parse_precision atoi (pre @ c # rest) (length pre) = Inr (length pre, kPrecisionDefault)"
  by (simp add: parse_precision_def nth_append)

lemma parse_precision_unterminated:
  assumes "list_all is_digit ds" "rest = [] \<or> \<not> is_digit (hd rest)" "rest = [] \<or> ds = []"
  shows "parse_precision atoi (pre @ 0x2E # ds @ rest) (length pre) = Inl PrecisionUnterminated"
  using skip_digits_run [OF assms(1,2), of "pre @ [0x2E]"] assms(3) by (auto simp: parse_precision_def nth_append)

lemma parse_precision_digits:
  assumes "digit_run ds" "\<not> is_digit c" "atoi_ok atoi"
  shows "parse_precision atoi (pre @ 0x2E # ds @ c # rest) (length pre) =
     (if 2 ^ 31 \<le> dec_val ds then Inl PrecisionNotInteger
      else if 1000 < dec_val ds then Inl PrecisionTooLarge
      else Inr (length pre + 1 + length ds, int (dec_val ds)))"
proof -
  have "skip_digits (pre @ 0x2E # ds @ c # rest) (Suc (length pre)) = Suc (length pre) + length ds"
    using skip_digits_run [of ds "c # rest" "pre @ [0x2E]"] assms by (simp add: digit_run_def)
  then show ?thesis using assms by (auto simp: parse_precision_def nth_append digit_run_def atoi_ok_def kMaxPrecision_def)
qed

lemma malformed_rejected:
  assumes "malformed rest e" "atoi_ok atoi"
  shows "parse_directive atoi (pre @ rest) (length pre) = Inl e"
  using assms(1)
proof cases
  case (no_type ds)
  then show ?thesis using parse_precision_unterminated [of ds "[]"] by (simp add: parse_directive_def)
next
  case (no_digits c rs)
  then show ?thesis using parse_precision_unterminated [of "[]" "c # rs"] by (simp add: parse_directive_def)
next
  case (unknown_precise ds c rs)
  then show ?thesis using parse_precision_digits [OF _ _ assms(2), of ds c pre rs]
    by (simp add: parse_directive_def nth_append)
qed (use parse_precision_digits [OF _ _ assms(2)] in
      \<open>auto simp: parse_directive_def parse_precision_end parse_precision_none nth_append\<close>)

text \<open>A well-formed directive after its \<open>%\<close>: the op of its meaning, and the position after it.\<close>

lemma directive_parsed:
  assumes "segment_ok (Directive k p)" "segment_text (Directive k p) = 0x25 # txt" "atoi_ok atoi"
  shows "\<exists>off n. parse_directive atoi (pre @ txt @ rest) (length pre) = Inr (length pre + length txt,
     \<lparr>op_kind = k, op_byte_off = off, op_len = n, op_precision = (case segment_meaning (Directive k p) of Render _ q \<Rightarrow> q)\<rparr>)"
proof (cases p)
  case None
  then show ?thesis using assms parse_precision_none [of "type_byte k" atoi pre rest]
    by (auto simp: parse_directive_def type_byte_facts nth_append)
next
  case (Some ds)
  then show ?thesis using assms parse_precision_digits [of ds "type_byte k" atoi pre rest]
    by (auto simp: parse_directive_def type_byte_facts nth_append)
qed

subsection \<open>Parsing a format\<close>

text \<open>The ops of a prefix of length \<open>i\<close>: they lie in it, they mean \<open>ms\<close>, and adjacent literals are one op.\<close>

definition ops_good :: "u8 list \<Rightarrow> nat \<Rightarrow> directive_op list \<Rightarrow> instr list \<Rightarrow> bool" where
  "ops_good fmt i ops ms \<longleftrightarrow> (\<forall>op \<in> set ops. op_kind op = kLiteral \<longrightarrow> unat (op_byte_off op) + unat (op_len op) \<le> i)
     \<and> concat (map (op_meaning fmt) ops) = ms \<and> coalesced ops"

lemma ops_good_later: "ops_good fmt i ops ms \<Longrightarrow> i \<le> j \<Longrightarrow> ops_good fmt j ops ms"
  unfolding ops_good_def by (meson le_trans)

lemma coalesced_snoc: "coalesced (ops @ [op]) \<longleftrightarrow> coalesced ops \<and> (ops \<noteq> [] \<longrightarrow> \<not> joined (last ops) op)"
  by (auto simp: coalesced_def successively_append_iff)

lemma literal_appended:
  assumes g: "ops_good fmt i ops ms" and j: "i \<le> j" "j < length fmt" and len: "length fmt < 2 ^ 32"
  shows "ops_good fmt (j + 1) (append_literal_byte ops (word_of_nat j)) (ms @ [Emit (fmt ! j)])"
proof -
  have wj: "unat (word_of_nat j :: u32) = j" using j len by (simp add: unat_of_nat)
  have sum: "unat (op_byte_off op + op_len op) = unat (op_byte_off op) + unat (op_len op)"
    if "op \<in> set ops" "op_kind op = kLiteral" for op
    using g that j len by (auto simp: ops_good_def unat_word_ariths intro!: mod_less)
  show ?thesis
  proof (cases "ops \<noteq> [] \<and> op_kind (last ops) = kLiteral \<and> op_byte_off (last ops) + op_len (last ops) = word_of_nat j")
    case True
    define l where "l = last ops"
    have ops: "ops = butlast ops @ [l]" using True by (simp add: l_def)
    have l: "op_kind l = kLiteral" "l \<in> set ops" "op_byte_off l + op_len l = word_of_nat j" using True by (simp_all add: l_def)
    have l2: "unat (op_byte_off l) + unat (op_len l) = j" using sum [OF l(2,1)] wj by (simp only: l(3))
    have n1: "unat (op_len l + 1) = unat (op_len l) + 1" using l2 j len by (simp add: unat_word_ariths)
    have m: "op_meaning fmt (l\<lparr>op_len := op_len l + 1\<rparr>) = op_meaning fmt l @ [Emit (fmt ! j)]"
    proof -
      have "unat (op_len l) < length (drop (unat (op_byte_off l)) fmt)" using l2 j(2) by simp
      from take_Suc_conv_app_nth [OF this] show ?thesis using l(1) l2 j(2) nth_drop [of "unat (op_byte_off l)" fmt "unat (op_len l)"] by (simp add: op_meaning_def n1)
    qed
    have jn: "joined a (l\<lparr>op_len := op_len l + 1\<rparr>) = joined a l" for a by (simp add: joined_def)
    have "coalesced (butlast ops @ [l])" "concat (map (op_meaning fmt) (butlast ops @ [l])) = ms"
      using g ops by (simp_all add: ops_good_def)
    moreover have "unat (op_byte_off op) + unat (op_len op) \<le> j + 1" if "op \<in> set (butlast ops)" "op_kind op = kLiteral" for op
      using g j(1) that in_set_butlastD by (fastforce simp: ops_good_def)
    ultimately show ?thesis using True l2 n1
      by (auto simp: ops_good_def append_literal_byte_def l_def [symmetric] coalesced_snoc jn m)
  next
    case False
    let ?op = "\<lparr>op_kind = kLiteral, op_byte_off = word_of_nat j, op_len = 1, op_precision = kPrecisionDefault\<rparr>"
    have eq: "append_literal_byte ops (word_of_nat j) = ops @ [?op]" using False by (auto simp: append_literal_byte_def)
    have "op_meaning fmt ?op = [Emit (fmt ! j)]"
      using j(2) by (simp add: op_meaning_def wj take_Suc_conv_app_nth)
    moreover have "ops \<noteq> [] \<longrightarrow> \<not> joined (last ops) ?op" using False by (auto simp: joined_def)
    moreover have "unat (op_byte_off op) + unat (op_len op) \<le> j + 1" if "op \<in> set ops" "op_kind op = kLiteral" for op
      using g j(1) that by (fastforce simp: ops_good_def)
    ultimately show ?thesis using g unfolding eq by (auto simp: ops_good_def coalesced_snoc wj)
  qed
qed

lemma directive_appended:
  "ops_good fmt i ops ms \<Longrightarrow> op_kind op \<noteq> kLiteral \<Longrightarrow> i \<le> j
   \<Longrightarrow> ops_good fmt j (ops @ [op]) (ms @ [Render (op_kind op) (op_precision op)])"
  using ops_good_later [of fmt i ops ms j] by (auto simp: ops_good_def coalesced_snoc joined_def op_meaning_def)

lemma segment_parsed:
  assumes fmt: "fmt = pre @ segment_text seg @ rest" and len: "length fmt < 2 ^ 32" and ok: "segment_ok seg" "atoi_ok atoi"
    and g: "ops_good fmt (length pre) ops ms"
  shows "\<exists>ops'. parse_format_loop atoi fmt ops (length pre) = parse_format_loop atoi fmt ops' (length (pre @ segment_text seg))
     \<and> ops_good fmt (length (pre @ segment_text seg)) ops' (ms @ [segment_meaning seg])"
proof (cases seg)
  case (Byte b)
  let ?i = "length pre"
  have b: "fmt ! ?i = b" "b \<noteq> 0x25" "?i < length fmt" using fmt ok Byte by (simp_all add: nth_append)
  have "parse_format_loop atoi fmt ops ?i = parse_format_loop atoi fmt (append_literal_byte ops (word_of_nat ?i)) (?i + 1)"
    using b by (subst parse_format_loop.simps) simp
  moreover have "ops_good fmt (?i + 1) (append_literal_byte ops (word_of_nat ?i)) (ms @ [Emit b])"
    using literal_appended [OF g _ b(3) len] b(1) by simp
  ultimately show ?thesis using Byte by (intro exI [of _ "append_literal_byte ops (word_of_nat ?i)"]) simp
next
  case Percent
  let ?i = "length pre"
  have b: "fmt ! ?i = 0x25" "fmt ! (?i + 1) = 0x25" "?i + 1 < length fmt" using fmt Percent by (simp_all add: nth_append)
  have "parse_format_loop atoi fmt ops ?i = parse_format_loop atoi fmt (append_literal_byte ops (word_of_nat (?i + 1))) (?i + 2)"
    using b by (subst parse_format_loop.simps) simp
  moreover have "ops_good fmt (?i + 1 + 1) (append_literal_byte ops (word_of_nat (?i + 1))) (ms @ [Emit 0x25])"
    using literal_appended [OF g _ b(3) len] b(2) by simp
  ultimately show ?thesis using Percent by (intro exI [of _ "append_literal_byte ops (word_of_nat (?i + 1))"]) simp
next
  case (Directive k p)
  let ?i = "length pre"
  obtain c tl where c: "segment_text seg = 0x25 # c # tl" "c \<noteq> 0x25"
    using Directive by (cases p) (simp_all add: type_byte_facts)
  have b: "fmt ! ?i = 0x25" "fmt ! (?i + 1) = c" "?i + 1 < length fmt" using fmt c by (simp_all add: nth_append)
  obtain q where q: "segment_meaning seg = Render k q" using Directive by (cases p) simp_all
  have dir: "segment_ok (Directive k p)" "segment_text (Directive k p) = 0x25 # c # tl" using ok(1) c(1) Directive by simp_all
  then have k: "k \<noteq> kLiteral" by (cases p) simp_all
  obtain off n where op: "parse_directive atoi fmt (?i + 1) = Inr (?i + 1 + length (c # tl),
      \<lparr>op_kind = k, op_byte_off = off, op_len = n, op_precision = q\<rparr>)"
    using directive_parsed [OF dir ok(2), of "pre @ [0x25]" rest] q Directive fmt c(1) by auto
  let ?op = "\<lparr>op_kind = k, op_byte_off = off, op_len = n, op_precision = q\<rparr>"
  have "parse_format_loop atoi fmt ops ?i = parse_format_loop atoi fmt (ops @ [?op]) (length (pre @ segment_text seg))"
    using b c(2) op by (subst parse_format_loop.simps) (simp add: c(1))
  moreover have "ops_good fmt (length (pre @ segment_text seg)) (ops @ [?op]) (ms @ [segment_meaning seg])"
    using directive_appended [OF g, of ?op "length (pre @ segment_text seg)"] k q by simp
  ultimately show ?thesis by blast
qed

lemma segments_parsed:
  assumes len: "length fmt < 2 ^ 32" and atoi: "atoi_ok atoi"
  shows "fmt = pre @ format_text segs @ rest \<Longrightarrow> list_all segment_ok segs \<Longrightarrow> ops_good fmt (length pre) ops ms
    \<Longrightarrow> \<exists>ops'. parse_format_loop atoi fmt ops (length pre) = parse_format_loop atoi fmt ops' (length (pre @ format_text segs))
         \<and> ops_good fmt (length (pre @ format_text segs)) ops' (ms @ map segment_meaning segs)"
proof (induction segs arbitrary: pre ops ms)
  case Nil
  then show ?case by (auto simp: format_text_def)
next
  case (Cons seg segs)
  have f: "fmt = pre @ segment_text seg @ (format_text segs @ rest)" using Cons.prems(1) by (simp add: format_text_def)
  then have f2: "fmt = (pre @ segment_text seg) @ format_text segs @ rest" by simp
  obtain ops1 where 1: "parse_format_loop atoi fmt ops (length pre) = parse_format_loop atoi fmt ops1 (length (pre @ segment_text seg))"
    "ops_good fmt (length (pre @ segment_text seg)) ops1 (ms @ [segment_meaning seg])"
    using segment_parsed [OF f len _ atoi Cons.prems(3)] Cons.prems(2) by auto
  obtain ops2 where "parse_format_loop atoi fmt ops1 (length (pre @ segment_text seg))
      = parse_format_loop atoi fmt ops2 (length ((pre @ segment_text seg) @ format_text segs))"
    "ops_good fmt (length ((pre @ segment_text seg) @ format_text segs)) ops2 ((ms @ [segment_meaning seg]) @ map segment_meaning segs)"
    using Cons.IH [OF f2 _ 1(2)] Cons.prems(2) by auto
  then show ?case using 1(1) by (intro exI [of _ ops2]) (simp add: format_text_def)
qed

lemma ops_good_empty [simp]: "ops_good fmt 0 [] []"
  by (simp add: ops_good_def coalesced_def)

lemma parse_format_good:
  assumes "length (format_text segs) < 2 ^ 32" "atoi_ok atoi" "list_all segment_ok segs"
  obtains ops where "parse_format atoi (format_text segs) = Inr ops"
    "ops_good (format_text segs) (length (format_text segs)) ops (map segment_meaning segs)"
proof -
  let ?fmt = "format_text segs"
  obtain ops where ops: "parse_format_loop atoi ?fmt [] 0 = parse_format_loop atoi ?fmt ops (length ?fmt)"
    "ops_good ?fmt (length ?fmt) ops (map segment_meaning segs)"
    using segments_parsed [OF assms(1,2), of "[]" segs "[]" "[]" "[]"] assms(3) ops_good_empty by auto
  have "parse_format_loop atoi ?fmt ops (length ?fmt) = Inr ops" by (subst parse_format_loop.simps) simp
  then show thesis using that ops by (simp add: parse_format_def)
qed

lemma parse_format_accepts:
  assumes "length (format_text segs) < 2 ^ 32" "atoi_ok atoi" "list_all segment_ok segs"
  shows "\<exists>ops. parse_format atoi (format_text segs) = Inr ops
     \<and> concat (map (op_meaning (format_text segs)) ops) = map segment_meaning segs \<and> coalesced ops"
  by (rule parse_format_good [OF assms]) (auto simp: ops_good_def)

definition sample_atoi :: "u8 list \<Rightarrow> int option" where
  "sample_atoi ds = (if dec_val ds < 2 ^ 31 then Some (int (dec_val ds)) else None)"

lemma sample_atoi_ok: "atoi_ok sample_atoi"
  by (simp add: atoi_ok_def sample_atoi_def)

text \<open>A format means one thing.\<close>

lemma format_unambiguous:
  assumes "list_all segment_ok segs" "list_all segment_ok segs'" "format_text segs = format_text segs'" "length (format_text segs) < 2 ^ 32"
  shows "map segment_meaning segs = map segment_meaning segs'"
  using parse_format_accepts [of segs sample_atoi] parse_format_accepts [of segs' sample_atoi] assms sample_atoi_ok by auto

lemma parse_format_rejects:
  assumes fmt: "fmt = format_text segs @ 0x25 # rest" and "length fmt < 2 ^ 32" "atoi_ok atoi" "list_all segment_ok segs"
    and bad: "malformed rest e"
  shows "parse_format atoi fmt = Inl e"
proof -
  let ?n = "length (format_text segs)"
  obtain ops where ops: "parse_format atoi fmt = parse_format_loop atoi fmt ops ?n"
    using segments_parsed [OF assms(2,3), of "[]" segs "0x25 # rest" "[]" "[]"] assms(4) fmt ops_good_empty
    by (auto simp: parse_format_def)
  have p: "fmt ! ?n = 0x25" using fmt by simp
  show ?thesis
  proof (cases rest)
    case Nil
    then have "e = UnexpectedEnd" using bad by (auto elim: malformed.cases)
    then show ?thesis using ops p fmt Nil by (simp add: parse_format_loop.simps [of _ _ _ ?n])
  next
    case (Cons c cs)
    then have "c \<noteq> 0x25" using bad by (auto elim: malformed.cases)
    moreover have "fmt ! (?n + 1) = c" using fmt Cons by (simp add: nth_append)
    moreover have "parse_directive atoi fmt (?n + 1) = Inl e"
      using malformed_rejected [OF bad assms(3), of "format_text segs @ [0x25]"] fmt by simp
    ultimately show ?thesis using ops p fmt Cons by (simp add: parse_format_loop.simps [of _ _ _ ?n])
  qed
qed

text \<open>Every text is a format or has a first malformed directive.\<close>

lemma after_percent:
  obtains (seg) seg rest' where "segment_ok seg" "0x25 # rest = segment_text seg @ rest'" | (bad) e where "malformed rest e"
proof (cases rest)
  case Nil
  then show thesis using bad end_of_format by blast
next
  case (Cons c cs)
  consider "c = 0x25" | "c = 0x2E" | "c \<noteq> 0x25" "c \<noteq> 0x2E" by blast
  then show thesis
  proof cases
    case 1
    then show thesis using Cons by (intro seg [of Percent cs]) simp_all
  next
    case 2
    define ds r where "ds = takeWhile is_digit cs" and "r = dropWhile is_digit cs"
    have cs: "cs = ds @ r" "list_all is_digit ds" by (auto simp: ds_def r_def list_all_iff dest: set_takeWhileD)
    show thesis
    proof (cases r)
      case Nil
      then show thesis using cs 2 Cons no_type [of ds] by (intro bad [of PrecisionUnterminated]) simp
    next
      case r: (Cons d q)
      have d: "\<not> is_digit d" using r by (simp add: r_def dropWhile_eq_Cons_conv)
      consider "ds = []" | "digit_run ds" "2 ^ 31 \<le> dec_val ds" | "digit_run ds" "1000 < dec_val ds" "dec_val ds < 2 ^ 31"
        | "digit_run ds" "dec_val ds \<le> 1000" "classify_type d = kLiteral"
        | "digit_run ds" "dec_val ds \<le> 1000" "classify_type d \<noteq> kLiteral"
        using cs(2) by (fastforce simp: digit_run_def not_le)
      then show thesis
      proof cases
        case 1
        then show thesis using bad [of PrecisionUnterminated] no_digits [OF d, of q] cs r 2 Cons by simp
      next
        case 2
        then show thesis using bad [of PrecisionNotInteger] not_integer [OF 2(1) d 2(2), of q] cs r \<open>c = 0x2E\<close> Cons by simp
      next
        case 3
        then show thesis using bad [of PrecisionTooLarge] too_large [OF 3(1) d 3(2,3), of q] cs r \<open>c = 0x2E\<close> Cons by simp
      next
        case 4
        then show thesis using bad [of "UnknownClause d"] unknown_precise [OF 4(1) d 4(2,3), of q] cs r \<open>c = 0x2E\<close> Cons by simp
      next
        case 5
        then show thesis using seg [of "Directive (classify_type d) (Some ds)" q] cs r \<open>c = 0x2E\<close> Cons
          by (simp add: type_byte_classify)
      qed
    qed
  next
    case 3
    then show thesis
      using bad [of "UnknownClause c"] unknown_plain [of c cs] seg [of "Directive (classify_type c) None" cs] Cons
      by (cases "classify_type c = kLiteral") (simp_all add: type_byte_classify)
  qed
qed

lemma format_text_Cons: "format_text (seg # segs) = segment_text seg @ format_text segs"
  by (simp add: format_text_def)

lemma format_or_malformed:
  "(\<exists>segs. list_all segment_ok segs \<and> fmt = format_text segs)
   \<or> (\<exists>segs rest e. list_all segment_ok segs \<and> fmt = format_text segs @ 0x25 # rest \<and> malformed rest e)"
proof (induction "length fmt" arbitrary: fmt rule: less_induct)
  case less
  have step: ?case if "segment_ok seg" "fmt = segment_text seg @ rest'" for seg rest'
  proof -
    have "0 < length (segment_text seg)" by (cases seg rule: segment_text.cases) simp_all
    then have "length rest' < length fmt" using that(2) by simp
    from less [OF this] show ?thesis
    proof (elim disjE exE conjE)
      fix segs assume "list_all segment_ok segs" "rest' = format_text segs"
      then show ?thesis using that by (intro disjI1 exI [of _ "seg # segs"]) (simp add: format_text_Cons)
    next
      fix segs rest e assume "list_all segment_ok segs" "rest' = format_text segs @ 0x25 # rest" "malformed rest e"
      then show ?thesis using that by (intro disjI2 exI [of _ "seg # segs"] exI [of _ rest] exI [of _ e]) (simp add: format_text_Cons)
    qed
  qed
  show ?case
  proof (cases fmt)
    case Nil
    then show ?thesis by (intro disjI1 exI [of _ "[]"]) (simp add: format_text_def)
  next
    case (Cons b rest)
    show ?thesis
    proof (cases "b = 0x25")
      case True
      show ?thesis
      proof (cases rest rule: after_percent)
        case (seg sg rest')
        then show ?thesis using step Cons True by metis
      next
        case (bad e)
        then show ?thesis using Cons True by (intro disjI2 exI [of _ "[]"] exI [of _ rest] exI [of _ e]) (simp add: format_text_def)
      qed
    next
      case False
      then show ?thesis using step [of "Byte b" rest] Cons by simp
    qed
  qed
qed

text \<open>
  C38. The directive parser decides the grammar of formats: a text is a format or has a first malformed
  directive; a format is accepted with ops that mean what its segments mean, adjacent literals in one op,
  and at a malformed directive the parser stops with that directive's diagnostic.
\<close>

theorem parse_format_exact:
  assumes atoi: "atoi_ok atoi"
  shows "((\<exists>segs. list_all segment_ok segs \<and> fmt = format_text segs)
      \<or> (\<exists>segs rest e. list_all segment_ok segs \<and> fmt = format_text segs @ 0x25 # rest \<and> malformed rest e))
    \<and> (\<forall>segs. list_all segment_ok segs \<and> length (format_text segs) < 2 ^ 32 \<longrightarrow>
        (\<exists>ops. parse_format atoi (format_text segs) = Inr ops
          \<and> concat (map (op_meaning (format_text segs)) ops) = map segment_meaning segs \<and> coalesced ops))
    \<and> (\<forall>segs rest e. list_all segment_ok segs \<and> malformed rest e \<and> length (format_text segs @ 0x25 # rest) < 2 ^ 32
        \<longrightarrow> parse_format atoi (format_text segs @ 0x25 # rest) = Inl e)"
  using format_or_malformed parse_format_accepts [OF _ atoi] parse_format_rejects [OF refl _ atoi] by blast

text \<open>The format \<open>n=%.2f%%\<close>.\<close>

definition sample_segments :: "segment list" where
  "sample_segments = [Byte 0x6E, Byte 0x3D, Directive kFixed (Some [0x32]), Percent]"

lemma sample_segments_ok: "list_all segment_ok sample_segments"
  by (simp add: sample_segments_def digit_run_def is_digit_def dec_val_def dec_step_def)

theorem parse_format_exact_witness:
  "\<exists>ops. parse_format sample_atoi [0x6E, 0x3D, 0x25, 0x2E, 0x32, 0x66, 0x25, 0x25] = Inr ops
     \<and> concat (map (op_meaning [0x6E, 0x3D, 0x25, 0x2E, 0x32, 0x66, 0x25, 0x25]) ops)
         = [Emit 0x6E, Emit 0x3D, Render kFixed 2, Emit 0x25] \<and> coalesced ops"
proof -
  have t: "format_text sample_segments = [0x6E, 0x3D, 0x25, 0x2E, 0x32, 0x66, 0x25, 0x25]"
    by (simp add: sample_segments_def format_text_def type_byte_def)
  have m: "map segment_meaning sample_segments = [Emit 0x6E, Emit 0x3D, Render kFixed 2, Emit 0x25]"
    by (simp add: sample_segments_def dec_val_def dec_step_def)
  have "length (format_text sample_segments) < 2 ^ 32" by (simp add: t)
  then show ?thesis using parse_format_exact [OF sample_atoi_ok] sample_segments_ok t m by metis
qed

subsection \<open>The cache never shows\<close>

definition cache_ok :: "(u8 list \<Rightarrow> int option) \<Rightarrow> format_cache \<Rightarrow> bool" where
  "cache_ok atoi c \<longleftrightarrow> (cached_initialized c \<longrightarrow>
     (case parse_format atoi (cached_format c) of Inl _ \<Rightarrow> \<not> cached_parse_ok c | Inr ops \<Rightarrow> cached_parse_ok c \<and> cached_ops c = ops))"

lemma refresh_cache_ok:
  assumes "cache_ok atoi c"
  shows "cache_ok atoi (snd (refresh_cache atoi fmt c))"
    and "case parse_format atoi fmt of Inl _ \<Rightarrow> \<not> fst (refresh_cache atoi fmt c)
      | Inr ops \<Rightarrow> fst (refresh_cache atoi fmt c) \<and> cached_ops (snd (refresh_cache atoi fmt c)) = ops"
  using assms by (auto simp: cache_ok_def refresh_cache_def Let_def split: sum.splits)

lemma empty_cache_ok: "cache_ok atoi empty_format_cache"
  by (simp add: cache_ok_def empty_format_cache_def)

text \<open>
  The format cache never shows: after any sequence of formats, refreshing it for a format gives the
  verdict and the ops of a fresh parse, for the empty format and for a malformed one as well.
\<close>

theorem format_cache_transparent:
  "let c = fold (\<lambda>f c. snd (refresh_cache atoi f c)) history empty_format_cache; (ok, c') = refresh_cache atoi fmt c in
   cache_ok atoi c \<and> (case parse_format atoi fmt of Inl _ \<Rightarrow> \<not> ok | Inr ops \<Rightarrow> ok \<and> cached_ops c' = ops)"
proof -
  have "cache_ok atoi (fold (\<lambda>f c. snd (refresh_cache atoi f c)) history c)" if "cache_ok atoi c" for c
    using that by (induction history arbitrary: c) (simp_all add: refresh_cache_ok(1))
  note ok = this [OF empty_cache_ok]
  show ?thesis using ok refresh_cache_ok(2) [OF ok, of fmt] by (auto simp: Let_def split: prod.splits sum.splits)
qed

end
