(* ===== verification/FormatRender.thy ===== *)
theory FormatRender
  imports StrFormat DeepEquality TypeOf CelTime "HOL-Library.List_Lexorder"
begin

text \<open>
  The renderers and the kernel of \<open>format\<close> (\<open>runtime/cel_string_format_render.cc\<close>,
  \<open>runtime/cel_string_format.cc\<close>). A renderer appends to a byte buffer and returns whether it could;
  rendering an aggregate may allocate, so it also threads the runtime state. The number, time and hex
  formatters of Abseil are the fields of a record, with their documented contracts in \<open>lib_ok\<close>.
\<close>

subsection \<open>The formatters of the library\<close>

text \<open>
  \<open>StrAppend\<close> of a signed, an unsigned and a floating number, \<open>StrFormat\<close> with \<open>%0wd\<close>, \<open>%.*f\<close>, \<open>%.*e\<close>,
  \<open>%o\<close>, \<open>%x\<close>, \<open>%X\<close>, \<open>BytesToHexString\<close>, \<open>AsciiStrToUpper\<close>, and \<open>FormatTime(RFC3339_full, .., UTC)\<close> of an
  instant given by its seconds and nanoseconds.
\<close>

record format_lib =
  simple_atoi :: "u8 list \<Rightarrow> int option"
  str_int :: "u64 \<Rightarrow> u8 list"
  str_uint :: "u64 \<Rightarrow> u8 list"
  str_double :: "u64 \<Rightarrow> u8 list"
  zero_padded :: "nat \<Rightarrow> int \<Rightarrow> u8 list"
  fixed_text :: "int \<Rightarrow> u64 \<Rightarrow> u8 list"
  scientific_text :: "int \<Rightarrow> u64 \<Rightarrow> u8 list"
  octal_text :: "u64 \<Rightarrow> u8 list"
  hex_lower :: "u64 \<Rightarrow> u8 list"
  hex_upper :: "u64 \<Rightarrow> u8 list"
  bytes_to_hex :: "u8 list \<Rightarrow> u8 list"
  str_to_upper :: "u8 list \<Rightarrow> u8 list"
  format_time :: "int \<Rightarrow> int \<Rightarrow> u8 list"

subsection \<open>Scalars\<close>

definition special_double :: "u64 \<Rightarrow> u8 list option" where
  "special_double v =
     (if d_isnan v then Some (ascii ''NaN'')
      else if d_isinf v \<and> \<not> d_neg_sign v then Some (ascii ''Infinity'')
      else if d_isinf v \<and> d_neg_sign v then Some (ascii ''-Infinity'')
      else None)"

definition append_double_canonical :: "format_lib \<Rightarrow> u8 list \<Rightarrow> u64 \<Rightarrow> u8 list" where
  "append_double_canonical lib buf v =
     (case special_double v of Some token \<Rightarrow> buf @ token | None \<Rightarrow> buf @ str_double lib v)"

text \<open>Negating the least second count is undefined in the code; the word negation here is its wrap-around.\<close>

definition append_duration_canonical :: "format_lib \<Rightarrow> u8 list \<Rightarrow> u64 \<Rightarrow> u32 \<Rightarrow> u8 list" where
  "append_duration_canonical lib buf secs nanos =
     (if secs = 0 \<and> nanos = 0 then buf @ ascii ''0s''
      else (let negative = sint secs < 0 \<or> sint nanos < 0;
                buf = (if negative then buf @ [0x2D] else buf);
                secs = (if negative \<and> sint secs < 0 then - secs else secs);
                nanos = (if negative \<and> sint nanos < 0 then - nanos else nanos);
                buf = buf @ str_int lib secs;
                kNanosPerMs = 1000000;
                kNanosPerUs = 1000;
                buf = (if nanos \<noteq> 0
                  then buf @ [0x2E] @ (if sint nanos mod kNanosPerMs = 0 then zero_padded lib 3 (sint nanos div kNanosPerMs)
                       else if sint nanos mod kNanosPerUs = 0 then zero_padded lib 6 (sint nanos div kNanosPerUs)
                       else zero_padded lib 9 (sint nanos))
                  else buf)
            in buf @ [0x73]))"

definition append_timestamp_canonical :: "format_lib \<Rightarrow> u8 list \<Rightarrow> u64 \<Rightarrow> u32 \<Rightarrow> u8 list" where
  "append_timestamp_canonical lib buf secs nanos =
     (let s = format_time lib (sint secs) (sint nanos);
          kUtcOffset = ascii ''+00:00'';
          s = (if length s > length kUtcOffset \<and> drop (length s - length kUtcOffset) s = kUtcOffset
               then take (length s - length kUtcOffset) s @ ascii ''Z'' else s)
      in buf @ s)"

definition signed_abs_as_uint :: "u64 \<Rightarrow> u64" where
  "signed_abs_as_uint v = (if 0 \<le> sint v then v else - (v + 1) + 1)"

text \<open>The digits, least significant first.\<close>

function binary_digits :: "u64 \<Rightarrow> u8 list" where
  "binary_digits v = (if v \<noteq> 0 then (if v AND 1 \<noteq> 0 then 0x31 else 0x30) # binary_digits (drop_bit 1 v) else [])"
  by pat_completeness auto
termination
  by (relation "measure unat")
    (auto simp: unat_drop_bit_eq drop_bit_nat_def unat_gt_0 intro!: div_less_dividend)

declare binary_digits.simps [simp del]

definition append_binary_uint :: "u8 list \<Rightarrow> u64 \<Rightarrow> u8 list" where
  "append_binary_uint buf v = (if v = 0 then buf @ [0x30] else buf @ rev (binary_digits v))"

definition append_bytes_as_hex :: "format_lib \<Rightarrow> u8 list \<Rightarrow> u8 list \<Rightarrow> bool \<Rightarrow> u8 list" where
  "append_bytes_as_hex lib buf bytes upper =
     (let hex = bytes_to_hex lib bytes in buf @ (if upper then str_to_upper lib hex else hex))"

definition append_hex_uint :: "format_lib \<Rightarrow> u8 list \<Rightarrow> u64 \<Rightarrow> bool \<Rightarrow> u8 list" where
  "append_hex_uint lib buf v upper = buf @ (if upper then hex_upper lib v else hex_lower lib v)"

definition to_double :: "cel_value \<Rightarrow> u64 option" where
  "to_double v =
     (if cv_kind v = CEL_DOUBLE then Some (pl_d v)
      else if cv_kind v = CEL_INT then Some (d_of_int (sint (pl_i v)))
      else if cv_kind v = CEL_UINT then Some (d_of_int (uint (pl_u v)))
      else None)"

definition render_double_with_precision :: "format_lib \<Rightarrow> u8 list \<Rightarrow> u64 \<Rightarrow> int \<Rightarrow> bool \<Rightarrow> u8 list" where
  "render_double_with_precision lib buf v precision scientific =
     (case special_double v of
        Some token \<Rightarrow> buf @ token
      | None \<Rightarrow> (let p = (if precision = kPrecisionDefault then 6 else precision)
                in buf @ (if scientific then scientific_text lib p v else fixed_text lib p v)))"

text \<open>A renderer of one scalar: the buffer, or \<open>None\<close> on a kind it has no form for.\<close>

definition render_fixed :: "format_lib \<Rightarrow> u8 list \<Rightarrow> cel_value \<Rightarrow> int \<Rightarrow> u8 list option" where
  "render_fixed lib buf v precision =
     (case to_double v of None \<Rightarrow> None | Some d \<Rightarrow> Some (render_double_with_precision lib buf d precision False))"

definition render_scientific :: "format_lib \<Rightarrow> u8 list \<Rightarrow> cel_value \<Rightarrow> int \<Rightarrow> u8 list option" where
  "render_scientific lib buf v precision =
     (case to_double v of None \<Rightarrow> None | Some d \<Rightarrow> Some (render_double_with_precision lib buf d precision True))"

definition render_decimal :: "format_lib \<Rightarrow> u8 list \<Rightarrow> cel_value \<Rightarrow> u8 list option" where
  "render_decimal lib buf v =
     (if cv_kind v = CEL_INT then Some (buf @ str_int lib (pl_i v))
      else if cv_kind v = CEL_UINT then Some (buf @ str_uint lib (pl_u v))
      else if cv_kind v = CEL_DOUBLE then render_fixed lib buf v kPrecisionDefault
      else None)"

definition render_binary :: "u8 list \<Rightarrow> cel_value \<Rightarrow> u8 list option" where
  "render_binary buf v =
     (if cv_kind v = CEL_INT
        then (let x = pl_i v; buf = (if sint x < 0 then buf @ [0x2D] else buf) in Some (append_binary_uint buf (signed_abs_as_uint x)))
      else if cv_kind v = CEL_UINT then Some (append_binary_uint buf (pl_u v))
      else if cv_kind v = CEL_BOOL then Some (buf @ [if pl_b v \<noteq> 0 then 0x31 else 0x30])
      else None)"

definition render_octal :: "format_lib \<Rightarrow> u8 list \<Rightarrow> cel_value \<Rightarrow> u8 list option" where
  "render_octal lib buf v =
     (if cv_kind v = CEL_INT
        then (let x = pl_i v in
          Some (if sint x < 0 then buf @ [0x2D] @ octal_text lib (signed_abs_as_uint x) else buf @ octal_text lib x))
      else if cv_kind v = CEL_UINT then Some (buf @ octal_text lib (pl_u v))
      else None)"

definition render_hex :: "format_lib \<Rightarrow> memory \<Rightarrow> u8 list \<Rightarrow> cel_value \<Rightarrow> bool \<Rightarrow> u8 list option" where
  "render_hex lib m buf v upper =
     (if cv_kind v = CEL_INT
        then (let x = pl_i v in
          Some (if sint x < 0 then append_hex_uint lib (buf @ [0x2D]) (signed_abs_as_uint x) upper else append_hex_uint lib buf x upper))
      else if cv_kind v = CEL_UINT then Some (append_hex_uint lib buf (pl_u v) upper)
      else if cv_kind v = CEL_STRING then Some (append_bytes_as_hex lib buf (str_of m v) upper)
      else if cv_kind v = CEL_BYTES then Some (append_bytes_as_hex lib buf (str_of m v) upper)
      else None)"

subsection \<open>Aggregates\<close>

text \<open>Whether it could, the buffer, and the state; \<open>None\<close> when a call it makes traps or recursion is out of fuel.\<close>

type_synonym renderer = "u32 \<Rightarrow> u8 list \<Rightarrow> rt \<Rightarrow> (bool \<times> u8 list \<times> rt) option"

definition list_count_at :: "memory \<Rightarrow> u32 \<Rightarrow> u32" where
  "list_count_at m header_ptr = (if header_ptr = 0 then 0 else list_count m (unat header_ptr))"

definition list_element_slot :: "memory \<Rightarrow> u32 \<Rightarrow> u32 \<Rightarrow> u32" where
  "list_element_slot m header_ptr i = list_elements m (unat header_ptr) + 24 * i"

function list_render_from :: "renderer \<Rightarrow> u32 \<Rightarrow> nat \<Rightarrow> nat \<Rightarrow> u8 list \<Rightarrow> rt \<Rightarrow> (bool \<times> u8 list \<times> rt) option" where
  "list_render_from render header_ptr count k buf s =
     (if k < count then do {
        (ok, buf, s) \<leftarrow> render (list_element_slot (mem s) header_ptr (word_of_nat k))
            (if k > 0 then buf @ ascii '', '' else buf) s;
        if ok then list_render_from render header_ptr count (k + 1) buf s else Some (False, buf, s)
      }
      else Some (True, buf, s))"
  by pat_completeness auto
termination by (relation "measure (\<lambda>(r, h, count, k, b, s). count - k)") auto

declare list_render_from.simps [simp del]

definition append_list_canonical :: "cel_host \<Rightarrow> cel_value \<Rightarrow> renderer \<Rightarrow> renderer" where
  "append_list_canonical h junk render list_slot buf s = do {
     (view_slot, s) \<leftarrow> cel_list_arena_view h junk list_slot s;
     let view = load_cv (mem s) (cel_value_at view_slot);
     if cv_kind view \<noteq> CEL_LIST_ARENA then Some (False, buf, s)
     else do {
       let header_ptr = pl_header_ptr view;
       let count = list_count_at (mem s) header_ptr;
       (ok, buf, s) \<leftarrow> list_render_from render header_ptr (unat count) 0 (buf @ ascii ''['') s;
       if ok then Some (True, buf @ ascii '']'', s) else Some (False, buf, s)
     }
   }"

definition is_formattable_map_key :: "u32 \<Rightarrow> bool" where
  "is_formattable_map_key kind \<longleftrightarrow> kind = CEL_STRING \<or> kind = CEL_BOOL \<or> kind = CEL_INT \<or> kind = CEL_UINT"

text \<open>\<open>std::map\<close>: the entries in key order; \<open>emplace\<close> of a present key leaves the map unchanged.\<close>

fun emplace :: "u8 list \<Rightarrow> u8 list \<Rightarrow> (u8 list \<times> u8 list) list \<Rightarrow> (u8 list \<times> u8 list) list" where
  "emplace k v [] = [(k, v)]"
| "emplace k v ((k', v') # es) =
     (if k < k' then (k, v) # (k', v') # es else if k = k' then (k', v') # es else (k', v') # emplace k v es)"

partial_function (option) map_render_loop ::
  "renderer \<Rightarrow> u32 \<Rightarrow> u32 \<Rightarrow> u32 \<Rightarrow> (u8 list \<times> u8 list) list \<Rightarrow> rt \<Rightarrow> ((u8 list \<times> u8 list) list option \<times> rt) option" where
  [code]: "map_render_loop render key_slot val_slot iter entries s =
     (let (more, s) = cel_map_iter_next iter s in
      if \<not> more then Some (Some entries, s)
      else (let s = cel_map_iter_key_at key_slot iter s in
        if \<not> is_formattable_map_key (cv_kind (cv s key_slot)) then Some (None, s)
        else do {
          (ok, key_str, s) \<leftarrow> render key_slot [] s;
          if \<not> ok then Some (None, s)
          else do {
            (ok, val_str, s) \<leftarrow> render val_slot [] (cel_map_iter_value_at val_slot iter s);
            if \<not> ok then Some (None, s)
            else map_render_loop render key_slot val_slot iter (emplace key_str val_str entries) s
          }
        }))"

fun append_entries :: "u8 list \<Rightarrow> bool \<Rightarrow> (u8 list \<times> u8 list) list \<Rightarrow> u8 list" where
  "append_entries buf first [] = buf"
| "append_entries buf first ((k, v) # es) =
     append_entries ((if first then buf else buf @ ascii '', '') @ k @ ascii '': '' @ v) False es"

definition append_map_canonical :: "cel_host \<Rightarrow> cel_value \<Rightarrow> renderer \<Rightarrow> renderer" where
  "append_map_canonical h junk render map_slot buf s = do {
     (scratch, s) \<leftarrow> arena_alloc 48 s;
     if scratch = 0 then Some (False, buf, s)
     else do {
       (iter, s) \<leftarrow> cel_map_iter_init h junk map_slot s;
       (entries, s) \<leftarrow> map_render_loop render scratch (scratch + 24) iter [] s;
       (case entries of
          None \<Rightarrow> Some (False, buf, s)
        | Some es \<Rightarrow> Some (True, append_entries (buf @ ascii ''{'') True es @ ascii ''}'', s))
     }
   }"

text \<open>\<open>%s\<close>. The fuel bounds the nesting of the value, which bounds the recursion.\<close>

fun render_string :: "nat \<Rightarrow> format_lib \<Rightarrow> cel_host \<Rightarrow> cel_value \<Rightarrow> renderer" where
  "render_string 0 lib h junk slot buf s = None"
| "render_string (Suc fuel) lib h junk slot buf s =
     (let v = load_cv (mem s) (cel_value_at slot); kind = cv_kind v in
      if kind = CEL_NULL then Some (True, buf @ ascii ''null'', s)
      else if kind = CEL_BOOL then Some (True, buf @ (if pl_b v \<noteq> 0 then ascii ''true'' else ascii ''false''), s)
      else if kind = CEL_INT then Some (True, buf @ str_int lib (pl_i v), s)
      else if kind = CEL_UINT then Some (True, buf @ str_uint lib (pl_u v), s)
      else if kind = CEL_DOUBLE then Some (True, append_double_canonical lib buf (pl_d v), s)
      else if kind = CEL_STRING then Some (True, buf @ str_of (mem s) v, s)
      else if kind = CEL_BYTES then Some (True, buf @ str_of (mem s) v, s)
      else if kind = CEL_TYPE then Some (True, buf @ str_of (mem s) v, s)
      else if kind = CEL_TIMESTAMP then Some (True, append_timestamp_canonical lib buf (pl_seconds v) (pl_nanos v), s)
      else if kind = CEL_DURATION then Some (True, append_duration_canonical lib buf (pl_seconds v) (pl_nanos v), s)
      else if kind = CEL_LIST_ARENA \<or> kind = CEL_LIST_HOST then append_list_canonical h junk (render_string fuel lib h junk) slot buf s
      else if kind = CEL_MAP_ARENA \<or> kind = CEL_MAP_HOST then append_map_canonical h junk (render_string fuel lib h junk) slot buf s
      else Some (False, buf, s))"

subsection \<open>The dispatcher\<close>

text \<open>A scalar renderer that fails appends nothing.\<close>

definition rendered :: "u8 list \<Rightarrow> u8 list option \<Rightarrow> rt \<Rightarrow> (bool \<times> u8 list \<times> rt) option" where
  "rendered buf r s = (case r of None \<Rightarrow> Some (False, buf, s) | Some buf' \<Rightarrow> Some (True, buf', s))"

definition dispatch_directive :: "nat \<Rightarrow> format_lib \<Rightarrow> cel_host \<Rightarrow> cel_value \<Rightarrow> directive_op \<Rightarrow> renderer" where
  "dispatch_directive fuel lib h junk op slot buf s =
     (let arg = load_cv (mem s) (cel_value_at slot) in
      case op_kind op of
        kSubstring \<Rightarrow> render_string fuel lib h junk slot buf s
      | kDecimal \<Rightarrow> rendered buf (render_decimal lib buf arg) s
      | kFixed \<Rightarrow> rendered buf (render_fixed lib buf arg (op_precision op)) s
      | kScientific \<Rightarrow> rendered buf (render_scientific lib buf arg (op_precision op)) s
      | kBinary \<Rightarrow> rendered buf (render_binary buf arg) s
      | kOctal \<Rightarrow> rendered buf (render_octal lib buf arg) s
      | kHexLower \<Rightarrow> rendered buf (render_hex lib (mem s) buf arg False) s
      | kHexUpper \<Rightarrow> rendered buf (render_hex lib (mem s) buf arg True) s
      | kLiteral \<Rightarrow> None)"

text \<open>\<open>cell\<close> is the format's string cell; its bytes are read from the memory of the moment.\<close>

definition emit_literal :: "memory \<Rightarrow> u8 list \<Rightarrow> cel_value \<Rightarrow> directive_op \<Rightarrow> u8 list" where
  "emit_literal m buf cell op = buf @ bytes_at m (unat (pl_s_ptr cell) + unat (op_byte_off op)) (unat (op_len op))"

fun run_format :: "nat \<Rightarrow> format_lib \<Rightarrow> cel_host \<Rightarrow> cel_value \<Rightarrow> u8 list \<Rightarrow> cel_value \<Rightarrow> directive_op list \<Rightarrow> u32 \<Rightarrow> u32 \<Rightarrow> rt
    \<Rightarrow> ((u32 + u8 list) \<times> rt) option" where
  "run_format fuel lib h junk buf cell [] args_header_ptr arg_index s = Some (Inr buf, s)"
| "run_format fuel lib h junk buf cell (op # ops) args_header_ptr arg_index s =
     (if op_kind op = kLiteral
      then run_format fuel lib h junk (emit_literal (mem s) buf cell op) cell ops args_header_ptr arg_index s
      else if arg_index \<ge> list_count_at (mem s) args_header_ptr then Some (Inl CEL_ERR_INVALID_ARGUMENT, s)
      else do {
        (ok, buf, s) \<leftarrow> dispatch_directive fuel lib h junk op (list_element_slot (mem s) args_header_ptr arg_index) buf s;
        if \<not> ok then Some (Inl CEL_ERR_INVALID_ARGUMENT, s)
        else run_format fuel lib h junk buf cell ops args_header_ptr (arg_index + 1) s
      })"

definition commit_result :: "nat \<Rightarrow> u8 list \<Rightarrow> rt \<Rightarrow> rt option" where
  "commit_result out buf s =
     (if buf = [] then Some (set_span CEL_STRING 0 0 out s)
      else do {
        (off, s) \<leftarrow> arena_alloc (word_of_nat (length buf)) s;
        if off = 0 then Some (poison out CEL_ERR_OVERFLOW s)
        else Some (set_span CEL_STRING off (word_of_nat (length buf)) out (s\<lparr>mem := store_bytes (mem s) (unat off) buf\<rparr>))
      })"

text \<open>The header of the arguments' arena list, or \<open>None\<close> where the code has poisoned the result.\<close>

definition resolve_args_header :: "cel_host \<Rightarrow> cel_value \<Rightarrow> u32 \<Rightarrow> u32 \<Rightarrow> rt \<Rightarrow> (u32 option \<times> rt) option" where
  "resolve_args_header h junk out_slot args_slot s =
     (let kind = cv_kind (cv s args_slot) in
      if kind \<noteq> CEL_LIST_ARENA \<and> kind \<noteq> CEL_LIST_HOST then Some (None, poison (cel_value_at out_slot) CEL_ERR_TYPE_MISMATCH s)
      else do {
        (view_slot, s) \<leftarrow> cel_list_arena_view h junk args_slot s;
        Some (Some (pl_header_ptr (cv s view_slot)), s)
      })"

text \<open>The first error or unknown among the arguments.\<close>

function first_poisoned :: "memory \<Rightarrow> u32 \<Rightarrow> nat \<Rightarrow> cel_value option" where
  "first_poisoned m header_ptr k =
     (if k < unat (list_count_at m header_ptr)
      then (let a = load_cv m (cel_value_at (list_element_slot m header_ptr (word_of_nat k))) in
        if cv_kind a = CEL_ERROR \<or> cv_kind a = CEL_UNKNOWN then Some a else first_poisoned m header_ptr (k + 1))
      else None)"
  by pat_completeness auto
termination by (relation "measure (\<lambda>(m, p, k). unat (list_count_at m p) - k)") auto

declare first_poisoned.simps [simp del]

definition run_and_commit :: "nat \<Rightarrow> format_lib \<Rightarrow> cel_host \<Rightarrow> cel_value \<Rightarrow> nat \<Rightarrow> cel_value \<Rightarrow> directive_op list \<Rightarrow> u32 \<Rightarrow> rt \<Rightarrow> rt option" where
  "run_and_commit fuel lib h junk out cell ops args_header_ptr s = do {
     (r, s) \<leftarrow> run_format fuel lib h junk [] cell ops args_header_ptr 0 s;
     (case r of
        Inl err \<Rightarrow> Some (poison out (if err \<noteq> 0 then err else CEL_ERR_INVALID_ARGUMENT) s)
      | Inr buf \<Rightarrow> commit_result out buf s)
   }"

definition cel_string_format_at_vv ::
  "nat \<Rightarrow> format_lib \<Rightarrow> cel_host \<Rightarrow> cel_value \<Rightarrow> u32 \<Rightarrow> u32 \<Rightarrow> u32 \<Rightarrow> format_cache \<times> rt \<Rightarrow> (format_cache \<times> rt) option" where
  "cel_string_format_at_vv fuel lib h junk out_slot s_slot args_slot = (\<lambda>(cache, s).
     (let out = cel_value_at out_slot; (wrote, s) = absorb_3vl_unary out (cel_value_at s_slot) s in
      if wrote then Some (cache, s)
      else (let (wrote, s) = absorb_3vl_unary out (cel_value_at args_slot) s in
        if wrote then Some (cache, s)
        else if cv_kind (cv s s_slot) \<noteq> CEL_STRING then Some (cache, poison out CEL_ERR_TYPE_MISMATCH s)
        else do {
          (header, s) \<leftarrow> resolve_args_header h junk out_slot args_slot s;
          (case header of
             None \<Rightarrow> Some (cache, s)
           | Some args_header_ptr \<Rightarrow>
               (let cell = cv s s_slot;
                    (ok, cache) = refresh_cache (simple_atoi lib) (str_of (mem s) cell) cache in
                if \<not> ok then Some (cache, poison out CEL_ERR_INVALID_ARGUMENT s)
                else (case first_poisoned (mem s) args_header_ptr 0 of
                    Some absorbed \<Rightarrow> Some (cache, s\<lparr>mem := store_cv (mem s) out absorbed\<rparr>)
                  | None \<Rightarrow> map_option (Pair cache) (run_and_commit fuel lib h junk out cell (cached_ops cache) args_header_ptr s))))
        })))"

subsection \<open>What a value looks like\<close>

datatype fval =
    FNull | FBool bool | FInt int | FUint nat | FDouble u64 | FString "u8 list" | FBytes "u8 list" | FType "u8 list"
  | FTime int int | FDur int | FList "fval list" | FMap "(fval \<times> fval) list" | FOther

text \<open>Numbers in a base, most significant digit first.\<close>

function base_digits :: "nat \<Rightarrow> nat \<Rightarrow> nat list" where
  "base_digits b n = (if n = 0 \<or> b < 2 then [] else base_digits b (n div b) @ [n mod b])"
  by pat_completeness auto
termination by (relation "measure snd") auto

declare base_digits.simps [simp del]

definition digit_lower :: "nat \<Rightarrow> u8" where "digit_lower d = word_of_nat (if d < 10 then 0x30 + d else 0x57 + d)"
definition digit_upper :: "nat \<Rightarrow> u8" where "digit_upper d = word_of_nat (if d < 10 then 0x30 + d else 0x37 + d)"

definition base_text :: "(nat \<Rightarrow> u8) \<Rightarrow> nat \<Rightarrow> nat \<Rightarrow> u8 list" where
  "base_text digit b n = (if n = 0 then [digit 0] else map digit (base_digits b n))"

definition signed_text :: "(nat \<Rightarrow> u8) \<Rightarrow> nat \<Rightarrow> int \<Rightarrow> u8 list" where
  "signed_text digit b i = (if i < 0 then [0x2D] else []) @ base_text digit b (nat \<bar>i\<bar>)"

definition padded_text :: "nat \<Rightarrow> nat \<Rightarrow> u8 list" where
  "padded_text w n = replicate (w - length (base_text digit_lower 10 n)) 0x30 @ base_text digit_lower 10 n"

definition double_text :: "(u64 \<Rightarrow> u8 list) \<Rightarrow> u64 \<Rightarrow> u8 list" where
  "double_text finite_text v =
     (if d_isnan v then ascii ''NaN''
      else if d_isinf v then (if d_neg_sign v then ascii ''-Infinity'' else ascii ''Infinity'')
      else finite_text v)"

text \<open>A duration is one number of nanoseconds.\<close>

definition duration_text :: "int \<Rightarrow> u8 list" where
  "duration_text u =
     (let whole = nat \<bar>u\<bar> div 10 ^ 9; part = nat \<bar>u\<bar> mod 10 ^ 9 in
      (if u < 0 then [0x2D] else []) @ base_text digit_lower 10 whole
      @ (if part = 0 then [] else [0x2E] @
          (if part mod 10 ^ 6 = 0 then padded_text 3 (part div 10 ^ 6)
           else if part mod 10 ^ 3 = 0 then padded_text 6 (part div 10 ^ 3) else padded_text 9 part))
      @ [0x73])"

definition time_text :: "format_lib \<Rightarrow> int \<Rightarrow> int \<Rightarrow> u8 list" where
  "time_text lib secs nanos = (let t = format_time lib secs nanos in take (length t - 6) t @ ascii ''Z'')"

fun separated :: "u8 list \<Rightarrow> u8 list list \<Rightarrow> u8 list" where
  "separated sep [] = []"
| "separated sep [x] = x"
| "separated sep (x # y # xs) = x @ sep @ separated sep (y # xs)"

text \<open>A map's text: its key texts in order, each with the value of the first entry it came from.\<close>

definition map_text :: "(u8 list \<times> u8 list) list \<Rightarrow> u8 list" where
  "map_text ps = ascii ''{'' @ separated (ascii '', '')
     (map (\<lambda>k. k @ ascii '': '' @ the (map_of ps k)) (sorted_list_of_set (fst ` set ps))) @ ascii ''}''"

fun formattable_key :: "fval \<Rightarrow> bool" where
  "formattable_key (FString _) \<longleftrightarrow> True"
| "formattable_key (FBool _) \<longleftrightarrow> True"
| "formattable_key (FInt _) \<longleftrightarrow> True"
| "formattable_key (FUint _) \<longleftrightarrow> True"
| "formattable_key _ \<longleftrightarrow> False"

fun both :: "'a option \<times> 'b option \<Rightarrow> ('a \<times> 'b) option" where
  "both (Some a, Some b) = Some (a, b)"
| "both _ = None"

primrec canon :: "format_lib \<Rightarrow> fval \<Rightarrow> u8 list option" where
  "canon lib FNull = Some (ascii ''null'')"
| "canon lib (FBool b) = Some (if b then ascii ''true'' else ascii ''false'')"
| "canon lib (FInt i) = Some (signed_text digit_lower 10 i)"
| "canon lib (FUint n) = Some (base_text digit_lower 10 n)"
| "canon lib (FDouble d) = Some (double_text (str_double lib) d)"
| "canon lib (FString bs) = Some bs"
| "canon lib (FBytes bs) = Some bs"
| "canon lib (FType bs) = Some bs"
| "canon lib (FTime secs nanos) = Some (time_text lib secs nanos)"
| "canon lib (FDur u) = Some (duration_text u)"
| "canon lib (FList ts) = map_option (\<lambda>xs. ascii ''['' @ separated (ascii '', '') xs @ ascii '']'') (those (map (canon lib) ts))"
| "canon lib (FMap es) =
     (if list_all (\<lambda>e. formattable_key (fst e)) es
      then map_option map_text (those (map both (map (map_prod (canon lib) (canon lib)) es))) else None)"
| "canon lib FOther = None"

text \<open>What the other directives make of a value.\<close>

fun number_of :: "fval \<Rightarrow> u64 option" where
  "number_of (FDouble d) = Some d"
| "number_of (FInt i) = Some (d_of_int i)"
| "number_of (FUint n) = Some (d_of_int (int n))"
| "number_of _ = None"

definition precision_of :: "int \<Rightarrow> int" where "precision_of p = (if p = kPrecisionDefault then 6 else p)"

fun integer_text :: "(nat \<Rightarrow> u8) \<Rightarrow> nat \<Rightarrow> fval \<Rightarrow> u8 list option" where
  "integer_text digit b (FInt i) = Some (signed_text digit b i)"
| "integer_text digit b (FUint n) = Some (base_text digit b n)"
| "integer_text digit b _ = None"

definition bytes_hex :: "(nat \<Rightarrow> u8) \<Rightarrow> u8 list \<Rightarrow> u8 list" where
  "bytes_hex digit bs = concat (map (\<lambda>c. [digit (unat c div 16), digit (unat c mod 16)]) bs)"

fun hex_text :: "(nat \<Rightarrow> u8) \<Rightarrow> fval \<Rightarrow> u8 list option" where
  "hex_text digit (FString bs) = Some (bytes_hex digit bs)"
| "hex_text digit (FBytes bs) = Some (bytes_hex digit bs)"
| "hex_text digit t = integer_text digit 16 t"

definition directive_text :: "format_lib \<Rightarrow> directive_kind \<Rightarrow> int \<Rightarrow> fval \<Rightarrow> u8 list option" where
  "directive_text lib k p t =
     (case k of
        kSubstring \<Rightarrow> canon lib t
      | kDecimal \<Rightarrow> (case t of FDouble d \<Rightarrow> Some (double_text (fixed_text lib 6) d) | _ \<Rightarrow> integer_text digit_lower 10 t)
      | kFixed \<Rightarrow> map_option (double_text (fixed_text lib (precision_of p))) (number_of t)
      | kScientific \<Rightarrow> map_option (double_text (scientific_text lib (precision_of p))) (number_of t)
      | kBinary \<Rightarrow> (case t of FBool b \<Rightarrow> Some [if b then 0x31 else 0x30] | _ \<Rightarrow> integer_text digit_lower 2 t)
      | kOctal \<Rightarrow> integer_text digit_lower 8 t
      | kHexLower \<Rightarrow> hex_text digit_lower t
      | kHexUpper \<Rightarrow> hex_text digit_upper t
      | kLiteral \<Rightarrow> None)"

text \<open>A format on its arguments: one argument per directive, in order; surplus arguments are ignored.\<close>

fun expand :: "format_lib \<Rightarrow> instr list \<Rightarrow> fval list \<Rightarrow> u8 list option" where
  "expand lib [] ts = Some []"
| "expand lib (Emit b # is) ts = map_option (Cons b) (expand lib is ts)"
| "expand lib (Render k p # is) [] = None"
| "expand lib (Render k p # is) (t # ts) =
     (case directive_text lib k p t of None \<Rightarrow> None | Some x \<Rightarrow> map_option (append x) (expand lib is ts))"

text \<open>The timestamps of CEL, from year 1 to year 9999.\<close>

definition timestamp_valid :: "int \<Rightarrow> int \<Rightarrow> bool" where
  "timestamp_valid secs nanos \<longleftrightarrow> TIMESTAMP_MIN_SECONDS \<le> secs \<and> secs \<le> TIMESTAMP_MAX_SECONDS \<and> 0 \<le> nanos \<and> nanos < 10 ^ 9"

text \<open>The documented contracts of the library's formatters.\<close>

definition lib_ok :: "format_lib \<Rightarrow> bool" where
  "lib_ok lib \<longleftrightarrow> atoi_ok (simple_atoi lib)
     \<and> (\<forall>v. str_int lib v = signed_text digit_lower 10 (sint v)) \<and> (\<forall>v. str_uint lib v = base_text digit_lower 10 (unat v))
     \<and> (\<forall>w n. zero_padded lib w (int n) = padded_text w n)
     \<and> (\<forall>v. octal_text lib v = base_text digit_lower 8 (unat v))
     \<and> (\<forall>v. hex_lower lib v = base_text digit_lower 16 (unat v)) \<and> (\<forall>v. hex_upper lib v = base_text digit_upper 16 (unat v))
     \<and> (\<forall>bs. bytes_to_hex lib bs = bytes_hex digit_lower bs)
     \<and> (\<forall>bs. str_to_upper lib bs = map (\<lambda>c. if 0x61 \<le> c \<and> c \<le> 0x7A then c - 0x20 else c) bs)
     \<and> (\<forall>secs nanos. timestamp_valid secs nanos \<longrightarrow> (\<exists>body. body \<noteq> [] \<and> format_time lib secs nanos = body @ ascii ''+00:00''))"

subsection \<open>Scalar texts\<close>

lemma uint_neg64: "uint (- v) = - sint v" if "sint v < 0" for v :: u64
proof (cases "v = I64_MIN_BITS")
  case True
  then show ?thesis by simp
next
  case False
  then show ?thesis using uint_abs64 [of v] that by simp
qed

lemma unat_signed_abs: "unat (signed_abs_as_uint v) = nat \<bar>sint v\<bar>"
proof (cases "0 \<le> sint v")
  case True
  then show ?thesis using sint_range64 [of v] by (simp add: signed_abs_as_uint_def uint_of_sint64 flip: nat_uint_eq)
next
  case False
  then show ?thesis using uint_neg64 [of v] by (simp add: signed_abs_as_uint_def flip: nat_uint_eq)
qed

lemma binary_digits_text: "rev (binary_digits v) = map digit_lower (base_digits 2 (unat v))"
proof (induction v rule: binary_digits.induct)
  case (1 v)
  show ?case
  proof (cases "v = 0")
    case True
    then show ?thesis by (simp add: binary_digits.simps [of 0] base_digits.simps [of 2 0])
  next
    case False
    have "unat (drop_bit 1 v) = unat v div 2" by (simp add: unat_drop_bit_eq drop_bit_nat_def)
    moreover have "(v AND 1 \<noteq> 0) = (unat v mod 2 = 1)" by (simp add: and_one_eq word_unat_eq_iff unat_mod)
    ultimately show ?thesis using 1 False
      by (subst binary_digits.simps, subst base_digits.simps) (auto simp: unat_eq_0 digit_lower_def)
  qed
qed

lemma sint_neg64: "v \<noteq> I64_MIN_BITS \<Longrightarrow> sint (- v) = - sint v" for v :: u64
  using sint_word_of_int64 [of "- sint v"] sint_range64 [of v] sint_min_bits [of v] by simp

lemma sint_neg32: "- (2 ^ 31) < sint n \<Longrightarrow> sint (- n) = - sint n" for n :: u32
  using sint_lt [of n] sint_ge [of n] sint_sbintrunc' [of "- sint n", where ?'a = 32]
  by (simp add: signed_take_bit_int_eq_self)

lemma duration_canonical:
  assumes lib: "lib_ok lib" and c: "correlated \<lparr>dt_seconds = secs, dt_nanos = nanos\<rparr>" "secs \<noteq> I64_MIN_BITS"
  shows "append_duration_canonical lib buf secs nanos = buf @ duration_text (nanos_of \<lparr>dt_seconds = secs, dt_nanos = nanos\<rparr>)"
proof -
  define S N where "S = sint secs" and "N = sint nanos"
  let ?u = "S * 10 ^ 9 + N"
  have cor: "\<bar>N\<bar> < 10 ^ 9" "0 < S \<Longrightarrow> 0 \<le> N" "S < 0 \<Longrightarrow> N \<le> 0" using c(1) by (simp_all add: correlated_def S_def N_def)
  consider "0 < S" "0 \<le> N" | "S < 0" "N \<le> 0" | "S = 0" using cor(2,3) by linarith
  then have abs: "\<bar>?u\<bar> = \<bar>S\<bar> * 10 ^ 9 + \<bar>N\<bar>" and sg: "?u < 0 \<longleftrightarrow> S < 0 \<or> N < 0"
    and zero: "?u = 0 \<longleftrightarrow> S = 0 \<and> N = 0" using cor(1) by (cases; simp)+
  have nat: "nat \<bar>?u\<bar> = nat \<bar>S\<bar> * 10 ^ 9 + nat \<bar>N\<bar>" unfolding abs by (simp add: nat_add_distrib nat_mult_distrib)
  have N9: "nat \<bar>N\<bar> < 10 ^ 9" using cor(1) by simp
  have w: "nat \<bar>?u\<bar> div 10 ^ 9 = nat \<bar>S\<bar>" "nat \<bar>?u\<bar> mod 10 ^ 9 = nat \<bar>N\<bar>" unfolding nat using N9 by simp_all
  have si: "str_int lib v = signed_text digit_lower 10 (sint v)" and zp: "zero_padded lib k (int n) = padded_text k n" for v k n
    using lib by (simp_all add: lib_ok_def)
  let ?secs = "if (S < 0 \<or> N < 0) \<and> S < 0 then - secs else secs" and ?nanos = "if (S < 0 \<or> N < 0) \<and> N < 0 then - nanos else nanos"
  have secs: "sint ?secs = int (nat \<bar>S\<bar>)" using sint_neg64 [OF c(2)] by (simp add: S_def)
  have nanos: "sint ?nanos = int (nat \<bar>N\<bar>)" using sint_neg32 [of nanos] cor(1) by (simp add: N_def)
  have nz: "?nanos \<noteq> 0 \<longleftrightarrow> nat \<bar>N\<bar> \<noteq> 0"
  proof -
    have "sint ?nanos = 0 \<longleftrightarrow> ?nanos = 0" by (rule signed_eq_0_iff)
    then show ?thesis unfolding nanos of_nat_eq_0_iff by argo
  qed
  have z: "secs = 0 \<and> nanos = 0 \<longleftrightarrow> ?u = 0"
    unfolding zero by (simp add: S_def N_def signed_eq_0_iff)
  have st: "signed_text digit_lower 10 (int n) = base_text digit_lower 10 n" for n by (simp add: signed_text_def)
  have m: "int n mod 1000000 = 0 \<longleftrightarrow> n mod 1000000 = 0" "int n mod 1000 = 0 \<longleftrightarrow> n mod 1000 = 0"
    "int n div 1000000 = int (n div 1000000)" "int n div 1000 = int (n div 1000)" for n
    by (presburger, presburger, simp_all add: zdiv_int)
  show ?thesis
  proof (cases "?u = 0")
    case True
    then have "S = 0" "N = 0" unfolding zero by blast+
    then show ?thesis using z True
      by (simp add: append_duration_canonical_def duration_text_def nanos_of_def base_text_def digit_lower_def ascii_def S_def N_def)
  next
    case False
    then have nonzero: "(secs = 0 \<and> nanos = 0) = False" using z by blast
    have "append_duration_canonical lib buf secs nanos = (if S < 0 \<or> N < 0 then buf @ [0x2D] else buf)
      @ base_text digit_lower 10 (nat \<bar>S\<bar>) @ (if nat \<bar>N\<bar> = 0 then [] else [0x2E] @
          (if nat \<bar>N\<bar> mod 10 ^ 6 = 0 then padded_text 3 (nat \<bar>N\<bar> div 10 ^ 6)
           else if nat \<bar>N\<bar> mod 10 ^ 3 = 0 then padded_text 6 (nat \<bar>N\<bar> div 10 ^ 3) else padded_text 9 (nat \<bar>N\<bar>))) @ [0x73]"
      unfolding append_duration_canonical_def Let_def S_def [symmetric] N_def [symmetric] si nz secs nanos st m zp nonzero by simp
    moreover have "nanos_of \<lparr>dt_seconds = secs, dt_nanos = nanos\<rparr> = ?u" by (simp add: nanos_of_def S_def N_def)
    ultimately show ?thesis by (simp only: duration_text_def Let_def w sg append_assoc append_Nil split: if_split) simp
  qed
qed

lemma double_canonical: "append_double_canonical lib buf v = buf @ double_text (str_double lib) v"
  by (simp add: append_double_canonical_def special_double_def double_text_def)

lemma double_with_precision:
  "render_double_with_precision lib buf v p False = buf @ double_text (fixed_text lib (precision_of p)) v"
  "render_double_with_precision lib buf v p True = buf @ double_text (scientific_text lib (precision_of p)) v"
  by (simp_all add: render_double_with_precision_def special_double_def double_text_def precision_of_def)

lemma timestamp_canonical:
  assumes "lib_ok lib" "timestamp_valid (sint secs) (sint nanos)"
  shows "append_timestamp_canonical lib buf secs nanos = buf @ time_text lib (sint secs) (sint nanos)"
proof -
  obtain body where "body \<noteq> []" "format_time lib (sint secs) (sint nanos) = body @ ascii ''+00:00''"
    using assms unfolding lib_ok_def by blast
  moreover have "length (ascii ''+00:00'') = 6" by (simp add: ascii_def)
  ultimately show ?thesis by (simp add: append_timestamp_canonical_def time_text_def)
qed

end
