(* ===== verification/FormatCorrect.thy ===== *)
theory FormatCorrect
  imports FormatRender
begin

text \<open>
  The renderers and the kernel of \<open>format\<close> against the texts of the values their cells stand for:
  scalars, nested lists and maps, and then a whole format on its argument list.
\<close>

subsection \<open>The value a cell stands for\<close>

definition leaf_of :: "memory \<Rightarrow> cel_value \<Rightarrow> fval" where
  "leaf_of m c =
     (if cv_kind c = CEL_NULL then FNull
      else if cv_kind c = CEL_BOOL then FBool (pl_b c \<noteq> 0)
      else if cv_kind c = CEL_INT then FInt (sint (pl_i c))
      else if cv_kind c = CEL_UINT then FUint (unat (pl_u c))
      else if cv_kind c = CEL_DOUBLE then FDouble (pl_d c)
      else if cv_kind c = CEL_STRING then FString (str_of m c)
      else if cv_kind c = CEL_BYTES then FBytes (str_of m c)
      else if cv_kind c = CEL_TYPE then FType (str_of m c)
      else if cv_kind c = CEL_TIMESTAMP then FTime (sint (pl_seconds c)) (sint (pl_nanos c))
      else if cv_kind c = CEL_DURATION then FDur (nanos_of (pl_dur c))
      else FOther)"

abbreviation aggregate_kind :: "u32 \<Rightarrow> bool" where
  "aggregate_kind k \<equiv> k = CEL_LIST_ARENA \<or> k = CEL_LIST_HOST \<or> k = CEL_MAP_ARENA \<or> k = CEL_MAP_HOST"

definition leaf_ok :: "rt \<Rightarrow> cel_value \<Rightarrow> bool" where
  "leaf_ok s c \<longleftrightarrow> \<not> aggregate_kind (cv_kind c)
     \<and> (cv_kind c = CEL_STRING \<or> cv_kind c = CEL_BYTES \<or> cv_kind c = CEL_TYPE \<longrightarrow> span_kept s c)
     \<and> (cv_kind c = CEL_TIMESTAMP \<longrightarrow> timestamp_valid (sint (pl_seconds c)) (sint (pl_nanos c)))
     \<and> (cv_kind c = CEL_DURATION \<longrightarrow> correlated (pl_dur c) \<and> pl_seconds c \<noteq> I64_MIN_BITS)"

text \<open>The cell \<open>c\<close> stands for the value, and the data it reaches is kept.\<close>

function content :: "rt \<Rightarrow> cel_value \<Rightarrow> fval \<Rightarrow> bool" where
  "content s c t \<longleftrightarrow>
     (case t of
        FList ts \<Rightarrow> cv_kind c = CEL_LIST_ARENA
          \<and> (pl_header_ptr c \<noteq> 0 \<longrightarrow> kept_range s (unat (pl_header_ptr c)) 16)
          \<and> length ts = unat (list_count_at (mem s) (pl_header_ptr c))
          \<and> (\<forall>i < length ts. kept_range s (cel_value_at (list_element_slot (mem s) (pl_header_ptr c) (word_of_nat i))) 24
               \<and> content s (load_cv (mem s) (cel_value_at (list_element_slot (mem s) (pl_header_ptr c) (word_of_nat i)))) (ts ! i))
      | FMap es \<Rightarrow> cv_kind c = CEL_MAP_ARENA
          \<and> kept_range s (arena_map_header c) 16
          \<and> length es = unat (map_count (mem s) (arena_map_header c))
          \<and> kept_range s (unat (map_entries (mem s) (arena_map_header c))) (48 * length es)
          \<and> (\<forall>i < length es. content s (load_cv (mem s) (unat (map_entries (mem s) (arena_map_header c)) + 48 * i)) (fst (es ! i))
               \<and> content s (load_cv (mem s) (unat (map_entries (mem s) (arena_map_header c)) + 48 * i + 24)) (snd (es ! i)))
      | _ \<Rightarrow> leaf_ok s c \<and> t = leaf_of (mem s) c)"
  by pat_completeness auto
termination
proof (relation "measure (\<lambda>(s, c, t). size t)", goal_cases)
  case (2 s c t ts i)
  then show ?case by (auto simp: less_Suc_eq_le intro: size_list_estimation' nth_mem)
next
  case (3 s c t es i)
  then have "size_prod size size (es ! i) \<le> size_list (size_prod size size) es" 
    by (intro size_list_estimation' [of "es ! i" es _ "size_prod size size"]) simp_all
  then show ?case using 3 by (cases "es ! i") (auto simp: less_Suc_eq_le)
next
  case (4 s c t es i)
  then have "size_prod size size (es ! i) \<le> size_list (size_prod size size) es" 
    by (intro size_list_estimation' [of "es ! i" es _ "size_prod size size"]) simp_all
  then show ?case using 4 by (cases "es ! i") (auto simp: less_Suc_eq_le)
qed simp

declare content.simps [simp del]

lemmas content_simps = content.simps [of _ _ "FList _", simplified] content.simps [of _ _ "FMap _", simplified]

lemma leaf_of_leaf: "leaf_of m c \<noteq> FList ts" "leaf_of m c \<noteq> FMap es"
  by (simp_all add: leaf_of_def)

lemma content_leaf: "content s c t \<Longrightarrow> (\<forall>ts. t \<noteq> FList ts) \<Longrightarrow> (\<forall>es. t \<noteq> FMap es) \<Longrightarrow> leaf_ok s c \<and> t = leaf_of (mem s) c"
  by (subst (asm) content.simps) (cases t; simp)

lemma content_leafI: "leaf_ok s c \<Longrightarrow> content s c (leaf_of (mem s) c)"
  using leaf_of_leaf [of "mem s" c] by (subst content.simps) (auto split: fval.splits)

primrec fdepth :: "fval \<Rightarrow> nat" where
  "fdepth FNull = 1" | "fdepth (FBool b) = 1" | "fdepth (FInt i) = 1" | "fdepth (FUint n) = 1" | "fdepth (FDouble d) = 1"
| "fdepth (FString bs) = 1" | "fdepth (FBytes bs) = 1" | "fdepth (FType bs) = 1" | "fdepth (FTime a b) = 1" | "fdepth (FDur u) = 1"
| "fdepth FOther = 1"
| "fdepth (FList ts) = Suc (Max (insert 0 (set (map fdepth ts))))"
| "fdepth (FMap es) = Suc (Max (insert 0 (set (map (\<lambda>(a, b). max a b) (map (map_prod fdepth fdepth) es)))))"

text \<open>The maps in a value: each costs the renderer a scratch pair and an iterator.\<close>

primrec fmaps :: "fval \<Rightarrow> nat" where
  "fmaps FNull = 0" | "fmaps (FBool b) = 0" | "fmaps (FInt i) = 0" | "fmaps (FUint n) = 0" | "fmaps (FDouble d) = 0"
| "fmaps (FString bs) = 0" | "fmaps (FBytes bs) = 0" | "fmaps (FType bs) = 0" | "fmaps (FTime a b) = 0" | "fmaps (FDur u) = 0"
| "fmaps FOther = 0"
| "fmaps (FList ts) = sum_list (map fmaps ts)"
| "fmaps (FMap es) = Suc (sum_list (map (\<lambda>(a, b). a + b) (map (map_prod fmaps fmaps) es)))"

lemma leaf_ok_extends: "leaf_ok s c \<Longrightarrow> extends s s' \<Longrightarrow> leaf_ok s' c \<and> leaf_of (mem s') c = leaf_of (mem s) c"
proof -
  assume l: "leaf_ok s c" and e: "extends s s'"
  have "span_kept s' c \<and> str_of (mem s') c = str_of (mem s) c" if "span_kept s c"
    using that extends_loads(3) [OF e] kept_range_mono [OF extends_used [OF e]] by (simp add: span_kept_def span_bytes_def)
  then show ?thesis using l by (auto simp: leaf_ok_def leaf_of_def)
qed

lemma content_extends: "content s c t \<Longrightarrow> extends s s' \<Longrightarrow> content s' c t"
proof (induction s c t rule: content.induct)
  case (1 s c t)
  note e = 1(5) and kept = kept_range_mono [OF extends_used [OF 1(5)]]
  consider (list) ts where "t = FList ts" | (map) es where "t = FMap es" | (leaf) "\<forall>ts. t \<noteq> FList ts" "\<forall>es. t \<noteq> FMap es" by blast
  then show ?case
  proof cases
    case list
    let ?h = "pl_header_ptr c"
    note c = 1(4) [unfolded list content_simps]
    have w: "list_count_at (mem s') ?h = list_count_at (mem s) ?h"
      "?h \<noteq> 0 \<Longrightarrow> list_element_slot (mem s') ?h i = list_element_slot (mem s) ?h i" for i
      using c extends_loads(1) [OF e] kept_range_sub
      by (auto simp: list_count_at_def list_count_def list_element_slot_def list_elements_def)
    have "?h \<noteq> 0" if "i < length ts" for i using c that by (auto simp: list_count_at_def)
    then have el: "list_element_slot (mem s') ?h (word_of_nat i) = list_element_slot (mem s) ?h (word_of_nat i)"
      "load_cv (mem s') (cel_value_at (list_element_slot (mem s) ?h (word_of_nat i)))
        = load_cv (mem s) (cel_value_at (list_element_slot (mem s) ?h (word_of_nat i)))"
      "content s' (load_cv (mem s) (cel_value_at (list_element_slot (mem s) ?h (word_of_nat i)))) (ts ! i)"
      if "i < length ts" for i
      using c that w(2) extends_loads(2) [OF e] 1(1) [OF list that _ e] by blast+
    show ?thesis unfolding list content_simps using c kept w(1) el by simp
  next
    case map
    let ?h = "arena_map_header c"
    note c = 1(4) [unfolded map content_simps]
    have w: "map_count (mem s') ?h = map_count (mem s) ?h" "map_entries (mem s') ?h = map_entries (mem s) ?h"
      using c extends_loads(1) [OF e] kept_range_sub by (auto simp: map_count_def map_entries_def)
    have kr: "kept_range s (unat (map_entries (mem s) ?h)) (48 * length es)" using c by blast
    have el: "load_cv (mem s') (unat (map_entries (mem s) ?h) + 48 * i) = load_cv (mem s) (unat (map_entries (mem s) ?h) + 48 * i)"
      "load_cv (mem s') (unat (map_entries (mem s) ?h) + 48 * i + 24) = load_cv (mem s) (unat (map_entries (mem s) ?h) + 48 * i + 24)"
      if "i < length es" for i
      using that kr by (auto intro!: extends_loads(2) [OF e] kept_range_sub [OF kr])
    have "content s' (load_cv (mem s) (unat (map_entries (mem s) ?h) + 48 * i)) (fst (es ! i))"
      "content s' (load_cv (mem s) (unat (map_entries (mem s) ?h) + 48 * i + 24)) (snd (es ! i))" if "i < length es" for i
      using c 1(2) [OF map that _ e] 1(3) [OF map that _ e] that by blast+
    then show ?thesis unfolding map content_simps using c kept [OF kr] kept w el by simp
  next
    case leaf
    then have "leaf_ok s c \<and> t = leaf_of (mem s) c" using content_leaf 1(4) by blast
    then show ?thesis using leaf_ok_extends [OF _ e, of c] content_leafI [of s' c] by simp
  qed
qed

subsection \<open>Rendering one value\<close>

text \<open>What rendering owes its caller: the text or a refusal, an extension of the state, and the room it used.\<close>

definition yields :: "(bool \<times> u8 list \<times> rt) option \<Rightarrow> u8 list \<Rightarrow> u8 list option \<Rightarrow> rt \<Rightarrow> nat \<Rightarrow> bool" where
  "yields r buf x s cost \<longleftrightarrow> (\<exists>ok buf' s'. r = Some (ok, buf', s') \<and> (case x of None \<Rightarrow> \<not> ok | Some y \<Rightarrow> ok \<and> buf' = buf @ y)
     \<and> extends s s' \<and> arena_room s \<le> arena_room s' + cost)"

lemma leaf_rendered:
  assumes lib: "lib_ok lib" and l: "leaf_ok s (cv s slot)" and ok: "arena_ok s"
  shows "yields (render_string (Suc fuel) lib h junk slot buf s) buf (canon lib (leaf_of (mem s) (cv s slot))) s 0"
proof -
  have num: "str_int lib v = signed_text digit_lower 10 (sint v)" "str_uint lib v = base_text digit_lower 10 (unat v)" for v
    using lib by (simp_all add: lib_ok_def)
  have dur: "append_duration_canonical lib buf (pl_seconds (cv s slot)) (pl_nanos (cv s slot)) = buf @ duration_text (nanos_of (pl_dur (cv s slot)))"
    if "cv_kind (cv s slot) = CEL_DURATION"
    using duration_canonical [OF lib] l that by (simp add: leaf_ok_def pl_dur_def)
  have time: "append_timestamp_canonical lib buf (pl_seconds (cv s slot)) (pl_nanos (cv s slot))
      = buf @ time_text lib (sint (pl_seconds (cv s slot))) (sint (pl_nanos (cv s slot)))"
    if "cv_kind (cv s slot) = CEL_TIMESTAMP"
    using timestamp_canonical [OF lib] l that by (simp add: leaf_ok_def)
  show ?thesis
    using l dur time extends_refl [OF ok]
    by (simp add: yields_def ex_bool_eq leaf_ok_def leaf_of_def Let_def num double_canonical)
qed

subsection \<open>Rendering lists\<close>

lemma yields_bind:
  assumes "yields r buf x s c1" and "\<And>b s'. \<exists>b'. f (False, b, s') = Some (False, b', s')"
    and "\<And>y s'. x = Some y \<Longrightarrow> extends s s' \<Longrightarrow> arena_room s \<le> arena_room s' + c1 \<Longrightarrow> yields (f (True, buf @ y, s')) (buf @ y) z s' c2"
  shows "yields (Option.bind r f) buf (case x of None \<Rightarrow> None | Some y \<Rightarrow> map_option (append y) z) s (c1 + c2)"
proof -
  obtain ok buf' s1 where r: "r = Some (ok, buf', s1)" "case x of None \<Rightarrow> \<not> ok | Some y \<Rightarrow> ok \<and> buf' = buf @ y"
    "extends s s1" "arena_room s \<le> arena_room s1 + c1" using assms(1) unfolding yields_def by blast
  show ?thesis
  proof (cases x)
    case None
    obtain b' where "f (False, buf', s1) = Some (False, b', s1)" using assms(2) by blast
    then show ?thesis using r None by (auto simp: yields_def)
  next
    case (Some y)
    then obtain ok2 b2 s2 where f: "f (True, buf @ y, s1) = Some (ok2, b2, s2)"
      "case z of None \<Rightarrow> \<not> ok2 | Some w \<Rightarrow> ok2 \<and> b2 = (buf @ y) @ w" "extends s1 s2" "arena_room s1 \<le> arena_room s2 + c2"
      using assms(3) [OF Some r(3,4)] unfolding yields_def by blast
    have "arena_room s \<le> arena_room s2 + (c1 + c2)" using r(4) f(4) by linarith
    then show ?thesis using r f Some extends_trans [OF r(3) f(3)] by (cases z) (auto simp: yields_def)
  qed
qed

lemma yields_prefix: "yields r (buf @ p) x s c \<Longrightarrow> yields r buf (map_option (append p) x) s c"
  by (cases x) (auto simp: yields_def)

lemma yields_done: "arena_ok s \<Longrightarrow> yields (Some (True, buf @ p, s)) buf (Some p) s 0"
  by (simp add: yields_def extends_refl ex_bool_eq)

lemma those_Cons: "those (x # xs) = (case x of None \<Rightarrow> None | Some y \<Rightarrow> map_option (Cons y) (those xs))"
  by (simp split: option.splits)

lemma separated_Cons: "separated sep (x # xs) = x @ concat (map (append sep) xs)"
  by (induction xs arbitrary: x) simp_all

abbreviation renders :: "format_lib \<Rightarrow> renderer \<Rightarrow> fval \<Rightarrow> bool" where
  "renders lib render t \<equiv> \<forall>s slot buf. arena_ok s \<longrightarrow> kept_range s (cel_value_at slot) 24 \<longrightarrow> content s (cv s slot) t \<longrightarrow> 64 * fmaps t \<le> arena_room s
     \<longrightarrow> yields (render slot buf s) buf (canon lib t) s (64 * fmaps t)"

text \<open>The text the loop adds from element \<open>k\<close> on.\<close>

definition rest_text :: "nat \<Rightarrow> u8 list list \<Rightarrow> u8 list" where
  "rest_text k xs = (if k = 0 then separated (ascii '', '') xs else concat (map (append (ascii '', '')) xs))"

lemma rest_text_Cons: "rest_text k (x # xs) = ((if k > 0 then ascii '', '' else []) @ x) @ rest_text (k + 1) xs"
  by (simp add: rest_text_def separated_Cons)

lemma list_render_correct:
  assumes r: "\<forall>t \<in> set ts. renders lib render t"
  shows "k \<le> length ts \<Longrightarrow> arena_ok s \<Longrightarrow> content s c (FList ts) \<Longrightarrow> 64 * sum_list (map fmaps (drop k ts)) \<le> arena_room s
    \<Longrightarrow> yields (list_render_from render (pl_header_ptr c) (length ts) k buf s) buf
          (map_option (rest_text k) (those (map (canon lib) (drop k ts)))) s (64 * sum_list (map fmaps (drop k ts)))"
proof (induction "length ts - k" arbitrary: k s buf)
  case 0
  then show ?case
    using yields_done [of s buf "[]"] by (subst list_render_from.simps) (simp add: rest_text_def)
next
  case (Suc d)
  let ?slot = "list_element_slot (mem s) (pl_header_ptr c) (word_of_nat k)" and ?sep = "if k > 0 then ascii '', '' else []"
  have k: "k < length ts" and d: "drop k ts = ts ! k # drop (k + 1) ts" using Suc.hyps(2) by (auto simp: Cons_nth_drop_Suc)
  have ck: "kept_range s (cel_value_at ?slot) 24" "content s (cv s ?slot) (ts ! k)"
    using Suc.prems(3) k unfolding content_simps by blast+
  have room: "64 * fmaps (ts ! k) \<le> arena_room s" using Suc.prems(4) by (simp add: d)
  have "yields (render ?slot (buf @ ?sep) s) (buf @ ?sep) (canon lib (ts ! k)) s (64 * fmaps (ts ! k))"
    using r k ck room Suc.prems(2) by (meson nth_mem)
  then have y: "yields (render ?slot (buf @ ?sep) s) buf (map_option (append ?sep) (canon lib (ts ! k))) s (64 * fmaps (ts ! k))"
    by (rule yields_prefix)
  let ?cont = "\<lambda>(ok, buf, s). if ok then list_render_from render (pl_header_ptr c) (length ts) (k + 1) buf s else Some (False, buf, s)"
  have "yields (Option.bind (render ?slot (buf @ ?sep) s) ?cont) buf
     (case map_option (append ?sep) (canon lib (ts ! k)) of None \<Rightarrow> None
      | Some y \<Rightarrow> map_option (append y) (map_option (rest_text (k + 1)) (those (map (canon lib) (drop (k + 1) ts))))) s
     (64 * fmaps (ts ! k) + 64 * sum_list (map fmaps (drop (k + 1) ts)))"
  proof (rule yields_bind [OF y])
    fix y s' assume e: "extends s s'" and rm: "arena_room s \<le> arena_room s' + 64 * fmaps (ts ! k)"
    have "yields (list_render_from render (pl_header_ptr c) (length ts) (k + 1) (buf @ y) s') (buf @ y)
       (map_option (rest_text (k + 1)) (those (map (canon lib) (drop (k + 1) ts)))) s' (64 * sum_list (map fmaps (drop (k + 1) ts)))"
    proof (rule Suc.hyps(1))
      show "content s' c (FList ts)" by (rule content_extends [OF Suc.prems(3) e])
      show "64 * sum_list (map fmaps (drop (k + 1) ts)) \<le> arena_room s'" using Suc.prems(4) rm by (simp add: d)
    qed (use Suc.hyps(2) k e in \<open>auto simp: extends_def\<close>)
    then show "yields (?cont (True, buf @ y, s')) (buf @ y)
       (map_option (rest_text (k + 1)) (those (map (canon lib) (drop (k + 1) ts)))) s' (64 * sum_list (map fmaps (drop (k + 1) ts)))"
      by simp
  qed simp
  moreover have "list_render_from render (pl_header_ptr c) (length ts) k buf s = Option.bind (render ?slot (buf @ ?sep) s) ?cont"
    using k by (subst list_render_from.simps) simp
  moreover have "(case map_option (append ?sep) (canon lib (ts ! k)) of None \<Rightarrow> None
      | Some y \<Rightarrow> map_option (append y) (map_option (rest_text (k + 1)) (those (map (canon lib) (drop (k + 1) ts)))))
    = map_option (rest_text k) (those (map (canon lib) (drop k ts)))"
    unfolding d list.map those_Cons by (cases "canon lib (ts ! k)"; cases "those (map (canon lib) (drop (k + 1) ts))") (simp_all add: rest_text_Cons)
  ultimately show ?case unfolding d by (simp add: distrib_left)
qed

lemma list_canonical_correct:
  assumes r: "\<forall>t \<in> set ts. renders lib render t" and ok: "arena_ok s" and c: "content s (cv s slot) (FList ts)"
    and room: "64 * fmaps (FList ts) \<le> arena_room s"
  shows "yields (append_list_canonical h junk render slot buf s) buf (canon lib (FList ts)) s (64 * fmaps (FList ts))"
proof -
  let ?c = "cv s slot"
  have k: "cv_kind ?c = CEL_LIST_ARENA" "unat (list_count_at (mem s) (pl_header_ptr ?c)) = length ts"
    using c unfolding content_simps by simp_all
  let ?cont = "\<lambda>(ok, buf, s). if ok then Some (True, buf @ ascii '']'', s) else Some (False, buf, s)"
  have eq: "append_list_canonical h junk render slot buf s
      = Option.bind (list_render_from render (pl_header_ptr ?c) (length ts) 0 (buf @ ascii ''['') s) ?cont"
    using k by (simp add: append_list_canonical_def cel_list_arena_view_def)
  have "yields (list_render_from render (pl_header_ptr ?c) (length ts) 0 (buf @ ascii ''['') s) (buf @ ascii ''['')
      (map_option (rest_text 0) (those (map (canon lib) ts))) s (64 * sum_list (map fmaps ts))"
    using list_render_correct [OF r _ ok c, of 0] room by simp
  then have "yields (Option.bind (list_render_from render (pl_header_ptr ?c) (length ts) 0 (buf @ ascii ''['') s) ?cont) buf
     (case map_option (append (ascii ''['')) (map_option (rest_text 0) (those (map (canon lib) ts))) of None \<Rightarrow> None
      | Some y \<Rightarrow> map_option (append y) (Some (ascii '']''))) s (64 * sum_list (map fmaps ts) + 0)"
    by (rule yields_bind [OF yields_prefix]) (auto simp: extends_def yields_def)
  then show ?thesis unfolding eq by (cases "those (map (canon lib) ts)") (simp_all add: rest_text_def)
qed

subsection \<open>The entries of a map\<close>

text \<open>Keys in strict order determine an association list by its lookups.\<close>

lemma emplace_keys: "set (map fst (emplace k v es)) = insert k (set (map fst es))"
  by (induction k v es rule: emplace.induct) auto

lemma emplace_sorted: "sorted_wrt (<) (map fst es) \<Longrightarrow> sorted_wrt (<) (map fst (emplace k v es))"
proof (induction k v es rule: emplace.induct)
  case (2 k v k' v' es)
  have "\<forall>x \<in> set (map fst (emplace k v es)). k' < x" if "k' < k"
    unfolding emplace_keys using 2(2) that by simp
  then show ?case using 2 by (auto simp: not_less_iff_gr_or_eq)
qed simp

lemma emplace_lookup: "sorted_wrt (<) (map fst es) \<Longrightarrow> map_of (emplace k v es) x =
   (case map_of es x of Some w \<Rightarrow> Some w | None \<Rightarrow> if x = k then Some v else None)"
proof (induction k v es rule: emplace.induct)
  case (2 k v k' v' es)
  have "map_of es k = None" if "k < k'" using 2(2) that by (fastforce simp: map_of_eq_None_iff)
  then show ?case using 2 by (auto split: option.splits)
qed simp

abbreviation emplace_all :: "(u8 list \<times> u8 list) list \<Rightarrow> (u8 list \<times> u8 list) list \<Rightarrow> (u8 list \<times> u8 list) list" where
  "emplace_all ps es \<equiv> fold (\<lambda>(k, v). emplace k v) ps es"

lemma emplace_all_facts:
  "sorted_wrt (<) (map fst es) \<Longrightarrow> sorted_wrt (<) (map fst (emplace_all ps es))
     \<and> set (map fst (emplace_all ps es)) = fst ` set ps \<union> set (map fst es)
     \<and> (\<forall>x. map_of (emplace_all ps es) x = (case map_of es x of Some w \<Rightarrow> Some w | None \<Rightarrow> map_of ps x))"
proof (induction ps arbitrary: es)
  case Nil
  then show ?case by (simp split: option.splits)
next
  case (Cons p ps)
  obtain k v where p: "p = (k, v)" by force
  have "sorted_wrt (<) (map fst (emplace k v es))" by (rule emplace_sorted [OF Cons.prems])
  from Cons.IH [OF this] show ?case
    unfolding p by (auto simp: emplace_keys emplace_lookup [OF Cons.prems] split: option.splits simp del: set_map)
qed

lemma append_entries_separated:
  "append_entries buf first es = buf @ (if first then separated (ascii '', '') (map (\<lambda>(k, v). k @ ascii '': '' @ v) es)
     else concat (map (\<lambda>(k, v). ascii '', '' @ k @ ascii '': '' @ v) es))"
proof (induction buf first es rule: append_entries.induct)
  case (2 buf first k v es)
  have "concat (map (append (ascii '', '')) (map (\<lambda>(k, v). k @ ascii '': '' @ v) es)) = concat (map (\<lambda>(k, v). ascii '', '' @ k @ ascii '': '' @ v) es)"
    by (induction es) auto
  then show ?case using 2 by (simp add: separated_Cons)
qed simp

lemma entries_text: "append_entries (buf @ ascii ''{'') True (emplace_all ps []) @ ascii ''}'' = buf @ map_text ps"
proof -
  let ?es = "emplace_all ps []"
  note f = emplace_all_facts [of "[]" ps, simplified]
  have d: "distinct (map fst ?es)" using f strict_sorted_iff by blast
  have keys: "map fst ?es = sorted_list_of_set (fst ` set ps)"
  proof -
    have "sorted_list_of_set (set (map fst ?es)) = map fst ?es"
      using f by (intro sorted_list_of_set.idem_if_sorted_distinct) (auto simp: strict_sorted_iff)
    then show ?thesis using f by simp
  qed
  have "map (\<lambda>(k, v). k @ ascii '': '' @ v) ?es = map (\<lambda>k. k @ ascii '': '' @ the (map_of ps k)) (map fst ?es)"
    unfolding map_map
  proof (rule map_cong [OF refl])
    fix e assume "e \<in> set ?es"
    then have "map_of ?es (fst e) = Some (snd e)" using d by (simp add: map_of_eq_Some_iff)
    then have "map_of ps (fst e) = Some (snd e)" using f by simp
    then show "(case e of (k, v) \<Rightarrow> k @ ascii '': '' @ v) = ((\<lambda>k. k @ ascii '': '' @ the (map_of ps k)) \<circ> fst) e" by (cases e) simp
  qed
  then show ?thesis by (simp add: append_entries_separated map_text_def keys)
qed

subsection \<open>Rendering maps\<close>

text \<open>
  The state of the walk before entry \<open>i\<close>: an extension of the state \<open>s\<close> the map was found in, with the
  iterator and the scratch pair in blocks that were free in \<open>s\<close>.
\<close>

definition walking :: "rt \<Rightarrow> u32 \<Rightarrow> u32 \<Rightarrow> nat \<Rightarrow> nat \<Rightarrow> nat \<Rightarrow> nat \<Rightarrow> rt \<Rightarrow> bool" where
  "walking s iter scratch hdr r n i u \<longleftrightarrow> extends s u \<and> iter_at u (unat iter) hdr r n i \<and> iter \<noteq> 0
     \<and> kept_range u (unat iter) 16 \<and> kept_range u (unat scratch) 48 \<and> fresh_range s (unat iter) 16 \<and> fresh_range s (unat scratch) 48
     \<and> apart (unat iter) 16 (unat scratch) 48 \<and> kept_range s hdr 16 \<and> kept_range s r (48 * n) \<and> unat scratch + 48 \<le> 2 ^ 32 - 1"

lemma walking_extends: "walking s iter scratch hdr r n i u \<Longrightarrow> extends u u' \<Longrightarrow> walking s iter scratch hdr r n i u'"
proof -
  assume w: "walking s iter scratch hdr r n i u" and e: "extends u u'"
  have it: "iter_at u (unat iter) hdr r n i" and k: "kept_range u (unat iter) 16" "kept_range s hdr 16" "extends s u"
    using w by (simp_all add: walking_def)
  have kh: "kept_range u hdr 16" by (rule kept_range_mono [OF extends_used [OF k(3)] k(2)])
  have "agree (mem u) (mem u') (unat iter) 16" "agree (mem u) (mem u') hdr 16"
    using extends_same [OF e k(1)] extends_same [OF e kh] by blast+
  then have "iter_at u' (unat iter) hdr r n i" by (rule iter_at_agree [OF it])
  then show ?thesis using w e extends_trans kept_range_mono [OF extends_used [OF e]] unfolding walking_def by blast
qed

lemma walking_next:
  assumes w: "walking s iter scratch hdr r n i u" and i: "i < n"
  obtains m where "cel_map_iter_next iter u = (True, u\<lparr>mem := m\<rparr>)" "walking s iter scratch hdr r n (i + 1) (u\<lparr>mem := m\<rparr>)"
proof -
  have "apart hdr 16 (unat iter) 16" using w fresh_apart unfolding walking_def by blast
  then obtain m where m: "cel_map_iter_next iter u = (True, u\<lparr>mem := m\<rparr>)" "same_outside (unat iter) 16 (mem u) m"
    "iter_at (u\<lparr>mem := m\<rparr>) (unat iter) hdr r n (i + 1)"
    using iter_next_step [of u iter hdr r n i] w i unfolding walking_def by blast
  moreover have "extends s (u\<lparr>mem := m\<rparr>)"
    by (rule extends_fill [OF _ m(2)]) (use w in \<open>auto simp: walking_def fresh_range_def\<close>)
  ultimately show thesis using that w by (simp add: walking_def)
qed

text \<open>Copying an entry's cell into the key or the value half of the pair.\<close>

lemma walking_copy:
  assumes w: "walking s iter scratch hdr r n i u" and d: "d = 0 \<or> d = 24" and a: "kept_range s a 24"
  defines "v \<equiv> copy_cv (unat scratch + d) a u"
  shows "walking s iter scratch hdr r n i v" "load_cv (mem v) (unat scratch + d) = load_cv (mem s) a" "arena_room v = arena_room u"
proof -
  have so: "same_outside (unat scratch + d) 24 (mem u) (mem v)"
    unfolding v_def copy_cv_def by (simp add: same_outside_store_cv)
  have f: "fresh_range s (unat scratch + d) 24" using w d by (auto simp: walking_def fresh_range_def)
  have v: "v = u\<lparr>mem := mem v\<rparr>" by (simp add: v_def copy_cv_def)
  have "extends s (u\<lparr>mem := mem v\<rparr>)"
    by (rule extends_fill [OF _ so]) (use w f in \<open>simp_all add: walking_def fresh_range_def\<close>)
  then have e: "extends s v" by (simp only: v [symmetric])
  have "apart (unat iter) 16 (unat scratch + d) 24" using w d by (auto simp: walking_def apart_def)
  moreover have "apart hdr 16 (unat scratch + d) 24" using w fresh_apart [OF f] by (simp add: walking_def)
  ultimately have "agree (mem u) (mem v) (unat iter) 16" "agree (mem u) (mem v) hdr 16"
    using same_outside_agree' [OF so] by blast+
  then have "iter_at v (unat iter) hdr r n i" using w iter_at_agree [of u "unat iter" hdr r n i v] by (simp add: walking_def)
  moreover have "kept_range v = kept_range u" by (simp add: v_def copy_cv_def)
  ultimately show "walking s iter scratch hdr r n i v" using w e by (simp add: walking_def)
  have "load_cv (mem u) a = load_cv (mem s) a" using w extends_loads(2) [OF _ a] by (simp add: walking_def)
  then show "load_cv (mem v) (unat scratch + d) = load_cv (mem s) a" by (simp add: v_def cell_copy_cv)
  show "arena_room v = arena_room u" by (simp add: v_def copy_cv_def)
qed

lemma key_kind: "content s c t \<Longrightarrow> is_formattable_map_key (cv_kind c) \<longleftrightarrow> formattable_key t"
proof -
  assume c: "content s c t"
  consider (list) ts where "t = FList ts" | (map) es where "t = FMap es" | (leaf) "\<forall>ts. t \<noteq> FList ts" "\<forall>es. t \<noteq> FMap es" by blast
  then show ?thesis
  proof cases
    case leaf
    then have "leaf_ok s c" "t = leaf_of (mem s) c" using content_leaf [OF c] by blast+
    then show ?thesis by (simp add: is_formattable_map_key_def leaf_of_def leaf_ok_def)
  qed (use c in \<open>auto simp: content_simps is_formattable_map_key_def\<close>)
qed

text \<open>The entries the walk collects from \<open>es\<close> on, on top of those it has.\<close>

definition entries_result :: "format_lib \<Rightarrow> (u8 list \<times> u8 list) list \<Rightarrow> (fval \<times> fval) list \<Rightarrow> (u8 list \<times> u8 list) list option" where
  "entries_result lib entries es =
     (if list_all (\<lambda>e. formattable_key (fst e)) es
      then map_option (\<lambda>ps. emplace_all ps entries) (those (map both (map (map_prod (canon lib) (canon lib)) es))) else None)"

lemma entries_result_Nil: "entries_result lib entries [] = Some entries"
  by (simp add: entries_result_def)

lemma entries_result_Cons: "entries_result lib entries (e # es) =
   (if formattable_key (fst e)
    then (case canon lib (fst e) of None \<Rightarrow> None
      | Some k \<Rightarrow> (case canon lib (snd e) of None \<Rightarrow> None | Some v \<Rightarrow> entries_result lib (emplace k v entries) es))
    else None)"
  by (cases e; cases "canon lib (fst e)"; cases "canon lib (snd e)";
      cases "those (map both (map (map_prod (canon lib) (canon lib)) es))") (auto simp: entries_result_def)

definition entries_cost :: "(fval \<times> fval) list \<Rightarrow> nat" where
  "entries_cost es = sum_list (map (\<lambda>e. fmaps (fst e) + fmaps (snd e)) es)"

lemma entries_cost_fmaps: "fmaps (FMap es) = Suc (entries_cost es)"
  by (simp add: entries_cost_def comp_def case_prod_beta)

abbreviation walk_result :: "rt \<Rightarrow> rt \<Rightarrow> (u8 list \<times> u8 list) list option \<Rightarrow> nat \<Rightarrow> ((u8 list \<times> u8 list) list option \<times> rt) option \<Rightarrow> bool" where
  "walk_result s u res cost r \<equiv> \<exists>u'. r = Some (res, u') \<and> extends s u' \<and> arena_room u \<le> arena_room u' + cost"

lemma yields_None: "yields r buf None s c \<Longrightarrow> \<exists>b s'. r = Some (False, b, s') \<and> extends s s' \<and> arena_room s \<le> arena_room s' + c"
  by (auto simp: yields_def)

lemma yields_Some: "yields r buf (Some x) s c \<Longrightarrow> \<exists>s'. r = Some (True, buf @ x, s') \<and> extends s s' \<and> arena_room s \<le> arena_room s' + c"
  by (auto simp: yields_def)

text \<open>One turn of the loop up to the key, and from the key's text to the value.\<close>

lemma entry_cells:
  assumes c: "content s c (FMap es)" and i: "i < length es" and w: "walking s iter scratch hdr run (length es) i' u"
    and run: "run = unat (map_entries (mem s) (arena_map_header c))"
  shows "kept_range s (run + 48 * i) 24" "kept_range s (run + 48 * i + 24) 24"
    "content s (load_cv (mem s) (run + 48 * i)) (fst (es ! i))" "content s (load_cv (mem s) (run + 48 * i + 24)) (snd (es ! i))"
    "cel_value_at scratch = unat scratch + 0" "cel_value_at (scratch + 24) = unat scratch + 24"
proof -
  show "kept_range s (run + 48 * i) 24" "kept_range s (run + 48 * i + 24) 24"
    using w i kept_range_sub [of s run "48 * length es"] by (auto simp: walking_def)
  show "content s (load_cv (mem s) (run + 48 * i)) (fst (es ! i))" "content s (load_cv (mem s) (run + 48 * i + 24)) (snd (es ! i))"
    using c i unfolding content_simps run by blast+
  show "cel_value_at scratch = unat scratch + 0" "cel_value_at (scratch + 24) = unat scratch + 24"
    using w by (simp_all add: walking_def cel_value_at_def unat_word_ariths)
qed

definition key_turn :: "renderer \<Rightarrow> u32 \<Rightarrow> u32 \<Rightarrow> (u8 list \<times> u8 list) list \<Rightarrow> rt \<Rightarrow> ((u8 list \<times> u8 list) list option \<times> rt) option" where
  "key_turn render scratch iter entries s = do {
     (ok, key_str, s) \<leftarrow> render scratch [] s;
     if \<not> ok then Some (None, s)
     else do {
       (ok, val_str, s) \<leftarrow> render (scratch + 24) [] (cel_map_iter_value_at (scratch + 24) iter s);
       if \<not> ok then Some (None, s)
       else map_render_loop render scratch (scratch + 24) iter (emplace key_str val_str entries) s
     }
   }"

lemma entry_key_step:
  assumes c: "content s c (FMap es)" and i: "i < length es" and w: "walking s iter scratch hdr run (length es) i u"
    and run: "run = unat (map_entries (mem s) (arena_map_header c))"
  shows "\<exists>v. walking s iter scratch hdr run (length es) (i + 1) v \<and> arena_room v = arena_room u
    \<and> kept_range v (cel_value_at scratch) 24 \<and> content v (cv v scratch) (fst (es ! i))
    \<and> (\<forall>render entries. map_render_loop render scratch (scratch + 24) iter entries u =
        (if \<not> formattable_key (fst (es ! i)) then Some (None, v) else key_turn render scratch iter entries v))"
proof -
  note ec = entry_cells [OF c i w run]
  obtain m where m: "cel_map_iter_next iter u = (True, u\<lparr>mem := m\<rparr>)" "walking s iter scratch hdr run (length es) (i + 1) (u\<lparr>mem := m\<rparr>)"
    by (rule walking_next [OF w i])
  define v where "v = copy_cv (unat scratch + 0) (run + 48 * i) (u\<lparr>mem := m\<rparr>)"
  note v = walking_copy [OF m(2) disjI1 [OF refl] ec(1), folded v_def]
  have nz: "iter \<noteq> 0" and it: "iter_at (u\<lparr>mem := m\<rparr>) (unat iter) hdr run (length es) (i + 1)"
    using m(2) by (simp_all add: walking_def)
  have key: "cel_map_iter_key_at scratch iter (u\<lparr>mem := m\<rparr>) = v"
    using iter_copy_step(1) [OF it nz i] by (simp add: ec(5) v_def)
  have e: "extends s v" using v(1) by (simp add: walking_def)
  have ck: "content v (cv v scratch) (fst (es ! i))" using content_extends [OF ec(3) e] v(2) by (simp add: ec(5))
  have "kept_range v (cel_value_at scratch) 24" using v(1) kept_range_sub [of v "unat scratch" 48] by (simp add: walking_def ec(5))
  moreover have "map_render_loop render scratch (scratch + 24) iter entries u =
      (if \<not> formattable_key (fst (es ! i)) then Some (None, v) else key_turn render scratch iter entries v)" for render entries
    by (subst map_render_loop.simps) (simp add: m(1) key Let_def key_kind [OF ck] key_turn_def)
  ultimately show ?thesis using v(1,3) ck by (intro exI [of _ v]) simp
qed

lemma entry_value_step:
  assumes c: "content s c (FMap es)" and i: "i < length es" and w: "walking s iter scratch hdr run (length es) (i + 1) u"
    and run: "run = unat (map_entries (mem s) (arena_map_header c))"
  obtains v where "cel_map_iter_value_at (scratch + 24) iter u = v" "walking s iter scratch hdr run (length es) (i + 1) v"
    "arena_room v = arena_room u" "kept_range v (cel_value_at (scratch + 24)) 24" "content v (cv v (scratch + 24)) (snd (es ! i))"
proof -
  note ec = entry_cells [OF c i w run]
  define v where "v = copy_cv (unat scratch + 24) (run + 48 * i + 24) u"
  note v = walking_copy [OF w disjI2 [OF refl] ec(2), folded v_def]
  have nz: "iter \<noteq> 0" and it: "iter_at u (unat iter) hdr run (length es) (i + 1)" using w by (simp_all add: walking_def)
  have val: "cel_map_iter_value_at (scratch + 24) iter u = v"
    using iter_copy_step(2) [OF it nz i] by (simp add: ec(6) v_def)
  have e: "extends s v" using v(1) by (simp add: walking_def)
  have "content v (cv v (scratch + 24)) (snd (es ! i))" using content_extends [OF ec(4) e] v(2) by (simp add: ec(6))
  moreover have "kept_range v (cel_value_at (scratch + 24)) 24"
    using v(1) kept_range_sub [of v "unat scratch" 48] by (simp add: walking_def ec(6))
  ultimately show thesis using that val v(1,3) by blast
qed

lemma map_loop_correct:
  assumes r: "\<forall>e \<in> set es. renders lib render (fst e) \<and> renders lib render (snd e)" and c: "content s c (FMap es)"
    and run: "run = unat (map_entries (mem s) (arena_map_header c))"
  shows "i \<le> length es \<Longrightarrow> walking s iter scratch hdr run (length es) i u \<Longrightarrow> 64 * entries_cost (drop i es) \<le> arena_room u
    \<Longrightarrow> walk_result s u (entries_result lib entries (drop i es)) (64 * entries_cost (drop i es))
          (map_render_loop render scratch (scratch + 24) iter entries u)"
proof (induction "length es - i" arbitrary: i u entries)
  case 0
  then have i: "i = length es" by simp
  have "cel_map_iter_next iter u = (False, u)"
    by (rule iter_next_done) (use 0 i in \<open>auto simp: walking_def\<close>)
  then show ?case using 0 i by (subst map_render_loop.simps) (auto simp: entries_result_Nil walking_def)
next
  case (Suc d)
  let ?k = "fst (es ! i)" and ?v = "snd (es ! i)" and ?rest = "drop (i + 1) es"
  have i: "i < length es" and d: "drop i es = es ! i # ?rest" using Suc.hyps(2) by (auto simp: Cons_nth_drop_Suc)
  have cost: "entries_cost (drop i es) = fmaps ?k + fmaps ?v + entries_cost ?rest" by (simp add: d entries_cost_def)
  have rd: "renders lib render ?k" "renders lib render ?v" using r i by simp_all
  obtain u1 where w1: "walking s iter scratch hdr run (length es) (i + 1) u1" and room1: "arena_room u1 = arena_room u"
    and ck: "kept_range u1 (cel_value_at scratch) 24" "content u1 (cv u1 scratch) ?k"
    and step: "\<And>render entries. map_render_loop render scratch (scratch + 24) iter entries u =
    (if \<not> formattable_key ?k then Some (None, u1) else key_turn render scratch iter entries u1)"
    using entry_key_step [OF c i Suc.prems(2) run] by blast
  have e1: "extends s u1" "arena_ok u1" using w1 by (simp_all add: walking_def extends_def)
  have y1: "yields (render scratch [] u1) [] (canon lib ?k) u1 (64 * fmaps ?k)"
    using rd(1) ck e1 Suc.prems(3) room1 by (simp add: cost)
  consider (bad_key) "\<not> formattable_key ?k" | (no_key) "formattable_key ?k" "canon lib ?k = None"
    | (key) kt where "formattable_key ?k" "canon lib ?k = Some kt" by blast
  then show ?case
  proof cases
    case bad_key
    then show ?thesis using step e1 room1 by (simp add: d entries_result_Cons)
  next
    case no_key
    then obtain b s1 where s1: "render scratch [] u1 = Some (False, b, s1)" "extends u1 s1" "arena_room u1 \<le> arena_room s1 + 64 * fmaps ?k"
      using yields_None y1 by metis
    then show ?thesis using step no_key extends_trans [OF e1(1) s1(2)] room1 by (simp add: key_turn_def d entries_result_Cons entries_cost_def)
  next
    case key
    then obtain s1 where s1: "render scratch [] u1 = Some (True, kt, s1)" "extends u1 s1" "arena_room u1 \<le> arena_room s1 + 64 * fmaps ?k"
      using yields_Some y1 by fastforce
    obtain u2 where val: "cel_map_iter_value_at (scratch + 24) iter s1 = u2" and w2: "walking s iter scratch hdr run (length es) (i + 1) u2"
      and room2: "arena_room u2 = arena_room s1" and cval: "kept_range u2 (cel_value_at (scratch + 24)) 24" "content u2 (cv u2 (scratch + 24)) ?v"
      by (rule entry_value_step [OF c i walking_extends [OF w1 s1(2)] run])
    have e2: "extends s u2" "arena_ok u2" using w2 by (simp_all add: walking_def extends_def)
    have y2: "yields (render (scratch + 24) [] u2) [] (canon lib ?v) u2 (64 * fmaps ?v)"
      using rd(2) cval e2 Suc.prems(3) room1 room2 s1(3) by (simp add: cost)
    show ?thesis
    proof (cases "canon lib ?v")
      case None
      then obtain b s2 where s2: "render (scratch + 24) [] u2 = Some (False, b, s2)" "extends u2 s2" "arena_room u2 \<le> arena_room s2 + 64 * fmaps ?v"
        using yields_None y2 by metis
      then show ?thesis using step key None s1 val extends_trans [OF e2(1) s2(2)] room1 room2
        by (simp add: key_turn_def d entries_result_Cons entries_cost_def)
    next
      case v: (Some vt)
      then obtain s2 where s2: "render (scratch + 24) [] u2 = Some (True, vt, s2)" "extends u2 s2" "arena_room u2 \<le> arena_room s2 + 64 * fmaps ?v"
        using yields_Some y2 by fastforce
      have room3: "arena_room u \<le> arena_room s2 + 64 * fmaps ?k + 64 * fmaps ?v" using room1 room2 s1(3) s2(3) by linarith
      have "walk_result s s2 (entries_result lib (emplace kt vt entries) ?rest) (64 * entries_cost ?rest)
        (map_render_loop render scratch (scratch + 24) iter (emplace kt vt entries) s2)"
        by (rule Suc.hyps(1)) (use Suc.hyps(2) walking_extends [OF w2 s2(2)] i Suc.prems(3) room3 in \<open>simp_all add: cost\<close>)
      moreover have "map_render_loop render scratch (scratch + 24) iter entries u
         = map_render_loop render scratch (scratch + 24) iter (emplace kt vt entries) s2"
        using step key s1(1) val s2(1) by (simp add: key_turn_def)
      ultimately show ?thesis using key v room3 by (auto simp: d entries_result_Cons entries_cost_def)
    qed
  qed
qed

lemma map_canonical_correct:
  assumes r: "\<forall>e \<in> set es. renders lib render (fst e) \<and> renders lib render (snd e)" and ok: "arena_ok s"
    and c: "content s (cv s slot) (FMap es)" and cell: "kept_range s (cel_value_at slot) 24"
    and room: "64 * fmaps (FMap es) \<le> arena_room s"
  shows "yields (append_map_canonical h junk render slot buf s) buf (canon lib (FMap es)) s (64 * fmaps (FMap es))"
proof -
  let ?h = "map_hdr s slot" and ?r = "map_run s slot" and ?n = "length es"
  note cc = c [unfolded content_simps]
  have hd: "arena_map_header (cv s slot) = ?h" by (simp add: map_hdr_def)
  have n: "map_len s slot = ?n" "unat (map_entries (mem s) ?h) = ?r" using cc by (simp_all add: map_len_def map_run_def hd)
  have kh: "kept_range s ?h 16" "kept_range s ?r (48 * ?n)" using cc unfolding hd n(2) by blast+
  note rm = room [unfolded entries_cost_fmaps]
  have need: "alloc_need 48 = 48" "alloc_need 16 = 16" by (simp_all add: alloc_need_def align_up_8_def)
  obtain p t where p: "arena_alloc 48 s = Some (p, t)" "p \<noteq> 0" "extends s t" "kept_range t (unat p) 48"
    "fresh_range s (unat p) 48" "arena_room t = arena_room s - 48" "unat p + 48 \<le> 2 ^ 32 - 1"
    by (rule alloc_room [OF ok, of 48]) (use room in \<open>simp_all add: need\<close>)
  have ct: "content t (cv t slot) (FMap es)" "cv t slot = cv s slot" using content_extends [OF c p(3)] extends_loads(2) [OF p(3) cell] by simp_all
  then have hdt: "map_hdr t slot = ?h" by (simp add: map_hdr_def)
  note ctt = ct(1) [unfolded content_simps ct(2) hd]
  have rt: "map_run t slot = ?r" "map_count (mem t) ?h = map_count (mem s) ?h" "map_len t slot = ?n"
    using extends_loads(1) [OF p(3)] kept_range_sub cc n
    by (auto simp: map_run_def hdt map_entries_def map_count_def hd map_len_def)
  have okt: "arena_ok t" using p(3) by (simp add: extends_def)
  let ?res = "entries_result lib [] es" and ?cost = "64 * entries_cost es"
  have loop: "\<exists>iter u. cel_map_iter_init h junk slot t = Some (iter, u) \<and> arena_room s \<le> arena_room u + 64
     \<and> walk_result s u ?res ?cost (map_render_loop render p (p + 24) iter [] u)"
  proof (cases "?n = 0")
    case True
    then have "cel_map_iter_init h junk slot t = Some (0, t)"
      using ctt rt by (simp add: cel_map_iter_init_def map_iter_init_arena_def Let_def ct(2) hd unat_eq_0)
    moreover have "map_render_loop render p (p + 24) 0 [] t = Some (Some [], t)"
      by (subst map_render_loop.simps) (simp add: cel_map_iter_next_def map_iter_state_def)
    ultimately show ?thesis using True p(3,6) by (auto simp: entries_result_Nil)
  next
    case False
    obtain q v where q: "arena_alloc 16 t = Some (q, v)" "q \<noteq> 0" "extends t v" "kept_range v (unat q) 16"
      "fresh_range t (unat q) 16" "arena_room v = arena_room t - 16"
      by (rule alloc_room [OF okt, of 16]) (use room p(6) in \<open>simp_all add: need\<close>)
    have nz: "map_count (mem t) (map_hdr t slot) \<noteq> 0" using False ctt by (auto simp: hdt)
    have kt: "kept_range t (cel_value_at slot) 24" by (rule kept_range_mono [OF extends_used [OF p(3)] cell])
    obtain m where m: "cel_map_iter_init h junk slot t = Some (q, v\<lparr>mem := m\<rparr>)" "extends t (v\<lparr>mem := m\<rparr>)"
      "iter_at (v\<lparr>mem := m\<rparr>) (unat q) ?h ?r ?n 0"
      using map_iter_init_arena_correct [OF q(1,2,3,5) _ kt nz, of h junk] ctt
      unfolding hdt rt ct(2) by blast
    have "walking s q p ?h ?r ?n 0 (v\<lparr>mem := m\<rparr>)"
      using extends_trans [OF p(3) m(2)] m(3) q(2,4) p(5,7) fresh_range_anti [OF extends_used [OF p(3)] q(5)] kh
        kept_range_mono [OF extends_used [OF q(3)] p(4)] fresh_apart [OF q(5) p(4)]
      by (simp add: walking_def apart_sym)
    then have "walk_result s (v\<lparr>mem := m\<rparr>) ?res ?cost (map_render_loop render p (p + 24) q [] (v\<lparr>mem := m\<rparr>))"
      using map_loop_correct [OF r c, of ?r 0 q p ?h "v\<lparr>mem := m\<rparr>" "[]"] rm p(6) q(6) by (simp add: n hd)
    then show ?thesis using m(1) p(6) q(6) rm by (intro exI [of _ q] exI [of _ "v\<lparr>mem := m\<rparr>"]) simp
  qed
  then obtain iter u u' where u: "cel_map_iter_init h junk slot t = Some (iter, u)" "arena_room s \<le> arena_room u + 64"
    "map_render_loop render p (p + 24) iter [] u = Some (?res, u')" "extends s u'" "arena_room u \<le> arena_room u' + ?cost" by blast
  have "append_map_canonical h junk render slot buf s = (case ?res of
      None \<Rightarrow> Some (False, buf, u')
    | Some es \<Rightarrow> Some (True, append_entries (buf @ ascii ''{'') True es @ ascii ''}'', u'))"
    using p(1,2) u(1,3) by (simp add: append_map_canonical_def)
  moreover have "arena_room s \<le> arena_room u' + 64 * fmaps (FMap es)" unfolding entries_cost_fmaps using u(2,5) by simp
  ultimately show ?thesis using u(4)
    by (cases "those (map both (map (map_prod (canon lib) (canon lib)) es))") (auto simp: yields_def entries_result_def entries_text)
qed

subsection \<open>Rendering any value\<close>

lemma fmaps_leaf: "fmaps (leaf_of m c) = 0"
  by (simp add: leaf_of_def)

lemma fdepth_pos: "0 < fdepth t"
  by (cases t) simp_all

lemma fdepth_list: "fdepth (FList ts) \<le> Suc n \<Longrightarrow> t \<in> set ts \<Longrightarrow> fdepth t \<le> n"
  by simp

lemma fdepth_map: "fdepth (FMap es) \<le> Suc n \<Longrightarrow> e \<in> set es \<Longrightarrow> fdepth (fst e) \<le> n \<and> fdepth (snd e) \<le> n"
proof -
  assume d: "fdepth (FMap es) \<le> Suc n" and e: "e \<in> set es"
  have "max (fdepth (fst e)) (fdepth (snd e)) \<in> set (map (\<lambda>(a, b). max a b) (map (map_prod fdepth fdepth) es))"
    using e by (auto simp: image_iff split_beta intro!: bexI [of _ e])
  then show ?thesis using d by (auto simp del: set_map)
qed

lemma render_string_correct:
  assumes lib: "lib_ok lib"
  shows "fdepth t \<le> fuel \<Longrightarrow> renders lib (render_string fuel lib h junk) t"
proof (induction fuel arbitrary: t)
  case 0
  then show ?case using fdepth_pos [of t] by simp
next
  case (Suc fuel)
  show ?case
  proof (intro allI impI)
    fix s slot buf
    assume ok: "arena_ok s" and cell: "kept_range s (cel_value_at slot) 24" and c: "content s (cv s slot) t"
      and room: "64 * fmaps t \<le> arena_room s"
    consider (list) ts where "t = FList ts" | (map) es where "t = FMap es" | (leaf) "\<forall>ts. t \<noteq> FList ts" "\<forall>es. t \<noteq> FMap es" by blast
    then show "yields (render_string (Suc fuel) lib h junk slot buf s) buf (canon lib t) s (64 * fmaps t)"
    proof cases
      case list
      have "\<forall>x \<in> set ts. renders lib (render_string fuel lib h junk) x" using Suc.IH fdepth_list Suc.prems list by blast
      from list_canonical_correct [OF this ok c [unfolded list] room [unfolded list], of h junk buf]
      have "yields (append_list_canonical h junk (render_string fuel lib h junk) slot buf s) buf (canon lib t) s (64 * fmaps t)"
        unfolding list .
      moreover have "cv_kind (cv s slot) = CEL_LIST_ARENA" using c unfolding list content_simps by blast
      ultimately show ?thesis by (simp add: Let_def)
    next
      case map
      have "\<forall>e \<in> set es. renders lib (render_string fuel lib h junk) (fst e) \<and> renders lib (render_string fuel lib h junk) (snd e)"
        using Suc.IH fdepth_map Suc.prems map by blast
      from map_canonical_correct [OF this ok c [unfolded map] cell room [unfolded map], of h junk buf]
      have "yields (append_map_canonical h junk (render_string fuel lib h junk) slot buf s) buf (canon lib t) s (64 * fmaps t)"
        unfolding map .
      moreover have "cv_kind (cv s slot) = CEL_MAP_ARENA" using c unfolding map content_simps by blast
      ultimately show ?thesis by (simp add: Let_def)
    next
      case leaf
      then have "leaf_ok s (cv s slot)" "t = leaf_of (mem s) (cv s slot)" using content_leaf [OF c] by blast+
      then show ?thesis using leaf_rendered [OF lib _ ok] by (simp add: fmaps_leaf del: render_string.simps)
    qed
  qed
qed

subsection \<open>The other directives\<close>

lemma yields_rendered:
  "arena_ok s \<Longrightarrow> r = map_option (append buf) x \<Longrightarrow> yields (rendered buf r s) buf x s c"
  by (cases x) (simp_all add: yields_def rendered_def extends_refl ex_bool_eq)

lemma binary_text: "append_binary_uint buf v = buf @ base_text digit_lower 2 (unat v)"
  by (simp add: append_binary_uint_def base_text_def binary_digits_text unat_eq_0 digit_lower_def)

lemma upper_digit: "d < 16 \<Longrightarrow> (if 0x61 \<le> digit_lower d \<and> digit_lower d \<le> 0x7A then digit_lower d - 0x20 else digit_lower d) = digit_upper d"
proof -
  assume "d < 16"
  then have "d \<in> set [0..<16]" by simp
  moreover have "list_all (\<lambda>d. (if 0x61 \<le> digit_lower d \<and> digit_lower d \<le> 0x7A then digit_lower d - 0x20 else digit_lower d) = digit_upper d) [0..<16]"
    by (simp add: digit_lower_def digit_upper_def upt_rec)
  ultimately show ?thesis by (simp only: list_all_iff)
qed

lemma upper_hex: "map (\<lambda>c. if 0x61 \<le> c \<and> c \<le> 0x7A then c - 0x20 else c) (bytes_hex digit_lower bs) = bytes_hex digit_upper bs"
proof -
  have "unat c div 16 < 16" "unat c mod 16 < 16" for c :: u8 using unsigned_less [of c, where ?'a = nat] by simp_all
  then show ?thesis by (induction bs) (simp_all add: bytes_hex_def upper_digit)
qed

lemma scalar_directives:
  assumes lib: "lib_ok lib" and c: "content s v t"
  shows "render_decimal lib buf v = map_option (append buf) (directive_text lib kDecimal p t)"
    and "render_fixed lib buf v p = map_option (append buf) (directive_text lib kFixed p t)"
    and "render_scientific lib buf v p = map_option (append buf) (directive_text lib kScientific p t)"
    and "render_binary buf v = map_option (append buf) (directive_text lib kBinary p t)"
    and "render_octal lib buf v = map_option (append buf) (directive_text lib kOctal p t)"
    and "render_hex lib (mem s) buf v False = map_option (append buf) (directive_text lib kHexLower p t)"
    and "render_hex lib (mem s) buf v True = map_option (append buf) (directive_text lib kHexUpper p t)"
proof -
  have l: "str_int lib x = signed_text digit_lower 10 (sint x)" "str_uint lib x = base_text digit_lower 10 (unat x)"
    "octal_text lib x = base_text digit_lower 8 (unat x)" "hex_lower lib x = base_text digit_lower 16 (unat x)"
    "hex_upper lib x = base_text digit_upper 16 (unat x)" "bytes_to_hex lib bs = bytes_hex digit_lower bs"
    "str_to_upper lib (bytes_hex digit_lower bs) = bytes_hex digit_upper bs" for x bs
    using lib upper_hex by (simp_all add: lib_ok_def)
  have nonneg: "unat x = nat (sint x)" if "\<not> sint x < 0" for x :: u64
    using that sint_range64 [of x] by (simp add: uint_of_sint64 flip: nat_uint_eq)
  note defs = render_decimal_def render_fixed_def render_scientific_def render_binary_def render_octal_def render_hex_def
    to_double_def double_with_precision directive_text_def precision_of_def signed_text_def binary_text unat_signed_abs
    append_hex_uint_def append_bytes_as_hex_def l Let_def
  consider (agg) "aggregate_kind (cv_kind v)" "(\<exists>ts. t = FList ts) \<or> (\<exists>es. t = FMap es)" | (leaf) "t = leaf_of (mem s) v" "leaf_ok s v"
    using content_leaf [OF c] c by (cases t) (auto simp: content_simps)
  then show "render_decimal lib buf v = map_option (append buf) (directive_text lib kDecimal p t)"
    "render_fixed lib buf v p = map_option (append buf) (directive_text lib kFixed p t)"
    "render_scientific lib buf v p = map_option (append buf) (directive_text lib kScientific p t)"
    "render_binary buf v = map_option (append buf) (directive_text lib kBinary p t)"
    "render_octal lib buf v = map_option (append buf) (directive_text lib kOctal p t)"
    "render_hex lib (mem s) buf v False = map_option (append buf) (directive_text lib kHexLower p t)"
    "render_hex lib (mem s) buf v True = map_option (append buf) (directive_text lib kHexUpper p t)"
    by (cases; (auto simp: defs)[1]; simp add: leaf_of_def defs nonneg)+
qed

lemma dispatch_correct:
  assumes lib: "lib_ok lib" and k: "op_kind op \<noteq> kLiteral" and ok: "arena_ok s" and c: "content s (cv s slot) t"
    and cell: "kept_range s (cel_value_at slot) 24" and d: "fdepth t \<le> fuel" and room: "64 * fmaps t \<le> arena_room s"
  shows "yields (dispatch_directive fuel lib h junk op slot buf s) buf (directive_text lib (op_kind op) (op_precision op) t) s (64 * fmaps t)"
proof (cases "op_kind op = kSubstring")
  case True
  have "yields (render_string fuel lib h junk slot buf s) buf (canon lib t) s (64 * fmaps t)"
    using render_string_correct [OF lib d] ok cell c room by blast
  then show ?thesis using True by (simp add: dispatch_directive_def directive_text_def)
next
  case False
  then show ?thesis using k scalar_directives [OF lib c, where p = "op_precision op"]
    by (cases "op_kind op") (simp_all add: dispatch_directive_def yields_rendered [OF ok])
qed

subsection \<open>Running a format\<close>

lemma expand_Emit: "expand lib (map Emit bs @ is) ts = map_option (append bs) (expand lib is ts)"
  by (induction bs) (simp_all add: option.map_comp comp_def option.map_ident)

abbreviation arg_slot :: "rt \<Rightarrow> cel_value \<Rightarrow> nat \<Rightarrow> u32" where
  "arg_slot s c i \<equiv> list_element_slot (mem s) (pl_header_ptr c) (word_of_nat i)"

lemma content_args:
  assumes "content s c (FList ts)"
  shows "unat (list_count_at (mem s) (pl_header_ptr c)) = length ts"
    and "i < length ts \<Longrightarrow> kept_range s (cel_value_at (arg_slot s c i)) 24"
    and "i < length ts \<Longrightarrow> content s (cv s (arg_slot s c i)) (ts ! i)"
  using assms unfolding content_simps by auto

definition runs :: "((u32 + u8 list) \<times> rt) option \<Rightarrow> u8 list \<Rightarrow> u8 list option \<Rightarrow> rt \<Rightarrow> nat \<Rightarrow> bool" where
  "runs r buf x s cost \<longleftrightarrow> (\<exists>s'. r = Some (case x of None \<Rightarrow> Inl CEL_ERR_INVALID_ARGUMENT | Some y \<Rightarrow> Inr (buf @ y), s')
     \<and> extends s s' \<and> arena_room s \<le> arena_room s' + cost)"

lemma literal_emitted:
  assumes "unat (op_byte_off op) + unat (op_len op) \<le> length fmt" "str_of m cell = fmt" "op_kind op = kLiteral"
  shows "emit_literal m buf cell op = buf @ take (unat (op_len op)) (drop (unat (op_byte_off op)) fmt)"
    and "op_meaning fmt op = map Emit (take (unat (op_len op)) (drop (unat (op_byte_off op)) fmt))"
proof -
  have n: "length fmt = unat (pl_s_len cell)" using assms(2) by auto
  have "bytes_at m (unat (pl_s_ptr cell) + unat (op_byte_off op)) (unat (op_len op)) = take (unat (op_len op)) (drop (unat (op_byte_off op)) fmt)"
    using assms(1) unfolding assms(2) [symmetric] span_bytes_def by (intro nth_equalityI) (simp_all add: bytes_at_nth add.assoc)
  then show "emit_literal m buf cell op = buf @ take (unat (op_len op)) (drop (unat (op_byte_off op)) fmt)" by (simp add: emit_literal_def)
  show "op_meaning fmt op = map Emit (take (unat (op_len op)) (drop (unat (op_byte_off op)) fmt))"
    using assms(3) by (simp add: op_meaning_def)
qed

lemma run_format_correct:
  assumes lib: "lib_ok lib" and depth: "\<forall>t \<in> set ts. fdepth t \<le> fuel"
  shows "\<forall>op \<in> set ops. op_kind op = kLiteral \<longrightarrow> unat (op_byte_off op) + unat (op_len op) \<le> length fmt
    \<Longrightarrow> k \<le> length ts \<Longrightarrow> arena_ok s \<Longrightarrow> content s c (FList ts) \<Longrightarrow> span_kept s cell \<Longrightarrow> str_of (mem s) cell = fmt
    \<Longrightarrow> 64 * sum_list (map fmaps (drop k ts)) \<le> arena_room s
    \<Longrightarrow> runs (run_format fuel lib h junk buf cell ops (pl_header_ptr c) (word_of_nat k) s) buf
          (expand lib (concat (map (op_meaning fmt) ops)) (drop k ts)) s (64 * sum_list (map fmaps (drop k ts)))"
proof (induction ops arbitrary: k s buf)
  case Nil
  then show ?case by (simp add: runs_def extends_refl)
next
  case (Cons op ops)
  note ar = content_args [OF Cons.prems(4)]
  have lit: "\<forall>op \<in> set ops. op_kind op = kLiteral \<longrightarrow> unat (op_byte_off op) + unat (op_len op) \<le> length fmt" using Cons.prems(1) by simp
  have tsl: "length ts < 2 ^ 32" using ar(1) unat_u32_lt [of "list_count_at (mem s) (pl_header_ptr c)"] by simp
  then have wk: "unat (word_of_nat k :: u32) = k" using Cons.prems(2) by (simp add: unat_of_nat)
  show ?case
  proof (cases "op_kind op = kLiteral")
    case True
    let ?bs = "take (unat (op_len op)) (drop (unat (op_byte_off op)) fmt)"
    have le: "emit_literal (mem s) buf cell op = buf @ ?bs" "op_meaning fmt op = map Emit ?bs"
      using literal_emitted [of op fmt "mem s" cell] Cons.prems(1,6) True by simp_all
    have "runs (run_format fuel lib h junk (buf @ ?bs) cell ops (pl_header_ptr c) (word_of_nat k) s) (buf @ ?bs)
       (expand lib (concat (map (op_meaning fmt) ops)) (drop k ts)) s (64 * sum_list (map fmaps (drop k ts)))"
      by (rule Cons.IH [OF lit Cons.prems(2-7)])
    then show ?thesis using True le
      by (cases "expand lib (concat (map (op_meaning fmt) ops)) (drop k ts)") (simp_all add: expand_Emit runs_def)
  next
    case False
    then have m: "op_meaning fmt op = [Render (op_kind op) (op_precision op)]" by (simp add: op_meaning_def)
    show ?thesis
    proof (cases "k < length ts")
      case none: False
      then have "word_of_nat k \<ge> list_count_at (mem s) (pl_header_ptr c)" using ar(1) wk by (simp add: word_le_nat_alt)
      then show ?thesis using False none Cons.prems(3) m by (simp add: runs_def extends_refl)
    next
      case True
      have dk: "drop k ts = ts ! k # drop (k + 1) ts" using True by (simp add: Cons_nth_drop_Suc)
      have cnt: "\<not> word_of_nat k \<ge> list_count_at (mem s) (pl_header_ptr c)" using ar(1) wk True by (simp add: word_le_nat_alt)
      let ?x = "directive_text lib (op_kind op) (op_precision op) (ts ! k)"
      have y: "yields (dispatch_directive fuel lib h junk op (arg_slot s c k) buf s) buf ?x s (64 * fmaps (ts ! k))"
        using depth True Cons.prems(7) dk by (intro dispatch_correct [OF lib False Cons.prems(3) ar(3) [OF True] ar(2) [OF True]]) simp_all
      show ?thesis
      proof (cases ?x)
        case None
        then obtain b s1 where "dispatch_directive fuel lib h junk op (arg_slot s c k) buf s = Some (False, b, s1)" "extends s s1"
          "arena_room s \<le> arena_room s1 + 64 * fmaps (ts ! k)" using yields_None y by metis
        then show ?thesis using False cnt m None by (simp add: runs_def dk)
      next
        case (Some w)
        then obtain s1 where s1: "dispatch_directive fuel lib h junk op (arg_slot s c k) buf s = Some (True, buf @ w, s1)" "extends s s1"
          "arena_room s \<le> arena_room s1 + 64 * fmaps (ts ! k)" using yields_Some y by metis
        have cell: "span_kept s1 cell" "str_of (mem s1) cell = fmt"
          using Cons.prems(5,6) extends_loads(3) [OF s1(2)] kept_range_mono [OF extends_used [OF s1(2)]]
          by (simp_all add: span_kept_def span_bytes_def)
        have wk1: "word_of_nat k + 1 = (word_of_nat (k + 1) :: u32)" by simp
        have "runs (run_format fuel lib h junk (buf @ w) cell ops (pl_header_ptr c) (word_of_nat (k + 1)) s1) (buf @ w)
           (expand lib (concat (map (op_meaning fmt) ops)) (drop (k + 1) ts)) s1 (64 * sum_list (map fmaps (drop (k + 1) ts)))"
        proof (rule Cons.IH [OF lit _ _ content_extends [OF Cons.prems(4) s1(2)] cell])
          show "arena_ok s1" using s1(2) by (simp add: extends_def)
          show "64 * sum_list (map fmaps (drop (k + 1) ts)) \<le> arena_room s1" using Cons.prems(7) s1(3) by (simp add: dk)
        qed (use True in simp)
        then obtain s2 where s2: "run_format fuel lib h junk (buf @ w) cell ops (pl_header_ptr c) (word_of_nat (k + 1)) s1
            = Some (case expand lib (concat (map (op_meaning fmt) ops)) (drop (k + 1) ts) of None \<Rightarrow> Inl CEL_ERR_INVALID_ARGUMENT
                 | Some y \<Rightarrow> Inr ((buf @ w) @ y), s2)" "extends s1 s2"
          "arena_room s1 \<le> arena_room s2 + 64 * sum_list (map fmaps (drop (k + 1) ts))" unfolding runs_def by blast
        have "arena_room s \<le> arena_room s2 + 64 * sum_list (map fmaps (drop k ts))" using s1(3) s2(3) by (simp add: dk)
        moreover have "run_format fuel lib h junk buf cell (op # ops) (pl_header_ptr c) (word_of_nat k) s
            = run_format fuel lib h junk (buf @ w) cell ops (pl_header_ptr c) (word_of_nat (k + 1)) s1"
          using False cnt s1(1) by (simp add: wk1 del: of_nat_add of_nat_Suc of_nat_1)
        ultimately show ?thesis using s2(1) Some m extends_trans [OF s1(2) s2(2)]
          by (cases "expand lib (concat (map (op_meaning fmt) ops)) (drop (k + 1) ts)") (auto simp: runs_def dk)
      qed
    qed
  qed
qed

subsection \<open>The kernel\<close>

lemma list_count_bound: "k < unat (list_count_at m hdr) \<Longrightarrow> unat (word_of_nat k :: u32) = k"
  using unat_u32_lt [of "list_count_at m hdr"] by (simp add: unat_of_nat)

lemma first_poisoned_find:
  "k \<le> n \<Longrightarrow> n = unat (list_count_at m hdr) \<Longrightarrow> first_poisoned m hdr k
     = find poisoned (map (\<lambda>i. load_cv m (cel_value_at (list_element_slot m hdr (word_of_nat i)))) [k..<n])"
proof (induction "n - k" arbitrary: k)
  case 0
  then show ?case by (subst first_poisoned.simps) simp
next
  case (Suc d)
  then have k: "k < n" "d = n - (k + 1)" by simp_all
  then have u: "[k..<n] = k # [k + 1..<n]" by (simp add: upt_conv_Cons)
  have ih: "first_poisoned m hdr (k + 1)
     = find poisoned (map (\<lambda>i. load_cv m (cel_value_at (list_element_slot m hdr (word_of_nat i)))) [k + 1..<n])"
    using Suc k by (intro Suc.hyps(1)) simp_all
  show ?case
    using k Suc.prems unfolding u list.map find.simps poisoned_def [symmetric]
    by (subst first_poisoned.simps) (use ih Suc.prems in \<open>simp add: poisoned_def Let_def del: upt_Suc\<close>)
qed

text \<open>Publishing the text, with room for its bytes.\<close>

lemma commit_correct:
  assumes ok: "arena_ok s" "kept_range s (cel_value_at out) 24" and room: "length bs + 8 \<le> arena_room s"
  obtains s' where "commit_result (cel_value_at out) bs s = Some s'" "keeps (cel_value_at out) s s'"
    "span_result CEL_STRING bs s' (cv s' out)"
proof (cases "bs = []")
  case True
  let ?s' = "set_span CEL_STRING 0 0 (cel_value_at out) s"
  have "keeps (cel_value_at out) s ?s'" by (rule only_cell_keeps [OF only_cell_set_span ok(1)])
  moreover have "span_result CEL_STRING bs ?s' (cv ?s' out)"
    using True by (simp add: span_result_def cell_set_span span_kept_def span_bytes_def bytes_at_0)
  ultimately show thesis using that True by (simp add: commit_result_def)
next
  case False
  let ?n = "word_of_nat (length bs) :: u32" and ?o = "cel_value_at out"
  have "arena_room s < 2 ^ 32" unfolding arena_room_def using unat_u32_lt [of "ch_capacity (last (chunks s))"] by simp
  then have n: "unat ?n = length bs" "?n \<le> UINT32_MAX - 7" using room by (simp_all add: unat_of_nat word_le_nat_alt)
  have "unat (align_up_8 ?n) \<le> length bs + 7" using unat_align_up_8 [OF n(2)] n(1) by presburger
  then have need: "unat (alloc_need ?n) \<le> arena_room s" using room by (simp add: alloc_need_def)
  obtain p t where p: "arena_alloc ?n s = Some (p, t)" "p \<noteq> 0" "extends s t" "kept_range t (unat p) (unat ?n)"
    "fresh_range s (unat p) (unat ?n)" by (rule alloc_room [OF ok(1) n(2) need])
  let ?u = "t\<lparr>mem := store_bytes (mem t) (unat p) bs\<rparr>" and ?s' = "set_span CEL_STRING p ?n ?o (t\<lparr>mem := store_bytes (mem t) (unat p) bs\<rparr>)"
  have "extends s ?u"
    by (rule extends_fill [OF p(3), of "unat p" "length bs"])
      (use p(5) n(1) in \<open>auto simp: fresh_range_def same_outside_store_bytes\<close>)
  then have "keeps ?o s ?u" "arena_ok ?u" by (simp_all add: extends_keeps extends_def)
  then have k: "keeps ?o s ?s'" using only_cell_keeps [OF only_cell_set_span] keeps_trans by blast
  have ap: "apart (unat p) (unat ?n) ?o 24" using fresh_apart [OF p(5) ok(2)] by (simp add: apart_sym)
  have "str_of (mem ?s') (cv ?s' out) = bs"
    using str_of_set_span [OF ap, of CEL_STRING ?u] n(1) by (simp add: bytes_at_store_bytes)
  moreover have "span_kept ?s' (cv ?s' out)" using p(4) by (simp add: span_kept_def cell_set_span) (simp add: set_span_def)
  ultimately have "span_result CEL_STRING bs ?s' (cv ?s' out)" by (simp add: span_result_def cell_set_span)
  then show thesis using that [OF _ k] p(1,2) False by (simp add: commit_result_def)
qed

definition arg_cells :: "rt \<Rightarrow> cel_value \<Rightarrow> nat \<Rightarrow> cel_value list" where
  "arg_cells s c n = map (\<lambda>i. cv s (arg_slot s c i)) [0..<n]"

text \<open>The room a format takes: its maps' scratch, and the bytes of the text.\<close>

definition format_room :: "format_lib \<Rightarrow> segment list \<Rightarrow> fval list \<Rightarrow> nat" where
  "format_room lib segs ts = 64 * sum_list (map fmaps ts)
     + (case expand lib (map segment_meaning segs) ts of None \<Rightarrow> 0 | Some text \<Rightarrow> length text + 8)"

text \<open>What a well-formed format leaves in the out cell.\<close>

definition formatted :: "format_lib \<Rightarrow> segment list \<Rightarrow> fval list \<Rightarrow> cel_value list \<Rightarrow> u32 \<Rightarrow> rt \<Rightarrow> bool" where
  "formatted lib segs ts args out s' \<longleftrightarrow>
     (case find poisoned args of
        Some v \<Rightarrow> cv s' out = v
      | None \<Rightarrow> (case expand lib (map segment_meaning segs) ts of
            None \<Rightarrow> is_err (cv s' out) CEL_ERR_INVALID_ARGUMENT
          | Some text \<Rightarrow> span_result CEL_STRING text s' (cv s' out)))"

lemma run_and_commit_correct:
  assumes lib: "lib_ok lib" and ok: "arena_ok s" "kept_range s (cel_value_at out) 24"
    and cell: "span_kept s cell" "str_of (mem s) cell = format_text segs" and c: "content s c (FList ts)"
    and depth: "\<forall>t \<in> set ts. fdepth t \<le> fuel" and room: "format_room lib segs ts \<le> arena_room s"
    and good: "ops_good (format_text segs) (length (format_text segs)) ops (map segment_meaning segs)"
  obtains s' where "run_and_commit fuel lib h junk (cel_value_at out) cell ops (pl_header_ptr c) s = Some s'"
    "keeps (cel_value_at out) s s'"
    "case expand lib (map segment_meaning segs) ts of None \<Rightarrow> is_err (cv s' out) CEL_ERR_INVALID_ARGUMENT
       | Some text \<Rightarrow> span_result CEL_STRING text s' (cv s' out)"
proof -
  let ?x = "expand lib (map segment_meaning segs) ts"
  have r0: "64 * sum_list (map fmaps (drop 0 ts)) \<le> arena_room s" using room by (simp add: format_room_def)
  have lit: "\<forall>op \<in> set ops. op_kind op = kLiteral \<longrightarrow> unat (op_byte_off op) + unat (op_len op) \<le> length (format_text segs)"
    and ms: "concat (map (op_meaning (format_text segs)) ops) = map segment_meaning segs" using good by (simp_all add: ops_good_def)
  have zero: "word_of_nat 0 = (0 :: u32)" by simp
  from run_format_correct [OF lib depth lit le0 ok(1) c cell r0, of h junk "[]"] obtain s1 where
    s1: "run_format fuel lib h junk [] cell ops (pl_header_ptr c) 0 s
        = Some (case ?x of None \<Rightarrow> Inl CEL_ERR_INVALID_ARGUMENT | Some y \<Rightarrow> Inr y, s1)" "extends s s1"
      "arena_room s \<le> arena_room s1 + 64 * sum_list (map fmaps ts)"
    unfolding runs_def ms drop_0 zero append_Nil by blast
  have ok1: "arena_ok s1" "kept_range s1 (cel_value_at out) 24"
    using s1(2) kept_range_mono [OF extends_used [OF s1(2)] ok(2)] by (simp_all add: extends_def)
  show thesis
  proof (cases ?x)
    case None
    have "keeps (cel_value_at out) s (poison (cel_value_at out) CEL_ERR_INVALID_ARGUMENT s1)"
      using keeps_trans [OF extends_keeps [OF s1(2)] only_cell_keeps [OF _ ok1(1)]] by simp
    then show thesis using that s1(1) None by (simp add: run_and_commit_def is_err_poison)
  next
    case (Some x)
    then have "length x + 8 \<le> arena_room s1" using room s1(3) by (simp add: format_room_def)
    then obtain s' where s': "commit_result (cel_value_at out) x s1 = Some s'" "keeps (cel_value_at out) s1 s'"
      "span_result CEL_STRING x s' (cv s' out)" by (rule commit_correct [OF ok1])
    then show thesis using that keeps_trans [OF extends_keeps [OF s1(2)] s'(2)] s1(1) Some by (simp add: run_and_commit_def)
  qed
qed

lemma string_format_correct:
  assumes lib: "lib_ok lib" and ok: "arena_ok s" "kept_range s (cel_value_at out) 24"
    and f: "cv_kind (cv s f) = CEL_STRING" "span_kept s (cv s f)" and c: "content s (cv s a) (FList ts)"
    and depth: "fdepth (FList ts) \<le> Suc fuel" and cache: "cache_ok (simple_atoi lib) cache"
  shows "list_all segment_ok segs \<Longrightarrow> str_of (mem s) (cv s f) = format_text segs \<Longrightarrow> format_room lib segs ts \<le> arena_room s \<Longrightarrow>
      \<exists>cache' s'. cel_string_format_at_vv fuel lib h junk out f a (cache, s) = Some (cache', s') \<and> cache_ok (simple_atoi lib) cache'
        \<and> keeps (cel_value_at out) s s' \<and> formatted lib segs ts (arg_cells s (cv s a) (length ts)) out s'"
    and "(\<nexists>segs. list_all segment_ok segs \<and> str_of (mem s) (cv s f) = format_text segs) \<Longrightarrow>
      \<exists>cache' s'. cel_string_format_at_vv fuel lib h junk out f a (cache, s) = Some (cache', s') \<and> cache_ok (simple_atoi lib) cache'
        \<and> keeps (cel_value_at out) s s' \<and> is_err (cv s' out) CEL_ERR_INVALID_ARGUMENT"
proof -
  let ?o = "cel_value_at out" and ?hdr = "pl_header_ptr (cv s a)" and ?fmt = "str_of (mem s) (cv s f)"
  obtain ok' cache' where rc: "refresh_cache (simple_atoi lib) ?fmt cache = (ok', cache')" by force
  have cok: "cache_ok (simple_atoi lib) cache'" using refresh_cache_ok(1) [OF cache, of ?fmt] rc by simp
  have verdict: "case parse_format (simple_atoi lib) ?fmt of Inl _ \<Rightarrow> \<not> ok' | Inr ops \<Rightarrow> ok' \<and> cached_ops cache' = ops"
    using refresh_cache_ok(2) [OF cache, of ?fmt] unfolding rc fst_conv snd_conv .
  have ak: "cv_kind (cv s a) = CEL_LIST_ARENA" using c unfolding content_simps by blast
  have eq: "cel_string_format_at_vv fuel lib h junk out f a (cache, s) =
     (if \<not> ok' then Some (cache', poison ?o CEL_ERR_INVALID_ARGUMENT s)
      else (case first_poisoned (mem s) ?hdr 0 of
          Some absorbed \<Rightarrow> Some (cache', s\<lparr>mem := store_cv (mem s) ?o absorbed\<rparr>)
        | None \<Rightarrow> map_option (Pair cache') (run_and_commit fuel lib h junk ?o (cv s f) (cached_ops cache') ?hdr s)))"
  proof -
    have ab: "absorb_3vl_unary ?o (cel_value_at f) s = (False, s)" "absorb_3vl_unary ?o (cel_value_at a) s = (False, s)"
      using f(1) ak by (simp_all add: absorb_3vl_unary_def)
    have res: "resolve_args_header h junk out a s = Some (Some ?hdr, s)"
      using ak by (simp add: resolve_args_header_def cel_list_arena_view_def)
    have k: "(cv_kind (cv s f) \<noteq> CEL_STRING) = False" using f(1) by simp
    show ?thesis
      unfolding cel_string_format_at_vv_def Let_def prod.case ab if_False k res Option.bind.simps option.case rc
      by (rule refl)
  qed
  have fl: "length ?fmt < 2 ^ 32" using unat_u32_lt [of "pl_s_len (cv s f)"] by simp
  have atoi: "atoi_ok (simple_atoi lib)" using lib by (simp add: lib_ok_def)
  have depths: "\<forall>t \<in> set ts. fdepth t \<le> fuel" using fdepth_list [OF depth] by blast
  have args: "first_poisoned (mem s) ?hdr 0 = find poisoned (arg_cells s (cv s a) (length ts))"
    unfolding arg_cells_def by (rule first_poisoned_find [OF le0 content_args(1) [OF c, symmetric]])
  show "\<exists>cache' s'. cel_string_format_at_vv fuel lib h junk out f a (cache, s) = Some (cache', s') \<and> cache_ok (simple_atoi lib) cache'
        \<and> keeps ?o s s' \<and> formatted lib segs ts (arg_cells s (cv s a) (length ts)) out s'"
    if segs: "list_all segment_ok segs" "?fmt = format_text segs" and room: "format_room lib segs ts \<le> arena_room s"
  proof -
    obtain ops where ops: "parse_format (simple_atoi lib) ?fmt = Inr ops" "ops_good ?fmt (length ?fmt) ops (map segment_meaning segs)"
      using parse_format_good [of segs "simple_atoi lib"] fl atoi segs by auto
    then have v: "ok'" "cached_ops cache' = ops" using verdict by simp_all
    show ?thesis
    proof (cases "find poisoned (arg_cells s (cv s a) (length ts))")
      case (Some v)
      have "keeps ?o s (s\<lparr>mem := store_cv (mem s) ?o v\<rparr>)"
        by (rule only_cell_keeps [OF only_cell_store [OF same_outside_store_cv] ok(1)])
      then show ?thesis using eq \<open>ok'\<close> args Some cok by (simp add: formatted_def mem_simps)
    next
      case None
      obtain s' where "run_and_commit fuel lib h junk ?o (cv s f) ops ?hdr s = Some s'" "keeps ?o s s'"
        "case expand lib (map segment_meaning segs) ts of None \<Rightarrow> is_err (cv s' out) CEL_ERR_INVALID_ARGUMENT
           | Some text \<Rightarrow> span_result CEL_STRING text s' (cv s' out)"
        using run_and_commit_correct [OF lib ok f(2) segs(2) c depths room] ops(2) segs(2) by metis
      then show ?thesis using eq v args None cok by (auto simp: formatted_def)
    qed
  qed
  show "\<exists>cache' s'. cel_string_format_at_vv fuel lib h junk out f a (cache, s) = Some (cache', s') \<and> cache_ok (simple_atoi lib) cache'
        \<and> keeps ?o s s' \<and> is_err (cv s' out) CEL_ERR_INVALID_ARGUMENT"
    if none: "\<nexists>segs. list_all segment_ok segs \<and> ?fmt = format_text segs"
  proof -
    obtain segs rest e where bad: "list_all segment_ok segs" "?fmt = format_text segs @ 0x25 # rest" "malformed rest e"
      using format_or_malformed [of ?fmt] none by blast
    have "parse_format (simple_atoi lib) ?fmt = Inl e" by (rule parse_format_rejects [OF bad(2) fl atoi bad(1,3)])
    then show ?thesis using eq verdict cok only_cell_keeps [OF _ ok(1), of ?o "poison ?o CEL_ERR_INVALID_ARGUMENT s"]
      by (simp add: is_err_poison)
  qed
qed

text \<open>Operands the kernel passes on or refuses before it looks at the format.\<close>

lemma string_format_operands:
  "poisoned (cv s f) \<Longrightarrow> cel_string_format_at_vv fuel lib h junk out f a (cache, s) = Some (cache, copy_cv (cel_value_at out) (cel_value_at f) s)"
  "\<not> poisoned (cv s f) \<Longrightarrow> poisoned (cv s a)
    \<Longrightarrow> cel_string_format_at_vv fuel lib h junk out f a (cache, s) = Some (cache, copy_cv (cel_value_at out) (cel_value_at a) s)"
  "\<not> poisoned (cv s f) \<Longrightarrow> \<not> poisoned (cv s a) \<Longrightarrow> cv_kind (cv s f) \<noteq> CEL_STRING \<or> \<not> is_list_kind (cv_kind (cv s a))
    \<Longrightarrow> cel_string_format_at_vv fuel lib h junk out f a (cache, s) = Some (cache, poison (cel_value_at out) CEL_ERR_TYPE_MISMATCH s)"
  by (auto simp: cel_string_format_at_vv_def absorb_3vl_unary_def poisoned_def resolve_args_header_def is_list_kind_def Let_def)

subsection \<open>What the operators guarantee\<close>

text \<open>
  The values on which code and documentation agree under \<open>%s\<close>: bytes are valid UTF-8, durations whole seconds in the
  range of CEL, and the keys of a map have different texts.
\<close>

primrec documented :: "format_lib \<Rightarrow> fval \<Rightarrow> bool" where
  "documented lib FNull \<longleftrightarrow> True" | "documented lib (FBool b) \<longleftrightarrow> True" | "documented lib (FInt i) \<longleftrightarrow> True"
| "documented lib (FUint n) \<longleftrightarrow> True" | "documented lib (FDouble d) \<longleftrightarrow> True" | "documented lib (FString bs) \<longleftrightarrow> True"
| "documented lib (FBytes bs) \<longleftrightarrow> (\<exists>cs. bs = utf8_string cs \<and> (\<forall>c\<in>set cs. scalar_value c))"
| "documented lib (FType bs) \<longleftrightarrow> True" | "documented lib (FTime a b) \<longleftrightarrow> True"
| "documented lib (FDur u) \<longleftrightarrow> u mod 10 ^ 9 = 0 \<and> \<bar>u\<bar> \<le> DURATION_MAX_SECONDS * 10 ^ 9"
| "documented lib FOther \<longleftrightarrow> True"
| "documented lib (FList ts) \<longleftrightarrow> list_all id (map (documented lib) ts)"
| "documented lib (FMap es) \<longleftrightarrow> list_all (\<lambda>(a, b). a \<and> b) (map (map_prod (documented lib) (documented lib)) es)
     \<and> distinct (map (\<lambda>e. canon lib (fst e)) es)"

text \<open>
  The calls on which they agree: no more arguments than directives, no double under \<open>%d\<close>, and documented values under \<open>%s\<close>.
\<close>

fun documented_call :: "format_lib \<Rightarrow> instr list \<Rightarrow> fval list \<Rightarrow> bool" where
  "documented_call lib [] ts \<longleftrightarrow> ts = []"
| "documented_call lib (Emit b # is) ts \<longleftrightarrow> documented_call lib is ts"
| "documented_call lib (Render k p # is) [] \<longleftrightarrow> True"
| "documented_call lib (Render k p # is) (t # ts) \<longleftrightarrow> (k = kSubstring \<longrightarrow> documented lib t) \<and> (k = kDecimal \<longrightarrow> (\<nexists>d. t = FDouble d))
     \<and> documented_call lib is ts"

text \<open>
  C39. \<open>%s\<close> of a value is its canonical text: for nested lists and maps of scalars, with fuel for the nesting
  and arena room for the iterators of its maps, the renderer appends exactly that text, sorted by key text
  in maps, and refuses exactly the values that have none; it never disturbs what was live. The values covered are those on which
  code and documentation agree: bytes that are not valid UTF-8, durations with a fraction of a second and maps with two keys of one
  text are left out. The text of a finite double and of an instant is the library's.
\<close>

theorem render_string_canonical:
  assumes "lib_ok lib" "arena_ok s" "kept_range s (cel_value_at slot) 24" "content s (cv s slot) t" and "documented lib t"
    and "fdepth t \<le> fuel" "64 * fmaps t \<le> arena_room s"
  shows "\<exists>ok buf' s'. render_string fuel lib h junk slot buf s = Some (ok, buf', s') \<and> extends s s'
    \<and> (case canon lib t of None \<Rightarrow> \<not> ok | Some x \<Rightarrow> ok \<and> buf' = buf @ x)"
  using render_string_correct [OF assms(1,6), of h junk] assms(2-4,7) unfolding yields_def by blast


subsection \<open>A concrete format\<close>

text \<open>The format \<open>%s=%d\<close> in the cell at 1200, its arguments \<open>[{7: 1}, 5]\<close> in the cell at 1000.\<close>

definition sample_lib :: format_lib where
  "sample_lib = \<lparr>simple_atoi = sample_atoi, str_int = (\<lambda>v. signed_text digit_lower 10 (sint v)),
     str_uint = (\<lambda>v. base_text digit_lower 10 (unat v)), str_double = (\<lambda>v. signed_text digit_lower 10 (d_trunc v)),
     zero_padded = (\<lambda>w i. padded_text w (nat i)), fixed_text = (\<lambda>p v. signed_text digit_lower 10 (d_trunc v)),
     scientific_text = (\<lambda>p v. signed_text digit_lower 10 (d_trunc v)), octal_text = (\<lambda>v. base_text digit_lower 8 (unat v)),
     hex_lower = (\<lambda>v. base_text digit_lower 16 (unat v)), hex_upper = (\<lambda>v. base_text digit_upper 16 (unat v)),
     bytes_to_hex = bytes_hex digit_lower, str_to_upper = map (\<lambda>c. if 0x61 \<le> c \<and> c \<le> 0x7A then c - 0x20 else c),
     format_time = (\<lambda>secs nanos. ascii ''1970-01-01T00:00:00+00:00'')\<rparr>"

lemma sample_lib_ok: "lib_ok sample_lib"
proof -
  have "ascii ''1970-01-01T00:00:00+00:00'' = ascii ''1970-01-01T00:00:00'' @ ascii ''+00:00''" "ascii ''1970-01-01T00:00:00'' \<noteq> []"
    by (simp_all add: ascii_def)
  then show ?thesis unfolding lib_ok_def sample_lib_def by (auto simp: sample_atoi_ok)
qed

definition sample_format_bytes :: "u8 list" where "sample_format_bytes = [0x25, 0x73, 0x3D, 0x25, 0x64]"

definition sample_format :: rt where
  "sample_format = sample_dict\<lparr>mem := store_bytes (store_cv (store_cv (store_cv (store_cv (store_words4 (mem sample_dict) 1040 2 2 1100 0)
     1000 (cell_of CEL_LIST_ARENA 1040)) 1100 (cell_of CEL_MAP_ARENA 300)) 1124 (cell_of CEL_INT 5))
     1200 \<lparr>cv_kind = CEL_STRING, cv_pad = 0, cv_lo = join32 1300 5, cv_hi = 0\<rparr>) 1300 sample_format_bytes\<rparr>"

lemma sample_format_cells:
  "cv sample_format 1000 = cell_of CEL_LIST_ARENA 1040" "load_cv (mem sample_format) 1100 = cell_of CEL_MAP_ARENA 300"
  "load_cv (mem sample_format) 1124 = cell_of CEL_INT 5"
  "cv sample_format 1200 = \<lparr>cv_kind = CEL_STRING, cv_pad = 0, cv_lo = join32 1300 5, cv_hi = 0\<rparr>"
  "load_cv (mem sample_format) 400 = cell_of CEL_INT 7" "load_cv (mem sample_format) 424 = cell_of CEL_INT 1"
  unfolding sample_format_def cel_value_at_def rt.simps
  by (simp_all add: load_cv_under_bytes mem_simps load_cv_store_words4_other sample_dict_cells)

lemma sample_format_words:
  "load32 (mem sample_format) 1040 = 2" "load32 (mem sample_format) 1048 = 1100"
  "load32 (mem sample_format) 300 = 1" "load32 (mem sample_format) 308 = 400"
proof -
  have w: "load32 (mem sample_dict) 300 = 1" "load32 (mem sample_dict) 308 = 400"
    using load_words4 [of _ 300 1 2 400 0] by (simp_all add: sample_dict_def load32_store_cv_other)
  show "load32 (mem sample_format) 1040 = 2" "load32 (mem sample_format) 1048 = 1100"
    using load_words4 [of "mem sample_dict" 1040 2 2 1100 0]
    by (simp_all add: sample_format_def load32_store_bytes_below load32_store_cv_other)
  have so: "same_outside 1040 16 (mem sample_dict) (store_words4 (mem sample_dict) 1040 2 2 1100 0)" by (rule same_outside_words4)
  have "load32 (store_words4 (mem sample_dict) 1040 2 2 1100 0) 300 = load32 (mem sample_dict) 300"
    "load32 (store_words4 (mem sample_dict) 1040 2 2 1100 0) 308 = load32 (mem sample_dict) 308"
    by (rule load32_apart [OF so, of 300 16]; simp add: apart_def)+
  then show "load32 (mem sample_format) 300 = 1" "load32 (mem sample_format) 308 = 400"
    using w by (simp_all add: sample_format_def load32_store_bytes_below load32_store_cv_other)
qed

lemma content_int: "content s (cell_of CEL_INT x) (FInt (sint x))"
proof -
  have "leaf_ok s (cell_of CEL_INT x)" "leaf_of (mem s) (cell_of CEL_INT x) = FInt (sint x)"
    by (simp_all add: leaf_ok_def leaf_of_def pl_defs)
  then show ?thesis using content_leafI by metis
qed

lemma sample_format_map: "content sample_format (cell_of CEL_MAP_ARENA 300) (FMap [(FInt 7, FInt 1)])"
proof -
  have "content sample_format (cell_of CEL_INT 7) (FInt 7)" "content sample_format (cell_of CEL_INT 1) (FInt 1)"
    using content_int [of sample_format 7] content_int [of sample_format 1] by simp_all
  moreover have "arena_map_header (cell_of CEL_MAP_ARENA 300) = 300" by (simp add: arena_map_header_def pl_defs lo32_def)
  ultimately show ?thesis unfolding content_simps
    by (simp add: map_count_def map_entries_def sample_format_words sample_format_cells low_kept)
qed

lemma sample_format_args: "content sample_format (cv sample_format 1000) (FList [FMap [(FInt 7, FInt 1)], FInt 5])"
proof -
  have h: "pl_header_ptr (cell_of CEL_LIST_ARENA 1040) = 1040" by (simp add: pl_defs lo32_def)
  have e: "cel_value_at (list_element_slot (mem sample_format) 1040 (word_of_nat i)) = 1100 + 24 * i" if "i < 2" for i
    using that by (auto simp: less_2_cases_iff list_element_slot_def list_elements_def sample_format_words cel_value_at_def)
  have "content sample_format (cell_of CEL_INT 5) (FInt 5)" using content_int [of sample_format 5] by simp
  then show ?thesis unfolding content_simps sample_format_cells(1) h
    using e [of 0] e [of 1]
    by (simp add: All_less_Suc list_count_at_def list_count_def sample_format_words sample_format_cells low_kept sample_format_map)
qed

lemma sample_digits:
  "signed_text digit_lower 10 7 = ascii ''7''" "signed_text digit_lower 10 1 = ascii ''1''" "signed_text digit_lower 10 5 = ascii ''5''"
  by (simp_all add: signed_text_def base_text_def base_digits.simps [of 10] digit_lower_def ascii_def)

lemma sample_map_text: "canon sample_lib (FMap [(FInt 7, FInt 1)]) = Some (ascii ''{7: 1}'')"
  by (simp add: sample_digits map_text_def ascii_def)

lemma sample_format_ok:
  "arena_ok sample_format" "arena_room sample_format = 4096" "kept_range sample_format (cel_value_at 1000) 24"
  "kept_range sample_format (cel_value_at 1400) 24" "span_kept sample_format (cv sample_format 1200)"
  "str_of (mem sample_format) (cv sample_format 1200) = sample_format_bytes" "cv_kind (cv sample_format 1200) = CEL_STRING"
proof -
  show "arena_ok sample_format" using sample_dict_ok(1) by (simp add: sample_format_def)
  show "arena_room sample_format = 4096" by (simp add: sample_format_def sample_dict_def sample_rt_room)
  have "length sample_format_bytes = 5" by (simp add: sample_format_bytes_def)
  then have "bytes_at (mem sample_format) 1300 5 = sample_format_bytes"
    using bytes_at_store_bytes [of _ 1300 sample_format_bytes] by (simp add: sample_format_def)
  then show "str_of (mem sample_format) (cv sample_format 1200) = sample_format_bytes"
    by (simp add: sample_format_cells span_bytes_def pl_defs)
  show "span_kept sample_format (cv sample_format 1200)" "cv_kind (cv sample_format 1200) = CEL_STRING"
    unfolding sample_format_cells by (simp_all add: low_kept span_kept_def pl_defs)
qed (simp_all add: low_kept cel_value_at_def)

theorem render_string_canonical_witness:
  "\<exists>s'. render_string 3 sample_lib weak_host (cell_of 0 0) 1000 (ascii ''>'') sample_format
     = Some (True, ascii ''>'' @ ascii ''[{7: 1}, 5]'', s')"
proof -
  have "canon sample_lib (FList [FMap [(FInt 7, FInt 1)], FInt 5]) = Some (ascii ''[{7: 1}, 5]'')"
    using sample_map_text by (simp add: sample_digits) (simp add: ascii_def)
  then show ?thesis
    using render_string_canonical [OF sample_lib_ok sample_format_ok(1,3) sample_format_args _, of 3 weak_host "cell_of 0 0" "ascii ''>''"]
    by (fastforce simp: sample_format_ok(2) simp del: canon.simps)
qed


end
