(* ===== verification/Spec2Isabelle.thy ===== *)
theory Spec2Isabelle
  imports TypeOf CelCivil MathExt NetExt StrList WasmBinary StaticLayout StaticMemory Attributes FormatCorrect
begin

text \<open>
  Verification of cel-wasm. Its centre is the runtime (\<open>src/runtime/\<close>), the C library the CEL compiler of this
  repository links into every module it emits. Generated code calls its kernels with 32-bit offsets
  of 24-byte cells in one linear memory; a kernel reads its operand cells, may allocate in a bump
  arena, and writes the cell of its result. Around it stand the parts of the compiler that lay out the
  memory below the runtime's own, the codec of the wasm binaries the program is stored in, and the attribute
  patterns of partial evaluation.

  \<^bold>\<open>How the program is modelled.\<close> The state is one record: the memory (a function from byte addresses to
  bytes, little-endian, the base at address 0 as in the wasm build), the arena's chunk list and cursors,
  and the operating system's allocator as a function of the call number. A kernel is a function from slot
  offsets and state to an optional state; \<open>None\<close> is a trap. Errors are cells of kind \<open>CEL_ERROR\<close>, as in the
  code. Machine integers are words of their width; doubles are 64-bit patterns with binary64 arithmetic
  defined on them (\<open>Ieee\<close>). Kernels that call the host take the record \<open>cel_host\<close>, and the native build's
  weak stubs are one instance of it. Loops are structural recursion or \<open>function\<close> with a measure; the mutual
  recursion of deep equality through nested containers carries a fuel that counts the depth, and its
  theorems say which depth of the value is enough.

  \<^bold>\<open>Theories, in the order of the code.\<close>

  \<^item> \<open>Prelude\<close>, \<open>LinearMemory\<close>: collections and generic lemmas; loads and stores, frames, the cell
    (\<open>cel_data.h\<close>, \<open>cel_memory.c\<close>).
  \<^item> \<open>Arena\<close> (\<open>cel_arena.c\<close>): chunks, growth, reset; \<open>arena_inv\<close> and that each allocation is a fresh, aligned,
    zeroed block disjoint from every live one. \<open>refused\<close> says that the arena answers one of a list of requests with NULL:
    the kernels that answer an overflow for want of memory are tied to the requests they make.
  \<^item> \<open>CelInternal\<close>, \<open>ByteScan\<close> (\<open>cel_internal.h\<close>): slot writers; word-at-a-time equality, SWAR and SIMD
    memchr, each equal to the byte loop.
  \<^item> \<open>ThreeValued\<close> (\<open>cel_3vl.c\<close>): \<open>and\<close>, \<open>or\<close>, \<open>not\<close>, the merge of unknown sets, the strict prologue,
    refined to a value domain of booleans, errors and unknown sets.
  \<^item> \<open>Ieee\<close>, \<open>Arith\<close>, \<open>Compare\<close> (\<open>cel_arith.c\<close>, \<open>cel_compare.c\<close>): exact integer results or overflow, the numeric
    ladder as comparison of the mathematical values.
  \<^item> \<open>StringOps\<close> (\<open>cel_string_ops.c\<close>, \<open>cel_make.c\<close>): span predicates as list relations, concatenation, sizes.
  \<^item> \<open>ValueEq\<close>, \<open>MapHash\<close>, \<open>MapIndex\<close> (\<open>cel_map_hash.h\<close>, \<open>cel_map_index.c\<close>): the key rule, the hash that respects it,
    the SwissTable index, built and searched, equal to the linear scan.
  \<^item> \<open>ArenaRuns\<close>, \<open>HostImports\<close>, \<open>Lists\<close>, \<open>Maps\<close>, \<open>MapLaws\<close>, \<open>MapOps\<close>, \<open>Equality\<close>, \<open>DeepEquality\<close> (\<open>cel_runtime.c\<close>,
    \<open>cel_list.h\<close>, \<open>cel_map.h\<close>): construction, growth, lookup, merge, iteration of arena lists and maps, and structural
    equality.
  \<^item> \<open>Optional\<close> (\<open>cel_optional.c\<close>), \<open>Utf8\<close> and \<open>Convert\<close> (\<open>cel_convert.c\<close>), \<open>TypeOf\<close> (\<open>cel_type.c\<close>).
  \<^item> \<open>CelTime\<close>, \<open>CelCivil\<close> (\<open>cel_time.c\<close>): arithmetic and order on nanosecond counts, the civil calendar.
  \<^item> \<open>MathExt\<close> (\<open>cel_math_ext.c\<close>), \<open>NetExt\<close> (\<open>cel_net_ext.c\<close>): the math and network extensions; CIDR blocks as
    sets of addresses.
  \<^item> \<open>StrExt\<close>, \<open>StrSearch\<close>, \<open>StrList\<close> (\<open>cel_string_ext_codepoint.cc\<close>, \<open>cel_string_ext_quote.cc\<close>, \<open>cel_string_ext_search.cc\<close>,
    \<open>cel_string_ext_list.cc\<close>): the string extension over code points; the anchored searches against the plain search of
    code point lists; splitting into a list and joining back.
  \<^item> \<open>StrFormat\<close>, \<open>FormatRender\<close>, \<open>FormatCorrect\<close> (\<open>cel_string_format.cc\<close>, \<open>cel_string_format_render.cc\<close>): the format
    parser decides the grammar of formats and its cache is transparent; \<open>%s\<close> of a nested value is its canonical text,
    and the kernel writes the format's text on its arguments. The fuel bounds the nesting of a value, and the room asked
    for is the iterator cells of each map rendered and the text itself.
  \<^item> \<open>WasmBinary\<close> (\<open>abi/wasm_binary.cc\<close>): LEB128, the walk over the sections of a module, custom sections added and found.
  \<^item> \<open>StaticLayout\<close> (\<open>compiler/codegen/slot_allocator.cc\<close>, \<open>compiler/memory_layout.h\<close>, the variable slots and the gate of
    \<open>compiler/codegen/layout_pass.cc\<close>): no two live cells of the workspace overlap, with reuse and in debug mode, and an
    accepted layout stays below the runtime's memory.
  \<^item> \<open>StaticMemory\<close> (\<open>compiler/codegen/static_memory_builder.cc\<close>): the bytes the compiler emits for constants are the cells,
    lists and maps the runtime's kernels are proved correct for; the index baked for a map literal is simulated by the
    runtime's own construction of \<open>MapIndex\<close>.
  \<^item> \<open>Attributes\<close> (\<open>eval/attribute.cc\<close>): the pattern parser as the inverse of printing, matching as containment of
    attribute trees.

  \<^bold>\<open>Interfaces.\<close> Locales state what one part promises another: an object of the memory with its frame
  (\<open>mem_object\<close>), the allocator its clients rely on (\<open>bump_allocator\<close>), a strict kernel as its callers see it
  (\<open>strict_kernel\<close>), a lookup that agrees with the linear scan (\<open>key_finder\<close>), and a published record
  (\<open>net_record\<close>). Each is interpreted on the code's definitions in the theory that provides them.

  \<^bold>\<open>Assumptions.\<close> The operating system's allocator returns NULL or a block inside the address space, away from
  earlier blocks and the reserved low memory (\<open>malloc_ok\<close>); \<open>inet_pton\<close> returns four or sixteen bytes (\<open>codec_ok\<close>);
  \<open>absl\<close>'s ASCII classes are those of ASCII (\<open>ascii_ok\<close>), its formatters are as documented (\<open>lib_ok\<close>), and the code point properties are about valid UTF-8;
  nothing is assumed of the host imports, and the properties that go through a dispatcher are about arena values. Operand cells lie in kept memory, and a kernel's result
  slot does not overlap the data its operands point to (it may be an operand's slot). Byte lengths are
  below \<open>2 ^ 32\<close>, the size of the memory.

  \<^bold>\<open>Where code and documentation differ.\<close> A property covers the cases on which the code and its comments and documents agree;
  what the code does on the others is a lemma of the theory. Left out in this way are: the type of an optional; the
  iteration of a map when the arena has no room for the iterator; network texts with a NUL byte; \<open>indexOf\<close> at negative positions and both
  searches at positions between the number of code points and of bytes; attribute patterns with characters
  other than those of identifiers, dots and stars; map constants whose string keys overflow the staging arena; under \<open>%s\<close>,
  bytes that are not UTF-8, fractions of a second and maps with two keys of one text; a double under \<open>%d\<close>; and surplus arguments of \<open>format\<close>.

  \<^bold>\<open>Not modelled.\<close> Code whose result is computed by libraries outside the repository: double formatting
  (\<open>std::to_chars\<close>), RFC 3339 and duration text (\<open>absl\<close> time), base64 (\<open>absl\<close>), regular expressions (RE2). The
  number and time formatters that \<open>format\<close> calls are the fields of a record (\<open>format_lib\<close>); the log kernel, which only
  forwards a message, is left out.
  The compiler's front end (cel-cpp parser and checker) and its lowering to Binaryen IR, the evaluation engine
  (wasmtime, protobuf reflection), the serialisation of the ABI messages, and the test, benchmark and conformance drivers. Traps of
  the wasm machine other than allocation, and concurrent use (instances are single-threaded), are outside the model.
\<close>

end
